(* ===== verification/Prelude.thy ===== *)
theory Prelude
  imports Main "HOL-Library.List_Lexorder" "HOL-Library.While_Combinator" "HOL-Library.Word"
begin

text \<open>
  What the components share: the standard containers of the source (an ordered
  \<open>std::set\<close> is the sorted list its iterators walk over, a \<open>std::map\<close> is a partial
  function), the value of a call that may hit a failing \<open>assert\<close>, and the rules for
  loops and for graph reachability that the work list algorithms use.
\<close>

named_theorems std_simps \<open>the laws of the container operations\<close>

section \<open>Ordered sets\<close>

text \<open>
  A \<open>std::set<T>\<close> keeps its elements in the order of \<open>operator<\<close>; an iteration from
  \<open>begin()\<close> to \<open>end()\<close> visits them in this order. The model is that list.
\<close>

type_synonym 'a std_set = "'a list"

abbreviation std_set_ok :: "'a::linorder std_set \<Rightarrow> bool" where
  "std_set_ok xs \<equiv> sorted_wrt (<) xs"

definition set_insert :: "'a::linorder \<Rightarrow> 'a std_set \<Rightarrow> 'a std_set" where
  "set_insert x xs = insort_insert x xs"

definition set_erase :: "'a::linorder \<Rightarrow> 'a std_set \<Rightarrow> 'a std_set" where
  "set_erase x xs = remove1 x xs"

definition set_find :: "'a::linorder \<Rightarrow> 'a std_set \<Rightarrow> bool" where
  "set_find x xs \<longleftrightarrow> x \<in> set xs"

lemma strict_sorted_iff': "std_set_ok xs \<longleftrightarrow> sorted xs \<and> distinct xs"
  by (rule strict_sorted_iff)

lemma set_set_insert [simp, std_simps]: "set (set_insert x xs) = insert x (set xs)"
  by (simp add: set_insert_def set_insort_insert)

lemma std_set_ok_insert [simp, intro]: "std_set_ok xs \<Longrightarrow> std_set_ok (set_insert x xs)"
  by (simp add: set_insert_def strict_sorted_iff' sorted_insort_insert distinct_insort_insert)

lemma set_set_erase [simp, std_simps]: "std_set_ok xs \<Longrightarrow> set (set_erase x xs) = set xs - {x}"
  by (simp add: set_erase_def strict_sorted_iff')

lemma std_set_ok_erase [simp, intro]: "std_set_ok xs \<Longrightarrow> std_set_ok (set_erase x xs)"
  by (simp add: set_erase_def strict_sorted_iff' sorted_remove1)

lemma set_insert_member [simp]: "x \<in> set xs \<Longrightarrow> set_insert x xs = xs"
  by (simp add: set_insert_def insort_insert_triv)

lemma std_set_eqI:
  assumes "std_set_ok xs" "std_set_ok ys" "set xs = set ys"
  shows "xs = ys"
  using assms by (simp add: strict_sorted_iff' sorted_distinct_set_unique)

text \<open>Inserting all elements of a list, as the collecting loops of the analyses do.\<close>

lemma set_fold_insert [simp]:
  "set (fold (\<lambda>x s. if p x then set_insert x s else s) xs s) = {x \<in> set xs. p x} \<union> set s"
  by (induction xs arbitrary: s) auto

lemma std_set_ok_fold_insert [simp]:
  "std_set_ok s \<Longrightarrow> std_set_ok (fold (\<lambda>x s. if p x then set_insert x s else s) xs s)"
  by (induction xs arbitrary: s) auto

lemma set_split_last: "xs \<noteq> [] \<Longrightarrow> set xs = insert (last xs) (set (butlast xs))"
  by (cases xs rule: rev_cases) simp_all

lemma set_butlast_distinct: "xs \<noteq> [] \<Longrightarrow> distinct xs \<Longrightarrow> set (butlast xs) = set xs - {last xs}"
  by (cases xs rule: rev_cases) simp_all

section \<open>Maps with a default\<close>

text \<open>\<open>operator[]\<close> of \<open>std::map\<close> inserts the value type's default when the key is absent.\<close>

definition map_at :: "'v \<Rightarrow> ('k \<rightharpoonup> 'v) \<Rightarrow> 'k \<Rightarrow> 'v" where
  "map_at d m k = (case m k of None \<Rightarrow> d | Some v \<Rightarrow> v)"

definition map_touch :: "'v \<Rightarrow> 'k \<Rightarrow> ('k \<rightharpoonup> 'v) \<Rightarrow> ('k \<rightharpoonup> 'v)" where
  "map_touch d k m = (case m k of None \<Rightarrow> m(k \<mapsto> d) | Some _ \<Rightarrow> m)"

lemma map_at_None [simp]: "m k = None \<Longrightarrow> map_at d m k = d"
  by (simp add: map_at_def)

lemma map_at_Some [simp]: "m k = Some v \<Longrightarrow> map_at d m k = v"
  by (simp add: map_at_def)

lemma map_at_empty [simp]: "map_at d Map.empty k = d"
  by (simp add: map_at_def)

lemma map_at_upd [simp]: "map_at d (m(k \<mapsto> v)) k' = (if k' = k then v else map_at d m k')"
  by (simp add: map_at_def)

lemma map_touch_same [simp]: "map_at d (map_touch d k m) k' = map_at d m k'"
  by (simp add: map_at_def map_touch_def split: option.splits)

lemma dom_map_touch [simp]: "dom (map_touch d k m) = insert k (dom m)"
  by (auto simp: map_touch_def split: option.splits)

lemma map_touch_apply:
  "map_touch d k m k' = (if k' = k then Some (map_at d m k) else m k')"
  by (simp add: map_touch_def map_at_def split: option.splits)

section \<open>Loops\<close>

text \<open>
  A \<open>while\<close> loop of the source is \<open>while_option\<close>: \<open>None\<close> when it does not end.
  With an invariant and a well-founded relation the loop ends in a state that satisfies
  the invariant and not the guard.
\<close>

lemma while_option_total:
  assumes wf: "wf r" and P: "P s"
    and step: "\<And>s. P s \<Longrightarrow> b s \<Longrightarrow> P (c s) \<and> (c s, s) \<in> r"
  shows "\<exists>t. while_option b c s = Some t \<and> P t \<and> \<not> b t"
proof -
  obtain t where t: "while_option b c s = Some t"
    using wf_rel_while_option_Some [of r P b c s] wf P step by blast
  have "P t" using while_option_rule [of P b c s t] P step t by blast
  moreover have "\<not> b t" by (rule while_option_stop [OF t])
  ultimately show ?thesis using t by blast
qed

lemma while_option_invariant:
  assumes "while_option b c s = Some t" and "P s" and "\<And>s. P s \<Longrightarrow> b s \<Longrightarrow> P (c s)"
  shows "P t \<and> \<not> b t"
  using while_option_rule [of P b c s t] while_option_stop [of b c s t] assms by blast

section \<open>Graph search\<close>

text \<open>
  The traversals of the analyses share a contract: a state has nodes still \<open>pending\<close> and
  nodes \<open>visited\<close>; one iteration takes a pending node, may \<open>abort\<close> the search at a
  \<open>bad\<close> node, and otherwise expands the node into its successors \<open>succ\<close>. How
  duplicates are filtered, and whether the pending nodes are a stack or a queue, is up to
  the code. The result is then the set of nodes reachable from the roots.
\<close>

definition reach :: "('a \<Rightarrow> 'a set) \<Rightarrow> 'a set \<Rightarrow> 'a set" where
  "reach succ R = {y. \<exists>x\<in>R. (\<lambda>a b. b \<in> succ a)\<^sup>*\<^sup>* x y}"

lemma reach_root [intro]: "x \<in> R \<Longrightarrow> x \<in> reach succ R"
  by (auto simp: reach_def)

lemma reach_step: "x \<in> reach succ R \<Longrightarrow> y \<in> succ x \<Longrightarrow> y \<in> reach succ R"
  by (auto simp: reach_def intro: rtranclp.rtrancl_into_rtrancl)

lemma reach_least:
  assumes "R \<subseteq> S" and "\<And>x y. x \<in> S \<Longrightarrow> y \<in> succ x \<Longrightarrow> y \<in> S"
  shows "reach succ R \<subseteq> S"
proof
  fix y assume "y \<in> reach succ R"
  then obtain x where "x \<in> R" "(\<lambda>a b. b \<in> succ a)\<^sup>*\<^sup>* x y" by (auto simp: reach_def)
  from this(2) show "y \<in> S"
    by (induction rule: rtranclp_induct) (use \<open>x \<in> R\<close> assms in auto)
qed

lemma reach_eq:
  assumes "R \<subseteq> S" "\<And>x y. x \<in> S \<Longrightarrow> y \<in> succ x \<Longrightarrow> y \<in> S" "S \<subseteq> reach succ R"
  shows "reach succ R = S"
proof (rule antisym)
  show "reach succ R \<subseteq> S" using assms(1,2) by (rule reach_least)
qed (rule assms(3))

locale graph_walk =
  fixes succ :: "'a \<Rightarrow> 'a set"
    and bad :: "'a \<Rightarrow> bool"
    and pending :: "'s \<Rightarrow> 'a set"
    and visited :: "'s \<Rightarrow> 'a set"
    and aborted :: "'s \<Rightarrow> bool"
    and size_of :: "'s \<Rightarrow> nat"
    and go :: "'s \<Rightarrow> bool"
    and step :: "'s \<Rightarrow> 's"
    and inv :: "'s \<Rightarrow> bool"
  assumes go_iff: "go s \<longleftrightarrow> pending s \<noteq> {} \<and> \<not> aborted s"
    and inv_step: "inv s \<Longrightarrow> go s \<Longrightarrow> inv (step s)"
    and abort_bad: "inv s \<Longrightarrow> go s \<Longrightarrow> aborted (step s) \<Longrightarrow> \<exists>x\<in>pending s. bad x"
    and step_sound: "inv s \<Longrightarrow> go s \<Longrightarrow> \<not> aborted (step s) \<Longrightarrow>
      visited (step s) \<union> pending (step s) \<subseteq> visited s \<union> pending s \<union> (\<Union>x\<in>pending s. succ x)"
    and step_progress: "inv s \<Longrightarrow> go s \<Longrightarrow> \<not> aborted (step s) \<Longrightarrow>
      visited s \<subset> visited (step s) \<or> visited (step s) = visited s \<and> size_of (step s) < size_of s"
begin

text \<open>The walk stays inside any set that is closed under successors.\<close>

definition inside :: "'a set \<Rightarrow> 's \<Rightarrow> bool" where
  "inside U s \<longleftrightarrow> inv s \<and>
     (if aborted s then \<exists>x\<in>U. bad x else visited s \<union> pending s \<subseteq> U)"

lemma inside_step:
  assumes U: "\<And>x. x \<in> U \<Longrightarrow> succ x \<subseteq> U" and I: "inside U s" and g: "go s"
  shows "inside U (step s)"
proof -
  have i: "inv s" and vp: "visited s \<union> pending s \<subseteq> U"
    using I g by (auto simp: inside_def go_iff)
  show ?thesis
    using inv_step [OF i g] abort_bad [OF i g] step_sound [OF i g] vp U
    by (cases "aborted (step s)") (auto simp: inside_def, blast+)
qed

lemma walk_terminates:
  assumes fin: "finite U" and U: "\<And>x. x \<in> U \<Longrightarrow> succ x \<subseteq> U" and I: "inside U s"
  shows "\<exists>t. while_option go step s = Some t \<and> inside U t"
proof -
  let ?m = "\<lambda>s. (if aborted s then 0 else Suc (card (U - visited s)), size_of s)"
  let ?r = "inv_image (less_than <*lex*> less_than) ?m"
  have "(step s, s) \<in> ?r" if I: "inside U s" and g: "go s" for s
  proof (cases "aborted (step s)")
    case True
    then show ?thesis using g by (simp add: go_iff)
  next
    case False
    have i: "inv s" and na: "\<not> aborted s" using I g by (auto simp: inside_def go_iff)
    have sub: "visited (step s) \<subseteq> U"
      using inside_step [OF U I g] False by (auto simp: inside_def)
    from step_progress [OF i g False] show ?thesis
    proof
      assume "visited s \<subset> visited (step s)"
      then have "card (U - visited (step s)) < card (U - visited s)"
        using sub by (intro psubset_card_mono) (use fin in auto)
      then show ?thesis using na False by simp
    qed (use na False in simp)
  qed
  then show ?thesis
    using while_option_total [of ?r "inside U" s go step] inside_step [OF U] I by auto
qed

end

text \<open>A walk that forgets no node and expands every node it visits is a search.\<close>

locale graph_search = graph_walk succ bad pending visited aborted size_of go step inv
  for succ :: "'a \<Rightarrow> 'a set" and bad and pending :: "'s \<Rightarrow> 'a set" and visited aborted size_of go
    and step :: "'s \<Rightarrow> 's" and inv +
  assumes step_keeps: "inv s \<Longrightarrow> go s \<Longrightarrow> \<not> aborted (step s) \<Longrightarrow>
      visited s \<union> pending s \<subseteq> visited (step s) \<union> pending (step s)"
    and step_expands: "inv s \<Longrightarrow> go s \<Longrightarrow> \<not> aborted (step s) \<Longrightarrow>
      x \<in> visited (step s) \<Longrightarrow> x \<notin> visited s \<Longrightarrow>
      \<not> bad x \<and> succ x \<subseteq> visited (step s) \<union> pending (step s)"
begin

definition search_inv :: "'a set \<Rightarrow> 's \<Rightarrow> bool" where
  "search_inv R s \<longleftrightarrow> inside (reach succ R) s \<and> (\<not> aborted s \<longrightarrow>
     R \<subseteq> visited s \<union> pending s \<and>
     (\<forall>x\<in>visited s. \<not> bad x \<and> succ x \<subseteq> visited s \<union> pending s))"

lemma reach_closed: "x \<in> reach succ R \<Longrightarrow> succ x \<subseteq> reach succ R"
  by (auto intro: reach_step)

lemma search_inv_init:
  "inv s \<Longrightarrow> visited s = {} \<Longrightarrow> pending s = R \<Longrightarrow> \<not> aborted s \<Longrightarrow> search_inv R s"
  by (auto simp: search_inv_def inside_def)

lemma search_inv_step:
  assumes I: "search_inv R s" and g: "go s"
  shows "search_inv R (step s)"
proof -
  have ins: "inside (reach succ R) s" using I by (simp add: search_inv_def)
  have ins': "inside (reach succ R) (step s)"
    by (rule inside_step [OF reach_closed ins g])
  have i: "inv s" and na: "\<not> aborted s" using ins g by (auto simp: inside_def go_iff)
  then have R: "R \<subseteq> visited s \<union> pending s"
    and cl: "\<forall>x\<in>visited s. \<not> bad x \<and> succ x \<subseteq> visited s \<union> pending s"
    using I by (auto simp: search_inv_def)
  show ?thesis
  proof (cases "aborted (step s)")
    case True
    then show ?thesis using ins' by (simp add: search_inv_def)
  next
    case False
    note facts = i g False
    have "R \<subseteq> visited (step s) \<union> pending (step s)"
      using R step_keeps [OF facts] by blast
    moreover have "\<not> bad x \<and> succ x \<subseteq> visited (step s) \<union> pending (step s)"
      if "x \<in> visited (step s)" for x
      using that cl step_keeps [OF facts] step_expands [OF facts, of x] by blast
    ultimately show ?thesis using ins' by (simp add: search_inv_def)
  qed
qed

lemma search_result:
  assumes "while_option go step s = Some t"
    and "inv s" "visited s = {}" "pending s = R" "\<not> aborted s"
  shows "inv t \<and> (aborted t \<longleftrightarrow> (\<exists>x\<in>reach succ R. bad x)) \<and>
    (\<not> aborted t \<longrightarrow> visited t = reach succ R)"
proof -
  have I: "search_inv R t" and ng: "\<not> go t"
    using while_option_invariant [of go step s t "search_inv R"] assms search_inv_init
      search_inv_step by blast+
  show ?thesis
  proof (cases "aborted t")
    case True
    then show ?thesis using I by (auto simp: search_inv_def inside_def)
  next
    case False
    then have p: "pending t = {}" using ng by (simp add: go_iff)
    then have "reach succ R \<subseteq> visited t"
      using I False by (intro reach_least) (auto simp: search_inv_def)
    then show ?thesis using I False p by (auto simp: search_inv_def inside_def)
  qed
qed

lemma search_terminates:
  assumes "finite (reach succ R)"
    and "inv s" "visited s = {}" "pending s = R" "\<not> aborted s"
  shows "\<exists>t. while_option go step s = Some t"
proof -
  have "inside (reach succ R) s"
    using search_inv_init [OF assms(2-5)] by (simp add: search_inv_def)
  from walk_terminates [OF assms(1) reach_closed this] show ?thesis by blast
qed

end

end
