(* ===== verification/WorkList.thy ===== *)
theory WorkList
  imports Prelude "HOL-Library.Multiset"
begin

text \<open>
  The work lists of \<open>include/Util/WorkList.h\<close>: \<open>List\<close> (a linked list),
  \<open>FIFOWorkList\<close> (a deque) and \<open>FILOWorkList\<close> (a vector), each with a set that is meant
  to keep its elements unique. A \<open>pop\<close> of an empty list is a failing \<open>assert\<close>, the
  value \<open>None\<close>. The locale \<open>work_list\<close> is the contract the analyses rely on; both deque
  and vector are interpretations of it, the linked list is not.
\<close>

section \<open>The linked list\<close>

text \<open>
  The chain of nodes from \<open>head\<close> to \<open>tail\<close> is the list of their data; \<open>head == NULL\<close> is
  the empty list. \<open>push\<close> tests \<open>nodeSet\<close> and never inserts into it.
\<close>

record 'a linked =
  nodeSet :: "'a set"
  nodes :: "'a list"

definition List_new :: "'a linked" where
  "List_new = \<lparr>nodeSet = {}, nodes = []\<rparr>"

definition List_empty :: "'a linked \<Rightarrow> bool" where
  "List_empty l \<longleftrightarrow> nodes l = []"

definition List_find :: "'a linked \<Rightarrow> 'a \<Rightarrow> bool" where
  "List_find l d \<longleftrightarrow> d \<in> nodeSet l"

definition List_push :: "'a \<Rightarrow> 'a linked \<Rightarrow> 'a linked" where
  "List_push d l = (if d \<notin> nodeSet l then l\<lparr>nodes := nodes l @ [d]\<rparr> else l)"

definition List_pop :: "'a linked \<Rightarrow> ('a \<times> 'a linked) option" where
  "List_pop l = (case nodes l of [] \<Rightarrow> None
     | d # ds \<Rightarrow> Some (d, l\<lparr>nodes := ds, nodeSet := nodeSet l - {d}\<rparr>))"

section \<open>The deque and the vector\<close>

record 'a fifo =
  data_set :: "'a set"
  data_list :: "'a list"

definition fifo_new :: "'a fifo" where
  "fifo_new = \<lparr>data_set = {}, data_list = []\<rparr>"

definition fifo_empty :: "'a fifo \<Rightarrow> bool" where
  "fifo_empty w \<longleftrightarrow> data_list w = []"

definition fifo_find :: "'a fifo \<Rightarrow> 'a \<Rightarrow> bool" where
  "fifo_find w d \<longleftrightarrow> d \<in> data_set w"

definition fifo_push :: "'a \<Rightarrow> 'a fifo \<Rightarrow> bool \<times> 'a fifo" where
  "fifo_push d w = (if d \<notin> data_set w
     then (True, w\<lparr>data_list := data_list w @ [d], data_set := insert d (data_set w)\<rparr>)
     else (False, w))"

definition fifo_pop :: "'a fifo \<Rightarrow> ('a \<times> 'a fifo) option" where
  "fifo_pop w = (case data_list w of [] \<Rightarrow> None
     | d # ds \<Rightarrow> Some (d, w\<lparr>data_list := ds, data_set := data_set w - {d}\<rparr>))"

definition fifo_clear :: "'a fifo \<Rightarrow> 'a fifo" where
  "fifo_clear w = w\<lparr>data_list := [], data_set := {}\<rparr>"

record 'a filo =
  vec_set :: "'a set"
  vec_list :: "'a list"

definition filo_new :: "'a filo" where
  "filo_new = \<lparr>vec_set = {}, vec_list = []\<rparr>"

definition filo_empty :: "'a filo \<Rightarrow> bool" where
  "filo_empty w \<longleftrightarrow> vec_list w = []"

definition filo_find :: "'a filo \<Rightarrow> 'a \<Rightarrow> bool" where
  "filo_find w d \<longleftrightarrow> d \<in> vec_set w"

definition filo_push :: "'a \<Rightarrow> 'a filo \<Rightarrow> bool \<times> 'a filo" where
  "filo_push d w = (if d \<notin> vec_set w
     then (True, w\<lparr>vec_list := vec_list w @ [d], vec_set := insert d (vec_set w)\<rparr>)
     else (False, w))"

definition filo_pop :: "'a filo \<Rightarrow> ('a \<times> 'a filo) option" where
  "filo_pop w = (if vec_list w = [] then None
     else Some (last (vec_list w),
       w\<lparr>vec_list := butlast (vec_list w), vec_set := vec_set w - {last (vec_list w)}\<rparr>))"

definition filo_clear :: "'a filo \<Rightarrow> 'a filo" where
  "filo_clear w = w\<lparr>vec_list := [], vec_set := {}\<rparr>"

section \<open>The contract of a work list\<close>

text \<open>
  Over an abstraction to the sequence of pending data: \<open>push\<close> appends new data only and
  says whether it did, \<open>pop\<close> fails exactly on the empty list and otherwise splits off one
  element, which \<open>put_back\<close> says how to restore.
\<close>

locale work_list =
  fixes new :: "'w"
    and push :: "'a \<Rightarrow> 'w \<Rightarrow> bool \<times> 'w"
    and pop :: "'w \<Rightarrow> ('a \<times> 'w) option"
    and clear :: "'w \<Rightarrow> 'w"
    and find :: "'w \<Rightarrow> 'a \<Rightarrow> bool"
    and seq :: "'w \<Rightarrow> 'a list"
    and put_back :: "'a \<Rightarrow> 'a list \<Rightarrow> 'a list"
    and inv :: "'w \<Rightarrow> bool"
  assumes new: "inv new \<and> seq new = []"
    and clear: "inv (clear w) \<and> seq (clear w) = []"
    and find: "inv w \<Longrightarrow> find w d \<longleftrightarrow> d \<in> set (seq w)"
    and push: "inv w \<Longrightarrow> push d w = (b, w') \<Longrightarrow>
      inv w' \<and> b = (d \<notin> set (seq w)) \<and> seq w' = (if b then seq w @ [d] else seq w)"
    and pop_None: "inv w \<Longrightarrow> pop w = None \<longleftrightarrow> seq w = []"
    and pop_Some: "inv w \<Longrightarrow> pop w = Some (d, w') \<Longrightarrow> inv w' \<and> seq w = put_back d (seq w')"
    and put_back: "mset (put_back d ds) = add_mset d (mset ds)"
    and unique: "inv w \<Longrightarrow> distinct (seq w)"
begin

lemma set_put_back: "set (put_back d ds) = insert d (set ds)"
  by (metis put_back set_mset_add_mset_insert set_mset_mset)

lemma push_set: "inv w \<Longrightarrow> set (seq (snd (push d w))) = insert d (set (seq w))"
  using push [of w d] by (cases "push d w") (auto split: if_splits)

lemma push_inv: "inv w \<Longrightarrow> inv (snd (push d w))"
  using push [of w d] by (cases "push d w") auto

lemma pop_set:
  assumes "inv w" "pop w = Some (d, w')"
  shows "d \<in> set (seq w) \<and> set (seq w') = set (seq w) - {d}"
proof -
  have s: "seq w = put_back d (seq w')" using pop_Some [OF assms] by simp
  then have "mset (seq w) = mset (d # seq w')" by (simp add: put_back)
  then have "distinct (d # seq w')"
    using unique [OF assms(1)] mset_eq_imp_distinct_iff by blast
  then have "d \<notin> set (seq w')" by simp
  then show ?thesis by (auto simp: s set_put_back)
qed

lemma pop_size: "inv w \<Longrightarrow> pop w = Some (d, w') \<Longrightarrow> length (seq w') < length (seq w)"
  using pop_Some put_back by (metis lessI size_add_mset size_mset)

text \<open>A run of pushes, pops and clears: what was accepted and what was handed out.\<close>

fun run :: "'w \<Rightarrow> 'a option list \<Rightarrow> ('a list \<times> 'a list \<times> 'w) option" where
  "run w [] = Some ([], [], w)"
| "run w (Some d # ops) = (case push d w of (b, w') \<Rightarrow>
     (case run w' ops of None \<Rightarrow> None
      | Some (acc, out, w'') \<Rightarrow> Some (if b then d # acc else acc, out, w'')))"
| "run w (None # ops) = (case pop w of None \<Rightarrow> None
     | Some (d, w') \<Rightarrow> (case run w' ops of None \<Rightarrow> None
        | Some (acc, out, w'') \<Rightarrow> Some (acc, d # out, w'')))"

lemma run_conserves:
  "inv w \<Longrightarrow> run w ops = Some (acc, out, w') \<Longrightarrow>
    inv w' \<and> mset (seq w) + mset acc = mset out + mset (seq w')"
proof (induction w ops arbitrary: acc out w' rule: run.induct)
  case (2 w d ops)
  obtain b w1 where p: "push d w = (b, w1)" by (cases "push d w")
  note P = push [OF 2(2) p]
  from 2(3) obtain acc' where r: "run w1 ops = Some (acc', out, w')"
    and acc: "acc = (if b then d # acc' else acc')"
    by (auto simp: p split: option.splits)
  show ?case using 2(1) [OF p [symmetric] _ r] P acc by (auto split: if_splits)
next
  case (3 w ops)
  from 3(3) obtain d w1 out' where p: "pop w = Some (d, w1)"
    and r: "run w1 ops = Some (acc, out', w')" and out: "out = d # out'"
    by (auto split: option.splits)
  note P = pop_Some [OF 3(2) p]
  show ?case using 3(1) [OF p refl _ r] P out put_back [of d "seq w1"] by auto
qed simp

end

locale queue_list = work_list new push pop clear find seq "\<lambda>d ds. d # ds" inv
  for new :: "'w" and push :: "'a \<Rightarrow> 'w \<Rightarrow> bool \<times> 'w" and pop clear find seq inv
begin

lemma run_order:
  "inv w \<Longrightarrow> run w ops = Some (acc, out, w') \<Longrightarrow> seq w @ acc = out @ seq w'"
proof (induction w ops arbitrary: acc out w' rule: run.induct)
  case (2 w d ops)
  obtain b w1 where p: "push d w = (b, w1)" by (cases "push d w")
  from 2(3) obtain acc' where r: "run w1 ops = Some (acc', out, w')"
    and acc: "acc = (if b then d # acc' else acc')"
    by (auto simp: p split: option.splits)
  show ?case using 2(1) [OF p [symmetric] _ r] push [OF 2(2) p] acc by (auto split: if_splits)
next
  case (3 w ops)
  from 3(3) obtain d w1 out' where p: "pop w = Some (d, w1)"
    and r: "run w1 ops = Some (acc, out', w')" and out: "out = d # out'"
    by (auto split: option.splits)
  show ?case using 3(1) [OF p refl _ r] pop_Some [OF 3(2) p] out by auto
qed simp

end

definition fifo_inv :: "'a fifo \<Rightarrow> bool" where
  "fifo_inv w \<longleftrightarrow> distinct (data_list w) \<and> data_set w = set (data_list w)"

definition filo_inv :: "'a filo \<Rightarrow> bool" where
  "filo_inv w \<longleftrightarrow> distinct (vec_list w) \<and> vec_set w = set (vec_list w)"

lemmas fifo_defs = fifo_new_def fifo_empty_def fifo_find_def fifo_push_def fifo_pop_def
  fifo_clear_def fifo_inv_def

lemmas filo_defs = filo_new_def filo_empty_def filo_find_def filo_push_def filo_pop_def
  filo_clear_def filo_inv_def

interpretation fifo: queue_list fifo_new fifo_push fifo_pop fifo_clear fifo_find data_list fifo_inv
  by unfold_locales (auto simp: fifo_defs split: list.splits if_splits)

interpretation filo: work_list filo_new filo_push filo_pop filo_clear filo_find vec_list
  "\<lambda>d ds. ds @ [d]" filo_inv
  by unfold_locales (auto simp: filo_defs distinct_butlast set_butlast_distinct split: if_splits)

section \<open>Properties\<close>

text \<open>Run on any sequence of pushes and pops, the FIFO work list hands its data out in the
  order in which they were accepted: what was accepted is what came out followed by what is
  still pending, and nothing pending is a duplicate.\<close>

theorem fifo_order:
  assumes "fifo.run fifo_new ops = Some (acc, out, w)"
  shows "acc = out @ data_list w \<and> distinct (data_list w)"
  using fifo.run_order [OF _ assms] fifo.run_conserves [OF _ assms] fifo.new fifo.unique
  by fastforce

theorem fifo_order_witness:
  "\<exists>w. fifo.run fifo_new [Some (7::nat), Some 7, None, Some 3] = Some ([7, 3], [7], w) \<and>
     [7, 3] = [7] @ data_list w"
proof -
  have "\<exists>w. fifo.run fifo_new [Some (7::nat), Some 7, None, Some 3] = Some ([7, 3], [7], w)"
    by (simp add: fifo_new_def fifo_push_def fifo_pop_def)
  then obtain w where w: "fifo.run fifo_new [Some (7::nat), Some 7, None, Some 3] = Some ([7, 3], [7], w)" ..
  then show ?thesis using fifo_order [OF w] by blast
qed

text \<open>On the FILO work list a push that is accepted is undone by the next pop, which hands
  the datum back; a push of a pending datum is refused and changes nothing.\<close>

theorem filo_push_pop:
  assumes "filo_inv w" and "filo_push d w = (b, w')"
  shows "(b \<longrightarrow> filo_pop w' = Some (d, w)) \<and> (\<not> b \<longrightarrow> w' = w \<and> d \<in> set (vec_list w))"
  using assms by (auto simp: filo_defs split: if_splits)

theorem filo_push_pop_witness:
  "filo_inv \<lparr>vec_set = {1, 2}, vec_list = [2, 1::nat]\<rparr> \<and>
   filo_pop (snd (filo_push 5 \<lparr>vec_set = {1, 2}, vec_list = [2, 1::nat]\<rparr>)) =
     Some (5, \<lparr>vec_set = {1, 2}, vec_list = [2, 1]\<rparr>)"
proof -
  have i: "filo_inv \<lparr>vec_set = {1, 2}, vec_list = [2, 1::nat]\<rparr>" by (auto simp: filo_inv_def)
  have "fst (filo_push 5 \<lparr>vec_set = {1, 2}, vec_list = [2, 1::nat]\<rparr>)" by (simp add: filo_push_def)
  with i filo_push_pop [OF i prod.collapse [symmetric], of 5] show ?thesis by blast
qed

text \<open>The linked work list does not keep its elements unique: no push ever records its
  datum in \<open>nodeSet\<close>, so pushing any sequence of data, repetitions included, leaves exactly
  that sequence pending, and \<open>find\<close> misses every one of them.\<close>

theorem linked_keeps_duplicates:
  "nodes (fold List_push ds List_new) = ds \<and> (\<forall>d. \<not> List_find (fold List_push ds List_new) d)"
proof -
  have "nodeSet l = {} \<Longrightarrow> nodes (fold List_push ds l) = nodes l @ ds \<and>
    nodeSet (fold List_push ds l) = {}" for l :: "'a linked"
    by (induction ds arbitrary: l) (auto simp: List_push_def)
  from this [of List_new] show ?thesis by (simp add: List_new_def List_find_def)
qed

end
