(* ===== verification/CxtStmt.thy ===== *)
theory CxtStmt
  imports Prelude
begin

text \<open>
  The context-sensitive values of \<open>include/Util/CxtStmt.h\<close>: statements, threads and
  procedures under a calling context. A context (\<open>CallStrCxt\<close>) is a vector of call site
  ids, compared lexicographically; instructions, functions and fork sites are pointers,
  compared by address, and are numbers here. The classes are keys of ordered sets and maps,
  so their \<open>operator<\<close> must be a strict weak order whose ties are \<open>operator==\<close>: this is
  the locale \<open>cpp_order\<close>, and each class is an interpretation of it.
\<close>

type_synonym inst = nat
type_synonym func = nat
type_synonym node_id = nat
type_synonym call_str_cxt = "nat list"

datatype cxt_stmt = CxtStmt (getContext: call_str_cxt) (getStmt: inst)

datatype cxt_thread_stmt = CxtThreadStmt (ts_getTid: node_id) (ts_base: cxt_stmt)

record cxt_thread =
  ct_cxt :: call_str_cxt
  ct_forksite :: inst
  ct_inloop :: bool
  ct_incycle :: bool

datatype cxt_proc = CxtProc (cp_getContext: call_str_cxt) (cp_getProc: func)

datatype cxt_thread_proc = CxtThreadProc (tp_getTid: node_id) (tp_base: cxt_proc)

definition CxtThread :: "call_str_cxt \<Rightarrow> inst \<Rightarrow> cxt_thread" where
  "CxtThread c fork = \<lparr>ct_cxt = c, ct_forksite = fork, ct_inloop = False, ct_incycle = False\<rparr>"

section \<open>The comparison operators\<close>

definition CxtStmt_less :: "cxt_stmt \<Rightarrow> cxt_stmt \<Rightarrow> bool" where
  "CxtStmt_less a b = (if getStmt a \<noteq> getStmt b then getStmt a < getStmt b
     else getContext a < getContext b)"

definition CxtStmt_eq :: "cxt_stmt \<Rightarrow> cxt_stmt \<Rightarrow> bool" where
  "CxtStmt_eq a b \<longleftrightarrow> getStmt a = getStmt b \<and> getContext a = getContext b"

definition CxtStmt_assign :: "cxt_stmt \<Rightarrow> cxt_stmt \<Rightarrow> cxt_stmt" where
  "CxtStmt_assign a b = (if \<not> CxtStmt_eq a b then CxtStmt (getContext b) (getStmt b) else a)"

definition CxtThreadStmt_less :: "cxt_thread_stmt \<Rightarrow> cxt_thread_stmt \<Rightarrow> bool" where
  "CxtThreadStmt_less a b =
     (if ts_getTid a \<noteq> ts_getTid b then ts_getTid a < ts_getTid b
      else if getStmt (ts_base a) \<noteq> getStmt (ts_base b)
      then getStmt (ts_base a) < getStmt (ts_base b)
      else getContext (ts_base a) < getContext (ts_base b))"

definition CxtThreadStmt_eq :: "cxt_thread_stmt \<Rightarrow> cxt_thread_stmt \<Rightarrow> bool" where
  "CxtThreadStmt_eq a b \<longleftrightarrow> ts_getTid a = ts_getTid b \<and>
     getStmt (ts_base a) = getStmt (ts_base b) \<and> getContext (ts_base a) = getContext (ts_base b)"

definition CxtThreadStmt_assign :: "cxt_thread_stmt \<Rightarrow> cxt_thread_stmt \<Rightarrow> cxt_thread_stmt" where
  "CxtThreadStmt_assign a b = (if \<not> CxtThreadStmt_eq a b
     then CxtThreadStmt (ts_getTid b) (CxtStmt_assign (ts_base a) (ts_base b)) else a)"

definition CxtThread_less :: "cxt_thread \<Rightarrow> cxt_thread \<Rightarrow> bool" where
  "CxtThread_less a b = (if ct_forksite a \<noteq> ct_forksite b then ct_forksite a < ct_forksite b
     else ct_cxt a < ct_cxt b)"

definition CxtThread_eq :: "cxt_thread \<Rightarrow> cxt_thread \<Rightarrow> bool" where
  "CxtThread_eq a b \<longleftrightarrow> ct_forksite a = ct_forksite b \<and> ct_cxt a = ct_cxt b"

definition CxtThread_assign :: "cxt_thread \<Rightarrow> cxt_thread \<Rightarrow> cxt_thread" where
  "CxtThread_assign a b = (if \<not> CxtThread_eq a b
     then a\<lparr>ct_forksite := ct_forksite b, ct_cxt := ct_cxt b\<rparr> else a)"

definition setInloop :: "bool \<Rightarrow> cxt_thread \<Rightarrow> cxt_thread" where
  "setInloop b t = t\<lparr>ct_inloop := b\<rparr>"

definition setIncycle :: "bool \<Rightarrow> cxt_thread \<Rightarrow> cxt_thread" where
  "setIncycle b t = t\<lparr>ct_incycle := b\<rparr>"

definition CxtProc_less :: "cxt_proc \<Rightarrow> cxt_proc \<Rightarrow> bool" where
  "CxtProc_less a b = (if cp_getProc a \<noteq> cp_getProc b then cp_getProc a < cp_getProc b
     else cp_getContext a < cp_getContext b)"

definition CxtProc_eq :: "cxt_proc \<Rightarrow> cxt_proc \<Rightarrow> bool" where
  "CxtProc_eq a b \<longleftrightarrow> cp_getProc a = cp_getProc b \<and> cp_getContext a = cp_getContext b"

definition CxtProc_assign :: "cxt_proc \<Rightarrow> cxt_proc \<Rightarrow> cxt_proc" where
  "CxtProc_assign a b = (if \<not> CxtProc_eq a b then CxtProc (cp_getContext b) (cp_getProc b) else a)"

definition CxtThreadProc_less :: "cxt_thread_proc \<Rightarrow> cxt_thread_proc \<Rightarrow> bool" where
  "CxtThreadProc_less a b =
     (if tp_getTid a \<noteq> tp_getTid b then tp_getTid a < tp_getTid b
      else if cp_getProc (tp_base a) \<noteq> cp_getProc (tp_base b)
      then cp_getProc (tp_base a) < cp_getProc (tp_base b)
      else cp_getContext (tp_base a) < cp_getContext (tp_base b))"

definition CxtThreadProc_eq :: "cxt_thread_proc \<Rightarrow> cxt_thread_proc \<Rightarrow> bool" where
  "CxtThreadProc_eq a b \<longleftrightarrow> tp_getTid a = tp_getTid b \<and>
     cp_getProc (tp_base a) = cp_getProc (tp_base b) \<and>
     cp_getContext (tp_base a) = cp_getContext (tp_base b)"

definition CxtThreadProc_assign :: "cxt_thread_proc \<Rightarrow> cxt_thread_proc \<Rightarrow> cxt_thread_proc" where
  "CxtThreadProc_assign a b = (if \<not> CxtThreadProc_eq a b
     then CxtThreadProc (tp_getTid b) (CxtProc (cp_getContext (tp_base b)) (cp_getProc (tp_base b)))
     else a)"

lemmas cxt_order_defs =
  CxtStmt_less_def CxtStmt_eq_def CxtThreadStmt_less_def CxtThreadStmt_eq_def
  CxtThread_less_def CxtThread_eq_def CxtProc_less_def CxtProc_eq_def
  CxtThreadProc_less_def CxtThreadProc_eq_def

section \<open>Keys of ordered containers\<close>

text \<open>
  \<open>key_insert\<close> is \<open>std::set::insert\<close> over a comparison: it walks past the smaller elements and
  inserts unless it meets a tie. Under the contract the container stays strictly ordered and
  holds one element of each class of ties, the one inserted first.
\<close>

fun key_insert :: "('a \<Rightarrow> 'a \<Rightarrow> bool) \<Rightarrow> 'a \<Rightarrow> 'a list \<Rightarrow> 'a list" where
  "key_insert lt x [] = [x]"
| "key_insert lt x (y # ys) =
     (if lt y x then y # key_insert lt x ys else if lt x y then x # y # ys else y # ys)"

locale cpp_order =
  fixes lt :: "'a \<Rightarrow> 'a \<Rightarrow> bool"
    and eq :: "'a \<Rightarrow> 'a \<Rightarrow> bool"
  assumes irrefl: "\<not> lt a a"
    and trans: "lt a b \<Longrightarrow> lt b c \<Longrightarrow> lt a c"
    and tie: "\<not> lt a b \<and> \<not> lt b a \<longleftrightarrow> eq a b"
    and eq_trans: "eq a b \<Longrightarrow> eq b c \<Longrightarrow> eq a c"
begin

lemma eq_refl: "eq a a"
  using tie irrefl by blast

lemma eq_sym: "eq a b \<Longrightarrow> eq b a"
  using tie by blast

lemma key_insert_bound: "lt y x \<Longrightarrow> \<forall>z\<in>set zs. lt y z \<Longrightarrow> \<forall>z\<in>set (key_insert lt x zs). lt y z"
  by (induction zs) auto

lemma key_insert_sorted: "sorted_wrt lt xs \<Longrightarrow> sorted_wrt lt (key_insert lt x xs)"
proof (induction xs)
  case (Cons y ys)
  then have ys: "sorted_wrt lt (key_insert lt x ys)" and y: "\<forall>z\<in>set ys. lt y z"
    and s: "sorted_wrt lt ys" by simp_all
  have "\<forall>z\<in>set ys. lt x z" if "lt x y" using that y trans [of x y] by blast
  then show ?case using ys y s key_insert_bound [of y x ys] by simp
qed simp

lemma eq_cong: "eq a b \<Longrightarrow> eq a c \<longleftrightarrow> eq b c"
  using eq_sym eq_trans by blast

lemma key_insert_member:
  "(\<exists>z\<in>set (key_insert lt x xs). eq z y) \<longleftrightarrow> eq x y \<or> (\<exists>z\<in>set xs. eq z y)"
proof (induction xs)
  case (Cons z zs)
  show ?case
  proof (cases "lt z x \<or> lt x z")
    case True
    then show ?thesis using Cons by auto
  next
    case False
    then have "eq x z" using tie by blast
    then show ?thesis using False eq_cong [of x z y] by auto
  qed
qed simp

lemma sorted_unique: "sorted_wrt lt xs \<Longrightarrow> i < j \<Longrightarrow> j < length xs \<Longrightarrow> \<not> eq (xs ! i) (xs ! j)"
  using tie sorted_wrt_nth_less by blast

end

interpretation cs: cpp_order CxtStmt_less CxtStmt_eq
  by unfold_locales (auto simp: cxt_order_defs split: if_splits)

interpretation cts: cpp_order CxtThreadStmt_less CxtThreadStmt_eq
  by unfold_locales (auto simp: cxt_order_defs split: if_splits)

interpretation ct: cpp_order CxtThread_less CxtThread_eq
  by unfold_locales (auto simp: cxt_order_defs split: if_splits)

interpretation cp: cpp_order CxtProc_less CxtProc_eq
  by unfold_locales (auto simp: cxt_order_defs split: if_splits)

interpretation ctp: cpp_order CxtThreadProc_less CxtThreadProc_eq
  by unfold_locales (auto simp: cxt_order_defs split: if_splits)

section \<open>Ordered types\<close>

instantiation cxt_stmt :: linorder
begin

definition less_cxt_stmt :: "cxt_stmt \<Rightarrow> cxt_stmt \<Rightarrow> bool" where
  "less_cxt_stmt a b = CxtStmt_less a b"

definition less_eq_cxt_stmt :: "cxt_stmt \<Rightarrow> cxt_stmt \<Rightarrow> bool" where
  "less_eq_cxt_stmt a b \<longleftrightarrow> CxtStmt_less a b \<or> a = b"

instance
  by standard (auto simp: less_cxt_stmt_def less_eq_cxt_stmt_def cxt_order_defs
    split: if_splits intro: cxt_stmt.expand)

end

instantiation cxt_thread_stmt :: linorder
begin

definition less_cxt_thread_stmt :: "cxt_thread_stmt \<Rightarrow> cxt_thread_stmt \<Rightarrow> bool" where
  "less_cxt_thread_stmt a b = CxtThreadStmt_less a b"

definition less_eq_cxt_thread_stmt :: "cxt_thread_stmt \<Rightarrow> cxt_thread_stmt \<Rightarrow> bool" where
  "less_eq_cxt_thread_stmt a b \<longleftrightarrow> CxtThreadStmt_less a b \<or> a = b"

instance
proof
  fix a b :: cxt_thread_stmt
  show "a \<le> b \<or> b \<le> a"
    by (cases a; cases b; cases "ts_base a"; cases "ts_base b")
      (auto simp: less_eq_cxt_thread_stmt_def cxt_order_defs)
qed (auto simp: less_cxt_thread_stmt_def less_eq_cxt_thread_stmt_def cxt_order_defs
    split: if_splits)

end

instantiation cxt_proc :: linorder
begin

definition less_cxt_proc :: "cxt_proc \<Rightarrow> cxt_proc \<Rightarrow> bool" where
  "less_cxt_proc a b = CxtProc_less a b"

definition less_eq_cxt_proc :: "cxt_proc \<Rightarrow> cxt_proc \<Rightarrow> bool" where
  "less_eq_cxt_proc a b \<longleftrightarrow> CxtProc_less a b \<or> a = b"

instance
  by standard (auto simp: less_cxt_proc_def less_eq_cxt_proc_def cxt_order_defs
    split: if_splits intro: cxt_proc.expand)

end

section \<open>Properties\<close>

text \<open>C37: Threads collected in an ordered container by \<open>CxtThread::operator<\<close>, in whatever order
  they are inserted, stay strictly sorted, hold at most one thread for each fork site and
  context, and hold one for exactly the fork sites and contexts that were inserted.\<close>

theorem cxt_thread_container:
  "sorted_wrt CxtThread_less (fold (key_insert CxtThread_less) ts []) \<and>
   ((\<exists>z. z \<in> set (fold (key_insert CxtThread_less) ts []) \<and> CxtThread_eq z t) \<longleftrightarrow>
    (\<exists>z. z \<in> set ts \<and> CxtThread_eq z t))"
proof -
  have "sorted_wrt CxtThread_less s \<Longrightarrow>
      sorted_wrt CxtThread_less (fold (key_insert CxtThread_less) ts s) \<and>
      ((\<exists>z\<in>set (fold (key_insert CxtThread_less) ts s). CxtThread_eq z t) \<longleftrightarrow>
       (\<exists>z\<in>set ts. CxtThread_eq z t) \<or> (\<exists>z\<in>set s. CxtThread_eq z t))" for s
    by (induction ts arbitrary: s) (auto simp: ct.key_insert_sorted ct.key_insert_member)
  from this [of "[]"] show ?thesis by (auto simp: Bex_def)
qed

text \<open>Assignment copies statements, thread statements, procedures and thread procedures
  completely. Assignment of a thread copies the fork site and the context only: the result
  is equal to the source by \<open>operator==\<close> and still carries the loop and cycle flags of the
  target.\<close>

theorem cxt_assignment:
  "CxtStmt_assign a b = b \<and> CxtThreadStmt_assign a' b' = b' \<and> CxtProc_assign p q = q \<and>
   CxtThreadProc_assign p' q' = q' \<and> CxtThread_eq (CxtThread_assign t u) u \<and>
   ct_inloop (CxtThread_assign t u) = ct_inloop t \<and>
   ct_incycle (CxtThread_assign t u) = ct_incycle t"
  by (simp add: CxtStmt_assign_def CxtThreadStmt_assign_def CxtProc_assign_def
    CxtThreadProc_assign_def CxtThread_assign_def cxt_order_defs cxt_stmt.expand
    cxt_thread_stmt.expand cxt_proc.expand cxt_thread_proc.expand)

end
