(* ===== verification/IR.thy ===== *)
theory IR
  imports CxtStmt "HOL-Library.Monad_Syntax"
begin

text \<open>
  What the thread analyses read of the program under analysis. The intermediate
  representation belongs to LLVM and the call graph, the thread API and the points-to
  results are inputs computed before; they are the fields of the record \<open>program\<close>, each
  named after the accessor it stands for. Instructions, functions and basic blocks are the
  addresses of the objects.
\<close>

type_synonym bb = nat
type_synonym val = nat

text \<open>\<open>llvm::AliasResult\<close>; as a condition it is false for \<open>NoAlias\<close> (the value 0) only.\<close>

datatype alias_result = NoAlias | MayAlias | PartialAlias | MustAlias

definition alias_bool :: "alias_result \<Rightarrow> bool" where
  "alias_bool r \<longleftrightarrow> r \<noteq> NoAlias"

datatype cg_edge_kind = CallRetEdge | TDForkEdge | TDJoinEdge | HareParForEdge

record cg_edge =
  e_src :: func
  e_dst :: func
  e_kind :: cg_edge_kind
  e_direct :: "inst list"
  e_indirect :: "inst list"

text \<open>
  What \<open>PTASCEV\<close> keeps of the scalar evolution of a thread pointer: \<open>inloop\<close> says that the
  pointer is an add recurrence; \<open>start\<close> and \<open>step\<close> are 0 when they are not constants.
\<close>

record ptascev =
  sc_start :: val
  sc_step :: val
  sc_ptr :: val
  sc_inloop :: bool
  sc_tripcount :: nat

type_synonym loop = nat

record program =
  mod_funs :: "func list"
  fun_insts :: "func \<Rightarrow> inst list"
  fun_of :: "inst \<Rightarrow> func"
  bb_of :: "inst \<Rightarrow> bb"
  bb_front :: "bb \<Rightarrow> inst"
  bb_back :: "bb \<Rightarrow> inst"
  bb_succs :: "bb \<Rightarrow> bb list"
  bb_preds :: "bb \<Rightarrow> bb list"
  next_node :: "inst \<Rightarrow> inst"
  prev_node :: "inst \<Rightarrow> inst"
  entry_bb :: "func \<Rightarrow> bb"
  exit_bb :: "func \<Rightarrow> bb"
  is_terminator :: "inst \<Rightarrow> bool"
  is_call :: "inst \<Rightarrow> bool"
  is_return :: "inst \<Rightarrow> bool"
  is_load :: "inst \<Rightarrow> bool"
  is_store :: "inst \<Rightarrow> bool"
  pointer_operand :: "inst \<Rightarrow> val"
  is_ext_call :: "inst \<Rightarrow> bool"
  is_ext_fun :: "func \<Rightarrow> bool"
  td_fork :: "inst \<Rightarrow> bool"
  td_join :: "inst \<Rightarrow> bool"
  fork_sites :: "inst list"
  join_sites :: "inst list"
  forked_thread :: "inst \<Rightarrow> val"
  joined_thread :: "inst \<Rightarrow> val"
  scev_of :: "inst \<Rightarrow> ptascev"
  gep_operands :: "val \<Rightarrow> int option list option"
  callee_of :: "inst \<Rightarrow> func option"
  fun_name :: "func \<Rightarrow> string"
  loop_of :: "bb \<Rightarrow> loop option"
  loop_header :: "loop \<Rightarrow> bb"
  loop_contains :: "loop \<Rightarrow> bb \<Rightarrow> bool"
  loop_exits :: "loop \<Rightarrow> bb list"
  post_dom :: "bb \<Rightarrow> bb \<Rightarrow> bool"
  in_cycle :: "func \<Rightarrow> bool"
  td_acquire :: "inst \<Rightarrow> bool"
  td_release :: "inst \<Rightarrow> bool"
  lock_val :: "inst \<Rightarrow> val"
  pta_alias :: "val \<Rightarrow> val \<Rightarrow> alias_result"
  in_edges :: "func \<Rightarrow> cg_edge list"
  out_edges :: "func \<Rightarrow> cg_edge list"
  call_edges :: "inst \<Rightarrow> cg_edge list option"
  fork_edges :: "inst \<Rightarrow> cg_edge list option"
  call_site_id :: "inst \<Rightarrow> func \<Rightarrow> nat"
  same_scc :: "func \<Rightarrow> func \<Rightarrow> bool"
  entry_procs :: "func list"

text \<open>Instructions that may follow or precede one on the control flow graph.\<close>

definition getNextInsts :: "program \<Rightarrow> inst \<Rightarrow> inst list" where
  "getNextInsts P i = (if \<not> is_terminator P i then [next_node P i]
     else map (bb_front P) (bb_succs P (bb_of P i)))"

definition getPrevInsts :: "program \<Rightarrow> inst \<Rightarrow> inst list" where
  "getPrevInsts P i = (if i \<noteq> bb_front P (bb_of P i) then [prev_node P i]
     else map (bb_back P) (bb_preds P (bb_of P i)))"

text \<open>The first instruction of a function.\<close>

definition entry_inst :: "program \<Rightarrow> func \<Rightarrow> inst" where
  "entry_inst P f = bb_front P (entry_bb P f)"

text \<open>A program with nothing in it, from which the examples are built by record update.\<close>

definition empty_program :: program where
  "empty_program = \<lparr>mod_funs = [], fun_insts = (\<lambda>_. []), fun_of = (\<lambda>_. 0), bb_of = (\<lambda>_. 0),
     bb_front = (\<lambda>_. 0), bb_back = (\<lambda>_. 0), bb_succs = (\<lambda>_. []), bb_preds = (\<lambda>_. []),
     next_node = Suc, prev_node = (\<lambda>i. i - 1), entry_bb = (\<lambda>_. 0), exit_bb = (\<lambda>_. 0),
     is_terminator = (\<lambda>_. False), is_call = (\<lambda>_. False), is_return = (\<lambda>_. False),
     is_load = (\<lambda>_. False), is_store = (\<lambda>_. False), pointer_operand = (\<lambda>_. 0),
     is_ext_call = (\<lambda>_. False), is_ext_fun = (\<lambda>_. False), td_fork = (\<lambda>_. False),
     td_join = (\<lambda>_. False), fork_sites = [], join_sites = [], forked_thread = (\<lambda>_. 0),
     joined_thread = (\<lambda>_. 0), scev_of = (\<lambda>_. \<lparr>sc_start = 0, sc_step = 0, sc_ptr = 0,
       sc_inloop = False, sc_tripcount = 0\<rparr>), gep_operands = (\<lambda>_. None), callee_of = (\<lambda>_. None),
     fun_name = (\<lambda>_. []), loop_of = (\<lambda>_. None), loop_header = (\<lambda>_. 0),
     loop_contains = (\<lambda>_ _. False), loop_exits = (\<lambda>_. []), post_dom = (\<lambda>_ _. False),
     in_cycle = (\<lambda>_. False),
     td_acquire = (\<lambda>_. False), td_release = (\<lambda>_. False), lock_val = (\<lambda>_. 0),
     pta_alias = (\<lambda>_ _. NoAlias), in_edges = (\<lambda>_. []), out_edges = (\<lambda>_. []),
     call_edges = (\<lambda>_. None), fork_edges = (\<lambda>_. None), call_site_id = (\<lambda>_ _. 0),
     same_scc = (\<lambda>_ _. False), entry_procs = []\<rparr>"

section \<open>Loops that may hit an assertion\<close>

text \<open>A \<open>for\<close> loop whose body may fail an \<open>assert\<close>: \<open>None\<close> from the first failure on.\<close>

fun foldM :: "('a \<Rightarrow> 's \<Rightarrow> 's option) \<Rightarrow> 'a list \<Rightarrow> 's \<Rightarrow> 's option" where
  "foldM f [] s = Some s"
| "foldM f (x # xs) s = (case f x s of None \<Rightarrow> None | Some s' \<Rightarrow> foldM f xs s')"

lemma foldM_append: "foldM f (xs @ ys) s = Option.bind (foldM f xs s) (foldM f ys)"
  by (induction xs arbitrary: s) (auto split: option.splits)

lemma foldM_concat: "foldM (\<lambda>x. foldM f (g x)) xs s = foldM f (concat (map g xs)) s"
  by (induction xs arbitrary: s) (auto simp: foldM_append split: option.splits bind_splits)

lemma foldM_map: "foldM f (map g xs) s = foldM (\<lambda>x. f (g x)) xs s"
  by (induction xs arbitrary: s) (auto split: option.splits)

lemma foldM_inv:
  assumes "foldM f xs s = Some t" and "I s"
    and "\<And>x s s'. x \<in> set xs \<Longrightarrow> I s \<Longrightarrow> f x s = Some s' \<Longrightarrow> I s'"
  shows "I t"
  using assms
proof (induction xs arbitrary: s)
  case (Cons a xs)
  then obtain s1 where f: "f a s = Some s1" and r: "foldM f xs s1 = Some t"
    by (auto split: option.splits)
  have "I s1" using Cons.prems(3) [OF _ Cons.prems(2) f] by simp
  show ?case
  proof (rule Cons.IH [OF r \<open>I s1\<close>])
    show "I s'" if "x \<in> set xs" "I s" "f x s = Some s'" for x s s'
      by (rule Cons.prems(3) [OF _ that(2,3)]) (simp add: that(1))
  qed
qed simp

text \<open>
  A \<open>while\<close> loop whose body may fail an \<open>assert\<close>. The result is \<open>None\<close> when the loop does
  not end, \<open>Some None\<close> when an assertion fails and \<open>Some (Some s)\<close> when it ends in \<open>s\<close>.
\<close>

definition while_assert :: "('s \<Rightarrow> bool) \<Rightarrow> ('s \<Rightarrow> 's option) \<Rightarrow> 's \<Rightarrow> 's option option" where
  "while_assert b c s = while_option (\<lambda>r. case r of None \<Rightarrow> False | Some s \<Rightarrow> b s)
     (\<lambda>r. Option.bind r c) (Some s)"

lemma while_assert_inv:
  assumes "while_assert b c s = Some (Some t)" and "I s"
    and "\<And>s s'. I s \<Longrightarrow> b s \<Longrightarrow> c s = Some s' \<Longrightarrow> I s'"
  shows "I t \<and> \<not> b t"
proof -
  let ?I = "\<lambda>r. case r of None \<Rightarrow> True | Some s \<Rightarrow> I s"
  have "?I (Option.bind r c)" if "?I r" "case r of None \<Rightarrow> False | Some s \<Rightarrow> b s" for r
    using that assms(3) by (cases r) (auto split: option.splits)
  then show ?thesis
    using while_option_invariant [OF assms(1) [unfolded while_assert_def], of ?I] assms(2) by simp
qed

lemma while_assert_total:
  assumes "wf r" and "I s"
    and step: "\<And>s. I s \<Longrightarrow> b s \<Longrightarrow> \<exists>s'. c s = Some s' \<and> I s' \<and> (s', s) \<in> r"
  shows "\<exists>t. while_assert b c s = Some (Some t) \<and> I t \<and> \<not> b t"
proof -
  let ?b = "\<lambda>r. case r of None \<Rightarrow> False | Some s \<Rightarrow> b s"
  let ?I = "\<lambda>o'. \<exists>s. o' = Some s \<and> I s"
  have "\<exists>t. while_option ?b (\<lambda>r. Option.bind r c) (Some s) = Some t \<and> ?I t \<and> \<not> ?b t"
  proof (rule while_option_total [of "inv_image r the" ?I])
    show "wf (inv_image r the)" using assms(1) by simp
    show "?I (Option.bind o' c) \<and> (Option.bind o' c, o') \<in> inv_image r the" if "?I o'" "?b o'" for o'
    proof -
      from that obtain s where "o' = Some s" "I s" "b s" by auto
      with step [of s] show ?thesis by auto
    qed
  qed (use assms(2) in simp)
  then show ?thesis by (auto simp: while_assert_def)
qed

section \<open>Outcomes of calls\<close>

text \<open>
  A call that runs loops of its own and may fail an \<open>assert\<close>: \<open>None\<close> when a loop does not
  end, \<open>Some None\<close> when an assertion fails.
\<close>

type_synonym 's run = "'s option option"

definition and_then :: "'s run \<Rightarrow> ('s \<Rightarrow> 't run) \<Rightarrow> 't run" where
  "and_then r f = (case r of None \<Rightarrow> None | Some None \<Rightarrow> Some None | Some (Some s) \<Rightarrow> f s)"

lemma and_then_simps [simp]:
  "and_then None f = None" "and_then (Some None) f = Some None" "and_then (Some (Some s)) f = f s"
  by (simp_all add: and_then_def)

lemma and_then_done:
  "and_then r f = Some (Some t) \<longleftrightarrow> (\<exists>s. r = Some (Some s) \<and> f s = Some (Some t))"
  by (auto simp: and_then_def split: option.splits)

lemma and_then_assoc: "and_then (and_then r f) g = and_then r (\<lambda>x. and_then (f x) g)"
  by (simp add: and_then_def split: option.splits)

fun foldR :: "('a \<Rightarrow> 's \<Rightarrow> 's run) \<Rightarrow> 'a list \<Rightarrow> 's \<Rightarrow> 's run" where
  "foldR f [] s = Some (Some s)"
| "foldR f (x # xs) s = and_then (f x s) (foldR f xs)"

lemma foldR_append: "foldR f (xs @ ys) s = and_then (foldR f xs s) (foldR f ys)"
  by (induction xs arbitrary: s) (auto simp: and_then_def split: option.splits)

lemma foldR_map: "foldR f (map g xs) s = foldR (\<lambda>x. f (g x)) xs s"
  by (induction xs arbitrary: s) (auto simp: and_then_def split: option.splits)

lemma foldR_append_fun: "foldR f (xs @ ys) = (\<lambda>s. and_then (foldR f xs s) (foldR f ys))"
  by (rule ext) (rule foldR_append)

lemma foldR_map_fun: "foldR f (map g xs) = foldR (\<lambda>x. f (g x)) xs"
  by (rule ext) (rule foldR_map)

text \<open>A loop over a body with outcomes.\<close>

definition while_run :: "('s \<Rightarrow> bool) \<Rightarrow> ('s \<Rightarrow> 's run) \<Rightarrow> 's \<Rightarrow> 's run" where
  "while_run b c s = (case while_option (\<lambda>r. case r of Some (Some s) \<Rightarrow> b s | _ \<Rightarrow> False)
     (\<lambda>r. and_then r c) (Some (Some s)) of None \<Rightarrow> None | Some r \<Rightarrow> r)"

lemma while_run_total:
  assumes "wf r" and "I s"
    and step: "\<And>s. I s \<Longrightarrow> b s \<Longrightarrow> \<exists>s'. c s = Some (Some s') \<and> I s' \<and> (s', s) \<in> r"
  shows "\<exists>t. while_run b c s = Some (Some t) \<and> I t \<and> \<not> b t"
proof -
  let ?b = "\<lambda>r. case r of Some (Some s) \<Rightarrow> b s | _ \<Rightarrow> False"
  let ?I = "\<lambda>o'. \<exists>s. o' = Some (Some s) \<and> I s"
  let ?r = "inv_image r (\<lambda>o'. the (the o'))"
  have "\<exists>t. while_option ?b (\<lambda>r. and_then r c) (Some (Some s)) = Some t \<and> ?I t \<and> \<not> ?b t"
  proof (rule while_option_total [of ?r ?I])
    show "wf ?r" using assms(1) by simp
    show "?I (and_then o' c) \<and> (and_then o' c, o') \<in> ?r" if "?I o'" "?b o'" for o'
    proof -
      from that obtain s where "o' = Some (Some s)" "I s" "b s" by auto
      with step [of s] show ?thesis by auto
    qed
  qed (use assms(2) in simp)
  then show ?thesis by (auto simp: while_run_def)
qed

section \<open>An example\<close>

text \<open>
  One function of one block: a store, a call that acquires a lock, a store, the call that
  releases it, and the return. The examples of the other theories run on it.
\<close>

definition locked_store :: program where
  "locked_store = empty_program\<lparr>mod_funs := [0], fun_insts := (\<lambda>_. [10, 11, 12, 13, 14]),
     bb_front := (\<lambda>_. 10), bb_back := (\<lambda>_. 14), is_terminator := (\<lambda>i. i = 14),
     is_return := (\<lambda>i. i = 14), is_call := (\<lambda>i. i = 11 \<or> i = 13),
     is_ext_call := (\<lambda>i. i = 11 \<or> i = 13), is_store := (\<lambda>i. i = 10 \<or> i = 12),
     td_acquire := (\<lambda>i. i = 11), td_release := (\<lambda>i. i = 13), pta_alias := (\<lambda>_ _. MayAlias),
     entry_procs := [0], out_edges := (\<lambda>f. if f = 0 then [\<lparr>e_src = 0, e_dst = 5,
       e_kind = CallRetEdge, e_direct = [11], e_indirect = []\<rparr>] else [])\<rparr>"

lemma locked_store_simps [simp]:
  "fun_of locked_store i = 0" "td_acquire locked_store i \<longleftrightarrow> i = 11"
  "td_release locked_store i \<longleftrightarrow> i = 13" "\<not> td_fork locked_store i"
  "is_call locked_store i \<longleftrightarrow> i = 11 \<or> i = 13" "is_ext_call locked_store i \<longleftrightarrow> i = 11 \<or> i = 13"
  "is_return locked_store i \<longleftrightarrow> i = 14" "is_store locked_store i \<longleftrightarrow> i = 10 \<or> i = 12"
  "\<not> is_load locked_store i" "in_edges locked_store f = []" "entry_procs locked_store = [0]"
  "pta_alias locked_store p q = MayAlias" "bb_front locked_store b = 10" "bb_back locked_store b = 14"
  "getNextInsts locked_store i = (if i = 14 then [] else [Suc i])"
  "getPrevInsts locked_store i = (if i = 10 then [] else [i - 1])"
  "entry_inst locked_store f = 10" "mod_funs locked_store = [0]"
  "fun_insts locked_store f = [10, 11, 12, 13, 14]"
  "out_edges locked_store f = (if f = 0 then [\<lparr>e_src = 0, e_dst = 5, e_kind = CallRetEdge,
    e_direct = [11], e_indirect = []\<rparr>] else [])"
  by (simp_all add: locked_store_def empty_program_def getNextInsts_def getPrevInsts_def entry_inst_def)

end
