(* ===== verification/LockAnalysis.thy ===== *)
theory LockAnalysis
  imports WorkList IR
begin

text \<open>
  The lock analysis of \<open>include/MTA/LockAnalysis.h\<close> and \<open>lib/MTA/LockAnalysis.cpp\<close>: the
  collection of lock sites and of the functions relevant to them, the intraprocedural spans
  found by a forward and a backward traversal, the context-sensitive locks, the lock sets of
  context-sensitive statements computed over a work list, and the queries on them.
\<close>

section \<open>State\<close>

text \<open>A \<open>CxtLock\<close> is the context-sensitive statement that acquires it.\<close>

type_synonym cxt_lock = cxt_stmt

record lock_analysis =
  cxtStmtList :: "cxt_stmt fifo"
  instToCxtStmtSet :: "inst \<rightharpoonup> cxt_stmt std_set"
  cxtLockset :: "cxt_lock std_set"
  cxtLocktoSpan :: "cxt_lock \<rightharpoonup> cxt_stmt std_set"
  cxtStmtToCxtLockSet :: "cxt_stmt \<rightharpoonup> cxt_lock std_set"
  clpList :: "cxt_proc fifo"
  visitedCTPs :: "cxt_proc std_set"
  locksites :: "inst std_set"
  unlocksites :: "inst std_set"
  lockcandidateFuncSet :: "func std_set"
  ciLocktoSpan :: "inst \<rightharpoonup> inst std_set"
  instCILocksMap :: "inst \<rightharpoonup> inst std_set"
  instTocondCILocksMap :: "inst \<rightharpoonup> inst std_set"

definition la_new :: lock_analysis where
  "la_new = \<lparr>cxtStmtList = fifo_new, instToCxtStmtSet = Map.empty, cxtLockset = [],
     cxtLocktoSpan = Map.empty, cxtStmtToCxtLockSet = Map.empty, clpList = fifo_new,
     visitedCTPs = [], locksites = [], unlocksites = [], lockcandidateFuncSet = [],
     ciLocktoSpan = Map.empty, instCILocksMap = Map.empty, instTocondCILocksMap = Map.empty\<rparr>"

definition isAliasedLocks :: "program \<Rightarrow> inst \<Rightarrow> inst \<Rightarrow> bool" where
  "isAliasedLocks P i1 i2 = alias_bool (pta_alias P (lock_val P i1) (lock_val P i2))"

section \<open>Lock sites and relevant functions\<close>

text \<open>All instructions of the module, in the order in which the loops visit them.\<close>

definition module_insts :: "program \<Rightarrow> inst list" where
  "module_insts P = concat (map (fun_insts P) (mod_funs P))"

definition collectLockUnlocksites :: "program \<Rightarrow> lock_analysis \<Rightarrow> lock_analysis" where
  "collectLockUnlocksites P s = fold (\<lambda>i s.
     let s1 = (if td_release P i then s\<lparr>unlocksites := set_insert i (unlocksites s)\<rparr> else s)
     in if td_acquire P i then s1\<lparr>locksites := set_insert i (locksites s1)\<rparr> else s1)
   (module_insts P) s"

text \<open>
  \<open>buildCandidateFuncSetforLock\<close>: a work list of call graph nodes, identified with their
  functions, with a set of those that were ever pushed.
\<close>

record cand_state =
  cd_visited :: "func set"
  cd_work :: "func fifo"
  cd_funs :: "func std_set"

definition cand_push :: "func \<Rightarrow> cand_state \<Rightarrow> cand_state" where
  "cand_push f c = (if f \<notin> cd_visited c
     then c\<lparr>cd_work := snd (fifo_push f (cd_work c)), cd_visited := insert f (cd_visited c)\<rparr>
     else c)"

definition cand_step :: "program \<Rightarrow> cand_state \<Rightarrow> cand_state" where
  "cand_step P c = (case fifo_pop (cd_work c) of None \<Rightarrow> c
     | Some (f, w) \<Rightarrow> fold cand_push (map e_src (in_edges P f))
         (c\<lparr>cd_work := w, cd_funs := set_insert f (cd_funs c)\<rparr>))"

definition cand_init :: "program \<Rightarrow> lock_analysis \<Rightarrow> cand_state" where
  "cand_init P s = fold cand_push (map (fun_of P) (locksites s @ unlocksites s))
     \<lparr>cd_visited = {}, cd_work = fifo_new, cd_funs = lockcandidateFuncSet s\<rparr>"

definition buildCandidateFuncSetforLock :: "program \<Rightarrow> lock_analysis \<Rightarrow> lock_analysis option" where
  "buildCandidateFuncSetforLock P s =
     map_option (\<lambda>c. s\<lparr>lockcandidateFuncSet := cd_funs c\<rparr>)
       (while_option (\<lambda>c. \<not> fifo_empty (cd_work c)) (cand_step P) (cand_init P s))"

definition isLockCandidateFun :: "lock_analysis \<Rightarrow> func \<Rightarrow> bool" where
  "isLockCandidateFun s f \<longleftrightarrow> set_find f (lockcandidateFuncSet s)"

section \<open>Intraprocedural locks\<close>

definition isIntraLock :: "lock_analysis \<Rightarrow> inst \<Rightarrow> bool option" where
  "isIntraLock s l = (if set_find l (locksites s) then Some (ciLocktoSpan s l \<noteq> None) else None)"

definition add_to :: "'k \<Rightarrow> 'a::linorder \<Rightarrow> ('k \<rightharpoonup> 'a std_set) \<Rightarrow> ('k \<rightharpoonup> 'a std_set)" where
  "add_to k x m = m(k \<mapsto> set_insert x (map_at [] m k))"

definition addIntraLock :: "inst \<Rightarrow> inst std_set \<Rightarrow> lock_analysis \<Rightarrow> lock_analysis" where
  "addIntraLock l stmts s = fold (\<lambda>i s. s\<lparr>instCILocksMap := add_to i l (instCILocksMap s),
     ciLocktoSpan := add_to l i (ciLocktoSpan s)\<rparr>) stmts s"

definition addCondIntraLock :: "inst \<Rightarrow> inst std_set \<Rightarrow> lock_analysis \<Rightarrow> lock_analysis" where
  "addCondIntraLock l stmts s = fold (\<lambda>i s. s\<lparr>instTocondCILocksMap :=
     add_to i l (instTocondCILocksMap s)\<rparr>) stmts s"

definition isInsideCondIntraLock :: "lock_analysis \<Rightarrow> inst \<Rightarrow> bool" where
  "isInsideCondIntraLock s i \<longleftrightarrow> instTocondCILocksMap s i \<noteq> None"

definition isInsideIntraLock :: "lock_analysis \<Rightarrow> inst \<Rightarrow> bool" where
  "isInsideIntraLock s i \<longleftrightarrow> instCILocksMap s i \<noteq> None \<or> isInsideCondIntraLock s i"

definition getIntraLockSet :: "lock_analysis \<Rightarrow> inst \<Rightarrow> inst std_set option" where
  "getIntraLockSet s i = instCILocksMap s i"

text \<open>
  The forward traversal from a lock site: a stack, the releases found, the instructions
  seen. \<open>fw_exit\<close> is the early \<open>return false\<close> at the front of the function's exit block.
\<close>

record fwd_state =
  fw_work :: "inst list"
  fw_unlock :: "inst std_set"
  fw_insts :: "inst std_set"
  fw_exit :: bool

definition fwd_matches :: "program \<Rightarrow> inst \<Rightarrow> inst \<Rightarrow> bool" where
  "fwd_matches P lock i \<longleftrightarrow> td_release P i \<and> isAliasedLocks P lock i"

definition fwd_step :: "program \<Rightarrow> inst \<Rightarrow> fwd_state \<Rightarrow> fwd_state" where
  "fwd_step P lock s =
     (let i = last (fw_work s); s1 = s\<lparr>fw_work := butlast (fw_work s)\<rparr> in
      if bb_front P (exit_bb P (fun_of P lock)) = i then s1\<lparr>fw_exit := True\<rparr>
      else if set_find i (fw_insts s) then s1
      else let s2 = s1\<lparr>fw_insts := set_insert i (fw_insts s)\<rparr> in
        if fwd_matches P lock i then s2\<lparr>fw_unlock := set_insert i (fw_unlock s)\<rparr>
        else s2\<lparr>fw_work := fw_work s2 @ getNextInsts P i\<rparr>)"

definition fwd_go :: "fwd_state \<Rightarrow> bool" where
  "fwd_go s \<longleftrightarrow> fw_work s \<noteq> [] \<and> \<not> fw_exit s"

definition intraForwardTraverse :: "program \<Rightarrow> inst \<Rightarrow> fwd_state option" where
  "intraForwardTraverse P lock = while_option fwd_go (fwd_step P lock)
     \<lparr>fw_work = [lock], fw_unlock = [], fw_insts = [], fw_exit = False\<rparr>"

text \<open>
  The backward traversal, one round per release in the order of the set. The instructions
  seen are shared by the rounds; a round ends the whole traversal with \<open>false\<close> at the last
  instruction of the function's entry block.
\<close>

record bwd_state =
  bw_work :: "inst list"
  bw_insts :: "inst std_set"
  bw_exit :: bool

definition bwd_matches :: "program \<Rightarrow> inst \<Rightarrow> inst \<Rightarrow> bool" where
  "bwd_matches P unlock i \<longleftrightarrow> td_acquire P i \<and> isAliasedLocks P unlock i"

definition bwd_step :: "program \<Rightarrow> inst \<Rightarrow> bwd_state \<Rightarrow> bwd_state" where
  "bwd_step P unlock s =
     (let i = last (bw_work s); s1 = s\<lparr>bw_work := butlast (bw_work s)\<rparr> in
      if bb_back P (entry_bb P (fun_of P unlock)) = i then s1\<lparr>bw_exit := True\<rparr>
      else if set_find i (bw_insts s) then s1
      else let s2 = s1\<lparr>bw_insts := set_insert i (bw_insts s)\<rparr> in
        if bwd_matches P unlock i then s2
        else s2\<lparr>bw_work := bw_work s2 @ getPrevInsts P i\<rparr>)"

definition bwd_go :: "bwd_state \<Rightarrow> bool" where
  "bwd_go s \<longleftrightarrow> bw_work s \<noteq> [] \<and> \<not> bw_exit s"

definition bwd_round :: "program \<Rightarrow> inst \<Rightarrow> bwd_state \<Rightarrow> bwd_state option" where
  "bwd_round P unlock s = (if bw_exit s then Some s
     else while_option bwd_go (bwd_step P unlock) (s\<lparr>bw_work := bw_work s @ [unlock]\<rparr>))"

definition intraBackwardTraverse :: "program \<Rightarrow> inst std_set \<Rightarrow> bwd_state option" where
  "intraBackwardTraverse P unlocks = foldM (bwd_round P) unlocks
     \<lparr>bw_work = [], bw_insts = [], bw_exit = False\<rparr>"

text \<open>One lock site, and the loop over them. The instructions seen backward are not used.\<close>

definition analyzeIntraLock :: "program \<Rightarrow> inst \<Rightarrow> lock_analysis \<Rightarrow> lock_analysis option" where
  "analyzeIntraLock P l s =
     (case intraForwardTraverse P l of None \<Rightarrow> None | Some f \<Rightarrow>
      (case intraBackwardTraverse P (fw_unlock f) of None \<Rightarrow> None | Some b \<Rightarrow>
        Some (if \<not> fw_exit f \<and> \<not> bw_exit b then addIntraLock l (fw_insts f) s
          else if \<not> fw_exit f \<and> bw_exit b then addCondIntraLock l (fw_insts f) s
          else s)))"

definition analyzeIntraProcedualLock :: "program \<Rightarrow> lock_analysis \<Rightarrow> lock_analysis option" where
  "analyzeIntraProcedualLock P s = foldM (analyzeIntraLock P) (locksites s) s"

section \<open>What the traversals compute\<close>

text \<open>Both traversals are searches that stop at a matching release or acquire.\<close>

definition fwd_succ :: "program \<Rightarrow> inst \<Rightarrow> inst \<Rightarrow> inst set" where
  "fwd_succ P lock i = (if fwd_matches P lock i then {} else set (getNextInsts P i))"

definition bwd_succ :: "program \<Rightarrow> inst \<Rightarrow> inst \<Rightarrow> inst set" where
  "bwd_succ P unlock i = (if bwd_matches P unlock i then {} else set (getPrevInsts P i))"

definition fwd_exit_inst :: "program \<Rightarrow> inst \<Rightarrow> inst" where
  "fwd_exit_inst P lock = bb_front P (exit_bb P (fun_of P lock))"

definition fwd_inv :: "program \<Rightarrow> inst \<Rightarrow> fwd_state \<Rightarrow> bool" where
  "fwd_inv P lock s \<longleftrightarrow> std_set_ok (fw_insts s) \<and> std_set_ok (fw_unlock s) \<and>
     set (fw_unlock s) = {i \<in> set (fw_insts s). fwd_matches P lock i}"

interpretation fwd: graph_search "fwd_succ P lock" "\<lambda>i. fwd_exit_inst P lock = i"
  "\<lambda>s. set (fw_work s)" "\<lambda>s. set (fw_insts s)" fw_exit "\<lambda>s. length (fw_work s)" fwd_go
  "fwd_step P lock" "fwd_inv P lock" for P lock
proof (unfold_locales, goal_cases)
  case (3 s)
  then show ?case
    by (auto simp: fwd_step_def fwd_go_def fwd_exit_inst_def Let_def split: if_splits)
next
  case (4 s)
  then show ?case
    using set_split_last [of "fw_work s"]
    by (auto simp: fwd_step_def fwd_go_def fwd_succ_def Let_def set_find_def split: if_splits)
next
  case (6 s)
  then show ?case
    using set_split_last [of "fw_work s"]
    by (auto simp: fwd_step_def fwd_go_def Let_def set_find_def split: if_splits)
next
  case (7 s x)
  then show ?case
    by (auto simp: fwd_step_def fwd_go_def fwd_succ_def fwd_exit_inst_def Let_def set_find_def
      split: if_splits)
qed (auto simp: fwd_step_def fwd_go_def fwd_inv_def Let_def set_find_def split: if_splits)

text \<open>The traversal ends on a finite control flow graph and decides reachability of the exit
  block's front without passing a matching release.\<close>

lemma fwd_result:
  assumes "intraForwardTraverse P lock = Some t"
  shows "(fw_exit t \<longleftrightarrow> fwd_exit_inst P lock \<in> reach (fwd_succ P lock) {lock}) \<and>
    (\<not> fw_exit t \<longrightarrow> set (fw_insts t) = reach (fwd_succ P lock) {lock}) \<and> fwd_inv P lock t"
  using fwd.search_result [OF assms [unfolded intraForwardTraverse_def], of "{lock}"]
  by (auto simp: fwd_inv_def)

lemma fwd_terminates:
  assumes "finite (reach (fwd_succ P lock) {lock})"
  shows "\<exists>t. intraForwardTraverse P lock = Some t"
  using fwd.search_terminates [OF assms] unfolding intraForwardTraverse_def
  by (auto simp: fwd_inv_def)

text \<open>One backward round is a walk along the predecessors.\<close>

definition bwd_exit_inst :: "program \<Rightarrow> inst \<Rightarrow> inst" where
  "bwd_exit_inst P unlock = bb_back P (entry_bb P (fun_of P unlock))"

definition bwd_inv :: "bwd_state \<Rightarrow> bool" where
  "bwd_inv s \<longleftrightarrow> std_set_ok (bw_insts s)"

interpretation bwd: graph_walk "\<lambda>i. set (getPrevInsts P i)" "\<lambda>i. bwd_exit_inst P u = i"
  "\<lambda>s. set (bw_work s)" "\<lambda>s. set (bw_insts s)" bw_exit "\<lambda>s. length (bw_work s)" bwd_go
  "bwd_step P u" bwd_inv for P u
proof (unfold_locales, goal_cases)
  case (3 s)
  then show ?case
    by (auto simp: bwd_step_def bwd_go_def bwd_exit_inst_def Let_def split: if_splits)
next
  case (4 s)
  then show ?case
    using set_split_last [of "bw_work s"]
    by (auto simp: bwd_step_def bwd_go_def bwd_succ_def Let_def set_find_def split: if_splits)
qed (auto simp: bwd_step_def bwd_go_def bwd_inv_def Let_def set_find_def split: if_splits)

text \<open>
  The instructions before the releases, release by release: a round goes back from its release over
  instructions that no round before has seen, and stops at an acquire aliased with this release.
\<close>

definition back_from :: "program \<Rightarrow> inst set \<Rightarrow> inst \<Rightarrow> inst set" where
  "back_from P S u = reach (\<lambda>i. if i \<in> S then {} else bwd_succ P u i) {u}"

fun back_seen :: "program \<Rightarrow> inst list \<Rightarrow> inst set \<Rightarrow> inst set" where
  "back_seen P [] S = S"
| "back_seen P (u # us) S = back_seen P us (S \<union> back_from P S u)"

definition bwd_so_far :: "program \<Rightarrow> inst \<Rightarrow> inst set \<Rightarrow> bwd_state \<Rightarrow> bool" where
  "bwd_so_far P u S s \<longleftrightarrow> bwd_inv s \<and> bwd_exit_inst P u \<notin> S \<and> (bw_exit s \<longrightarrow> bwd_exit_inst P u \<in> back_from P S u) \<and>
     (\<not> bw_exit s \<longrightarrow> S \<subseteq> set (bw_insts s) \<and> set (bw_insts s) \<union> set (bw_work s) \<subseteq> S \<union> back_from P S u \<and>
        u \<in> set (bw_insts s) \<union> set (bw_work s) \<and> bwd_exit_inst P u \<notin> set (bw_insts s) \<and>
        (\<forall>i\<in>set (bw_insts s) - S. bwd_succ P u i \<subseteq> set (bw_insts s) \<union> set (bw_work s)))"

lemma bwd_so_far_step:
  assumes "bwd_so_far P u S s" "bwd_go s"
  shows "bwd_so_far P u S (bwd_step P u s)"
proof -
  let ?i = "last (bw_work s)"
  have w: "set (bw_work s) = insert ?i (set (butlast (bw_work s)))" and nx: "\<not> bw_exit s"
    using assms(2) set_split_last [of "bw_work s"] by (auto simp: bwd_go_def)
  have I: "bwd_inv s" "bwd_exit_inst P u \<notin> S" "S \<subseteq> set (bw_insts s)"
    "set (bw_insts s) \<union> set (bw_work s) \<subseteq> S \<union> back_from P S u" "u \<in> set (bw_insts s) \<union> set (bw_work s)"
    "bwd_exit_inst P u \<notin> set (bw_insts s)"
    "\<forall>i\<in>set (bw_insts s) - S. bwd_succ P u i \<subseteq> set (bw_insts s) \<union> set (bw_work s)"
    using assms(1) nx by (auto simp: bwd_so_far_def)
  have sx: "bwd_succ P u ?i \<subseteq> back_from P S u" if "?i \<notin> set (bw_insts s)"
  proof
    fix y assume y: "y \<in> bwd_succ P u ?i"
    have "?i \<notin> S" using that I(3) by blast
    moreover have "?i \<in> back_from P S u" using I(4) w \<open>?i \<notin> S\<close> by blast
    ultimately show "y \<in> back_from P S u" using y unfolding back_from_def by (auto intro: reach_step)
  qed
  consider "bwd_exit_inst P u = ?i" | "bwd_exit_inst P u \<noteq> ?i" "?i \<in> set (bw_insts s)"
    | "bwd_exit_inst P u \<noteq> ?i" "?i \<notin> set (bw_insts s)" by blast
  then show ?thesis
  proof cases
    case 1
    then have "bwd_exit_inst P u \<in> back_from P S u" using I(2,4) w by auto
    then show ?thesis using 1 I by (simp add: bwd_step_def bwd_so_far_def bwd_exit_inst_def bwd_inv_def Let_def)
  next
    case 2
    then have e: "bwd_step P u s = s\<lparr>bw_work := butlast (bw_work s)\<rparr>"
      by (simp add: bwd_step_def bwd_exit_inst_def set_find_def Let_def)
    have "set (bw_insts s) \<union> set (bw_work s) = set (bw_insts s) \<union> set (butlast (bw_work s))"
      by (subst w) (use 2(2) in blast)
    then show ?thesis unfolding e using I nx by (simp add: bwd_so_far_def bwd_inv_def)
  next
    case 3
    let ?t = "bwd_step P u s"
    have t: "set (bw_insts ?t) = insert ?i (set (bw_insts s))" "bw_exit ?t = bw_exit s" "bwd_inv ?t"
      "set (bw_work ?t) = set (butlast (bw_work s)) \<union> bwd_succ P u ?i"
      using 3 I(1) by (auto simp: bwd_step_def bwd_exit_inst_def set_find_def Let_def bwd_succ_def bwd_inv_def)
    have un: "set (bw_insts ?t) \<union> set (bw_work ?t) = set (bw_insts s) \<union> set (bw_work s) \<union> bwd_succ P u ?i"
      unfolding t w by blast
    show ?thesis unfolding bwd_so_far_def un
      using I nx 3(1) sx [OF 3(2)] t(1-3) by auto
  qed
qed

lemma bwd_round_result:
  assumes r: "bwd_round P u s = Some t" and s: "\<not> bw_exit s" "bw_work s = []" "bwd_inv s"
    and e: "bwd_exit_inst P u \<notin> set (bw_insts s)"
  shows "bwd_inv t \<and> (bw_exit t \<longleftrightarrow> bwd_exit_inst P u \<in> back_from P (set (bw_insts s)) u) \<and>
    (\<not> bw_exit t \<longrightarrow> bw_work t = [] \<and> set (bw_insts t) = set (bw_insts s) \<union> back_from P (set (bw_insts s)) u)"
proof -
  let ?S = "set (bw_insts s)"
  have w: "while_option bwd_go (bwd_step P u) (s\<lparr>bw_work := [u]\<rparr>) = Some t"
    using r s by (simp add: bwd_round_def)
  have "u \<in> back_from P ?S u" unfolding back_from_def by (rule reach_root) simp
  then have "bwd_so_far P u ?S (s\<lparr>bw_work := [u]\<rparr>)" using s e by (simp add: bwd_so_far_def bwd_inv_def)
  then have I: "bwd_so_far P u ?S t \<and> \<not> bwd_go t"
    using while_option_invariant [OF w, of "bwd_so_far P u ?S"] bwd_so_far_step by blast
  have "set (bw_insts t) = ?S \<union> back_from P ?S u \<and> bwd_exit_inst P u \<notin> back_from P ?S u \<and> bw_work t = []" if x: "\<not> bw_exit t"
  proof -
    have p: "bw_work t = []" using I x by (simp add: bwd_go_def)
    have c: "?S \<subseteq> set (bw_insts t)" "set (bw_insts t) \<subseteq> ?S \<union> back_from P ?S u" "u \<in> set (bw_insts t)"
      "bwd_exit_inst P u \<notin> set (bw_insts t)" "\<forall>i\<in>set (bw_insts t) - ?S. bwd_succ P u i \<subseteq> set (bw_insts t)"
      using I x p by (auto simp: bwd_so_far_def)
    have "back_from P ?S u \<subseteq> set (bw_insts t)"
      unfolding back_from_def by (rule reach_least) (use c(3,5) in \<open>auto split: if_splits\<close>)
    then show ?thesis using c p by blast
  qed
  then show ?thesis using I by (auto simp: bwd_so_far_def)
qed

lemma back_seen_mono: "S \<subseteq> back_seen P us S"
  by (induction us arbitrary: S) (simp, fastforce)

lemma bwd_rounds_exit: "bw_exit s \<Longrightarrow> foldM (bwd_round P) us s = Some s"
  by (induction us) (simp_all add: bwd_round_def)

lemma bwd_rounds_result:
  assumes "foldM (bwd_round P) us s = Some t" and "\<forall>u\<in>set us. bwd_exit_inst P u = e"
    and "\<not> bw_exit s" "bw_work s = []" "bwd_inv s" "e \<notin> set (bw_insts s)"
  shows "(bw_exit t \<longleftrightarrow> e \<in> back_seen P us (set (bw_insts s))) \<and>
    (\<not> bw_exit t \<longrightarrow> set (bw_insts t) = back_seen P us (set (bw_insts s)))"
  using assms
proof (induction us arbitrary: s)
  case (Cons u us)
  from Cons.prems(1) obtain s1 where r: "bwd_round P u s = Some s1"
    and f: "foldM (bwd_round P) us s1 = Some t" by (auto split: option.splits)
  let ?R = "set (bw_insts s) \<union> back_from P (set (bw_insts s)) u"
  have e: "bwd_exit_inst P u = e" using Cons.prems(2) by simp
  have R: "bwd_inv s1" "bw_exit s1 \<longleftrightarrow> e \<in> ?R" "\<not> bw_exit s1 \<Longrightarrow> bw_work s1 = [] \<and> set (bw_insts s1) = ?R"
    using bwd_round_result [OF r Cons.prems(3-5)] Cons.prems(6) unfolding e by blast+
  show ?case
  proof (cases "bw_exit s1")
    case True
    then have "t = s1" using f bwd_rounds_exit by simp
    moreover have "e \<in> back_seen P us ?R" using True R(2) back_seen_mono by blast
    ultimately show ?thesis using True by simp
  next
    case False
    then have "bw_work s1 = []" "set (bw_insts s1) = ?R" "e \<notin> set (bw_insts s1)" using R by auto
    then show ?thesis using Cons.IH [OF f _ False _ R(1)] Cons.prems(2) by simp
  qed
qed simp

text \<open>When the same acquires match all the releases, the rounds together are one search.\<close>

lemma back_seen_reach:
  assumes "\<forall>u\<in>set us. bwd_succ P u = sc" and "\<And>x. x \<in> S \<Longrightarrow> sc x \<subseteq> S"
  shows "back_seen P us S = S \<union> reach sc (set us)"
  using assms
proof (induction us arbitrary: S)
  case Nil
  then show ?case by (simp add: reach_def)
next
  case (Cons u us)
  let ?B = "back_from P S u"
  have B: "?B = reach (\<lambda>i. if i \<in> S then {} else sc i) {u}"
  proof -
    have u: "bwd_succ P u = sc" using Cons.prems(1) by simp
    show ?thesis unfolding back_from_def u ..
  qed
  have cl: "sc x \<subseteq> S \<union> ?B" if "x \<in> S \<union> ?B" for x
    using that Cons.prems(2) [of x] unfolding B by (cases "x \<in> S") (auto intro: reach_step)
  have up: "?B \<subseteq> reach sc {u}" unfolding B
    by (rule reach_least) (auto intro: reach_step split: if_splits)
  have "reach sc (set (u # us)) = reach sc {u} \<union> reach sc (set us)" by (auto simp: reach_def)
  moreover have "reach sc {u} \<subseteq> S \<union> ?B"
    by (rule reach_least) (use cl in \<open>auto simp: B\<close>)
  ultimately show ?case using Cons.IH [of "S \<union> ?B"] Cons.prems(1) cl up by auto
qed

lemma bwd_rounds_terminate:
  assumes fin: "finite A" and A: "\<And>x. x \<in> A \<Longrightarrow> set (getPrevInsts P x) \<subseteq> A"
    and "set us \<subseteq> A" and "\<forall>u\<in>set us. bwd_exit_inst P u = e" and "bwd_inv s"
    and "if bw_exit s then e \<in> A else bw_work s = [] \<and> set (bw_insts s) \<subseteq> A"
  shows "\<exists>t. foldM (bwd_round P) us s = Some t \<and> (bw_exit t \<longrightarrow> e \<in> A)"
  using assms(3-)
proof (induction us arbitrary: s)
  case (Cons u us)
  have u: "u \<in> A" "bwd_exit_inst P u = e" using Cons.prems by auto
  have "\<exists>s1. bwd_round P u s = Some s1 \<and> bwd_inv s1 \<and>
      (if bw_exit s1 then e \<in> A else bw_work s1 = [] \<and> set (bw_insts s1) \<subseteq> A)"
  proof (cases "bw_exit s")
    case True
    then show ?thesis using Cons.prems by (simp add: bwd_round_def)
  next
    case False
    have "bwd.inside P u A (s\<lparr>bw_work := bw_work s @ [u]\<rparr>)"
      unfolding bwd.inside_def using Cons.prems False by (simp add: bwd_inv_def)
    from bwd.walk_terminates [OF fin A this] obtain s1 where
      w: "while_option bwd_go (bwd_step P u) (s\<lparr>bw_work := bw_work s @ [u]\<rparr>) = Some s1"
      and i: "bwd.inside P u A s1" by blast
    note i = i [unfolded bwd.inside_def]
    have "\<not> bwd_go s1" using while_option_stop [OF w] .
    then show ?thesis using w i False u
      by (auto simp: bwd_round_def bwd_go_def split: if_splits)
  qed
  then obtain s1 where s1: "bwd_round P u s = Some s1" "bwd_inv s1"
    "if bw_exit s1 then e \<in> A else bw_work s1 = [] \<and> set (bw_insts s1) \<subseteq> A" by blast
  have "\<exists>t. foldM (bwd_round P) us s1 = Some t \<and> (bw_exit t \<longrightarrow> e \<in> A)"
    by (rule Cons.IH) (use Cons.prems s1 in auto)
  then show ?case using s1(1) by simp
qed (simp split: if_splits)

section \<open>The recorded spans\<close>

lemma map_at_add_to [simp]:
  "map_at [] (add_to k x m) k' = (if k' = k then set_insert x (map_at [] m k) else map_at [] m k')"
  by (simp add: add_to_def)

lemma dom_add_to [simp]: "dom (add_to k x m) = insert k (dom m)"
  by (auto simp: add_to_def)

lemma addIntraLock_locks:
  "set (map_at [] (instCILocksMap (addIntraLock l st s)) i) =
    set (map_at [] (instCILocksMap s) i) \<union> (if i \<in> set st then {l} else {})"
  by (induction st arbitrary: s) (auto simp: addIntraLock_def split: if_splits)

lemma addIntraLock_span:
  "set (map_at [] (ciLocktoSpan (addIntraLock l st s)) l') =
    set (map_at [] (ciLocktoSpan s) l') \<union> (if l' = l then set st else {})"
  by (induction st arbitrary: s) (auto simp: addIntraLock_def split: if_splits)

lemma addIntraLock_dom:
  "dom (instCILocksMap (addIntraLock l st s)) = dom (instCILocksMap s) \<union> set st"
  by (induction st arbitrary: s) (auto simp: addIntraLock_def)

lemma addIntraLock_frame [simp]:
  "instTocondCILocksMap (addIntraLock l st s) = instTocondCILocksMap s"
  by (induction st arbitrary: s) (auto simp: addIntraLock_def)

lemma addCondIntraLock_dom:
  "dom (instTocondCILocksMap (addCondIntraLock l st s)) = dom (instTocondCILocksMap s) \<union> set st"
  by (induction st arbitrary: s) (auto simp: addCondIntraLock_def)

lemma addCondIntraLock_frame [simp]:
  "instCILocksMap (addCondIntraLock l st s) = instCILocksMap s"
  "ciLocktoSpan (addCondIntraLock l st s) = ciLocktoSpan s"
  by (induction st arbitrary: s) (auto simp: addCondIntraLock_def)

text \<open>The outcome of the two traversals for one lock site.\<close>

definition intra_outcome :: "program \<Rightarrow> inst \<Rightarrow> (bool \<times> bool \<times> inst std_set) option" where
  "intra_outcome P l = (case intraForwardTraverse P l of None \<Rightarrow> None | Some f \<Rightarrow>
     map_option (\<lambda>b. (\<not> fw_exit f, \<not> bw_exit b, fw_insts f)) (intraBackwardTraverse P (fw_unlock f)))"

lemma analyzeIntraLock_outcome:
  "analyzeIntraLock P l s = map_option (\<lambda>(fwd, bwd, st).
     if fwd \<and> bwd then addIntraLock l st s else if fwd \<and> \<not> bwd then addCondIntraLock l st s else s)
     (intra_outcome P l)"
  by (auto simp: analyzeIntraLock_def intra_outcome_def split: option.splits)

definition in_intra_span :: "program \<Rightarrow> inst \<Rightarrow> inst \<Rightarrow> bool" where
  "in_intra_span P l i \<longleftrightarrow> (\<exists>st. intra_outcome P l = Some (True, True, st) \<and> i \<in> set st)"

definition in_cond_span :: "program \<Rightarrow> inst \<Rightarrow> inst \<Rightarrow> bool" where
  "in_cond_span P l i \<longleftrightarrow> (\<exists>st. intra_outcome P l = Some (True, False, st) \<and> i \<in> set st)"

lemma analyzeIntra_spans:
  "foldM (analyzeIntraLock P) ls s = Some t \<Longrightarrow>
    set (map_at [] (instCILocksMap t) i) =
      set (map_at [] (instCILocksMap s) i) \<union> {l \<in> set ls. in_intra_span P l i} \<and>
    set (map_at [] (ciLocktoSpan t) l) = set (map_at [] (ciLocktoSpan s) l) \<union>
      {i. l \<in> set ls \<and> in_intra_span P l i} \<and>
    (i \<in> dom (instCILocksMap t) \<longleftrightarrow> i \<in> dom (instCILocksMap s) \<or> (\<exists>l\<in>set ls. in_intra_span P l i)) \<and>
    (i \<in> dom (instTocondCILocksMap t) \<longleftrightarrow>
      i \<in> dom (instTocondCILocksMap s) \<or> (\<exists>l\<in>set ls. in_cond_span P l i))"
proof (induction ls arbitrary: s)
  case (Cons l0 ls)
  then obtain s1 where s1: "analyzeIntraLock P l0 s = Some s1"
    and r: "foldM (analyzeIntraLock P) ls s1 = Some t" by (auto split: option.splits)
  from s1 obtain f b st where o: "intra_outcome P l0 = Some (f, b, st)"
    and s1': "s1 = (if f \<and> b then addIntraLock l0 st s
      else if f \<and> \<not> b then addCondIntraLock l0 st s else s)"
    by (auto simp: analyzeIntraLock_outcome)
  have sp: "in_intra_span P l0 = (\<lambda>i. f \<and> b \<and> i \<in> set st)"
    "in_cond_span P l0 = (\<lambda>i. f \<and> \<not> b \<and> i \<in> set st)"
    using o by (auto simp: in_intra_span_def in_cond_span_def fun_eq_iff)
  consider "f" "b" | "f" "\<not> b" | "\<not> f" by blast
  then show ?case
  proof cases
    case 1
    then show ?thesis
      using Cons.IH [OF r] by (auto simp: s1' sp addIntraLock_locks addIntraLock_span addIntraLock_dom)
  next
    case 2
    then show ?thesis
      using Cons.IH [OF r] by (auto simp: s1' sp addCondIntraLock_dom)
  next
    case 3
    then show ?thesis
      using Cons.IH [OF r] by (auto simp: s1' sp)
  qed
qed simp

section \<open>The candidate functions\<close>

definition cand_inv :: "cand_state \<Rightarrow> bool" where
  "cand_inv c \<longleftrightarrow> fifo_inv (cd_work c) \<and> std_set_ok (cd_funs c) \<and>
     set (data_list (cd_work c)) \<inter> set (cd_funs c) = {} \<and>
     cd_visited c = set (data_list (cd_work c)) \<union> set (cd_funs c)"

lemma cand_pushes:
  assumes "cand_inv c"
  shows "cand_inv (fold cand_push fs c) \<and> cd_funs (fold cand_push fs c) = cd_funs c \<and>
    set (data_list (cd_work (fold cand_push fs c))) =
      set (data_list (cd_work c)) \<union> (set fs - set (cd_funs c))"
  using assms
proof (induction fs arbitrary: c)
  case (Cons f fs)
  have "cand_inv (cand_push f c) \<and> cd_funs (cand_push f c) = cd_funs c \<and>
      set (data_list (cd_work (cand_push f c))) =
        set (data_list (cd_work c)) \<union> ({f} - set (cd_funs c))"
    using Cons.prems by (auto simp: cand_inv_def cand_push_def fifo.push_set fifo.push_inv)
  then show ?case using Cons.IH [of "cand_push f c"] by auto
qed simp

interpretation cand: graph_search "\<lambda>f. set (map e_src (in_edges P f))" "\<lambda>_. False"
  "\<lambda>c. set (data_list (cd_work c))" "\<lambda>c. set (cd_funs c)" "\<lambda>_. False"
  "\<lambda>c. length (data_list (cd_work c))" "\<lambda>c. \<not> fifo_empty (cd_work c)" "cand_step P" cand_inv
  for P
proof -
  have step: "\<exists>f. f \<in> set (data_list (cd_work c)) \<and> f \<notin> set (cd_funs c) \<and>
      cand_inv (cand_step P c) \<and> set (cd_funs (cand_step P c)) = insert f (set (cd_funs c)) \<and>
      set (data_list (cd_work (cand_step P c))) = (set (data_list (cd_work c)) - {f}) \<union>
        (set (map e_src (in_edges P f)) - insert f (set (cd_funs c)))"
    if i: "cand_inv c" and g: "\<not> fifo_empty (cd_work c)" for c
  proof -
    from g i obtain f w where p: "fifo_pop (cd_work c) = Some (f, w)"
      using fifo.pop_None [of "cd_work c"] by (cases "fifo_pop (cd_work c)")
        (auto simp: cand_inv_def fifo_empty_def)
    let ?c = "c\<lparr>cd_work := w, cd_funs := set_insert f (cd_funs c)\<rparr>"
    have fw: "fifo_inv w" "f \<in> set (data_list (cd_work c))"
      "set (data_list w) = set (data_list (cd_work c)) - {f}"
      using fifo.pop_Some [OF _ p] fifo.pop_set [OF _ p] i by (auto simp: cand_inv_def)
    have "cand_inv ?c" using i fw by (auto simp: cand_inv_def)
    from cand_pushes [OF this, of "map e_src (in_edges P f)"] show ?thesis
      using i fw by (intro exI [of _ f]) (auto simp: cand_step_def p cand_inv_def)
  qed
  show "graph_search (\<lambda>f. set (map e_src (in_edges P f))) (\<lambda>_. False)
    (\<lambda>c. set (data_list (cd_work c))) (\<lambda>c. set (cd_funs c)) (\<lambda>_. False)
    (\<lambda>c. length (data_list (cd_work c))) (\<lambda>c. \<not> fifo_empty (cd_work c)) (cand_step P) cand_inv"
  proof (unfold_locales, goal_cases)
    case (2 c) then show ?case using step by blast
  next
    case (4 c) then show ?case using step [of c] by auto
  next
    case (5 c) then show ?case using step [of c] by auto
  next
    case (6 c) then show ?case using step [of c] by auto
  next
    case (7 c x) then show ?case using step [of c] by auto
  qed (simp_all add: fifo_empty_def)
qed

section \<open>The example\<close>

lemma locked_store_fwd: "reach (fwd_succ locked_store 11) {11} = {11, 12, 13}"
proof (rule reach_eq)
  have 1: "11 \<in> reach (fwd_succ locked_store 11) {11}" by (rule reach_root) simp
  have 2: "12 \<in> reach (fwd_succ locked_store 11) {11}"
    by (rule reach_step [OF 1]) (simp add: fwd_succ_def fwd_matches_def)
  have 3: "13 \<in> reach (fwd_succ locked_store 11) {11}"
    by (rule reach_step [OF 2]) (simp add: fwd_succ_def fwd_matches_def)
  show "{11, 12, 13} \<subseteq> reach (fwd_succ locked_store 11) {11}" using 1 2 3 by simp
qed (auto simp: fwd_succ_def fwd_matches_def isAliasedLocks_def alias_bool_def)

lemma locked_store_outcome: "intra_outcome locked_store 11 = Some (True, True, [11, 12, 13])"
  by code_simp

section \<open>Properties\<close>

text \<open>C29: From a lock site whose control flow is finite the forward traversal returns, and it
  returns false exactly when the first instruction of the function's exit block can be reached
  without passing a release of an aliased lock. Otherwise it has seen exactly the instructions
  so reachable, and the releases it collected are the aliased releases among them.\<close>

theorem intraForwardTraverse_correct:
  assumes "finite (reach (fwd_succ P lock) {lock})"
  shows "\<exists>t. intraForwardTraverse P lock = Some t \<and>
    (fw_exit t \<longleftrightarrow> fwd_exit_inst P lock \<in> reach (fwd_succ P lock) {lock}) \<and>
    (fw_exit t \<or> set (fw_insts t) = reach (fwd_succ P lock) {lock} \<and>
       set (fw_unlock t) = {i \<in> reach (fwd_succ P lock) {lock}. fwd_matches P lock i})"
  using fwd_terminates [OF assms] fwd_result [of P lock] by (fastforce simp: fwd_inv_def)

theorem intraForwardTraverse_correct_witness: "\<exists>t. intraForwardTraverse locked_store 11 = Some t \<and> \<not> fw_exit t \<and>
   set (fw_insts t) = {11, 12, 13} \<and> set (fw_unlock t) = {13}"
proof -
  have m: "{i \<in> {11, 12, 13}. fwd_matches locked_store 11 i} = {13}"
    by (auto simp: fwd_matches_def isAliasedLocks_def alias_bool_def)
  from intraForwardTraverse_correct [of locked_store 11] show ?thesis
    unfolding locked_store_fwd m by (auto simp: fwd_exit_inst_def)
qed

text \<open>C30: The backward traversal from releases of one function returns when the control flow
  before them is finite. It goes back from one release after the other, not past an acquire aliased with that
  release and not past what an earlier round has seen: it returns false exactly when it comes so to the last
  instruction of the entry block, and otherwise has seen exactly the instructions it comes to. When the same
  acquires match all the releases, these are the instructions before the releases that are reached without
  passing a matching acquire.\<close>

theorem intraBackwardTraverse_correct:
  assumes fin: "finite (reach (\<lambda>i. set (getPrevInsts P i)) (set us))"
    and f: "\<forall>u\<in>set us. bb_back P (entry_bb P (fun_of P u)) = e"
  shows "\<exists>t. intraBackwardTraverse P us = Some t \<and> (bw_exit t \<longleftrightarrow> e \<in> back_seen P us {}) \<and>
    (\<not> bw_exit t \<longrightarrow> set (bw_insts t) = back_seen P us {}) \<and>
    (\<forall>u\<in>set us. (\<forall>v\<in>set us. bwd_matches P v = bwd_matches P u) \<longrightarrow>
      back_seen P us {} = reach (bwd_succ P u) (set us))"
proof -
  let ?s = "\<lparr>bw_work = [], bw_insts = [], bw_exit = False\<rparr>"
  have e: "\<forall>u\<in>set us. bwd_exit_inst P u = e" using f by (simp add: bwd_exit_inst_def)
  have "\<exists>t. foldM (bwd_round P) us ?s = Some t \<and>
      (bw_exit t \<longrightarrow> e \<in> reach (\<lambda>i. set (getPrevInsts P i)) (set us))"
    by (rule bwd_rounds_terminate [OF fin _ _ e]) (auto simp: bwd_inv_def intro: reach_step)
  then obtain t where t: "foldM (bwd_round P) us ?s = Some t" by blast
  have r: "(bw_exit t \<longleftrightarrow> e \<in> back_seen P us {}) \<and> (\<not> bw_exit t \<longrightarrow> set (bw_insts t) = back_seen P us {})"
    using bwd_rounds_result [OF t e] by (simp add: bwd_inv_def)
  have m: "back_seen P us {} = reach (bwd_succ P u) (set us)" if "\<forall>v\<in>set us. bwd_matches P v = bwd_matches P u" for u
  proof -
    have "\<forall>v\<in>set us. bwd_succ P v = bwd_succ P u" using that by (simp add: bwd_succ_def fun_eq_iff)
    from back_seen_reach [OF this, of "{}"] show ?thesis by simp
  qed
  from t have "intraBackwardTraverse P us = Some t" by (simp only: intraBackwardTraverse_def)
  then show ?thesis using r m by blast
qed

theorem intraBackwardTraverse_correct_witness:
  "\<exists>t. intraBackwardTraverse locked_store [13] = Some t \<and> \<not> bw_exit t \<and> set (bw_insts t) = {11, 12, 13}"
proof -
  let ?r = "reach (\<lambda>i. set (getPrevInsts locked_store i)) (set [13])"
  have "?r \<subseteq> {10, 11, 12, 13}" by (rule reach_least) (auto split: if_splits)
  then have fin: "finite ?r" by (rule finite_subset) simp
  have 1: "13 \<in> reach (bwd_succ locked_store 13) {13}" by (rule reach_root) simp
  have 2: "12 \<in> reach (bwd_succ locked_store 13) {13}"
    by (rule reach_step [OF 1]) (simp add: bwd_succ_def bwd_matches_def)
  have 3: "11 \<in> reach (bwd_succ locked_store 13) {13}"
    by (rule reach_step [OF 2]) (simp add: bwd_succ_def bwd_matches_def)
  have "reach (bwd_succ locked_store 13) {13} = {11, 12, 13}"
    by (rule reach_eq) (use 1 2 3 in \<open>auto simp: bwd_succ_def bwd_matches_def isAliasedLocks_def alias_bool_def\<close>)
  then have b: "back_seen locked_store [13] {} = {11, 12, 13}" by (simp add: back_from_def)
  have e: "\<forall>u\<in>set [13]. bb_back locked_store (entry_bb locked_store (fun_of locked_store u)) = 14" by simp
  from intraBackwardTraverse_correct [OF fin e] obtain t where t: "intraBackwardTraverse locked_store [13] = Some t"
    "bw_exit t \<longleftrightarrow> 14 \<in> {11, 12, 13::nat}" "\<not> bw_exit t \<longrightarrow> set (bw_insts t) = {11, 12, 13}"
    unfolding b by blast
  then show ?thesis by simp
qed

text \<open>C32: After the intraprocedural analysis of a fresh state, the two maps it fills are
  inverse to each other and record exactly the spans of the lock sites whose traversals both
  returned true; an instruction counts as inside an intraprocedural lock when it lies in such a
  span or in the span of a lock site whose backward traversal returned false.\<close>

theorem analyzeIntraProcedualLock_spans:
  assumes "analyzeIntraProcedualLock P s = Some t"
    and "instCILocksMap s = Map.empty" "ciLocktoSpan s = Map.empty" "instTocondCILocksMap s = Map.empty"
  shows "set (map_at [] (instCILocksMap t) i) = {l \<in> set (locksites s). in_intra_span P l i} \<and>
    (l \<in> set (map_at [] (instCILocksMap t) i) \<longleftrightarrow> i \<in> set (map_at [] (ciLocktoSpan t) l)) \<and>
    (isInsideIntraLock t i \<longleftrightarrow>
      (\<exists>l\<in>set (locksites s). in_intra_span P l i \<or> in_cond_span P l i))"
  using analyzeIntra_spans [OF assms(1) [unfolded analyzeIntraProcedualLock_def], of i l] assms(2-)
  by (auto simp: isInsideIntraLock_def isInsideCondIntraLock_def)

theorem analyzeIntraProcedualLock_spans_witness:
  "\<exists>t. analyzeIntraProcedualLock locked_store (la_new\<lparr>locksites := [11]\<rparr>) = Some t \<and>
     set (map_at [] (instCILocksMap t) 12) = {11} \<and> 12 \<in> set (map_at [] (ciLocktoSpan t) 11) \<and>
     isInsideIntraLock t 12"
proof -
  have a: "in_intra_span locked_store 11 12" using locked_store_outcome by (auto simp: in_intra_span_def)
  then have i: "{l \<in> {11}. in_intra_span locked_store l 12} = {11}" by auto
  obtain t where t: "analyzeIntraProcedualLock locked_store (la_new\<lparr>locksites := [11]\<rparr>) = Some t"
    by (simp add: analyzeIntraProcedualLock_def analyzeIntraLock_outcome locked_store_outcome)
  have f: "instCILocksMap (la_new\<lparr>locksites := [11]\<rparr>) = Map.empty"
    "ciLocktoSpan (la_new\<lparr>locksites := [11]\<rparr>) = Map.empty"
    "instTocondCILocksMap (la_new\<lparr>locksites := [11]\<rparr>) = Map.empty" by (simp_all add: la_new_def)
  have s: "set (locksites (la_new\<lparr>locksites := [11]\<rparr>)) = {11}" by simp
  from analyzeIntraProcedualLock_spans [OF t f, of 12 11] t show ?thesis
    unfolding s i using a by auto
qed

text \<open>The candidate functions are exactly the functions with a lock or unlock site and their
  direct and indirect callers, and the work list that computes them empties whenever there are
  finitely many of these.\<close>

theorem buildCandidateFuncSetforLock_correct:
  assumes "lockcandidateFuncSet s = []"
    and "finite (reach (\<lambda>f. set (map e_src (in_edges P f))) (fun_of P ` set (locksites s @ unlocksites s)))"
  shows "\<exists>t. buildCandidateFuncSetforLock P s = Some t \<and> (\<forall>f. isLockCandidateFun t f \<longleftrightarrow>
    f \<in> reach (\<lambda>f. set (map e_src (in_edges P f))) (fun_of P ` set (locksites s @ unlocksites s)))"
proof -
  have e: "cand_inv \<lparr>cd_visited = {}, cd_work = fifo_new, cd_funs = []\<rparr>"
    using fifo.new by (auto simp: cand_inv_def)
  have i: "cand_inv (cand_init P s)" "set (cd_funs (cand_init P s)) = {}"
    "set (data_list (cd_work (cand_init P s))) = fun_of P ` set (locksites s @ unlocksites s)"
    using cand_pushes [OF e, of "map (fun_of P) (locksites s @ unlocksites s)"] assms(1) fifo.new
    by (simp_all add: cand_init_def fifo_new_def image_Un)
  obtain c where c: "while_option (\<lambda>c. \<not> fifo_empty (cd_work c)) (cand_step P) (cand_init P s) = Some c"
    using cand.search_terminates [OF assms(2) i] by blast
  have "set (cd_funs c) = reach (\<lambda>f. set (map e_src (in_edges P f)))
      (fun_of P ` set (locksites s @ unlocksites s))"
    using cand.search_result [OF c i] by simp
  then show ?thesis
    using c by (auto simp: buildCandidateFuncSetforLock_def isLockCandidateFun_def set_find_def)
qed

theorem buildCandidateFuncSetforLock_correct_witness: "\<exists>t. buildCandidateFuncSetforLock locked_store (la_new\<lparr>locksites := [11]\<rparr>) = Some t \<and>
  isLockCandidateFun t 0 \<and> \<not> isLockCandidateFun t 1"
proof -
  have r: "reach (\<lambda>f. set (map e_src (in_edges locked_store f))) {0} = {0}"
    by (rule reach_eq) auto
  show ?thesis
    using buildCandidateFuncSetforLock_correct [of "la_new\<lparr>locksites := [11]\<rparr>" locked_store] r
    by (auto simp: la_new_def)
qed

end
