(* ===== verification/LockSpan.thy ===== *)
theory LockSpan
  imports LockAnalysis
begin

text \<open>
  The context-sensitive half of \<open>lib/MTA/LockAnalysis.cpp\<close>: collecting the context-sensitive
  locks over the call graph, and the forward propagation of lock sets over context-sensitive
  statements. An \<open>assert\<close> that fails is \<open>None\<close>.
\<close>

section \<open>Contexts\<close>

text \<open>As in \<open>TCT\<close>, the pairs asked for an identity are those of an edge of the call graph.\<close>

definition pushCxt :: "program \<Rightarrow> call_str_cxt \<Rightarrow> inst \<Rightarrow> func \<Rightarrow> call_str_cxt" where
  "pushCxt P cxt call callee = (if \<not> same_scc P (fun_of P call) callee
     then cxt @ [call_site_id P call callee] else cxt)"

text \<open>The result says whether the context matches, and the context after the return.\<close>

definition matchCxt :: "program \<Rightarrow> call_str_cxt \<Rightarrow> inst \<Rightarrow> func \<Rightarrow> bool \<times> call_str_cxt" where
  "matchCxt P cxt call callee =
     (if cxt = [] then (True, cxt)
      else if \<not> same_scc P (fun_of P call) callee then
        (if last cxt = call_site_id P call callee then (True, butlast cxt) else (False, cxt))
      else (True, cxt))"

section \<open>Collecting context-sensitive locks\<close>

definition addCxtLock :: "call_str_cxt \<Rightarrow> inst \<Rightarrow> lock_analysis \<Rightarrow> lock_analysis" where
  "addCxtLock cxt i s = s\<lparr>cxtLockset := set_insert (CxtStmt cxt i) (cxtLockset s)\<rparr>"

definition hasCxtLock :: "lock_analysis \<Rightarrow> cxt_lock \<Rightarrow> bool" where
  "hasCxtLock s l \<longleftrightarrow> set_find l (cxtLockset s)"

definition pushToCTPWorkList :: "cxt_proc \<Rightarrow> lock_analysis \<Rightarrow> bool \<times> lock_analysis" where
  "pushToCTPWorkList clp s = (if \<not> set_find clp (visitedCTPs s)
     then (case fifo_push clp (clpList s) of (b, w) \<Rightarrow>
       (b, s\<lparr>visitedCTPs := set_insert clp (visitedCTPs s), clpList := w\<rparr>))
     else (False, s))"

definition handleCallRelation ::
    "program \<Rightarrow> cxt_proc \<Rightarrow> cg_edge \<Rightarrow> inst \<Rightarrow> lock_analysis \<Rightarrow> lock_analysis" where
  "handleCallRelation P clp e cs s =
     (if td_acquire P cs then addCxtLock (cp_getContext clp) cs s
      else snd (pushToCTPWorkList (CxtProc (pushCxt P (cp_getContext clp) cs (e_dst e)) (e_dst e)) s))"

definition collect_step :: "program \<Rightarrow> lock_analysis \<Rightarrow> lock_analysis" where
  "collect_step P s = (case fifo_pop (clpList s) of None \<Rightarrow> s
     | Some (clp, w) \<Rightarrow> (let s1 = s\<lparr>clpList := w\<rparr> in
        if \<not> isLockCandidateFun s1 (cp_getProc clp) then s1
        else fold (\<lambda>e s. fold (handleCallRelation P clp e) (e_indirect e)
               (fold (handleCallRelation P clp e) (e_direct e) s))
             (out_edges P (cp_getProc clp)) s1))"

definition collectCxtLock :: "program \<Rightarrow> lock_analysis \<Rightarrow> lock_analysis option" where
  "collectCxtLock P s = while_option (\<lambda>s. \<not> fifo_empty (clpList s)) (collect_step P)
     (fold (\<lambda>f s. if \<not> isLockCandidateFun s f then s
        else snd (pushToCTPWorkList (CxtProc [] f) s)) (entry_procs P) s)"

section \<open>Lock sets and spans\<close>

definition hasCxtStmtfromInst :: "lock_analysis \<Rightarrow> inst \<Rightarrow> bool" where
  "hasCxtStmtfromInst s i \<longleftrightarrow> instToCxtStmtSet s i \<noteq> None"

definition getCxtStmtfromInst :: "lock_analysis \<Rightarrow> inst \<Rightarrow> cxt_stmt std_set option" where
  "getCxtStmtfromInst s i = instToCxtStmtSet s i"

definition hasCxtLockfromCxtStmt :: "lock_analysis \<Rightarrow> cxt_stmt \<Rightarrow> bool" where
  "hasCxtLockfromCxtStmt s c \<longleftrightarrow> cxtStmtToCxtLockSet s c \<noteq> None"

definition getCxtLockfromCxtStmt :: "lock_analysis \<Rightarrow> cxt_stmt \<Rightarrow> cxt_lock std_set option" where
  "getCxtLockfromCxtStmt s c = cxtStmtToCxtLockSet s c"

definition addCxtStmtToSpan :: "cxt_stmt \<Rightarrow> cxt_lock \<Rightarrow> lock_analysis \<Rightarrow> bool \<times> lock_analysis" where
  "addCxtStmtToSpan c l s = (l \<notin> set (map_at [] (cxtStmtToCxtLockSet s) c),
     s\<lparr>cxtLocktoSpan := add_to l c (cxtLocktoSpan s),
       cxtStmtToCxtLockSet := add_to c l (cxtStmtToCxtLockSet s)\<rparr>)"

definition removeCxtStmtToSpan :: "cxt_stmt \<Rightarrow> cxt_lock \<Rightarrow> lock_analysis \<Rightarrow> bool \<times> lock_analysis" where
  "removeCxtStmtToSpan c l s =
     (let s1 = s\<lparr>cxtStmtToCxtLockSet := map_touch [] c (cxtStmtToCxtLockSet s)\<rparr>;
          ls = map_at [] (cxtStmtToCxtLockSet s1) c
      in if set_find l ls
         then (True, s1\<lparr>cxtStmtToCxtLockSet := (cxtStmtToCxtLockSet s1)(c \<mapsto> set_erase l ls),
           cxtLocktoSpan := (cxtLocktoSpan s1)(l \<mapsto> set_erase c (map_at [] (cxtLocktoSpan s1) l))\<rparr>)
         else (False, s1))"

definition touchCxtStmt :: "cxt_stmt \<Rightarrow> lock_analysis \<Rightarrow> lock_analysis" where
  "touchCxtStmt c s = s\<lparr>cxtStmtToCxtLockSet := map_touch [] c (cxtStmtToCxtLockSet s)\<rparr>"

definition hasSpanfromCxtLock :: "lock_analysis \<Rightarrow> cxt_lock \<Rightarrow> bool" where
  "hasSpanfromCxtLock s l \<longleftrightarrow> cxtLocktoSpan s l \<noteq> None"

definition getSpanfromCxtLock :: "lock_analysis \<Rightarrow> cxt_lock \<Rightarrow> cxt_stmt std_set option" where
  "getSpanfromCxtLock s l = cxtLocktoSpan s l"

definition pushToCTSWorkList :: "cxt_stmt \<Rightarrow> lock_analysis \<Rightarrow> lock_analysis" where
  "pushToCTSWorkList c s = s\<lparr>cxtStmtList := snd (fifo_push c (cxtStmtList s))\<rparr>"

text \<open>\<open>intersect\<close>: the target's lock set, and whether anything was erased.\<close>

definition intersect_locks :: "cxt_lock std_set \<Rightarrow> cxt_lock std_set \<Rightarrow> cxt_lock std_set \<times> bool" where
  "intersect_locks tgr src = (let del = filter (\<lambda>l. \<not> set_find l src) tgr
     in (fold set_erase del tgr, del \<noteq> []))"

definition markCxtStmtFlag :: "cxt_stmt \<Rightarrow> cxt_stmt \<Rightarrow> lock_analysis \<Rightarrow> lock_analysis option" where
  "markCxtStmtFlag tgr src s =
     (case getCxtLockfromCxtStmt s src of None \<Rightarrow> None | Some srclocks \<Rightarrow>
      (case getCxtLockfromCxtStmt s tgr of
         None \<Rightarrow> Some (pushToCTSWorkList tgr
                  (fold (\<lambda>l s. snd (addCxtStmtToSpan tgr l s)) srclocks s))
       | Some tgrlocks \<Rightarrow> (case intersect_locks tgrlocks srclocks of (ls, changed) \<Rightarrow>
           let s1 = s\<lparr>cxtStmtToCxtLockSet := (cxtStmtToCxtLockSet s)(tgr \<mapsto> ls)\<rparr>
           in Some (if changed then pushToCTSWorkList tgr s1 else s1))))"

section \<open>Handlers\<close>

definition handleIntra :: "program \<Rightarrow> cxt_stmt \<Rightarrow> lock_analysis \<Rightarrow> lock_analysis option" where
  "handleIntra P cts s = foldM (\<lambda>n. markCxtStmtFlag (CxtStmt (getContext cts) n) cts)
     (getNextInsts P (getStmt cts)) s"

definition handleFork :: "program \<Rightarrow> cxt_stmt \<Rightarrow> lock_analysis \<Rightarrow> lock_analysis option" where
  "handleFork P cts s =
     (case (case fork_edges P (getStmt cts) of None \<Rightarrow> Some s
        | Some es \<Rightarrow> foldM (\<lambda>e. markCxtStmtFlag
            (CxtStmt (pushCxt P (getContext cts) (getStmt cts) (e_dst e)) (entry_inst P (e_dst e))) cts)
            es s)
      of None \<Rightarrow> None | Some s1 \<Rightarrow> handleIntra P cts s1)"

definition handleCall :: "program \<Rightarrow> cxt_stmt \<Rightarrow> lock_analysis \<Rightarrow> lock_analysis option" where
  "handleCall P cts s = (case call_edges P (getStmt cts) of None \<Rightarrow> Some s
     | Some es \<Rightarrow> foldM (\<lambda>e s. if is_ext_fun P (e_dst e) then Some s
         else markCxtStmtFlag
           (CxtStmt (pushCxt P (getContext cts) (getStmt cts) (e_dst e)) (entry_inst P (e_dst e))) cts s)
         es s)"

definition return_to :: "program \<Rightarrow> cxt_stmt \<Rightarrow> inst \<Rightarrow> lock_analysis \<Rightarrow> lock_analysis option" where
  "return_to P cts cit s =
     (case matchCxt P (getContext cts) cit (fun_of P (getStmt cts)) of
        (True, newCxt) \<Rightarrow> foldM (\<lambda>n. markCxtStmtFlag (CxtStmt newCxt n) cts) (getNextInsts P cit) s
      | (False, _) \<Rightarrow> Some s)"

definition handleRet :: "program \<Rightarrow> cxt_stmt \<Rightarrow> lock_analysis \<Rightarrow> lock_analysis option" where
  "handleRet P cts s = foldM (\<lambda>e s.
     if e_kind e = TDForkEdge \<or> e_kind e = TDJoinEdge then Some s
     else (case foldM (return_to P cts) (e_direct e) s of None \<Rightarrow> None
       | Some s1 \<Rightarrow> foldM (return_to P cts) (e_indirect e) s1))
     (in_edges P (fun_of P (getStmt cts))) s"

text \<open>One iteration of the main loop, for the statement taken from the work list.\<close>

definition visit_stmt :: "program \<Rightarrow> cxt_stmt \<Rightarrow> lock_analysis \<Rightarrow> lock_analysis option" where
  "visit_stmt P cts s0 =
     (let i = getStmt cts; s1 = touchCxtStmt cts s0;
          s = s1\<lparr>instToCxtStmtSet := add_to i cts (instToCxtStmtSet s1)\<rparr> in
      if td_fork P i then handleFork P cts s
      else if td_acquire P i then
        (if \<not> hasCxtLock s cts then None
         else (case addCxtStmtToSpan cts cts s of (b, s') \<Rightarrow> if b then handleIntra P cts s' else Some s'))
      else if td_release P i then
        (case removeCxtStmtToSpan cts cts s of (b, s') \<Rightarrow> if b then handleIntra P cts s' else Some s')
      else if is_call P i \<and> \<not> is_ext_call P i then handleCall P cts s
      else if is_return P i then handleRet P cts s
      else handleIntra P cts s)"

definition span_step :: "program \<Rightarrow> lock_analysis \<Rightarrow> lock_analysis option" where
  "span_step P s = (case fifo_pop (cxtStmtList s) of None \<Rightarrow> Some s
     | Some (cts, w) \<Rightarrow> visit_stmt P cts (s\<lparr>cxtStmtList := w\<rparr>))"

definition span_init :: "program \<Rightarrow> lock_analysis \<Rightarrow> lock_analysis" where
  "span_init P s = fold (\<lambda>f s. if \<not> isLockCandidateFun s f then s
     else pushToCTSWorkList (CxtStmt [] (entry_inst P f)) s) (entry_procs P) s"

definition analyzeLockSpanCxtStmt :: "program \<Rightarrow> lock_analysis \<Rightarrow> lock_analysis option option" where
  "analyzeLockSpanCxtStmt P s =
     while_assert (\<lambda>s. \<not> fifo_empty (cxtStmtList s)) (span_step P) (span_init P s)"

text \<open>
  \<open>analyze\<close>. The outer \<open>None\<close> is a loop that does not end, \<open>Some None\<close> a failed assertion.
  The validation of annotated test programs at its end only prints.
\<close>

definition analyze :: "program \<Rightarrow> lock_analysis \<Rightarrow> lock_analysis option option" where
  "analyze P s =
     (case buildCandidateFuncSetforLock P (collectLockUnlocksites P s) of None \<Rightarrow> None | Some s1 \<Rightarrow>
      (case analyzeIntraProcedualLock P s1 of None \<Rightarrow> None | Some s2 \<Rightarrow>
       (case collectCxtLock P s2 of None \<Rightarrow> None | Some s3 \<Rightarrow> analyzeLockSpanCxtStmt P s3)))"

end
