(* ===== verification/CollectCxtLock.thy ===== *)
theory CollectCxtLock
  imports LockSpan
begin

text \<open>
  What \<open>collectCxtLock\<close> computes: a search over the procedures with their calling contexts
  that starts at the candidate entry procedures, follows the calls of candidate procedures
  and records every acquire among these calls under the context of its caller.
\<close>

section \<open>Collecting the context-sensitive locks\<close>

text \<open>The calls of a procedure, and what they contribute to the search and to the result.\<close>

definition proc_calls :: "program \<Rightarrow> func \<Rightarrow> (cg_edge \<times> inst) list" where
  "proc_calls P f = concat (map (\<lambda>e. map (Pair e) (e_direct e @ e_indirect e)) (out_edges P f))"

definition callees :: "program \<Rightarrow> func set \<Rightarrow> cxt_proc \<Rightarrow> cxt_proc set" where
  "callees P C clp = (if cp_getProc clp \<in> C then
     {CxtProc (pushCxt P (cp_getContext clp) cs (e_dst e)) (e_dst e) | e cs.
        (e, cs) \<in> set (proc_calls P (cp_getProc clp)) \<and> \<not> td_acquire P cs} else {})"

definition locks_in :: "program \<Rightarrow> func set \<Rightarrow> cxt_proc \<Rightarrow> cxt_lock set" where
  "locks_in P C clp = (if cp_getProc clp \<in> C then
     {CxtStmt (cp_getContext clp) cs | e cs.
        (e, cs) \<in> set (proc_calls P (cp_getProc clp)) \<and> td_acquire P cs} else {})"

abbreviation ctp_pend :: "lock_analysis \<Rightarrow> cxt_proc set" where
  "ctp_pend s \<equiv> set (data_list (clpList s))"

definition ctp_done :: "lock_analysis \<Rightarrow> cxt_proc set" where
  "ctp_done s = set (visitedCTPs s) - ctp_pend s"

definition ctp_ok :: "lock_analysis \<Rightarrow> bool" where
  "ctp_ok s \<longleftrightarrow> fifo_inv (clpList s) \<and> std_set_ok (visitedCTPs s) \<and> ctp_pend s \<subseteq> set (visitedCTPs s)"

definition ctp_inv :: "program \<Rightarrow> func set \<Rightarrow> lock_analysis \<Rightarrow> bool" where
  "ctp_inv P C s \<longleftrightarrow> ctp_ok s \<and> set (lockcandidateFuncSet s) = C \<and>
     set (cxtLockset s) = (\<Union>c\<in>ctp_done s. locks_in P C c)"

lemma collect_folds:
  "fold (\<lambda>e s. fold (handleCallRelation P clp e) (e_indirect e)
     (fold (handleCallRelation P clp e) (e_direct e) s)) es s =
   fold (\<lambda>(e, cs). handleCallRelation P clp e cs)
     (concat (map (\<lambda>e. map (Pair e) (e_direct e @ e_indirect e)) es)) s"
  by (induction es arbitrary: s) (simp_all add: fold_map comp_def)

lemma push_ctp:
  assumes "ctp_ok s"
  shows "ctp_ok (snd (pushToCTPWorkList x s)) \<and>
    cxtLockset (snd (pushToCTPWorkList x s)) = cxtLockset s \<and>
    lockcandidateFuncSet (snd (pushToCTPWorkList x s)) = lockcandidateFuncSet s \<and>
    set (visitedCTPs (snd (pushToCTPWorkList x s))) = insert x (set (visitedCTPs s)) \<and>
    ctp_pend (snd (pushToCTPWorkList x s)) = ctp_pend s \<union> ({x} - set (visitedCTPs s))"
  using assms fifo.push_set [of "clpList s" x] fifo.push_inv [of "clpList s" x]
  by (cases "fifo_push x (clpList s)") (auto simp: pushToCTPWorkList_def ctp_ok_def set_find_def)

lemma handle_calls:
  assumes "ctp_ok s"
  shows "ctp_ok (fold (\<lambda>(e, cs). handleCallRelation P clp e cs) xs s) \<and>
    lockcandidateFuncSet (fold (\<lambda>(e, cs). handleCallRelation P clp e cs) xs s) = lockcandidateFuncSet s \<and>
    set (cxtLockset (fold (\<lambda>(e, cs). handleCallRelation P clp e cs) xs s)) = set (cxtLockset s) \<union>
      {CxtStmt (cp_getContext clp) cs | e cs. (e, cs) \<in> set xs \<and> td_acquire P cs} \<and>
    set (visitedCTPs (fold (\<lambda>(e, cs). handleCallRelation P clp e cs) xs s)) = set (visitedCTPs s) \<union>
      {CxtProc (pushCxt P (cp_getContext clp) cs (e_dst e)) (e_dst e) | e cs.
        (e, cs) \<in> set xs \<and> \<not> td_acquire P cs} \<and>
    ctp_pend (fold (\<lambda>(e, cs). handleCallRelation P clp e cs) xs s) = ctp_pend s \<union>
      ({CxtProc (pushCxt P (cp_getContext clp) cs (e_dst e)) (e_dst e) | e cs.
        (e, cs) \<in> set xs \<and> \<not> td_acquire P cs} - set (visitedCTPs s))"
  using assms
proof (induction xs arbitrary: s)
  case (Cons x xs)
  obtain e cs where x: "x = (e, cs)" by (cases x)
  let ?s = "handleCallRelation P clp e cs s"
  have h: "ctp_ok ?s \<and> lockcandidateFuncSet ?s = lockcandidateFuncSet s \<and>
      set (cxtLockset ?s) = set (cxtLockset s) \<union> (if td_acquire P cs then {CxtStmt (cp_getContext clp) cs} else {}) \<and>
      set (visitedCTPs ?s) = set (visitedCTPs s) \<union> (if td_acquire P cs then {}
        else {CxtProc (pushCxt P (cp_getContext clp) cs (e_dst e)) (e_dst e)}) \<and>
      ctp_pend ?s = ctp_pend s \<union> ((if td_acquire P cs then {}
        else {CxtProc (pushCxt P (cp_getContext clp) cs (e_dst e)) (e_dst e)}) - set (visitedCTPs s))"
  proof (cases "td_acquire P cs")
    case True
    then show ?thesis using Cons.prems by (simp add: handleCallRelation_def addCxtLock_def ctp_ok_def)
  next
    case False
    then show ?thesis using push_ctp [OF Cons.prems] by (simp add: handleCallRelation_def)
  qed
  note IH = Cons.IH [OF conjunct1 [OF h]]
  show ?case
    unfolding x fold_Cons comp_apply prod.case
    by (intro conjI) (use h IH in \<open>simp; auto split: if_splits\<close>)+
qed auto

text \<open>The loop is a search over the context-sensitive procedures.\<close>

lemma collect_step_effect:
  assumes I: "ctp_inv P C s" and g: "\<not> fifo_empty (clpList s)"
  shows "\<exists>c. c \<in> ctp_pend s \<and> c \<notin> ctp_done s \<and> ctp_inv P C (collect_step P s) \<and>
    ctp_done (collect_step P s) = insert c (ctp_done s) \<and>
    ctp_pend (collect_step P s) = (ctp_pend s - {c}) \<union> (callees P C c - set (visitedCTPs s)) \<and>
    set (visitedCTPs (collect_step P s)) = set (visitedCTPs s) \<union> callees P C c"
proof -
  have ok: "ctp_ok s" using I by (simp add: ctp_inv_def)
  have f: "fifo_inv (clpList s)" using ok by (simp add: ctp_ok_def)
  obtain c w where p: "fifo_pop (clpList s) = Some (c, w)"
    using g fifo.pop_None [OF f] by (cases "fifo_pop (clpList s)") (auto simp: fifo_empty_def)
  have w: "fifo_inv w" "c \<in> ctp_pend s" "set (data_list w) = ctp_pend s - {c}"
    using fifo.pop_Some [OF f p] fifo.pop_set [OF f p] by auto
  let ?s1 = "s\<lparr>clpList := w\<rparr>"
  let ?xs = "if cp_getProc c \<in> C then proc_calls P (cp_getProc c) else []"
  have ok1: "ctp_ok ?s1" using ok w by (auto simp: ctp_ok_def)
  have st: "collect_step P s = fold (\<lambda>(e, cs). handleCallRelation P c e cs) ?xs ?s1"
    using I by (auto simp: collect_step_def p ctp_inv_def isLockCandidateFun_def set_find_def
      collect_folds proc_calls_def)
  note h = handle_calls [OF ok1, of P c ?xs, folded st]
  have ls: "{CxtStmt (cp_getContext c) cs | e cs. (e, cs) \<in> set ?xs \<and> td_acquire P cs} = locks_in P C c"
    by (auto simp: locks_in_def)
  have cs: "{CxtProc (pushCxt P (cp_getContext c) cs (e_dst e)) (e_dst e) | e cs.
      (e, cs) \<in> set ?xs \<and> \<not> td_acquire P cs} = callees P C c" by (auto simp: callees_def)
  have v: "set (visitedCTPs (collect_step P s)) = set (visitedCTPs s) \<union> callees P C c"
    using h unfolding cs by simp
  have q: "ctp_pend (collect_step P s) = (ctp_pend s - {c}) \<union> (callees P C c - set (visitedCTPs s))"
    using h w(3) unfolding cs by simp
  have sub: "ctp_pend s \<subseteq> set (visitedCTPs s)" using ok by (simp add: ctp_ok_def)
  have d: "ctp_done (collect_step P s) = insert c (ctp_done s)"
    using v q w(2) sub by (auto simp: ctp_done_def)
  have "ctp_inv P C (collect_step P s)"
    using h I unfolding ls by (simp add: ctp_inv_def d Un_commute)
  then show ?thesis using v q d w(2) by (intro exI [of _ c]) (simp add: ctp_done_def)
qed

interpretation collect: graph_search "callees P C" "\<lambda>_. False" ctp_pend ctp_done "\<lambda>_. False"
  "\<lambda>s. length (data_list (clpList s))" "\<lambda>s. \<not> fifo_empty (clpList s)" "collect_step P" "ctp_inv P C"
  for P C
proof (unfold_locales, goal_cases)
  case (2 s) then show ?case using collect_step_effect by blast
next
  case (4 s)
  then show ?case using collect_step_effect [of P C s] by (auto simp: ctp_done_def)
next
  case (5 s) then show ?case using collect_step_effect [of P C s] by auto
next
  case (6 s) then show ?case using collect_step_effect [of P C s] by auto
next
  case (7 s x)
  then obtain c where c: "ctp_inv P C (collect_step P s)" "x = c" "callees P C c \<subseteq> set (visitedCTPs (collect_step P s))"
    using collect_step_effect [of P C s] by auto
  then show ?case by (auto simp: ctp_done_def)
qed (simp_all add: fifo_empty_def)

definition entry_ctps :: "program \<Rightarrow> func set \<Rightarrow> cxt_proc set" where
  "entry_ctps P C = {CxtProc [] f | f. f \<in> set (entry_procs P) \<and> f \<in> C}"

lemma push_entries:
  assumes "ctp_ok s"
  shows "ctp_ok (fold (\<lambda>f s. if \<not> isLockCandidateFun s f then s
        else snd (pushToCTPWorkList (CxtProc [] f) s)) fs s) \<and>
    cxtLockset (fold (\<lambda>f s. if \<not> isLockCandidateFun s f then s
        else snd (pushToCTPWorkList (CxtProc [] f) s)) fs s) = cxtLockset s \<and>
    lockcandidateFuncSet (fold (\<lambda>f s. if \<not> isLockCandidateFun s f then s
        else snd (pushToCTPWorkList (CxtProc [] f) s)) fs s) = lockcandidateFuncSet s \<and>
    (ctp_pend s = set (visitedCTPs s) \<longrightarrow>
      ctp_pend (fold (\<lambda>f s. if \<not> isLockCandidateFun s f then s
          else snd (pushToCTPWorkList (CxtProc [] f) s)) fs s) =
        ctp_pend s \<union> {CxtProc [] f | f. f \<in> set fs \<and> isLockCandidateFun s f} \<and>
      set (visitedCTPs (fold (\<lambda>f s. if \<not> isLockCandidateFun s f then s
          else snd (pushToCTPWorkList (CxtProc [] f) s)) fs s)) =
        ctp_pend s \<union> {CxtProc [] f | f. f \<in> set fs \<and> isLockCandidateFun s f})"
  using assms
proof (induction fs arbitrary: s)
  case (Cons f fs)
  let ?s = "if \<not> isLockCandidateFun s f then s else snd (pushToCTPWorkList (CxtProc [] f) s)"
  note h = push_ctp [OF Cons.prems, of "CxtProc [] f"]
  have "ctp_ok ?s" using h Cons.prems by simp
  from Cons.IH [OF this] h show ?case
    by (auto simp: isLockCandidateFun_def)
qed simp

section \<open>Properties\<close>

text \<open>C31: When finitely many procedures are reachable with their contexts, the collection ends,
  and the context-sensitive locks are exactly the acquires called by a candidate procedure,
  each under every context in which its caller is reached from a candidate entry procedure.\<close>

theorem collectCxtLock_correct:
  assumes "clpList s = fifo_new" "visitedCTPs s = []" "cxtLockset s = []"
    and "C = set (lockcandidateFuncSet s)" and "finite (reach (callees P C) (entry_ctps P C))"
  shows "\<exists>t. collectCxtLock P s = Some t \<and>
    set (cxtLockset t) = (\<Union>c\<in>reach (callees P C) (entry_ctps P C). locks_in P C c)"
proof -
  let ?s = "fold (\<lambda>f s. if \<not> isLockCandidateFun s f then s
        else snd (pushToCTPWorkList (CxtProc [] f) s)) (entry_procs P) s"
  have "ctp_ok s" using assms(1,2) fifo.new by (simp add: ctp_ok_def)
  note h = push_entries [OF this, of "entry_procs P"]
  have e: "{CxtProc [] f | f. f \<in> set (entry_procs P) \<and> isLockCandidateFun s f} = entry_ctps P C"
    using assms(4) by (simp add: entry_ctps_def isLockCandidateFun_def set_find_def)
  have s: "ctp_pend ?s = entry_ctps P C" "set (visitedCTPs ?s) = entry_ctps P C"
    using h assms(1,2) unfolding e by (simp_all add: fifo_new_def)
  have d: "ctp_done ?s = {}" using s by (simp add: ctp_done_def)
  have i: "ctp_inv P C ?s" using h d assms(3,4) by (simp add: ctp_inv_def)
  obtain t where t: "while_option (\<lambda>s. \<not> fifo_empty (clpList s)) (collect_step P) ?s = Some t"
    using collect.search_terminates [OF assms(5) i d s(1)] by blast
  have "ctp_inv P C t" "ctp_done t = reach (callees P C) (entry_ctps P C)"
    using collect.search_result [OF t i d s(1)] by simp_all
  then show ?thesis using t by (simp add: collectCxtLock_def ctp_inv_def)
qed

theorem collectCxtLock_correct_witness:
  "\<exists>t. collectCxtLock locked_store (la_new\<lparr>lockcandidateFuncSet := [0]\<rparr>) = Some t \<and>
    set (cxtLockset t) = {CxtStmt [] 11}"
proof -
  let ?s = "la_new\<lparr>lockcandidateFuncSet := [0]\<rparr>"
  have p: "proc_calls locked_store 0 = [(\<lparr>e_src = 0, e_dst = 5, e_kind = CallRetEdge,
      e_direct = [11], e_indirect = []\<rparr>, 11)]" by (simp add: proc_calls_def)
  have r: "reach (callees locked_store {0}) (entry_ctps locked_store {0}) = {CxtProc [] 0}"
    by (rule reach_eq) (auto simp: callees_def entry_ctps_def p)
  have e: "clpList ?s = fifo_new" "visitedCTPs ?s = []" "cxtLockset ?s = []"
    "{0} = set (lockcandidateFuncSet ?s)" by (simp_all add: la_new_def)
  have l: "locks_in locked_store {0} (CxtProc [] 0) = {CxtStmt [] 11}"
    by (auto simp: locks_in_def p)
  from collectCxtLock_correct [OF e, of locked_store] show ?thesis unfolding r by (simp add: l)
qed

end
