(* ===== verification/LockSpanFlow.thy ===== *)
theory LockSpanFlow
  imports LockSpan "HOL-Library.Multiset"
begin

text \<open>
  What \<open>analyzeLockSpanCxtStmt\<close> computes. The handlers are all a sequence of
  \<open>markCxtStmtFlag\<close> calls on the flow successors of the visited statement, so the result is
  described over the reachability of that flow relation: which statements are visited, and
  from which acquire a lock in a lock set comes.
\<close>

section \<open>The flow successors\<close>

definition intra_targets :: "program \<Rightarrow> cxt_stmt \<Rightarrow> cxt_stmt list" where
  "intra_targets P c = map (CxtStmt (getContext c)) (getNextInsts P (getStmt c))"

definition callee_target :: "program \<Rightarrow> cxt_stmt \<Rightarrow> cg_edge \<Rightarrow> cxt_stmt" where
  "callee_target P c e =
     CxtStmt (pushCxt P (getContext c) (getStmt c) (e_dst e)) (entry_inst P (e_dst e))"

definition return_targets :: "program \<Rightarrow> cxt_stmt \<Rightarrow> inst \<Rightarrow> cxt_stmt list" where
  "return_targets P c cit = (case matchCxt P (getContext c) cit (fun_of P (getStmt c)) of
     (True, cxt) \<Rightarrow> map (CxtStmt cxt) (getNextInsts P cit) | (False, _) \<Rightarrow> [])"

definition ret_targets :: "program \<Rightarrow> cxt_stmt \<Rightarrow> cxt_stmt list" where
  "ret_targets P c = concat (map (\<lambda>e.
     if e_kind e = TDForkEdge \<or> e_kind e = TDJoinEdge then []
     else concat (map (return_targets P c) (e_direct e @ e_indirect e)))
     (in_edges P (fun_of P (getStmt c))))"

definition edges_of :: "cg_edge list option \<Rightarrow> cg_edge list" where
  "edges_of es = (case es of None \<Rightarrow> [] | Some es \<Rightarrow> es)"

text \<open>
  The statements a visit of \<open>c\<close> marks. The release handler marks none: see
  \<open>visit_release\<close> below.
\<close>

definition flow :: "program \<Rightarrow> cxt_stmt \<Rightarrow> cxt_stmt list" where
  "flow P c = (let i = getStmt c in
     if td_fork P i then map (callee_target P c) (edges_of (fork_edges P i)) @ intra_targets P c
     else if td_acquire P i then intra_targets P c
     else if td_release P i then []
     else if is_call P i \<and> \<not> is_ext_call P i then
       map (callee_target P c) (filter (\<lambda>e. \<not> is_ext_fun P (e_dst e)) (edges_of (call_edges P i)))
     else if is_return P i then ret_targets P c
     else intra_targets P c)"

abbreviation marks :: "cxt_stmt \<Rightarrow> cxt_stmt list \<Rightarrow> lock_analysis \<Rightarrow> lock_analysis option" where
  "marks c \<equiv> foldM (\<lambda>t. markCxtStmtFlag t c)"

lemma handleIntra_marks: "handleIntra P c = marks c (intra_targets P c)"
  by (simp add: handleIntra_def intra_targets_def foldM_map fun_eq_iff)

lemma handleFork_marks:
  "handleFork P c = marks c (map (callee_target P c) (edges_of (fork_edges P (getStmt c))) @ intra_targets P c)"
  by (auto simp: handleFork_def handleIntra_marks edges_of_def foldM_append foldM_map
    callee_target_def fun_eq_iff split: option.splits)

lemma foldM_filter_not:
  "foldM f (filter (\<lambda>x. \<not> p x) xs) s = foldM (\<lambda>x s. if p x then Some s else f x s) xs s"
  by (induction xs arbitrary: s) (auto split: option.splits)

lemma handleCall_marks:
  "handleCall P c = marks c (map (callee_target P c)
     (filter (\<lambda>e. \<not> is_ext_fun P (e_dst e)) (edges_of (call_edges P (getStmt c)))))"
  by (auto simp: handleCall_def edges_of_def foldM_map foldM_filter_not callee_target_def
    fun_eq_iff split: option.splits)

lemma return_to_marks: "return_to P c cit = marks c (return_targets P c cit)"
  by (auto simp: return_to_def return_targets_def foldM_map fun_eq_iff split: prod.splits bool.splits)

lemma returns_marks: "foldM (return_to P c) cs s = marks c (concat (map (return_targets P c) cs)) s"
proof -
  have "return_to P c = (\<lambda>cit. marks c (return_targets P c cit))"
    by (simp add: return_to_marks fun_eq_iff)
  then show ?thesis by (simp add: foldM_concat)
qed

lemma handleRet_marks: "handleRet P c = marks c (ret_targets P c)"
proof
  fix s
  have "foldM (\<lambda>e s. if e_kind e = TDForkEdge \<or> e_kind e = TDJoinEdge then Some s
      else (case foldM (return_to P c) (e_direct e) s of None \<Rightarrow> None
        | Some s1 \<Rightarrow> foldM (return_to P c) (e_indirect e) s1)) es s =
    marks c (concat (map (\<lambda>e. if e_kind e = TDForkEdge \<or> e_kind e = TDJoinEdge then []
      else concat (map (return_targets P c) (e_direct e @ e_indirect e))) es)) s" for es
    by (induction es arbitrary: s)
      (auto simp: foldM_append returns_marks split: option.splits bind_splits)
  then show "handleRet P c s = marks c (ret_targets P c) s"
    by (simp add: handleRet_def ret_targets_def)
qed

section \<open>The effect of a mark\<close>

abbreviation held :: "lock_analysis \<Rightarrow> cxt_stmt \<Rightarrow> cxt_lock std_set" where
  "held s c \<equiv> map_at [] (cxtStmtToCxtLockSet s) c"

abbreviation span_of :: "lock_analysis \<Rightarrow> cxt_lock \<Rightarrow> cxt_stmt std_set" where
  "span_of s l \<equiv> map_at [] (cxtLocktoSpan s) l"

abbreviation seen :: "lock_analysis \<Rightarrow> cxt_stmt set" where
  "seen s \<equiv> dom (cxtStmtToCxtLockSet s)"

abbreviation pend :: "lock_analysis \<Rightarrow> cxt_stmt set" where
  "pend s \<equiv> set (data_list (cxtStmtList s))"

definition sets_ok :: "lock_analysis \<Rightarrow> bool" where
  "sets_ok s \<longleftrightarrow> fifo_inv (cxtStmtList s) \<and> (\<forall>c. std_set_ok (held s c))"

lemma addCxtStmtToSpan_simps [simp]:
  "cxtStmtList (snd (addCxtStmtToSpan t l s)) = cxtStmtList s"
  "instToCxtStmtSet (snd (addCxtStmtToSpan t l s)) = instToCxtStmtSet s"
  "cxtLockset (snd (addCxtStmtToSpan t l s)) = cxtLockset s"
  "held (snd (addCxtStmtToSpan t l s)) c = (if c = t then set_insert l (held s t) else held s c)"
  "seen (snd (addCxtStmtToSpan t l s)) = insert t (seen s)"
  "span_of (snd (addCxtStmtToSpan t l s)) l' =
    (if l' = l then set_insert t (span_of s l) else span_of s l')"
  by (simp_all add: addCxtStmtToSpan_def)

definition add_locks :: "cxt_stmt \<Rightarrow> cxt_lock list \<Rightarrow> lock_analysis \<Rightarrow> lock_analysis" where
  "add_locks t ls s = fold (\<lambda>l s. snd (addCxtStmtToSpan t l s)) ls s"

lemma add_locks_Cons: "add_locks t (l # ls) s = add_locks t ls (snd (addCxtStmtToSpan t l s))"
  by (simp add: add_locks_def)

lemma add_locks_frame [simp]:
  "cxtStmtList (add_locks t ls s) = cxtStmtList s"
  "instToCxtStmtSet (add_locks t ls s) = instToCxtStmtSet s"
  "cxtLockset (add_locks t ls s) = cxtLockset s"
  by (induction ls arbitrary: s) (simp_all add: add_locks_Cons, simp_all add: add_locks_def)

lemma add_locks_held:
  "set (held (add_locks t ls s) c) = set (held s c) \<union> (if c = t then set ls else {})"
  by (induction ls arbitrary: s) (simp add: add_locks_def, auto simp: add_locks_Cons)

lemma add_locks_other [simp]: "c \<noteq> t \<Longrightarrow> held (add_locks t ls s) c = held s c"
  by (induction ls arbitrary: s) (simp add: add_locks_def, auto simp: add_locks_Cons)

lemma add_locks_other_entry [simp]:
  "c \<noteq> t \<Longrightarrow> cxtStmtToCxtLockSet (add_locks t ls s) c = cxtStmtToCxtLockSet s c"
  by (induction ls arbitrary: s)
    (simp add: add_locks_def, auto simp: add_locks_Cons addCxtStmtToSpan_def add_to_def)

lemma add_locks_seen: "seen (add_locks t ls s) = seen s \<union> (if ls = [] then {} else {t})"
  by (induction ls arbitrary: s) (simp add: add_locks_def, auto simp: add_locks_Cons)

lemma add_locks_span:
  "set (span_of (add_locks t ls s) l) = set (span_of s l) \<union> (if l \<in> set ls then {t} else {})"
  by (induction ls arbitrary: s) (simp add: add_locks_def, auto simp: add_locks_Cons)

lemma add_locks_ok:
  "\<forall>c. std_set_ok (held s c) \<Longrightarrow> std_set_ok (held (add_locks t ls s) c)"
  by (induction ls arbitrary: s) (simp add: add_locks_def, auto simp: add_locks_Cons)

lemma fold_set_erase:
  "std_set_ok xs \<Longrightarrow> std_set_ok (fold set_erase ds xs) \<and> set (fold set_erase ds xs) = set xs - set ds"
  by (induction ds arbitrary: xs) auto

lemma intersect_locks_set:
  "std_set_ok tgr \<Longrightarrow> std_set_ok (fst (intersect_locks tgr src)) \<and>
    set (fst (intersect_locks tgr src)) = set tgr \<inter> set src \<and>
    (snd (intersect_locks tgr src) \<longleftrightarrow> \<not> set tgr \<subseteq> set src)"
  by (auto simp: intersect_locks_def Let_def fold_set_erase set_find_def filter_empty_conv)

lemma pushToCTSWorkList_simps [simp]:
  "cxtStmtToCxtLockSet (pushToCTSWorkList t s) = cxtStmtToCxtLockSet s"
  "cxtLocktoSpan (pushToCTSWorkList t s) = cxtLocktoSpan s"
  "instToCxtStmtSet (pushToCTSWorkList t s) = instToCxtStmtSet s"
  "cxtLockset (pushToCTSWorkList t s) = cxtLockset s"
  "cxtStmtList (pushToCTSWorkList t s) = snd (fifo_push t (cxtStmtList s))"
  by (simp_all add: pushToCTSWorkList_def)

text \<open>A mark of a target from a statement that has a lock set.\<close>

lemma mark_new:
  assumes "c \<in> seen s" "t \<notin> seen s"
  shows "markCxtStmtFlag t c s = Some (pushToCTSWorkList t (add_locks t (held s c) s))"
  using assms by (auto simp: markCxtStmtFlag_def getCxtLockfromCxtStmt_def add_locks_def
    split: option.splits)

lemma mark_old:
  assumes "c \<in> seen s" "t \<in> seen s"
  shows "markCxtStmtFlag t c s = Some
    (let s1 = s\<lparr>cxtStmtToCxtLockSet := (cxtStmtToCxtLockSet s)
           (t \<mapsto> fst (intersect_locks (held s t) (held s c)))\<rparr>
     in if snd (intersect_locks (held s t) (held s c)) then pushToCTSWorkList t s1 else s1)"
  using assms by (auto simp: markCxtStmtFlag_def getCxtLockfromCxtStmt_def Let_def
    split: option.splits prod.splits)

text \<open>What a sequence of marks from \<open>c\<close> of the targets \<open>T\<close> does to the state.\<close>

definition marked :: "cxt_stmt \<Rightarrow> cxt_stmt set \<Rightarrow> lock_analysis \<Rightarrow> lock_analysis \<Rightarrow> bool" where
  "marked c T s s' \<longleftrightarrow> sets_ok s' \<and> cxtLockset s' = cxtLockset s \<and> instToCxtStmtSet s' = instToCxtStmtSet s \<and>
     seen s \<subseteq> seen s' \<and> seen s' \<subseteq> seen s \<union> pend s' \<and> pend s \<subseteq> pend s' \<and>
     T \<subseteq> seen s' \<union> pend s' \<and> seen s' \<union> pend s' \<subseteq> seen s \<union> pend s \<union> T \<and>
     (\<forall>t. set (held s' t) \<subseteq> set (held s t) \<union> (if t \<in> T then set (held s c) else {})) \<and>
     (\<forall>t l. l \<in> set (held s' t) \<longrightarrow> l \<in> set (held s t) \<or> t \<in> set (span_of s' l)) \<and>
     (\<forall>l. set (span_of s l) \<subseteq> set (span_of s' l)) \<and> pend s' \<subseteq> pend s \<union> T"

lemma mark_marked:
  assumes ok: "sets_ok s" and c: "c \<in> seen s"
  shows "\<exists>s'. markCxtStmtFlag t c s = Some s' \<and> marked c {t} s s'"
proof (cases "t \<in> seen s")
  case True
  have "std_set_ok (held s t)" using ok by (simp add: sets_ok_def)
  from intersect_locks_set [OF this, of "held s c"] show ?thesis
    using ok True unfolding mark_old [OF c True]
    by (auto simp: marked_def sets_ok_def Let_def fifo.push_set fifo.push_inv split: if_splits)
next
  case False
  have "held s t = []" using False by (auto simp: map_at_def domIff)
  then show ?thesis
    using ok unfolding mark_new [OF c False]
    by (auto simp: marked_def sets_ok_def fifo.push_set fifo.push_inv add_locks_held add_locks_seen
      add_locks_span add_locks_ok split: if_splits)
qed

lemma marked_trans:
  assumes m1: "marked c {t} s s1" and m2: "marked c (set ts) s1 s2"
  shows "marked c (set (t # ts)) s s2"
proof -
  have h: "set (held s2 x) \<subseteq> set (held s x) \<union> (if x \<in> set (t # ts) then set (held s c) else {})" for x
  proof
    fix l assume l: "l \<in> set (held s2 x)"
    have "l \<in> set (held s1 x) \<or> x \<in> set ts \<and> l \<in> set (held s1 c)"
      using m2 l unfolding marked_def by (auto split: if_splits)
    moreover have "y \<in> set (held s z) \<or> z = t \<and> y \<in> set (held s c)" if "y \<in> set (held s1 z)" for y z
      using m1 that unfolding marked_def by (auto split: if_splits)
    ultimately show "l \<in> set (held s x) \<union> (if x \<in> set (t # ts) then set (held s c) else {})"
      by (auto split: if_splits)
  qed
  have sp: "l \<in> set (held s2 x) \<longrightarrow> l \<in> set (held s x) \<or> x \<in> set (span_of s2 l)" for l x
    using m1 m2 unfolding marked_def by blast
  have a: "seen s \<subseteq> seen s1" "seen s1 \<subseteq> seen s \<union> pend s1" "pend s \<subseteq> pend s1"
    "t \<in> seen s1 \<union> pend s1" "seen s1 \<union> pend s1 \<subseteq> seen s \<union> pend s \<union> {t}"
    "instToCxtStmtSet s1 = instToCxtStmtSet s" "\<And>l. set (span_of s l) \<subseteq> set (span_of s1 l)"
    "pend s1 \<subseteq> pend s \<union> {t}" "cxtLockset s1 = cxtLockset s"
    using m1 unfolding marked_def by simp_all
  have b: "seen s1 \<subseteq> seen s2" "seen s2 \<subseteq> seen s1 \<union> pend s2" "pend s1 \<subseteq> pend s2"
    "set ts \<subseteq> seen s2 \<union> pend s2" "seen s2 \<union> pend s2 \<subseteq> seen s1 \<union> pend s1 \<union> set ts"
    "instToCxtStmtSet s2 = instToCxtStmtSet s1" "\<And>l. set (span_of s1 l) \<subseteq> set (span_of s2 l)" "sets_ok s2"
    "pend s2 \<subseteq> pend s1 \<union> set ts" "cxtLockset s2 = cxtLockset s1"
    using m2 unfolding marked_def by simp_all
  have "seen s2 \<subseteq> seen s \<union> pend s2" using a(2) b(2,3) by blast
  moreover have "set (t # ts) \<subseteq> seen s2 \<union> pend s2" using a(4) b(1,3,4) by auto
  moreover have "seen s2 \<union> pend s2 \<subseteq> seen s \<union> pend s \<union> set (t # ts)"
    using a(5) b(5) by (simp only: list.set) blast
  moreover have "set (span_of s l) \<subseteq> set (span_of s2 l)" for l using a(7) b(7) by blast
  moreover have "pend s2 \<subseteq> pend s \<union> set (t # ts)" using a(8) b(9) by (simp only: list.set) blast
  moreover note subset_trans [OF a(1) b(1)] subset_trans [OF a(3) b(3)] b(8) trans [OF b(6) a(6)]
    trans [OF b(10) a(9)]
  ultimately show ?thesis unfolding marked_def using h sp by simp
qed

lemma marks_marked:
  assumes "sets_ok s" and "c \<in> seen s"
  shows "\<exists>s'. marks c ts s = Some s' \<and> marked c (set ts) s s'"
  using assms
proof (induction ts arbitrary: s)
  case Nil
  then show ?case by (auto simp: marked_def)
next
  case (Cons t ts)
  from mark_marked [OF Cons.prems] obtain s1 where s1: "markCxtStmtFlag t c s = Some s1"
    and m1: "marked c {t} s s1" by blast
  have "sets_ok s1" "c \<in> seen s1" using m1 Cons.prems by (auto simp: marked_def)
  from Cons.IH [OF this] obtain s2 where s2: "marks c ts s1 = Some s2"
    and m2: "marked c (set ts) s1 s2" by blast
  have c1: "set (held s1 c) \<subseteq> set (held s c)" using m1 by (auto simp: marked_def split: if_splits)
  have "marked c (set (t # ts)) s s2"
    by (rule marked_trans [OF m1 m2])
  then show ?case using s1 s2 by simp
qed

section \<open>A visit\<close>

text \<open>The state in which the handlers start, and the statements that acquire a lock.\<close>

definition register_visit :: "cxt_stmt \<Rightarrow> lock_analysis \<Rightarrow> lock_analysis" where
  "register_visit c s = (touchCxtStmt c s)\<lparr>instToCxtStmtSet := add_to (getStmt c) c (instToCxtStmtSet s)\<rparr>"

definition acquires :: "program \<Rightarrow> cxt_stmt \<Rightarrow> bool" where
  "acquires P c \<longleftrightarrow> td_acquire P (getStmt c) \<and> \<not> td_fork P (getStmt c)"

definition enter_stmt :: "program \<Rightarrow> cxt_stmt \<Rightarrow> lock_analysis \<Rightarrow> lock_analysis" where
  "enter_stmt P c s = (if acquires P c then snd (addCxtStmtToSpan c c (register_visit c s))
     else register_visit c s)"

lemma register_visit_simps [simp]:
  "cxtStmtList (register_visit c s) = cxtStmtList s"
  "cxtLockset (register_visit c s) = cxtLockset s"
  "cxtLocktoSpan (register_visit c s) = cxtLocktoSpan s"
  "held (register_visit c s) x = held s x"
  "seen (register_visit c s) = insert c (seen s)"
  "set (map_at [] (instToCxtStmtSet (register_visit c s)) i) =
    set (map_at [] (instToCxtStmtSet s) i) \<union> (if i = getStmt c then {c} else {})"
  by (auto simp: register_visit_def touchCxtStmt_def)

lemma enter_stmt_simps [simp]:
  "cxtStmtList (enter_stmt P c s) = cxtStmtList s"
  "cxtLockset (enter_stmt P c s) = cxtLockset s"
  "set (held (enter_stmt P c s) x) = set (held s x) \<union> (if x = c \<and> acquires P c then {c} else {})"
  "set (span_of (enter_stmt P c s) l) = set (span_of s l) \<union> (if l = c \<and> acquires P c then {c} else {})"
  "seen (enter_stmt P c s) = insert c (seen s)"
  "set (map_at [] (instToCxtStmtSet (enter_stmt P c s)) i) =
    set (map_at [] (instToCxtStmtSet s) i) \<union> (if i = getStmt c then {c} else {})"
  "sets_ok s \<Longrightarrow> sets_ok (enter_stmt P c s)"
  by (auto simp: enter_stmt_def sets_ok_def)

text \<open>
  A release is registered under the statement of the release itself, so unless some lock set
  holds a release, \<open>removeCxtStmtToSpan\<close> finds nothing and the handler stops there.
\<close>

lemma visit_release:
  assumes "c \<notin> set (held s c)"
  shows "removeCxtStmtToSpan c c (register_visit c s) = (False, register_visit c s)"
  using assms by (auto simp: removeCxtStmtToSpan_def register_visit_def touchCxtStmt_def set_find_def
    map_touch_def map_at_def Let_def split: option.splits)

lemma visit_stmt_marks:
  assumes "acquires P c \<Longrightarrow> c \<in> set (cxtLockset s)"
    and "\<not> acquires P c \<Longrightarrow> c \<notin> set (held s c)"
  shows "visit_stmt P c s =
    (if acquires P c \<and> c \<in> set (held s c) then Some (enter_stmt P c s)
     else marks c (flow P c) (enter_stmt P c s))"
proof -
  have r: "(touchCxtStmt c s)\<lparr>instToCxtStmtSet := add_to (getStmt c) c (instToCxtStmtSet (touchCxtStmt c s))\<rparr> =
      register_visit c s"
    by (simp add: register_visit_def touchCxtStmt_def)
  have a: "addCxtStmtToSpan c c (register_visit c s) =
      (c \<notin> set (held s c), snd (addCxtStmtToSpan c c (register_visit c s)))"
    by (simp add: addCxtStmtToSpan_def)
  show ?thesis
    using assms visit_release [of c s] unfolding visit_stmt_def Let_def r
    by (subst a) (auto simp: acquires_def enter_stmt_def flow_def Let_def handleIntra_marks
      handleFork_marks handleCall_marks handleRet_marks hasCxtLock_def set_find_def split: prod.splits)
qed

section \<open>The invariant of the main loop\<close>

abbreviation flows :: "program \<Rightarrow> cxt_stmt \<Rightarrow> cxt_stmt set" where
  "flows P c \<equiv> set (flow P c)"

definition lock_ok :: "program \<Rightarrow> lock_analysis \<Rightarrow> cxt_stmt \<Rightarrow> cxt_lock \<Rightarrow> bool" where
  "lock_ok P s c l \<longleftrightarrow> acquires P l \<and> l \<in> seen s \<and> flows P l \<subseteq> seen s \<union> pend s \<and>
     c \<in> reach (flows P) {l} \<and> c \<in> set (span_of s l)"

definition span_inv :: "program \<Rightarrow> cxt_stmt set \<Rightarrow> lock_analysis \<Rightarrow> bool" where
  "span_inv P R s \<longleftrightarrow> sets_ok s \<and> R \<subseteq> seen s \<union> pend s \<and>
     seen s \<union> pend s \<subseteq> reach (flows P) R \<and>
     (\<forall>c\<in>seen s. c \<notin> pend s \<longrightarrow>
        flows P c \<subseteq> seen s \<union> pend s \<and> c \<in> set (map_at [] (instToCxtStmtSet s) (getStmt c))) \<and>
     (\<forall>c l. l \<in> set (held s c) \<longrightarrow> lock_ok P s c l) \<and>
     (\<forall>i c. c \<in> set (map_at [] (instToCxtStmtSet s) i) \<longrightarrow> getStmt c = i \<and> c \<in> seen s)"

lemma reach_single_step: "c \<in> reach F {l} \<Longrightarrow> t \<in> F c \<Longrightarrow> t \<in> reach F {l}"
  by (rule reach_step)

lemma lock_ok_mono:
  assumes "lock_ok P s c l" "seen s \<subseteq> seen s'" "seen s \<union> pend s \<subseteq> seen s' \<union> pend s'"
    "set (span_of s l) \<subseteq> set (span_of s' l)"
  shows "lock_ok P s' c l"
  using assms unfolding lock_ok_def by blast

lemma visit_inv_step:
  assumes I: "span_inv P R s" and c: "c \<in> pend s"
    and s1: "s1 = enter_stmt P c (s\<lparr>cxtStmtList := w\<rparr>)" and w: "set (data_list w) = pend s - {c}"
    and T: "T = (if acquires P c \<and> c \<in> set (held s c) then [] else flow P c)"
    and m: "marked c (set T) s1 s'"
  shows "span_inv P R s'"
proof -
  have s1': "seen s1 = insert c (seen s)" "pend s1 = pend s - {c}"
    "set (held s1 x) = set (held s x) \<union> (if x = c \<and> acquires P c then {c} else {})"
    "set (span_of s1 l) = set (span_of s l) \<union> (if l = c \<and> acquires P c then {c} else {})"
    "set (map_at [] (instToCxtStmtSet s1) i) =
      set (map_at [] (instToCxtStmtSet s) i) \<union> (if i = getStmt c then {c} else {})" for x l i
    using w by (simp_all add: s1)
  have m1: "sets_ok s'" "instToCxtStmtSet s' = instToCxtStmtSet s1" "seen s1 \<subseteq> seen s'"
    "seen s' \<subseteq> seen s1 \<union> pend s'" "pend s1 \<subseteq> pend s'" "set T \<subseteq> seen s' \<union> pend s'"
    "seen s' \<union> pend s' \<subseteq> seen s1 \<union> pend s1 \<union> set T"
    "set (span_of s1 l) \<subseteq> set (span_of s' l)" for l
    using m unfolding marked_def by simp_all
  have h: "l \<in> set (held s1 t) \<or> t \<in> set T \<and> l \<in> set (held s1 c) \<and> t \<in> set (span_of s' l)"
    if "l \<in> set (held s' t)" for l t
  proof -
    have "set (held s' t) \<subseteq> set (held s1 t) \<union> (if t \<in> set T then set (held s1 c) else {})"
      "l \<in> set (held s1 t) \<or> t \<in> set (span_of s' l)"
      using m that unfolding marked_def by simp_all
    then show ?thesis using that by (auto split: if_splits)
  qed
  have I1: "R \<subseteq> seen s \<union> pend s" "seen s \<union> pend s \<subseteq> reach (flows P) R"
    "x \<in> seen s \<Longrightarrow> x \<notin> pend s \<Longrightarrow> flows P x \<subseteq> seen s \<union> pend s \<and>
       x \<in> set (map_at [] (instToCxtStmtSet s) (getStmt x))"
    "l \<in> set (held s x) \<Longrightarrow> lock_ok P s x l"
    "x \<in> set (map_at [] (instToCxtStmtSet s) i) \<Longrightarrow> getStmt x = i \<and> x \<in> seen s" for x l i
    using I unfolding span_inv_def by simp_all
  have TF: "set T \<subseteq> flows P c" using T by simp
  have grow: "seen s \<union> pend s \<subseteq> seen s' \<union> pend s'" "seen s \<subseteq> seen s'"
    using m1(3,5) s1'(1,2) by blast+
  have Fc: "flows P c \<subseteq> seen s' \<union> pend s'"
  proof (cases "c \<in> set (held s c)")
    case True
    then show ?thesis using I1(4) [of c c] grow(1) unfolding lock_ok_def by blast
  qed (use m1(6) T in simp)
  have L1: "lock_ok P s' x l" if "l \<in> set (held s1 x)" for x l
  proof (cases "l \<in> set (held s x)")
    case True
    have "set (span_of s l) \<subseteq> set (span_of s' l)" using m1(8) [of l] s1'(4) by blast
    from lock_ok_mono [OF I1(4) [OF True] grow(2,1) this] show ?thesis .
  next
    case False
    then have "x = c" "l = c" "acquires P c" using that s1'(3) by (auto split: if_splits)
    then show ?thesis
      using Fc m1(3) m1(8) [of c] s1'(1) s1'(4) [of c] unfolding lock_ok_def by auto
  qed
  have L: "lock_ok P s' x l" if "l \<in> set (held s' x)" for x l
    using h [OF that]
  proof
    assume a: "x \<in> set T \<and> l \<in> set (held s1 c) \<and> x \<in> set (span_of s' l)"
    then have "lock_ok P s' c l" using L1 by blast
    then show ?thesis
      using a TF reach_step [of c "flows P" "{l}" x] unfolding lock_ok_def by blast
  qed (rule L1)
  have "R \<subseteq> seen s' \<union> pend s'" using I1(1) grow(1) by blast
  moreover have "seen s' \<union> pend s' \<subseteq> reach (flows P) R"
  proof -
    have "c \<in> reach (flows P) R" using I1(2) c by blast
    then have "set T \<subseteq> reach (flows P) R" using TF by (blast intro: reach_step)
    moreover have "seen s1 \<union> pend s1 \<subseteq> reach (flows P) R" using s1'(1,2) I1(2) c by auto
    ultimately show ?thesis by (intro subset_trans [OF m1(7)]) simp
  qed
  moreover have "flows P x \<subseteq> seen s' \<union> pend s' \<and> x \<in> set (map_at [] (instToCxtStmtSet s') (getStmt x))"
    if x: "x \<in> seen s'" "x \<notin> pend s'" for x
  proof (cases "x = c")
    case True
    then show ?thesis using Fc m1(2) s1'(5) by simp
  next
    case False
    then have "x \<in> seen s" "x \<notin> pend s" using x m1(4,5) s1'(1,2) by blast+
    note f = I1(3) [OF this]
    show ?thesis using subset_trans [OF conjunct1 [OF f] grow(1)] f m1(2) s1'(5) by simp
  qed
  moreover have "getStmt x = i \<and> x \<in> seen s'" if "x \<in> set (map_at [] (instToCxtStmtSet s') i)" for x i
  proof -
    have "x \<in> set (map_at [] (instToCxtStmtSet s) i) \<or> x = c \<and> i = getStmt c"
      using that m1(2) s1'(5) by (simp split: if_splits)
    then show ?thesis using I1(5) [of x i] grow(2) m1(3) s1'(1) by blast
  qed
  ultimately show ?thesis using m1(1) L unfolding span_inv_def by blast
qed

text \<open>
  A visit of the statement taken from the work list, in a state that satisfies the
  invariant, its acquires among the collected ones.
\<close>

lemma visit_inv:
  assumes I: "span_inv P R s" and p: "fifo_pop (cxtStmtList s) = Some (c, w)"
    and A: "acquires P c \<Longrightarrow> c \<in> set (cxtLockset s)"
    and s1: "s1 = enter_stmt P c (s\<lparr>cxtStmtList := w\<rparr>)"
    and T: "T = (if acquires P c \<and> c \<in> set (held s c) then [] else flow P c)"
  shows "c \<in> pend s \<and> set (data_list w) = pend s - {c} \<and> sets_ok s1 \<and>
    (\<exists>s'. span_step P s = Some s' \<and> marks c T s1 = Some s' \<and> span_inv P R s' \<and>
      cxtLockset s' = cxtLockset s)"
proof -
  have ok: "sets_ok s" using I by (simp add: span_inv_def)
  have f: "fifo_inv (cxtStmtList s)" using ok by (simp add: sets_ok_def)
  have w: "fifo_inv w" "c \<in> pend s" "set (data_list w) = pend s - {c}"
    using fifo.pop_Some [OF f p] fifo.pop_set [OF f p] by auto
  have L: "c \<in> set (held s c) \<Longrightarrow> acquires P c" using I by (auto simp: span_inv_def lock_ok_def)
  have ok1: "sets_ok s1" unfolding s1 using ok w by (intro enter_stmt_simps) (simp add: sets_ok_def)
  have v: "span_step P s = marks c T s1"
    using visit_stmt_marks [of P c "s\<lparr>cxtStmtList := w\<rparr>"] A L
    by (cases "acquires P c") (auto simp: span_step_def p s1 T)
  have "c \<in> seen s1" by (simp add: s1)
  from marks_marked [OF ok1 this, of T] obtain s' where s': "marks c T s1 = Some s'"
    and m: "marked c (set T) s1 s'" by blast
  have "cxtLockset s' = cxtLockset s" using m by (simp add: marked_def s1)
  then show ?thesis using visit_inv_step [OF I w(2) s1 w(3) T m] v w ok1 s' by simp
qed

section \<open>Termination of the main loop\<close>

text \<open>
  A statement that does not acquire a lock gets lighter whenever it is pushed: it turns
  pending, gets its first lock set, or loses locks. A statement that acquires one adds
  its own lock back at every visit, so for these termination needs an order on the
  acquires that directly follow one another.
\<close>

definition weight :: "nat \<Rightarrow> lock_analysis \<Rightarrow> cxt_stmt \<Rightarrow> nat" where
  "weight M s x = (if x \<in> seen s then card (set (held s x)) else if x \<in> pend s then M + 1 else M + 2)"

definition lighter :: "nat \<Rightarrow> lock_analysis \<Rightarrow> lock_analysis \<Rightarrow> bool" where
  "lighter M s s' \<longleftrightarrow> (\<forall>x. weight M s' x \<le> weight M s x \<and>
     (x \<in> pend s' \<longrightarrow> x \<in> pend s \<or> weight M s' x < weight M s x))"

definition small :: "nat \<Rightarrow> lock_analysis \<Rightarrow> bool" where
  "small M s \<longleftrightarrow> (\<forall>x. card (set (held s x)) \<le> M)"

lemma lighter_trans: "lighter M s s1 \<Longrightarrow> lighter M s1 s2 \<Longrightarrow> lighter M s s2"
  unfolding lighter_def by (meson le_trans less_le_trans order.strict_trans1)

lemma mark_lighter:
  assumes ok: "sets_ok s" and c: "c \<in> seen s" and M: "small M s" and k: "markCxtStmtFlag t c s = Some s'"
  shows "lighter M s s' \<and> small M s'"
proof (cases "t \<in> seen s")
  case True
  have o: "std_set_ok (held s t)" using ok by (simp add: sets_ok_def)
  let ?ls = "fst (intersect_locks (held s t) (held s c))"
  note i = intersect_locks_set [OF o, of "held s c"]
  have sub: "card (set ?ls) \<le> card (set (held s t))" using i by (auto intro: card_mono)
  have less: "card (set ?ls) < card (set (held s t))" if "snd (intersect_locks (held s t) (held s c))"
    using i that by (intro psubset_card_mono) auto
  have f: "fifo_inv (cxtStmtList s)" using ok by (simp add: sets_ok_def)
  have "card (set ?ls) \<le> M" using sub M unfolding small_def by (meson le_trans)
  then show ?thesis
    using k True sub less M unfolding mark_old [OF c True]
    by (auto simp: lighter_def small_def weight_def Let_def fifo.push_set f intro: order.trans
      split: if_splits)
next
  case False
  have f: "fifo_inv (cxtStmtList s)" using ok by (simp add: sets_ok_def)
  have e: "held s t = []" using False by (auto simp: map_at_def domIff)
  have h: "set (held (add_locks t (held s c) s) x) = (if x = t then set (held s c) else set (held s x))" for x
    using e by (simp add: add_locks_held)
  have e': "s' = pushToCTSWorkList t (add_locks t (held s c) s)"
    using k unfolding mark_new [OF c False] by simp
  have s': "seen s' = seen s \<union> (if held s c = [] then {} else {t})" "pend s' = insert t (pend s)"
    "set (held s' x) = (if x = t then set (held s c) else set (held s x))" for x
    unfolding e' by (simp_all add: fifo.push_set f h add_locks_seen)
  have w: "weight M s' x = (if x = t then (if held s c = [] then M + 1 else card (set (held s c)))
      else weight M s x)" for x
    using False by (simp add: weight_def s')
  have "card (set (held s c)) \<le> M" using M by (simp add: small_def)
  then have "card (set (held s c)) \<le> Suc M" "card (set (held s c)) \<le> Suc (Suc M)"
    "card (set (held s c)) < Suc (Suc M)" by linarith+
  moreover have "weight M s t = (if t \<in> pend s then M + 1 else M + 2)" using False by (simp add: weight_def)
  ultimately show ?thesis using M by (simp add: lighter_def small_def w s')
qed

lemma marks_lighter:
  "sets_ok s \<Longrightarrow> c \<in> seen s \<Longrightarrow> small M s \<Longrightarrow> marks c ts s = Some s' \<Longrightarrow> lighter M s s' \<and> small M s'"
proof (induction ts arbitrary: s)
  case Nil
  then show ?case by (simp add: lighter_def)
next
  case (Cons t ts)
  from mark_marked [OF Cons.prems(1,2)] obtain s1 where k: "markCxtStmtFlag t c s = Some s1"
    and m: "marked c {t} s s1" by blast
  have "sets_ok s1" "c \<in> seen s1" using m Cons.prems by (auto simp: marked_def)
  then show ?case
    using Cons.IH [of s1] Cons.prems mark_lighter [OF Cons.prems(1-3) k] k lighter_trans by auto
qed

text \<open>The measure: the weight of all other statements, then the order of the pending ones.\<close>

definition span_rank :: "program \<Rightarrow> cxt_stmt set \<Rightarrow> (cxt_stmt \<Rightarrow> nat) \<Rightarrow> cxt_stmt \<Rightarrow> nat" where
  "span_rank P U rk x = (if acquires P x then rk x else Suc (\<Sum>y\<in>U. rk y))"

definition span_measure ::
    "program \<Rightarrow> cxt_stmt set \<Rightarrow> (cxt_stmt \<Rightarrow> nat) \<Rightarrow> lock_analysis \<Rightarrow> nat \<times> nat multiset" where
  "span_measure P U rk s = (\<Sum>x\<in>{x \<in> U. \<not> acquires P x}. weight (card U) s x,
     image_mset (span_rank P U rk) (mset_set (pend s)))"

definition acquire_order :: "program \<Rightarrow> cxt_stmt set \<Rightarrow> (cxt_stmt \<Rightarrow> nat) \<Rightarrow> bool" where
  "acquire_order P U rk \<longleftrightarrow> (\<forall>a\<in>U. acquires P a \<longrightarrow> (\<forall>b\<in>flows P a. acquires P b \<longrightarrow> rk b < rk a))"

lemma mset_set_split: "finite A \<Longrightarrow> mset_set A = mset_set (A \<inter> B) + mset_set (A - B)"
  using mset_set_Union [of "A \<inter> B" "A - B"] by (simp add: Int_Diff_Un Int_Diff_disjoint)

lemma visit_measure:
  assumes U: "finite U" "reach (flows P) R = U" and I: "span_inv P R s"
    and p: "fifo_pop (cxtStmtList s) = Some (c, w)"
    and A: "acquires P c \<Longrightarrow> c \<in> set (cxtLockset s)" and rk: "acquire_order P U rk"
    and st: "span_step P s = Some s'"
  shows "(span_measure P U rk s', span_measure P U rk s) \<in> less_than <*lex*> mult less_than"
proof -
  define s1 where "s1 = enter_stmt P c (s\<lparr>cxtStmtList := w\<rparr>)"
  define T where "T = (if acquires P c \<and> c \<in> set (held s c) then [] else flow P c)"
  let ?N = "{x \<in> U. \<not> acquires P x}" and ?r = "span_rank P U rk" and ?M = "card U"
  note v = visit_inv [OF I p A s1_def T_def]
  have c: "c \<in> pend s" and w: "set (data_list w) = pend s - {c}" and ok: "sets_ok s1"
    and k: "marks c T s1 = Some s'" using v st by auto
  have s1: "c \<in> seen s1" "pend s1 = pend s - {c}" "seen s1 = insert c (seen s)"
    "\<And>x. x \<noteq> c \<or> \<not> acquires P x \<Longrightarrow> set (held s1 x) = set (held s x)" using w by (auto simp: s1_def)
  have sub: "seen s \<union> pend s \<subseteq> U" and hs: "set (held s x) \<subseteq> seen s" for x
    using I U by (auto simp: span_inv_def lock_ok_def)
  have "set (held s1 x) \<subseteq> U" for x
    using hs [of x] sub c by (auto simp: s1_def split: if_splits)
  then have "small ?M s1" using U(1) by (simp add: small_def card_mono)
  from marks_lighter [OF ok s1(1) this k] have l: "lighter ?M s1 s'" by simp
  have l1: "weight ?M s1 x \<le> weight ?M s x" if "\<not> acquires P x" for x
    using s1 c that by (auto simp: weight_def map_at_def domIff)
  have wl: "weight ?M s' x \<le> weight ?M s x" if "\<not> acquires P x" for x
    using l l1 [OF that] unfolding lighter_def by (meson le_trans)
  have fN: "finite ?N" using U(1) by simp
  consider "(\<Sum>x\<in>?N. weight ?M s' x) < (\<Sum>x\<in>?N. weight ?M s x)" |
    "\<forall>x\<in>?N. weight ?M s' x = weight ?M s x"
    using sum_strict_mono_ex1 [OF fN] wl by (metis (mono_tags, lifting) le_neq_implies_less mem_Collect_eq)
  then show ?thesis
  proof cases
    case 1
    then show ?thesis by (simp add: span_measure_def)
  next
    case 2
    have pw: "pend s' \<subseteq> pend s1 \<union> set T"
      using marks_marked [OF ok s1(1), of T] k by (auto simp: marked_def)
    have new: "?r x < ?r c" if x: "x \<in> pend s'" "x \<notin> pend s1" for x
    proof -
      have xT: "x \<in> flows P c" using pw x by (auto simp: T_def split: if_splits)
      have xU: "x \<in> U" using xT c sub U(2) reach_step [of c "flows P" R x] by blast
      have "weight ?M s' x < weight ?M s1 x" using l x unfolding lighter_def by blast
      then have a: "acquires P x" using 2 l1 [of x] xU by (metis (mono_tags, lifting) leD mem_Collect_eq)
      have "rk x \<le> (\<Sum>y\<in>U. rk y)" using U(1) xU by (intro member_le_sum) auto
      then show ?thesis
        using a rk xT c sub unfolding span_rank_def acquire_order_def by auto
    qed
    let ?I = "mset_set (pend s' \<inter> pend s1)" and ?J = "mset_set (pend s1 - pend s')"
    have e': "mset_set (pend s') = ?I + mset_set (pend s' - pend s1)"
      by (rule mset_set_split) simp
    have e1: "mset_set (pend s1) = ?I + ?J"
      unfolding Int_commute [of "pend s'"] by (rule mset_set_split) simp
    have e: "mset_set (pend s) = ?I + add_mset c ?J"
      using e1 s1(2) c by (simp add: mset_set.remove)
    have "(image_mset ?r (mset_set (pend s')), image_mset ?r (mset_set (pend s))) \<in> mult less_than"
      unfolding e e' image_mset_union
      by (rule one_step_implies_mult) (auto simp: new)
    then show ?thesis using 2 by (simp add: span_measure_def)
  qed
qed

text \<open>The state before the loop: the entries of the candidate procedures are pending.\<close>

definition entry_stmts :: "program \<Rightarrow> lock_analysis \<Rightarrow> cxt_stmt set" where
  "entry_stmts P s = {CxtStmt [] (entry_inst P f) | f. f \<in> set (entry_procs P) \<and> isLockCandidateFun s f}"

definition span_fresh :: "lock_analysis \<Rightarrow> bool" where
  "span_fresh s \<longleftrightarrow> cxtStmtList s = fifo_new \<and> cxtStmtToCxtLockSet s = Map.empty \<and>
     cxtLocktoSpan s = Map.empty \<and> instToCxtStmtSet s = Map.empty"

lemma span_init_simps:
  assumes "span_fresh s"
  shows "fifo_inv (cxtStmtList (span_init P s)) \<and> pend (span_init P s) = entry_stmts P s \<and>
    cxtStmtToCxtLockSet (span_init P s) = Map.empty \<and> instToCxtStmtSet (span_init P s) = Map.empty \<and>
    cxtLockset (span_init P s) = cxtLockset s"
proof -
  let ?go = "\<lambda>f s. if \<not> isLockCandidateFun s f then s else pushToCTSWorkList (CxtStmt [] (entry_inst P f)) s"
  have "fifo_inv (cxtStmtList s) \<Longrightarrow> fifo_inv (cxtStmtList (fold ?go fs s)) \<and>
    pend (fold ?go fs s) = pend s \<union> {CxtStmt [] (entry_inst P f) | f. f \<in> set fs \<and> isLockCandidateFun s f} \<and>
    cxtStmtToCxtLockSet (fold ?go fs s) = cxtStmtToCxtLockSet s \<and>
    instToCxtStmtSet (fold ?go fs s) = instToCxtStmtSet s \<and> cxtLockset (fold ?go fs s) = cxtLockset s" for fs
  proof (induction fs arbitrary: s)
    case (Cons f fs)
    have c: "isLockCandidateFun (pushToCTSWorkList x s) g = isLockCandidateFun s g" for x g
      by (simp add: isLockCandidateFun_def pushToCTSWorkList_def)
    show ?case
      using Cons.prems Cons.IH [of s] Cons.IH [of "pushToCTSWorkList (CxtStmt [] (entry_inst P f)) s"]
      by (auto simp: fifo.push_set fifo.push_inv c)
  qed simp
  from this [of "entry_procs P"] show ?thesis
    using assms fifo.new by (simp add: span_init_def span_fresh_def entry_stmts_def fifo_new_def)
qed

lemma span_init_inv: "span_fresh s \<Longrightarrow> span_inv P (entry_stmts P s) (span_init P s)"
  using span_init_simps [of s P] by (auto simp: span_inv_def sets_ok_def)

text \<open>
  The loop ends without a failing assertion when finitely many statements are reachable, all
  reachable acquires were collected, and acquires do not follow one another in a cycle.
\<close>

definition span_ready :: "program \<Rightarrow> lock_analysis \<Rightarrow> (cxt_stmt \<Rightarrow> nat) \<Rightarrow> bool" where
  "span_ready P s rk \<longleftrightarrow> span_fresh s \<and> finite (reach (flows P) (entry_stmts P s)) \<and>
     (\<forall>c\<in>reach (flows P) (entry_stmts P s). acquires P c \<longrightarrow> c \<in> set (cxtLockset s)) \<and>
     acquire_order P (reach (flows P) (entry_stmts P s)) rk"

lemma span_loop:
  assumes "span_ready P s rk"
  shows "\<exists>t. analyzeLockSpanCxtStmt P s = Some (Some t) \<and> span_inv P (entry_stmts P s) t \<and>
    pend t = {} \<and> seen t = reach (flows P) (entry_stmts P s)"
proof -
  let ?R = "entry_stmts P s" and ?U = "reach (flows P) (entry_stmts P s)"
  let ?I = "\<lambda>u. span_inv P ?R u \<and> cxtLockset u = cxtLockset s"
  let ?r = "inv_image (less_than <*lex*> mult less_than) (span_measure P ?U rk)"
  note r = assms [unfolded span_ready_def]
  have fresh: "span_fresh s" using r by simp
  have "\<exists>t. while_assert (\<lambda>s. \<not> fifo_empty (cxtStmtList s)) (span_step P) (span_init P s) =
      Some (Some t) \<and> ?I t \<and> \<not> \<not> fifo_empty (cxtStmtList t)"
  proof (rule while_assert_total [of ?r])
    show "wf ?r" by (intro wf_inv_image wf_lex_prod wf_mult wf_less_than)
    show "?I (span_init P s)" using span_init_inv [OF fresh] span_init_simps [OF fresh] by simp
    fix u assume u: "?I u" and g: "\<not> fifo_empty (cxtStmtList u)"
    have f: "fifo_inv (cxtStmtList u)" using u by (simp add: span_inv_def sets_ok_def)
    obtain c w where p: "fifo_pop (cxtStmtList u) = Some (c, w)"
      using g fifo.pop_None [OF f] by (cases "fifo_pop (cxtStmtList u)") (auto simp: fifo_empty_def)
    have "c \<in> ?U" using fifo.pop_set [OF f p] u by (auto simp: span_inv_def)
    then have A: "acquires P c \<Longrightarrow> c \<in> set (cxtLockset u)" using r u by simp
    show "\<exists>u'. span_step P u = Some u' \<and> ?I u' \<and> (u', u) \<in> ?r"
      using visit_inv [OF conjunct1 [OF u] p A refl refl]
        visit_measure [OF _ refl conjunct1 [OF u] p A] r u by auto
  qed
  then obtain t where t: "analyzeLockSpanCxtStmt P s = Some (Some t)" "span_inv P ?R t"
    "fifo_empty (cxtStmtList t)" unfolding analyzeLockSpanCxtStmt_def by blast
  have p: "pend t = {}" using t(3) by (simp add: fifo_empty_def)
  have "?U \<subseteq> seen t" using t(2) p by (intro reach_least) (auto simp: span_inv_def simp del: domIff)
  moreover have "seen t \<subseteq> ?U" using t(2) by (simp add: span_inv_def)
  ultimately show ?thesis using t p by blast
qed

section \<open>The example\<close>

definition locked_state :: lock_analysis where
  "locked_state = la_new\<lparr>lockcandidateFuncSet := [0], cxtLockset := [CxtStmt [] 11]\<rparr>"

lemma locked_store_flow:
  "flow locked_store (CxtStmt cx i) = (if i = 13 \<or> i = 14 then [] else [CxtStmt cx (Suc i)])"
  by (auto simp: flow_def Let_def intra_targets_def ret_targets_def)

lemma locked_store_reach:
  "reach (flows locked_store) (entry_stmts locked_store locked_state) = CxtStmt [] ` {10, 11, 12, 13}"
proof (rule reach_eq)
  let ?R = "reach (flows locked_store) (entry_stmts locked_store locked_state)"
  have 0: "CxtStmt [] 10 \<in> ?R"
    by (rule reach_root) (simp add: entry_stmts_def locked_state_def isLockCandidateFun_def set_find_def)
  have 1: "CxtStmt [] 11 \<in> ?R" by (rule reach_step [OF 0]) (simp add: locked_store_flow)
  have 2: "CxtStmt [] 12 \<in> ?R" by (rule reach_step [OF 1]) (simp add: locked_store_flow)
  have 3: "CxtStmt [] 13 \<in> ?R" by (rule reach_step [OF 2]) (simp add: locked_store_flow)
  show "CxtStmt [] ` {10, 11, 12, 13} \<subseteq> ?R" using 0 1 2 3 by simp
qed (auto simp: entry_stmts_def locked_store_flow)

lemma locked_store_ready: "span_ready locked_store locked_state (\<lambda>_. 0)"
  unfolding span_ready_def locked_store_reach
  by (auto simp: span_fresh_def locked_state_def la_new_def acquires_def acquire_order_def
    locked_store_flow)

section \<open>Properties\<close>

text \<open>C24: The main loop ends without a failing assertion, and the context-sensitive statements it
  records for an instruction are exactly those of the instruction that control flow reaches from
  the entries of the candidate entry procedures, where control flow does not continue after a
  release.\<close>

theorem analyzeLockSpanCxtStmt_visits:
  assumes "span_ready P s rk"
  shows "\<exists>t. analyzeLockSpanCxtStmt P s = Some (Some t) \<and>
    (\<forall>i c. c \<in> set (map_at [] (instToCxtStmtSet t) i) \<longleftrightarrow>
      getStmt c = i \<and> c \<in> reach (flows P) (entry_stmts P s))"
proof -
  obtain t where t: "analyzeLockSpanCxtStmt P s = Some (Some t)" "span_inv P (entry_stmts P s) t"
    "pend t = {}" "seen t = reach (flows P) (entry_stmts P s)" using span_loop [OF assms] by blast
  have "c \<in> seen t \<Longrightarrow> c \<in> set (map_at [] (instToCxtStmtSet t) (getStmt c))"
    "c \<in> set (map_at [] (instToCxtStmtSet t) i) \<Longrightarrow> getStmt c = i \<and> c \<in> seen t" for c i
    using t(2,3) by (simp_all add: span_inv_def)
  then show ?thesis using t(1) unfolding t(4) by blast
qed

theorem analyzeLockSpanCxtStmt_visits_witness:
  "\<exists>t. analyzeLockSpanCxtStmt locked_store locked_state = Some (Some t) \<and>
    CxtStmt [] 13 \<in> set (map_at [] (instToCxtStmtSet t) 13) \<and>
    set (map_at [] (instToCxtStmtSet t) 14) = {}"
proof -
  obtain t where "analyzeLockSpanCxtStmt locked_store locked_state = Some (Some t)"
    "\<And>i c. c \<in> set (map_at [] (instToCxtStmtSet t) i) \<longleftrightarrow> getStmt c = i \<and> c \<in> CxtStmt [] ` {10, 11, 12, 13}"
    using analyzeLockSpanCxtStmt_visits [OF locked_store_ready] unfolding locked_store_reach by blast
  moreover from this(2) have "\<And>c. c \<notin> set (map_at [] (instToCxtStmtSet t) 14)" by auto
  then have "set (map_at [] (instToCxtStmtSet t) 14) = {}" by (meson equals0I)
  ultimately show ?thesis by (intro exI [of _ t]) simp
qed



text \<open>A release takes no lock away. In every state of the main loop, visiting a release leaves
  all lock sets and spans as they are and marks no statement: the lock it is looked up under is
  the release's own statement, which no lock set contains.\<close>

theorem visit_release_keeps_locks:
  assumes "span_inv P R s" and "td_release P (getStmt c)" "\<not> td_acquire P (getStmt c)"
    "\<not> td_fork P (getStmt c)"
  shows "\<exists>s'. visit_stmt P c s = Some s' \<and> cxtLocktoSpan s' = cxtLocktoSpan s \<and>
    cxtStmtList s' = cxtStmtList s \<and>
    (\<forall>x. map_at [] (cxtStmtToCxtLockSet s') x = map_at [] (cxtStmtToCxtLockSet s) x)"
proof -
  have "\<not> acquires P c" "c \<notin> set (held s c)"
    using assms by (auto simp: acquires_def span_inv_def lock_ok_def)
  then show ?thesis
    using assms(2-4) visit_stmt_marks [of P c s] by (simp add: flow_def enter_stmt_def)
qed

theorem visit_release_keeps_locks_witness:
  "\<exists>s'. visit_stmt locked_store (CxtStmt [] 13) (span_init locked_store locked_state) = Some s' \<and>
    set (data_list (cxtStmtList s')) = {CxtStmt [] 10}"
proof -
  have f: "span_fresh locked_state" using locked_store_ready by (simp add: span_ready_def)
  show ?thesis
    using visit_release_keeps_locks [OF span_init_inv [OF f], of locked_store "CxtStmt [] 13"]
      span_init_simps [OF f, of locked_store]
    by (auto simp: entry_stmts_def isLockCandidateFun_def set_find_def locked_state_def)
qed

text \<open>A mark of an unvisited statement copies the lock set of the source, a mark of a visited
  one intersects, and the target is pushed exactly when it is unvisited or loses a lock; no other
  lock set changes.\<close>

theorem markCxtStmtFlag_transfer:
  assumes ok: "sets_ok s" and src: "getCxtLockfromCxtStmt s src = Some ls"
  shows "\<exists>s'. markCxtStmtFlag tgr src s = Some s' \<and>
    set (map_at [] (cxtStmtToCxtLockSet s') tgr) = (case getCxtLockfromCxtStmt s tgr of
      None \<Rightarrow> set ls | Some ts \<Rightarrow> set ts \<inter> set ls) \<and>
    (\<forall>x. x \<noteq> tgr \<longrightarrow> cxtStmtToCxtLockSet s' x = cxtStmtToCxtLockSet s x) \<and>
    set (data_list (cxtStmtList s')) = set (data_list (cxtStmtList s)) \<union>
      (case getCxtLockfromCxtStmt s tgr of None \<Rightarrow> {tgr}
       | Some ts \<Rightarrow> if set ts \<subseteq> set ls then {} else {tgr})"
proof -
  have f: "fifo_inv (cxtStmtList s)" using ok by (simp add: sets_ok_def)
  have m: "src \<in> seen s" "held s src = ls" using src by (auto simp: getCxtLockfromCxtStmt_def)
  show ?thesis
  proof (cases "getCxtLockfromCxtStmt s tgr")
    case None
    then have n: "tgr \<notin> seen s" "held s tgr = []" by (auto simp: getCxtLockfromCxtStmt_def)
    show ?thesis
      unfolding mark_new [OF m(1) n(1)] m(2) None
      by (simp add: add_locks_held fifo.push_set f n(2) add_locks_other_entry)
  next
    case (Some ts)
    then have n: "tgr \<in> seen s" "held s tgr = ts" by (auto simp: getCxtLockfromCxtStmt_def)
    have "std_set_ok ts" using ok n(2) by (auto simp: sets_ok_def)
    from intersect_locks_set [OF this, of ls] show ?thesis
      unfolding mark_old [OF m(1) n(1)] m(2) n(2) Some
      by (simp add: Let_def fifo.push_set f)
  qed
qed

definition join_state :: lock_analysis where
  "join_state = la_new\<lparr>cxtStmtToCxtLockSet := [CxtStmt [] 1 \<mapsto> [], CxtStmt [] 2 \<mapsto> [CxtStmt [] 7]]\<rparr>"

lemma join_state_ok: "sets_ok join_state"
  by (simp add: sets_ok_def join_state_def la_new_def fifo.new)

theorem markCxtStmtFlag_transfer_witness:
  "\<exists>s'. markCxtStmtFlag (CxtStmt [] 3) (CxtStmt [] 2) join_state = Some s' \<and>
    set (map_at [] (cxtStmtToCxtLockSet s') (CxtStmt [] 3)) = {CxtStmt [] 7} \<and>
    set (data_list (cxtStmtList s')) = {CxtStmt [] 3}"
proof -
  have "getCxtLockfromCxtStmt join_state (CxtStmt [] 2) = Some [CxtStmt [] 7]"
    by (simp add: getCxtLockfromCxtStmt_def join_state_def)
  from markCxtStmtFlag_transfer [OF join_state_ok this, of "CxtStmt [] 3"] show ?thesis
    by (auto simp: getCxtLockfromCxtStmt_def join_state_def la_new_def fifo_new_def)
qed

text \<open>The lock set of a statement with two predecessors depends on the order of the marks
  when one of them holds no lock. If the predecessor that holds some is marked from last, the
  statement keeps all of its locks, although it can be reached without any of them.\<close>

theorem markCxtStmtFlag_order:
  assumes ok: "sets_ok s" and free: "getCxtLockfromCxtStmt s free = Some []"
    and ls: "getCxtLockfromCxtStmt s locked = Some ls" "ls \<noteq> []"
    and t: "getCxtLockfromCxtStmt s tgr = None"
  shows "(\<exists>s1 s2. markCxtStmtFlag tgr free s = Some s1 \<and> markCxtStmtFlag tgr locked s1 = Some s2 \<and>
      set (map_at [] (cxtStmtToCxtLockSet s2) tgr) = set ls) \<and>
    (\<exists>s1 s2. markCxtStmtFlag tgr locked s = Some s1 \<and> markCxtStmtFlag tgr free s1 = Some s2 \<and>
      map_at [] (cxtStmtToCxtLockSet s2) tgr = [])"
proof
  have m: "tgr \<notin> seen s" "held s tgr = []" "free \<in> seen s" "held s free = []"
    "locked \<in> seen s" "held s locked = ls"
    using free ls t by (auto simp: getCxtLockfromCxtStmt_def)
  let ?s1 = "pushToCTSWorkList tgr s"
  have f: "markCxtStmtFlag tgr free s = Some ?s1"
    unfolding mark_new [OF m(3,1)] m(4) by (simp add: add_locks_def)
  have n: "locked \<in> seen ?s1" "tgr \<notin> seen ?s1" using m by simp_all
  have "markCxtStmtFlag tgr locked ?s1 = Some (pushToCTSWorkList tgr (add_locks tgr ls ?s1))"
    unfolding mark_new [OF n] using m(6) by simp
  then show "\<exists>s1 s2. markCxtStmtFlag tgr free s = Some s1 \<and> markCxtStmtFlag tgr locked s1 = Some s2 \<and>
      set (map_at [] (cxtStmtToCxtLockSet s2) tgr) = set ls"
    unfolding f using m(2) by (simp add: add_locks_held)
  let ?s2 = "pushToCTSWorkList tgr (add_locks tgr ls s)"
  have l: "markCxtStmtFlag tgr locked s = Some ?s2"
    unfolding mark_new [OF m(5,1)] m(6) ..
  have "free \<noteq> tgr" using m(1,3) by auto
  then have k: "free \<in> seen ?s2" "held ?s2 free = []" "tgr \<in> seen ?s2"
    using m(3,4) ls(2) by (simp_all add: add_locks_seen)
  have "std_set_ok (held ?s2 tgr)" using ok by (simp add: sets_ok_def add_locks_ok)
  from intersect_locks_set [OF this, of "[]"] have "fst (intersect_locks (held ?s2 tgr) []) = []" by simp
  then show "\<exists>s1 s2. markCxtStmtFlag tgr locked s = Some s1 \<and> markCxtStmtFlag tgr free s1 = Some s2 \<and>
      map_at [] (cxtStmtToCxtLockSet s2) tgr = []"
    unfolding l using mark_old [OF k(1,3)] k(2) by (simp add: Let_def)
qed

theorem markCxtStmtFlag_order_witness:
  "(\<exists>s1 s2. markCxtStmtFlag (CxtStmt [] 3) (CxtStmt [] 1) join_state = Some s1 \<and>
      markCxtStmtFlag (CxtStmt [] 3) (CxtStmt [] 2) s1 = Some s2 \<and>
      set (map_at [] (cxtStmtToCxtLockSet s2) (CxtStmt [] 3)) = {CxtStmt [] 7}) \<and>
   (\<exists>s1 s2. markCxtStmtFlag (CxtStmt [] 3) (CxtStmt [] 2) join_state = Some s1 \<and>
      markCxtStmtFlag (CxtStmt [] 3) (CxtStmt [] 1) s1 = Some s2 \<and>
      map_at [] (cxtStmtToCxtLockSet s2) (CxtStmt [] 3) = [])"
proof -
  have g: "getCxtLockfromCxtStmt join_state (CxtStmt [] 1) = Some []"
    "getCxtLockfromCxtStmt join_state (CxtStmt [] 2) = Some [CxtStmt [] 7]"
    "getCxtLockfromCxtStmt join_state (CxtStmt [] 3) = None"
    by (simp_all add: getCxtLockfromCxtStmt_def join_state_def la_new_def)
  show ?thesis using markCxtStmtFlag_order [OF join_state_ok g(1,2) _ g(3)] by simp
qed

end
