(* ===== verification/LockQuery.thy ===== *)
theory LockQuery
  imports LockSpanFlow
begin

text \<open>
  The queries of \<open>LockAnalysis\<close>: whether two instructions are protected by a common lock, and
  whether they lie in a common lock span. Both have a context-insensitive version over the
  intraprocedural lock sets and a context-sensitive one over all contexts of the two
  instructions. \<open>None\<close> is a failed \<open>assert\<close>.
\<close>

section \<open>Loops over two sets\<close>

text \<open>Two nested loops that return at the first pair for which the test holds.\<close>

definition any_pair :: "('a \<Rightarrow> 'b \<Rightarrow> bool) \<Rightarrow> 'a list \<Rightarrow> 'b list \<Rightarrow> bool" where
  "any_pair t xs ys \<longleftrightarrow> list_ex (\<lambda>x. list_ex (t x) ys) xs"

lemma any_pair_iff [simp]: "any_pair t xs ys \<longleftrightarrow> (\<exists>x\<in>set xs. \<exists>y\<in>set ys. t x y)"
  by (simp add: any_pair_def list_ex_iff)

section \<open>Lock sets\<close>

definition alias_locks :: "program \<Rightarrow> cxt_lock std_set \<Rightarrow> cxt_lock std_set \<Rightarrow> bool" where
  "alias_locks P ls1 ls2 = any_pair (\<lambda>l1 l2. isAliasedLocks P (getStmt l1) (getStmt l2)) ls1 ls2"

text \<open>
  \<open>intersects\<close> walks from \<open>lockset1.begin()\<close> to \<open>lockset2.end()\<close>. An iteration that leaves
  its container is undefined; it is defined only when it returns at once, which it does
  when \<open>lockset1\<close> has an element and is not \<open>lockset2\<close>, since the first element is compared
  with itself. The flag says whether the two arguments are the same object.
\<close>

definition intersects_locks :: "bool \<Rightarrow> cxt_lock std_set \<Rightarrow> bool option" where
  "intersects_locks same ls1 = (case ls1 of [] \<Rightarrow> if same then Some False else None
     | l # _ \<Rightarrow> Some (CxtStmt_eq l l))"

definition hasOneCxtInLockSpan :: "lock_analysis \<Rightarrow> inst \<Rightarrow> cxt_stmt std_set \<Rightarrow> bool" where
  "hasOneCxtInLockSpan s i lspan = (case getCxtStmtfromInst s i of None \<Rightarrow> False
     | Some cs \<Rightarrow> list_ex (\<lambda>c. set_find c lspan) cs)"

definition hasAllCxtInLockSpan :: "lock_analysis \<Rightarrow> inst \<Rightarrow> cxt_stmt std_set \<Rightarrow> bool" where
  "hasAllCxtInLockSpan s i lspan = (case getCxtStmtfromInst s i of None \<Rightarrow> False
     | Some cs \<Rightarrow> list_all (\<lambda>c. set_find c lspan) cs)"

section \<open>Protection by a common lock\<close>

definition isProtectedByCommonCILock :: "program \<Rightarrow> lock_analysis \<Rightarrow> inst \<Rightarrow> inst \<Rightarrow> bool option" where
  "isProtectedByCommonCILock P s i1 i2 =
     (if \<not> isInsideCondIntraLock s i1 \<and> \<not> isInsideCondIntraLock s i2 then
        (case getIntraLockSet s i1 of None \<Rightarrow> None | Some ls1 \<Rightarrow>
         (case getIntraLockSet s i2 of None \<Rightarrow> None | Some ls2 \<Rightarrow>
            Some (any_pair (isAliasedLocks P) ls1 ls2)))
      else Some False)"

definition cxt_stmts_protected :: "program \<Rightarrow> lock_analysis \<Rightarrow> cxt_stmt \<Rightarrow> cxt_stmt \<Rightarrow> bool" where
  "cxt_stmts_protected P s c1 c2 =
     (case (getCxtLockfromCxtStmt s c1, getCxtLockfromCxtStmt s c2) of
        (Some ls1, Some ls2) \<Rightarrow> alias_locks P ls1 ls2 | _ \<Rightarrow> True)"

text \<open>The two loops return false at the first pair of distinct statements not protected.\<close>

definition isProtectedByCommonCxtLock :: "program \<Rightarrow> lock_analysis \<Rightarrow> inst \<Rightarrow> inst \<Rightarrow> bool" where
  "isProtectedByCommonCxtLock P s i1 i2 =
     (case (getCxtStmtfromInst s i1, getCxtStmtfromInst s i2) of
        (Some cs1, Some cs2) \<Rightarrow>
          \<not> any_pair (\<lambda>c1 c2. \<not> CxtStmt_eq c1 c2 \<and> \<not> cxt_stmts_protected P s c1 c2) cs1 cs2
      | _ \<Rightarrow> False)"

definition isProtectedByCommonLock :: "program \<Rightarrow> lock_analysis \<Rightarrow> inst \<Rightarrow> inst \<Rightarrow> bool option" where
  "isProtectedByCommonLock P s i1 i2 =
     (if isInsideIntraLock s i1 \<and> isInsideIntraLock s i2 then isProtectedByCommonCILock P s i1 i2
      else Some (isProtectedByCommonCxtLock P s i1 i2))"

section \<open>Common spans\<close>

definition isInSameCISpan :: "lock_analysis \<Rightarrow> inst \<Rightarrow> inst \<Rightarrow> bool option" where
  "isInSameCISpan s i1 i2 =
     (if \<not> isInsideCondIntraLock s i1 \<and> \<not> isInsideCondIntraLock s i2 then
        (case getIntraLockSet s i1 of None \<Rightarrow> None | Some ls1 \<Rightarrow>
         (case getIntraLockSet s i2 of None \<Rightarrow> None | Some ls2 \<Rightarrow> Some (any_pair (=) ls1 ls2)))
      else Some False)"

definition cxt_stmts_same_span :: "lock_analysis \<Rightarrow> cxt_stmt \<Rightarrow> cxt_stmt \<Rightarrow> bool option" where
  "cxt_stmts_same_span s c1 c2 =
     (case (getCxtLockfromCxtStmt s c1, getCxtLockfromCxtStmt s c2) of
        (Some ls1, Some ls2) \<Rightarrow> intersects_locks (c1 = c2) ls1 | _ \<Rightarrow> Some True)"

text \<open>The pairs in loop order; the first one that is not in a common span ends the loops.\<close>

definition isInSameCSSpan :: "lock_analysis \<Rightarrow> inst \<Rightarrow> inst \<Rightarrow> bool option" where
  "isInSameCSSpan s i1 i2 =
     (case (getCxtStmtfromInst s i1, getCxtStmtfromInst s i2) of
        (Some cs1, Some cs2) \<Rightarrow> foldM (\<lambda>(c1, c2) r. if \<not> r then Some False
            else if CxtStmt_eq c1 c2 then Some True else cxt_stmts_same_span s c1 c2)
          (List.product cs1 cs2) True
      | _ \<Rightarrow> Some False)"

definition isInSameSpan :: "lock_analysis \<Rightarrow> inst \<Rightarrow> inst \<Rightarrow> bool option" where
  "isInSameSpan s i1 i2 =
     (if isInsideIntraLock s i1 \<and> isInsideIntraLock s i2 then isInSameCISpan s i1 i2
      else isInSameCSSpan s i1 i2)"

section \<open>Lemmas\<close>

lemma ci_lock_total:
  assumes "isInsideIntraLock s i1" "isInsideIntraLock s i2"
  shows "isProtectedByCommonCILock P s i1 i2 = Some
    (\<not> isInsideCondIntraLock s i1 \<and> \<not> isInsideCondIntraLock s i2 \<and>
      (\<exists>l1\<in>set (map_at [] (instCILocksMap s) i1). \<exists>l2\<in>set (map_at [] (instCILocksMap s) i2).
        isAliasedLocks P l1 l2))"
  using assms by (auto simp: isProtectedByCommonCILock_def isInsideIntraLock_def getIntraLockSet_def)

lemma CxtStmt_eq_iff [simp]: "CxtStmt_eq a b \<longleftrightarrow> a = b"
  by (auto simp: CxtStmt_eq_def cxt_stmt.expand)

lemma protected_cxt_iff:
  "isProtectedByCommonCxtLock P s i1 i2 \<longleftrightarrow> (\<exists>cs1 cs2.
     getCxtStmtfromInst s i1 = Some cs1 \<and> getCxtStmtfromInst s i2 = Some cs2 \<and>
     (\<forall>c1\<in>set cs1. \<forall>c2\<in>set cs2. c1 \<noteq> c2 \<longrightarrow> cxt_stmts_protected P s c1 c2))"
  by (auto simp: isProtectedByCommonCxtLock_def split: option.splits)

lemma protected_total: "isProtectedByCommonLock P s i1 i2 \<noteq> None"
  using ci_lock_total [of s i1 i2 P] by (auto simp: isProtectedByCommonLock_def)

section \<open>Properties\<close>

text \<open>The protection query never fails an assertion, and it is symmetric whenever the alias
  relation is.\<close>

theorem isProtectedByCommonLock_symmetric:
  assumes "\<And>p q. pta_alias P p q = pta_alias P q p"
  shows "isProtectedByCommonLock P s i1 i2 = isProtectedByCommonLock P s i2 i1 \<and>
    isProtectedByCommonLock P s i1 i2 \<noteq> None"
proof -
  have a: "isAliasedLocks P x y = isAliasedLocks P y x" for x y
    by (simp add: isAliasedLocks_def assms)
  have c: "cxt_stmts_protected P s x y = cxt_stmts_protected P s y x" for x y
    using a by (auto simp: cxt_stmts_protected_def alias_locks_def split: option.splits)
  show ?thesis
  proof (cases "isInsideIntraLock s i1 \<and> isInsideIntraLock s i2")
    case True
    then show ?thesis using ci_lock_total [of s i1 i2 P] ci_lock_total [of s i2 i1 P] a
      by (auto simp: isProtectedByCommonLock_def)
  next
    case False
    have "isProtectedByCommonCxtLock P s y x" if "isProtectedByCommonCxtLock P s x y" for x y
      using that c unfolding protected_cxt_iff by metis
    then show ?thesis using False by (auto simp: isProtectedByCommonLock_def)
  qed
qed

theorem isProtectedByCommonLock_symmetric_witness:
  "isProtectedByCommonLock locked_store locked_state 10 12 =
     isProtectedByCommonLock locked_store locked_state 12 10"
  using isProtectedByCommonLock_symmetric [of locked_store locked_state 10 12] by simp

lemma protected_cxt:
  assumes "span_ready P s rk" and "analyzeLockSpanCxtStmt P s = Some (Some t)"
  shows "isProtectedByCommonCxtLock P t i1 i2 \<longleftrightarrow> hasCxtStmtfromInst t i1 \<and> hasCxtStmtfromInst t i2 \<and>
    (\<forall>c1 c2. c1 \<in> set (map_at [] (instToCxtStmtSet t) i1) \<and> c2 \<in> set (map_at [] (instToCxtStmtSet t) i2) \<and>
      c1 \<noteq> c2 \<longrightarrow> (\<exists>l1\<in>set (map_at [] (cxtStmtToCxtLockSet t) c1).
        \<exists>l2\<in>set (map_at [] (cxtStmtToCxtLockSet t) c2). isAliasedLocks P (getStmt l1) (getStmt l2)))"
proof -
  have I: "span_inv P (entry_stmts P s) t" using span_loop [OF assms(1)] assms(2) by simp
  have k: "\<exists>ls. getCxtLockfromCxtStmt t c = Some ls" if "c \<in> set (map_at [] (instToCxtStmtSet t) i)" for c i
    using I that by (auto simp: span_inv_def getCxtLockfromCxtStmt_def domIff)
  have p: "cxt_stmts_protected P t c1 c2 \<longleftrightarrow> (\<exists>l1\<in>set (held t c1). \<exists>l2\<in>set (held t c2).
      isAliasedLocks P (getStmt l1) (getStmt l2))"
    if "c1 \<in> set (map_at [] (instToCxtStmtSet t) i1)" "c2 \<in> set (map_at [] (instToCxtStmtSet t) i2)" for c1 c2
  proof -
    note c = that
    obtain ls1 ls2 where "getCxtLockfromCxtStmt t c1 = Some ls1" "getCxtLockfromCxtStmt t c2 = Some ls2"
      using k [OF c(1)] k [OF c(2)] by blast
    then show ?thesis
      by (simp add: cxt_stmts_protected_def alias_locks_def getCxtLockfromCxtStmt_def)
  qed
  show ?thesis
  proof (cases "hasCxtStmtfromInst t i1 \<and> hasCxtStmtfromInst t i2")
    case True
    then show ?thesis using p
      by (auto simp: protected_cxt_iff getCxtStmtfromInst_def hasCxtStmtfromInst_def)
  next
    case False
    then show ?thesis
      by (auto simp: protected_cxt_iff getCxtStmtfromInst_def hasCxtStmtfromInst_def)
  qed
qed

text \<open>C28: The answer of the protection query for any two instructions, once the main loop has ended. When
  both are inside intraprocedural spans they count as protected exactly when neither is in the span of a
  lock site that is only conditional and two of the intraprocedural locks recorded for them are aliased.
  Otherwise they do exactly when both were visited and any two distinct context-sensitive statements of
  theirs hold aliased locks.\<close>

theorem isProtectedByCommonLock_cxt:
  assumes "span_ready P s rk" and "analyzeLockSpanCxtStmt P s = Some (Some t)"
  shows "isProtectedByCommonLock P t i1 i2 = Some
    (if isInsideIntraLock t i1 \<and> isInsideIntraLock t i2
     then \<not> isInsideCondIntraLock t i1 \<and> \<not> isInsideCondIntraLock t i2 \<and>
       (\<exists>l1\<in>set (map_at [] (instCILocksMap t) i1). \<exists>l2\<in>set (map_at [] (instCILocksMap t) i2). isAliasedLocks P l1 l2)
     else hasCxtStmtfromInst t i1 \<and> hasCxtStmtfromInst t i2 \<and>
       (\<forall>c1 c2. c1 \<in> set (map_at [] (instToCxtStmtSet t) i1) \<and> c2 \<in> set (map_at [] (instToCxtStmtSet t) i2) \<and>
         c1 \<noteq> c2 \<longrightarrow> (\<exists>l1\<in>set (map_at [] (cxtStmtToCxtLockSet t) c1).
           \<exists>l2\<in>set (map_at [] (cxtStmtToCxtLockSet t) c2). isAliasedLocks P (getStmt l1) (getStmt l2))))"
proof (cases "isInsideIntraLock t i1 \<and> isInsideIntraLock t i2")
  case True
  then show ?thesis using ci_lock_total [of t i1 i2 P] by (simp add: isProtectedByCommonLock_def)
next
  case False
  show ?thesis unfolding isProtectedByCommonLock_def if_not_P [OF False] protected_cxt [OF assms] ..
qed

theorem isProtectedByCommonLock_cxt_witness:
  "\<exists>t. analyzeLockSpanCxtStmt locked_store locked_state = Some (Some t) \<and>
    isProtectedByCommonLock locked_store t 10 12 = Some False"
proof -
  have e: "case analyzeLockSpanCxtStmt locked_store locked_state of Some (Some t) \<Rightarrow>
      \<not> isInsideIntraLock t 12 \<and> map_at [] (instToCxtStmtSet t) 10 = [CxtStmt [] 10] \<and>
      map_at [] (instToCxtStmtSet t) 12 = [CxtStmt [] 12] \<and> map_at [] (cxtStmtToCxtLockSet t) (CxtStmt [] 10) = []
    | _ \<Rightarrow> False" by code_simp
  then obtain t where t: "analyzeLockSpanCxtStmt locked_store locked_state = Some (Some t)"
    by (auto split: option.splits)
  show ?thesis
    using isProtectedByCommonLock_cxt [OF locked_store_ready t, of 10 12] e t
    by (intro exI [of _ t]) simp
qed

text \<open>An instruction that is visited under one context only counts as protected against
  itself, whether or not it holds a lock, unless it is inside an intraprocedural span.\<close>

theorem isProtectedByCommonLock_self:
  assumes "getCxtStmtfromInst s i = Some [c]" and "\<not> isInsideIntraLock s i"
  shows "isProtectedByCommonLock P s i i = Some True"
  using assms by (simp add: isProtectedByCommonLock_def protected_cxt_iff)

definition two_visits :: lock_analysis where
  "two_visits = la_new\<lparr>instToCxtStmtSet := [1 \<mapsto> [CxtStmt [] 1], 2 \<mapsto> [CxtStmt [] 2]],
     cxtStmtToCxtLockSet := [CxtStmt [] 1 \<mapsto> [CxtStmt [] 7], CxtStmt [] 2 \<mapsto> []]\<rparr>"

theorem isProtectedByCommonLock_self_witness:
  "isProtectedByCommonLock locked_store two_visits 2 2 = Some True"
  by (rule isProtectedByCommonLock_self [of _ _ "CxtStmt [] 2"])
    (simp_all add: two_visits_def getCxtStmtfromInst_def isInsideIntraLock_def
      isInsideCondIntraLock_def la_new_def)

text \<open>C34: The context-sensitive span query never answers false for two visited instructions: the loop
  of \<open>intersects\<close> compares the first lock of the first set with itself, and where that set is
  empty it runs off its end, so the second lock set is never looked at.\<close>

theorem isInSameCSSpan_never_false:
  assumes "getCxtStmtfromInst s i1 = Some cs1" "getCxtStmtfromInst s i2 = Some cs2"
  shows "isInSameCSSpan s i1 i2 \<noteq> Some False"
proof -
  have "foldM (\<lambda>(c1, c2) r. if \<not> r then Some False
      else if CxtStmt_eq c1 c2 then Some True else cxt_stmts_same_span s c1 c2) ps True \<noteq> Some False" for ps
  proof (induction ps)
    case (Cons p ps)
    have "cxt_stmts_same_span s (fst p) (snd p) \<noteq> Some False" if "fst p \<noteq> snd p"
      using that by (auto simp: cxt_stmts_same_span_def intersects_locks_def split: option.splits list.splits)
    moreover have "r" if "cxt_stmts_same_span s (fst p) (snd p) = Some r" "fst p \<noteq> snd p" for r
      using that calculation by (cases r) auto
    ultimately show ?case using Cons.IH by (cases p) (auto split: option.splits if_splits)
  qed simp
  then show ?thesis using assms by (simp add: isInSameCSSpan_def)
qed

theorem isInSameCSSpan_never_false_witness: "isInSameCSSpan two_visits 1 2 \<noteq> Some False"
  by (rule isInSameCSSpan_never_false [of _ _ "[CxtStmt [] 1]" _ "[CxtStmt [] 2]"])
    (simp_all add: two_visits_def getCxtStmtfromInst_def)

end
