(* ===== verification/Race.thy ===== *)
theory Race
  imports LockQuery "HOL-Library.Char_ord"
begin

text \<open>
  The race check of \<open>lib/MTA/MTA.cpp\<close>: which pairs of memory accesses are compared, when a
  pair is a race, and the text written for it. The may-happen-in-parallel relation and the
  points-to sets are the results of the analyses run before; source locations are the debug
  locations that LLVM attaches to instructions.
\<close>

section \<open>Source locations\<close>

text \<open>What \<open>getSourceLoc\<close> prints for an instruction with a debug location.\<close>

datatype inst_kind = AllocaKind | OtherKind

record debug_info =
  di_kind :: "inst \<Rightarrow> inst_kind"
  di_declare :: "inst \<Rightarrow> (nat \<times> string) option"
  di_loc :: "inst \<Rightarrow> (nat \<times> string) option"

fun dec :: "nat \<Rightarrow> string" where
  "dec n = (if n < 10 then [char_of (48 + n)] else dec (n div 10) @ [char_of (48 + n mod 10)])"

declare dec.simps [simp del]

definition loc_string :: "nat \<times> string \<Rightarrow> string" where
  "loc_string l = ''ln: '' @ dec (fst l) @ '' fl: '' @ snd l"

definition getSourceLoc :: "debug_info \<Rightarrow> inst \<Rightarrow> string" where
  "getSourceLoc D i = (case (case di_kind D i of AllocaKind \<Rightarrow> di_declare D i | OtherKind \<Rightarrow> di_loc D i)
     of None \<Rightarrow> '''' | Some l \<Rightarrow> loc_string l)"

section \<open>Regular expressions\<close>

text \<open>
  \<open>std::regex_search\<close> for the two expressions of \<open>pairAnalysis\<close>: the leftmost place where the
  literal is followed by a match of the group, and the longest match of the group there. A
  dot matches no line terminator.
\<close>

definition is_digit :: "char \<Rightarrow> bool" where
  "is_digit c \<longleftrightarrow> CHR ''0'' \<le> c \<and> c \<le> CHR ''9''"

definition is_dot :: "char \<Rightarrow> bool" where
  "is_dot c \<longleftrightarrow> c \<noteq> CHR 0x0A \<and> c \<noteq> CHR 0x0D"

fun strip_prefix :: "string \<Rightarrow> string \<Rightarrow> string option" where
  "strip_prefix [] s = Some s"
| "strip_prefix (p # ps) [] = None"
| "strip_prefix (p # ps) (c # s) = (if p = c then strip_prefix ps s else None)"

text \<open>\<open>lit\<close> followed by the group of at least \<open>n\<close> characters that satisfy \<open>p\<close>.\<close>

fun search_group :: "string \<Rightarrow> (char \<Rightarrow> bool) \<Rightarrow> nat \<Rightarrow> string \<Rightarrow> string option" where
  "search_group lit p n s =
     (case strip_prefix lit s of
        Some r \<Rightarrow> if n \<le> length (takeWhile p r) then Some (takeWhile p r)
          else (case s of [] \<Rightarrow> None | _ # s' \<Rightarrow> search_group lit p n s')
      | None \<Rightarrow> (case s of [] \<Rightarrow> None | _ # s' \<Rightarrow> search_group lit p n s'))"

declare search_group.simps [simp del]

definition search_line :: "string \<Rightarrow> string option" where
  "search_line s = search_group ''ln: '' is_digit 1 s"

definition search_file :: "string \<Rightarrow> string option" where
  "search_file s = search_group ''fl: '' is_dot 0 s"

section \<open>Pairs of accesses\<close>

record instruction_pair =
  inst1 :: inst
  inst2 :: inst
  pair_alias :: alias_result

definition InstructionPair :: "inst \<Rightarrow> inst \<Rightarrow> instruction_pair" where
  "InstructionPair a b = \<lparr>inst1 = a, inst2 = b, pair_alias = NoAlias\<rparr>"

definition setAlias :: "alias_result \<Rightarrow> instruction_pair \<Rightarrow> instruction_pair" where
  "setAlias r p = p\<lparr>pair_alias := r\<rparr>"

record mem_obj =
  isGlobalObj :: bool
  isStaticObj :: bool
  isHeap :: bool

record race_env =
  re_prog :: program
  re_locks :: lock_analysis
  re_mhp :: "inst \<Rightarrow> inst \<Rightarrow> bool"
  re_pts :: "val \<Rightarrow> mem_obj list"
  re_debug :: debug_info

definition isShared_val :: "race_env \<Rightarrow> val \<Rightarrow> bool" where
  "isShared_val E v = list_ex (\<lambda>obj. isGlobalObj obj \<or> isStaticObj obj \<or> isHeap obj) (re_pts E v)"

definition isShared :: "race_env \<Rightarrow> inst \<Rightarrow> bool" where
  "isShared E i =
     (if is_store (re_prog E) i then isShared_val E (pointer_operand (re_prog E) i)
      else if is_load (re_prog E) i then isShared_val E (pointer_operand (re_prog E) i)
      else False)"

text \<open>The answer and the pair with the alias result it records; \<open>None\<close> is a failed assertion.\<close>

definition hasDataRace :: "race_env \<Rightarrow> instruction_pair \<Rightarrow> (bool \<times> instruction_pair) option" where
  "hasDataRace E p =
     (let P = re_prog E; a = inst1 p; b = inst2 p;
          results = pta_alias P (pointer_operand P a) (pointer_operand P b);
          aliased = results = MayAlias \<or> results = MustAlias \<or> results = PartialAlias;
          q = setAlias results p;
          (alias, p') =
            (if is_store P a then
               (if is_store P b then (aliased, q) else if is_load P b then (aliased, q) else (False, p))
             else if is_load P a then
               (if is_load P b then (aliased, q) else if is_store P b then (aliased, q) else (False, p))
             else (False, p))
      in if \<not> alias then Some (False, p')
         else if \<not> re_mhp E a b then Some (False, p')
         else map_option (\<lambda>r. (\<not> r, p')) (isProtectedByCommonLock P (re_locks E) a b))"

text \<open>
  The pairing loop over the ordered set of accesses. The test of sharedness reads the
  iterator, then the initialisation of the inner loop advances it: the pairs are those of
  the next access with itself and everything after it.
\<close>

definition race_row :: "race_env \<Rightarrow> inst \<Rightarrow> inst list \<Rightarrow> instruction_pair list option" where
  "race_row E i js = foldM (\<lambda>j ps. map_option (\<lambda>(r, p). if r then ps @ [p] else ps)
     (hasDataRace E (InstructionPair i j))) js []"

fun pair_loop :: "race_env \<Rightarrow> inst list \<Rightarrow> instruction_pair list option" where
  "pair_loop E [] = Some []"
| "pair_loop E (i # rest) =
     (if \<not> isShared E i then pair_loop E rest
      else (case (case rest of [] \<Rightarrow> Some [] | j # _ \<Rightarrow> race_row E j rest) of None \<Rightarrow> None
        | Some ps \<Rightarrow> map_option ((@) ps) (pair_loop E rest)))"

definition access_set :: "program \<Rightarrow> inst std_set" where
  "access_set P = fold (\<lambda>i s. if is_store P i then set_insert i s
     else if is_load P i then set_insert i s else s) (module_insts P) []"

definition race_lines :: "race_env \<Rightarrow> instruction_pair \<Rightarrow> string list" where
  "race_lines E p =
     (let s1 = getSourceLoc (re_debug E) (inst1 p); s2 = getSourceLoc (re_debug E) (inst2 p);
          out = (\<lambda>m. case m of None \<Rightarrow> [] | Some t \<Rightarrow> [t])
      in if s1 = [] \<or> s2 = [] then []
         else out (search_line s1) @ out (search_file s1) @ out (search_line s2) @ out (search_file s2))"

definition pairAnalysis :: "race_env \<Rightarrow> string list option" where
  "pairAnalysis E = map_option (\<lambda>ps. concat (map (race_lines E) ps)) (pair_loop E (access_set (re_prog E)))"

section \<open>Lemmas\<close>

lemma hasDataRace_access:
  assumes "is_store (re_prog E) (inst1 p) \<or> is_load (re_prog E) (inst1 p)"
    and "is_store (re_prog E) (inst2 p) \<or> is_load (re_prog E) (inst2 p)"
  shows "\<exists>pr. isProtectedByCommonLock (re_prog E) (re_locks E) (inst1 p) (inst2 p) = Some pr \<and>
    hasDataRace E p = Some
      (alias_bool (pta_alias (re_prog E) (pointer_operand (re_prog E) (inst1 p))
           (pointer_operand (re_prog E) (inst2 p))) \<and> re_mhp E (inst1 p) (inst2 p) \<and> \<not> pr,
       setAlias (pta_alias (re_prog E) (pointer_operand (re_prog E) (inst1 p))
           (pointer_operand (re_prog E) (inst2 p))) p)"
proof -
  obtain pr where pr: "isProtectedByCommonLock (re_prog E) (re_locks E) (inst1 p) (inst2 p) = Some pr"
    using protected_total by blast
  have a: "(r = MayAlias \<or> r = MustAlias \<or> r = PartialAlias) = alias_bool r" for r
    by (cases r) (auto simp: alias_bool_def)
  show ?thesis
    using assms by (intro exI [of _ pr]) (auto simp: hasDataRace_def Let_def pr a)
qed

lemma hasDataRace_total: "hasDataRace E p \<noteq> None"
proof -
  have "isProtectedByCommonLock (re_prog E) (re_locks E) (inst1 p) (inst2 p) \<noteq> None"
    by (rule protected_total)
  then show ?thesis by (auto simp: hasDataRace_def Let_def)
qed

definition races :: "race_env \<Rightarrow> inst \<Rightarrow> inst \<Rightarrow> bool" where
  "races E i j \<longleftrightarrow> (\<exists>p. hasDataRace E (InstructionPair i j) = Some (True, p))"

lemma hasDataRace_insts:
  "hasDataRace E p = Some (r, q) \<Longrightarrow> inst1 q = inst1 p \<and> inst2 q = inst2 p"
  by (auto simp: hasDataRace_def Let_def setAlias_def split: if_splits)

lemma race_row_result:
  "\<exists>ps. foldM (\<lambda>j ps. map_option (\<lambda>(r, p). if r then ps @ [p] else ps)
      (hasDataRace E (InstructionPair i j))) js qs = Some ps \<and>
    map (\<lambda>p. (inst1 p, inst2 p)) ps =
      map (\<lambda>p. (inst1 p, inst2 p)) qs @ map (Pair i) (filter (races E i) js)"
proof (induction js arbitrary: qs)
  case (Cons j js)
  obtain r p where h: "hasDataRace E (InstructionPair i j) = Some (r, p)"
    using hasDataRace_total [of E "InstructionPair i j"] by auto
  have p: "inst1 p = i" "inst2 p = j" using hasDataRace_insts [OF h] by (simp_all add: InstructionPair_def)
  have r: "races E i j = r" by (auto simp: races_def h)
  show ?case using Cons.IH [of "if r then qs @ [p] else qs"] by (auto simp: h p r)
qed simp

text \<open>The pairs in the order in which the loops report them.\<close>

fun reported :: "race_env \<Rightarrow> inst list \<Rightarrow> (inst \<times> inst) list" where
  "reported E [] = []"
| "reported E (i # rest) = (if isShared E i
     then (case rest of [] \<Rightarrow> [] | j # _ \<Rightarrow> map (Pair j) (filter (races E j) rest)) else []) @ reported E rest"

lemma pair_loop_reported:
  "\<exists>ps. pair_loop E xs = Some ps \<and> map (\<lambda>p. (inst1 p, inst2 p)) ps = reported E xs"
proof (induction xs)
  case (Cons i rest)
  obtain ps where ps: "pair_loop E rest = Some ps" "map (\<lambda>p. (inst1 p, inst2 p)) ps = reported E rest"
    using Cons.IH by blast
  obtain qs where qs: "(case rest of [] \<Rightarrow> Some [] | j # _ \<Rightarrow> race_row E j rest) = Some qs"
    "map (\<lambda>p. (inst1 p, inst2 p)) qs = (case rest of [] \<Rightarrow> [] | j # _ \<Rightarrow> map (Pair j) (filter (races E j) rest))"
  proof (cases rest)
    case Nil
    then show thesis using that [of "[]"] by simp
  next
    case (Cons j js)
    then show thesis using that race_row_result [of E j rest "[]"] by (auto simp: race_row_def)
  qed
  show ?case by (simp add: ps qs)
qed simp

lemma reported_set:
  "set (reported E xs) = {(xs ! Suc k, xs ! j) | k j.
     Suc k \<le> j \<and> j < length xs \<and> isShared E (xs ! k) \<and> races E (xs ! Suc k) (xs ! j)}"
proof (induction xs)
  case (Cons i rest)
  have f: "set (map (Pair x) (filter q L)) = {(x, L ! j) | j. j < length L \<and> q (L ! j)}"
    for x :: inst and q and L :: "inst list"
    unfolding set_map set_filter set_conv_nth [of L] by auto
  have "set (case rest of [] \<Rightarrow> [] | j # _ \<Rightarrow> map (Pair j) (filter (races E j) rest)) =
      {(rest ! 0, rest ! j) | j. j < length rest \<and> races E (rest ! 0) (rest ! j)}"
  proof (cases rest)
    case (Cons a as)
    show ?thesis unfolding Cons list.case f nth_Cons_0 ..
  qed simp
  then have "set (reported E (i # rest)) = {(rest ! 0, rest ! j) | j. isShared E i \<and> j < length rest \<and>
      races E (rest ! 0) (rest ! j)} \<union> set (reported E rest)"
    by (cases "isShared E i") simp_all
  also have "\<dots> = {((i # rest) ! Suc k, (i # rest) ! j) | k j. Suc k \<le> j \<and> j < length (i # rest) \<and>
      isShared E ((i # rest) ! k) \<and> races E ((i # rest) ! Suc k) ((i # rest) ! j)}" (is "?A \<union> _ = ?R")
  proof (intro set_eqI iffI)
    fix x assume "x \<in> ?A \<union> set (reported E rest)"
    then consider j where "x = (rest ! 0, rest ! j)" "isShared E i" "j < length rest" "races E (rest ! 0) (rest ! j)"
      | k j where "x = (rest ! Suc k, rest ! j)" "Suc k \<le> j" "j < length rest" "isShared E (rest ! k)"
        "races E (rest ! Suc k) (rest ! j)" unfolding Cons.IH by blast
    then show "x \<in> ?R"
    proof cases
      case 1
      then show ?thesis by (intro CollectI exI [of _ 0] exI [of _ "Suc j"]) simp
    next
      case 2
      then show ?thesis by (intro CollectI exI [of _ "Suc k"] exI [of _ "Suc j"]) simp
    qed
  next
    fix x assume "x \<in> ?R"
    then obtain k j where kj: "x = ((i # rest) ! Suc k, (i # rest) ! j)" "Suc k \<le> j" "j < length (i # rest)"
      "isShared E ((i # rest) ! k)" "races E ((i # rest) ! Suc k) ((i # rest) ! j)" by blast
    then obtain j' where j: "j = Suc j'" by (cases j) auto
    show "x \<in> ?A \<union> set (reported E rest)"
    proof (cases k)
      case 0
      then show ?thesis using kj j by auto
    next
      case (Suc k')
      then show ?thesis using kj j unfolding Cons.IH by auto
    qed
  qed
  finally show ?case .
qed simp

lemma access_set_props:
  "std_set_ok (access_set P) \<and> set (access_set P) = {i \<in> set (module_insts P). is_store P i \<or> is_load P i}"
proof -
  have "(\<lambda>i s. if is_store P i then set_insert i s else if is_load P i then set_insert i s else s) =
      (\<lambda>i s. if is_store P i \<or> is_load P i then set_insert i s else s)" by (auto simp: fun_eq_iff)
  then show ?thesis by (simp add: access_set_def)
qed

section \<open>Text lemmas\<close>

lemma dec_digits: "dec n \<noteq> [] \<and> (\<forall>c\<in>set (dec n). is_digit c)"
proof (induction n rule: dec.induct)
  case (1 n)
  have d: "is_digit (char_of (48 + k))" if "k < 10" for k :: nat
    using that by (auto simp: is_digit_def less_eq_char_def of_char_of)
  show ?case
    using 1 d [of n] d [of "n mod 10"] by (cases "n < 10") (auto simp: dec.simps [of n])
qed

lemma takeWhile_stop: "(\<forall>c\<in>set xs. p c) \<Longrightarrow> \<not> p y \<Longrightarrow> takeWhile p (xs @ y # ys) = xs"
  by (induction xs) auto

lemma search_line_loc: "search_line (loc_string l) = Some (dec (fst l))"
proof -
  have "takeWhile is_digit (dec (fst l) @ '' fl: '' @ snd l) = dec (fst l)"
    using takeWhile_stop [of "dec (fst l)" is_digit "CHR '' ''"] dec_digits [of "fst l"]
    by (simp add: is_digit_def less_eq_char_def)
  then show ?thesis
    using dec_digits [of "fst l"]
    by (simp add: search_line_def loc_string_def search_group.simps [of _ _ _ "_ # _"] Suc_le_eq)
qed

lemma search_file_skip:
  assumes "\<forall>c\<in>set xs. is_digit c"
  shows "search_group ''fl: '' is_dot 0 (xs @ '' fl: '' @ f) = Some (takeWhile is_dot f)"
  using assms
proof (induction xs)
  case Nil
  show ?case by (simp add: search_group.simps [of _ _ _ "_ # _"])
next
  case (Cons x xs)
  have "x \<noteq> CHR ''f''" using Cons.prems by (auto simp: is_digit_def less_eq_char_def)
  then show ?case using Cons by (simp add: search_group.simps [of _ _ _ "_ # _"])
qed

lemma search_file_loc:
  assumes "\<forall>c\<in>set (snd l). is_dot c"
  shows "search_file (loc_string l) = Some (snd l)"
  using search_file_skip [of "dec (fst l)" "snd l"] dec_digits [of "fst l"] assms
  by (simp add: search_file_def loc_string_def search_group.simps [of _ _ _ "_ # _"]
    takeWhile_eq_all_conv [THEN iffD2])

section \<open>Properties\<close>

text \<open>C26: The pair analysis fails no assertion, and the pairs it reports are these: for every access
  at a position of the address order whose pointer may be shared, the pairs of the access that
  follows it with itself and with every later access, as far as they race.\<close>

theorem pair_loop_pairs:
  "\<exists>ps. pair_loop E (access_set (re_prog E)) = Some ps \<and>
    set (map (\<lambda>p. (inst1 p, inst2 p)) ps) =
      {(access_set (re_prog E) ! Suc k, access_set (re_prog E) ! j) | k j.
        Suc k \<le> j \<and> j < length (access_set (re_prog E)) \<and> isShared E (access_set (re_prog E) ! k) \<and>
        races E (access_set (re_prog E) ! Suc k) (access_set (re_prog E) ! j)}"
proof -
  obtain ps where "pair_loop E (access_set (re_prog E)) = Some ps"
    and r: "map (\<lambda>p. (inst1 p, inst2 p)) ps = reported E (access_set (re_prog E))"
    using pair_loop_reported by blast
  then show ?thesis by (intro exI [of _ ps] conjI) (assumption, unfold r, rule reported_set)
qed

text \<open>The access at the lowest address is compared with no other access, so a race between it
  and any other access is not reported.\<close>

theorem lowest_access_unreported:
  assumes "access_set (re_prog E) = i # rest" and "pair_loop E (access_set (re_prog E)) = Some ps"
    and "p \<in> set ps"
  shows "inst1 p \<noteq> i \<and> inst2 p \<noteq> i"
proof -
  have "std_set_ok (i # rest)" using access_set_props [of "re_prog E"] assms(1) by simp
  then have d: "distinct (i # rest)" unfolding strict_sorted_iff' ..
  have "(inst1 p, inst2 p) \<in> set (reported E (i # rest))"
    using pair_loop_reported [of E "i # rest"] assms by (metis (no_types, lifting) image_eqI list.set_map option.inject)
  then obtain k j where "inst1 p = (i # rest) ! Suc k" "inst2 p = (i # rest) ! j" "Suc k \<le> j"
    "j < length (i # rest)" unfolding reported_set by blast
  then show ?thesis using d by (cases j) (auto simp: in_set_conv_nth)
qed

text \<open>For two memory accesses the check fails no assertion and finds a race exactly when their
  pointers may alias, they may happen in parallel, and they are not protected by a common lock;
  the alias result is recorded in the pair. Two loads are treated like any other accesses.\<close>

theorem hasDataRace_iff:
  assumes "is_store (re_prog E) a \<or> is_load (re_prog E) a" "is_store (re_prog E) b \<or> is_load (re_prog E) b"
  shows "\<exists>r q. hasDataRace E (InstructionPair a b) = Some (r, q) \<and>
    pair_alias q = pta_alias (re_prog E) (pointer_operand (re_prog E) a) (pointer_operand (re_prog E) b) \<and>
    (r \<longleftrightarrow> pair_alias q \<noteq> NoAlias \<and> re_mhp E a b \<and>
       isProtectedByCommonLock (re_prog E) (re_locks E) a b = Some False)"
  using hasDataRace_access [of E "InstructionPair a b"] assms
  by (auto simp: InstructionPair_def setAlias_def alias_bool_def)

text \<open>C33: What is written for a pair whose two instructions carry debug locations is read back from
  the text of \<open>getSourceLoc\<close> unchanged: the line and the file of the first, then those of the
  second, as long as the file names contain no line terminator.\<close>

theorem race_lines_roundtrip:
  assumes "getSourceLoc (re_debug E) (inst1 p) = loc_string (l1, f1)"
    and "getSourceLoc (re_debug E) (inst2 p) = loc_string (l2, f2)"
    and "\<forall>c\<in>set f1 \<union> set f2. is_dot c"
  shows "race_lines E p = [dec l1, f1, dec l2, f2]"
proof -
  have n: "loc_string l \<noteq> []" for l by (simp add: loc_string_def)
  show ?thesis
    using search_file_loc [of "(l1, f1)"] search_file_loc [of "(l2, f2)"] assms(3)
    by (simp add: race_lines_def assms(1,2) n search_line_loc)
qed

section \<open>Witnesses\<close>

definition race_example :: race_env where
  "race_example = \<lparr>re_prog = locked_store, re_locks = two_visits, re_mhp = (\<lambda>_ _. True),
     re_pts = (\<lambda>_. [\<lparr>isGlobalObj = True, isStaticObj = False, isHeap = False\<rparr>]),
     re_debug = \<lparr>di_kind = (\<lambda>_. OtherKind), di_declare = (\<lambda>_. None),
       di_loc = (\<lambda>i. Some (i, ''a.c''))\<rparr>\<rparr>"

lemma race_example_accesses: "access_set (re_prog race_example) = [10, 12]"
  by (simp add: race_example_def access_set_def module_insts_def set_insert_def
    insort_insert_key_def)

theorem lowest_access_unreported_witness:
  "\<exists>ps. pair_loop race_example [10, 12] = Some ps \<and> (\<forall>p. p \<in> set ps \<longrightarrow> inst1 p \<noteq> 10) \<and> ps \<noteq> []"
proof -
  have "case pair_loop race_example [10, 12] of Some ps \<Rightarrow> ps \<noteq> [] | None \<Rightarrow> False" by code_simp
  then obtain ps where ps: "pair_loop race_example [10, 12] = Some ps" "ps \<noteq> []"
    by (auto split: option.splits)
  then show ?thesis
    using lowest_access_unreported [of race_example 10 "[12]" ps] race_example_accesses by auto
qed

theorem hasDataRace_iff_witness:
  "\<exists>r q. hasDataRace race_example (InstructionPair 10 12) = Some (r, q) \<and> pair_alias q = MayAlias"
  using hasDataRace_iff [of race_example 10 12] by (auto simp: race_example_def)

theorem race_lines_roundtrip_witness:
  "race_lines race_example (InstructionPair 10 12) = [dec 10, ''a.c'', dec 12, ''a.c'']"
  by (rule race_lines_roundtrip)
    (auto simp: race_example_def getSourceLoc_def InstructionPair_def is_dot_def)

end
