(* ===== verification/BoundsRT.thy ===== *)
theory BoundsRT
  imports Prelude
begin

text \<open>
  The bounds-checking runtime \<open>lib/RuntimeLib/BoundsRT.c\<close> that instrumented programs are
  linked with: the metadata of allocated objects, the tables that associate a pointer with an
  object and with bounds, and the check before an access. Pointers and sizes are 64-bit
  words. A failing \<open>assert\<close> is the error branch of the result.
\<close>

unbundle bit_operations_syntax

type_synonym word64 = "64 word"

section \<open>State\<close>

record md_entry =
  md_base :: word64
  md_bound :: word64
  md_key :: word64
  md_lock :: word64

record prop_info =
  pi_base :: word64
  pi_bound :: word64

text \<open>
  The three tables. A pointer to a metadata entry is the entry's index. The counters wrap
  like \<open>size_t\<close>.
\<close>

record bounds_rt =
  totalNumMDEntry :: word64
  MDTable :: "word64 \<Rightarrow> md_entry"
  PTRToPropInfoTable :: "word64 \<Rightarrow> prop_info"
  PTRToMDTable :: "word64 \<Rightarrow> word64 option"
  storeCounter :: word64
  loadCounter :: word64

datatype rt_error = OutOfTable | NoMetadata | BoundOverflow | NoMemory

definition int_max :: word64 where "int_max = 2147483647"
definition MaxNumMDEntry :: word64 where "MaxNumMDEntry = drop_bit 6 int_max"
definition MaxNumPTRToMDEntry :: word64 where "MaxNumPTRToMDEntry = drop_bit 5 int_max"
definition MaxNumPTRToPropInfoEntry :: word64 where "MaxNumPTRToPropInfoEntry = drop_bit 5 int_max"

text \<open>\<open>MDInitialize\<close> clears the tables.\<close>

definition MDInitialize :: bounds_rt where
  "MDInitialize = \<lparr>totalNumMDEntry = 0,
     MDTable = (\<lambda>_. \<lparr>md_base = 0, md_bound = 0, md_key = 0, md_lock = 0\<rparr>),
     PTRToPropInfoTable = (\<lambda>_. \<lparr>pi_base = 0, pi_bound = 0\<rparr>), PTRToMDTable = (\<lambda>_. None),
     storeCounter = 0, loadCounter = 0\<rparr>"

section \<open>Tables\<close>

definition metadataStoreCounter :: "bounds_rt \<Rightarrow> bounds_rt" where
  "metadataStoreCounter s = s\<lparr>storeCounter := storeCounter s + 1\<rparr>"

definition metadataLoadCounter :: "bounds_rt \<Rightarrow> bounds_rt" where
  "metadataLoadCounter s = s\<lparr>loadCounter := loadCounter s + 1\<rparr>"

text \<open>The first entry in table order whose range contains the pointer.\<close>

definition findMetaData :: "bounds_rt \<Rightarrow> word64 \<Rightarrow> word64 option" where
  "findMetaData s p = map_option word_of_nat
     (List.find (\<lambda>i. md_base (MDTable s (word_of_nat i)) \<le> p \<and> p < md_bound (MDTable s (word_of_nat i)))
       [0..<unat (totalNumMDEntry s)])"

definition ptr_index :: "word64 \<Rightarrow> word64" where
  "ptr_index p = drop_bit 3 p AND 0x3fffff"

definition getMDEntryFromCPtr :: "bounds_rt \<Rightarrow> word64 \<Rightarrow> rt_error + word64 option" where
  "getMDEntryFromCPtr s p = (let idx = ptr_index p in
     if \<not> idx < MaxNumPTRToMDEntry then Inl OutOfTable else Inr (PTRToMDTable s idx))"

definition setMDEntryFromCPtr :: "word64 \<Rightarrow> word64 \<Rightarrow> bounds_rt \<Rightarrow> rt_error + bounds_rt" where
  "setMDEntryFromCPtr p entry s = (let idx = ptr_index p in
     if \<not> idx < MaxNumPTRToMDEntry then Inl OutOfTable
     else Inr (s\<lparr>PTRToMDTable := (PTRToMDTable s)(idx := Some entry)\<rparr>))"

definition getPropInfoFromCPtr :: "bounds_rt \<Rightarrow> word64 \<Rightarrow> rt_error + prop_info" where
  "getPropInfoFromCPtr s p = (let idx = ptr_index p in
     if \<not> idx < MaxNumPTRToPropInfoEntry then Inl OutOfTable else Inr (PTRToPropInfoTable s idx))"

definition setPropInfoFromCPtr :: "word64 \<Rightarrow> prop_info \<Rightarrow> bounds_rt \<Rightarrow> rt_error + bounds_rt" where
  "setPropInfoFromCPtr p src s = (let idx = ptr_index p in
     if \<not> idx < MaxNumPTRToPropInfoEntry then Inl OutOfTable
     else Inr (s\<lparr>PTRToPropInfoTable := (PTRToPropInfoTable s)(idx :=
       (PTRToPropInfoTable s idx)\<lparr>pi_base := pi_base src, pi_bound := pi_bound src\<rparr>)\<rparr>))"

section \<open>Instrumented instructions\<close>

definition metadataCheckInst :: "bounds_rt \<Rightarrow> word64 \<Rightarrow> word64 \<Rightarrow> rt_error + unit" where
  "metadataCheckInst s p accessSize = (case getPropInfoFromCPtr s p of Inl e \<Rightarrow> Inl e
     | Inr pi \<Rightarrow> if p < pi_base pi \<or> p + accessSize > pi_bound pi then Inl BoundOverflow else Inr ())"

definition metadataLoadInst :: "word64 \<Rightarrow> word64 \<Rightarrow> bounds_rt \<Rightarrow> rt_error + bounds_rt" where
  "metadataLoadInst src dst s = (case getMDEntryFromCPtr s src of Inl e \<Rightarrow> Inl e
     | Inr None \<Rightarrow> Inl NoMetadata
     | Inr (Some m) \<Rightarrow> (case getPropInfoFromCPtr s dst of Inl e \<Rightarrow> Inl e
        | Inr pi \<Rightarrow> Inr (s\<lparr>PTRToPropInfoTable := (PTRToPropInfoTable s)(ptr_index dst :=
            pi\<lparr>pi_base := md_base (MDTable s m), pi_bound := md_bound (MDTable s m)\<rparr>)\<rparr>)))"

definition metadataStoreInst :: "word64 \<Rightarrow> word64 \<Rightarrow> bounds_rt \<Rightarrow> rt_error + bounds_rt" where
  "metadataStoreInst src dst s = (case getMDEntryFromCPtr s dst of Inl e \<Rightarrow> Inl e
     | Inr None \<Rightarrow> Inl NoMetadata
     | Inr (Some m) \<Rightarrow> (case getPropInfoFromCPtr s src of Inl e \<Rightarrow> Inl e
        | Inr pi \<Rightarrow> Inr (s\<lparr>MDTable := (MDTable s)(m :=
            (MDTable s m)\<lparr>md_base := pi_base pi, md_bound := pi_bound pi\<rparr>)\<rparr>)))"

definition metadataPropagateInst :: "word64 \<Rightarrow> word64 \<Rightarrow> bounds_rt \<Rightarrow> rt_error + bounds_rt" where
  "metadataPropagateInst src dst s = (case getPropInfoFromCPtr s src of Inl e \<Rightarrow> Inl e
     | Inr pi \<Rightarrow> setPropInfoFromCPtr dst pi s)"

definition metadataInitialInst :: "word64 \<Rightarrow> word64 \<Rightarrow> word64 \<Rightarrow> bounds_rt \<Rightarrow> rt_error + bounds_rt" where
  "metadataInitialInst p base bound s =
     (if \<not> totalNumMDEntry s < MaxNumMDEntry then Inl OutOfTable
      else let m = totalNumMDEntry s;
               s1 = s\<lparr>totalNumMDEntry := m + 1,
                 MDTable := (MDTable s)(m := (MDTable s m)\<lparr>md_base := base, md_bound := bound\<rparr>)\<rparr>
           in (case getPropInfoFromCPtr s1 p of Inl e \<Rightarrow> Inl e
             | Inr pi \<Rightarrow> setMDEntryFromCPtr p m (s1\<lparr>PTRToPropInfoTable := (PTRToPropInfoTable s1)
                 (ptr_index p := pi\<lparr>pi_base := base, pi_bound := bound\<rparr>)\<rparr>)))"

text \<open>\<open>malloc\<close> of the C library is the argument \<open>r\<close>: the address it returns.\<close>

definition dvf_malloc :: "word64 option \<Rightarrow> word64 \<Rightarrow> bounds_rt \<Rightarrow> rt_error + (word64 \<times> bounds_rt)" where
  "dvf_malloc r sz s = (case r of None \<Rightarrow> Inl NoMemory
     | Some p \<Rightarrow> (case metadataInitialInst p p (p + sz) s of Inl e \<Rightarrow> Inl e | Inr s' \<Rightarrow> Inr (p, s')))"

section \<open>Runs\<close>

text \<open>The calls that an instrumented program makes, and a run of them up to the first failure.\<close>

datatype rt_call = Initial word64 word64 word64 | Propagate word64 word64
  | Load word64 word64 | Store word64 word64 | Check word64 word64

definition rt_step :: "rt_call \<Rightarrow> bounds_rt \<Rightarrow> rt_error + bounds_rt" where
  "rt_step c s = (case c of Initial p b e \<Rightarrow> metadataInitialInst p b e s
     | Propagate src dst \<Rightarrow> metadataPropagateInst src dst s
     | Load src dst \<Rightarrow> metadataLoadInst src dst s
     | Store src dst \<Rightarrow> metadataStoreInst src dst s
     | Check p n \<Rightarrow> (case metadataCheckInst s p n of Inl e \<Rightarrow> Inl e | Inr _ \<Rightarrow> Inr s))"

fun rt_run :: "rt_call list \<Rightarrow> bounds_rt \<Rightarrow> rt_error + bounds_rt" where
  "rt_run [] s = Inr s"
| "rt_run (c # cs) s = (case rt_step c s of Inl e \<Rightarrow> Inl e | Inr s' \<Rightarrow> rt_run cs s')"

text \<open>The pointer whose bounds a call sets.\<close>

fun sets_bounds :: "rt_call \<Rightarrow> word64 option" where
  "sets_bounds (Initial p b e) = Some p"
| "sets_bounds (Propagate src dst) = Some dst"
| "sets_bounds (Load src dst) = Some dst"
| "sets_bounds (Store src dst) = None"
| "sets_bounds (Check p n) = None"

section \<open>Lemmas\<close>

lemma limits: "MaxNumMDEntry = 33554431" "MaxNumPTRToMDEntry = 67108863"
  "MaxNumPTRToPropInfoEntry = 67108863"
  by (simp_all add: MaxNumMDEntry_def MaxNumPTRToMDEntry_def MaxNumPTRToPropInfoEntry_def int_max_def)

lemma ptr_index_le: "ptr_index p \<le> 0x3fffff"
  unfolding ptr_index_def by (rule word_and_le1)

text \<open>The mask keeps every index below the table sizes, so the assertions on them hold.\<close>

lemma ptr_index_in_tables [simp]:
  "ptr_index p < MaxNumPTRToMDEntry" "ptr_index p < MaxNumPTRToPropInfoEntry"
  using ptr_index_le [of p] unfolding limits by (auto intro: order.strict_trans1)

lemma table_ops [simp]:
  "getMDEntryFromCPtr s p = Inr (PTRToMDTable s (ptr_index p))"
  "getPropInfoFromCPtr s p = Inr (PTRToPropInfoTable s (ptr_index p))"
  "setMDEntryFromCPtr p m s = Inr (s\<lparr>PTRToMDTable := (PTRToMDTable s)(ptr_index p := Some m)\<rparr>)"
  "setPropInfoFromCPtr p src s = Inr (s\<lparr>PTRToPropInfoTable := (PTRToPropInfoTable s)(ptr_index p :=
       (PTRToPropInfoTable s (ptr_index p))\<lparr>pi_base := pi_base src, pi_bound := pi_bound src\<rparr>)\<rparr>)"
  by (simp_all add: getMDEntryFromCPtr_def getPropInfoFromCPtr_def setMDEntryFromCPtr_def
    setPropInfoFromCPtr_def Let_def)

lemmas rt_defs = metadataCheckInst_def metadataLoadInst_def metadataStoreInst_def
  metadataPropagateInst_def metadataInitialInst_def

text \<open>Entries in use lie below the counter, and the counter within the table.\<close>

definition rt_inv :: "bounds_rt \<Rightarrow> bool" where
  "rt_inv s \<longleftrightarrow> totalNumMDEntry s \<le> MaxNumMDEntry \<and>
     (\<forall>i m. PTRToMDTable s i = Some m \<longrightarrow> m < totalNumMDEntry s)"

lemma rt_inv_init: "rt_inv MDInitialize"
  by (simp add: rt_inv_def MDInitialize_def)

lemma rt_inv_step: "rt_inv s \<Longrightarrow> rt_step c s = Inr s' \<Longrightarrow> rt_inv s'"
proof (cases c)
  case (Initial p b e)
  assume I: "rt_inv s" and st: "rt_step c s = Inr s'"
  have n: "totalNumMDEntry s < MaxNumMDEntry"
    using st Initial by (auto simp: rt_step_def rt_defs split: if_splits)
  then have "totalNumMDEntry s \<noteq> - 1" unfolding limits by auto
  then have "totalNumMDEntry s < totalNumMDEntry s + 1" using inc_less_eq_triv_imp not_less by blast
  moreover have "totalNumMDEntry s + 1 \<le> MaxNumMDEntry" using n by (rule inc_le)
  moreover have "m < totalNumMDEntry s + 1" if "m < totalNumMDEntry s" for m
    using that calculation(1) by (rule order.strict_trans)
  ultimately show ?thesis using I st Initial n
    by (auto simp: rt_step_def rt_defs rt_inv_def Let_def split: if_splits)
qed (auto simp: rt_step_def rt_defs rt_inv_def split: option.splits if_splits)

lemma rt_bounds_step:
  assumes "rt_step c s = Inr s'" and "\<And>q. sets_bounds c = Some q \<Longrightarrow> ptr_index q \<noteq> ptr_index p"
  shows "PTRToPropInfoTable s' (ptr_index p) = PTRToPropInfoTable s (ptr_index p)"
  using assms by (cases c) (auto simp: rt_step_def rt_defs Let_def split: if_splits option.splits sum.splits)

lemma rt_bounds_run:
  assumes "rt_run cs s = Inr s'" and "\<And>c q. c \<in> set cs \<Longrightarrow> sets_bounds c = Some q \<Longrightarrow> ptr_index q \<noteq> ptr_index p"
  shows "PTRToPropInfoTable s' (ptr_index p) = PTRToPropInfoTable s (ptr_index p)"
  using assms
proof (induction cs arbitrary: s)
  case (Cons c cs)
  then obtain s1 where s1: "rt_step c s = Inr s1" "rt_run cs s1 = Inr s'" by (auto split: sum.splits)
  have "PTRToPropInfoTable s' (ptr_index p) = PTRToPropInfoTable s1 (ptr_index p)"
    by (rule Cons.IH [OF s1(2)]) (rule Cons.prems(2), simp_all)
  moreover have "PTRToPropInfoTable s1 (ptr_index p) = PTRToPropInfoTable s (ptr_index p)"
    by (rule rt_bounds_step [OF s1(1)]) (rule Cons.prems(2), simp_all)
  ultimately show ?case by simp
qed simp

lemma rt_inv_run: "rt_inv s \<Longrightarrow> rt_run cs s = Inr s' \<Longrightarrow> rt_inv s'"
proof (induction cs arbitrary: s)
  case (Cons c cs)
  then show ?case using rt_inv_step by (auto split: sum.splits)
qed simp

section \<open>Properties\<close>

text \<open>From the initialised tables on, a run only fails by a pointer without metadata, an access out
  of bounds, or the metadata table being full: the assertions on the pointer indices hold for every
  pointer, and every metadata entry a pointer refers to has been allocated.\<close>

theorem rt_run_errors:
  assumes "rt_run cs MDInitialize = Inr s"
  shows "totalNumMDEntry s \<le> MaxNumMDEntry \<and>
    (\<forall>p m. getMDEntryFromCPtr s p = Inr (Some m) \<longrightarrow> m < totalNumMDEntry s) \<and>
    (rt_step c s = Inl OutOfTable \<longrightarrow>
      (\<exists>p b e. c = Initial p b e) \<and> totalNumMDEntry s = MaxNumMDEntry)"
proof -
  have I: "rt_inv s" by (rule rt_inv_run [OF rt_inv_init assms])
  then show ?thesis
    by (cases c) (auto simp: rt_inv_def rt_step_def rt_defs Let_def split: option.splits if_splits)
qed

definition one_object :: bounds_rt where
  "one_object = (case rt_run [Initial 16 16 32] MDInitialize of Inr s \<Rightarrow> s | Inl _ \<Rightarrow> MDInitialize)"

lemma one_object_run: "rt_run [Initial 16 16 32] MDInitialize = Inr one_object"
  by (simp add: one_object_def rt_step_def metadataInitialInst_def MDInitialize_def limits Let_def)

theorem rt_run_errors_witness:
  "totalNumMDEntry one_object \<le> MaxNumMDEntry \<and> rt_step (Check 0 0) one_object \<noteq> Inl OutOfTable"
  using rt_run_errors [OF one_object_run, of "Check 0 0"] by blast

text \<open>C27: The bounds given to a pointer at its initialisation are the bounds it is checked against
  after any run in which no call sets the bounds of a pointer with the same table index.\<close>

theorem bounds_persist:
  assumes "rt_run (Initial p base bound # cs) s = Inr s'"
    and "\<And>c q. c \<in> set cs \<Longrightarrow> sets_bounds c = Some q \<Longrightarrow> ptr_index q \<noteq> ptr_index p"
    and "ptr_index a = ptr_index p"
  shows "metadataCheckInst s' a n = (if a < base \<or> a + n > bound then Inl BoundOverflow else Inr ())"
proof -
  obtain s1 where s1: "metadataInitialInst p base bound s = Inr s1" and r: "rt_run cs s1 = Inr s'"
    using assms(1) by (auto simp: rt_step_def split: sum.splits)
  have "PTRToPropInfoTable s1 (ptr_index p) = \<lparr>pi_base = base, pi_bound = bound\<rparr>"
    using s1 by (auto simp: metadataInitialInst_def Let_def split: if_splits)
  then show ?thesis
    using rt_bounds_run [OF r, of p] assms(2,3) by (simp add: metadataCheckInst_def)
qed

lemma example_indices: "ptr_index 16 = 2" "ptr_index 40 = 5" "ptr_index (16 + 0x2000000) = 2"
  by (simp_all add: ptr_index_def)

theorem bounds_persist_witness:
  "\<exists>s'. rt_run [Initial 16 16 32, Initial 40 40 48, Propagate 16 40] MDInitialize = Inr s' \<and>
    metadataCheckInst s' 16 17 = Inl BoundOverflow \<and> metadataCheckInst s' 16 16 = Inr ()"
proof -
  obtain s' where r: "rt_run [Initial 16 16 32, Initial 40 40 48, Propagate 16 40] MDInitialize = Inr s'"
    by (simp add: rt_step_def metadataInitialInst_def metadataPropagateInst_def MDInitialize_def
      limits Let_def)
  have o: "ptr_index q \<noteq> ptr_index 16"
    if "c \<in> set [Initial 40 40 48, Propagate 16 40]" "sets_bounds c = Some q" for c q
    using that by (auto simp: example_indices)
  show ?thesis
    using bounds_persist [OF r o refl, where n = 17] bounds_persist [OF r o refl, where n = 16] r by simp
qed

text \<open>As long as the end of the access does not wrap, the check accepts exactly the accesses that
  lie inside the recorded bounds, as ranges of natural numbers. An access whose end wraps past the
  top of the address space is accepted whenever the wrapped end is below the bound, whatever its
  size.\<close>

theorem metadataCheckInst_range:
  "metadataCheckInst s p n = Inr () \<longleftrightarrow>
     unat (pi_base (PTRToPropInfoTable s (ptr_index p))) \<le> unat p \<and>
     (unat p + unat n) mod 2 ^ 64 \<le> unat (pi_bound (PTRToPropInfoTable s (ptr_index p)))"
  by (auto simp: metadataCheckInst_def word_less_nat_alt unat_word_ariths not_less)

text \<open>The table index keeps 22 bits of the address. Whatever an initialised pointer \<open>p\<close> was bound
  to, initialising a pointer with the same index replaces it, and an access through \<open>p\<close> inside
  its own object is then reported out of bounds.\<close>

theorem colliding_pointer_rejected:
  assumes "ptr_index q = ptr_index p" and "base \<le> p" "p + n \<le> bound" and "p < base'"
    and "rt_run [Initial p base bound, Initial q base' bound'] s = Inr s'"
  shows "metadataCheckInst s' p n = Inl BoundOverflow"
  using assms(1,4,5)
  by (auto simp: rt_step_def metadataInitialInst_def metadataCheckInst_def Let_def split: if_splits)

theorem colliding_pointer_rejected_witness:
  "\<exists>s'. rt_run [Initial 16 16 32, Initial (16 + 0x2000000) (16 + 0x2000000) (32 + 0x2000000)] MDInitialize
      = Inr s' \<and> metadataCheckInst s' 16 8 = Inl BoundOverflow"
proof -
  obtain s' where r: "rt_run [Initial 16 16 32,
      Initial (16 + 0x2000000) (16 + 0x2000000) (32 + 0x2000000)] MDInitialize = Inr s'"
    by (simp add: rt_step_def metadataInitialInst_def MDInitialize_def limits Let_def)
  have i: "ptr_index (16 + 0x2000000) = ptr_index 16" by (simp only: example_indices)
  show ?thesis using colliding_pointer_rejected [OF i _ _ _ r, where n = 8] r by simp
qed

text \<open>A pointer that is stored into an object and loaded back through the object's address has
  the bounds it had when it was stored, whatever slots the three pointers occupy; the store
  overwrites the bounds in the object's own metadata entry.\<close>

theorem store_load_roundtrip:
  assumes "getMDEntryFromCPtr s dst = Inr (Some m)"
  shows "\<exists>s1 s2. metadataStoreInst src dst s = Inr s1 \<and> metadataLoadInst dst r s1 = Inr s2 \<and>
    getPropInfoFromCPtr s2 r = getPropInfoFromCPtr s src \<and>
    md_base (MDTable s1 m) = pi_base (PTRToPropInfoTable s (ptr_index src)) \<and>
    md_bound (MDTable s1 m) = pi_bound (PTRToPropInfoTable s (ptr_index src))"
  using assms by (simp add: metadataStoreInst_def metadataLoadInst_def prop_info.equality)

theorem store_load_roundtrip_witness:
  "\<exists>s1 s2. metadataStoreInst 40 16 one_object = Inr s1 \<and> metadataLoadInst 16 48 s1 = Inr s2 \<and>
    getPropInfoFromCPtr s2 48 = getPropInfoFromCPtr one_object 40"
proof -
  have "getMDEntryFromCPtr one_object 16 = Inr (Some 0)"
    by (simp add: one_object_def rt_step_def metadataInitialInst_def MDInitialize_def limits Let_def)
  from store_load_roundtrip [OF this, of 40 48] show ?thesis by blast
qed

text \<open>\<open>findMetaData\<close> returns the first entry in use whose range contains the pointer, and none
  exactly when no entry in use contains it.\<close>

theorem findMetaData_first:
  "case findMetaData s p of
     None \<Rightarrow> {i. i < totalNumMDEntry s \<and> md_base (MDTable s i) \<le> p \<and> p < md_bound (MDTable s i)} = {}
   | Some i \<Rightarrow> i < totalNumMDEntry s \<and> md_base (MDTable s i) \<le> p \<and> p < md_bound (MDTable s i) \<and>
       {j. j < i \<and> md_base (MDTable s j) \<le> p \<and> p < md_bound (MDTable s j)} = {}"
proof -
  let ?in = "\<lambda>i. md_base (MDTable s i) \<le> p \<and> p < md_bound (MDTable s i)"
  have u: "unat (word_of_nat k :: word64) = k" if "k < unat (totalNumMDEntry s)" for k
    using that by (intro le_unat_uoi [of _ "totalNumMDEntry s"]) simp
  have none: "findMetaData s p = None \<longleftrightarrow> (\<forall>i. i < totalNumMDEntry s \<longrightarrow> \<not> ?in i)"
  proof
    assume n: "findMetaData s p = None"
    have *: "\<forall>k<unat (totalNumMDEntry s). \<not> ?in (word_of_nat k)"
      using n by (auto simp: findMetaData_def find_None_iff)
    have "\<not> ?in i" if "i < totalNumMDEntry s" for i
    proof -
      have "unat i < unat (totalNumMDEntry s)" using that by (simp add: word_less_nat_alt)
      with * have "\<not> ?in (word_of_nat (unat i))" by blast
      then show ?thesis by simp
    qed
    then show "\<forall>i. i < totalNumMDEntry s \<longrightarrow> \<not> ?in i" by blast
  next
    assume "\<forall>i. i < totalNumMDEntry s \<longrightarrow> \<not> ?in i"
    then show "findMetaData s p = None"
      using u by (auto simp: findMetaData_def find_None_iff word_less_nat_alt)
  qed
  have some: "i < totalNumMDEntry s \<and> ?in i \<and> (\<forall>j. j < i \<longrightarrow> \<not> ?in j)" if i: "findMetaData s p = Some i" for i
  proof -
    obtain k where k: "k < unat (totalNumMDEntry s)" "?in (word_of_nat k)" "i = word_of_nat k"
      "\<And>j. j < k \<Longrightarrow> \<not> ?in (word_of_nat j)"
      using i by (auto simp: findMetaData_def find_Some_iff)
    have "\<not> ?in j" if "j < i" for j
      using that k(4) [of "unat j"] u [OF k(1)] by (simp add: k(3) word_less_nat_alt)
    then show ?thesis using k u [OF k(1)] by (simp add: word_less_nat_alt)
  qed
  show ?thesis using none some by (auto split: option.split)
qed

text \<open>The allocator fails when \<open>malloc\<close> does or when the metadata table is full; otherwise an access
  to the new object is accepted exactly when it lies in the allocated range.\<close>

theorem dvf_malloc_spec:
  assumes "totalNumMDEntry s < MaxNumMDEntry"
  shows "\<exists>s'. dvf_malloc (Some p) sz s = Inr (p, s') \<and> dvf_malloc None sz s = Inl NoMemory \<and>
    (metadataCheckInst s' p n = Inr () \<longleftrightarrow> p + n \<le> p + sz)"
  using assms by (auto simp: dvf_malloc_def metadataInitialInst_def metadataCheckInst_def Let_def)

theorem dvf_malloc_spec_witness:
  "\<exists>s'. dvf_malloc (Some 64) 16 MDInitialize = Inr (64, s') \<and> metadataCheckInst s' 64 16 = Inr ()"
proof -
  have "totalNumMDEntry MDInitialize < MaxNumMDEntry" by (simp add: MDInitialize_def limits)
  from dvf_malloc_spec [OF this, of 64 16 16] show ?thesis by auto
qed

end
