(* ===== verification/SaberRT.thy ===== *)
theory SaberRT
  imports Prelude
begin

text \<open>
  The memory-leak runtime \<open>lib/RuntimeLib/SaberRT.c\<close>: two statically sized tables that log every
  allocation and every release that an instrumented program reports. The tables are written at
  a counter that is not compared with their size; a write past the end is \<open>None\<close>.
\<close>

type_synonym addr = "64 word"

record saber_entry =
  se_addr :: addr
  se_size :: "64 word"

record saber_rt =
  MemAllocTable :: "saber_entry list"
  MemFreeTable :: "saber_entry list"
  NumAllocEntry :: nat
  NumFreedEntry :: nat

definition saber_max :: nat where
  "saber_max = 2147483647 div 2 ^ 6"

definition saber_new :: saber_rt where
  "saber_new = \<lparr>MemAllocTable = replicate saber_max \<lparr>se_addr = 0, se_size = 0\<rparr>,
     MemFreeTable = replicate saber_max \<lparr>se_addr = 0, se_size = 0\<rparr>,
     NumAllocEntry = 0, NumFreedEntry = 0\<rparr>"

definition table_write :: "saber_entry list \<Rightarrow> nat \<Rightarrow> saber_entry \<Rightarrow> saber_entry list option" where
  "table_write t i e = (if i < length t then Some (t[i := e]) else None)"

definition saber_malloc :: "addr \<Rightarrow> 64 word \<Rightarrow> saber_rt \<Rightarrow> saber_rt option" where
  "saber_malloc a n s = map_option (\<lambda>t. s\<lparr>MemAllocTable := t, NumAllocEntry := NumAllocEntry s + 1\<rparr>)
     (table_write (MemAllocTable s) (NumAllocEntry s) \<lparr>se_addr = a, se_size = n\<rparr>)"

definition saber_free :: "addr \<Rightarrow> 64 word \<Rightarrow> saber_rt \<Rightarrow> saber_rt option" where
  "saber_free a n s = map_option (\<lambda>t. s\<lparr>MemFreeTable := t, NumFreedEntry := NumFreedEntry s + 1\<rparr>)
     (table_write (MemFreeTable s) (NumFreedEntry s) \<lparr>se_addr = a, se_size = n\<rparr>)"

datatype saber_call = SMalloc addr "64 word" | SFree addr "64 word"

fun saber_run :: "saber_call list \<Rightarrow> saber_rt \<Rightarrow> saber_rt option" where
  "saber_run [] s = Some s"
| "saber_run (SMalloc a n # cs) s = Option.bind (saber_malloc a n s) (saber_run cs)"
| "saber_run (SFree a n # cs) s = Option.bind (saber_free a n s) (saber_run cs)"

fun mallocs :: "saber_call list \<Rightarrow> saber_entry list" where
  "mallocs [] = []"
| "mallocs (SMalloc a n # cs) = \<lparr>se_addr = a, se_size = n\<rparr> # mallocs cs"
| "mallocs (SFree a n # cs) = mallocs cs"

fun frees :: "saber_call list \<Rightarrow> saber_entry list" where
  "frees [] = []"
| "frees (SMalloc a n # cs) = frees cs"
| "frees (SFree a n # cs) = \<lparr>se_addr = a, se_size = n\<rparr> # frees cs"

text \<open>The part of a table in use grows by what is written.\<close>

lemma take_table_write:
  "table_write t i e = Some t' \<Longrightarrow> take (Suc i) t' = take i t @ [e] \<and> length t' = length t"
  by (auto simp: table_write_def take_Suc_conv_app_nth split: if_splits)

lemma saber_run_tables:
  "saber_run cs s = Some t \<Longrightarrow>
    take (NumAllocEntry t) (MemAllocTable t) = take (NumAllocEntry s) (MemAllocTable s) @ mallocs cs \<and>
    take (NumFreedEntry t) (MemFreeTable t) = take (NumFreedEntry s) (MemFreeTable s) @ frees cs \<and>
    NumAllocEntry t = NumAllocEntry s + length (mallocs cs) \<and>
    NumFreedEntry t = NumFreedEntry s + length (frees cs)"
proof (induction cs s rule: saber_run.induct)
  case (2 a n cs s)
  then obtain s1 where s1: "saber_malloc a n s = Some s1" "saber_run cs s1 = Some t"
    by (auto split: bind_splits)
  from s1(1) obtain tb where tb: "table_write (MemAllocTable s) (NumAllocEntry s) \<lparr>se_addr = a, se_size = n\<rparr> = Some tb"
    "s1 = s\<lparr>MemAllocTable := tb, NumAllocEntry := NumAllocEntry s + 1\<rparr>" by (auto simp: saber_malloc_def)
  show ?case using 2(1) [OF s1] take_table_write [OF tb(1)] by (auto simp: tb(2))
next
  case (3 a n cs s)
  then obtain s1 where s1: "saber_free a n s = Some s1" "saber_run cs s1 = Some t"
    by (auto split: bind_splits)
  from s1(1) obtain tb where tb: "table_write (MemFreeTable s) (NumFreedEntry s) \<lparr>se_addr = a, se_size = n\<rparr> = Some tb"
    "s1 = s\<lparr>MemFreeTable := tb, NumFreedEntry := NumFreedEntry s + 1\<rparr>" by (auto simp: saber_free_def)
  show ?case using 3(1) [OF s1] take_table_write [OF tb(1)] by (auto simp: tb(2))
qed simp

lemma saber_run_defined:
  "saber_run cs s \<noteq> None \<longleftrightarrow>
    (NumAllocEntry s + length (mallocs cs) \<le> length (MemAllocTable s) \<or> mallocs cs = []) \<and>
    (NumFreedEntry s + length (frees cs) \<le> length (MemFreeTable s) \<or> frees cs = [])"
proof (induction cs s rule: saber_run.induct)
  case (2 a n cs s)
  show ?case
  proof (cases "NumAllocEntry s < length (MemAllocTable s)")
    case True
    then show ?thesis using 2 by (auto simp: saber_malloc_def table_write_def)
  next
    case False
    then show ?thesis by (auto simp: saber_malloc_def table_write_def)
  qed
next
  case (3 a n cs s)
  show ?case
  proof (cases "NumFreedEntry s < length (MemFreeTable s)")
    case True
    then show ?thesis using 3 by (auto simp: saber_free_def table_write_def)
  next
    case False
    then show ?thesis by (auto simp: saber_free_def table_write_def)
  qed
qed simp

section \<open>Properties\<close>

text \<open>The runtime logs every allocation and every release in order as long as neither table has
  more than 33554431 entries to take; the first call past that writes outside the table, since the
  counters are never compared with the table size.\<close>

theorem saber_run_log:
  "case saber_run cs saber_new of
     None \<Rightarrow> 33554431 < length (mallocs cs) \<or> 33554431 < length (frees cs)
   | Some t \<Rightarrow> length (mallocs cs) \<le> 33554431 \<and> length (frees cs) \<le> 33554431 \<and>
      take (NumAllocEntry t) (MemAllocTable t) = mallocs cs \<and>
      take (NumFreedEntry t) (MemFreeTable t) = frees cs"
  using saber_run_defined [of cs saber_new] saber_run_tables [of cs saber_new]
  by (auto simp: saber_new_def saber_max_def not_le split: option.split)

end
