(* ===== verification/StTable.thy ===== *)
theory StTable
  imports Prelude
begin

text \<open>
  The hash tables of \<open>lib/CUDD/st.c\<close>. A bin is the list of its entries in chain order. The
  functions that allocate take the outcome of each allocation as an argument, in the order of
  the calls; \<open>OutOfMem\<close> carries the table as a failed allocation leaves it. \<open>OutOfBins\<close> is a hash value outside the array of bins; \<open>DanglingChain\<close> is a
  chain that is left with a pointer to a freed entry.
\<close>

unbundle bit_operations_syntax

section \<open>Tables\<close>

record ('k, 'v) st_table =
  st_compare :: "'k \<Rightarrow> 'k \<Rightarrow> int"
  st_hash :: "'k \<Rightarrow> int \<Rightarrow> int"
  num_bins :: nat
  num_entries :: nat
  max_density :: int
  reorder_flag :: bool
  grow_bins :: "nat \<Rightarrow> nat"
  bins :: "('k \<times> 'v) list list"

datatype ('k, 'v) st_error = OutOfBins | DanglingChain | OutOfMem "('k, 'v) st_table"

text \<open>
  \<open>grow_bins n\<close> is \<open>(int) (grow_factor * n)\<close>. The two flags of the constructor are the
  outcomes of its two allocations.
\<close>

definition st_init_table_with_params ::
    "('k \<Rightarrow> 'k \<Rightarrow> int) \<Rightarrow> ('k \<Rightarrow> int \<Rightarrow> int) \<Rightarrow> int \<Rightarrow> int \<Rightarrow> (nat \<Rightarrow> nat) \<Rightarrow> bool \<Rightarrow> bool \<Rightarrow> bool \<Rightarrow>
     ('k, 'v) st_table option" where
  "st_init_table_with_params cmp h sz density grow reorder a1 a2 =
     (if \<not> a1 then None
      else let n = nat (if sz \<le> 0 then 1 else sz) in
        if \<not> a2 then None
        else Some \<lparr>st_compare = cmp, st_hash = h, num_bins = n, num_entries = 0,
          max_density = density, reorder_flag = reorder, grow_bins = grow, bins = replicate n []\<rparr>)"

definition st_init_table :: "('k \<Rightarrow> 'k \<Rightarrow> int) \<Rightarrow> ('k \<Rightarrow> int \<Rightarrow> int) \<Rightarrow> bool \<Rightarrow> bool \<Rightarrow>
    ('k, 'v) st_table option" where
  "st_init_table cmp h = st_init_table_with_params cmp h 11 5 (\<lambda>n. 2 * n) False"

definition EQUAL :: "('k, 'v) st_table \<Rightarrow> 'k \<Rightarrow> 'k \<Rightarrow> bool" where
  "EQUAL t x y \<longleftrightarrow> st_compare t x y = 0"

definition do_hash :: "'k \<Rightarrow> ('k, 'v) st_table \<Rightarrow> int" where
  "do_hash k t = st_hash t k (int (num_bins t))"

definition in_bins :: "('k, 'v) st_table \<Rightarrow> int \<Rightarrow> bool" where
  "in_bins t h \<longleftrightarrow> 0 \<le> h \<and> h < int (num_bins t)"

text \<open>The walk along a chain: what lies before the first entry with the key, the entry, and the rest.\<close>

fun chain_find :: "('k \<Rightarrow> bool) \<Rightarrow> ('k \<times> 'v) list \<Rightarrow> (('k \<times> 'v) list \<times> ('k \<times> 'v) \<times> ('k \<times> 'v) list) option" where
  "chain_find p [] = None"
| "chain_find p (e # es) = (if p (fst e) then Some ([], e, es)
     else map_option (\<lambda>(pre, x, post). (e # pre, x, post)) (chain_find p es))"

definition set_bin :: "nat \<Rightarrow> ('k \<times> 'v) list \<Rightarrow> ('k, 'v) st_table \<Rightarrow> ('k, 'v) st_table" where
  "set_bin h c t = t\<lparr>bins := (bins t)[h := c]\<rparr>"

text \<open>\<open>FIND_ENTRY\<close>: the entry and what precedes and follows it in its chain after a reordering.\<close>

definition FIND_ENTRY :: "('k, 'v) st_table \<Rightarrow> int \<Rightarrow> 'k \<Rightarrow>
    ('k, 'v) st_error + (('k \<times> 'v) list \<times> ('k \<times> 'v) \<times> ('k \<times> 'v) list) option" where
  "FIND_ENTRY t h k = (if \<not> in_bins t h then Inl OutOfBins
     else Inr (case chain_find (EQUAL t k) (bins t ! nat h) of None \<Rightarrow> None
       | Some (pre, e, post) \<Rightarrow> Some (if reorder_flag t then ([], e, pre @ post) else (pre, e, post))))"

section \<open>Growing\<close>

fun rehash_chain :: "('k \<times> 'v) list \<Rightarrow> ('k, 'v) st_table \<Rightarrow> ('k, 'v) st_error + ('k, 'v) st_table" where
  "rehash_chain [] t = Inr t"
| "rehash_chain (e # es) t = (let h = do_hash (fst e) t in
     if \<not> in_bins t h then Inl OutOfBins
     else rehash_chain es (set_bin (nat h) (e # bins t ! nat h) (t\<lparr>num_entries := num_entries t + 1\<rparr>)))"

fun rehash_bins :: "('k \<times> 'v) list list \<Rightarrow> ('k, 'v) st_table \<Rightarrow> ('k, 'v) st_error + ('k, 'v) st_table" where
  "rehash_bins [] t = Inr t"
| "rehash_bins (c # cs) t = (case rehash_chain c t of Inl e \<Rightarrow> Inl e | Inr t' \<Rightarrow> rehash_bins cs t')"

definition grown_size :: "('k, 'v) st_table \<Rightarrow> nat" where
  "grown_size t = (let n = grow_bins t (num_bins t) in if n mod 2 = 0 then n + 1 else n)"

definition rehash :: "bool \<Rightarrow> ('k, 'v) st_table \<Rightarrow> ('k, 'v) st_error + ('k, 'v) st_table" where
  "rehash a t = (if \<not> a then Inl (OutOfMem t)
     else rehash_bins (bins t) (t\<lparr>num_bins := grown_size t, num_entries := 0,
       bins := replicate (grown_size t) []\<rparr>))"

definition too_dense :: "('k, 'v) st_table \<Rightarrow> bool" where
  "too_dense t \<longleftrightarrow> int (num_entries t div num_bins t) \<ge> max_density t"

text \<open>A new entry at the front of its bin, after growing the table when it is too dense.\<close>

definition add_entry :: "bool \<Rightarrow> bool \<Rightarrow> 'k \<Rightarrow> 'v \<Rightarrow> ('k, 'v) st_table \<Rightarrow> ('k, 'v) st_error + ('k, 'v) st_table" where
  "add_entry a1 a2 k v t =
     (case (if too_dense t then rehash a1 t else Inr t) of Inl e \<Rightarrow> Inl e
      | Inr t1 \<Rightarrow> let h = do_hash k t1 in
          if \<not> a2 then Inl (OutOfMem t1)
          else if \<not> in_bins t1 h then Inl OutOfBins
          else Inr (set_bin (nat h) ((k, v) # bins t1 ! nat h) (t1\<lparr>num_entries := num_entries t1 + 1\<rparr>)))"

section \<open>Operations\<close>

text \<open>The result is whether the key was found and its record.\<close>

definition st_lookup :: "('k, 'v) st_table \<Rightarrow> 'k \<Rightarrow> ('k, 'v) st_error + ('v option \<times> ('k, 'v) st_table)" where
  "st_lookup t k = (let h = do_hash k t in case FIND_ENTRY t h k of Inl e \<Rightarrow> Inl e
     | Inr None \<Rightarrow> Inr (None, t)
     | Inr (Some (pre, e, post)) \<Rightarrow> Inr (Some (snd e), set_bin (nat h) (pre @ e # post) t))"

definition st_lookup_int :: "('k, 64 word) st_table \<Rightarrow> 'k \<Rightarrow> ('k, 64 word) st_error + (32 word option \<times> ('k, 64 word) st_table)" where
  "st_lookup_int t k = (let h = do_hash k t in case FIND_ENTRY t h k of Inl e \<Rightarrow> Inl e
     | Inr None \<Rightarrow> Inr (None, t)
     | Inr (Some (pre, e, post)) \<Rightarrow> Inr (Some (ucast (snd e)), set_bin (nat h) (pre @ e # post) t))"

text \<open>The flag of the result is the return value: whether an entry was overwritten.\<close>

definition st_insert :: "bool \<Rightarrow> bool \<Rightarrow> ('k, 'v) st_table \<Rightarrow> 'k \<Rightarrow> 'v \<Rightarrow> ('k, 'v) st_error + (bool \<times> ('k, 'v) st_table)" where
  "st_insert a1 a2 t k v = (let h = do_hash k t in case FIND_ENTRY t h k of Inl e \<Rightarrow> Inl e
     | Inr None \<Rightarrow> (case add_entry a1 a2 k v t of Inl e \<Rightarrow> Inl e | Inr t' \<Rightarrow> Inr (False, t'))
     | Inr (Some (pre, e, post)) \<Rightarrow> Inr (True, set_bin (nat h) (pre @ (fst e, v) # post) t))"

definition st_add_direct :: "bool \<Rightarrow> bool \<Rightarrow> ('k, 'v) st_table \<Rightarrow> 'k \<Rightarrow> 'v \<Rightarrow> ('k, 'v) st_error + ('k, 'v) st_table" where
  "st_add_direct a1 a2 t k v = add_entry a1 a2 k v t"

text \<open>
  \<open>st_find_or_add\<close> and \<open>st_find\<close> hand out the address of a record: the bin and the place in
  its chain. A write through it is \<open>slot_write\<close>.
\<close>

type_synonym st_slot = "nat \<times> nat"

definition slot_write :: "st_slot \<Rightarrow> 'v \<Rightarrow> ('k, 'v) st_table \<Rightarrow> ('k, 'v) st_table" where
  "slot_write s v t = (let c = bins t ! fst s in
     set_bin (fst s) (c[snd s := (fst (c ! snd s), v)]) t)"

definition st_find_or_add :: "bool \<Rightarrow> bool \<Rightarrow> 'v \<Rightarrow> ('k, 'v) st_table \<Rightarrow> 'k \<Rightarrow>
    ('k, 'v) st_error + (bool \<times> st_slot \<times> ('k, 'v) st_table)" where
  "st_find_or_add a1 a2 null t k = (let h = do_hash k t in case FIND_ENTRY t h k of Inl e \<Rightarrow> Inl e
     | Inr None \<Rightarrow> (case add_entry a1 a2 k null t of Inl e \<Rightarrow> Inl e
        | Inr t' \<Rightarrow> Inr (False, (nat (do_hash k t'), 0), t'))
     | Inr (Some (pre, e, post)) \<Rightarrow>
         Inr (True, (nat h, length pre), set_bin (nat h) (pre @ e # post) t))"

definition st_find :: "('k, 'v) st_table \<Rightarrow> 'k \<Rightarrow> ('k, 'v) st_error + (st_slot option \<times> ('k, 'v) st_table)" where
  "st_find t k = (let h = do_hash k t in case FIND_ENTRY t h k of Inl e \<Rightarrow> Inl e
     | Inr None \<Rightarrow> Inr (None, t)
     | Inr (Some (pre, e, post)) \<Rightarrow> Inr (Some (nat h, length pre), set_bin (nat h) (pre @ e # post) t))"

text \<open>
  \<open>st_delete\<close> unlinks through the pointer \<open>last\<close> that \<open>FIND_ENTRY\<close> leaves behind. When
  the table reorders, that pointer is the link of the entry's old predecessor: unless the
  entry was the first of its chain, the chain is then left with the freed entry at its head.
\<close>

definition st_delete :: "('k, 'v) st_table \<Rightarrow> 'k \<Rightarrow> ('k, 'v) st_error + (('k \<times> 'v) option \<times> ('k, 'v) st_table)" where
  "st_delete t k = (let h = do_hash k t in
     if \<not> in_bins t h then Inl OutOfBins
     else case chain_find (EQUAL t k) (bins t ! nat h) of None \<Rightarrow> Inr (None, t)
       | Some (pre, e, post) \<Rightarrow>
          if reorder_flag t \<and> pre \<noteq> [] then Inl DanglingChain
          else Inr (Some e, set_bin (nat h) (pre @ post) (t\<lparr>num_entries := num_entries t - 1\<rparr>)))"

definition st_delete_int :: "('k, 64 word) st_table \<Rightarrow> 'k \<Rightarrow>
    ('k, 64 word) st_error + (('k \<times> 32 word) option \<times> ('k, 64 word) st_table)" where
  "st_delete_int t k = (case st_delete t k of Inl e \<Rightarrow> Inl e
     | Inr (r, t') \<Rightarrow> Inr (map_option (\<lambda>(k, v). (k, ucast v)) r, t'))"

section \<open>Copy and iteration\<close>

text \<open>
  \<open>st_copy\<close> pushes copies to the front of the new bins, which reverses every chain. The list
  holds the outcomes of the allocations of the entries, the flags those of the table and its
  bins.
\<close>

fun copy_bins :: "bool list \<Rightarrow> ('k \<times> 'v) list list \<Rightarrow> ('k \<times> 'v) list list option" where
  "copy_bins as [] = Some []"
| "copy_bins as (c # cs) = (if list_all id (take (length c) as) \<and> length c \<le> length as
     then map_option ((#) (rev c)) (copy_bins (drop (length c) as) cs) else None)"

definition st_copy :: "bool \<Rightarrow> bool \<Rightarrow> bool list \<Rightarrow> ('k, 'v) st_table \<Rightarrow> ('k, 'v) st_table option" where
  "st_copy a1 a2 as t = (if \<not> a1 \<or> \<not> a2 then None
     else map_option (\<lambda>bs. t\<lparr>bins := bs\<rparr>) (copy_bins as (bins t)))"

datatype st_retval = ST_CONTINUE | ST_STOP | ST_DELETE

text \<open>The callback acts on a state of its own. The flag says whether it stopped the iteration.\<close>

fun foreach_chain :: "('k \<Rightarrow> 'v \<Rightarrow> 's \<Rightarrow> st_retval \<times> 's) \<Rightarrow> ('k \<times> 'v) list \<Rightarrow> 's \<Rightarrow>
    ('k \<times> 'v) list \<times> bool \<times> 's" where
  "foreach_chain f [] s = ([], False, s)"
| "foreach_chain f (e # es) s = (case f (fst e) (snd e) s of
     (ST_CONTINUE, s') \<Rightarrow> (case foreach_chain f es s' of (c, b, s'') \<Rightarrow> (e # c, b, s''))
   | (ST_STOP, s') \<Rightarrow> (e # es, True, s')
   | (ST_DELETE, s') \<Rightarrow> foreach_chain f es s')"

fun foreach_bins :: "('k \<Rightarrow> 'v \<Rightarrow> 's \<Rightarrow> st_retval \<times> 's) \<Rightarrow> ('k \<times> 'v) list list \<Rightarrow> 's \<Rightarrow>
    ('k \<times> 'v) list list \<times> bool \<times> 's" where
  "foreach_bins f [] s = ([], False, s)"
| "foreach_bins f (c # cs) s = (case foreach_chain f c s of
     (c', True, s') \<Rightarrow> (c' # cs, True, s')
   | (c', False, s') \<Rightarrow> (case foreach_bins f cs s' of (cs', b, s'') \<Rightarrow> (c' # cs', b, s'')))"

definition st_foreach :: "('k \<Rightarrow> 'v \<Rightarrow> 's \<Rightarrow> st_retval \<times> 's) \<Rightarrow> ('k, 'v) st_table \<Rightarrow> 's \<Rightarrow>
    bool \<times> ('k, 'v) st_table \<times> 's" where
  "st_foreach f t s = (case foreach_bins f (bins t) s of (bs, stop, s') \<Rightarrow>
     (\<not> stop, t\<lparr>bins := bs, num_entries := num_entries t -
       (length (concat (bins t)) - length (concat bs))\<rparr>, s'))"

text \<open>A generator: the rest of the chain it is in, and the next bin to look at.\<close>

record ('k, 'v) st_generator =
  gen_table :: "('k, 'v) st_table"
  gen_entry :: "('k \<times> 'v) list"
  gen_index :: nat

definition st_init_gen :: "bool \<Rightarrow> ('k, 'v) st_table \<Rightarrow> ('k, 'v) st_generator option" where
  "st_init_gen a t = (if \<not> a then None else Some \<lparr>gen_table = t, gen_entry = [], gen_index = 0\<rparr>)"

fun next_bin :: "nat \<Rightarrow> ('k \<times> 'v) list list \<Rightarrow> (nat \<times> ('k \<times> 'v) list) option" where
  "next_bin i [] = None"
| "next_bin i (c # cs) = (if c \<noteq> [] then Some (i, c) else next_bin (i + 1) cs)"

definition st_gen :: "('k, 'v) st_generator \<Rightarrow> (('k \<times> 'v) \<times> ('k, 'v) st_generator) option" where
  "st_gen g = (case gen_entry g of
     e # es \<Rightarrow> Some (e, g\<lparr>gen_entry := es\<rparr>)
   | [] \<Rightarrow> (case next_bin (gen_index g) (drop (gen_index g) (bins (gen_table g))) of
       Some (i, e # es) \<Rightarrow> Some (e, g\<lparr>gen_index := i + 1, gen_entry := es\<rparr>)
     | _ \<Rightarrow> None))"

definition st_gen_int :: "('k, 64 word) st_generator \<Rightarrow> (('k \<times> 32 word) \<times> ('k, 64 word) st_generator) option" where
  "st_gen_int g = map_option (\<lambda>(e, g'). ((fst e, ucast (snd e)), g')) (st_gen g)"

section \<open>Predefined hash and comparison functions\<close>

type_synonym cptr = "64 word"

definition st_numcmp :: "cptr \<Rightarrow> cptr \<Rightarrow> int" where
  "st_numcmp x y = (if x \<noteq> y then 1 else 0)"

definition st_ptrcmp :: "cptr \<Rightarrow> cptr \<Rightarrow> int" where
  "st_ptrcmp x y = (if x \<noteq> y then 1 else 0)"

definition st_numhash :: "cptr \<Rightarrow> int \<Rightarrow> int" where
  "st_numhash x n = sint (ucast (x mod word_of_int n) :: 32 word)"

definition st_ptrhash :: "cptr \<Rightarrow> int \<Rightarrow> int" where
  "st_ptrhash x n = sint ((ucast (drop_bit 3 x) :: 32 word) mod word_of_int n)"

text \<open>
  \<open>st_strhash\<close> computes in \<open>int\<close>, wrapping around; characters are signed bytes.
\<close>

definition strhash_val :: "string \<Rightarrow> 32 word" where
  "strhash_val s = fold (\<lambda>c val. val * 997 + scast (of_char c :: 8 word)) s 0"

definition st_strhash :: "string \<Rightarrow> int \<Rightarrow> int" where
  "st_strhash s n = (let val = strhash_val s; v = (if sint val < 0 then - val else val)
     in (if sint v < 0 then - ((- sint v) mod n) else sint v mod n))"

end
