(* ===== verification/StTableMap.thy ===== *)
theory StTableMap
  imports StTable "HOL-Library.Multiset"
begin

text \<open>
  The hash tables of \<open>StTable\<close> refine finite maps. The comparison and hash functions are an
  interface: the laws they owe the table are the locale \<open>st_keys\<close>, which the predefined
  functions for numbers and pointers satisfy. Under the laws every operation keeps the
  invariant \<open>st_ok\<close> and acts on the map \<open>st_map\<close> as its name says.
\<close>

section \<open>The abstraction\<close>

definition key_class :: "('k, 'v) st_table \<Rightarrow> 'k \<Rightarrow> 'k set" where
  "key_class t k = {x. EQUAL t k x}"

definition entries :: "('k, 'v) st_table \<Rightarrow> ('k \<times> 'v) list" where
  "entries t = concat (bins t)"

definition st_map :: "('k, 'v) st_table \<Rightarrow> 'k \<Rightarrow> 'v option" where
  "st_map t k = map_of (map (\<lambda>e. (key_class t (fst e), snd e)) (entries t)) (key_class t k)"

definition bins_ok :: "('k, 'v) st_table \<Rightarrow> bool" where
  "bins_ok t \<longleftrightarrow> 0 < num_bins t \<and> num_bins t < 2 ^ 31 \<and> length (bins t) = num_bins t \<and>
     (\<forall>i<num_bins t. \<forall>e\<in>set (bins t ! i). do_hash (fst e) t = int i)"

definition st_ok :: "('k, 'v) st_table \<Rightarrow> bool" where
  "st_ok t \<longleftrightarrow> bins_ok t \<and> num_entries t = length (entries t) \<and>
     distinct (map (\<lambda>e. key_class t (fst e)) (entries t))"

definition can_grow :: "('k, 'v) st_table \<Rightarrow> bool" where
  "can_grow t \<longleftrightarrow> grow_bins t (num_bins t) < 2 ^ 31 - 1"

section \<open>Lists\<close>

lemma mset_concat_update:
  "i < length cs \<Longrightarrow> mset (concat (cs[i := c])) + mset (cs ! i) = mset (concat cs) + mset c"
  by (induction cs arbitrary: i) (auto simp: nth_Cons split: nat.splits)

lemma chain_find_Some:
  "chain_find p c = Some (pre, e, post) \<Longrightarrow> c = pre @ e # post \<and> p (fst e) \<and> (\<forall>x\<in>set pre. \<not> p (fst x))"
proof (induction c arbitrary: pre)
  case (Cons a c)
  show ?case
  proof (cases "p (fst a)")
    case False
    then obtain pre' where "chain_find p c = Some (pre', e, post)" "pre = a # pre'"
      using Cons.prems by auto
    then show ?thesis using Cons.IH False by auto
  qed (use Cons.prems in auto)
qed simp

lemma chain_find_None: "chain_find p c = None \<longleftrightarrow> (\<forall>x\<in>set c. \<not> p (fst x))"
  by (induction c) auto

lemma map_of_mset:
  assumes "mset xs = mset ys" "distinct (map fst xs)"
  shows "map_of xs = map_of ys"
proof -
  have "mset (map fst xs) = mset (map fst ys)" using assms(1) by simp
  then have "distinct (map fst ys)" using assms(2) mset_eq_imp_distinct_iff by blast
  then show ?thesis using assms map_of_inject_set mset_eq_setD by blast
qed

section \<open>Entries as a multiset\<close>

lemma set_bin_simps [simp]:
  "st_compare (set_bin h c t) = st_compare t" "st_hash (set_bin h c t) = st_hash t"
  "num_bins (set_bin h c t) = num_bins t" "num_entries (set_bin h c t) = num_entries t"
  "max_density (set_bin h c t) = max_density t" "reorder_flag (set_bin h c t) = reorder_flag t"
  "grow_bins (set_bin h c t) = grow_bins t" "bins (set_bin h c t) = (bins t)[h := c]"
  by (simp_all add: set_bin_def)

lemma key_class_cong:
  "st_compare t' = st_compare t \<Longrightarrow> key_class t' = key_class t"
  by (simp add: key_class_def EQUAL_def fun_eq_iff)

lemma do_hash_simps:
  "st_hash t' = st_hash t \<Longrightarrow> num_bins t' = num_bins t \<Longrightarrow> do_hash k t' = do_hash k t"
  by (simp add: do_hash_def)

lemma do_hash_frame [simp]:
  "do_hash k (set_bin i c t) = do_hash k t"
  "do_hash k (t\<lparr>num_entries := n\<rparr>) = do_hash k t"
  by (simp_all add: do_hash_def)

lemma st_map_mset:
  assumes "st_compare t' = st_compare t" "mset (entries t') = mset (entries t)"
    and "distinct (map (\<lambda>e. key_class t (fst e)) (entries t))"
  shows "st_map t' = st_map t"
proof
  fix k
  let ?f = "\<lambda>e. (key_class t (fst e), snd e)"
  have "mset (map ?f (entries t)) = mset (map ?f (entries t'))" using assms(2) by simp
  moreover have "distinct (map fst (map ?f (entries t)))" using assms(3) by (simp add: comp_def)
  ultimately have "map_of (map ?f (entries t)) = map_of (map ?f (entries t'))" by (rule map_of_mset)
  then show "st_map t' k = st_map t k" unfolding st_map_def key_class_cong [OF assms(1)] by simp
qed

lemma entries_distinct_mset:
  assumes "mset xs = mset ys" shows "distinct (map f xs) = distinct (map f ys)"
proof -
  have "mset (map f xs) = mset (map f ys)" using assms by simp
  then show ?thesis by (rule mset_eq_imp_distinct_iff)
qed

lemma set_entries: "e \<in> set (entries t) \<longleftrightarrow> (\<exists>i<length (bins t). e \<in> set (bins t ! i))"
  by (auto simp: entries_def in_set_conv_nth) (metis nth_mem)+

lemma st_map_Some:
  assumes "distinct (map (\<lambda>e. key_class t (fst e)) (entries t))"
  shows "st_map t k = Some v \<longleftrightarrow> (\<exists>e\<in>set (entries t). key_class t (fst e) = key_class t k \<and> snd e = v)"
proof -
  have "distinct (map fst (map (\<lambda>e. (key_class t (fst e), snd e)) (entries t)))"
    using assms by (simp add: comp_def)
  then show ?thesis unfolding st_map_def by (subst map_of_eq_Some_iff) auto
qed

lemma copy_bins_rev:
  "\<forall>a\<in>set as. a \<Longrightarrow> length (concat cs) \<le> length as \<Longrightarrow> copy_bins as cs = Some (map rev cs)"
proof (induction cs arbitrary: as)
  case (Cons c cs)
  have d: "\<forall>a\<in>set (drop (length c) as). a" using Cons.prems(1) by (auto dest: in_set_dropD)
  have l: "list_all id (take (length c) as)"
    using Cons.prems(1) unfolding list_all_iff id_apply by (auto dest: in_set_takeD)
  have "length (concat cs) \<le> length (drop (length c) as)" using Cons.prems(2) by simp
  from Cons.IH [OF d this] have "copy_bins (drop (length c) as) cs = Some (map rev cs)" .
  then show ?case using l Cons.prems(2) unfolding copy_bins.simps by simp
qed simp

section \<open>The contract of the key functions\<close>

locale st_keys =
  fixes cmp :: "'k \<Rightarrow> 'k \<Rightarrow> int" and h :: "'k \<Rightarrow> int \<Rightarrow> int"
  assumes cmp_refl: "cmp x x = 0"
    and cmp_sym: "cmp x y = 0 \<Longrightarrow> cmp y x = 0"
    and cmp_trans: "cmp x y = 0 \<Longrightarrow> cmp y z = 0 \<Longrightarrow> cmp x z = 0"
    and hash_range: "0 < n \<Longrightarrow> n < 2 ^ 31 \<Longrightarrow> 0 \<le> h k n \<and> h k n < n"
    and hash_eq: "cmp x y = 0 \<Longrightarrow> h x n = h y n"
begin

definition on :: "('k, 'v) st_table \<Rightarrow> bool" where
  "on t \<longleftrightarrow> st_compare t = cmp \<and> st_hash t = h"

lemma equal_sym: "on t \<Longrightarrow> EQUAL t x y \<Longrightarrow> EQUAL t y x"
  by (simp add: EQUAL_def on_def cmp_sym)

lemma equal_trans: "on t \<Longrightarrow> EQUAL t x y \<Longrightarrow> EQUAL t y z \<Longrightarrow> EQUAL t x z"
  unfolding EQUAL_def on_def using cmp_trans by blast

lemma class_eq:
  assumes "on t"
  shows "key_class t x = key_class t y \<longleftrightarrow> EQUAL t x y"
proof
  assume "key_class t x = key_class t y"
  moreover have "y \<in> key_class t y" using assms by (simp add: key_class_def EQUAL_def on_def cmp_refl)
  ultimately show "EQUAL t x y" unfolding key_class_def by blast
next
  assume "EQUAL t x y"
  then show "key_class t x = key_class t y"
    unfolding key_class_def using equal_sym [OF assms] equal_trans [OF assms] by blast
qed

lemma hash_in: "on t \<Longrightarrow> bins_ok t \<Longrightarrow> in_bins t (do_hash k t)"
  using hash_range [of "int (num_bins t)" k] by (simp add: in_bins_def do_hash_def on_def bins_ok_def)

lemma hash_bin: "on t \<Longrightarrow> bins_ok t \<Longrightarrow> nat (do_hash k t) < length (bins t)"
  using hash_in [of t k] by (auto simp: in_bins_def bins_ok_def)

text \<open>An entry with an equal key can only be in the bin of the key's hash value.\<close>

lemma entry_bin:
  assumes "on t" "bins_ok t" "e \<in> set (entries t)" "EQUAL t k (fst e)"
  shows "e \<in> set (bins t ! nat (do_hash k t))"
proof -
  obtain i where i: "i < length (bins t)" "e \<in> set (bins t ! i)" using assms(3) by (auto simp: set_entries)
  have "do_hash (fst e) t = int i" using i assms(2) by (auto simp: bins_ok_def)
  moreover have "do_hash k t = do_hash (fst e) t"
    using assms(1,4) hash_eq by (auto simp: do_hash_def on_def EQUAL_def)
  ultimately show ?thesis using i by simp
qed

lemma find_none:
  assumes "on t" "st_ok t" "chain_find (EQUAL t k) (bins t ! nat (do_hash k t)) = None"
  shows "st_map t k = None"
proof -
  have "\<not> EQUAL t k (fst e)" if "e \<in> set (entries t)" for e
    using entry_bin [OF assms(1) _ that] assms(2,3) by (auto simp: st_ok_def chain_find_None)
  then have "key_class t (fst e) \<noteq> key_class t k" if "e \<in> set (entries t)" for e
    using that class_eq [OF assms(1)] equal_sym [OF assms(1)] by blast
  then have "st_map t k \<noteq> Some v" for v
    using assms(2) st_map_Some [of t k v] by (auto simp: st_ok_def)
  then show ?thesis by (cases "st_map t k") auto
qed

lemma find_some:
  assumes "on t" "st_ok t" "chain_find (EQUAL t k) (bins t ! nat (do_hash k t)) = Some (pre, e, post)"
  shows "st_map t k = Some (snd e) \<and> bins t ! nat (do_hash k t) = pre @ e # post \<and>
    EQUAL t k (fst e) \<and> e \<in> set (entries t)"
proof -
  note f = chain_find_Some [OF assms(3)]
  have e: "e \<in> set (entries t)"
  proof -
    have "nat (do_hash k t) < length (bins t)" using hash_bin [OF assms(1)] assms(2) by (simp add: st_ok_def)
    then show ?thesis using f unfolding set_entries by auto
  qed
  moreover have "key_class t (fst e) = key_class t k"
    using f class_eq [OF assms(1), of k "fst e"] by simp
  ultimately show ?thesis using f assms(2) st_map_Some [of t k "snd e"] by (auto simp: st_ok_def)
qed

text \<open>Putting an entry into its bin, and replacing an entry in place.\<close>

lemma entries_set_bin:
  "i < length (bins t) \<Longrightarrow> mset (entries (set_bin i c t)) + mset (bins t ! i) = mset (entries t) + mset c"
  by (simp add: entries_def mset_concat_update)

lemma bins_ok_set_bin:
  assumes "bins_ok t" and "\<forall>e\<in>set c. do_hash (fst e) t = int i"
  shows "bins_ok (set_bin i c t)"
proof -
  have "do_hash (fst e) (set_bin i c t) = int j"
    if "j < num_bins t" "e \<in> set (bins (set_bin i c t) ! j)" for j e
    using assms that by (cases "i = j") (auto simp: bins_ok_def)
  then show ?thesis using assms(1) by (simp add: bins_ok_def)
qed

definition put :: "'k \<times> 'v \<Rightarrow> ('k, 'v) st_table \<Rightarrow> ('k, 'v) st_table" where
  "put e t = set_bin (nat (do_hash (fst e) t)) (e # bins t ! nat (do_hash (fst e) t)) t"

lemma push_entry:
  assumes "on t" "bins_ok t"
  shows "on (put e t) \<and> bins_ok (put e t) \<and> mset (entries (put e t)) = add_mset e (mset (entries t))"
proof -
  let ?i = "nat (do_hash (fst e) t)"
  have i: "?i < length (bins t)" by (rule hash_bin [OF assms])
  have p: "0 \<le> do_hash (fst e) t" using hash_in [OF assms] by (simp add: in_bins_def)
  have l: "length (bins t) = num_bins t"
    and b: "\<And>i x. i < num_bins t \<Longrightarrow> x \<in> set (bins t ! i) \<Longrightarrow> do_hash (fst x) t = int i"
    using assms(2) by (simp_all add: bins_ok_def)
  have "\<forall>x\<in>set (bins t ! ?i). do_hash (fst x) t = int ?i"
    using b [of ?i] i unfolding l by blast
  moreover have "do_hash (fst e) t = int ?i" using p by simp
  ultimately have "\<forall>x\<in>set (e # bins t ! ?i). do_hash (fst x) t = int ?i" unfolding list.set by blast
  then have "bins_ok (put e t)" unfolding put_def by (rule bins_ok_set_bin [OF assms(2)])
  moreover have "mset (entries (put e t)) = add_mset e (mset (entries t))"
  proof -
    have "mset (entries (put e t)) + mset (bins t ! ?i) =
        add_mset e (mset (entries t)) + mset (bins t ! ?i)"
      using entries_set_bin [OF i, of "e # bins t ! ?i"] unfolding put_def mset.simps
      by (simp only: union_mset_add_mset_left union_mset_add_mset_right)
    then show ?thesis by (rule add_right_imp_eq)
  qed
  moreover have "on (put e t)" using assms(1) by (simp add: put_def on_def)
  ultimately show ?thesis by blast
qed

lemma rehash_chain_ok:
  "on t \<Longrightarrow> bins_ok t \<Longrightarrow> \<exists>t'. rehash_chain c t = Inr t' \<and> on t' \<and> bins_ok t' \<and>
    mset (entries t') = mset (entries t) + mset c \<and> num_entries t' = num_entries t + length c \<and>
    max_density t' = max_density t \<and> num_bins t' = num_bins t \<and> reorder_flag t' = reorder_flag t"
proof (induction c arbitrary: t)
  case (Cons e c)
  let ?t = "t\<lparr>num_entries := num_entries t + 1\<rparr>"
  have t: "on ?t" "bins_ok ?t" "do_hash k ?t = do_hash k t" "entries ?t = entries t" "bins ?t = bins t" for k
    using Cons.prems by (simp_all add: on_def bins_ok_def do_hash_def entries_def)
  let ?t1 = "put e ?t"
  have p: "on ?t1" "bins_ok ?t1" "mset (entries ?t1) = add_mset e (mset (entries t))"
    using push_entry [OF t(1,2), of e] unfolding t(4) by simp_all
  have f: "num_entries ?t1 = num_entries t + 1" "max_density ?t1 = max_density t"
    "num_bins ?t1 = num_bins t" "reorder_flag ?t1 = reorder_flag t" by (simp_all add: put_def)
  have "rehash_chain (e # c) t = rehash_chain c ?t1"
    using hash_in [OF Cons.prems] by (simp add: Let_def put_def t(3))
  with Cons.IH [OF p(1,2)] p(3) f show ?case by simp
qed simp

lemma rehash_bins_ok:
  "on t \<Longrightarrow> bins_ok t \<Longrightarrow> \<exists>t'. rehash_bins cs t = Inr t' \<and> on t' \<and> bins_ok t' \<and>
    mset (entries t') = mset (entries t) + mset (concat cs) \<and>
    num_entries t' = num_entries t + length (concat cs) \<and>
    max_density t' = max_density t \<and> num_bins t' = num_bins t \<and> reorder_flag t' = reorder_flag t"
proof (induction cs arbitrary: t)
  case (Cons c cs)
  obtain t1 where t1: "rehash_chain c t = Inr t1" "on t1" "bins_ok t1"
    "mset (entries t1) = mset (entries t) + mset c" "num_entries t1 = num_entries t + length c"
    "max_density t1 = max_density t" "num_bins t1 = num_bins t" "reorder_flag t1 = reorder_flag t"
    using rehash_chain_ok [OF Cons.prems, of c] by blast
  with Cons.IH [OF t1(2,3)] show ?case by (auto simp: ac_simps)
qed simp

text \<open>Growing keeps the entries; it fails only when the allocation does.\<close>

lemma rehash_ok:
  assumes "on t" "st_ok t" "can_grow t"
  shows "\<exists>t'. rehash True t = Inr t' \<and> on t' \<and> st_ok t' \<and> mset (entries t') = mset (entries t) \<and>
    num_bins t' = grown_size t \<and> max_density t' = max_density t \<and> reorder_flag t' = reorder_flag t"
proof -
  let ?t0 = "t\<lparr>num_bins := grown_size t, num_entries := 0, bins := replicate (grown_size t) []\<rparr>"
  have g: "0 < grown_size t" "grown_size t < 2 ^ 31"
    using assms(3) by (auto simp: grown_size_def can_grow_def Let_def intro!: Nat.gr0I)
  have o: "on ?t0" using assms(1) by (simp add: on_def)
  have "bins_ok ?t0" using g by (simp add: bins_ok_def)
  from rehash_bins_ok [OF o this, of "bins t"] obtain t' where t': "rehash_bins (bins t) ?t0 = Inr t'"
    "on t'" "bins_ok t'" "mset (entries t') = mset (entries t)" "num_entries t' = length (entries t)"
    "max_density t' = max_density t" "num_bins t' = grown_size t" "reorder_flag t' = reorder_flag t"
    by (auto simp: entries_def)
  have c: "st_compare t' = st_compare t" using t'(2) assms(1) by (simp add: on_def)
  have "length (entries t') = length (entries t)" using t'(4) by (metis size_mset)
  then have "st_ok t'"
    using t'(3,5) assms(2) entries_distinct_mset [OF t'(4), of "\<lambda>e. key_class t (fst e)"]
    unfolding st_ok_def key_class_cong [OF c] by simp
  then show ?thesis using t' by (simp add: rehash_def)
qed

text \<open>Adding an entry whose key is new.\<close>

lemma st_map_add:
  assumes "on t" "st_ok t" "st_compare t' = st_compare t" "mset (entries t') = add_mset (k, v) (mset (entries t))"
    and "st_map t k = None"
  shows "distinct (map (\<lambda>e. key_class t (fst e)) (entries t')) \<and>
    st_map t' = (\<lambda>x. if EQUAL t k x then Some v else st_map t x)"
proof -
  let ?f = "\<lambda>e. (key_class t (fst e), snd e)"
  have m: "mset (entries t') = mset ((k, v) # entries t)" using assms(4) by simp
  have n: "key_class t k \<notin> (\<lambda>e. key_class t (fst e)) ` set (entries t)"
    using assms(5) by (auto simp: st_map_def map_of_eq_None_iff image_image)
  have d: "distinct (map (\<lambda>e. key_class t (fst e)) ((k, v) # entries t))"
    using n assms(2) by (simp add: st_ok_def)
  have "mset (map ?f ((k, v) # entries t)) = mset (map ?f (entries t'))" using m by simp
  moreover have "distinct (map fst (map ?f ((k, v) # entries t)))" using d by (simp add: comp_def)
  ultimately have e: "map_of (map ?f (entries t')) = map_of (map ?f ((k, v) # entries t))"
    using map_of_mset by metis
  have "st_map t' x = (if EQUAL t k x then Some v else st_map t x)" for x
    unfolding st_map_def key_class_cong [OF assms(3)] e
    using class_eq [OF assms(1), of x k] equal_sym [OF assms(1)] by auto
  then show ?thesis using d entries_distinct_mset [OF m, of "\<lambda>e. key_class t (fst e)"] by auto
qed

lemma add_entry_ok:
  assumes "on t" "st_ok t" "can_grow t" "st_map t k = None"
  shows "\<exists>t'. add_entry True True k v t = Inr t' \<and> on t' \<and> st_ok t' \<and>
    st_map t' = (\<lambda>x. if EQUAL t k x then Some v else st_map t x) \<and> reorder_flag t' = reorder_flag t \<and>
    bins t' ! nat (do_hash k t') \<noteq> [] \<and> hd (bins t' ! nat (do_hash k t')) = (k, v)"
proof -
  obtain t1 where t1: "(if too_dense t then rehash True t else Inr t) = Inr t1" "on t1" "st_ok t1"
    "mset (entries t1) = mset (entries t)" "reorder_flag t1 = reorder_flag t"
    using rehash_ok [OF assms(1-3)] assms(1,2) by (cases "too_dense t") auto
  let ?i = "nat (do_hash k t1)"
  let ?t1 = "t1\<lparr>num_entries := num_entries t1 + 1\<rparr>"
  let ?t' = "put (k, v) ?t1"
  have o: "on ?t1" "bins_ok ?t1" "do_hash k ?t1 = do_hash k t1" "bins ?t1 = bins t1" "entries ?t1 = entries t1"
    using t1(2,3) by (simp_all add: on_def st_ok_def bins_ok_def do_hash_def entries_def)
  have p: "on ?t'" "bins_ok ?t'" "mset (entries ?t') = add_mset (k, v) (mset (entries t))"
    using push_entry [OF o(1,2), of "(k, v)"] t1(4) unfolding o(5) by simp_all
  have c: "st_compare ?t' = st_compare t" using p(1) assms(1) by (simp add: on_def)
  note m = st_map_add [OF assms(1,2) c p(3) assms(4)]
  have "length (entries ?t') = Suc (length (entries t))" using p(3) by (metis size_mset size_add_mset)
  moreover have "num_entries t1 = length (entries t)" using t1(3,4) by (metis st_ok_def size_mset)
  moreover have "num_entries ?t' = num_entries t1 + 1" by (simp add: put_def)
  ultimately have ok: "st_ok ?t'" using p(2) m unfolding st_ok_def key_class_cong [OF c] by simp
  have b: "bins_ok t1" using t1(3) by (simp add: st_ok_def)
  have "add_entry True True k v t = Inr ?t'"
    using t1(1) hash_in [OF t1(2) b] by (simp add: add_entry_def Let_def put_def o(3))
  moreover have "bins ?t' ! nat (do_hash k ?t') = (k, v) # bins t1 ! ?i"
    using hash_bin [OF t1(2) b] by (simp add: put_def do_hash_def)
  moreover have "reorder_flag ?t' = reorder_flag t" using t1(5) by (simp add: put_def)
  ultimately show ?thesis using p(1) ok m by (intro exI [of _ ?t']) simp
qed

text \<open>Reordering a chain, and taking an entry out of it.\<close>

lemma st_map_class: "on t \<Longrightarrow> EQUAL t x y \<Longrightarrow> st_map t x = st_map t y"
  using class_eq [of t x y] by (simp add: st_map_def)

lemma mset_set_bin:
  assumes "i < length (bins t)" "mset (bins t ! i) = N + A" "mset c = N + B" "mset (entries t) = M + A"
  shows "mset (entries (set_bin i c t)) = M + B"
proof -
  have "mset (entries (set_bin i c t)) + (N + A) = (M + B) + (N + A)"
    using entries_set_bin [OF assms(1), of c] assms(2-4) by (simp add: ac_simps)
  then show ?thesis by simp
qed

lemma entries_split:
  assumes "i < length (bins t)" "e \<in> set (bins t ! i)"
  obtains M where "mset (entries t) = M + {#e#}"
proof -
  have "e \<in> set (entries t)" using assms by (auto simp: entries_def)
  then have "e \<in># mset (entries t)" by simp
  then obtain M where "mset (entries t) = add_mset e M" by (meson multi_member_split)
  then show thesis using that by simp
qed

lemma bin_hash:
  assumes "bins_ok t" "i < length (bins t)"
  shows "\<forall>x\<in>set (bins t ! i). do_hash (fst x) t = int i"
  using assms unfolding bins_ok_def by metis

lemma reorder_ok:
  assumes "on t" "st_ok t" "i < length (bins t)" "mset c = mset (bins t ! i)"
  shows "on (set_bin i c t) \<and> st_ok (set_bin i c t) \<and> st_map (set_bin i c t) = st_map t"
proof -
  have b: "bins_ok t" using assms(2) by (simp add: st_ok_def)
  have m: "mset (entries (set_bin i c t)) = mset (entries t)"
    using mset_set_bin [OF assms(3), of "mset c" "{#}" c "{#}" "mset (entries t)"] assms(4) by simp
  have c: "st_compare (set_bin i c t) = st_compare t" by simp
  have "set c = set (bins t ! i)" using assms(4) by (metis set_mset_mset)
  then have "bins_ok (set_bin i c t)"
    using bin_hash [OF b assms(3)] by (intro bins_ok_set_bin [OF b]) simp
  moreover have "length (entries (set_bin i c t)) = length (entries t)" using m by (metis size_mset)
  ultimately have "st_ok (set_bin i c t)"
    using assms(2) entries_distinct_mset [OF m, of "\<lambda>e. key_class t (fst e)"]
    unfolding st_ok_def key_class_cong [OF c] by simp
  moreover have "st_map (set_bin i c t) = st_map t"
    using assms(2) by (intro st_map_mset [OF c m]) (simp add: st_ok_def)
  ultimately show ?thesis using assms(1) by (simp add: on_def)
qed

definition without :: "nat \<Rightarrow> ('k \<times> 'v) list \<Rightarrow> ('k, 'v) st_table \<Rightarrow> ('k, 'v) st_table" where
  "without i c t = set_bin i c (t\<lparr>num_entries := num_entries t - 1\<rparr>)"

lemma remove_ok:
  assumes "on t" "st_ok t" "i < length (bins t)" "bins t ! i = pre @ e # post"
  defines "u \<equiv> without i (pre @ post) t"
  shows "on u \<and> st_ok u \<and> mset (entries t) = add_mset e (mset (entries u)) \<and>
    st_map u = (\<lambda>x. if EQUAL t (fst e) x then None else st_map t x)"
proof -
  have b: "bins_ok t" using assms(2) by (simp add: st_ok_def)
  have c: "st_compare u = st_compare t" by (simp add: u_def without_def)
  have o: "on u" using assms(1) by (simp add: on_def u_def without_def)
  obtain M where M: "mset (entries t) = M + {#e#}"
    using entries_split [OF assms(3), of e] assms(4) by auto
  have "entries (set_bin i (pre @ post) t) = entries u" by (simp add: entries_def u_def without_def)
  then have mu: "mset (entries u) = M"
    using mset_set_bin [OF assms(3) _ _ M, of "mset pre + mset post" "pre @ post" "{#}"] assms(4) by simp
  then have m: "mset (entries t) = add_mset e (mset (entries u))" using M by simp
  have "\<forall>x\<in>set (pre @ post). do_hash (fst x) t = int i"
    using bin_hash [OF b assms(3)] unfolding assms(4) by simp
  then have "bins_ok (set_bin i (pre @ post) t)" by (rule bins_ok_set_bin [OF b])
  then have bu: "bins_ok u" by (simp add: bins_ok_def u_def without_def)
  have dt: "distinct (map (\<lambda>e. key_class t (fst e)) (entries t))" using assms(2) by (simp add: st_ok_def)
  have "mset (entries t) = mset (e # entries u)" using m by simp
  from entries_distinct_mset [OF this, of "\<lambda>e. key_class t (fst e)"]
  have d: "distinct (map (\<lambda>e. key_class t (fst e)) (entries u))"
    and n: "key_class t (fst e) \<notin> (\<lambda>e. key_class t (fst e)) ` set (entries u)"
    using dt by auto
  have "length (entries t) = Suc (length (entries u))" using m by (metis size_mset size_add_mset)
  then have ok: "st_ok u" using bu d assms(2) unfolding st_ok_def key_class_cong [OF c]
    by (simp add: u_def without_def)
  have none: "st_map u (fst e) = None"
    unfolding st_map_def key_class_cong [OF c] using n by (auto simp: map_of_eq_None_iff image_image)
  have c': "st_compare t = st_compare u" using c by simp
  have E: "EQUAL u = EQUAL t" by (simp add: fun_eq_iff EQUAL_def c)
  have "st_map t = (\<lambda>x. if EQUAL t (fst e) x then Some (snd e) else st_map u x)"
    using st_map_add [OF o ok c', of "fst e" "snd e"] m none unfolding E by simp
  moreover have "st_map u x = None" if "EQUAL t (fst e) x" for x
    using st_map_class [OF o, of "fst e" x] that none unfolding E by simp
  ultimately show ?thesis using o ok m by auto
qed

lemma update_ok:
  fixes t :: "('k, 'v) st_table" and e :: "'k \<times> 'v" and v :: 'v
  assumes "on t" "st_ok t" "i < length (bins t)" "bins t ! i = pre @ e # post"
  defines "t' \<equiv> set_bin i (pre @ (fst e, v) # post) t"
  shows "on t' \<and> st_ok t' \<and> st_map t' = (\<lambda>x. if EQUAL t (fst e) x then Some v else st_map t x)"
proof -
  let ?u = "without i (pre @ post) t"
  note r = remove_ok [OF assms(1-4)]
  have b: "bins_ok t" using assms(2) by (simp add: st_ok_def)
  have c: "st_compare t' = st_compare ?u" "st_compare t' = st_compare t" by (simp_all add: t'_def without_def)
  have E: "EQUAL ?u = EQUAL t" by (simp add: fun_eq_iff EQUAL_def without_def)
  have "mset (entries t) = mset (entries ?u) + {#e#}" using r by simp
  then have m: "mset (entries t') = add_mset (fst e, v) (mset (entries ?u))"
    unfolding t'_def
    using mset_set_bin [OF assms(3), of "mset pre + mset post" "{#e#}" "pre @ (fst e, v) # post" "{#(fst e, v)#}"]
      assms(4) by simp
  have n: "st_map ?u (fst e) = None" using r assms(1) by (simp add: EQUAL_def on_def cmp_refl)
  have s: "distinct (map (\<lambda>e. key_class ?u (fst e)) (entries t')) \<and>
      st_map t' = (\<lambda>x. if EQUAL t (fst e) x then Some v else st_map ?u x)"
    using st_map_add [OF _ _ c(1) m n] r unfolding E by blast
  have "\<forall>x\<in>set (pre @ (fst e, v) # post). do_hash (fst x) t = int i"
    using bin_hash [OF b assms(3)] unfolding assms(4) by simp
  then have "bins_ok t'" unfolding t'_def by (rule bins_ok_set_bin [OF b])
  moreover have "length (entries t') = length (entries t)"
    using m r by (metis size_mset size_add_mset)
  moreover have "key_class ?u = key_class t" by (rule key_class_cong) (simp add: without_def)
  ultimately have "st_ok t'" using s assms(2) unfolding st_ok_def key_class_cong [OF c(2)]
    by (simp add: t'_def)
  moreover have "st_map t' = (\<lambda>x. if EQUAL t (fst e) x then Some v else st_map t x)" using s r by auto
  ultimately show ?thesis using assms(1) by (simp add: t'_def on_def)
qed

section \<open>The operations under the contract\<close>

lemma set_bin_twice [simp]: "set_bin i c (set_bin i c' t) = set_bin i c t"
  by (simp add: set_bin_def)

lemma FIND_result:
  assumes "on t" "st_ok t"
  obtains (none) "FIND_ENTRY t (do_hash k t) k = Inr None" "st_map t k = None"
  | (some) pre e post where "FIND_ENTRY t (do_hash k t) k = Inr (Some (pre, e, post))"
    "mset (pre @ e # post) = mset (bins t ! nat (do_hash k t))" "EQUAL t k (fst e)"
    "st_map t k = Some (snd e)" "reorder_flag t \<longrightarrow> pre = []"
proof (cases "chain_find (EQUAL t k) (bins t ! nat (do_hash k t))")
  case None
  have "in_bins t (do_hash k t)" using hash_in [OF assms(1)] assms(2) by (simp add: st_ok_def)
  then show thesis using none find_none [OF assms None] None by (simp add: FIND_ENTRY_def)
next
  case (Some r)
  obtain pre e post where r: "r = (pre, e, post)" by (cases r)
  have b: "in_bins t (do_hash k t)" using hash_in [OF assms(1)] assms(2) by (simp add: st_ok_def)
  note f = find_some [OF assms Some [unfolded r]]
  show thesis
  proof (cases "reorder_flag t")
    case True
    then show thesis using some [of "[]" e "pre @ post"] f b Some r by (simp add: FIND_ENTRY_def)
  next
    case False
    then show thesis using some [of pre e post] f b Some r by (simp add: FIND_ENTRY_def)
  qed
qed

lemma hash_index: "on t \<Longrightarrow> st_ok t \<Longrightarrow> nat (do_hash k t) < length (bins t)"
  by (rule hash_bin) (simp_all add: st_ok_def)

lemma lookup_map:
  assumes "on t" "st_ok t"
  shows "\<exists>t'. st_lookup t k = Inr (st_map t k, t') \<and> on t' \<and> st_ok t' \<and> st_map t' = st_map t"
  using assms
proof (cases rule: FIND_result [OF assms, of k, case_names none some])
  case (some pre e post)
  note r = reorder_ok [OF assms hash_index [OF assms] some(2)]
  have "st_lookup t k = Inr (st_map t k, set_bin (nat (do_hash k t)) (pre @ e # post) t)"
    by (simp add: st_lookup_def Let_def some(1,4))
  then show ?thesis using r by blast
qed (simp add: st_lookup_def Let_def)

lemma replaced_ok:
  assumes "on t" "st_ok t" "i < length (bins t)" "mset (pre @ e # post) = mset (bins t ! i)" "EQUAL t k (fst e)"
  shows "on (set_bin i (pre @ (fst e, v) # post) t) \<and> st_ok (set_bin i (pre @ (fst e, v) # post) t) \<and>
    st_map (set_bin i (pre @ (fst e, v) # post) t) = (\<lambda>x. if EQUAL t k x then Some v else st_map t x)"
proof -
  let ?t1 = "set_bin i (pre @ e # post) t"
  note r = reorder_ok [OF assms(1-4)]
  have b: "bins ?t1 ! i = pre @ e # post" using assms(3) by simp
  have i: "i < length (bins ?t1)" using assms(3) by simp
  have "EQUAL ?t1 (fst e) x = EQUAL t k x" for x
    using assms(5) equal_sym [OF assms(1)] equal_trans [OF assms(1)] unfolding EQUAL_def set_bin_simps by blast
  then show ?thesis
    using update_ok [OF _ _ i b, of v] r unfolding set_bin_twice by (auto simp: fun_eq_iff)
qed

lemma insert_map:
  assumes "on t" "st_ok t" "can_grow t"
  shows "\<exists>t'. st_insert True True t k v = Inr (st_map t k \<noteq> None, t') \<and> on t' \<and> st_ok t' \<and>
    st_map t' = (\<lambda>x. if EQUAL t k x then Some v else st_map t x)"
proof (cases rule: FIND_result [OF assms(1,2), of k, case_names none some])
  case none
  then show ?thesis using add_entry_ok [OF assms none(2), of v] by (auto simp: st_insert_def Let_def)
next
  case (some pre e post)
  let ?i = "nat (do_hash k t)"
  let ?t1 = "set_bin ?i (pre @ e # post) t"
  have i: "?i < length (bins t)" by (rule hash_index [OF assms(1,2)])
  note r = reorder_ok [OF assms(1,2) i some(2)]
  note u = replaced_ok [OF assms(1,2) i some(2,3), of v]
  have "st_insert True True t k v = Inr (True, set_bin ?i (pre @ (fst e, v) # post) t)"
    by (simp add: st_insert_def Let_def some(1))
  then show ?thesis using u some(4) by simp
qed

text \<open>An allocation that fails leaves the map unchanged.\<close>

lemma add_entry_oom:
  assumes "on t" "st_ok t" "can_grow t"
  shows "add_entry a1 a2 k v t = add_entry True True k v t \<or>
    (\<exists>t'. add_entry a1 a2 k v t = Inl (OutOfMem t') \<and> on t' \<and> st_ok t' \<and> st_map t' = st_map t)"
proof (cases "too_dense t \<and> \<not> a1")
  case True
  then show ?thesis using assms by (simp add: add_entry_def rehash_def)
next
  case False
  obtain t1 where t1: "(if too_dense t then rehash True t else Inr t) = Inr t1" "on t1" "st_ok t1"
    "mset (entries t1) = mset (entries t)"
    using rehash_ok [OF assms(1-3)] assms(1,2) by (cases "too_dense t") auto
  have "st_compare t1 = st_compare t" using t1(2) assms(1) by (simp add: on_def)
  then have m: "st_map t1 = st_map t" using assms(2) t1(4) by (intro st_map_mset) (simp_all add: st_ok_def)
  have e: "(if too_dense t then rehash a1 t else Inr t) = Inr t1" using False t1(1) by auto
  show ?thesis
  proof (cases a2)
    case True
    then show ?thesis using e t1(1) by (simp add: add_entry_def)
  next
    case False
    then show ?thesis using e t1 m by (simp add: add_entry_def Let_def)
  qed
qed

lemma insert_oom:
  assumes "on t" "st_ok t" "can_grow t"
  shows "st_insert a1 a2 t k v = st_insert True True t k v \<or> st_map t k = None \<and>
    (\<exists>t'. st_insert a1 a2 t k v = Inl (OutOfMem t') \<and> on t' \<and> st_ok t' \<and> st_map t' = st_map t)"
proof (cases rule: FIND_result [OF assms(1,2), of k, case_names none some])
  case none
  then show ?thesis using add_entry_oom [OF assms, of a1 a2 k v] by (auto simp: st_insert_def Let_def)
next
  case (some pre e post)
  then show ?thesis by (simp add: st_insert_def Let_def)
qed

lemma remove_found:
  assumes "on t" "st_ok t" "chain_find (EQUAL t k) (bins t ! nat (do_hash k t)) = Some (pre, e, post)"
  defines "t' \<equiv> without (nat (do_hash k t)) (pre @ post) t"
  shows "st_map t k = Some (snd e) \<and> st_ok t' \<and> st_map t' = (\<lambda>x. if EQUAL t k x then None else st_map t x)"
proof -
  note f = find_some [OF assms(1-3)]
  note m = remove_ok [OF assms(1,2) hash_index [OF assms(1,2)] conjunct1 [OF conjunct2 [OF f]]]
  have "EQUAL t (fst e) x = EQUAL t k x" for x
    using f equal_sym [OF assms(1)] equal_trans [OF assms(1)] by blast
  then show ?thesis using f m by (auto simp: t'_def)
qed

lemma delete_map_or_dangling:
  assumes "on t" "st_ok t"
  shows "if reorder_flag t \<and> st_map t k \<noteq> None \<and> \<not> EQUAL t k (fst (hd (bins t ! nat (do_hash k t))))
    then st_delete t k = Inl DanglingChain
    else \<exists>r t'. st_delete t k = Inr (r, t') \<and> map_option snd r = st_map t k \<and> st_ok t' \<and>
      st_map t' = (\<lambda>x. if EQUAL t k x then None else st_map t x)"
proof (cases "chain_find (EQUAL t k) (bins t ! nat (do_hash k t))")
  case None
  have n: "st_map t k = None" by (rule find_none [OF assms None])
  have "st_map t = (\<lambda>x. if EQUAL t k x then None else st_map t x)"
    using st_map_class [OF assms(1), of k] n by auto
  moreover have "in_bins t (do_hash k t)" using hash_in [OF assms(1)] assms(2) by (simp add: st_ok_def)
  ultimately show ?thesis using None n assms by (simp add: st_delete_def Let_def)
next
  case (Some r)
  obtain pre e post where r: "r = (pre, e, post)" by (cases r)
  have b: "in_bins t (do_hash k t)" using hash_in [OF assms(1)] assms(2) by (simp add: st_ok_def)
  have c: "bins t ! nat (do_hash k t) = pre @ e # post" "EQUAL t k (fst e)" "\<forall>x\<in>set pre. \<not> EQUAL t k (fst x)"
    using chain_find_Some [OF Some [unfolded r]] by simp_all
  have h: "EQUAL t k (fst (hd (bins t ! nat (do_hash k t)))) \<longleftrightarrow> pre = []"
    using c by (cases pre) auto
  note m = remove_found [OF assms Some [unfolded r]]
  have "st_delete t k = (if reorder_flag t \<and> pre \<noteq> [] then Inl DanglingChain
      else Inr (Some e, without (nat (do_hash k t)) (pre @ post) t))"
    using b by (simp add: st_delete_def Let_def without_def Some r)
  then show ?thesis using m unfolding h by (cases e) auto
qed

lemma find_or_add_map:
  assumes "on t" "st_ok t" "can_grow t"
  shows "\<exists>slot t'. st_find_or_add True True null t k = Inr (st_map t k \<noteq> None, slot, t') \<and> on t' \<and> st_ok t' \<and>
    st_map t' = (\<lambda>x. if EQUAL t k x \<and> st_map t k = None then Some null else st_map t x) \<and>
    on (slot_write slot v t') \<and> st_ok (slot_write slot v t') \<and>
    st_map (slot_write slot v t') = (\<lambda>x. if EQUAL t k x then Some v else st_map t x)"
proof (cases rule: FIND_result [OF assms(1,2), of k, case_names none some])
  case none
  obtain t' where t': "add_entry True True k null t = Inr t'" "on t'" "st_ok t'"
    "st_map t' = (\<lambda>x. if EQUAL t k x then Some null else st_map t x)"
    "bins t' ! nat (do_hash k t') \<noteq> []" "hd (bins t' ! nat (do_hash k t')) = (k, null)"
    using add_entry_ok [OF assms none(2), of null] by blast
  let ?i = "nat (do_hash k t')"
  obtain rest where c: "bins t' ! ?i = [] @ (k, null) # rest" using t'(5,6) by (cases "bins t' ! ?i") auto
  have w: "slot_write (?i, 0) v t' = set_bin ?i ([] @ (fst (k, null), v) # rest) t'"
    using c by (simp add: slot_write_def)
  have E: "EQUAL t' = EQUAL t" using t'(2) assms(1) by (simp add: EQUAL_def on_def fun_eq_iff)
  note u = update_ok [OF t'(2,3) hash_index [OF t'(2,3)] c, of v, folded w]
  show ?thesis using none t'(1-4) u by (auto simp: st_find_or_add_def Let_def E)
next
  case (some pre e post)
  let ?i = "nat (do_hash k t)"
  let ?t1 = "set_bin ?i (pre @ e # post) t"
  have i: "?i < length (bins t)" by (rule hash_index [OF assms(1,2)])
  have w: "slot_write (?i, length pre) v ?t1 = set_bin ?i (pre @ (fst e, v) # post) t"
    using i by (simp add: slot_write_def)
  note r = reorder_ok [OF assms(1,2) i some(2)]
  note u = replaced_ok [OF assms(1,2) i some(2,3), of v]
  have f: "st_find_or_add True True null t k = Inr (True, (?i, length pre), ?t1)"
    by (simp add: st_find_or_add_def Let_def some(1))
  have "st_map ?t1 = (\<lambda>x. if EQUAL t k x \<and> st_map t k = None then Some null else st_map t x)"
    using r some(4) by simp
  then show ?thesis unfolding f using r u some(4) by (intro exI conjI) (rule refl | simp add: w)+
qed

lemma copy_map:
  assumes "on t" "st_ok t" "\<forall>a\<in>set as. a" "length (entries t) \<le> length as"
  shows "\<exists>t'. st_copy True True as t = Some t' \<and> on t' \<and> st_ok t' \<and> st_map t' = st_map t"
proof -
  let ?t = "t\<lparr>bins := map rev (bins t)\<rparr>"
  have m: "mset (entries ?t) = mset (entries t)"
  proof -
    have "mset (concat (map rev cs)) = mset (concat cs)" for cs :: "('k \<times> 'v) list list"
      by (induction cs) auto
    then show ?thesis by (simp add: entries_def)
  qed
  have k: "st_compare ?t = st_compare t" by simp
  have "bins_ok ?t" using assms(2) by (auto simp: st_ok_def bins_ok_def do_hash_def)
  moreover have "length (entries ?t) = length (entries t)" using m by (metis size_mset)
  ultimately have "st_ok ?t" using assms(2) entries_distinct_mset [OF m, of "\<lambda>e. key_class t (fst e)"]
    unfolding st_ok_def key_class_cong [OF k] by simp
  moreover have "st_map ?t = st_map t" using assms(2) by (intro st_map_mset [OF k m]) (simp add: st_ok_def)
  moreover have "st_copy True True as t = Some ?t"
    using copy_bins_rev [of as "bins t"] assms(3,4) by (simp add: st_copy_def entries_def)
  moreover have "on ?t" using assms(1) by (simp add: on_def)
  ultimately show ?thesis by blast
qed

end

section \<open>Iteration\<close>

text \<open>A callback that never stops and deletes the entries with \<open>d\<close>.\<close>

definition sweeper :: "('k \<Rightarrow> 'v \<Rightarrow> bool) \<Rightarrow> ('k \<Rightarrow> 'v \<Rightarrow> 's \<Rightarrow> 's) \<Rightarrow> 'k \<Rightarrow> 'v \<Rightarrow> 's \<Rightarrow> st_retval \<times> 's" where
  "sweeper d g k v s = (if d k v then ST_DELETE else ST_CONTINUE, g k v s)"

lemma foreach_chain_sweeper:
  "foreach_chain (sweeper d g) c s = (filter (\<lambda>e. \<not> d (fst e) (snd e)) c, False,
     fold (\<lambda>e. g (fst e) (snd e)) c s)"
  by (induction c arbitrary: s) (auto simp: sweeper_def)

lemma foreach_bins_sweeper:
  "foreach_bins (sweeper d g) cs s = (map (filter (\<lambda>e. \<not> d (fst e) (snd e))) cs, False,
     fold (\<lambda>e. g (fst e) (snd e)) (concat cs) s)"
  by (induction cs arbitrary: s) (auto simp: foreach_chain_sweeper)

definition gen_rest :: "('k, 'v) st_generator \<Rightarrow> ('k \<times> 'v) list" where
  "gen_rest g = gen_entry g @ concat (drop (gen_index g) (bins (gen_table g)))"

lemma next_bin_None: "next_bin i cs = None \<longleftrightarrow> concat cs = []"
  by (induction cs arbitrary: i) auto

lemma next_bin_Some:
  "next_bin i cs = Some (j, c) \<Longrightarrow> c \<noteq> [] \<and> i \<le> j \<and> concat cs = c @ concat (drop (Suc (j - i)) cs)"
proof (induction cs arbitrary: i)
  case (Cons d cs)
  show ?case
  proof (cases "d = []")
    case True
    then have "next_bin (i + 1) cs = Some (j, c)" using Cons.prems by simp
    from Cons.IH [OF this] have h: "c \<noteq> []" "i < j" "concat cs = c @ concat (drop (Suc (j - (i + 1))) cs)"
      by simp_all
    have "Suc (j - (i + 1)) = j - i" using h(2) by simp
    then show ?thesis using True h by simp
  qed (use Cons.prems in auto)
qed simp

section \<open>The predefined functions\<close>

lemma st_numhash_range:
  assumes "0 < n" "n < 2 ^ 31"
  shows "0 \<le> st_numhash x n \<and> st_numhash x n < n"
proof -
  have u: "uint (word_of_int n :: 64 word) = n" using assms by (simp add: uint_word_of_int)
  have m: "uint (x mod word_of_int n) = uint x mod n" by (simp add: uint_mod u)
  have r: "0 \<le> uint x mod n" "uint x mod n < n" using assms by simp_all
  then have l: "uint x mod n < 2 ^ 31" using assms(2) by linarith
  have "uint (ucast (x mod word_of_int n) :: 32 word) = uint x mod n"
    using r l by (simp add: unsigned_ucast_eq take_bit_int_eq_self m)
  then have "st_numhash x n = uint x mod n"
    using r l unfolding st_numhash_def sint_uint by (simp add: signed_take_bit_int_eq_self)
  then show ?thesis using r by simp
qed

lemma st_ptrhash_range:
  assumes "0 < n" "n < 2 ^ 31"
  shows "0 \<le> st_ptrhash x n \<and> st_ptrhash x n < n"
proof -
  let ?y = "ucast (drop_bit 3 x) :: 32 word"
  have u: "uint (word_of_int n :: 32 word) = n" using assms by (simp add: uint_word_of_int)
  have m: "uint (?y mod word_of_int n) = uint ?y mod n" by (simp only: uint_mod u)
  have r: "0 \<le> uint ?y mod n" "uint ?y mod n < n" using assms by simp_all
  then have "uint ?y mod n < 2 ^ 31" using assms(2) by linarith
  then have "st_ptrhash x n = uint ?y mod n"
    using r unfolding st_ptrhash_def sint_uint m by (simp add: signed_take_bit_int_eq_self)
  then show ?thesis using r by simp
qed

interpretation numbers: st_keys st_numcmp st_numhash
  by unfold_locales (auto simp: st_numcmp_def st_numhash_range split: if_splits)

interpretation pointers: st_keys st_ptrcmp st_ptrhash
  by unfold_locales (auto simp: st_ptrcmp_def st_ptrhash_range split: if_splits)

section \<open>Properties\<close>

text \<open>Tables of numbers: equal keys are the same, and an example with one shared bin.\<close>

lemma number_keys:
  "st_compare t = st_numcmp \<Longrightarrow> EQUAL t x y \<longleftrightarrow> x = y"
  "st_compare t = st_numcmp \<Longrightarrow> key_class t x = {x}"
  by (auto simp: EQUAL_def key_class_def st_numcmp_def)

lemma number_bins:
  "st_hash t = st_numhash \<Longrightarrow> num_bins t = 3 \<Longrightarrow> do_hash x t = st_numhash x 3"
  by (simp add: do_hash_def)

definition numbered :: "bool \<Rightarrow> (64 word, nat) st_table" where
  "numbered r = \<lparr>st_compare = st_numcmp, st_hash = st_numhash, num_bins = 3, num_entries = 3,
     max_density = 1, reorder_flag = r, grow_bins = \<lambda>n. 2 * n,
     bins = [[(3, 30)], [(4, 40), (1, 10)], []]\<rparr>"

lemma numbered_simps [simp]:
  "st_compare (numbered r) = st_numcmp" "st_hash (numbered r) = st_numhash" "num_bins (numbered r) = 3"
  "bins (numbered r) = [[(3, 30)], [(4, 40), (1, 10)], []]" "reorder_flag (numbered r) = r"
  by (simp_all add: numbered_def)

lemma numbered_hash: "st_numhash 3 3 = 0" "st_numhash 4 3 = 1" "st_numhash 1 3 = 1" "st_numhash 2 3 = 2"
  by (simp_all add: st_numhash_def unsigned_ucast_eq)

lemma numbered_ok: "st_ok (numbered r)"
proof -
  have "\<forall>i<3. \<forall>e\<in>set (bins (numbered r) ! i). do_hash (fst e) (numbered r) = int i"
    by (simp add: All_less_Suc numeral_3_eq_3 number_bins [simplified numeral_3_eq_3] numbered_hash [simplified])
  moreover have "distinct (map (\<lambda>e. key_class (numbered r) (fst e)) (entries (numbered r)))"
    by (simp add: entries_def number_keys)
  ultimately show ?thesis by (simp add: st_ok_def bins_ok_def entries_def numbered_def)
qed

lemma numbered_map: "st_map (numbered r) = [1 \<mapsto> 10, 3 \<mapsto> 30, 4 \<mapsto> 40]"
  by (rule ext) (auto simp: st_map_def entries_def number_keys)

lemma numbered_keys: "st_keys (st_compare (numbered r)) (st_hash (numbered r))"
  using numbers.st_keys_axioms by simp

lemma on_own: "st_keys.on (st_compare t) (st_hash t) t"
  if "st_keys (st_compare t) (st_hash t)" for t :: "('k, 'v) st_table"
  using that by (simp add: st_keys.on_def)

text \<open>C39: A lookup returns what the map holds for the key and leaves the map as it is.\<close>

theorem st_lookup_map:
  assumes "st_keys (st_compare t) (st_hash t)" "st_ok t"
  shows "\<exists>t'. st_lookup t k = Inr (st_map t k, t') \<and> st_ok t' \<and> st_map t' = st_map t"
  using st_keys.lookup_map [OF assms(1) on_own [OF assms(1)] assms(2), of k] by blast

theorem st_lookup_map_witness:
  "\<exists>t'. st_lookup (numbered True) 1 = Inr (Some 10, t') \<and> st_ok t' \<and> st_map t' = st_map (numbered True)"
  using st_lookup_map [OF numbered_keys numbered_ok, of True 1] by (simp add: numbered_map)

text \<open>C38: An insertion updates the map and says whether the key was there. It fails only when an
  allocation does, and then the map is as before, even when the table has grown.\<close>

theorem st_insert_map:
  assumes "st_keys (st_compare t) (st_hash t)" "st_ok t" "can_grow t"
  shows "case st_insert a1 a2 t k v of
      Inr (found, t') \<Rightarrow> (found \<longleftrightarrow> st_map t k \<noteq> None) \<and> st_ok t' \<and>
        st_map t' = (\<lambda>x. if EQUAL t k x then Some v else st_map t x)
    | Inl (OutOfMem t') \<Rightarrow> \<not> (a1 \<and> a2) \<and> st_map t k = None \<and> st_ok t' \<and> st_map t' = st_map t
    | Inl _ \<Rightarrow> False"
proof -
  note o = on_own [OF assms(1)]
  obtain t' where t': "st_insert True True t k v = Inr (st_map t k \<noteq> None, t')" "st_ok t'"
    "st_map t' = (\<lambda>x. if EQUAL t k x then Some v else st_map t x)"
    using st_keys.insert_map [OF assms(1) o assms(2,3), of k v] by blast
  show ?thesis
    using st_keys.insert_oom [OF assms(1) o assms(2,3), of a1 a2 k v] t' by (cases "a1 \<and> a2") auto
qed

theorem st_insert_map_witness:
  "case st_insert True True (numbered False) 7 70 of
      Inr (found, t') \<Rightarrow> \<not> found \<and> st_ok t' \<and> st_map t' = [1 \<mapsto> 10, 3 \<mapsto> 30, 4 \<mapsto> 40, 7 \<mapsto> 70]
    | Inl _ \<Rightarrow> False"
proof -
  have "can_grow (numbered False)" by (simp add: can_grow_def numbered_def)
  note i = st_insert_map [OF numbered_keys numbered_ok this, of True True 7 70]
  have "(\<lambda>x. if EQUAL (numbered False) 7 x then Some 70 else st_map (numbered False) x) =
      [1 \<mapsto> 10, 3 \<mapsto> 30, 4 \<mapsto> 40, 7 \<mapsto> 70]"
    by (auto simp: numbered_map number_keys)
  then show ?thesis using i by (auto simp: numbered_map split: sum.splits st_error.splits)
qed

text \<open>A lookup that creates a missing entry returns a slot: the map then has the key, and a
  write to the slot changes the value of the key and no other.\<close>

theorem st_find_or_add_map:
  assumes "st_keys (st_compare t) (st_hash t)" "st_ok t" "can_grow t"
  shows "\<exists>slot t'. st_find_or_add True True null t k = Inr (st_map t k \<noteq> None, slot, t') \<and> st_ok t' \<and>
    st_map t' = (\<lambda>x. if EQUAL t k x \<and> st_map t k = None then Some null else st_map t x) \<and>
    st_ok (slot_write slot v t') \<and>
    st_map (slot_write slot v t') = (\<lambda>x. if EQUAL t k x then Some v else st_map t x)"
  using st_keys.find_or_add_map [OF assms(1) on_own [OF assms(1)] assms(2,3), of null k v] by blast

theorem st_find_or_add_map_witness:
  "\<exists>slot t'. st_find_or_add True True 0 (numbered True) 2 = Inr (False, slot, t') \<and>
    st_map t' 2 = Some 0 \<and> st_map (slot_write slot 20 t') 2 = Some 20"
proof -
  have g: "can_grow (numbered True)" by (simp add: can_grow_def numbered_def)
  obtain slot t' where "st_find_or_add True True 0 (numbered True) 2 = Inr (st_map (numbered True) 2 \<noteq> None, slot, t')"
    "st_map t' = (\<lambda>x. if EQUAL (numbered True) 2 x \<and> st_map (numbered True) 2 = None then Some 0
       else st_map (numbered True) x)"
    "st_map (slot_write slot 20 t') = (\<lambda>x. if EQUAL (numbered True) 2 x then Some 20 else st_map (numbered True) x)"
    using st_find_or_add_map [OF numbered_keys numbered_ok g, of 0 2 20] by blast
  then show ?thesis by (auto simp: numbered_map number_keys)
qed

text \<open>C40: A deletion removes the key from the map and returns its value. When the table reorders,
  this holds for the first entry of a chain only: deleting another one leaves the chain with
  a pointer to the freed entry.\<close>

theorem st_delete_map:
  assumes "st_keys (st_compare t) (st_hash t)" "st_ok t"
  shows "if reorder_flag t \<and> st_map t k \<noteq> None \<and> \<not> EQUAL t k (fst (hd (bins t ! nat (do_hash k t))))
    then st_delete t k = Inl DanglingChain
    else \<exists>r t'. st_delete t k = Inr (r, t') \<and> map_option snd r = st_map t k \<and> st_ok t' \<and>
      st_map t' = (\<lambda>x. if EQUAL t k x then None else st_map t x)"
  using st_keys.delete_map_or_dangling [OF assms(1) on_own [OF assms(1)] assms(2), of k]
  by (auto split: if_splits)

theorem st_delete_map_witness:
  "st_delete (numbered True) 1 = Inl DanglingChain \<and>
   (\<exists>r t'. st_delete (numbered False) 1 = Inr (r, t') \<and> st_map t' = [3 \<mapsto> 30, 4 \<mapsto> 40])"
proof -
  have h: "nat (do_hash 1 (numbered b)) = 1" for b
    by (simp add: number_bins numbered_hash [simplified])
  have "st_delete (numbered True) 1 = Inl DanglingChain"
    using st_delete_map [OF numbered_keys numbered_ok, of True 1] unfolding h
    by (simp add: numbered_map number_keys)
  moreover have "(\<lambda>x. if EQUAL (numbered False) 1 x then None else st_map (numbered False) x) = [3 \<mapsto> 30, 4 \<mapsto> 40]"
    by (auto simp: numbered_map number_keys)
  then have "\<exists>r t'. st_delete (numbered False) 1 = Inr (r, t') \<and> st_map t' = [3 \<mapsto> 30, 4 \<mapsto> 40]"
    using st_delete_map [OF numbered_keys numbered_ok, of False 1] by auto
  ultimately show ?thesis by blast
qed

text \<open>A copy has the same map, and is refused exactly when the memory for it runs out.\<close>

theorem st_copy_map:
  assumes "st_keys (st_compare t) (st_hash t)" "st_ok t" "length (entries t) \<le> length as"
    and "\<forall>a\<in>set as. a"
  shows "case st_copy a1 a2 as t of None \<Rightarrow> \<not> (a1 \<and> a2)
    | Some t' \<Rightarrow> st_ok t' \<and> st_map t' = st_map t \<and> (\<forall>i<num_bins t. bins t' ! i = rev (bins t ! i))"
proof (cases "a1 \<and> a2")
  case True
  obtain t' where t': "st_copy True True as t = Some t'" "st_ok t'" "st_map t' = st_map t"
    using st_keys.copy_map [OF assms(1) on_own [OF assms(1)] assms(2,4,3)] by blast
  have "length (bins t) = num_bins t" using assms(2) by (simp add: st_ok_def bins_ok_def)
  moreover have "bins t' = map rev (bins t)"
    using t'(1) copy_bins_rev [OF assms(4,3) [unfolded entries_def]] by (auto simp: st_copy_def)
  ultimately show ?thesis using t' True by simp
qed (auto simp: st_copy_def)

theorem st_copy_map_witness:
  "\<exists>t'. st_copy True True [True, True, True] (numbered False) = Some t' \<and> st_map t' = st_map (numbered False) \<and>
    bins t' ! 1 = [(1, 10), (4, 40)]"
proof -
  have l: "length (entries (numbered False)) \<le> length [True, True, True]" by (simp add: entries_def)
  have a: "\<forall>a\<in>set [True, True, True]. a" by simp
  show ?thesis using st_copy_map [OF numbered_keys numbered_ok l a, of True True]
    by (auto split: option.splits)
qed

text \<open>A generator hands out every entry of the table once, in the order of the bins and of their
  chains, and ends after the last one.\<close>

theorem st_gen_entries:
  "map_option (\<lambda>(e, g'). (e, gen_rest g')) (st_gen g) =
     (case gen_rest g of [] \<Rightarrow> None | e # es \<Rightarrow> Some (e, es)) \<and>
   map_option gen_rest (st_init_gen a t) = (if a then Some (entries t) else None)"
proof -
  let ?n = "next_bin (gen_index g) (drop (gen_index g) (bins (gen_table g)))"
  have i: "map_option gen_rest (st_init_gen a t) = (if a then Some (entries t) else None)"
    by (simp add: st_init_gen_def gen_rest_def entries_def)
  show ?thesis
  proof (cases "gen_entry g")
    case Nil
    show ?thesis
    proof (cases ?n)
      case None
      then have "gen_rest g = []" using Nil by (simp add: next_bin_None gen_rest_def)
      then show ?thesis using None Nil i by (simp add: st_gen_def)
    next
      case (Some r)
      obtain j c where r: "r = (j, c)" by (cases r)
      note n = next_bin_Some [OF Some [unfolded r]]
      then have d: "drop (Suc (j - gen_index g)) (drop (gen_index g) (bins (gen_table g))) =
          drop (j + 1) (bins (gen_table g))" by (simp add: add.commute)
      obtain e es where c: "c = e # es" using n by (cases c) auto
      have "gen_rest g = e # es @ concat (drop (j + 1) (bins (gen_table g)))"
        using n Nil unfolding d c by (simp add: gen_rest_def)
      then show ?thesis using Nil Some i unfolding r c by (simp add: st_gen_def gen_rest_def)
    qed
  qed (use i in \<open>simp add: st_gen_def gen_rest_def\<close>)
qed

text \<open>An iteration whose callback never stops calls it once for every entry, in the order of the
  bins, and removes from the map the entries the callback deletes.\<close>

theorem st_foreach_sweep:
  assumes "st_keys (st_compare t) (st_hash t)" "st_ok t"
  shows "case st_foreach (sweeper d g) t s of (done, t', s') \<Rightarrow>
    done \<and> s' = fold (\<lambda>e. g (fst e) (snd e)) (entries t) s \<and> st_ok t' \<and>
    entries t' = filter (\<lambda>e. \<not> d (fst e) (snd e)) (entries t) \<and>
    (\<forall>e\<in>set (entries t). st_map t' (fst e) = (if d (fst e) (snd e) then None else Some (snd e)))"
proof -
  let ?p = "\<lambda>e. \<not> d (fst e) (snd e)"
  let ?bs = "map (filter ?p) (bins t)"
  define t' where "t' = t\<lparr>bins := ?bs, num_entries := num_entries t - (length (concat (bins t)) - length (concat ?bs))\<rparr>"
  have f: "st_foreach (sweeper d g) t s = (True, t', fold (\<lambda>e. g (fst e) (snd e)) (entries t) s)"
    by (simp add: st_foreach_def foreach_bins_sweeper t'_def entries_def)
  have e: "entries t' = filter ?p (entries t)" by (simp add: t'_def entries_def filter_concat)
  have k: "st_compare t' = st_compare t" by (simp add: t'_def)
  have "length (concat ?bs) \<le> length (concat (bins t))" using e by (simp add: t'_def entries_def)
  then have n: "num_entries t' = length (entries t')"
    using assms(2) by (simp add: st_ok_def t'_def entries_def)
  have dt: "distinct (map (\<lambda>e. key_class t (fst e)) (entries t))" using assms(2) by (simp add: st_ok_def)
  have dt': "distinct (map (\<lambda>e. key_class t' (fst e)) (entries t'))"
    unfolding e key_class_cong [OF k] using dt by (rule distinct_map_filter)
  have "bins_ok t'" using assms(2) by (auto simp: st_ok_def bins_ok_def t'_def do_hash_def)
  with n dt' have ok: "st_ok t'" by (simp add: st_ok_def)
  have inj: "e = e'" if "e \<in> set (entries t)" "e' \<in> set (entries t)" "key_class t (fst e) = key_class t (fst e')" for e e'
    using dt that by (auto simp: distinct_map inj_on_def)
  have "st_map t' (fst e) = (if d (fst e) (snd e) then None else Some (snd e))" if m: "e \<in> set (entries t)" for e
  proof (cases "d (fst e) (snd e)")
    case True
    have "st_map t' (fst e) \<noteq> Some v" for v
    proof
      assume "st_map t' (fst e) = Some v"
      then obtain e' where "e' \<in> set (entries t)" "\<not> d (fst e') (snd e')" "key_class t (fst e') = key_class t (fst e)"
        unfolding st_map_Some [OF dt'] key_class_cong [OF k] unfolding e by auto
      then show False using inj [OF _ m] True by blast
    qed
    then show ?thesis using True by (cases "st_map t' (fst e)") auto
  next
    case False
    then have "st_map t' (fst e) = Some (snd e)" using m unfolding st_map_Some [OF dt'] e
      by (intro bexI [of _ e]) simp_all
    then show ?thesis using False by simp
  qed
  then show ?thesis using f e ok by simp
qed

theorem st_foreach_sweep_witness:
  "case st_foreach (sweeper (\<lambda>k v. v = 40) (\<lambda>k v s. s + v)) (numbered False) 0 of (done, t', s') \<Rightarrow>
    done \<and> s' = 80 \<and> entries t' = [(3, 30), (1, 10)] \<and> st_ok t'"
  using st_foreach_sweep [OF numbered_keys [of False] numbered_ok [of False], where d = "\<lambda>k v. v = 40" and g = "\<lambda>k v s. s + v" and s = 0]
  by (simp add: entries_def split: prod.splits)

text \<open>The string hash is a bin of the table except for the strings whose value is the least
  integer: its negation wraps around, and the result is negative unless the number of bins
  divides it.\<close>

theorem st_strhash_range:
  assumes "0 < n"
  shows "if sint (strhash_val s) = - (2 ^ 31) then st_strhash s n = - (2 ^ 31 mod n)
    else 0 \<le> st_strhash s n \<and> st_strhash s n < n"
proof -
  let ?v = "strhash_val s"
  have neg: "sint (- ?v) = - sint ?v" if "sint ?v \<noteq> - (2 ^ 31)"
  proof -
    have "- (2 ^ 31) \<le> sint ?v \<and> sint ?v < 2 ^ 31"
      using sint_greater_eq [of ?v] sint_less [of ?v] by simp
    then have "- (2 ^ 31) \<le> - sint ?v \<and> - sint ?v < 2 ^ 31" using that by linarith
    then have "signed_take_bit 31 (- sint ?v) = - sint ?v" by (simp add: signed_take_bit_int_eq_self)
    moreover have "sint (- ?v) = signed_take_bit 31 (- sint ?v)"
      using sint_word_minus [of ?v] by simp
    ultimately show ?thesis by simp
  qed
  show ?thesis
  proof (cases "sint ?v = - (2 ^ 31)")
    case True
    then have "sint (- ?v) = - (2 ^ 31)" by (simp add: sint_word_minus)
    then show ?thesis using True by (simp add: st_strhash_def Let_def)
  next
    case False
    then show ?thesis using assms neg by (simp add: st_strhash_def Let_def)
  qed
qed

theorem st_strhash_range_witness:
  "st_strhash ''adieyhsa'' 11 = - 2"
proof -
  have "sint (strhash_val ''adieyhsa'') = - (2 ^ 31)" by code_simp
  then show ?thesis using st_strhash_range [of 11 "''adieyhsa''"] by simp
qed

end
