(* ===== verification/TCT.thy ===== *)
theory TCT
  imports LockAnalysis
begin

text \<open>
  The thread creation tree of \<open>include/MTA/TCT.h\<close> and \<open>lib/MTA/TCT.cpp\<close>: the functions
  relevant to threads, the loops of join sites, the graph of context-sensitive threads built
  over a work list, and the queries the later analyses make. The statistics \<open>TCTEdgeNum\<close> and
  \<open>MaxCxtSize\<close> and the printing are left out.
\<close>

section \<open>State\<close>

text \<open>
  A map over \<open>CxtThread\<close> compares fork site and context only, so its keys are these two. The
  fork site of the main thread is \<open>NULL\<close>. Node ids count the nodes; the incoming edges of a
  node are ordered by their source, the outgoing ones by their target.
\<close>

definition null_inst :: inst where
  "null_inst = 0"

type_synonym ct_key = "inst \<times> call_str_cxt"

definition ct_key :: "cxt_thread \<Rightarrow> ct_key" where
  "ct_key t = (ct_forksite t, ct_cxt t)"

record tct_node =
  tn_ctx :: cxt_thread
  tn_multiforked :: bool
  tn_in :: "node_id std_set"
  tn_out :: "node_id std_set"

record tct =
  candidateFuncSet :: "func std_set"
  entryFuncSet :: "func std_set"
  tctList :: "cxt_thread_proc fifo"
  tctVisited :: "cxt_thread_proc set"
  tctNodes :: "tct_node list"
  ctpToNodeMap :: "ct_key \<rightharpoonup> node_id"
  ctToForkCxtMap :: "ct_key \<rightharpoonup> call_str_cxt"
  ctToRoutineFunMap :: "ct_key \<rightharpoonup> func"
  joinSiteToLoopMap :: "inst \<rightharpoonup> loop"
  inRecurJoinSites :: "inst std_set"

definition tct_new :: tct where
  "tct_new = \<lparr>candidateFuncSet = [], entryFuncSet = [], tctList = fifo_new, tctVisited = {},
     tctNodes = [], ctpToNodeMap = Map.empty, ctToForkCxtMap = Map.empty,
     ctToRoutineFunMap = Map.empty, joinSiteToLoopMap = Map.empty, inRecurJoinSites = []\<rparr>"

definition isCandidateFun :: "tct \<Rightarrow> func \<Rightarrow> bool" where
  "isCandidateFun t f \<longleftrightarrow> set_find f (candidateFuncSet t)"

definition getGNode :: "tct \<Rightarrow> node_id \<Rightarrow> tct_node option" where
  "getGNode t n = (if n < length (tctNodes t) then Some (tctNodes t ! n) else None)"

definition tct_getLoop :: "program \<Rightarrow> inst \<Rightarrow> loop option" where
  "tct_getLoop P i = loop_of P (bb_of P i)"

section \<open>Loops and recursion\<close>

text \<open>\<open>isInLoopInstruction\<close>: the call sites from which the instruction may be reached.\<close>

record site_search =
  ss_insts :: "inst std_set"
  ss_work :: "inst fifo"

definition callers_of :: "program \<Rightarrow> func \<Rightarrow> inst list" where
  "callers_of P f = concat (map (\<lambda>e. e_direct e @ e_indirect e) (in_edges P f))"

definition site_push :: "inst \<Rightarrow> site_search \<Rightarrow> site_search" where
  "site_push i s = (if \<not> set_find i (ss_insts s)
     then s\<lparr>ss_insts := set_insert i (ss_insts s), ss_work := snd (fifo_push i (ss_work s))\<rparr> else s)"

definition site_step :: "program \<Rightarrow> site_search \<Rightarrow> site_search" where
  "site_step P s = (case fifo_pop (ss_work s) of None \<Rightarrow> s
     | Some (i, w) \<Rightarrow> fold site_push (callers_of P (fun_of P i))
         (s\<lparr>ss_work := w, ss_insts := set_insert i (ss_insts s)\<rparr>))"

definition isInLoopInstruction :: "program \<Rightarrow> inst \<Rightarrow> bool option" where
  "isInLoopInstruction P i = map_option (\<lambda>s. list_ex (\<lambda>i. tct_getLoop P i \<noteq> None) (ss_insts s))
     (while_option (\<lambda>s. \<not> fifo_empty (ss_work s)) (site_step P)
       \<lparr>ss_insts = [], ss_work = snd (fifo_push i fifo_new)\<rparr>)"

text \<open>\<open>isInRecursion\<close>: the functions that may call the one the instruction is in.\<close>

record recur_search =
  rs_visits :: "func std_set"
  rs_work :: "func fifo"
  rs_found :: bool

definition recur_push :: "func \<Rightarrow> recur_search \<Rightarrow> recur_search" where
  "recur_push f s = (if \<not> set_find f (rs_visits s) then s\<lparr>rs_work := snd (fifo_push f (rs_work s))\<rparr> else s)"

definition recur_step :: "program \<Rightarrow> recur_search \<Rightarrow> recur_search" where
  "recur_step P s = (case fifo_pop (rs_work s) of None \<Rightarrow> s
     | Some (f, w) \<Rightarrow> (let s1 = s\<lparr>rs_work := w, rs_visits := set_insert f (rs_visits s)\<rparr> in
         if in_cycle P f then s1\<lparr>rs_found := True\<rparr>
         else fold recur_push (map (fun_of P) (callers_of P f)) s1))"

definition isInRecursion :: "program \<Rightarrow> inst \<Rightarrow> bool option" where
  "isInRecursion P i = map_option rs_found
     (while_option (\<lambda>s. \<not> fifo_empty (rs_work s) \<and> \<not> rs_found s) (recur_step P)
       \<lparr>rs_visits = [], rs_work = snd (fifo_push (fun_of P i) fifo_new), rs_found = False\<rparr>)"

section \<open>Candidate and entry functions\<close>

text \<open>The work list over callers is the one of the lock analysis.\<close>

definition markRelProcs_fun :: "program \<Rightarrow> func \<Rightarrow> tct \<Rightarrow> tct run" where
  "markRelProcs_fun P f t = map_option (\<lambda>c. Some (t\<lparr>candidateFuncSet := cd_funs c\<rparr>))
     (while_option (\<lambda>c. \<not> fifo_empty (cd_work c)) (cand_step P)
       \<lparr>cd_visited = {f}, cd_work = snd (fifo_push f fifo_new), cd_funs = candidateFuncSet t\<rparr>)"

definition mark_forksite :: "program \<Rightarrow> inst \<Rightarrow> tct \<Rightarrow> tct run" where
  "mark_forksite P i t = and_then (markRelProcs_fun P (fun_of P i) t) (\<lambda>t1.
     case fork_edges P i of None \<Rightarrow> Some None
     | Some es \<Rightarrow> Some (Some (t1\<lparr>candidateFuncSet :=
         fold set_insert (map e_dst es) (candidateFuncSet t1)\<rparr>)))"

definition markRelProcs :: "program \<Rightarrow> tct \<Rightarrow> tct run" where
  "markRelProcs P t = and_then (foldR (mark_forksite P) (fork_sites P) t)
     (foldR (\<lambda>i. markRelProcs_fun P (fun_of P i)) (join_sites P))"

definition collectEntryFunInCallGraph :: "program \<Rightarrow> tct \<Rightarrow> tct option" where
  "collectEntryFunInCallGraph P t =
     (let t1 = fold (\<lambda>f t. if is_ext_fun P f then t
        else if in_edges P f = [] then t\<lparr>entryFuncSet := set_insert f (entryFuncSet t)\<rparr> else t)
        (mod_funs P) t
      in if entryFuncSet t1 \<noteq> [] then Some t1 else None)"

section \<open>Join sites in loops\<close>

definition isJoinMustExecutedInLoop :: "program \<Rightarrow> loop \<Rightarrow> inst \<Rightarrow> bool option" where
  "isJoinMustExecutedInLoop P lp join = (let head = loop_header P lp in
     if fun_of P (bb_front P head) \<noteq> fun_of P join then None
     else Some (list_all (\<lambda>b. loop_contains P lp b \<longrightarrow> post_dom P (bb_of P join) b) (bb_succs P head)))"

definition collect_join :: "program \<Rightarrow> inst \<Rightarrow> tct \<Rightarrow> tct run" where
  "collect_join P join t =
     (case (case tct_getLoop P join of None \<Rightarrow> Some t
        | Some lp \<Rightarrow> map_option (\<lambda>b. if b
            then t\<lparr>joinSiteToLoopMap := (joinSiteToLoopMap t)(join \<mapsto> lp)\<rparr> else t)
            (isJoinMustExecutedInLoop P lp join))
      of None \<Rightarrow> Some None
      | Some t1 \<Rightarrow> map_option (\<lambda>b. Some (if b
          then t1\<lparr>inRecurJoinSites := set_insert join (inRecurJoinSites t1)\<rparr> else t1))
          (isInRecursion P join))"

definition collectLoopInfoForJoin :: "program \<Rightarrow> tct \<Rightarrow> tct run" where
  "collectLoopInfoForJoin P = foldR (collect_join P) (join_sites P)"

text \<open>The maps are searched for a header or an exit over all their entries.\<close>

definition isLoopHeaderOfJoinLoop :: "program \<Rightarrow> tct \<Rightarrow> bb \<Rightarrow> bool" where
  "isLoopHeaderOfJoinLoop P t b \<longleftrightarrow> list_ex (\<lambda>join. case joinSiteToLoopMap t join of None \<Rightarrow> False
     | Some lp \<Rightarrow> loop_header P lp = b) (join_sites P)"

definition isLoopExitOfJoinLoop :: "program \<Rightarrow> tct \<Rightarrow> bb \<Rightarrow> bool" where
  "isLoopExitOfJoinLoop P t b \<longleftrightarrow> list_ex (\<lambda>join. case joinSiteToLoopMap t join of None \<Rightarrow> False
     | Some lp \<Rightarrow> list_ex (\<lambda>eb. eb = b) (rev (loop_exits P lp))) (join_sites P)"

definition getJoinLoop :: "program \<Rightarrow> tct \<Rightarrow> inst \<Rightarrow> loop option option" where
  "getJoinLoop P t join = (if td_join P join then Some (joinSiteToLoopMap t join) else None)"

definition isJoinSiteInRecursion :: "program \<Rightarrow> tct \<Rightarrow> inst \<Rightarrow> bool option" where
  "isJoinSiteInRecursion P t join =
     (if td_join P join then Some (set_find join (inRecurJoinSites t)) else None)"

text \<open>At the header of a join loop control only goes inside.\<close>

definition tct_getNextInsts :: "program \<Rightarrow> tct \<Rightarrow> inst \<Rightarrow> inst list" where
  "tct_getNextInsts P t i = (if \<not> is_terminator P i then [next_node P i]
     else (let b = bb_of P i in map (bb_front P) (filter (\<lambda>s. \<not> (isLoopHeaderOfJoinLoop P t b \<and>
       (case loop_of P b of None \<Rightarrow> False | Some lp \<Rightarrow> \<not> loop_contains P lp s))) (bb_succs P b))))"

section \<open>Contexts\<close>

text \<open>
  \<open>getCallSiteID\<close> asserts that the call graph knows the pair of the call and the callee. The callers take
  both from an edge of the call graph, for which lemma \<open>edge_ids\<close> of \<open>CallGraphResult\<close> shows it, so that
  \<open>call_site_id\<close> is a function.
\<close>

definition tct_pushCxt :: "program \<Rightarrow> tct \<Rightarrow> call_str_cxt \<Rightarrow> inst \<Rightarrow> func \<Rightarrow> call_str_cxt" where
  "tct_pushCxt P t cxt call callee =
     (if \<not> isCandidateFun t (fun_of P call) then cxt
      else if \<not> same_scc P (fun_of P call) callee then cxt @ [call_site_id P call callee] else cxt)"

definition tct_matchCxt :: "program \<Rightarrow> tct \<Rightarrow> call_str_cxt \<Rightarrow> inst \<Rightarrow> func \<Rightarrow> bool \<times> call_str_cxt" where
  "tct_matchCxt P t cxt call callee =
     (if \<not> isCandidateFun t (fun_of P call) then (True, cxt)
      else if cxt = [] then (True, cxt)
      else if \<not> same_scc P (fun_of P call) callee then
        (if last cxt = call_site_id P call callee then (True, butlast cxt) else (False, cxt))
      else (True, cxt))"

section \<open>Nodes and edges\<close>

definition addTCTNode :: "cxt_thread \<Rightarrow> tct \<Rightarrow> (node_id \<times> tct) option" where
  "addTCTNode ct t = (if ctpToNodeMap t (ct_key ct) \<noteq> None then None
     else let n = length (tctNodes t) in
       Some (n, t\<lparr>tctNodes := tctNodes t @ [\<lparr>tn_ctx = ct, tn_multiforked = False, tn_in = [], tn_out = []\<rparr>],
         ctpToNodeMap := (ctpToNodeMap t)(ct_key ct \<mapsto> n)\<rparr>))"

definition hasGraphEdge :: "tct \<Rightarrow> node_id \<Rightarrow> node_id \<Rightarrow> bool" where
  "hasGraphEdge t src dst \<longleftrightarrow> set_find dst (tn_out (tctNodes t ! src)) \<and> set_find src (tn_in (tctNodes t ! dst))"

definition getGraphEdge :: "tct \<Rightarrow> node_id \<Rightarrow> node_id \<Rightarrow> (node_id \<times> node_id) option" where
  "getGraphEdge t src dst = map_option (Pair src) (List.find (\<lambda>d. d = dst) (tn_out (tctNodes t ! src)))"

definition upd_node :: "node_id \<Rightarrow> (tct_node \<Rightarrow> tct_node) \<Rightarrow> tct \<Rightarrow> tct" where
  "upd_node n f t = t\<lparr>tctNodes := (tctNodes t)[n := f (tctNodes t ! n)]\<rparr>"

definition addTCTEdge :: "node_id \<Rightarrow> node_id \<Rightarrow> tct \<Rightarrow> bool \<times> tct" where
  "addTCTEdge src dst t = (if \<not> hasGraphEdge t src dst
     then (True, upd_node src (\<lambda>n. n\<lparr>tn_out := set_insert dst (tn_out n)\<rparr>)
       (upd_node dst (\<lambda>n. n\<lparr>tn_in := set_insert src (tn_in n)\<rparr>) t))
     else (False, t))"

definition setMultiForkedAttrs :: "program \<Rightarrow> cxt_thread \<Rightarrow> cxt_thread option" where
  "setMultiForkedAttrs P ct = (if ct_forksite ct \<noteq> null_inst
     then (case isInLoopInstruction P (ct_forksite ct) of None \<Rightarrow> None
       | Some l \<Rightarrow> map_option (\<lambda>r. setIncycle r (setInloop l ct)) (isInRecursion P (ct_forksite ct)))
     else Some (setIncycle False (setInloop False ct)))"

definition getOrCreateTCTNode ::
    "program \<Rightarrow> call_str_cxt \<Rightarrow> inst \<Rightarrow> call_str_cxt \<Rightarrow> func \<Rightarrow> tct \<Rightarrow> (node_id \<times> tct) run" where
  "getOrCreateTCTNode P cxt fork oldCxt routine t =
     (let ct = CxtThread cxt fork in
      case ctpToNodeMap t (ct_key ct) of Some n \<Rightarrow> Some (Some (n, t))
      | None \<Rightarrow> (let t1 = t\<lparr>ctToForkCxtMap := (ctToForkCxtMap t)(ct_key ct \<mapsto> oldCxt),
            ctToRoutineFunMap := (ctToRoutineFunMap t)(ct_key ct \<mapsto> routine)\<rparr>
          in case setMultiForkedAttrs P ct of None \<Rightarrow> None | Some ct1 \<Rightarrow> Some (addTCTNode ct1 t1)))"

section \<open>Building the tree\<close>

definition tct_push :: "cxt_thread_proc \<Rightarrow> tct \<Rightarrow> bool \<times> tct" where
  "tct_push c t = (if c \<notin> tctVisited t
     then (case fifo_push c (tctList t) of (b, w) \<Rightarrow>
       (b, t\<lparr>tctVisited := insert c (tctVisited t), tctList := w\<rparr>))
     else (False, t))"

definition tct_handleCallRelation ::
    "program \<Rightarrow> cxt_thread_proc \<Rightarrow> cg_edge \<Rightarrow> inst \<Rightarrow> tct \<Rightarrow> tct run" where
  "tct_handleCallRelation P ctp e cs t =
     (let callee = e_dst e; oldCxt = cp_getContext (tp_base ctp);
          cxt = tct_pushCxt P t oldCxt cs callee in
      if e_kind e = CallRetEdge then
        Some (Some (snd (tct_push (CxtThreadProc (tp_getTid ctp) (CxtProc cxt callee)) t)))
      else if e_kind e = TDForkEdge then
        and_then (getOrCreateTCTNode P cxt cs oldCxt callee t) (\<lambda>(n, t1).
          case tct_push (CxtThreadProc n (CxtProc cxt callee)) t1 of
            (True, t2) \<Rightarrow> (case getGNode t2 (tp_getTid ctp) of None \<Rightarrow> Some None
              | Some _ \<Rightarrow> Some (Some (snd (addTCTEdge (tp_getTid ctp) n t2))))
          | (False, t2) \<Rightarrow> Some (Some t2))
      else Some (Some t))"

definition proc_step :: "program \<Rightarrow> tct \<Rightarrow> tct run" where
  "proc_step P t = (case fifo_pop (tctList t) of None \<Rightarrow> Some (Some t)
     | Some (ctp, w) \<Rightarrow> (let t1 = t\<lparr>tctList := w\<rparr>; f = cp_getProc (tp_base ctp) in
         if \<not> isCandidateFun t1 f then Some (Some t1)
         else foldR (\<lambda>e t. and_then (foldR (tct_handleCallRelation P ctp e) (e_direct e) t)
           (foldR (tct_handleCallRelation P ctp e) (e_indirect e))) (out_edges P f) t1))"

text \<open>\<open>collectMultiForkedThreads\<close> visits the nodes from the main thread on, without a visited set.\<close>

definition multi_step :: "tct \<times> node_id fifo \<Rightarrow> tct \<times> node_id fifo" where
  "multi_step = (\<lambda>(t, w). case fifo_pop w of None \<Rightarrow> (t, w)
     | Some (n, w1) \<Rightarrow> (let nd = tctNodes t ! n;
         m = (if ct_incycle (tn_ctx nd) \<or> ct_inloop (tn_ctx nd) then True
           else if list_ex (\<lambda>p. tn_multiforked (tctNodes t ! p)) (tn_in nd) then True
           else tn_multiforked nd) in
         (upd_node n (\<lambda>nd. nd\<lparr>tn_multiforked := m\<rparr>) t, fold (\<lambda>d w. snd (fifo_push d w)) (tn_out nd) w1)))"

definition collectMultiForkedThreads :: "tct \<Rightarrow> tct option" where
  "collectMultiForkedThreads t = (if tctNodes t = [] then Some t
     else map_option fst (while_option (\<lambda>(t, w). \<not> fifo_empty w) multi_step (t, snd (fifo_push 0 fifo_new))))"

definition build_entry :: "program \<Rightarrow> func \<Rightarrow> tct \<Rightarrow> tct run" where
  "build_entry P f t = (if \<not> isCandidateFun t f then Some (Some t)
     else and_then (getOrCreateTCTNode P [] null_inst [] f t) (\<lambda>(n, t1).
       Some (Some (snd (tct_push (CxtThreadProc n (CxtProc [] f)) t1)))))"

definition build :: "program \<Rightarrow> tct run" where
  "build P = and_then (markRelProcs P tct_new) (\<lambda>t1.
     and_then (collectLoopInfoForJoin P t1) (\<lambda>t2.
     and_then (Some (collectEntryFunInCallGraph P t2)) (\<lambda>t3.
     and_then (foldR (build_entry P) (entryFuncSet t3) t3) (\<lambda>t4.
     and_then (while_run (\<lambda>t. \<not> fifo_empty (tctList t)) (proc_step P) t4) (\<lambda>t5.
     map_option Some (collectMultiForkedThreads t5))))))"

section \<open>Queries\<close>

definition getTCTNode_ct :: "tct \<Rightarrow> cxt_thread \<Rightarrow> node_id option" where
  "getTCTNode_ct t ct = ctpToNodeMap t (ct_key ct)"

definition hasParentThread :: "tct \<Rightarrow> node_id \<Rightarrow> bool option" where
  "hasParentThread t n = map_option (\<lambda>nd. length (tn_in nd) = 1) (getGNode t n)"

definition getParentThread :: "tct \<Rightarrow> node_id \<Rightarrow> node_id option" where
  "getParentThread t n = (case getGNode t n of None \<Rightarrow> None
     | Some nd \<Rightarrow> (case tn_in nd of [p] \<Rightarrow> Some p | _ \<Rightarrow> None))"

definition ancestor_step :: "tct \<Rightarrow> node_id std_set \<times> node_id fifo \<Rightarrow> (node_id std_set \<times> node_id fifo) run" where
  "ancestor_step t = (\<lambda>(tds, w). case fifo_pop w of None \<Rightarrow> Some (Some (tds, w))
     | Some (n, w1) \<Rightarrow> (if set_find n tds then Some (Some (tds, w1))
         else (case hasParentThread t n of None \<Rightarrow> Some None
           | Some False \<Rightarrow> Some (Some (set_insert n tds, w1))
           | Some True \<Rightarrow> Some (map_option (\<lambda>p. (set_insert n tds, snd (fifo_push p w1))) (getParentThread t n)))))"

definition getAncestorThread :: "tct \<Rightarrow> node_id \<Rightarrow> node_id std_set run" where
  "getAncestorThread t n = (case hasParentThread t n of None \<Rightarrow> Some None
     | Some False \<Rightarrow> Some (Some [])
     | Some True \<Rightarrow> and_then (Some (getParentThread t n)) (\<lambda>p.
         and_then (while_run (\<lambda>(tds, w). \<not> fifo_empty w) (ancestor_step t) ([], snd (fifo_push p fifo_new)))
           (\<lambda>(tds, w). Some (Some tds))))"

definition getSiblingThread :: "tct \<Rightarrow> node_id \<Rightarrow> node_id std_set option" where
  "getSiblingThread t n = (case hasParentThread t n of None \<Rightarrow> None
     | Some False \<Rightarrow> Some []
     | Some True \<Rightarrow> (case getParentThread t n of None \<Rightarrow> None
       | Some p \<Rightarrow> map_option (\<lambda>nd. filter (\<lambda>d. d \<noteq> n) (tn_out nd)) (getGNode t p)))"

definition getCxtOfCxtThread :: "tct \<Rightarrow> cxt_thread \<Rightarrow> call_str_cxt option" where
  "getCxtOfCxtThread t ct = ctToForkCxtMap t (ct_key ct)"

definition getStartRoutineOfCxtThread :: "tct \<Rightarrow> cxt_thread \<Rightarrow> func option" where
  "getStartRoutineOfCxtThread t ct = ctToRoutineFunMap t (ct_key ct)"

end
