(* ===== verification/TCTree.thy ===== *)
theory TCTree
  imports TCT
begin

text \<open>
  What the construction of the thread creation tree computes: the searches over callers decide
  reachability in the call graph, the threads are those reachable from the entry functions,
  every thread but the main one has one parent, created before it, and a thread is marked as
  multi-forked exactly when it or one of its ancestors is forked in a loop or a recursion.
\<close>

section \<open>Searches over callers\<close>

lemma reach_mono_step: "x \<in> reach succ R \<Longrightarrow> R \<subseteq> S \<Longrightarrow> x \<in> reach succ S"
  by (auto simp: reach_def)

definition calls_finite :: "program \<Rightarrow> bool" where
  "calls_finite P \<longleftrightarrow> finite (\<Union>f. set (callers_of P f)) \<and> finite (\<Union>f. set (map e_src (in_edges P f)))"

lemma reach_finite:
  assumes "finite R" "finite (\<Union>x. succ x)"
  shows "finite (reach succ R)"
proof -
  have "reach succ R \<subseteq> R \<union> (\<Union>x. succ x)" by (rule reach_least) auto
  then show ?thesis using assms finite_subset by blast
qed

definition site_callers :: "program \<Rightarrow> inst \<Rightarrow> inst set" where
  "site_callers P i = set (callers_of P (fun_of P i))"

definition site_pend :: "site_search \<Rightarrow> inst set" where
  "site_pend s = set (data_list (ss_work s))"

definition site_done :: "site_search \<Rightarrow> inst set" where
  "site_done s = set (ss_insts s) - site_pend s"

definition site_inv :: "inst \<Rightarrow> site_search \<Rightarrow> bool" where
  "site_inv r s \<longleftrightarrow> fifo_inv (ss_work s) \<and> (site_pend s \<subseteq> set (ss_insts s) \<or> ss_insts s = [] \<and> site_pend s = {r})"

lemma site_pushes:
  assumes "fifo_inv (ss_work s)"
  shows "fifo_inv (ss_work (fold site_push is s)) \<and>
    set (ss_insts (fold site_push is s)) = set (ss_insts s) \<union> set is \<and>
    site_pend (fold site_push is s) = site_pend s \<union> (set is - set (ss_insts s))"
  using assms
proof (induction "is" arbitrary: s)
  case (Cons i "is")
  have "fifo_inv (ss_work (site_push i s)) \<and> set (ss_insts (site_push i s)) = insert i (set (ss_insts s)) \<and>
      site_pend (site_push i s) = site_pend s \<union> ({i} - set (ss_insts s))"
    using Cons.prems by (auto simp: site_push_def site_pend_def set_find_def fifo.push_set fifo.push_inv)
  with Cons.IH [of "site_push i s"] show ?case by auto
qed simp

lemma site_step_effect:
  assumes "site_inv r s" "\<not> fifo_empty (ss_work s)"
  shows "\<exists>i. i \<in> site_pend s \<and> i \<notin> site_done s \<and> site_inv r (site_step P s) \<and>
    site_done (site_step P s) = insert i (site_done s) \<and>
    site_pend (site_step P s) = (site_pend s - {i}) \<union> (site_callers P i - (set (ss_insts s) \<union> {i})) \<and>
    set (ss_insts (site_step P s)) = set (ss_insts s) \<union> {i} \<union> site_callers P i"
proof -
  have f: "fifo_inv (ss_work s)" using assms(1) by (simp add: site_inv_def)
  obtain i w where p: "fifo_pop (ss_work s) = Some (i, w)"
    using assms(2) fifo.pop_None [OF f] by (cases "fifo_pop (ss_work s)") (auto simp: fifo_empty_def)
  have w: "fifo_inv w" "i \<in> site_pend s" "set (data_list w) = site_pend s - {i}"
    using fifo.pop_Some [OF f p] fifo.pop_set [OF f p] by (auto simp: site_pend_def)
  let ?s1 = "s\<lparr>ss_work := w, ss_insts := set_insert i (ss_insts s)\<rparr>"
  have st: "site_step P s = fold site_push (callers_of P (fun_of P i)) ?s1"
    by (simp add: site_step_def p)
  have h: "fifo_inv (ss_work (site_step P s))"
    "set (ss_insts (site_step P s)) = set (ss_insts s) \<union> {i} \<union> site_callers P i"
    "site_pend (site_step P s) = (site_pend s - {i}) \<union> (site_callers P i - (set (ss_insts s) \<union> {i}))"
    using site_pushes [of ?s1 "callers_of P (fun_of P i)", folded st] w
    by (auto simp: site_callers_def site_pend_def)
  have "site_pend s \<subseteq> insert i (set (ss_insts s))" using assms(1) w(2) by (auto simp: site_inv_def)
  then have "site_inv r (site_step P s) \<and> site_done (site_step P s) = insert i (site_done s)"
    using h w(2) assms(1) by (auto simp: site_inv_def site_done_def)
  moreover have "i \<notin> site_done s" using w(2) by (simp add: site_done_def)
  ultimately show ?thesis using h w by blast
qed

interpretation sites: graph_search "site_callers P" "\<lambda>_. False" site_pend site_done "\<lambda>_. False"
  "\<lambda>s. length (data_list (ss_work s))" "\<lambda>s. \<not> fifo_empty (ss_work s)" "site_step P" "site_inv r"
  for P r
proof (unfold_locales, goal_cases)
  case (2 s) then show ?case using site_step_effect by blast
next
  case (4 s)
  then show ?case using site_step_effect [OF 4(1,2), of P] by (auto simp: site_done_def)
next
  case (5 s) then show ?case using site_step_effect [OF 5(1,2), of P] by auto
next
  case (6 s) then show ?case using site_step_effect [OF 6(1,2), of P] by auto
next
  case (7 s x)
  then obtain i where i: "site_inv r (site_step P s)" "x = i"
    "set (ss_insts (site_step P s)) = set (ss_insts s) \<union> {i} \<union> site_callers P i"
    using site_step_effect [OF 7(1,2), of P] by auto
  then show ?case using 7 by (auto simp: site_done_def)
qed (auto simp: fifo_empty_def site_pend_def)

lemma isInLoopInstruction_reach:
  assumes "calls_finite P"
  shows "isInLoopInstruction P i = Some (\<exists>j\<in>reach (site_callers P) {i}. tct_getLoop P j \<noteq> None)"
proof -
  let ?s = "\<lparr>ss_insts = [], ss_work = snd (fifo_push i fifo_new)\<rparr>"
  have i: "site_inv i ?s" "site_done ?s = {}" "site_pend ?s = {i}"
    by (auto simp: site_inv_def site_done_def site_pend_def fifo_push_def fifo_new_def fifo_inv_def)
  have fin: "finite (reach (site_callers P) {i})"
  proof (rule reach_finite)
    have "(\<Union>i. site_callers P i) \<subseteq> (\<Union>f. set (callers_of P f))" by (auto simp: site_callers_def)
    then show "finite (\<Union>i. site_callers P i)" using assms finite_subset by (auto simp: calls_finite_def)
  qed simp
  obtain t where t: "while_option (\<lambda>s. \<not> fifo_empty (ss_work s)) (site_step P) ?s = Some t"
    using sites.search_terminates [OF fin i] by auto
  have r: "site_inv i t" "site_done t = reach (site_callers P) {i}" using sites.search_result [OF t i] by auto
  have "fifo_empty (ss_work t)" using while_option_stop [OF t] by simp
  then have "set (ss_insts t) = reach (site_callers P) {i}"
    using r(2) by (simp add: site_done_def site_pend_def fifo_empty_def)
  then show ?thesis using t by (simp add: isInLoopInstruction_def list_ex_iff)
qed

definition fun_callers :: "program \<Rightarrow> func \<Rightarrow> func set" where
  "fun_callers P f = fun_of P ` set (callers_of P f)"

definition recur_pend :: "recur_search \<Rightarrow> func set" where
  "recur_pend s = set (data_list (rs_work s))"

definition recur_inv :: "program \<Rightarrow> recur_search \<Rightarrow> bool" where
  "recur_inv P s \<longleftrightarrow> fifo_inv (rs_work s) \<and> (rs_found s \<or> set (rs_visits s) \<inter> recur_pend s = {})"

lemma recur_pushes:
  assumes "fifo_inv (rs_work s)"
  shows "fifo_inv (rs_work (fold recur_push fs s)) \<and> rs_visits (fold recur_push fs s) = rs_visits s \<and>
    rs_found (fold recur_push fs s) = rs_found s \<and>
    recur_pend (fold recur_push fs s) = recur_pend s \<union> (set fs - set (rs_visits s))"
  using assms
proof (induction fs arbitrary: s)
  case (Cons f fs)
  have "fifo_inv (rs_work (recur_push f s)) \<and> rs_visits (recur_push f s) = rs_visits s \<and>
      rs_found (recur_push f s) = rs_found s \<and> recur_pend (recur_push f s) = recur_pend s \<union> ({f} - set (rs_visits s))"
    using Cons.prems by (auto simp: recur_push_def recur_pend_def set_find_def fifo.push_set fifo.push_inv)
  with Cons.IH [of "recur_push f s"] show ?case by auto
qed simp

lemma recur_step_effect:
  assumes "recur_inv P s" "\<not> fifo_empty (rs_work s) \<and> \<not> rs_found s"
  shows "\<exists>f. f \<in> recur_pend s \<and> f \<notin> set (rs_visits s) \<and> recur_inv P (recur_step P s) \<and>
    rs_found (recur_step P s) = in_cycle P f \<and>
    (\<not> in_cycle P f \<longrightarrow> set (rs_visits (recur_step P s)) = insert f (set (rs_visits s)) \<and>
      recur_pend (recur_step P s) = (recur_pend s - {f}) \<union> (fun_callers P f - insert f (set (rs_visits s))))"
proof -
  have f: "fifo_inv (rs_work s)" "\<not> rs_found s" using assms by (simp_all add: recur_inv_def)
  obtain g w where p: "fifo_pop (rs_work s) = Some (g, w)"
    using assms(2) fifo.pop_None [OF f(1)] by (cases "fifo_pop (rs_work s)") (auto simp: fifo_empty_def)
  have w: "fifo_inv w" "g \<in> recur_pend s" "set (data_list w) = recur_pend s - {g}"
    using fifo.pop_Some [OF f(1) p] fifo.pop_set [OF f(1) p] by (auto simp: recur_pend_def)
  let ?s1 = "s\<lparr>rs_work := w, rs_visits := set_insert g (rs_visits s)\<rparr>"
  have st: "recur_step P s = (if in_cycle P g then ?s1\<lparr>rs_found := True\<rparr>
      else fold recur_push (map (fun_of P) (callers_of P g)) ?s1)"
    by (simp add: recur_step_def p Let_def)
  have d: "set (rs_visits s) \<inter> recur_pend s = {}" using assms f by (simp add: recur_inv_def)
  have w1: "fifo_inv (rs_work ?s1)" using w by simp
  note h = recur_pushes [OF w1, of "map (fun_of P) (callers_of P g)"]
  show ?thesis
  proof (cases "in_cycle P g")
    case True
    then show ?thesis using w d st by (intro exI [of _ g]) (auto simp: recur_inv_def)
  next
    case False
    then show ?thesis using w d st h f
      by (intro exI [of _ g]) (auto simp: recur_inv_def recur_pend_def fun_callers_def)
  qed
qed

interpretation recur: graph_search "fun_callers P" "in_cycle P" recur_pend "\<lambda>s. set (rs_visits s)" rs_found
  "\<lambda>s. length (data_list (rs_work s))" "\<lambda>s. \<not> fifo_empty (rs_work s) \<and> \<not> rs_found s" "recur_step P" "recur_inv P"
  for P
proof (unfold_locales, goal_cases)
  case (2 s) then show ?case using recur_step_effect by blast
next
  case (3 s) then show ?case using recur_step_effect [OF 3(1,2)] by auto
next
  case (4 s) then show ?case using recur_step_effect [OF 4(1,2)] by auto
next
  case (5 s) then show ?case using recur_step_effect [OF 5(1,2)] by auto
next
  case (6 s) then show ?case using recur_step_effect [OF 6(1,2)] by auto
next
  case (7 s x)
  obtain f where f: "rs_found (recur_step P s) = in_cycle P f" "\<not> in_cycle P f \<longrightarrow>
      set (rs_visits (recur_step P s)) = insert f (set (rs_visits s)) \<and>
      recur_pend (recur_step P s) = (recur_pend s - {f}) \<union> (fun_callers P f - insert f (set (rs_visits s)))"
    using recur_step_effect [OF 7(1,2)] by blast
  then have "\<not> in_cycle P f" "x = f" using 7(3-5) by auto
  then show ?case using f(2) by blast
qed (auto simp: fifo_empty_def recur_pend_def)

lemma isInRecursion_reach:
  assumes "calls_finite P"
  shows "isInRecursion P i = Some (\<exists>f\<in>reach (fun_callers P) {fun_of P i}. in_cycle P f)"
proof -
  let ?s = "\<lparr>rs_visits = [], rs_work = snd (fifo_push (fun_of P i) fifo_new), rs_found = False\<rparr>"
  have i: "recur_inv P ?s" "set (rs_visits ?s) = {}" "recur_pend ?s = {fun_of P i}" "\<not> rs_found ?s"
    by (auto simp: recur_inv_def recur_pend_def fifo_push_def fifo_new_def fifo_inv_def)
  have fin: "finite (reach (fun_callers P) {fun_of P i})"
  proof (rule reach_finite)
    have "(\<Union>f. fun_callers P f) \<subseteq> fun_of P ` (\<Union>f. set (callers_of P f))" by (auto simp: fun_callers_def)
    then show "finite (\<Union>f. fun_callers P f)"
      by (rule finite_subset) (use assms in \<open>simp add: calls_finite_def\<close>)
  qed simp
  obtain t where t: "while_option (\<lambda>s. \<not> fifo_empty (rs_work s) \<and> \<not> rs_found s) (recur_step P) ?s = Some t"
    using recur.search_terminates [OF fin i] by blast
  have "rs_found t \<longleftrightarrow> (\<exists>x\<in>reach (fun_callers P) {fun_of P i}. in_cycle P x)"
    using recur.search_result [OF t i] by simp
  then show ?thesis using t by (simp add: isInRecursion_def)
qed

section \<open>Candidate functions\<close>

definition cg_callers :: "program \<Rightarrow> func \<Rightarrow> func set" where
  "cg_callers P f = set (map e_src (in_edges P f))"

definition rel_pend :: "cand_state \<Rightarrow> func set" where
  "rel_pend c = set (data_list (cd_work c))"

definition rel_done :: "cand_state \<Rightarrow> func set" where
  "rel_done c = cd_visited c - rel_pend c"

definition rel_inv :: "func set \<Rightarrow> cand_state \<Rightarrow> bool" where
  "rel_inv S c \<longleftrightarrow> fifo_inv (cd_work c) \<and> rel_pend c \<subseteq> cd_visited c \<and> std_set_ok (cd_funs c) \<and>
     set (cd_funs c) = S \<union> rel_done c"

lemma rel_pushes:
  assumes "fifo_inv (cd_work c)" "rel_pend c \<subseteq> cd_visited c"
  shows "fifo_inv (cd_work (fold cand_push fs c)) \<and> cd_funs (fold cand_push fs c) = cd_funs c \<and>
    cd_visited (fold cand_push fs c) = cd_visited c \<union> set fs \<and>
    rel_pend (fold cand_push fs c) = rel_pend c \<union> (set fs - cd_visited c)"
  using assms
proof (induction fs arbitrary: c)
  case (Cons f fs)
  have "fifo_inv (cd_work (cand_push f c)) \<and> cd_funs (cand_push f c) = cd_funs c \<and>
      cd_visited (cand_push f c) = insert f (cd_visited c) \<and>
      rel_pend (cand_push f c) = rel_pend c \<union> ({f} - cd_visited c)"
    using Cons.prems by (auto simp: cand_push_def rel_pend_def fifo.push_set fifo.push_inv)
  with Cons.IH [of "cand_push f c"] Cons.prems show ?case by auto
qed simp

lemma rel_step_effect:
  assumes "rel_inv S c" "\<not> fifo_empty (cd_work c)"
  shows "\<exists>f. f \<in> rel_pend c \<and> f \<notin> rel_done c \<and> rel_inv S (cand_step P c) \<and>
    rel_done (cand_step P c) = insert f (rel_done c) \<and>
    rel_pend (cand_step P c) = (rel_pend c - {f}) \<union> (cg_callers P f - cd_visited c) \<and>
    cd_visited (cand_step P c) = cd_visited c \<union> cg_callers P f"
proof -
  have i: "fifo_inv (cd_work c)" "rel_pend c \<subseteq> cd_visited c" "std_set_ok (cd_funs c)"
    "set (cd_funs c) = S \<union> rel_done c" using assms(1) by (simp_all add: rel_inv_def)
  obtain f w where p: "fifo_pop (cd_work c) = Some (f, w)"
    using assms(2) fifo.pop_None [OF i(1)] by (cases "fifo_pop (cd_work c)") (auto simp: fifo_empty_def)
  have w: "fifo_inv w" "f \<in> rel_pend c" "set (data_list w) = rel_pend c - {f}"
    using fifo.pop_Some [OF i(1) p] fifo.pop_set [OF i(1) p] by (auto simp: rel_pend_def)
  let ?c = "c\<lparr>cd_work := w, cd_funs := set_insert f (cd_funs c)\<rparr>"
  have st: "cand_step P c = fold cand_push (map e_src (in_edges P f)) ?c" by (simp add: cand_step_def p)
  have "fifo_inv (cd_work ?c)" "rel_pend ?c \<subseteq> cd_visited ?c" using w i(2) by (auto simp: rel_pend_def)
  note h = rel_pushes [OF this, of "map e_src (in_edges P f)", folded st cg_callers_def]
  have h': "fifo_inv (cd_work (cand_step P c))" "cd_funs (cand_step P c) = set_insert f (cd_funs c)"
    "cd_visited (cand_step P c) = cd_visited c \<union> cg_callers P f"
    "rel_pend (cand_step P c) = (rel_pend c - {f}) \<union> (cg_callers P f - cd_visited c)"
    using h w(3) by (auto simp: rel_pend_def)
  have d: "rel_done (cand_step P c) = insert f (rel_done c)"
    using h'(3,4) w(2) i(2) by (auto simp: rel_done_def)
  have "rel_inv S (cand_step P c)"
    using h' i d w(2) by (auto simp: rel_inv_def)
  moreover have "f \<notin> rel_done c" using w(2) by (simp add: rel_done_def)
  ultimately show ?thesis using d h' w by blast
qed

interpretation rel: graph_search "cg_callers P" "\<lambda>_. False" rel_pend rel_done "\<lambda>_. False"
  "\<lambda>c. length (data_list (cd_work c))" "\<lambda>c. \<not> fifo_empty (cd_work c)" "cand_step P" "rel_inv S"
  for P S
proof (unfold_locales, goal_cases)
  case (2 s) then show ?case using rel_step_effect by blast
next
  case (4 s)
  then have "rel_pend s \<subseteq> cd_visited s" by (simp add: rel_inv_def)
  then show ?case using rel_step_effect [OF 4(1,2), of P] 4 by (auto simp: rel_done_def)
next
  case (5 s) then show ?case using rel_step_effect [OF 5(1,2), of P] by auto
next
  case (6 s) then show ?case using rel_step_effect [OF 6(1,2), of P] by auto
next
  case (7 s x)
  then obtain f where f: "rel_inv S (cand_step P s)" "x = f"
    "cd_visited (cand_step P s) = cd_visited s \<union> cg_callers P f"
    using rel_step_effect [OF 7(1,2), of P] by auto
  then show ?case by (auto simp: rel_done_def)
qed (auto simp: fifo_empty_def rel_pend_def)

lemma markRelProcs_fun_reach:
  assumes "calls_finite P" "std_set_ok (candidateFuncSet t)"
  shows "\<exists>fs. markRelProcs_fun P f t = Some (Some (t\<lparr>candidateFuncSet := fs\<rparr>)) \<and> std_set_ok fs \<and>
    set fs = set (candidateFuncSet t) \<union> reach (cg_callers P) {f}"
proof -
  let ?c = "\<lparr>cd_visited = {f}, cd_work = snd (fifo_push f fifo_new), cd_funs = candidateFuncSet t\<rparr>"
  let ?S = "set (candidateFuncSet t)"
  have i: "rel_inv ?S ?c" "rel_done ?c = {}" "rel_pend ?c = {f}"
    using assms(2) by (auto simp: rel_inv_def rel_done_def rel_pend_def fifo_push_def fifo_new_def fifo_inv_def)
  have fin: "finite (reach (cg_callers P) {f})"
    using assms(1) by (intro reach_finite) (simp_all add: calls_finite_def cg_callers_def)
  obtain c where c: "while_option (\<lambda>c. \<not> fifo_empty (cd_work c)) (cand_step P) ?c = Some c"
    using rel.search_terminates [OF fin i] by blast
  have "rel_inv ?S c" "rel_done c = reach (cg_callers P) {f}" using rel.search_result [OF c i] by auto
  then show ?thesis using c by (intro exI [of _ "cd_funs c"]) (simp add: markRelProcs_fun_def rel_inv_def)
qed

text \<open>The functions relevant to threads.\<close>

definition fork_routines :: "program \<Rightarrow> inst \<Rightarrow> func set" where
  "fork_routines P i = (case fork_edges P i of None \<Rightarrow> {} | Some es \<Rightarrow> set (map e_dst es))"

definition rel_funs :: "program \<Rightarrow> func set" where
  "rel_funs P = reach (cg_callers P) (fun_of P ` set (fork_sites P @ join_sites P)) \<union>
     (\<Union>i\<in>set (fork_sites P). fork_routines P i)"

lemma reach_Un: "reach succ (R \<union> S) = reach succ R \<union> reach succ S"
  by (auto simp: reach_def)

lemma reach_UN: "reach succ (f ` I) = (\<Union>i\<in>I. reach succ {f i})"
  by (auto simp: reach_def)

lemma fold_set_insert:
  "std_set_ok s \<Longrightarrow> std_set_ok (fold set_insert xs s) \<and> set (fold set_insert xs s) = set xs \<union> set s"
  by (induction xs arbitrary: s) auto

lemma mark_forksites:
  assumes "calls_finite P" "std_set_ok (candidateFuncSet t)" "\<forall>i\<in>set is. fork_edges P i \<noteq> None"
  shows "\<exists>fs. foldR (mark_forksite P) is t = Some (Some (t\<lparr>candidateFuncSet := fs\<rparr>)) \<and> std_set_ok fs \<and>
    set fs = set (candidateFuncSet t) \<union> (\<Union>i\<in>set is. reach (cg_callers P) {fun_of P i} \<union> fork_routines P i)"
  using assms(2,3)
proof (induction "is" arbitrary: t)
  case Nil
  then show ?case by (intro exI [of _ "candidateFuncSet t"]) simp
next
  case (Cons i "is")
  obtain es where es: "fork_edges P i = Some es" using Cons.prems(2) by auto
  obtain fs where fs: "markRelProcs_fun P (fun_of P i) t = Some (Some (t\<lparr>candidateFuncSet := fs\<rparr>))"
    "std_set_ok fs" "set fs = set (candidateFuncSet t) \<union> reach (cg_callers P) {fun_of P i}"
    using markRelProcs_fun_reach [OF assms(1) Cons.prems(1)] by blast
  let ?t = "t\<lparr>candidateFuncSet := fold set_insert (map e_dst es) fs\<rparr>"
  have m: "mark_forksite P i t = Some (Some ?t)" by (simp add: mark_forksite_def fs es)
  have f: "std_set_ok (candidateFuncSet ?t)"
    "set (candidateFuncSet ?t) = set (map e_dst es) \<union> set fs"
    using fold_set_insert [OF fs(2), of "map e_dst es"] by simp_all
  have r: "\<forall>i\<in>set is. fork_edges P i \<noteq> None" using Cons.prems(2) by simp
  from Cons.IH [OF f(1) r] obtain fs' where "foldR (mark_forksite P) is ?t = Some (Some (?t\<lparr>candidateFuncSet := fs'\<rparr>))"
    "std_set_ok fs'" "set fs' = set (candidateFuncSet ?t) \<union> (\<Union>i\<in>set is. reach (cg_callers P) {fun_of P i} \<union> fork_routines P i)"
    by blast
  then show ?case using m f(2) fs(3) by (intro exI [of _ fs']) (auto simp: fork_routines_def es)
qed

lemma mark_joinsites:
  assumes "calls_finite P" "std_set_ok (candidateFuncSet t)"
  shows "\<exists>fs. foldR (\<lambda>i. markRelProcs_fun P (fun_of P i)) is t = Some (Some (t\<lparr>candidateFuncSet := fs\<rparr>)) \<and>
    std_set_ok fs \<and> set fs = set (candidateFuncSet t) \<union> (\<Union>i\<in>set is. reach (cg_callers P) {fun_of P i})"
  using assms(2)
proof (induction "is" arbitrary: t)
  case Nil
  then show ?case by (intro exI [of _ "candidateFuncSet t"]) simp
next
  case (Cons i "is")
  obtain fs where fs: "markRelProcs_fun P (fun_of P i) t = Some (Some (t\<lparr>candidateFuncSet := fs\<rparr>))"
    "std_set_ok fs" "set fs = set (candidateFuncSet t) \<union> reach (cg_callers P) {fun_of P i}"
    using markRelProcs_fun_reach [OF assms(1) Cons.prems] by blast
  from Cons.IH [of "t\<lparr>candidateFuncSet := fs\<rparr>"] fs(2) obtain fs' where
    "foldR (\<lambda>i. markRelProcs_fun P (fun_of P i)) is (t\<lparr>candidateFuncSet := fs\<rparr>) =
      Some (Some (t\<lparr>candidateFuncSet := fs'\<rparr>))"
    "std_set_ok fs'" "set fs' = set fs \<union> (\<Union>i\<in>set is. reach (cg_callers P) {fun_of P i})"
    by auto
  then show ?case using fs by (intro exI [of _ fs']) auto
qed

lemma markRelProcs_reach:
  assumes "calls_finite P" "candidateFuncSet t = []" "\<forall>i\<in>set (fork_sites P). fork_edges P i \<noteq> None"
  shows "\<exists>fs. markRelProcs P t = Some (Some (t\<lparr>candidateFuncSet := fs\<rparr>)) \<and> std_set_ok fs \<and> set fs = rel_funs P"
proof -
  have o: "std_set_ok (candidateFuncSet t)" using assms(2) by simp
  obtain fs where fs: "foldR (mark_forksite P) (fork_sites P) t = Some (Some (t\<lparr>candidateFuncSet := fs\<rparr>))"
    "std_set_ok fs" "set fs = (\<Union>i\<in>set (fork_sites P). reach (cg_callers P) {fun_of P i} \<union> fork_routines P i)"
    using mark_forksites [OF assms(1) o assms(3)] assms(2) by auto
  obtain fs' where "foldR (\<lambda>i. markRelProcs_fun P (fun_of P i)) (join_sites P) (t\<lparr>candidateFuncSet := fs\<rparr>) =
      Some (Some (t\<lparr>candidateFuncSet := fs'\<rparr>))" "std_set_ok fs'"
    "set fs' = set fs \<union> (\<Union>i\<in>set (join_sites P). reach (cg_callers P) {fun_of P i})"
    using mark_joinsites [OF assms(1), of "t\<lparr>candidateFuncSet := fs\<rparr>" "join_sites P"] fs(2) by auto
  then show ?thesis using fs
    by (intro exI [of _ fs']) (auto simp: markRelProcs_def rel_funs_def reach_Un reach_UN image_Un)
qed

end
