(* ===== verification/TCTBuild.thy ===== *)
theory TCTBuild
  imports TCTree
begin

text \<open>
  The construction of the thread creation tree: a search over the procedures that each thread
  runs, in their contexts. Its invariant says that the nodes are numbered in the order of
  their creation, that node ids and keys correspond, and that the graph is a tree.
\<close>

section \<open>The search space\<close>

text \<open>A procedure of a thread: the key of the thread, the context and the function.\<close>

type_synonym thread_proc = "ct_key \<times> call_str_cxt \<times> func"

definition push_in :: "program \<Rightarrow> func set \<Rightarrow> call_str_cxt \<Rightarrow> inst \<Rightarrow> func \<Rightarrow> call_str_cxt" where
  "push_in P C cxt call callee = (if fun_of P call \<in> C \<and> \<not> same_scc P (fun_of P call) callee
     then cxt @ [call_site_id P call callee] else cxt)"

definition calls_of :: "program \<Rightarrow> func \<Rightarrow> (cg_edge \<times> inst) list" where
  "calls_of P f = concat (map (\<lambda>e. map (Pair e) (e_direct e @ e_indirect e)) (out_edges P f))"

definition call_target :: "program \<Rightarrow> func set \<Rightarrow> thread_proc \<Rightarrow> cg_edge \<times> inst \<Rightarrow> thread_proc set" where
  "call_target P C = (\<lambda>(k, c, f) (e, cs). let c' = push_in P C c cs (e_dst e) in
     if e_kind e = CallRetEdge then {(k, c', e_dst e)}
     else if e_kind e = TDForkEdge then {((cs, c'), c', e_dst e)} else {})"

definition thread_succ :: "program \<Rightarrow> func set \<Rightarrow> thread_proc \<Rightarrow> thread_proc set" where
  "thread_succ P C x = (if snd (snd x) \<in> C then \<Union>y\<in>set (calls_of P (snd (snd x))). call_target P C x y else {})"

definition thread_roots :: "program \<Rightarrow> func set \<Rightarrow> func set \<Rightarrow> thread_proc set" where
  "thread_roots P C E = {((null_inst, []), [], f) | f. f \<in> E \<inter> C}"

abbreviation thread_procs :: "program \<Rightarrow> func set \<Rightarrow> func set \<Rightarrow> thread_proc set" where
  "thread_procs P C E \<equiv> reach (thread_succ P C) (thread_roots P C E)"

text \<open>Every fork site starts one routine.\<close>

definition fork_resolved :: "program \<Rightarrow> (inst \<Rightarrow> func) \<Rightarrow> bool" where
  "fork_resolved P rt \<longleftrightarrow> (\<forall>f e cs. (e, cs) \<in> set (calls_of P f) \<longrightarrow> e_kind e = TDForkEdge \<longrightarrow>
     cs \<noteq> null_inst \<and> e_dst e = rt cs)"

lemma tct_pushCxt_in: "set (candidateFuncSet t) = C \<Longrightarrow> tct_pushCxt P t = push_in P C"
  by (auto simp: tct_pushCxt_def push_in_def isCandidateFun_def set_find_def fun_eq_iff)

section \<open>The invariant\<close>

definition node_key :: "tct \<Rightarrow> node_id \<Rightarrow> ct_key" where
  "node_key t n = ct_key (tn_ctx (tctNodes t ! n))"

definition abs_proc :: "tct \<Rightarrow> cxt_thread_proc \<Rightarrow> thread_proc" where
  "abs_proc t c = (node_key t (tp_getTid c), cp_getContext (tp_base c), cp_getProc (tp_base c))"

definition loop_site :: "program \<Rightarrow> inst \<Rightarrow> bool" where
  "loop_site P i \<longleftrightarrow> (\<exists>j\<in>reach (site_callers P) {i}. tct_getLoop P j \<noteq> None)"

definition cycle_site :: "program \<Rightarrow> inst \<Rightarrow> bool" where
  "cycle_site P i \<longleftrightarrow> (\<exists>f\<in>reach (fun_callers P) {fun_of P i}. in_cycle P f)"

definition attrs_ok :: "program \<Rightarrow> tct \<Rightarrow> node_id \<Rightarrow> bool" where
  "attrs_ok P t n \<longleftrightarrow> (let ct = tn_ctx (tctNodes t ! n) in
     (ct_inloop ct \<longleftrightarrow> ct_forksite ct \<noteq> null_inst \<and> loop_site P (ct_forksite ct)) \<and>
     (ct_incycle ct \<longleftrightarrow> ct_forksite ct \<noteq> null_inst \<and> cycle_site P (ct_forksite ct)))"

text \<open>The parent of a thread runs a procedure that forks it, in the recorded context.\<close>

definition forked_by :: "program \<Rightarrow> func set \<Rightarrow> tct \<Rightarrow> node_id \<Rightarrow> node_id \<Rightarrow> bool" where
  "forked_by P C t p n \<longleftrightarrow> (\<exists>q\<in>tctVisited t. tp_getTid q = p \<and> cp_getProc (tp_base q) \<in> C \<and>
     ctToForkCxtMap t (node_key t n) = Some (cp_getContext (tp_base q)) \<and>
     (\<exists>e. (e, fst (node_key t n)) \<in> set (calls_of P (cp_getProc (tp_base q))) \<and> e_kind e = TDForkEdge \<and>
        snd (node_key t n) = push_in P C (cp_getContext (tp_base q)) (fst (node_key t n)) (e_dst e)))"

definition tree_node :: "program \<Rightarrow> func set \<Rightarrow> (inst \<Rightarrow> func) \<Rightarrow> tct \<Rightarrow> node_id \<Rightarrow> bool" where
  "tree_node P C rt t n \<longleftrightarrow>
     (if fst (node_key t n) = null_inst then node_key t n = (null_inst, []) \<and> tn_in (tctNodes t ! n) = []
      else (\<exists>p<n. tn_in (tctNodes t ! n) = [p] \<and> forked_by P C t p n) \<and>
        CxtThreadProc n (CxtProc (snd (node_key t n)) (rt (fst (node_key t n)))) \<in> tctVisited t \<and>
        ctToRoutineFunMap t (node_key t n) = Some (rt (fst (node_key t n))))"

definition edges_ok :: "tct \<Rightarrow> bool" where
  "edges_ok t \<longleftrightarrow> (\<forall>a<length (tctNodes t). std_set_ok (tn_out (tctNodes t ! a)) \<and>
     set (tn_out (tctNodes t ! a)) = {b. b < length (tctNodes t) \<and> a \<in> set (tn_in (tctNodes t ! b))})"

definition keys_ok :: "tct \<Rightarrow> bool" where
  "keys_ok t \<longleftrightarrow> (\<forall>k n. ctpToNodeMap t k = Some n \<longleftrightarrow> n < length (tctNodes t) \<and> node_key t n = k) \<and>
     dom (ctToForkCxtMap t) = dom (ctpToNodeMap t) \<and> dom (ctToRoutineFunMap t) = dom (ctpToNodeMap t)"

abbreviation tct_pend :: "tct \<Rightarrow> cxt_thread_proc set" where
  "tct_pend t \<equiv> set (data_list (tctList t))"

definition tct_base :: "program \<Rightarrow> func set \<Rightarrow> func set \<Rightarrow> (inst \<Rightarrow> func) \<Rightarrow> tct \<Rightarrow> bool" where
  "tct_base P C E rt t \<longleftrightarrow> set (candidateFuncSet t) = C \<and> fifo_inv (tctList t) \<and> tct_pend t \<subseteq> tctVisited t \<and>
     keys_ok t \<and> edges_ok t \<and> (\<forall>c\<in>tctVisited t. tp_getTid c < length (tctNodes t)) \<and>
     abs_proc t ` tctVisited t \<subseteq> thread_procs P C E \<and>
     (\<forall>n<length (tctNodes t). attrs_ok P t n \<and> tree_node P C rt t n \<and> \<not> tn_multiforked (tctNodes t ! n))"

definition tct_inv :: "program \<Rightarrow> func set \<Rightarrow> func set \<Rightarrow> (inst \<Rightarrow> func) \<Rightarrow> tct \<Rightarrow> bool" where
  "tct_inv P C E rt t \<longleftrightarrow> tct_base P C E rt t \<and> thread_roots P C E \<subseteq> abs_proc t ` tctVisited t \<and>
     (\<forall>c\<in>tctVisited t. c \<notin> tct_pend t \<longrightarrow> thread_succ P C (abs_proc t c) \<subseteq> abs_proc t ` tctVisited t)"

text \<open>How a handler may change the state.\<close>

definition tct_grows :: "tct \<Rightarrow> tct \<Rightarrow> bool" where
  "tct_grows t t' \<longleftrightarrow> length (tctNodes t) \<le> length (tctNodes t') \<and>
     (\<forall>n<length (tctNodes t). tn_ctx (tctNodes t' ! n) = tn_ctx (tctNodes t ! n)) \<and>
     tctVisited t \<subseteq> tctVisited t' \<and> tctVisited t' \<subseteq> tctVisited t \<union> tct_pend t' \<and> tct_pend t \<subseteq> tct_pend t' \<and>
     entryFuncSet t' = entryFuncSet t \<and> joinSiteToLoopMap t' = joinSiteToLoopMap t \<and>
     inRecurJoinSites t' = inRecurJoinSites t \<and> tct_pend t' \<subseteq> tct_pend t \<union> (tctVisited t' - tctVisited t)"

lemma tct_grows_refl: "tct_grows t t"
  by (auto simp: tct_grows_def)

lemma tct_grows_trans:
  assumes "tct_grows t t1" "tct_grows t1 t2"
  shows "tct_grows t t2"
proof -
  have "tn_ctx (tctNodes t2 ! n) = tn_ctx (tctNodes t ! n)" if "n < length (tctNodes t)" for n
    using assms that unfolding tct_grows_def by (metis order.strict_trans2)
  moreover have "tctVisited t2 \<subseteq> tctVisited t \<union> tct_pend t2"
    "tct_pend t2 \<subseteq> tct_pend t \<union> (tctVisited t2 - tctVisited t)"
    using assms unfolding tct_grows_def by blast+
  ultimately show ?thesis using assms unfolding tct_grows_def by (auto intro: order_trans)
qed

lemma abs_proc_grows:
  "tct_grows t t' \<Longrightarrow> tp_getTid c < length (tctNodes t) \<Longrightarrow> abs_proc t' c = abs_proc t c"
  by (simp add: tct_grows_def abs_proc_def node_key_def)

lemma tct_push_effect:
  assumes "fifo_inv (tctList t)" "tct_pend t \<subseteq> tctVisited t"
  shows "\<exists>w. tct_push c t = (c \<notin> tctVisited t, t\<lparr>tctVisited := insert c (tctVisited t), tctList := w\<rparr>) \<and>
    fifo_inv w \<and> set (data_list w) = tct_pend t \<union> ({c} - tctVisited t)"
proof (cases "c \<in> tctVisited t")
  case True
  then show ?thesis using assms by (intro exI [of _ "tctList t"]) (auto simp: tct_push_def insert_absorb)
next
  case False
  then have "c \<notin> tct_pend t" using assms(2) by blast
  moreover obtain b w where p: "fifo_push c (tctList t) = (b, w)" by (cases "fifo_push c (tctList t)")
  ultimately show ?thesis using False fifo.push [OF assms(1) p] by (auto simp: tct_push_def)
qed

section \<open>Pushing a procedure\<close>

lemma visited_frame:
  assumes "tct_base P C E rt t" "tctVisited t \<subseteq> V"
    and t': "t' = t\<lparr>tctVisited := V, tctList := w\<rparr>"
  shows "keys_ok t' \<and> edges_ok t' \<and> node_key t' = node_key t \<and>
    (\<forall>n<length (tctNodes t'). attrs_ok P t' n \<and> tree_node P C rt t' n \<and> \<not> tn_multiforked (tctNodes t' ! n))"
proof -
  have k: "node_key t' n = node_key t n" for n by (simp add: t' node_key_def)
  have "forked_by P C t' p n" if "forked_by P C t p n" for p n
    using that assms(2) unfolding forked_by_def k by (auto simp: t')
  then have "tree_node P C rt t' n" if "tree_node P C rt t n" for n
    using that assms(2) unfolding tree_node_def k by (auto simp: t' split: if_splits)
  then show ?thesis using assms(1) k by (auto simp: tct_base_def keys_ok_def edges_ok_def attrs_ok_def t' fun_eq_iff)
qed

lemma push_base:
  assumes b: "tct_base P C E rt t" and c: "tp_getTid c < length (tctNodes t)" "abs_proc t c \<in> thread_procs P C E"
  shows "tct_base P C E rt (snd (tct_push c t)) \<and> tct_grows t (snd (tct_push c t)) \<and>
    tctVisited (snd (tct_push c t)) = insert c (tctVisited t) \<and>
    tctNodes (snd (tct_push c t)) = tctNodes t"
proof -
  have i: "fifo_inv (tctList t)" "tct_pend t \<subseteq> tctVisited t" using b by (simp_all add: tct_base_def)
  obtain w where w: "tct_push c t = (c \<notin> tctVisited t, t\<lparr>tctVisited := insert c (tctVisited t), tctList := w\<rparr>)"
    "fifo_inv w" "set (data_list w) = tct_pend t \<union> ({c} - tctVisited t)"
    using tct_push_effect [OF i] by blast
  let ?t = "t\<lparr>tctVisited := insert c (tctVisited t), tctList := w\<rparr>"
  note f = visited_frame [OF b, of "insert c (tctVisited t)" ?t w]
  have "abs_proc ?t = abs_proc t" by (simp add: fun_eq_iff abs_proc_def node_key_def)
  then have "tct_base P C E rt ?t" using b f c w i(2) unfolding tct_base_def by auto
  moreover have "tct_grows t ?t" using w i(2) by (auto simp: tct_grows_def)
  ultimately show ?thesis using w(1) by simp
qed

section \<open>Forking a thread\<close>

text \<open>A new node, with its maps, its first procedure and the edge from its parent.\<close>

definition fork_node :: "cxt_thread \<Rightarrow> call_str_cxt \<Rightarrow> func \<Rightarrow> node_id \<Rightarrow> cxt_thread_proc fifo \<Rightarrow> tct \<Rightarrow> tct" where
  "fork_node ct oldCxt routine p w t =
     (let n = length (tctNodes t); c = CxtThreadProc n (CxtProc (ct_cxt ct) routine) in
      t\<lparr>ctToForkCxtMap := (ctToForkCxtMap t)(ct_key ct \<mapsto> oldCxt),
        ctToRoutineFunMap := (ctToRoutineFunMap t)(ct_key ct \<mapsto> routine),
        tctNodes := (tctNodes t)[p := (tctNodes t ! p)\<lparr>tn_out := set_insert n (tn_out (tctNodes t ! p))\<rparr>] @
          [\<lparr>tn_ctx = ct, tn_multiforked = False, tn_in = [p], tn_out = []\<rparr>],
        ctpToNodeMap := (ctpToNodeMap t)(ct_key ct \<mapsto> n),
        tctVisited := insert c (tctVisited t), tctList := w\<rparr>)"

lemma fork_node_nth:
  assumes "p < length (tctNodes t)" and t': "t' = fork_node ct oldCxt routine p w t"
  shows "length (tctNodes t') = Suc (length (tctNodes t))"
    and "n < length (tctNodes t) \<Longrightarrow> tn_ctx (tctNodes t' ! n) = tn_ctx (tctNodes t ! n)"
    and "n < length (tctNodes t) \<Longrightarrow> tn_in (tctNodes t' ! n) = tn_in (tctNodes t ! n)"
    and "n < length (tctNodes t) \<Longrightarrow> tn_multiforked (tctNodes t' ! n) = tn_multiforked (tctNodes t ! n)"
    and "n < length (tctNodes t) \<Longrightarrow> tn_out (tctNodes t' ! n) =
      (if n = p then set_insert (length (tctNodes t)) (tn_out (tctNodes t ! n)) else tn_out (tctNodes t ! n))"
    and "tctNodes t' ! length (tctNodes t) = \<lparr>tn_ctx = ct, tn_multiforked = False, tn_in = [p], tn_out = []\<rparr>"
  using assms(1) by (simp_all add: t' fork_node_def Let_def nth_append nth_list_update)

lemma fork_node_base:
  assumes b: "tct_base P C E rt t" and q: "q \<in> tctVisited t" "cp_getProc (tp_base q) \<in> C"
    and e: "(e, cs) \<in> set (calls_of P (cp_getProc (tp_base q)))" "e_kind e = TDForkEdge"
    and cxt: "cxt = push_in P C (cp_getContext (tp_base q)) cs (e_dst e)"
    and rt: "fork_resolved P rt" and new: "ctpToNodeMap t (cs, cxt) = None"
    and ct: "ct_key ct = (cs, cxt)" "ct_cxt ct = cxt" "ct_inloop ct = loop_site P cs" "ct_incycle ct = cycle_site P cs"
    and w: "fifo_inv w" "set (data_list w) = insert (CxtThreadProc (length (tctNodes t)) (CxtProc cxt (e_dst e))) (tct_pend t)"
    and R: "((cs, cxt), cxt, e_dst e) \<in> thread_procs P C E"
    and t': "t' = fork_node ct (cp_getContext (tp_base q)) (e_dst e) (tp_getTid q) w t"
  shows "tct_base P C E rt t' \<and> tct_grows t t' \<and> ((cs, cxt), cxt, e_dst e) \<in> abs_proc t' ` tctVisited t'"
proof -
  let ?n = "length (tctNodes t)" and ?p = "tp_getTid q"
  let ?c = "CxtThreadProc ?n (CxtProc cxt (e_dst e))"
  have p: "?p < ?n" using b q by (simp add: tct_base_def)
  have cs: "cs \<noteq> null_inst" "e_dst e = rt cs" using rt e unfolding fork_resolved_def by blast+
  note N = fork_node_nth [OF p t']
  have V: "tctVisited t' = insert ?c (tctVisited t)" "tctList t' = w" "candidateFuncSet t' = candidateFuncSet t"
    "ctToForkCxtMap t' = (ctToForkCxtMap t)((cs, cxt) \<mapsto> cp_getContext (tp_base q))"
    "ctToRoutineFunMap t' = (ctToRoutineFunMap t)((cs, cxt) \<mapsto> e_dst e)"
    "ctpToNodeMap t' = (ctpToNodeMap t)((cs, cxt) \<mapsto> ?n)"
    by (simp_all add: t' fork_node_def Let_def ct)
  have nk: "node_key t' n = node_key t n" if "n < ?n" for n using N(2) that by (simp add: node_key_def)
  have nk': "node_key t' ?n = (cs, cxt)" using N(6) ct by (simp add: node_key_def)
  have K: "keys_ok t" "edges_ok t" "\<And>c. c \<in> tctVisited t \<Longrightarrow> tp_getTid c < ?n" "tct_pend t \<subseteq> tctVisited t"
    "\<And>n. n < ?n \<Longrightarrow> attrs_ok P t n" "\<And>n. n < ?n \<Longrightarrow> tree_node P C rt t n"
    "\<And>n. n < ?n \<Longrightarrow> \<not> tn_multiforked (tctNodes t ! n)" "abs_proc t ` tctVisited t \<subseteq> thread_procs P C E"
    "set (candidateFuncSet t) = C"
    using b by (simp_all add: tct_base_def)
  have K1: "ctpToNodeMap t k = Some n \<longleftrightarrow> n < ?n \<and> node_key t n = k" for k n
    using K(1) unfolding keys_ok_def by blast
  have fresh: "node_key t n \<noteq> (cs, cxt)" if "n < ?n" for n
    using K1 [of "(cs, cxt)" n] that new by simp
  have keys: "keys_ok t'"
  proof -
    have "(ctpToNodeMap t' k = Some n) = (n < length (tctNodes t') \<and> node_key t' n = k)" for k n
    proof (cases "n = ?n")
      case True
      then show ?thesis using nk' K1 [of k n] unfolding V N(1) by auto
    next
      case False
      then show ?thesis using nk K1 [of k n] fresh unfolding V N(1) less_Suc_eq by auto
    qed
    then show ?thesis using K(1) unfolding keys_ok_def V by auto
  qed
  have ab: "abs_proc t' c = abs_proc t c" if "c \<in> tctVisited t" for c
    using nk [OF K(3) [OF that]] by (simp add: abs_proc_def)
  have ab': "abs_proc t' ?c = ((cs, cxt), cxt, e_dst e)" using nk' by (simp add: abs_proc_def)
  have edges: "edges_ok t'"
    unfolding edges_ok_def
  proof (intro allI impI)
    fix a assume "a < length (tctNodes t')"
    then consider "a < ?n" | "a = ?n" unfolding N(1) by linarith
    then show "std_set_ok (tn_out (tctNodes t' ! a)) \<and>
      set (tn_out (tctNodes t' ! a)) = {b. b < length (tctNodes t') \<and> a \<in> set (tn_in (tctNodes t' ! b))}"
    proof cases
      case 1
      have "{b. b < length (tctNodes t') \<and> a \<in> set (tn_in (tctNodes t' ! b))} =
          {b. b < ?n \<and> a \<in> set (tn_in (tctNodes t ! b))} \<union> (if a = ?p then {?n} else {})"
        using N(3,6) unfolding N(1) by (auto simp: less_Suc_eq)
      moreover have "std_set_ok (tn_out (tctNodes t ! a))"
        "set (tn_out (tctNodes t ! a)) = {b. b < ?n \<and> a \<in> set (tn_in (tctNodes t ! b))}"
        using K(2) 1 by (simp_all add: edges_ok_def)
      ultimately show ?thesis using N(5) [OF 1] by auto
    next
      case 2
      have "?n \<notin> set (tn_in (tctNodes t ! b))" if "b < ?n" for b
        using K(6) [OF that] that by (auto simp: tree_node_def split: if_splits)
      then have "{b. b < length (tctNodes t') \<and> ?n \<in> set (tn_in (tctNodes t' ! b))} = {}"
        using N(3,6) p unfolding N(1) by (auto simp: less_Suc_eq)
      then show ?thesis using N(6) 2 by simp
    qed
  qed
  have fb: "forked_by P C t' p' n" if "forked_by P C t p' n" "n < ?n" for p' n
    using that fresh [OF that(2)] unfolding forked_by_def nk [OF that(2)] V by auto
  have tree: "tree_node P C rt t' n \<and> attrs_ok P t' n \<and> \<not> tn_multiforked (tctNodes t' ! n)" if n: "n < Suc ?n" for n
  proof (cases "n = ?n")
    case True
    have "forked_by P C t' ?p ?n" unfolding forked_by_def nk' V using q e cxt by auto
    then have "tree_node P C rt t' ?n" unfolding tree_node_def nk' using N(6) p cs V by simp
    moreover have "attrs_ok P t' ?n" using N(6) ct cs by (simp add: attrs_ok_def ct_key_def)
    ultimately show ?thesis using True N(6) by simp
  next
    case False
    then have l: "n < ?n" using n by simp
    have "tree_node P C rt t' n"
      using K(6) [OF l] fb l fresh [OF l] N(3) [OF l] unfolding tree_node_def nk [OF l] V by (auto split: if_splits)
    then show ?thesis using K(5,7) l N(2,4) by (simp add: attrs_ok_def)
  qed
  have "tct_base P C E rt t'"
    unfolding tct_base_def V N(1)
    using keys edges tree K(3,8,9) w ab ab' R K(4) by (auto simp: less_SucI)
  moreover have "tct_grows t t'"
  proof -
    have "?c \<notin> tctVisited t" using K(3) [of ?c] by auto
    then show ?thesis using N(1,2) V w by (auto simp: tct_grows_def t' fork_node_def Let_def)
  qed
  ultimately show ?thesis using ab' V by force
qed

lemma setMultiForkedAttrs_sites:
  assumes "calls_finite P" "cs \<noteq> null_inst"
  shows "setMultiForkedAttrs P (CxtThread cxt cs) =
    Some \<lparr>ct_cxt = cxt, ct_forksite = cs, ct_inloop = loop_site P cs, ct_incycle = cycle_site P cs\<rparr>"
  using assms by (simp add: setMultiForkedAttrs_def CxtThread_def isInLoopInstruction_reach
    isInRecursion_reach loop_site_def cycle_site_def setInloop_def setIncycle_def)

lemma call_target_procs:
  assumes "tct_base P C E rt t" "q \<in> tctVisited t" "cp_getProc (tp_base q) \<in> C"
    and "y \<in> set (calls_of P (cp_getProc (tp_base q)))" "x \<in> call_target P C (abs_proc t q) y"
  shows "x \<in> thread_procs P C E"
proof -
  have "abs_proc t q \<in> thread_procs P C E" using assms(1,2) by (auto simp: tct_base_def)
  moreover have "x \<in> thread_succ P C (abs_proc t q)"
    using assms(3-5) by (auto simp: thread_succ_def abs_proc_def)
  ultimately show ?thesis by (rule reach_step)
qed

lemma handleCallRelation_fork:
  assumes b: "tct_base P C E rt t" and q: "q \<in> tctVisited t" "cp_getProc (tp_base q) \<in> C"
    and e: "(e, cs) \<in> set (calls_of P (cp_getProc (tp_base q)))" "e_kind e = TDForkEdge"
    and P: "calls_finite P" "fork_resolved P rt"
  shows "\<exists>t'. tct_handleCallRelation P q e cs t = Some (Some t') \<and> tct_base P C E rt t' \<and> tct_grows t t' \<and>
    call_target P C (abs_proc t q) (e, cs) \<subseteq> abs_proc t' ` tctVisited t'"
proof -
  define cxt where "cxt = push_in P C (cp_getContext (tp_base q)) cs (e_dst e)"
  have cs: "cs \<noteq> null_inst" "e_dst e = rt cs" using P(2) e unfolding fork_resolved_def by blast+
  have C: "set (candidateFuncSet t) = C" using b by (simp add: tct_base_def)
  have tgt: "call_target P C (abs_proc t q) (e, cs) = {((cs, cxt), cxt, e_dst e)}"
    using e(2) by (simp add: call_target_def abs_proc_def cxt_def Let_def)
  have R: "((cs, cxt), cxt, e_dst e) \<in> thread_procs P C E"
    by (rule call_target_procs [OF b q e(1)]) (simp add: tgt)
  have k: "ct_key (CxtThread cxt cs) = (cs, cxt)" by (simp add: ct_key_def CxtThread_def)
  have h: "tct_handleCallRelation P q e cs t = and_then (getOrCreateTCTNode P cxt cs (cp_getContext (tp_base q)) (e_dst e) t)
      (\<lambda>(n, t1). case tct_push (CxtThreadProc n (CxtProc cxt (e_dst e))) t1 of
        (True, t2) \<Rightarrow> (case getGNode t2 (tp_getTid q) of None \<Rightarrow> Some None
          | Some _ \<Rightarrow> Some (Some (snd (addTCTEdge (tp_getTid q) n t2))))
      | (False, t2) \<Rightarrow> Some (Some t2))"
    using e(2) by (simp add: tct_handleCallRelation_def Let_def cxt_def tct_pushCxt_in [OF C])
  show ?thesis
  proof (cases "ctpToNodeMap t (cs, cxt)")
    case (Some n)
    have n: "n < length (tctNodes t)" "node_key t n = (cs, cxt)"
      using b Some unfolding tct_base_def keys_ok_def by blast+
    then have "tree_node P C rt t n" using b by (simp add: tct_base_def)
    then have v: "CxtThreadProc n (CxtProc cxt (e_dst e)) \<in> tctVisited t"
      using cs by (simp add: tree_node_def n(2))
    have "getOrCreateTCTNode P cxt cs (cp_getContext (tp_base q)) (e_dst e) t = Some (Some (n, t))"
      by (simp add: getOrCreateTCTNode_def Let_def k Some)
    then have "tct_handleCallRelation P q e cs t = Some (Some t)" unfolding h using v by (simp add: tct_push_def)
    moreover have "((cs, cxt), cxt, e_dst e) \<in> abs_proc t ` tctVisited t"
      using v n(2) by (force simp: abs_proc_def)
    ultimately show ?thesis using b tct_grows_refl unfolding tgt by blast
  next
    case None
    let ?ct = "\<lparr>ct_cxt = cxt, ct_forksite = cs, ct_inloop = loop_site P cs, ct_incycle = cycle_site P cs\<rparr>"
    let ?n = "length (tctNodes t)" and ?p = "tp_getTid q"
    let ?c = "CxtThreadProc ?n (CxtProc cxt (e_dst e))"
    let ?t1 = "t\<lparr>ctToForkCxtMap := (ctToForkCxtMap t)((cs, cxt) \<mapsto> cp_getContext (tp_base q)),
      ctToRoutineFunMap := (ctToRoutineFunMap t)((cs, cxt) \<mapsto> e_dst e),
      tctNodes := tctNodes t @ [\<lparr>tn_ctx = ?ct, tn_multiforked = False, tn_in = [], tn_out = []\<rparr>],
      ctpToNodeMap := (ctpToNodeMap t)((cs, cxt) \<mapsto> ?n)\<rparr>"
    have k': "ct_key ?ct = (cs, cxt)" by (simp add: ct_key_def)
    have g: "getOrCreateTCTNode P cxt cs (cp_getContext (tp_base q)) (e_dst e) t = Some (Some (?n, ?t1))"
      by (simp add: getOrCreateTCTNode_def Let_def k None setMultiForkedAttrs_sites [OF P(1) cs(1)] addTCTNode_def k')
    have i: "fifo_inv (tctList ?t1)" "tct_pend ?t1 \<subseteq> tctVisited ?t1" "?p < ?n"
      and tids: "\<And>c. c \<in> tctVisited t \<Longrightarrow> tp_getTid c < ?n" and ok: "edges_ok t"
      using b q by (simp_all add: tct_base_def)
    have new: "?c \<notin> tctVisited ?t1" using tids [of ?c] by auto
    obtain w where w: "tct_push ?c ?t1 = (True, ?t1\<lparr>tctVisited := insert ?c (tctVisited ?t1), tctList := w\<rparr>)"
      "fifo_inv w" "set (data_list w) = insert ?c (tct_pend t)"
      using tct_push_effect [OF i(1,2), of ?c] new by auto
    let ?t2 = "?t1\<lparr>tctVisited := insert ?c (tctVisited ?t1), tctList := w\<rparr>"
    have "?n \<notin> set (tn_out (tctNodes t ! ?p))" using ok i(3) by (auto simp: edges_ok_def)
    then have "\<not> hasGraphEdge ?t2 ?p ?n" using i(3) by (simp add: hasGraphEdge_def set_find_def nth_append)
    then have "snd (addTCTEdge ?p ?n ?t2) = fork_node ?ct (cp_getContext (tp_base q)) (e_dst e) ?p w t"
      using i(3) by (simp add: addTCTEdge_def upd_node_def fork_node_def Let_def k' nth_append list_update_append
        set_insert_def insort_insert_key_def)
    then have H: "tct_handleCallRelation P q e cs t = Some (Some (fork_node ?ct (cp_getContext (tp_base q)) (e_dst e) ?p w t))"
      unfolding h g using i(3) by (simp add: w(1) getGNode_def)
    have "tct_base P C E rt (fork_node ?ct (cp_getContext (tp_base q)) (e_dst e) ?p w t) \<and>
      tct_grows t (fork_node ?ct (cp_getContext (tp_base q)) (e_dst e) ?p w t) \<and>
      ((cs, cxt), cxt, e_dst e) \<in> abs_proc (fork_node ?ct (cp_getContext (tp_base q)) (e_dst e) ?p w t) `
        tctVisited (fork_node ?ct (cp_getContext (tp_base q)) (e_dst e) ?p w t)"
      by (rule fork_node_base [OF b q e cxt_def P(2) None k' _ _ _ w(2,3) R refl]) simp_all
    then show ?thesis using H unfolding tgt by blast
  qed
qed

lemma handleCallRelation_base:
  assumes b: "tct_base P C E rt t" and q: "q \<in> tctVisited t" "cp_getProc (tp_base q) \<in> C"
    and e: "(e, cs) \<in> set (calls_of P (cp_getProc (tp_base q)))"
    and P: "calls_finite P" "fork_resolved P rt"
  shows "\<exists>t'. tct_handleCallRelation P q e cs t = Some (Some t') \<and> tct_base P C E rt t' \<and> tct_grows t t' \<and>
    call_target P C (abs_proc t q) (e, cs) \<subseteq> abs_proc t' ` tctVisited t'"
proof (cases "e_kind e = CallRetEdge")
  case True
  define cxt where "cxt = push_in P C (cp_getContext (tp_base q)) cs (e_dst e)"
  let ?c = "CxtThreadProc (tp_getTid q) (CxtProc cxt (e_dst e))"
  have C: "set (candidateFuncSet t) = C" and i: "tp_getTid q < length (tctNodes t)"
    using b q by (simp_all add: tct_base_def)
  have tgt: "call_target P C (abs_proc t q) (e, cs) = {abs_proc t ?c}"
    using True by (simp add: call_target_def abs_proc_def cxt_def Let_def)
  have R: "abs_proc t ?c \<in> thread_procs P C E"
    by (rule call_target_procs [OF b q e]) (simp add: tgt)
  have h: "tct_handleCallRelation P q e cs t = Some (Some (snd (tct_push ?c t)))"
    using True by (simp add: tct_handleCallRelation_def Let_def cxt_def tct_pushCxt_in [OF C])
  have p: "tct_base P C E rt (snd (tct_push ?c t))" "tct_grows t (snd (tct_push ?c t))"
    "tctVisited (snd (tct_push ?c t)) = insert ?c (tctVisited t)" "tctNodes (snd (tct_push ?c t)) = tctNodes t"
    using push_base [OF b _ R] i by simp_all
  have "abs_proc (snd (tct_push ?c t)) ?c = abs_proc t ?c" by (rule abs_proc_grows [OF p(2)]) (simp add: i)
  then show ?thesis using h p unfolding tgt by (metis empty_subsetI imageI insertI1 insert_subset)
next
  case False
  then show ?thesis
  proof (cases "e_kind e = TDForkEdge")
    case True
    then show ?thesis using handleCallRelation_fork [OF b q e _ P] by blast
  next
    case other: False
    then have "tct_handleCallRelation P q e cs t = Some (Some t)" "call_target P C (abs_proc t q) (e, cs) = {}"
      using False by (simp_all add: tct_handleCallRelation_def Let_def call_target_def abs_proc_def)
    then show ?thesis using b tct_grows_refl by blast
  qed
qed

lemma handle_calls_base:
  assumes "tct_base P C E rt t" "q \<in> tctVisited t" "cp_getProc (tp_base q) \<in> C"
    and "set xs \<subseteq> set (calls_of P (cp_getProc (tp_base q)))" and P: "calls_finite P" "fork_resolved P rt"
  shows "\<exists>t'. foldR (\<lambda>(e, cs). tct_handleCallRelation P q e cs) xs t = Some (Some t') \<and> tct_base P C E rt t' \<and>
    tct_grows t t' \<and> (\<Union>y\<in>set xs. call_target P C (abs_proc t q) y) \<subseteq> abs_proc t' ` tctVisited t'"
  using assms(1-4)
proof (induction xs arbitrary: t)
  case Nil
  then show ?case using tct_grows_refl by auto
next
  case (Cons x xs)
  obtain e cs where x: "x = (e, cs)" by (cases x)
  obtain t1 where t1: "tct_handleCallRelation P q e cs t = Some (Some t1)" "tct_base P C E rt t1" "tct_grows t t1"
    "call_target P C (abs_proc t q) (e, cs) \<subseteq> abs_proc t1 ` tctVisited t1"
    using handleCallRelation_base [OF Cons.prems(1-3) _ P, of e cs] Cons.prems(4) by (auto simp: x)
  have q1: "q \<in> tctVisited t1" using t1(3) Cons.prems(2) by (auto simp: tct_grows_def)
  have aq: "abs_proc t1 q = abs_proc t q"
    by (rule abs_proc_grows [OF t1(3)]) (use Cons.prems in \<open>simp add: tct_base_def\<close>)
  obtain t2 where t2: "foldR (\<lambda>(e, cs). tct_handleCallRelation P q e cs) xs t1 = Some (Some t2)" "tct_base P C E rt t2"
    "tct_grows t1 t2" "(\<Union>y\<in>set xs. call_target P C (abs_proc t q) y) \<subseteq> abs_proc t2 ` tctVisited t2"
    using Cons.IH [OF t1(2) q1 Cons.prems(3)] Cons.prems(4) by (auto simp: aq)
  have "abs_proc t1 ` tctVisited t1 \<subseteq> abs_proc t2 ` tctVisited t2"
  proof
    fix a assume "a \<in> abs_proc t1 ` tctVisited t1"
    then obtain c where c: "c \<in> tctVisited t1" "a = abs_proc t1 c" by blast
    have "abs_proc t2 c = abs_proc t1 c"
      by (rule abs_proc_grows [OF t2(3)]) (use c t1(2) in \<open>simp add: tct_base_def\<close>)
    moreover have "c \<in> tctVisited t2" using c(1) t2(3) unfolding tct_grows_def by blast
    ultimately show "a \<in> abs_proc t2 ` tctVisited t2" unfolding c(2) by (metis imageI)
  qed
  then have "(\<Union>y\<in>set (x # xs). call_target P C (abs_proc t q) y) \<subseteq> abs_proc t2 ` tctVisited t2"
    using subset_trans [OF t1(4)] t2(4) unfolding x list.set UN_insert by (intro Un_least) assumption+
  then show ?case using t1(1) t2(1,2) tct_grows_trans [OF t1(3) t2(3)] by (simp add: x)
qed

section \<open>The loop\<close>

lemma foldR_calls:
  "foldR (\<lambda>e t. and_then (foldR (h e) (e_direct e) t) (foldR (h e) (e_indirect e))) es t =
   foldR (\<lambda>(e, cs). h e cs) (concat (map (\<lambda>e. map (Pair e) (e_direct e @ e_indirect e)) es)) t"
proof (induction es arbitrary: t)
  case (Cons e es)
  have "foldR (\<lambda>e t. and_then (foldR (h e) (e_direct e) t) (foldR (h e) (e_indirect e))) es =
      foldR (\<lambda>(e, cs). h e cs) (concat (map (\<lambda>e. map (Pair e) (e_direct e @ e_indirect e)) es))"
    by (rule ext) (rule Cons)
  then show ?case by (simp add: foldR_append_fun foldR_map_fun and_then_assoc)
qed simp

lemma node_key_inj:
  assumes "keys_ok t" "n < length (tctNodes t)" "m < length (tctNodes t)" "node_key t n = node_key t m"
  shows "n = m"
proof -
  have K: "ctpToNodeMap t k = Some x \<longleftrightarrow> x < length (tctNodes t) \<and> node_key t x = k" for k x
    using assms(1) unfolding keys_ok_def by blast
  show ?thesis using K [of "node_key t n" n] K [of "node_key t n" m] assms(2-4) by simp
qed

lemma abs_proc_inj:
  assumes "tct_base P C E rt t"
  shows "inj_on (abs_proc t) (tctVisited t)"
proof (rule inj_onI)
  fix c d assume v: "c \<in> tctVisited t" "d \<in> tctVisited t" and a: "abs_proc t c = abs_proc t d"
  have "node_key t (tp_getTid c) = node_key t (tp_getTid d)" using a by (simp add: abs_proc_def)
  then have "tp_getTid c = tp_getTid d"
    using node_key_inj [of t "tp_getTid c" "tp_getTid d"] v assms by (simp add: tct_base_def)
  moreover have "tp_base c = tp_base d" using a by (intro cxt_proc.expand) (simp add: abs_proc_def)
  ultimately show "c = d" by (intro cxt_thread_proc.expand) simp
qed

lemma visited_card:
  assumes "tct_base P C E rt t" "finite (thread_procs P C E)"
  shows "finite (tctVisited t)" "card (tctVisited t) \<le> card (thread_procs P C E)"
proof -
  have s: "abs_proc t ` tctVisited t \<subseteq> thread_procs P C E" using assms(1) by (simp add: tct_base_def)
  note i = abs_proc_inj [OF assms(1)]
  show "finite (tctVisited t)" using finite_imageD [OF finite_subset [OF s assms(2)] i] .
  show "card (tctVisited t) \<le> card (thread_procs P C E)"
    using card_mono [OF assms(2) s] card_image [OF i] by simp
qed

definition tct_measure :: "program \<Rightarrow> func set \<Rightarrow> func set \<Rightarrow> tct \<Rightarrow> nat \<times> nat" where
  "tct_measure P C E t = (card (thread_procs P C E) - card (tctVisited t), length (data_list (tctList t)))"

lemma pop_base:
  assumes b: "tct_base P C E rt t" and p: "fifo_pop (tctList t) = Some (q, w)"
  shows "tct_base P C E rt (t\<lparr>tctList := w\<rparr>) \<and> q \<in> tct_pend t \<and> set (data_list w) = tct_pend t - {q} \<and>
    length (data_list w) < length (data_list (tctList t))"
proof -
  have f: "fifo_inv (tctList t)" "tct_pend t \<subseteq> tctVisited t" using b by (simp_all add: tct_base_def)
  have w: "fifo_inv w" "q \<in> tct_pend t" "set (data_list w) = tct_pend t - {q}"
    "length (data_list w) < length (data_list (tctList t))"
    using fifo.pop_Some [OF f(1) p] fifo.pop_set [OF f(1) p] fifo.pop_size [OF f(1) p] by auto
  let ?t = "t\<lparr>tctList := w\<rparr>"
  have "?t = t\<lparr>tctVisited := tctVisited t, tctList := w\<rparr>" by simp
  note v = visited_frame [OF b order_refl this]
  have "abs_proc ?t = abs_proc t" by (simp add: fun_eq_iff abs_proc_def node_key_def)
  then have "tct_base P C E rt ?t" using b v w f(2) unfolding tct_base_def by auto
  then show ?thesis using w by simp
qed

lemma proc_step_inv:
  assumes I: "tct_inv P C E rt t" and g: "\<not> fifo_empty (tctList t)"
    and P: "calls_finite P" "fork_resolved P rt" "finite (thread_procs P C E)"
  shows "\<exists>t'. proc_step P t = Some (Some t') \<and> tct_inv P C E rt t' \<and>
    tctVisited t \<subseteq> tctVisited t' \<and> tctNodes t \<noteq> [] \<and> entryFuncSet t' = entryFuncSet t \<and> joinSiteToLoopMap t' = joinSiteToLoopMap t \<and>
    inRecurJoinSites t' = inRecurJoinSites t \<and>
    (tct_measure P C E t', tct_measure P C E t) \<in> less_than <*lex*> less_than"
proof -
  have b: "tct_base P C E rt t" using I by (simp add: tct_inv_def)
  have f: "fifo_inv (tctList t)" "tct_pend t \<subseteq> tctVisited t" using b by (simp_all add: tct_base_def)
  obtain q w where p: "fifo_pop (tctList t) = Some (q, w)"
    using g fifo.pop_None [OF f(1)] by (cases "fifo_pop (tctList t)") (auto simp: fifo_empty_def)
  note pb = pop_base [OF b p]
  let ?t1 = "t\<lparr>tctList := w\<rparr>"
  have b1: "tct_base P C E rt ?t1" and q: "q \<in> tctVisited ?t1" and w: "tct_pend ?t1 = tct_pend t - {q}"
    using pb f(2) by auto
  have a1: "abs_proc ?t1 = abs_proc t" by (simp add: fun_eq_iff abs_proc_def node_key_def)
  have C: "set (candidateFuncSet ?t1) = C" using b1 by (simp add: tct_base_def)
  let ?xs = "if cp_getProc (tp_base q) \<in> C then calls_of P (cp_getProc (tp_base q)) else []"
  have st: "proc_step P t = foldR (\<lambda>(e, cs). tct_handleCallRelation P q e cs) ?xs ?t1"
    using C by (auto simp: proc_step_def p Let_def isCandidateFun_def set_find_def foldR_calls calls_of_def)
  have "\<exists>t'. foldR (\<lambda>(e, cs). tct_handleCallRelation P q e cs) ?xs ?t1 = Some (Some t') \<and> tct_base P C E rt t' \<and>
      tct_grows ?t1 t' \<and> (\<Union>y\<in>set ?xs. call_target P C (abs_proc ?t1 q) y) \<subseteq> abs_proc t' ` tctVisited t'"
  proof (cases "cp_getProc (tp_base q) \<in> C")
    case True
    then show ?thesis using handle_calls_base [OF b1 q True _ P(1,2), of ?xs] by simp
  qed (use b1 tct_grows_refl in auto)
  then obtain t' where t': "proc_step P t = Some (Some t')" "tct_base P C E rt t'" "tct_grows ?t1 t'"
    "(\<Union>y\<in>set ?xs. call_target P C (abs_proc t q) y) \<subseteq> abs_proc t' ` tctVisited t'"
    unfolding st a1 by blast
  have G: "tctVisited t \<subseteq> tctVisited t'" "tctVisited t' \<subseteq> tctVisited t \<union> tct_pend t'"
    "tct_pend t - {q} \<subseteq> tct_pend t'" "tct_pend t' \<subseteq> (tct_pend t - {q}) \<union> (tctVisited t' - tctVisited t)"
    using t'(3) w by (simp_all add: tct_grows_def)
  have ab: "abs_proc t' c = abs_proc t c" if "c \<in> tctVisited t" for c
    using abs_proc_grows [OF t'(3), of c] that b a1 by (simp add: tct_base_def)
  have im: "abs_proc t ` tctVisited t \<subseteq> abs_proc t' ` tctVisited t'"
    using ab G(1) by (auto simp: image_iff) (metis subsetD)
  have succ_q: "thread_succ P C (abs_proc t q) \<subseteq> abs_proc t' ` tctVisited t'"
    using t'(4) by (auto simp: thread_succ_def abs_proc_def split: if_splits)
  have "tct_inv P C E rt t'"
    unfolding tct_inv_def
  proof (intro conjI ballI impI)
    show "thread_roots P C E \<subseteq> abs_proc t' ` tctVisited t'" using I im by (auto simp: tct_inv_def)
    fix c assume c: "c \<in> tctVisited t'" "c \<notin> tct_pend t'"
    then have v: "c \<in> tctVisited t" using G(2) by blast
    show "thread_succ P C (abs_proc t' c) \<subseteq> abs_proc t' ` tctVisited t'"
    proof (cases "c = q")
      case True
      then show ?thesis using succ_q ab [OF v] by simp
    next
      case False
      then have "c \<notin> tct_pend t" using c(2) G(3) by blast
      then have "thread_succ P C (abs_proc t c) \<subseteq> abs_proc t ` tctVisited t" using I v by (simp add: tct_inv_def)
      then show ?thesis using im ab [OF v] by simp
    qed
  qed (rule t'(2))
  moreover have "(tct_measure P C E t', tct_measure P C E t) \<in> less_than <*lex*> less_than"
  proof (cases "tctVisited t' = tctVisited t")
    case True
    have "fifo_inv (tctList t')" using t'(2) by (simp add: tct_base_def)
    then have "length (data_list (tctList t')) = card (tct_pend t')" by (simp add: fifo_inv_def distinct_card)
    also have "\<dots> \<le> card (tct_pend t - {q})" using G(4) True by (intro card_mono) auto
    also have "\<dots> < card (tct_pend t)" by (rule card_Diff1_less) (simp_all add: pb)
    also have "\<dots> = length (data_list (tctList t))" using f(1) by (simp add: fifo_inv_def distinct_card)
    finally show ?thesis using True by (simp add: tct_measure_def)
  next
    case False
    then have "card (tctVisited t) < card (tctVisited t')"
      using G(1) visited_card(1) [OF t'(2) P(3)] by (intro psubset_card_mono) auto
    then show ?thesis using visited_card(2) [OF t'(2) P(3)] by (auto simp: tct_measure_def)
  qed
  moreover have "entryFuncSet t' = entryFuncSet t" "joinSiteToLoopMap t' = joinSiteToLoopMap t"
    "inRecurJoinSites t' = inRecurJoinSites t" using t'(3) by (simp_all add: tct_grows_def)
  moreover have "tctNodes t \<noteq> []" using b pb f(2) by (auto simp: tct_base_def)
  ultimately show ?thesis using t'(1) G(1) by blast
qed

section \<open>The entry functions\<close>

definition entry_inv :: "program \<Rightarrow> func set \<Rightarrow> func set \<Rightarrow> (inst \<Rightarrow> func) \<Rightarrow> tct \<Rightarrow> bool" where
  "entry_inv P C E rt t \<longleftrightarrow> tct_base P C E rt t \<and> tctVisited t \<subseteq> tct_pend t \<and>
     (if ctpToNodeMap t (null_inst, []) = None then tctNodes t = [] else \<exists>c\<in>tctVisited t. tp_getTid c = 0)"

lemma root_base:
  assumes b: "tct_base P C E rt t" and n: "tctNodes t = []"
    and ct: "ct_key ct = (null_inst, [])" "\<not> ct_inloop ct" "\<not> ct_incycle ct"
    and t': "t' = t\<lparr>ctToForkCxtMap := (ctToForkCxtMap t)((null_inst, []) \<mapsto> []),
      ctToRoutineFunMap := (ctToRoutineFunMap t)((null_inst, []) \<mapsto> f),
      tctNodes := [\<lparr>tn_ctx = ct, tn_multiforked = False, tn_in = [], tn_out = []\<rparr>],
      ctpToNodeMap := (ctpToNodeMap t)((null_inst, []) \<mapsto> 0)\<rparr>"
  shows "tct_base P C E rt t'"
proof -
  have k: "node_key t' 0 = (null_inst, [])" by (simp add: node_key_def t' ct)
  have v: "tctVisited t = {}" using b n by (auto simp: tct_base_def)
  have m: "ctpToNodeMap t = Map.empty"
  proof
    fix k show "ctpToNodeMap t k = None"
    proof (cases "ctpToNodeMap t k")
      case (Some x)
      then have "x < length (tctNodes t)" using b unfolding tct_base_def keys_ok_def by blast
      then show ?thesis using n by simp
    qed
  qed
  have "ctToForkCxtMap t = Map.empty" "ctToRoutineFunMap t = Map.empty"
    using b m unfolding tct_base_def keys_ok_def by (metis dom_empty dom_eq_empty_conv)+
  then have "keys_ok t'" using k unfolding keys_ok_def by (auto simp: t' m)
  moreover have "attrs_ok P t' 0" using ct by (simp add: attrs_ok_def t' ct_key_def)
  moreover have "tree_node P C rt t' 0" unfolding tree_node_def k by (simp add: t')
  moreover have "edges_ok t'" by (auto simp: edges_ok_def t' less_Suc0)
  ultimately show ?thesis using b v unfolding tct_base_def by (simp add: t')
qed

lemma build_entry_inv:
  assumes I: "entry_inv P C E rt t" and f: "f \<in> E"
  shows "\<exists>t'. build_entry P f t = Some (Some t') \<and> entry_inv P C E rt t' \<and>
    entryFuncSet t' = entryFuncSet t \<and> joinSiteToLoopMap t' = joinSiteToLoopMap t \<and>
    inRecurJoinSites t' = inRecurJoinSites t \<and> abs_proc t ` tctVisited t \<subseteq> abs_proc t' ` tctVisited t' \<and>
    (f \<in> C \<longrightarrow> ((null_inst, []), [], f) \<in> abs_proc t' ` tctVisited t')"
proof (cases "f \<in> C")
  case False
  have "set (candidateFuncSet t) = C" using I by (simp add: entry_inv_def tct_base_def)
  then show ?thesis using False I by (simp add: build_entry_def isCandidateFun_def set_find_def)
next
  case True
  have b: "tct_base P C E rt t" using I by (simp add: entry_inv_def)
  have C: "set (candidateFuncSet t) = C" using b by (simp add: tct_base_def)
  have R: "((null_inst, []), [], f) \<in> thread_procs P C E" using f True by (auto simp: thread_roots_def)
  let ?ct = "CxtThread [] null_inst"
  have ct: "ct_key ?ct = (null_inst, [])" "setMultiForkedAttrs P ?ct = Some ?ct"
    "\<not> ct_inloop ?ct" "\<not> ct_incycle ?ct"
    by (simp_all add: ct_key_def CxtThread_def setMultiForkedAttrs_def setInloop_def setIncycle_def)
  obtain n t1 where t1: "getOrCreateTCTNode P [] null_inst [] f t = Some (Some (n, t1))" "tct_base P C E rt t1"
    "n < length (tctNodes t1)" "node_key t1 n = (null_inst, [])" "tctVisited t1 = tctVisited t" "tct_pend t1 = tct_pend t"
    "entryFuncSet t1 = entryFuncSet t" "joinSiteToLoopMap t1 = joinSiteToLoopMap t"
    "inRecurJoinSites t1 = inRecurJoinSites t" "abs_proc t1 ` tctVisited t = abs_proc t ` tctVisited t"
    "ctpToNodeMap t1 (null_inst, []) = Some n" "ctpToNodeMap t (null_inst, []) = None \<Longrightarrow> n = 0"
  proof (cases "ctpToNodeMap t (null_inst, [])")
    case (Some n)
    have "n < length (tctNodes t) \<and> node_key t n = (null_inst, [])"
      using b Some unfolding tct_base_def keys_ok_def by blast
    then show thesis using that [of n t] Some b by (simp add: getOrCreateTCTNode_def Let_def ct)
  next
    case None
    then have n: "tctNodes t = []" using I by (simp add: entry_inv_def)
    have v: "tctVisited t = {}" using b n by (auto simp: tct_base_def)
    let ?t1 = "t\<lparr>ctToForkCxtMap := (ctToForkCxtMap t)((null_inst, []) \<mapsto> []),
      ctToRoutineFunMap := (ctToRoutineFunMap t)((null_inst, []) \<mapsto> f),
      tctNodes := [\<lparr>tn_ctx = ?ct, tn_multiforked = False, tn_in = [], tn_out = []\<rparr>],
      ctpToNodeMap := (ctpToNodeMap t)((null_inst, []) \<mapsto> 0)\<rparr>"
    have "getOrCreateTCTNode P [] null_inst [] f t = Some (Some (0, ?t1))"
      using None n by (simp add: getOrCreateTCTNode_def Let_def ct addTCTNode_def)
    moreover have "tct_base P C E rt ?t1" by (rule root_base [OF b n ct(1,3,4) refl])
    ultimately show thesis using that [of 0 ?t1] v by (simp add: node_key_def ct)
  qed
  let ?c = "CxtThreadProc n (CxtProc [] f)"
  have a: "abs_proc t1 ?c = ((null_inst, []), [], f)" using t1(4) by (simp add: abs_proc_def)
  let ?t' = "snd (tct_push ?c t1)"
  have p: "tct_base P C E rt ?t'" "tct_grows t1 ?t'" "tctVisited ?t' = insert ?c (tctVisited t1)"
    "tctNodes ?t' = tctNodes t1"
    using push_base [OF t1(2), of ?c] t1(3) R a by simp_all
  have ab: "abs_proc ?t' = abs_proc t1" using p(4) by (simp add: fun_eq_iff abs_proc_def node_key_def)
  have m: "ctpToNodeMap ?t' = ctpToNodeMap t1" by (simp add: tct_push_def split: prod.split)
  have B: "build_entry P f t = Some (Some ?t')"
    using True C t1(1) by (simp add: build_entry_def isCandidateFun_def set_find_def)
  have r0: "\<exists>c\<in>tctVisited ?t'. tp_getTid c = 0"
  proof (cases "ctpToNodeMap t (null_inst, [])")
    case None
    then show ?thesis using t1(12) p(3) by simp
  next
    case (Some x)
    then show ?thesis using I p(3) t1(5) by (auto simp: entry_inv_def)
  qed
  have "tctVisited ?t' \<subseteq> tct_pend ?t'"
  proof -
    have "tctVisited t1 \<subseteq> tct_pend t1" using I t1(5,6) by (simp add: entry_inv_def)
    then show ?thesis using p(2) by (auto simp: tct_grows_def)
  qed
  then have "entry_inv P C E rt ?t'" using p(1) r0 m t1(11) by (simp add: entry_inv_def)
  moreover have "abs_proc t ` tctVisited t \<subseteq> abs_proc ?t' ` tctVisited ?t'"
    using t1(5,10) p(3) unfolding ab by auto
  moreover have "((null_inst, []), [], f) \<in> abs_proc ?t' ` tctVisited ?t'" using p(3) a unfolding ab by force
  moreover have "entryFuncSet ?t' = entryFuncSet t" "joinSiteToLoopMap ?t' = joinSiteToLoopMap t"
    "inRecurJoinSites ?t' = inRecurJoinSites t" using p(2) t1(7-9) by (simp_all add: tct_grows_def)
  ultimately show ?thesis using B by blast
qed

lemma build_entries_inv:
  assumes "entry_inv P C E rt t" "set fs \<subseteq> E"
  shows "\<exists>t'. foldR (build_entry P) fs t = Some (Some t') \<and> entry_inv P C E rt t' \<and>
    entryFuncSet t' = entryFuncSet t \<and> joinSiteToLoopMap t' = joinSiteToLoopMap t \<and>
    inRecurJoinSites t' = inRecurJoinSites t \<and> abs_proc t ` tctVisited t \<subseteq> abs_proc t' ` tctVisited t' \<and>
    thread_roots P C (set fs) \<subseteq> abs_proc t' ` tctVisited t'"
  using assms
proof (induction fs arbitrary: t)
  case Nil
  then show ?case by (auto simp: thread_roots_def)
next
  case (Cons f fs)
  obtain t1 where t1: "build_entry P f t = Some (Some t1)" "entry_inv P C E rt t1"
    "entryFuncSet t1 = entryFuncSet t" "joinSiteToLoopMap t1 = joinSiteToLoopMap t"
    "inRecurJoinSites t1 = inRecurJoinSites t" "abs_proc t ` tctVisited t \<subseteq> abs_proc t1 ` tctVisited t1"
    "f \<in> C \<longrightarrow> ((null_inst, []), [], f) \<in> abs_proc t1 ` tctVisited t1"
    using build_entry_inv [OF Cons.prems(1), of f] Cons.prems(2) by auto
  obtain t2 where t2: "foldR (build_entry P) fs t1 = Some (Some t2)" "entry_inv P C E rt t2"
    "entryFuncSet t2 = entryFuncSet t1" "joinSiteToLoopMap t2 = joinSiteToLoopMap t1"
    "inRecurJoinSites t2 = inRecurJoinSites t1" "abs_proc t1 ` tctVisited t1 \<subseteq> abs_proc t2 ` tctVisited t2"
    "thread_roots P C (set fs) \<subseteq> abs_proc t2 ` tctVisited t2"
    using Cons.IH [OF t1(2)] Cons.prems(2) by auto
  have "thread_roots P C (set (f # fs)) \<subseteq> abs_proc t2 ` tctVisited t2"
    using t1(7) t2(6,7) by (auto simp: thread_roots_def)
  then show ?case using t1 t2(1-5) subset_trans [OF t1(6) t2(6)] by simp
qed

end
