(* ===== verification/TCTResult.thy ===== *)
theory TCTResult
  imports TCTBuild "HOL-Library.Multiset"
begin

text \<open>
  What the construction of the thread creation tree yields: the flags of multi-forked threads,
  the loops of join sites, the tree as a whole, and the answers of its queries.
\<close>

section \<open>The shape of the tree\<close>

definition tct_shape :: "program \<Rightarrow> func set \<Rightarrow> (inst \<Rightarrow> func) \<Rightarrow> tct \<Rightarrow> bool" where
  "tct_shape P C rt t \<longleftrightarrow> keys_ok t \<and> edges_ok t \<and>
     (\<forall>n<length (tctNodes t). attrs_ok P t n \<and> tree_node P C rt t n)"

definition tree_edges :: "tct \<Rightarrow> (node_id \<times> node_id) set" where
  "tree_edges t = {(p, n). n < length (tctNodes t) \<and> p \<in> set (tn_in (tctNodes t ! n))}"

lemma tree_edges_less:
  assumes "tct_shape P C rt t" "(p, n) \<in> tree_edges t"
  shows "p < n"
proof -
  have "tree_node P C rt t n" "p \<in> set (tn_in (tctNodes t ! n))"
    using assms by (simp_all add: tct_shape_def tree_edges_def)
  then show ?thesis by (auto simp: tree_node_def split: if_splits)
qed

lemma tree_edges_unique:
  assumes "tct_shape P C rt t" "(p, n) \<in> tree_edges t" "(q, n) \<in> tree_edges t"
  shows "p = q"
proof -
  have "tree_node P C rt t n" "p \<in> set (tn_in (tctNodes t ! n))" "q \<in> set (tn_in (tctNodes t ! n))"
    using assms by (simp_all add: tct_shape_def tree_edges_def)
  then show ?thesis by (auto simp: tree_node_def split: if_splits)
qed

lemma tree_edges_out:
  assumes "tct_shape P C rt t" "p < length (tctNodes t)"
  shows "n \<in> set (tn_out (tctNodes t ! p)) \<longleftrightarrow> (p, n) \<in> tree_edges t"
  using assms by (auto simp: tct_shape_def edges_ok_def tree_edges_def)

lemma tree_root:
  assumes "tct_shape P C rt t" "n < length (tctNodes t)"
  shows "tn_in (tctNodes t ! n) = [] \<longleftrightarrow> n = 0"
proof -
  have K: "keys_ok t" and T: "\<And>m. m < length (tctNodes t) \<Longrightarrow> tree_node P C rt t m"
    using assms(1) by (simp_all add: tct_shape_def)
  have l: "0 < length (tctNodes t)" using assms(2) by linarith
  then have "tree_node P C rt t 0" by (rule T)
  then have z: "node_key t 0 = (null_inst, [])" "tn_in (tctNodes t ! 0) = []"
    by (auto simp: tree_node_def split: if_splits)
  show ?thesis
  proof
    assume "tn_in (tctNodes t ! n) = []"
    then have "node_key t n = (null_inst, [])" using T [OF assms(2)] by (auto simp: tree_node_def split: if_splits)
    then show "n = 0" using node_key_inj [OF K assms(2) l] z by simp
  qed (use z in simp)
qed

lemma tree_parent:
  assumes "tct_shape P C rt t" "n < length (tctNodes t)" "n \<noteq> 0"
  obtains p where "tn_in (tctNodes t ! n) = [p]" "p < n" "forked_by P C t p n" "(p, n) \<in> tree_edges t"
proof -
  have "tree_node P C rt t n" "tn_in (tctNodes t ! n) \<noteq> []"
    using assms tree_root [OF assms(1,2)] by (simp_all add: tct_shape_def)
  then obtain p where "p < n" "tn_in (tctNodes t ! n) = [p]" "forked_by P C t p n"
    by (auto simp: tree_node_def split: if_splits)
  then show thesis using that assms(2) by (simp add: tree_edges_def)
qed

lemma tree_from_root:
  assumes "tct_shape P C rt t"
  shows "n < length (tctNodes t) \<Longrightarrow> (0, n) \<in> (tree_edges t)\<^sup>*"
proof (induction n rule: less_induct)
  case (less n)
  show ?case
  proof (cases "n = 0")
    case False
    then obtain p where "p < n" "(p, n) \<in> tree_edges t" using tree_parent [OF assms less.prems] by blast
    then show ?thesis using less.IH [of p] less.prems by (meson order.strict_trans rtrancl.rtrancl_into_rtrancl)
  qed simp
qed

section \<open>Multi-forked threads\<close>

definition multi_site :: "tct \<Rightarrow> node_id \<Rightarrow> bool" where
  "multi_site t n \<longleftrightarrow> ct_incycle (tn_ctx (tctNodes t ! n)) \<or> ct_inloop (tn_ctx (tctNodes t ! n))"

text \<open>A thread is forked more than once when its fork site, or that of an ancestor, is.\<close>

definition forked_often :: "tct \<Rightarrow> node_id \<Rightarrow> bool" where
  "forked_often t n \<longleftrightarrow> (\<exists>a. (a, n) \<in> (tree_edges t)\<^sup>* \<and> multi_site t a)"

lemma forked_often_root:
  assumes "tct_shape P C rt t"
  shows "forked_often t 0 \<longleftrightarrow> multi_site t 0"
proof -
  have "a = 0" if "(a, 0) \<in> (tree_edges t)\<^sup>*" for a
    using that
  proof (cases rule: rtranclE)
    case (step y)
    then show ?thesis using tree_edges_less [OF assms, of y 0] by simp
  qed
  then show ?thesis by (auto simp: forked_often_def)
qed

lemma forked_often_step:
  assumes "tct_shape P C rt t" "(p, n) \<in> tree_edges t"
  shows "forked_often t n \<longleftrightarrow> multi_site t n \<or> forked_often t p"
proof
  assume "forked_often t n"
  then obtain a where a: "(a, n) \<in> (tree_edges t)\<^sup>*" "multi_site t a" by (auto simp: forked_often_def)
  from a(1) show "multi_site t n \<or> forked_often t p"
  proof (cases rule: rtranclE)
    case (step q)
    then have "q = p" using tree_edges_unique [OF assms(1) _ assms(2)] by blast
    then show ?thesis using step(1) a(2) by (auto simp: forked_often_def)
  qed (use a(2) in simp)
next
  assume "multi_site t n \<or> forked_often t p"
  then show "forked_often t n"
    unfolding forked_often_def using assms(2) by (meson rtrancl.rtrancl_into_rtrancl rtrancl.rtrancl_refl)
qed

text \<open>Setting flags changes nothing else.\<close>

definition same_tree :: "tct \<Rightarrow> tct \<Rightarrow> bool" where
  "same_tree t t' \<longleftrightarrow> (\<exists>fs. length fs = length (tctNodes t) \<and>
     t' = t\<lparr>tctNodes := map2 (\<lambda>nd b. nd\<lparr>tn_multiforked := b\<rparr>) (tctNodes t) fs\<rparr>)"

lemma same_tree_refl: "same_tree t t"
proof -
  have "map2 (\<lambda>nd b. nd\<lparr>tn_multiforked := b\<rparr>) (tctNodes t) (map tn_multiforked (tctNodes t)) = tctNodes t"
    by (rule nth_equalityI) simp_all
  then show ?thesis unfolding same_tree_def by (intro exI [of _ "map tn_multiforked (tctNodes t)"]) simp
qed

lemma same_tree_simps:
  assumes "same_tree t t'"
  shows "length (tctNodes t') = length (tctNodes t)"
    and "n < length (tctNodes t) \<Longrightarrow> tn_ctx (tctNodes t' ! n) = tn_ctx (tctNodes t ! n)"
    and "n < length (tctNodes t) \<Longrightarrow> tn_in (tctNodes t' ! n) = tn_in (tctNodes t ! n)"
    and "n < length (tctNodes t) \<Longrightarrow> tn_out (tctNodes t' ! n) = tn_out (tctNodes t ! n)"
    and "n < length (tctNodes t) \<Longrightarrow> node_key t' n = node_key t n"
    and "tctVisited t' = tctVisited t" "ctpToNodeMap t' = ctpToNodeMap t"
    and "ctToForkCxtMap t' = ctToForkCxtMap t" "ctToRoutineFunMap t' = ctToRoutineFunMap t"
    and "candidateFuncSet t' = candidateFuncSet t" "entryFuncSet t' = entryFuncSet t"
    and "joinSiteToLoopMap t' = joinSiteToLoopMap t" "inRecurJoinSites t' = inRecurJoinSites t"
  using assms by (auto simp: same_tree_def node_key_def)

lemma same_tree_shape:
  assumes "same_tree t t'" "tct_shape P C rt t"
  shows "tct_shape P C rt t'"
proof -
  note S = same_tree_simps [OF assms(1)]
  have "keys_ok t'" using assms(2) S(5) by (auto simp: tct_shape_def keys_ok_def S(1,7-9))
  moreover have "edges_ok t'"
    using assms(2) by (auto simp: tct_shape_def edges_ok_def S(1,3,4))
  moreover have "attrs_ok P t' n \<and> tree_node P C rt t' n" if n: "n < length (tctNodes t')" for n
  proof -
    have n: "n < length (tctNodes t)" using n S(1) by simp
    have "forked_by P C t' p n = forked_by P C t p n" for p by (simp add: forked_by_def S(6,8) S(5) [OF n])
    then have "tree_node P C rt t' n = tree_node P C rt t n" unfolding tree_node_def S(6,9) S(3,5) [OF n] by simp
    moreover have "attrs_ok P t' n = attrs_ok P t n" by (simp add: attrs_ok_def S(2) [OF n])
    ultimately show ?thesis using assms(2) n by (simp add: tct_shape_def)
  qed
  ultimately show ?thesis by (simp add: tct_shape_def)
qed

lemma same_tree_edges: "same_tree t t' \<Longrightarrow> tree_edges t' = tree_edges t"
  using same_tree_simps(1,3) [of t t'] by (auto simp: tree_edges_def)

lemma same_tree_forked_often:
  assumes "same_tree t t'" "tct_shape P C rt t" "n < length (tctNodes t)"
  shows "forked_often t' n \<longleftrightarrow> forked_often t n"
proof -
  have "multi_site t' a = multi_site t a" if "(a, n) \<in> (tree_edges t)\<^sup>*" for a
  proof -
    have "a \<le> n" using that
      by (induction rule: converse_rtrancl_induct) (use tree_edges_less [OF assms(2)] in force)+
    then show ?thesis using assms(3) by (simp add: multi_site_def same_tree_simps(2) [OF assms(1)])
  qed
  then show ?thesis by (auto simp: forked_often_def same_tree_edges [OF assms(1)])
qed


text \<open>The nodes \<open>D\<close> are done, those of the work list are their children.\<close>

definition multi_inv :: "tct \<Rightarrow> node_id set \<Rightarrow> tct \<times> node_id fifo \<Rightarrow> bool" where
  "multi_inv t D s \<longleftrightarrow> same_tree t (fst s) \<and> fifo_inv (snd s) \<and> D \<inter> set (data_list (snd s)) = {} \<and>
     D \<union> set (data_list (snd s)) \<subseteq> {..<length (tctNodes t)} \<and> 0 \<in> D \<union> set (data_list (snd s)) \<and>
     (\<forall>(p, n)\<in>tree_edges t. p \<in> D \<longleftrightarrow> n \<in> D \<union> set (data_list (snd s))) \<and>
     (\<forall>n<length (tctNodes t). tn_multiforked (tctNodes (fst s) ! n) \<longleftrightarrow> n \<in> D \<and> forked_often t n)"

definition pend_ranks :: "tct \<Rightarrow> tct \<times> node_id fifo \<Rightarrow> nat multiset" where
  "pend_ranks t s = image_mset (\<lambda>n. length (tctNodes t) - n) (mset_set (set (data_list (snd s))))"

lemma pushes_set:
  "fifo_inv w \<Longrightarrow> fifo_inv (fold (\<lambda>d w. snd (fifo_push d w)) ds w) \<and>
   set (data_list (fold (\<lambda>d w. snd (fifo_push d w)) ds w)) = set ds \<union> set (data_list w)"
proof (induction ds arbitrary: w)
  case (Cons d ds)
  then show ?case using fifo.push_set [OF Cons.prems, of d] fifo.push_inv [OF Cons.prems, of d] by auto
qed simp

lemma same_tree_upd:
  assumes "same_tree t t'"
  shows "same_tree t (upd_node n (\<lambda>nd. nd\<lparr>tn_multiforked := b\<rparr>) t')"
proof -
  let ?g = "\<lambda>nd b. nd\<lparr>tn_multiforked := b\<rparr>"
  obtain fs where fs: "length fs = length (tctNodes t)" "t' = t\<lparr>tctNodes := map2 ?g (tctNodes t) fs\<rparr>"
    using assms by (auto simp: same_tree_def)
  have "(map2 ?g (tctNodes t) fs)[n := (map2 ?g (tctNodes t) fs ! n)\<lparr>tn_multiforked := b\<rparr>] =
      map2 ?g (tctNodes t) (fs[n := b])"
    using fs(1) by (cases "n < length fs") (auto intro!: nth_equalityI simp: nth_list_update)
  then show ?thesis unfolding same_tree_def
    by (intro exI [of _ "fs[n := b]"]) (simp add: fs upd_node_def)
qed

lemma multi_step_inv:
  assumes sh: "tct_shape P C rt t" and I: "multi_inv t D s" and g: "\<not> fifo_empty (snd s)"
  shows "\<exists>n. multi_inv t (insert n D) (multi_step s) \<and> (pend_ranks t (multi_step s), pend_ranks t s) \<in> mult less_than"
proof -
  obtain t' w where s: "s = (t', w)" by (cases s)
  let ?N = "length (tctNodes t)"
  have st: "same_tree t t'" and f: "fifo_inv w" using I by (simp_all add: multi_inv_def s)
  obtain n w1 where p: "fifo_pop w = Some (n, w1)"
    using g fifo.pop_None [OF f] by (cases "fifo_pop w") (auto simp: fifo_empty_def s)
  have w1: "fifo_inv w1" "n \<in> set (data_list w)" "set (data_list w1) = set (data_list w) - {n}"
    using fifo.pop_Some [OF f p] fifo.pop_set [OF f p] by auto
  have n: "n < ?N" "n \<notin> D" and Dw: "D \<inter> set (data_list w) = {}" "D \<union> set (data_list w) \<subseteq> {..<?N}"
    "0 \<in> D \<union> set (data_list w)" using I w1(2) by (auto simp: multi_inv_def s)
  have ed: "a \<in> D \<longleftrightarrow> b \<in> D \<union> set (data_list w)" if "(a, b) \<in> tree_edges t" for a b
    using I that by (auto simp: multi_inv_def s)
  have mf: "tn_multiforked (tctNodes t' ! k) \<longleftrightarrow> k \<in> D \<and> forked_often t k" if "k < ?N" for k
    using I that by (simp add: multi_inv_def s)
  note S = same_tree_simps [OF st]
  let ?nd = "tctNodes t' ! n"
  let ?m = "ct_incycle (tn_ctx ?nd) \<or> ct_inloop (tn_ctx ?nd) \<or>
    list_ex (\<lambda>p. tn_multiforked (tctNodes t' ! p)) (tn_in ?nd) \<or> tn_multiforked ?nd"
  let ?w = "fold (\<lambda>d w. snd (fifo_push d w)) (tn_out ?nd) w1"
  have step: "multi_step s = (upd_node n (\<lambda>nd. nd\<lparr>tn_multiforked := ?m\<rparr>) t', ?w)"
    unfolding s multi_step_def by (simp add: p Let_def)
  have out: "set (tn_out ?nd) = {c. (n, c) \<in> tree_edges t}"
    using tree_edges_out [OF sh n(1)] by (auto simp: S(4) [OF n(1)])
  have w: "fifo_inv ?w" "set (data_list ?w) = {c. (n, c) \<in> tree_edges t} \<union> (set (data_list w) - {n})"
    using pushes_set [OF w1(1), of "tn_out ?nd"] out w1(3) by auto
  have m: "?m \<longleftrightarrow> forked_often t n"
  proof -
    have site: "(ct_incycle (tn_ctx ?nd) \<or> ct_inloop (tn_ctx ?nd)) \<longleftrightarrow> multi_site t n"
      by (simp add: multi_site_def S(2) [OF n(1)])
    have par: "list_ex (\<lambda>p. tn_multiforked (tctNodes t' ! p)) (tn_in ?nd) \<longleftrightarrow>
        (\<exists>p. (p, n) \<in> tree_edges t \<and> tn_multiforked (tctNodes t' ! p))"
      using n(1) by (auto simp: list_ex_iff S(3) [OF n(1)] tree_edges_def)
    show ?thesis
    proof (cases "n = 0")
      case True
      then have "\<not> (\<exists>p. (p, n) \<in> tree_edges t)" using tree_edges_less [OF sh] by fastforce
      then show ?thesis using site par mf [OF n(1)] n(2) forked_often_root [OF sh] True by auto
    next
      case False
      obtain p where pp: "(p, n) \<in> tree_edges t" "p < n" using tree_parent [OF sh n(1) False] by blast
      have "tn_multiforked (tctNodes t' ! p) \<longleftrightarrow> forked_often t p"
        using mf [of p] pp(2) n(1) ed [OF pp(1)] w1(2) by auto
      then have "list_ex (\<lambda>p. tn_multiforked (tctNodes t' ! p)) (tn_in ?nd) \<longleftrightarrow> forked_often t p"
        using par pp(1) tree_edges_unique [OF sh _ pp(1)] by blast
      then show ?thesis using site mf [OF n(1)] n(2) forked_often_step [OF sh pp(1)] by blast
    qed
  qed
  have "multi_inv t (insert n D) (multi_step s)"
    unfolding multi_inv_def step fst_conv snd_conv
  proof (intro conjI)
    show "same_tree t (upd_node n (\<lambda>nd. nd\<lparr>tn_multiforked := ?m\<rparr>) t')" by (rule same_tree_upd [OF st])
    have new: "c \<notin> D \<union> set (data_list w)" "c < ?N" "c \<noteq> n" if "(n, c) \<in> tree_edges t" for c
      using ed [OF that] n(2) tree_edges_less [OF sh that] that by (auto simp: tree_edges_def)
    show "insert n D \<inter> set (data_list ?w) = {}" unfolding w(2) using new Dw(1) w1(2) by blast
    show "insert n D \<union> set (data_list ?w) \<subseteq> {..<?N}" unfolding w(2) using new Dw(2) n(1) by blast
    show "0 \<in> insert n D \<union> set (data_list ?w)" unfolding w(2) using Dw(3) by blast
    show "\<forall>(a, b)\<in>tree_edges t. a \<in> insert n D \<longleftrightarrow> b \<in> insert n D \<union> set (data_list ?w)"
    proof (clarify)
      fix a b assume ab: "(a, b) \<in> tree_edges t"
      show "a \<in> insert n D \<longleftrightarrow> b \<in> insert n D \<union> set (data_list ?w)"
        unfolding w(2) using ed [OF ab] w1(2) ab tree_edges_unique [OF sh ab] by blast
    qed
    show "\<forall>k<?N. tn_multiforked (tctNodes (upd_node n (\<lambda>nd. nd\<lparr>tn_multiforked := ?m\<rparr>) t') ! k) \<longleftrightarrow>
        k \<in> insert n D \<and> forked_often t k"
    proof (intro allI impI)
      fix k assume k: "k < ?N"
      then show "tn_multiforked (tctNodes (upd_node n (\<lambda>nd. nd\<lparr>tn_multiforked := ?m\<rparr>) t') ! k) \<longleftrightarrow>
          k \<in> insert n D \<and> forked_often t k"
        unfolding m by (cases "k = n") (simp_all add: upd_node_def S(1) mf)
    qed
  qed (rule w(1))
  moreover have "(pend_ranks t (multi_step s), pend_ranks t s) \<in> mult less_than"
  proof -
    let ?r = "\<lambda>n. ?N - n" and ?A = "set (data_list w) - {n}"
    have new: "c \<notin> ?A" "n < c" "c < ?N" if "(n, c) \<in> tree_edges t" for c
      using ed [OF that] n(2) tree_edges_less [OF sh that] that by (auto simp: tree_edges_def)
    have fin: "finite {c. (n, c) \<in> tree_edges t}" using out by (metis List.finite_set)
    have "{c. (n, c) \<in> tree_edges t} \<inter> ?A = {}" using new(1) by blast
    then have a: "pend_ranks t (multi_step s) =
        image_mset ?r (mset_set ?A) + image_mset ?r (mset_set {c. (n, c) \<in> tree_edges t})"
      unfolding pend_ranks_def step snd_conv w(2) using fin by (simp add: mset_set_Union)
    have b: "pend_ranks t s = image_mset ?r (mset_set ?A) + {#?r n#}"
      unfolding pend_ranks_def s snd_conv using w1(2) by (simp add: mset_set.remove)
    show ?thesis unfolding a b
    proof (rule one_step_implies_mult)
      show "\<forall>k\<in>set_mset (image_mset ?r (mset_set {c. (n, c) \<in> tree_edges t})). \<exists>j\<in>set_mset {#?r n#}. (k, j) \<in> less_than"
      proof
        fix k assume "k \<in># image_mset ?r (mset_set {c. (n, c) \<in> tree_edges t})"
        then obtain c where "(n, c) \<in> tree_edges t" "k = ?r c" using fin by auto
        then have "k < ?r n" using new(2,3) [of c] by linarith
        then show "\<exists>j\<in>#{#?r n#}. (k, j) \<in> less_than" by simp
      qed
    qed simp
  qed
  ultimately show ?thesis by blast
qed

lemma collectMultiForkedThreads_often:
  assumes sh: "tct_shape P C rt t" and m: "\<forall>n<length (tctNodes t). \<not> tn_multiforked (tctNodes t ! n)"
  shows "\<exists>t'. collectMultiForkedThreads t = Some t' \<and> same_tree t t' \<and>
    (\<forall>n<length (tctNodes t). tn_multiforked (tctNodes t' ! n) \<longleftrightarrow> forked_often t n)"
proof (cases "tctNodes t = []")
  case True
  then show ?thesis using same_tree_refl by (auto simp: collectMultiForkedThreads_def)
next
  case False
  let ?s = "(t, snd (fifo_push 0 fifo_new))" and ?N = "length (tctNodes t)"
  have w: "fifo_inv (snd ?s)" "set (data_list (snd ?s)) = {0}"
    by (auto simp: fifo_push_def fifo_new_def fifo_inv_def)
  let ?I = "\<lambda>s. \<exists>D. multi_inv t D s" and ?r = "inv_image (mult less_than) (pend_ranks t)"
  have i: "?I ?s"
  proof
    show "multi_inv t {} ?s"
      unfolding multi_inv_def fst_conv w
      using False m w(1) same_tree_refl tree_edges_less [OF sh] by fastforce
  qed
  obtain s where s: "while_option (\<lambda>s. \<not> fifo_empty (snd s)) multi_step ?s = Some s" "?I s" "fifo_empty (snd s)"
  proof -
    have "\<exists>s. while_option (\<lambda>s. \<not> fifo_empty (snd s)) multi_step ?s = Some s \<and> ?I s \<and> \<not> \<not> fifo_empty (snd s)"
    proof (rule while_option_total [of ?r ?I])
      show "wf ?r" by (intro wf_inv_image wf_mult wf_less_than)
      show "?I (multi_step s) \<and> (multi_step s, s) \<in> ?r" if "?I s" "\<not> fifo_empty (snd s)" for s
        using multi_step_inv [OF sh _ that(2)] that(1) by (metis in_inv_image)
    qed (rule i)
    then show thesis using that by blast
  qed
  then obtain D where D: "multi_inv t D s" by blast
  have e: "data_list (snd s) = []" using s(3) by (simp add: fifo_empty_def)
  have "n \<in> D" if "n < ?N" for n
    using tree_from_root [OF sh that]
  proof (induction rule: rtrancl_induct)
    case (step y z)
    then show ?case using D e by (auto simp: multi_inv_def)
  qed (use D e in \<open>simp add: multi_inv_def\<close>)
  then have r: "same_tree t (fst s)" "\<forall>n<?N. tn_multiforked (tctNodes (fst s) ! n) \<longleftrightarrow> forked_often t n"
    using D by (simp_all add: multi_inv_def)
  have "collectMultiForkedThreads t = Some (fst s)"
    using False s(1) by (simp add: collectMultiForkedThreads_def case_prod_unfold)
  then show ?thesis using r by blast
qed


section \<open>Loops of join sites\<close>

definition join_loop :: "program \<Rightarrow> inst \<Rightarrow> loop option" where
  "join_loop P j = (case tct_getLoop P j of None \<Rightarrow> None
     | Some lp \<Rightarrow> if \<forall>b\<in>set (bb_succs P (loop_header P lp)). loop_contains P lp b \<longrightarrow> post_dom P (bb_of P j) b
         then Some lp else None)"

definition loops_local :: "program \<Rightarrow> bool" where
  "loops_local P \<longleftrightarrow> (\<forall>j\<in>set (join_sites P). \<forall>lp. tct_getLoop P j = Some lp \<longrightarrow>
     fun_of P (bb_front P (loop_header P lp)) = fun_of P j)"

lemma collect_join_effect:
  assumes P: "calls_finite P" and l: "\<And>lp. tct_getLoop P j = Some lp \<Longrightarrow> fun_of P (bb_front P (loop_header P lp)) = fun_of P j"
  shows "collect_join P j t = Some (Some (t\<lparr>
    joinSiteToLoopMap := (if join_loop P j = None then joinSiteToLoopMap t else (joinSiteToLoopMap t)(j := join_loop P j)),
    inRecurJoinSites := (if cycle_site P j then set_insert j (inRecurJoinSites t) else inRecurJoinSites t)\<rparr>))"
proof (cases "tct_getLoop P j")
  case None
  then show ?thesis by (simp add: collect_join_def join_loop_def isInRecursion_reach [OF P] cycle_site_def)
next
  case (Some lp)
  have "isJoinMustExecutedInLoop P lp j = Some (join_loop P j \<noteq> None)" "join_loop P j \<noteq> None \<Longrightarrow> join_loop P j = Some lp"
    using l [OF Some] Some
    by (auto simp: isJoinMustExecutedInLoop_def join_loop_def Let_def list_all_iff split: if_splits)
  then show ?thesis using Some
    by (cases "join_loop P j") (simp_all add: collect_join_def isInRecursion_reach [OF P] cycle_site_def)
qed

lemma collect_joins_effect:
  assumes P: "calls_finite P" and "\<And>j lp. j \<in> set js \<Longrightarrow> tct_getLoop P j = Some lp \<Longrightarrow> fun_of P (bb_front P (loop_header P lp)) = fun_of P j"
    and "std_set_ok (inRecurJoinSites t)"
  shows "\<exists>m r. foldR (collect_join P) js t = Some (Some (t\<lparr>joinSiteToLoopMap := m, inRecurJoinSites := r\<rparr>)) \<and>
    (\<forall>j. m j = (if j \<in> set js \<and> join_loop P j \<noteq> None then join_loop P j else joinSiteToLoopMap t j)) \<and>
    std_set_ok r \<and> set r = set (inRecurJoinSites t) \<union> {j \<in> set js. cycle_site P j}"
  using assms(2,3)
proof (induction js arbitrary: t)
  case Nil
  then show ?case by (intro exI [of _ "joinSiteToLoopMap t"] exI [of _ "inRecurJoinSites t"]) simp
next
  case (Cons j js)
  define m1 where "m1 = (if join_loop P j = None then joinSiteToLoopMap t else (joinSiteToLoopMap t)(j := join_loop P j))"
  define r1 where "r1 = (if cycle_site P j then set_insert j (inRecurJoinSites t) else inRecurJoinSites t)"
  let ?t1 = "t\<lparr>joinSiteToLoopMap := m1, inRecurJoinSites := r1\<rparr>"
  have c: "collect_join P j t = Some (Some ?t1)"
    unfolding m1_def r1_def by (rule collect_join_effect [OF P]) (use Cons.prems(1) in simp)
  have r1: "std_set_ok r1" "set r1 = set (inRecurJoinSites t) \<union> {i. i = j \<and> cycle_site P i}"
    using Cons.prems(2) by (auto simp: r1_def)
  obtain m r where mr: "foldR (collect_join P) js ?t1 = Some (Some (?t1\<lparr>joinSiteToLoopMap := m, inRecurJoinSites := r\<rparr>))"
    "\<And>i. m i = (if i \<in> set js \<and> join_loop P i \<noteq> None then join_loop P i else m1 i)"
    "std_set_ok r" "set r = set r1 \<union> {j \<in> set js. cycle_site P j}"
    using Cons.IH [of ?t1] Cons.prems(1) r1(1) by (auto cong: if_cong)
  have "m i = (if i \<in> set (j # js) \<and> join_loop P i \<noteq> None then join_loop P i else joinSiteToLoopMap t i)" for i
    by (cases "join_loop P i") (auto simp: mr(2) m1_def)
  moreover have "set r = set (inRecurJoinSites t) \<union> {i \<in> set (j # js). cycle_site P i}"
    using mr(4) r1(2) by auto
  moreover have "foldR (collect_join P) (j # js) t = Some (Some (t\<lparr>joinSiteToLoopMap := m, inRecurJoinSites := r\<rparr>))"
    using c mr(1) by simp
  ultimately show ?case using mr(3) by blast
qed

definition entry_funs :: "program \<Rightarrow> func set" where
  "entry_funs P = {f \<in> set (mod_funs P). \<not> is_ext_fun P f \<and> in_edges P f = []}"

lemma collectEntryFunInCallGraph_set:
  assumes "entryFuncSet t = []" "entry_funs P \<noteq> {}"
  shows "\<exists>es. collectEntryFunInCallGraph P t = Some (t\<lparr>entryFuncSet := es\<rparr>) \<and> set es = entry_funs P"
proof -
  let ?f = "\<lambda>f t. if is_ext_fun P f then t
    else if in_edges P f = [] then t\<lparr>entryFuncSet := set_insert f (entryFuncSet t)\<rparr> else t"
  have "std_set_ok (entryFuncSet t) \<Longrightarrow> \<exists>es. fold ?f fs t = t\<lparr>entryFuncSet := es\<rparr> \<and>
      set es = set (entryFuncSet t) \<union> {f \<in> set fs. \<not> is_ext_fun P f \<and> in_edges P f = []}" for fs t
  proof (induction fs arbitrary: t)
    case Nil
    then show ?case by (intro exI [of _ "entryFuncSet t"]) simp
  next
    case (Cons f fs)
    have "std_set_ok (entryFuncSet (?f f t))" using Cons.prems by simp
    then obtain es where "fold ?f fs (?f f t) = (?f f t)\<lparr>entryFuncSet := es\<rparr>"
      "set es = set (entryFuncSet (?f f t)) \<union> {f \<in> set fs. \<not> is_ext_fun P f \<and> in_edges P f = []}"
      using Cons.IH by blast
    then show ?case using Cons.prems by (intro exI [of _ es]) auto
  qed
  from this [of t "mod_funs P"] obtain es where es: "fold ?f (mod_funs P) t = t\<lparr>entryFuncSet := es\<rparr>"
    "set es = entry_funs P" using assms(1) by (auto simp: entry_funs_def)
  then have "es \<noteq> []" using assms(2) by auto
  then have "collectEntryFunInCallGraph P t = Some (t\<lparr>entryFuncSet := es\<rparr>)"
    using es(1) by (simp add: collectEntryFunInCallGraph_def Let_def)
  then show ?thesis using es(2) by blast
qed


section \<open>Bounded contexts\<close>

text \<open>
  The call graph, with its thread edges, has finitely many call sites, and its components are
  ranked: a call stays in the component of the caller or goes to one of smaller rank. A
  context then never gets longer than the rank of the function it was pushed from.
\<close>

definition calls_ranked :: "program \<Rightarrow> (func \<Rightarrow> nat) \<Rightarrow> bool" where
  "calls_ranked P rk \<longleftrightarrow> finite (\<Union>f. set (calls_of P f)) \<and> (\<forall>f e cs. (e, cs) \<in> set (calls_of P f) \<longrightarrow>
     rk (e_dst e) \<le> rk f \<and> (\<not> same_scc P (fun_of P cs) (e_dst e) \<longrightarrow> rk (e_dst e) < rk f))"

lemma push_in_length:
  assumes "calls_ranked P rk" "(e, cs) \<in> set (calls_of P f)" "length c + rk f \<le> B"
  shows "length (push_in P C c cs (e_dst e)) + rk (e_dst e) \<le> B"
proof -
  have "rk (e_dst e) \<le> rk f" "\<not> same_scc P (fun_of P cs) (e_dst e) \<Longrightarrow> rk (e_dst e) < rk f"
    using assms(1,2) unfolding calls_ranked_def by blast+
  then show ?thesis using assms(3) by (auto simp: push_in_def)
qed

lemma thread_procs_finite:
  assumes r: "calls_ranked P rk" and E: "finite E"
  shows "finite (thread_procs P C E)"
proof -
  let ?X = "\<Union>f. set (calls_of P f)" and ?B = "Max (insert 0 (rk ` E))"
  let ?ids = "(\<lambda>(e, cs). call_site_id P cs (e_dst e)) ` ?X" and ?F = "E \<union> (\<lambda>(e, cs). e_dst e) ` ?X"
  let ?cxts = "{c. set c \<subseteq> ?ids \<and> length c \<le> ?B}"
  let ?I = "{((i, k), c, f). i \<in> insert null_inst (snd ` ?X) \<and> k \<in> ?cxts \<and> c \<in> ?cxts \<and> f \<in> ?F \<and> length c + rk f \<le> ?B}"
  have fin: "finite ?X" using r by (simp add: calls_ranked_def)
  have "finite ?cxts" by (rule finite_lists_length_le) (use fin in simp)
  then have "finite ((insert null_inst (snd ` ?X) \<times> ?cxts) \<times> ?cxts \<times> ?F)" using fin E by blast
  then have "finite ?I" by (rule rev_finite_subset) auto
  moreover have "thread_procs P C E \<subseteq> ?I"
  proof (rule reach_least)
    have "rk f \<le> ?B" if "f \<in> E" for f using that E by simp
    then show "thread_roots P C E \<subseteq> ?I" by (auto simp: thread_roots_def)
    fix x y assume x: "x \<in> ?I" and y: "y \<in> thread_succ P C x"
    obtain i k c f where xe: "x = ((i, k), c, f)" by (metis prod.exhaust)
    have k: "i \<in> insert null_inst (snd ` ?X)" "k \<in> ?cxts" "set c \<subseteq> ?ids" "length c + rk f \<le> ?B" using x by (simp_all add: xe)
    obtain e cs where e: "(e, cs) \<in> set (calls_of P f)" "y \<in> call_target P C x (e, cs)"
      using y by (auto simp: thread_succ_def xe split: if_splits)
    have eX: "(e, cs) \<in> ?X" using e(1) by blast
    let ?c = "push_in P C c cs (e_dst e)"
    have l: "length ?c + rk (e_dst e) \<le> ?B" by (rule push_in_length [OF r e(1) k(4)])
    have "call_site_id P cs (e_dst e) \<in> ?ids"
      using imageI [OF eX, of "\<lambda>(e, cs). call_site_id P cs (e_dst e)"] by (simp only: prod.case)
    then have "set ?c \<subseteq> ?ids" using k(3) by (auto simp: push_in_def)
    then have cx: "?c \<in> ?cxts" using l by simp
    have "e_dst e \<in> ?F" "cs \<in> snd ` ?X"
      using imageI [OF eX, of "\<lambda>(e, cs). e_dst e"] imageI [OF eX, of snd] by (simp_all only: prod.case snd_conv UnI2)
    moreover have "y = ((i, k), ?c, e_dst e) \<or> y = ((cs, ?c), ?c, e_dst e)"
      using e(2) by (simp add: call_target_def xe Let_def split: if_splits)
    ultimately show "y \<in> ?I" using k(1,2) cx l by (elim disjE) simp_all
  qed
  ultimately show ?thesis by (rule finite_subset [rotated])
qed

section \<open>The tree that is built\<close>

text \<open>What the construction relies on, all of it ensured by the call graph and loop analyses.\<close>

definition tct_ready :: "program \<Rightarrow> (inst \<Rightarrow> func) \<Rightarrow> (func \<Rightarrow> nat) \<Rightarrow> bool" where
  "tct_ready P rt rk \<longleftrightarrow> calls_finite P \<and> fork_resolved P rt \<and> calls_ranked P rk \<and> loops_local P \<and>
     (\<forall>i\<in>set (fork_sites P). fork_edges P i \<noteq> None) \<and> entry_funs P \<noteq> {}"

abbreviation program_threads :: "program \<Rightarrow> thread_proc set" where
  "program_threads P \<equiv> thread_procs P (rel_funs P) (entry_funs P)"

lemma program_threads_finite: "tct_ready P rt rk \<Longrightarrow> finite (program_threads P)"
  using thread_procs_finite [of P rk "entry_funs P"] by (simp add: tct_ready_def entry_funs_def)

lemma build_spec:
  assumes R: "tct_ready P rt rk"
  shows "\<exists>t. build P = Some (Some t) \<and> tct_shape P (rel_funs P) rt t \<and> set (candidateFuncSet t) = rel_funs P \<and>
    set (entryFuncSet t) = entry_funs P \<and> fst ` program_threads P = node_key t ` {..<length (tctNodes t)} \<and>
    abs_proc t ` tctVisited t = program_threads P \<and>
    (\<forall>n<length (tctNodes t). tn_multiforked (tctNodes t ! n) \<longleftrightarrow> forked_often t n) \<and>
    (\<forall>j. joinSiteToLoopMap t j = (if j \<in> set (join_sites P) then join_loop P j else None)) \<and>
    set (inRecurJoinSites t) = {j \<in> set (join_sites P). cycle_site P j}"
proof -
  let ?C = "rel_funs P" and ?E = "entry_funs P"
  have P: "calls_finite P" "fork_resolved P rt" "loops_local P" "\<forall>i\<in>set (fork_sites P). fork_edges P i \<noteq> None"
    "entry_funs P \<noteq> {}" using R by (simp_all add: tct_ready_def)
  note fin = program_threads_finite [OF R]
  obtain fs where fs: "markRelProcs P tct_new = Some (Some (tct_new\<lparr>candidateFuncSet := fs\<rparr>))" "set fs = ?C"
    using markRelProcs_reach [OF P(1) _ P(4), of tct_new] by (auto simp: tct_new_def)
  let ?t1 = "tct_new\<lparr>candidateFuncSet := fs\<rparr>"
  have "std_set_ok (inRecurJoinSites ?t1)" by (simp add: tct_new_def)
  then obtain m r where mr: "collectLoopInfoForJoin P ?t1 = Some (Some (?t1\<lparr>joinSiteToLoopMap := m, inRecurJoinSites := r\<rparr>))"
    "\<forall>j. m j = (if j \<in> set (join_sites P) \<and> join_loop P j \<noteq> None then join_loop P j else joinSiteToLoopMap ?t1 j)"
    "set r = set (inRecurJoinSites ?t1) \<union> {j \<in> set (join_sites P). cycle_site P j}"
    using collect_joins_effect [OF P(1), of "join_sites P" ?t1] P(3)
    unfolding collectLoopInfoForJoin_def loops_local_def by blast
  let ?t2 = "?t1\<lparr>joinSiteToLoopMap := m, inRecurJoinSites := r\<rparr>"
  have "entryFuncSet ?t2 = []" by (simp add: tct_new_def)
  then obtain es where es: "collectEntryFunInCallGraph P ?t2 = Some (?t2\<lparr>entryFuncSet := es\<rparr>)" "set es = ?E"
    using collectEntryFunInCallGraph_set [OF _ P(5)] by blast
  let ?t3 = "?t2\<lparr>entryFuncSet := es\<rparr>"
  have "entry_inv P ?C ?E rt ?t3"
    by (simp add: entry_inv_def tct_base_def fs(2) tct_new_def keys_ok_def edges_ok_def fifo_new_def fifo_inv_def)
  then obtain t4 where t4: "foldR (build_entry P) es ?t3 = Some (Some t4)" "entry_inv P ?C ?E rt t4"
    "entryFuncSet t4 = es" "joinSiteToLoopMap t4 = m" "inRecurJoinSites t4 = r"
    "thread_roots P ?C ?E \<subseteq> abs_proc t4 ` tctVisited t4"
    using build_entries_inv [of P ?C ?E rt ?t3 es] es(2) by auto
  let ?z = "\<lambda>t. tctNodes t \<noteq> [] \<longrightarrow> (\<exists>c\<in>tctVisited t. tp_getTid c = 0)"
  let ?I = "\<lambda>t. tct_inv P ?C ?E rt t \<and> ?z t \<and> entryFuncSet t = es \<and> joinSiteToLoopMap t = m \<and> inRecurJoinSites t = r"
  let ?r = "inv_image (less_than <*lex*> less_than) (tct_measure P ?C ?E)"
  obtain t5 where t5: "while_run (\<lambda>t. \<not> fifo_empty (tctList t)) (proc_step P) t4 = Some (Some t5)" "?I t5" "fifo_empty (tctList t5)"
  proof -
    have "?I t4"
      using t4 by (auto simp: entry_inv_def tct_inv_def split: if_splits)
    moreover have "\<exists>t'. proc_step P t = Some (Some t') \<and> ?I t' \<and> (t', t) \<in> ?r" if I: "?I t" "\<not> fifo_empty (tctList t)" for t
    proof -
      obtain t' where t': "proc_step P t = Some (Some t')" "tct_inv P ?C ?E rt t'" "entryFuncSet t' = entryFuncSet t"
        "joinSiteToLoopMap t' = joinSiteToLoopMap t" "inRecurJoinSites t' = inRecurJoinSites t" "(t', t) \<in> ?r"
        "tctVisited t \<subseteq> tctVisited t'" "tctNodes t \<noteq> []"
        using proc_step_inv [OF _ I(2) P(1,2) fin] I(1) by auto
      have "?z t'" using t'(7,8) I(1) by blast
      then show ?thesis using t'(1-6) I(1) by simp
    qed
    moreover have "wf ?r" by (intro wf_inv_image wf_lex_prod wf_less_than)
    ultimately show thesis using that while_run_total [of ?r ?I t4 "\<lambda>t. \<not> fifo_empty (tctList t)" "proc_step P"] by blast
  qed
  have b: "tct_base P ?C ?E rt t5" "tct_pend t5 = {}"
    using t5(2,3) by (simp_all add: tct_inv_def fifo_empty_def)
  have sh: "tct_shape P ?C rt t5" using b(1) by (simp add: tct_base_def tct_shape_def)
  have K: "keys_ok t5" and V: "\<And>c. c \<in> tctVisited t5 \<Longrightarrow> tp_getTid c < length (tctNodes t5)"
    using b(1) by (simp_all add: tct_base_def)
  have procs: "abs_proc t5 ` tctVisited t5 = program_threads P"
  proof
    show "abs_proc t5 ` tctVisited t5 \<subseteq> program_threads P" using b(1) by (simp add: tct_base_def)
    show "program_threads P \<subseteq> abs_proc t5 ` tctVisited t5"
    proof (rule reach_least)
      show "thread_roots P ?C ?E \<subseteq> abs_proc t5 ` tctVisited t5" using t5(2) by (simp add: tct_inv_def)
      fix x y assume x: "x \<in> abs_proc t5 ` tctVisited t5" and y: "y \<in> thread_succ P ?C x"
      then obtain c where c: "c \<in> tctVisited t5" "x = abs_proc t5 c" by blast
      have "c \<notin> tct_pend t5" unfolding b(2) by blast
      then have "thread_succ P ?C (abs_proc t5 c) \<subseteq> abs_proc t5 ` tctVisited t5"
        using t5(2) c(1) unfolding tct_inv_def by blast
      then show "y \<in> abs_proc t5 ` tctVisited t5" using y unfolding c(2) by (rule subsetD)
    qed
  qed
  have keys: "fst ` program_threads P = node_key t5 ` {..<length (tctNodes t5)}"
  proof
    show "fst ` program_threads P \<subseteq> node_key t5 ` {..<length (tctNodes t5)}"
      unfolding procs [symmetric] using V by (auto simp: abs_proc_def)
    have "\<exists>c\<in>tctVisited t5. tp_getTid c = n" if n: "n < length (tctNodes t5)" for n
    proof (cases "n = 0")
      case True
      then show ?thesis using t5(2) n by auto
    next
      case False
      then have "tn_in (tctNodes t5 ! n) \<noteq> []" using tree_root [OF sh n] by simp
      then have "CxtThreadProc n (CxtProc (snd (node_key t5 n)) (rt (fst (node_key t5 n)))) \<in> tctVisited t5"
        using sh n by (auto simp: tct_shape_def tree_node_def split: if_splits)
      then show ?thesis by (rule bexI [rotated]) simp
    qed
    then have "node_key t5 n \<in> fst ` abs_proc t5 ` tctVisited t5" if "n < length (tctNodes t5)" for n
      using that by (metis abs_proc_def fst_conv imageI)
    then show "node_key t5 ` {..<length (tctNodes t5)} \<subseteq> fst ` program_threads P"
      unfolding procs [symmetric] by blast
  qed
  have "\<forall>n<length (tctNodes t5). \<not> tn_multiforked (tctNodes t5 ! n)" using b(1) by (simp add: tct_base_def)
  then obtain t6 where t6: "collectMultiForkedThreads t5 = Some t6" "same_tree t5 t6"
    "\<forall>n<length (tctNodes t5). tn_multiforked (tctNodes t6 ! n) \<longleftrightarrow> forked_often t5 n"
    using collectMultiForkedThreads_often [OF sh] by blast
  note S = same_tree_simps [OF t6(2)]
  have "build P = Some (Some t6)"
    using fs(1) mr(1) es(1) t4(1) t5(1) t6(1) by (simp add: build_def)
  moreover have "tct_shape P ?C rt t6" by (rule same_tree_shape [OF t6(2) sh])
  moreover have "set (candidateFuncSet t6) = ?C" using b(1) by (simp add: S tct_base_def)
  moreover have "set (entryFuncSet t6) = ?E" using t5(2) es(2) by (simp add: S)
  moreover have "fst ` program_threads P = node_key t6 ` {..<length (tctNodes t6)}"
    unfolding keys using S(1,5) by (intro image_cong) auto
  moreover have "abs_proc t6 ` tctVisited t6 = program_threads P"
    unfolding procs [symmetric] S(6) using V S(5) by (intro image_cong) (auto simp: abs_proc_def)
  moreover have "\<forall>n<length (tctNodes t6). tn_multiforked (tctNodes t6 ! n) \<longleftrightarrow> forked_often t6 n"
    using t6(3) same_tree_forked_often [OF t6(2) sh] S(1) by simp
  moreover have "\<forall>j. joinSiteToLoopMap t6 j = (if j \<in> set (join_sites P) then join_loop P j else None)"
  proof
    fix j show "joinSiteToLoopMap t6 j = (if j \<in> set (join_sites P) then join_loop P j else None)"
      using t5(2) mr(2) S(12) by (cases "join_loop P j") (auto simp: tct_new_def)
  qed
  moreover have "set (inRecurJoinSites t6) = {j \<in> set (join_sites P). cycle_site P j}"
    using t5(2) mr(3) by (simp add: S tct_new_def)
  ultimately show ?thesis by blast
qed


text \<open>C1: Building the thread creation tree ends and fails no assertion. Its nodes are in
  one-to-one correspondence with the context-sensitive threads that the procedures reachable
  from the entry functions fork; its candidate functions are those that reach a fork or a join
  site on the call graph, with the routines forked; its entry functions those without callers.\<close>

theorem build_threads:
  assumes "tct_ready P rt rk"
  shows "\<exists>t. build P = Some (Some t) \<and>
    bij_betw (node_key t) {..<length (tctNodes t)} (fst ` program_threads P) \<and>
    (\<forall>n<length (tctNodes t). getTCTNode_ct t (tn_ctx (tctNodes t ! n)) = Some n) \<and>
    set (candidateFuncSet t) = rel_funs P \<and> set (entryFuncSet t) = entry_funs P"
proof -
  obtain t where t: "build P = Some (Some t)" "tct_shape P (rel_funs P) rt t" "set (candidateFuncSet t) = rel_funs P"
    "set (entryFuncSet t) = entry_funs P" "fst ` program_threads P = node_key t ` {..<length (tctNodes t)}"
    using build_spec [OF assms] by blast
  have K: "keys_ok t" using t(2) by (simp add: tct_shape_def)
  have "inj_on (node_key t) {..<length (tctNodes t)}" using node_key_inj [OF K] by (auto simp: inj_on_def)
  moreover have "getTCTNode_ct t (tn_ctx (tctNodes t ! n)) = Some n" if "n < length (tctNodes t)" for n
    using K that unfolding keys_ok_def getTCTNode_ct_def node_key_def by blast
  ultimately show ?thesis using t by (simp add: bij_betw_def)
qed

lemma built:
  assumes "tct_ready P rt rk" "build P = Some (Some t)"
  shows "tct_shape P (rel_funs P) rt t"
    and "n < length (tctNodes t) \<Longrightarrow> tn_multiforked (tctNodes t ! n) \<longleftrightarrow> forked_often t n"
    and "joinSiteToLoopMap t j = (if j \<in> set (join_sites P) then join_loop P j else None)"
    and "set (inRecurJoinSites t) = {j \<in> set (join_sites P). cycle_site P j}"
    and "set (candidateFuncSet t) = rel_funs P" "abs_proc t ` tctVisited t = program_threads P"
  using build_spec [OF assms(1)] assms(2) by auto

section \<open>Queries\<close>

lemma hasParentThread_iff:
  assumes "tct_shape P C rt t" "n < length (tctNodes t)"
  shows "hasParentThread t n = Some (n \<noteq> 0)"
proof (cases "n = 0")
  case True
  then show ?thesis using tree_root [OF assms] assms(2) by (simp add: hasParentThread_def getGNode_def)
next
  case False
  then obtain p where "tn_in (tctNodes t ! n) = [p]" using tree_parent [OF assms False] by blast
  then show ?thesis using False assms(2) by (simp add: hasParentThread_def getGNode_def)
qed

lemma getParentThread_edge:
  assumes "tct_shape P C rt t" "n < length (tctNodes t)" "n \<noteq> 0"
  obtains p where "getParentThread t n = Some p" "p < n" "(p, n) \<in> tree_edges t" "forked_by P C t p n"
proof -
  obtain p where "tn_in (tctNodes t ! n) = [p]" "p < n" "forked_by P C t p n" "(p, n) \<in> tree_edges t"
    by (rule tree_parent [OF assms])
  then show thesis using that [of p] assms(2) by (simp add: getParentThread_def getGNode_def)
qed

lemma ancestors_step:
  assumes "tct_shape P C rt t" "(p, n) \<in> tree_edges t"
  shows "{a. (a, n) \<in> (tree_edges t)\<^sup>*} = insert n {a. (a, p) \<in> (tree_edges t)\<^sup>*}"
    and "n \<notin> {a. (a, p) \<in> (tree_edges t)\<^sup>*}"
    and "{a. (a, n) \<in> (tree_edges t)\<^sup>+} = {a. (a, p) \<in> (tree_edges t)\<^sup>*}"
proof -
  show t: "{a. (a, n) \<in> (tree_edges t)\<^sup>+} = {a. (a, p) \<in> (tree_edges t)\<^sup>*}"
  proof (rule set_eqI, unfold mem_Collect_eq)
    fix a
    have "(a, p) \<in> (tree_edges t)\<^sup>*" if "(a, n) \<in> (tree_edges t)\<^sup>+"
      using tranclD2 [OF that] tree_edges_unique [OF assms(1) _ assms(2)] by blast
    then show "(a, n) \<in> (tree_edges t)\<^sup>+ \<longleftrightarrow> (a, p) \<in> (tree_edges t)\<^sup>*"
      using rtrancl_into_trancl1 [OF _ assms(2)] by blast
  qed
  then show "{a. (a, n) \<in> (tree_edges t)\<^sup>*} = insert n {a. (a, p) \<in> (tree_edges t)\<^sup>*}"
    by (auto simp: rtrancl_eq_or_trancl)
  have "a \<le> p" if "(a, p) \<in> (tree_edges t)\<^sup>*" for a
    using that by (induction rule: converse_rtrancl_induct) (use tree_edges_less [OF assms(1)] in force)+
  then show "n \<notin> {a. (a, p) \<in> (tree_edges t)\<^sup>*}" using tree_edges_less [OF assms] by fastforce
qed

definition anc_inv :: "tct \<Rightarrow> node_id \<Rightarrow> node_id std_set \<times> node_id fifo \<Rightarrow> bool" where
  "anc_inv t n s \<longleftrightarrow> fifo_inv (snd s) \<and> std_set_ok (fst s) \<and>
     (data_list (snd s) = [] \<and> set (fst s) = {a. (a, n) \<in> (tree_edges t)\<^sup>+} \<or>
      (\<exists>p. data_list (snd s) = [p] \<and> p < length (tctNodes t) \<and> (p, n) \<in> (tree_edges t)\<^sup>+ \<and>
         set (fst s) \<union> {a. (a, p) \<in> (tree_edges t)\<^sup>*} = {a. (a, n) \<in> (tree_edges t)\<^sup>+} \<and>
         set (fst s) \<inter> {a. (a, p) \<in> (tree_edges t)\<^sup>*} = {}))"

lemma ancestor_step_inv:
  assumes sh: "tct_shape P C rt t" and I: "anc_inv t n s" and g: "\<not> fifo_empty (snd s)"
  shows "\<exists>s'. ancestor_step t s = Some (Some s') \<and> anc_inv t n s' \<and>
    (s', s) \<in> measure (\<lambda>s. sum_list (map Suc (data_list (snd s))))"
proof -
  obtain tds w where s: "s = (tds, w)" by (cases s)
  obtain p where p: "data_list w = [p]" "p < length (tctNodes t)" "(p, n) \<in> (tree_edges t)\<^sup>+"
    "set tds \<union> {a. (a, p) \<in> (tree_edges t)\<^sup>*} = {a. (a, n) \<in> (tree_edges t)\<^sup>+}"
    "set tds \<inter> {a. (a, p) \<in> (tree_edges t)\<^sup>*} = {}" and f: "fifo_inv w" "std_set_ok tds"
    using I g by (auto simp: anc_inv_def s fifo_empty_def)
  obtain w1 where w1: "fifo_pop w = Some (p, w1)" using p(1) by (simp add: fifo_pop_def)
  have f1: "fifo_inv w1" "data_list w1 = []" using fifo.pop_Some [OF f(1) w1] p(1) by simp_all
  have np: "\<not> set_find p tds" using p(5) by (auto simp: set_find_def)
  show ?thesis
  proof (cases "p = 0")
    case True
    have "a = 0" if "(a, 0) \<in> (tree_edges t)\<^sup>*" for a
      using that by (cases rule: rtranclE) (use tree_edges_less [OF sh] in force)+
    then have z: "{a. (a, p) \<in> (tree_edges t)\<^sup>*} = {p}" using True by auto
    have "ancestor_step t s = Some (Some (set_insert p tds, w1))"
      using w1 np hasParentThread_iff [OF sh p(2)] True by (simp add: ancestor_step_def s)
    moreover have "anc_inv t n (set_insert p tds, w1)" using f1 f(2) p(4) z by (auto simp: anc_inv_def)
    ultimately show ?thesis using f1(2) p(1) by (simp add: s)
  next
    case False
    obtain q where q: "getParentThread t p = Some q" "q < p" "(q, p) \<in> tree_edges t"
      by (rule getParentThread_edge [OF sh p(2) False])
    note A = ancestors_step [OF sh q(3)]
    obtain w2 where w2: "fifo_push q w1 = (True, w2)" "fifo_inv w2" "data_list w2 = [q]"
    proof -
      obtain b w2 where "fifo_push q w1 = (b, w2)" by (cases "fifo_push q w1")
      then show thesis using that fifo.push [OF f1(1)] f1(2) by fastforce
    qed
    have "ancestor_step t s = Some (Some (set_insert p tds, w2))"
      using w1 np hasParentThread_iff [OF sh p(2)] False q(1) w2(1) by (simp add: ancestor_step_def s)
    moreover have "anc_inv t n (set_insert p tds, w2)"
      unfolding anc_inv_def fst_conv snd_conv
    proof (intro conjI disjI2 exI [of _ q])
      show "(q, n) \<in> (tree_edges t)\<^sup>+" using q(3) p(3) by (rule trancl_into_trancl2)
      show "set (set_insert p tds) \<union> {a. (a, q) \<in> (tree_edges t)\<^sup>*} = {a. (a, n) \<in> (tree_edges t)\<^sup>+}"
        using p(4) f(2) unfolding A(1) by auto
      show "set (set_insert p tds) \<inter> {a. (a, q) \<in> (tree_edges t)\<^sup>*} = {}"
        using p(5) f(2) A(2) unfolding A(1) by auto
    qed (use w2 f(2) q(2) p(2) in simp_all)
    ultimately show ?thesis using w2(3) p(1) q(2) by (simp add: s)
  qed
qed

lemma ancestors_set:
  assumes sh: "tct_shape P C rt t" and n: "n < length (tctNodes t)"
  shows "\<exists>as. getAncestorThread t n = Some (Some as) \<and> std_set_ok as \<and> set as = {a. (a, n) \<in> (tree_edges t)\<^sup>+}"
proof (cases "n = 0")
  case True
  have "(a, 0) \<notin> (tree_edges t)\<^sup>+" for a using tranclD2 tree_edges_less [OF sh] by (metis not_less_zero)
  then show ?thesis using True hasParentThread_iff [OF sh n] by (simp add: getAncestorThread_def)
next
  case False
  obtain p where p: "getParentThread t n = Some p" "p < n" "(p, n) \<in> tree_edges t"
    by (rule getParentThread_edge [OF sh n False])
  let ?s = "([], snd (fifo_push p fifo_new))"
  have "anc_inv t n ?s"
    using p(2,3) n ancestors_step(3) [OF sh p(3)]
    by (auto simp: anc_inv_def fifo_push_def fifo_new_def fifo_inv_def)
  then obtain s where s: "while_run (\<lambda>s. \<not> fifo_empty (snd s)) (ancestor_step t) ?s = Some (Some s)"
    "anc_inv t n s" "fifo_empty (snd s)"
    using while_run_total [of "measure (\<lambda>s. sum_list (map Suc (data_list (snd s))))" "anc_inv t n" ?s
        "\<lambda>s. \<not> fifo_empty (snd s)" "ancestor_step t"] ancestor_step_inv [OF sh] by blast
  have "set (fst s) = {a. (a, n) \<in> (tree_edges t)\<^sup>+}" "std_set_ok (fst s)"
    using s(2,3) by (auto simp: anc_inv_def fifo_empty_def)
  then show ?thesis using s(1) p(1) hasParentThread_iff [OF sh n] False
    by (simp add: getAncestorThread_def case_prod_unfold)
qed


section \<open>An example\<close>

text \<open>
  The main function 0 forks routine 1 at site 11, joins it at site 12 and then forks routine 2
  at site 13; routine 1 forks routine 2 at site 21, in a loop.
\<close>

definition main_fork :: cg_edge where
  "main_fork = \<lparr>e_src = 0, e_dst = 1, e_kind = TDForkEdge, e_direct = [11], e_indirect = []\<rparr>"

definition late_fork :: cg_edge where
  "late_fork = \<lparr>e_src = 0, e_dst = 2, e_kind = TDForkEdge, e_direct = [13], e_indirect = []\<rparr>"

definition loop_fork :: cg_edge where
  "loop_fork = \<lparr>e_src = 1, e_dst = 2, e_kind = TDForkEdge, e_direct = [21], e_indirect = []\<rparr>"

definition nested_fork :: program where
  "nested_fork = empty_program\<lparr>mod_funs := [0, 1, 2],
     fun_insts := (\<lambda>f. if f = 0 then [10, 11, 12, 13, 14] else if f = 1 then [20, 21, 22, 23] else [30, 31]),
     fun_of := (\<lambda>i. if i < 20 then 0 else if i < 30 then 1 else 2),
     bb_of := (\<lambda>i. if i < 20 then 0 else if i < 23 then 1 else if i < 30 then 3 else 2),
     bb_front := (\<lambda>b. if b = 0 then 10 else if b = 1 then 20 else if b = 3 then 23 else 30),
     bb_back := (\<lambda>b. if b = 0 then 14 else if b = 1 then 22 else if b = 3 then 23 else 31),
     bb_succs := (\<lambda>b. if b = 1 then [1, 3] else []), entry_bb := (\<lambda>f. f),
     exit_bb := (\<lambda>f. if f = 1 then 3 else f), is_terminator := (\<lambda>i. i \<in> {14, 22, 23, 31}),
     is_return := (\<lambda>i. i \<in> {14, 23, 31}), is_call := (\<lambda>i. i \<in> {11, 12, 13, 21}),
     is_ext_call := (\<lambda>i. i \<in> {11, 12, 13, 21}), is_load := (\<lambda>i. i = 20), is_store := (\<lambda>i. i \<in> {10, 30}),
     td_fork := (\<lambda>i. i \<in> {11, 13, 21}), td_join := (\<lambda>i. i = 12), fork_sites := [11, 13, 21], join_sites := [12],
     forked_thread := (\<lambda>i. i), joined_thread := (\<lambda>_. 11), pta_alias := (\<lambda>p q. if p = q then MustAlias else NoAlias),
     loop_of := (\<lambda>b. if b = 1 then Some 7 else None), loop_header := (\<lambda>_. 1), loop_contains := (\<lambda>_ b. b = 1),
     loop_exits := (\<lambda>_. [3]), in_edges := (\<lambda>f. if f = 1 then [main_fork] else if f = 2 then [late_fork, loop_fork] else []),
     out_edges := (\<lambda>f. if f = 0 then [main_fork, late_fork] else if f = 1 then [loop_fork] else []),
     call_edges := (\<lambda>i. if i \<in> {11, 12, 13, 21} then Some [] else None),
     fork_edges := (\<lambda>i. if i = 11 then Some [main_fork] else if i = 13 then Some [late_fork]
       else if i = 21 then Some [loop_fork] else None),
     call_site_id := (\<lambda>i _. i)\<rparr>"

definition nested_routine :: "inst \<Rightarrow> func" where
  "nested_routine i = (if i = 11 then 1 else 2)"

lemma nested_fork_simps:
  "in_edges nested_fork f = (if f = 1 then [main_fork] else if f = 2 then [late_fork, loop_fork] else [])"
  "out_edges nested_fork f = (if f = 0 then [main_fork, late_fork] else if f = 1 then [loop_fork] else [])"
  "callers_of nested_fork f = (if f = 1 then [11] else if f = 2 then [13, 21] else [])"
  "calls_of nested_fork f = (if f = 0 then [(main_fork, 11), (late_fork, 13)] else if f = 1 then [(loop_fork, 21)] else [])"
  by (simp_all add: nested_fork_def callers_of_def calls_of_def main_fork_def late_fork_def loop_fork_def)

lemma nested_fork_ready: "tct_ready nested_fork nested_routine (\<lambda>f. 2 - f)"
proof -
  have "(\<Union>f. set (callers_of nested_fork f)) \<subseteq> {11, 13, 21}" "(\<Union>f. set (map e_src (in_edges nested_fork f))) \<subseteq> {0, 1}"
    by (auto simp: nested_fork_simps main_fork_def late_fork_def loop_fork_def split: if_splits)
  then have "calls_finite nested_fork" unfolding calls_finite_def using finite_subset by blast
  moreover have "(\<Union>f. set (calls_of nested_fork f)) \<subseteq> {(main_fork, 11), (late_fork, 13), (loop_fork, 21)}"
    by (auto simp: nested_fork_simps split: if_splits)
  then have "finite (\<Union>f. set (calls_of nested_fork f))" by (rule finite_subset) simp
  then have "calls_ranked nested_fork (\<lambda>f. 2 - f)"
    unfolding calls_ranked_def
    by (simp add: nested_fork_simps) (auto simp: main_fork_def late_fork_def loop_fork_def split: if_splits)
  moreover have "fork_resolved nested_fork nested_routine"
    by (auto simp: fork_resolved_def nested_fork_simps main_fork_def late_fork_def loop_fork_def nested_routine_def null_inst_def
        split: if_splits)
  moreover have "loops_local nested_fork" by (simp add: loops_local_def nested_fork_def tct_getLoop_def)
  moreover have "0 \<in> entry_funs nested_fork" by (simp add: entry_funs_def nested_fork_def empty_program_def)
  moreover have "\<forall>i\<in>set (fork_sites nested_fork). fork_edges nested_fork i \<noteq> None" by (simp add: nested_fork_def)
  ultimately show ?thesis unfolding tct_ready_def by blast
qed

definition node_view :: "tct_node \<Rightarrow> call_str_cxt \<times> inst \<times> bool \<times> node_id list \<times> node_id list" where
  "node_view n = (ct_cxt (tn_ctx n), ct_forksite (tn_ctx n), tn_multiforked n, tn_in n, tn_out n)"

definition nested_view :: "(call_str_cxt \<times> inst \<times> bool \<times> node_id list \<times> node_id list) list" where
  "nested_view = [([], 0, False, [], [1, 2]), ([11], 11, False, [0], [3]), ([13], 13, False, [0], []),
     ([11, 21], 21, True, [1], [])]"

definition nested_keys :: "ct_key list" where
  "nested_keys = [(0, []), (11, [11]), (13, [13]), (21, [11, 21])]"

lemma map_run_Some: "map_option (map_option f) r = Some (Some y) \<Longrightarrow> \<exists>t. r = Some (Some t) \<and> f t = y"
  by (auto simp: map_option_eq_Some)

lemma nested_fork_nodes:
  obtains t where "build nested_fork = Some (Some t)" "map node_view (tctNodes t) = nested_view"
    "candidateFuncSet t = [0, 1, 2]" "map (ctpToNodeMap t) nested_keys = [Some 0, Some 1, Some 2, Some 3]"
    "map (ctToForkCxtMap t) nested_keys = [Some [], Some [], Some [], Some [11]]"
    "map (ctToRoutineFunMap t) nested_keys = [Some 0, Some 1, Some 2, Some 2]" "joinSiteToLoopMap t 12 = None"
proof -
  have "map_option (map_option (\<lambda>t. (map node_view (tctNodes t), candidateFuncSet t, map (ctpToNodeMap t) nested_keys,
      map (ctToForkCxtMap t) nested_keys, map (ctToRoutineFunMap t) nested_keys, joinSiteToLoopMap t 12))) (build nested_fork) =
    Some (Some (nested_view, [0, 1, 2], [Some 0, Some 1, Some 2, Some 3], [Some [], Some [], Some [], Some [11]],
      [Some 0, Some 1, Some 2, Some 2], None))" by code_simp
  from map_run_Some [OF this] show thesis
  proof (elim exE conjE)
    fix t assume t: "build nested_fork = Some (Some t)" "(map node_view (tctNodes t), candidateFuncSet t,
      map (ctpToNodeMap t) nested_keys, map (ctToForkCxtMap t) nested_keys, map (ctToRoutineFunMap t) nested_keys,
      joinSiteToLoopMap t 12) = (nested_view, [0, 1, 2], [Some 0, Some 1, Some 2, Some 3], [Some [], Some [], Some [], Some [11]],
      [Some 0, Some 1, Some 2, Some 2], None)"
    show thesis using t(2) unfolding prod.inject by (elim conjE) (rule that [OF t(1)])
  qed
qed

lemma nested_fork_edges:
  assumes "map node_view (tctNodes t) = nested_view"
  shows "length (tctNodes t) = 4 \<and> tree_edges t = {(0, 1), (0, 2), (1, 3)}"
proof
  note assms = assms [unfolded nested_view_def]
  show l: "length (tctNodes t) = 4" using arg_cong [OF assms, of length] by simp
  have i: "map tn_in (tctNodes t) = [[], [0], [0], [1]]"
    using arg_cong [OF assms, of "map (\<lambda>x. fst (snd (snd (snd x))))"] by (simp add: node_view_def comp_def)
  have "tree_edges t = {(p, n). n < 4 \<and> p \<in> set (map tn_in (tctNodes t) ! n)}" by (auto simp: tree_edges_def l)
  also have "\<dots> = (\<Union>n\<in>{0, 1, 2, 3}. (\<lambda>p. (p, n)) ` set ([[], [0], [0], [1]] ! n))"
    unfolding i by (auto simp: eval_nat_numeral less_Suc_eq)
  also have "\<dots> = {(0, 1), (0, 2), (1, 3)}" by (simp add: insert_commute)
  finally show "tree_edges t = {(0, 1), (0, 2), (1, 3)}" .
qed

lemma nested_fork_built:
  obtains t where "build nested_fork = Some (Some t)" "length (tctNodes t) = 4"
    "tree_edges t = {(0, 1), (0, 2), (1, 3)}" "tn_multiforked (tctNodes t ! 3)"
proof (rule nested_fork_nodes)
  fix t assume t: "build nested_fork = Some (Some t)" "map node_view (tctNodes t) = nested_view"
  note e = nested_fork_edges [OF t(2)]
  have "tn_multiforked (tctNodes t ! 3)"
    using arg_cong [OF t(2), of "\<lambda>xs. xs ! 3"] e by (simp add: node_view_def nested_view_def)
  then show thesis using that t(1) e by simp
qed

theorem build_threads_witness:
  "\<exists>t. build nested_fork = Some (Some t) \<and>
     bij_betw (node_key t) {..<length (tctNodes t)} (fst ` program_threads nested_fork)"
  using build_threads [OF nested_fork_ready] by blast

text \<open>C12: The graph is a tree whose node 0 is the main thread. Every other thread has exactly one
  parent, created before it: \<open>getParentThread\<close> passes its assertions and yields a thread that
  runs, in the context recorded for the fork, a candidate function with the fork site; and the
  routine recorded for the thread is the one forked there.\<close>

theorem build_tree:
  assumes "tct_ready P rt rk" and "build P = Some (Some t)" and "n < length (tctNodes t)"
  shows "if n = 0 then hasParentThread t n = Some False
    else \<exists>p<n. hasParentThread t n = Some True \<and> getParentThread t n = Some p \<and>
      forked_by P (rel_funs P) t p n \<and>
      getStartRoutineOfCxtThread t (tn_ctx (tctNodes t ! n)) = Some (rt (ct_forksite (tn_ctx (tctNodes t ! n))))"
proof (cases "n = 0")
  case True
  then show ?thesis using hasParentThread_iff [OF built(1) [OF assms(1,2)] assms(3)] by simp
next
  case False
  note sh = built(1) [OF assms(1,2)]
  obtain p where p: "getParentThread t n = Some p" "p < n" "forked_by P (rel_funs P) t p n"
    by (rule getParentThread_edge [OF sh assms(3) False])
  have "tree_node P (rel_funs P) rt t n" "tn_in (tctNodes t ! n) \<noteq> []"
    using sh assms(3) tree_root [OF sh assms(3)] False by (simp_all add: tct_shape_def)
  then have "ctToRoutineFunMap t (node_key t n) = Some (rt (fst (node_key t n)))"
    by (simp add: tree_node_def split: if_splits)
  then show ?thesis using p False hasParentThread_iff [OF sh assms(3)]
    by (simp add: getStartRoutineOfCxtThread_def node_key_def ct_key_def)
qed

theorem build_tree_witness:
  "\<exists>t p. build nested_fork = Some (Some t) \<and> getParentThread t 3 = Some p \<and>
     forked_by nested_fork (rel_funs nested_fork) t p 3"
proof -
  obtain t where t: "build nested_fork = Some (Some t)" "length (tctNodes t) = 4" by (rule nested_fork_built)
  have "3 < length (tctNodes t)" using t(2) by simp
  from build_tree [OF nested_fork_ready t(1) this] show ?thesis using t(1) by auto
qed

text \<open>C13: A thread is flagged multi-forked exactly when it or one of its ancestors is forked at a
  site that a chain of calls may reach from inside a loop, or in a function that a recursive
  function may call. The visit of the tree ends although it keeps no visited set.\<close>

theorem build_multiforked:
  assumes "tct_ready P rt rk" and "build P = Some (Some t)" and "n < length (tctNodes t)"
  shows "tn_multiforked (tctNodes t ! n) \<longleftrightarrow> (\<exists>a. (a, n) \<in> (tree_edges t)\<^sup>* \<and>
    ct_forksite (tn_ctx (tctNodes t ! a)) \<noteq> null_inst \<and>
    (loop_site P (ct_forksite (tn_ctx (tctNodes t ! a))) \<or> cycle_site P (ct_forksite (tn_ctx (tctNodes t ! a)))))"
proof -
  note sh = built(1) [OF assms(1,2)]
  have "multi_site t a \<longleftrightarrow> ct_forksite (tn_ctx (tctNodes t ! a)) \<noteq> null_inst \<and>
    (loop_site P (ct_forksite (tn_ctx (tctNodes t ! a))) \<or> cycle_site P (ct_forksite (tn_ctx (tctNodes t ! a))))"
    if "(a, n) \<in> (tree_edges t)\<^sup>*" for a
  proof -
    have "a \<le> n" using that
      by (induction rule: converse_rtrancl_induct) (use tree_edges_less [OF sh] in force)+
    then have "attrs_ok P t a" using sh assms(3) by (simp add: tct_shape_def)
    then show ?thesis by (auto simp: attrs_ok_def multi_site_def Let_def)
  qed
  then show ?thesis using built(2) [OF assms(1,2), of n] assms(3) by (auto simp: forked_often_def)
qed

theorem build_multiforked_witness:
  "\<exists>t. build nested_fork = Some (Some t) \<and> (\<exists>a. (a, 3) \<in> (tree_edges t)\<^sup>* \<and>
    ct_forksite (tn_ctx (tctNodes t ! a)) \<noteq> null_inst \<and>
    (loop_site nested_fork (ct_forksite (tn_ctx (tctNodes t ! a))) \<or> cycle_site nested_fork (ct_forksite (tn_ctx (tctNodes t ! a)))))"
proof -
  obtain t where t: "build nested_fork = Some (Some t)" "length (tctNodes t) = 4" "tn_multiforked (tctNodes t ! 3)"
    by (rule nested_fork_built)
  have "3 < length (tctNodes t)" using t(2) by simp
  from build_multiforked [OF nested_fork_ready t(1) this] show ?thesis using t(1,3) by blast
qed

lemma siblings_set:
  assumes sh: "tct_shape P C rt t" and n: "n < length (tctNodes t)"
  shows "\<exists>ss. getSiblingThread t n = Some ss \<and> set ss = {m. m \<noteq> n \<and> (\<exists>p. (p, m) \<in> tree_edges t \<and> (p, n) \<in> tree_edges t)}"
proof (cases "n = 0")
  case True
  have "(p, 0) \<notin> tree_edges t" for p using tree_edges_less [OF sh] by blast
  then show ?thesis using hasParentThread_iff [OF sh n] True by (simp add: getSiblingThread_def)
next
  case False
  obtain p where p: "getParentThread t n = Some p" "p < n" "(p, n) \<in> tree_edges t"
    by (rule getParentThread_edge [OF sh n False])
  have l: "p < length (tctNodes t)" using p(2) n by simp
  have "getSiblingThread t n = Some (filter (\<lambda>d. d \<noteq> n) (tn_out (tctNodes t ! p)))"
    using hasParentThread_iff [OF sh n] False p(1) l by (simp add: getSiblingThread_def getGNode_def)
  moreover have "(\<exists>q. (q, m) \<in> tree_edges t \<and> (q, n) \<in> tree_edges t) \<longleftrightarrow> m \<in> set (tn_out (tctNodes t ! p))" for m
    using tree_edges_out [OF sh l] tree_edges_unique [OF sh _ p(3)] p(3) by blast
  ultimately show ?thesis by auto
qed

text \<open>C19: \<open>getAncestorThread\<close> ends, passes its assertions and yields the proper ancestors of the
  thread; \<open>getSiblingThread\<close> yields the other threads that its parent forks.\<close>

theorem getAncestorThread_ancestors:
  assumes "tct_ready P rt rk" and "build P = Some (Some t)" and "n < length (tctNodes t)"
  shows "(\<exists>as. getAncestorThread t n = Some (Some as) \<and> set as = {a. (a, n) \<in> (tree_edges t)\<^sup>+}) \<and>
    (\<exists>ss. getSiblingThread t n = Some ss \<and> set ss = {m. m \<noteq> n \<and> (\<exists>p. (p, m) \<in> tree_edges t \<and> (p, n) \<in> tree_edges t)})"
  using ancestors_set [OF built(1) [OF assms(1,2)] assms(3)] siblings_set [OF built(1) [OF assms(1,2)] assms(3)] by blast

theorem getAncestorThread_ancestors_witness:
  "\<exists>t as. build nested_fork = Some (Some t) \<and> getAncestorThread t 3 = Some (Some as) \<and> {0, 1} \<subseteq> set as"
proof -
  obtain t where t: "build nested_fork = Some (Some t)" "length (tctNodes t) = 4" "tree_edges t = {(0, 1), (0, 2), (1, 3)}"
    by (rule nested_fork_built)
  have l: "3 < length (tctNodes t)" using t(2) by simp
  have e: "(1, 3) \<in> tree_edges t" "(0, 1) \<in> tree_edges t" by (simp_all add: t(3))
  have "(1, 3) \<in> (tree_edges t)\<^sup>+" using e(1) by (rule r_into_trancl)
  moreover have "(0, 3) \<in> (tree_edges t)\<^sup>+" using r_into_trancl [OF e(2)] e(1) by (rule trancl_into_trancl)
  ultimately have a: "{0, 1} \<subseteq> {a. (a, 3) \<in> (tree_edges t)\<^sup>+}" by simp
  obtain as where "getAncestorThread t 3 = Some (Some as)" "set as = {a. (a, 3) \<in> (tree_edges t)\<^sup>+}"
    using getAncestorThread_ancestors [OF nested_fork_ready t(1) l, THEN conjunct1] by blast
  then show ?thesis using t(1) a by metis
qed

text \<open>C23: The join loop recorded for a join site is the innermost loop around it when every
  successor of the loop header inside the loop is post-dominated by the join, and none otherwise; a
  join site counts as recursive exactly when a recursive function may call its function.\<close>

theorem build_join_loops:
  assumes "tct_ready P rt rk" and "build P = Some (Some t)" and "j \<in> set (join_sites P)" and "td_join P j"
  shows "getJoinLoop P t j = Some (join_loop P j) \<and> isJoinSiteInRecursion P t j = Some (cycle_site P j)"
  using built(3) [OF assms(1,2), of j] built(4) [OF assms(1,2)] assms(3,4)
  by (simp add: getJoinLoop_def isJoinSiteInRecursion_def set_find_def)

theorem build_join_loops_witness:
  "\<exists>t. build nested_fork = Some (Some t) \<and> getJoinLoop nested_fork t 12 = Some None"
proof -
  obtain t where t: "build nested_fork = Some (Some t)" by (rule nested_fork_built)
  have "12 \<in> set (join_sites nested_fork)" "td_join nested_fork 12" "join_loop nested_fork 12 = None"
    by (simp_all add: nested_fork_def join_loop_def tct_getLoop_def)
  then show ?thesis using build_join_loops [OF nested_fork_ready t, of 12] t by simp
qed

end
