(* ===== verification/Propagation.thy ===== *)
theory Propagation
  imports IR "HOL-Library.Multiset"
begin

text \<open>
  Propagation of sets of values over a graph, the contract of the fork-join and of the
  interleaving analysis: a visit of a node may first remove values of its \<open>own\<close>, then lets the
  rest flow to other nodes, puts values there or kills values there, and pushes every node
  whose set changes. With removals a fixed point need not exist; it does when the nodes that
  lose values are ranked.
\<close>

section \<open>Visits\<close>

datatype ('n, 'v) flow_op = Flow (flow_target: 'n) | Put (flow_target: 'n) "'v set" | Kill (flow_target: 'n) "'v set"

type_synonym ('n, 'v) flow = "('n \<Rightarrow> 'v set) \<times> 'n set"

definition do_op :: "'v set \<Rightarrow> ('n, 'v) flow_op \<Rightarrow> ('n, 'v) flow \<Rightarrow> ('n, 'v) flow" where
  "do_op F x = (\<lambda>(l, W). let y = flow_target x;
       S = (case x of Flow y \<Rightarrow> l y \<union> F | Put y S \<Rightarrow> l y \<union> S | Kill y S \<Rightarrow> l y - S)
     in (l(y := S), if S \<noteq> l y then insert y W else W))"

text \<open>The nodes a visit may put on the work list, and the ghost log of the visits.\<close>

type_synonym ('n, 'v) flow_log = "('n, 'v) flow \<times> ('n \<times> 'v set) set"

definition visit_start :: "('n \<Rightarrow> 'v set) \<Rightarrow> 'n \<Rightarrow> ('n, 'v) flow \<Rightarrow> ('n, 'v) flow" where
  "visit_start own c = (\<lambda>(l, W). (l(c := l c - own c), if l c \<inter> own c \<noteq> {} then insert c W else W - {c}))"

definition visit_flow :: "('n \<Rightarrow> 'v set) \<Rightarrow> ('n \<Rightarrow> ('n, 'v) flow_op list) \<Rightarrow> 'n \<Rightarrow> ('n, 'v) flow \<Rightarrow> ('n, 'v) flow" where
  "visit_flow own ops c a = fold (do_op (fst a c - own c)) (ops c) (visit_start own c a)"

definition visit_log :: "('n \<Rightarrow> 'v set) \<Rightarrow> ('n \<Rightarrow> ('n, 'v) flow_op list) \<Rightarrow> 'n \<Rightarrow> ('n, 'v) flow_log \<Rightarrow> ('n, 'v) flow_log" where
  "visit_log own ops c a = (visit_flow own ops c (fst a), insert (c, fst (fst a) c) (snd a))"

section \<open>What a sequence of operations does\<close>

lemma fold_ops_frame:
  assumes "fold (do_op F) xs (l, W) = (l', W')"
  shows "(y \<notin> flow_target ` set xs \<longrightarrow> l' y = l y) \<and> W \<subseteq> W' \<and> W' \<subseteq> W \<union> flow_target ` set xs \<and>
    (l' y \<noteq> l y \<longrightarrow> y \<in> W')"
  using assms
proof (induction xs arbitrary: l W)
  case (Cons x xs)
  obtain l1 W1 where x: "do_op F x (l, W) = (l1, W1)" by (cases "do_op F x (l, W)")
  have "l1 y = l y \<or> y = flow_target x \<and> y \<in> W1" "W \<subseteq> W1" "W1 \<subseteq> insert (flow_target x) W"
    using x by (auto simp: do_op_def Let_def split: if_splits)
  moreover have "(y \<notin> flow_target ` set xs \<longrightarrow> l' y = l1 y) \<and> W1 \<subseteq> W' \<and> W' \<subseteq> W1 \<union> flow_target ` set xs \<and>
      (l' y \<noteq> l1 y \<longrightarrow> y \<in> W')"
    using Cons.IH [of l1 W1] Cons.prems x by simp
  ultimately show ?case by auto
qed simp

lemma fold_ops_unkilled:
  assumes "fold (do_op F) xs (l, W) = (l', W')" and "\<forall>S. Kill y S \<notin> set xs"
  shows "l y \<subseteq> l' y \<and> (y \<in> W' \<longrightarrow> y \<in> W \<or> l' y \<noteq> l y)"
  using assms
proof (induction xs arbitrary: l W)
  case (Cons x xs)
  obtain l1 W1 where x: "do_op F x (l, W) = (l1, W1)" by (cases "do_op F x (l, W)")
  have "l y \<subseteq> l1 y \<and> (y \<in> W1 \<longrightarrow> y \<in> W \<or> l1 y \<noteq> l y)"
    using x Cons.prems(2) by (cases x) (auto simp: do_op_def Let_def split: if_splits)
  moreover have "l1 y \<subseteq> l' y \<and> (y \<in> W' \<longrightarrow> y \<in> W1 \<or> l' y \<noteq> l1 y)"
    using Cons.IH [of l1 W1] Cons.prems x by simp
  ultimately show ?case by auto
qed simp

lemma fold_ops_below:
  assumes "fold (do_op F) xs (l, W) = (l', W')" and "\<forall>S. Kill y S \<in> set xs \<longrightarrow> v \<notin> S"
  shows "(v \<in> l y \<longrightarrow> v \<in> l' y) \<and> (Flow y \<in> set xs \<longrightarrow> v \<in> F \<longrightarrow> v \<in> l' y) \<and>
    (Put y S \<in> set xs \<longrightarrow> v \<in> S \<longrightarrow> v \<in> l' y)"
  using assms
proof (induction xs arbitrary: l W)
  case (Cons x xs)
  obtain l1 W1 where x: "do_op F x (l, W) = (l1, W1)" by (cases "do_op F x (l, W)")
  have "(v \<in> l y \<longrightarrow> v \<in> l1 y) \<and> (x = Flow y \<longrightarrow> v \<in> F \<longrightarrow> v \<in> l1 y) \<and> (x = Put y S \<longrightarrow> v \<in> S \<longrightarrow> v \<in> l1 y)"
    using x Cons.prems(2) by (cases x) (auto simp: do_op_def Let_def)
  moreover have "(v \<in> l1 y \<longrightarrow> v \<in> l' y) \<and> (Flow y \<in> set xs \<longrightarrow> v \<in> F \<longrightarrow> v \<in> l' y) \<and>
    (Put y S \<in> set xs \<longrightarrow> v \<in> S \<longrightarrow> v \<in> l' y)"
    using Cons.IH [of l1 W1] Cons.prems x by simp
  ultimately show ?case by auto
qed simp

lemma fold_ops_above:
  assumes "fold (do_op F) xs (l, W) = (l', W')"
    and "\<And>v. v \<in> l y \<Longrightarrow> Q v" "\<And>v. Flow y \<in> set xs \<Longrightarrow> v \<in> F \<Longrightarrow> Q v" "\<And>v S. Put y S \<in> set xs \<Longrightarrow> v \<in> S \<Longrightarrow> Q v"
  shows "(\<forall>v\<in>l' y. Q v) \<and> (y \<in> W' \<longrightarrow> y \<in> W \<or> (\<exists>v. Q v))"
  using assms
proof (induction xs arbitrary: l W)
  case (Cons x xs)
  obtain l1 W1 where x: "do_op F x (l, W) = (l1, W1)" by (cases "do_op F x (l, W)")
  have "v \<in> l y \<or> Flow y \<in> set (x # xs) \<and> v \<in> F \<or> (\<exists>S. Put y S \<in> set (x # xs) \<and> v \<in> S)" if "v \<in> l1 y" for v
    using that x by (cases x) (auto simp: do_op_def Let_def split: if_splits)
  then have Q1: "Q v" if "v \<in> l1 y" for v using that Cons.prems(2-4) by blast
  have "y \<in> W1 \<longrightarrow> y \<in> W \<or> (\<exists>v. v \<in> l y \<or> v \<in> l1 y)"
    using x by (auto simp: do_op_def Let_def split: if_splits)
  then have "y \<in> W1 \<longrightarrow> y \<in> W \<or> (\<exists>v. Q v)" using Q1 Cons.prems(2) by blast
  moreover have "(\<forall>v\<in>l' y. Q v) \<and> (y \<in> W' \<longrightarrow> y \<in> W1 \<or> (\<exists>v. Q v))"
    by (rule Cons.IH [of l1 W1]) (use Cons.prems x Q1 in auto)
  ultimately show ?case by blast
qed simp

lemma fold_op_other:
  "\<forall>x\<in>set xs. flow_target x \<noteq> c \<or> x = Flow c \<and> F \<subseteq> fst a c \<Longrightarrow> fst (fold (do_op F) xs a) c = fst a c"
proof (induction xs arbitrary: a)
  case (Cons x xs)
  have e: "fst (do_op F x a) c = fst a c"
  proof (cases "flow_target x = c")
    case True
    then have "x = Flow c" "F \<subseteq> fst a c" using Cons.prems by auto
    then show ?thesis by (auto simp: do_op_def Let_def split: prod.split)
  qed (simp add: do_op_def Let_def split: prod.split)
  then show ?case using Cons.IH [of "do_op F x a"] Cons.prems by simp
qed simp

lemma visit_flow_own:
  assumes "\<And>x. x \<in> set (ops c) \<Longrightarrow> flow_target x = c \<Longrightarrow> x = Flow c"
  shows "fst (visit_flow own ops c a) c = fst a c - own c"
proof -
  have "fst (visit_start own c a) c = fst a c - own c" by (simp add: visit_start_def split: prod.split)
  moreover have "fst (visit_flow own ops c a) c = fst (visit_start own c a) c"
    unfolding visit_flow_def by (rule fold_op_other) (use assms calculation in auto)
  ultimately show ?thesis by simp
qed

lemma visit_flow_pend: "snd (visit_flow own ops c a) \<subseteq> insert c (snd a) \<union> flow_target ` set (ops c)"
proof -
  obtain l W where a: "visit_start own c a = (l, W)" by (cases "visit_start own c a")
  obtain l' W' where f: "fold (do_op (fst a c - own c)) (ops c) (l, W) = (l', W')"
    by (cases "fold (do_op (fst a c - own c)) (ops c) (l, W)")
  have "W \<subseteq> insert c (snd a)" using a by (auto simp: visit_start_def split: prod.splits if_splits)
  moreover have "W' \<subseteq> W \<union> flow_target ` set (ops c)" using fold_ops_frame [OF f] by blast
  ultimately show ?thesis by (auto simp: visit_flow_def a f)
qed

lemma visit_flow_pure:
  assumes "own c = {}" "c \<notin> W"
  shows "visit_flow own ops c (l, insert c W) = fold (do_op (l c)) (ops c) (l, W)"
  using assms by (simp add: visit_flow_def visit_start_def)

section \<open>Termination\<close>

text \<open>
  The nodes are in \<open>U\<close> and the values in \<open>V\<close>. Those that may lose values are in \<open>K\<close>, and an
  operation from one of them to another goes down in rank.
\<close>

definition flow_ok :: "('n \<Rightarrow> 'v set) \<Rightarrow> ('n \<Rightarrow> ('n, 'v) flow_op list) \<Rightarrow> 'n set \<Rightarrow> 'v set \<Rightarrow> 'n set \<Rightarrow> ('n \<Rightarrow> nat) \<Rightarrow> bool" where
  "flow_ok own ops U V K rk \<longleftrightarrow> finite U \<and> finite V \<and>
     (\<forall>c\<in>U. \<forall>x\<in>set (ops c). flow_target x \<in> U \<and> (\<forall>y S. x = Put y S \<longrightarrow> S \<subseteq> V) \<and>
        (flow_target x = c \<longrightarrow> x = Flow c)) \<and>
     (\<forall>c. own c \<noteq> {} \<longrightarrow> c \<in> K) \<and> (\<forall>c\<in>U. \<forall>y S. Kill y S \<in> set (ops c) \<longrightarrow> y \<in> K) \<and>
     (\<forall>c\<in>U \<inter> K. \<forall>x\<in>set (ops c). flow_target x \<in> K \<longrightarrow> flow_target x \<noteq> c \<longrightarrow> rk (flow_target x) < rk c)"

definition flow_in :: "'n set \<Rightarrow> 'v set \<Rightarrow> ('n, 'v) flow \<Rightarrow> bool" where
  "flow_in U V a \<longleftrightarrow> snd a \<subseteq> U \<and> (\<forall>y. fst a y \<subseteq> V)"

definition flow_gap :: "'n set \<Rightarrow> 'v set \<Rightarrow> 'n set \<Rightarrow> ('n, 'v) flow \<Rightarrow> nat" where
  "flow_gap U V K a = (\<Sum>n\<in>U - K. 2 * card (V - fst a n) + (if n \<in> snd a then 1 else 0))"

definition flow_rank :: "('n \<Rightarrow> 'v set) \<Rightarrow> ('n \<Rightarrow> nat) \<Rightarrow> ('n, 'v) flow \<Rightarrow> 'n \<Rightarrow> nat" where
  "flow_rank own rk a n = 2 * rk n + (if fst a n \<inter> own n \<noteq> {} then 1 else 0)"

definition flow_ranks :: "('n \<Rightarrow> 'v set) \<Rightarrow> 'n set \<Rightarrow> ('n \<Rightarrow> nat) \<Rightarrow> ('n, 'v) flow \<Rightarrow> nat multiset" where
  "flow_ranks own K rk a = image_mset (flow_rank own rk a) (mset_set (K \<inter> snd a))"

definition flow_order :: "('n \<Rightarrow> 'v set) \<Rightarrow> 'n set \<Rightarrow> 'v set \<Rightarrow> 'n set \<Rightarrow> ('n \<Rightarrow> nat) \<Rightarrow> (('n, 'v) flow \<times> ('n, 'v) flow) set" where
  "flow_order own U V K rk = inv_image (less_than <*lex*> mult less_than) (\<lambda>a. (flow_gap U V K a, flow_ranks own K rk a))"

lemma wf_flow_order: "wf (flow_order own U V K rk)"
  unfolding flow_order_def by (intro wf_inv_image wf_lex_prod wf_mult wf_less_than)

lemma visit_flow_frame:
  assumes ok: "flow_ok own ops U V K rk" and i: "flow_in U V a" and c: "c \<in> snd a" and a': "a' = visit_flow own ops c a"
  shows "flow_in U V a'"
    and "y \<notin> K \<Longrightarrow> fst a y \<subseteq> fst a' y \<and> (y \<in> snd a' \<longrightarrow> y \<in> snd a - {c} \<or> fst a' y \<noteq> fst a y)"
    and "fst a' y \<noteq> fst a y \<Longrightarrow> y = c \<or> y \<in> flow_target ` set (ops c)"
    and "y \<noteq> c \<Longrightarrow> y \<in> snd a' \<Longrightarrow> y \<in> snd a \<or> y \<in> flow_target ` set (ops c)"
    and "y \<noteq> c \<Longrightarrow> y \<in> snd a \<Longrightarrow> y \<in> snd a'"
    and "fst a' c = fst a c - own c"
    and "c \<in> snd a' \<Longrightarrow> fst a c \<inter> own c \<noteq> {}"
proof -
  obtain l W where a: "a = (l, W)" by (cases a)
  obtain l' W' where f: "fold (do_op (l c - own c)) (ops c) (visit_start own c (l, W)) = (l', W')"
    by (cases "fold (do_op (l c - own c)) (ops c) (visit_start own c (l, W))")
  have a': "a' = (l', W')" using f a' by (simp add: visit_flow_def a)
  let ?l = "l(c := l c - own c)" and ?W = "if l c \<inter> own c \<noteq> {} then insert c W else W - {c}"
  have f: "fold (do_op (l c - own c)) (ops c) (?l, ?W) = (l', W')" using f by (simp add: visit_start_def)
  note F = fold_ops_frame [OF f]
  have cU: "c \<in> U" using i c by (auto simp: flow_in_def a)
  have opsU: "flow_target x \<in> U" "\<And>y S. x = Put y S \<Longrightarrow> S \<subseteq> V" "flow_target x = c \<Longrightarrow> x = Flow c" if "x \<in> set (ops c)" for x
    using ok cU that unfolding flow_ok_def by blast+
  have V': "(\<forall>v\<in>l' y. v \<in> V) \<and> (y \<in> W' \<longrightarrow> y \<in> ?W \<or> (\<exists>v. v \<in> V))" for y
    by (rule fold_ops_above [OF f]) (use i opsU(2) in \<open>auto simp: flow_in_def a split: if_splits\<close>)
  have "?W \<subseteq> U" using cU i by (auto simp: flow_in_def a)
  moreover have "W' \<subseteq> ?W \<union> flow_target ` set (ops c)" using F by blast
  ultimately have "W' \<subseteq> U" using opsU(1) by blast
  then show "flow_in U V a'" using V' \<open>W' \<subseteq> U\<close> by (auto simp: flow_in_def a')
  have nk: "\<forall>S. Kill y S \<notin> set (ops c)" "own y = {}" if "y \<notin> K" for y using ok cU that unfolding flow_ok_def by blast+
  show "fst a y \<subseteq> fst a' y \<and> (y \<in> snd a' \<longrightarrow> y \<in> snd a - {c} \<or> fst a' y \<noteq> fst a y)" if "y \<notin> K"
    using fold_ops_unkilled [OF f nk(1) [OF that]] nk(2) [OF that] by (auto simp: a a' split: if_splits)
  show "fst a' y \<noteq> fst a y \<Longrightarrow> y = c \<or> y \<in> flow_target ` set (ops c)" using F [of y] by (auto simp: a a' split: if_splits)
  show "y \<noteq> c \<Longrightarrow> y \<in> snd a' \<Longrightarrow> y \<in> snd a \<or> y \<in> flow_target ` set (ops c)" using F [of y] by (auto simp: a a' split: if_splits)
  show "y \<noteq> c \<Longrightarrow> y \<in> snd a \<Longrightarrow> y \<in> snd a'" using F [of y] by (auto simp: a a' split: if_splits)
  have k: "\<forall>S. Kill c S \<notin> set (ops c)" using opsU(3) by force
  have "(\<forall>v\<in>l' c. v \<in> l c - own c) \<and> (c \<in> W' \<longrightarrow> c \<in> ?W \<or> (\<exists>v. v \<in> l c - own c))"
    by (rule fold_ops_above [OF f]) (use opsU(3) in force)+
  then show lc: "fst a' c = fst a c - own c" using fold_ops_unkilled [OF f k] by (auto simp: a a')
  show "c \<in> snd a' \<Longrightarrow> fst a c \<inter> own c \<noteq> {}"
    using fold_ops_unkilled [OF f k] lc by (auto simp: a a' split: if_splits)
qed


lemma visit_flow_gap:
  assumes ok: "flow_ok own ops U V K rk" and i: "flow_in U V a" and c: "c \<in> snd a" and a': "a' = visit_flow own ops c a"
  shows "flow_gap U V K a' \<le> flow_gap U V K a"
    and "c \<notin> K \<Longrightarrow> flow_gap U V K a' < flow_gap U V K a"
    and "y \<in> U - K \<Longrightarrow> fst a' y \<noteq> fst a y \<Longrightarrow> flow_gap U V K a' < flow_gap U V K a"
proof -
  let ?g = "\<lambda>a n. 2 * card (V - fst a n) + (if n \<in> snd a then 1 else 0)"
  have fin: "finite U" "finite V" using ok by (simp_all add: flow_ok_def)
  note F = visit_flow_frame [OF ok i c a']
  have lt: "?g a' n < ?g a n" if "n \<in> U - K" "fst a' n \<noteq> fst a n" for n
  proof -
    have "fst a n \<subset> fst a' n" "fst a' n \<subseteq> V" using F(2) [of n] F(1) that by (auto simp: flow_in_def)
    then have "card (V - fst a' n) < card (V - fst a n)" using fin by (intro psubset_card_mono) auto
    then show ?thesis by simp
  qed
  have le: "?g a' n \<le> ?g a n" if "n \<in> U - K" for n
  proof (cases "fst a' n = fst a n")
    case True
    then show ?thesis using F(2) [of n] that by auto
  qed (use lt [OF that] in simp)
  have less: "flow_gap U V K a' < flow_gap U V K a" if "n \<in> U - K" "?g a' n < ?g a n" for n
    unfolding flow_gap_def
  proof (rule sum_strict_mono_ex1)
    show "\<forall>n\<in>U - K. ?g a' n \<le> ?g a n" by (intro ballI le)
    show "\<exists>n\<in>U - K. ?g a' n < ?g a n" using that by (rule bexI [rotated])
  qed (use fin in simp)
  show "flow_gap U V K a' \<le> flow_gap U V K a" unfolding flow_gap_def by (rule sum_mono) (rule le)
  show "flow_gap U V K a' < flow_gap U V K a" if "y \<in> U - K" "fst a' y \<noteq> fst a y" by (rule less [OF that(1) lt [OF that]])
  show "flow_gap U V K a' < flow_gap U V K a" if "c \<notin> K"
  proof (rule less)
    show "c \<in> U - K" using that c i by (auto simp: flow_in_def)
    then show "?g a' c < ?g a c" using F(2) [of c] that c lt [of c] by (cases "fst a' c = fst a c") auto
  qed
qed

lemma image_mset_split:
  assumes "finite A" "S \<subseteq> A"
  shows "image_mset f (mset_set A) = image_mset f (mset_set S) + image_mset f (mset_set (A - S))"
proof -
  have "mset_set (S \<union> (A - S)) = mset_set S + mset_set (A - S)"
    using assms finite_subset by (intro mset_set_Union) auto
  moreover have "S \<union> (A - S) = A" using assms(2) by blast
  ultimately show ?thesis by simp
qed

lemma visit_flow_order:
  assumes ok: "flow_ok own ops U V K rk" and i: "flow_in U V a" and c: "c \<in> snd a" and a': "a' = visit_flow own ops c a"
  shows "(a', a) \<in> flow_order own U V K rk"
proof (cases "flow_gap U V K a' < flow_gap U V K a")
  case True
  then show ?thesis by (simp add: flow_order_def)
next
  case False
  note F = visit_flow_frame [OF ok i c a'] and G = visit_flow_gap [OF ok i c a']
  have e: "flow_gap U V K a' = flow_gap U V K a" using False G(1) by simp
  have cK: "c \<in> K" using False G(2) by blast
  have cU: "c \<in> U" using c i by (auto simp: flow_in_def)
  let ?A = "K \<inter> snd a" and ?A' = "K \<inter> snd a'" and ?r = "flow_rank own rk a" and ?r' = "flow_rank own rk a'"
  let ?S = "{y \<in> ?A. y \<noteq> c \<and> fst a' y = fst a y}"
  have fin: "finite ?A" "finite ?A'"
    using ok i F(1) by (auto simp: flow_ok_def flow_in_def intro: finite_subset)
  have S': "?S \<subseteq> ?A'" using F(5) by auto
  have low: "?r' y < ?r c" if "y \<in> ?A' - ?S" for y
  proof (cases "y = c")
    case True
    then have "fst a c \<inter> own c \<noteq> {}" "fst a' c \<inter> own c = {}" using F(6,7) that by auto
    then show ?thesis using True by (simp add: flow_rank_def)
  next
    case ne: False
    then have "y \<in> flow_target ` set (ops c)" using F(3) [of y] F(4) [of y] that by auto
    then have "rk y < rk c" using ok cU cK ne that unfolding flow_ok_def by blast
    then show ?thesis by (simp add: flow_rank_def)
  qed
  have S: "?S \<subseteq> ?A" by blast
  have "flow_ranks own K rk a' = image_mset ?r' (mset_set ?S) + image_mset ?r' (mset_set (?A' - ?S))"
    unfolding flow_ranks_def by (rule image_mset_split [OF fin(2) S'])
  moreover have "image_mset ?r' (mset_set ?S) = image_mset ?r (mset_set ?S)"
    using finite_subset [OF S fin(1)] by (intro image_mset_cong) (simp add: flow_rank_def)
  moreover have "flow_ranks own K rk a = image_mset ?r (mset_set ?S) + image_mset ?r (mset_set (?A - ?S))"
    unfolding flow_ranks_def by (rule image_mset_split [OF fin(1) S])
  moreover have "(image_mset ?r (mset_set ?S) + image_mset ?r' (mset_set (?A' - ?S)),
      image_mset ?r (mset_set ?S) + image_mset ?r (mset_set (?A - ?S))) \<in> mult less_than"
  proof (rule one_step_implies_mult)
    have "c \<in># mset_set (?A - ?S)" using c cK fin by simp
    then have c': "?r c \<in># image_mset ?r (mset_set (?A - ?S))" by simp
    then show "image_mset ?r (mset_set (?A - ?S)) \<noteq> {#}" by auto
    show "\<forall>k\<in>set_mset (image_mset ?r' (mset_set (?A' - ?S))). \<exists>j\<in>set_mset (image_mset ?r (mset_set (?A - ?S))). (k, j) \<in> less_than"
    proof
      fix k assume "k \<in># image_mset ?r' (mset_set (?A' - ?S))"
      then obtain y where "y \<in> ?A' - ?S" "k = ?r' y" using fin by auto
      then have "(k, ?r c) \<in> less_than" using low by simp
      then show "\<exists>j\<in>#image_mset ?r (mset_set (?A - ?S)). (k, j) \<in> less_than" using c' by blast
    qed
  qed
  ultimately show ?thesis by (simp add: flow_order_def e)
qed

section \<open>Bounds\<close>

text \<open>An upper bound: values flow on unless the node they are at removes them.\<close>

inductive may_hold :: "('n \<Rightarrow> 'v set) \<Rightarrow> ('n \<Rightarrow> ('n, 'v) flow_op list) \<Rightarrow> ('n \<times> 'v) set \<Rightarrow> 'n \<Rightarrow> 'v \<Rightarrow> bool"
  for own ops A where
  may_seed: "(y, v) \<in> A \<Longrightarrow> may_hold own ops A y v"
| may_flow: "may_hold own ops A c v \<Longrightarrow> v \<notin> own c \<Longrightarrow> Flow y \<in> set (ops c) \<Longrightarrow> may_hold own ops A y v"
| may_put: "may_hold own ops A c w \<Longrightarrow> Put y S \<in> set (ops c) \<Longrightarrow> v \<in> S \<Longrightarrow> may_hold own ops A y v"

text \<open>A lower bound: values flow on unless some visit may kill them at the node they come to.\<close>

definition may_lose :: "('n \<Rightarrow> 'v set) \<Rightarrow> ('n \<Rightarrow> ('n, 'v) flow_op list) \<Rightarrow> 'n \<Rightarrow> 'v \<Rightarrow> bool" where
  "may_lose own ops y v \<longleftrightarrow> v \<in> own y \<or> (\<exists>c S. Kill y S \<in> set (ops c) \<and> v \<in> S)"

inductive must_hold :: "('n \<Rightarrow> 'v set) \<Rightarrow> ('n \<Rightarrow> ('n, 'v) flow_op list) \<Rightarrow> ('n \<times> 'v) set \<Rightarrow> 'n \<Rightarrow> 'v \<Rightarrow> bool"
  for own ops A where
  must_seed: "(y, v) \<in> A \<Longrightarrow> \<not> may_lose own ops y v \<Longrightarrow> must_hold own ops A y v"
| must_flow: "must_hold own ops A c v \<Longrightarrow> Flow y \<in> set (ops c) \<Longrightarrow> \<not> may_lose own ops y v \<Longrightarrow> must_hold own ops A y v"
| must_put: "must_hold own ops A c w \<Longrightarrow> Put y S \<in> set (ops c) \<Longrightarrow> v \<in> S \<Longrightarrow> \<not> may_lose own ops y v \<Longrightarrow> must_hold own ops A y v"

definition may_inv :: "('n \<Rightarrow> 'v set) \<Rightarrow> ('n \<Rightarrow> ('n, 'v) flow_op list) \<Rightarrow> ('n \<times> 'v) set \<Rightarrow> ('n, 'v) flow_log \<Rightarrow> bool" where
  "may_inv own ops A a \<longleftrightarrow> (\<forall>y. \<forall>v\<in>fst (fst a) y. may_hold own ops A y v) \<and>
     (\<forall>c\<in>snd (fst a). \<exists>w. may_hold own ops A c w) \<and>
     (\<forall>(c, F)\<in>snd a. (\<exists>w. may_hold own ops A c w) \<and> (\<forall>v\<in>F. may_hold own ops A c v))"

definition must_inv :: "('n \<Rightarrow> 'v set) \<Rightarrow> ('n \<Rightarrow> ('n, 'v) flow_op list) \<Rightarrow> ('n \<times> 'v) set \<Rightarrow> ('n, 'v) flow_log \<Rightarrow> bool" where
  "must_inv own ops A a \<longleftrightarrow> (\<forall>(y, v)\<in>A. \<not> may_lose own ops y v \<longrightarrow> v \<in> fst (fst a) y) \<and>
     (\<forall>c v. v \<in> fst (fst a) c \<longrightarrow> \<not> may_lose own ops c v \<longrightarrow> c \<notin> snd (fst a) \<longrightarrow>
        (\<exists>F. (c, F) \<in> snd a \<and> v \<in> F) \<and>
        (\<forall>y. Flow y \<in> set (ops c) \<longrightarrow> \<not> may_lose own ops y v \<longrightarrow> v \<in> fst (fst a) y) \<and>
        (\<forall>y S w. Put y S \<in> set (ops c) \<longrightarrow> w \<in> S \<longrightarrow> \<not> may_lose own ops y w \<longrightarrow> w \<in> fst (fst a) y))"

lemma visit_fold:
  obtains l W G l' W' where "a = ((l, W), G)" "visit_log own ops c a = ((l', W'), insert (c, l c) G)"
    "fold (do_op (l c - own c)) (ops c) (l(c := l c - own c), if l c \<inter> own c \<noteq> {} then insert c W else W - {c}) = (l', W')"
proof -
  obtain l W G where a: "a = ((l, W), G)" by (metis prod.exhaust)
  obtain l' W' where "visit_flow own ops c (l, W) = (l', W')" by (cases "visit_flow own ops c (l, W)")
  then show thesis using that [OF a, of l' W'] by (simp add: a visit_log_def visit_flow_def visit_start_def)
qed

lemma visit_may_inv:
  assumes i: "may_inv own ops A a" and c: "c \<in> snd (fst a)"
  shows "may_inv own ops A (visit_log own ops c a)"
proof (rule visit_fold [of a own ops c])
  fix l W G l' W'
  assume a: "a = ((l, W), G)" and v: "visit_log own ops c a = ((l', W'), insert (c, l c) G)"
    and f: "fold (do_op (l c - own c)) (ops c) (l(c := l c - own c), if l c \<inter> own c \<noteq> {} then insert c W else W - {c}) = (l', W')"
  let ?M = "may_hold own ops A"
  obtain w where w: "?M c w" using i c by (auto simp: may_inv_def)
  have l: "?M y v" if "v \<in> l y" for y v using i that by (simp add: may_inv_def a)
  have u: "(\<forall>v\<in>l' y. ?M y v) \<and> (y \<in> W' \<longrightarrow> y \<in> (if l c \<inter> own c \<noteq> {} then insert c W else W - {c}) \<or> (\<exists>v. ?M y v))" for y
  proof (rule fold_ops_above [OF f])
    show "?M y v" if "v \<in> (l(c := l c - own c)) y" for v using that l by (auto split: if_splits)
    show "?M y v" if "Flow y \<in> set (ops c)" "v \<in> l c - own c" for v using may_flow [OF l _ that(1)] that(2) by blast
    show "?M y v" if "Put y S \<in> set (ops c)" "v \<in> S" for v S using may_put [OF w that] .
  qed
  then have M: "?M y v" if "v \<in> l' y" for y v using that by blast
  have W: "\<exists>v. ?M y v" if "y \<in> W'" for y
  proof -
    have "y \<in> W \<or> y = c \<or> (\<exists>v. ?M y v)" using u [of y] that by (auto split: if_splits)
    then show ?thesis using i w by (auto simp: may_inv_def a)
  qed
  have G: "(\<exists>w. ?M d w) \<and> (\<forall>v\<in>F. ?M d v)" if "(d, F) \<in> G" for d F using i that by (auto simp: may_inv_def a)
  show "may_inv own ops A (visit_log own ops c a)"
    unfolding v may_inv_def fst_conv snd_conv using M W G w l by auto
qed


lemma visit_must_inv:
  assumes i: "must_inv own ops A a"
  shows "must_inv own ops A (visit_log own ops c a)"
proof (rule visit_fold [of a own ops c])
  fix l W G l' W'
  assume a: "a = ((l, W), G)" and v: "visit_log own ops c a = ((l', W'), insert (c, l c) G)"
    and f: "fold (do_op (l c - own c)) (ops c) (l(c := l c - own c), if l c \<inter> own c \<noteq> {} then insert c W else W - {c}) = (l', W')"
  let ?L = "may_lose own ops"
  have keep: "w \<in> l' y" if "w \<in> l y" "\<not> ?L y w" for y w
  proof -
    have "w \<in> (l(c := l c - own c)) y" using that by (auto simp: may_lose_def)
    then show ?thesis using fold_ops_below [OF f, of y w] that(2) by (auto simp: may_lose_def)
  qed
  have flow: "w \<in> l' y" if "Flow y \<in> set (ops c)" "w \<in> l c - own c" "\<not> ?L y w" for y w
    using fold_ops_below [OF f, of y w] that by (auto simp: may_lose_def)
  have putv: "w \<in> l' y" if "Put y S \<in> set (ops c)" "w \<in> S" "\<not> ?L y w" for y w S
    using fold_ops_below [OF f, of y w] that by (auto simp: may_lose_def)
  have I: "(\<exists>F. (d, F) \<in> G \<and> w \<in> F) \<and> (\<forall>y. Flow y \<in> set (ops d) \<longrightarrow> \<not> ?L y w \<longrightarrow> w \<in> l y) \<and>
      (\<forall>y S u. Put y S \<in> set (ops d) \<longrightarrow> u \<in> S \<longrightarrow> \<not> ?L y u \<longrightarrow> u \<in> l y)" if "w \<in> l d" "\<not> ?L d w" "d \<notin> W" for d w
    using i that unfolding must_inv_def a fst_conv snd_conv by blast
  have step: "(\<exists>F. (d, F) \<in> insert (c, l c) G \<and> w \<in> F) \<and> (\<forall>y. Flow y \<in> set (ops d) \<longrightarrow> \<not> ?L y w \<longrightarrow> w \<in> l' y) \<and>
      (\<forall>y S u. Put y S \<in> set (ops d) \<longrightarrow> u \<in> S \<longrightarrow> \<not> ?L y u \<longrightarrow> u \<in> l' y)" if d: "w \<in> l' d" "\<not> ?L d w" "d \<notin> W'" for d w
  proof (cases "d = c")
    case True
    have fr: "(if l c \<inter> own c \<noteq> {} then insert c W else W - {c}) \<subseteq> W'" "l' c \<noteq> l c - own c \<longrightarrow> c \<in> W'"
      using fold_ops_frame [OF f, of c] by simp_all
    then have "l c \<inter> own c = {}" "l' c = l c - own c" using d(3) True by (metis insert_subset, blast)
    then have "w \<in> l c" "w \<in> l c - own c" using d(1) True by (auto split: if_splits)
    then show ?thesis using flow putv True by blast
  next
    case False
    have "(if l c \<inter> own c \<noteq> {} then insert c W else W - {c}) \<subseteq> W'" "l' d \<noteq> l d \<longrightarrow> d \<in> W'"
      using fold_ops_frame [OF f, of d] False by simp_all
    then have "l' d = l d" "d \<notin> W" using d(3) False by (blast, auto split: if_splits)
    then have I: "\<exists>F. (d, F) \<in> G \<and> w \<in> F" "\<And>y. Flow y \<in> set (ops d) \<Longrightarrow> \<not> ?L y w \<Longrightarrow> w \<in> l y"
      "\<And>y S u. Put y S \<in> set (ops d) \<Longrightarrow> u \<in> S \<Longrightarrow> \<not> ?L y u \<Longrightarrow> u \<in> l y"
      using I [OF _ d(2), of] d(1) by (metis)+
    show ?thesis
    proof (intro conjI allI impI)
      show "\<exists>F. (d, F) \<in> insert (c, l c) G \<and> w \<in> F" using I(1) by blast
    qed (rule keep [OF I(2)] keep [OF I(3)]; assumption)+
  qed
  have seeds: "w \<in> l' y" if "(y, w) \<in> A" "\<not> ?L y w" for y w
    using i that keep unfolding must_inv_def a fst_conv by blast
  show "must_inv own ops A (visit_log own ops c a)"
    unfolding v must_inv_def fst_conv snd_conv
  proof (rule conjI)
    show "\<forall>(y, w)\<in>A. \<not> ?L y w \<longrightarrow> w \<in> l' y" using seeds by blast
  qed (intro allI impI, rule step)
qed

lemma must_hold_final:
  assumes i: "must_inv own ops A a" and e: "snd (fst a) = {}" and m: "must_hold own ops A y v"
  shows "v \<in> fst (fst a) y \<and> (\<exists>F. (y, F) \<in> snd a \<and> v \<in> F)"
proof -
  have I: "(\<exists>F. (d, F) \<in> snd a \<and> w \<in> F) \<and> (\<forall>y. Flow y \<in> set (ops d) \<longrightarrow> \<not> may_lose own ops y w \<longrightarrow> w \<in> fst (fst a) y) \<and>
      (\<forall>y S u. Put y S \<in> set (ops d) \<longrightarrow> u \<in> S \<longrightarrow> \<not> may_lose own ops y u \<longrightarrow> u \<in> fst (fst a) y)"
    if "w \<in> fst (fst a) d" "\<not> may_lose own ops d w" for d w
    using i that e unfolding must_inv_def by blast
  have "\<not> may_lose own ops y v \<and> v \<in> fst (fst a) y" using m
  proof induction
    case (must_seed y v)
    then show ?case using i unfolding must_inv_def by blast
  next
    case (must_flow c v y)
    then show ?case using I by blast
  next
    case (must_put c w y S v)
    then show ?case using I by blast
  qed
  then show ?thesis using I by blast
qed

section \<open>Seeds\<close>

text \<open>Values put at nodes between two runs of the loop.\<close>

definition seed_flow :: "('n \<times> 'v) list \<Rightarrow> ('n, 'v) flow \<Rightarrow> ('n, 'v) flow" where
  "seed_flow B = fold (\<lambda>(y, v). do_op {} (Put y {v})) B"

lemma put_one: "do_op {} (Put y {v}) (l, W) = (l(y := insert v (l y)), if v \<in> l y then W else insert y W)"
  by (auto simp: do_op_def Let_def insert_absorb)

lemma may_hold_mono: "may_hold own ops A y v \<Longrightarrow> A \<subseteq> B \<Longrightarrow> may_hold own ops B y v"
proof (induction rule: may_hold.induct)
  case (may_seed y v)
  then show ?case by (intro may_hold.may_seed) blast
next
  case (may_flow c v y)
  show ?case by (rule may_hold.may_flow [OF may_flow.IH [OF may_flow.prems] may_flow.hyps(2,3)])
next
  case (may_put c w y S v)
  show ?case by (rule may_hold.may_put [OF may_put.IH [OF may_put.prems] may_put.hyps(2,3)])
qed

lemma seed_may_inv:
  "may_inv own ops A (a, G) \<Longrightarrow> may_inv own ops (A \<union> set B) (seed_flow B a, G)"
proof (induction B arbitrary: A a)
  case Nil
  then show ?case by (simp add: seed_flow_def)
next
  case (Cons x B)
  obtain y v where x: "x = (y, v)" by (cases x)
  obtain l W where a: "a = (l, W)" by (cases a)
  have m: "may_hold own ops (insert x A) z w" if "may_hold own ops A z w" for z w using may_hold_mono [OF that] by blast
  have s: "may_hold own ops (insert x A) y v" by (rule may_seed) (simp add: x)
  have I: "\<And>z w. w \<in> l z \<Longrightarrow> may_hold own ops A z w" "\<And>z. z \<in> W \<Longrightarrow> \<exists>w. may_hold own ops A z w"
    "\<And>z F. (z, F) \<in> G \<Longrightarrow> (\<exists>w. may_hold own ops A z w) \<and> (\<forall>w\<in>F. may_hold own ops A z w)"
    using Cons.prems unfolding may_inv_def a by auto
  obtain l' W' where d: "do_op {} (Put y {v}) a = (l', W')" by (cases "do_op {} (Put y {v}) a")
  have l': "l' = l(y := insert v (l y))" "W' \<subseteq> insert y W" using d unfolding a put_one by (auto split: if_splits)
  have "may_inv own ops (insert x A) (do_op {} (Put y {v}) a, G)"
    unfolding d may_inv_def fst_conv snd_conv
  proof (intro conjI allI ballI)
    show "may_hold own ops (insert x A) z w" if "w \<in> l' z" for z w using that I(1) m s by (auto simp: l' split: if_splits)
    show "\<exists>w. may_hold own ops (insert x A) z w" if "z \<in> W'" for z using that I(2) m s l'(2) by blast
    show "case p of (c, F) \<Rightarrow> (\<exists>w. may_hold own ops (insert x A) c w) \<and> (\<forall>w\<in>F. may_hold own ops (insert x A) c w)" if "p \<in> G" for p
      using that I(3) m by (cases p) blast
  qed
  from Cons.IH [OF this] show ?case by (simp add: seed_flow_def x)
qed

lemma seed_must_inv:
  "must_inv own ops A (a, G) \<Longrightarrow> must_inv own ops (A \<union> set B) (seed_flow B a, G)"
proof (induction B arbitrary: A a)
  case Nil
  then show ?case by (simp add: seed_flow_def)
next
  case (Cons x B)
  obtain y v where x: "x = (y, v)" by (cases x)
  obtain l W where a: "a = (l, W)" by (cases a)
  obtain l' W' where d: "do_op {} (Put y {v}) a = (l', W')" by (cases "do_op {} (Put y {v}) a")
  have l': "v \<in> l' y" "\<And>z. l z \<subseteq> l' z" "W \<subseteq> W'" "\<And>z. z \<notin> W' \<Longrightarrow> l' z = l z"
    using d unfolding a put_one by (auto simp: insert_absorb split: if_splits)
  note I = Cons.prems [unfolded must_inv_def a fst_conv snd_conv]
  have "must_inv own ops (insert x A) (do_op {} (Put y {v}) a, G)"
    unfolding d must_inv_def fst_conv snd_conv
  proof (intro conjI allI impI)
    show "\<forall>(z, w)\<in>insert x A. \<not> may_lose own ops z w \<longrightarrow> w \<in> l' z" using I l'(1,2) x by blast
    fix c w assume c: "w \<in> l' c" "\<not> may_lose own ops c w" "c \<notin> W'"
    then have o: "w \<in> l c" "c \<notin> W" using l'(3,4) by auto
    then show "\<exists>F. (c, F) \<in> G \<and> w \<in> F" using I c(2) by blast
    show "w \<in> l' z" if "Flow z \<in> set (ops c)" "\<not> may_lose own ops z w" for z using I o c(2) that l'(2) by blast
    show "u \<in> l' z" if "Put z S \<in> set (ops c)" "u \<in> S" "\<not> may_lose own ops z u" for z S u using I o c(2) that l'(2) by blast
  qed
  from Cons.IH [OF this] show ?case by (simp add: seed_flow_def x)
qed

lemma seed_flow_in:
  assumes "flow_in U V a" "\<And>y v. (y, v) \<in> set B \<Longrightarrow> y \<in> U \<and> v \<in> V"
  shows "flow_in U V (seed_flow B a)"
  using assms
proof (induction B arbitrary: a)
  case Nil
  then show ?case by (simp add: seed_flow_def)
next
  case (Cons x B)
  obtain y v where x: "x = (y, v)" by (cases x)
  have "flow_in U V (do_op {} (Put y {v}) a)"
    using Cons.prems(1) Cons.prems(2) [of y v] by (cases a) (auto simp: flow_in_def put_one x)
  then have "flow_in U V (seed_flow B (do_op {} (Put y {v}) a))" by (rule Cons.IH) (rule Cons.prems(2), simp)
  then show ?case by (simp add: seed_flow_def x)
qed

lemma seed_flow_pend: "snd a \<subseteq> snd (seed_flow B a) \<and> snd (seed_flow B a) \<subseteq> snd a \<union> fst ` set B"
proof (induction B arbitrary: a)
  case (Cons x B)
  obtain y v where x: "x = (y, v)" by (cases x)
  have "snd a \<subseteq> snd (do_op {} (Put y {v}) a)" "snd (do_op {} (Put y {v}) a) \<subseteq> insert y (snd a)"
    by (cases a; auto simp: put_one)+
  then show ?case using Cons.IH [of "do_op {} (Put y {v}) a"] by (auto simp: seed_flow_def x)
qed (simp add: seed_flow_def)

section \<open>Loops that propagate\<close>

text \<open>
  A loop of the code propagates when its state represents a flow state (with its log) and each
  iteration is a visit of a pending node. It then ends, in a state between the bounds.
\<close>

lemma while_run_unfold:
  "while_run b c s = (if b s then and_then (c s) (while_run b c) else Some (Some s))"
proof (cases "b s")
  case True
  let ?b = "\<lambda>r. case r of Some (Some s) \<Rightarrow> b s | _ \<Rightarrow> False" and ?c = "\<lambda>r. and_then r c"
  have "while_option ?b ?c (Some (Some s)) = while_option ?b ?c (c s)"
    using True by (subst while_option_unfold) simp
  moreover have "(case while_option ?b ?c r of None \<Rightarrow> None | Some r \<Rightarrow> r) = and_then r (while_run b c)" for r
  proof (cases "\<exists>s. r = Some (Some s)")
    case True
    then show ?thesis by (auto simp: while_run_def)
  next
    case False
    then have "r = None \<or> r = Some None" by (metis option.exhaust)
    then show ?thesis by (subst while_option_unfold) auto
  qed
  ultimately show ?thesis using True by (simp add: while_run_def)
next
  case False
  then show ?thesis by (simp add: while_run_def while_option_unfold)
qed

locale propagation =
  fixes own :: "'n \<Rightarrow> 'v set"
    and ops :: "'n \<Rightarrow> ('n, 'v) flow_op list"
    and go :: "'s \<Rightarrow> bool"
    and step :: "'s \<Rightarrow> 's run"
    and repr :: "'s \<Rightarrow> ('n, 'v) flow_log \<Rightarrow> bool"
  assumes go: "repr s a \<Longrightarrow> go s \<longleftrightarrow> snd (fst a) \<noteq> {}"
    and step: "repr s a \<Longrightarrow> go s \<Longrightarrow>
      \<exists>c s'. c \<in> snd (fst a) \<and> step s = Some (Some s') \<and> repr s' (visit_log own ops c a)"
begin

lemma run_ends:
  assumes ok: "flow_ok own ops U V K rk" and "flow_in U V (fst a)" "repr s a" and "I a"
    and I: "\<And>a c. I a \<Longrightarrow> flow_in U V (fst a) \<Longrightarrow> c \<in> snd (fst a) \<Longrightarrow> I (visit_log own ops c a)"
  shows "\<exists>s' a'. while_run go step s = Some (Some s') \<and> repr s' a' \<and> flow_in U V (fst a') \<and>
    snd (fst a') = {} \<and> I a'"
  using assms(2-4)
proof (induction "fst a" arbitrary: a s rule: wf_induct_rule [OF wf_flow_order [of own U V K rk]])
  case 1
  show ?case
  proof (cases "go s")
    case True
    then obtain c s' where c: "c \<in> snd (fst a)" "step s = Some (Some s')" "repr s' (visit_log own ops c a)"
      using step [OF "1.prems"(2) True] by blast
    have v: "fst (visit_log own ops c a) = visit_flow own ops c (fst a)" by (simp add: visit_log_def)
    have "(fst (visit_log own ops c a), fst a) \<in> flow_order own U V K rk"
      by (rule visit_flow_order [OF ok "1.prems"(1) c(1) v])
    moreover have "flow_in U V (fst (visit_log own ops c a))"
      by (rule visit_flow_frame(1) [OF ok "1.prems"(1) c(1) v])
    ultimately have "\<exists>s'' a'. while_run go step s' = Some (Some s'') \<and> repr s'' a' \<and> flow_in U V (fst a') \<and>
        snd (fst a') = {} \<and> I a'"
      using "1.hyps" c(3) I [OF "1.prems"(3,1) c(1)] by blast
    then show ?thesis using True c(2) by (simp add: while_run_unfold [of go step s])
  next
    case False
    then have "while_run go step s = Some (Some s)" "snd (fst a) = {}"
      using go [OF "1.prems"(2)] by (simp_all add: while_run_unfold)
    then show ?thesis using "1.prems" by blast
  qed
qed

lemma run_bounds:
  assumes ok: "flow_ok own ops U V K rk" and "flow_in U V (fst a)" "repr s a" and A: "may_inv own ops A a" "must_inv own ops A a"
  shows "\<exists>s' a'. while_run go step s = Some (Some s') \<and> repr s' a' \<and> snd (fst a') = {} \<and>
    (\<forall>y v. v \<in> fst (fst a') y \<longrightarrow> may_hold own ops A y v) \<and>
    (\<forall>(y, F)\<in>snd a'. (\<exists>w. may_hold own ops A y w) \<and> (\<forall>v\<in>F. may_hold own ops A y v)) \<and>
    (\<forall>y v. must_hold own ops A y v \<longrightarrow> v \<in> fst (fst a') y \<and> (\<exists>F. (y, F) \<in> snd a' \<and> v \<in> F))"
proof -
  obtain s' a' where r: "while_run go step s = Some (Some s')" "repr s' a'" "snd (fst a') = {}"
    "may_inv own ops A a'" "must_inv own ops A a'"
  proof -
    have "\<exists>s' a'. while_run go step s = Some (Some s') \<and> repr s' a' \<and> flow_in U V (fst a') \<and>
        snd (fst a') = {} \<and> may_inv own ops A a' \<and> must_inv own ops A a'"
    proof (rule run_ends [where I = "\<lambda>a. may_inv own ops A a \<and> must_inv own ops A a", OF ok assms(2,3)])
      show "may_inv own ops A a \<and> must_inv own ops A a" using A by simp
      show "may_inv own ops A (visit_log own ops c a) \<and> must_inv own ops A (visit_log own ops c a)"
        if "may_inv own ops A a \<and> must_inv own ops A a" "c \<in> snd (fst a)" for a c
        using visit_may_inv [OF conjunct1 [OF that(1)] that(2)] visit_must_inv [OF conjunct2 [OF that(1)]] by (rule conjI)
    qed
    then show thesis using that by blast
  qed
  have "v \<in> fst (fst a') y \<Longrightarrow> may_hold own ops A y v" for y v using r(4) by (simp add: may_inv_def)
  moreover have "\<forall>(y, F)\<in>snd a'. (\<exists>w. may_hold own ops A y w) \<and> (\<forall>v\<in>F. may_hold own ops A y v)"
    using r(4) by (simp add: may_inv_def)
  ultimately show ?thesis using r(1-3) must_hold_final [OF r(5,3)] by blast
qed

end

end
