(* ===== verification/ForkJoin.thy ===== *)
theory ForkJoin
  imports TCTResult
begin

text \<open>
  The fork-join analysis, \<open>ForkJoinAnalysis\<close> of \<open>include/MTA/MHP.h\<close> and \<open>lib/MTA/MHP.cpp\<close>: from
  the statements after the fork of each thread it follows the control flow, with a flag that
  tells whether the thread may still be alive. An analysis step that may fail an \<open>assert\<close> gives
  an option. The scalar evolution of the thread pointers is an input.
\<close>

section \<open>State\<close>

datatype val_domain = Empty | TDAlive | TDDead

record fork_join =
  cxtStmtToAliveFlagMap :: "cxt_stmt \<rightharpoonup> val_domain"
  fj_list :: "cxt_stmt fifo"
  directJoinMap :: "cxt_stmt \<rightharpoonup> node_id std_set"
  dirAndIndJoinMap :: "cxt_stmt \<rightharpoonup> node_id std_set"
  cxtJoinInLoop :: "cxt_stmt \<rightharpoonup> loop"
  HBPair :: "(node_id \<times> node_id) set"
  HPPair :: "(node_id \<times> node_id) set"
  fullJoin :: "(node_id \<times> node_id) set"
  partialJoin :: "(node_id \<times> node_id) set"

definition fj_new :: fork_join where
  "fj_new = \<lparr>cxtStmtToAliveFlagMap = Map.empty, fj_list = fifo_new, directJoinMap = Map.empty,
     dirAndIndJoinMap = Map.empty, cxtJoinInLoop = Map.empty, HBPair = {}, HPPair = {}, fullJoin = {}, partialJoin = {}\<rparr>"

text \<open>A lookup by \<open>operator[]\<close> creates an empty set.\<close>

definition getDirectlyJoinedTid :: "cxt_stmt \<Rightarrow> fork_join \<Rightarrow> node_id std_set \<times> fork_join" where
  "getDirectlyJoinedTid cs s = (case directJoinMap s cs of Some ds \<Rightarrow> (ds, s)
     | None \<Rightarrow> ([], s\<lparr>directJoinMap := (directJoinMap s)(cs \<mapsto> [])\<rparr>))"

definition fj_isJoinInSymmetricLoop :: "fork_join \<Rightarrow> cxt_stmt \<Rightarrow> loop option" where
  "fj_isJoinInSymmetricLoop s cs = cxtJoinInLoop s cs"

definition fj_isHBPair :: "fork_join \<Rightarrow> node_id \<Rightarrow> node_id \<Rightarrow> bool" where
  "fj_isHBPair s t1 t2 \<longleftrightarrow> (t1, t2) \<in> HBPair s \<and> (t1, t2) \<notin> HPPair s"

definition isFullJoin :: "fork_join \<Rightarrow> node_id \<Rightarrow> node_id \<Rightarrow> bool" where
  "isFullJoin s t1 t2 \<longleftrightarrow> (t1, t2) \<in> fullJoin s \<and> (t1, t2) \<notin> partialJoin s"

definition getExitInstOfParentRoutineFun :: "program \<Rightarrow> tct \<Rightarrow> node_id \<Rightarrow> inst option" where
  "getExitInstOfParentRoutineFun P t n = (case getParentThread t n of None \<Rightarrow> None
     | Some p \<Rightarrow> (case getGNode t p of None \<Rightarrow> None
       | Some nd \<Rightarrow> map_option (\<lambda>f. bb_back P (exit_bb P f)) (getStartRoutineOfCxtThread t (tn_ctx nd))))"

definition addDirectlyJoinTID :: "cxt_stmt \<Rightarrow> node_id \<Rightarrow> fork_join \<Rightarrow> fork_join" where
  "addDirectlyJoinTID cs tid s = s\<lparr>directJoinMap := (directJoinMap s)(cs \<mapsto>
     set_insert tid (case directJoinMap s cs of None \<Rightarrow> [] | Some ds \<Rightarrow> ds))\<rparr>"

definition addToHPPair :: "node_id \<Rightarrow> node_id \<Rightarrow> fork_join \<Rightarrow> fork_join" where
  "addToHPPair t1 t2 s = s\<lparr>HPPair := insert (t2, t1) (insert (t1, t2) (HPPair s))\<rparr>"

definition addToHBPair :: "node_id \<Rightarrow> node_id \<Rightarrow> fork_join \<Rightarrow> fork_join" where
  "addToHBPair t1 t2 s = s\<lparr>HBPair := insert (t1, t2) (HBPair s)\<rparr>"

definition addToFullJoin :: "node_id \<Rightarrow> node_id \<Rightarrow> fork_join \<Rightarrow> fork_join" where
  "addToFullJoin t1 t2 s = s\<lparr>fullJoin := insert (t1, t2) (fullJoin s)\<rparr>"

definition addToPartial :: "node_id \<Rightarrow> node_id \<Rightarrow> fork_join \<Rightarrow> fork_join" where
  "addToPartial t1 t2 s = s\<lparr>partialJoin := insert (t1, t2) (partialJoin s)\<rparr>"

definition addSymmetricLoopJoin :: "cxt_stmt \<Rightarrow> loop \<Rightarrow> fork_join \<Rightarrow> fork_join" where
  "addSymmetricLoopJoin cs lp s = s\<lparr>cxtJoinInLoop := (cxtJoinInLoop s)(cs \<mapsto> lp)\<rparr>"

section \<open>Flags\<close>

definition getMarkedFlag :: "cxt_stmt \<Rightarrow> fork_join \<Rightarrow> val_domain \<times> fork_join" where
  "getMarkedFlag cs s = (case cxtStmtToAliveFlagMap s cs of
     None \<Rightarrow> (Empty, s\<lparr>cxtStmtToAliveFlagMap := (cxtStmtToAliveFlagMap s)(cs \<mapsto> Empty)\<rparr>)
   | Some f \<Rightarrow> (f, s))"

definition fj_push :: "cxt_stmt \<Rightarrow> fork_join \<Rightarrow> fork_join" where
  "fj_push cs s = s\<lparr>fj_list := snd (fifo_push cs (fj_list s))\<rparr>"

definition set_flag :: "cxt_stmt \<Rightarrow> val_domain \<Rightarrow> fork_join \<Rightarrow> fork_join" where
  "set_flag cs f s = s\<lparr>cxtStmtToAliveFlagMap := (cxtStmtToAliveFlagMap s)(cs \<mapsto> f)\<rparr>"

definition fj_mark :: "cxt_stmt \<Rightarrow> val_domain \<Rightarrow> fork_join \<Rightarrow> fork_join" where
  "fj_mark tgr flag s = (case getMarkedFlag tgr s of (f, s1) \<Rightarrow>
     (case getMarkedFlag tgr (set_flag tgr flag s1) of (f', s2) \<Rightarrow> if f \<noteq> f' then fj_push tgr s2 else s2))"

definition fj_mark_from :: "cxt_stmt \<Rightarrow> cxt_stmt \<Rightarrow> fork_join \<Rightarrow> fork_join" where
  "fj_mark_from tgr src s = (case getMarkedFlag tgr s of (f, s1) \<Rightarrow> (case getMarkedFlag src s1 of (g, s2) \<Rightarrow>
     let s3 = (if f = Empty then set_flag tgr g s2
               else if f = TDDead then (if g = TDAlive then set_flag tgr TDAlive s2 else s2) else s2)
     in case getMarkedFlag tgr s3 of (f', s4) \<Rightarrow> if f \<noteq> f' then fj_push tgr s4 else s4))"

definition clearFlagMap :: "fork_join \<Rightarrow> fork_join" where
  "clearFlagMap s = s\<lparr>cxtStmtToAliveFlagMap := Map.empty, fj_list := fifo_clear (fj_list s)\<rparr>"

section \<open>Matching a join with a fork\<close>

text \<open>The constant indices of an address computation, as vectors of 32-bit numbers.\<close>

fun gep_indices :: "int option list \<Rightarrow> 32 word list option" where
  "gep_indices [] = Some []"
| "gep_indices (None # xs) = None"
| "gep_indices (Some i # xs) = map_option ((#) (word_of_int i)) (gep_indices xs)"

definition accessSameArrayIndex :: "int option list \<Rightarrow> int option list \<Rightarrow> bool" where
  "accessSameArrayIndex p q = (case gep_indices p of None \<Rightarrow> False
     | Some v \<Rightarrow> (case gep_indices q of None \<Rightarrow> False | Some w \<Rightarrow> v = w))"

definition isSameSCEV :: "program \<Rightarrow> inst \<Rightarrow> inst \<Rightarrow> bool" where
  "isSameSCEV P forkSite joinSite = (let f = scev_of P forkSite; j = scev_of P joinSite in
     if sc_inloop f \<and> sc_inloop j then sc_start f = sc_start j \<and> sc_step f = sc_step j \<and> sc_tripcount f \<le> sc_tripcount j
     else (case (gep_operands P (sc_ptr f), gep_operands P (sc_ptr j)) of
         (Some p, Some q) \<Rightarrow> accessSameArrayIndex p q | (None, None) \<Rightarrow> True | _ \<Rightarrow> False))"

definition isAliasedForkJoin :: "program \<Rightarrow> inst \<Rightarrow> inst \<Rightarrow> bool" where
  "isAliasedForkJoin P forkSite joinSite \<longleftrightarrow>
     alias_bool (pta_alias P (forked_thread P forkSite) (joined_thread P joinSite)) \<and> isSameSCEV P forkSite joinSite"

section \<open>Handlers\<close>

definition fja_handleIntra :: "program \<Rightarrow> tct \<Rightarrow> cxt_stmt \<Rightarrow> fork_join \<Rightarrow> fork_join" where
  "fja_handleIntra P t cts = fold (\<lambda>i. fj_mark_from (CxtStmt (getContext cts) i) cts) (tct_getNextInsts P t (getStmt cts))"

definition fja_handleFork :: "program \<Rightarrow> tct \<Rightarrow> cxt_stmt \<Rightarrow> node_id \<Rightarrow> fork_join \<Rightarrow> fork_join option" where
  "fja_handleFork P t cts rootTid s = (let call = getStmt cts in
     if \<not> td_fork P call then None else
     map_option (fja_handleIntra P t cts)
       (case fork_edges P call of None \<Rightarrow> Some s
        | Some es \<Rightarrow> foldM (\<lambda>e s. let ct = CxtThread (tct_pushCxt P t (getContext cts) call (e_dst e)) call in
            case getMarkedFlag cts s of (f, s1) \<Rightarrow>
            (case getTCTNode_ct t ct of None \<Rightarrow> None
             | Some n \<Rightarrow> Some (if f \<noteq> TDAlive then addToHBPair rootTid n s1 else addToHPPair rootTid n s1))) es s))"

definition fja_handleJoin :: "program \<Rightarrow> tct \<Rightarrow> cxt_stmt \<Rightarrow> node_id \<Rightarrow> fork_join \<Rightarrow> fork_join option" where
  "fja_handleJoin P t cts rootTid s = (let call = getStmt cts in
     if \<not> td_join P call then None else
     map_option (fja_handleIntra P t cts)
       (if call_edges P call = None then Some s else
        (case getGNode t rootTid of None \<Rightarrow> None
         | Some nd \<Rightarrow> (let forkSite = ct_forksite (tn_ctx nd) in
           if isAliasedForkJoin P forkSite call then
             (case getJoinLoop P t call of None \<Rightarrow> None
              | Some (Some lp) \<Rightarrow> Some (fold (\<lambda>eb s. let newCts = CxtStmt (getContext cts) (bb_front P eb);
                    s1 = addDirectlyJoinTID cts rootTid s in
                  if isSameSCEV P forkSite call then addSymmetricLoopJoin cts lp (fj_mark newCts TDDead s1)
                  else fj_mark cts TDAlive s1) (rev (loop_exits P lp)) s)
              | Some None \<Rightarrow> Some (addDirectlyJoinTID cts rootTid (fj_mark cts TDDead s)))
           else
             (case getJoinLoop P t call of None \<Rightarrow> None
              | Some (Some lp) \<Rightarrow> Some (fold (\<lambda>eb. fj_mark_from (CxtStmt (getContext cts) (bb_front P eb)) cts)
                  (rev (loop_exits P lp)) s)
              | Some None \<Rightarrow> Some s)))))"

definition fja_handleCall :: "program \<Rightarrow> tct \<Rightarrow> cxt_stmt \<Rightarrow> fork_join \<Rightarrow> fork_join" where
  "fja_handleCall P t cts s = (case call_edges P (getStmt cts) of None \<Rightarrow> s
     | Some es \<Rightarrow> fold (\<lambda>e s. if is_ext_fun P (e_dst e) then s
         else fj_mark_from (CxtStmt (tct_pushCxt P t (getContext cts) (getStmt cts) (e_dst e)) (entry_inst P (e_dst e))) cts s) es s)"

definition fja_return_to :: "program \<Rightarrow> tct \<Rightarrow> cxt_stmt \<Rightarrow> inst \<Rightarrow> fork_join \<Rightarrow> fork_join" where
  "fja_return_to P t cts cs s = (case tct_matchCxt P t (getContext cts) cs (fun_of P (getStmt cts)) of
     (True, cxt) \<Rightarrow> fold (\<lambda>i. fj_mark_from (CxtStmt cxt i) cts) (tct_getNextInsts P t cs) s
   | (False, _) \<Rightarrow> s)"

definition fja_handleRet :: "program \<Rightarrow> tct \<Rightarrow> cxt_stmt \<Rightarrow> fork_join \<Rightarrow> fork_join" where
  "fja_handleRet P t cts = fold (\<lambda>e s. if e_kind e = TDForkEdge \<or> e_kind e = TDJoinEdge then s
     else fold (fja_return_to P t cts) (e_indirect e) (fold (fja_return_to P t cts) (e_direct e) s)) (in_edges P (fun_of P (getStmt cts)))"

definition callee_candidate :: "program \<Rightarrow> tct \<Rightarrow> inst \<Rightarrow> bool" where
  "callee_candidate P t i = (case callee_of P i of None \<Rightarrow> False | Some f \<Rightarrow> isCandidateFun t f)"

definition fja_dispatch :: "program \<Rightarrow> tct \<Rightarrow> node_id \<Rightarrow> cxt_stmt \<Rightarrow> fork_join \<Rightarrow> fork_join option" where
  "fja_dispatch P t rootTid cts s = (let i = getStmt cts in
     if td_fork P i then fja_handleFork P t cts rootTid s
     else if td_join P i then fja_handleJoin P t cts rootTid s
     else if is_call P i \<and> callee_candidate P t i then Some (fja_handleCall P t cts s)
     else if is_return P i then Some (fja_handleRet P t cts s)
     else Some (fja_handleIntra P t cts s))"

definition fja_visit :: "program \<Rightarrow> tct \<Rightarrow> node_id \<Rightarrow> inst \<Rightarrow> cxt_stmt \<Rightarrow> fork_join \<Rightarrow> fork_join option" where
  "fja_visit P t rootTid exitInst cts s = (case fja_dispatch P t rootTid cts s of None \<Rightarrow> None
     | Some s1 \<Rightarrow> (if getStmt cts = exitInst
         then (case getMarkedFlag cts s1 of (f, s2) \<Rightarrow> map_option (\<lambda>p.
           if f \<noteq> TDAlive then addToFullJoin p rootTid s2 else addToPartial p rootTid s2) (getParentThread t rootTid))
         else Some s1))"

definition fja_step :: "program \<Rightarrow> tct \<Rightarrow> node_id \<Rightarrow> inst \<Rightarrow> fork_join \<Rightarrow> fork_join run" where
  "fja_step P t rootTid exitInst s = (case fifo_pop (fj_list s) of None \<Rightarrow> Some (Some s)
     | Some (cts, w) \<Rightarrow> Some (fja_visit P t rootTid exitInst cts (s\<lparr>fj_list := w\<rparr>)))"

definition fja_seed :: "program \<Rightarrow> tct \<Rightarrow> call_str_cxt \<Rightarrow> inst \<Rightarrow> fork_join \<Rightarrow> fork_join" where
  "fja_seed P t forkSiteCxt forkInst = fold (\<lambda>i. fj_mark (CxtStmt forkSiteCxt i) TDAlive) (tct_getNextInsts P t forkInst)"

definition fja_root :: "program \<Rightarrow> tct \<Rightarrow> node_id \<Rightarrow> fork_join \<Rightarrow> fork_join run" where
  "fja_root P t rootTid s = (let s1 = clearFlagMap s in
     case getGNode t rootTid of None \<Rightarrow> Some None
     | Some nd \<Rightarrow> (let ct = tn_ctx nd in
       if ct_forksite ct = null_inst then Some (Some s1)
       else (case getCxtOfCxtThread t ct of None \<Rightarrow> Some None
         | Some forkSiteCxt \<Rightarrow> (case getExitInstOfParentRoutineFun P t rootTid of None \<Rightarrow> Some None
           | Some exitInst \<Rightarrow> while_run (\<lambda>s. \<not> fifo_empty (fj_list s)) (fja_step P t rootTid exitInst)
               (fja_seed P t forkSiteCxt (ct_forksite ct) s1)))))"

text \<open>The order in which the map of the nodes is iterated is an argument.\<close>

definition analyzeForkJoinPair :: "program \<Rightarrow> tct \<Rightarrow> node_id list \<Rightarrow> fork_join \<Rightarrow> fork_join run" where
  "analyzeForkJoinPair P t = foldR (fja_root P t)"

section \<open>Threads joined at a join site\<close>

definition joined_step :: "tct \<Rightarrow> fork_join \<Rightarrow> node_id std_set \<times> node_id fifo \<Rightarrow> (node_id std_set \<times> node_id fifo) run" where
  "joined_step t s = (\<lambda>(all, w). case fifo_pop w of None \<Rightarrow> Some (Some (all, w))
     | Some (tid, w1) \<Rightarrow> (case getGNode t tid of None \<Rightarrow> Some None
       | Some nd \<Rightarrow> Some (Some (fold (\<lambda>c (all, w). if isFullJoin s tid c then (set_insert c all, snd (fifo_push c w)) else (all, w))
           (tn_out nd) (all, w1)))))"

definition fj_getDirAndIndJoinedTid :: "tct \<Rightarrow> cxt_stmt \<Rightarrow> fork_join \<Rightarrow> (node_id std_set \<times> fork_join) run" where
  "fj_getDirAndIndJoinedTid t cs s = (case dirAndIndJoinMap s cs of Some ds \<Rightarrow> Some (Some (ds, s))
     | None \<Rightarrow> (case getDirectlyJoinedTid cs s of (ds, s1) \<Rightarrow>
         and_then (while_run (\<lambda>(all, w). \<not> fifo_empty w) (joined_step t s1)
             (ds, fold (\<lambda>d w. snd (fifo_push d w)) ds fifo_new))
           (\<lambda>(all, w). Some (Some (all, s1\<lparr>dirAndIndJoinMap := (dirAndIndJoinMap s1)(cs \<mapsto> all)\<rparr>)))))"

end
