(* ===== verification/ForkJoinFlow.thy ===== *)
theory ForkJoinFlow
  imports ForkJoin Propagation
begin

text \<open>
  The fork-join analysis of one thread is a propagation of two values: \<open>Reached\<close> for the
  statements that control flow may reach after the fork, and \<open>Live\<close> where the thread may
  still be alive. A join site removes \<open>Live\<close>, its own or that of the exits of its loop.
\<close>

section \<open>Flags as sets\<close>

datatype fj_val = Reached | Live

fun flag_set :: "val_domain \<Rightarrow> fj_val set" where
  "flag_set Empty = {}"
| "flag_set TDDead = {Reached}"
| "flag_set TDAlive = {Reached, Live}"

lemma flag_set_inj [simp]: "flag_set f = flag_set g \<longleftrightarrow> f = g"
  by (cases f; cases g) auto

lemma flag_set_live [simp]: "Live \<in> flag_set f \<longleftrightarrow> f = TDAlive"
  by (cases f) auto

lemma flag_set_reached [simp]: "Reached \<in> flag_set f \<longleftrightarrow> f \<noteq> Empty"
  by (cases f) auto

definition flag_of :: "fork_join \<Rightarrow> cxt_stmt \<Rightarrow> val_domain" where
  "flag_of s c = (case cxtStmtToAliveFlagMap s c of None \<Rightarrow> Empty | Some f \<Rightarrow> f)"

abbreviation fj_pend :: "fork_join \<Rightarrow> cxt_stmt set" where
  "fj_pend s \<equiv> set (data_list (fj_list s))"

definition fj_flow :: "fork_join \<Rightarrow> (cxt_stmt, fj_val) flow" where
  "fj_flow s = (\<lambda>c. flag_set (flag_of s c), fj_pend s)"

definition fj_ok :: "fork_join \<Rightarrow> bool" where
  "fj_ok s \<longleftrightarrow> fifo_inv (fj_list s) \<and> (\<forall>c\<in>fj_pend s. flag_of s c \<noteq> Empty)"

text \<open>Marking changes flags and pending statements only.\<close>

definition fj_frame :: "fork_join \<Rightarrow> fork_join \<Rightarrow> bool" where
  "fj_frame s s' \<longleftrightarrow> directJoinMap s' = directJoinMap s \<and> dirAndIndJoinMap s' = dirAndIndJoinMap s \<and>
     cxtJoinInLoop s' = cxtJoinInLoop s \<and> HBPair s' = HBPair s \<and> HPPair s' = HPPair s \<and>
     fullJoin s' = fullJoin s \<and> partialJoin s' = partialJoin s"

lemma fj_frame_refl [simp]: "fj_frame s s"
  by (simp add: fj_frame_def)

lemma fj_frame_trans: "fj_frame s s1 \<Longrightarrow> fj_frame s1 s2 \<Longrightarrow> fj_frame s s2"
  by (auto simp: fj_frame_def)

lemma getMarkedFlag_flag:
  "\<exists>m. getMarkedFlag c s = (flag_of s c, s\<lparr>cxtStmtToAliveFlagMap := m\<rparr>) \<and>
     (\<forall>d. flag_of (s\<lparr>cxtStmtToAliveFlagMap := m\<rparr>) d = flag_of s d)"
proof (cases "cxtStmtToAliveFlagMap s c")
  case None
  then show ?thesis by (intro exI [of _ "(cxtStmtToAliveFlagMap s)(c \<mapsto> Empty)"]) (simp add: getMarkedFlag_def flag_of_def)
next
  case (Some f)
  then show ?thesis by (intro exI [of _ "cxtStmtToAliveFlagMap s"]) (simp add: getMarkedFlag_def flag_of_def)
qed

lemma marked_flag:
  assumes "getMarkedFlag c s = (f, s')"
  shows "f = flag_of s c" "fj_flow s' = fj_flow s" "fj_ok s' = fj_ok s" "fj_frame s s'" "fj_list s' = fj_list s"
    "flag_of s' = flag_of s"
proof -
  obtain m where m: "getMarkedFlag c s = (flag_of s c, s\<lparr>cxtStmtToAliveFlagMap := m\<rparr>)"
    "\<And>d. flag_of (s\<lparr>cxtStmtToAliveFlagMap := m\<rparr>) d = flag_of s d" using getMarkedFlag_flag by blast
  have s': "s' = s\<lparr>cxtStmtToAliveFlagMap := m\<rparr>" "f = flag_of s c" using m(1) assms by simp_all
  then show "f = flag_of s c" "fj_flow s' = fj_flow s" "fj_ok s' = fj_ok s" "fj_list s' = fj_list s"
    using m(2) by (simp_all add: fj_flow_def fj_ok_def)
  show "flag_of s' = flag_of s" using m(2) s' by (simp add: fun_eq_iff)
  show "fj_frame s s'" by (simp add: fj_frame_def s')
qed

lemma set_flag_simps:
  "flag_of (set_flag c f s) = (flag_of s)(c := f)" "fj_list (set_flag c f s) = fj_list s" "fj_frame s (set_flag c f s)"
  by (auto simp: set_flag_def flag_of_def fj_frame_def)

lemma fj_push_simps:
  "flag_of (fj_push c s) = flag_of s" "fj_frame s (fj_push c s)"
  "fifo_inv (fj_list s) \<Longrightarrow> fj_pend (fj_push c s) = insert c (fj_pend s)"
  "fifo_inv (fj_list s) \<Longrightarrow> fifo_inv (fj_list (fj_push c s))"
  by (simp_all add: fj_push_def flag_of_def fj_frame_def fun_eq_iff fifo.push_set fifo.push_inv)

text \<open>Setting the flag of a statement and pushing it when the flag changes.\<close>

lemma flag_update:
  assumes ok: "fj_ok s" and f: "f \<noteq> Empty \<or> flag_of s c = Empty"
    and s1: "flag_of s1 = (flag_of s)(c := f)" "fj_list s1 = fj_list s" "fj_frame s s1"
    and s2: "s2 = (if flag_of s c \<noteq> f then fj_push c s1 else s1)"
  shows "fj_ok s2 \<and> fj_frame s s2 \<and> flag_of s2 = (flag_of s)(c := f) \<and>
    fj_pend s2 = (if flag_of s c \<noteq> f then insert c (fj_pend s) else fj_pend s)"
proof -
  have i: "fifo_inv (fj_list s1)" using ok s1(2) by (simp add: fj_ok_def)
  have "fj_pend s2 = (if flag_of s c \<noteq> f then insert c (fj_pend s) else fj_pend s)" "flag_of s2 = flag_of s1"
    "fifo_inv (fj_list s2)" using fj_push_simps [where s = s1] i s1(2) by (simp_all add: s2)
  moreover have "fj_frame s s2" using fj_frame_trans [OF s1(3) fj_push_simps(2)] s1(3) by (simp add: s2)
  moreover have "flag_of s2 d \<noteq> Empty" if "d \<in> fj_pend s2" for d
    using that ok f calculation(1,2) by (auto simp: fj_ok_def s1(1) split: if_splits)
  ultimately show ?thesis using s1(1) by (simp add: fj_ok_def)
qed

lemma fj_mark_flow:
  assumes ok: "fj_ok s" and "f \<noteq> Empty"
  shows "fj_ok (fj_mark c f s) \<and> fj_frame s (fj_mark c f s) \<and> flag_of (fj_mark c f s) = (flag_of s)(c := f) \<and>
    fj_pend (fj_mark c f s) = (if flag_of s c \<noteq> f then insert c (fj_pend s) else fj_pend s)"
proof -
  obtain g s1 where g: "getMarkedFlag c s = (g, s1)" by (cases "getMarkedFlag c s")
  obtain f' s2 where f': "getMarkedFlag c (set_flag c f s1) = (f', s2)" by (cases "getMarkedFlag c (set_flag c f s1)")
  note G = marked_flag [OF g] and F = marked_flag [OF f'] and S = set_flag_simps [where c = c and f = f and s = s1]
  have "f' = f" using F(1) S(1) by simp
  then have e: "fj_mark c f s = (if flag_of s c \<noteq> f then fj_push c s2 else s2)"
    using G(1) by (simp add: fj_mark_def g f')
  show ?thesis
    by (rule flag_update [OF ok _ _ _ _ e])
      (use F(5,6) S G(5,6) assms(2) fj_frame_trans [OF G(4) fj_frame_trans [OF S(3) F(4)]] in simp_all)
qed

lemma fj_mark_from_flow:
  assumes ok: "fj_ok s"
  shows "fj_ok (fj_mark_from c d s) \<and> fj_frame s (fj_mark_from c d s) \<and>
    fj_flow (fj_mark_from c d s) = do_op (flag_set (flag_of s d)) (Flow c) (fj_flow s)"
proof -
  obtain f s1 where f: "getMarkedFlag c s = (f, s1)" by (cases "getMarkedFlag c s")
  obtain g s2 where g: "getMarkedFlag d s1 = (g, s2)" by (cases "getMarkedFlag d s1")
  note F = marked_flag [OF f] and G = marked_flag [OF g]
  define h where "h = (if f = Empty then g else if f = TDDead \<and> g = TDAlive then TDAlive else f)"
  define s3 where "s3 = (if f = Empty then set_flag c g s2
    else if f = TDDead then (if g = TDAlive then set_flag c TDAlive s2 else s2) else s2)"
  obtain f' s4 where f': "getMarkedFlag c s3 = (f', s4)" by (cases "getMarkedFlag c s3")
  note F' = marked_flag [OF f']
  have s3: "flag_of s3 = (flag_of s)(c := h)" "fj_list s3 = fj_list s" "fj_frame s2 s3"
    using set_flag_simps [where c = c and s = s2] F G by (auto simp: s3_def h_def fun_eq_iff)
  have "f' = h" using F'(1) s3(1) by simp
  then have e: "fj_mark_from c d s = (if flag_of s c \<noteq> h then fj_push c s4 else s4)"
    unfolding fj_mark_from_def f g prod.case Let_def s3_def [symmetric] f' using F(1) by simp
  have u: "fj_ok (fj_mark_from c d s) \<and> fj_frame s (fj_mark_from c d s) \<and> flag_of (fj_mark_from c d s) = (flag_of s)(c := h) \<and>
    fj_pend (fj_mark_from c d s) = (if flag_of s c \<noteq> h then insert c (fj_pend s) else fj_pend s)"
    by (rule flag_update [OF ok _ _ _ _ e])
      (use F F' G s3 fj_frame_trans [OF F(4) fj_frame_trans [OF G(4) fj_frame_trans [OF s3(3) F'(4)]]] in \<open>auto simp: h_def\<close>)
  have "flag_set h = flag_set f \<union> flag_set g" unfolding h_def by (cases f; cases g) auto
  then have "flag_set h = flag_set (flag_of s c) \<union> flag_set (flag_of s d)" using F(1,6) G(1) by simp
  then have "do_op (flag_set (flag_of s d)) (Flow c) (fj_flow s) = ((\<lambda>d. flag_set (flag_of s d))(c := flag_set h),
      if h \<noteq> flag_of s c then insert c (fj_pend s) else fj_pend s)"
    by (simp only: do_op_def fj_flow_def Let_def prod.case flow_op.sel flow_op.case flag_set_inj [symmetric] if_cancel)
  moreover have "fj_flow (fj_mark_from c d s) = ((\<lambda>d. flag_set (flag_of s d))(c := flag_set h),
      if h \<noteq> flag_of s c then insert c (fj_pend s) else fj_pend s)"
  proof -
    have "fj_pend (fj_mark_from c d s) = (if h \<noteq> flag_of s c then insert c (fj_pend s) else fj_pend s)"
      "flag_of (fj_mark_from c d s) = (flag_of s)(c := h)" using u by auto
    then show ?thesis by (simp add: fj_flow_def fun_eq_iff)
  qed
  ultimately show ?thesis using u by simp
qed


section \<open>Sequences of marks\<close>

lemma flag_of_flow: "flag_of s c = flag_of s' c \<longleftrightarrow> fst (fj_flow s) c = fst (fj_flow s') c"
  by (simp add: fj_flow_def)

text \<open>The statement marked from keeps its flag, so all marks of a handler use the same one.\<close>

definition sim_ops :: "cxt_stmt \<Rightarrow> (fork_join \<Rightarrow> fork_join) \<Rightarrow> (cxt_stmt, fj_val) flow_op list \<Rightarrow> bool" where
  "sim_ops c h xs \<longleftrightarrow> (\<forall>x\<in>set xs. flow_target x = c \<longrightarrow> x = Flow c) \<and>
     (\<forall>s. fj_ok s \<longrightarrow> fj_ok (h s) \<and> fj_frame s (h s) \<and> fj_flow (h s) = fold (do_op (flag_set (flag_of s c))) xs (fj_flow s))"

lemma sim_ops_flag: "sim_ops c h xs \<Longrightarrow> fj_ok s \<Longrightarrow> flag_of (h s) c = flag_of s c"
  unfolding flag_of_flow using fold_op_other [of xs c "flag_set (flag_of s c)" "fj_flow s"]
  by (auto simp: sim_ops_def fj_flow_def)

lemma sim_ops_comp:
  assumes "sim_ops c h xs" "sim_ops c k ys"
  shows "sim_ops c (\<lambda>s. k (h s)) (xs @ ys)"
  using assms sim_ops_flag [OF assms(1)] fj_frame_trans unfolding sim_ops_def by (simp add: ball_Un) blast

lemma sim_ops_fold:
  assumes "\<And>i. i \<in> set is \<Longrightarrow> sim_ops c (h i) (f i)"
  shows "sim_ops c (fold h is) (concat (map f is))"
  using assms
proof (induction "is")
  case Nil
  then show ?case by (simp add: sim_ops_def)
next
  case (Cons i "is")
  have "sim_ops c (\<lambda>s. fold h is (h i s)) (f i @ concat (map f is))"
    by (rule sim_ops_comp) (use Cons in auto)
  then show ?case by (simp add: comp_def)
qed

lemma sim_ops_mark_from: "sim_ops c (fj_mark_from d c) [Flow d]"
  using fj_mark_from_flow by (auto simp: sim_ops_def)

lemma sim_ops_dead:
  assumes "d \<noteq> c"
  shows "sim_ops c (fj_mark d TDDead) [Put d {Reached}, Kill d {Live}]"
proof -
  have "fj_flow (fj_mark d TDDead s) = fold (do_op F) [Put d {Reached}, Kill d {Live}] (fj_flow s)" if "fj_ok s" for s F
    using fj_mark_flow [OF that, of TDDead d]
    by (cases "flag_of s d") (auto simp: do_op_def Let_def fj_flow_def fun_eq_iff)
  then show ?thesis using fj_mark_flow [of _ TDDead] assms by (auto simp: sim_ops_def)
qed

lemma sim_ops_skip: "sim_ops c (\<lambda>s. s) []"
  by (simp add: sim_ops_def)


section \<open>The handlers as operations\<close>

definition fork_site_of :: "tct \<Rightarrow> node_id \<Rightarrow> inst" where
  "fork_site_of t r = ct_forksite (tn_ctx (tctNodes t ! r))"

definition fja_next :: "program \<Rightarrow> tct \<Rightarrow> call_str_cxt \<Rightarrow> inst \<Rightarrow> (cxt_stmt, fj_val) flow_op list" where
  "fja_next P t cxt i = map (\<lambda>j. Flow (CxtStmt cxt j)) (tct_getNextInsts P t i)"

definition fja_joins :: "program \<Rightarrow> tct \<Rightarrow> node_id \<Rightarrow> cxt_stmt \<Rightarrow> bool" where
  "fja_joins P t r c \<longleftrightarrow> \<not> td_fork P (getStmt c) \<and> td_join P (getStmt c) \<and> call_edges P (getStmt c) \<noteq> None \<and>
     isAliasedForkJoin P (fork_site_of t r) (getStmt c)"

definition exit_stmts :: "program \<Rightarrow> cxt_stmt \<Rightarrow> loop \<Rightarrow> cxt_stmt list" where
  "exit_stmts P c lp = map (\<lambda>eb. CxtStmt (getContext c) (bb_front P eb)) (rev (loop_exits P lp))"

definition fja_own :: "program \<Rightarrow> tct \<Rightarrow> node_id \<Rightarrow> cxt_stmt \<Rightarrow> fj_val set" where
  "fja_own P t r c = (if fja_joins P t r c \<and> joinSiteToLoopMap t (getStmt c) = None then {Live} else {})"

definition fja_calls :: "program \<Rightarrow> tct \<Rightarrow> cxt_stmt \<Rightarrow> (cxt_stmt, fj_val) flow_op list" where
  "fja_calls P t c = (case call_edges P (getStmt c) of None \<Rightarrow> []
     | Some es \<Rightarrow> concat (map (\<lambda>e. if is_ext_fun P (e_dst e) then [] else
         [Flow (CxtStmt (tct_pushCxt P t (getContext c) (getStmt c) (e_dst e)) (entry_inst P (e_dst e)))]) es))"

definition fja_return_ops :: "program \<Rightarrow> tct \<Rightarrow> cxt_stmt \<Rightarrow> inst \<Rightarrow> (cxt_stmt, fj_val) flow_op list" where
  "fja_return_ops P t c cs = (case tct_matchCxt P t (getContext c) cs (fun_of P (getStmt c)) of
     (True, cxt) \<Rightarrow> fja_next P t cxt cs | (False, _) \<Rightarrow> [])"

definition fja_returns :: "program \<Rightarrow> tct \<Rightarrow> cxt_stmt \<Rightarrow> (cxt_stmt, fj_val) flow_op list" where
  "fja_returns P t c = concat (map (\<lambda>e. if e_kind e = TDForkEdge \<or> e_kind e = TDJoinEdge then []
     else concat (map (fja_return_ops P t c) (e_direct e @ e_indirect e))) (in_edges P (fun_of P (getStmt c))))"

definition fja_exits :: "program \<Rightarrow> tct \<Rightarrow> node_id \<Rightarrow> cxt_stmt \<Rightarrow> (cxt_stmt, fj_val) flow_op list" where
  "fja_exits P t r c = (case joinSiteToLoopMap t (getStmt c) of None \<Rightarrow> []
     | Some lp \<Rightarrow> if call_edges P (getStmt c) = None then []
         else if fja_joins P t r c then concat (map (\<lambda>d. [Put d {Reached}, Kill d {Live}]) (exit_stmts P c lp))
         else map Flow (exit_stmts P c lp))"

definition fja_ops :: "program \<Rightarrow> tct \<Rightarrow> node_id \<Rightarrow> cxt_stmt \<Rightarrow> (cxt_stmt, fj_val) flow_op list" where
  "fja_ops P t r c = (let i = getStmt c; intra = fja_next P t (getContext c) i in
     if td_fork P i then intra else if td_join P i then fja_exits P t r c @ intra
     else if is_call P i \<and> callee_candidate P t i then fja_calls P t c
     else if is_return P i then fja_returns P t c else intra)"

lemma sim_handleIntra: "sim_ops c (fja_handleIntra P t c) (fja_next P t (getContext c) (getStmt c))"
proof -
  have "sim_ops c (fold (\<lambda>i. fj_mark_from (CxtStmt (getContext c) i) c) is) (concat (map (\<lambda>i. [Flow (CxtStmt (getContext c) i)]) is))" for "is"
    by (rule sim_ops_fold) (rule sim_ops_mark_from)
  then show ?thesis by (simp add: fja_handleIntra_def [abs_def] fja_next_def concat_map_singleton)
qed

lemma sim_handleCall: "sim_ops c (fja_handleCall P t c) (fja_calls P t c)"
proof (cases "call_edges P (getStmt c)")
  case None
  then show ?thesis using sim_ops_skip by (simp add: fja_handleCall_def [abs_def] fja_calls_def)
next
  case (Some es)
  let ?d = "\<lambda>e. CxtStmt (tct_pushCxt P t (getContext c) (getStmt c) (e_dst e)) (entry_inst P (e_dst e))"
  have "sim_ops c (fold (\<lambda>e s. if is_ext_fun P (e_dst e) then s else fj_mark_from (?d e) c s) es)
    (concat (map (\<lambda>e. if is_ext_fun P (e_dst e) then [] else [Flow (?d e)]) es))"
  proof (rule sim_ops_fold)
    fix e
    show "sim_ops c (\<lambda>s. if is_ext_fun P (e_dst e) then s else fj_mark_from (?d e) c s)
      (if is_ext_fun P (e_dst e) then [] else [Flow (?d e)])"
      by (cases "is_ext_fun P (e_dst e)") (simp_all add: sim_ops_skip sim_ops_mark_from)
  qed
  then show ?thesis by (simp add: fja_handleCall_def [abs_def] fja_calls_def Some)
qed

lemma sim_return_to: "sim_ops c (fja_return_to P t c cs) (fja_return_ops P t c cs)"
proof (cases "tct_matchCxt P t (getContext c) cs (fun_of P (getStmt c))")
  case (Pair b cxt)
  have "sim_ops c (fold (\<lambda>i. fj_mark_from (CxtStmt cxt i) c) is) (concat (map (\<lambda>i. [Flow (CxtStmt cxt i)]) is))" for "is"
    by (rule sim_ops_fold) (rule sim_ops_mark_from)
  then show ?thesis using sim_ops_skip
    by (cases b) (simp_all add: fja_return_to_def [abs_def] fja_return_ops_def Pair fja_next_def concat_map_singleton)
qed

lemma sim_handleRet: "sim_ops c (fja_handleRet P t c) (fja_returns P t c)"
proof -
  let ?h = "\<lambda>e s. if e_kind e = TDForkEdge \<or> e_kind e = TDJoinEdge then s
     else fold (fja_return_to P t c) (e_indirect e) (fold (fja_return_to P t c) (e_direct e) s)"
  have f: "sim_ops c (fold (fja_return_to P t c) xs) (concat (map (fja_return_ops P t c) xs))" for xs
    by (rule sim_ops_fold) (rule sim_return_to)
  have "sim_ops c (?h e) (if e_kind e = TDForkEdge \<or> e_kind e = TDJoinEdge then []
     else concat (map (fja_return_ops P t c) (e_direct e @ e_indirect e)))" for e
    using sim_ops_skip sim_ops_comp [OF f [of "e_direct e"] f [of "e_indirect e"]]
    by (cases "e_kind e = TDForkEdge \<or> e_kind e = TDJoinEdge") simp_all
  then show ?thesis unfolding fja_handleRet_def [abs_def] fja_returns_def by (rule sim_ops_fold)
qed


section \<open>The log of a visit\<close>

text \<open>The threads forked by a statement, and the threads a join site is recorded to join.\<close>

definition forked_nodes :: "program \<Rightarrow> tct \<Rightarrow> cxt_stmt \<Rightarrow> node_id set" where
  "forked_nodes P t c = (if td_fork P (getStmt c) then {n. \<exists>es. fork_edges P (getStmt c) = Some es \<and> (\<exists>e\<in>set es.
     getTCTNode_ct t (CxtThread (tct_pushCxt P t (getContext c) (getStmt c) (e_dst e)) (getStmt c)) = Some n)} else {})"

definition forks_known :: "program \<Rightarrow> tct \<Rightarrow> cxt_stmt \<Rightarrow> bool" where
  "forks_known P t c \<longleftrightarrow> (td_fork P (getStmt c) \<longrightarrow> (\<forall>es e. fork_edges P (getStmt c) = Some es \<longrightarrow> e \<in> set es \<longrightarrow>
     getTCTNode_ct t (CxtThread (tct_pushCxt P t (getContext c) (getStmt c) (e_dst e)) (getStmt c)) \<noteq> None))"

definition dj_set :: "fork_join \<Rightarrow> cxt_stmt \<Rightarrow> node_id set" where
  "dj_set s c = (case directJoinMap s c of None \<Rightarrow> {} | Some ds \<Rightarrow> set ds)"

definition join_recorded :: "program \<Rightarrow> tct \<Rightarrow> node_id \<Rightarrow> cxt_stmt \<Rightarrow> bool" where
  "join_recorded P t r c \<longleftrightarrow> fja_joins P t r c \<and>
     (case joinSiteToLoopMap t (getStmt c) of None \<Rightarrow> True | Some lp \<Rightarrow> loop_exits P lp \<noteq> [])"

definition hb_pairs :: "program \<Rightarrow> tct \<Rightarrow> node_id \<Rightarrow> cxt_stmt \<times> fj_val set \<Rightarrow> (node_id \<times> node_id) set" where
  "hb_pairs P t r = (\<lambda>(c, F). if Live \<in> F then {} else Pair r ` forked_nodes P t c)"

definition hp_pairs :: "program \<Rightarrow> tct \<Rightarrow> node_id \<Rightarrow> cxt_stmt \<times> fj_val set \<Rightarrow> (node_id \<times> node_id) set" where
  "hp_pairs P t r = (\<lambda>(c, F). if Live \<in> F then Pair r ` forked_nodes P t c \<union> (\<lambda>n. (n, r)) ` forked_nodes P t c else {})"

definition sym_loop :: "program \<Rightarrow> tct \<Rightarrow> node_id \<Rightarrow> cxt_stmt \<Rightarrow> loop option" where
  "sym_loop P t r c = (if join_recorded P t r c then joinSiteToLoopMap t (getStmt c) else None)"

definition fja_logged :: "program \<Rightarrow> tct \<Rightarrow> node_id \<Rightarrow> (cxt_stmt \<times> fj_val set) \<Rightarrow> fork_join \<Rightarrow> fork_join \<Rightarrow> bool" where
  "fja_logged P t r x s s' \<longleftrightarrow> HBPair s' = HBPair s \<union> hb_pairs P t r x \<and> HPPair s' = HPPair s \<union> hp_pairs P t r x \<and>
     (\<forall>d. dj_set s' d = dj_set s d \<union> (if d = fst x \<and> join_recorded P t r d then {r} else {})) \<and>
     (\<forall>d. cxtJoinInLoop s' d = (if d = fst x \<and> sym_loop P t r d \<noteq> None then sym_loop P t r d else cxtJoinInLoop s d)) \<and>
     dirAndIndJoinMap s' = dirAndIndJoinMap s"

lemma frame_logged:
  assumes "fj_frame s s'" "\<not> join_recorded P t r (fst x)" "hb_pairs P t r x = {}" "hp_pairs P t r x = {}"
  shows "fja_logged P t r x s s' \<and> fullJoin s' = fullJoin s \<and> partialJoin s' = partialJoin s"
  using assms by (auto simp: fja_logged_def fj_frame_def dj_set_def sym_loop_def)

text \<open>Recording a join commutes with marking.\<close>

lemma mark_addDirectlyJoinTID:
  "fj_mark d f (addDirectlyJoinTID c r s) = addDirectlyJoinTID c r (fj_mark d f s)"
  by (simp add: fj_mark_def getMarkedFlag_def addDirectlyJoinTID_def set_flag_def fj_push_def split: option.splits prod.splits)

lemma mark_addSymmetricLoopJoin:
  "fj_mark d f (addSymmetricLoopJoin c lp s) = addSymmetricLoopJoin c lp (fj_mark d f s)"
  by (simp add: fj_mark_def getMarkedFlag_def addSymmetricLoopJoin_def set_flag_def fj_push_def split: option.splits prod.splits)

lemma record_join_once:
  "addSymmetricLoopJoin c lp (addDirectlyJoinTID c r (addSymmetricLoopJoin c lp (addDirectlyJoinTID c r s))) =
   addSymmetricLoopJoin c lp (addDirectlyJoinTID c r s)"
  by (simp add: addSymmetricLoopJoin_def addDirectlyJoinTID_def set_insert_def insort_insert_key_def set_insort_key)

lemma join_exits_fold:
  "fold (\<lambda>d s. addSymmetricLoopJoin c lp (fj_mark d TDDead (addDirectlyJoinTID c r s))) ds s =
   (if ds = [] then s else addSymmetricLoopJoin c lp (addDirectlyJoinTID c r (fold (\<lambda>d. fj_mark d TDDead) ds s)))"
proof (induction ds arbitrary: s)
  case (Cons d ds)
  have comm: "fold (\<lambda>d. fj_mark d TDDead) ds (addSymmetricLoopJoin c lp (addDirectlyJoinTID c r s)) =
      addSymmetricLoopJoin c lp (addDirectlyJoinTID c r (fold (\<lambda>d. fj_mark d TDDead) ds s))" for s
    by (induction ds arbitrary: s) (simp_all add: mark_addSymmetricLoopJoin mark_addDirectlyJoinTID)
  have once: "addSymmetricLoopJoin c lp (addDirectlyJoinTID c r (fold (\<lambda>d. fj_mark d TDDead) ds
      (addSymmetricLoopJoin c lp (fj_mark d TDDead (addDirectlyJoinTID c r s))))) =
    addSymmetricLoopJoin c lp (addDirectlyJoinTID c r (fold (\<lambda>d. fj_mark d TDDead) ds (fj_mark d TDDead s)))"
    by (simp add: mark_addDirectlyJoinTID comm record_join_once)
  show ?case
  proof (cases "ds = []")
    case True
    then show ?thesis by (simp add: mark_addDirectlyJoinTID)
  next
    case False
    then show ?thesis using Cons [of "addSymmetricLoopJoin c lp (fj_mark d TDDead (addDirectlyJoinTID c r s))"] once by simp
  qed
qed simp

lemma record_join_simps:
  "flag_of (addDirectlyJoinTID c r s) = flag_of s" "fj_list (addDirectlyJoinTID c r s) = fj_list s"
  "flag_of (addSymmetricLoopJoin c lp s) = flag_of s" "fj_list (addSymmetricLoopJoin c lp s) = fj_list s"
  by (simp_all add: addDirectlyJoinTID_def addSymmetricLoopJoin_def flag_of_def fun_eq_iff)

lemma record_join_flow:
  "fj_ok (addDirectlyJoinTID c r s) = fj_ok s" "fj_flow (addDirectlyJoinTID c r s) = fj_flow s"
  "fj_ok (addSymmetricLoopJoin c lp s) = fj_ok s" "fj_flow (addSymmetricLoopJoin c lp s) = fj_flow s"
  by (simp_all add: fj_ok_def fj_flow_def record_join_simps)

section \<open>Fork and join sites\<close>

lemma fork_edges_log:
  assumes "\<forall>e\<in>set es. getTCTNode_ct t (CxtThread (tct_pushCxt P t (getContext c) i (e_dst e)) i) \<noteq> None" "fj_ok s"
  shows "\<exists>s'. foldM (\<lambda>e s. let ct = CxtThread (tct_pushCxt P t (getContext c) i (e_dst e)) i in
       case getMarkedFlag c s of (f, s1) \<Rightarrow> (case getTCTNode_ct t ct of None \<Rightarrow> None
         | Some n \<Rightarrow> Some (if f \<noteq> TDAlive then addToHBPair r n s1 else addToHPPair r n s1))) es s = Some s' \<and>
    fj_ok s' \<and> fj_flow s' = fj_flow s \<and> flag_of s' = flag_of s \<and>
    (let N = {n. \<exists>e\<in>set es. getTCTNode_ct t (CxtThread (tct_pushCxt P t (getContext c) i (e_dst e)) i) = Some n} in
     fj_frame (s\<lparr>HBPair := HBPair s \<union> (if flag_of s c = TDAlive then {} else Pair r ` N),
       HPPair := HPPair s \<union> (if flag_of s c = TDAlive then Pair r ` N \<union> (\<lambda>n. (n, r)) ` N else {})\<rparr>) s')"
  using assms
proof (induction es arbitrary: s)
  case Nil
  then show ?case by simp
next
  case (Cons e es)
  let ?ct = "\<lambda>e. CxtThread (tct_pushCxt P t (getContext c) i (e_dst e)) i"
  obtain n where n: "getTCTNode_ct t (?ct e) = Some n" using Cons.prems(1) by auto
  obtain f s1 where f: "getMarkedFlag c s = (f, s1)" by (cases "getMarkedFlag c s")
  note F = marked_flag [OF f]
  define s2 where "s2 = (if f \<noteq> TDAlive then addToHBPair r n s1 else addToHPPair r n s1)"
  have s2: "fj_ok s2" "fj_flow s2 = fj_flow s" "flag_of s2 = flag_of s"
    using F Cons.prems(2) by (auto simp: s2_def addToHBPair_def addToHPPair_def fj_ok_def fj_flow_def flag_of_def fun_eq_iff)
  let ?N = "\<lambda>es. {n. \<exists>e\<in>set es. getTCTNode_ct t (?ct e) = Some n}"
  have l: "fj_frame (s\<lparr>HBPair := HBPair s \<union> (if flag_of s c = TDAlive then {} else {(r, n)}),
       HPPair := HPPair s \<union> (if flag_of s c = TDAlive then {(r, n), (n, r)} else {})\<rparr>) s2"
    using F(1,4) by (auto simp: s2_def fj_frame_def addToHBPair_def addToHPPair_def)
  obtain s' where s': "foldM (\<lambda>e s. let ct = ?ct e in
       case getMarkedFlag c s of (f, s1) \<Rightarrow> (case getTCTNode_ct t ct of None \<Rightarrow> None
         | Some n \<Rightarrow> Some (if f \<noteq> TDAlive then addToHBPair r n s1 else addToHPPair r n s1))) es s2 = Some s'"
    "fj_ok s'" "fj_flow s' = fj_flow s" "flag_of s' = flag_of s"
    "fj_frame (s2\<lparr>HBPair := HBPair s2 \<union> (if flag_of s c = TDAlive then {} else Pair r ` ?N es),
       HPPair := HPPair s2 \<union> (if flag_of s c = TDAlive then Pair r ` ?N es \<union> (\<lambda>n. (n, r)) ` ?N es else {})\<rparr>) s'"
    using Cons.IH [of s2] Cons.prems(1) s2 by (auto simp: Let_def)
  have N: "?N (e # es) = insert n (?N es)" using n by auto
  have "fj_frame (s\<lparr>HBPair := HBPair s \<union> (if flag_of s c = TDAlive then {} else Pair r ` ?N (e # es)),
       HPPair := HPPair s \<union> (if flag_of s c = TDAlive then Pair r ` ?N (e # es) \<union> (\<lambda>n. (n, r)) ` ?N (e # es) else {})\<rparr>) s'"
    unfolding N using l s'(5) by (auto simp: fj_frame_def)
  moreover have "foldM (\<lambda>e s. let ct = ?ct e in
       case getMarkedFlag c s of (f, s1) \<Rightarrow> (case getTCTNode_ct t ct of None \<Rightarrow> None
         | Some n \<Rightarrow> Some (if f \<noteq> TDAlive then addToHBPair r n s1 else addToHPPair r n s1))) (e # es) s = Some s'"
    using s'(1) by (simp add: f n Let_def s2_def)
  ultimately show ?case using s'(2-4) by (auto simp: Let_def)
qed


definition fja_local :: "program \<Rightarrow> tct \<Rightarrow> cxt_stmt \<Rightarrow> bool" where
  "fja_local P t c \<longleftrightarrow> forks_known P t c \<and> (\<forall>lp. joinSiteToLoopMap t (getStmt c) = Some lp \<longrightarrow>
     getStmt c \<notin> bb_front P ` set (loop_exits P lp))"

definition visit_result :: "program \<Rightarrow> tct \<Rightarrow> node_id \<Rightarrow> cxt_stmt \<Rightarrow> fork_join \<Rightarrow> fork_join \<Rightarrow> bool" where
  "visit_result P t r c s s' \<longleftrightarrow> fj_ok s' \<and>
     fj_flow s' = visit_flow (fja_own P t r) (fja_ops P t r) c (fst (fj_flow s), insert c (fj_pend s)) \<and>
     fja_logged P t r (c, flag_set (flag_of s c)) s s' \<and> fullJoin s' = fullJoin s \<and> partialJoin s' = partialJoin s"

lemma sim_result:
  assumes h: "sim_ops c h (fja_ops P t r c)" and s: "fj_ok s" "c \<notin> fj_pend s"
    and "fja_own P t r c = {}" and j: "\<not> join_recorded P t r c" "forked_nodes P t c = {}"
  shows "visit_result P t r c s (h s)"
proof -
  have "fj_ok (h s)" "fj_frame s (h s)" "fj_flow (h s) = fold (do_op (flag_set (flag_of s c))) (fja_ops P t r c) (fj_flow s)"
    using h s(1) by (simp_all add: sim_ops_def)
  moreover have "visit_flow (fja_own P t r) (fja_ops P t r) c (fst (fj_flow s), insert c (fj_pend s)) =
      fold (do_op (flag_set (flag_of s c))) (fja_ops P t r c) (fj_flow s)"
    using visit_flow_pure [of "fja_own P t r" c, OF assms(4) s(2)] by (simp add: fj_flow_def)
  moreover have "hb_pairs P t r (c, F) = {}" "hp_pairs P t r (c, F) = {}" for F
    using j(2) by (simp_all add: hb_pairs_def hp_pairs_def)
  ultimately show ?thesis unfolding visit_result_def using frame_logged [of s "h s" P t r "(c, flag_set (flag_of s c))"] j(1) by simp
qed

lemma fork_result:
  assumes f: "td_fork P (getStmt c)" and s: "fj_ok s" "c \<notin> fj_pend s" and k: "forks_known P t c"
  shows "\<exists>s'. fja_handleFork P t c r s = Some s' \<and> visit_result P t r c s s'"
proof -
  let ?i = "getStmt c" and ?F = "flag_set (flag_of s c)"
  have own: "fja_own P t r c = {}" and nj: "\<not> join_recorded P t r c" and sy: "sym_loop P t r c = None"
    using f by (simp_all add: fja_own_def fja_joins_def join_recorded_def sym_loop_def)
  have ops: "fja_ops P t r c = fja_next P t (getContext c) ?i" using f by (simp add: fja_ops_def Let_def)
  let ?hb = "hb_pairs P t r (c, ?F)" and ?hp = "hp_pairs P t r (c, ?F)"
  have "\<exists>s1. (case fork_edges P ?i of None \<Rightarrow> Some s
        | Some es \<Rightarrow> foldM (\<lambda>e s. let ct = CxtThread (tct_pushCxt P t (getContext c) ?i (e_dst e)) ?i in
            case getMarkedFlag c s of (f, s1) \<Rightarrow>
            (case getTCTNode_ct t ct of None \<Rightarrow> None
             | Some n \<Rightarrow> Some (if f \<noteq> TDAlive then addToHBPair r n s1 else addToHPPair r n s1))) es s) = Some s1 \<and>
      fj_ok s1 \<and> fj_flow s1 = fj_flow s \<and> flag_of s1 = flag_of s \<and>
      fj_frame (s\<lparr>HBPair := HBPair s \<union> ?hb, HPPair := HPPair s \<union> ?hp\<rparr>) s1"
  proof (cases "fork_edges P ?i")
    case None
    then show ?thesis using s f by (simp add: hb_pairs_def hp_pairs_def forked_nodes_def)
  next
    case (Some es)
    have "forked_nodes P t c = {n. \<exists>e\<in>set es. getTCTNode_ct t (CxtThread (tct_pushCxt P t (getContext c) ?i (e_dst e)) ?i) = Some n}"
      using f Some by (simp add: forked_nodes_def)
    moreover have "\<forall>e\<in>set es. getTCTNode_ct t (CxtThread (tct_pushCxt P t (getContext c) ?i (e_dst e)) ?i) \<noteq> None"
      using k f Some by (simp add: forks_known_def)
    ultimately show ?thesis using fork_edges_log [of es t P c ?i s r] s(1) Some
      by (cases "flag_of s c = TDAlive") (simp_all add: hb_pairs_def hp_pairs_def Let_def)
  qed
  then obtain s1 where s1: "fja_handleFork P t c r s = Some (fja_handleIntra P t c s1)"
    "fj_ok s1" "fj_flow s1 = fj_flow s" "flag_of s1 = flag_of s"
    "fj_frame (s\<lparr>HBPair := HBPair s \<union> ?hb, HPPair := HPPair s \<union> ?hp\<rparr>) s1"
    using f by (auto simp: fja_handleFork_def Let_def)
  let ?s' = "fja_handleIntra P t c s1"
  have i: "fj_ok ?s'" "fj_frame s1 ?s'" "fj_flow ?s' = fold (do_op ?F) (fja_ops P t r c) (fj_flow s)"
    using sim_handleIntra [of c P t] s1(2-4) ops by (simp_all add: sim_ops_def)
  have "fj_flow ?s' = visit_flow (fja_own P t r) (fja_ops P t r) c (fst (fj_flow s), insert c (fj_pend s))"
    using visit_flow_pure [of "fja_own P t r" c, OF own s(2)] i(3) by (simp add: fj_flow_def)
  moreover have "fj_frame (s\<lparr>HBPair := HBPair s \<union> ?hb, HPPair := HPPair s \<union> ?hp\<rparr>) ?s'"
    by (rule fj_frame_trans [OF s1(5) i(2)])
  then have "fja_logged P t r (c, ?F) s ?s'" "fullJoin ?s' = fullJoin s" "partialJoin ?s' = partialJoin s"
    using nj sy by (auto simp: fja_logged_def fj_frame_def dj_set_def)
  ultimately show ?thesis using s1(1) i(1) by (auto simp: visit_result_def)
qed

lemma join_result_pure:
  assumes h: "sim_ops c h (fja_exits P t r c)" and c: "\<not> td_fork P (getStmt c)" "td_join P (getStmt c)"
    and s: "fj_ok s" "c \<notin> fj_pend s" and j: "\<not> fja_joins P t r c"
  shows "visit_result P t r c s (fja_handleIntra P t c (h s))"
proof -
  have ops: "fja_ops P t r c = fja_exits P t r c @ fja_next P t (getContext c) (getStmt c)"
    using c by (simp add: fja_ops_def Let_def)
  have "sim_ops c (\<lambda>s. fja_handleIntra P t c (h s)) (fja_ops P t r c)"
    unfolding ops by (rule sim_ops_comp [OF h sim_handleIntra])
  from sim_result [OF this s] show ?thesis using j c by (simp add: fja_own_def join_recorded_def forked_nodes_def)
qed

lemma join_result:
  assumes c: "\<not> td_fork P (getStmt c)" "td_join P (getStmt c)"
    and s: "fj_ok s" "c \<notin> fj_pend s" "flag_of s c \<noteq> Empty" and l: "fja_local P t c" and r: "r < length (tctNodes t)"
  shows "\<exists>s'. fja_handleJoin P t c r s = Some s' \<and> visit_result P t r c s s'"
proof -
  let ?i = "getStmt c" and ?F = "flag_set (flag_of s c)"
  have J: "getJoinLoop P t ?i = Some (joinSiteToLoopMap t ?i)" "getGNode t r = Some (tctNodes t ! r)"
    using c r by (simp_all add: getJoinLoop_def getGNode_def)
  have ops: "fja_ops P t r c = fja_exits P t r c @ fja_next P t (getContext c) ?i" using c by (simp add: fja_ops_def Let_def)
  have fn: "forked_nodes P t c = {}" using c by (simp add: forked_nodes_def)
  show ?thesis
  proof (cases "call_edges P ?i")
    case None
    then have "fja_exits P t r c = []" "\<not> fja_joins P t r c" by (auto simp: fja_exits_def fja_joins_def split: option.splits)
    then show ?thesis using join_result_pure [of c "\<lambda>s. s" P t r s] sim_ops_skip c s None
      by (simp add: fja_handleJoin_def Let_def)
  next
    case (Some es)
    show ?thesis
    proof (cases "isAliasedForkJoin P (fork_site_of t r) ?i")
      case False
      then have nj: "\<not> fja_joins P t r c" by (simp add: fja_joins_def)
      show ?thesis
      proof (cases "joinSiteToLoopMap t ?i")
        case None
        then have "fja_exits P t r c = []" by (simp add: fja_exits_def)
        then show ?thesis using join_result_pure [of c "\<lambda>s. s" P t r s] sim_ops_skip c s nj Some J None False
          by (simp add: fja_handleJoin_def Let_def fork_site_of_def)
      next
        case (Some lp)
        let ?h = "fold (\<lambda>eb. fj_mark_from (CxtStmt (getContext c) (bb_front P eb)) c) (rev (loop_exits P lp))"
        have "sim_ops c ?h (concat (map (\<lambda>eb. [Flow (CxtStmt (getContext c) (bb_front P eb))]) (rev (loop_exits P lp))))"
          by (rule sim_ops_fold) (rule sim_ops_mark_from)
        then have "sim_ops c ?h (fja_exits P t r c)"
          using Some nj \<open>call_edges P ?i = Some es\<close> by (simp add: fja_exits_def exit_stmts_def concat_map_singleton comp_def)
        from join_result_pure [OF this c s(1,2) nj] show ?thesis
          using c \<open>call_edges P ?i = Some es\<close> J Some False by (simp add: fja_handleJoin_def Let_def fork_site_of_def)
      qed
    next
      case True
      then have jn: "fja_joins P t r c" using c Some by (simp add: fja_joins_def)
      have sc: "isSameSCEV P (fork_site_of t r) ?i" using True by (simp add: isAliasedForkJoin_def)
      have none: "hb_pairs P t r (c, F) = {}" "hp_pairs P t r (c, F) = {}" for F using fn by (simp_all add: hb_pairs_def hp_pairs_def)
      show ?thesis
      proof (cases "joinSiteToLoopMap t ?i")
        case None
        let ?s1 = "addDirectlyJoinTID c r (fj_mark c TDDead s)" and ?s' = "fja_handleIntra P t c (addDirectlyJoinTID c r (fj_mark c TDDead s))"
        have h: "fja_handleJoin P t c r s = Some ?s'"
          using c Some J None True by (simp add: fja_handleJoin_def Let_def fork_site_of_def)
        have ex: "fja_exits P t r c = []" using None by (simp add: fja_exits_def)
        note M = fj_mark_flow [OF s(1), of TDDead c]
        have ok1: "fj_ok ?s1" using M record_join_flow by simp
        have fl: "flag_of ?s1 c = TDDead" using M by (simp add: record_join_simps)
        have S: "fj_ok ?s'" "fj_frame ?s1 ?s'" "fj_flow ?s' = fold (do_op {Reached}) (fja_ops P t r c) (fj_flow ?s1)"
          using sim_handleIntra [of c P t] ok1 fl ops ex by (simp_all add: sim_ops_def)
        have own: "fja_own P t r c = {Live}" using jn None by (simp add: fja_own_def)
        have fd: "?F - {Live} = {Reached}" using s(3) by (cases "flag_of s c") auto
        have "fj_flow ?s1 = visit_start (fja_own P t r) c (fst (fj_flow s), insert c (fj_pend s))"
          using M own fd s(2,3) by (cases "flag_of s c") (auto simp: visit_start_def fj_flow_def record_join_simps fun_eq_iff)
        then have "fj_flow ?s' = visit_flow (fja_own P t r) (fja_ops P t r) c (fst (fj_flow s), insert c (fj_pend s))"
          using S(3) own fd by (simp add: visit_flow_def fj_flow_def)
        moreover have "fja_logged P t r (c, ?F) s ?s' \<and> fullJoin ?s' = fullJoin s \<and> partialJoin ?s' = partialJoin s"
        proof -
          have "join_recorded P t r c" "sym_loop P t r c = None" using jn None by (simp_all add: join_recorded_def sym_loop_def)
          then show ?thesis using S(2) M none
            by (auto simp: fja_logged_def fj_frame_def dj_set_def addDirectlyJoinTID_def set_insert_def set_insort_insert split: option.splits)
        qed
        ultimately show ?thesis using h S(1) by (auto simp: visit_result_def)
      next
        case lp: (Some lp)
        let ?ds = "exit_stmts P c lp" and ?h = "fold (\<lambda>d. fj_mark d TDDead) (exit_stmts P c lp)"
        define s1 where "s1 = (if ?ds = [] then s else addSymmetricLoopJoin c lp (addDirectlyJoinTID c r (?h s)))"
        have "fold (\<lambda>eb s. let newCts = CxtStmt (getContext c) (bb_front P eb);
                    s1 = addDirectlyJoinTID c r s in
                  if isSameSCEV P (fork_site_of t r) ?i then addSymmetricLoopJoin c lp (fj_mark newCts TDDead s1)
                  else fj_mark c TDAlive s1) (rev (loop_exits P lp)) s = s1"
          unfolding s1_def using sc join_exits_fold [of c lp r ?ds s]
          by (simp add: exit_stmts_def fold_map comp_def Let_def)
        then have h: "fja_handleJoin P t c r s = Some (fja_handleIntra P t c s1)"
          using c Some J lp True by (simp add: fja_handleJoin_def Let_def fork_site_of_def)
        have "c \<notin> set ?ds"
        proof
          assume "c \<in> set ?ds"
          then obtain eb where "eb \<in> set (loop_exits P lp)" "c = CxtStmt (getContext c) (bb_front P eb)"
            by (auto simp: exit_stmts_def)
          then have "?i \<in> bb_front P ` set (loop_exits P lp)" by (metis cxt_stmt.sel(2) imageI)
          then show False using l lp by (simp add: fja_local_def)
        qed
        then have "sim_ops c ?h (concat (map (\<lambda>d. [Put d {Reached}, Kill d {Live}]) ?ds))"
          by (intro sim_ops_fold sim_ops_dead) auto
        then have sim: "sim_ops c ?h (fja_exits P t r c)" using lp jn Some by (simp add: fja_exits_def)
        have f1: "fj_ok s1" "fj_flow s1 = fold (do_op ?F) (fja_exits P t r c) (fj_flow s)" "flag_of s1 c = flag_of s c"
        proof -
          have e: "fja_exits P t r c = []" if "?ds = []" using that lp jn Some by (simp add: fja_exits_def)
          show "fj_ok s1" "fj_flow s1 = fold (do_op ?F) (fja_exits P t r c) (fj_flow s)" "flag_of s1 c = flag_of s c"
            using sim s(1) sim_ops_flag [OF sim s(1)] e by (auto simp: s1_def sim_ops_def record_join_flow record_join_simps)
        qed
        let ?s' = "fja_handleIntra P t c s1"
        have S: "fj_ok ?s'" "fj_frame s1 ?s'" "fj_flow ?s' = fold (do_op ?F) (fja_ops P t r c) (fj_flow s)"
          using sim_handleIntra [of c P t] f1 ops by (simp_all add: sim_ops_def)
        have own: "fja_own P t r c = {}" using lp by (simp add: fja_own_def)
        have "fj_flow ?s' = visit_flow (fja_own P t r) (fja_ops P t r) c (fst (fj_flow s), insert c (fj_pend s))"
          using visit_flow_pure [of "fja_own P t r" c, OF own s(2)] S(3) by (simp add: fj_flow_def)
        moreover have "fja_logged P t r (c, ?F) s ?s' \<and> fullJoin ?s' = fullJoin s \<and> partialJoin ?s' = partialJoin s"
        proof (cases "?ds = []")
          case True
          then have "\<not> join_recorded P t r c" using lp by (simp add: join_recorded_def exit_stmts_def)
          then show ?thesis using frame_logged [of s ?s' P t r "(c, ?F)"] none S(2) True by (simp add: s1_def)
        next
          case False
          then have "join_recorded P t r c" "sym_loop P t r c = Some lp"
            using lp jn by (simp_all add: join_recorded_def sym_loop_def exit_stmts_def)
          moreover have "fj_frame s (?h s)" using sim s(1) by (simp add: sim_ops_def)
          ultimately show ?thesis using S(2) none False
            by (auto simp: s1_def fja_logged_def fj_frame_def dj_set_def addDirectlyJoinTID_def addSymmetricLoopJoin_def
                set_insert_def set_insort_insert split: option.splits)
        qed
        ultimately show ?thesis using h S(1) by (auto simp: visit_result_def)
      qed
    qed
  qed
qed

end
