(* ===== verification/ForkJoinResult.thy ===== *)
theory ForkJoinResult
  imports ForkJoinFlow
begin

text \<open>
  The fork-join analysis as a whole: it ends, and its results lie between two bounds given by
  control-flow paths from the fork of a thread on.
\<close>

section \<open>One thread\<close>

lemma fja_ops_cases:
  assumes "x \<in> set (fja_ops P t r c)"
  obtains d where "x = Flow d" | d lp where "joinSiteToLoopMap t (getStmt c) = Some lp" "d \<in> set (exit_stmts P c lp)"
    "x = Put d {Reached} \<or> x = Kill d {Live}"
proof -
  have "(\<exists>d. x = Flow d) \<or> (\<exists>d lp. joinSiteToLoopMap t (getStmt c) = Some lp \<and> d \<in> set (exit_stmts P c lp) \<and>
      (x = Put d {Reached} \<or> x = Kill d {Live}))"
    using assms by (auto simp: fja_ops_def Let_def fja_next_def fja_exits_def fja_calls_def fja_returns_def
        fja_return_ops_def split: if_splits option.splits prod.splits bool.splits)
  then show thesis using that by blast
qed

lemma exit_stmt_other:
  assumes "fja_local P t c" "joinSiteToLoopMap t (getStmt c) = Some lp" "d \<in> set (exit_stmts P c lp)"
  shows "d \<noteq> c"
proof
  assume "d = c"
  have "\<exists>eb\<in>set (loop_exits P lp). getStmt d = bb_front P eb" using assms(3) by (auto simp: exit_stmts_def)
  then obtain eb where "eb \<in> set (loop_exits P lp)" "getStmt c = bb_front P eb" using \<open>d = c\<close> by blast
  then show False using assms(1,2) by (auto simp: fja_local_def)
qed

lemma fja_ops_self:
  assumes "fja_local P t c" "x \<in> set (fja_ops P t r c)" "flow_target x = c"
  shows "x = Flow c"
  using assms(2)
proof (cases rule: fja_ops_cases)
  case (1 d)
  then show ?thesis using assms(3) by simp
next
  case (2 d lp)
  then show ?thesis using exit_stmt_other [OF assms(1) 2(1,2)] assms(3) by auto
qed

definition full_pairs :: "program \<Rightarrow> tct \<Rightarrow> node_id \<Rightarrow> inst \<Rightarrow> cxt_stmt \<times> fj_val set \<Rightarrow> (node_id \<times> node_id) set" where
  "full_pairs P t r e = (\<lambda>(c, F). if getStmt c = e \<and> Live \<notin> F - fja_own P t r c then {(the (getParentThread t r), r)} else {})"

definition part_pairs :: "program \<Rightarrow> tct \<Rightarrow> node_id \<Rightarrow> inst \<Rightarrow> cxt_stmt \<times> fj_val set \<Rightarrow> (node_id \<times> node_id) set" where
  "part_pairs P t r e = (\<lambda>(c, F). if getStmt c = e \<and> Live \<in> F - fja_own P t r c then {(the (getParentThread t r), r)} else {})"

definition fja_run_log :: "program \<Rightarrow> tct \<Rightarrow> node_id \<Rightarrow> inst \<Rightarrow> (cxt_stmt \<times> fj_val set) set \<Rightarrow> fork_join \<Rightarrow> fork_join \<Rightarrow> bool" where
  "fja_run_log P t r e G s s' \<longleftrightarrow>
     HBPair s' = HBPair s \<union> \<Union>(hb_pairs P t r ` G) \<and> HPPair s' = HPPair s \<union> \<Union>(hp_pairs P t r ` G) \<and>
     fullJoin s' = fullJoin s \<union> \<Union>(full_pairs P t r e ` G) \<and> partialJoin s' = partialJoin s \<union> \<Union>(part_pairs P t r e ` G) \<and>
     (\<forall>d. dj_set s' d = dj_set s d \<union> (if join_recorded P t r d \<and> d \<in> fst ` G then {r} else {})) \<and>
     (\<forall>d. cxtJoinInLoop s' d = (if sym_loop P t r d \<noteq> None \<and> d \<in> fst ` G then sym_loop P t r d else cxtJoinInLoop s d)) \<and>
     dirAndIndJoinMap s' = dirAndIndJoinMap s"

definition fja_repr :: "program \<Rightarrow> tct \<Rightarrow> node_id \<Rightarrow> inst \<Rightarrow> cxt_stmt set \<Rightarrow> fork_join \<Rightarrow> fork_join \<Rightarrow> (cxt_stmt, fj_val) flow_log \<Rightarrow> bool" where
  "fja_repr P t r e U s0 s a \<longleftrightarrow> fj_ok s \<and> fj_flow s = fst a \<and> fja_run_log P t r e (snd a) s0 s \<and>
     snd (fst a) \<subseteq> U \<and> (\<forall>c\<in>U. fja_local P t c \<and> flow_target ` set (fja_ops P t r c) \<subseteq> U) \<and>
     r < length (tctNodes t) \<and> getParentThread t r \<noteq> None"

lemma fja_run_log_step:
  assumes g: "fja_run_log P t r e G s0 s" and l: "fja_logged P t r x s s1"
    and f: "fullJoin s' = fullJoin s \<union> full_pairs P t r e x" "partialJoin s' = partialJoin s \<union> part_pairs P t r e x"
    and s': "HBPair s' = HBPair s1" "HPPair s' = HPPair s1" "directJoinMap s' = directJoinMap s1"
      "cxtJoinInLoop s' = cxtJoinInLoop s1" "dirAndIndJoinMap s' = dirAndIndJoinMap s1"
  shows "fja_run_log P t r e (insert x G) s0 s'"
proof -
  have dj: "dj_set s' d = dj_set s1 d" for d using s'(3) by (simp add: dj_set_def)
  have "dj_set s' d = dj_set s0 d \<union> (if join_recorded P t r d \<and> d \<in> fst ` insert x G then {r} else {})" for d
    using g l unfolding dj fja_run_log_def fja_logged_def by auto
  moreover have "cxtJoinInLoop s' d = (if sym_loop P t r d \<noteq> None \<and> d \<in> fst ` insert x G then sym_loop P t r d else cxtJoinInLoop s0 d)" for d
    using g l unfolding s'(4) fja_run_log_def fja_logged_def by auto
  ultimately show ?thesis using g l f s'(1,2,5) unfolding fja_run_log_def fja_logged_def by auto
qed

lemma fja_step_visit:
  assumes R: "fja_repr P t r e U s0 s a" and g: "\<not> fifo_empty (fj_list s)"
  shows "\<exists>c s'. c \<in> snd (fst a) \<and> fja_step P t r e s = Some (Some s') \<and>
    fja_repr P t r e U s0 s' (visit_log (fja_own P t r) (fja_ops P t r) c a)"
proof -
  obtain l W G where a: "a = ((l, W), G)" by (metis prod.exhaust)
  have ok: "fj_ok s" and fl: "l = (\<lambda>c. flag_set (flag_of s c))" "W = fj_pend s" and log: "fja_run_log P t r e G s0 s"
    and U: "W \<subseteq> U" "\<And>c. c \<in> U \<Longrightarrow> fja_local P t c \<and> flow_target ` set (fja_ops P t r c) \<subseteq> U"
    and r: "r < length (tctNodes t)" "getParentThread t r \<noteq> None"
    using R by (simp_all add: fja_repr_def a fj_flow_def)
  have f: "fifo_inv (fj_list s)" using ok by (simp add: fj_ok_def)
  obtain c w where p: "fifo_pop (fj_list s) = Some (c, w)"
    using g fifo.pop_None [OF f] by (cases "fifo_pop (fj_list s)") (auto simp: fifo_empty_def)
  have w: "fifo_inv w" "c \<in> fj_pend s" "set (data_list w) = fj_pend s - {c}"
    using fifo.pop_Some [OF f p] fifo.pop_set [OF f p] by auto
  let ?s = "s\<lparr>fj_list := w\<rparr>"
  have s: "fj_ok ?s" "c \<notin> fj_pend ?s" "flag_of ?s = flag_of s" "flag_of s c \<noteq> Empty"
    using ok w by (auto simp: fj_ok_def flag_of_def fun_eq_iff)
  have cU: "c \<in> U" using w(2) U(1) fl(2) by blast
  note loc = conjunct1 [OF U(2) [OF cU]]
  let ?F = "flag_set (flag_of s c)" and ?i = "getStmt c"
  have "\<exists>s1. fja_dispatch P t r c ?s = Some s1 \<and> visit_result P t r c ?s s1"
  proof (cases "td_fork P ?i")
    case True
    then show ?thesis using fork_result [OF True s(1,2)] loc by (simp add: fja_dispatch_def fja_local_def)
  next
    case nf: False
    show ?thesis
    proof (cases "td_join P ?i")
      case True
      then show ?thesis using join_result [OF nf True s(1,2)] s(3,4) loc r(1) nf by (simp add: fja_dispatch_def)
    next
      case nj: False
      have x: "fja_own P t r c = {}" "\<not> join_recorded P t r c" "forked_nodes P t c = {}"
        using nf nj by (simp_all add: fja_own_def fja_joins_def join_recorded_def forked_nodes_def)
      note res = sim_result [OF _ s(1,2) x]
      consider "is_call P ?i \<and> callee_candidate P t ?i" | "\<not> (is_call P ?i \<and> callee_candidate P t ?i)" "is_return P ?i"
        | "\<not> (is_call P ?i \<and> callee_candidate P t ?i)" "\<not> is_return P ?i" by blast
      then show ?thesis
      proof cases
        case 1
        then have "sim_ops c (fja_handleCall P t c) (fja_ops P t r c)" using sim_handleCall nf nj by (simp add: fja_ops_def Let_def)
        then show ?thesis using res 1 nf nj by (simp add: fja_dispatch_def)
      next
        case 2
        then have "sim_ops c (fja_handleRet P t c) (fja_ops P t r c)" using sim_handleRet nf nj by (auto simp: fja_ops_def Let_def)
        then show ?thesis using res 2 nf nj by (auto simp: fja_dispatch_def Let_def)
      next
        case 3
        then have "sim_ops c (fja_handleIntra P t c) (fja_ops P t r c)" using sim_handleIntra nf nj by (auto simp: fja_ops_def Let_def)
        then show ?thesis using res 3 nf nj by (auto simp: fja_dispatch_def Let_def)
      qed
    qed
  qed
  then obtain s1 where d: "fja_dispatch P t r c ?s = Some s1" and v: "visit_result P t r c ?s s1" by blast
  have s1: "fj_ok s1" "fj_flow s1 = visit_flow (fja_own P t r) (fja_ops P t r) c (l, W)"
    "fja_logged P t r (c, ?F) s s1" "fullJoin s1 = fullJoin s" "partialJoin s1 = partialJoin s"
  proof -
    have "insert c (fj_pend ?s) = W" using w fl(2) by auto
    then show "fj_flow s1 = visit_flow (fja_own P t r) (fja_ops P t r) c (l, W)"
      using v by (simp add: visit_result_def fj_flow_def s(3) fl(1))
    show "fja_logged P t r (c, ?F) s s1"
      using v s(3) by (simp add: visit_result_def fja_logged_def dj_set_def cong: if_cong)
  qed (use v in \<open>simp_all add: visit_result_def\<close>)
  have own: "flag_set (flag_of s1 c) = ?F - fja_own P t r c"
  proof -
    have "fst (fj_flow s1) c = l c - fja_own P t r c"
      unfolding s1(2) using visit_flow_own [of "fja_ops P t r" c] fja_ops_self [OF loc] by simp
    then show ?thesis by (simp add: fj_flow_def fl(1))
  qed
  have vl: "visit_log (fja_own P t r) (fja_ops P t r) c a = (fj_flow s1, insert (c, ?F) G)"
    by (simp add: visit_log_def a s1(2) fl(1))
  have WU: "snd (fj_flow s1) \<subseteq> U"
    using visit_flow_pend [of "fja_own P t r" "fja_ops P t r" c "(l, W)"] U cU unfolding s1(2) by fastforce
  show ?thesis
  proof (cases "?i = e")
    case False
    then have fp: "full_pairs P t r e (c, ?F) = {}" "part_pairs P t r e (c, ?F) = {}" by (simp_all add: full_pairs_def part_pairs_def)
    have "fja_run_log P t r e (insert (c, ?F) G) s0 s1"
      by (rule fja_run_log_step [OF log s1(3)]) (simp_all add: s1(4,5) fp)
    then have "fja_repr P t r e U s0 s1 (visit_log (fja_own P t r) (fja_ops P t r) c a)"
      using s1(1) WU U(2) r unfolding vl by (simp add: fja_repr_def)
    moreover have "fja_step P t r e s = Some (Some s1)" using False d by (simp add: fja_step_def p fja_visit_def)
    ultimately show ?thesis using w(2) fl(2) by (auto simp: a)
  next
    case True
    obtain f s2 where f: "getMarkedFlag c s1 = (f, s2)" by (cases "getMarkedFlag c s1")
    note F = marked_flag [OF f]
    obtain q where q: "getParentThread t r = Some q" using r(2) by blast
    define s3 where "s3 = (if f \<noteq> TDAlive then addToFullJoin q r s2 else addToPartial q r s2)"
    have live: "f = TDAlive \<longleftrightarrow> Live \<in> ?F - fja_own P t r c" unfolding own [symmetric] F(1) by simp
    have s3: "fullJoin s3 = fullJoin s2 \<union> full_pairs P t r e (c, ?F)" "partialJoin s3 = partialJoin s2 \<union> part_pairs P t r e (c, ?F)"
      "HBPair s3 = HBPair s2" "HPPair s3 = HPPair s2" "directJoinMap s3 = directJoinMap s2"
      "cxtJoinInLoop s3 = cxtJoinInLoop s2" "dirAndIndJoinMap s3 = dirAndIndJoinMap s2"
      "fj_ok s3 = fj_ok s2" "fj_flow s3 = fj_flow s2"
      using live True q by (auto simp: s3_def addToFullJoin_def addToPartial_def full_pairs_def part_pairs_def
          fj_ok_def fj_flow_def flag_of_def)
    have "fja_run_log P t r e (insert (c, ?F) G) s0 s3"
      by (rule fja_run_log_step [OF log s1(3)]) (use F(4) s3 s1(4,5) in \<open>simp_all add: fj_frame_def\<close>)
    then have "fja_repr P t r e U s0 s3 (visit_log (fja_own P t r) (fja_ops P t r) c a)"
      using s1(1) WU U(2) r F(2,3) s3(8,9) unfolding vl by (simp add: fja_repr_def)
    moreover have "fja_step P t r e s = Some (Some s3)" using True d f q by (simp add: fja_step_def p fja_visit_def s3_def)
    ultimately show ?thesis using w(2) fl(2) by (auto simp: a)
  qed
qed

interpretation fja: propagation "fja_own P t r" "fja_ops P t r" "\<lambda>s. \<not> fifo_empty (fj_list s)"
  "fja_step P t r e" "fja_repr P t r e U s0"
  for P t r e U s0
proof (unfold_locales, goal_cases)
  case (1 s a)
  then have "snd (fst a) = fj_pend s" by (simp add: fja_repr_def fj_flow_def prod_eq_iff)
  then show ?case by (simp add: fifo_empty_def)
next
  case (2 s a)
  then show ?case by (rule fja_step_visit)
qed


section \<open>Control flow from a fork\<close>

text \<open>
  The statements after the fork of thread \<open>r\<close> hold both values at the start. \<open>fja_may\<close> follows
  all control flow except out of a join site that joins the thread; \<open>fja_must\<close> moreover avoids
  every statement where \<open>Live\<close> may be lost.
\<close>

definition fja_cxt :: "tct \<Rightarrow> node_id \<Rightarrow> call_str_cxt" where
  "fja_cxt t r = the (getCxtOfCxtThread t (tn_ctx (tctNodes t ! r)))"

definition fja_exit :: "program \<Rightarrow> tct \<Rightarrow> node_id \<Rightarrow> inst" where
  "fja_exit P t r = the (getExitInstOfParentRoutineFun P t r)"

definition fja_seeds :: "program \<Rightarrow> tct \<Rightarrow> node_id \<Rightarrow> cxt_stmt set" where
  "fja_seeds P t r = CxtStmt (fja_cxt t r) ` set (tct_getNextInsts P t (fork_site_of t r))"

definition fja_may :: "program \<Rightarrow> tct \<Rightarrow> node_id \<Rightarrow> cxt_stmt \<Rightarrow> fj_val \<Rightarrow> bool" where
  "fja_may P t r = may_hold (fja_own P t r) (fja_ops P t r) (fja_seeds P t r \<times> UNIV)"

definition fja_must :: "program \<Rightarrow> tct \<Rightarrow> node_id \<Rightarrow> cxt_stmt \<Rightarrow> fj_val \<Rightarrow> bool" where
  "fja_must P t r = must_hold (fja_own P t r) (fja_ops P t r) (fja_seeds P t r \<times> UNIV)"

definition fja_stmts :: "program \<Rightarrow> tct \<Rightarrow> node_id \<Rightarrow> cxt_stmt set" where
  "fja_stmts P t r = reach (\<lambda>c. flow_target ` set (fja_ops P t r c)) (fja_seeds P t r)"

definition fja_lossy :: "program \<Rightarrow> tct \<Rightarrow> node_id \<Rightarrow> cxt_stmt \<Rightarrow> bool" where
  "fja_lossy P t r c \<longleftrightarrow> may_lose (fja_own P t r) (fja_ops P t r) c Live"

text \<open>
  What the analysis relies on: finitely many statements are reached under finitely many
  contexts, the threads forked there are nodes, no join site is the exit of its own loop, and
  no cycle of the control flow consists of statements that lose \<open>Live\<close> only.
\<close>

definition fja_ready :: "program \<Rightarrow> tct \<Rightarrow> (cxt_stmt \<Rightarrow> nat) \<Rightarrow> bool" where
  "fja_ready P t rk \<longleftrightarrow> (\<forall>r<length (tctNodes t). r \<noteq> 0 \<longrightarrow> finite (fja_stmts P t r) \<and>
     (\<forall>c\<in>fja_stmts P t r. fja_local P t c \<and> (\<forall>d\<in>flow_target ` set (fja_ops P t r c).
        fja_lossy P t r c \<longrightarrow> fja_lossy P t r d \<longrightarrow> d \<noteq> c \<longrightarrow> rk d < rk c)))"

lemma fj_val_UNIV: "UNIV = {Reached, Live}"
  using fj_val.exhaust by blast

lemma fja_kills:
  assumes "Kill y S \<in> set (fja_ops P t r c)"
  shows "S = {Live}"
  using assms by (cases rule: fja_ops_cases) auto

lemma fja_puts:
  assumes "Put y S \<in> set (fja_ops P t r c)"
  shows "S = {Reached}"
  using assms by (cases rule: fja_ops_cases) auto

lemma reached_kept: "\<not> may_lose (fja_own P t r) (fja_ops P t r) c Reached"
proof -
  have "Reached \<notin> S" if "Kill c S \<in> set (fja_ops P t r d)" for d S using fja_kills [OF that] by simp
  moreover have "Reached \<notin> fja_own P t r c" by (simp add: fja_own_def)
  ultimately show ?thesis unfolding may_lose_def by blast
qed

lemma fja_ready_flow_ok:
  assumes R: "fja_ready P t rk" and r: "r < length (tctNodes t)" "r \<noteq> 0"
  shows "flow_ok (fja_own P t r) (fja_ops P t r) (fja_stmts P t r) UNIV {c. fja_lossy P t r c} rk"
proof -
  have cl: "flow_target ` set (fja_ops P t r c) \<subseteq> fja_stmts P t r" if "c \<in> fja_stmts P t r" for c
    unfolding fja_stmts_def by (intro subsetI) (rule reach_step [OF that [unfolded fja_stmts_def]])
  have R: "finite (fja_stmts P t r)" "\<And>c. c \<in> fja_stmts P t r \<Longrightarrow> fja_local P t c"
    "\<And>c d. c \<in> fja_stmts P t r \<Longrightarrow> d \<in> flow_target ` set (fja_ops P t r c) \<Longrightarrow> fja_lossy P t r c \<Longrightarrow> fja_lossy P t r d \<Longrightarrow>
      d \<noteq> c \<Longrightarrow> rk d < rk c" using R r unfolding fja_ready_def by blast+
  have own: "fja_lossy P t r c" if "fja_own P t r c \<noteq> {}" for c
    using that by (auto simp: fja_lossy_def may_lose_def fja_own_def split: if_splits)
  have kill: "fja_lossy P t r y" if "Kill y S \<in> set (fja_ops P t r c)" for c y S
    using that fja_kills [OF that] by (auto simp: fja_lossy_def may_lose_def)
  show ?thesis
    unfolding flow_ok_def
  proof (intro conjI ballI allI impI)
    show "finite (UNIV :: fj_val set)" by (simp add: fj_val_UNIV)
    show "finite (fja_stmts P t r)" by (rule R(1))
    fix c x assume c: "c \<in> fja_stmts P t r" and x: "x \<in> set (fja_ops P t r c)"
    show "flow_target x \<in> fja_stmts P t r" using cl [OF c] x by blast
    show "flow_target x = c \<Longrightarrow> x = Flow c" by (rule fja_ops_self [OF R(2) [OF c] x])
  next
    fix c x assume c: "c \<in> fja_stmts P t r \<inter> {c. fja_lossy P t r c}" and x: "x \<in> set (fja_ops P t r c)"
      and l: "flow_target x \<in> {c. fja_lossy P t r c}" and n: "flow_target x \<noteq> c"
    show "rk (flow_target x) < rk c" by (rule R(3)) (use c x l n in auto)
  qed (use own kill in auto)
qed

lemma marks_alive:
  assumes "fj_ok s"
  shows "let s' = fold (\<lambda>d. fj_mark d TDAlive) ds s in fj_ok s' \<and> fj_frame s s' \<and>
    flag_of s' = (\<lambda>d. if d \<in> set ds then TDAlive else flag_of s d) \<and>
    fj_pend s' = fj_pend s \<union> {d \<in> set ds. flag_of s d \<noteq> TDAlive}"
  using assms
proof (induction ds arbitrary: s)
  case Nil
  then show ?case by simp
next
  case (Cons d ds)
  note M = fj_mark_flow [OF Cons.prems, of TDAlive d]
  have I: "let s' = fold (\<lambda>d. fj_mark d TDAlive) ds (fj_mark d TDAlive s) in fj_ok s' \<and> fj_frame (fj_mark d TDAlive s) s' \<and>
    flag_of s' = (\<lambda>e. if e \<in> set ds then TDAlive else flag_of (fj_mark d TDAlive s) e) \<and>
    fj_pend s' = fj_pend (fj_mark d TDAlive s) \<union> {e \<in> set ds. flag_of (fj_mark d TDAlive s) e \<noteq> TDAlive}"
    by (rule Cons.IH) (use M in simp)
  have "fj_frame s (fj_mark d TDAlive s)" using M by simp
  note fr = fj_frame_trans [OF this]
  show ?case using I M fr by (auto simp: Let_def fun_eq_iff)
qed

lemma fja_seed_effect:
  assumes "fj_ok s" "\<And>c. flag_of s c = Empty" "fj_pend s = {}"
  shows "fj_ok (fja_seed P t cxt i s) \<and> fj_frame s (fja_seed P t cxt i s) \<and>
    fj_flow (fja_seed P t cxt i s) = (\<lambda>d. if d \<in> CxtStmt cxt ` set (tct_getNextInsts P t i) then UNIV else {},
      CxtStmt cxt ` set (tct_getNextInsts P t i))"
proof -
  have "fja_seed P t cxt i s = fold (\<lambda>d. fj_mark d TDAlive) (map (CxtStmt cxt) (tct_getNextInsts P t i)) s"
    by (simp add: fja_seed_def fold_map comp_def)
  then show ?thesis using marks_alive [OF assms(1), of "map (CxtStmt cxt) (tct_getNextInsts P t i)"] assms(2,3)
    by (auto simp: Let_def fj_flow_def fj_val_UNIV fun_eq_iff)
qed

lemma may_reached: "fja_may P t r c v \<Longrightarrow> fja_must P t r c Reached"
  unfolding fja_may_def fja_must_def
proof (induction rule: may_hold.induct)
  case (may_seed y v)
  then have "(y, Reached) \<in> fja_seeds P t r \<times> UNIV" by simp
  then show ?case by (rule must_seed [OF _ reached_kept])
next
  case (may_flow c v y)
  show ?case by (rule must_flow [OF may_flow.IH may_flow.hyps(3) reached_kept])
next
  case (may_put c w y S v)
  have "Reached \<in> S" using fja_puts [OF may_put.hyps(2)] by simp
  then show ?case by (rule must_put [OF may_put.IH may_put.hyps(2) _ reached_kept])
qed

lemma must_not_lost: "must_hold own ops A c v \<Longrightarrow> \<not> may_lose own ops c v"
  by (induction rule: must_hold.induct) auto

lemma must_may: "must_hold own ops A c v \<Longrightarrow> may_hold own ops A c v"
proof (induction rule: must_hold.induct)
  case (must_seed y v)
  show ?case by (rule may_seed [OF must_seed(1)])
next
  case (must_flow c v y)
  have "v \<notin> own c" using must_not_lost [OF must_flow.hyps(1)] by (simp add: may_lose_def)
  then show ?case by (rule may_flow [OF must_flow.IH _ must_flow.hyps(2)])
next
  case (must_put c w y S v)
  show ?case by (rule may_put [OF must_put.IH must_put.hyps(2,3)])
qed

text \<open>The log of a run of one thread.\<close>

definition fja_log_ok :: "program \<Rightarrow> tct \<Rightarrow> node_id \<Rightarrow> (cxt_stmt \<times> fj_val set) set \<Rightarrow> bool" where
  "fja_log_ok P t r G \<longleftrightarrow> (\<forall>(c, F)\<in>G. fja_may P t r c Reached \<and> (\<forall>v\<in>F. fja_may P t r c v)) \<and>
     (\<forall>c v. fja_must P t r c v \<longrightarrow> (\<exists>F. (c, F) \<in> G \<and> v \<in> F))"

lemma fja_log_reached:
  assumes "fja_log_ok P t r G"
  shows "c \<in> fst ` G \<longleftrightarrow> fja_may P t r c Reached"
proof
  assume "c \<in> fst ` G"
  then show "fja_may P t r c Reached" using assms by (auto simp: fja_log_ok_def)
next
  assume "fja_may P t r c Reached"
  from may_reached [OF this] obtain F where "(c, F) \<in> G" using assms unfolding fja_log_ok_def by blast
  then show "c \<in> fst ` G" by (metis fst_conv imageI)
qed


lemma fja_root_main: "fja_root P t 0 s = Some (Some (clearFlagMap s))"
  if "tct_shape P C rt t" "0 < length (tctNodes t)"
proof -
  have "tree_node P C rt t 0" using that by (simp add: tct_shape_def)
  then have "ct_forksite (tn_ctx (tctNodes t ! 0)) = null_inst"
    by (auto simp: tree_node_def node_key_def ct_key_def split: if_splits)
  then show ?thesis using that(2) by (simp add: fja_root_def getGNode_def Let_def)
qed

lemma clear_simps:
  "fj_ok (clearFlagMap s)" "flag_of (clearFlagMap s) c = Empty" "fj_pend (clearFlagMap s) = {}" "fj_frame s (clearFlagMap s)"
  by (auto simp: clearFlagMap_def fj_ok_def flag_of_def fj_frame_def fifo_clear_def fifo_inv_def)

lemma thread_known:
  assumes sh: "tct_shape P C rt t" and r: "r < length (tctNodes t)" "r \<noteq> 0"
  obtains p where "getParentThread t r = Some p" "fork_site_of t r \<noteq> null_inst"
    "getCxtOfCxtThread t (tn_ctx (tctNodes t ! r)) = Some (fja_cxt t r)"
    "getExitInstOfParentRoutineFun P t r = Some (fja_exit P t r)"
proof -
  obtain p where p: "getParentThread t r = Some p" "p < r" by (rule getParentThread_edge [OF sh r])
  have "tree_node P C rt t r" "tn_in (tctNodes t ! r) \<noteq> []"
    using sh r tree_root [OF sh r(1)] by (simp_all add: tct_shape_def)
  then have f: "fork_site_of t r \<noteq> null_inst"
    by (auto simp: tree_node_def fork_site_of_def node_key_def ct_key_def split: if_splits)
  have K: "keys_ok t" using sh by (simp add: tct_shape_def)
  have d: "getCxtOfCxtThread t (tn_ctx (tctNodes t ! n)) \<noteq> None \<and> getStartRoutineOfCxtThread t (tn_ctx (tctNodes t ! n)) \<noteq> None"
    if n: "n < length (tctNodes t)" for n
  proof -
    have "ctpToNodeMap t (node_key t n) = Some n" using K n unfolding keys_ok_def by blast
    then have "node_key t n \<in> dom (ctpToNodeMap t)" by (rule domI)
    then have "node_key t n \<in> dom (ctToForkCxtMap t)" "node_key t n \<in> dom (ctToRoutineFunMap t)"
      using K by (simp_all only: keys_ok_def)
    then show ?thesis by (auto simp: getCxtOfCxtThread_def getStartRoutineOfCxtThread_def node_key_def)
  qed
  have "p < length (tctNodes t)" using p(2) r(1) by simp
  then have "getExitInstOfParentRoutineFun P t r \<noteq> None"
    using p(1) d [of p] by (auto simp: getExitInstOfParentRoutineFun_def getGNode_def)
  then show thesis using that [OF p(1) f] d [OF r(1)] by (simp add: fja_cxt_def fja_exit_def)
qed

lemma fja_root_run:
  assumes sh: "tct_shape P C rt t" and R: "fja_ready P t rk" and r: "r < length (tctNodes t)" "r \<noteq> 0"
  shows "\<exists>s' G. fja_root P t r s = Some (Some s') \<and> fja_run_log P t r (fja_exit P t r) G s s' \<and> fja_log_ok P t r G"
proof -
  obtain p where p: "getParentThread t r = Some p" "fork_site_of t r \<noteq> null_inst"
    "getCxtOfCxtThread t (tn_ctx (tctNodes t ! r)) = Some (fja_cxt t r)"
    "getExitInstOfParentRoutineFun P t r = Some (fja_exit P t r)" by (rule thread_known [OF sh r])
  let ?e = "fja_exit P t r" and ?U = "fja_stmts P t r" and ?own = "fja_own P t r" and ?ops = "fja_ops P t r"
  let ?S = "fja_seeds P t r" and ?s1 = "fja_seed P t (fja_cxt t r) (fork_site_of t r) (clearFlagMap s)"
  let ?A = "?S \<times> (UNIV :: fj_val set)" and ?a = "((\<lambda>d. if d \<in> ?S then (UNIV :: fj_val set) else {}, ?S), {})"
  have se: "fj_ok ?s1" "fj_frame (clearFlagMap s) ?s1" "fj_flow ?s1 = fst ?a"
    using fja_seed_effect [OF clear_simps(1,2,3)] by (simp_all add: fja_seeds_def)
  have fr: "fj_frame s ?s1" by (rule fj_frame_trans [OF clear_simps(4) se(2)])
  have SU: "?S \<subseteq> ?U" by (auto simp: fja_stmts_def)
  have cl: "flow_target ` set (?ops c) \<subseteq> ?U" if "c \<in> ?U" for c
    unfolding fja_stmts_def by (intro subsetI) (rule reach_step [OF that [unfolded fja_stmts_def]])
  have loc: "fja_local P t c" if "c \<in> ?U" for c using R r that unfolding fja_ready_def by blast
  have "fja_run_log P t r ?e {} s ?s1" using fr by (simp add: fja_run_log_def fj_frame_def dj_set_def)
  then have rp: "fja_repr P t r ?e ?U s ?s1 ?a"
    using se(1,3) SU cl loc r(1) p(1) by (simp add: fja_repr_def)
  have fi: "flow_in ?U UNIV (fst ?a)" using SU by (simp add: flow_in_def)
  have may: "may_inv ?own ?ops ?A ?a" by (auto simp: may_inv_def intro: may_seed)
  have must: "must_inv ?own ?ops ?A ?a" by (auto simp: must_inv_def)
  obtain s' a' where run: "while_run (\<lambda>s. \<not> fifo_empty (fj_list s)) (fja_step P t r ?e) ?s1 = Some (Some s')"
    "fja_repr P t r ?e ?U s s' a'"
    "\<forall>(y, F)\<in>snd a'. (\<exists>w. may_hold ?own ?ops ?A y w) \<and> (\<forall>v\<in>F. may_hold ?own ?ops ?A y v)"
    "\<forall>y v. must_hold ?own ?ops ?A y v \<longrightarrow> v \<in> fst (fst a') y \<and> (\<exists>F. (y, F) \<in> snd a' \<and> v \<in> F)"
    using fja.run_bounds [OF fja_ready_flow_ok [OF R r] fi rp may must] by blast
  have "fja_root P t r s = Some (Some s')"
    using run(1) p r(1) by (simp add: fja_root_def getGNode_def Let_def fork_site_of_def)
  moreover have "fja_run_log P t r ?e (snd a') s s'" using run(2) by (simp add: fja_repr_def)
  moreover have "fja_log_ok P t r (snd a')"
  proof -
    have "fja_may P t r c Reached" if "may_hold ?own ?ops ?A c w" for c w
    proof -
      have "fja_must P t r c Reached" using that may_reached by (simp add: fja_may_def)
      then show ?thesis unfolding fja_may_def fja_must_def by (rule must_may)
    qed
    then show ?thesis using run(3,4) unfolding fja_log_ok_def fja_may_def [symmetric] fja_must_def [symmetric] by blast
  qed
  ultimately show ?thesis by blast
qed

section \<open>All threads\<close>

text \<open>The results, from the logs of the runs of the threads \<open>R\<close>.\<close>

definition fja_results :: "program \<Rightarrow> tct \<Rightarrow> node_id set \<Rightarrow> (node_id \<Rightarrow> (cxt_stmt \<times> fj_val set) set) \<Rightarrow> fork_join \<Rightarrow> fork_join \<Rightarrow> bool" where
  "fja_results P t R G s s' \<longleftrightarrow>
     HBPair s' = HBPair s \<union> (\<Union>r\<in>R. \<Union>(hb_pairs P t r ` G r)) \<and> HPPair s' = HPPair s \<union> (\<Union>r\<in>R. \<Union>(hp_pairs P t r ` G r)) \<and>
     fullJoin s' = fullJoin s \<union> (\<Union>r\<in>R. \<Union>(full_pairs P t r (fja_exit P t r) ` G r)) \<and>
     partialJoin s' = partialJoin s \<union> (\<Union>r\<in>R. \<Union>(part_pairs P t r (fja_exit P t r) ` G r)) \<and>
     (\<forall>d. dj_set s' d = dj_set s d \<union> {r \<in> R. join_recorded P t r d \<and> d \<in> fst ` G r}) \<and>
     (\<forall>d. cxtJoinInLoop s' d = (if \<exists>r\<in>R. sym_loop P t r d \<noteq> None \<and> d \<in> fst ` G r
        then joinSiteToLoopMap t (getStmt d) else cxtJoinInLoop s d)) \<and>
     dirAndIndJoinMap s' = dirAndIndJoinMap s"

lemma fja_results_run:
  assumes "fja_run_log P t r (fja_exit P t r) (G r) s s1" "fja_results P t R G s1 s'"
  shows "fja_results P t (insert r R) G s s'"
proof -
  have "cxtJoinInLoop s' d = (if \<exists>q\<in>insert r R. sym_loop P t q d \<noteq> None \<and> d \<in> fst ` G q
      then joinSiteToLoopMap t (getStmt d) else cxtJoinInLoop s d)" for d
  proof -
    have "sym_loop P t r d = joinSiteToLoopMap t (getStmt d)" if "sym_loop P t r d \<noteq> None"
      using that by (auto simp: sym_loop_def split: if_splits)
    then show ?thesis using assms unfolding fja_run_log_def fja_results_def by auto
  qed
  moreover have "dj_set s' d = dj_set s d \<union> {q \<in> insert r R. join_recorded P t q d \<and> d \<in> fst ` G q}" for d
    using assms unfolding fja_run_log_def fja_results_def by auto
  ultimately show ?thesis using assms unfolding fja_run_log_def fja_results_def by auto
qed

lemma fja_results_cong:
  assumes "fja_results P t R G s s'" "\<And>r. r \<in> R \<Longrightarrow> G' r = G r"
  shows "fja_results P t R G' s s'"
proof -
  have u: "(\<Union>r\<in>R. \<Union>(f r ` G' r)) = (\<Union>r\<in>R. \<Union>(f r ` G r))" for f :: "node_id \<Rightarrow> cxt_stmt \<times> fj_val set \<Rightarrow> 'a set"
    using assms(2) by (intro SUP_cong) simp_all
  have e: "{r \<in> R. Q r \<and> d \<in> fst ` G' r} = {r \<in> R. Q r \<and> d \<in> fst ` G r}"
    "(\<exists>r\<in>R. Q r \<and> d \<in> fst ` G' r) = (\<exists>r\<in>R. Q r \<and> d \<in> fst ` G r)" for Q d
    using assms(2) by auto
  show ?thesis using assms(1) unfolding fja_results_def u e .
qed

lemma analyzeForkJoinPair_run:
  assumes sh: "tct_shape P C rt t" and R: "fja_ready P t rk"
  shows "distinct ids \<Longrightarrow> set ids \<subseteq> {..<length (tctNodes t)} \<Longrightarrow>
    \<exists>s' G. analyzeForkJoinPair P t ids s = Some (Some s') \<and> fja_results P t (set ids - {0}) G s s' \<and>
      (\<forall>r\<in>set ids - {0}. fja_log_ok P t r (G r))"
proof (induction ids arbitrary: s)
  case Nil
  then show ?case by (simp add: analyzeForkJoinPair_def fja_results_def)
next
  case (Cons r ids)
  have r: "r < length (tctNodes t)" using Cons.prems by simp
  show ?case
  proof (cases "r = 0")
    case True
    have l: "0 < length (tctNodes t)" using r True by simp
    obtain s' G where s': "analyzeForkJoinPair P t ids (clearFlagMap s) = Some (Some s')"
      "fja_results P t (set ids - {0}) G (clearFlagMap s) s'" "\<forall>r\<in>set ids - {0}. fja_log_ok P t r (G r)"
      using Cons.IH [of "clearFlagMap s"] Cons.prems by auto
    have "fja_results P t (set ids - {0}) G s s'"
      using s'(2) clear_simps(4) [of s] by (simp add: fja_results_def fj_frame_def dj_set_def cong: if_cong)
    then show ?thesis using s' True fja_root_main [OF sh l] by (auto simp: analyzeForkJoinPair_def)
  next
    case False
    obtain s1 G1 where s1: "fja_root P t r s = Some (Some s1)" "fja_run_log P t r (fja_exit P t r) G1 s s1" "fja_log_ok P t r G1"
      using fja_root_run [OF sh R r False] by blast
    obtain s' G where s': "analyzeForkJoinPair P t ids s1 = Some (Some s')"
      "fja_results P t (set ids - {0}) G s1 s'" "\<forall>r\<in>set ids - {0}. fja_log_ok P t r (G r)"
      using Cons.IH [of s1] Cons.prems by auto
    let ?G = "G(r := G1)"
    have n: "r \<notin> set ids - {0}" using Cons.prems(1) by simp
    have "fja_results P t (set ids - {0}) ?G s1 s'"
      by (rule fja_results_cong [OF s'(2)]) (use n in auto)
    then have "fja_results P t (insert r (set ids - {0})) ?G s s'" using s1(2) by (intro fja_results_run) simp_all
    then have "fja_results P t (set (r # ids) - {0}) ?G s s'" using False by (simp add: insert_Diff_if)
    moreover have "\<forall>q\<in>set (r # ids) - {0}. fja_log_ok P t q (?G q)" using s'(3) s1(3) by auto
    moreover have "analyzeForkJoinPair P t (r # ids) s = Some (Some s')"
      using s1(1) s'(1) by (simp add: analyzeForkJoinPair_def)
    ultimately show ?thesis by blast
  qed
qed


section \<open>The example\<close>

definition nested_stmts :: "(node_id \<times> cxt_stmt) list" where
  "nested_stmts = [(1, CxtStmt [] 12), (1, CxtStmt [] 13), (1, CxtStmt [] 14), (2, CxtStmt [] 14),
     (3, CxtStmt [11] 20), (3, CxtStmt [11] 21), (3, CxtStmt [11] 22), (3, CxtStmt [11] 23)]"

lemma nested_fork_flow:
  obtains t where "build nested_fork = Some (Some t)" "map node_view (tctNodes t) = nested_view"
    "list_all (\<lambda>(r, c). list_all (\<lambda>d. (r, d) \<in> set nested_stmts \<and> (getStmt c = 12 \<longrightarrow> getStmt d \<noteq> 12))
      (map flow_target (fja_ops nested_fork t r c))) nested_stmts"
    "map (\<lambda>(r, c). joinSiteToLoopMap t (getStmt c)) nested_stmts = [None, None, None, None, None, None, None, None]"
    "map (\<lambda>r. (fja_cxt t r, tct_getNextInsts nested_fork t (fork_site_of t r))) [1, 2, 3] = [([], [12]), ([], [14]), ([11], [22])]"
    "map (fja_exit nested_fork t) [1, 2, 3] = [14, 14, 23]"
    "map (\<lambda>(c, e). getTCTNode_ct t (CxtThread (tct_pushCxt nested_fork t (getContext c) (getStmt c) (e_dst e)) (getStmt c)))
      [(CxtStmt [] 13, late_fork), (CxtStmt [11] 21, loop_fork)] = [Some 2, Some 3]"
    "map (getParentThread t) [1, 2, 3] = [Some 0, Some 0, Some 1]"
proof -
  have "map_option (map_option (\<lambda>t. (map node_view (tctNodes t), list_all (\<lambda>(r, c). list_all (\<lambda>d. (r, d) \<in> set nested_stmts \<and> (getStmt c = 12 \<longrightarrow> getStmt d \<noteq> 12))
      (map flow_target (fja_ops nested_fork t r c))) nested_stmts,
      map (\<lambda>(r, c). joinSiteToLoopMap t (getStmt c)) nested_stmts,
      map (\<lambda>r. (fja_cxt t r, tct_getNextInsts nested_fork t (fork_site_of t r))) [1, 2, 3],
      map (fja_exit nested_fork t) [1, 2, 3],
      map (\<lambda>(c, e). getTCTNode_ct t (CxtThread (tct_pushCxt nested_fork t (getContext c) (getStmt c) (e_dst e)) (getStmt c)))
        [(CxtStmt [] 13, late_fork), (CxtStmt [11] 21, loop_fork)], map (getParentThread t) [1, 2, 3]))) (build nested_fork) =
    Some (Some (nested_view, True, [None, None, None, None, None, None, None, None],
      [([], [12]), ([], [14]), ([11], [22])], [14, 14, 23], [Some 2, Some 3], [Some 0, Some 0, Some 1]))"
    by code_simp
  from map_run_Some [OF this] show thesis
  proof (elim exE conjE)
    fix t assume t: "build nested_fork = Some (Some t)" and e: "(map node_view (tctNodes t),
      list_all (\<lambda>(r, c). list_all (\<lambda>d. (r, d) \<in> set nested_stmts \<and> (getStmt c = 12 \<longrightarrow> getStmt d \<noteq> 12))
      (map flow_target (fja_ops nested_fork t r c))) nested_stmts,
      map (\<lambda>(r, c). joinSiteToLoopMap t (getStmt c)) nested_stmts,
      map (\<lambda>r. (fja_cxt t r, tct_getNextInsts nested_fork t (fork_site_of t r))) [1, 2, 3],
      map (fja_exit nested_fork t) [1, 2, 3],
      map (\<lambda>(c, e). getTCTNode_ct t (CxtThread (tct_pushCxt nested_fork t (getContext c) (getStmt c) (e_dst e)) (getStmt c)))
        [(CxtStmt [] 13, late_fork), (CxtStmt [11] 21, loop_fork)], map (getParentThread t) [1, 2, 3]) =
      (nested_view, True, [None, None, None, None, None, None, None, None],
      [([], [12]), ([], [14]), ([11], [22])], [14, 14, 23], [Some 2, Some 3], [Some 0, Some 0, Some 1])"
    show thesis using e unfolding prod.inject eq_True by (elim conjE) (rule that [OF t])
  qed
qed

lemma kill_at_join:
  assumes "Kill y S \<in> set (fja_ops P t r c)"
  shows "td_join P (getStmt c) \<and> joinSiteToLoopMap t (getStmt c) \<noteq> None"
proof -
  have "Kill y S \<notin> set (fja_next P t cxt i)" for cxt i by (auto simp: fja_next_def)
  moreover from this have "Kill y S \<notin> set (fja_return_ops P t c i)" for i
    by (auto simp: fja_return_ops_def split: prod.splits bool.splits)
  then have "Kill y S \<notin> set (fja_returns P t c)" by (auto simp: fja_returns_def split: if_splits)
  moreover have "Kill y S \<notin> set (fja_calls P t c)" by (auto simp: fja_calls_def split: if_splits option.splits)
  ultimately have "Kill y S \<in> set (fja_exits P t r c)" "td_join P (getStmt c)"
    using assms by (auto simp: fja_ops_def Let_def split: if_splits)
  then show ?thesis by (cases "joinSiteToLoopMap t (getStmt c)") (simp_all add: fja_exits_def)
qed

lemma nested_fork_fja_ready:
  obtains t where "build nested_fork = Some (Some t)" "map node_view (tctNodes t) = nested_view"
    "fja_ready nested_fork t (\<lambda>_. 0)" "map (fja_exit nested_fork t) [1, 2, 3] = [14, 14, 23]"
    "map (getParentThread t) [1, 2, 3] = [Some 0, Some 0, Some 1]"
proof (rule nested_fork_flow)
  fix t assume t: "build nested_fork = Some (Some t)" "map node_view (tctNodes t) = nested_view"
    and x: "map (fja_exit nested_fork t) [1, 2, 3] = [14, 14, 23]"
      "map (getParentThread t) [1, 2, 3] = [Some 0, Some 0, Some 1]"
    and o: "list_all (\<lambda>(r, c). list_all (\<lambda>d. (r, d) \<in> set nested_stmts \<and> (getStmt c = 12 \<longrightarrow> getStmt d \<noteq> 12))
      (map flow_target (fja_ops nested_fork t r c))) nested_stmts"
    and j: "map (\<lambda>(r, c). joinSiteToLoopMap t (getStmt c)) nested_stmts = [None, None, None, None, None, None, None, None]"
    and s: "map (\<lambda>r. (fja_cxt t r, tct_getNextInsts nested_fork t (fork_site_of t r))) [1, 2, 3] = [([], [12]), ([], [14]), ([11], [22])]"
    and f: "map (\<lambda>(c, e). getTCTNode_ct t (CxtThread (tct_pushCxt nested_fork t (getContext c) (getStmt c) (e_dst e)) (getStmt c)))
      [(CxtStmt [] 13, late_fork), (CxtStmt [11] 21, loop_fork)] = [Some 2, Some 3]"
  let ?U = "\<lambda>r. {c. (r, c) \<in> set nested_stmts}"
  have "\<forall>x\<in>set (fja_ops nested_fork t r c). (r, flow_target x) \<in> set nested_stmts \<and> (getStmt c = 12 \<longrightarrow> getStmt (flow_target x) \<noteq> 12)"
    if "c \<in> ?U r" for r c using bspec [OF o [unfolded list_all_iff], of "(r, c)"] that by (simp add: list_all_iff)
  then have cl: "flow_target ` set (fja_ops nested_fork t r c) \<subseteq> ?U r"
    and step: "d \<in> flow_target ` set (fja_ops nested_fork t r c) \<Longrightarrow> getStmt c = 12 \<Longrightarrow> getStmt d \<noteq> 12" if "c \<in> ?U r" for r c d
    using that by blast+
  have U: "fja_stmts nested_fork t r \<subseteq> ?U r" if r: "r \<in> {1, 2, 3}" for r
    unfolding fja_stmts_def
  proof (rule reach_least)
    have "fja_seeds nested_fork t 1 = {CxtStmt [] 12}" "fja_seeds nested_fork t 2 = {CxtStmt [] 14}"
      "fja_seeds nested_fork t 3 = {CxtStmt [11] 22}" using s by (simp_all add: fja_seeds_def)
    then have "\<forall>r\<in>{1, 2, 3}. \<forall>c\<in>fja_seeds nested_fork t r. (r, c) \<in> set nested_stmts" by (simp add: nested_stmts_def)
    then show "fja_seeds nested_fork t r \<subseteq> ?U r" using r by blast
    show "y \<in> ?U r" if "x \<in> ?U r" "y \<in> flow_target ` set (fja_ops nested_fork t r x)" for x y
      by (rule subsetD [OF cl [OF that(1)] that(2)])
  qed
  have fin: "finite (?U r)" for r by (rule finite_subset [of _ "snd ` set nested_stmts"]) force+
  have loc: "fja_local nested_fork t c" if "c \<in> ?U r" for r c
  proof -
    have n: "getStmt c \<noteq> 11" using that by (auto simp: nested_stmts_def)
    have "es = [late_fork] \<and> i = 13 \<or> es = [loop_fork] \<and> i = 21" if "fork_edges nested_fork i = Some es" "i \<noteq> 11" for es i
      using that by (auto simp: nested_fork_def split: if_splits)
    note E = this [OF _ n]
    have C: "c = CxtStmt [] 13" if "getStmt c = 13" using that \<open>c \<in> ?U r\<close> by (auto simp: nested_stmts_def)
    have D: "c = CxtStmt [11] 21" if "getStmt c = 21" using that \<open>c \<in> ?U r\<close> by (auto simp: nested_stmts_def)
    have f: "getTCTNode_ct t (CxtThread (tct_pushCxt nested_fork t [] 13 (e_dst late_fork)) 13) \<noteq> None"
      "getTCTNode_ct t (CxtThread (tct_pushCxt nested_fork t [11] 21 (e_dst loop_fork)) 21) \<noteq> None" using f by simp_all
    have "forks_known nested_fork t c"
      unfolding forks_known_def
    proof (intro impI allI)
      fix es e assume "fork_edges nested_fork (getStmt c) = Some es" "e \<in> set es"
      then show "getTCTNode_ct t (CxtThread (tct_pushCxt nested_fork t (getContext c) (getStmt c) (e_dst e)) (getStmt c)) \<noteq> None"
        using E [of es] C D f by fastforce
    qed
    then show ?thesis using that j by (auto simp: fja_local_def nested_stmts_def)
  qed
  have l12: "joinSiteToLoopMap t 12 = None" using j by (simp add: nested_stmts_def)
  have lossy: "getStmt c = 12" if "fja_lossy nested_fork t r c" for r c
  proof -
    have "td_join nested_fork i \<longleftrightarrow> i = 12" for i by (simp add: nested_fork_def)
    then show ?thesis using that kill_at_join [of c _ nested_fork t r] l12 unfolding fja_lossy_def may_lose_def
      by (auto simp: fja_own_def fja_joins_def split: if_splits dest: kill_at_join)
  qed
  have len: "length (tctNodes t) = 4" using nested_fork_edges [OF t(2)] by simp
  have "fja_ready nested_fork t (\<lambda>_. 0)"
    unfolding fja_ready_def len
  proof (intro allI impI conjI ballI)
    fix r :: node_id assume "r < 4" "r \<noteq> 0"
    then have r: "r \<in> {1, 2, 3}" by auto
    show "finite (fja_stmts nested_fork t r)" by (rule finite_subset [OF U [OF r] fin])
    fix c assume c: "c \<in> fja_stmts nested_fork t r"
    show "fja_local nested_fork t c" using loc U [OF r] c by blast
    fix d assume d: "d \<in> flow_target ` set (fja_ops nested_fork t r c)" "fja_lossy nested_fork t r c" "fja_lossy nested_fork t r d"
    then show "(0 :: nat) < 0" using step [of c r d] lossy U [OF r] c by blast
  qed
  then show thesis by (rule that [OF t _ x])
qed

lemma nested_fork_joined:
  obtains t s where "build nested_fork = Some (Some t)" "length (tctNodes t) = 4" "fja_ready nested_fork t (\<lambda>_. 0)"
    "analyzeForkJoinPair nested_fork t [0, 1, 2, 3] fj_new = Some (Some s)" "getDirectlyJoinedTid (CxtStmt [] 12) s = ([1], s)"
    "fj_isHBPair s 1 2" "isFullJoin s 0 1" "fja_exit nested_fork t 1 = 14" "getParentThread t 1 = Some 0"
proof -
  obtain t where t: "build nested_fork = Some (Some t)" "map node_view (tctNodes t) = nested_view"
    "fja_ready nested_fork t (\<lambda>_. 0)" "map (fja_exit nested_fork t) [1, 2, 3] = [14, 14, 23]"
    "map (getParentThread t) [1, 2, 3] = [Some 0, Some 0, Some 1]" by (rule nested_fork_fja_ready)
  have "map_option (map_option (\<lambda>t. map_option (map_option (\<lambda>s. (fj_isHBPair s 1 2, isFullJoin s 0 1, directJoinMap s (CxtStmt [] 12))))
    (analyzeForkJoinPair nested_fork t [0, 1, 2, 3] fj_new))) (build nested_fork) = Some (Some (Some (Some (True, True, Some [1]))))"
    by code_simp
  then obtain s where s: "analyzeForkJoinPair nested_fork t [0, 1, 2, 3] fj_new = Some (Some s)"
    "fj_isHBPair s 1 2" "isFullJoin s 0 1" "directJoinMap s (CxtStmt [] 12) = Some [1]"
    unfolding t(1) by auto
  show thesis
    by (rule that [OF t(1) _ t(3) s(1)]) (use s(2,3,4) t(4,5) nested_fork_edges [OF t(2)] in \<open>simp_all add: getDirectlyJoinedTid_def\<close>)
qed

lemma upto_4: "set [0, 1, 2, 3] = {..<4 :: nat}"
  by (simp add: lessThan_nat_numeral lessThan_Suc insert_commute numeral_eq_Suc)

section \<open>Properties\<close>

abbreviation fja_reached :: "program \<Rightarrow> tct \<Rightarrow> node_id \<Rightarrow> cxt_stmt \<Rightarrow> bool" where
  "fja_reached P t r c \<equiv> fja_may P t r c Reached"

lemma analyzed:
  assumes "tct_ready P rt rk" "build P = Some (Some t)" "fja_ready P t ri" "distinct ids" "set ids = {..<length (tctNodes t)}"
  shows "\<exists>s G. analyzeForkJoinPair P t ids fj_new = Some (Some s) \<and>
    fja_results P t {r. r < length (tctNodes t) \<and> r \<noteq> 0} G fj_new s \<and>
    (\<forall>r<length (tctNodes t). r \<noteq> 0 \<longrightarrow> fja_log_ok P t r (G r))"
proof -
  have e: "set ids - {0} = {r. r < length (tctNodes t) \<and> r \<noteq> 0}" using assms(5) by auto
  obtain s G where "analyzeForkJoinPair P t ids fj_new = Some (Some s)"
    "fja_results P t (set ids - {0}) G fj_new s" "\<forall>r\<in>set ids - {0}. fja_log_ok P t r (G r)"
    using analyzeForkJoinPair_run [OF built(1) [OF assms(1,2)] assms(3,4), of fj_new] assms(5) by auto
  then show ?thesis unfolding e by blast
qed

text \<open>C5: The fork-join analysis ends and fails no assertion. A thread is recorded as directly joined
  at a join site, under a context, exactly when control flow reaches the site from after the fork
  of the thread, the site has a callee, its thread pointer matches that of the fork, and the loop
  that the site must execute in, when there is one, has an exit; loops are recorded at such sites
  only.\<close>

theorem analyzeForkJoinPair_joins:
  assumes "tct_ready P rt rk" and "build P = Some (Some t)" and "fja_ready P t ri"
    and "distinct ids" and "set ids = {..<length (tctNodes t)}"
  shows "\<exists>s. analyzeForkJoinPair P t ids fj_new = Some (Some s) \<and>
    (\<forall>c. set (fst (getDirectlyJoinedTid c s)) = {r. r < length (tctNodes t) \<and> r \<noteq> 0 \<and> join_recorded P t r c \<and> fja_reached P t r c}) \<and>
    (\<forall>c. fj_isJoinInSymmetricLoop s c = (if \<exists>r<length (tctNodes t). r \<noteq> 0 \<and> join_recorded P t r c \<and> fja_reached P t r c
       then joinSiteToLoopMap t (getStmt c) else None))"
proof -
  let ?R = "{r. r < length (tctNodes t) \<and> r \<noteq> 0}"
  obtain s G where s: "analyzeForkJoinPair P t ids fj_new = Some (Some s)" "fja_results P t ?R G fj_new s"
    "\<And>r. r < length (tctNodes t) \<Longrightarrow> r \<noteq> 0 \<Longrightarrow> fja_log_ok P t r (G r)" using analyzed [OF assms] by blast
  have re: "c \<in> fst ` G r \<longleftrightarrow> fja_reached P t r c" if "r \<in> ?R" for r c
    using fja_log_reached [OF s(3)] that by simp
  have "set (fst (getDirectlyJoinedTid c s)) = dj_set s c" for c
    by (simp add: getDirectlyJoinedTid_def dj_set_def split: option.split)
  moreover have "dj_set s c = {r \<in> ?R. join_recorded P t r c \<and> c \<in> fst ` G r}" for c
    using s(2) by (simp add: fja_results_def dj_set_def fj_new_def)
  moreover have "{r \<in> ?R. join_recorded P t r c \<and> c \<in> fst ` G r} = {r \<in> ?R. join_recorded P t r c \<and> fja_reached P t r c}" for c
    by (rule Collect_cong) (use re [of _ c] in blast)
  ultimately have "set (fst (getDirectlyJoinedTid c s)) = {r \<in> ?R. join_recorded P t r c \<and> fja_reached P t r c}" for c
    by (simp only:)
  moreover have "fj_isJoinInSymmetricLoop s c = (if \<exists>r\<in>?R. join_recorded P t r c \<and> fja_reached P t r c
       then joinSiteToLoopMap t (getStmt c) else None)" for c
  proof -
    have "fj_isJoinInSymmetricLoop s c = (if \<exists>r\<in>?R. sym_loop P t r c \<noteq> None \<and> c \<in> fst ` G r
        then joinSiteToLoopMap t (getStmt c) else None)"
      using s(2) unfolding fja_results_def fj_isJoinInSymmetricLoop_def by (simp add: fj_new_def cong: if_cong)
    moreover have "(\<exists>r\<in>?R. sym_loop P t r c \<noteq> None \<and> c \<in> fst ` G r) \<longleftrightarrow>
        joinSiteToLoopMap t (getStmt c) \<noteq> None \<and> (\<exists>r\<in>?R. join_recorded P t r c \<and> fja_reached P t r c)"
      using re by (auto simp: sym_loop_def)
    ultimately show ?thesis by (cases "joinSiteToLoopMap t (getStmt c)") simp_all
  qed
  ultimately show ?thesis using s(1) by (intro exI [of _ s]) simp
qed

theorem analyzeForkJoinPair_joins_witness:
  "\<exists>t s. build nested_fork = Some (Some t) \<and> analyzeForkJoinPair nested_fork t [0, 1, 2, 3] fj_new = Some (Some s) \<and>
     1 \<in> set (fst (getDirectlyJoinedTid (CxtStmt [] 12) s)) \<and> fja_reached nested_fork t 1 (CxtStmt [] 12)"
proof (rule nested_fork_joined)
  fix t s assume t: "build nested_fork = Some (Some t)" "length (tctNodes t) = 4" "fja_ready nested_fork t (\<lambda>_. 0)"
    and s: "analyzeForkJoinPair nested_fork t [0, 1, 2, 3] fj_new = Some (Some s)" "getDirectlyJoinedTid (CxtStmt [] 12) s = ([1], s)"
  have "set [0, 1, 2, 3] = {..<length (tctNodes t)}" unfolding t(2) by (rule upto_4)
  from analyzeForkJoinPair_joins [OF nested_fork_ready t(1,3) _ this] s(1)
  have "set (fst (getDirectlyJoinedTid (CxtStmt [] 12) s)) = {r. r < length (tctNodes t) \<and> r \<noteq> 0 \<and>
    join_recorded nested_fork t r (CxtStmt [] 12) \<and> fja_reached nested_fork t r (CxtStmt [] 12)}" by auto
  moreover have "1 \<in> set (fst (getDirectlyJoinedTid (CxtStmt [] 12) s))" using s(2) by simp
  ultimately show ?thesis using t(1) s(1) by blast
qed

text \<open>C6: The happens-before relation between threads is sound and complete up to the flags: a pair
  is reported only if the second thread is forked at a statement reached from after the fork of the
  first, and no control flow that avoids all join points of the first leads to a fork of the
  second; and it is reported if moreover no control flow that only avoids passing through its join
  sites does, and likewise with the two threads exchanged.\<close>

theorem isHBPair_bounds:
  assumes "tct_ready P rt rk" and "build P = Some (Some t)" and "fja_ready P t ri"
    and "distinct ids" and "set ids = {..<length (tctNodes t)}"
    and "analyzeForkJoinPair P t ids fj_new = Some (Some s)"
  shows "(fj_isHBPair s r n \<longrightarrow> (\<exists>c. fja_reached P t r c \<and> n \<in> forked_nodes P t c) \<and>
      (\<forall>c. n \<in> forked_nodes P t c \<longrightarrow> \<not> fja_must P t r c Live)) \<and>
    (r < length (tctNodes t) \<longrightarrow> r \<noteq> 0 \<longrightarrow> (\<exists>c. fja_reached P t r c \<and> n \<in> forked_nodes P t c) \<longrightarrow>
      (\<forall>c. n \<in> forked_nodes P t c \<longrightarrow> \<not> fja_may P t r c Live) \<longrightarrow>
      (\<forall>c. r \<in> forked_nodes P t c \<longrightarrow> \<not> fja_may P t n c Live) \<longrightarrow> fj_isHBPair s r n)"
proof -
  let ?R = "{r. r < length (tctNodes t) \<and> r \<noteq> 0}"
  obtain s' G where s: "analyzeForkJoinPair P t ids fj_new = Some (Some s')" "fja_results P t ?R G fj_new s'"
    "\<And>r. r < length (tctNodes t) \<Longrightarrow> r \<noteq> 0 \<Longrightarrow> fja_log_ok P t r (G r)" using analyzed [OF assms(1-5)] by blast
  have hb: "HBPair s = (\<Union>r\<in>?R. \<Union>(hb_pairs P t r ` G r))" and hp: "HPPair s = (\<Union>r\<in>?R. \<Union>(hp_pairs P t r ` G r))"
    using s(1,2) assms(6) by (simp_all add: fja_results_def fj_new_def)
  have log: "fja_may P t q c Reached" "v \<in> F \<Longrightarrow> fja_may P t q c v" if "q \<in> ?R" "(c, F) \<in> G q" for q c F v
    using s(3) [of q] that by (auto simp: fja_log_ok_def)
  have vis: "\<exists>F. (c, F) \<in> G q \<and> v \<in> F" if "q \<in> ?R" "fja_must P t q c v" for q c v
    using s(3) [of q] that by (auto simp: fja_log_ok_def)
  have HB: "(r, n) \<in> HBPair s \<longleftrightarrow> r \<in> ?R \<and> (\<exists>c F. (c, F) \<in> G r \<and> Live \<notin> F \<and> n \<in> forked_nodes P t c)"
    unfolding hb by (fastforce simp: hb_pairs_def split: if_splits)
  have HP1: "(r, n) \<in> HPPair s" if "r \<in> ?R" "(c, F) \<in> G r" "Live \<in> F" "n \<in> forked_nodes P t c" for c F
  proof -
    have "(r, n) \<in> hp_pairs P t r (c, F)" using that(3,4) by (simp add: hp_pairs_def)
    then show ?thesis unfolding hp using that(1,2) by blast
  qed
  have HP2: "\<exists>c F. ((c, F) \<in> G r \<and> r \<in> ?R \<and> Live \<in> F \<and> n \<in> forked_nodes P t c) \<or>
      ((c, F) \<in> G n \<and> n \<in> ?R \<and> Live \<in> F \<and> r \<in> forked_nodes P t c)" if "(r, n) \<in> HPPair s"
    using that unfolding hp by (fastforce simp: hp_pairs_def split: if_splits)
  show ?thesis
  proof (intro conjI impI)
    assume h: "fj_isHBPair s r n"
    then have R: "r \<in> ?R" and "\<exists>c F. (c, F) \<in> G r \<and> Live \<notin> F \<and> n \<in> forked_nodes P t c"
      using HB by (simp_all add: fj_isHBPair_def)
    then show "\<exists>c. fja_reached P t r c \<and> n \<in> forked_nodes P t c" using log(1) by blast
    show "\<forall>c. n \<in> forked_nodes P t c \<longrightarrow> \<not> fja_must P t r c Live"
      using vis [OF R, of _ Live] HP1 [OF R] h by (meson fj_isHBPair_def)
  next
    assume R: "r < length (tctNodes t)" "r \<noteq> 0" and c: "\<exists>c. fja_reached P t r c \<and> n \<in> forked_nodes P t c"
      and l: "\<forall>c. n \<in> forked_nodes P t c \<longrightarrow> \<not> fja_may P t r c Live" "\<forall>c. r \<in> forked_nodes P t c \<longrightarrow> \<not> fja_may P t n c Live"
    have R: "r \<in> ?R" using R by simp
    obtain c where c: "fja_must P t r c Reached" "n \<in> forked_nodes P t c" using c may_reached by blast
    obtain F where F: "(c, F) \<in> G r" using vis [OF R c(1)] by blast
    have "Live \<notin> F" using log(2) [OF R F] l(1) c(2) by blast
    then have "(r, n) \<in> HBPair s" using HB R F c(2) by blast
    moreover have "(r, n) \<notin> HPPair s" using HP2 log(2) l by blast
    ultimately show "fj_isHBPair s r n" by (simp add: fj_isHBPair_def)
  qed
qed

theorem isHBPair_bounds_witness:
  "\<exists>t s. build nested_fork = Some (Some t) \<and> analyzeForkJoinPair nested_fork t [0, 1, 2, 3] fj_new = Some (Some s) \<and>
     fj_isHBPair s 1 2 \<and> (\<exists>c. fja_reached nested_fork t 1 c \<and> 2 \<in> forked_nodes nested_fork t c)"
proof (rule nested_fork_joined)
  fix t s assume t: "build nested_fork = Some (Some t)" "length (tctNodes t) = 4" "fja_ready nested_fork t (\<lambda>_. 0)"
    and s: "analyzeForkJoinPair nested_fork t [0, 1, 2, 3] fj_new = Some (Some s)" "fj_isHBPair s 1 2"
  have "set [0, 1, 2, 3] = {..<length (tctNodes t)}" unfolding t(2) by (rule upto_4)
  from isHBPair_bounds [OF nested_fork_ready t(1,3) _ this s(1), THEN conjunct1, of 1 2] s(2)
  have "\<exists>c. fja_reached nested_fork t 1 c \<and> 2 \<in> forked_nodes nested_fork t c" by simp
  then show ?thesis using t(1) s by blast
qed

text \<open>C7: A thread is reported as fully joined by its parent only if control flow after the fork
  reaches the end of the parent's start routine and none that avoids all join points of the thread
  does, in any context; and it is reported if the end is reached only with the thread joined.\<close>

theorem isFullJoin_bounds:
  assumes "tct_ready P rt rk" and "build P = Some (Some t)" and "fja_ready P t ri"
    and "distinct ids" and "set ids = {..<length (tctNodes t)}"
    and "analyzeForkJoinPair P t ids fj_new = Some (Some s)"
    and "r < length (tctNodes t)" and "r \<noteq> 0" and "getParentThread t r = Some p"
  shows "(isFullJoin s p r \<longrightarrow> (\<exists>c. getStmt c = fja_exit P t r \<and> fja_reached P t r c) \<and>
      (\<forall>c. getStmt c = fja_exit P t r \<longrightarrow> \<not> fja_must P t r c Live)) \<and>
    ((\<exists>c. getStmt c = fja_exit P t r \<and> fja_reached P t r c) \<longrightarrow>
      (\<forall>c. getStmt c = fja_exit P t r \<longrightarrow> \<not> fja_may P t r c Live) \<longrightarrow> isFullJoin s p r)"
proof -
  let ?R = "{r. r < length (tctNodes t) \<and> r \<noteq> 0}" and ?e = "fja_exit P t r"
  obtain s' G where s: "analyzeForkJoinPair P t ids fj_new = Some (Some s')" "fja_results P t ?R G fj_new s'"
    "\<And>r. r < length (tctNodes t) \<Longrightarrow> r \<noteq> 0 \<Longrightarrow> fja_log_ok P t r (G r)" using analyzed [OF assms(1-5)] by blast
  have fu: "fullJoin s = (\<Union>r\<in>?R. \<Union>(full_pairs P t r (fja_exit P t r) ` G r))"
    and pa: "partialJoin s = (\<Union>r\<in>?R. \<Union>(part_pairs P t r (fja_exit P t r) ` G r))"
    using s(1,2) assms(6) by (simp_all add: fja_results_def fj_new_def)
  have R: "r \<in> ?R" using assms(7,8) by simp
  note lo = s(3) [OF assms(7,8)]
  have Fu: "(p, r) \<in> fullJoin s \<longleftrightarrow> (\<exists>c F. (c, F) \<in> G r \<and> getStmt c = ?e \<and> Live \<notin> F - fja_own P t r c)"
    unfolding fu using R assms(9) by (fastforce simp: full_pairs_def split: if_splits)
  have Pa: "(p, r) \<in> partialJoin s \<longleftrightarrow> (\<exists>c F. (c, F) \<in> G r \<and> getStmt c = ?e \<and> Live \<in> F - fja_own P t r c)"
    unfolding pa using R assms(9) by (fastforce simp: part_pairs_def split: if_splits)
  show ?thesis
  proof (intro conjI impI allI notI)
    assume "isFullJoin s p r"
    then show "\<exists>c. getStmt c = ?e \<and> fja_reached P t r c" using Fu lo by (auto simp: isFullJoin_def fja_log_ok_def)
  next
    fix c assume f: "isFullJoin s p r" and c: "getStmt c = ?e" "fja_must P t r c Live"
    obtain F where F: "(c, F) \<in> G r" "Live \<in> F" using lo c(2) unfolding fja_log_ok_def by blast
    have "Live \<notin> fja_own P t r c" using must_not_lost [OF c(2) [unfolded fja_must_def]] by (simp add: may_lose_def)
    then show False using Pa F c(1) f unfolding isFullJoin_def by blast
  next
    assume c: "\<exists>c. getStmt c = ?e \<and> fja_reached P t r c" and n: "\<forall>c. getStmt c = ?e \<longrightarrow> \<not> fja_may P t r c Live"
    then obtain c where c: "getStmt c = ?e" "fja_must P t r c Reached" using may_reached by blast
    have l: "Live \<notin> F" if d: "(d, F) \<in> G r" "getStmt d = ?e" for d F
    proof
      assume "Live \<in> F"
      then have "fja_may P t r d Live" using lo d(1) unfolding fja_log_ok_def by blast
      then show False using n d(2) by blast
    qed
    obtain F where "(c, F) \<in> G r" using lo c(2) unfolding fja_log_ok_def by blast
    then show "isFullJoin s p r" using Fu Pa l c(1) unfolding isFullJoin_def by blast
  qed
qed

theorem isFullJoin_bounds_witness:
  "\<exists>t s. build nested_fork = Some (Some t) \<and> analyzeForkJoinPair nested_fork t [0, 1, 2, 3] fj_new = Some (Some s) \<and>
     isFullJoin s 0 1 \<and> (\<exists>c. getStmt c = 14 \<and> fja_reached nested_fork t 1 c)"
proof (rule nested_fork_joined)
  fix t s assume t: "build nested_fork = Some (Some t)" "length (tctNodes t) = 4" "fja_ready nested_fork t (\<lambda>_. 0)"
    and s: "analyzeForkJoinPair nested_fork t [0, 1, 2, 3] fj_new = Some (Some s)" "isFullJoin s 0 1"
    and x: "fja_exit nested_fork t 1 = 14" "getParentThread t 1 = Some 0"
  have i: "set [0, 1, 2, 3] = {..<length (tctNodes t)}" unfolding t(2) by (rule upto_4)
  have r: "1 < length (tctNodes t)" using t(2) by simp
  from isFullJoin_bounds [OF nested_fork_ready t(1,3) _ i s(1) r _ x(2), THEN conjunct1] s(2) x(1)
  have "\<exists>c. getStmt c = 14 \<and> fja_reached nested_fork t 1 c" by simp
  then show ?thesis using t(1) s by blast
qed

end
