(* ===== verification/JoinedThreads.thy ===== *)
theory JoinedThreads
  imports ForkJoinResult
begin

text \<open>
  The threads joined at a join site, directly or because a joined thread has joined them in full:
  \<open>ForkJoinAnalysis::getDirAndIndJoinedTid\<close> of \<open>lib/MTA/MHP.cpp\<close>.
\<close>

section \<open>The work list\<close>

definition full_children :: "tct \<Rightarrow> fork_join \<Rightarrow> (node_id \<times> node_id) set" where
  "full_children t s = {(p, c) \<in> tree_edges t. isFullJoin s p c}"

definition joined_inv :: "tct \<Rightarrow> fork_join \<Rightarrow> node_id set \<Rightarrow> node_id std_set \<times> node_id fifo \<Rightarrow> bool" where
  "joined_inv t s D = (\<lambda>(all, w). fifo_inv w \<and> set (data_list w) \<subseteq> set all \<and> D \<subseteq> set all \<and>
     set all \<subseteq> (full_children t s)\<^sup>* `` D \<and> set all \<subseteq> {..<length (tctNodes t)} \<and>
     full_children t s `` (set all - set (data_list w)) \<subseteq> set all)"

definition joined_ranks :: "tct \<Rightarrow> node_id std_set \<times> node_id fifo \<Rightarrow> nat multiset" where
  "joined_ranks t = (\<lambda>(all, w). image_mset (\<lambda>n. length (tctNodes t) - n) (mset_set (set (data_list w))))"

lemma joined_fold:
  "fold (\<lambda>c (all, w). if q c then (set_insert c all, snd (fifo_push c w)) else (all, w)) cs (all, w) =
   (fold (\<lambda>c s. if q c then set_insert c s else s) cs all, fold (\<lambda>d w. snd (fifo_push d w)) (filter q cs) w)"
  by (induction cs arbitrary: all w) auto

lemma joined_step_inv:
  assumes sh: "tct_shape P C rt t" and I: "joined_inv t s D x" and g: "\<not> fifo_empty (snd x)"
  shows "\<exists>x'. joined_step t s x = Some (Some x') \<and> joined_inv t s D x' \<and> (joined_ranks t x', joined_ranks t x) \<in> mult less_than"
proof -
  obtain all w where x: "x = (all, w)" by (cases x)
  let ?F = "full_children t s" and ?N = "length (tctNodes t)" and ?r = "\<lambda>n. length (tctNodes t) - n"
  have f: "fifo_inv w" "set (data_list w) \<subseteq> set all" "D \<subseteq> set all" "set all \<subseteq> ?F\<^sup>* `` D" "set all \<subseteq> {..<?N}"
    "?F `` (set all - set (data_list w)) \<subseteq> set all" using I by (simp_all add: joined_inv_def x)
  obtain n w1 where p: "fifo_pop w = Some (n, w1)"
    using g fifo.pop_None [OF f(1)] by (cases "fifo_pop w") (auto simp: fifo_empty_def x)
  have w1: "fifo_inv w1" "n \<in> set (data_list w)" "set (data_list w1) = set (data_list w) - {n}"
    using fifo.pop_Some [OF f(1) p] fifo.pop_set [OF f(1) p] by auto
  have n: "n \<in> set all" "n < ?N" using w1(2) f(2,5) by auto
  let ?cs = "tn_out (tctNodes t ! n)"
  let ?a = "fold (\<lambda>c s'. if isFullJoin s n c then set_insert c s' else s') ?cs all"
  let ?w = "fold (\<lambda>d w. snd (fifo_push d w)) (filter (isFullJoin s n) ?cs) w1"
  have cs: "{c \<in> set ?cs. isFullJoin s n c} = ?F `` {n}"
    using tree_edges_out [OF sh n(2)] by (auto simp: full_children_def)
  have step: "joined_step t s x = Some (Some (?a, ?w))"
    using n(2) p by (simp add: x joined_step_def getGNode_def joined_fold)
  have a: "set ?a = ?F `` {n} \<union> set all" by (simp add: cs)
  have w: "fifo_inv ?w" "set (data_list ?w) = ?F `` {n} \<union> (set (data_list w) - {n})"
    using pushes_set [OF w1(1), of "filter (isFullJoin s n) ?cs"] w1(3) by (simp_all add: cs)
  have new: "n < c" "c < ?N" if "c \<in> ?F `` {n}" for c
    using that tree_edges_less [OF sh, of n c] by (auto simp: full_children_def tree_edges_def)
  have "joined_inv t s D (?a, ?w)"
    unfolding joined_inv_def prod.case
  proof (intro conjI)
    show "set (data_list ?w) \<subseteq> set ?a" unfolding a w using f(2) by blast
    show "D \<subseteq> set ?a" unfolding a using f(3) by blast
    have "?F `` {n} \<subseteq> ?F\<^sup>* `` D"
    proof
      fix c assume c: "c \<in> ?F `` {n}"
      from n(1) f(4) obtain d where "d \<in> D" "(d, n) \<in> ?F\<^sup>*" by blast
      then show "c \<in> ?F\<^sup>* `` D" using c by (blast intro: rtrancl_into_rtrancl)
    qed
    then show "set ?a \<subseteq> ?F\<^sup>* `` D" unfolding a using f(4) by blast
    show "set ?a \<subseteq> {..<?N}" unfolding a using f(5) new(2) by blast
    show "?F `` (set ?a - set (data_list ?w)) \<subseteq> set ?a" unfolding a w using f(6) by blast
  qed (rule w(1))
  moreover have "(joined_ranks t (?a, ?w), joined_ranks t x) \<in> mult less_than"
  proof -
    let ?A = "set (data_list w) - {n}"
    have fin: "finite (?F `` {n})" unfolding cs [symmetric] by simp
    have u: "?F `` {n} \<union> ?A = ?A \<union> (?F `` {n} - ?A)" by blast
    have "mset_set (?F `` {n} \<union> ?A) = mset_set ?A + mset_set (?F `` {n} - ?A)"
      unfolding u by (rule mset_set_Union) (use fin in auto)
    then have l: "joined_ranks t (?a, ?w) = image_mset ?r (mset_set ?A) + image_mset ?r (mset_set (?F `` {n} - ?A))"
      unfolding joined_ranks_def prod.case w(2) by simp
    have r: "joined_ranks t x = image_mset ?r (mset_set ?A) + {#?r n#}"
      unfolding joined_ranks_def x prod.case using w1(2) by (simp add: mset_set.remove)
    show ?thesis unfolding l r
    proof (rule one_step_implies_mult)
      show "\<forall>k\<in>#image_mset ?r (mset_set (?F `` {n} - ?A)). \<exists>j\<in>#{#?r n#}. (k, j) \<in> less_than"
      proof
        fix k assume "k \<in># image_mset ?r (mset_set (?F `` {n} - ?A))"
        then obtain c where "c \<in> ?F `` {n}" "k = ?r c" using fin by auto
        then have "k < ?r n" using new [of c] by linarith
        then show "\<exists>j\<in>#{#?r n#}. (k, j) \<in> less_than" by simp
      qed
    qed simp
  qed
  ultimately show ?thesis using step by blast
qed

lemma joined_run:
  assumes sh: "tct_shape P C rt t" and ds: "set ds \<subseteq> {..<length (tctNodes t)}"
  shows "\<exists>all w. while_run (\<lambda>(all, w). \<not> fifo_empty w) (joined_step t s) (ds, fold (\<lambda>d w. snd (fifo_push d w)) ds fifo_new) =
    Some (Some (all, w)) \<and> set all = (full_children t s)\<^sup>* `` set ds"
proof -
  let ?F = "full_children t s" and ?x = "(ds, fold (\<lambda>d w. snd (fifo_push d w)) ds fifo_new)"
  have b: "(\<lambda>(all, w). \<not> fifo_empty w) = (\<lambda>x :: node_id std_set \<times> node_id fifo. \<not> fifo_empty (snd x))" by auto
  have "fifo_inv (fifo_new :: node_id fifo)" "data_list (fifo_new :: node_id fifo) = []" by (simp_all add: fifo_new_def fifo_inv_def)
  then have w: "fifo_inv (snd ?x)" "set (data_list (snd ?x)) = set ds" using pushes_set [of fifo_new ds] by auto
  have i: "joined_inv t s (set ds) ?x" using w ds by (auto simp: joined_inv_def)
  have "wf (inv_image (mult less_than) (joined_ranks t))" by (intro wf_inv_image wf_mult) simp
  from while_run_total [of _ "joined_inv t s (set ds)" ?x "\<lambda>x. \<not> fifo_empty (snd x)" "joined_step t s", OF this i]
  obtain x where x: "while_run (\<lambda>x. \<not> fifo_empty (snd x)) (joined_step t s) ?x = Some (Some x)" "joined_inv t s (set ds) x"
    "fifo_empty (snd x)" using joined_step_inv [OF sh, of s "set ds"] by auto
  obtain all w where e: "x = (all, w)" by (cases x)
  have c: "data_list w = []" using x(3) by (simp add: e fifo_empty_def)
  have all: "set ds \<subseteq> set all" "set all \<subseteq> ?F\<^sup>* `` set ds" "?F `` set all \<subseteq> set all"
    using x(2) by (simp_all add: joined_inv_def e c)
  have "n \<in> set all" if "(d, n) \<in> ?F\<^sup>*" "d \<in> set ds" for d n
    using that by (induction rule: rtrancl_induct) (use all(1,3) in blast)+
  then have "set all = ?F\<^sup>* `` set ds" using all(2) by blast
  then show ?thesis using x(1) unfolding b e by blast
qed

text \<open>C11: After the fork-join analysis the search for the threads joined at a join site ends, fails
  no assertion, and gives the threads joined directly together with those that a joined thread has
  itself joined in full, through any number of levels of the thread tree; the answer is stored, and
  a later query for the same site gives it again.\<close>

theorem getDirAndIndJoinedTid_closure:
  assumes "tct_ready P rt rk" and "build P = Some (Some t)" and "fja_ready P t ri"
    and "distinct ids" and "set ids = {..<length (tctNodes t)}"
    and "analyzeForkJoinPair P t ids fj_new = Some (Some s)"
  shows "\<exists>all s'. fj_getDirAndIndJoinedTid t c s = Some (Some (all, s')) \<and>
    set all = {n. \<exists>d\<in>set (fst (getDirectlyJoinedTid c s)). (d, n) \<in> {(p, q) \<in> tree_edges t. isFullJoin s p q}\<^sup>*} \<and>
    fj_getDirAndIndJoinedTid t c s' = Some (Some (all, s')) \<and> HBPair s' = HBPair s \<and> fullJoin s' = fullJoin s"
proof -
  obtain G where G: "fja_results P t {r. r < length (tctNodes t) \<and> r \<noteq> 0} G fj_new s"
    using analyzed [OF assms(1-5)] assms(6) by auto
  obtain ds s1 where g: "getDirectlyJoinedTid c s = (ds, s1)" by (cases "getDirectlyJoinedTid c s")
  have s1: "isFullJoin s1 = isFullJoin s" "dirAndIndJoinMap s1 = dirAndIndJoinMap s" "HBPair s1 = HBPair s" "fullJoin s1 = fullJoin s"
    using g by (auto simp: getDirectlyJoinedTid_def isFullJoin_def fun_eq_iff split: option.splits)
  have n: "dirAndIndJoinMap s c = None" using G by (simp add: fja_results_def fj_new_def)
  have "set ds = dj_set s c" using g by (auto simp: getDirectlyJoinedTid_def dj_set_def split: option.splits)
  also have "\<dots> \<subseteq> {..<length (tctNodes t)}" using G by (auto simp: fja_results_def dj_set_def fj_new_def)
  finally obtain all w where r: "while_run (\<lambda>(all, w). \<not> fifo_empty w) (joined_step t s1) (ds, fold (\<lambda>d w. snd (fifo_push d w)) ds fifo_new) =
    Some (Some (all, w))" "set all = (full_children t s1)\<^sup>* `` set ds"
    using joined_run [OF built(1) [OF assms(1,2)], of ds s1] by blast
  let ?s = "s1\<lparr>dirAndIndJoinMap := (dirAndIndJoinMap s1)(c \<mapsto> all)\<rparr>"
  have "fj_getDirAndIndJoinedTid t c s = Some (Some (all, ?s))"
    using n r(1) by (simp add: fj_getDirAndIndJoinedTid_def g)
  moreover have "fj_getDirAndIndJoinedTid t c ?s = Some (Some (all, ?s))" by (simp add: fj_getDirAndIndJoinedTid_def)
  moreover have "set all = {n. \<exists>d\<in>set (fst (getDirectlyJoinedTid c s)). (d, n) \<in> {(p, q) \<in> tree_edges t. isFullJoin s p q}\<^sup>*}"
    unfolding r(2) g fst_conv full_children_def s1(1) by blast
  ultimately show ?thesis using s1(3,4) by (intro exI [of _ all] exI [of _ ?s]) simp
qed

theorem getDirAndIndJoinedTid_closure_witness:
  "\<exists>t s all s'. build nested_fork = Some (Some t) \<and> analyzeForkJoinPair nested_fork t [0, 1, 2, 3] fj_new = Some (Some s) \<and>
     fj_getDirAndIndJoinedTid t (CxtStmt [] 12) s = Some (Some (all, s')) \<and> 1 \<in> set all"
proof (rule nested_fork_joined)
  fix t s assume t: "build nested_fork = Some (Some t)" "length (tctNodes t) = 4" "fja_ready nested_fork t (\<lambda>_. 0)"
    and s: "analyzeForkJoinPair nested_fork t [0, 1, 2, 3] fj_new = Some (Some s)" "getDirectlyJoinedTid (CxtStmt [] 12) s = ([1], s)"
  have "set [0, 1, 2, 3] = {..<length (tctNodes t)}" unfolding t(2) by (rule upto_4)
  from getDirAndIndJoinedTid_closure [OF nested_fork_ready t(1,3) _ this s(1), of "CxtStmt [] 12"] s(2)
  show ?thesis using t(1) s(1) by auto
qed

end
