(* ===== verification/MHP.thy ===== *)
theory MHP
  imports JoinedThreads
begin

text \<open>
  The may-happen-in-parallel analysis, class \<open>MHP\<close> of \<open>include/MTA/MHP.h\<close> and \<open>lib/MTA/MHP.cpp\<close>:
  every statement of a thread, under a calling context, gets the set of threads that may run at
  the same time, over a work list; the queries compare these sets. The timing, the printing and
  the validation against the annotations of the test programs are left out.
\<close>

section \<open>State\<close>

record mhp =
  cxtStmtList :: "cxt_thread_stmt fifo"
  threadStmtToTheadInterLeav :: "cxt_thread_stmt \<rightharpoonup> node_id set"
  instToTSMap :: "inst \<rightharpoonup> cxt_thread_stmt std_set"
  nonCandidateFuncMHPRelMap :: "func \<times> func \<rightharpoonup> bool"
  mhp_fja :: fork_join
  numOfTotalQueries :: "32 word"
  numOfMHPQueries :: "32 word"

definition mhp_init :: "fork_join \<Rightarrow> mhp" where
  "mhp_init f = \<lparr>cxtStmtList = fifo_new, threadStmtToTheadInterLeav = Map.empty, instToTSMap = Map.empty,
     nonCandidateFuncMHPRelMap = Map.empty, mhp_fja = f, numOfTotalQueries = 0, numOfMHPQueries = 0\<rparr>"

definition MHP_new :: "program \<Rightarrow> tct \<Rightarrow> node_id list \<Rightarrow> mhp run" where
  "MHP_new P t ids = and_then (analyzeForkJoinPair P t ids fj_new) (\<lambda>f. Some (Some (mhp_init f)))"

text \<open>A lookup by \<open>operator[]\<close> creates an empty set; the lookup in \<open>hasInterleavingThreads\<close> does not.\<close>

definition getInterleavingThreads :: "cxt_thread_stmt \<Rightarrow> mhp \<Rightarrow> node_id set \<times> mhp" where
  "getInterleavingThreads cts s = (case threadStmtToTheadInterLeav s cts of Some l \<Rightarrow> (l, s)
     | None \<Rightarrow> ({}, s\<lparr>threadStmtToTheadInterLeav := (threadStmtToTheadInterLeav s)(cts \<mapsto> {})\<rparr>))"

definition hasInterleavingThreads :: "mhp \<Rightarrow> cxt_thread_stmt \<Rightarrow> bool" where
  "hasInterleavingThreads s cts \<longleftrightarrow> threadStmtToTheadInterLeav s cts \<noteq> None"

definition setInterleav :: "cxt_thread_stmt \<Rightarrow> node_id set \<Rightarrow> mhp \<Rightarrow> mhp" where
  "setInterleav cts l s = s\<lparr>threadStmtToTheadInterLeav := (threadStmtToTheadInterLeav s)(cts \<mapsto> l)\<rparr>"

definition hasThreadStmtSet :: "mhp \<Rightarrow> inst \<Rightarrow> bool" where
  "hasThreadStmtSet s i \<longleftrightarrow> instToTSMap s i \<noteq> None"

definition getThreadStmtSet :: "mhp \<Rightarrow> inst \<Rightarrow> cxt_thread_stmt std_set option" where
  "getThreadStmtSet s i = instToTSMap s i"

abbreviation ts_stmt :: "cxt_thread_stmt \<Rightarrow> inst" where
  "ts_stmt c \<equiv> getStmt (ts_base c)"

abbreviation ts_cxt :: "cxt_thread_stmt \<Rightarrow> call_str_cxt" where
  "ts_cxt c \<equiv> getContext (ts_base c)"

definition insertThreadStmt :: "inst \<Rightarrow> cxt_thread_stmt \<Rightarrow> mhp \<Rightarrow> mhp" where
  "insertThreadStmt i cts s = s\<lparr>instToTSMap := (instToTSMap s)(i \<mapsto>
     set_insert cts (case instToTSMap s i of None \<Rightarrow> [] | Some ts \<Rightarrow> ts))\<rparr>"

definition mhp_push :: "cxt_thread_stmt \<Rightarrow> mhp \<Rightarrow> mhp" where
  "mhp_push cts s = s\<lparr>cxtStmtList := snd (fifo_push cts (cxtStmtList s))\<rparr>"

definition addInterleavingThread_tid :: "cxt_thread_stmt \<Rightarrow> node_id \<Rightarrow> mhp \<Rightarrow> mhp" where
  "addInterleavingThread_tid tgr tid s = (case getInterleavingThreads tgr s of (l, s1) \<Rightarrow>
     if tid \<notin> l then mhp_push tgr (insertThreadStmt (ts_stmt tgr) tgr (setInterleav tgr (insert tid l) s1))
     else s1)"

definition addInterleavingThread :: "cxt_thread_stmt \<Rightarrow> cxt_thread_stmt \<Rightarrow> mhp \<Rightarrow> mhp" where
  "addInterleavingThread tgr src s = (case getInterleavingThreads tgr s of (l, s1) \<Rightarrow>
     (case getInterleavingThreads src s1 of (l', s2) \<Rightarrow>
       if \<not> l' \<subseteq> l then mhp_push tgr (insertThreadStmt (ts_stmt tgr) tgr (setInterleav tgr (l \<union> l') s2))
       else s2))"

definition isMultiForkedThread :: "tct \<Rightarrow> node_id \<Rightarrow> bool option" where
  "isMultiForkedThread t n = map_option tn_multiforked (getGNode t n)"

definition isMustJoin :: "program \<Rightarrow> tct \<Rightarrow> node_id \<Rightarrow> inst \<Rightarrow> bool option" where
  "isMustJoin P t curTid joinsite = (if \<not> td_join P joinsite then None else
     (case isMultiForkedThread t curTid of None \<Rightarrow> None | Some True \<Rightarrow> Some False
      | Some False \<Rightarrow> map_option Not (isJoinSiteInRecursion P t joinsite)))"

definition rmInterleavingThread :: "program \<Rightarrow> tct \<Rightarrow> cxt_thread_stmt \<Rightarrow> node_id std_set \<Rightarrow> inst \<Rightarrow> mhp \<Rightarrow> mhp option" where
  "rmInterleavingThread P t tgr tids joinsite s = map_option (\<lambda>joinedTids.
       case getInterleavingThreads tgr s of (l, s1) \<Rightarrow>
         if l \<inter> joinedTids \<noteq> {} then mhp_push tgr (setInterleav tgr (l - joinedTids) s1) else s1)
     (foldM (\<lambda>d js. map_option (\<lambda>b. if b then insert d js else js) (isMustJoin P t (ts_getTid tgr) joinsite)) tids {})"

definition mhp_isHBPair :: "mhp \<Rightarrow> node_id \<Rightarrow> node_id \<Rightarrow> bool" where
  "mhp_isHBPair s t1 t2 \<longleftrightarrow> fj_isHBPair (mhp_fja s) t1 t2"

definition mhp_isJoinInSymmetricLoop :: "mhp \<Rightarrow> call_str_cxt \<Rightarrow> inst \<Rightarrow> loop option" where
  "mhp_isJoinInSymmetricLoop s cxt call = fj_isJoinInSymmetricLoop (mhp_fja s) (CxtStmt cxt call)"

definition mhp_getDirAndIndJoinedTid :: "tct \<Rightarrow> call_str_cxt \<Rightarrow> inst \<Rightarrow> mhp \<Rightarrow> (node_id std_set \<times> mhp) run" where
  "mhp_getDirAndIndJoinedTid t cxt call s = and_then (fj_getDirAndIndJoinedTid t (CxtStmt cxt call) (mhp_fja s))
     (\<lambda>(tids, f). Some (Some (tids, s\<lparr>mhp_fja := f\<rparr>)))"

section \<open>Handlers\<close>

definition mhp_handleIntra :: "program \<Rightarrow> tct \<Rightarrow> cxt_thread_stmt \<Rightarrow> mhp \<Rightarrow> mhp" where
  "mhp_handleIntra P t cts = fold (\<lambda>i. addInterleavingThread (CxtThreadStmt (ts_getTid cts) (CxtStmt (ts_cxt cts) i)) cts)
     (tct_getNextInsts P t (ts_stmt cts))"

definition handleNonCandidateFun :: "program \<Rightarrow> cxt_thread_stmt \<Rightarrow> mhp \<Rightarrow> mhp option" where
  "handleNonCandidateFun P cts s = (let curfun = fun_of P (ts_stmt cts) in
     if ts_stmt cts \<noteq> entry_inst P curfun then None
     else Some (fold (\<lambda>e s. if is_ext_fun P (e_dst e) then s
       else addInterleavingThread (CxtThreadStmt (ts_getTid cts) (CxtStmt (ts_cxt cts) (entry_inst P (e_dst e)))) cts s)
       (out_edges P curfun) s))"

definition mhp_handleFork :: "program \<Rightarrow> tct \<Rightarrow> cxt_thread_stmt \<Rightarrow> mhp \<Rightarrow> mhp option" where
  "mhp_handleFork P t cts s = (let call = ts_stmt cts in
     if \<not> td_fork P call then None else
     map_option (mhp_handleIntra P t cts)
       (if call_edges P call = None then Some s else
        (case fork_edges P call of None \<Rightarrow> None
         | Some es \<Rightarrow> foldM (\<lambda>e s. let newCxt = tct_pushCxt P t (ts_cxt cts) call (e_dst e) in
             map_option (\<lambda>n. addInterleavingThread (CxtThreadStmt n (CxtStmt newCxt (entry_inst P (e_dst e)))) cts s)
               (getTCTNode_ct t (CxtThread newCxt call))) es s)))"

definition mhp_handleJoin :: "program \<Rightarrow> tct \<Rightarrow> cxt_thread_stmt \<Rightarrow> mhp \<Rightarrow> mhp run" where
  "mhp_handleJoin P t cts s = (let call = ts_stmt cts; curCxt = ts_cxt cts;
       exits = \<lambda>lp. map (\<lambda>eb. CxtThreadStmt (ts_getTid cts) (CxtStmt curCxt (bb_front P eb))) (rev (loop_exits P lp)) in
     if \<not> td_join P call then Some None else
     and_then (mhp_getDirAndIndJoinedTid t curCxt call s) (\<lambda>(joinedTids, s1).
       Some (map_option (mhp_handleIntra P t cts)
        (if joinedTids \<noteq> [] then
          (case getJoinLoop P t call of None \<Rightarrow> None
           | Some (Some lp) \<Rightarrow> foldM (\<lambda>newCts s. let s2 = addInterleavingThread newCts cts s in
               if mhp_isJoinInSymmetricLoop s2 curCxt call \<noteq> None then rmInterleavingThread P t newCts joinedTids call s2
               else Some s2) (exits lp) s1
           | Some None \<Rightarrow> rmInterleavingThread P t cts joinedTids call s1)
         else
          (case getJoinLoop P t call of None \<Rightarrow> None
           | Some (Some lp) \<Rightarrow> Some (fold (\<lambda>newCts. addInterleavingThread newCts cts) (exits lp) s1)
           | Some None \<Rightarrow> Some s1)))))"

definition mhp_handleCall :: "program \<Rightarrow> tct \<Rightarrow> cxt_thread_stmt \<Rightarrow> mhp \<Rightarrow> mhp" where
  "mhp_handleCall P t cts s = (let call = ts_stmt cts in
     case call_edges P call of None \<Rightarrow> s
     | Some es \<Rightarrow> fold (\<lambda>e s. if is_ext_fun P (e_dst e) then s
         else addInterleavingThread (CxtThreadStmt (ts_getTid cts)
           (CxtStmt (tct_pushCxt P t (ts_cxt cts) call (e_dst e)) (entry_inst P (e_dst e)))) cts s) es s)"

definition mhp_return_to :: "program \<Rightarrow> tct \<Rightarrow> cxt_thread_stmt \<Rightarrow> inst \<Rightarrow> mhp \<Rightarrow> mhp" where
  "mhp_return_to P t cts cs s = (case tct_matchCxt P t (ts_cxt cts) cs (fun_of P (ts_stmt cts)) of
     (True, cxt) \<Rightarrow> fold (\<lambda>i. addInterleavingThread (CxtThreadStmt (ts_getTid cts) (CxtStmt cxt i)) cts) (tct_getNextInsts P t cs) s
   | (False, _) \<Rightarrow> s)"

definition mhp_handleRet :: "program \<Rightarrow> tct \<Rightarrow> cxt_thread_stmt \<Rightarrow> mhp \<Rightarrow> mhp" where
  "mhp_handleRet P t cts = fold (\<lambda>e s. if e_kind e = TDForkEdge \<or> e_kind e = TDJoinEdge then s
     else fold (mhp_return_to P t cts) (e_indirect e) (fold (mhp_return_to P t cts) (e_direct e) s))
     (in_edges P (fun_of P (ts_stmt cts)))"

section \<open>Ancestors and siblings\<close>

definition updateAncestorThread :: "program \<Rightarrow> tct \<Rightarrow> node_id \<Rightarrow> node_id \<Rightarrow> mhp \<Rightarrow> mhp option" where
  "updateAncestorThread P t curTid n s = (case getGNode t n of None \<Rightarrow> None
     | Some nd \<Rightarrow> (let forkInst = ct_forksite (tn_ctx nd) in
       if forkInst = null_inst then Some s
       else (case getCxtOfCxtThread t (tn_ctx nd) of None \<Rightarrow> None
         | Some forkSiteCxt \<Rightarrow> foldM (\<lambda>i s. map_option (\<lambda>p.
               addInterleavingThread_tid (CxtThreadStmt p (CxtStmt forkSiteCxt i)) curTid s) (getParentThread t n))
             (tct_getNextInsts P t forkInst) s)))"

definition updateAncestorThreads :: "program \<Rightarrow> tct \<Rightarrow> node_id \<Rightarrow> mhp \<Rightarrow> mhp run" where
  "updateAncestorThreads P t curTid s = and_then (getAncestorThread t curTid) (\<lambda>tds.
     Some (foldM (updateAncestorThread P t curTid) (set_insert curTid tds) s))"

text \<open>The loop over the incoming edges leaves the function on some branches.\<close>

fun recur_join_edges :: "fork_join \<Rightarrow> node_id \<Rightarrow> node_id \<Rightarrow> node_id list \<Rightarrow> node_id fifo \<Rightarrow> bool + node_id fifo" where
  "recur_join_edges f parentTid n [] w = Inr w"
| "recur_join_edges f parentTid n (src # srcs) w = (if isFullJoin f src n then
      (if src = parentTid then Inl True else recur_join_edges f parentTid n srcs (snd (fifo_push src w)))
    else Inl False)"

definition recur_join_step :: "tct \<Rightarrow> fork_join \<Rightarrow> node_id \<Rightarrow> bool + node_id fifo \<Rightarrow> (bool + node_id fifo) run" where
  "recur_join_step t f parentTid r = (case r of Inl b \<Rightarrow> Some (Some (Inl b))
     | Inr w \<Rightarrow> (case fifo_pop w of None \<Rightarrow> Some (Some (Inr w))
       | Some (n, w1) \<Rightarrow> Some (map_option (\<lambda>nd. recur_join_edges f parentTid n (tn_in nd) w1) (getGNode t n))))"

definition isRecurFullJoin :: "tct \<Rightarrow> fork_join \<Rightarrow> node_id \<Rightarrow> node_id \<Rightarrow> bool run" where
  "isRecurFullJoin t f parentTid curTid = (if parentTid = curTid then Some (Some True)
     else if getGNode t curTid = None then Some None
     else and_then (while_run (\<lambda>r. case r of Inl _ \<Rightarrow> False | Inr w \<Rightarrow> \<not> fifo_empty w) (recur_join_step t f parentTid)
         (Inr (snd (fifo_push curTid fifo_new))))
       (\<lambda>r. Some (Some (case r of Inl b \<Rightarrow> b | Inr _ \<Rightarrow> False))))"

definition updateSiblingThread :: "program \<Rightarrow> tct \<Rightarrow> node_id \<Rightarrow> node_id \<Rightarrow> node_id \<Rightarrow> mhp \<Rightarrow> mhp run" where
  "updateSiblingThread P t curTid c n s =
     and_then (if mhp_isHBPair s c n then isRecurFullJoin t (mhp_fja s) c curTid else Some (Some False)) (\<lambda>full.
       if full \<or> mhp_isHBPair s n c then Some (Some s)
       else Some (case getGNode t n of None \<Rightarrow> None
         | Some nd \<Rightarrow> map_option (\<lambda>routine. addInterleavingThread_tid
               (CxtThreadStmt n (CxtStmt (ct_cxt (tn_ctx nd)) (entry_inst P routine))) curTid s)
             (getStartRoutineOfCxtThread t (tn_ctx nd))))"

definition updateSiblingThreads :: "program \<Rightarrow> tct \<Rightarrow> node_id \<Rightarrow> mhp \<Rightarrow> mhp run" where
  "updateSiblingThreads P t curTid s = and_then (getAncestorThread t curTid) (\<lambda>tds.
     foldR (\<lambda>c s. and_then (Some (getSiblingThread t c)) (\<lambda>sib. foldR (updateSiblingThread P t curTid c) sib s))
       (set_insert curTid tds) s)"

section \<open>The analysis\<close>

definition mhp_dispatch :: "program \<Rightarrow> tct \<Rightarrow> cxt_thread_stmt \<Rightarrow> mhp \<Rightarrow> mhp run" where
  "mhp_dispatch P t cts s = (let i = ts_stmt cts in
     if \<not> isCandidateFun t (fun_of P i) then Some (handleNonCandidateFun P cts s)
     else if td_fork P i then Some (mhp_handleFork P t cts s)
     else if td_join P i then mhp_handleJoin P t cts s
     else if is_call P i \<and> \<not> is_ext_call P i then
       (let s1 = mhp_handleCall P t cts s in
        Some (Some (if \<not> callee_candidate P t i then mhp_handleIntra P t cts s1 else s1)))
     else if is_return P i then Some (Some (mhp_handleRet P t cts s))
     else Some (Some (mhp_handleIntra P t cts s)))"

definition mhp_step :: "program \<Rightarrow> tct \<Rightarrow> mhp \<Rightarrow> mhp run" where
  "mhp_step P t s = (case fifo_pop (cxtStmtList s) of None \<Rightarrow> Some (Some s)
     | Some (cts, w) \<Rightarrow> mhp_dispatch P t cts (s\<lparr>cxtStmtList := w\<rparr>))"

definition mhp_root_stmt :: "program \<Rightarrow> tct \<Rightarrow> node_id \<Rightarrow> cxt_thread_stmt option" where
  "mhp_root_stmt P t n = (case getGNode t n of None \<Rightarrow> None
     | Some nd \<Rightarrow> map_option (\<lambda>routine. CxtThreadStmt n (CxtStmt (ct_cxt (tn_ctx nd)) (entry_inst P routine)))
         (getStartRoutineOfCxtThread t (tn_ctx nd)))"

definition mhp_root :: "program \<Rightarrow> tct \<Rightarrow> node_id \<Rightarrow> mhp \<Rightarrow> mhp run" where
  "mhp_root P t n s = (case mhp_root_stmt P t n of None \<Rightarrow> Some None
     | Some rootcts \<Rightarrow>
       and_then (updateAncestorThreads P t n (addInterleavingThread_tid rootcts n s)) (\<lambda>s1.
       and_then (updateSiblingThreads P t n s1)
         (while_run (\<lambda>s. \<not> fifo_empty (cxtStmtList s)) (mhp_step P t))))"

definition copy_interleav :: "cxt_thread_stmt \<Rightarrow> inst \<Rightarrow> mhp \<Rightarrow> mhp" where
  "copy_interleav cts i s = (let newCts = CxtThreadStmt (ts_getTid cts) (CxtStmt (ts_cxt cts) i) in
     case getInterleavingThreads newCts s of (l, s1) \<Rightarrow> (case getInterleavingThreads cts s1 of (l', s2) \<Rightarrow>
       insertThreadStmt i newCts (setInterleav newCts (l \<union> l') s2)))"

definition updateNonCandidateFun :: "program \<Rightarrow> tct \<Rightarrow> func \<Rightarrow> mhp \<Rightarrow> mhp" where
  "updateNonCandidateFun P t f s = (if \<not> isCandidateFun t f \<and> \<not> is_ext_fun P f then
     (let entryinst = entry_inst P f in
      case instToTSMap s entryinst of None \<Rightarrow> s
      | Some tsSet \<Rightarrow> fold (\<lambda>cts. fold (\<lambda>i s. if i = entryinst then s else copy_interleav cts i s) (fun_insts P f)) tsSet s)
     else s)"

definition updateNonCandidateFunInterleaving :: "program \<Rightarrow> tct \<Rightarrow> mhp \<Rightarrow> mhp" where
  "updateNonCandidateFunInterleaving P t = fold (updateNonCandidateFun P t) (mod_funs P)"

text \<open>The order in which the map of the nodes is iterated is an argument.\<close>

definition analyzeInterleaving :: "program \<Rightarrow> tct \<Rightarrow> node_id list \<Rightarrow> mhp \<Rightarrow> mhp run" where
  "analyzeInterleaving P t ids s = and_then (foldR (mhp_root P t) ids s)
     (\<lambda>s1. Some (Some (updateNonCandidateFunInterleaving P t s1)))"

section \<open>Queries\<close>

definition countMHP :: "mhp \<Rightarrow> mhp" where
  "countMHP s = s\<lparr>numOfMHPQueries := numOfMHPQueries s + 1\<rparr>"

fun mhp_scan :: "tct \<Rightarrow> cxt_thread_stmt \<Rightarrow> node_id set \<Rightarrow> cxt_thread_stmt list \<Rightarrow> mhp \<Rightarrow> (bool \<times> mhp) option" where
  "mhp_scan t ts1 l1 [] s = Some (False, s)"
| "mhp_scan t ts1 l1 (ts2 # tss) s = (case getInterleavingThreads ts2 s of (l2, s1) \<Rightarrow>
     if ts_getTid ts1 \<noteq> ts_getTid ts2 then
       (if ts_getTid ts2 \<in> l1 \<and> ts_getTid ts1 \<in> l2 then Some (True, countMHP s1) else mhp_scan t ts1 l1 tss s1)
     else (case isMultiForkedThread t (ts_getTid ts1) of None \<Rightarrow> None
       | Some b \<Rightarrow> if b then Some (True, countMHP s1) else mhp_scan t ts1 l1 tss s1))"

fun mhp_scans :: "tct \<Rightarrow> cxt_thread_stmt list \<Rightarrow> cxt_thread_stmt list \<Rightarrow> mhp \<Rightarrow> (bool \<times> mhp) option" where
  "mhp_scans t [] tss2 s = Some (False, s)"
| "mhp_scans t (ts1 # tss1) tss2 s = (case getInterleavingThreads ts1 s of (l1, s1) \<Rightarrow>
     (case mhp_scan t ts1 l1 tss2 s1 of None \<Rightarrow> None | Some (True, s2) \<Rightarrow> Some (True, s2)
      | Some (False, s2) \<Rightarrow> mhp_scans t tss1 tss2 s2))"

definition mayHappenInParallelInst :: "tct \<Rightarrow> inst \<Rightarrow> inst \<Rightarrow> mhp \<Rightarrow> (bool \<times> mhp) option" where
  "mayHappenInParallelInst t i1 i2 s = (if \<not> hasThreadStmtSet s i1 \<or> \<not> hasThreadStmtSet s i2 then Some (False, s)
     else (case getThreadStmtSet s i1 of None \<Rightarrow> None
       | Some ts1 \<Rightarrow> (case getThreadStmtSet s i2 of None \<Rightarrow> None | Some ts2 \<Rightarrow> mhp_scans t ts1 ts2 s)))"

definition mayHappenInParallelCache :: "program \<Rightarrow> tct \<Rightarrow> inst \<Rightarrow> inst \<Rightarrow> mhp \<Rightarrow> (bool \<times> mhp) option" where
  "mayHappenInParallelCache P t i1 i2 s =
     (if \<not> isCandidateFun t (fun_of P i1) \<and> \<not> isCandidateFun t (fun_of P i2) then
        (let funpair = (fun_of P i1, fun_of P i2) in
         case nonCandidateFuncMHPRelMap s funpair of
           None \<Rightarrow> map_option (\<lambda>(b, s1). (b, s1\<lparr>nonCandidateFuncMHPRelMap := (nonCandidateFuncMHPRelMap s1)(funpair \<mapsto> b)\<rparr>))
             (mayHappenInParallelInst t i1 i2 s)
         | Some b \<Rightarrow> Some (b, if b then countMHP s else s))
      else mayHappenInParallelInst t i1 i2 s)"

definition mayHappenInParallel :: "program \<Rightarrow> tct \<Rightarrow> inst \<Rightarrow> inst \<Rightarrow> mhp \<Rightarrow> (bool \<times> mhp) option" where
  "mayHappenInParallel P t i1 i2 s = mayHappenInParallelCache P t i1 i2 (s\<lparr>numOfTotalQueries := numOfTotalQueries s + 1\<rparr>)"

fun same_thread_scan :: "tct \<Rightarrow> cxt_thread_stmt \<Rightarrow> cxt_thread_stmt list \<Rightarrow> bool option" where
  "same_thread_scan t ts1 [] = Some True"
| "same_thread_scan t ts1 (ts2 # tss) = (if ts_getTid ts1 \<noteq> ts_getTid ts2 then Some False
     else (case isMultiForkedThread t (ts_getTid ts1) of None \<Rightarrow> None
       | Some b \<Rightarrow> if b then Some False else same_thread_scan t ts1 tss))"

fun same_thread_scans :: "tct \<Rightarrow> cxt_thread_stmt list \<Rightarrow> cxt_thread_stmt list \<Rightarrow> bool option" where
  "same_thread_scans t [] tss2 = Some True"
| "same_thread_scans t (ts1 # tss1) tss2 = (case same_thread_scan t ts1 tss2 of None \<Rightarrow> None
     | Some b \<Rightarrow> if b then same_thread_scans t tss1 tss2 else Some False)"

definition executedByTheSameThread :: "tct \<Rightarrow> inst \<Rightarrow> inst \<Rightarrow> mhp \<Rightarrow> bool option" where
  "executedByTheSameThread t i1 i2 s = (if \<not> hasThreadStmtSet s i1 \<or> \<not> hasThreadStmtSet s i2 then Some True
     else (case getThreadStmtSet s i1 of None \<Rightarrow> None
       | Some ts1 \<Rightarrow> (case getThreadStmtSet s i2 of None \<Rightarrow> None | Some ts2 \<Rightarrow> same_thread_scans t ts1 ts2)))"

text \<open>\<open>isConnectedfromMain\<close>: the functions found by going from callee to caller.\<close>

record main_search =
  ms_visited :: "func std_set"
  ms_work :: "func fifo"
  ms_found :: bool

definition main_push :: "func \<Rightarrow> main_search \<Rightarrow> main_search" where
  "main_push f m = (if \<not> set_find f (ms_visited m)
     then m\<lparr>ms_visited := set_insert f (ms_visited m), ms_work := snd (fifo_push f (ms_work m))\<rparr> else m)"

definition main_step :: "program \<Rightarrow> main_search \<Rightarrow> main_search" where
  "main_step P m = (case fifo_pop (ms_work m) of None \<Rightarrow> m
     | Some (f, w) \<Rightarrow> if fun_name P f = ''main'' then m\<lparr>ms_work := w, ms_found := True\<rparr>
         else fold main_push (map e_src (in_edges P f)) (m\<lparr>ms_work := w\<rparr>))"

definition isConnectedfromMain :: "program \<Rightarrow> func \<Rightarrow> bool option" where
  "isConnectedfromMain P f = map_option ms_found (while_option (\<lambda>m. \<not> fifo_empty (ms_work m) \<and> \<not> ms_found m) (main_step P)
     \<lparr>ms_visited = [f], ms_work = snd (fifo_push f fifo_new), ms_found = False\<rparr>)"

end
