(* ===== verification/MHPFlow.thy ===== *)
theory MHPFlow
  imports MHP
begin

text \<open>
  A visit of the interleaving analysis, seen as operations of the propagation contract: the
  threads joined at a join site are removed there or at the exits of its loop, and the rest
  flows on.
\<close>

section \<open>States\<close>

definition itl :: "mhp \<Rightarrow> cxt_thread_stmt \<Rightarrow> node_id set" where
  "itl s c = (case threadStmtToTheadInterLeav s c of None \<Rightarrow> {} | Some l \<Rightarrow> l)"

definition ts_of :: "mhp \<Rightarrow> inst \<Rightarrow> cxt_thread_stmt set" where
  "ts_of s i = (case instToTSMap s i of None \<Rightarrow> {} | Some ts \<Rightarrow> set ts)"

definition mhp_pend :: "mhp \<Rightarrow> cxt_thread_stmt set" where
  "mhp_pend s = set (data_list (cxtStmtList s))"

definition mhp_flow :: "mhp \<Rightarrow> (cxt_thread_stmt, node_id) flow" where
  "mhp_flow s = (itl s, mhp_pend s)"

text \<open>A statement with interleaving threads, or on the work list, is recorded for its instruction.\<close>

definition mhp_ok :: "mhp \<Rightarrow> bool" where
  "mhp_ok s \<longleftrightarrow> fifo_inv (cxtStmtList s) \<and> (\<forall>i. \<forall>d\<in>ts_of s i. ts_stmt d = i) \<and>
     (\<forall>d. itl s d \<noteq> {} \<longrightarrow> d \<in> ts_of s (ts_stmt d)) \<and> (\<forall>d\<in>mhp_pend s. d \<in> ts_of s (ts_stmt d)) \<and>
     (\<forall>i. instToTSMap s i \<noteq> Some [])"

definition mhp_frame :: "mhp \<Rightarrow> mhp \<Rightarrow> bool" where
  "mhp_frame s s' \<longleftrightarrow> (\<forall>i. ts_of s i \<subseteq> ts_of s' i \<and> ts_of s' i \<subseteq> ts_of s i \<union> mhp_pend s') \<and> mhp_pend s \<subseteq> mhp_pend s' \<and>
     nonCandidateFuncMHPRelMap s' = nonCandidateFuncMHPRelMap s \<and>
     numOfTotalQueries s' = numOfTotalQueries s \<and> numOfMHPQueries s' = numOfMHPQueries s"

lemma mhp_frame_refl: "mhp_frame s s"
  by (simp add: mhp_frame_def)

lemma mhp_frame_trans:
  assumes "mhp_frame s s1" "mhp_frame s1 s2"
  shows "mhp_frame s s2"
proof -
  have "ts_of s i \<subseteq> ts_of s2 i \<and> ts_of s2 i \<subseteq> ts_of s i \<union> mhp_pend s2" for i
  proof -
    have "ts_of s i \<subseteq> ts_of s1 i" "ts_of s1 i \<subseteq> ts_of s i \<union> mhp_pend s1" "ts_of s1 i \<subseteq> ts_of s2 i"
      "ts_of s2 i \<subseteq> ts_of s1 i \<union> mhp_pend s2" "mhp_pend s1 \<subseteq> mhp_pend s2" using assms by (simp_all add: mhp_frame_def)
    then show ?thesis by blast
  qed
  then show ?thesis using assms by (auto simp: mhp_frame_def)
qed

section \<open>Primitive operations\<close>

lemma getInterleavingThreads_eq:
  assumes "getInterleavingThreads c s = (l, s')"
  shows "l = itl s c" "itl s' = itl s" "instToTSMap s' = instToTSMap s" "cxtStmtList s' = cxtStmtList s" "mhp_fja s' = mhp_fja s"
    "nonCandidateFuncMHPRelMap s' = nonCandidateFuncMHPRelMap s" "numOfTotalQueries s' = numOfTotalQueries s"
    "numOfMHPQueries s' = numOfMHPQueries s"
  using assms by (auto simp: getInterleavingThreads_def itl_def fun_eq_iff split: option.splits if_splits)

text \<open>Setting the threads of a statement, with or without recording it.\<close>

definition mhp_put :: "bool \<Rightarrow> cxt_thread_stmt \<Rightarrow> node_id set \<Rightarrow> mhp \<Rightarrow> mhp" where
  "mhp_put b c l s = mhp_push c ((if b then insertThreadStmt (ts_stmt c) c else (\<lambda>s. s)) (setInterleav c l s))"

lemma mhp_put_effect:
  assumes "mhp_ok s" "\<not> b \<longrightarrow> itl s c \<noteq> {}"
  shows "mhp_ok (mhp_put b c l s)" "mhp_flow (mhp_put b c l s) = ((itl s)(c := l), insert c (mhp_pend s))"
    "mhp_frame s (mhp_put b c l s)" "mhp_fja (mhp_put b c l s) = mhp_fja s"
proof -
  let ?s = "mhp_put b c l s"
  have f: "fifo_inv (cxtStmtList s)" using assms(1) by (simp add: mhp_ok_def)
  have i: "itl ?s = (itl s)(c := l)"
    by (auto simp: mhp_put_def itl_def setInterleav_def insertThreadStmt_def mhp_push_def fun_eq_iff)
  have w: "mhp_pend ?s = insert c (mhp_pend s)" "fifo_inv (cxtStmtList ?s)"
    using fifo.push_set [OF f, of c] fifo.push_inv [OF f, of c]
    by (auto simp: mhp_put_def mhp_pend_def setInterleav_def insertThreadStmt_def mhp_push_def)
  have t: "ts_of ?s i = ts_of s i \<union> (if b \<and> i = ts_stmt c then {c} else {})" for i
    by (auto simp: mhp_put_def ts_of_def setInterleav_def insertThreadStmt_def mhp_push_def split: option.splits)
  have n: "instToTSMap ?s i \<noteq> Some []" for i
  proof -
    have "set_insert c xs \<noteq> []" for xs by (metis set_set_insert insert_not_empty list.set(1))
    then show ?thesis using assms(1)
      by (auto simp: mhp_ok_def mhp_put_def setInterleav_def insertThreadStmt_def mhp_push_def)
  qed
  have c: "c \<in> ts_of ?s (ts_stmt c)"
  proof (cases b)
    case False
    then have "itl s c \<noteq> {}" using assms(2) by simp
    then have "c \<in> ts_of s (ts_stmt c)" using assms(1) unfolding mhp_ok_def by blast
    then show ?thesis unfolding t by blast
  next
    case True
    then show ?thesis unfolding t by simp
  qed
  show "mhp_flow ?s = ((itl s)(c := l), insert c (mhp_pend s))" by (simp add: mhp_flow_def i w)
  have ok: "\<And>i d. d \<in> ts_of s i \<Longrightarrow> ts_stmt d = i" "\<And>d. itl s d \<noteq> {} \<or> d \<in> mhp_pend s \<Longrightarrow> d \<in> ts_of s (ts_stmt d)"
    using assms(1) unfolding mhp_ok_def by blast+
  have d: "d \<in> ts_of ?s (ts_stmt d)" if "itl s d \<noteq> {} \<or> d \<in> mhp_pend s \<or> d = c" for d
  proof (cases "d = c")
    case False
    then have "d \<in> ts_of s (ts_stmt d)" using ok(2) that by blast
    then show ?thesis unfolding t by blast
  qed (simp add: c)
  have e: "ts_stmt d = i" if "d \<in> ts_of ?s i" for d i
  proof (cases "d \<in> ts_of s i")
    case False
    then show ?thesis using that unfolding t by (simp split: if_splits)
  qed (rule ok(1))
  show "mhp_ok ?s"
    unfolding mhp_ok_def
  proof (intro conjI allI ballI impI)
    show "fifo_inv (cxtStmtList ?s)" by (rule w(2))
    show "ts_stmt d = i" if "d \<in> ts_of ?s i" for d i by (rule e [OF that])
    show "d \<in> ts_of ?s (ts_stmt d)" if "itl ?s d \<noteq> {}" for d by (rule d) (use that in \<open>auto simp: i split: if_splits\<close>)
    show "d \<in> ts_of ?s (ts_stmt d)" if "d \<in> mhp_pend ?s" for d by (rule d) (use that in \<open>auto simp: w\<close>)
    show "instToTSMap ?s i \<noteq> Some []" for i by (rule n)
  qed
  show "mhp_frame s ?s" unfolding mhp_frame_def w t
    by (auto simp: mhp_put_def setInterleav_def insertThreadStmt_def mhp_push_def)
  show "mhp_fja ?s = mhp_fja s" by (simp add: mhp_put_def setInterleav_def insertThreadStmt_def mhp_push_def)
qed

lemma same_state:
  assumes "itl s' = itl s" "instToTSMap s' = instToTSMap s" "cxtStmtList s' = cxtStmtList s"
    "nonCandidateFuncMHPRelMap s' = nonCandidateFuncMHPRelMap s" "numOfTotalQueries s' = numOfTotalQueries s"
    "numOfMHPQueries s' = numOfMHPQueries s"
  shows "mhp_ok s' = mhp_ok s" "mhp_flow s' = mhp_flow s" "mhp_frame s s'" "mhp_frame s' r = mhp_frame s r"
  using assms by (simp_all add: mhp_ok_def mhp_flow_def mhp_frame_def mhp_pend_def ts_of_def)

lemma addInterleavingThread_effect:
  assumes "mhp_ok s"
  shows "mhp_ok (addInterleavingThread d c s)" "mhp_frame s (addInterleavingThread d c s)"
    "mhp_fja (addInterleavingThread d c s) = mhp_fja s"
    "mhp_flow (addInterleavingThread d c s) = do_op (itl s c) (Flow d) (mhp_flow s)"
proof -
  obtain l s1 where a: "getInterleavingThreads d s = (l, s1)" by (cases "getInterleavingThreads d s")
  obtain l' s2 where b: "getInterleavingThreads c s1 = (l', s2)" by (cases "getInterleavingThreads c s1")
  note A = getInterleavingThreads_eq [OF a] and B = getInterleavingThreads_eq [OF b]
  have l: "l = itl s d" "l' = itl s c" "itl s2 = itl s" "mhp_pend s2 = mhp_pend s" "mhp_fja s2 = mhp_fja s"
    using A B by (simp_all add: mhp_pend_def)
  have s2: "mhp_ok s2" "mhp_flow s2 = mhp_flow s" "mhp_frame s s2" "mhp_frame s2 r = mhp_frame s r" for r
    using same_state [of s2 s] A B assms by simp_all
  have e: "addInterleavingThread d c s = (if l' \<subseteq> l then s2 else mhp_put True d (l \<union> l') s2)"
    by (simp add: addInterleavingThread_def a b mhp_put_def)
  note P = mhp_put_effect [OF s2(1), of True d "l \<union> l'"]
  show "mhp_ok (addInterleavingThread d c s)" using s2 P unfolding e by simp
  show "mhp_frame s (addInterleavingThread d c s)" using s2 P unfolding e by simp
  show "mhp_fja (addInterleavingThread d c s) = mhp_fja s" using l P unfolding e by simp
  have w: "mhp_flow s = (itl s, mhp_pend s)" by (simp add: mhp_flow_def)
  show "mhp_flow (addInterleavingThread d c s) = do_op (itl s c) (Flow d) (mhp_flow s)"
  proof (cases "l' \<subseteq> l")
    case True
    then have "itl s d \<union> itl s c = itl s d" using l by blast
    then show ?thesis using True s2 unfolding e w by (simp add: do_op_def fun_upd_idem w)
  next
    case False
    then have "itl s d \<union> itl s c \<noteq> itl s d" using l by blast
    then show ?thesis using False P l unfolding e w by (simp add: do_op_def)
  qed
qed

lemma addInterleavingThread_tid_effect:
  assumes "mhp_ok s"
  shows "mhp_ok (addInterleavingThread_tid d n s)" "mhp_frame s (addInterleavingThread_tid d n s)"
    "mhp_fja (addInterleavingThread_tid d n s) = mhp_fja s"
    "mhp_flow (addInterleavingThread_tid d n s) = do_op {} (Put d {n}) (mhp_flow s)"
proof -
  obtain l s1 where a: "getInterleavingThreads d s = (l, s1)" by (cases "getInterleavingThreads d s")
  note A = getInterleavingThreads_eq [OF a]
  have s1: "mhp_ok s1" "mhp_flow s1 = mhp_flow s" "mhp_frame s s1" "mhp_frame s1 r = mhp_frame s r" for r
    using same_state [of s1 s] A assms by simp_all
  have e: "addInterleavingThread_tid d n s = (if n \<in> l then s1 else mhp_put True d (insert n l) s1)"
    by (simp add: addInterleavingThread_tid_def a mhp_put_def)
  note P = mhp_put_effect [OF s1(1), of True d "insert n l"]
  show "mhp_ok (addInterleavingThread_tid d n s)" using s1 P unfolding e by simp
  show "mhp_frame s (addInterleavingThread_tid d n s)" using s1 P unfolding e by simp
  show "mhp_fja (addInterleavingThread_tid d n s) = mhp_fja s" using A P unfolding e by simp
  have w: "mhp_flow s = (itl s, mhp_pend s)" "mhp_pend s1 = mhp_pend s" using A by (simp_all add: mhp_flow_def mhp_pend_def)
  show "mhp_flow (addInterleavingThread_tid d n s) = do_op {} (Put d {n}) (mhp_flow s)"
  proof (cases "n \<in> l")
    case True
    then have "itl s d \<union> {n} = itl s d" using A by blast
    then show ?thesis using True s1 unfolding e w(1) by (simp add: do_op_def fun_upd_idem w(1))
  next
    case False
    then have "itl s d \<union> {n} \<noteq> itl s d" "insert n l = itl s d \<union> {n}" using A by blast+
    then show ?thesis using False P A w(2) unfolding e w(1) by (simp add: do_op_def)
  qed
qed

section \<open>The joined threads\<close>

text \<open>The results of the fork-join analysis do not change, but for the stored answers.\<close>

definition join_threads :: "tct \<Rightarrow> fork_join \<Rightarrow> cxt_stmt \<Rightarrow> node_id set" where
  "join_threads t f c = (full_children t f)\<^sup>* `` dj_set f c"

definition fja_ext :: "tct \<Rightarrow> fork_join \<Rightarrow> fork_join \<Rightarrow> bool" where
  "fja_ext t f0 f \<longleftrightarrow> HBPair f = HBPair f0 \<and> HPPair f = HPPair f0 \<and> fullJoin f = fullJoin f0 \<and>
     partialJoin f = partialJoin f0 \<and> cxtJoinInLoop f = cxtJoinInLoop f0 \<and> (\<forall>c. dj_set f c = dj_set f0 c) \<and>
     (\<forall>c ds. dirAndIndJoinMap f c = Some ds \<longrightarrow> set ds = join_threads t f0 c)"

lemma fja_ext_full:
  assumes "fja_ext t f0 f"
  shows "isFullJoin f = isFullJoin f0" "fj_isHBPair f = fj_isHBPair f0" "full_children t f = full_children t f0"
proof -
  have f: "fullJoin f = fullJoin f0" "partialJoin f = partialJoin f0" "HBPair f = HBPair f0" "HPPair f = HPPair f0"
    using assms by (simp_all add: fja_ext_def)
  show i: "isFullJoin f = isFullJoin f0" by (simp add: isFullJoin_def fun_eq_iff f)
  show "fj_isHBPair f = fj_isHBPair f0" by (simp add: fj_isHBPair_def fun_eq_iff f)
  show "full_children t f = full_children t f0" by (simp add: full_children_def i)
qed

lemma joined_ext:
  assumes sh: "tct_shape P C rt t" and d: "dj_set f0 c \<subseteq> {..<length (tctNodes t)}" and e: "fja_ext t f0 f"
  shows "\<exists>ds f'. fj_getDirAndIndJoinedTid t c f = Some (Some (ds, f')) \<and> set ds = join_threads t f0 c \<and> fja_ext t f0 f'"
proof (cases "dirAndIndJoinMap f c")
  case (Some ds)
  then show ?thesis using e by (simp add: fj_getDirAndIndJoinedTid_def fja_ext_def)
next
  case None
  obtain ds f1 where g: "getDirectlyJoinedTid c f = (ds, f1)" by (cases "getDirectlyJoinedTid c f")
  have f1: "HBPair f1 = HBPair f" "HPPair f1 = HPPair f" "fullJoin f1 = fullJoin f" "partialJoin f1 = partialJoin f"
    "cxtJoinInLoop f1 = cxtJoinInLoop f" "dirAndIndJoinMap f1 = dirAndIndJoinMap f" "dj_set f1 b = dj_set f b" "set ds = dj_set f c" for b
    using g by (auto simp: getDirectlyJoinedTid_def dj_set_def split: option.splits if_splits)
  have e1: "fja_ext t f0 f1" using e by (simp add: fja_ext_def f1)
  have ds: "set ds = dj_set f0 c" using e f1(8) by (simp add: fja_ext_def)
  obtain all w where r: "while_run (\<lambda>(all, w). \<not> fifo_empty w) (joined_step t f1) (ds, fold (\<lambda>d w. snd (fifo_push d w)) ds fifo_new) =
    Some (Some (all, w))" "set all = (full_children t f1)\<^sup>* `` set ds"
    using joined_run [OF sh, of ds f1] d ds by auto
  have a: "set all = join_threads t f0 c" unfolding r(2) join_threads_def ds fja_ext_full(3) [OF e1] ..
  let ?f = "f1\<lparr>dirAndIndJoinMap := (dirAndIndJoinMap f1)(c \<mapsto> all)\<rparr>"
  have "fja_ext t f0 ?f" using e1 a by (auto simp: fja_ext_def dj_set_def)
  then show ?thesis using None r(1) a by (simp add: fj_getDirAndIndJoinedTid_def g)
qed

section \<open>Handlers as operations\<close>

text \<open>What a sequence of steps of a visit of \<open>c\<close> does, when none changes the threads of \<open>c\<close>.\<close>

definition mhp_sim :: "cxt_thread_stmt \<Rightarrow> (mhp \<Rightarrow> mhp option) \<Rightarrow> (cxt_thread_stmt, node_id) flow_op list \<Rightarrow> bool" where
  "mhp_sim c h ops \<longleftrightarrow> (\<forall>x\<in>set ops. flow_target x = c \<longrightarrow> x = Flow c) \<and>
     (\<forall>s. mhp_ok s \<longrightarrow> (\<exists>s'. h s = Some s' \<and> mhp_ok s' \<and> mhp_frame s s' \<and> mhp_fja s' = mhp_fja s \<and>
        mhp_flow s' = fold (do_op (itl s c)) ops (mhp_flow s)))"

lemma mhp_sim_keep:
  assumes "mhp_sim c h ops" "mhp_ok s" "mhp_flow s' = fold (do_op (itl s c)) ops (mhp_flow s)"
  shows "itl s' c = itl s c"
proof -
  have "fst (mhp_flow s') c = fst (mhp_flow s) c" unfolding assms(3)
    by (rule fold_op_other) (use assms(1) in \<open>auto simp: mhp_sim_def mhp_flow_def\<close>)
  then show ?thesis by (simp add: mhp_flow_def)
qed

lemma mhp_sim_nil: "mhp_sim c Some []"
  by (simp add: mhp_sim_def mhp_frame_refl)

lemma mhp_sim_comp:
  assumes h: "mhp_sim c h xs" and k: "mhp_sim c k ys"
  shows "mhp_sim c (\<lambda>s. Option.bind (h s) k) (xs @ ys)"
  unfolding mhp_sim_def
proof (intro conjI allI impI)
  show "\<forall>x\<in>set (xs @ ys). flow_target x = c \<longrightarrow> x = Flow c" using h k unfolding mhp_sim_def by auto
  fix s assume s: "mhp_ok s"
  obtain s1 where s1: "h s = Some s1" "mhp_ok s1" "mhp_frame s s1" "mhp_fja s1 = mhp_fja s"
    "mhp_flow s1 = fold (do_op (itl s c)) xs (mhp_flow s)" using h s unfolding mhp_sim_def by blast
  obtain s2 where s2: "k s1 = Some s2" "mhp_ok s2" "mhp_frame s1 s2" "mhp_fja s2 = mhp_fja s1"
    "mhp_flow s2 = fold (do_op (itl s1 c)) ys (mhp_flow s1)" using k s1(2) unfolding mhp_sim_def by blast
  have "itl s1 c = itl s c" by (rule mhp_sim_keep [OF h s s1(5)])
  then have "mhp_flow s2 = fold (do_op (itl s c)) (xs @ ys) (mhp_flow s)" using s1(5) s2(5) by simp
  then show "\<exists>s'. Option.bind (h s) k = Some s' \<and> mhp_ok s' \<and> mhp_frame s s' \<and> mhp_fja s' = mhp_fja s \<and>
      mhp_flow s' = fold (do_op (itl s c)) (xs @ ys) (mhp_flow s)"
    using s1 s2 mhp_frame_trans [OF s1(3) s2(3)] by (intro exI [of _ s2]) simp
qed

lemma mhp_sim_foldM:
  assumes "\<And>x. x \<in> set xs \<Longrightarrow> mhp_sim c (f x) (g x)"
  shows "mhp_sim c (foldM f xs) (concat (map g xs))"
  using assms
proof (induction xs)
  case Nil
  have "foldM f [] = Some" by (rule ext) simp
  then show ?case using mhp_sim_nil by simp
next
  case (Cons x xs)
  have "mhp_sim c (\<lambda>s. Option.bind (f x s) (foldM f xs)) (g x @ concat (map g xs))"
    by (rule mhp_sim_comp) (use Cons in auto)
  moreover have "foldM f (x # xs) = (\<lambda>s. Option.bind (f x s) (foldM f xs))"
    by (rule ext) (simp split: option.split)
  ultimately show ?case by simp
qed

lemma foldM_total: "foldM (\<lambda>x s. Some (h x s)) xs s = Some (fold h xs s)"
  by (induction xs arbitrary: s) simp_all

lemma mhp_sim_fold:
  assumes "\<And>x. x \<in> set xs \<Longrightarrow> mhp_sim c (\<lambda>s. Some (h x s)) (g x)"
  shows "mhp_sim c (\<lambda>s. Some (fold h xs s)) (concat (map g xs))"
proof -
  have "mhp_sim c (foldM (\<lambda>x s. Some (h x s)) xs) (concat (map g xs))" by (rule mhp_sim_foldM) (rule assms)
  then show ?thesis unfolding foldM_total .
qed

lemma mhp_sim_add: "mhp_sim c (\<lambda>s. Some (addInterleavingThread d c s)) [Flow d]"
  using addInterleavingThread_effect by (simp add: mhp_sim_def)

lemma mhp_sim_adds: "mhp_sim c (\<lambda>s. Some (fold (\<lambda>x. addInterleavingThread (d x) c) xs s)) (map (\<lambda>x. Flow (d x)) xs)"
proof -
  have "mhp_sim c (\<lambda>s. Some (fold (\<lambda>x. addInterleavingThread (d x) c) xs s)) (concat (map (\<lambda>x. [Flow (d x)]) xs))"
    by (rule mhp_sim_fold) (rule mhp_sim_add)
  then show ?thesis by (simp add: concat_map_singleton)
qed

text \<open>A join site removes threads when the joining thread is forked once and it is not in a recursion.\<close>

definition must_join :: "tct \<Rightarrow> node_id \<Rightarrow> inst \<Rightarrow> bool" where
  "must_join t n i \<longleftrightarrow> \<not> tn_multiforked (tctNodes t ! n) \<and> i \<notin> set (inRecurJoinSites t)"

lemma isMustJoin_iff:
  assumes "n < length (tctNodes t)" "td_join P i"
  shows "isMustJoin P t n i = Some (must_join t n i)"
  using assms by (cases "tn_multiforked (tctNodes t ! n)")
    (simp_all add: isMustJoin_def isMultiForkedThread_def getGNode_def isJoinSiteInRecursion_def must_join_def set_find_def)

lemma rmInterleavingThread_effect:
  assumes "mhp_ok s" "ts_getTid d < length (tctNodes t)" "td_join P i"
  shows "\<exists>s'. rmInterleavingThread P t d tids i s = Some s' \<and> mhp_ok s' \<and> mhp_frame s s' \<and> mhp_fja s' = mhp_fja s \<and>
    mhp_flow s' = do_op F (Kill d (if must_join t (ts_getTid d) i then set tids else {})) (mhp_flow s)"
proof -
  let ?b = "must_join t (ts_getTid d) i" and ?J = "if must_join t (ts_getTid d) i then set tids else {}"
  have j: "foldM (\<lambda>d js. map_option (\<lambda>b. if b then insert d js else js) (Some b)) ds js =
      Some (if b then set ds \<union> js else js)" for b and ds :: "node_id list" and js
    by (induction ds arbitrary: js) auto
  obtain l s1 where a: "getInterleavingThreads d s = (l, s1)" by (cases "getInterleavingThreads d s")
  note A = getInterleavingThreads_eq [OF a]
  have s1: "mhp_ok s1" "mhp_flow s1 = mhp_flow s" "mhp_frame s s1" "mhp_frame s1 r = mhp_frame s r" for r
    using same_state [of s1 s] A assms(1) by simp_all
  let ?s' = "if l \<inter> ?J \<noteq> {} then mhp_put False d (l - ?J) s1 else s1"
  have r: "rmInterleavingThread P t d tids i s = Some ?s'"
    unfolding rmInterleavingThread_def isMustJoin_iff [OF assms(2,3)] j by (simp add: a mhp_put_def)
  have w: "mhp_flow s = (itl s, mhp_pend s)" "mhp_pend s1 = mhp_pend s" using A by (simp_all add: mhp_flow_def mhp_pend_def)
  have "mhp_ok ?s' \<and> mhp_frame s ?s' \<and> mhp_fja ?s' = mhp_fja s \<and> mhp_flow ?s' = do_op F (Kill d ?J) (mhp_flow s)"
  proof (cases "l \<inter> ?J = {}")
    case True
    then have "itl s d - ?J = itl s d" using A(1) by blast
    then show ?thesis using True s1 A(5) unfolding w(1) by (simp add: do_op_def fun_upd_idem w(1))
  next
    case False
    then have "\<not> False \<longrightarrow> itl s1 d \<noteq> {}" using A(1,2) by auto
    note P = mhp_put_effect [OF s1(1) this, of "l - ?J"]
    have "itl s d - ?J \<noteq> itl s d" using False A(1) by blast
    then show ?thesis using False P A w(2) s1(4) unfolding w(1) by (simp add: do_op_def)
  qed
  then show ?thesis unfolding r by blast
qed

lemma mhp_sim_rm:
  assumes "ts_getTid d < length (tctNodes t)" "td_join P i" "d \<noteq> c"
  shows "mhp_sim c (rmInterleavingThread P t d tids i) [Kill d (if must_join t (ts_getTid d) i then set tids else {})]"
  using rmInterleavingThread_effect [OF _ assms(1,2), of _ tids] assms(3) by (simp add: mhp_sim_def)

section \<open>A visit\<close>

abbreviation ts_at :: "cxt_thread_stmt \<Rightarrow> call_str_cxt \<Rightarrow> inst \<Rightarrow> cxt_thread_stmt" where
  "ts_at c cxt i \<equiv> CxtThreadStmt (ts_getTid c) (CxtStmt cxt i)"

definition mhp_next :: "program \<Rightarrow> tct \<Rightarrow> cxt_thread_stmt \<Rightarrow> call_str_cxt \<Rightarrow> inst \<Rightarrow> (cxt_thread_stmt, node_id) flow_op list" where
  "mhp_next P t c cxt i = map (\<lambda>j. Flow (ts_at c cxt j)) (tct_getNextInsts P t i)"

definition mhp_removed :: "program \<Rightarrow> tct \<Rightarrow> fork_join \<Rightarrow> cxt_thread_stmt \<Rightarrow> node_id set" where
  "mhp_removed P t f c = (if isCandidateFun t (fun_of P (ts_stmt c)) \<and> \<not> td_fork P (ts_stmt c) \<and> td_join P (ts_stmt c) \<and>
     must_join t (ts_getTid c) (ts_stmt c) then join_threads t f (ts_base c) else {})"

definition mhp_own :: "program \<Rightarrow> tct \<Rightarrow> fork_join \<Rightarrow> cxt_thread_stmt \<Rightarrow> node_id set" where
  "mhp_own P t f c = (if joinSiteToLoopMap t (ts_stmt c) = None then mhp_removed P t f c else {})"

definition mhp_exit_stmts :: "program \<Rightarrow> cxt_thread_stmt \<Rightarrow> loop \<Rightarrow> cxt_thread_stmt list" where
  "mhp_exit_stmts P c lp = map (\<lambda>eb. ts_at c (ts_cxt c) (bb_front P eb)) (rev (loop_exits P lp))"

definition mhp_exits :: "program \<Rightarrow> tct \<Rightarrow> fork_join \<Rightarrow> cxt_thread_stmt \<Rightarrow> (cxt_thread_stmt, node_id) flow_op list" where
  "mhp_exits P t f c = (case joinSiteToLoopMap t (ts_stmt c) of None \<Rightarrow> []
     | Some lp \<Rightarrow> concat (map (\<lambda>d. if cxtJoinInLoop f (ts_base c) \<noteq> None \<and> join_threads t f (ts_base c) \<noteq> {}
         then [Flow d, Kill d (mhp_removed P t f c)] else [Flow d]) (mhp_exit_stmts P c lp)))"

definition mhp_fork_ops :: "program \<Rightarrow> tct \<Rightarrow> cxt_thread_stmt \<Rightarrow> cg_edge \<Rightarrow> (cxt_thread_stmt, node_id) flow_op list" where
  "mhp_fork_ops P t c e = (let cxt = tct_pushCxt P t (ts_cxt c) (ts_stmt c) (e_dst e) in
     case getTCTNode_ct t (CxtThread cxt (ts_stmt c)) of None \<Rightarrow> []
     | Some n \<Rightarrow> [Flow (CxtThreadStmt n (CxtStmt cxt (entry_inst P (e_dst e))))])"

definition mhp_forks :: "program \<Rightarrow> tct \<Rightarrow> cxt_thread_stmt \<Rightarrow> (cxt_thread_stmt, node_id) flow_op list" where
  "mhp_forks P t c = (if call_edges P (ts_stmt c) = None then [] else
     (case fork_edges P (ts_stmt c) of None \<Rightarrow> [] | Some es \<Rightarrow> concat (map (mhp_fork_ops P t c) es)))"

definition mhp_calls :: "program \<Rightarrow> tct \<Rightarrow> cxt_thread_stmt \<Rightarrow> (cxt_thread_stmt, node_id) flow_op list" where
  "mhp_calls P t c = (case call_edges P (ts_stmt c) of None \<Rightarrow> []
     | Some es \<Rightarrow> concat (map (\<lambda>e. if is_ext_fun P (e_dst e) then [] else
         [Flow (ts_at c (tct_pushCxt P t (ts_cxt c) (ts_stmt c) (e_dst e)) (entry_inst P (e_dst e)))]) es))"

definition mhp_return_ops :: "program \<Rightarrow> tct \<Rightarrow> cxt_thread_stmt \<Rightarrow> inst \<Rightarrow> (cxt_thread_stmt, node_id) flow_op list" where
  "mhp_return_ops P t c cs = (case tct_matchCxt P t (ts_cxt c) cs (fun_of P (ts_stmt c)) of
     (True, cxt) \<Rightarrow> mhp_next P t c cxt cs | (False, _) \<Rightarrow> [])"

definition mhp_returns :: "program \<Rightarrow> tct \<Rightarrow> cxt_thread_stmt \<Rightarrow> (cxt_thread_stmt, node_id) flow_op list" where
  "mhp_returns P t c = concat (map (\<lambda>e. if e_kind e = TDForkEdge \<or> e_kind e = TDJoinEdge then []
     else concat (map (mhp_return_ops P t c) (e_direct e)) @ concat (map (mhp_return_ops P t c) (e_indirect e)))
     (in_edges P (fun_of P (ts_stmt c))))"

definition mhp_outside :: "program \<Rightarrow> cxt_thread_stmt \<Rightarrow> (cxt_thread_stmt, node_id) flow_op list" where
  "mhp_outside P c = concat (map (\<lambda>e. if is_ext_fun P (e_dst e) then [] else [Flow (ts_at c (ts_cxt c) (entry_inst P (e_dst e)))])
     (out_edges P (fun_of P (ts_stmt c))))"

definition mhp_ops :: "program \<Rightarrow> tct \<Rightarrow> fork_join \<Rightarrow> cxt_thread_stmt \<Rightarrow> (cxt_thread_stmt, node_id) flow_op list" where
  "mhp_ops P t f c = (let i = ts_stmt c; intra = mhp_next P t c (ts_cxt c) i in
     if \<not> isCandidateFun t (fun_of P i) then mhp_outside P c
     else if td_fork P i then mhp_forks P t c @ intra
     else if td_join P i then mhp_exits P t f c @ intra
     else if is_call P i \<and> \<not> is_ext_call P i then mhp_calls P t c @ (if callee_candidate P t i then [] else intra)
     else if is_return P i then mhp_returns P t c else intra)"

text \<open>What a statement must satisfy for no assertion to fail when it is visited.\<close>

definition mhp_local :: "program \<Rightarrow> tct \<Rightarrow> cxt_thread_stmt \<Rightarrow> bool" where
  "mhp_local P t c \<longleftrightarrow> ts_getTid c < length (tctNodes t) \<and>
     (\<not> isCandidateFun t (fun_of P (ts_stmt c)) \<longrightarrow> ts_stmt c = entry_inst P (fun_of P (ts_stmt c))) \<and>
     (isCandidateFun t (fun_of P (ts_stmt c)) \<longrightarrow> td_fork P (ts_stmt c) \<longrightarrow> call_edges P (ts_stmt c) \<noteq> None \<longrightarrow>
        (\<exists>es. fork_edges P (ts_stmt c) = Some es \<and> (\<forall>e\<in>set es. getTCTNode_ct t
          (CxtThread (tct_pushCxt P t (ts_cxt c) (ts_stmt c) (e_dst e)) (ts_stmt c)) \<noteq> None))) \<and>
     (\<forall>lp. joinSiteToLoopMap t (ts_stmt c) = Some lp \<longrightarrow> ts_stmt c \<notin> bb_front P ` set (loop_exits P lp))"

lemma sim_mhp_intra: "mhp_sim c (\<lambda>s. Some (mhp_handleIntra P t c s)) (mhp_next P t c (ts_cxt c) (ts_stmt c))"
  unfolding mhp_handleIntra_def mhp_next_def by (rule mhp_sim_adds)

lemma sim_mhp_outside:
  assumes "ts_stmt c = entry_inst P (fun_of P (ts_stmt c))"
  shows "mhp_sim c (handleNonCandidateFun P c) (mhp_outside P c)"
proof -
  have "mhp_sim c (\<lambda>s. Some (fold (\<lambda>e s. if is_ext_fun P (e_dst e) then s
      else addInterleavingThread (ts_at c (ts_cxt c) (entry_inst P (e_dst e))) c s) (out_edges P (fun_of P (ts_stmt c))) s)) (mhp_outside P c)"
    unfolding mhp_outside_def by (rule mhp_sim_fold) (simp add: mhp_sim_add mhp_sim_nil)
  moreover have "handleNonCandidateFun P c = (\<lambda>s. Some (fold (\<lambda>e s. if is_ext_fun P (e_dst e) then s
      else addInterleavingThread (ts_at c (ts_cxt c) (entry_inst P (e_dst e))) c s) (out_edges P (fun_of P (ts_stmt c))) s))"
    using assms by (simp add: handleNonCandidateFun_def [abs_def] Let_def)
  ultimately show ?thesis by simp
qed

lemma sim_mhp_call: "mhp_sim c (\<lambda>s. Some (mhp_handleCall P t c s)) (mhp_calls P t c)"
proof (cases "call_edges P (ts_stmt c)")
  case None
  then show ?thesis using mhp_sim_nil by (simp add: mhp_handleCall_def mhp_calls_def)
next
  case (Some es)
  have "mhp_sim c (\<lambda>s. Some (fold (\<lambda>e s. if is_ext_fun P (e_dst e) then s else addInterleavingThread
      (ts_at c (tct_pushCxt P t (ts_cxt c) (ts_stmt c) (e_dst e)) (entry_inst P (e_dst e))) c s) es s)) (mhp_calls P t c)"
    unfolding mhp_calls_def Some option.case by (rule mhp_sim_fold) (simp add: mhp_sim_add mhp_sim_nil)
  then show ?thesis by (simp add: mhp_handleCall_def Some)
qed

lemma sim_mhp_return_to: "mhp_sim c (\<lambda>s. Some (mhp_return_to P t c cs s)) (mhp_return_ops P t c cs)"
proof -
  obtain b cxt where m: "tct_matchCxt P t (ts_cxt c) cs (fun_of P (ts_stmt c)) = (b, cxt)"
    by (cases "tct_matchCxt P t (ts_cxt c) cs (fun_of P (ts_stmt c))")
  show ?thesis
  proof (cases b)
    case True
    then show ?thesis using mhp_sim_adds [of c "\<lambda>i. ts_at c cxt i" "tct_getNextInsts P t cs"]
      by (simp add: mhp_return_to_def mhp_return_ops_def m mhp_next_def)
  next
    case False
    then show ?thesis using mhp_sim_nil by (simp add: mhp_return_to_def mhp_return_ops_def m)
  qed
qed

lemma sim_mhp_ret: "mhp_sim c (\<lambda>s. Some (mhp_handleRet P t c s)) (mhp_returns P t c)"
  unfolding mhp_handleRet_def mhp_returns_def
proof (rule mhp_sim_fold)
  fix e :: cg_edge
  have f: "mhp_sim c (\<lambda>s. Some (fold (mhp_return_to P t c) xs s)) (concat (map (mhp_return_ops P t c) xs))" for xs
    by (rule mhp_sim_fold) (rule sim_mhp_return_to)
  have "mhp_sim c (\<lambda>s. Option.bind (Some (fold (mhp_return_to P t c) (e_direct e) s)) (\<lambda>s. Some (fold (mhp_return_to P t c) (e_indirect e) s)))
    (concat (map (mhp_return_ops P t c) (e_direct e)) @ concat (map (mhp_return_ops P t c) (e_indirect e)))"
    by (rule mhp_sim_comp) (rule f)+
  then show "mhp_sim c (\<lambda>s. Some (if e_kind e = TDForkEdge \<or> e_kind e = TDJoinEdge then s
      else fold (mhp_return_to P t c) (e_indirect e) (fold (mhp_return_to P t c) (e_direct e) s)))
    (if e_kind e = TDForkEdge \<or> e_kind e = TDJoinEdge then []
     else concat (map (mhp_return_ops P t c) (e_direct e)) @ concat (map (mhp_return_ops P t c) (e_indirect e)))"
    using mhp_sim_nil by simp
qed

lemma sim_then_intra:
  assumes "mhp_sim c h xs"
  shows "mhp_sim c (\<lambda>s. map_option (mhp_handleIntra P t c) (h s)) (xs @ mhp_next P t c (ts_cxt c) (ts_stmt c))"
proof -
  have "map_option (mhp_handleIntra P t c) (h s) = Option.bind (h s) (\<lambda>s. Some (mhp_handleIntra P t c s))" for s
    by (cases "h s") simp_all
  then show ?thesis using mhp_sim_comp [OF assms sim_mhp_intra] by simp
qed

lemma sim_mhp_fork:
  assumes "td_fork P (ts_stmt c)" "isCandidateFun t (fun_of P (ts_stmt c))" "mhp_local P t c"
  shows "mhp_sim c (mhp_handleFork P t c) (mhp_forks P t c @ mhp_next P t c (ts_cxt c) (ts_stmt c))"
proof (cases "call_edges P (ts_stmt c) = None")
  case True
  have "mhp_sim c (\<lambda>s. map_option (mhp_handleIntra P t c) (Some s)) ([] @ mhp_next P t c (ts_cxt c) (ts_stmt c))"
    by (rule sim_then_intra [OF mhp_sim_nil])
  then show ?thesis using assms(1) True by (simp add: mhp_handleFork_def [abs_def] mhp_forks_def Let_def)
next
  case False
  let ?cxt = "\<lambda>e. tct_pushCxt P t (ts_cxt c) (ts_stmt c) (e_dst e)"
  obtain es where es: "fork_edges P (ts_stmt c) = Some es"
    "\<And>e. e \<in> set es \<Longrightarrow> getTCTNode_ct t (CxtThread (?cxt e) (ts_stmt c)) \<noteq> None"
    using assms False unfolding mhp_local_def by blast
  let ?h = "\<lambda>e s. map_option (\<lambda>n. addInterleavingThread (CxtThreadStmt n (CxtStmt (?cxt e) (entry_inst P (e_dst e)))) c s)
    (getTCTNode_ct t (CxtThread (?cxt e) (ts_stmt c)))"
  have "mhp_sim c (foldM ?h es) (mhp_forks P t c)"
    unfolding mhp_forks_def es(1) option.case if_not_P [OF False]
  proof (rule mhp_sim_foldM)
    fix e assume "e \<in> set es"
    then obtain n where n: "getTCTNode_ct t (CxtThread (?cxt e) (ts_stmt c)) = Some n" using es(2) by blast
    show "mhp_sim c (?h e) (mhp_fork_ops P t c e)"
      using mhp_sim_add [of c "CxtThreadStmt n (CxtStmt (?cxt e) (entry_inst P (e_dst e)))"]
      by (simp add: mhp_fork_ops_def Let_def n)
  qed
  note sim_then_intra [OF this, of P t]
  moreover have "mhp_handleFork P t c s = map_option (mhp_handleIntra P t c) (foldM ?h es s)" for s
    unfolding mhp_handleFork_def Let_def es(1) if_not_P [OF False] using assms(1) by simp
  then have "mhp_handleFork P t c = (\<lambda>s. map_option (mhp_handleIntra P t c) (foldM ?h es s))" by (rule ext)
  ultimately show ?thesis by (simp only:)
qed

text \<open>The state after a visit of a pending statement.\<close>

definition mhp_visited :: "program \<Rightarrow> tct \<Rightarrow> fork_join \<Rightarrow> cxt_thread_stmt \<Rightarrow> mhp \<Rightarrow> mhp \<Rightarrow> bool" where
  "mhp_visited P t f c s s' \<longleftrightarrow> mhp_ok s' \<and> mhp_frame s s' \<and> fja_ext t f (mhp_fja s') \<and>
     mhp_flow s' = visit_flow (mhp_own P t f) (mhp_ops P t f) c (itl s, insert c (mhp_pend s))"

lemma sim_visited:
  assumes "mhp_sim c h (mhp_ops P t f c)" "mhp_own P t f c = {}" "mhp_ok s" "c \<notin> mhp_pend s" "fja_ext t f (mhp_fja s)"
  shows "\<exists>s'. h s = Some s' \<and> mhp_visited P t f c s s'"
proof -
  obtain s' where s': "h s = Some s'" "mhp_ok s'" "mhp_frame s s'" "mhp_fja s' = mhp_fja s"
    "mhp_flow s' = fold (do_op (itl s c)) (mhp_ops P t f c) (mhp_flow s)" using assms(1,3) unfolding mhp_sim_def by blast
  have "visit_flow (mhp_own P t f) (mhp_ops P t f) c (itl s, insert c (mhp_pend s)) = mhp_flow s'"
    unfolding visit_flow_pure [where own = "mhp_own P t f", OF assms(2,4)] s'(5) by (simp add: mhp_flow_def)
  then show ?thesis using s' assms(5) by (simp add: mhp_visited_def)
qed

lemma mhp_fja_update:
  "mhp_ok (s\<lparr>mhp_fja := f\<rparr>) = mhp_ok s" "mhp_flow (s\<lparr>mhp_fja := f\<rparr>) = mhp_flow s" "itl (s\<lparr>mhp_fja := f\<rparr>) = itl s"
  "mhp_pend (s\<lparr>mhp_fja := f\<rparr>) = mhp_pend s" "mhp_frame (s\<lparr>mhp_fja := f\<rparr>) r = mhp_frame s r"
proof -
  show i: "itl (s\<lparr>mhp_fja := f\<rparr>) = itl s" by (simp add: itl_def fun_eq_iff)
  show "mhp_ok (s\<lparr>mhp_fja := f\<rparr>) = mhp_ok s" "mhp_flow (s\<lparr>mhp_fja := f\<rparr>) = mhp_flow s" "mhp_frame (s\<lparr>mhp_fja := f\<rparr>) r = mhp_frame s r"
    by (rule same_state; simp add: i)+
  show "mhp_pend (s\<lparr>mhp_fja := f\<rparr>) = mhp_pend s" by (simp add: mhp_pend_def)
qed

lemma rm_then_intra:
  assumes s: "mhp_ok s" "c \<notin> mhp_pend s" and c: "ts_getTid c < length (tctNodes t)" "td_join P i"
    and J: "J = (if must_join t (ts_getTid c) i then set tids else {})"
  shows "\<exists>s'. map_option (mhp_handleIntra P t c) (rmInterleavingThread P t c tids i s) = Some s' \<and> mhp_ok s' \<and>
    mhp_frame s s' \<and> mhp_fja s' = mhp_fja s \<and>
    mhp_flow s' = fold (do_op (itl s c - J)) (mhp_next P t c (ts_cxt c) (ts_stmt c))
      ((itl s)(c := itl s c - J), if itl s c \<inter> J \<noteq> {} then insert c (mhp_pend s) else mhp_pend s)"
proof -
  obtain s1 where s1: "rmInterleavingThread P t c tids i s = Some s1" "mhp_ok s1" "mhp_frame s s1" "mhp_fja s1 = mhp_fja s"
    "mhp_flow s1 = do_op {} (Kill c J) (mhp_flow s)"
    using rmInterleavingThread_effect [OF s(1) c, of tids "{}"] unfolding J by blast
  have "itl s c - J \<noteq> itl s c \<longleftrightarrow> itl s c \<inter> J \<noteq> {}" by blast
  then have f1: "mhp_flow s1 = ((itl s)(c := itl s c - J), if itl s c \<inter> J \<noteq> {} then insert c (mhp_pend s) else mhp_pend s)"
    unfolding s1(5) by (simp add: do_op_def mhp_flow_def)
  then have i1: "itl s1 c = itl s c - J" by (simp add: mhp_flow_def)
  obtain s2 where s2: "mhp_handleIntra P t c s1 = s2" "mhp_ok s2" "mhp_frame s1 s2" "mhp_fja s2 = mhp_fja s1"
    "mhp_flow s2 = fold (do_op (itl s1 c)) (mhp_next P t c (ts_cxt c) (ts_stmt c)) (mhp_flow s1)"
    using sim_mhp_intra [of c P t] s1(2) unfolding mhp_sim_def by blast
  show ?thesis using s1 s2 f1 i1 mhp_frame_trans [OF s1(3) s2(3)] by (intro exI [of _ s2]) simp
qed

lemma sim_mhp_exit:
  assumes "td_join P (ts_stmt c)" "isCandidateFun t (fun_of P (ts_stmt c))" "\<not> td_fork P (ts_stmt c)" "mhp_local P t c"
    and lp: "joinSiteToLoopMap t (ts_stmt c) = Some lp" and tids: "set tids = join_threads t f (ts_base c)" "tids \<noteq> []"
    and lo: "lo \<longleftrightarrow> cxtJoinInLoop f (ts_base c) \<noteq> None" and d: "d \<in> set (mhp_exit_stmts P c lp)"
  shows "mhp_sim c (\<lambda>s. Option.bind (Some (addInterleavingThread d c s)) (if lo then rmInterleavingThread P t d tids (ts_stmt c) else Some))
    (if cxtJoinInLoop f (ts_base c) \<noteq> None \<and> join_threads t f (ts_base c) \<noteq> {} then [Flow d, Kill d (mhp_removed P t f c)] else [Flow d])"
proof -
  obtain eb where eb: "eb \<in> set (loop_exits P lp)" "d = ts_at c (ts_cxt c) (bb_front P eb)" using d by (auto simp: mhp_exit_stmts_def)
  have "ts_stmt c \<notin> bb_front P ` set (loop_exits P lp)" using assms(4) lp unfolding mhp_local_def by blast
  then have "bb_front P eb \<noteq> ts_stmt c" using imageI [OF eb(1), of "bb_front P"] by metis
  moreover have "ts_stmt d = bb_front P eb" "ts_getTid d = ts_getTid c" using eb(2) by simp_all
  ultimately have n: "d \<noteq> c" "ts_getTid d = ts_getTid c" by auto
  have l: "ts_getTid c < length (tctNodes t)" using assms(4) unfolding mhp_local_def by blast
  have J: "(if must_join t (ts_getTid d) (ts_stmt c) then set tids else {}) = mhp_removed P t f c"
    using assms(1-3) tids(1) n(2) by (simp add: mhp_removed_def)
  have e: "join_threads t f (ts_base c) \<noteq> {}" using tids by auto
  have r: "mhp_sim c (if lo then rmInterleavingThread P t d tids (ts_stmt c) else Some)
      (if cxtJoinInLoop f (ts_base c) \<noteq> None then [Kill d (mhp_removed P t f c)] else [])"
    using mhp_sim_rm [OF _ assms(1) n(1), of t tids] mhp_sim_nil l n(2) lo unfolding J by simp
  have "mhp_sim c (\<lambda>s. Option.bind (Some (addInterleavingThread d c s)) (if lo then rmInterleavingThread P t d tids (ts_stmt c) else Some))
    ([Flow d] @ (if cxtJoinInLoop f (ts_base c) \<noteq> None then [Kill d (mhp_removed P t f c)] else []))"
    by (rule mhp_sim_comp [OF mhp_sim_add r])
  then show ?thesis using e by (simp split: if_splits)
qed

lemma mhp_join_visited:
  assumes j: "td_join P (ts_stmt c)" "isCandidateFun t (fun_of P (ts_stmt c))" "\<not> td_fork P (ts_stmt c)" and l: "mhp_local P t c"
    and s: "mhp_ok s" "c \<notin> mhp_pend s" "fja_ext t f (mhp_fja s)"
    and sh: "tct_shape P C rt t" and d: "dj_set f (ts_base c) \<subseteq> {..<length (tctNodes t)}"
  shows "\<exists>s'. mhp_handleJoin P t c s = Some (Some s') \<and> mhp_visited P t f c s s'"
proof -
  let ?i = "ts_stmt c" and ?next = "mhp_next P t c (ts_cxt c) (ts_stmt c)"
  obtain tids g where g: "fj_getDirAndIndJoinedTid t (ts_base c) (mhp_fja s) = Some (Some (tids, g))"
    "set tids = join_threads t f (ts_base c)" "fja_ext t f g" using joined_ext [OF sh d s(3)] by blast
  let ?s1 = "s\<lparr>mhp_fja := g\<rparr>"
  have s1: "mhp_ok ?s1" "c \<notin> mhp_pend ?s1" "fja_ext t f (mhp_fja ?s1)" using s g(3) by (simp_all add: mhp_fja_update)
  have v: "mhp_visited P t f c ?s1 s' \<Longrightarrow> mhp_visited P t f c s s'" for s'
    unfolding mhp_visited_def mhp_fja_update .
  have q: "mhp_getDirAndIndJoinedTid t (ts_cxt c) ?i s = Some (Some (tids, ?s1))"
    using g(1) by (simp add: mhp_getDirAndIndJoinedTid_def)
  have n: "ts_getTid c < length (tctNodes t)" using l unfolding mhp_local_def by blast
  have J: "getJoinLoop P t ?i = Some (joinSiteToLoopMap t ?i)" using j(1) by (simp add: getJoinLoop_def)
  have ops: "mhp_ops P t f c = mhp_exits P t f c @ ?next" using j by (simp add: mhp_ops_def Let_def)
  have rem: "mhp_removed P t f c = (if must_join t (ts_getTid c) ?i then set tids else {})" using j g(2) by (simp add: mhp_removed_def)
  have "\<exists>s'. mhp_handleJoin P t c s = Some (Some s') \<and> mhp_visited P t f c ?s1 s'"
  proof (cases "joinSiteToLoopMap t ?i")
    case None
    have own: "mhp_own P t f c = mhp_removed P t f c" "mhp_exits P t f c = []" using None by (simp_all add: mhp_own_def mhp_exits_def)
    show ?thesis
    proof (cases "tids = []")
      case True
      have "mhp_sim c (\<lambda>s. map_option (mhp_handleIntra P t c) (Some s)) (mhp_ops P t f c)"
        unfolding ops own(2) by (rule sim_then_intra [OF mhp_sim_nil])
      moreover have "mhp_own P t f c = {}" unfolding own rem using True by simp
      ultimately show ?thesis using sim_visited [OF _ _ s1] q J None True j(1) by (fastforce simp: mhp_handleJoin_def Let_def)
    next
      case False
      obtain s' where s': "map_option (mhp_handleIntra P t c) (rmInterleavingThread P t c tids ?i ?s1) = Some s'" "mhp_ok s'"
        "mhp_frame ?s1 s'" "mhp_fja s' = mhp_fja ?s1"
        "mhp_flow s' = fold (do_op (itl ?s1 c - mhp_removed P t f c)) ?next ((itl ?s1)(c := itl ?s1 c - mhp_removed P t f c),
          if itl ?s1 c \<inter> mhp_removed P t f c \<noteq> {} then insert c (mhp_pend ?s1) else mhp_pend ?s1)"
        using rm_then_intra [OF s1(1,2) n j(1) rem] by blast
      have m: "insert c (mhp_pend ?s1) - {c} = mhp_pend ?s1" using s1(2) by blast
      have "mhp_flow s' = visit_flow (mhp_own P t f) (mhp_ops P t f) c (itl ?s1, insert c (mhp_pend ?s1))"
        unfolding s'(5) visit_flow_def visit_start_def ops own by (simp add: m)
      then have "mhp_visited P t f c ?s1 s'" using s' s1(3) by (simp add: mhp_visited_def)
      moreover have "mhp_handleJoin P t c s = Some (Some s')" using s'(1) q J None False j(1) by (simp add: mhp_handleJoin_def)
      ultimately show ?thesis by blast
    qed
  next
    case (Some lp)
    have own: "mhp_own P t f c = {}" using Some by (simp add: mhp_own_def)
    have ex: "map (\<lambda>eb. CxtThreadStmt (ts_getTid c) (CxtStmt (ts_cxt c) (bb_front P eb))) (rev (loop_exits P lp)) = mhp_exit_stmts P c lp"
      by (simp add: mhp_exit_stmts_def)
    show ?thesis
    proof (cases "tids = []")
      case True
      then have "join_threads t f (ts_base c) = {}" using g(2) by simp
      then have "mhp_exits P t f c = map Flow (mhp_exit_stmts P c lp)" by (simp add: mhp_exits_def Some concat_map_singleton)
      then have "mhp_sim c (\<lambda>s. Some (fold (\<lambda>d. addInterleavingThread d c) (mhp_exit_stmts P c lp) s)) (mhp_exits P t f c)"
        using mhp_sim_adds [of c "\<lambda>d. d"] by simp
      from sim_visited [OF sim_then_intra [OF this, of P t, folded ops] own s1]
      show ?thesis using q J Some True j(1) by (simp add: mhp_handleJoin_def Let_def ex)
    next
      case False
      define lo where "lo \<longleftrightarrow> cxtJoinInLoop f (ts_base c) \<noteq> None"
      let ?h = "\<lambda>d s. Option.bind (Some (addInterleavingThread d c s)) (if lo then rmInterleavingThread P t d tids ?i else Some)"
      let ?k = "\<lambda>d s. let s2 = addInterleavingThread d c s in
               if mhp_isJoinInSymmetricLoop s2 (ts_cxt c) ?i \<noteq> None then rmInterleavingThread P t d tids ?i s2 else Some s2"
      note one = sim_mhp_exit [OF j l Some g(2) False lo_def]
      have sim: "mhp_sim c (foldM ?h (mhp_exit_stmts P c lp)) (mhp_exits P t f c)"
        unfolding mhp_exits_def Some option.case by (rule mhp_sim_foldM) (rule one)
      have kh: "foldM ?k ds s = foldM ?h ds s" if "mhp_ok s" "mhp_fja s = g" "set ds \<subseteq> set (mhp_exit_stmts P c lp)" for ds s
        using that
      proof (induction ds arbitrary: s)
        case (Cons d ds)
        let ?a = "addInterleavingThread d c s"
        have "mhp_isJoinInSymmetricLoop ?a (ts_cxt c) ?i \<noteq> None \<longleftrightarrow> lo"
          using g(3) addInterleavingThread_effect(3) [OF Cons.prems(1), of d c] Cons.prems(2)
          by (simp add: mhp_isJoinInSymmetricLoop_def fj_isJoinInSymmetricLoop_def lo_def fja_ext_def)
        then have e: "?k d s = ?h d s" by simp
        have "d \<in> set (mhp_exit_stmts P c lp)" using Cons.prems(3) by simp
        from one [OF this] obtain s2 where s2: "?h d s = Some s2" "mhp_ok s2" "mhp_fja s2 = mhp_fja s"
          using Cons.prems(1) unfolding mhp_sim_def by blast
        have "foldM ?k ds s2 = foldM ?h ds s2" by (rule Cons.IH) (use s2 Cons.prems in auto)
        then show ?case using e s2(1) by simp
      qed simp
      from sim_visited [OF sim_then_intra [OF sim, of P t, folded ops] own s1]
      obtain s' where s': "map_option (mhp_handleIntra P t c) (foldM ?h (mhp_exit_stmts P c lp) ?s1) = Some s'" "mhp_visited P t f c ?s1 s'"
        by blast
      have "mhp_handleJoin P t c s = Some (map_option (mhp_handleIntra P t c) (foldM ?k (mhp_exit_stmts P c lp) ?s1))"
        using q J Some False j(1) by (simp add: mhp_handleJoin_def Let_def ex)
      then show ?thesis using s' kh [OF s1(1), of "mhp_exit_stmts P c lp"] by auto
    qed
  qed
  then show ?thesis using v by blast
qed

lemma mhp_dispatch_visited:
  assumes l: "mhp_local P t c" and s: "mhp_ok s" "c \<notin> mhp_pend s" "fja_ext t f (mhp_fja s)"
    and sh: "tct_shape P C rt t" and d: "dj_set f (ts_base c) \<subseteq> {..<length (tctNodes t)}"
  shows "\<exists>s'. mhp_dispatch P t c s = Some (Some s') \<and> mhp_visited P t f c s s'"
proof -
  let ?i = "ts_stmt c"
  have own: "mhp_own P t f c = {}" if "\<not> isCandidateFun t (fun_of P ?i) \<or> td_fork P ?i \<or> \<not> td_join P ?i"
    using that by (auto simp: mhp_own_def mhp_removed_def)
  consider (out) "\<not> isCandidateFun t (fun_of P ?i)" | (fork) "isCandidateFun t (fun_of P ?i)" "td_fork P ?i"
    | (join) "isCandidateFun t (fun_of P ?i)" "\<not> td_fork P ?i" "td_join P ?i"
    | (call) "isCandidateFun t (fun_of P ?i)" "\<not> td_fork P ?i" "\<not> td_join P ?i" "is_call P ?i \<and> \<not> is_ext_call P ?i"
    | (ret) "isCandidateFun t (fun_of P ?i)" "\<not> td_fork P ?i" "\<not> td_join P ?i" "\<not> (is_call P ?i \<and> \<not> is_ext_call P ?i)" "is_return P ?i"
    | (intra) "isCandidateFun t (fun_of P ?i)" "\<not> td_fork P ?i" "\<not> td_join P ?i" "\<not> (is_call P ?i \<and> \<not> is_ext_call P ?i)" "\<not> is_return P ?i"
    by blast
  then show ?thesis
  proof cases
    case out
    have "mhp_sim c (handleNonCandidateFun P c) (mhp_ops P t f c)"
      using sim_mhp_outside [of c P] l out by (simp add: mhp_local_def mhp_ops_def)
    from sim_visited [OF this _ s] own out show ?thesis by (auto simp: mhp_dispatch_def)
  next
    case fork
    have "mhp_sim c (mhp_handleFork P t c) (mhp_ops P t f c)"
      using sim_mhp_fork [OF fork(2,1) l] fork by (simp add: mhp_ops_def)
    from sim_visited [OF this _ s] own fork show ?thesis by (auto simp: mhp_dispatch_def)
  next
    case join
    then show ?thesis using mhp_join_visited [OF join(3,1,2) l s sh d] by (simp add: mhp_dispatch_def)
  next
    case call
    show ?thesis
    proof (cases "callee_candidate P t ?i")
      case True
      have "mhp_sim c (\<lambda>s. Some (mhp_handleCall P t c s)) (mhp_ops P t f c)"
        using sim_mhp_call call True by (simp add: mhp_ops_def)
      from sim_visited [OF this _ s] own call True show ?thesis by (auto simp: mhp_dispatch_def Let_def)
    next
      case False
      have "mhp_sim c (\<lambda>s. Option.bind (Some (mhp_handleCall P t c s)) (\<lambda>s. Some (mhp_handleIntra P t c s))) (mhp_ops P t f c)"
        using mhp_sim_comp [OF sim_mhp_call sim_mhp_intra, of c P t P t] call False by (simp add: mhp_ops_def)
      from sim_visited [OF this _ s] own call False show ?thesis by (auto simp: mhp_dispatch_def Let_def)
    qed
  next
    case ret
    have "mhp_sim c (\<lambda>s. Some (mhp_handleRet P t c s)) (mhp_ops P t f c)"
      using sim_mhp_ret ret by (auto simp: mhp_ops_def Let_def)
    from sim_visited [OF this _ s] own ret show ?thesis by (auto simp: mhp_dispatch_def Let_def)
  next
    case intra
    have "mhp_sim c (\<lambda>s. Some (mhp_handleIntra P t c s)) (mhp_ops P t f c)"
      using sim_mhp_intra intra by (auto simp: mhp_ops_def Let_def)
    from sim_visited [OF this _ s] own intra show ?thesis by (auto simp: mhp_dispatch_def Let_def)
  qed
qed

end
