(* ===== verification/MHPResult.thy ===== *)
theory MHPResult
  imports MHPFlow
begin

text \<open>
  The interleaving analysis as a whole: the statements a thread starts from, the work list, and
  the bounds of its result.
\<close>

section \<open>The work list\<close>

definition mhp_repr :: "program \<Rightarrow> tct \<Rightarrow> fork_join \<Rightarrow> cxt_thread_stmt set \<Rightarrow> mhp \<Rightarrow> mhp \<Rightarrow>
    (cxt_thread_stmt, node_id) flow_log \<Rightarrow> bool" where
  "mhp_repr P t f U s0 s a \<longleftrightarrow> mhp_ok s \<and> fja_ext t f (mhp_fja s) \<and> mhp_flow s = fst a \<and>
     (\<forall>i. ts_of s i \<subseteq> snd (fst a) \<union> fst ` snd a) \<and> (\<forall>c\<in>fst ` snd a. c \<in> ts_of s (ts_stmt c)) \<and> snd (fst a) \<subseteq> U \<and>
     nonCandidateFuncMHPRelMap s = nonCandidateFuncMHPRelMap s0 \<and> numOfTotalQueries s = numOfTotalQueries s0 \<and>
     numOfMHPQueries s = numOfMHPQueries s0"

definition mhp_stmts_ok :: "program \<Rightarrow> tct \<Rightarrow> fork_join \<Rightarrow> cxt_thread_stmt set \<Rightarrow> bool" where
  "mhp_stmts_ok P t f U \<longleftrightarrow> (\<exists>C rt. tct_shape P C rt t) \<and> (\<forall>c. dj_set f c \<subseteq> {..<length (tctNodes t)}) \<and>
     (\<forall>c\<in>U. mhp_local P t c \<and> flow_target ` set (mhp_ops P t f c) \<subseteq> U)"

lemma mhp_step_visit:
  assumes ok: "mhp_stmts_ok P t f U" and R: "mhp_repr P t f U s0 s a" and g: "\<not> fifo_empty (cxtStmtList s)"
  shows "\<exists>c s'. c \<in> snd (fst a) \<and> mhp_step P t s = Some (Some s') \<and>
    mhp_repr P t f U s0 s' (visit_log (mhp_own P t f) (mhp_ops P t f) c a)"
proof -
  obtain l W G where a: "a = ((l, W), G)" by (metis prod.exhaust)
  have s: "mhp_ok s" "fja_ext t f (mhp_fja s)" "l = itl s" "W = mhp_pend s"
    and ts: "\<And>i. ts_of s i \<subseteq> W \<union> fst ` G" "\<And>c. c \<in> fst ` G \<Longrightarrow> c \<in> ts_of s (ts_stmt c)" and WU: "W \<subseteq> U"
    and q: "nonCandidateFuncMHPRelMap s = nonCandidateFuncMHPRelMap s0" "numOfTotalQueries s = numOfTotalQueries s0"
      "numOfMHPQueries s = numOfMHPQueries s0"
    using R unfolding mhp_repr_def a fst_conv snd_conv mhp_flow_def prod.inject by blast+
  have f: "fifo_inv (cxtStmtList s)" using s(1) by (simp add: mhp_ok_def)
  obtain c w where p: "fifo_pop (cxtStmtList s) = Some (c, w)"
    using g fifo.pop_None [OF f] by (cases "fifo_pop (cxtStmtList s)") (auto simp: fifo_empty_def)
  have w: "fifo_inv w" "c \<in> W" "set (data_list w) = W - {c}"
    using fifo.pop_Some [OF f p] fifo.pop_set [OF f p] s(4) by (auto simp: mhp_pend_def)
  have cU: "c \<in> U" using w(2) WU by blast
  have loc: "mhp_local P t c" and ops: "flow_target ` set (mhp_ops P t f c) \<subseteq> U" using ok cU unfolding mhp_stmts_ok_def by blast+
  obtain C rt where sh: "tct_shape P C rt t" using ok unfolding mhp_stmts_ok_def by blast
  have dj: "dj_set f (ts_base c) \<subseteq> {..<length (tctNodes t)}" using ok unfolding mhp_stmts_ok_def by blast
  let ?s = "s\<lparr>cxtStmtList := w\<rparr>"
  have e: "itl ?s = itl s" "ts_of ?s = ts_of s" "mhp_pend ?s = W - {c}"
    using w(3) by (simp_all add: itl_def ts_of_def mhp_pend_def fun_eq_iff)
  have "mhp_ok ?s" using s(1) w unfolding mhp_ok_def e s(4) by simp
  moreover have "c \<notin> mhp_pend ?s" unfolding e by blast
  ultimately obtain s' where d: "mhp_dispatch P t c ?s = Some (Some s')" "mhp_visited P t f c ?s s'"
    using mhp_dispatch_visited [OF loc _ _ _ sh dj, of ?s] s(2) by auto
  have i: "insert c (mhp_pend ?s) = W" using w(2) e(3) by blast
  have v: "mhp_ok s'" "mhp_frame ?s s'" "fja_ext t f (mhp_fja s')"
    "mhp_flow s' = visit_flow (mhp_own P t f) (mhp_ops P t f) c (l, W)"
    using d(2) unfolding mhp_visited_def e(1) i s(3) by simp_all
  have vl: "visit_log (mhp_own P t f) (mhp_ops P t f) c a = (mhp_flow s', insert (c, l c) G)"
    by (simp add: visit_log_def a v(4))
  have fr: "\<And>i. ts_of s i \<subseteq> ts_of s' i" "\<And>i. ts_of s' i \<subseteq> ts_of s i \<union> mhp_pend s'" "W - {c} \<subseteq> mhp_pend s'"
    using v(2) unfolding mhp_frame_def e by blast+
  have p': "snd (mhp_flow s') = mhp_pend s'" by (simp add: mhp_flow_def)
  have t1: "ts_of s' i \<subseteq> mhp_pend s' \<union> fst ` insert (c, l c) G" for i
  proof
    fix d assume "d \<in> ts_of s' i"
    then have "d \<in> mhp_pend s' \<or> d \<in> W \<or> d \<in> fst ` G" using fr(2) [of i] ts(1) [of i] by blast
    then show "d \<in> mhp_pend s' \<union> fst ` insert (c, l c) G" using fr(3) by auto
  qed
  have "c \<in> ts_of s (ts_stmt c)" using s(1) w(2) s(4) unfolding mhp_ok_def by blast
  then have t2: "d \<in> ts_of s' (ts_stmt d)" if "d \<in> fst ` insert (c, l c) G" for d
    using that ts(2) [of d] fr(1) [of "ts_stmt d"] by auto
  have "snd (mhp_flow s') \<subseteq> U"
    using visit_flow_pend [of "mhp_own P t f" "mhp_ops P t f" c "(l, W)"] WU cU ops unfolding v(4) by fastforce
  then have "mhp_repr P t f U s0 s' (visit_log (mhp_own P t f) (mhp_ops P t f) c a)"
    using v(1-3) t1 t2 q unfolding vl mhp_repr_def fst_conv snd_conv p' by (simp add: mhp_frame_def)
  then show ?thesis using w(2) d(1) by (intro exI [of _ c] exI [of _ s']) (simp add: mhp_step_def p a)
qed

definition mhp_repr_ok :: "program \<Rightarrow> tct \<Rightarrow> fork_join \<Rightarrow> cxt_thread_stmt set \<Rightarrow> mhp \<Rightarrow> mhp \<Rightarrow>
    (cxt_thread_stmt, node_id) flow_log \<Rightarrow> bool" where
  "mhp_repr_ok P t f U s0 s a \<longleftrightarrow> mhp_stmts_ok P t f U \<and> mhp_repr P t f U s0 s a"

interpretation interleav: propagation "mhp_own P t f" "mhp_ops P t f" "\<lambda>s. \<not> fifo_empty (cxtStmtList s)"
  "mhp_step P t" "mhp_repr_ok P t f U s0"
  for P t f U s0
proof (unfold_locales, goal_cases)
  case (1 s a)
  then have "snd (fst a) = mhp_pend s" by (simp add: mhp_repr_ok_def mhp_repr_def mhp_flow_def prod_eq_iff)
  then show ?case by (simp add: fifo_empty_def mhp_pend_def)
next
  case (2 s a)
  then show ?case using mhp_step_visit unfolding mhp_repr_ok_def by blast
qed

section \<open>Full joins over several levels\<close>

lemma recur_join_run:
  assumes sh: "tct_shape P C rt t"
  shows "n < length (tctNodes t) \<Longrightarrow> fifo_inv w \<Longrightarrow> data_list w = [n] \<Longrightarrow>
    \<exists>r. while_run (\<lambda>r. case r of Inl _ \<Rightarrow> False | Inr w \<Rightarrow> \<not> fifo_empty w) (recur_join_step t f p) (Inr w) = Some (Some r) \<and>
      (case r of Inl b \<Rightarrow> b | Inr _ \<Rightarrow> False) = ((p, n) \<in> (full_children t f)\<^sup>+)"
proof (induction n arbitrary: w rule: less_induct)
  case (less n)
  let ?g = "\<lambda>r :: bool + node_id fifo. case r of Inl _ \<Rightarrow> False | Inr w \<Rightarrow> \<not> fifo_empty w"
  obtain m w1 where p: "fifo_pop w = Some (m, w1)"
    using less.prems fifo.pop_None [of w] by (cases "fifo_pop w") auto
  have m: "m = n" "fifo_inv w1" "data_list w1 = []"
    using fifo.pop_Some [OF less.prems(2) p] less.prems(3) by auto
  have go: "?g (Inr w)" using less.prems(3) by (simp add: fifo_empty_def)
  have edge: "(p, n) \<in> (full_children t f)\<^sup>+ \<longleftrightarrow> (\<exists>q. (q, n) \<in> full_children t f \<and> (p = q \<or> (p, q) \<in> (full_children t f)\<^sup>+))" for p
    using tranclE [of p n "full_children t f"] by (metis r_into_trancl trancl.trancl_into_trancl)
  show ?case
  proof (cases "n = 0")
    case True
    then have e: "tn_in (tctNodes t ! n) = []" using tree_root [OF sh less.prems(1)] by simp
    have "(q, n) \<notin> full_children t f" for q using True tree_edges_less [OF sh, of q n] by (auto simp: full_children_def)
    moreover have "recur_join_step t f p (Inr w) = Some (Some (Inr w1))"
      using p m e less.prems(1) by (simp add: recur_join_step_def getGNode_def)
    moreover have "while_run ?g (recur_join_step t f p) (Inr w1) = Some (Some (Inr w1))"
      by (subst while_run_unfold) (simp add: fifo_empty_def m(3))
    ultimately have "while_run ?g (recur_join_step t f p) (Inr w) = Some (Some (Inr w1))" "(p, n) \<notin> (full_children t f)\<^sup>+"
      using go edge by (simp add: while_run_unfold [of ?g _ "Inr w"], blast)
    then show ?thesis by auto
  next
    case False
    obtain q where q: "tn_in (tctNodes t ! n) = [q]" "q < n" "forked_by P C t q n" "(q, n) \<in> tree_edges t"
      by (rule tree_parent [OF sh less.prems(1) False])
    have uq: "x = q" if "(x, n) \<in> tree_edges t" for x by (rule tree_edges_unique [OF sh that q(4)])
    have u: "(x, n) \<in> full_children t f \<longleftrightarrow> x = q \<and> isFullJoin f q n" for x
    proof (cases "x = q")
      case True
      then show ?thesis using q(4) by (simp add: full_children_def)
    next
      case False
      then show ?thesis using uq by (auto simp: full_children_def)
    qed
    have step: "recur_join_step t f p (Inr w) = Some (Some (recur_join_edges f p n [q] w1))"
      using p m q(1) less.prems(1) by (simp add: recur_join_step_def getGNode_def)
    have st: "while_run ?g (recur_join_step t f p) (Inr w) = while_run ?g (recur_join_step t f p) (recur_join_edges f p n [q] w1)"
      using go step by (simp add: while_run_unfold [of ?g _ "Inr w"])
    show ?thesis
    proof (cases "isFullJoin f q n \<and> q \<noteq> p")
      case True
      have r: "recur_join_edges f p n [q] w1 = Inr (snd (fifo_push q w1))" using True by simp
      have w2: "fifo_inv (snd (fifo_push q w1))" "data_list (snd (fifo_push q w1)) = [q]"
        using fifo.push [OF m(2), of q] m(3) by (cases "fifo_push q w1"; auto)+
      obtain r' where "while_run ?g (recur_join_step t f p) (Inr (snd (fifo_push q w1))) = Some (Some r')"
        "(case r' of Inl b \<Rightarrow> b | Inr _ \<Rightarrow> False) = ((p, q) \<in> (full_children t f)\<^sup>+)"
        using less.IH [OF q(2) _ w2] q(2) less.prems(1) by auto
      then show ?thesis using st r edge [of p] u True by auto
    next
      case False
      then have "while_run ?g (recur_join_step t f p) (recur_join_edges f p n [q] w1) = Some (Some (Inl (isFullJoin f q n)))"
        by (auto simp: while_run_unfold [of ?g _ "Inl _"])
      then show ?thesis using st edge [of p] u False by auto
    qed
  qed
qed

lemma isRecurFullJoin_run:
  assumes sh: "tct_shape P C rt t" and n: "n < length (tctNodes t)"
  shows "isRecurFullJoin t f p n = Some (Some ((p, n) \<in> (full_children t f)\<^sup>*))"
proof (cases "p = n")
  case True
  then show ?thesis by (simp add: isRecurFullJoin_def)
next
  case False
  have w: "fifo_inv (snd (fifo_push n fifo_new))" "data_list (snd (fifo_push n fifo_new)) = [n]"
    by (simp_all add: fifo_push_def fifo_new_def fifo_inv_def)
  obtain r where "while_run (\<lambda>r. case r of Inl _ \<Rightarrow> False | Inr w \<Rightarrow> \<not> fifo_empty w) (recur_join_step t f p)
      (Inr (snd (fifo_push n fifo_new))) = Some (Some r)" "(case r of Inl b \<Rightarrow> b | Inr _ \<Rightarrow> False) = ((p, n) \<in> (full_children t f)\<^sup>+)"
    using recur_join_run [OF sh n w] by blast
  moreover have "(p, n) \<in> (full_children t f)\<^sup>* \<longleftrightarrow> (p, n) \<in> (full_children t f)\<^sup>+" using False by (simp add: rtrancl_eq_or_trancl)
  ultimately show ?thesis using False n by (simp add: isRecurFullJoin_def getGNode_def)
qed

section \<open>Where a thread starts to interleave\<close>

definition root_stmt :: "program \<Rightarrow> tct \<Rightarrow> node_id \<Rightarrow> cxt_thread_stmt" where
  "root_stmt P t n = CxtThreadStmt n (CxtStmt (ct_cxt (tn_ctx (tctNodes t ! n)))
     (entry_inst P (the (getStartRoutineOfCxtThread t (tn_ctx (tctNodes t ! n))))))"

text \<open>
  A thread starts at the entry of its routine, interleaves with its parent, and with the
  ancestors of it, from the statements after the forks on, and with the siblings of all of
  these, from their entries on, except those ordered before or after.
\<close>

definition starts :: "program \<Rightarrow> tct \<Rightarrow> fork_join \<Rightarrow> node_id \<Rightarrow> (cxt_thread_stmt \<times> node_id) set" where
  "starts P t f n = {(root_stmt P t n, n)} \<union>
     {(CxtThreadStmt p (CxtStmt (fja_cxt t a) i), n) | p a i. (a, n) \<in> (tree_edges t)\<^sup>* \<and> (p, a) \<in> tree_edges t \<and>
        i \<in> set (tct_getNextInsts P t (fork_site_of t a))} \<union>
     {(root_stmt P t b, n) | a b p. (a, n) \<in> (tree_edges t)\<^sup>* \<and> (p, a) \<in> tree_edges t \<and> (p, b) \<in> tree_edges t \<and> b \<noteq> a \<and>
        \<not> (fj_isHBPair f a b \<and> (a, n) \<in> (full_children t f)\<^sup>*) \<and> \<not> fj_isHBPair f b a}"

lemma thread_maps:
  assumes sh: "tct_shape P C rt t" and n: "n < length (tctNodes t)"
  shows "getCxtOfCxtThread t (tn_ctx (tctNodes t ! n)) = Some (fja_cxt t n)"
    "getStartRoutineOfCxtThread t (tn_ctx (tctNodes t ! n)) \<noteq> None"
proof -
  have K: "keys_ok t" using sh by (simp add: tct_shape_def)
  have "ctpToNodeMap t (node_key t n) = Some n" using K n unfolding keys_ok_def by blast
  then have "node_key t n \<in> dom (ctpToNodeMap t)" by (rule domI)
  then have "node_key t n \<in> dom (ctToForkCxtMap t)" "node_key t n \<in> dom (ctToRoutineFunMap t)"
    using K by (simp_all only: keys_ok_def)
  then show "getCxtOfCxtThread t (tn_ctx (tctNodes t ! n)) = Some (fja_cxt t n)"
    "getStartRoutineOfCxtThread t (tn_ctx (tctNodes t ! n)) \<noteq> None"
    by (auto simp: getCxtOfCxtThread_def getStartRoutineOfCxtThread_def node_key_def fja_cxt_def)
qed

lemma root_known:
  assumes "tct_shape P C rt t" "n < length (tctNodes t)"
  shows "mhp_root_stmt P t n = Some (root_stmt P t n)"
  using thread_maps(2) [OF assms] assms(2) by (auto simp: mhp_root_stmt_def getGNode_def root_stmt_def)

lemma fork_site_null:
  assumes sh: "tct_shape P C rt t" and n: "n < length (tctNodes t)"
  shows "fork_site_of t n = null_inst \<longleftrightarrow> n = 0"
proof (cases "n = 0")
  case True
  have "tree_node P C rt t 0" "tn_in (tctNodes t ! 0) = []" using sh n True tree_root [OF sh, of 0] by (simp_all add: tct_shape_def)
  then show ?thesis using True by (auto simp: tree_node_def fork_site_of_def node_key_def ct_key_def split: if_splits)
next
  case False
  obtain p where "fork_site_of t n \<noteq> null_inst" using thread_known [OF sh n False] by metis
  then show ?thesis using False by simp
qed

text \<open>Steps that put a list of threads.\<close>

definition seed_sim :: "tct \<Rightarrow> fork_join \<Rightarrow> (mhp \<Rightarrow> mhp run) \<Rightarrow> (cxt_thread_stmt \<times> node_id) list \<Rightarrow> bool" where
  "seed_sim t f h B \<longleftrightarrow> (\<forall>s. mhp_ok s \<and> fja_ext t f (mhp_fja s) \<longrightarrow> (\<exists>s'. h s = Some (Some s') \<and> mhp_ok s' \<and> mhp_frame s s' \<and>
     mhp_fja s' = mhp_fja s \<and> mhp_flow s' = seed_flow B (mhp_flow s)))"

lemma seed_sim_nil: "seed_sim t f (\<lambda>s. Some (Some s)) []"
  by (simp add: seed_sim_def mhp_frame_refl seed_flow_def)

lemma seed_sim_put: "seed_sim t f (\<lambda>s. Some (Some (addInterleavingThread_tid d n s))) [(d, n)]"
  using addInterleavingThread_tid_effect by (simp add: seed_sim_def seed_flow_def)

lemma seed_flow_append: "seed_flow (xs @ ys) a = seed_flow ys (seed_flow xs a)"
  by (simp add: seed_flow_def)

lemma seed_sim_comp:
  assumes "seed_sim t f h xs" "seed_sim t f k ys"
  shows "seed_sim t f (\<lambda>s. and_then (h s) k) (xs @ ys)"
  unfolding seed_sim_def
proof (intro allI impI)
  fix s assume s: "mhp_ok s \<and> fja_ext t f (mhp_fja s)"
  obtain s1 where s1: "h s = Some (Some s1)" "mhp_ok s1" "mhp_frame s s1" "mhp_fja s1 = mhp_fja s" "mhp_flow s1 = seed_flow xs (mhp_flow s)"
    using assms(1) s unfolding seed_sim_def by blast
  have "mhp_ok s1 \<and> fja_ext t f (mhp_fja s1)" using s s1 by simp
  then obtain s2 where s2: "k s1 = Some (Some s2)" "mhp_ok s2" "mhp_frame s1 s2" "mhp_fja s2 = mhp_fja s1"
    "mhp_flow s2 = seed_flow ys (mhp_flow s1)" using assms(2) unfolding seed_sim_def by blast
  show "\<exists>s'. and_then (h s) k = Some (Some s') \<and> mhp_ok s' \<and> mhp_frame s s' \<and> mhp_fja s' = mhp_fja s \<and>
      mhp_flow s' = seed_flow (xs @ ys) (mhp_flow s)"
    using s1 s2 mhp_frame_trans [OF s1(3) s2(3)] by (intro exI [of _ s2]) (simp add: seed_flow_append)
qed

lemma seed_sim_foldR:
  assumes "\<And>x. x \<in> set xs \<Longrightarrow> seed_sim t f (h x) (g x)"
  shows "seed_sim t f (foldR h xs) (concat (map g xs))"
  using assms
proof (induction xs)
  case Nil
  have "foldR h [] = (\<lambda>s. Some (Some s))" by (rule ext) simp
  then show ?case using seed_sim_nil by simp
next
  case (Cons x xs)
  have "seed_sim t f (\<lambda>s. and_then (h x s) (foldR h xs)) (g x @ concat (map g xs))"
    by (rule seed_sim_comp) (use Cons in auto)
  moreover have "foldR h (x # xs) = (\<lambda>s. and_then (h x s) (foldR h xs))" by (rule ext) simp
  ultimately show ?case by simp
qed

lemma foldM_run: "Some (foldM h xs s) = foldR (\<lambda>x s. Some (h x s)) xs s"
  by (induction xs arbitrary: s) (auto split: option.split)

lemma seed_sim_foldM:
  assumes "\<And>x. x \<in> set xs \<Longrightarrow> seed_sim t f (\<lambda>s. Some (h x s)) (g x)"
  shows "seed_sim t f (\<lambda>s. Some (foldM h xs s)) (concat (map g xs))"
proof -
  have "(\<lambda>s. Some (foldM h xs s)) = foldR (\<lambda>x s. Some (h x s)) xs" by (rule ext) (rule foldM_run)
  then show ?thesis using seed_sim_foldR [of xs t f "\<lambda>x s. Some (h x s)" g] assms by simp
qed

definition anc_seeds :: "program \<Rightarrow> tct \<Rightarrow> node_id \<Rightarrow> node_id \<Rightarrow> (cxt_thread_stmt \<times> node_id) list" where
  "anc_seeds P t n a = (if a = 0 then [] else map (\<lambda>i. (CxtThreadStmt (the (getParentThread t a)) (CxtStmt (fja_cxt t a) i), n))
     (tct_getNextInsts P t (fork_site_of t a)))"

definition sib_seeds :: "program \<Rightarrow> tct \<Rightarrow> fork_join \<Rightarrow> node_id \<Rightarrow> node_id \<Rightarrow> node_id \<Rightarrow> (cxt_thread_stmt \<times> node_id) list" where
  "sib_seeds P t f n a b = (if fj_isHBPair f a b \<and> (a, n) \<in> (full_children t f)\<^sup>* \<or> fj_isHBPair f b a then [] else [(root_stmt P t b, n)])"

lemma updateAncestorThread_sim:
  assumes sh: "tct_shape P C rt t" and a: "a < length (tctNodes t)"
  shows "seed_sim t f (\<lambda>s. Some (updateAncestorThread P t n a s)) (anc_seeds P t n a)"
proof (cases "a = 0")
  case True
  have "ct_forksite (tn_ctx (tctNodes t ! a)) = null_inst" using fork_site_null [OF sh a] True by (simp add: fork_site_of_def)
  then have "(\<lambda>s. Some (updateAncestorThread P t n a s)) = (\<lambda>s. Some (Some s))"
    using a by (intro ext) (simp add: updateAncestorThread_def getGNode_def)
  then show ?thesis using seed_sim_nil True by (simp add: anc_seeds_def)
next
  case False
  obtain p where p: "getParentThread t a = Some p" "p < a" "(p, a) \<in> tree_edges t" "forked_by P C t p a"
    by (rule getParentThread_edge [OF sh a False])
  let ?h = "\<lambda>i s. map_option (\<lambda>p. addInterleavingThread_tid (CxtThreadStmt p (CxtStmt (fja_cxt t a) i)) n s) (getParentThread t a)"
  let ?is = "tct_getNextInsts P t (fork_site_of t a)"
  have "seed_sim t f (\<lambda>s. Some (foldM ?h ?is s)) (concat (map (\<lambda>i. [(CxtThreadStmt p (CxtStmt (fja_cxt t a) i), n)]) ?is))"
    by (rule seed_sim_foldM) (simp add: p(1) seed_sim_put)
  moreover have "fork_site_of t a \<noteq> null_inst" using fork_site_null [OF sh a] False by simp
  then have "updateAncestorThread P t n a s = foldM ?h ?is s" for s
    using a thread_maps(1) [OF sh a] by (simp add: updateAncestorThread_def getGNode_def fork_site_of_def Let_def)
  ultimately show ?thesis using False p(1) by (simp add: anc_seeds_def concat_map_singleton)
qed

lemma updateSiblingThread_sim:
  assumes sh: "tct_shape P C rt t" and n: "n < length (tctNodes t)" and b: "b < length (tctNodes t)"
  shows "seed_sim t f (updateSiblingThread P t n a b) (sib_seeds P t f n a b)"
  unfolding seed_sim_def
proof (intro allI impI)
  fix s assume s: "mhp_ok s \<and> fja_ext t f (mhp_fja s)"
  have e: "mhp_isHBPair s x y = fj_isHBPair f x y" "full_children t (mhp_fja s) = full_children t f" for x y
    using fja_ext_full(2,3) [OF conjunct2 [OF s]] by (simp_all add: mhp_isHBPair_def)
  have r: "isRecurFullJoin t (mhp_fja s) a n = Some (Some ((a, n) \<in> (full_children t f)\<^sup>*))"
    using isRecurFullJoin_run [OF sh n] e(2) by simp
  obtain g where g: "getStartRoutineOfCxtThread t (tn_ctx (tctNodes t ! b)) = Some g" using thread_maps(2) [OF sh b] by blast
  have u: "updateSiblingThread P t n a b s = Some (Some (if fj_isHBPair f a b \<and> (a, n) \<in> (full_children t f)\<^sup>* \<or> fj_isHBPair f b a
      then s else addInterleavingThread_tid (root_stmt P t b) n s))"
    using b by (simp add: updateSiblingThread_def e r getGNode_def g root_stmt_def)
  show "\<exists>s'. updateSiblingThread P t n a b s = Some (Some s') \<and> mhp_ok s' \<and> mhp_frame s s' \<and>
      mhp_fja s' = mhp_fja s \<and> mhp_flow s' = seed_flow (sib_seeds P t f n a b) (mhp_flow s)"
    unfolding u using s addInterleavingThread_tid_effect [of s "root_stmt P t b" n]
    by (auto simp: sib_seeds_def seed_flow_def mhp_frame_refl)
qed

lemma thread_seeds:
  assumes sh: "tct_shape P C rt t" and n: "n < length (tctNodes t)"
  shows "\<exists>B. seed_sim t f (\<lambda>s. and_then (updateAncestorThreads P t n (addInterleavingThread_tid (root_stmt P t n) n s))
    (updateSiblingThreads P t n)) B \<and> set B = starts P t f n"
proof -
  let ?E = "tree_edges t" and ?N = "length (tctNodes t)"
  obtain tds where tds: "getAncestorThread t n = Some (Some tds)" "set tds = {a. (a, n) \<in> ?E\<^sup>+}"
    using ancestors_set [OF sh n] by blast
  let ?as = "set_insert n tds"
  have as: "set ?as = {a. (a, n) \<in> ?E\<^sup>*}" using tds(2) by (auto simp: rtrancl_eq_or_trancl)
  have le: "a \<le> n" if "(a, n) \<in> ?E\<^sup>*" for a
    using that by (induction rule: converse_rtrancl_induct) (use tree_edges_less [OF sh] in force)+
  have lt: "a < ?N" if "a \<in> set ?as" for a using that le n unfolding as by fastforce
  define sib where "sib a = the (getSiblingThread t a)" for a
  have sib: "getSiblingThread t a = Some (sib a)" "set (sib a) = {m. m \<noteq> a \<and> (\<exists>p. (p, m) \<in> ?E \<and> (p, a) \<in> ?E)}" if a: "a \<in> set ?as" for a
  proof -
    obtain ss where "getSiblingThread t a = Some ss" "set ss = {m. m \<noteq> a \<and> (\<exists>p. (p, m) \<in> ?E \<and> (p, a) \<in> ?E)}"
      using siblings_set [OF sh lt [OF a]] by blast
    then show "getSiblingThread t a = Some (sib a)" "set (sib a) = {m. m \<noteq> a \<and> (\<exists>p. (p, m) \<in> ?E \<and> (p, a) \<in> ?E)}"
      by (simp_all add: sib_def)
  qed
  let ?A = "concat (map (anc_seeds P t n) ?as)" and ?S = "concat (map (\<lambda>a. concat (map (sib_seeds P t f n a) (sib a))) ?as)"
  have "seed_sim t f (\<lambda>s. Some (foldM (updateAncestorThread P t n) ?as s)) ?A"
    by (rule seed_sim_foldM) (rule updateAncestorThread_sim [OF sh lt])
  moreover have "updateAncestorThreads P t n = (\<lambda>s. Some (foldM (updateAncestorThread P t n) ?as s))"
    by (rule ext) (simp add: updateAncestorThreads_def tds(1))
  ultimately have a: "seed_sim t f (updateAncestorThreads P t n) ?A" by simp
  have "seed_sim t f (foldR (\<lambda>c s. and_then (Some (getSiblingThread t c)) (\<lambda>ss. foldR (updateSiblingThread P t n c) ss s)) ?as) ?S"
  proof (rule seed_sim_foldR)
    fix c assume c: "c \<in> set ?as"
    have "seed_sim t f (foldR (updateSiblingThread P t n c) (sib c)) (concat (map (sib_seeds P t f n c) (sib c)))"
    proof (rule seed_sim_foldR)
      fix b assume "b \<in> set (sib c)"
      then have "b < ?N" unfolding sib(2) [OF c] by (auto simp: tree_edges_def)
      then show "seed_sim t f (updateSiblingThread P t n c b) (sib_seeds P t f n c b)" by (rule updateSiblingThread_sim [OF sh n])
    qed
    then show "seed_sim t f (\<lambda>s. and_then (Some (getSiblingThread t c)) (\<lambda>ss. foldR (updateSiblingThread P t n c) ss s))
      (concat (map (sib_seeds P t f n c) (sib c)))" unfolding sib(1) [OF c] by simp
  qed
  moreover have "updateSiblingThreads P t n = foldR (\<lambda>c s. and_then (Some (getSiblingThread t c)) (\<lambda>ss. foldR (updateSiblingThread P t n c) ss s)) ?as"
    by (rule ext) (simp add: updateSiblingThreads_def tds(1))
  ultimately have b: "seed_sim t f (updateSiblingThreads P t n) ?S" by simp
  have "seed_sim t f (\<lambda>s. and_then (and_then (Some (Some (addInterleavingThread_tid (root_stmt P t n) n s))) (updateAncestorThreads P t n))
      (updateSiblingThreads P t n)) (([(root_stmt P t n, n)] @ ?A) @ ?S)"
    by (intro seed_sim_comp seed_sim_put a b)
  then have "seed_sim t f (\<lambda>s. and_then (updateAncestorThreads P t n (addInterleavingThread_tid (root_stmt P t n) n s))
    (updateSiblingThreads P t n)) (([(root_stmt P t n, n)] @ ?A) @ ?S)" by simp
  moreover have "set (([(root_stmt P t n, n)] @ ?A) @ ?S) = starts P t f n"
  proof -
    have par: "(p, a) \<in> ?E \<longleftrightarrow> a \<noteq> 0 \<and> getParentThread t a = Some p" if l: "a < ?N" for p a
    proof (cases "a = 0")
      case True
      then show ?thesis using tree_edges_less [OF sh, of p a] by auto
    next
      case False
      obtain q where q: "getParentThread t a = Some q" "q < a" "(q, a) \<in> ?E" "forked_by P C t q a"
        by (rule getParentThread_edge [OF sh l False])
      have "p = q" if "(p, a) \<in> ?E" by (rule tree_edges_unique [OF sh that q(3)])
      then show ?thesis using q(1,3) False by auto
    qed
    have "set ?A = {(CxtThreadStmt p (CxtStmt (fja_cxt t a) i), n) | p a i. (a, n) \<in> ?E\<^sup>* \<and> (p, a) \<in> ?E \<and>
        i \<in> set (tct_getNextInsts P t (fork_site_of t a))}" (is "_ = ?A'")
    proof
      show "set ?A \<subseteq> ?A'"
      proof
        fix x assume "x \<in> set ?A"
        then obtain a where a: "a \<in> set ?as" "x \<in> set (anc_seeds P t n a)" by auto
        then have nz: "a \<noteq> 0" by (auto simp: anc_seeds_def split: if_splits)
        obtain q where q: "getParentThread t a = Some q" "q < a" "(q, a) \<in> ?E" "forked_by P C t q a"
          by (rule getParentThread_edge [OF sh lt [OF a(1)] nz])
        obtain i where "i \<in> set (tct_getNextInsts P t (fork_site_of t a))" "x = (CxtThreadStmt q (CxtStmt (fja_cxt t a) i), n)"
          using a(2) nz q(1) by (auto simp: anc_seeds_def)
        then show "x \<in> ?A'" using a(1) q(3) unfolding as by blast
      qed
      show "?A' \<subseteq> set ?A"
      proof
        fix x assume "x \<in> ?A'"
        then obtain p a i where x: "x = (CxtThreadStmt p (CxtStmt (fja_cxt t a) i), n)" "(a, n) \<in> ?E\<^sup>*" "(p, a) \<in> ?E"
          "i \<in> set (tct_getNextInsts P t (fork_site_of t a))" by blast
        have a: "a \<in> set ?as" using x(2) as by simp
        have "x \<in> set (anc_seeds P t n a)" using x(1,4) par [OF lt [OF a], of p] x(3) by (auto simp: anc_seeds_def)
        then show "x \<in> set ?A" using a by auto
      qed
    qed
    moreover have "set ?S = {(root_stmt P t b, n) | a b p. (a, n) \<in> ?E\<^sup>* \<and> (p, a) \<in> ?E \<and> (p, b) \<in> ?E \<and> b \<noteq> a \<and>
        \<not> (fj_isHBPair f a b \<and> (a, n) \<in> (full_children t f)\<^sup>*) \<and> \<not> fj_isHBPair f b a}" (is "_ = ?S'")
    proof
      show "set ?S \<subseteq> ?S'"
      proof
        fix x assume "x \<in> set ?S"
        then obtain a b where a: "a \<in> set ?as" "b \<in> set (sib a)" "x \<in> set (sib_seeds P t f n a b)" by auto
        then have "\<not> (fj_isHBPair f a b \<and> (a, n) \<in> (full_children t f)\<^sup>*)" "\<not> fj_isHBPair f b a" "x = (root_stmt P t b, n)"
          by (auto simp: sib_seeds_def split: if_splits)
        then show "x \<in> ?S'" using a(1) a(2) [unfolded sib(2) [OF a(1)]] as by blast
      qed
      show "?S' \<subseteq> set ?S"
      proof
        fix x assume "x \<in> ?S'"
        then obtain a b p where x: "x = (root_stmt P t b, n)" "(a, n) \<in> ?E\<^sup>*" "(p, a) \<in> ?E" "(p, b) \<in> ?E" "b \<noteq> a"
          "\<not> (fj_isHBPair f a b \<and> (a, n) \<in> (full_children t f)\<^sup>*)" "\<not> fj_isHBPair f b a" by blast
        have a: "a \<in> set ?as" using x(2) as by simp
        have "b \<in> set (sib a)" "x \<in> set (sib_seeds P t f n a b)" using x sib(2) [OF a] by (auto simp: sib_seeds_def)
        then show "x \<in> set ?S" using a by auto
      qed
    qed
    ultimately show ?thesis unfolding starts_def set_append by simp
  qed
  ultimately show ?thesis by blast
qed

section \<open>All threads\<close>

definition mhp_seeds :: "program \<Rightarrow> tct \<Rightarrow> fork_join \<Rightarrow> (cxt_thread_stmt \<times> node_id) set" where
  "mhp_seeds P t f = (\<Union>n<length (tctNodes t). starts P t f n)"

definition mhp_stmts :: "program \<Rightarrow> tct \<Rightarrow> fork_join \<Rightarrow> cxt_thread_stmt set" where
  "mhp_stmts P t f = reach (\<lambda>c. flow_target ` set (mhp_ops P t f c)) (fst ` mhp_seeds P t f)"

definition mhp_lossy :: "program \<Rightarrow> tct \<Rightarrow> fork_join \<Rightarrow> cxt_thread_stmt \<Rightarrow> bool" where
  "mhp_lossy P t f c \<longleftrightarrow> mhp_own P t f c \<noteq> {} \<or> (\<exists>d S. Kill c S \<in> set (mhp_ops P t f d))"

text \<open>
  What the analysis relies on: finitely many statements are reached under finitely many
  contexts, no assertion fails at one of them, and no cycle of the control flow consists of
  statements where threads are removed only.
\<close>

definition mhp_ready :: "program \<Rightarrow> tct \<Rightarrow> fork_join \<Rightarrow> (cxt_thread_stmt \<Rightarrow> nat) \<Rightarrow> bool" where
  "mhp_ready P t f rk \<longleftrightarrow> finite (mhp_stmts P t f) \<and> (\<forall>c\<in>mhp_stmts P t f. mhp_local P t c \<and>
     (\<forall>d\<in>flow_target ` set (mhp_ops P t f c). mhp_lossy P t f c \<longrightarrow> mhp_lossy P t f d \<longrightarrow> d \<noteq> c \<longrightarrow> rk d < rk c))"

lemma mhp_ops_self:
  assumes "mhp_local P t c" "x \<in> set (mhp_ops P t f c)" "flow_target x = c"
  shows "x = Flow c"
proof (cases x)
  case (Flow d)
  then show ?thesis using assms(3) by simp
next
  case (Put d S)
  then show ?thesis using assms(2)
    by (auto simp: mhp_ops_def Let_def mhp_next_def mhp_exits_def mhp_forks_def mhp_fork_ops_def mhp_calls_def mhp_returns_def
        mhp_return_ops_def mhp_outside_def split: if_splits option.splits prod.splits bool.splits)
next
  case (Kill d S)
  have "Kill d S \<notin> set (mhp_next P t c cxt i)" for cxt i by (auto simp: mhp_next_def)
  moreover have "Kill d S \<notin> set (mhp_forks P t c)" "Kill d S \<notin> set (mhp_calls P t c)" "Kill d S \<notin> set (mhp_outside P c)"
    by (auto simp: mhp_forks_def mhp_fork_ops_def mhp_calls_def mhp_outside_def Let_def split: if_splits option.splits)
  moreover have "Kill d S \<notin> set (mhp_return_ops P t c i)" for i
    by (auto simp: mhp_return_ops_def mhp_next_def split: prod.splits bool.splits)
  then have "Kill d S \<notin> set (mhp_returns P t c)" by (auto simp: mhp_returns_def split: if_splits)
  ultimately have "Kill d S \<in> set (mhp_exits P t f c)" using assms(2) Kill by (auto simp: mhp_ops_def Let_def split: if_splits)
  then obtain lp where lp: "joinSiteToLoopMap t (ts_stmt c) = Some lp" "d \<in> set (mhp_exit_stmts P c lp)"
    by (cases "joinSiteToLoopMap t (ts_stmt c)") (auto simp: mhp_exits_def split: if_splits)
  then obtain eb where "eb \<in> set (loop_exits P lp)" "ts_stmt d = bb_front P eb" by (auto simp: mhp_exit_stmts_def)
  moreover have "ts_stmt c \<notin> bb_front P ` set (loop_exits P lp)" using assms(1) lp(1) unfolding mhp_local_def by blast
  ultimately have "d \<noteq> c" by auto
  then show ?thesis using assms(3) Kill by simp
qed

lemma mhp_ops_no_put: "Put y S \<notin> set (mhp_ops P t f c)"
  by (auto simp: mhp_ops_def Let_def mhp_next_def mhp_exits_def mhp_forks_def mhp_fork_ops_def mhp_calls_def mhp_returns_def
      mhp_return_ops_def mhp_outside_def split: if_splits option.splits prod.splits bool.splits)

lemma mhp_ready_flow_ok:
  assumes R: "mhp_ready P t f rk"
  shows "flow_ok (mhp_own P t f) (mhp_ops P t f) (mhp_stmts P t f) {..<length (tctNodes t)} {c. mhp_lossy P t f c} rk"
proof -
  have cl: "flow_target ` set (mhp_ops P t f c) \<subseteq> mhp_stmts P t f" if "c \<in> mhp_stmts P t f" for c
    unfolding mhp_stmts_def by (intro subsetI) (rule reach_step [OF that [unfolded mhp_stmts_def]])
  have R: "finite (mhp_stmts P t f)" "\<And>c. c \<in> mhp_stmts P t f \<Longrightarrow> mhp_local P t c"
    "\<And>c d. c \<in> mhp_stmts P t f \<Longrightarrow> d \<in> flow_target ` set (mhp_ops P t f c) \<Longrightarrow> mhp_lossy P t f c \<Longrightarrow> mhp_lossy P t f d \<Longrightarrow>
      d \<noteq> c \<Longrightarrow> rk d < rk c" using R unfolding mhp_ready_def by blast+
  show ?thesis
    unfolding flow_ok_def
  proof (intro conjI ballI allI impI)
    fix c x assume c: "c \<in> mhp_stmts P t f" and x: "x \<in> set (mhp_ops P t f c)"
    show "flow_target x \<in> mhp_stmts P t f" using cl [OF c] x by blast
    show "flow_target x = c \<Longrightarrow> x = Flow c" by (rule mhp_ops_self [OF R(2) [OF c] x])
    show "S \<subseteq> {..<length (tctNodes t)}" if "x = Put y S" for y S using mhp_ops_no_put x that by metis
  next
    fix c x assume c: "c \<in> mhp_stmts P t f \<inter> {c. mhp_lossy P t f c}" and x: "x \<in> set (mhp_ops P t f c)"
      and l: "flow_target x \<in> {c. mhp_lossy P t f c}" and n: "flow_target x \<noteq> c"
    show "rk (flow_target x) < rk c" by (rule R(3)) (use c x l n in auto)
  qed (use R(1) in \<open>auto simp: mhp_lossy_def\<close>)
qed

lemma mhp_root_run:
  assumes sh: "tct_shape P C rt t" and R: "mhp_ready P t f rk" and dj: "\<And>c. dj_set f c \<subseteq> {..<length (tctNodes t)}"
    and n: "n < length (tctNodes t)"
    and rp: "mhp_repr_ok P t f (mhp_stmts P t f) s0 s a" and fi: "flow_in (mhp_stmts P t f) {..<length (tctNodes t)} (fst a)"
    and A: "may_inv (mhp_own P t f) (mhp_ops P t f) A a" "must_inv (mhp_own P t f) (mhp_ops P t f) A a"
  shows "\<exists>s' a'. mhp_root P t n s = Some (Some s') \<and> mhp_repr_ok P t f (mhp_stmts P t f) s0 s' a' \<and>
    flow_in (mhp_stmts P t f) {..<length (tctNodes t)} (fst a') \<and> snd (fst a') = {} \<and>
    may_inv (mhp_own P t f) (mhp_ops P t f) (A \<union> starts P t f n) a' \<and> must_inv (mhp_own P t f) (mhp_ops P t f) (A \<union> starts P t f n) a'"
proof -
  let ?own = "mhp_own P t f" and ?ops = "mhp_ops P t f" and ?U = "mhp_stmts P t f" and ?V = "{..<length (tctNodes t)}"
  obtain B where B: "seed_sim t f (\<lambda>s. and_then (updateAncestorThreads P t n (addInterleavingThread_tid (root_stmt P t n) n s))
    (updateSiblingThreads P t n)) B" "set B = starts P t f n" using thread_seeds [OF sh n] by blast
  obtain fa G where a: "a = (fa, G)" by (cases a)
  have rp: "mhp_stmts_ok P t f ?U" "mhp_ok s" "fja_ext t f (mhp_fja s)" "mhp_flow s = fa"
    "\<And>i. ts_of s i \<subseteq> snd fa \<union> fst ` G" "\<And>c. c \<in> fst ` G \<Longrightarrow> c \<in> ts_of s (ts_stmt c)"
    "nonCandidateFuncMHPRelMap s = nonCandidateFuncMHPRelMap s0" "numOfTotalQueries s = numOfTotalQueries s0"
      "numOfMHPQueries s = numOfMHPQueries s0"
    using rp unfolding mhp_repr_ok_def mhp_repr_def a fst_conv snd_conv by blast+
  obtain s1 where s1: "and_then (updateAncestorThreads P t n (addInterleavingThread_tid (root_stmt P t n) n s)) (updateSiblingThreads P t n) =
      Some (Some s1)" "mhp_ok s1" "mhp_frame s s1" "mhp_fja s1 = mhp_fja s" "mhp_flow s1 = seed_flow B fa"
    using B(1) rp(2-4) unfolding seed_sim_def by blast
  let ?a1 = "(seed_flow B fa, G)"
  have sU: "y \<in> ?U \<and> v \<in> ?V" if "(y, v) \<in> set B" for y v
  proof -
    have y: "(y, v) \<in> starts P t f n" using that B(2) by simp
    then have "y \<in> fst ` mhp_seeds P t f" unfolding mhp_seeds_def using n by force
    moreover have "v = n" using y by (auto simp: starts_def)
    ultimately show ?thesis using n by (auto simp: mhp_stmts_def)
  qed
  have fi1: "flow_in ?U ?V (fst ?a1)" using seed_flow_in [OF fi [unfolded a fst_conv], of B] sU by simp
  have inv: "may_inv ?own ?ops (A \<union> starts P t f n) ?a1" "must_inv ?own ?ops (A \<union> starts P t f n) ?a1"
    using seed_may_inv [OF A(1) [unfolded a], of B] seed_must_inv [OF A(2) [unfolded a], of B] by (simp_all only: B(2))
  have pd: "snd fa \<subseteq> snd (seed_flow B fa)" using seed_flow_pend [of fa B] by blast
  have fl: "mhp_flow s1 = (itl s1, mhp_pend s1)" by (simp add: mhp_flow_def)
  have fr: "\<And>i. ts_of s i \<subseteq> ts_of s1 i" "\<And>i. ts_of s1 i \<subseteq> ts_of s i \<union> mhp_pend s1" using s1(3) unfolding mhp_frame_def by blast+
  have pe: "snd (seed_flow B fa) = mhp_pend s1" using s1(5) fl by (metis snd_conv)
  have "ts_of s1 i \<subseteq> snd (seed_flow B fa) \<union> fst ` G" for i using fr(2) [of i] rp(5) [of i] pd pe by blast
  moreover have "c \<in> ts_of s1 (ts_stmt c)" if "c \<in> fst ` G" for c using rp(6) [OF that] fr(1) by blast
  moreover have "snd (seed_flow B fa) \<subseteq> ?U" using fi1 by (simp add: flow_in_def)
  ultimately have r1: "mhp_repr_ok P t f ?U s0 s1 ?a1"
    using rp s1 unfolding mhp_repr_ok_def mhp_repr_def fst_conv snd_conv by (simp add: mhp_frame_def)
  have "\<exists>s' a'. while_run (\<lambda>s. \<not> fifo_empty (cxtStmtList s)) (mhp_step P t) s1 = Some (Some s') \<and> mhp_repr_ok P t f ?U s0 s' a' \<and>
      flow_in ?U ?V (fst a') \<and> snd (fst a') = {} \<and> (may_inv ?own ?ops (A \<union> starts P t f n) a' \<and> must_inv ?own ?ops (A \<union> starts P t f n) a')"
  proof (rule interleav.run_ends [OF mhp_ready_flow_ok [OF R] fi1 r1])
    show "may_inv ?own ?ops (A \<union> starts P t f n) ?a1 \<and> must_inv ?own ?ops (A \<union> starts P t f n) ?a1" using inv by simp
    show "may_inv ?own ?ops (A \<union> starts P t f n) (visit_log ?own ?ops c a) \<and> must_inv ?own ?ops (A \<union> starts P t f n) (visit_log ?own ?ops c a)"
      if "may_inv ?own ?ops (A \<union> starts P t f n) a \<and> must_inv ?own ?ops (A \<union> starts P t f n) a" "c \<in> snd (fst a)" for a c
      using visit_may_inv [OF conjunct1 [OF that(1)] that(2)] visit_must_inv [OF conjunct2 [OF that(1)]] by (rule conjI)
  qed
  then obtain s' a' where r: "while_run (\<lambda>s. \<not> fifo_empty (cxtStmtList s)) (mhp_step P t) s1 = Some (Some s')" "mhp_repr_ok P t f ?U s0 s' a'"
    "flow_in ?U ?V (fst a')" "snd (fst a') = {}" "may_inv ?own ?ops (A \<union> starts P t f n) a'" "must_inv ?own ?ops (A \<union> starts P t f n) a'" by blast
  have "mhp_root P t n s = Some (Some s')"
    using s1(1) r(1) unfolding mhp_root_def root_known [OF sh n] option.case and_then_assoc [symmetric] by simp
  then show ?thesis using r(2-6) by blast
qed

lemma mhp_roots_run:
  assumes sh: "tct_shape P C rt t" and R: "mhp_ready P t f rk" and dj: "\<And>c. dj_set f c \<subseteq> {..<length (tctNodes t)}"
  shows "set ids \<subseteq> {..<length (tctNodes t)} \<Longrightarrow> mhp_repr_ok P t f (mhp_stmts P t f) s0 s a \<Longrightarrow>
    flow_in (mhp_stmts P t f) {..<length (tctNodes t)} (fst a) \<Longrightarrow> snd (fst a) = {} \<Longrightarrow>
    may_inv (mhp_own P t f) (mhp_ops P t f) A a \<Longrightarrow> must_inv (mhp_own P t f) (mhp_ops P t f) A a \<Longrightarrow>
    \<exists>s' a'. foldR (mhp_root P t) ids s = Some (Some s') \<and> mhp_repr_ok P t f (mhp_stmts P t f) s0 s' a' \<and> snd (fst a') = {} \<and>
      may_inv (mhp_own P t f) (mhp_ops P t f) (A \<union> (\<Union>n\<in>set ids. starts P t f n)) a' \<and>
      must_inv (mhp_own P t f) (mhp_ops P t f) (A \<union> (\<Union>n\<in>set ids. starts P t f n)) a'"
proof (induction ids arbitrary: s a A)
  case Nil
  then show ?case by (intro exI [of _ s] exI [of _ a]) simp
next
  case (Cons n ids)
  have n: "n < length (tctNodes t)" using Cons.prems(1) by simp
  obtain s1 a1 where s1: "mhp_root P t n s = Some (Some s1)" "mhp_repr_ok P t f (mhp_stmts P t f) s0 s1 a1"
    "flow_in (mhp_stmts P t f) {..<length (tctNodes t)} (fst a1)" "snd (fst a1) = {}"
    "may_inv (mhp_own P t f) (mhp_ops P t f) (A \<union> starts P t f n) a1" "must_inv (mhp_own P t f) (mhp_ops P t f) (A \<union> starts P t f n) a1"
    using mhp_root_run [OF sh R dj n Cons.prems(2,3,5,6)] by blast
  have u: "A \<union> starts P t f n \<union> (\<Union>n\<in>set ids. starts P t f n) = A \<union> (\<Union>n\<in>set (n # ids). starts P t f n)" by auto
  have "set ids \<subseteq> {..<length (tctNodes t)}" using Cons.prems(1) by simp
  from Cons.IH [OF this s1(2-6)] show ?case unfolding u using s1(1) by simp
qed

abbreviation mhp_may :: "program \<Rightarrow> tct \<Rightarrow> fork_join \<Rightarrow> cxt_thread_stmt \<Rightarrow> node_id \<Rightarrow> bool" where
  "mhp_may P t f \<equiv> may_hold (mhp_own P t f) (mhp_ops P t f) (mhp_seeds P t f)"

abbreviation mhp_must :: "program \<Rightarrow> tct \<Rightarrow> fork_join \<Rightarrow> cxt_thread_stmt \<Rightarrow> node_id \<Rightarrow> bool" where
  "mhp_must P t f \<equiv> must_hold (mhp_own P t f) (mhp_ops P t f) (mhp_seeds P t f)"

definition interleaved :: "program \<Rightarrow> tct \<Rightarrow> fork_join \<Rightarrow> mhp \<Rightarrow> bool" where
  "interleaved P t f s \<longleftrightarrow> mhp_ok s \<and> mhp_pend s = {} \<and> fja_ext t f (mhp_fja s) \<and> nonCandidateFuncMHPRelMap s = Map.empty \<and>
     numOfTotalQueries s = 0 \<and> numOfMHPQueries s = 0 \<and> (\<forall>i. ts_of s i \<subseteq> mhp_stmts P t f) \<and>
     (\<forall>c v. v \<in> itl s c \<longrightarrow> mhp_may P t f c v) \<and> (\<forall>c v. mhp_must P t f c v \<longrightarrow> v \<in> itl s c) \<and>
     (\<forall>i. \<forall>c\<in>ts_of s i. \<exists>w. mhp_may P t f c w)"

lemma mhp_roots_interleaved:
  assumes sh: "tct_shape P C rt t" and R: "mhp_ready P t f rk" and dj: "\<And>c. dj_set f c \<subseteq> {..<length (tctNodes t)}"
    and ids: "set ids = {..<length (tctNodes t)}" and e: "dirAndIndJoinMap f = Map.empty"
  shows "\<exists>s. foldR (mhp_root P t) ids (mhp_init f) = Some (Some s) \<and> interleaved P t f s"
proof -
  let ?own = "mhp_own P t f" and ?ops = "mhp_ops P t f" and ?U = "mhp_stmts P t f"
  let ?a = "(((\<lambda>_. {}), {}), {}) :: (cxt_thread_stmt, node_id) flow_log"
  have i0: "itl (mhp_init f) = (\<lambda>_. {})" "ts_of (mhp_init f) i = {}" "mhp_pend (mhp_init f) = {}" for i
    by (simp_all add: itl_def ts_of_def mhp_pend_def mhp_init_def fifo_new_def fun_eq_iff)
  have cl: "flow_target ` set (?ops c) \<subseteq> ?U" if "c \<in> ?U" for c
    unfolding mhp_stmts_def by (intro subsetI) (rule reach_step [OF that [unfolded mhp_stmts_def]])
  have so: "mhp_stmts_ok P t f ?U" unfolding mhp_stmts_ok_def using sh dj R cl unfolding mhp_ready_def by blast
  have "mhp_ok (mhp_init f)" unfolding mhp_ok_def i0 by (simp add: mhp_init_def fifo_new_def fifo_inv_def)
  moreover have "fja_ext t f (mhp_fja (mhp_init f))" by (simp add: fja_ext_def mhp_init_def e)
  moreover have "mhp_flow (mhp_init f) = ((\<lambda>_. {}), {})" by (simp add: mhp_flow_def i0)
  ultimately have rp: "mhp_repr_ok P t f ?U (mhp_init f) (mhp_init f) ?a"
    using so by (simp add: mhp_repr_ok_def mhp_repr_def i0)
  have mi: "may_inv ?own ?ops {} ?a" "must_inv ?own ?ops {} ?a" by (simp_all add: may_inv_def must_inv_def)
  have s: "{} \<union> (\<Union>n\<in>set ids. starts P t f n) = mhp_seeds P t f" by (simp add: mhp_seeds_def ids)
  have sb: "set ids \<subseteq> {..<length (tctNodes t)}" using ids by simp
  have fi: "flow_in ?U {..<length (tctNodes t)} (fst ?a)" by (simp add: flow_in_def)
  have em: "snd (fst ?a) = {}" by simp
  obtain s' a' where r: "foldR (mhp_root P t) ids (mhp_init f) = Some (Some s')" "mhp_repr_ok P t f ?U (mhp_init f) s' a'"
    "snd (fst a') = {}" "may_inv ?own ?ops (mhp_seeds P t f) a'" "must_inv ?own ?ops (mhp_seeds P t f) a'"
    using mhp_roots_run [OF sh R dj sb rp fi em mi] unfolding s by blast
  have q: "mhp_ok s'" "fja_ext t f (mhp_fja s')" "mhp_flow s' = fst a'" "\<And>i. ts_of s' i \<subseteq> snd (fst a') \<union> fst ` snd a'"
    "nonCandidateFuncMHPRelMap s' = nonCandidateFuncMHPRelMap (mhp_init f)" "numOfTotalQueries s' = numOfTotalQueries (mhp_init f)"
    "numOfMHPQueries s' = numOfMHPQueries (mhp_init f)"
    using r(2) unfolding mhp_repr_ok_def mhp_repr_def by blast+
  have it: "itl s' = fst (fst a')" "mhp_pend s' = {}" using q(3) r(3) by (simp_all add: mhp_flow_def prod_eq_iff)
  have M: "\<exists>w. mhp_may P t f c w" if "c \<in> ts_of s' i" for c i
  proof -
    have "c \<in> fst ` snd a'" using subsetD [OF q(4) that] r(3) by simp
    then obtain F where "(c, F) \<in> snd a'" by force
    then show ?thesis using r(4) unfolding may_inv_def by blast
  qed
  have U: "c \<in> ?U" if "mhp_may P t f c w" for c w
    using that
  proof (induction rule: may_hold.induct)
    case (may_seed y v)
    then have "y \<in> fst ` mhp_seeds P t f" by force
    then show ?case unfolding mhp_stmts_def by (rule reach_root)
  next
    case (may_flow c v y)
    then have "y \<in> flow_target ` set (?ops c)" by force
    then show ?case using cl [OF may_flow.IH] by blast
  next
    case (may_put c w y S v)
    then show ?case using mhp_ops_no_put by metis
  qed
  have "interleaved P t f s'"
    unfolding interleaved_def
  proof (intro conjI allI ballI impI subsetI)
    show "mhp_may P t f c v" if "v \<in> itl s' c" for c v using r(4) that unfolding may_inv_def it(1) by blast
    show "v \<in> itl s' c" if "mhp_must P t f c v" for c v using must_hold_final [OF r(5,3) that] it(1) by simp
    show "c \<in> ?U" if "c \<in> ts_of s' i" for i c using M [OF that] U by blast
  qed (use q M it(2) in \<open>simp_all add: mhp_init_def\<close>)
  then show ?thesis using r(1) by blast
qed

section \<open>Other functions\<close>

text \<open>
  The threads of the entry of a function that is not a candidate are copied to its other
  instructions.
\<close>

definition home :: "program \<Rightarrow> tct \<Rightarrow> cxt_thread_stmt \<Rightarrow> cxt_thread_stmt" where
  "home P t c = (let f = fun_of P (ts_stmt c) in
     if \<not> isCandidateFun t f \<and> \<not> is_ext_fun P f \<and> f \<in> set (mod_funs P) \<and> ts_stmt c \<in> set (fun_insts P f)
     then ts_at c (ts_cxt c) (entry_inst P f) else c)"

definition module_ok :: "program \<Rightarrow> bool" where
  "module_ok P \<longleftrightarrow> (\<forall>f\<in>set (mod_funs P). \<not> is_ext_fun P f \<longrightarrow> fun_of P (entry_inst P f) = f \<and>
     (\<forall>i\<in>set (fun_insts P f). fun_of P i = f))"

definition copies :: "program \<Rightarrow> tct \<Rightarrow> mhp \<Rightarrow> func \<Rightarrow> (cxt_thread_stmt \<times> inst) list" where
  "copies P t s f = (if isCandidateFun t f \<or> is_ext_fun P f then [] else
     concat (map (\<lambda>c. map (Pair c) (filter (\<lambda>i. i \<noteq> entry_inst P f) (fun_insts P f)))
       (case instToTSMap s (entry_inst P f) of None \<Rightarrow> [] | Some ts \<Rightarrow> ts)))"

lemma copy_interleav_effect:
  "itl (copy_interleav c i s) = (itl s)(ts_at c (ts_cxt c) i := itl s (ts_at c (ts_cxt c) i) \<union> itl s c)"
  "instToTSMap (copy_interleav c i s) = (instToTSMap s)(i \<mapsto> set_insert (ts_at c (ts_cxt c) i)
     (case instToTSMap s i of None \<Rightarrow> [] | Some ts \<Rightarrow> ts))"
  "cxtStmtList (copy_interleav c i s) = cxtStmtList s" "mhp_fja (copy_interleav c i s) = mhp_fja s"
  "nonCandidateFuncMHPRelMap (copy_interleav c i s) = nonCandidateFuncMHPRelMap s"
  "numOfTotalQueries (copy_interleav c i s) = numOfTotalQueries s" "numOfMHPQueries (copy_interleav c i s) = numOfMHPQueries s"
proof -
  let ?d = "ts_at c (ts_cxt c) i"
  obtain l s1 where a: "getInterleavingThreads ?d s = (l, s1)" by (cases "getInterleavingThreads ?d s")
  obtain l' s2 where b: "getInterleavingThreads c s1 = (l', s2)" by (cases "getInterleavingThreads c s1")
  note A = getInterleavingThreads_eq [OF a] and B = getInterleavingThreads_eq [OF b]
  have e: "copy_interleav c i s = insertThreadStmt i ?d (setInterleav ?d (itl s ?d \<union> itl s c) s2)"
    by (simp add: copy_interleav_def Let_def a b A B)
  have "itl (setInterleav d l s) = (itl s)(d := l)" for d l s by (auto simp: itl_def setInterleav_def fun_eq_iff)
  moreover have "itl (insertThreadStmt i d s) = itl s" for d s by (simp add: itl_def insertThreadStmt_def fun_eq_iff)
  ultimately show "itl (copy_interleav c i s) = (itl s)(?d := itl s ?d \<union> itl s c)" unfolding e by (simp add: A B)
  show "instToTSMap (copy_interleav c i s) = (instToTSMap s)(i \<mapsto> set_insert ?d (case instToTSMap s i of None \<Rightarrow> [] | Some ts \<Rightarrow> ts))"
    unfolding e by (simp add: insertThreadStmt_def setInterleav_def A B)
  show "cxtStmtList (copy_interleav c i s) = cxtStmtList s" "mhp_fja (copy_interleav c i s) = mhp_fja s"
    "nonCandidateFuncMHPRelMap (copy_interleav c i s) = nonCandidateFuncMHPRelMap s"
    "numOfTotalQueries (copy_interleav c i s) = numOfTotalQueries s" "numOfMHPQueries (copy_interleav c i s) = numOfMHPQueries s"
    unfolding e by (simp_all add: insertThreadStmt_def setInterleav_def A B)
qed

abbreviation copy_all :: "(cxt_thread_stmt \<times> inst) list \<Rightarrow> mhp \<Rightarrow> mhp" where
  "copy_all \<equiv> fold (\<lambda>(c, i). copy_interleav c i)"

lemma copy_all_frame:
  "cxtStmtList (copy_all X s) = cxtStmtList s" "mhp_fja (copy_all X s) = mhp_fja s"
  "nonCandidateFuncMHPRelMap (copy_all X s) = nonCandidateFuncMHPRelMap s"
  "numOfTotalQueries (copy_all X s) = numOfTotalQueries s" "numOfMHPQueries (copy_all X s) = numOfMHPQueries s"
  by (induction X arbitrary: s) (auto simp: copy_interleav_effect split: prod.splits)

lemma copy_all_map: "j \<notin> snd ` set X \<Longrightarrow> instToTSMap (copy_all X s) j = instToTSMap s j"
  by (induction X arbitrary: s) (auto simp: copy_interleav_effect split: prod.splits)

lemma ts_of_copy: "ts_of (copy_interleav c i s) j = ts_of s j \<union> (if j = i then {ts_at c (ts_cxt c) i} else {})"
  by (auto simp: ts_of_def copy_interleav_effect split: option.split)

lemma copy_all_ts: "ts_of (copy_all X s) i = ts_of s i \<union> {ts_at c (ts_cxt c) i | c. (c, i) \<in> set X}"
proof (induction X arbitrary: s)
  case (Cons x X)
  obtain c j where x: "x = (c, j)" by (cases x)
  show ?case using Cons.IH [of "copy_interleav c j s"] unfolding ts_of_copy by (auto simp: x)
qed simp

lemma copy_all_itl:
  assumes "\<And>c i d j. (c, i) \<in> set X \<Longrightarrow> (d, j) \<in> set X \<Longrightarrow> ts_at c (ts_cxt c) i \<noteq> d"
  shows "v \<in> itl (copy_all X s) d \<longleftrightarrow> v \<in> itl s d \<or> (\<exists>c i. (c, i) \<in> set X \<and> ts_at c (ts_cxt c) i = d \<and> v \<in> itl s c)"
  using assms
proof (induction X arbitrary: s)
  case (Cons x X)
  obtain c j where x: "x = (c, j)" by (cases x)
  let ?s = "copy_interleav c j s"
  have IH: "v \<in> itl (copy_all X ?s) d \<longleftrightarrow> v \<in> itl ?s d \<or> (\<exists>c i. (c, i) \<in> set X \<and> ts_at c (ts_cxt c) i = d \<and> v \<in> itl ?s c)"
  proof (rule Cons.IH)
    show "ts_at b (ts_cxt b) i \<noteq> e" if "(b, i) \<in> set X" "(e, k) \<in> set X" for b i e k
      by (rule Cons.prems) (use that in auto)
  qed
  have "itl ?s b = itl s b" if "(b, i) \<in> set X" for b i
  proof -
    have "ts_at c (ts_cxt c) j \<noteq> b" by (rule Cons.prems [of c j b i]) (use that x in simp_all)
    then show ?thesis by (simp add: copy_interleav_effect)
  qed
  then have "(\<exists>c i. (c, i) \<in> set X \<and> ts_at c (ts_cxt c) i = d \<and> v \<in> itl ?s c) \<longleftrightarrow>
      (\<exists>c i. (c, i) \<in> set X \<and> ts_at c (ts_cxt c) i = d \<and> v \<in> itl s c)" by metis
  moreover have "v \<in> itl ?s d \<longleftrightarrow> v \<in> itl s d \<or> ts_at c (ts_cxt c) j = d \<and> v \<in> itl s c" by (auto simp: copy_interleav_effect)
  moreover have "copy_all (x # X) s = copy_all X ?s" by (simp add: x)
  ultimately show ?case using IH x by auto
qed simp

lemma nested_copies:
  "fold (\<lambda>c. fold (\<lambda>i s. if q i then s else copy_interleav c i s) is) cs s =
   copy_all (concat (map (\<lambda>c. map (Pair c) (filter (\<lambda>i. \<not> q i) is)) cs)) s"
proof -
  have "fold (\<lambda>i s. if q i then s else copy_interleav c i s) is s = copy_all (map (Pair c) (filter (\<lambda>i. \<not> q i) is)) s" for c s
    by (induction "is" arbitrary: s) auto
  then show ?thesis by (induction cs arbitrary: s) auto
qed

lemma updateNonCandidateFun_copies: "updateNonCandidateFun P t f s = copy_all (copies P t s f) s"
  by (cases "instToTSMap s (entry_inst P f)") (auto simp: updateNonCandidateFun_def copies_def Let_def nested_copies)

lemma update_copies:
  assumes m: "module_ok P" and fs: "set fs \<subseteq> set (mod_funs P)"
    and e: "\<And>f. f \<in> set fs \<Longrightarrow> \<not> isCandidateFun t f \<Longrightarrow> \<not> is_ext_fun P f \<Longrightarrow>
      instToTSMap s (entry_inst P f) = instToTSMap s0 (entry_inst P f)"
  shows "fold (updateNonCandidateFun P t) fs s = copy_all (concat (map (copies P t s0) fs)) s"
  using fs e
proof (induction fs arbitrary: s)
  case (Cons f fs)
  have c: "copies P t s f = copies P t s0 f"
    using Cons.prems(2) [of f] by (auto simp: copies_def)
  let ?s = "copy_all (copies P t s0 f) s"
  have "fold (updateNonCandidateFun P t) fs ?s = copy_all (concat (map (copies P t s0) fs)) ?s"
  proof (rule Cons.IH)
    fix g assume g: "g \<in> set fs" "\<not> isCandidateFun t g" "\<not> is_ext_fun P g"
    have "entry_inst P g \<notin> snd ` set (copies P t s0 f)"
    proof
      assume "entry_inst P g \<in> snd ` set (copies P t s0 f)"
      then have i: "entry_inst P g \<in> set (fun_insts P f)" "entry_inst P g \<noteq> entry_inst P f" "\<not> is_ext_fun P f"
        by (auto simp: copies_def split: if_splits)
      have "f \<in> set (mod_funs P)" "g \<in> set (mod_funs P)" using Cons.prems(1) g(1) by auto
      then have "fun_of P (entry_inst P g) = f" "fun_of P (entry_inst P g) = g" using m i g(3) unfolding module_ok_def by blast+
      then show False using i(2) by simp
    qed
    then have "instToTSMap ?s (entry_inst P g) = instToTSMap s (entry_inst P g)" by (rule copy_all_map)
    then show "instToTSMap ?s (entry_inst P g) = instToTSMap s0 (entry_inst P g)" using Cons.prems(2) [of g] g by simp
  qed (use Cons.prems(1) in simp)
  then show ?case using updateNonCandidateFun_copies [of P t f s] unfolding c by simp
qed simp

end
