(* ===== verification/MHPQuery.thy ===== *)
theory MHPQuery
  imports MHPResult
begin

text \<open>
  The result of the interleaving analysis and what the queries make of it: bounds of the
  interleaving threads of a statement, and when two instructions may happen in parallel.
\<close>

section \<open>The final state\<close>

definition mhp_final :: "program \<Rightarrow> tct \<Rightarrow> fork_join \<Rightarrow> mhp \<Rightarrow> bool" where
  "mhp_final P t f s \<longleftrightarrow> (\<forall>i. instToTSMap s i \<noteq> Some []) \<and> (\<forall>i. \<forall>c\<in>ts_of s i. ts_stmt c = i) \<and>
     (\<forall>c. itl s c \<noteq> {} \<longrightarrow> c \<in> ts_of s (ts_stmt c)) \<and> nonCandidateFuncMHPRelMap s = Map.empty \<and>
     (\<forall>c. itl s c = itl s (home P t c)) \<and>
     (\<forall>c. c \<in> ts_of s (ts_stmt c) \<longleftrightarrow> home P t c \<in> ts_of s (ts_stmt (home P t c))) \<and>
     (\<forall>i. \<forall>c\<in>ts_of s i. ts_getTid c < length (tctNodes t)) \<and>
     (\<forall>c v. v \<in> itl s c \<longrightarrow> mhp_may P t f (home P t c) v) \<and> (\<forall>c v. mhp_must P t f (home P t c) v \<longrightarrow> v \<in> itl s c) \<and>
     (\<forall>i. \<forall>c\<in>ts_of s i. \<exists>w. mhp_may P t f (home P t c) w) \<and> numOfTotalQueries s = 0 \<and> numOfMHPQueries s = 0"

lemma ts_at_self: "ts_at c (ts_cxt c) (ts_stmt c) = c"
  by (cases c; cases "ts_base c") simp

lemma home_local: "mhp_local P t c \<Longrightarrow> home P t c = c"
  using ts_at_self [of c] by (auto simp: home_def Let_def mhp_local_def)

lemma home_cases:
  assumes "home P t d \<noteq> d"
  obtains f where "f = fun_of P (ts_stmt d)" "\<not> isCandidateFun t f" "\<not> is_ext_fun P f" "f \<in> set (mod_funs P)"
    "ts_stmt d \<in> set (fun_insts P f)" "home P t d = ts_at d (ts_cxt d) (entry_inst P f)" "ts_stmt d \<noteq> entry_inst P f"
proof -
  have h: "\<not> isCandidateFun t (fun_of P (ts_stmt d)) \<and> \<not> is_ext_fun P (fun_of P (ts_stmt d)) \<and>
      fun_of P (ts_stmt d) \<in> set (mod_funs P) \<and> ts_stmt d \<in> set (fun_insts P (fun_of P (ts_stmt d)))"
  proof (rule ccontr)
    assume "\<not> (\<not> isCandidateFun t (fun_of P (ts_stmt d)) \<and> \<not> is_ext_fun P (fun_of P (ts_stmt d)) \<and>
      fun_of P (ts_stmt d) \<in> set (mod_funs P) \<and> ts_stmt d \<in> set (fun_insts P (fun_of P (ts_stmt d))))"
    then have "home P t d = d" unfolding home_def Let_def by (rule if_not_P)
    then show False using assms by contradiction
  qed
  then have e: "home P t d = ts_at d (ts_cxt d) (entry_inst P (fun_of P (ts_stmt d)))" by (simp add: home_def Let_def)
  have "ts_stmt d \<noteq> entry_inst P (fun_of P (ts_stmt d))" using assms ts_at_self [of d] unfolding e by metis
  then show thesis using that h e by blast
qed

lemma home_home:
  assumes m: "module_ok P"
  shows "home P t (home P t d) = home P t d"
proof (cases "home P t d = d")
  case False
  then show ?thesis
  proof (rule home_cases)
    fix g assume g: "\<not> is_ext_fun P g" "g \<in> set (mod_funs P)" "home P t d = ts_at d (ts_cxt d) (entry_inst P g)"
    have "fun_of P (entry_inst P g) = g" using m g(1,2) unfolding module_ok_def by blast
    then show ?thesis unfolding g(3) by (simp add: home_def Let_def)
  qed
qed simp

lemma home_copy:
  assumes m: "module_ok P" and f: "\<not> isCandidateFun t f" "\<not> is_ext_fun P f" "f \<in> set (mod_funs P)" "i \<in> set (fun_insts P f)"
    and c: "ts_stmt c = entry_inst P f"
  shows "home P t (ts_at c (ts_cxt c) i) = c"
proof -
  have "fun_of P i = f" using m f(2-4) unfolding module_ok_def by blast
  then show ?thesis using f ts_at_self [of c] by (simp add: home_def Let_def c)
qed

lemma copies_iff:
  "(c, i) \<in> set (concat (map (copies P t s) fs)) \<longleftrightarrow> (\<exists>f\<in>set fs. \<not> isCandidateFun t f \<and> \<not> is_ext_fun P f \<and>
     c \<in> ts_of s (entry_inst P f) \<and> i \<in> set (fun_insts P f) \<and> i \<noteq> entry_inst P f)"
proof -
  have "(c, i) \<in> set (copies P t s f) \<longleftrightarrow> \<not> isCandidateFun t f \<and> \<not> is_ext_fun P f \<and>
     c \<in> ts_of s (entry_inst P f) \<and> i \<in> set (fun_insts P f) \<and> i \<noteq> entry_inst P f" for f
    by (cases "instToTSMap s (entry_inst P f)") (auto simp: copies_def ts_of_def)
  then show ?thesis by simp
qed

lemma update_final:
  assumes I: "interleaved P t f s" and R: "mhp_ready P t f rk" and m: "module_ok P"
  shows "mhp_final P t f (updateNonCandidateFunInterleaving P t s)"
proof -
  let ?X = "concat (map (copies P t s) (mod_funs P))" and ?s = "updateNonCandidateFunInterleaving P t s"
  have e: "?s = copy_all ?X s"
    unfolding updateNonCandidateFunInterleaving_def by (rule update_copies [OF m]) simp_all
  have ok: "\<And>i d. d \<in> ts_of s i \<Longrightarrow> ts_stmt d = i" "\<And>d. itl s d \<noteq> {} \<Longrightarrow> d \<in> ts_of s (ts_stmt d)" "\<And>i. instToTSMap s i \<noteq> Some []"
    "\<And>i. ts_of s i \<subseteq> mhp_stmts P t f"
    using I unfolding interleaved_def mhp_ok_def by blast+
  have lo: "mhp_local P t d" if "d \<in> ts_of s i" for d i using ok(4) that R unfolding mhp_ready_def by blast
  have ho: "home P t d = d" if "d \<in> ts_of s i" for d i using home_local [OF lo [OF that]] .
  have X: "home P t (ts_at c (ts_cxt c) i) = c" "c \<in> ts_of s (ts_stmt c)" "home P t c = c" "home P t (ts_at c (ts_cxt c) i) \<noteq> ts_at c (ts_cxt c) i"
    if "(c, i) \<in> set ?X" for c i
  proof -
    obtain g where g: "g \<in> set (mod_funs P)" "\<not> isCandidateFun t g" "\<not> is_ext_fun P g" "c \<in> ts_of s (entry_inst P g)"
      "i \<in> set (fun_insts P g)" "i \<noteq> entry_inst P g" using \<open>(c, i) \<in> set ?X\<close> unfolding copies_iff by blast
    have c: "ts_stmt c = entry_inst P g" using ok(1) [OF g(4)] .
    show h: "home P t (ts_at c (ts_cxt c) i) = c" using home_copy [OF m g(2,3,1,5) c] .
    show "c \<in> ts_of s (ts_stmt c)" using g(4) c by simp
    show "home P t c = c" using ho [OF g(4)] .
    show "home P t (ts_at c (ts_cxt c) i) \<noteq> ts_at c (ts_cxt c) i" unfolding h using g(6) c by (auto dest: arg_cong [where f = ts_stmt])
  qed
  have X2: "(home P t d, ts_stmt d) \<in> set ?X \<and> ts_at (home P t d) (ts_cxt (home P t d)) (ts_stmt d) = d"
    if h: "home P t d \<noteq> d" and r: "home P t d \<in> ts_of s (ts_stmt (home P t d))" for d
  proof (rule home_cases [OF h])
    fix g assume g: "g = fun_of P (ts_stmt d)" "\<not> isCandidateFun t g" "\<not> is_ext_fun P g" "g \<in> set (mod_funs P)"
      "ts_stmt d \<in> set (fun_insts P g)" "home P t d = ts_at d (ts_cxt d) (entry_inst P g)" "ts_stmt d \<noteq> entry_inst P g"
    have "ts_stmt (home P t d) = entry_inst P g" by (simp add: g(6))
    then have "(home P t d, ts_stmt d) \<in> set ?X" using g(2-5,7) r unfolding copies_iff by auto
    moreover have "ts_at (home P t d) (ts_cxt (home P t d)) (ts_stmt d) = d" using ts_at_self [of d] by (simp add: g(6))
    ultimately show ?thesis by blast
  qed
  have it: "v \<in> itl ?s d \<longleftrightarrow> v \<in> itl s d \<or> (\<exists>c i. (c, i) \<in> set ?X \<and> ts_at c (ts_cxt c) i = d \<and> v \<in> itl s c)" for v d
    unfolding e
  proof (rule copy_all_itl)
    show "ts_at c (ts_cxt c) i \<noteq> b" if "(c, i) \<in> set ?X" "(b, j) \<in> set ?X" for c i b j
      using X(4) [OF that(1)] X(3) [OF that(2)] by auto
  qed
  have itl: "v \<in> itl ?s d \<longleftrightarrow> v \<in> itl s (home P t d)" for v d
  proof
    assume "v \<in> itl ?s d"
    then consider "v \<in> itl s d" | c i where "(c, i) \<in> set ?X" "ts_at c (ts_cxt c) i = d" "v \<in> itl s c" using it by blast
    then show "v \<in> itl s (home P t d)"
    proof cases
      case 1
      then have "d \<in> ts_of s (ts_stmt d)" using ok(2) by blast
      then show ?thesis using 1 ho by simp
    next
      case (2 c i)
      then show ?thesis using X(1) [OF 2(1)] by simp
    qed
  next
    assume v: "v \<in> itl s (home P t d)"
    show "v \<in> itl ?s d"
    proof (cases "home P t d = d")
      case False
      have "home P t d \<in> ts_of s (ts_stmt (home P t d))" using ok(2) v by blast
      then show ?thesis unfolding it using X2 [OF False] v by blast
    qed (use v it in simp)
  qed
  have ts: "d \<in> ts_of ?s i \<longleftrightarrow> ts_stmt d = i \<and> home P t d \<in> ts_of s (ts_stmt (home P t d))" for d i
  proof
    assume "d \<in> ts_of ?s i"
    then consider "d \<in> ts_of s i" | c where "(c, i) \<in> set ?X" "d = ts_at c (ts_cxt c) i" unfolding e copy_all_ts by blast
    then show "ts_stmt d = i \<and> home P t d \<in> ts_of s (ts_stmt (home P t d))"
    proof cases
      case 1
      then show ?thesis using ok(1) ho by metis
    next
      case 2
      then show ?thesis using X(1,2) [OF 2(1)] by simp
    qed
  next
    assume d: "ts_stmt d = i \<and> home P t d \<in> ts_of s (ts_stmt (home P t d))"
    show "d \<in> ts_of ?s i"
    proof (cases "home P t d = d")
      case False
      have "(home P t d, i) \<in> set ?X" "d = ts_at (home P t d) (ts_cxt (home P t d)) i"
        using X2 [OF False conjunct2 [OF d]] conjunct1 [OF d] by simp_all
      then show ?thesis unfolding e copy_all_ts by blast
    next
      case True
      then have "d \<in> ts_of s i" using conjunct2 [OF d] unfolding conjunct1 [OF d] True by simp
      then show ?thesis unfolding e copy_all_ts by blast
    qed
  qed
  have ne: "instToTSMap ?s i \<noteq> Some []" for i
  proof -
    have n: "\<forall>k. instToTSMap s k \<noteq> Some [] \<Longrightarrow> instToTSMap (copy_all X s) i \<noteq> Some []" for X s
    proof (induction X arbitrary: s)
      case (Cons x X)
      have "set_insert c xs \<noteq> []" for c :: cxt_thread_stmt and xs by (metis set_set_insert insert_not_empty list.set(1))
      then show ?case using Cons by (cases x) (simp add: copy_interleav_effect)
    qed simp
    show ?thesis unfolding e by (rule n) (use ok(3) in blast)
  qed
  show ?thesis
    unfolding mhp_final_def
  proof (intro conjI allI ballI impI)
    show "instToTSMap ?s i \<noteq> Some []" for i using ne .
    show "ts_stmt c = i" if "c \<in> ts_of ?s i" for c i using ts that by blast
    show "c \<in> ts_of ?s (ts_stmt c)" if "itl ?s c \<noteq> {}" for c using ts itl ok(2) that by blast
    show "nonCandidateFuncMHPRelMap ?s = Map.empty" "numOfTotalQueries ?s = 0" "numOfMHPQueries ?s = 0"
      using I unfolding e copy_all_frame interleaved_def by blast+
    show "itl ?s c = itl ?s (home P t c)" for c by (intro set_eqI) (simp only: itl home_home [OF m])
    show "c \<in> ts_of ?s (ts_stmt c) \<longleftrightarrow> home P t c \<in> ts_of ?s (ts_stmt (home P t c))" for c
      unfolding ts home_home [OF m] by simp
    show "ts_getTid c < length (tctNodes t)" if "c \<in> ts_of ?s i" for c i
    proof -
      have "ts_getTid (home P t c) < length (tctNodes t)" using lo ts that unfolding mhp_local_def by blast
      then show ?thesis by (simp add: home_def Let_def split: if_splits)
    qed
    show "mhp_may P t f (home P t c) v" if "v \<in> itl ?s c" for c v using that I unfolding itl interleaved_def by blast
    show "v \<in> itl ?s c" if "mhp_must P t f (home P t c) v" for c v using that I unfolding itl interleaved_def by blast
    show "\<exists>w. mhp_may P t f (home P t c) w" if "c \<in> ts_of ?s i" for c i using that I unfolding ts interleaved_def by blast
  qed
qed

section \<open>The whole analysis\<close>

lemma analysis_final:
  assumes "tct_ready P rt rk" and "build P = Some (Some t)" and "fja_ready P t ri"
    and "distinct ids" and "set ids = {..<length (tctNodes t)}"
    and "analyzeForkJoinPair P t ids fj_new = Some (Some f)" and "mhp_ready P t f rm" and "module_ok P"
  shows "\<exists>s. and_then (MHP_new P t ids) (analyzeInterleaving P t ids) = Some (Some s) \<and> mhp_final P t f s"
proof -
  obtain G where G: "fja_results P t {r. r < length (tctNodes t) \<and> r \<noteq> 0} G fj_new f"
    using analyzed [OF assms(1-5)] assms(6) by auto
  have "dj_set f c \<subseteq> {..<length (tctNodes t)}" for c using G by (auto simp: fja_results_def dj_set_def fj_new_def)
  moreover have "dirAndIndJoinMap f = Map.empty" using G by (simp add: fja_results_def fj_new_def)
  ultimately obtain s where s: "foldR (mhp_root P t) ids (mhp_init f) = Some (Some s)" "interleaved P t f s"
    using mhp_roots_interleaved [OF built(1) [OF assms(1,2)] assms(7) _ assms(5)] by blast
  have "and_then (MHP_new P t ids) (analyzeInterleaving P t ids) = Some (Some (updateNonCandidateFunInterleaving P t s))"
    using s(1) assms(6) by (simp add: MHP_new_def analyzeInterleaving_def)
  then show ?thesis using update_final [OF s(2) assms(7,8)] by blast
qed

lemma getInterleavingThreads_fst: "fst (getInterleavingThreads c s) = itl s c"
  by (simp add: getInterleavingThreads_def itl_def split: option.split)

section \<open>Queries\<close>

definition parallel :: "tct \<Rightarrow> mhp \<Rightarrow> cxt_thread_stmt \<Rightarrow> cxt_thread_stmt \<Rightarrow> bool" where
  "parallel t s c d \<longleftrightarrow> (if ts_getTid c = ts_getTid d then tn_multiforked (tctNodes t ! ts_getTid c)
     else ts_getTid d \<in> itl s c \<and> ts_getTid c \<in> itl s d)"

definition inst_parallel :: "tct \<Rightarrow> mhp \<Rightarrow> inst \<Rightarrow> inst \<Rightarrow> bool" where
  "inst_parallel t s i j \<longleftrightarrow> (\<exists>c\<in>ts_of s i. \<exists>d\<in>ts_of s j. parallel t s c d)"

text \<open>A query changes nothing that another query depends on.\<close>

definition same_results :: "mhp \<Rightarrow> mhp \<Rightarrow> bool" where
  "same_results s s' \<longleftrightarrow> itl s' = itl s \<and> instToTSMap s' = instToTSMap s \<and> numOfTotalQueries s' = numOfTotalQueries s"

lemma same_results_ts: "same_results s s' \<Longrightarrow> ts_of s' = ts_of s"
  by (simp add: same_results_def ts_of_def fun_eq_iff)

lemma same_results_parallel: "same_results s s' \<Longrightarrow> parallel t s' = parallel t s"
  by (simp add: same_results_def parallel_def fun_eq_iff)

lemma same_results_trans: "same_results s s1 \<Longrightarrow> same_results s1 s2 \<Longrightarrow> same_results s s2"
  by (simp add: same_results_def)

lemma symmetric_parallel: "parallel t s c d \<longleftrightarrow> parallel t s d c"
  by (auto simp: parallel_def)

definition answered :: "bool \<Rightarrow> mhp \<Rightarrow> mhp \<Rightarrow> bool" where
  "answered b s s' \<longleftrightarrow> same_results s s' \<and> nonCandidateFuncMHPRelMap s' = nonCandidateFuncMHPRelMap s \<and>
     numOfMHPQueries s' = numOfMHPQueries s + (if b then 1 else 0)"

lemma answered_refl: "answered False s s"
  by (simp add: answered_def same_results_def)

lemma answered_trans: "answered False s s1 \<Longrightarrow> answered b s1 s2 \<Longrightarrow> answered b s s2"
  by (simp add: answered_def same_results_def)

lemma answered_count: "answered False s s1 \<Longrightarrow> answered True s (countMHP s1)"
  by (auto simp: answered_def same_results_def countMHP_def itl_def fun_eq_iff)

lemma answered_parallel: "answered b s s' \<Longrightarrow> parallel t s' = parallel t s \<and> itl s' = itl s"
  unfolding answered_def by (intro conjI same_results_parallel) (simp_all add: same_results_def)

lemma getInterleavingThreads_query:
  assumes "getInterleavingThreads c s = (l, s')"
  shows "l = itl s c" "answered False s s'"
proof -
  note A = getInterleavingThreads_eq [OF assms]
  show "l = itl s c" using A by simp
  show "answered False s s'" using A by (simp add: answered_def same_results_def)
qed

lemma isMultiForked_node:
  "n < length (tctNodes t) \<Longrightarrow> isMultiForkedThread t n = Some (tn_multiforked (tctNodes t ! n))"
  by (simp add: isMultiForkedThread_def getGNode_def)

lemma mhp_scan_run:
  assumes "ts_getTid c < length (tctNodes t)"
  shows "\<exists>s'. mhp_scan t c (itl s c) ds s = Some (\<exists>d\<in>set ds. parallel t s c d, s') \<and> answered (\<exists>d\<in>set ds. parallel t s c d) s s'"
proof (induction ds arbitrary: s)
  case (Cons d ds)
  obtain l s1 where g: "getInterleavingThreads d s = (l, s1)" by (cases "getInterleavingThreads d s")
  note G = getInterleavingThreads_query [OF g]
  have pa: "parallel t s1 = parallel t s" "itl s1 = itl s" using answered_parallel [OF G(2)] by blast+
  have e: "mhp_scan t c (itl s c) (d # ds) s =
      (if parallel t s c d then Some (True, countMHP s1) else mhp_scan t c (itl s1 c) ds s1)"
  proof (cases "ts_getTid c = ts_getTid d")
    case True
    then show ?thesis using isMultiForked_node [OF assms] by (simp add: g parallel_def pa(2))
  next
    case False
    then show ?thesis using G(1) by (simp add: g parallel_def pa(2))
  qed
  show ?case
  proof (cases "parallel t s c d")
    case True
    then show ?thesis using e answered_count [OF G(2)] by simp
  next
    case False
    then show ?thesis using e Cons.IH [of s1] answered_trans [OF G(2)] unfolding pa(1) by auto
  qed
qed (simp add: answered_refl)

lemma mhp_scans_run:
  assumes "\<forall>c\<in>set cs. ts_getTid c < length (tctNodes t)"
  shows "\<exists>s'. mhp_scans t cs ds s = Some (\<exists>c\<in>set cs. \<exists>d\<in>set ds. parallel t s c d, s') \<and>
    answered (\<exists>c\<in>set cs. \<exists>d\<in>set ds. parallel t s c d) s s'"
  using assms
proof (induction cs arbitrary: s)
  case (Cons c cs)
  obtain l s1 where g: "getInterleavingThreads c s = (l, s1)" by (cases "getInterleavingThreads c s")
  note G = getInterleavingThreads_query [OF g]
  have pa: "parallel t s1 = parallel t s" "l = itl s1 c" using answered_parallel [OF G(2)] G(1) by simp_all
  have c: "ts_getTid c < length (tctNodes t)" using Cons.prems by simp
  obtain s2 where s2: "mhp_scan t c l ds s1 = Some (\<exists>d\<in>set ds. parallel t s c d, s2)" "answered (\<exists>d\<in>set ds. parallel t s c d) s1 s2"
    using mhp_scan_run [OF c, of s1 ds] unfolding pa by blast
  show ?case
  proof (cases "\<exists>d\<in>set ds. parallel t s c d")
    case True
    have "mhp_scans t (c # cs) ds s = Some (True, s2)" using s2(1) unfolding eq_True [THEN iffD2, OF True] by (simp add: g)
    moreover have "answered True s s2" using answered_trans [OF G(2)] s2(2) unfolding eq_True [THEN iffD2, OF True] by blast
    moreover have e: "(\<exists>c\<in>set (c # cs). \<exists>d\<in>set ds. parallel t s c d) = True" using True by simp
    ultimately show ?thesis unfolding e by blast
  next
    case False
    have a: "answered False s s2" using answered_trans [OF G(2)] s2(2) unfolding eq_False [THEN iffD2, OF False] by blast
    have p2: "parallel t s2 = parallel t s" using answered_parallel [OF a] by simp
    have "mhp_scans t (c # cs) ds s = mhp_scans t cs ds s2" using s2(1) unfolding eq_False [THEN iffD2, OF False] by (simp add: g)
    moreover obtain s3 where "mhp_scans t cs ds s2 = Some (\<exists>c\<in>set cs. \<exists>d\<in>set ds. parallel t s c d, s3)"
      "answered (\<exists>c\<in>set cs. \<exists>d\<in>set ds. parallel t s c d) s2 s3" using Cons.IH [of s2] Cons.prems unfolding p2 by auto
    moreover have e: "(\<exists>c\<in>set (c # cs). \<exists>d\<in>set ds. parallel t s c d) = (\<exists>c\<in>set cs. \<exists>d\<in>set ds. parallel t s c d)" using False by simp
    ultimately show ?thesis unfolding e using answered_trans [OF a] by auto
  qed
qed (simp add: answered_refl)

definition results_ok :: "tct \<Rightarrow> mhp \<Rightarrow> bool" where
  "results_ok t s \<longleftrightarrow> (\<forall>i. \<forall>c\<in>ts_of s i. ts_getTid c < length (tctNodes t))"

lemma mayHappenInParallelInst_run:
  assumes "results_ok t s"
  shows "\<exists>s'. mayHappenInParallelInst t i j s = Some (inst_parallel t s i j, s') \<and> answered (inst_parallel t s i j) s s'"
proof (cases "instToTSMap s i = None \<or> instToTSMap s j = None")
  case True
  then have "\<not> inst_parallel t s i j" by (auto simp: inst_parallel_def ts_of_def)
  then show ?thesis using True
    by (auto simp: mayHappenInParallelInst_def hasThreadStmtSet_def answered_def same_results_def)
next
  case False
  then obtain cs ds where e: "instToTSMap s i = Some cs" "instToTSMap s j = Some ds" by auto
  have "\<forall>c\<in>set cs. ts_getTid c < length (tctNodes t)" using assms e unfolding results_ok_def ts_of_def by (metis option.simps(5))
  from mhp_scans_run [OF this, of ds s] show ?thesis
    using e by (simp add: mayHappenInParallelInst_def hasThreadStmtSet_def getThreadStmtSet_def inst_parallel_def ts_of_def)
qed

section \<open>The cache\<close>

definition in_module :: "program \<Rightarrow> inst \<Rightarrow> bool" where
  "in_module P i \<longleftrightarrow> fun_of P i \<in> set (mod_funs P) \<and> \<not> is_ext_fun P (fun_of P i) \<and> i \<in> set (fun_insts P (fun_of P i))"

definition copied :: "program \<Rightarrow> tct \<Rightarrow> mhp \<Rightarrow> bool" where
  "copied P t s \<longleftrightarrow> (\<forall>i. \<forall>c\<in>ts_of s i. ts_stmt c = i) \<and> (\<forall>c. itl s c = itl s (home P t c)) \<and>
     (\<forall>c. c \<in> ts_of s (ts_stmt c) \<longleftrightarrow> home P t c \<in> ts_of s (ts_stmt (home P t c))) \<and> results_ok t s"

lemma final_copied: "mhp_final P t f s \<Longrightarrow> copied P t s"
  unfolding mhp_final_def copied_def results_ok_def by blast

lemma home_in_module:
  "in_module P (ts_stmt c) \<Longrightarrow> \<not> isCandidateFun t (fun_of P (ts_stmt c)) \<Longrightarrow>
     home P t c = ts_at c (ts_cxt c) (entry_inst P (fun_of P (ts_stmt c)))"
  by (simp add: home_def Let_def in_module_def)

lemma copied_same_fun:
  assumes S: "copied P t s" and i: "in_module P i" "in_module P i'" "fun_of P i' = fun_of P i" "\<not> isCandidateFun t (fun_of P i)"
    and c: "c \<in> ts_of s i"
  shows "ts_at c (ts_cxt c) i' \<in> ts_of s i' \<and> itl s (ts_at c (ts_cxt c) i') = itl s c"
proof -
  let ?c = "ts_at c (ts_cxt c) i'"
  have e: "ts_stmt c = i" using S c unfolding copied_def by blast
  have h: "home P t ?c = home P t c" using home_in_module [of P c t] home_in_module [of P ?c t] i e by simp
  have S: "\<And>c. itl s c = itl s (home P t c)" "\<And>c. c \<in> ts_of s (ts_stmt c) \<longleftrightarrow> home P t c \<in> ts_of s (ts_stmt (home P t c))"
    using S unfolding copied_def by blast+
  have "?c \<in> ts_of s (ts_stmt ?c)" unfolding S(2) [of ?c] h using S(2) [of c] c e by simp
  moreover have "itl s ?c = itl s c" using S(1) [of ?c] S(1) [of c] h by simp
  ultimately show ?thesis by simp
qed

lemma inst_parallel_fun:
  assumes S: "copied P t s" and i: "in_module P i" "in_module P i'" "fun_of P i' = fun_of P i" "\<not> isCandidateFun t (fun_of P i)"
    and j: "in_module P j" "in_module P j'" "fun_of P j' = fun_of P j" "\<not> isCandidateFun t (fun_of P j)"
    and p: "inst_parallel t s i j"
  shows "inst_parallel t s i' j'"
proof -
  obtain c d where c: "c \<in> ts_of s i" "d \<in> ts_of s j" "parallel t s c d" using p unfolding inst_parallel_def by blast
  note C = copied_same_fun [OF S i c(1)] and D = copied_same_fun [OF S j c(2)]
  have "parallel t s (ts_at c (ts_cxt c) i') (ts_at d (ts_cxt d) j')" 
    using c(3) C D by (cases "ts_getTid c = ts_getTid d") (simp_all add: parallel_def)
  then show ?thesis using C D unfolding inst_parallel_def by blast
qed

definition cache_ok :: "program \<Rightarrow> tct \<Rightarrow> mhp \<Rightarrow> bool" where
  "cache_ok P t s \<longleftrightarrow> (\<forall>i j b. nonCandidateFuncMHPRelMap s (fun_of P i, fun_of P j) = Some b \<longrightarrow> in_module P i \<longrightarrow> in_module P j \<longrightarrow>
     \<not> isCandidateFun t (fun_of P i) \<longrightarrow> \<not> isCandidateFun t (fun_of P j) \<longrightarrow> b = inst_parallel t s i j)"

definition counted :: "bool \<Rightarrow> mhp \<Rightarrow> mhp \<Rightarrow> bool" where
  "counted b s s' \<longleftrightarrow> numOfMHPQueries s' = numOfMHPQueries s + (if b then 1 else 0)"

lemma same_results_inst: "same_results s s' \<Longrightarrow> inst_parallel t s' = inst_parallel t s"
  by (simp add: inst_parallel_def same_results_ts same_results_parallel fun_eq_iff)

lemma same_results_copied: "same_results s s' \<Longrightarrow> copied P t s \<Longrightarrow> copied P t s'"
  by (simp add: copied_def results_ok_def same_results_ts) (simp add: same_results_def)

lemma mayHappenInParallelCache_run:
  assumes S: "copied P t s" and C: "cache_ok P t s" and m: "in_module P i" "in_module P j"
  shows "\<exists>s'. mayHappenInParallelCache P t i j s = Some (inst_parallel t s i j, s') \<and> same_results s s' \<and> cache_ok P t s' \<and>
    counted (inst_parallel t s i j) s s'"
proof -
  let ?b = "inst_parallel t s i j" and ?fi = "fun_of P i" and ?fj = "fun_of P j"
  have "results_ok t s" using S by (simp add: copied_def)
  then obtain s1 where s1: "mayHappenInParallelInst t i j s = Some (?b, s1)" "same_results s s1"
    "nonCandidateFuncMHPRelMap s1 = nonCandidateFuncMHPRelMap s" "counted ?b s s1"
    using mayHappenInParallelInst_run unfolding answered_def counted_def by blast
  have c1: "cache_ok P t s1" using C unfolding cache_ok_def s1(3) same_results_inst [OF s1(2)] .
  show ?thesis
  proof (cases "\<not> isCandidateFun t ?fi \<and> \<not> isCandidateFun t ?fj")
    case False
    then have "mayHappenInParallelCache P t i j s = mayHappenInParallelInst t i j s"
      unfolding mayHappenInParallelCache_def by (rule if_not_P)
    then show ?thesis using s1 c1 by simp
  next
    case nc: True
    show ?thesis
    proof (cases "nonCandidateFuncMHPRelMap s (?fi, ?fj)")
      case None
      let ?s = "s1\<lparr>nonCandidateFuncMHPRelMap := (nonCandidateFuncMHPRelMap s1)((?fi, ?fj) \<mapsto> ?b)\<rparr>"
      have q: "same_results s1 ?s" by (auto simp: same_results_def itl_def fun_eq_iff)
      have ip: "inst_parallel t ?s = inst_parallel t s" using same_results_inst [OF same_results_trans [OF s1(2) q]] .
      have "b = inst_parallel t s k l" if k: "nonCandidateFuncMHPRelMap ?s (fun_of P k, fun_of P l) = Some b" "in_module P k" "in_module P l"
        "\<not> isCandidateFun t (fun_of P k)" "\<not> isCandidateFun t (fun_of P l)" for k l b
      proof (cases "fun_of P k = ?fi \<and> fun_of P l = ?fj")
        case True
        then have "b = ?b" using k(1) by simp
        moreover have "?b = inst_parallel t s k l"
          using inst_parallel_fun [OF S m(1) k(2) _ _ m(2) k(3)] inst_parallel_fun [OF S k(2) m(1) _ k(4) k(3) m(2)] True nc k(5) by metis
        ultimately show ?thesis by simp
      next
        case False
        then have "nonCandidateFuncMHPRelMap s (fun_of P k, fun_of P l) = Some b" using k(1) s1(3) by (auto split: if_splits)
        then show ?thesis using C k(2-5) unfolding cache_ok_def by blast
      qed
      then have "cache_ok P t ?s" unfolding cache_ok_def ip by blast
      moreover have "mayHappenInParallelCache P t i j s = Some (?b, ?s)"
        using nc None s1(1) by (simp add: mayHappenInParallelCache_def Let_def)
      moreover have "counted ?b s ?s" using s1(4) by (simp add: counted_def)
      ultimately show ?thesis using same_results_trans [OF s1(2) q] by blast
    next
      case (Some b)
      have b: "b = ?b" using C Some m nc unfolding cache_ok_def by blast
      let ?s = "if b then countMHP s else s"
      have q: "same_results s ?s" by (auto simp: same_results_def itl_def countMHP_def fun_eq_iff)
      have n: "nonCandidateFuncMHPRelMap ?s = nonCandidateFuncMHPRelMap s" by (simp add: countMHP_def)
      have "cache_ok P t ?s" using C unfolding cache_ok_def n same_results_inst [OF q] .
      moreover have "mayHappenInParallelCache P t i j s = Some (b, ?s)"
        using nc Some by (simp add: mayHappenInParallelCache_def Let_def)
      moreover have "counted b s ?s" by (simp add: counted_def countMHP_def)
      ultimately show ?thesis using q unfolding b by blast
    qed
  qed
qed

text \<open>A client asks one query after the other.\<close>

fun mhp_queries :: "program \<Rightarrow> tct \<Rightarrow> (inst \<times> inst) list \<Rightarrow> mhp \<Rightarrow> (bool list \<times> mhp) option" where
  "mhp_queries P t [] s = Some ([], s)"
| "mhp_queries P t ((i, j) # qs) s = (case mayHappenInParallel P t i j s of None \<Rightarrow> None
     | Some (b, s1) \<Rightarrow> map_option (\<lambda>(bs, s2). (b # bs, s2)) (mhp_queries P t qs s1))"

lemma mhp_queries_run:
  assumes "copied P t s" "cache_ok P t s" "\<forall>(i, j)\<in>set qs. in_module P i \<and> in_module P j"
  shows "\<exists>s'. mhp_queries P t qs s = Some (map (\<lambda>(i, j). inst_parallel t s i j) qs, s') \<and>
    numOfTotalQueries s' = numOfTotalQueries s + of_nat (length qs) \<and>
    numOfMHPQueries s' = numOfMHPQueries s + of_nat (length (filter (\<lambda>(i, j). inst_parallel t s i j) qs))"
  using assms
proof (induction qs arbitrary: s)
  case (Cons q qs)
  obtain i j where q: "q = (i, j)" by (cases q)
  let ?s = "s\<lparr>numOfTotalQueries := numOfTotalQueries s + 1\<rparr>"
  have u: "itl ?s = itl s" "ts_of ?s = ts_of s" by (simp_all add: itl_def ts_of_def fun_eq_iff)
  have p: "inst_parallel t ?s = inst_parallel t s" by (simp add: inst_parallel_def parallel_def u fun_eq_iff)
  have c: "copied P t ?s" "cache_ok P t ?s" using Cons.prems(1,2) by (simp_all add: copied_def cache_ok_def results_ok_def u p)
  obtain s1 where s1: "mayHappenInParallelCache P t i j ?s = Some (inst_parallel t s i j, s1)" "same_results ?s s1" "cache_ok P t s1"
    "counted (inst_parallel t s i j) ?s s1"
    using mayHappenInParallelCache_run [OF c, of i j] Cons.prems(3) unfolding p q by auto
  have p1: "inst_parallel t s1 = inst_parallel t s" using same_results_inst [OF s1(2)] p by simp
  have n1: "numOfTotalQueries s1 = numOfTotalQueries s + 1" using s1(2) by (simp add: same_results_def)
  obtain s2 where s2: "mhp_queries P t qs s1 = Some (map (\<lambda>(i, j). inst_parallel t s i j) qs, s2)"
    "numOfTotalQueries s2 = numOfTotalQueries s1 + of_nat (length qs)"
    "numOfMHPQueries s2 = numOfMHPQueries s1 + of_nat (length (filter (\<lambda>(i, j). inst_parallel t s i j) qs))"
    using Cons.IH [OF same_results_copied [OF s1(2) c(1)] s1(3)] Cons.prems(3) unfolding p1 by auto
  show ?case using s1(1,4) s2 n1 by (simp add: q mayHappenInParallel_def counted_def)
qed simp

lemma mayHappenInParallel_run:
  assumes "mhp_final P t f s" "in_module P i" "in_module P j"
  shows "\<exists>s'. mayHappenInParallel P t i j s = Some (inst_parallel t s i j, s')"
proof -
  have "cache_ok P t s" using assms(1) by (simp add: mhp_final_def cache_ok_def)
  then obtain s' where "mhp_queries P t [(i, j)] s = Some ([inst_parallel t s i j], s')"
    using mhp_queries_run [OF final_copied [OF assms(1)], of "[(i, j)]"] assms(2,3) by auto
  then show ?thesis by (auto split: option.splits)
qed

section \<open>The example\<close>

definition nested_ts :: "cxt_thread_stmt list" where
  "nested_ts = map (\<lambda>i. CxtThreadStmt 0 (CxtStmt [] i)) [10, 11, 12, 13, 14] @ map (\<lambda>i. CxtThreadStmt 1 (CxtStmt [11] i)) [20, 21, 22, 23] @
     map (\<lambda>i. CxtThreadStmt 2 (CxtStmt [13] i)) [30, 31] @ map (\<lambda>i. CxtThreadStmt 3 (CxtStmt [11, 21] i)) [30, 31]"

text \<open>The operations at a statement that is not the join site of a loop.\<close>

definition plain_ops :: "program \<Rightarrow> tct \<Rightarrow> cxt_thread_stmt \<Rightarrow> (cxt_thread_stmt, node_id) flow_op list" where
  "plain_ops P t c = (let i = ts_stmt c; intra = mhp_next P t c (ts_cxt c) i in
     if \<not> isCandidateFun t (fun_of P i) then mhp_outside P c
     else if td_fork P i then mhp_forks P t c @ intra
     else if td_join P i then intra
     else if is_call P i \<and> \<not> is_ext_call P i then mhp_calls P t c @ (if callee_candidate P t i then [] else intra)
     else if is_return P i then mhp_returns P t c else intra)"

lemma mhp_ops_plain: "joinSiteToLoopMap t (ts_stmt c) = None \<Longrightarrow> mhp_ops P t f c = plain_ops P t c"
  unfolding mhp_ops_def plain_ops_def mhp_exits_def Let_def by simp

definition nested_step_ok :: "tct \<Rightarrow> cxt_thread_stmt \<Rightarrow> bool" where
  "nested_step_ok t c \<longleftrightarrow> isCandidateFun t (fun_of nested_fork (ts_stmt c)) \<and> joinSiteToLoopMap t (ts_stmt c) = None \<and>
     list_all (\<lambda>d. d \<in> set nested_ts \<and> (ts_stmt c = 12 \<longrightarrow> ts_stmt d \<noteq> 12)) (map flow_target (plain_ops nested_fork t c)) \<and>
     list_all (\<lambda>e. getTCTNode_ct t (CxtThread (tct_pushCxt nested_fork t (ts_cxt c) (ts_stmt c) (e_dst e)) (ts_stmt c)) \<noteq> None)
       (case fork_edges nested_fork (ts_stmt c) of None \<Rightarrow> [] | Some es \<Rightarrow> es)"

definition nested_starts :: "tct \<Rightarrow> cxt_thread_stmt list" where
  "nested_starts t = map (root_stmt nested_fork t) [0, 1, 2, 3] @
     concat (map (\<lambda>(p, a). map (\<lambda>i. CxtThreadStmt p (CxtStmt (fja_cxt t a) i)) (tct_getNextInsts nested_fork t (fork_site_of t a)))
       [(0, 1), (0, 2), (1, 3)])"

lemma nested_fork_ts:
  obtains t where "build nested_fork = Some (Some t)" "map node_view (tctNodes t) = nested_view"
    "\<forall>c\<in>set nested_ts. nested_step_ok t c" "set (nested_starts t) \<subseteq> set nested_ts" "joinSiteToLoopMap t 12 = None"
    "root_stmt nested_fork t 3 = CxtThreadStmt 3 (CxtStmt [11, 21] 30)"
proof -
  have "map_option (map_option (\<lambda>t. (map node_view (tctNodes t), list_all (nested_step_ok t) nested_ts,
      list_all (\<lambda>c. c \<in> set nested_ts) (nested_starts t), joinSiteToLoopMap t 12, root_stmt nested_fork t 3))) (build nested_fork) =
    Some (Some (nested_view, True, True, None, CxtThreadStmt 3 (CxtStmt [11, 21] 30)))" by code_simp
  from map_run_Some [OF this] show thesis
  proof (elim exE conjE)
    fix t assume t: "build nested_fork = Some (Some t)" and e: "(map node_view (tctNodes t), list_all (nested_step_ok t) nested_ts,
      list_all (\<lambda>c. c \<in> set nested_ts) (nested_starts t), joinSiteToLoopMap t 12, root_stmt nested_fork t 3) =
      (nested_view, True, True, None, CxtThreadStmt 3 (CxtStmt [11, 21] 30))"
    show thesis
    proof (rule that [OF t])
      show "\<forall>c\<in>set nested_ts. nested_step_ok t c" "set (nested_starts t) \<subseteq> set nested_ts"
        using e unfolding prod.inject eq_True list_all_iff by blast+
    qed (use e in simp_all)
  qed
qed

lemma mhp_kill_at_join:
  assumes "Kill d S \<in> set (mhp_ops P t f c)"
  shows "td_join P (ts_stmt c) \<and> joinSiteToLoopMap t (ts_stmt c) \<noteq> None"
proof -
  have "Kill d S \<notin> set (mhp_next P t c cxt i)" for cxt i by (auto simp: mhp_next_def)
  moreover from this have "Kill d S \<notin> set (mhp_return_ops P t c i)" for i
    by (auto simp: mhp_return_ops_def split: prod.splits bool.splits)
  then have "Kill d S \<notin> set (mhp_returns P t c)" by (auto simp: mhp_returns_def split: if_splits)
  moreover have "Kill d S \<notin> set (mhp_calls P t c)" by (auto simp: mhp_calls_def split: if_splits option.splits)
  moreover have "Kill d S \<notin> set (mhp_forks P t c)"
    by (auto simp: mhp_forks_def mhp_fork_ops_def Let_def split: if_splits option.splits)
  moreover have "Kill d S \<notin> set (mhp_outside P c)" by (auto simp: mhp_outside_def split: if_splits)
  ultimately have "Kill d S \<in> set (mhp_exits P t f c)" "td_join P (ts_stmt c)"
    using assms by (auto simp: mhp_ops_def Let_def split: if_splits)
  then show ?thesis by (cases "joinSiteToLoopMap t (ts_stmt c)") (simp_all add: mhp_exits_def)
qed

lemma nested_seeds:
  assumes v: "map node_view (tctNodes t) = nested_view"
  shows "fst ` mhp_seeds nested_fork t f \<subseteq> set (nested_starts t)"
proof -
  note e = nested_fork_edges [OF v]
  have r: "root_stmt nested_fork t n \<in> set (nested_starts t)" if "n < 4" for n
  proof -
    have "n = 0 \<or> n = 1 \<or> n = 2 \<or> n = 3" using that by linarith
    then show ?thesis by (auto simp: nested_starts_def)
  qed
  have a: "CxtThreadStmt p (CxtStmt (fja_cxt t a) i) \<in> set (nested_starts t)"
    if "(p, a) \<in> tree_edges t" "i \<in> set (tct_getNextInsts nested_fork t (fork_site_of t a))" for p a i
    using that unfolding conjunct2 [OF e] nested_starts_def by auto
  have b: "b < 4" if "(p, b) \<in> tree_edges t" for p b using that unfolding conjunct2 [OF e] by auto
  show ?thesis
  proof
    fix c assume "c \<in> fst ` mhp_seeds nested_fork t f"
    then obtain n where "n < 4" "c \<in> fst ` starts nested_fork t f n" unfolding mhp_seeds_def conjunct1 [OF e] by blast
    then show "c \<in> set (nested_starts t)" unfolding starts_def using r a b by fastforce
  qed
qed

lemma nested_fork_module: "module_ok nested_fork"
  by (auto simp: module_ok_def nested_fork_def empty_program_def entry_inst_def)

lemma nested_fork_mhp_ready:
  assumes v: "map node_view (tctNodes t) = nested_view" and k: "\<forall>c\<in>set nested_ts. nested_step_ok t c"
    and s: "set (nested_starts t) \<subseteq> set nested_ts" and j: "joinSiteToLoopMap t 12 = None"
  shows "mhp_ready nested_fork t f (\<lambda>_. 0)"
proof -
  let ?U = "set nested_ts"
  have o: "mhp_ops nested_fork t f c = plain_ops nested_fork t c" if "c \<in> ?U" for c
    by (rule mhp_ops_plain) (use k that in \<open>simp add: nested_step_ok_def\<close>)
  have "\<forall>x\<in>set (mhp_ops nested_fork t f c). flow_target x \<in> ?U \<and> (ts_stmt c = 12 \<longrightarrow> ts_stmt (flow_target x) \<noteq> 12)" if "c \<in> ?U" for c
    using k that unfolding o [OF that] nested_step_ok_def list_all_iff by simp
  then have cl: "flow_target ` set (mhp_ops nested_fork t f c) \<subseteq> ?U"
    and step: "d \<in> flow_target ` set (mhp_ops nested_fork t f c) \<Longrightarrow> ts_stmt c = 12 \<Longrightarrow> ts_stmt d \<noteq> 12" if "c \<in> ?U" for c d
    using that by blast+
  have U: "mhp_stmts nested_fork t f \<subseteq> ?U"
    unfolding mhp_stmts_def
  proof (rule reach_least)
    show "fst ` mhp_seeds nested_fork t f \<subseteq> ?U" using nested_seeds [OF v] s by blast
    show "y \<in> ?U" if "x \<in> ?U" "y \<in> flow_target ` set (mhp_ops nested_fork t f x)" for x y
      by (rule subsetD [OF cl [OF that(1)] that(2)])
  qed
  have loc: "mhp_local nested_fork t c" if "c \<in> ?U" for c
  proof -
    have K: "isCandidateFun t (fun_of nested_fork (ts_stmt c))" "joinSiteToLoopMap t (ts_stmt c) = None"
      "\<forall>e\<in>set (case fork_edges nested_fork (ts_stmt c) of None \<Rightarrow> [] | Some es \<Rightarrow> es).
        getTCTNode_ct t (CxtThread (tct_pushCxt nested_fork t (ts_cxt c) (ts_stmt c) (e_dst e)) (ts_stmt c)) \<noteq> None"
      using k that unfolding nested_step_ok_def list_all_iff by blast+
    have "ts_getTid c < 4" using that by (auto simp: nested_ts_def)
    moreover have "fork_edges nested_fork (ts_stmt c) \<noteq> None" if "td_fork nested_fork (ts_stmt c)"
      using that by (auto simp: nested_fork_def)
    ultimately show ?thesis using K nested_fork_edges [OF v] unfolding mhp_local_def by auto
  qed
  have lossy: "ts_stmt c = 12" if "mhp_lossy nested_fork t f c" for c
  proof -
    have J: "td_join nested_fork i \<longleftrightarrow> i = 12" for i by (simp add: nested_fork_def)
    have "Kill c S \<notin> set (mhp_ops nested_fork t f d)" for S d using mhp_kill_at_join [of c S nested_fork t f d] j J by auto
    then show ?thesis using that J unfolding mhp_lossy_def mhp_own_def mhp_removed_def by (auto split: if_splits)
  qed
  show ?thesis
    unfolding mhp_ready_def
  proof (intro conjI ballI impI)
    show "finite (mhp_stmts nested_fork t f)" by (rule finite_subset [OF U]) simp
    fix c assume c: "c \<in> mhp_stmts nested_fork t f"
    show "mhp_local nested_fork t c" using loc U c by blast
    fix d assume d: "d \<in> flow_target ` set (mhp_ops nested_fork t f c)" "mhp_lossy nested_fork t f c" "mhp_lossy nested_fork t f d"
    then show "(0 :: nat) < 0" using step [of c d] lossy U c by blast
  qed
qed

lemma nested_fork_mhp:
  obtains t f where "build nested_fork = Some (Some t)" "length (tctNodes t) = 4" "fja_ready nested_fork t (\<lambda>_. 0)"
    "analyzeForkJoinPair nested_fork t [0, 1, 2, 3] fj_new = Some (Some f)" "mhp_ready nested_fork t f (\<lambda>_. 0)"
proof (rule nested_fork_ts)
  fix t assume t: "build nested_fork = Some (Some t)" "map node_view (tctNodes t) = nested_view"
    "\<forall>c\<in>set nested_ts. nested_step_ok t c" "set (nested_starts t) \<subseteq> set nested_ts" "joinSiteToLoopMap t 12 = None"
  have l: "length (tctNodes t) = 4" using nested_fork_edges [OF t(2)] by simp
  show thesis
  proof (rule nested_fork_joined)
    fix t' f assume f: "build nested_fork = Some (Some t')" "fja_ready nested_fork t' (\<lambda>_. 0)"
      "analyzeForkJoinPair nested_fork t' [0, 1, 2, 3] fj_new = Some (Some f)"
    have e: "t' = t" using f(1) t(1) by simp
    show thesis by (rule that [OF t(1) l f(2,3) [unfolded e] nested_fork_mhp_ready [OF t(2-5)]])
  qed
qed

section \<open>Properties\<close>

text \<open>C8: The interleaving analysis ends and fails no assertion. A statement of a thread under a
  calling context, or any statement of a function outside the candidates whose entry it is copied
  from, gets all threads that reach it along the control flow without being removed at a join,
  and only threads that can reach it.\<close>

theorem analyzeInterleaving_bounds:
  assumes "tct_ready P rt rk" and "build P = Some (Some t)" and "fja_ready P t ri"
    and "distinct ids" and "set ids = {..<length (tctNodes t)}"
    and "analyzeForkJoinPair P t ids fj_new = Some (Some f)" and "mhp_ready P t f rm" and "module_ok P"
  shows "\<exists>s. and_then (MHP_new P t ids) (analyzeInterleaving P t ids) = Some (Some s) \<and>
    (\<forall>c v. (mhp_must P t f (home P t c) v \<longrightarrow> v \<in> fst (getInterleavingThreads c s)) \<and>
      (v \<in> fst (getInterleavingThreads c s) \<longrightarrow> mhp_may P t f (home P t c) v))"
proof -
  obtain s where s: "and_then (MHP_new P t ids) (analyzeInterleaving P t ids) = Some (Some s)" "mhp_final P t f s"
    using analysis_final [OF assms] by blast
  have "mhp_may P t f (home P t c) v" if "v \<in> itl s c" for c v using s(2) that unfolding mhp_final_def by blast
  moreover have "v \<in> itl s c" if "mhp_must P t f (home P t c) v" for c v using s(2) that unfolding mhp_final_def by blast
  ultimately show ?thesis unfolding getInterleavingThreads_fst using s(1) by (intro exI [of _ s]) simp
qed

theorem analyzeInterleaving_bounds_witness:
  "\<exists>t f s. build nested_fork = Some (Some t) \<and> analyzeForkJoinPair nested_fork t [0, 1, 2, 3] fj_new = Some (Some f) \<and>
     and_then (MHP_new nested_fork t [0, 1, 2, 3]) (analyzeInterleaving nested_fork t [0, 1, 2, 3]) = Some (Some s) \<and>
     (\<forall>v\<in>fst (getInterleavingThreads (CxtThreadStmt 0 (CxtStmt [] 14)) s).
        mhp_may nested_fork t f (home nested_fork t (CxtThreadStmt 0 (CxtStmt [] 14))) v)"
proof (rule nested_fork_mhp)
  fix t f assume t: "build nested_fork = Some (Some t)" "length (tctNodes t) = 4" "fja_ready nested_fork t (\<lambda>_. 0)"
    and f: "analyzeForkJoinPair nested_fork t [0, 1, 2, 3] fj_new = Some (Some f)" "mhp_ready nested_fork t f (\<lambda>_. 0)"
  have "set [0, 1, 2, 3] = {..<length (tctNodes t)}" unfolding t(2) by (rule upto_4)
  from analyzeInterleaving_bounds [OF nested_fork_ready t(1,3) _ this f nested_fork_module] show ?thesis using t(1) f(1) by auto
qed

definition meets :: "program \<Rightarrow> tct \<Rightarrow> (cxt_thread_stmt \<Rightarrow> node_id \<Rightarrow> bool) \<Rightarrow> inst \<Rightarrow> inst \<Rightarrow> bool" where
  "meets P t R i j \<longleftrightarrow> (\<exists>c d. ts_stmt c = i \<and> ts_stmt d = j \<and> (if ts_getTid c = ts_getTid d
     then tn_multiforked (tctNodes t ! ts_getTid c) \<and> (\<exists>v. R (home P t c) v) \<and> (\<exists>v. R (home P t d) v)
     else R (home P t c) (ts_getTid d) \<and> R (home P t d) (ts_getTid c)))"

lemma inst_parallel_meets:
  assumes "mhp_final P t f s"
  shows "inst_parallel t s i j \<Longrightarrow> meets P t (mhp_may P t f) i j" "meets P t (mhp_must P t f) i j \<Longrightarrow> inst_parallel t s i j"
proof -
  have F: "\<And>i c. c \<in> ts_of s i \<Longrightarrow> ts_stmt c = i" "\<And>c. itl s c \<noteq> {} \<Longrightarrow> c \<in> ts_of s (ts_stmt c)"
    "\<And>c v. v \<in> itl s c \<Longrightarrow> mhp_may P t f (home P t c) v" "\<And>c v. mhp_must P t f (home P t c) v \<Longrightarrow> v \<in> itl s c"
    "\<And>i c. c \<in> ts_of s i \<Longrightarrow> \<exists>w. mhp_may P t f (home P t c) w"
    using assms unfolding mhp_final_def by blast+
  show "meets P t (mhp_may P t f) i j" if ip: "inst_parallel t s i j"
  proof -
    obtain c d where c: "c \<in> ts_of s i" "d \<in> ts_of s j" "parallel t s c d" using ip unfolding inst_parallel_def by blast
    show ?thesis unfolding meets_def
    proof (intro exI conjI)
      show "if ts_getTid c = ts_getTid d
        then tn_multiforked (tctNodes t ! ts_getTid c) \<and> (\<exists>v. mhp_may P t f (home P t c) v) \<and> (\<exists>v. mhp_may P t f (home P t d) v)
        else mhp_may P t f (home P t c) (ts_getTid d) \<and> mhp_may P t f (home P t d) (ts_getTid c)"
        using c(3) F(3) F(5) [OF c(1)] F(5) [OF c(2)] unfolding parallel_def by (simp split: if_splits)
    qed (use F(1) c in blast)+
  qed
  show "inst_parallel t s i j" if mp: "meets P t (mhp_must P t f) i j"
  proof -
    obtain c d where c: "ts_stmt c = i" "ts_stmt d = j" "if ts_getTid c = ts_getTid d
      then tn_multiforked (tctNodes t ! ts_getTid c) \<and> (\<exists>v. mhp_must P t f (home P t c) v) \<and> (\<exists>v. mhp_must P t f (home P t d) v)
      else mhp_must P t f (home P t c) (ts_getTid d) \<and> mhp_must P t f (home P t d) (ts_getTid c)"
      using mp unfolding meets_def by blast
    then have p: "parallel t s c d" "itl s c \<noteq> {}" "itl s d \<noteq> {}"
      using F(4) unfolding parallel_def by (cases "ts_getTid c = ts_getTid d"; auto)+
    then show ?thesis using F(2) [OF p(2)] F(2) [OF p(3)] c(1,2) unfolding inst_parallel_def by blast
  qed
qed

lemma nested_meets:
  assumes "build nested_fork = Some (Some t)"
  shows "meets nested_fork t (mhp_must nested_fork t f) 30 30"
proof (rule nested_fork_ts)
  let ?c = "CxtThreadStmt 3 (CxtStmt [11, 21] 30)"
  fix t' assume t': "build nested_fork = Some (Some t')" "map node_view (tctNodes t') = nested_view"
    "\<forall>c\<in>set nested_ts. nested_step_ok t' c" "joinSiteToLoopMap t' 12 = None" "root_stmt nested_fork t' 3 = ?c"
  have e: "t' = t" using t'(1) assms by simp
  have J: "td_join nested_fork i \<longleftrightarrow> i = 12" for i by (simp add: nested_fork_def)
  have "Kill ?c S \<notin> set (mhp_ops nested_fork t f d)" for S d
    using mhp_kill_at_join [of ?c S nested_fork t f d] t'(4) J unfolding e by auto
  then have n: "\<not> may_lose (mhp_own nested_fork t f) (mhp_ops nested_fork t f) ?c 3"
    by (simp add: may_lose_def mhp_own_def mhp_removed_def J)
  have len: "length (tctNodes t) = 4" using nested_fork_edges [OF t'(2)] unfolding e by simp
  have "(?c, 3) \<in> starts nested_fork t f 3" using t'(5) unfolding e starts_def by simp
  then have "(?c, 3) \<in> mhp_seeds nested_fork t f" unfolding mhp_seeds_def len by (intro UN_I [of 3]) simp_all
  then have m: "mhp_must nested_fork t f ?c 3" using n by (rule must_hold.must_seed)
  have "?c \<in> set nested_ts" by (simp add: nested_ts_def)
  then have "nested_step_ok t ?c" using t'(3) unfolding e by blast
  then have "home nested_fork t ?c = ?c" by (simp add: home_def Let_def nested_step_ok_def)
  moreover have "tn_multiforked (tctNodes t ! 3)"
    using arg_cong [OF t'(2), of "\<lambda>xs. xs ! 3"] len unfolding e by (simp add: node_view_def nested_view_def)
  ultimately show ?thesis using m unfolding meets_def by (intro exI [of _ ?c]) auto
qed

text \<open>C9: After the analysis the query whether two instructions may happen in parallel fails no
  assertion. It answers yes only if there are two threads that can reach the instructions, each
  among the threads that can interleave with the other, or one thread that may have several
  instances; and it answers yes if there are two such threads that are not removed at any join.\<close>

theorem mayHappenInParallel_bounds:
  assumes "tct_ready P rt rk" and "build P = Some (Some t)" and "fja_ready P t ri"
    and "distinct ids" and "set ids = {..<length (tctNodes t)}"
    and "analyzeForkJoinPair P t ids fj_new = Some (Some f)" and "mhp_ready P t f rm" and "module_ok P"
    and "in_module P i" and "in_module P j"
  shows "\<exists>s b s'. and_then (MHP_new P t ids) (analyzeInterleaving P t ids) = Some (Some s) \<and>
    mayHappenInParallel P t i j s = Some (b, s') \<and>
    (b \<longrightarrow> meets P t (mhp_may P t f) i j) \<and> (meets P t (mhp_must P t f) i j \<longrightarrow> b)"
proof -
  obtain s where s: "and_then (MHP_new P t ids) (analyzeInterleaving P t ids) = Some (Some s)" "mhp_final P t f s"
    using analysis_final [OF assms(1-8)] by blast
  then show ?thesis using mayHappenInParallel_run [OF s(2) assms(9,10)] s(1) inst_parallel_meets [OF s(2)] by blast
qed

theorem mayHappenInParallel_bounds_witness:
  "\<exists>t f s b s'. build nested_fork = Some (Some t) \<and> analyzeForkJoinPair nested_fork t [0, 1, 2, 3] fj_new = Some (Some f) \<and>
     and_then (MHP_new nested_fork t [0, 1, 2, 3]) (analyzeInterleaving nested_fork t [0, 1, 2, 3]) = Some (Some s) \<and>
     mayHappenInParallel nested_fork t 14 30 s = Some (b, s') \<and> (b \<longrightarrow> meets nested_fork t (mhp_may nested_fork t f) 14 30)"
proof (rule nested_fork_mhp)
  fix t f assume t: "build nested_fork = Some (Some t)" "length (tctNodes t) = 4" "fja_ready nested_fork t (\<lambda>_. 0)"
    and f: "analyzeForkJoinPair nested_fork t [0, 1, 2, 3] fj_new = Some (Some f)" "mhp_ready nested_fork t f (\<lambda>_. 0)"
  have i: "set [0, 1, 2, 3] = {..<length (tctNodes t)}" unfolding t(2) by (rule upto_4)
  have "in_module nested_fork 14" "in_module nested_fork 30" by (simp_all add: in_module_def nested_fork_def empty_program_def)
  from mayHappenInParallel_bounds [OF nested_fork_ready t(1,3) _ i f nested_fork_module this] show ?thesis using t(1) f(1) by auto
qed

text \<open>C14: The cache of the relation between functions outside the candidates changes no answer:
  after the analysis any sequence of queries gets the answers that the query without cache gives
  in the first state, and the counters of all queries and of the positive answers are right modulo
  two to the 32.\<close>

theorem mayHappenInParallel_cached:
  assumes "tct_ready P rt rk" and "build P = Some (Some t)" and "fja_ready P t ri"
    and "distinct ids" and "set ids = {..<length (tctNodes t)}"
    and "analyzeForkJoinPair P t ids fj_new = Some (Some f)" and "mhp_ready P t f rm" and "module_ok P"
    and "\<forall>(i, j)\<in>set qs. in_module P i \<and> in_module P j"
  shows "\<exists>s bs s'. and_then (MHP_new P t ids) (analyzeInterleaving P t ids) = Some (Some s) \<and> mhp_queries P t qs s = Some (bs, s') \<and>
    map Some bs = map (\<lambda>(i, j). map_option fst (mayHappenInParallelInst t i j s)) qs \<and>
    numOfTotalQueries s' = of_nat (length qs) \<and> numOfMHPQueries s' = of_nat (length (filter id bs))"
proof -
  obtain s where s: "and_then (MHP_new P t ids) (analyzeInterleaving P t ids) = Some (Some s)" "mhp_final P t f s"
    using analysis_final [OF assms(1-8)] by blast
  let ?p = "\<lambda>(i, j). inst_parallel t s i j"
  have S: "copied P t s" using final_copied [OF s(2)] .
  have "map_option fst (mayHappenInParallelInst t i j s) = Some (inst_parallel t s i j)" for i j
    using mayHappenInParallelInst_run [of t s i j] S by (auto simp: copied_def)
  then have m: "map (\<lambda>(i, j). map_option fst (mayHappenInParallelInst t i j s)) qs = map Some (map ?p qs)" by auto
  have n: "length (filter id (map ?p qs)) = length (filter ?p qs)" by (simp add: filter_map comp_def)
  have "cache_ok P t s" "numOfTotalQueries s = 0" "numOfMHPQueries s = 0" using s(2) by (simp_all add: mhp_final_def cache_ok_def)
  then obtain s' where "mhp_queries P t qs s = Some (map ?p qs, s')" "numOfTotalQueries s' = of_nat (length qs)"
    "numOfMHPQueries s' = of_nat (length (filter ?p qs))"
    using mhp_queries_run [OF S _ assms(9)] by auto
  then show ?thesis using s(1) m n by (intro exI [of _ s] exI [of _ "map ?p qs"] exI [of _ s']) simp
qed

theorem mayHappenInParallel_cached_witness:
  "\<exists>t s bs s'. build nested_fork = Some (Some t) \<and>
     and_then (MHP_new nested_fork t [0, 1, 2, 3]) (analyzeInterleaving nested_fork t [0, 1, 2, 3]) = Some (Some s) \<and>
     mhp_queries nested_fork t [(14, 30), (12, 20), (14, 30)] s = Some (bs, s') \<and> numOfTotalQueries s' = 3"
proof (rule nested_fork_mhp)
  fix t f assume t: "build nested_fork = Some (Some t)" "length (tctNodes t) = 4" "fja_ready nested_fork t (\<lambda>_. 0)"
    and f: "analyzeForkJoinPair nested_fork t [0, 1, 2, 3] fj_new = Some (Some f)" "mhp_ready nested_fork t f (\<lambda>_. 0)"
  have i: "set [0, 1, 2, 3] = {..<length (tctNodes t)}" unfolding t(2) by (rule upto_4)
  have "\<forall>(i, j)\<in>set [(14, 30), (12, 20), (14, 30)]. in_module nested_fork i \<and> in_module nested_fork j"
    by (simp add: in_module_def nested_fork_def empty_program_def)
  from mayHappenInParallel_cached [OF nested_fork_ready t(1,3) _ i f nested_fork_module this] show ?thesis using t(1) by auto
qed

definition one_thread :: "tct \<Rightarrow> cxt_thread_stmt \<Rightarrow> cxt_thread_stmt \<Rightarrow> bool" where
  "one_thread t c d \<longleftrightarrow> ts_getTid c = ts_getTid d \<and> \<not> tn_multiforked (tctNodes t ! ts_getTid c)"

lemma same_thread_scan_run:
  assumes "ts_getTid c < length (tctNodes t)"
  shows "same_thread_scan t c ds = Some (\<forall>d\<in>set ds. one_thread t c d)"
proof (induction ds)
  case (Cons d ds)
  have "same_thread_scan t c (d # ds) = (if one_thread t c d then same_thread_scan t c ds else Some False)"
    using isMultiForked_node [OF assms] by (cases "ts_getTid c = ts_getTid d") (simp_all add: one_thread_def)
  then show ?case using Cons by simp
qed simp

lemma same_thread_scans_run:
  assumes "\<forall>c\<in>set cs. ts_getTid c < length (tctNodes t)"
  shows "same_thread_scans t cs ds = Some (\<forall>c\<in>set cs. \<forall>d\<in>set ds. one_thread t c d)"
  using assms by (induction cs) (simp_all add: same_thread_scan_run)

text \<open>C15: After the analysis the query whether two instructions are executed by the same thread
  fails no assertion; it says yes exactly when every recorded pair of their statements belongs to
  one thread that has a single instance, and then they never happen in parallel, in either order.\<close>

theorem executedByTheSameThread_safe:
  assumes "tct_ready P rt rk" and "build P = Some (Some t)" and "fja_ready P t ri"
    and "distinct ids" and "set ids = {..<length (tctNodes t)}"
    and "analyzeForkJoinPair P t ids fj_new = Some (Some f)" and "mhp_ready P t f rm" and "module_ok P"
  shows "\<exists>s b p q. and_then (MHP_new P t ids) (analyzeInterleaving P t ids) = Some (Some s) \<and>
    executedByTheSameThread t i j s = Some b \<and>
    b = (\<forall>c\<in>ts_of s i. \<forall>d\<in>ts_of s j. one_thread t c d) \<and>
    map_option fst (mayHappenInParallelInst t i j s) = Some p \<and> map_option fst (mayHappenInParallelInst t j i s) = Some q \<and>
    p = q \<and> (b \<longrightarrow> \<not> p)"
proof -
  obtain s where s: "and_then (MHP_new P t ids) (analyzeInterleaving P t ids) = Some (Some s)" "mhp_final P t f s"
    using analysis_final [OF assms] by blast
  let ?b = "\<forall>c\<in>ts_of s i. \<forall>d\<in>ts_of s j. one_thread t c d"
  have R: "results_ok t s" using final_copied [OF s(2)] by (simp add: copied_def)
  have m: "map_option fst (mayHappenInParallelInst t i j s) = Some (inst_parallel t s i j)" for i j
    using mayHappenInParallelInst_run [OF R, of i j] by auto
  have y: "inst_parallel t s i j = inst_parallel t s j i" unfolding inst_parallel_def using symmetric_parallel by blast
  have n: "?b \<longrightarrow> \<not> inst_parallel t s i j" unfolding inst_parallel_def parallel_def one_thread_def by (metis (full_types))
  have "executedByTheSameThread t i j s = Some ?b"
  proof (cases "instToTSMap s i = None \<or> instToTSMap s j = None")
    case True
    then have "?b" by (auto simp: ts_of_def)
    then show ?thesis using True by (auto simp: executedByTheSameThread_def hasThreadStmtSet_def)
  next
    case False
    then obtain cs ds where e: "instToTSMap s i = Some cs" "instToTSMap s j = Some ds" by auto
    have "\<forall>c\<in>set cs. ts_getTid c < length (tctNodes t)" using R e unfolding results_ok_def ts_of_def by (metis option.simps(5))
    from same_thread_scans_run [OF this, of ds] show ?thesis
      using e by (simp add: executedByTheSameThread_def hasThreadStmtSet_def getThreadStmtSet_def ts_of_def)
  qed
  then show ?thesis using s(1) m [of i j] m [of j i] y n
    by (intro exI [of _ s] exI [of _ ?b] exI [of _ "inst_parallel t s i j"] exI [of _ "inst_parallel t s j i"]) simp
qed

theorem executedByTheSameThread_safe_witness:
  "\<exists>t s b p. build nested_fork = Some (Some t) \<and>
     and_then (MHP_new nested_fork t [0, 1, 2, 3]) (analyzeInterleaving nested_fork t [0, 1, 2, 3]) = Some (Some s) \<and>
     executedByTheSameThread t 10 14 s = Some b \<and> map_option fst (mayHappenInParallelInst t 10 14 s) = Some p \<and> (b \<longrightarrow> \<not> p)"
proof (rule nested_fork_mhp)
  fix t f assume t: "build nested_fork = Some (Some t)" "length (tctNodes t) = 4" "fja_ready nested_fork t (\<lambda>_. 0)"
    and f: "analyzeForkJoinPair nested_fork t [0, 1, 2, 3] fj_new = Some (Some f)" "mhp_ready nested_fork t f (\<lambda>_. 0)"
  have i: "set [0, 1, 2, 3] = {..<length (tctNodes t)}" unfolding t(2) by (rule upto_4)
  from executedByTheSameThread_safe [OF nested_fork_ready t(1,3) _ i f nested_fork_module, of 10 14] show ?thesis using t(1) by auto
qed

text \<open>C20: The check whether a thread is fully joined over several levels ends and fails no
  assertion: it says yes exactly when a chain of full joins leads from the first thread down the
  tree to the second, none if they are the same.\<close>

theorem isRecurFullJoin_levels:
  assumes "tct_ready P rt rk" and "build P = Some (Some t)" and "n < length (tctNodes t)"
  shows "isRecurFullJoin t f p n = Some (Some ((p, n) \<in> {(q, m) \<in> tree_edges t. isFullJoin f q m}\<^sup>*))"
  using isRecurFullJoin_run [OF built(1) [OF assms(1,2)] assms(3), of f p] unfolding full_children_def .

theorem isRecurFullJoin_levels_witness:
  "\<exists>t f. build nested_fork = Some (Some t) \<and> analyzeForkJoinPair nested_fork t [0, 1, 2, 3] fj_new = Some (Some f) \<and>
     isRecurFullJoin t f 0 3 = Some (Some ((0, 3) \<in> {(q, m) \<in> tree_edges t. isFullJoin f q m}\<^sup>*))"
proof (rule nested_fork_mhp)
  fix t f assume t: "build nested_fork = Some (Some t)" "length (tctNodes t) = 4"
    and f: "analyzeForkJoinPair nested_fork t [0, 1, 2, 3] fj_new = Some (Some f)"
  have "3 < length (tctNodes t)" using t(2) by simp
  from isRecurFullJoin_levels [OF nested_fork_ready t(1) this, of f 0] show ?thesis using t(1) f by blast
qed

end
