(* ===== verification/SCC.thy ===== *)
theory SCC
  imports IR
begin

text \<open>
  The detection of strongly connected components, \<open>SCCDetection\<close> of \<open>include/Util/SCC.h\<close>, by
  which the thread analyses decide whether two functions call each other. The graph is the list
  of its nodes and the list of the children of each node. The recursion of \<open>visit\<close> is bounded by
  fuel; one more than the number of nodes is always enough.
\<close>

section \<open>State\<close>

definition UINT_MAX :: nat where
  "UINT_MAX = 2 ^ 32 - 1"

record gnode_scc_info =
  gi_visited :: bool
  gi_inSCC :: bool
  gi_rep :: nat
  gi_subNodes :: "nat set"

definition GNodeSCCInfo :: gnode_scc_info where
  "GNodeSCCInfo = \<lparr>gi_visited = False, gi_inSCC = False, gi_rep = UINT_MAX, gi_subNodes = {}\<rparr>"

text \<open>A missing entry of the map of numbers reads as 0.\<close>

record scc_detection =
  sd_info :: "nat \<rightharpoonup> gnode_scc_info"
  sd_I :: nat
  sd_D :: "nat \<Rightarrow> nat"
  sd_SS :: "nat list"
  sd_T :: "nat list"
  sd_repNodes :: "nat set"

definition scc_clear :: scc_detection where
  "scc_clear = \<lparr>sd_info = Map.empty, sd_I = 0, sd_D = (\<lambda>_. 0), sd_SS = [], sd_T = [], sd_repNodes = {}\<rparr>"

text \<open>
  A lookup by \<open>operator[]\<close> creates an entry; the algorithm looks up only nodes that it has
  visited or visits next, so the entry exists or is written before it is read again.
\<close>

definition info_at :: "scc_detection \<Rightarrow> nat \<Rightarrow> gnode_scc_info" where
  "info_at s n = (case sd_info s n of None \<Rightarrow> GNodeSCCInfo | Some i \<Rightarrow> i)"

definition upd_info :: "nat \<Rightarrow> (gnode_scc_info \<Rightarrow> gnode_scc_info) \<Rightarrow> scc_detection \<Rightarrow> scc_detection" where
  "upd_info n f s = s\<lparr>sd_info := (sd_info s)(n \<mapsto> f (info_at s n))\<rparr>"

definition sc_visited :: "scc_detection \<Rightarrow> nat \<Rightarrow> bool" where
  "sc_visited s n = gi_visited (info_at s n)"

definition sc_inSCC :: "scc_detection \<Rightarrow> nat \<Rightarrow> bool" where
  "sc_inSCC s n = gi_inSCC (info_at s n)"

definition sc_rep :: "scc_detection \<Rightarrow> nat \<Rightarrow> nat" where
  "sc_rep s n = gi_rep (info_at s n)"

definition sc_subNodes :: "scc_detection \<Rightarrow> nat \<Rightarrow> nat set" where
  "sc_subNodes s n = gi_subNodes (info_at s n)"

definition setVisited :: "nat \<Rightarrow> scc_detection \<Rightarrow> scc_detection" where
  "setVisited n = upd_info n (\<lambda>i. i\<lparr>gi_visited := True\<rparr>)"

definition setInSCC :: "nat \<Rightarrow> scc_detection \<Rightarrow> scc_detection" where
  "setInSCC n = upd_info n (\<lambda>i. i\<lparr>gi_inSCC := True\<rparr>)"

definition set_rep :: "nat \<Rightarrow> nat \<Rightarrow> scc_detection \<Rightarrow> scc_detection" where
  "set_rep n r s = (let s1 = upd_info n (\<lambda>i. i\<lparr>gi_rep := r\<rparr>) s;
       s2 = upd_info r (\<lambda>i. i\<lparr>gi_subNodes := insert n (gi_subNodes i)\<rparr>) s1 in
     if n \<noteq> r then (upd_info n (\<lambda>i. i\<lparr>gi_subNodes := {}\<rparr>) s2)\<lparr>sd_repNodes := insert r (sd_repNodes s - {n})\<rparr> else s2)"

section \<open>The search\<close>

definition scc_enter :: "nat \<Rightarrow> scc_detection \<Rightarrow> scc_detection" where
  "scc_enter v s = setVisited v (set_rep v v (s\<lparr>sd_I := sd_I s + 1, sd_D := (sd_D s)(v := sd_I s + 1)\<rparr>))"

definition scc_edge :: "nat \<Rightarrow> nat \<Rightarrow> scc_detection \<Rightarrow> scc_detection" where
  "scc_edge v w s = (if \<not> sc_inSCC s w
     then set_rep v (if sd_D s (sc_rep s v) < sd_D s (sc_rep s w) then sc_rep s v else sc_rep s w) s else s)"

fun scc_pop :: "nat \<Rightarrow> nat list \<Rightarrow> scc_detection \<Rightarrow> scc_detection" where
  "scc_pop v [] s = s"
| "scc_pop v (w # ws) s = (if sd_D s w \<le> sd_D s v then s
     else scc_pop v ws (set_rep w v (setInSCC w (s\<lparr>sd_SS := ws\<rparr>))))"

definition scc_close :: "nat \<Rightarrow> scc_detection \<Rightarrow> scc_detection" where
  "scc_close v s = (if sc_rep s v = v
     then (let s1 = setInSCC v s; s2 = scc_pop v (sd_SS s1) s1 in s2\<lparr>sd_T := v # sd_T s2\<rparr>)
     else s\<lparr>sd_SS := v # sd_SS s\<rparr>)"

fun scc_visit :: "nat \<Rightarrow> (nat \<Rightarrow> nat list) \<Rightarrow> nat \<Rightarrow> scc_detection \<Rightarrow> scc_detection option" where
  "scc_visit 0 succ v s = None"
| "scc_visit (Suc k) succ v s = map_option (scc_close v)
     (foldM (\<lambda>w s. map_option (scc_edge v w) (if \<not> sc_visited s w then scc_visit k succ w s else Some s))
       (succ v) (scc_enter v s))"

definition scc_root :: "nat \<Rightarrow> (nat \<Rightarrow> nat list) \<Rightarrow> nat \<Rightarrow> scc_detection \<Rightarrow> scc_detection option" where
  "scc_root k succ n s = (if \<not> sc_visited s n \<and> (sc_rep s n = UINT_MAX \<or> sc_rep s n = n) then scc_visit k succ n s else Some s)"

definition scc_find :: "(nat \<Rightarrow> nat list) \<Rightarrow> nat list \<Rightarrow> scc_detection option" where
  "scc_find succ nodes = foldM (scc_root (Suc (length nodes)) succ) nodes scc_clear"

section \<open>Queries\<close>

definition repNode :: "scc_detection \<Rightarrow> nat \<Rightarrow> nat option" where
  "repNode s n = map_option (\<lambda>i. if gi_rep i \<noteq> UINT_MAX then gi_rep i else n) (sd_info s n)"

definition subNodes :: "scc_detection \<Rightarrow> nat \<Rightarrow> nat set option" where
  "subNodes s n = map_option gi_subNodes (sd_info s n)"

definition isInCycle :: "(nat \<Rightarrow> nat list) \<Rightarrow> scc_detection \<Rightarrow> nat \<Rightarrow> bool option" where
  "isInCycle succ s n = (case repNode s n of None \<Rightarrow> None
     | Some r \<Rightarrow> map_option (\<lambda>sub. 1 < card sub \<or> r \<in> set (succ r)) (subNodes s r))"

section \<open>Effects\<close>

lemma upd_info_simps [simp]:
  "info_at (upd_info n f s) = (info_at s)(n := f (info_at s n))"
  "sd_I (upd_info n f s) = sd_I s" "sd_D (upd_info n f s) = sd_D s" "sd_SS (upd_info n f s) = sd_SS s"
  "sd_T (upd_info n f s) = sd_T s" "sd_repNodes (upd_info n f s) = sd_repNodes s"
  "dom (sd_info (upd_info n f s)) = insert n (dom (sd_info s))"
  by (auto simp: upd_info_def info_at_def fun_eq_iff)

lemma info_at_frame [simp]:
  "info_at (s\<lparr>sd_I := i\<rparr>) = info_at s" "info_at (s\<lparr>sd_D := d\<rparr>) = info_at s" "info_at (s\<lparr>sd_SS := ws\<rparr>) = info_at s"
  "info_at (s\<lparr>sd_T := ts\<rparr>) = info_at s" "info_at (s\<lparr>sd_repNodes := rs\<rparr>) = info_at s"
  by (simp_all add: info_at_def fun_eq_iff)

lemmas sc_defs = sc_visited_def sc_inSCC_def sc_rep_def sc_subNodes_def

lemma set_rep_simps [simp]:
  "sc_visited (set_rep n r s) = sc_visited s" "sc_inSCC (set_rep n r s) = sc_inSCC s"
  "sc_rep (set_rep n r s) = (sc_rep s)(n := r)"
  "sc_subNodes (set_rep n r s) = (if n = r then (sc_subNodes s)(n := insert n (sc_subNodes s n))
     else (sc_subNodes s)(r := insert n (sc_subNodes s r), n := {}))"
  "sd_I (set_rep n r s) = sd_I s" "sd_D (set_rep n r s) = sd_D s" "sd_SS (set_rep n r s) = sd_SS s"
  "sd_T (set_rep n r s) = sd_T s"
  "sd_repNodes (set_rep n r s) = (if n = r then sd_repNodes s else insert r (sd_repNodes s - {n}))"
  by (auto simp: set_rep_def Let_def sc_defs fun_eq_iff)

lemma setInSCC_simps [simp]:
  "sc_visited (setInSCC n s) = sc_visited s" "sc_inSCC (setInSCC n s) = (sc_inSCC s)(n := True)"
  "sc_rep (setInSCC n s) = sc_rep s" "sc_subNodes (setInSCC n s) = sc_subNodes s"
  "sd_I (setInSCC n s) = sd_I s" "sd_D (setInSCC n s) = sd_D s" "sd_SS (setInSCC n s) = sd_SS s"
  "sd_T (setInSCC n s) = sd_T s" "sd_repNodes (setInSCC n s) = sd_repNodes s"
  by (auto simp: setInSCC_def sc_defs fun_eq_iff)

lemma setVisited_simps [simp]:
  "sc_visited (setVisited n s) = (sc_visited s)(n := True)" "sc_inSCC (setVisited n s) = sc_inSCC s"
  "sc_rep (setVisited n s) = sc_rep s" "sc_subNodes (setVisited n s) = sc_subNodes s"
  "sd_I (setVisited n s) = sd_I s" "sd_D (setVisited n s) = sd_D s" "sd_SS (setVisited n s) = sd_SS s"
  "sd_T (setVisited n s) = sd_T s" "sd_repNodes (setVisited n s) = sd_repNodes s"
  by (auto simp: setVisited_def sc_defs fun_eq_iff)

lemma sc_frame [simp]:
  "sc_visited (s\<lparr>sd_I := i\<rparr>) = sc_visited s" "sc_inSCC (s\<lparr>sd_I := i\<rparr>) = sc_inSCC s"
  "sc_rep (s\<lparr>sd_I := i\<rparr>) = sc_rep s" "sc_subNodes (s\<lparr>sd_I := i\<rparr>) = sc_subNodes s"
  "sc_visited (s\<lparr>sd_D := d\<rparr>) = sc_visited s" "sc_inSCC (s\<lparr>sd_D := d\<rparr>) = sc_inSCC s"
  "sc_rep (s\<lparr>sd_D := d\<rparr>) = sc_rep s" "sc_subNodes (s\<lparr>sd_D := d\<rparr>) = sc_subNodes s"
  "sc_visited (s\<lparr>sd_SS := ws\<rparr>) = sc_visited s" "sc_inSCC (s\<lparr>sd_SS := ws\<rparr>) = sc_inSCC s"
  "sc_rep (s\<lparr>sd_SS := ws\<rparr>) = sc_rep s" "sc_subNodes (s\<lparr>sd_SS := ws\<rparr>) = sc_subNodes s"
  "sc_visited (s\<lparr>sd_T := ws\<rparr>) = sc_visited s" "sc_inSCC (s\<lparr>sd_T := ws\<rparr>) = sc_inSCC s"
  "sc_rep (s\<lparr>sd_T := ws\<rparr>) = sc_rep s" "sc_subNodes (s\<lparr>sd_T := ws\<rparr>) = sc_subNodes s"
  by (simp_all add: sc_defs fun_eq_iff)

end
