(* ===== verification/SCCResult.thy ===== *)
theory SCCResult
  imports SCC
begin

text \<open>
  The search computes the strongly connected components: the nodes whose visit is not finished
  form a path, every visited node outside the finished components reaches the end of this path,
  and a node is the representative of its component exactly when its number is the least among
  those reached from it.
\<close>

section \<open>Components\<close>

abbreviation sc_edges :: "(nat \<Rightarrow> nat list) \<Rightarrow> (nat \<times> nat) set" where
  "sc_edges succ \<equiv> {(v, w). w \<in> set (succ v)}"

definition comp_of :: "(nat \<Rightarrow> nat list) \<Rightarrow> nat \<Rightarrow> nat set" where
  "comp_of succ x = {y. (x, y) \<in> (sc_edges succ)\<^sup>* \<and> (y, x) \<in> (sc_edges succ)\<^sup>*}"

lemma comp_refl [simp]: "x \<in> comp_of succ x"
  by (simp add: comp_of_def)

lemma comp_sym: "y \<in> comp_of succ x \<longleftrightarrow> x \<in> comp_of succ y"
  by (auto simp: comp_of_def)

lemma comp_eq:
  assumes "y \<in> comp_of succ x"
  shows "comp_of succ y = comp_of succ x"
  using assms unfolding comp_of_def by (auto intro: rtrancl_trans)

lemma closed_reach:
  assumes "\<And>x. x \<in> A \<Longrightarrow> set (succ x) \<subseteq> A" "x \<in> A" "(x, y) \<in> (sc_edges succ)\<^sup>*"
  shows "y \<in> A"
  using assms(3,2) by (induction rule: rtrancl_induct) (use assms(1) in auto)

section \<open>The invariant\<close>

abbreviation vis :: "scc_detection \<Rightarrow> nat set" where
  "vis s \<equiv> {n. sc_visited s n}"

abbreviation fin :: "scc_detection \<Rightarrow> nat set" where
  "fin s \<equiv> {n. sc_inSCC s n}"

abbreviation open_nodes :: "scc_detection \<Rightarrow> nat set" where
  "open_nodes s \<equiv> vis s - fin s"

text \<open>\<open>cs\<close> is the path of the visits in progress, the innermost first.\<close>

definition scc_order :: "nat list \<Rightarrow> scc_detection \<Rightarrow> bool" where
  "scc_order cs s \<longleftrightarrow> open_nodes s = set cs \<union> set (sd_SS s) \<and> set cs \<inter> set (sd_SS s) = {} \<and> fin s \<subseteq> vis s \<and>
     inj_on (sd_D s) (vis s) \<and> (\<forall>x\<in>vis s. sd_D s x \<le> sd_I s) \<and> sorted_wrt (\<lambda>a b. sd_D s b < sd_D s a) cs \<and>
     (\<forall>x. x \<notin> vis s \<longrightarrow> sc_rep s x = UINT_MAX)"

definition scc_paths :: "(nat \<Rightarrow> nat list) \<Rightarrow> nat list \<Rightarrow> scc_detection \<Rightarrow> bool" where
  "scc_paths succ cs s \<longleftrightarrow>
     (\<forall>y\<in>set cs. \<forall>x\<in>open_nodes s. sd_D s y \<le> sd_D s x \<longrightarrow> (y, x) \<in> (sc_edges succ)\<^sup>*) \<and>
     (\<forall>x\<in>open_nodes s. sc_rep s x \<in> open_nodes s \<and> (x, sc_rep s x) \<in> (sc_edges succ)\<^sup>* \<and> sd_D s (sc_rep s x) \<le> sd_D s x) \<and>
     (\<forall>x\<in>set (sd_SS s). sc_rep s x \<noteq> x)"

definition scc_closed :: "(nat \<Rightarrow> nat list) \<Rightarrow> scc_detection \<Rightarrow> bool" where
  "scc_closed succ s \<longleftrightarrow> (\<forall>x\<in>fin s. set (succ x) \<subseteq> fin s) \<and> (\<forall>x\<in>set (sd_SS s). set (succ x) \<subseteq> vis s) \<and>
     (\<forall>x\<in>set (sd_SS s). \<forall>w\<in>set (succ x) - fin s. sd_D s (sc_rep s x) \<le> sd_D s w)"

definition scc_reps :: "(nat \<Rightarrow> nat list) \<Rightarrow> scc_detection \<Rightarrow> bool" where
  "scc_reps succ s \<longleftrightarrow> (\<forall>x\<in>fin s. sc_rep s x \<in> comp_of succ x \<and> (\<forall>y\<in>comp_of succ x. sc_rep s y = sc_rep s x)) \<and>
     (\<forall>r. sc_subNodes s r \<subseteq> comp_of succ r) \<and>
     (\<forall>r\<in>fin s. sc_subNodes s r = (if sc_rep s r = r then comp_of succ r else {})) \<and>
     (\<forall>x\<in>open_nodes s. sc_rep s x = x \<longrightarrow> x \<in> sc_subNodes s x) \<and>
     (\<forall>r\<in>sd_repNodes s. comp_of succ r \<noteq> {r}) \<and>
     (\<forall>r\<in>fin s. r \<in> sd_repNodes s \<longleftrightarrow> sc_rep s r = r \<and> comp_of succ r \<noteq> {r})"

definition scc_topo :: "(nat \<Rightarrow> nat list) \<Rightarrow> scc_detection \<Rightarrow> bool" where
  "scc_topo succ s \<longleftrightarrow> set (sd_T s) = {r\<in>fin s. sc_rep s r = r} \<and> sorted_wrt (\<lambda>a b. (b, a) \<notin> (sc_edges succ)\<^sup>*) (sd_T s)"

definition scc_inv :: "(nat \<Rightarrow> nat list) \<Rightarrow> nat list \<Rightarrow> scc_detection \<Rightarrow> bool" where
  "scc_inv succ cs s \<longleftrightarrow> scc_order cs s \<and> scc_paths succ cs s \<and> scc_closed succ s \<and> scc_reps succ s \<and> scc_topo succ s"

text \<open>What happens below a visit leaves the nodes visited before alone.\<close>

definition scc_ext :: "scc_detection \<Rightarrow> scc_detection \<Rightarrow> nat list \<Rightarrow> bool" where
  "scc_ext s t new \<longleftrightarrow> vis s \<subseteq> vis t \<and> fin s \<subseteq> fin t \<and> sd_I s \<le> sd_I t \<and> (\<forall>x\<in>vis s. sd_D t x = sd_D s x \<and> sc_rep t x = sc_rep s x) \<and>
     (\<forall>x\<in>vis t - vis s. sd_I s < sd_D t x) \<and> sd_SS t = new @ sd_SS s \<and> set new \<inter> vis s = {}"

lemma scc_ext_refl: "scc_ext s s []"
  by (simp add: scc_ext_def)

lemma open_mem: "scc_order cs s \<Longrightarrow> x \<in> set cs \<or> x \<in> set (sd_SS s) \<longleftrightarrow> x \<in> open_nodes s"
  unfolding scc_order_def by blast

lemma scc_ext_trans:
  assumes "scc_ext s t new" "scc_ext t u newer"
  shows "scc_ext s u (newer @ new)"
  unfolding scc_ext_def
proof (intro conjI ballI)
  have s: "vis s \<subseteq> vis t" "fin s \<subseteq> fin t" "sd_I s \<le> sd_I t" "\<And>x. x \<in> vis s \<Longrightarrow> sd_D t x = sd_D s x \<and> sc_rep t x = sc_rep s x"
    "\<And>x. x \<in> vis t - vis s \<Longrightarrow> sd_I s < sd_D t x" "sd_SS t = new @ sd_SS s" "set new \<inter> vis s = {}"
    using assms(1) unfolding scc_ext_def by blast+
  have t: "vis t \<subseteq> vis u" "fin t \<subseteq> fin u" "sd_I t \<le> sd_I u" "\<And>x. x \<in> vis t \<Longrightarrow> sd_D u x = sd_D t x \<and> sc_rep u x = sc_rep t x"
    "\<And>x. x \<in> vis u - vis t \<Longrightarrow> sd_I t < sd_D u x" "sd_SS u = newer @ sd_SS t" "set newer \<inter> vis t = {}"
    using assms(2) unfolding scc_ext_def by blast+
  show "vis s \<subseteq> vis u" "fin s \<subseteq> fin u" "sd_I s \<le> sd_I u" using s t by auto
  show "sd_D u x = sd_D s x" "sc_rep u x = sc_rep s x" if "x \<in> vis s" for x using s(1,4) t(4) that by auto
  show "sd_I s < sd_D u x" if "x \<in> vis u - vis s" for x
  proof (cases "x \<in> vis t")
    case True
    then show ?thesis using s(5) [of x] t(4) [of x] that by simp
  next
    case False
    then have "sd_I t < sd_D u x" using t(5) [of x] that by simp
    then show ?thesis using s(3) by simp
  qed
  show "sd_SS u = (newer @ new) @ sd_SS s" using s(6) t(6) by simp
  show "set (newer @ new) \<inter> vis s = {}" using s(1,7) t(7) by auto
qed

lemma scc_repsD:
  assumes "scc_reps succ s"
  shows "x \<in> fin s \<Longrightarrow> sc_rep s x \<in> comp_of succ x" "x \<in> fin s \<Longrightarrow> y \<in> comp_of succ x \<Longrightarrow> sc_rep s y = sc_rep s x"
    "sc_subNodes s x \<subseteq> comp_of succ x" "x \<in> fin s \<Longrightarrow> sc_subNodes s x = (if sc_rep s x = x then comp_of succ x else {})"
    "x \<in> open_nodes s \<Longrightarrow> sc_rep s x = x \<Longrightarrow> x \<in> sc_subNodes s x" "x \<in> sd_repNodes s \<Longrightarrow> comp_of succ x \<noteq> {x}"
    "x \<in> fin s \<Longrightarrow> x \<in> sd_repNodes s \<longleftrightarrow> sc_rep s x = x \<and> comp_of succ x \<noteq> {x}"
proof -
  note a = assms [unfolded scc_reps_def]
  note b = conjunct2 [OF conjunct2 [OF a]]
  note c = conjunct2 [OF conjunct2 [OF b]]
  note A = conjunct1 [OF a] conjunct1 [OF conjunct2 [OF a]] conjunct1 [OF b] conjunct1 [OF conjunct2 [OF b]] conjunct1 [OF c] conjunct2 [OF c]
  show "x \<in> fin s \<Longrightarrow> sc_rep s x \<in> comp_of succ x" using bspec [OF A(1)] by blast
  show "x \<in> fin s \<Longrightarrow> y \<in> comp_of succ x \<Longrightarrow> sc_rep s y = sc_rep s x" using bspec [OF A(1)] by blast
  show "sc_subNodes s x \<subseteq> comp_of succ x" using A(2) by (rule spec)
  show "x \<in> fin s \<Longrightarrow> sc_subNodes s x = (if sc_rep s x = x then comp_of succ x else {})" by (rule bspec [OF A(3)])
  show "x \<in> open_nodes s \<Longrightarrow> sc_rep s x = x \<Longrightarrow> x \<in> sc_subNodes s x" using bspec [OF A(4)] by blast
  show "x \<in> sd_repNodes s \<Longrightarrow> comp_of succ x \<noteq> {x}" by (rule bspec [OF A(5)])
  show "x \<in> fin s \<Longrightarrow> x \<in> sd_repNodes s \<longleftrightarrow> sc_rep s x = x \<and> comp_of succ x \<noteq> {x}" by (rule bspec [OF A(6)])
qed

section \<open>Steps\<close>

lemma reach_head:
  assumes "scc_order (v # cs) s" "scc_paths succ (v # cs) s"
  shows "x \<in> open_nodes s \<Longrightarrow> (x, v) \<in> (sc_edges succ)\<^sup>*"
proof (induction "sd_D s x" arbitrary: x rule: less_induct)
  case less
  have o: "open_nodes s = set (v # cs) \<union> set (sd_SS s)" "inj_on (sd_D s) (vis s)"
    "sorted_wrt (\<lambda>a b. sd_D s b < sd_D s a) (v # cs)" using assms(1) unfolding scc_order_def by blast+
  have p: "\<And>y x. y \<in> set (v # cs) \<Longrightarrow> x \<in> open_nodes s \<Longrightarrow> sd_D s y \<le> sd_D s x \<Longrightarrow> (y, x) \<in> (sc_edges succ)\<^sup>*"
    "\<And>x. x \<in> open_nodes s \<Longrightarrow> sc_rep s x \<in> open_nodes s \<and> (x, sc_rep s x) \<in> (sc_edges succ)\<^sup>* \<and> sd_D s (sc_rep s x) \<le> sd_D s x"
    "\<And>x. x \<in> set (sd_SS s) \<Longrightarrow> sc_rep s x \<noteq> x"
    using assms(2) unfolding scc_paths_def by blast+
  show ?case
  proof (cases "x \<in> set (v # cs)")
    case True
    have "v \<in> open_nodes s" using o(1) by simp
    moreover have "sd_D s x \<le> sd_D s v" using True o(3) by auto
    ultimately show ?thesis using p(1) [OF True] by blast
  next
    case False
    then have "x \<in> set (sd_SS s)" using less.prems o(1) by blast
    then have n: "sc_rep s x \<noteq> x" by (rule p(3))
    note r = p(2) [OF less.prems]
    have "sd_D s (sc_rep s x) \<noteq> sd_D s x" using n inj_onD [OF o(2)] r less.prems by blast
    then have "(sc_rep s x, v) \<in> (sc_edges succ)\<^sup>*" using less.hyps [of "sc_rep s x"] r by simp
    then show ?thesis using r by (meson rtrancl_trans)
  qed
qed

lemma scc_enter_inv:
  assumes I: "scc_inv succ cs s" and v: "v \<notin> vis s" and e: "cs \<noteq> [] \<longrightarrow> v \<in> set (succ (hd cs))"
  shows "scc_inv succ (v # cs) (scc_enter v s)" "vis (scc_enter v s) = insert v (vis s)" "fin (scc_enter v s) = fin s"
    "sd_SS (scc_enter v s) = sd_SS s" "sd_I s < sd_D (scc_enter v s) v"
    "\<And>x. x \<in> vis s \<Longrightarrow> sd_D (scc_enter v s) x = sd_D s x \<and> sc_rep (scc_enter v s) x = sc_rep s x"
    "sc_rep (scc_enter v s) v = v" "sd_I s \<le> sd_I (scc_enter v s)"
proof -
  let ?t = "scc_enter v s"
  have O: "open_nodes s = set cs \<union> set (sd_SS s)" "set cs \<inter> set (sd_SS s) = {}" "fin s \<subseteq> vis s" "inj_on (sd_D s) (vis s)"
    "\<And>x. x \<in> vis s \<Longrightarrow> sd_D s x \<le> sd_I s" "sorted_wrt (\<lambda>a b. sd_D s b < sd_D s a) cs"
    "\<And>x. x \<notin> vis s \<Longrightarrow> sc_rep s x = UINT_MAX"
    using I unfolding scc_inv_def scc_order_def by blast+
  show V: "vis ?t = insert v (vis s)" and F: "fin ?t = fin s" and S: "sd_SS ?t = sd_SS s" and D: "sd_I s < sd_D ?t v"
    and R: "sc_rep ?t v = v" and "sd_I s \<le> sd_I ?t"
    by (auto simp: scc_enter_def)
  show old: "sd_D ?t x = sd_D s x \<and> sc_rep ?t x = sc_rep s x" if "x \<in> vis s" for x
    using v that by (auto simp: scc_enter_def)
  have vf: "v \<notin> fin s" "v \<notin> set cs" "v \<notin> set (sd_SS s)" using v O(1,3) by blast+
  have op: "open_nodes ?t = insert v (open_nodes s)" using V F vf(1) by auto
  have csv: "x \<in> vis s" if "x \<in> set cs" for x using that O(1) by blast
  have Dlt: "sd_D ?t x < sd_D ?t v" if "x \<in> vis s" for x using old [OF that] O(5) [OF that] D by simp
  have order: "scc_order (v # cs) ?t"
    unfolding scc_order_def
  proof (intro conjI ballI)
    show "open_nodes ?t = set (v # cs) \<union> set (sd_SS ?t)" unfolding op S O(1) by simp
    show "set (v # cs) \<inter> set (sd_SS ?t) = {}" using O(2) vf unfolding S by auto
    show "fin ?t \<subseteq> vis ?t" using V F O(3) by blast
    have "inj_on (sd_D ?t) (vis s)" using O(4) old by (simp add: inj_on_def)
    moreover have "sd_D ?t v \<notin> sd_D ?t ` (vis s - {v})" using Dlt by force
    ultimately show "inj_on (sd_D ?t) (vis ?t)" unfolding V by simp
    show "sd_D ?t x \<le> sd_I ?t" if "x \<in> vis ?t" for x using that O(5) [of x] by (auto simp: scc_enter_def)
    show "\<forall>x. x \<notin> vis ?t \<longrightarrow> sc_rep ?t x = UINT_MAX" using O(7) unfolding V by (simp add: scc_enter_def)
    have "sorted_wrt (\<lambda>a b. sd_D ?t b < sd_D ?t a) cs"
      using O(6) csv old by (elim sorted_wrt_mono_rel [rotated]) simp
    then show "sorted_wrt (\<lambda>a b. sd_D ?t b < sd_D ?t a) (v # cs)" using Dlt csv by simp
  qed
  have P: "\<And>y x. y \<in> set cs \<Longrightarrow> x \<in> open_nodes s \<Longrightarrow> sd_D s y \<le> sd_D s x \<Longrightarrow> (y, x) \<in> (sc_edges succ)\<^sup>*"
    "\<And>x. x \<in> open_nodes s \<Longrightarrow> sc_rep s x \<in> open_nodes s \<and> (x, sc_rep s x) \<in> (sc_edges succ)\<^sup>* \<and> sd_D s (sc_rep s x) \<le> sd_D s x"
    "\<And>x. x \<in> set (sd_SS s) \<Longrightarrow> sc_rep s x \<noteq> x"
    using I unfolding scc_inv_def scc_paths_def by blast+
  have cv: "(y, v) \<in> (sc_edges succ)\<^sup>*" if y: "y \<in> set cs" for y
  proof -
    have ne: "cs \<noteq> []" using y by auto
    then obtain c cs' where c: "cs = c # cs'" by (cases cs) auto
    have "sd_D s y \<le> sd_D s c" using y O(6) unfolding c by auto
    then have "(y, c) \<in> (sc_edges succ)\<^sup>*" using P(1) [OF y, of c] O(1) c by auto
    moreover have "(c, v) \<in> sc_edges succ" using e ne c by simp
    ultimately show ?thesis by (rule rtrancl_into_rtrancl)
  qed
  have paths: "scc_paths succ (v # cs) ?t"
    unfolding scc_paths_def
  proof (intro conjI ballI impI)
    fix y x assume y: "y \<in> set (v # cs)" and x: "x \<in> open_nodes ?t" and d: "sd_D ?t y \<le> sd_D ?t x"
    consider "x = v" | "x \<in> open_nodes s" "x \<noteq> v" using x unfolding op by blast
    then show "(y, x) \<in> (sc_edges succ)\<^sup>*"
    proof cases
      case 1
      then show ?thesis using y cv by auto
    next
      case 2
      then have xv: "x \<in> vis s" by blast
      have "y \<noteq> v" using Dlt [OF xv] d by auto
      then have "y \<in> set cs" using y by simp
      then show ?thesis using P(1) 2(1) d old xv csv by simp
    qed
  next
    fix x assume x: "x \<in> open_nodes ?t"
    consider "x = v" | "x \<in> open_nodes s" "x \<noteq> v" using x unfolding op by blast
    then have "sc_rep ?t x \<in> open_nodes ?t \<and> (x, sc_rep ?t x) \<in> (sc_edges succ)\<^sup>* \<and> sd_D ?t (sc_rep ?t x) \<le> sd_D ?t x"
    proof cases
      case 1
      then show ?thesis using R unfolding op by simp
    next
      case 2
      note p = P(2) [OF 2(1)]
      then have "sd_D ?t (sc_rep s x) = sd_D s (sc_rep s x)" using old by blast
      then show ?thesis using p 2 old [of x] unfolding op by simp
    qed
    then show "sc_rep ?t x \<in> open_nodes ?t" "(x, sc_rep ?t x) \<in> (sc_edges succ)\<^sup>*" "sd_D ?t (sc_rep ?t x) \<le> sd_D ?t x" by blast+
  next
    fix x assume "x \<in> set (sd_SS ?t)"
    then have x: "x \<in> set (sd_SS s)" using S by simp
    then have "x \<in> vis s" using O(1) by blast
    then show "sc_rep ?t x \<noteq> x" using P(3) [OF x] old by simp
  qed
  have C: "\<And>x. x \<in> fin s \<Longrightarrow> set (succ x) \<subseteq> fin s" "\<And>x. x \<in> set (sd_SS s) \<Longrightarrow> set (succ x) \<subseteq> vis s"
    "\<And>x w. x \<in> set (sd_SS s) \<Longrightarrow> w \<in> set (succ x) - fin s \<Longrightarrow> sd_D s (sc_rep s x) \<le> sd_D s w"
    using I unfolding scc_inv_def scc_closed_def by blast+
  have closed: "scc_closed succ ?t"
    unfolding scc_closed_def S F V
  proof (intro conjI ballI)
    fix x w assume x: "x \<in> set (sd_SS s)" and w: "w \<in> set (succ x) - fin s"
    have xo: "x \<in> open_nodes s" using x O(1) by blast
    have "x \<in> vis s" "sc_rep s x \<in> vis s" "w \<in> vis s" using xo P(2) [OF xo] C(2) [OF x] w by blast+
    then show "sd_D ?t (sc_rep ?t x) \<le> sd_D ?t w" using C(3) [OF x w] old by simp
  qed (use C in blast)+
  have B: "scc_reps succ s" "scc_topo succ s" using I unfolding scc_inv_def by blast+
  have fv: "x \<noteq> v" if "x \<in> fin s" for x using that vf by blast
  have eqs: "sc_subNodes ?t = (sc_subNodes s)(v := insert v (sc_subNodes s v))" "sc_rep ?t = (sc_rep s)(v := v)"
    "sd_repNodes ?t = sd_repNodes s" "sd_T ?t = sd_T s" by (simp_all add: scc_enter_def)
  have reps: "scc_reps succ ?t"
    unfolding scc_reps_def F
  proof (intro conjI ballI allI impI)
    fix x assume x: "x \<in> fin s"
    have cf: "comp_of succ x \<subseteq> fin s" using closed_reach [of "fin s" succ x] C(1) x unfolding comp_of_def by blast
    show "sc_rep ?t x \<in> comp_of succ x" using scc_repsD(1) [OF B(1) x] fv [OF x] unfolding eqs by simp
    show "sc_rep ?t y = sc_rep ?t x" if y: "y \<in> comp_of succ x" for y
    proof -
      have "y \<noteq> v" using fv cf y by blast
      moreover have "sc_rep s y = sc_rep s x" by (rule scc_repsD(2) [OF B(1) x y])
      ultimately show ?thesis using fv [OF x] unfolding eqs by simp
    qed
    show "sc_subNodes ?t x = (if sc_rep ?t x = x then comp_of succ x else {})"
      using scc_repsD(4) [OF B(1) x] fv [OF x] unfolding eqs by simp
    show "x \<in> sd_repNodes ?t \<longleftrightarrow> sc_rep ?t x = x \<and> comp_of succ x \<noteq> {x}"
      using scc_repsD(7) [OF B(1) x] fv [OF x] unfolding eqs by simp
  next
    show "sc_subNodes ?t r \<subseteq> comp_of succ r" for r
      using scc_repsD(3) [OF B(1), of r] unfolding eqs by (cases "r = v") simp_all
    show "x \<in> sc_subNodes ?t x" if o: "x \<in> vis ?t - fin s" "sc_rep ?t x = x" for x
    proof (cases "x = v")
      case False
      then have "x \<in> open_nodes s" "sc_rep s x = x" using o op unfolding F eqs by auto
      then have "x \<in> sc_subNodes s x" by (rule scc_repsD(5) [OF B(1)])
      then show ?thesis using False unfolding eqs by simp
    qed (simp add: eqs)
    show "comp_of succ r \<noteq> {r}" if "r \<in> sd_repNodes ?t" for r
      by (rule scc_repsD(6) [OF B(1)]) (use that in \<open>simp add: eqs\<close>)
  qed
  have "{r \<in> fin s. sc_rep ?t r = r} = {r \<in> fin s. sc_rep s r = r}" using fv unfolding eqs by auto
  then have "scc_topo succ ?t" using B(2) unfolding scc_topo_def F eqs(4) by simp
  then show "scc_inv succ (v # cs) ?t" using order paths closed reps unfolding scc_inv_def by blast
qed

lemma fin_comp:
  assumes "scc_closed succ s" "x \<in> fin s"
  shows "comp_of succ x \<subseteq> fin s"
proof -
  have "\<And>y. y \<in> fin s \<Longrightarrow> set (succ y) \<subseteq> fin s" using assms(1) unfolding scc_closed_def by blast
  then show ?thesis using closed_reach [of "fin s" succ x] assms(2) unfolding comp_of_def by blast
qed

lemma scc_pathsD:
  assumes "scc_paths succ cs s"
  shows "y \<in> set cs \<Longrightarrow> x \<in> open_nodes s \<Longrightarrow> sd_D s y \<le> sd_D s x \<Longrightarrow> (y, x) \<in> (sc_edges succ)\<^sup>*"
    "x \<in> open_nodes s \<Longrightarrow> sc_rep s x \<in> open_nodes s" "x \<in> open_nodes s \<Longrightarrow> (x, sc_rep s x) \<in> (sc_edges succ)\<^sup>*"
    "x \<in> open_nodes s \<Longrightarrow> sd_D s (sc_rep s x) \<le> sd_D s x" "x \<in> set (sd_SS s) \<Longrightarrow> sc_rep s x \<noteq> x"
  using assms unfolding scc_paths_def by blast+

lemma scc_orderD:
  assumes "scc_order cs s"
  shows "open_nodes s = set cs \<union> set (sd_SS s)" "set cs \<inter> set (sd_SS s) = {}" "fin s \<subseteq> vis s" "inj_on (sd_D s) (vis s)"
    "x \<in> vis s \<Longrightarrow> sd_D s x \<le> sd_I s" "sorted_wrt (\<lambda>a b. sd_D s b < sd_D s a) cs" "x \<notin> vis s \<Longrightarrow> sc_rep s x = UINT_MAX"
  using assms unfolding scc_order_def by blast+

lemma scc_closedD:
  assumes "scc_closed succ s"
  shows "x \<in> fin s \<Longrightarrow> set (succ x) \<subseteq> fin s" "x \<in> set (sd_SS s) \<Longrightarrow> set (succ x) \<subseteq> vis s"
    "x \<in> set (sd_SS s) \<Longrightarrow> w \<in> set (succ x) \<Longrightarrow> w \<notin> fin s \<Longrightarrow> sd_D s (sc_rep s x) \<le> sd_D s w"
  using assms unfolding scc_closed_def by blast+

lemma set_rep_head_inv:
  assumes I: "scc_inv succ (v # cs) s" and r: "r \<in> open_nodes s" "(v, r) \<in> (sc_edges succ)\<^sup>*" "sd_D s r \<le> sd_D s v"
  shows "scc_inv succ (v # cs) (set_rep v r s)"
proof -
  let ?t = "set_rep v r s"
  have O: "scc_order (v # cs) s" and P: "scc_paths succ (v # cs) s" and C: "scc_closed succ s" and R: "scc_reps succ s"
    and T: "scc_topo succ s" using I unfolding scc_inv_def by blast+
  have op: "vis ?t = vis s" "fin ?t = fin s" by simp_all
  have v: "v \<in> open_nodes s" "v \<notin> set (sd_SS s)" using scc_orderD(1,2) [OF O] by auto
  have rv: "r \<in> comp_of succ v" "v \<in> comp_of succ r" using r(2) reach_head [OF O P r(1)] by (simp_all add: comp_of_def)
  have "\<forall>x. x \<notin> vis ?t \<longrightarrow> sc_rep ?t x = UINT_MAX" using scc_orderD(7) [OF O] v(1) unfolding op by auto
  then have order: "scc_order (v # cs) ?t" using O unfolding scc_order_def by simp
  have paths: "scc_paths succ (v # cs) ?t"
    unfolding scc_paths_def op
  proof (intro conjI ballI impI)
    show "sc_rep ?t x \<in> open_nodes s" "(x, sc_rep ?t x) \<in> (sc_edges succ)\<^sup>*" "sd_D ?t (sc_rep ?t x) \<le> sd_D ?t x"
      if x: "x \<in> open_nodes s" for x
      using scc_pathsD(2-4) [OF P x] r by (cases "x = v"; simp)+
    show "sc_rep ?t x \<noteq> x" if "x \<in> set (sd_SS ?t)" for x using scc_pathsD(5) [OF P, of x] that v(2) by auto
  qed (use scc_pathsD(1) [OF P] in simp)
  have closed: "scc_closed succ ?t"
    unfolding scc_closed_def op
  proof (intro conjI ballI)
    show "sd_D ?t (sc_rep ?t x) \<le> sd_D ?t w" if "x \<in> set (sd_SS ?t)" "w \<in> set (succ x) - fin s" for x w
      using scc_closedD(3) [OF C, of x w] that v(2) by auto
  qed (use scc_closedD(1,2) [OF C] in simp_all)
  have vn: "x \<noteq> v \<and> x \<noteq> r" if "x \<in> fin s" for x using that v(1) r(1) by blast
  have reps: "scc_reps succ ?t"
    unfolding scc_reps_def op
  proof (intro conjI ballI allI impI)
    fix x assume x: "x \<in> fin s"
    show "sc_rep ?t x \<in> comp_of succ x" using scc_repsD(1) [OF R x] vn [OF x] by simp
    show "sc_rep ?t y = sc_rep ?t x" if y: "y \<in> comp_of succ x" for y
    proof -
      have "y \<noteq> v" using vn fin_comp [OF C x] y by blast
      then show ?thesis using scc_repsD(2) [OF R x y] vn [OF x] by simp
    qed
    show "sc_subNodes ?t x = (if sc_rep ?t x = x then comp_of succ x else {})"
      using scc_repsD(4) [OF R x] vn [OF x] by simp
    show "x \<in> sd_repNodes ?t \<longleftrightarrow> sc_rep ?t x = x \<and> comp_of succ x \<noteq> {x}"
      using scc_repsD(7) [OF R x] vn [OF x] by simp
  next
    show "sc_subNodes ?t x \<subseteq> comp_of succ x" for x
      using scc_repsD(3) [OF R, of x] scc_repsD(3) [OF R, of r] rv by (cases "x = v"; cases "x = r"; simp)
    show "x \<in> sc_subNodes ?t x" if x: "x \<in> open_nodes s" "sc_rep ?t x = x" for x
      using scc_repsD(5) [OF R x(1)] x(2) by (cases "x = v"; cases "x = r"; simp)
    show "comp_of succ x \<noteq> {x}" if x: "x \<in> sd_repNodes ?t" for x
    proof (cases "x = r \<and> v \<noteq> r")
      case True
      then show ?thesis using rv(2) by auto
    next
      case False
      then have "x \<in> sd_repNodes s" using x by (auto split: if_splits)
      then show ?thesis by (rule scc_repsD(6) [OF R])
    qed
  qed
  have "{r \<in> fin s. sc_rep ?t r = r} = {r \<in> fin s. sc_rep s r = r}" using vn by auto
  then have "scc_topo succ ?t" using T unfolding scc_topo_def op by simp
  then show ?thesis using order paths closed reps unfolding scc_inv_def by blast
qed

lemma scc_edge_inv:
  assumes I: "scc_inv succ (v # cs) s" and w: "w \<in> set (succ v)" "w \<in> vis s"
  shows "scc_inv succ (v # cs) (scc_edge v w s)" "vis (scc_edge v w s) = vis s" "fin (scc_edge v w s) = fin s"
    "sd_SS (scc_edge v w s) = sd_SS s" "sd_D (scc_edge v w s) = sd_D s" "sd_I (scc_edge v w s) = sd_I s"
    "x \<noteq> v \<Longrightarrow> sc_rep (scc_edge v w s) x = sc_rep s x" "sd_D s (sc_rep (scc_edge v w s) v) \<le> sd_D s (sc_rep s v)"
    "w \<notin> fin s \<Longrightarrow> sd_D s (sc_rep (scc_edge v w s) v) \<le> sd_D s (sc_rep s w)"
proof -
  have O: "scc_order (v # cs) s" and P: "scc_paths succ (v # cs) s" using I unfolding scc_inv_def by blast+
  let ?r = "if sd_D s (sc_rep s v) < sd_D s (sc_rep s w) then sc_rep s v else sc_rep s w"
  have v: "v \<in> open_nodes s" using scc_orderD(1) [OF O] by auto
  have "scc_inv succ (v # cs) (set_rep v ?r s)" if "w \<notin> fin s"
  proof (rule set_rep_head_inv [OF I])
    have wo: "w \<in> open_nodes s" using w(2) that by blast
    have "(v, w) \<in> sc_edges succ" using w(1) by simp
    then have vw: "(v, sc_rep s w) \<in> (sc_edges succ)\<^sup>*" using scc_pathsD(3) [OF P wo] by (rule converse_rtrancl_into_rtrancl)
    show "?r \<in> open_nodes s" "(v, ?r) \<in> (sc_edges succ)\<^sup>*"
      using scc_pathsD(2) [OF P v] scc_pathsD(2) [OF P wo] scc_pathsD(3) [OF P v] vw by simp_all
    show "sd_D s ?r \<le> sd_D s v" using scc_pathsD(4) [OF P v] by (simp split: if_splits)
  qed
  then show "scc_inv succ (v # cs) (scc_edge v w s)" using I by (simp add: scc_edge_def)
qed (auto simp: scc_edge_def)

section \<open>The end of a visit\<close>

lemma scc_pop_effect:
  assumes "\<forall>w\<in>set new. sd_D s v < sd_D s w" "\<forall>w\<in>set old. sd_D s w < sd_D s v" "sd_SS s = new @ old"
  shows "sd_SS (scc_pop v (new @ old) s) = old \<and> vis (scc_pop v (new @ old) s) = vis s \<and>
    fin (scc_pop v (new @ old) s) = fin s \<union> set new \<and> sd_D (scc_pop v (new @ old) s) = sd_D s \<and>
    sd_I (scc_pop v (new @ old) s) = sd_I s \<and> sd_T (scc_pop v (new @ old) s) = sd_T s \<and>
    sc_rep (scc_pop v (new @ old) s) = (\<lambda>x. if x \<in> set new then v else sc_rep s x) \<and>
    sc_subNodes (scc_pop v (new @ old) s) = (\<lambda>x. if x \<in> set new then {} else if x = v then sc_subNodes s v \<union> set new else sc_subNodes s x) \<and>
    sd_repNodes (scc_pop v (new @ old) s) = (if new = [] then sd_repNodes s else insert v (sd_repNodes s - set new))"
  using assms
proof (induction new arbitrary: s)
  case Nil
  then show ?case by (cases old) (auto simp: fun_eq_iff)
next
  case (Cons w new)
  let ?s = "set_rep w v (setInSCC w (s\<lparr>sd_SS := new @ old\<rparr>))"
  have d: "sd_D ?s = sd_D s" by simp
  have n: "v \<noteq> w" "v \<notin> set new" using Cons.prems(1) by auto
  have e: "scc_pop v ((w # new) @ old) s = scc_pop v (new @ old) ?s" using Cons.prems(1) by simp
  have a: "\<forall>w\<in>set new. sd_D ?s v < sd_D ?s w" "\<forall>w\<in>set old. sd_D ?s w < sd_D ?s v" "sd_SS ?s = new @ old"
    using Cons.prems unfolding d by simp_all
  show ?case
    unfolding e
    by (insert Cons.IH [OF a] n, elim conjE, intro conjI) (auto simp: fun_eq_iff)
qed

lemma closing_comp:
  assumes I: "scc_inv succ (v # cs) s" and r: "sc_rep s v = v" and ss: "sd_SS s = new @ old"
    and d: "\<forall>x\<in>set new. sd_D s v < sd_D s x" "\<forall>x\<in>set old. sd_D s x < sd_D s v"
    and ch: "\<forall>w\<in>set (succ v). w \<in> vis s \<and> (w \<notin> fin s \<longrightarrow> sd_D s v \<le> sd_D s w)"
    and m: "\<forall>z\<in>set new. sd_D s v \<le> sd_D s (sc_rep s z)"
  shows "comp_of succ v = insert v (set new)" "\<And>x. x \<in> insert v (set new) \<union> fin s \<Longrightarrow> set (succ x) \<subseteq> insert v (set new) \<union> fin s"
proof -
  have O: "scc_order (v # cs) s" and P: "scc_paths succ (v # cs) s" and C: "scc_closed succ s" using I unfolding scc_inv_def by blast+
  have op: "open_nodes s = insert v (set cs) \<union> set new \<union> set old" using scc_orderD(1) [OF O] ss by auto
  have cd: "sd_D s x < sd_D s v" if "x \<in> set cs" for x using scc_orderD(6) [OF O] that by simp
  have ge: "w \<in> insert v (set new)" if "w \<in> vis s" "w \<notin> fin s" "sd_D s v \<le> sd_D s w" for w
  proof -
    have "w \<in> insert v (set cs) \<union> set new \<union> set old" using that(1,2) op by blast
    then show ?thesis using that(3) cd [of w] d(2) by auto
  qed
  show cl: "set (succ x) \<subseteq> insert v (set new) \<union> fin s" if x: "x \<in> insert v (set new) \<union> fin s" for x
  proof
    fix w assume w: "w \<in> set (succ x)"
    consider "x = v" | "x \<in> set new" | "x \<in> fin s" using x by blast
    then show "w \<in> insert v (set new) \<union> fin s"
    proof cases
      case 1
      then show ?thesis using ch w ge by blast
    next
      case 2
      then have xs: "x \<in> set (sd_SS s)" using ss by simp
      show ?thesis
      proof (cases "w \<in> fin s")
        case False
        have "sd_D s (sc_rep s x) \<le> sd_D s w" by (rule scc_closedD(3) [OF C xs w False])
        then have "sd_D s v \<le> sd_D s w" using m 2 by force
        then show ?thesis using ge scc_closedD(2) [OF C xs] w False by blast
      qed simp
    next
      case 3
      then show ?thesis using scc_closedD(1) [OF C 3] w by blast
    qed
  qed
  have vo: "v \<in> open_nodes s" unfolding op by simp
  show "comp_of succ v = insert v (set new)"
  proof
    show "comp_of succ v \<subseteq> insert v (set new)"
    proof
      fix y assume y: "y \<in> comp_of succ v"
      have "y \<in> insert v (set new) \<union> fin s"
        by (rule closed_reach [of _ succ v, OF cl]) (use y in \<open>auto simp: comp_of_def\<close>)
      moreover have "v \<in> fin s" if "y \<in> fin s"
      proof -
        have "v \<in> comp_of succ y" using y comp_sym by blast
        then show ?thesis using fin_comp [OF C that] by blast
      qed
      ultimately show "y \<in> insert v (set new)" using vo by blast
    qed
    show "insert v (set new) \<subseteq> comp_of succ v"
    proof
      fix z assume z: "z \<in> insert v (set new)"
      then have zo: "z \<in> open_nodes s" unfolding op by blast
      have "sd_D s v \<le> sd_D s z" using z d(1) by auto
      then have "(v, z) \<in> (sc_edges succ)\<^sup>*" using scc_pathsD(1) [OF P _ zo, of v] by simp
      then show "z \<in> comp_of succ v" using reach_head [OF O P zo] by (simp add: comp_of_def)
    qed
  qed
qed

lemma scc_close_root:
  assumes I: "scc_inv succ (v # cs) s" and r: "sc_rep s v = v" and ss: "sd_SS s = new @ old"
    and d: "\<forall>x\<in>set new. sd_D s v < sd_D s x" "\<forall>x\<in>set old. sd_D s x < sd_D s v"
    and ch: "\<forall>w\<in>set (succ v). w \<in> vis s \<and> (w \<notin> fin s \<longrightarrow> sd_D s v \<le> sd_D s w)"
    and m: "\<forall>z\<in>set new. sd_D s v \<le> sd_D s (sc_rep s z)"
  shows "scc_inv succ cs (scc_close v s)" "sd_SS (scc_close v s) = old" "vis (scc_close v s) = vis s"
    "fin (scc_close v s) = insert v (set new) \<union> fin s" "sd_D (scc_close v s) = sd_D s" "sd_I (scc_close v s) = sd_I s"
    "x \<notin> set new \<Longrightarrow> sc_rep (scc_close v s) x = sc_rep s x"
proof -
  let ?t = "scc_close v s" and ?s1 = "setInSCC v s" and ?A = "insert v (set new)"
  have O: "scc_order (v # cs) s" and P: "scc_paths succ (v # cs) s" and C: "scc_closed succ s" and R: "scc_reps succ s"
    and T: "scc_topo succ s" using I unfolding scc_inv_def by blast+
  note cc = closing_comp [OF assms]
  have "\<forall>x\<in>set new. sd_D ?s1 v < sd_D ?s1 x" "\<forall>x\<in>set old. sd_D ?s1 x < sd_D ?s1 v" "sd_SS ?s1 = new @ old"
    using d ss by simp_all
  note pe = scc_pop_effect [OF this, unfolded setInSCC_simps]
  have t: "?t = (scc_pop v (new @ old) ?s1)\<lparr>sd_T := v # sd_T s\<rparr>"
    using pe by (simp add: scc_close_def r ss Let_def)
  have E: "sd_SS ?t = old" "vis ?t = vis s" "fin ?t = ?A \<union> fin s" "sd_D ?t = sd_D s" "sd_I ?t = sd_I s" "sd_T ?t = v # sd_T s"
    "sc_rep ?t = (\<lambda>x. if x \<in> set new then v else sc_rep s x)"
    "sc_subNodes ?t = (\<lambda>x. if x \<in> set new then {} else if x = v then sc_subNodes s v \<union> set new else sc_subNodes s x)"
    "sd_repNodes ?t = (if new = [] then sd_repNodes s else insert v (sd_repNodes s - set new))"
    unfolding t using pe by (simp_all add: set_eq_iff, blast)
  show "sd_SS ?t = old" "vis ?t = vis s" "fin ?t = ?A \<union> fin s" "sd_D ?t = sd_D s" "sd_I ?t = sd_I s" by (fact E)+
  show "x \<notin> set new \<Longrightarrow> sc_rep ?t x = sc_rep s x" by (simp add: E(7))
  have op: "open_nodes s = insert v (set cs) \<union> set new \<union> set old" using scc_orderD(1) [OF O] ss by auto
  have cd: "sd_D s x < sd_D s v" if "x \<in> set cs" for x using scc_orderD(6) [OF O] that by simp
  have low: "x \<notin> ?A" if "sd_D s x < sd_D s v" for x using that d(1) by auto
  have vn: "v \<notin> set new" using d(1) by auto
  have opt: "open_nodes ?t = set cs \<union> set old"
  proof -
    have "open_nodes ?t = open_nodes s - ?A" unfolding E(2,3) by blast
    also have "\<dots> = set cs \<union> set old" unfolding op using low cd d(2) by blast
    finally show ?thesis .
  qed
  have lo: "sd_D s x < sd_D s v" "x \<notin> ?A" "x \<in> open_nodes s" if "x \<in> open_nodes ?t" for x
    using that cd d(2) low op unfolding opt by blast+
  have order: "scc_order cs ?t"
    unfolding scc_order_def opt E(1)
  proof (intro conjI ballI)
    show "set cs \<inter> set old = {}" using scc_orderD(2) [OF O] ss by auto
    show "fin ?t \<subseteq> vis ?t" using scc_orderD(3) [OF O] op unfolding E(2,3) by blast
    show "inj_on (sd_D ?t) (vis ?t)" using scc_orderD(4) [OF O] unfolding E(2,4) .
    show "sd_D ?t x \<le> sd_I ?t" if "x \<in> vis ?t" for x using scc_orderD(5) [OF O] that unfolding E(2,4,5) .
    show "sorted_wrt (\<lambda>a b. sd_D ?t b < sd_D ?t a) cs" using scc_orderD(6) [OF O] unfolding E(4) by simp
    have "x \<notin> vis s \<Longrightarrow> x \<notin> set new" for x using op by blast
    then show "\<forall>x. x \<notin> vis ?t \<longrightarrow> sc_rep ?t x = UINT_MAX" using scc_orderD(7) [OF O] unfolding E(2,7) by simp
  qed simp
  have paths: "scc_paths succ cs ?t"
    unfolding scc_paths_def
  proof (intro conjI ballI impI)
    fix y x assume "y \<in> set cs" "x \<in> open_nodes ?t" "sd_D ?t y \<le> sd_D ?t x"
    then show "(y, x) \<in> (sc_edges succ)\<^sup>*" using scc_pathsD(1) [OF P, of y x] lo(3) unfolding E(4) by simp
  next
    fix x assume x: "x \<in> open_nodes ?t"
    note l = lo [OF x] and p = scc_pathsD(2-4) [OF P lo(3) [OF x]]
    have e: "sc_rep ?t x = sc_rep s x" using l(2) by (simp add: E(7))
    have "sc_rep s x \<notin> ?A" using low p(3) l(1) by (meson le_less_trans)
    then show "sc_rep ?t x \<in> open_nodes ?t" using p(1) unfolding e E(2,3) by blast
    show "(x, sc_rep ?t x) \<in> (sc_edges succ)\<^sup>*" "sd_D ?t (sc_rep ?t x) \<le> sd_D ?t x" using p unfolding e E(4) by blast+
  next
    fix x assume x: "x \<in> set (sd_SS ?t)"
    then have xs: "x \<in> set (sd_SS s)" and "x \<in> open_nodes ?t" unfolding opt E(1) ss by auto
    then have "sc_rep ?t x = sc_rep s x" using lo(2) by (simp add: E(7))
    then show "sc_rep ?t x \<noteq> x" using scc_pathsD(5) [OF P xs] by simp
  qed
  have closed: "scc_closed succ ?t"
    unfolding scc_closed_def E(2,3)
  proof (intro conjI ballI)
    show "set (succ x) \<subseteq> ?A \<union> fin s" if "x \<in> ?A \<union> fin s" for x by (rule cc(2) [OF that])
    fix x assume "x \<in> set (sd_SS ?t)"
    then have xs: "x \<in> set (sd_SS s)" and xo: "x \<in> open_nodes ?t" unfolding opt E(1) ss by auto
    show "set (succ x) \<subseteq> vis s" by (rule scc_closedD(2) [OF C xs])
    show "sd_D ?t (sc_rep ?t x) \<le> sd_D ?t w" if "w \<in> set (succ x) - (?A \<union> fin s)" for w
      using scc_closedD(3) [OF C xs, of w] that lo(2) [OF xo] by (simp add: E(4,7))
  qed
  have fo: "x \<notin> ?A" if "x \<in> fin s" for x using that op by blast
  have ca: "comp_of succ x = ?A" if "x \<in> ?A" for x using comp_eq [of x succ v] that unfolding cc(1) by blast
  have va: "v \<in> open_nodes s" unfolding op by simp
  have sv: "sc_subNodes s v \<union> set new = ?A"
    using scc_repsD(3) [OF R, of v] scc_repsD(5) [OF R va r] unfolding cc(1) by blast
  have reps: "scc_reps succ ?t"
    unfolding scc_reps_def E(2,3)
  proof (intro conjI ballI allI impI)
    fix x assume x: "x \<in> ?A \<union> fin s"
    consider "x \<in> ?A" | "x \<in> fin s" "x \<notin> ?A" using x by blast
    note cases = this
    show "sc_rep ?t x \<in> comp_of succ x"
    proof (cases rule: cases)
      case 1
      then have "sc_rep ?t x = v" using r by (auto simp: E(7))
      then show ?thesis unfolding ca [OF 1] by simp
    next
      case 2
      then show ?thesis using scc_repsD(1) [OF R 2(1)] by (simp add: E(7))
    qed
    show "sc_rep ?t y = sc_rep ?t x" if y: "y \<in> comp_of succ x" for y
    proof (cases rule: cases)
      case 1
      then show ?thesis using y r unfolding ca [OF 1] by (auto simp: E(7))
    next
      case 2
      then have "y \<notin> ?A" using fo fin_comp [OF C 2(1)] y by blast
      then show ?thesis using scc_repsD(2) [OF R 2(1) y] 2(2) by (simp add: E(7))
    qed
    show "sc_subNodes ?t x = (if sc_rep ?t x = x then comp_of succ x else {})"
    proof (cases rule: cases)
      case 1
      then show ?thesis using sv r vn unfolding ca [OF 1] by (auto simp: E(7,8))
    next
      case 2
      then show ?thesis using scc_repsD(4) [OF R 2(1)] by (simp add: E(7,8))
    qed
    show "x \<in> sd_repNodes ?t \<longleftrightarrow> sc_rep ?t x = x \<and> comp_of succ x \<noteq> {x}"
    proof (cases rule: cases)
      case 1
      show ?thesis
      proof (cases "x = v")
        case True
        have "v \<notin> sd_repNodes s" if "new = []" using scc_repsD(6) [OF R, of v] that unfolding cc(1) by auto
        then show ?thesis using r vn cc(1) True by (cases new) (auto simp: E(7,9))
      next
        case False
        then show ?thesis using 1 by (auto simp: E(7,9))
      qed
    next
      case 2
      then show ?thesis using scc_repsD(7) [OF R 2(1)] by (simp add: E(7,9))
    qed
  next
    show "sc_subNodes ?t x \<subseteq> comp_of succ x" for x
      using scc_repsD(3) [OF R, of x] sv cc(1) by (simp add: E(8))
    show "x \<in> sc_subNodes ?t x" if x: "x \<in> vis s - (?A \<union> fin s)" "sc_rep ?t x = x" for x
      using scc_repsD(5) [OF R, of x] x by (simp add: E(7,8))
    show "comp_of succ x \<noteq> {x}" if x: "x \<in> sd_repNodes ?t" for x
    proof (cases "x \<in> sd_repNodes s")
      case True
      then show ?thesis by (rule scc_repsD(6) [OF R])
    next
      case False
      then have "x = v" "new \<noteq> []" using x by (auto simp: E(9) split: if_splits)
      then show ?thesis using cc(1) vn by (cases new) auto
    qed
  qed
  have topo: "scc_topo succ ?t"
    unfolding scc_topo_def E(3,6)
  proof
    have "{x \<in> ?A \<union> fin s. sc_rep ?t x = x} = insert v {x \<in> fin s. sc_rep s x = x}"
      using fo r vn by (auto simp: E(7))
    then show "set (v # sd_T s) = {x \<in> ?A \<union> fin s. sc_rep ?t x = x}" using T unfolding scc_topo_def by simp
    have "(b, v) \<notin> (sc_edges succ)\<^sup>*" if "b \<in> set (sd_T s)" for b
    proof
      assume "(b, v) \<in> (sc_edges succ)\<^sup>*"
      moreover have "b \<in> fin s" using that T unfolding scc_topo_def by blast
      ultimately have "v \<in> fin s" using closed_reach [of "fin s" succ b v] scc_closedD(1) [OF C] by blast
      then show False using va by blast
    qed
    then show "sorted_wrt (\<lambda>a b. (b, a) \<notin> (sc_edges succ)\<^sup>*) (v # sd_T s)" using T unfolding scc_topo_def by simp
  qed
  show "scc_inv succ cs ?t" using order paths closed reps topo unfolding scc_inv_def by blast
qed

lemma scc_close_keep:
  assumes I: "scc_inv succ (v # cs) s" and r: "sc_rep s v \<noteq> v"
    and ch: "\<forall>w\<in>set (succ v). w \<in> vis s \<and> (w \<notin> fin s \<longrightarrow> sd_D s (sc_rep s v) \<le> sd_D s w)"
  shows "scc_inv succ cs (scc_close v s)" "scc_close v s = s\<lparr>sd_SS := v # sd_SS s\<rparr>"
proof -
  have O: "scc_order (v # cs) s" and P: "scc_paths succ (v # cs) s" and C: "scc_closed succ s" and R: "scc_reps succ s"
    and T: "scc_topo succ s" using I unfolding scc_inv_def by blast+
  show t: "scc_close v s = s\<lparr>sd_SS := v # sd_SS s\<rparr>" using r by (simp add: scc_close_def)
  let ?t = "s\<lparr>sd_SS := v # sd_SS s\<rparr>"
  have op: "vis ?t = vis s" "fin ?t = fin s" by simp_all
  have e: "sc_rep ?t = sc_rep s" "sc_subNodes ?t = sc_subNodes s" "sd_repNodes ?t = sd_repNodes s" by simp_all
  have vc: "v \<notin> set cs" using scc_orderD(6) [OF O] by auto
  have "scc_order cs (scc_close v s)"
    unfolding scc_order_def t op
  proof (intro conjI ballI)
    show "open_nodes s = set cs \<union> set (sd_SS ?t)" using scc_orderD(1) [OF O] by simp
    show "set cs \<inter> set (sd_SS ?t) = {}" using scc_orderD(2) [OF O] vc by auto
  qed (use scc_orderD(3-7) [OF O] in simp_all)
  moreover have "scc_paths succ cs (scc_close v s)"
    unfolding scc_paths_def t op
  proof (intro conjI ballI impI)
    show "sc_rep ?t x \<noteq> x" if "x \<in> set (sd_SS ?t)" for x using scc_pathsD(5) [OF P, of x] that r by auto
  next
    fix x assume x: "x \<in> open_nodes s"
    show "sc_rep ?t x \<in> open_nodes s" "(x, sc_rep ?t x) \<in> (sc_edges succ)\<^sup>*" "sd_D ?t (sc_rep ?t x) \<le> sd_D ?t x"
      using scc_pathsD(2-4) [OF P x] by simp_all
  next
    show "(y, x) \<in> (sc_edges succ)\<^sup>*" if "y \<in> set cs" "x \<in> open_nodes s" "sd_D ?t y \<le> sd_D ?t x" for y x
      using scc_pathsD(1) [OF P, of y x] that by simp
  qed
  moreover have "scc_closed succ (scc_close v s)"
    unfolding scc_closed_def t op
  proof (intro conjI ballI)
    show "set (succ x) \<subseteq> vis s" if "x \<in> set (sd_SS ?t)" for x
      using that scc_closedD(2) [OF C, of x] ch by (cases "x = v") auto
    show "sd_D ?t (sc_rep ?t x) \<le> sd_D ?t w" if "x \<in> set (sd_SS ?t)" "w \<in> set (succ x) - fin s" for x w
      using that scc_closedD(3) [OF C, of x w] ch by (cases "x = v") simp_all
  qed (use scc_closedD(1) [OF C] in blast)
  moreover have "scc_reps succ (scc_close v s)" using R unfolding scc_reps_def t op e .
  moreover have "scc_topo succ (scc_close v s)" using T unfolding scc_topo_def t by simp
  ultimately show "scc_inv succ cs (scc_close v s)" unfolding scc_inv_def by blast
qed

section \<open>A visit\<close>

definition visit_post :: "nat set \<Rightarrow> (nat \<Rightarrow> nat list) \<Rightarrow> nat list \<Rightarrow> nat \<Rightarrow> scc_detection \<Rightarrow> scc_detection \<Rightarrow> nat list \<Rightarrow> bool" where
  "visit_post V succ cs v s t new \<longleftrightarrow> scc_inv succ cs t \<and> scc_ext s t new \<and> vis t \<subseteq> V \<and> v \<in> vis t \<and>
     (v \<notin> fin t \<longrightarrow> (\<forall>z\<in>set new. sd_D t (sc_rep t v) \<le> sd_D t (sc_rep t z))) \<and> (v \<in> fin t \<longrightarrow> new = [])"

text \<open>\<open>P\<close> are the children of \<open>v\<close> that are dealt with.\<close>

definition child_ok :: "nat set \<Rightarrow> (nat \<Rightarrow> nat list) \<Rightarrow> nat list \<Rightarrow> nat \<Rightarrow> scc_detection \<Rightarrow> nat set \<Rightarrow> scc_detection \<Rightarrow> nat list \<Rightarrow> bool" where
  "child_ok V succ cs v s P t new \<longleftrightarrow> scc_inv succ (v # cs) t \<and> scc_ext s t new \<and> vis t \<subseteq> V \<and> v \<in> vis t \<and> sd_D t v = sd_I s + 1 \<and>
     (\<forall>w\<in>P. w \<in> vis t \<and> (w \<notin> fin t \<longrightarrow> sd_D t (sc_rep t v) \<le> sd_D t w)) \<and>
     (\<forall>z\<in>set new. sd_D t (sc_rep t v) \<le> sd_D t (sc_rep t z))"

definition visits_ok :: "nat set \<Rightarrow> (nat \<Rightarrow> nat list) \<Rightarrow> nat \<Rightarrow> bool" where
  "visits_ok V succ k \<longleftrightarrow> (\<forall>v s cs. v \<in> V \<longrightarrow> v \<notin> vis s \<longrightarrow> vis s \<subseteq> V \<longrightarrow> card (V - vis s) \<le> k \<longrightarrow> scc_inv succ cs s \<longrightarrow>
     (cs \<noteq> [] \<longrightarrow> v \<in> set (succ (hd cs))) \<longrightarrow> (\<exists>t new. scc_visit k succ v s = Some t \<and> visit_post V succ cs v s t new))"

lemma child_step:
  assumes IH: "visits_ok V succ k" and cl: "w \<in> V" and v: "v \<notin> vis s" and w: "w \<in> set (succ v)" and K: "card (V - vis t) \<le> k"
    and ok: "child_ok V succ cs v s P t new"
  shows "\<exists>t' new'. map_option (scc_edge v w) (if \<not> sc_visited t w then scc_visit k succ w t else Some t) = Some t' \<and>
    child_ok V succ cs v s (insert w P) t' new' \<and> vis t \<subseteq> vis t'"
proof -
  have t: "scc_inv succ (v # cs) t" "scc_ext s t new" "vis t \<subseteq> V" "v \<in> vis t" "sd_D t v = sd_I s + 1"
    and tP: "\<And>w. w \<in> P \<Longrightarrow> w \<in> vis t \<and> (w \<notin> fin t \<longrightarrow> sd_D t (sc_rep t v) \<le> sd_D t w)"
    and tn: "\<And>z. z \<in> set new \<Longrightarrow> sd_D t (sc_rep t v) \<le> sd_D t (sc_rep t z)"
    using ok unfolding child_ok_def by blast+
  obtain t1 newer where t1: "(if \<not> sc_visited t w then scc_visit k succ w t else Some t) = Some t1" "scc_inv succ (v # cs) t1"
    "scc_ext t t1 newer" "vis t1 \<subseteq> V" "w \<in> vis t1"
    "w \<notin> fin t1 \<Longrightarrow> \<forall>z\<in>set newer. sd_D t1 (sc_rep t1 w) \<le> sd_D t1 (sc_rep t1 z)" "w \<in> fin t1 \<Longrightarrow> newer = []"
  proof (cases "w \<in> vis t")
    case True
    then show thesis using that [of t "[]"] t scc_ext_refl by simp
  next
    case False
    have "hd (v # cs) = v" by simp
    then obtain t1 newer where "scc_visit k succ w t = Some t1" "visit_post V succ (v # cs) w t t1 newer"
      using IH [unfolded visits_ok_def, rule_format, OF cl False t(3) K t(1)] w by auto
    then show thesis using that [of t1 newer] False unfolding visit_post_def by simp
  qed
  let ?t = "scc_edge v w t1"
  note E = scc_edge_inv [OF t1(2) w t1(5)]
  have O: "scc_order (v # cs) t" and P: "scc_paths succ (v # cs) t" and P1: "scc_paths succ (v # cs) t1"
    using t(1) t1(2) unfolding scc_inv_def by blast+
  have x1: "vis t \<subseteq> vis t1" "fin t \<subseteq> fin t1" "\<And>x. x \<in> vis t \<Longrightarrow> sd_D t1 x = sd_D t x" "\<And>x. x \<in> vis t \<Longrightarrow> sc_rep t1 x = sc_rep t x"
    "set newer \<inter> vis t = {}"
    using t1(3) unfolding scc_ext_def by blast+
  have s1: "scc_ext s t1 (newer @ new)" by (rule scc_ext_trans [OF t(2) t1(3)])
  have rx: "sc_rep ?t x = sc_rep t1 x" if x: "x \<in> vis s" for x
  proof (rule E(7))
    show "x \<noteq> v" using v x by blast
  qed
  have ext: "scc_ext s ?t (newer @ new)"
    using s1 unfolding scc_ext_def E(2-6) by (simp add: rx)
  have vo: "v \<in> open_nodes t" using scc_orderD(1) [OF O] by auto
  have low: "sd_D t1 (sc_rep ?t v) \<le> sd_D t (sc_rep t v)"
  proof -
    have "sc_rep t v \<in> vis t" using scc_pathsD(2) [OF P vo] by blast
    then show ?thesis using E(8) x1(3,4) t(4) by simp
  qed
  have "child_ok V succ cs v s (insert w P) ?t (newer @ new)"
    unfolding child_ok_def E(2,3,5)
  proof (intro conjI ballI)
    show "scc_inv succ (v # cs) ?t" "scc_ext s ?t (newer @ new)" "vis t1 \<subseteq> V" by (fact E(1) ext t1(4))+
    show "v \<in> vis t1" using x1(1) t(4) by blast
    show "sd_D t1 v = sd_I s + 1" using x1(3) [OF t(4)] t(5) by simp
    fix u assume u: "u \<in> insert w P"
    show "u \<in> vis t1" using u t1(5) tP x1(1) by blast
    show "u \<notin> fin t1 \<longrightarrow> sd_D t1 (sc_rep ?t v) \<le> sd_D t1 u"
    proof
      assume n: "u \<notin> fin t1"
      show "sd_D t1 (sc_rep ?t v) \<le> sd_D t1 u"
      proof (cases "u = w")
        case True
        have "w \<in> open_nodes t1" using t1(5) n True by blast
        then show ?thesis using E(9) scc_pathsD(4) [OF P1, of w] n True by simp
      next
        case False
        then have "u \<in> P" using u by blast
        then have "u \<in> vis t" "sd_D t (sc_rep t v) \<le> sd_D t u" using tP n x1(2) by blast+
        then show ?thesis using low x1(3) by simp
      qed
    qed
  next
    fix z assume z: "z \<in> set (newer @ new)"
    show "sd_D t1 (sc_rep ?t v) \<le> sd_D t1 (sc_rep ?t z)"
    proof (cases "z \<in> set newer")
      case True
      then have n: "w \<notin> fin t1" using t1(7) by auto
      have "z \<noteq> v" using True x1(5) t(4) by blast
      then have "sc_rep ?t z = sc_rep t1 z" by (rule E(7))
      then show ?thesis using E(9) [OF n] t1(6) [OF n] True by force
    next
      case False
      then have zn: "z \<in> set new" using z by simp
      then have zs: "z \<in> set (sd_SS t)" using t(2) unfolding scc_ext_def by simp
      then have zo: "z \<in> open_nodes t" "z \<noteq> v" using scc_orderD(1,2) [OF O] by auto
      then have "z \<in> vis t" "sc_rep t z \<in> vis t" using scc_pathsD(2) [OF P zo(1)] by blast+
      then show ?thesis using low tn [OF zn] E(7) [OF zo(2)] x1(3,4) by simp
    qed
  qed
  then show ?thesis using t1(1) x1(1) E(2) by auto
qed

lemma child_steps:
  assumes IH: "visits_ok V succ k" and cl: "set (succ v) \<subseteq> V" and fV: "finite V" and v: "v \<notin> vis s"
  shows "set ws \<subseteq> set (succ v) \<Longrightarrow> card (V - vis t) \<le> k \<Longrightarrow> child_ok V succ cs v s P t new \<Longrightarrow>
    \<exists>t' new'. foldM (\<lambda>w s. map_option (scc_edge v w) (if \<not> sc_visited s w then scc_visit k succ w s else Some s)) ws t = Some t' \<and>
      child_ok V succ cs v s (P \<union> set ws) t' new'"
proof (induction ws arbitrary: t P new)
  case (Cons w ws)
  have w: "w \<in> set (succ v)" "w \<in> V" using Cons.prems(1) cl by auto
  obtain t1 n1 where t1: "map_option (scc_edge v w) (if \<not> sc_visited t w then scc_visit k succ w t else Some t) = Some t1"
    "child_ok V succ cs v s (insert w P) t1 n1" "vis t \<subseteq> vis t1"
    using child_step [OF IH w(2) v w(1) Cons.prems(2,3)] by blast
  have "card (V - vis t1) \<le> card (V - vis t)" using t1(3) fV by (intro card_mono) auto
  then have K: "card (V - vis t1) \<le> k" using Cons.prems(2) by simp
  have ws: "set ws \<subseteq> set (succ v)" using Cons.prems(1) by simp
  obtain t2 n2 where "foldM (\<lambda>w s. map_option (scc_edge v w) (if \<not> sc_visited s w then scc_visit k succ w s else Some s)) ws t1 = Some t2"
    "child_ok V succ cs v s (insert w P \<union> set ws) t2 n2" using Cons.IH [OF ws K t1(2)] by blast
  moreover have "insert w P \<union> set ws = P \<union> set (w # ws)" by auto
  ultimately show ?case using t1(1) by auto
qed auto

lemma visit_end:
  assumes ok: "child_ok V succ cs v s (set (succ v)) t new" and I: "scc_inv succ cs s" and v: "v \<notin> vis s"
  shows "\<exists>new'. visit_post V succ cs v s (scc_close v t) new'"
proof -
  have t: "scc_inv succ (v # cs) t" "scc_ext s t new" "vis t \<subseteq> V" "v \<in> vis t" "sd_D t v = sd_I s + 1"
    and ch: "\<forall>w\<in>set (succ v). w \<in> vis t \<and> (w \<notin> fin t \<longrightarrow> sd_D t (sc_rep t v) \<le> sd_D t w)"
    and tn: "\<forall>z\<in>set new. sd_D t (sc_rep t v) \<le> sd_D t (sc_rep t z)"
    using ok unfolding child_ok_def by blast+
  have O: "scc_order (v # cs) t" and Os: "scc_order cs s" using t(1) I unfolding scc_inv_def by blast+
  have x: "vis s \<subseteq> vis t" "fin s \<subseteq> fin t" "sd_I s \<le> sd_I t" "\<forall>x\<in>vis s. sd_D t x = sd_D s x \<and> sc_rep t x = sc_rep s x"
    "\<forall>x\<in>vis t - vis s. sd_I s < sd_D t x" "sd_SS t = new @ sd_SS s" "set new \<inter> vis s = {}"
    using t(2) unfolding scc_ext_def by blast+
  have vs: "v \<notin> set (sd_SS t)" "v \<notin> fin t" using scc_orderD(1,2) [OF O] by auto
  show ?thesis
  proof (cases "sc_rep t v = v")
    case True
    have d: "\<forall>x\<in>set new. sd_D t v < sd_D t x"
    proof
      fix x assume n: "x \<in> set new"
      then have o: "x \<in> vis t" "x \<noteq> v" using scc_orderD(1) [OF O] x(6) vs by auto
      have "x \<notin> vis s" using n x(7) by blast
      then have "sd_I s < sd_D t x" using x(5) o(1) by blast
      moreover have "sd_D t x \<noteq> sd_D t v" using inj_onD [OF scc_orderD(4) [OF O]] o t(4) by blast
      ultimately show "sd_D t v < sd_D t x" using t(5) by simp
    qed
    have old: "\<forall>x\<in>set (sd_SS s). sd_D t x < sd_D t v"
    proof
      fix x assume "x \<in> set (sd_SS s)"
      then have xs: "x \<in> vis s" using scc_orderD(1) [OF Os] by blast
      then show "sd_D t x < sd_D t v" using x(4) scc_orderD(5) [OF Os xs] t(5) by simp
    qed
    note C = scc_close_root [OF t(1) True x(6) d old ch [unfolded True] tn [unfolded True]]
    have "scc_ext s (scc_close v t) []"
      unfolding scc_ext_def C(2-6)
    proof (intro conjI ballI)
      fix y assume y: "y \<in> vis s"
      then have "y \<notin> set new" using x(7) by blast
      then show "sc_rep (scc_close v t) y = sc_rep s y" using C(7) x(4) y by simp
      show "sd_D t y = sd_D s y" using x(4) y by blast
    next
      show "fin s \<subseteq> insert v (set new) \<union> fin t" using x(2) by blast
      show "sd_I s < sd_D t y" if "y \<in> vis t - vis s" for y using x(5) that by blast
    qed (use x in simp_all)
    moreover have "v \<in> fin (scc_close v t)" unfolding C(4) by blast
    ultimately have "visit_post V succ cs v s (scc_close v t) []" using C(1,3) t(3,4) unfolding visit_post_def by simp
    then show ?thesis by blast
  next
    case False
    note C = scc_close_keep [OF t(1) False ch]
    let ?t = "t\<lparr>sd_SS := v # sd_SS t\<rparr>"
    have e: "vis ?t = vis t" "fin ?t = fin t" by simp_all
    have "scc_ext s ?t (v # new)"
      unfolding scc_ext_def e using x v by simp
    then have "visit_post V succ cs v s (scc_close v t) (v # new)"
      using C t(3,4) tn vs(2) unfolding visit_post_def by simp
    then show ?thesis by blast
  qed
qed

lemma scc_visits:
  assumes fV: "finite V" and cl: "\<And>x. x \<in> V \<Longrightarrow> set (succ x) \<subseteq> V"
  shows "visits_ok V succ k"
proof (induction k)
  case 0
  have "v \<in> vis s" if "v \<in> V" "card (V - vis s) \<le> 0" for v s using that fV by auto
  then show ?case unfolding visits_ok_def by blast
next
  case (Suc k)
  show ?case
    unfolding visits_ok_def
  proof (intro allI impI)
    fix v s cs assume v: "v \<in> V" "v \<notin> vis s" and sV: "vis s \<subseteq> V" and K: "card (V - vis s) \<le> Suc k" and I: "scc_inv succ cs s"
      and e: "cs \<noteq> [] \<longrightarrow> v \<in> set (succ (hd cs))"
    let ?t = "scc_enter v s"
    note N = scc_enter_inv [OF I v(2) e]
    have "V - vis ?t \<subset> V - vis s" using N(2) v by blast
    then have "card (V - vis ?t) < card (V - vis s)" using fV by (intro psubset_card_mono) simp_all
    then have K1: "card (V - vis ?t) \<le> k" using K by simp
    have "scc_ext s ?t []"
      unfolding scc_ext_def N(2-4) using N(5,6,8) by auto
    moreover have "sd_D ?t v = sd_I s + 1" by (simp add: scc_enter_def)
    ultimately have ok: "child_ok V succ cs v s {} ?t []"
      using N(1,2) sV v unfolding child_ok_def by simp
    obtain t new where t: "foldM (\<lambda>w s. map_option (scc_edge v w) (if \<not> sc_visited s w then scc_visit k succ w s else Some s)) (succ v) ?t = Some t"
      "child_ok V succ cs v s (set (succ v)) t new"
      using child_steps [OF Suc cl [OF v(1)] fV v(2) subset_refl K1 ok] by auto
    then show "\<exists>t new. scc_visit (Suc k) succ v s = Some t \<and> visit_post V succ cs v s t new"
      using visit_end [OF t(2) I v(2)] by auto
  qed
qed

section \<open>The result\<close>

lemma scc_inv_clear: "scc_inv succ [] scc_clear"
proof -
  have e: "vis scc_clear = {}" "fin scc_clear = {}" "sd_SS scc_clear = []" "sd_T scc_clear = []" "sd_repNodes scc_clear = {}"
    "sc_subNodes scc_clear = (\<lambda>_. {})" "sc_rep scc_clear = (\<lambda>_. UINT_MAX)"
    by (simp_all add: sc_defs scc_clear_def info_at_def GNodeSCCInfo_def fun_eq_iff)
  show ?thesis
    unfolding scc_inv_def scc_order_def scc_paths_def scc_closed_def scc_reps_def scc_topo_def e by simp
qed

lemma scc_inv_closed:
  assumes "scc_inv succ [] s"
  shows "sd_SS s = []" "vis s = fin s"
proof -
  have O: "scc_order [] s" and P: "scc_paths succ [] s" using assms unfolding scc_inv_def by blast+
  have op: "open_nodes s = set (sd_SS s)" using scc_orderD(1) [OF O] by simp
  have "x \<notin> open_nodes s" for x
  proof (induction "sd_D s x" arbitrary: x rule: less_induct)
    case less
    show ?case
    proof
      assume x: "x \<in> open_nodes s"
      have "x \<in> set (sd_SS s)" using x op by blast
      then have n: "sc_rep s x \<noteq> x" by (rule scc_pathsD(5) [OF P])
      note r = scc_pathsD(2) [OF P x] scc_pathsD(4) [OF P x]
      have "sd_D s (sc_rep s x) \<noteq> sd_D s x" using inj_onD [OF scc_orderD(4) [OF O]] n r(1) x by blast
      then show False using less [of "sc_rep s x"] r by simp
    qed
  qed
  then have "open_nodes s = {}" by blast
  then show "sd_SS s = []" "vis s = fin s" using op scc_orderD(3) [OF O] by auto
qed

lemma scc_roots:
  assumes cl: "\<And>x. x \<in> V \<Longrightarrow> set (succ x) \<subseteq> V" and fV: "finite V" and k: "card V \<le> k"
  shows "set ns \<subseteq> V \<Longrightarrow> scc_inv succ [] s \<Longrightarrow> vis s \<subseteq> V \<Longrightarrow>
    \<exists>t. foldM (scc_root k succ) ns s = Some t \<and> scc_inv succ [] t \<and> vis t \<subseteq> V \<and> vis s \<union> set ns \<subseteq> vis t"
proof (induction ns arbitrary: s)
  case (Cons n ns)
  have "\<exists>t. scc_root k succ n s = Some t \<and> scc_inv succ [] t \<and> vis t \<subseteq> V \<and> insert n (vis s) \<subseteq> vis t"
  proof (cases "n \<in> vis s")
    case True
    then show ?thesis using Cons.prems by (simp add: scc_root_def)
  next
    case False
    have O: "scc_order [] s" using Cons.prems(2) unfolding scc_inv_def by blast
    have "card (V - vis s) \<le> card V" using fV by (intro card_mono) auto
    then have K: "card (V - vis s) \<le> k" using k by simp
    have "n \<in> V" using Cons.prems(1) by simp
    moreover have "visits_ok V succ k" by (rule scc_visits [OF fV]) (rule cl)
    ultimately obtain t new where t: "scc_visit k succ n s = Some t" "visit_post V succ [] n s t new"
      using False K Cons.prems(2,3) unfolding visits_ok_def by blast
    have "scc_root k succ n s = Some t" using t(1) scc_orderD(7) [OF O False] False by (simp add: scc_root_def)
    then show ?thesis using t(2) unfolding visit_post_def scc_ext_def by blast
  qed
  then obtain t where t: "scc_root k succ n s = Some t" "scc_inv succ [] t" "vis t \<subseteq> V" "insert n (vis s) \<subseteq> vis t" by blast
  have "set ns \<subseteq> V" using Cons.prems(1) by simp
  from Cons.IH [OF this t(2,3)] show ?case using t(1,4) by auto
qed auto

lemma scc_find_inv:
  assumes "\<forall>n\<in>set nodes. set (succ n) \<subseteq> set nodes"
  shows "\<exists>s. scc_find succ nodes = Some s \<and> scc_inv succ [] s \<and> fin s = set nodes"
proof -
  have e: "vis scc_clear = {}" by (simp add: sc_visited_def scc_clear_def info_at_def GNodeSCCInfo_def)
  have "card (set nodes) \<le> Suc (length nodes)" using card_length [of nodes] by simp
  from scc_roots [of "set nodes" succ, OF _ _ this _ scc_inv_clear, of nodes] assms
  obtain s where "scc_find succ nodes = Some s" "scc_inv succ [] s" "vis s \<subseteq> set nodes" "set nodes \<subseteq> vis s"
    unfolding scc_find_def e by auto
  then show ?thesis using scc_inv_closed(2) by blast
qed

lemma visited_info: "sc_visited s n \<Longrightarrow> sd_info s n = Some (info_at s n)"
  by (auto simp: sc_visited_def info_at_def GNodeSCCInfo_def split: option.splits)

lemma scc_queries:
  assumes "scc_inv succ [] s" and "fin s = set nodes" and "\<forall>n\<in>set nodes. n < UINT_MAX" and n: "n \<in> set nodes"
    and "\<forall>n\<in>set nodes. set (succ n) \<subseteq> set nodes"
  shows "repNode s n = Some (sc_rep s n)" "subNodes s n = Some (sc_subNodes s n)"
    "sc_rep s n \<in> comp_of succ n" "sc_rep s n \<in> set nodes" "m \<in> comp_of succ n \<longleftrightarrow> m \<in> set nodes \<and> sc_rep s m = sc_rep s n"
    "sc_subNodes s (sc_rep s n) = comp_of succ n" "finite (comp_of succ n)"
    "n \<in> sd_repNodes s \<longleftrightarrow> sc_rep s n = n \<and> comp_of succ n \<noteq> {n}"
proof -
  have C: "scc_closed succ s" and R: "scc_reps succ s" using assms(1) unfolding scc_inv_def by blast+
  have f: "x \<in> fin s" if "x \<in> set nodes" for x using that assms(2) by simp
  have i: "sd_info s n = Some (info_at s n)"
    using visited_info [of s n] scc_inv_closed(2) [OF assms(1)] f [OF n] by blast
  show r: "sc_rep s n \<in> comp_of succ n" by (rule scc_repsD(1) [OF R f [OF n]])
  have cn: "comp_of succ n \<subseteq> set nodes" using fin_comp [OF C f [OF n]] assms(2) by simp
  show rn: "sc_rep s n \<in> set nodes" using r cn by blast
  have "sc_rep s n \<noteq> UINT_MAX" using rn assms(3) by auto
  then show "repNode s n = Some (sc_rep s n)" using i by (simp add: repNode_def sc_rep_def)
  show "subNodes s n = Some (sc_subNodes s n)" using i by (simp add: subNodes_def sc_subNodes_def)
  show "m \<in> comp_of succ n \<longleftrightarrow> m \<in> set nodes \<and> sc_rep s m = sc_rep s n"
  proof
    assume m: "m \<in> comp_of succ n"
    then show "m \<in> set nodes \<and> sc_rep s m = sc_rep s n" using scc_repsD(2) [OF R f [OF n] m] cn by blast
  next
    assume m: "m \<in> set nodes \<and> sc_rep s m = sc_rep s n"
    then have "sc_rep s n \<in> comp_of succ m" using scc_repsD(1) [OF R f, of m] by simp
    then show "m \<in> comp_of succ n" using comp_eq r comp_sym by blast
  qed
  have rr: "sc_rep s (sc_rep s n) = sc_rep s n" by (rule scc_repsD(2) [OF R f [OF n] r])
  then show "sc_subNodes s (sc_rep s n) = comp_of succ n" using scc_repsD(4) [OF R f [OF rn]] comp_eq [OF r] by simp
  show "finite (comp_of succ n)" using cn finite_subset by blast
  show "n \<in> sd_repNodes s \<longleftrightarrow> sc_rep s n = n \<and> comp_of succ n \<noteq> {n}" by (rule scc_repsD(7) [OF R f [OF n]])
qed

lemma cycle_comp: "(n, n) \<in> (sc_edges succ)\<^sup>+ \<longleftrightarrow> comp_of succ n \<noteq> {n} \<or> n \<in> set (succ n)"
proof
  assume "(n, n) \<in> (sc_edges succ)\<^sup>+"
  then obtain m where m: "(n, m) \<in> sc_edges succ" "(m, n) \<in> (sc_edges succ)\<^sup>*" by (meson tranclD)
  then have "m \<in> comp_of succ n" by (auto simp: comp_of_def)
  then show "comp_of succ n \<noteq> {n} \<or> n \<in> set (succ n)" using m(1) by auto
next
  assume h: "comp_of succ n \<noteq> {n} \<or> n \<in> set (succ n)"
  show "(n, n) \<in> (sc_edges succ)\<^sup>+"
  proof (cases "n \<in> set (succ n)")
    case False
    then obtain m where "m \<in> comp_of succ n" "m \<noteq> n" using h comp_refl [of n succ] by blast
    then have "(n, m) \<in> (sc_edges succ)\<^sup>+" "(m, n) \<in> (sc_edges succ)\<^sup>*" by (auto simp: comp_of_def rtrancl_eq_or_trancl)
    then show ?thesis by (rule trancl_rtrancl_trancl)
  qed auto
qed

end
