(* ===== verification/CallGraphSCC.thy ===== *)
theory CallGraphSCC
  imports SCCResult TCTResult
begin

text \<open>
  What the detection of strongly connected components gives, and what the thread analyses use of
  it: with the components of the call graph, calls between different components go down in some
  order, which is what bounds the calling contexts.
\<close>

definition scc_example :: "nat \<Rightarrow> nat list" where
  "scc_example n = (if n = 1 then [2] else if n = 2 then [3] else if n = 3 then [4, 1] else if n = 5 then [5, 1] else [])"

lemma scc_cycle:
  assumes "scc_inv succ [] s" and "fin s = set ns" and "\<forall>n\<in>set ns. n < UINT_MAX" and n: "n \<in> set ns"
    and "\<forall>n\<in>set ns. set (succ n) \<subseteq> set ns"
  shows "isInCycle succ s n = Some ((n, n) \<in> (sc_edges succ)\<^sup>+)"
proof -
  note Q = scc_queries [OF assms(1,2,3) _ assms(5)]
  let ?r = "sc_rep s n"
  have sub: "subNodes s ?r = Some (comp_of succ n)" using Q(2) [OF Q(4) [OF n]] Q(6) [OF n] by simp
  have "1 < card (comp_of succ n) \<longleftrightarrow> comp_of succ n \<noteq> {n}"
  proof
    assume "comp_of succ n \<noteq> {n}"
    then obtain m where "m \<in> comp_of succ n" "m \<noteq> n" using comp_refl [of n succ] by blast
    then have "card {m, n} \<le> card (comp_of succ n)" using Q(7) [OF n] by (intro card_mono) auto
    then show "1 < card (comp_of succ n)" using \<open>m \<noteq> n\<close> by simp
  qed auto
  moreover have "?r \<in> set (succ ?r) \<longleftrightarrow> n \<in> set (succ n)" if "comp_of succ n = {n}" using Q(3) [OF n] that by simp
  ultimately have "1 < card (comp_of succ n) \<or> ?r \<in> set (succ ?r) \<longleftrightarrow> comp_of succ n \<noteq> {n} \<or> n \<in> set (succ n)" by blast
  then show ?thesis using Q(1) [OF n] sub by (simp add: isInCycle_def cycle_comp)
qed

lemma scc_cycle_unknown:
  assumes "scc_inv succ [] s" and "n \<notin> fin s" and "succ n = []"
  shows "isInCycle succ s n \<noteq> Some True" and "(n, n) \<notin> (sc_edges succ)\<^sup>+"
proof -
  have O: "scc_order [] s" and R: "scc_reps succ s" using assms(1) unfolding scc_inv_def by blast+
  have no: "(n, m) \<notin> sc_edges succ" for m using assms(3) by simp
  then have c: "comp_of succ n = {n}" unfolding comp_of_def by (auto elim: converse_rtranclE)
  show "(n, n) \<notin> (sc_edges succ)\<^sup>+" using no by (meson tranclD)
  have "n \<notin> vis s" using assms(2) scc_inv_closed(2) [OF assms(1)] by simp
  then have "sc_rep s n = UINT_MAX" by (rule scc_orderD(7) [OF O])
  then have "repNode s n = None \<or> repNode s n = Some n"
    by (auto simp: repNode_def sc_rep_def info_at_def split: option.splits)
  moreover have "card X \<le> 1" if "subNodes s n = Some X" for X
  proof -
    have "X \<subseteq> {n}" using that scc_repsD(3) [OF R, of n] unfolding c
      by (auto simp: subNodes_def sc_subNodes_def info_at_def split: option.splits)
    then show ?thesis using card_mono [of "{n}" X] by simp
  qed
  ultimately show "isInCycle succ s n \<noteq> Some True" using assms(3) by (fastforce simp: isInCycle_def split: option.splits)
qed

text \<open>C2: The search for strongly connected components ends with the fuel of one more than the number
  of nodes. Two nodes get the same representative exactly when each reaches the other, a node is
  in a cycle exactly when it reaches itself by at least one edge, and the nodes listed with a
  representative are its component; none of the assertions of the queries fails.\<close>

theorem scc_find_components:
  assumes "\<forall>n\<in>set ns. set (succ n) \<subseteq> set ns" and "\<forall>n\<in>set ns. n < UINT_MAX"
  shows "\<exists>s. scc_find succ ns = Some s \<and> (\<forall>n\<in>set ns.
    (\<exists>r. repNode s n = Some r \<and> subNodes s r = Some {m. (m, n) \<in> (sc_edges succ)\<^sup>* \<and> (n, m) \<in> (sc_edges succ)\<^sup>*}) \<and>
    (\<forall>m\<in>set ns. repNode s m = repNode s n \<longleftrightarrow> (m, n) \<in> (sc_edges succ)\<^sup>* \<and> (n, m) \<in> (sc_edges succ)\<^sup>*) \<and>
    isInCycle succ s n = Some ((n, n) \<in> (sc_edges succ)\<^sup>+))"
proof -
  obtain s where s: "scc_find succ ns = Some s" "scc_inv succ [] s" "fin s = set ns" using scc_find_inv [OF assms(1)] by blast
  have c: "comp_of succ n = {m. (m, n) \<in> (sc_edges succ)\<^sup>* \<and> (n, m) \<in> (sc_edges succ)\<^sup>*}" for n by (auto simp: comp_of_def)
  have "(\<exists>r. repNode s n = Some r \<and> subNodes s r = Some (comp_of succ n)) \<and>
      (\<forall>m\<in>set ns. repNode s m = repNode s n \<longleftrightarrow> m \<in> comp_of succ n) \<and> isInCycle succ s n = Some ((n, n) \<in> (sc_edges succ)\<^sup>+)"
    if n: "n \<in> set ns" for n
  proof -
    note Q = scc_queries [OF s(2,3) assms(2) _ assms(1)]
    let ?r = "sc_rep s n"
    have sub: "subNodes s ?r = Some (comp_of succ n)" using Q(2) [OF Q(4) [OF n]] Q(6) [OF n] by simp
    have "repNode s m = repNode s n \<longleftrightarrow> m \<in> comp_of succ n" if "m \<in> set ns" for m
      using Q(1) [OF n] Q(1) [OF that] Q(5) [OF n, of m] that by simp
    then show ?thesis using Q(1) [OF n] sub scc_cycle [OF s(2,3) assms(2) n assms(1)] by blast
  qed
  then show ?thesis using s(1) unfolding c by blast
qed

theorem scc_find_components_witness:
  "\<exists>s. scc_find scc_example [1, 2, 3, 4, 5] = Some s \<and> repNode s 1 = repNode s 3 \<and> isInCycle scc_example s 5 = Some True"
proof -
  let ?E = "sc_edges scc_example"
  have e: "(1, 2) \<in> ?E" "(2, 3) \<in> ?E" "(3, 1) \<in> ?E" "(5, 5) \<in> ?E" by (simp_all add: scc_example_def)
  have p: "(3, 1) \<in> ?E\<^sup>*" "(1, 3) \<in> ?E\<^sup>*" "(5, 5) \<in> ?E\<^sup>+"
    using e rtrancl_into_rtrancl [OF r_into_rtrancl [OF e(1)] e(2)] by auto
  have "\<forall>n\<in>set [1, 2, 3, 4, 5]. set (scc_example n) \<subseteq> set [1, 2, 3, 4, 5]"
    "\<forall>n\<in>set [1, 2, 3, 4, 5 :: nat]. n < UINT_MAX"
    by (simp_all add: scc_example_def UINT_MAX_def)
  from scc_find_components [OF this] obtain s where s: "scc_find scc_example [1, 2, 3, 4, 5] = Some s"
    "\<forall>n\<in>set [1, 2, 3, 4, 5]. (\<forall>m\<in>set [1, 2, 3, 4, 5]. repNode s m = repNode s n \<longleftrightarrow> (m, n) \<in> ?E\<^sup>* \<and> (n, m) \<in> ?E\<^sup>*) \<and>
      isInCycle scc_example s n = Some ((n, n) \<in> ?E\<^sup>+)" by blast
  have "repNode s 1 = repNode s 3 \<longleftrightarrow> (1, 3) \<in> ?E\<^sup>* \<and> (3, 1) \<in> ?E\<^sup>*" using s(2) by simp
  moreover have "isInCycle scc_example s 5 = Some ((5, 5) \<in> ?E\<^sup>+)" using s(2) by simp
  ultimately show ?thesis using s(1) p by simp
qed

text \<open>The stack of the search lists one node of each component, its representative, and no node
  lower in the stack reaches one above it, so that taking nodes from the stack gives a topological order
  of the components. The set of representatives holds those of components with several nodes only.\<close>

theorem scc_find_topological:
  assumes "\<forall>n\<in>set ns. set (succ n) \<subseteq> set ns" and "\<forall>n\<in>set ns. n < UINT_MAX"
  shows "\<exists>s. scc_find succ ns = Some s \<and> distinct (sd_T s) \<and> set (sd_T s) = {n\<in>set ns. repNode s n = Some n} \<and>
    (\<forall>i j. i < j \<longrightarrow> j < length (sd_T s) \<longrightarrow> (sd_T s ! j, sd_T s ! i) \<notin> (sc_edges succ)\<^sup>*) \<and>
    (\<forall>n\<in>set ns. n \<in> sd_repNodes s \<longleftrightarrow> repNode s n = Some n \<and> subNodes s n \<noteq> Some {n})"
proof -
  obtain s where s: "scc_find succ ns = Some s" "scc_inv succ [] s" "fin s = set ns" using scc_find_inv [OF assms(1)] by blast
  have T: "set (sd_T s) = {n\<in>set ns. sc_rep s n = n}" "sorted_wrt (\<lambda>a b. (b, a) \<notin> (sc_edges succ)\<^sup>*) (sd_T s)"
    using s(2,3) unfolding scc_inv_def scc_topo_def by auto
  note Q = scc_queries [OF s(2,3) assms(2) _ assms(1)]
  have "distinct (sd_T s)"
  proof (rule distinct_conv_nth [THEN iffD2], intro allI impI)
    fix i j assume "i < length (sd_T s)" "j < length (sd_T s)" "i \<noteq> j"
    then show "sd_T s ! i \<noteq> sd_T s ! j"
      using sorted_wrt_nth_less [OF T(2), of i j] sorted_wrt_nth_less [OF T(2), of j i] by (cases "i < j") auto
  qed
  moreover have "set (sd_T s) = {n\<in>set ns. repNode s n = Some n}" using T(1) Q(1) by auto
  moreover have "n \<in> sd_repNodes s \<longleftrightarrow> repNode s n = Some n \<and> subNodes s n \<noteq> Some {n}" if n: "n \<in> set ns" for n
    using Q(1,2,8) [OF n] Q(6) [OF n] by auto
  ultimately show ?thesis using s(1) sorted_wrt_nth_less [OF T(2)] by blast
qed

theorem scc_find_topological_witness:
  "\<exists>s. scc_find scc_example [1, 2, 3, 4, 5] = Some s \<and> distinct (sd_T s)"
  using scc_find_topological [of "[1, 2, 3, 4, 5]" scc_example] by (auto simp: scc_example_def UINT_MAX_def)

section \<open>The call graph\<close>

text \<open>
  The constructor of the thread creation tree runs the detection on the call graph, whose edges
  are the children of a function, forks included; the two questions that the analyses ask of it
  are fields of the program.
\<close>

abbreviation callees :: "program \<Rightarrow> func \<Rightarrow> func list" where
  "callees P f \<equiv> map e_dst (out_edges P f)"

definition inSameCallGraphSCC :: "scc_detection \<Rightarrow> func \<Rightarrow> func \<Rightarrow> bool" where
  "inSameCallGraphSCC s f g = (repNode s f = repNode s g)"

definition with_scc :: "program \<Rightarrow> scc_detection \<Rightarrow> program" where
  "with_scc P s = P\<lparr>same_scc := inSameCallGraphSCC s, in_cycle := \<lambda>f. isInCycle (callees P) s f = Some True\<rparr>"

text \<open>The number of functions that one reaches does not grow along calls.\<close>

definition reach_rank :: "(nat \<Rightarrow> nat list) \<Rightarrow> nat \<Rightarrow> nat" where
  "reach_rank succ f = card {g. (f, g) \<in> (sc_edges succ)\<^sup>*}"

lemma reached_finite:
  assumes "\<forall>n\<in>set ns. set (succ n) \<subseteq> set ns" and "f \<in> set ns"
  shows "finite {g. (f, g) \<in> (sc_edges succ)\<^sup>*}"
  by (rule finite_subset [of _ "set ns"]) (use closed_reach [of "set ns" succ f] assms in auto)

lemma reach_rank_edge:
  assumes "\<forall>n\<in>set ns. set (succ n) \<subseteq> set ns" and "f \<in> set ns" and "(f, g) \<in> sc_edges succ"
  shows "reach_rank succ g \<le> reach_rank succ f" and "(g, f) \<notin> (sc_edges succ)\<^sup>* \<Longrightarrow> reach_rank succ g < reach_rank succ f"
proof -
  have sub: "{h. (g, h) \<in> (sc_edges succ)\<^sup>*} \<subseteq> {h. (f, h) \<in> (sc_edges succ)\<^sup>*}"
    using converse_rtrancl_into_rtrancl [OF assms(3)] by (simp add: Collect_mono)
  note fin = reached_finite [OF assms(1,2)]
  show "reach_rank succ g \<le> reach_rank succ f" unfolding reach_rank_def by (rule card_mono [OF fin sub])
  assume "(g, f) \<notin> (sc_edges succ)\<^sup>*"
  then have "{h. (g, h) \<in> (sc_edges succ)\<^sup>*} \<subset> {h. (f, h) \<in> (sc_edges succ)\<^sup>*}" using sub by blast
  then show "reach_rank succ g < reach_rank succ f" unfolding reach_rank_def by (rule psubset_card_mono [OF fin])
qed

lemma calls_of_cong: "calls_of (with_scc P s) = calls_of P"
  by (simp add: fun_eq_iff calls_of_def with_scc_def)

text \<open>A call graph as the builder leaves it: the functions are known, the callee of an edge is
  one of them and a call site of an edge lies in the caller.\<close>

definition call_graph_ok :: "program \<Rightarrow> func list \<Rightarrow> bool" where
  "call_graph_ok P fs \<longleftrightarrow> (\<forall>f\<in>set fs. set (callees P f) \<subseteq> set fs \<and> f < UINT_MAX) \<and> (\<forall>f. f \<notin> set fs \<longrightarrow> out_edges P f = []) \<and>
     (\<forall>f e cs. (e, cs) \<in> set (calls_of P f) \<longrightarrow> fun_of P cs = f)"

text \<open>Calls never climb: the number of functions that a function reaches is a rank that no call
  increases and that every call into another component, the only ones that extend a calling context,
  decreases.\<close>

lemma scc_calls_ranked:
  assumes "call_graph_ok P fs"
  shows "\<exists>s. scc_find (callees P) fs = Some s \<and> calls_ranked (with_scc P s) (reach_rank (callees P)) \<and>
    (\<forall>f. in_cycle (with_scc P s) f \<longleftrightarrow> (f, f) \<in> (sc_edges (callees P))\<^sup>+)"
proof -
  have cl: "\<forall>f\<in>set fs. set (callees P f) \<subseteq> set fs" "\<forall>f\<in>set fs. f < UINT_MAX" and out: "\<And>f. f \<notin> set fs \<Longrightarrow> out_edges P f = []"
    and at: "\<And>f e cs. (e, cs) \<in> set (calls_of P f) \<Longrightarrow> fun_of P cs = f"
    using assms unfolding call_graph_ok_def by auto
  obtain s where s: "scc_find (callees P) fs = Some s" "scc_inv (callees P) [] s" "fin s = set fs"
    using scc_find_inv [OF cl(1)] by blast
  have "(\<Union>f. set (calls_of P f)) = (\<Union>f\<in>set fs. set (calls_of P f))"
  proof -
    have "set (calls_of P f) = {}" if "f \<notin> set fs" for f using out [OF that] by (simp add: calls_of_def)
    then have "x \<in> (\<Union>f\<in>set fs. set (calls_of P f))" if "x \<in> set (calls_of P f)" for x f using that by (cases "f \<in> set fs") auto
    then show ?thesis by fast
  qed
  then have fin: "finite (\<Union>f. set (calls_of P f))" by simp
  have "reach_rank (callees P) (e_dst e) \<le> reach_rank (callees P) f \<and>
      (\<not> same_scc (with_scc P s) (fun_of P cs) (e_dst e) \<longrightarrow> reach_rank (callees P) (e_dst e) < reach_rank (callees P) f)"
    if c: "(e, cs) \<in> set (calls_of P f)" for f e cs
  proof -
    have e: "e \<in> set (out_edges P f)" using c by (auto simp: calls_of_def)
    then have f: "f \<in> set fs" using out by fastforce
    have ed: "(f, e_dst e) \<in> sc_edges (callees P)" using e by auto
    have g: "e_dst e \<in> set fs" using cl(1) f e by auto
    note Q = scc_queries [OF s(2,3) cl(2) f cl(1)] and G = scc_queries [OF s(2,3) cl(2) g cl(1)]
    have "(e_dst e, f) \<notin> (sc_edges (callees P))\<^sup>*" if n: "\<not> same_scc (with_scc P s) (fun_of P cs) (e_dst e)"
    proof
      assume "(e_dst e, f) \<in> (sc_edges (callees P))\<^sup>*"
      then have "e_dst e \<in> comp_of (callees P) f" using ed by (auto simp: comp_of_def)
      then have "repNode s f = repNode s (e_dst e)" using Q(5) Q(1) G(1) by simp
      then show False using n at [OF c] by (simp add: with_scc_def inSameCallGraphSCC_def)
    qed
    then show ?thesis using reach_rank_edge [OF cl(1) f ed] by blast
  qed
  then have "calls_ranked (with_scc P s) (reach_rank (callees P))"
    unfolding calls_ranked_def calls_of_cong using fin by (auto simp: with_scc_def)
  moreover have "in_cycle (with_scc P s) f \<longleftrightarrow> (f, f) \<in> (sc_edges (callees P))\<^sup>+" for f
  proof (cases "f \<in> set fs")
    case True
    then show ?thesis using scc_cycle [OF s(2,3) cl(2) True cl(1)] by (simp add: with_scc_def)
  next
    case False
    then show ?thesis using scc_cycle_unknown [OF s(2), of f] s(3) out [OF False] by (simp add: with_scc_def)
  qed
  ultimately show ?thesis using s(1) by blast
qed

lemma ready_cong:
  "calls_finite (with_scc P s) = calls_finite P" "fork_resolved (with_scc P s) = fork_resolved P"
  "loops_local (with_scc P s) = loops_local P" "fork_edges (with_scc P s) = fork_edges P"
  "fork_sites (with_scc P s) = fork_sites P" "entry_funs (with_scc P s) = entry_funs P"
    and fun_callers_cong: "fun_callers (with_scc P s) = fun_callers P"
proof -
  have "callers_of (with_scc P s) = callers_of P" by (simp add: fun_eq_iff callers_of_def with_scc_def)
  then show "calls_finite (with_scc P s) = calls_finite P" "fun_callers (with_scc P s) = fun_callers P"
    by (simp_all add: calls_finite_def fun_callers_def fun_eq_iff with_scc_def)
  show "fork_resolved (with_scc P s) = fork_resolved P" by (simp add: fun_eq_iff fork_resolved_def calls_of_cong)
qed (simp_all add: loops_local_def tct_getLoop_def entry_funs_def with_scc_def)

lemma built_nodes:
  assumes "tct_ready P rt rk" "build P = Some (Some t)"
  shows "bij_betw (node_key t) {..<length (tctNodes t)} (fst ` program_threads P)"
proof -
  have "keys_ok t" using built(1) [OF assms] by (simp add: tct_shape_def)
  then have "inj_on (node_key t) {..<length (tctNodes t)}" using node_key_inj by (auto simp: inj_on_def)
  moreover have "fst ` program_threads P = node_key t ` {..<length (tctNodes t)}"
    using build_spec [OF assms(1)] assms(2) by auto
  ultimately show ?thesis by (simp add: bij_betw_def)
qed

text \<open>On a finite call graph the detection of components ends, and with its answers to the questions
  whether two functions are in one component and whether a function is in a cycle the thread creation tree
  is built: recursion does not make the calling contexts grow without bound. The threads of the
  tree are those of the reachable procedures, and the join sites recorded as recursive are those
  in a function that a function on a cycle of the call graph calls, directly or not.\<close>

theorem scc_build:
  assumes "call_graph_ok P fs" and "calls_finite P" and "fork_resolved P rt" and "loops_local P"
    and "\<forall>i\<in>set (fork_sites P). fork_edges P i \<noteq> None" and "entry_funs P \<noteq> {}"
  shows "\<exists>s t. scc_find (callees P) fs = Some s \<and> build (with_scc P s) = Some (Some t) \<and>
    bij_betw (node_key t) {..<length (tctNodes t)} (fst ` program_threads (with_scc P s)) \<and>
    set (inRecurJoinSites t) = {j \<in> set (join_sites P).
      \<exists>f\<in>reach (fun_callers P) {fun_of P j}. (f, f) \<in> (sc_edges (callees P))\<^sup>+}"
proof -
  obtain s where s: "scc_find (callees P) fs = Some s" "calls_ranked (with_scc P s) (reach_rank (callees P))"
    "\<forall>f. in_cycle (with_scc P s) f \<longleftrightarrow> (f, f) \<in> (sc_edges (callees P))\<^sup>+"
    using scc_calls_ranked [OF assms(1)] by blast
  have R: "tct_ready (with_scc P s) rt (reach_rank (callees P))" unfolding tct_ready_def ready_cong using assms s(2) by simp
  from build_spec [OF R] obtain t where t: "build (with_scc P s) = Some (Some t)" by blast
  have "bij_betw (node_key t) {..<length (tctNodes t)} (fst ` program_threads (with_scc P s))"
    using built_nodes [OF R t] .
  moreover have "set (inRecurJoinSites t) = {j \<in> set (join_sites P).
      \<exists>f\<in>reach (fun_callers P) {fun_of P j}. (f, f) \<in> (sc_edges (callees P))\<^sup>+}"
    unfolding built(4) [OF R t] cycle_site_def fun_callers_cong using s(3) by (simp add: with_scc_def)
  ultimately show ?thesis using s(1) t by blast
qed

theorem scc_build_witness:
  "\<exists>s t. scc_find (callees nested_fork) [0, 1, 2] = Some s \<and> build (with_scc nested_fork s) = Some (Some t)"
proof -
  have g: "call_graph_ok nested_fork [0, 1, 2]"
    unfolding call_graph_ok_def nested_fork_simps
    by (simp add: main_fork_def late_fork_def loop_fork_def UINT_MAX_def) (simp add: nested_fork_def)
  have "calls_finite nested_fork" "fork_resolved nested_fork nested_routine" "loops_local nested_fork"
    "\<forall>i\<in>set (fork_sites nested_fork). fork_edges nested_fork i \<noteq> None" "entry_funs nested_fork \<noteq> {}"
    using nested_fork_ready unfolding tct_ready_def by blast+
  from scc_build [OF g this] show ?thesis by blast
qed

end
