(* ===== verification/PCG.thy ===== *)
theory PCG
  imports IR WorkList
begin

text \<open>
  The procedure-level analysis \<open>PCG\<close> of \<open>include/MTA/PCG.h\<close> and \<open>lib/MTA/PCG.cpp\<close>: which
  functions may spawn a thread, which may run in a spawned thread, which may be called after a
  thread was spawned, and what may run in parallel by that.
\<close>

section \<open>State\<close>

text \<open>What the analysis reads of LLVM besides the program. An \<open>invoke\<close> is no \<open>CallInst\<close>, which is all \<open>is_call\<close> holds for.\<close>

record pcg_env =
  pe_decl :: "func \<Rightarrow> bool"
  pe_forked :: "inst \<Rightarrow> func option"
  pe_insts :: "bb \<Rightarrow> inst list"
  pe_invoke :: "inst \<Rightarrow> bool"

record pcg =
  spawners :: "func std_set"
  spawnees :: "func std_set"
  followers :: "func std_set"
  mhpfuns :: "func std_set"
  spawnCallSites :: "inst std_set"

definition pcg_new :: pcg where
  "pcg_new = \<lparr>spawners = [], spawnees = [], followers = [], mhpfuns = [], spawnCallSites = []\<rparr>"

definition isSpawnerFun :: "pcg \<Rightarrow> func \<Rightarrow> bool" where
  "isSpawnerFun s f = set_find f (spawners s)"

definition isSpawneeFun :: "pcg \<Rightarrow> func \<Rightarrow> bool" where
  "isSpawneeFun s f = set_find f (spawnees s)"

definition isFollowerFun :: "pcg \<Rightarrow> func \<Rightarrow> bool" where
  "isFollowerFun s f = set_find f (followers s)"

definition addSpawnerFun :: "pcg_env \<Rightarrow> func \<Rightarrow> pcg \<Rightarrow> pcg" where
  "addSpawnerFun E f s = (if pe_decl E f then s else s\<lparr>spawners := set_insert f (spawners s)\<rparr>)"

definition addSpawneeFun :: "pcg_env \<Rightarrow> func \<Rightarrow> pcg \<Rightarrow> pcg" where
  "addSpawneeFun E f s = (if pe_decl E f then s else s\<lparr>spawnees := set_insert f (spawnees s)\<rparr>)"

definition addFollowerFun :: "pcg_env \<Rightarrow> func \<Rightarrow> pcg \<Rightarrow> pcg" where
  "addFollowerFun E f s = (if pe_decl E f then s else s\<lparr>followers := set_insert f (followers s)\<rparr>)"

definition addSpawnsite :: "inst \<Rightarrow> pcg \<Rightarrow> pcg" where
  "addSpawnsite i s = s\<lparr>spawnCallSites := set_insert i (spawnCallSites s)\<rparr>"

definition isSpawnsite :: "pcg \<Rightarrow> inst \<Rightarrow> bool" where
  "isSpawnsite s i = set_find i (spawnCallSites s)"

section \<open>Initial spawners and spawnees\<close>

text \<open>A fork whose routine is not a known function only gives a warning.\<close>

definition pcg_fork :: "pcg_env \<Rightarrow> program \<Rightarrow> func \<Rightarrow> inst \<Rightarrow> pcg \<Rightarrow> pcg" where
  "pcg_fork E P f i s = (if td_fork P i then (case pe_forked E i of None \<Rightarrow> s
     | Some g \<Rightarrow> (addSpawnsite i s)\<lparr>spawners := set_insert f (spawners s), spawnees := set_insert g (spawnees s)\<rparr>) else s)"

definition initFromThreadAPI :: "pcg_env \<Rightarrow> program \<Rightarrow> pcg \<Rightarrow> pcg" where
  "initFromThreadAPI E P = fold (\<lambda>f. fold (pcg_fork E P f) (fun_insts P f)) (mod_funs P)"

section \<open>Searches on the call graph\<close>

type_synonym pcg_search = "pcg \<times> func fifo"

text \<open>The work list starts with all elements of a set.\<close>

definition pcg_start :: "func std_set \<Rightarrow> func fifo" where
  "pcg_start fs = fold (\<lambda>f w. snd (fifo_push f w)) fs fifo_new"

definition spawner_edge :: "pcg_env \<Rightarrow> cg_edge \<Rightarrow> pcg_search \<Rightarrow> pcg_search" where
  "spawner_edge E e = (\<lambda>(s, w). let caller = e_src e;
     (s1, w1) = (if \<not> isSpawnerFun s caller then (addSpawnerFun E caller s, snd (fifo_push caller w)) else (s, w))
     in (fold addSpawnsite (e_indirect e) (fold addSpawnsite (e_direct e) s1), w1))"

definition spawner_step :: "pcg_env \<Rightarrow> program \<Rightarrow> pcg_search \<Rightarrow> pcg_search" where
  "spawner_step E P = (\<lambda>(s, w). case fifo_pop w of None \<Rightarrow> (s, w)
     | Some (f, w1) \<Rightarrow> fold (spawner_edge E) (in_edges P f) (s, w1))"

definition collectSpawners :: "pcg_env \<Rightarrow> program \<Rightarrow> pcg \<Rightarrow> pcg option" where
  "collectSpawners E P s = map_option fst
     (while_option (\<lambda>(s, w). \<not> fifo_empty w) (spawner_step E P) (s, pcg_start (spawners s)))"

definition spawnee_edge :: "pcg_env \<Rightarrow> cg_edge \<Rightarrow> pcg_search \<Rightarrow> pcg_search" where
  "spawnee_edge E e = (\<lambda>(s, w). if \<not> isSpawneeFun s (e_dst e)
     then (addSpawneeFun E (e_dst e) s, snd (fifo_push (e_dst e) w)) else (s, w))"

definition spawnee_step :: "pcg_env \<Rightarrow> program \<Rightarrow> pcg_search \<Rightarrow> pcg_search" where
  "spawnee_step E P = (\<lambda>(s, w). case fifo_pop w of None \<Rightarrow> (s, w)
     | Some (f, w1) \<Rightarrow> fold (spawnee_edge E) (out_edges P f) (s, w1))"

definition collectSpawnees :: "pcg_env \<Rightarrow> program \<Rightarrow> pcg \<Rightarrow> pcg option" where
  "collectSpawnees E P s = map_option fst
     (while_option (\<lambda>(s, w). \<not> fifo_empty w) (spawnee_step E P) (s, pcg_start (spawnees s)))"

section \<open>Followers\<close>

definition follower_inst :: "pcg_env \<Rightarrow> program \<Rightarrow> inst \<Rightarrow> pcg \<Rightarrow> pcg" where
  "follower_inst E P i s = (if (is_call P i \<or> pe_invoke E i) \<and> \<not> isSpawnsite s i then
     (case call_edges P i of None \<Rightarrow> s | Some es \<Rightarrow> fold (\<lambda>e. addFollowerFun E (e_dst e)) es s) else s)"

record bb_search =
  bs_pcg :: pcg
  bs_visited :: "bb set"
  bs_work :: "bb fifo"

definition bb_push :: "bb \<Rightarrow> bb_search \<Rightarrow> bb_search" where
  "bb_push b s = (if b \<notin> bs_visited s
     then s\<lparr>bs_visited := insert b (bs_visited s), bs_work := snd (fifo_push b (bs_work s))\<rparr> else s)"

definition bb_step :: "pcg_env \<Rightarrow> program \<Rightarrow> bb_search \<Rightarrow> bb_search" where
  "bb_step E P s = (case fifo_pop (bs_work s) of None \<Rightarrow> s
     | Some (b, w) \<Rightarrow> fold bb_push (bb_succs P b)
         (s\<lparr>bs_work := w, bs_pcg := fold (follower_inst E P) (pe_insts E b) (bs_pcg s)\<rparr>))"

definition follow_site :: "pcg_env \<Rightarrow> program \<Rightarrow> inst \<Rightarrow> pcg \<Rightarrow> pcg option" where
  "follow_site E P i s = map_option bs_pcg (while_option (\<lambda>s. \<not> fifo_empty (bs_work s)) (bb_step E P)
     \<lparr>bs_pcg = s, bs_visited = {}, bs_work = snd (fifo_push (bb_of P i) fifo_new)\<rparr>)"

definition identifyFollowers :: "pcg_env \<Rightarrow> program \<Rightarrow> pcg \<Rightarrow> pcg option" where
  "identifyFollowers E P s = foldM (follow_site E P) (spawnCallSites s) s"

definition follower_edge :: "pcg_env \<Rightarrow> cg_edge \<Rightarrow> pcg_search \<Rightarrow> pcg_search" where
  "follower_edge E e = (\<lambda>(s, w). if \<not> isFollowerFun s (e_dst e)
     then (addFollowerFun E (e_dst e) s, snd (fifo_push (e_dst e) w)) else (s, w))"

definition follower_step :: "pcg_env \<Rightarrow> program \<Rightarrow> pcg_search \<Rightarrow> pcg_search" where
  "follower_step E P = (\<lambda>(s, w). case fifo_pop w of None \<Rightarrow> (s, w)
     | Some (f, w1) \<Rightarrow> fold (follower_edge E) (out_edges P f) (s, w1))"

definition collectFollowers :: "pcg_env \<Rightarrow> program \<Rightarrow> pcg \<Rightarrow> pcg option" where
  "collectFollowers E P s = Option.bind (identifyFollowers E P s) (\<lambda>s1. map_option fst
     (while_option (\<lambda>(s, w). \<not> fifo_empty w) (follower_step E P) (s1, pcg_start (followers s1))))"

definition inferFromCallGraph :: "pcg_env \<Rightarrow> program \<Rightarrow> pcg \<Rightarrow> pcg option" where
  "inferFromCallGraph E P s = Option.bind (Option.bind (collectSpawners E P s) (collectSpawnees E P)) (collectFollowers E P)"

definition pcg_analyze :: "pcg_env \<Rightarrow> program \<Rightarrow> pcg \<Rightarrow> pcg option" where
  "pcg_analyze E P s = inferFromCallGraph E P (initFromThreadAPI E P s)"

section \<open>Queries\<close>

definition mayHappenInParallelBetweenFunctions :: "pcg \<Rightarrow> func \<Rightarrow> func \<Rightarrow> bool" where
  "mayHappenInParallelBetweenFunctions s f g =
     (if \<not> isSpawneeFun s f \<and> \<not> isSpawneeFun s g then False
      else if \<not> isSpawnerFun s f \<and> \<not> isSpawneeFun s f \<and> \<not> isFollowerFun s f then False
      else if \<not> isSpawnerFun s g \<and> \<not> isSpawneeFun s g \<and> \<not> isFollowerFun s g then False
      else True)"

definition pcg_mayHappenInParallel :: "program \<Rightarrow> pcg \<Rightarrow> inst \<Rightarrow> inst \<Rightarrow> bool" where
  "pcg_mayHappenInParallel P s i j = mayHappenInParallelBetweenFunctions s (fun_of P i) (fun_of P j)"

text \<open>\<open>interferenceAnalysis\<close> takes functions from the end of a vector and compares each with those left.\<close>

definition interfere :: "func \<Rightarrow> func list \<Rightarrow> pcg \<Rightarrow> pcg" where
  "interfere f gs s = (let par = filter (mayHappenInParallelBetweenFunctions s f) gs;
     s1 = s\<lparr>mhpfuns := fold set_insert par (mhpfuns s)\<rparr>
     in if par \<noteq> [] then s1\<lparr>mhpfuns := set_insert f (mhpfuns s1)\<rparr> else s1)"

definition interference_step :: "pcg \<times> func list \<Rightarrow> pcg \<times> func list" where
  "interference_step = (\<lambda>(s, fs). (interfere (last fs) (butlast fs) s, butlast fs))"

definition interferenceAnalysis :: "program \<Rightarrow> pcg \<Rightarrow> pcg option" where
  "interferenceAnalysis P s = map_option fst (while_option (\<lambda>(s, fs). fs \<noteq> []) interference_step
     (s, filter (\<lambda>f. \<not> is_ext_fun P f) (mod_funs P)))"

end
