(* ===== verification/PCGResult.thy ===== *)
theory PCGResult
  imports PCG TCTree
begin

text \<open>
  What the procedure-level analysis computes. Its four searches mark what they reach, except for
  declared functions, which are queued but never marked; the locale \<open>mark_search\<close> is their
  contract.
\<close>

section \<open>Searches that do not mark all they reach\<close>

locale mark_search =
  fixes succ :: "'a \<Rightarrow> 'a set"
    and unmarked :: "'a \<Rightarrow> bool"
    and emit :: "'a \<Rightarrow> 'b set"
    and marked :: "'s \<Rightarrow> 'a set"
    and pending :: "'s \<Rightarrow> 'a set"
    and emitted :: "'s \<Rightarrow> 'b set"
    and step :: "'s \<Rightarrow> 's"
    and inv :: "'s \<Rightarrow> bool"
  assumes finite_pending: "inv s \<Longrightarrow> finite (pending s)"
    and step_effect: "inv s \<Longrightarrow> pending s \<noteq> {} \<Longrightarrow> \<exists>x\<in>pending s. inv (step s) \<and>
      marked (step s) = marked s \<union> {y \<in> succ x. \<not> unmarked y} \<and>
      pending (step s) = (pending s - {x}) \<union> (succ x - marked s) \<and> emitted (step s) = emitted s \<union> emit x"
begin

text \<open>\<open>S\<close> is what the search has seen, \<open>M\<close> what was marked at first and \<open>Q\<close> what was emitted then.\<close>

definition seen :: "'a set \<Rightarrow> 'a set \<Rightarrow> 'b set \<Rightarrow> 'a set \<Rightarrow> 's \<Rightarrow> bool" where
  "seen R M Q S s \<longleftrightarrow> R \<subseteq> S \<and> S \<subseteq> reach succ R \<and> pending s \<subseteq> S \<and> (\<forall>x\<in>S - pending s. emit x \<subseteq> emitted s \<and> succ x \<subseteq> S) \<and>
     S \<subseteq> R \<union> marked s \<union> {x. unmarked x} \<and> marked s \<subseteq> M \<union> {x \<in> S. \<not> unmarked x} \<and> M \<subseteq> marked s \<and>
     Q \<subseteq> emitted s \<and> emitted s \<subseteq> Q \<union> (\<Union>x\<in>S. emit x)"

lemma seen_step:
  assumes I: "inv s" "seen R M Q S s" and MR: "M \<subseteq> R" and x: "x \<in> pending s"
    and m: "marked s' = marked s \<union> {y \<in> succ x. \<not> unmarked y}" and p: "pending s' = (pending s - {x}) \<union> (succ x - marked s)"
    and e: "emitted s' = emitted s \<union> emit x"
  shows "seen R M Q (S \<union> succ x) s'"
proof -
  have s: "R \<subseteq> S" "S \<subseteq> reach succ R" "pending s \<subseteq> S" "\<And>y. y \<in> S \<Longrightarrow> y \<notin> pending s \<Longrightarrow> emit y \<subseteq> emitted s \<and> succ y \<subseteq> S"
    "S \<subseteq> R \<union> marked s \<union> {x. unmarked x}" "marked s \<subseteq> M \<union> {x \<in> S. \<not> unmarked x}" "M \<subseteq> marked s"
    "Q \<subseteq> emitted s" "emitted s \<subseteq> Q \<union> (\<Union>x\<in>S. emit x)"
    using I(2) unfolding seen_def by blast+
  have xS: "x \<in> S" using s(3) x by blast
  have mS: "marked s \<subseteq> S" using s(1,6) MR by blast
  have fin: "emit y \<subseteq> emitted s' \<and> succ y \<subseteq> S \<union> succ x" if y: "y \<in> S \<union> succ x" "y \<notin> pending s'" for y
  proof (cases "y = x")
    case True
    then show ?thesis using e by blast
  next
    case False
    have "y \<in> S" using y mS p by blast
    moreover have "y \<notin> pending s" using y(2) False p by blast
    ultimately show ?thesis using s(4) [of y] e by blast
  qed
  have "succ x \<subseteq> reach succ R" using xS s(2) by (auto intro: reach_step)
  moreover have "emitted s' \<subseteq> Q \<union> (\<Union>x\<in>S \<union> succ x. emit x)" using s(9) xS unfolding e by blast
  moreover have "pending s' \<subseteq> S \<union> succ x" using s(3) unfolding p by blast
  moreover have "S \<union> succ x \<subseteq> R \<union> marked s' \<union> {x. unmarked x}" using s(5) unfolding m by blast
  moreover have "marked s' \<subseteq> M \<union> {y \<in> S \<union> succ x. \<not> unmarked y}" using s(6) unfolding m by blast
  moreover have "M \<subseteq> marked s'" "Q \<subseteq> emitted s'" using s(7,8) unfolding m e by blast+
  ultimately show ?thesis using s(1,2) fin unfolding seen_def by (simp add: le_supI1)
qed

text \<open>The search ends when what is not marked has no successors.\<close>

lemma mark_search_run:
  assumes fin: "finite (reach succ R)" and leaf: "\<And>x. x \<in> reach succ R \<Longrightarrow> unmarked x \<Longrightarrow> succ x = {}"
    and i: "inv s" and p: "pending s = R" and m: "marked s \<subseteq> R" and b: "\<And>s. inv s \<Longrightarrow> b s \<longleftrightarrow> pending s \<noteq> {}"
  shows "\<exists>t. while_option b step s = Some t \<and> inv t \<and> emitted t = emitted s \<union> (\<Union>x\<in>reach succ R. emit x) \<and>
    reach succ R \<subseteq> R \<union> marked t \<union> {x. unmarked x} \<and> marked s \<subseteq> marked t \<and>
    marked t \<subseteq> marked s \<union> {x \<in> reach succ R. \<not> unmarked x}"
proof -
  let ?U = "reach succ R" and ?M = "marked s" and ?Q = "emitted s"
  let ?P = "\<lambda>t. inv t \<and> (\<exists>S. seen R ?M ?Q S t)"
  let ?m = "\<lambda>t. (card (?U - marked t), card (pending t - {x. unmarked x}), card (pending t))"
  let ?r = "inv_image (less_than <*lex*> less_than <*lex*> less_than) ?m"
  have start: "?P s"
  proof -
    have "R \<subseteq> reach succ R" by blast
    then have "seen R ?M ?Q (R \<union> {}) s" using p m unfolding seen_def by auto
    then show ?thesis using i by blast
  qed
  have step: "?P (step t) \<and> (step t, t) \<in> ?r" if t: "?P t" "b t" for t
  proof -
    obtain S where S: "seen R ?M ?Q S t" and it: "inv t" using t(1) by blast
    obtain x where x: "x \<in> pending t" "inv (step t)" "marked (step t) = marked t \<union> {y \<in> succ x. \<not> unmarked y}"
      "pending (step t) = (pending t - {x}) \<union> (succ x - marked t)" "emitted (step t) = emitted t \<union> emit x"
      using step_effect [OF it] t(2) b [OF it] by blast
    have S': "seen R ?M ?Q (S \<union> succ x) (step t)" by (rule seen_step [OF it S m x(1,3-5)])
    have fp: "finite (pending t)" "finite (pending (step t))" using finite_pending it x(2) by blast+
    have "(step t, t) \<in> ?r"
    proof (cases "{y \<in> succ x. \<not> unmarked y} \<subseteq> marked t")
      case False
      then obtain y where y: "y \<in> succ x" "\<not> unmarked y" "y \<notin> marked t" by blast
      then have "y \<in> ?U" using S' unfolding seen_def by blast
      then have "?U - marked (step t) \<subset> ?U - marked t" using y unfolding x(3) by blast
      then show ?thesis using fin psubset_card_mono [of "?U - marked t"] by simp
    next
      case True
      then have mt: "marked (step t) = marked t" using x(3) by blast
      have sub: "pending (step t) - {x. unmarked x} \<subseteq> pending t - {x. unmarked x} - {x}" using True unfolding x(4) by blast
      show ?thesis
      proof (cases "unmarked x")
        case True
        moreover have "x \<in> ?U" using S x(1) unfolding seen_def by blast
        ultimately have pt: "pending (step t) = pending t - {x}" using leaf x(4) by simp
        then have "pending (step t) - {x. unmarked x} = pending t - {x. unmarked x}" using True by blast
        moreover have "card (pending (step t)) < card (pending t)"
          unfolding pt using fp(1) x(1) card_gt_0_iff [of "pending t"] by (auto simp: card_Diff_singleton)
        ultimately show ?thesis using mt by simp
      next
        case False
        then have "pending (step t) - {x. unmarked x} \<subset> pending t - {x. unmarked x}" using sub x(1) by blast
        then have "card (pending (step t) - {x. unmarked x}) < card (pending t - {x. unmarked x})"
          using fp(1) by (intro psubset_card_mono) auto
        then show ?thesis using mt by simp
      qed
    qed
    then show ?thesis using x(2) S' by blast
  qed
  have "wf ?r" by auto
  from while_option_total [of ?r ?P s b step, OF this start step]
  obtain t where t: "while_option b step s = Some t" "?P t" "\<not> b t" by blast
  obtain S where S: "seen R ?M ?Q S t" using t(2) by blast
  have e: "pending t = {}" using t(2,3) b by blast
  have "S = ?U"
  proof (rule antisym)
    show "S \<subseteq> ?U" using S unfolding seen_def by blast
    show "?U \<subseteq> S" using S unfolding seen_def e by (intro reach_least) blast+
  qed
  then have "emitted t = emitted s \<union> (\<Union>x\<in>reach succ R. emit x)"
    using S unfolding seen_def e by blast
  moreover have "reach succ R \<subseteq> R \<union> marked t \<union> {x. unmarked x}" "marked s \<subseteq> marked t"
    "marked t \<subseteq> marked s \<union> {x \<in> reach succ R. \<not> unmarked x}"
    using S unfolding seen_def \<open>S = ?U\<close> by blast+
  ultimately show ?thesis using t(1,2) by blast
qed

text \<open>When the marked elements are those pending at first, the marks are known exactly.\<close>

lemma mark_search_marks:
  assumes "finite (reach succ R)" "\<And>x. x \<in> reach succ R \<Longrightarrow> unmarked x \<Longrightarrow> succ x = {}"
    and "inv s" "pending s = R" "marked s = R" "\<And>s. inv s \<Longrightarrow> b s \<longleftrightarrow> pending s \<noteq> {}"
  shows "\<exists>t. while_option b step s = Some t \<and> inv t \<and> emitted t = emitted s \<union> (\<Union>x\<in>reach succ R. emit x) \<and>
    marked t = R \<union> {x \<in> reach succ R. \<not> unmarked x}"
proof -
  have "marked s \<subseteq> R" using assms(5) by simp
  from mark_search_run [OF assms(1-4) this assms(6)] obtain t where t: "while_option b step s = Some t" "inv t"
    "emitted t = emitted s \<union> (\<Union>x\<in>reach succ R. emit x)" "reach succ R \<subseteq> R \<union> marked t \<union> {x. unmarked x}"
    "R \<subseteq> marked t" "marked t \<subseteq> R \<union> {x \<in> reach succ R. \<not> unmarked x}" using assms(5) by blast
  then have "marked t = R \<union> {x \<in> reach succ R. \<not> unmarked x}" by blast
  then show ?thesis using t by blast
qed

end

section \<open>Searches on the call graph\<close>

lemma pcg_start_set: "fifo_inv (pcg_start fs) \<and> set (data_list (pcg_start fs)) = set fs"
proof -
  have "fifo_inv (fold (\<lambda>f w. snd (fifo_push f w)) fs w) \<and>
      set (data_list (fold (\<lambda>f w. snd (fifo_push f w)) fs w)) = set (data_list w) \<union> set fs" if "fifo_inv w" for w
    using that by (induction fs arbitrary: w) (auto simp: fifo.push_inv fifo.push_set)
  from this [of fifo_new] show ?thesis by (simp add: pcg_start_def fifo_inv_def fifo_new_def)
qed

text \<open>
  The contract of the three searches over functions: one edge marks the function at its other
  end unless it is declared only, queues it unless it was marked, and may record call sites. The rest
  of the state, which \<open>frame\<close> shows, stays as it is in \<open>base\<close>.
\<close>

locale edge_search =
  fixes edge :: "cg_edge \<Rightarrow> pcg_search \<Rightarrow> pcg_search"
    and step :: "pcg_search \<Rightarrow> pcg_search"
    and edges :: "func \<Rightarrow> cg_edge list"
    and target :: "cg_edge \<Rightarrow> func"
    and sites :: "cg_edge \<Rightarrow> inst set"
    and decl :: "func \<Rightarrow> bool"
    and marks :: "pcg \<Rightarrow> func std_set"
    and frame :: "pcg \<Rightarrow> pcg"
    and base :: pcg
  assumes step_def: "step (s, w) = (case fifo_pop w of None \<Rightarrow> (s, w) | Some (f, w1) \<Rightarrow> fold edge (edges f) (s, w1))"
    and edge_effect: "fifo_inv w \<Longrightarrow> edge e (s, w) = (s', w') \<Longrightarrow> fifo_inv w' \<and>
      set (marks s') = set (marks s) \<union> {x. x = target e \<and> \<not> decl x} \<and>
      set (data_list w') = set (data_list w) \<union> ({target e} - set (marks s)) \<and>
      set (spawnCallSites s') = set (spawnCallSites s) \<union> sites e \<and> frame s' = frame s"
begin

lemma edges_effect:
  "fifo_inv w \<Longrightarrow> fold edge es (s, w) = (s', w') \<Longrightarrow> fifo_inv w' \<and>
    set (marks s') = set (marks s) \<union> {x \<in> target ` set es. \<not> decl x} \<and>
    set (data_list w') = set (data_list w) \<union> (target ` set es - set (marks s)) \<and>
    set (spawnCallSites s') = set (spawnCallSites s) \<union> (\<Union>e\<in>set es. sites e) \<and> frame s' = frame s"
proof (induction es arbitrary: s w)
  case (Cons e es)
  obtain s1 w1 where e: "edge e (s, w) = (s1, w1)" by (rule prod.exhaust)
  note h = edge_effect [OF Cons.prems(1) e]
  have "fold edge es (s1, w1) = (s', w')" using Cons.prems(2) e by simp
  from Cons.IH [OF conjunct1 [OF h] this]
  have t: "fifo_inv w'" "set (marks s') = set (marks s1) \<union> {x \<in> target ` set es. \<not> decl x}"
    "set (data_list w') = set (data_list w1) \<union> (target ` set es - set (marks s1))"
    "set (spawnCallSites s') = set (spawnCallSites s1) \<union> (\<Union>e\<in>set es. sites e)" "frame s' = frame s1"
    by simp_all
  have "set (marks s') = set (marks s) \<union> {x \<in> target ` set (e # es). \<not> decl x}" using t(2) h by auto
  moreover have "set (data_list w') = set (data_list w) \<union> (target ` set (e # es) - set (marks s))" using t(3) h by auto
  moreover have "set (spawnCallSites s') = set (spawnCallSites s) \<union> (\<Union>e\<in>set (e # es). sites e)" using t(4) h by auto
  ultimately show ?case using t(1,5) h by simp
qed simp

end

sublocale edge_search \<subseteq> mark_search "\<lambda>f. target ` set (edges f)" decl "\<lambda>f. \<Union>e\<in>set (edges f). sites e"
  "\<lambda>x. set (marks (fst x))" "\<lambda>x. set (data_list (snd x))" "\<lambda>x. set (spawnCallSites (fst x))" step
  "\<lambda>x. fifo_inv (snd x) \<and> frame (fst x) = frame base"
proof (unfold_locales, goal_cases)
  case (2 x)
  obtain s w where x: "x = (s, w)" by (rule prod.exhaust)
  have w: "fifo_inv w" "data_list w \<noteq> []" "frame s = frame base" using 2 unfolding x by auto
  obtain f w1 where p: "fifo_pop w = Some (f, w1)" using fifo.pop_None [OF w(1)] w(2) by (cases "fifo_pop w") auto
  have w1: "fifo_inv w1" "f \<in> set (data_list w)" "set (data_list w1) = set (data_list w) - {f}"
    using fifo.pop_Some [OF w(1) p] fifo.pop_set [OF w(1) p] by auto
  obtain s' w' where f: "fold edge (edges f) (s, w1) = (s', w')" by (rule prod.exhaust)
  have "step x = (s', w')" unfolding x step_def p using f by simp
  then show ?case using edges_effect [OF w1(1) f] w1(2,3) w(3) unfolding x by (intro bexI [of _ f]) simp_all
qed simp

context edge_search
begin

lemma search_from:
  assumes "finite (reach (\<lambda>f. target ` set (edges f)) (set (marks base)))"
    and "\<And>x. x \<in> reach (\<lambda>f. target ` set (edges f)) (set (marks base)) \<Longrightarrow> decl x \<Longrightarrow> edges x = []"
  shows "\<exists>t. map_option fst (while_option (\<lambda>(s, w). \<not> fifo_empty w) step (base, pcg_start (marks base))) = Some t \<and> frame t = frame base \<and>
    set (marks t) = set (marks base) \<union> {x \<in> reach (\<lambda>f. target ` set (edges f)) (set (marks base)). \<not> decl x} \<and>
    set (spawnCallSites t) = set (spawnCallSites base) \<union>
      (\<Union>f\<in>reach (\<lambda>f. target ` set (edges f)) (set (marks base)). \<Union>e\<in>set (edges f). sites e)"
proof -
  let ?s = "(base, pcg_start (marks base))" and ?go = "\<lambda>(s, w). \<not> fifo_empty w"
  have i: "fifo_inv (snd ?s) \<and> frame (fst ?s) = frame base" "set (data_list (snd ?s)) = set (marks base)"
    "set (marks (fst ?s)) = set (marks base)" using pcg_start_set by auto
  have go: "?go x \<longleftrightarrow> set (data_list (snd x)) \<noteq> {}" for x :: pcg_search by (cases x) (simp add: fifo_empty_def)
  have leaf: "target ` set (edges x) = {}" if "x \<in> reach (\<lambda>f. target ` set (edges f)) (set (marks base))" "decl x" for x
    using assms(2) [OF that] by simp
  have "\<exists>t. while_option ?go step ?s = Some t \<and> (fifo_inv (snd t) \<and> frame (fst t) = frame base) \<and>
    set (spawnCallSites (fst t)) = set (spawnCallSites (fst ?s)) \<union>
      (\<Union>f\<in>reach (\<lambda>f. target ` set (edges f)) (set (marks base)). \<Union>e\<in>set (edges f). sites e) \<and>
    set (marks (fst t)) = set (marks base) \<union> {x \<in> reach (\<lambda>f. target ` set (edges f)) (set (marks base)). \<not> decl x}"
    by (rule mark_search_marks [OF assms(1) leaf i go])
  then obtain t where t: "while_option ?go step ?s = Some t" "frame (fst t) = frame base"
    "set (spawnCallSites (fst t)) = set (spawnCallSites base) \<union>
      (\<Union>f\<in>reach (\<lambda>f. target ` set (edges f)) (set (marks base)). \<Union>e\<in>set (edges f). sites e)"
    "set (marks (fst t)) = set (marks base) \<union> {x \<in> reach (\<lambda>f. target ` set (edges f)) (set (marks base)). \<not> decl x}"
    unfolding fst_conv by iprover
  then show ?thesis by (intro exI [of _ "fst t"]) simp
qed

end

lemma add_sites_fold:
  "fold addSpawnsite is s = s\<lparr>spawnCallSites := fold set_insert is (spawnCallSites s)\<rparr>"
  by (induction "is" arbitrary: s) (simp_all add: addSpawnsite_def)

lemma set_inserts: "set (fold set_insert xs s) = set xs \<union> set s"
  by (induction xs arbitrary: s) auto

abbreviation edge_sites :: "cg_edge \<Rightarrow> inst set" where
  "edge_sites e \<equiv> set (e_direct e @ e_indirect e)"

interpretation spawner: edge_search "spawner_edge E" "spawner_step E P" "in_edges P" e_src edge_sites "pe_decl E" spawners
  "\<lambda>s. s\<lparr>spawners := [], spawnCallSites := []\<rparr>" base for E P base
proof (unfold_locales, goal_cases)
  case (2 w e s s' w')
  then show ?case
    by (auto simp: spawner_edge_def isSpawnerFun_def addSpawnerFun_def set_find_def add_sites_fold set_inserts
        fifo.push_inv fifo.push_set Let_def split: if_splits)
qed (simp add: spawner_step_def)

interpretation spawnee: edge_search "spawnee_edge E" "spawnee_step E P" "out_edges P" e_dst "\<lambda>_. {}" "pe_decl E" spawnees
  "\<lambda>s. s\<lparr>spawnees := [], spawnCallSites := []\<rparr>" base for E P base
proof (unfold_locales, goal_cases)
  case (2 w e s s' w')
  then show ?case
    by (auto simp: spawnee_edge_def isSpawneeFun_def addSpawneeFun_def set_find_def fifo.push_inv fifo.push_set split: if_splits)
qed (simp add: spawnee_step_def)

interpretation follower: edge_search "follower_edge E" "follower_step E P" "out_edges P" e_dst "\<lambda>_. {}" "pe_decl E" followers
  "\<lambda>s. s\<lparr>followers := [], spawnCallSites := []\<rparr>" base for E P base
proof (unfold_locales, goal_cases)
  case (2 w e s s' w')
  then show ?case
    by (auto simp: follower_edge_def isFollowerFun_def addFollowerFun_def set_find_def fifo.push_inv fifo.push_set split: if_splits)
qed (simp add: follower_step_def)

section \<open>The results of the searches\<close>

text \<open>
  A declared function has no body, so nothing is called from it. The call graph and the control
  flow graph are finite.
\<close>

definition pcg_ok :: "pcg_env \<Rightarrow> program \<Rightarrow> bool" where
  "pcg_ok E P \<longleftrightarrow> finite (\<Union>f. set (map e_src (in_edges P f))) \<and> finite (\<Union>f. set (map e_dst (out_edges P f))) \<and>
     finite (\<Union>b. set (bb_succs P b)) \<and> (\<forall>f. pe_decl E f \<longrightarrow> fun_insts P f = [] \<and> out_edges P f = []) \<and>
     (\<forall>f. \<forall>e\<in>set (in_edges P f). \<not> pe_decl E (e_src e))"

definition cg_callees :: "program \<Rightarrow> func \<Rightarrow> func set" where
  "cg_callees P f = e_dst ` set (out_edges P f)"

lemma pcg_finite:
  assumes "pcg_ok E P"
  shows "finite R \<Longrightarrow> finite (reach (cg_callers P) R)" "finite R \<Longrightarrow> finite (reach (cg_callees P) R)"
    "finite B \<Longrightarrow> finite (reach (\<lambda>b. set (bb_succs P b)) B)"
  using assms unfolding pcg_ok_def by (auto intro!: reach_finite simp: cg_callers_def cg_callees_def)

lemma reach_succ_cases: "y \<in> reach succ R \<Longrightarrow> y \<in> R \<or> (\<exists>x. y \<in> succ x)"
proof -
  have "reach succ R \<subseteq> R \<union> (\<Union>x. succ x)" by (rule reach_least) auto
  then show "y \<in> reach succ R \<Longrightarrow> y \<in> R \<or> (\<exists>x. y \<in> succ x)" by blast
qed

lemma collectSpawners_result:
  assumes "pcg_ok E P" and "\<forall>f\<in>set (spawners s). \<not> pe_decl E f"
  shows "\<exists>t. collectSpawners E P s = Some t \<and> set (spawners t) = reach (cg_callers P) (set (spawners s)) \<and>
    set (spawnCallSites t) = set (spawnCallSites s) \<union> (\<Union>f\<in>reach (cg_callers P) (set (spawners s)). \<Union>e\<in>set (in_edges P f). edge_sites e) \<and>
    spawnees t = spawnees s \<and> followers t = followers s \<and> mhpfuns t = mhpfuns s"
proof -
  have c: "(\<lambda>f. e_src ` set (in_edges P f)) = cg_callers P" by (simp add: fun_eq_iff cg_callers_def)
  let ?R = "set (spawners s)"
  have nd: "\<not> pe_decl E x" if "x \<in> reach (cg_callers P) ?R" for x
    using reach_succ_cases [OF that] assms unfolding pcg_ok_def cg_callers_def by auto
  from spawner.search_from [of P s E, unfolded c, OF pcg_finite(1) [OF assms(1)]] nd
  obtain t where t: "collectSpawners E P s = Some t" "t\<lparr>spawners := [], spawnCallSites := []\<rparr> = s\<lparr>spawners := [], spawnCallSites := []\<rparr>"
    "set (spawners t) = ?R \<union> {x \<in> reach (cg_callers P) ?R. \<not> pe_decl E x}"
    "set (spawnCallSites t) = set (spawnCallSites s) \<union> (\<Union>f\<in>reach (cg_callers P) ?R. \<Union>e\<in>set (in_edges P f). edge_sites e)"
    unfolding collectSpawners_def by auto
  have "?R \<union> {x \<in> reach (cg_callers P) ?R. \<not> pe_decl E x} = reach (cg_callers P) ?R" using nd by blast
  moreover have "spawnees t = spawnees s" "followers t = followers s" "mhpfuns t = mhpfuns s"
    using t(2) by (cases t; cases s; simp)+
  ultimately show ?thesis using t(1,3,4) by simp
qed

text \<open>What is called, without the declared functions that are not listed from the start.\<close>

definition called :: "pcg_env \<Rightarrow> program \<Rightarrow> func set \<Rightarrow> func set" where
  "called E P R = R \<union> {x \<in> reach (cg_callees P) R. \<not> pe_decl E x}"

lemma cg_callees_fun: "(\<lambda>f. e_dst ` set (out_edges P f)) = cg_callees P"
  by (simp add: fun_eq_iff cg_callees_def)

lemma collectSpawnees_result:
  assumes "pcg_ok E P"
  shows "\<exists>t. collectSpawnees E P s = Some t \<and> set (spawnees t) = called E P (set (spawnees s)) \<and>
    set (spawnCallSites t) = set (spawnCallSites s) \<and> spawners t = spawners s \<and> followers t = followers s \<and> mhpfuns t = mhpfuns s"
proof -
  from spawnee.search_from [of P s E, unfolded cg_callees_fun, OF pcg_finite(2) [OF assms]] assms
  obtain t where t: "collectSpawnees E P s = Some t" "t\<lparr>spawnees := [], spawnCallSites := []\<rparr> = s\<lparr>spawnees := [], spawnCallSites := []\<rparr>"
    "set (spawnees t) = called E P (set (spawnees s))" "set (spawnCallSites t) = set (spawnCallSites s)"
    unfolding collectSpawnees_def called_def pcg_ok_def by auto
  moreover have "spawners t = spawners s" "followers t = followers s" "mhpfuns t = mhpfuns s"
    using t(2) by (cases t; cases s; simp)+
  ultimately show ?thesis by simp
qed

lemma follower_search_result:
  assumes "pcg_ok E P"
  shows "\<exists>t. map_option fst (while_option (\<lambda>(s, w). \<not> fifo_empty w) (follower_step E P) (s, pcg_start (followers s))) = Some t \<and>
    set (followers t) = called E P (set (followers s)) \<and>
    set (spawnCallSites t) = set (spawnCallSites s) \<and> spawners t = spawners s \<and> spawnees t = spawnees s \<and> mhpfuns t = mhpfuns s"
proof -
  from follower.search_from [of P s E, unfolded cg_callees_fun, OF pcg_finite(2) [OF assms]] assms
  obtain t where t: "map_option fst (while_option (\<lambda>(s, w). \<not> fifo_empty w) (follower_step E P) (s, pcg_start (followers s))) = Some t"
    "t\<lparr>followers := [], spawnCallSites := []\<rparr> = s\<lparr>followers := [], spawnCallSites := []\<rparr>"
    "set (followers t) = called E P (set (followers s))" "set (spawnCallSites t) = set (spawnCallSites s)"
    unfolding called_def pcg_ok_def by auto
  moreover have "spawners t = spawners s" "spawnees t = spawnees s" "mhpfuns t = mhpfuns s"
    using t(2) by (cases t; cases s; simp)+
  ultimately show ?thesis by (intro exI [of _ t]) simp
qed

section \<open>Followers\<close>

text \<open>What the block calls at sites that are no spawn sites.\<close>

definition called_in :: "pcg_env \<Rightarrow> program \<Rightarrow> inst set \<Rightarrow> bb \<Rightarrow> func set" where
  "called_in E P S b = {g. \<exists>i\<in>set (pe_insts E b). (is_call P i \<or> pe_invoke E i) \<and> i \<notin> S \<and> \<not> pe_decl E g \<and>
     (\<exists>es. call_edges P i = Some es \<and> g \<in> e_dst ` set es)}"

abbreviation same_but_followers :: "pcg \<Rightarrow> pcg \<Rightarrow> bool" where
  "same_but_followers s t \<equiv> s\<lparr>followers := []\<rparr> = t\<lparr>followers := []\<rparr>"

lemma same_but_followersD:
  "same_but_followers s t \<Longrightarrow> spawners s = spawners t \<and> spawnees s = spawnees t \<and> mhpfuns s = mhpfuns t \<and> spawnCallSites s = spawnCallSites t"
  by (cases s; cases t) simp

lemma add_followers_fold:
  "same_but_followers (fold (\<lambda>e. addFollowerFun E (e_dst e)) es s) s \<and>
   set (followers (fold (\<lambda>e. addFollowerFun E (e_dst e)) es s)) = set (followers s) \<union> {g \<in> e_dst ` set es. \<not> pe_decl E g}"
proof (induction es arbitrary: s)
  case (Cons e es)
  have "same_but_followers (addFollowerFun E (e_dst e) s) s"
    "set (followers (addFollowerFun E (e_dst e) s)) = set (followers s) \<union> {g. g = e_dst e \<and> \<not> pe_decl E g}"
    by (auto simp: addFollowerFun_def)
  then show ?case using Cons.IH [of "addFollowerFun E (e_dst e) s"] by auto
qed simp

lemma follower_inst_effect:
  "same_but_followers (follower_inst E P i s) s \<and> set (followers (follower_inst E P i s)) = set (followers s) \<union>
     {g. (is_call P i \<or> pe_invoke E i) \<and> i \<notin> set (spawnCallSites s) \<and> \<not> pe_decl E g \<and> (\<exists>es. call_edges P i = Some es \<and> g \<in> e_dst ` set es)}"
  using add_followers_fold [of E _ s]
  by (auto simp: follower_inst_def isSpawnsite_def set_find_def split: option.splits)

lemma follower_insts_effect:
  "same_but_followers (fold (follower_inst E P) is s) s \<and> set (followers (fold (follower_inst E P) is s)) = set (followers s) \<union>
     {g. \<exists>i\<in>set is. (is_call P i \<or> pe_invoke E i) \<and> i \<notin> set (spawnCallSites s) \<and> \<not> pe_decl E g \<and> (\<exists>es. call_edges P i = Some es \<and> g \<in> e_dst ` set es)}"
proof (induction "is" arbitrary: s)
  case (Cons i "is")
  note h = follower_inst_effect [of E P i s]
  have "spawnCallSites (follower_inst E P i s) = spawnCallSites s" using same_but_followersD h by blast
  then show ?case using Cons.IH [of "follower_inst E P i s"] h by auto
qed simp

lemma bb_pushes:
  assumes "fifo_inv (bs_work s)"
  shows "fifo_inv (bs_work (fold bb_push bs s)) \<and> bs_pcg (fold bb_push bs s) = bs_pcg s \<and>
    bs_visited (fold bb_push bs s) = bs_visited s \<union> set bs \<and>
    set (data_list (bs_work (fold bb_push bs s))) = set (data_list (bs_work s)) \<union> (set bs - bs_visited s)"
  using assms
proof (induction bs arbitrary: s)
  case (Cons b bs)
  have "fifo_inv (bs_work (bb_push b s)) \<and> bs_pcg (bb_push b s) = bs_pcg s \<and> bs_visited (bb_push b s) = insert b (bs_visited s) \<and>
      set (data_list (bs_work (bb_push b s))) = set (data_list (bs_work s)) \<union> ({b} - bs_visited s)"
    using Cons.prems by (auto simp: bb_push_def fifo.push_set fifo.push_inv)
  with Cons.IH [of "bb_push b s"] show ?case by auto
qed simp

interpretation blocks: mark_search "\<lambda>b. set (bb_succs P b)" "\<lambda>_. False" "called_in E P (set (spawnCallSites base))" bs_visited
  "\<lambda>s. set (data_list (bs_work s))" "\<lambda>s. set (followers (bs_pcg s))" "bb_step E P"
  "\<lambda>s. fifo_inv (bs_work s) \<and> same_but_followers (bs_pcg s) base" for E P base
proof (unfold_locales, goal_cases)
  case (2 s)
  have w: "fifo_inv (bs_work s)" "data_list (bs_work s) \<noteq> []" "same_but_followers (bs_pcg s) base" using 2 by auto
  obtain b v where p: "fifo_pop (bs_work s) = Some (b, v)" using fifo.pop_None [OF w(1)] w(2) by (cases "fifo_pop (bs_work s)") auto
  have v: "fifo_inv v" "b \<in> set (data_list (bs_work s))" "set (data_list v) = set (data_list (bs_work s)) - {b}"
    using fifo.pop_Some [OF w(1) p] fifo.pop_set [OF w(1) p] by auto
  let ?t = "s\<lparr>bs_work := v, bs_pcg := fold (follower_inst E P) (pe_insts E b) (bs_pcg s)\<rparr>"
  have st: "bb_step E P s = fold bb_push (bb_succs P b) ?t" by (simp add: bb_step_def p)
  have "fifo_inv (bs_work ?t)" using v(1) by simp
  note h = bb_pushes [OF this, of "bb_succs P b", folded st]
  note f = follower_insts_effect [of E P "pe_insts E b" "bs_pcg s"]
  have sites: "spawnCallSites (bs_pcg s) = spawnCallSites base" using same_but_followersD [OF w(3)] by simp
  have "set (followers (bs_pcg (bb_step E P s))) = set (followers (bs_pcg s)) \<union> called_in E P (set (spawnCallSites base)) b"
    using h f unfolding called_in_def sites by simp
  moreover have "same_but_followers (bs_pcg (bb_step E P s)) base" using h f w(3) by simp
  ultimately show ?case using h v by (intro bexI [of _ b]) simp_all
qed simp

lemma follow_site_result:
  assumes "pcg_ok E P"
  shows "\<exists>t. follow_site E P i s = Some t \<and> same_but_followers t s \<and>
    set (followers t) = set (followers s) \<union>
      (\<Union>b\<in>reach (\<lambda>b. set (bb_succs P b)) {bb_of P i}. called_in E P (set (spawnCallSites s)) b)"
proof -
  let ?s = "\<lparr>bs_pcg = s, bs_visited = {}, bs_work = snd (fifo_push (bb_of P i) fifo_new)\<rparr>"
  have i: "fifo_inv (bs_work ?s) \<and> same_but_followers (bs_pcg ?s) s" "set (data_list (bs_work ?s)) = {bb_of P i}" "bs_visited ?s \<subseteq> {bb_of P i}"
    by (simp_all add: fifo_push_def fifo_new_def fifo_inv_def)
  have go: "\<not> fifo_empty (bs_work x) \<longleftrightarrow> set (data_list (bs_work x)) \<noteq> {}" for x by (simp add: fifo_empty_def)
  have fin: "finite (reach (\<lambda>b. set (bb_succs P b)) {bb_of P i})" by (rule pcg_finite(3) [OF assms]) simp
  have "\<exists>t. while_option (\<lambda>s. \<not> fifo_empty (bs_work s)) (bb_step E P) ?s = Some t \<and>
      (fifo_inv (bs_work t) \<and> same_but_followers (bs_pcg t) s) \<and> set (followers (bs_pcg t)) = set (followers (bs_pcg ?s)) \<union>
      (\<Union>b\<in>reach (\<lambda>b. set (bb_succs P b)) {bb_of P i}. called_in E P (set (spawnCallSites s)) b) \<and>
      reach (\<lambda>b. set (bb_succs P b)) {bb_of P i} \<subseteq> {bb_of P i} \<union> bs_visited t \<union> {x. False} \<and> bs_visited ?s \<subseteq> bs_visited t \<and>
      bs_visited t \<subseteq> bs_visited ?s \<union> {x \<in> reach (\<lambda>b. set (bb_succs P b)) {bb_of P i}. \<not> False}"
    by (rule blocks.mark_search_run [OF fin _ i go]) simp_all
  then show ?thesis unfolding follow_site_def by auto
qed

lemma identifyFollowers_result:
  assumes "pcg_ok E P"
  shows "\<exists>t. identifyFollowers E P s = Some t \<and> same_but_followers t s \<and>
    set (followers t) = set (followers s) \<union>
      (\<Union>b\<in>reach (\<lambda>b. set (bb_succs P b)) (bb_of P ` set (spawnCallSites s)). called_in E P (set (spawnCallSites s)) b)"
proof -
  have "\<exists>t. foldM (follow_site E P) is r = Some t \<and> same_but_followers t r \<and> set (followers t) = set (followers r) \<union>
      (\<Union>i\<in>set is. \<Union>b\<in>reach (\<lambda>b. set (bb_succs P b)) {bb_of P i}. called_in E P (set (spawnCallSites r)) b)" for "is" r
  proof (induction "is" arbitrary: r)
    case (Cons i "is")
    obtain u where u: "follow_site E P i r = Some u" "same_but_followers u r" "set (followers u) = set (followers r) \<union>
      (\<Union>b\<in>reach (\<lambda>b. set (bb_succs P b)) {bb_of P i}. called_in E P (set (spawnCallSites r)) b)"
      using follow_site_result [OF assms, of i r] by (elim exE conjE)
    have sites: "spawnCallSites u = spawnCallSites r" using same_but_followersD [OF u(2)] by simp
    obtain t where t: "foldM (follow_site E P) is u = Some t" "same_but_followers t u" "set (followers t) = set (followers u) \<union>
      (\<Union>i\<in>set is. \<Union>b\<in>reach (\<lambda>b. set (bb_succs P b)) {bb_of P i}. called_in E P (set (spawnCallSites u)) b)"
      using Cons.IH [of u] by (elim exE conjE)
    show ?case
    proof (intro exI [of _ t] conjI)
      show "foldM (follow_site E P) (i # is) r = Some t" using t(1) u(1) by simp
      show "same_but_followers t r" using t(2) u(2) by simp
      show "set (followers t) = set (followers r) \<union>
          (\<Union>i\<in>set (i # is). \<Union>b\<in>reach (\<lambda>b. set (bb_succs P b)) {bb_of P i}. called_in E P (set (spawnCallSites r)) b)"
        unfolding t(3) u(3) sites list.set(2) UN_insert Un_assoc ..
    qed
  qed simp
  from this [of "spawnCallSites s" s] show ?thesis unfolding identifyFollowers_def reach_UN [of _ "bb_of P"] by simp
qed

section \<open>The analysis\<close>

text \<open>The forks of known routines: the function, the fork site and the routine.\<close>

definition known_forks :: "pcg_env \<Rightarrow> program \<Rightarrow> (func \<times> inst \<times> func) set" where
  "known_forks E P = {(f, i, g). f \<in> set (mod_funs P) \<and> i \<in> set (fun_insts P f) \<and> td_fork P i \<and> pe_forked E i = Some g}"

lemma pcg_forks_effect:
  "set (spawners (fold (pcg_fork E P f) is s)) = set (spawners s) \<union> {h. h = f \<and> (\<exists>i\<in>set is. td_fork P i \<and> pe_forked E i \<noteq> None)} \<and>
   set (spawnees (fold (pcg_fork E P f) is s)) = set (spawnees s) \<union> {g. \<exists>i\<in>set is. td_fork P i \<and> pe_forked E i = Some g} \<and>
   set (spawnCallSites (fold (pcg_fork E P f) is s)) = set (spawnCallSites s) \<union> {i \<in> set is. td_fork P i \<and> pe_forked E i \<noteq> None} \<and>
   followers (fold (pcg_fork E P f) is s) = followers s \<and> mhpfuns (fold (pcg_fork E P f) is s) = mhpfuns s"
proof (induction "is" arbitrary: s)
  case (Cons i "is")
  show ?case
    using Cons.IH [of "pcg_fork E P f i s"] by (auto simp: pcg_fork_def addSpawnsite_def split: option.splits)
qed simp

lemma initFromThreadAPI_effect:
  "set (spawners (initFromThreadAPI E P s)) = set (spawners s) \<union> fst ` known_forks E P \<and>
   set (spawnees (initFromThreadAPI E P s)) = set (spawnees s) \<union> (snd \<circ> snd) ` known_forks E P \<and>
   set (spawnCallSites (initFromThreadAPI E P s)) = set (spawnCallSites s) \<union> (fst \<circ> snd) ` known_forks E P \<and>
   followers (initFromThreadAPI E P s) = followers s \<and> mhpfuns (initFromThreadAPI E P s) = mhpfuns s"
proof -
  let ?h = "\<lambda>f. fold (pcg_fork E P f) (fun_insts P f)"
  have "set (spawners (fold ?h fs s)) = set (spawners s) \<union> {f \<in> set fs. \<exists>i\<in>set (fun_insts P f). td_fork P i \<and> pe_forked E i \<noteq> None} \<and>
     set (spawnees (fold ?h fs s)) = set (spawnees s) \<union> {g. \<exists>f\<in>set fs. \<exists>i\<in>set (fun_insts P f). td_fork P i \<and> pe_forked E i = Some g} \<and>
     set (spawnCallSites (fold ?h fs s)) = set (spawnCallSites s) \<union>
       {i. \<exists>f\<in>set fs. i \<in> set (fun_insts P f) \<and> td_fork P i \<and> pe_forked E i \<noteq> None} \<and>
     followers (fold ?h fs s) = followers s \<and> mhpfuns (fold ?h fs s) = mhpfuns s" for fs
  proof (induction fs arbitrary: s)
    case (Cons f fs)
    show ?case using Cons.IH [of "?h f s"] pcg_forks_effect [of E P f "fun_insts P f" s] by auto
  qed simp
  note h = this [of "mod_funs P", folded initFromThreadAPI_def]
  have "fst ` known_forks E P = {f \<in> set (mod_funs P). \<exists>i\<in>set (fun_insts P f). td_fork P i \<and> pe_forked E i \<noteq> None}"
    by (force simp: known_forks_def)
  moreover have "(snd \<circ> snd) ` known_forks E P = {g. \<exists>f\<in>set (mod_funs P). \<exists>i\<in>set (fun_insts P f). td_fork P i \<and> pe_forked E i = Some g}"
    by (force simp: known_forks_def)
  moreover have "(fst \<circ> snd) ` known_forks E P =
      {i. \<exists>f\<in>set (mod_funs P). i \<in> set (fun_insts P f) \<and> td_fork P i \<and> pe_forked E i \<noteq> None}"
    by (force simp: known_forks_def)
  ultimately show ?thesis using h unfolding initFromThreadAPI_def by simp
qed

text \<open>What the sets stand for.\<close>

definition may_spawn :: "pcg_env \<Rightarrow> program \<Rightarrow> func set" where
  "may_spawn E P = reach (cg_callers P) (fst ` known_forks E P)"

definition spawn_sites :: "pcg_env \<Rightarrow> program \<Rightarrow> inst set" where
  "spawn_sites E P = (fst \<circ> snd) ` known_forks E P \<union> (\<Union>f\<in>may_spawn E P. \<Union>e\<in>set (in_edges P f). edge_sites e)"

definition spawned :: "pcg_env \<Rightarrow> program \<Rightarrow> func set" where
  "spawned E P = called E P ((snd \<circ> snd) ` known_forks E P)"

definition called_after :: "pcg_env \<Rightarrow> program \<Rightarrow> func set" where
  "called_after E P = called E P
     (\<Union>b\<in>reach (\<lambda>b. set (bb_succs P b)) (bb_of P ` spawn_sites E P). called_in E P (spawn_sites E P) b)"

lemma pcg_analyze_sets:
  assumes "pcg_ok E P"
  shows "\<exists>t. pcg_analyze E P pcg_new = Some t \<and> set (spawners t) = may_spawn E P \<and> set (spawnees t) = spawned E P \<and>
    set (followers t) = called_after E P \<and> set (spawnCallSites t) = spawn_sites E P \<and> mhpfuns t = []"
proof -
  let ?i = "initFromThreadAPI E P pcg_new"
  note i = initFromThreadAPI_effect [of E P pcg_new]
  have nd: "\<forall>f\<in>set (spawners ?i). \<not> pe_decl E f"
    using i assms unfolding pcg_ok_def known_forks_def pcg_new_def by fastforce
  obtain a where a: "collectSpawners E P ?i = Some a" "set (spawners a) = reach (cg_callers P) (set (spawners ?i))"
    "set (spawnCallSites a) = set (spawnCallSites ?i) \<union> (\<Union>f\<in>reach (cg_callers P) (set (spawners ?i)). \<Union>e\<in>set (in_edges P f). edge_sites e)"
    "spawnees a = spawnees ?i" "followers a = followers ?i" "mhpfuns a = mhpfuns ?i"
    using collectSpawners_result [OF assms nd] by (elim exE conjE)
  obtain b where b: "collectSpawnees E P a = Some b" "set (spawnees b) = called E P (set (spawnees a))"
    "set (spawnCallSites b) = set (spawnCallSites a)" "spawners b = spawners a" "followers b = followers a" "mhpfuns b = mhpfuns a"
    using collectSpawnees_result [OF assms, of a] by (elim exE conjE)
  have S: "set (spawners b) = may_spawn E P" "set (spawnCallSites b) = spawn_sites E P" "set (spawnees b) = spawned E P"
    "set (followers b) = {}" "mhpfuns b = []"
    using a b i by (simp_all add: may_spawn_def spawn_sites_def spawned_def pcg_new_def)
  obtain c where c: "identifyFollowers E P b = Some c" "same_but_followers c b" "set (followers c) = set (followers b) \<union>
      (\<Union>d\<in>reach (\<lambda>b. set (bb_succs P b)) (bb_of P ` set (spawnCallSites b)). called_in E P (set (spawnCallSites b)) d)"
    using identifyFollowers_result [OF assms, of b] by (elim exE conjE)
  obtain t where t: "map_option fst (while_option (\<lambda>(s, w). \<not> fifo_empty w) (follower_step E P) (c, pcg_start (followers c))) = Some t"
    "set (followers t) = called E P (set (followers c))" "set (spawnCallSites t) = set (spawnCallSites c)"
    "spawners t = spawners c" "spawnees t = spawnees c" "mhpfuns t = mhpfuns c"
    using follower_search_result [OF assms, of c] by (elim exE conjE)
  have "pcg_analyze E P pcg_new = Some t"
    by (simp only: pcg_analyze_def inferFromCallGraph_def collectFollowers_def a(1) b(1) c(1) t(1) Option.bind.simps)
  moreover have "set (followers t) = called_after E P" unfolding t(2) c(3) S called_after_def by simp
  ultimately show ?thesis using t(3-6) S same_but_followersD [OF c(2)] by (intro exI [of _ t]) simp
qed

text \<open>C21: The procedure-level analysis ends. It answers that two instructions may run in parallel exactly
  when one of their functions may run in a spawned thread, being a routine of a fork or called
  from one, and each of them may spawn a thread, run in a spawned thread, or be called, directly
  or not, at a call site in a block that control flow reaches from a site that spawns. Functions without
  a body are not counted unless they are routines.\<close>

theorem pcg_parallel_iff:
  assumes "pcg_ok E P"
  shows "\<exists>t. pcg_analyze E P pcg_new = Some t \<and> (\<forall>i j. pcg_mayHappenInParallel P t i j \<longleftrightarrow>
    (fun_of P i \<in> spawned E P \<or> fun_of P j \<in> spawned E P) \<and>
    {fun_of P i, fun_of P j} \<subseteq> may_spawn E P \<union> spawned E P \<union> called_after E P)"
proof -
  obtain t where t: "pcg_analyze E P pcg_new = Some t" "set (spawners t) = may_spawn E P" "set (spawnees t) = spawned E P"
    "set (followers t) = called_after E P" using pcg_analyze_sets [OF assms] by blast
  then show ?thesis
    by (intro exI [of _ t]) (auto simp: pcg_mayHappenInParallel_def mayHappenInParallelBetweenFunctions_def isSpawneeFun_def
        isSpawnerFun_def isFollowerFun_def set_find_def)
qed

lemma parallel_sym: "mayHappenInParallelBetweenFunctions s f g = mayHappenInParallelBetweenFunctions s g f"
  by (auto simp: mayHappenInParallelBetweenFunctions_def)

lemma parallel_frame: "mayHappenInParallelBetweenFunctions (s\<lparr>mhpfuns := fs\<rparr>) = mayHappenInParallelBetweenFunctions s"
  by (simp add: fun_eq_iff mayHappenInParallelBetweenFunctions_def isSpawneeFun_def isSpawnerFun_def isFollowerFun_def)

lemma interfere_effect:
  "mayHappenInParallelBetweenFunctions (interfere f gs s) = mayHappenInParallelBetweenFunctions s \<and>
   set (mhpfuns (interfere f gs s)) = set (mhpfuns s) \<union> {g \<in> set gs. mayHappenInParallelBetweenFunctions s f g} \<union>
     {h. h = f \<and> (\<exists>g\<in>set gs. mayHappenInParallelBetweenFunctions s f g)}"
  by (auto simp: interfere_def Let_def set_inserts parallel_frame filter_empty_conv)

lemma interference_loop:
  "distinct fs \<Longrightarrow> \<exists>t. while_option (\<lambda>(s, fs). fs \<noteq> []) interference_step (s, fs) = Some (t, []) \<and>
     set (mhpfuns t) = set (mhpfuns s) \<union> {f \<in> set fs. \<exists>g\<in>set fs. g \<noteq> f \<and> mayHappenInParallelBetweenFunctions s f g}"
proof (induction fs arbitrary: s rule: rev_induct)
  case Nil
  show ?case by (simp add: while_option_unfold)
next
  case (snoc f fs)
  note h = interfere_effect [of f fs s]
  from snoc.IH [of "interfere f fs s"] snoc.prems obtain t where
    t: "while_option (\<lambda>(s, fs). fs \<noteq> []) interference_step (interfere f fs s, fs) = Some (t, [])"
    "set (mhpfuns t) = set (mhpfuns (interfere f fs s)) \<union>
      {f' \<in> set fs. \<exists>g\<in>set fs. g \<noteq> f' \<and> mayHappenInParallelBetweenFunctions s f' g}" using h by auto
  have "while_option (\<lambda>(s, fs). fs \<noteq> []) interference_step (s, fs @ [f]) = Some (t, [])"
    using t(1) by (subst while_option_unfold) (simp add: interference_step_def)
  moreover have "set (mhpfuns t) = set (mhpfuns s) \<union>
      {f' \<in> set (fs @ [f]). \<exists>g\<in>set (fs @ [f]). g \<noteq> f' \<and> mayHappenInParallelBetweenFunctions s f' g}"
  proof (rule set_eqI)
    fix x
    have f: "f \<notin> set fs" using snoc.prems by simp
    show "x \<in> set (mhpfuns t) \<longleftrightarrow> x \<in> set (mhpfuns s) \<union>
        {f' \<in> set (fs @ [f]). \<exists>g\<in>set (fs @ [f]). g \<noteq> f' \<and> mayHappenInParallelBetweenFunctions s f' g}"
      unfolding t(2) conjunct2 [OF h] using f parallel_sym [of s f x] by (cases "x = f") auto
  qed
  ultimately show ?case by blast
qed

text \<open>The interference analysis ends and adds exactly the functions of the module that are not
  external and may run in parallel with another one. Functions are never compared with
  themselves, so a function that only runs in parallel with another instance of itself is missing.\<close>

theorem interferenceAnalysis_funs:
  assumes "distinct (mod_funs P)"
  shows "\<exists>t. interferenceAnalysis P s = Some t \<and> set (mhpfuns t) = set (mhpfuns s) \<union>
    {f \<in> set (mod_funs P). \<not> is_ext_fun P f \<and> (\<exists>g\<in>set (mod_funs P). \<not> is_ext_fun P g \<and> g \<noteq> f \<and>
      mayHappenInParallelBetweenFunctions s f g)}"
proof -
  let ?fs = "filter (\<lambda>f. \<not> is_ext_fun P f) (mod_funs P)"
  obtain t where "while_option (\<lambda>(s, fs). fs \<noteq> []) interference_step (s, ?fs) = Some (t, [])"
    "set (mhpfuns t) = set (mhpfuns s) \<union> {f \<in> set ?fs. \<exists>g\<in>set ?fs. g \<noteq> f \<and> mayHappenInParallelBetweenFunctions s f g}"
    using interference_loop [of ?fs s] assms by auto
  then show ?thesis by (intro exI [of _ t]) (auto simp: interferenceAnalysis_def)
qed

section \<open>An example\<close>

text \<open>
  The main function 0 has a loop around an indirect call 11 of the functions 1 and 2. Function 1
  forks the routine 3.
\<close>

definition cg_edge_at :: "func \<Rightarrow> func \<Rightarrow> cg_edge_kind \<Rightarrow> inst \<Rightarrow> cg_edge" where
  "cg_edge_at f g k i = \<lparr>e_src = f, e_dst = g, e_kind = k, e_direct = [i], e_indirect = []\<rparr>"

definition loop_call :: program where
  "loop_call = empty_program\<lparr>mod_funs := [0, 1, 2, 3], fun_insts := (\<lambda>f. if f < 4 then [10 * f + 10, 10 * f + 11] else []),
     fun_of := (\<lambda>i. i div 10 - 1), bb_of := (\<lambda>i. i div 10 - 1), bb_succs := (\<lambda>b. if b = 0 then [0] else []),
     is_call := (\<lambda>i. i \<in> {11, 21}), td_fork := (\<lambda>i. i = 21),
     in_edges := (\<lambda>f. if f = 1 then [cg_edge_at 0 1 CallRetEdge 11] else if f = 2 then [cg_edge_at 0 2 CallRetEdge 11]
       else if f = 3 then [cg_edge_at 1 3 TDForkEdge 21] else []),
     out_edges := (\<lambda>f. if f = 0 then [cg_edge_at 0 1 CallRetEdge 11, cg_edge_at 0 2 CallRetEdge 11]
       else if f = 1 then [cg_edge_at 1 3 TDForkEdge 21] else []),
     call_edges := (\<lambda>i. if i = 11 then Some [cg_edge_at 0 1 CallRetEdge 11, cg_edge_at 0 2 CallRetEdge 11]
       else if i = 21 then Some [cg_edge_at 1 3 TDForkEdge 21] else None)\<rparr>"

definition loop_env :: pcg_env where
  "loop_env = \<lparr>pe_decl = (\<lambda>f. 4 \<le> f), pe_forked = (\<lambda>i. if i = 21 then Some 3 else None),
     pe_insts = (\<lambda>b. [10 * b + 10, 10 * b + 11]), pe_invoke = (\<lambda>_. False)\<rparr>"

lemma loop_ok: "pcg_ok loop_env loop_call"
proof -
  have "(\<Union>f. set (map e_src (in_edges loop_call f))) \<subseteq> {0, 1}" "(\<Union>f. set (map e_dst (out_edges loop_call f))) \<subseteq> {1, 2, 3}"
    "(\<Union>b. set (bb_succs loop_call b)) \<subseteq> {0}"
    by (auto simp: loop_call_def cg_edge_at_def empty_program_def split: if_splits)
  then have "finite (\<Union>f. set (map e_src (in_edges loop_call f)))" "finite (\<Union>f. set (map e_dst (out_edges loop_call f)))"
    "finite (\<Union>b. set (bb_succs loop_call b))" by (meson finite.intros finite_subset)+
  then show ?thesis unfolding pcg_ok_def
    by (simp add: loop_call_def loop_env_def cg_edge_at_def empty_program_def)
qed

lemma loop_analyze:
  "map_option (\<lambda>t. (spawners t, spawnees t, followers t, spawnCallSites t)) (pcg_analyze loop_env loop_call pcg_new) =
     Some ([0, 1], [3], [], [11, 21])"
  by code_simp

theorem pcg_parallel_iff_witness:
  "\<exists>t. pcg_analyze loop_env loop_call pcg_new = Some t \<and> \<not> pcg_mayHappenInParallel loop_call t 30 40 \<and>
     pcg_mayHappenInParallel loop_call t 21 40 \<and> 2 \<notin> called_after loop_env loop_call"
proof -
  obtain t where t: "pcg_analyze loop_env loop_call pcg_new = Some t" "spawners t = [0, 1]" "spawnees t = [3]" "followers t = []"
    using loop_analyze by auto
  from pcg_parallel_iff [OF loop_ok] obtain u where u: "pcg_analyze loop_env loop_call pcg_new = Some u"
    "\<And>i j. pcg_mayHappenInParallel loop_call u i j \<longleftrightarrow>
      (fun_of loop_call i \<in> spawned loop_env loop_call \<or> fun_of loop_call j \<in> spawned loop_env loop_call) \<and>
      {fun_of loop_call i, fun_of loop_call j} \<subseteq> may_spawn loop_env loop_call \<union> spawned loop_env loop_call \<union> called_after loop_env loop_call"
    by blast
  have q: "\<not> pcg_mayHappenInParallel loop_call t 30 40" "pcg_mayHappenInParallel loop_call t 21 40" "pcg_mayHappenInParallel loop_call t 40 40"
    using t(2-4) by (simp_all add: pcg_mayHappenInParallel_def mayHappenInParallelBetweenFunctions_def isSpawneeFun_def isSpawnerFun_def
        isFollowerFun_def set_find_def loop_call_def)
  have f: "fun_of loop_call 30 = 2" "fun_of loop_call 40 = 3" by (simp_all add: loop_call_def)
  have "t = u" using t(1) u(1) by simp
  then have "3 \<in> spawned loop_env loop_call" "2 \<notin> called_after loop_env loop_call"
    using q(1,3) u(2) [of 30 40] u(2) [of 40 40] unfolding f by auto
  then show ?thesis using t(1) q by blast
qed

theorem interferenceAnalysis_funs_witness:
  "\<exists>s t. pcg_analyze loop_env loop_call pcg_new = Some s \<and> interferenceAnalysis loop_call s = Some t \<and> set (mhpfuns t) = {0, 1, 3}"
proof -
  obtain s where s: "pcg_analyze loop_env loop_call pcg_new = Some s" "set (spawners s) = {0, 1}" "set (spawnees s) = {3}" "set (followers s) = {}"
    "set (mhpfuns s) = {}"
    using loop_analyze pcg_analyze_sets [OF loop_ok] by auto
  have F: "mod_funs loop_call = [0, 1, 2, 3]" "is_ext_fun loop_call = (\<lambda>_. False)" by (simp_all add: loop_call_def empty_program_def)
  have par: "mayHappenInParallelBetweenFunctions s f g \<longleftrightarrow> (f = 3 \<or> g = 3) \<and> {f, g} \<subseteq> {0, 1, 3}" for f g
    using s(2-4) by (auto simp: mayHappenInParallelBetweenFunctions_def isSpawneeFun_def isSpawnerFun_def isFollowerFun_def set_find_def)
  have "distinct (mod_funs loop_call)" by (simp add: F)
  from interferenceAnalysis_funs [OF this, of s] obtain t where t: "interferenceAnalysis loop_call s = Some t"
    "set (mhpfuns t) = {f \<in> {0, 1, 2, 3}. \<exists>g\<in>{0, 1, 2, 3}. g \<noteq> f \<and> (f = 3 \<or> g = 3) \<and> {f, g} \<subseteq> {0, 1, 3}}"
    unfolding F par s(5) by auto
  have "set (mhpfuns t) = {0, 1, 3}" unfolding t(2) by auto
  then show ?thesis using s(1) t(1) by blast
qed

end
