(* ===== verification/CallGraph.thy ===== *)
theory CallGraph
  imports IR "HOL-Library.Product_Lexorder"
begin

text \<open>
  The call graph with thread edges: \<open>PTACallGraph\<close> of \<open>include/Util/PTACallGraph.h\<close> and
  \<open>lib/Util/PTACallGraph.cpp\<close>, its subclass \<open>ThreadCallGraph\<close> of \<open>ThreadCallGraph.h\<close> and
  \<open>ThreadCallGraph.cpp\<close>, and the graph class they derive from. Edges are objects that several
  containers point to; a container compares them by kind and end points.
\<close>

section \<open>Inputs\<close>

text \<open>What the construction reads besides the program: LLVM's calls, and the results of the
  pointer analysis for indirect calls and for start routines.\<close>

record cg_env =
  ce_callsite :: "inst \<Rightarrow> bool"
  ce_dbg :: "inst \<Rightarrow> bool"
  ce_par_for :: "inst \<Rightarrow> bool"
  ce_forked :: "inst \<Rightarrow> func option"
  ce_task :: "inst \<Rightarrow> func option"
  ce_ind_calls :: "(inst \<times> func list) list"
  ce_fork_targets :: "inst \<Rightarrow> func list"
  ce_task_targets :: "inst \<Rightarrow> func list"

section \<open>State\<close>

text \<open>Sets of edges are ordered by \<open>equalGEdge\<close>: the flag, then the two node numbers. Elements
  are addresses, the positions in \<open>cg_edges\<close>.\<close>

type_synonym edge_key = "nat \<times> nat \<times> nat"
type_synonym edge_ref = nat
type_synonym edge_set = "(edge_key \<times> edge_ref) list"

fun edge_flag :: "cg_edge_kind \<Rightarrow> nat" where
  "edge_flag CallRetEdge = 0" | "edge_flag TDForkEdge = 1" | "edge_flag TDJoinEdge = 2" | "edge_flag HareParForEdge = 3"

definition es_find :: "edge_key \<Rightarrow> edge_set \<Rightarrow> edge_ref option" where
  "es_find k s = map_of s k"

definition es_insert :: "edge_key \<Rightarrow> edge_ref \<Rightarrow> edge_set \<Rightarrow> bool \<times> edge_set" where
  "es_insert k r s = (if es_find k s = None then (True, insort_key fst (k, r) s) else (False, s))"

record call_graph =
  cg_funs :: "func list"
  callGraphNodeNum :: nat
  nodeNum :: nat
  cg_in :: "nat \<Rightarrow> edge_set"
  cg_out :: "nat \<Rightarrow> edge_set"
  cg_edges :: "cg_edge list"
  funToCallGraphNodeMap :: "func \<rightharpoonup> nat"
  callinstToCallGraphEdgesMap :: "inst \<rightharpoonup> edge_set"
  csToIdMap :: "inst \<times> func \<rightharpoonup> nat"
  idToCSMap :: "nat \<rightharpoonup> inst \<times> func"
  totalCallSiteNum :: nat
  numOfResolvedIndCallEdge :: nat
  forksites :: "inst std_set"
  joinsites :: "inst std_set"
  parForSites :: "inst std_set"
  callinstToThreadForkEdgesMap :: "inst \<rightharpoonup> edge_set"
  callinstToThreadJoinEdgesMap :: "inst \<rightharpoonup> edge_set"
  callinstToHareParForEdgesMap :: "inst \<rightharpoonup> edge_set"

text \<open>The identities of call sites are static members, shared by the call graphs of a run: a graph
  starts from what the one of the pointer analysis left.\<close>

record call_ids =
  ci_csToId :: "inst \<times> func \<rightharpoonup> nat"
  ci_idToCS :: "nat \<rightharpoonup> inst \<times> func"
  ci_total :: nat

definition no_call_ids :: call_ids where
  "no_call_ids = \<lparr>ci_csToId = Map.empty, ci_idToCS = Map.empty, ci_total = 1\<rparr>"

definition cg_new :: "call_ids \<Rightarrow> call_graph" where
  "cg_new st = \<lparr>cg_funs = [], callGraphNodeNum = 0, nodeNum = 0, cg_in = (\<lambda>_. []), cg_out = (\<lambda>_. []), cg_edges = [],
     funToCallGraphNodeMap = Map.empty, callinstToCallGraphEdgesMap = Map.empty, csToIdMap = ci_csToId st,
     idToCSMap = ci_idToCS st, totalCallSiteNum = ci_total st, numOfResolvedIndCallEdge = 0, forksites = [], joinsites = [],
     parForSites = [], callinstToThreadForkEdgesMap = Map.empty, callinstToThreadJoinEdgesMap = Map.empty,
     callinstToHareParForEdgesMap = Map.empty\<rparr>"

section \<open>Nodes and edges\<close>

definition addCallGraphNode :: "func \<Rightarrow> call_graph \<Rightarrow> call_graph" where
  "addCallGraphNode f g = g\<lparr>cg_funs := cg_funs g @ [f], nodeNum := nodeNum g + 1,
     funToCallGraphNodeMap := (funToCallGraphNodeMap g)(f \<mapsto> callGraphNodeNum g), callGraphNodeNum := callGraphNodeNum g + 1\<rparr>"

definition getCallGraphNode :: "call_graph \<Rightarrow> func \<Rightarrow> nat option" where
  "getCallGraphNode g f = funToCallGraphNodeMap g f"

definition new_key :: "nat \<Rightarrow> nat \<Rightarrow> cg_edge_kind \<Rightarrow> edge_key" where
  "new_key s d k = (edge_flag k, s, d)"

text \<open>\<open>Some None\<close> is the null pointer.\<close>

definition cg_hasGraphEdge :: "call_graph \<Rightarrow> nat \<Rightarrow> nat \<Rightarrow> cg_edge_kind \<Rightarrow> edge_ref option option" where
  "cg_hasGraphEdge g s d k = (case (es_find (new_key s d k) (cg_out g s), es_find (new_key s d k) (cg_in g d)) of
     (Some r, Some r') \<Rightarrow> if r = r' then Some (Some r) else None | _ \<Rightarrow> Some None)"

definition cg_getGraphEdge :: "call_graph \<Rightarrow> nat \<Rightarrow> nat \<Rightarrow> cg_edge_kind \<Rightarrow> edge_ref option" where
  "cg_getGraphEdge g s d k = map_option snd (List.find (\<lambda>((f, s', d'), r). f = edge_flag k \<and> d' = d) (cg_out g s))"

definition addEdge :: "edge_key \<Rightarrow> edge_ref \<Rightarrow> call_graph \<Rightarrow> call_graph" where
  "addEdge k r g = (case k of (fl, s, d) \<Rightarrow> g\<lparr>cg_in := (cg_in g)(d := snd (es_insert k r (cg_in g d))),
     cg_out := (cg_out g)(s := snd (es_insert k r (cg_out g s)))\<rparr>)"

definition addCallSite :: "inst \<Rightarrow> func \<Rightarrow> call_graph \<Rightarrow> call_graph" where
  "addCallSite i f g = (case csToIdMap g (i, f) of Some _ \<Rightarrow> g
     | None \<Rightarrow> g\<lparr>csToIdMap := (csToIdMap g)((i, f) \<mapsto> totalCallSiteNum g),
         idToCSMap := (idToCSMap g)(totalCallSiteNum g \<mapsto> (i, f)), totalCallSiteNum := totalCallSiteNum g + 1\<rparr>)"

definition addCallGraphEdgeSetMap :: "inst \<Rightarrow> edge_key \<Rightarrow> edge_ref \<Rightarrow> call_graph \<Rightarrow> call_graph" where
  "addCallGraphEdgeSetMap i k r g = (let (b, s) = es_insert k r (map_at [] (callinstToCallGraphEdgesMap g) i);
     g1 = g\<lparr>callinstToCallGraphEdgesMap := (callinstToCallGraphEdgesMap g)(i \<mapsto> s)\<rparr>
     in if b then addCallSite i (e_dst (cg_edges g ! r)) g1 else g1)"

text \<open>Call sites of an edge; the assertions that a call is direct or indirect.\<close>

definition is_direct :: "cg_env \<Rightarrow> program \<Rightarrow> inst \<Rightarrow> bool" where
  "is_direct E P i \<longleftrightarrow> ce_callsite E i \<and> callee_of P i \<noteq> None"

text \<open>\<open>getForkedFun\<close> has an assertion of its own, that the call is a fork.\<close>

definition is_indirect :: "cg_env \<Rightarrow> program \<Rightarrow> inst \<Rightarrow> bool" where
  "is_indirect E P i \<longleftrightarrow> ce_callsite E i \<and> (callee_of P i = None \<or> td_fork P i \<and> ce_forked E i = None)"

definition addDirectCallSite :: "cg_env \<Rightarrow> program \<Rightarrow> edge_ref \<Rightarrow> inst \<Rightarrow> call_graph \<Rightarrow> call_graph option" where
  "addDirectCallSite E P r i g = (if is_direct E P i
     then Some (g\<lparr>cg_edges := (cg_edges g)[r := (cg_edges g ! r)\<lparr>e_direct := set_insert i (e_direct (cg_edges g ! r))\<rparr>]\<rparr>) else None)"

definition addInDirectCallSite :: "cg_env \<Rightarrow> program \<Rightarrow> edge_ref \<Rightarrow> inst \<Rightarrow> call_graph \<Rightarrow> call_graph option" where
  "addInDirectCallSite E P r i g = (if is_indirect E P i
     then Some (g\<lparr>cg_edges := (cg_edges g)[r := (cg_edges g ! r)\<lparr>e_indirect := set_insert i (e_indirect (cg_edges g ! r))\<rparr>]\<rparr>) else None)"

definition new_edge :: "func \<Rightarrow> func \<Rightarrow> cg_edge_kind \<Rightarrow> cg_edge" where
  "new_edge f h k = \<lparr>e_src = f, e_dst = h, e_kind = k, e_direct = [], e_indirect = []\<rparr>"

section \<open>Adding calls\<close>

text \<open>
  The functions that add an edge have the same shape: look for an edge of kind \<open>look\<close>,
  else create one of kind \<open>kind\<close> and enter it into the graph; add the call site with \<open>site\<close>
  and record the edge for the call with \<open>note_edge\<close>, which is told which of the two happened.
\<close>

definition put_edge :: "program \<Rightarrow> cg_edge_kind \<Rightarrow> cg_edge_kind \<Rightarrow> (edge_ref \<Rightarrow> inst \<Rightarrow> call_graph \<Rightarrow> call_graph option) \<Rightarrow>
    (bool \<Rightarrow> edge_key \<Rightarrow> edge_ref \<Rightarrow> call_graph \<Rightarrow> call_graph) \<Rightarrow> inst \<Rightarrow> func \<Rightarrow> call_graph \<Rightarrow> call_graph option" where
  "put_edge P look kind site note_edge i callee g = do {
     caller \<leftarrow> getCallGraphNode g (fun_of P i);
     d \<leftarrow> getCallGraphNode g callee;
     old \<leftarrow> cg_hasGraphEdge g caller d look;
     case old of Some r \<Rightarrow> map_option (note_edge True (new_key caller d look) r) (site r i g)
     | None \<Rightarrow> (if fun_of P i \<noteq> cg_funs g ! caller then None
         else let r = length (cg_edges g); k = new_key caller d kind in
           map_option (\<lambda>g. note_edge False k r (addEdge k r g))
             (site r i (g\<lparr>cg_edges := cg_edges g @ [new_edge (fun_of P i) callee kind]\<rparr>)))}"

definition addDirectCallGraphEdge :: "cg_env \<Rightarrow> program \<Rightarrow> inst \<Rightarrow> call_graph \<Rightarrow> call_graph option" where
  "addDirectCallGraphEdge E P i g = (case callee_of P i of None \<Rightarrow> None
     | Some callee \<Rightarrow> put_edge P CallRetEdge CallRetEdge (addDirectCallSite E P) (\<lambda>_. addCallGraphEdgeSetMap i) i callee g)"

definition addIndirectCallGraphEdge :: "cg_env \<Rightarrow> program \<Rightarrow> inst \<Rightarrow> func \<Rightarrow> call_graph \<Rightarrow> call_graph option" where
  "addIndirectCallGraphEdge E P i callee g = put_edge P CallRetEdge CallRetEdge (addInDirectCallSite E P)
     (\<lambda>_. addCallGraphEdgeSetMap i) i callee (g\<lparr>numOfResolvedIndCallEdge := numOfResolvedIndCallEdge g + 1\<rparr>)"

definition buildCallGraph :: "cg_env \<Rightarrow> program \<Rightarrow> call_graph \<Rightarrow> call_graph option" where
  "buildCallGraph E P g = foldM (\<lambda>f. foldM (\<lambda>i g. if ce_callsite E i \<and> \<not> ce_dbg E i \<and> callee_of P i \<noteq> None
       then addDirectCallGraphEdge E P i g else Some g) (fun_insts P f)) (mod_funs P) (fold addCallGraphNode (mod_funs P) g)"

section \<open>Threads\<close>

definition addForksite :: "inst \<Rightarrow> call_graph \<Rightarrow> call_graph" where
  "addForksite i g = g\<lparr>callinstToThreadForkEdgesMap := map_touch [] i (callinstToThreadForkEdgesMap g), forksites := set_insert i (forksites g)\<rparr>"

definition addJoinsite :: "inst \<Rightarrow> call_graph \<Rightarrow> call_graph" where
  "addJoinsite i g = g\<lparr>callinstToThreadJoinEdgesMap := map_touch [] i (callinstToThreadJoinEdgesMap g), joinsites := set_insert i (joinsites g)\<rparr>"

definition addParForSite :: "inst \<Rightarrow> call_graph \<Rightarrow> call_graph" where
  "addParForSite i g = g\<lparr>callinstToHareParForEdgesMap := map_touch [] i (callinstToHareParForEdgesMap g), parForSites := set_insert i (parForSites g)\<rparr>"

definition addThreadForkEdgeSetMap :: "inst \<Rightarrow> edge_key \<Rightarrow> edge_ref \<Rightarrow> call_graph \<Rightarrow> call_graph" where
  "addThreadForkEdgeSetMap i k r g = addCallGraphEdgeSetMap i k r (g\<lparr>callinstToThreadForkEdgesMap :=
     (callinstToThreadForkEdgesMap g)(i \<mapsto> snd (es_insert k r (map_at [] (callinstToThreadForkEdgesMap g) i)))\<rparr>)"

definition addThreadJoinEdgeSetMap :: "inst \<Rightarrow> edge_key \<Rightarrow> edge_ref \<Rightarrow> call_graph \<Rightarrow> call_graph" where
  "addThreadJoinEdgeSetMap i k r g = addCallGraphEdgeSetMap i k r (g\<lparr>callinstToThreadJoinEdgesMap :=
     (callinstToThreadJoinEdgesMap g)(i \<mapsto> snd (es_insert k r (map_at [] (callinstToThreadJoinEdgesMap g) i)))\<rparr>)"

definition addHareParForEdgeSetMap :: "inst \<Rightarrow> edge_key \<Rightarrow> edge_ref \<Rightarrow> call_graph \<Rightarrow> call_graph" where
  "addHareParForEdgeSetMap i k r g = addCallGraphEdgeSetMap i k r (g\<lparr>callinstToHareParForEdgesMap :=
     (callinstToHareParForEdgesMap g)(i \<mapsto> snd (es_insert k r (map_at [] (callinstToHareParForEdgesMap g) i)))\<rparr>)"

definition addDirectForkEdge :: "cg_env \<Rightarrow> program \<Rightarrow> inst \<Rightarrow> call_graph \<Rightarrow> call_graph option" where
  "addDirectForkEdge E P i g = (case ce_forked E i of None \<Rightarrow> None
     | Some forkee \<Rightarrow> put_edge P TDForkEdge TDForkEdge (addDirectCallSite E P) (\<lambda>_. addThreadForkEdgeSetMap i) i forkee g)"

definition addIndirectForkEdge :: "cg_env \<Rightarrow> program \<Rightarrow> inst \<Rightarrow> func \<Rightarrow> call_graph \<Rightarrow> call_graph option" where
  "addIndirectForkEdge E P i callee = put_edge P TDForkEdge TDForkEdge (addInDirectCallSite E P) (\<lambda>_. addThreadForkEdgeSetMap i) i callee"

text \<open>The edge of a parallel loop is looked for under the kind of a fork.\<close>

definition addDirectParForEdge :: "cg_env \<Rightarrow> program \<Rightarrow> inst \<Rightarrow> call_graph \<Rightarrow> call_graph option" where
  "addDirectParForEdge E P i g = (case ce_task E i of None \<Rightarrow> None
     | Some task \<Rightarrow> put_edge P TDForkEdge HareParForEdge (addDirectCallSite E P)
         (\<lambda>found. if found then addThreadForkEdgeSetMap i else addHareParForEdgeSetMap i) i task g)"

definition addIndirectParForEdge :: "cg_env \<Rightarrow> program \<Rightarrow> inst \<Rightarrow> func \<Rightarrow> call_graph \<Rightarrow> call_graph option" where
  "addIndirectParForEdge E P i callee = put_edge P HareParForEdge HareParForEdge (addInDirectCallSite E P) (\<lambda>_. addHareParForEdgeSetMap i) i callee"

definition tcg_site :: "cg_env \<Rightarrow> program \<Rightarrow> inst \<Rightarrow> call_graph \<Rightarrow> call_graph option" where
  "tcg_site E P i g = (if td_fork P i then
       (let g1 = addForksite i g in if ce_forked E i \<noteq> None then addDirectForkEdge E P i g1 else Some g1)
     else if ce_par_for E i then
       (let g1 = addParForSite i g in if ce_task E i \<noteq> None then addDirectParForEdge E P i g1 else Some g1)
     else Some g)"

definition tcg_build :: "cg_env \<Rightarrow> program \<Rightarrow> call_graph \<Rightarrow> call_graph option" where
  "tcg_build E P g = map_option (fold (\<lambda>f. fold (\<lambda>i g. if td_join P i then addJoinsite i g else g) (fun_insts P f)) (mod_funs P))
     (foldM (\<lambda>f. foldM (tcg_site E P) (fun_insts P f)) (mod_funs P) g)"

text \<open>The constructor: the base class builds the calls, then the thread edges are added.\<close>

definition ThreadCallGraph_new :: "cg_env \<Rightarrow> program \<Rightarrow> call_ids \<Rightarrow> call_graph option" where
  "ThreadCallGraph_new E P st = Option.bind (buildCallGraph E P (cg_new st)) (tcg_build E P)"

text \<open>Start routines of parallel loops are added as fork edges as well.\<close>

definition updateCallGraph :: "cg_env \<Rightarrow> program \<Rightarrow> call_graph \<Rightarrow> call_graph option" where
  "updateCallGraph E P g = do {
     g1 \<leftarrow> foldM (\<lambda>(i, fs). foldM (addIndirectCallGraphEdge E P i) fs) (ce_ind_calls E) g;
     g2 \<leftarrow> foldM (\<lambda>i g. if ce_forked E i = None then foldM (addIndirectForkEdge E P i) (ce_fork_targets E i) g else Some g) (forksites g1) g1;
     foldM (\<lambda>i g. if ce_task E i = None then foldM (addIndirectForkEdge E P i) (ce_task_targets E i) g else Some g) (parForSites g2) g2}"

text \<open>A join edge belongs to one call; it is not entered into the graph.\<close>

definition addJoinEdge :: "cg_env \<Rightarrow> program \<Rightarrow> inst \<Rightarrow> inst \<Rightarrow> call_graph \<Rightarrow> call_graph option" where
  "addJoinEdge E P i fs g = do {
     s \<leftarrow> getCallGraphNode g (fun_of P i);
     routine \<leftarrow> ce_forked E fs;
     d \<leftarrow> getCallGraphNode g routine;
     let k = new_key s d TDJoinEdge;
     case Option.bind (callinstToThreadJoinEdgesMap g i) (es_find k) of
       Some r \<Rightarrow> map_option (addThreadJoinEdgeSetMap i k r) (addDirectCallSite E P r i g)
     | None \<Rightarrow> if fun_of P i \<noteq> cg_funs g ! s then None
         else let r = length (cg_edges g) in map_option (addThreadJoinEdgeSetMap i k r)
           (addDirectCallSite E P r i (g\<lparr>cg_edges := cg_edges g @ [new_edge (fun_of P i) routine TDJoinEdge]\<rparr>))}"

definition updateJoinEdge :: "cg_env \<Rightarrow> program \<Rightarrow> call_graph \<Rightarrow> call_graph option" where
  "updateJoinEdge E P g = foldM (\<lambda>i g. let forkset = filter (\<lambda>f. alias_bool (pta_alias P (joined_thread P i) (forked_thread P f))) (forksites g)
     in if forkset = [] then None else foldM (addJoinEdge E P i) forkset g) (joinsites g) g"

section \<open>Queries\<close>

definition hasCallGraphEdge :: "call_graph \<Rightarrow> inst \<Rightarrow> bool" where
  "hasCallGraphEdge g i \<longleftrightarrow> i \<in> dom (callinstToCallGraphEdgesMap g)"

definition set_edges :: "call_graph \<Rightarrow> edge_set \<Rightarrow> cg_edge list" where
  "set_edges g s = map (\<lambda>(k, r). cg_edges g ! r) s"

definition getCallSiteID :: "call_graph \<Rightarrow> inst \<Rightarrow> func \<Rightarrow> nat option" where
  "getCallSiteID g i f = csToIdMap g (i, f)"

definition getCallSitePair :: "call_graph \<Rightarrow> nat \<Rightarrow> (inst \<times> func) option" where
  "getCallSitePair g n = idToCSMap g n"

definition getAllCallSitesInvokingCallee :: "call_graph \<Rightarrow> func \<Rightarrow> inst std_set \<Rightarrow> inst std_set option" where
  "getAllCallSitesInvokingCallee g f cs = map_option (\<lambda>n.
     fold (\<lambda>e cs. fold set_insert (e_indirect e) (fold set_insert (e_direct e) cs)) (set_edges g (cg_in g n)) cs) (getCallGraphNode g f)"

definition getDirCallSitesInvokingCallee :: "call_graph \<Rightarrow> func \<Rightarrow> inst std_set \<Rightarrow> inst std_set option" where
  "getDirCallSitesInvokingCallee g f cs = map_option (\<lambda>n.
     fold (\<lambda>e. fold set_insert (e_direct e)) (set_edges g (cg_in g n)) cs) (getCallGraphNode g f)"

definition getIndCallSitesInvokingCallee :: "call_graph \<Rightarrow> func \<Rightarrow> inst std_set \<Rightarrow> inst std_set option" where
  "getIndCallSitesInvokingCallee g f cs = map_option (\<lambda>n.
     fold (\<lambda>e. fold set_insert (e_indirect e)) (set_edges g (cg_in g n)) cs) (getCallGraphNode g f)"

definition getJoinSites :: "call_graph \<Rightarrow> func \<Rightarrow> inst std_set \<Rightarrow> inst std_set" where
  "getJoinSites g f cs = fold (\<lambda>i cs. if \<exists>e\<in>set (set_edges g (map_at [] (callinstToThreadJoinEdgesMap g) i)). e_dst e = f
     then set_insert i cs else cs) (sorted_list_of_set (dom (callinstToThreadJoinEdgesMap g))) cs"

section \<open>Reachability from main\<close>

record entry_search =
  es_stack :: "nat list"
  es_visited :: "nat set"
  es_found :: bool

definition entry_push :: "nat \<Rightarrow> entry_search \<Rightarrow> entry_search" where
  "entry_push n s = (if n \<notin> es_visited s then s\<lparr>es_visited := insert n (es_visited s), es_stack := n # es_stack s\<rparr> else s)"

definition entry_step :: "program \<Rightarrow> call_graph \<Rightarrow> entry_search \<Rightarrow> entry_search" where
  "entry_step P g s = (case es_stack s of [] \<Rightarrow> s
     | n # ns \<Rightarrow> if fun_name P (cg_funs g ! n) = ''main'' then s\<lparr>es_stack := ns, es_found := True\<rparr>
         else fold entry_push (map (\<lambda>((fl, src, dst), r). src) (cg_in g n)) (s\<lparr>es_stack := ns\<rparr>))"

definition isReachableFromProgEntry :: "program \<Rightarrow> call_graph \<Rightarrow> nat \<Rightarrow> bool option" where
  "isReachableFromProgEntry P g n = map_option es_found (while_option (\<lambda>s. es_stack s \<noteq> [] \<and> \<not> es_found s) (entry_step P g)
     \<lparr>es_stack = [n], es_visited = {n}, es_found = False\<rparr>)"

end
