(* ===== verification/CallGraphEdges.thy ===== *)
theory CallGraphEdges
  imports CallGraph CallGraphSCC
begin

text \<open>
  What the call graph holds when it is built: the invariant that ties the edges of the nodes, the edges of
  the call sites and the numbers of call sites to the set of calls found, and that every
  function that adds an edge keeps it.
\<close>

section \<open>Sets of edges\<close>

definition es_ok :: "edge_set \<Rightarrow> bool" where
  "es_ok s \<longleftrightarrow> sorted_wrt (<) (map fst s)"

lemma es_ok_iff: "es_ok s \<longleftrightarrow> sorted (map fst s) \<and> distinct (map fst s)"
  by (simp add: es_ok_def strict_sorted_iff)

lemma es_find_set: "es_ok s \<Longrightarrow> es_find k s = Some r \<longleftrightarrow> (k, r) \<in> set s"
  by (simp add: es_find_def es_ok_iff)

lemma es_insert_effect:
  assumes "es_ok s"
  shows "es_ok (snd (es_insert k r s))" "fst (es_insert k r s) \<longleftrightarrow> k \<notin> fst ` set s"
    "set (snd (es_insert k r s)) = (if k \<in> fst ` set s then set s else insert (k, r) (set s))"
proof -
  have d: "es_find k s = None \<longleftrightarrow> k \<notin> fst ` set s" by (simp add: es_find_def map_of_eq_None_iff)
  show "fst (es_insert k r s) \<longleftrightarrow> k \<notin> fst ` set s"
    "set (snd (es_insert k r s)) = (if k \<in> fst ` set s then set s else insert (k, r) (set s))"
    using d by (auto simp: es_insert_def set_insort_key)
  have "sorted (map fst (insort_key fst (k, r) s))" using assms sorted_insort_key [of fst "(k, r)" s] by (simp add: es_ok_iff)
  moreover have "mset (map fst (insort_key fst (k, r) s)) = mset (k # map fst s)" by simp
  then have "distinct (map fst (insort_key fst (k, r) s)) \<longleftrightarrow> distinct (k # map fst s)" by (metis mset_eq_imp_distinct_iff)
  ultimately show "es_ok (snd (es_insert k r s))" using assms d by (auto simp: es_insert_def es_ok_iff)
qed

section \<open>The invariant\<close>

definition nodes_ok :: "call_graph \<Rightarrow> bool" where
  "nodes_ok g \<longleftrightarrow> callGraphNodeNum g = length (cg_funs g) \<and> distinct (cg_funs g) \<and>
     (\<forall>f n. funToCallGraphNodeMap g f = Some n \<longleftrightarrow> n < length (cg_funs g) \<and> cg_funs g ! n = f)"

definition node_of :: "call_graph \<Rightarrow> func \<Rightarrow> nat" where
  "node_of g f = the (funToCallGraphNodeMap g f)"

definition cg_shape :: "call_graph \<Rightarrow> (func \<times> func \<times> cg_edge_kind) list" where
  "cg_shape g = map (\<lambda>e. (e_src e, e_dst e, e_kind e)) (cg_edges g)"

definition ref_key :: "call_graph \<Rightarrow> edge_ref \<Rightarrow> edge_key" where
  "ref_key g r = (case cg_shape g ! r of (f, h, k) \<Rightarrow> new_key (node_of g f) (node_of g h) k)"

definition cg_sites :: "call_graph \<Rightarrow> edge_ref \<Rightarrow> inst set" where
  "cg_sites g r = set (e_direct (cg_edges g ! r)) \<union> set (e_indirect (cg_edges g ! r))"

definition graph_ok :: "call_graph \<Rightarrow> bool" where
  "graph_ok g \<longleftrightarrow> (\<forall>(f, h, k)\<in>set (cg_shape g). f \<in> set (cg_funs g) \<and> h \<in> set (cg_funs g)) \<and> distinct (cg_shape g) \<and>
     (\<forall>n. es_ok (cg_out g n) \<and> set (cg_out g n) = {(ref_key g r, r) | r. r < length (cg_shape g) \<and> node_of g (fst (cg_shape g ! r)) = n}) \<and>
     (\<forall>n. es_ok (cg_in g n) \<and> set (cg_in g n) = {(ref_key g r, r) | r. r < length (cg_shape g) \<and> node_of g (fst (snd (cg_shape g ! r))) = n})"

text \<open>\<open>C\<close> are the calls found: the site, the function called and the kind.\<close>

type_synonym call_set = "(inst \<times> func \<times> cg_edge_kind) set"

definition sites_ok :: "program \<Rightarrow> call_set \<Rightarrow> call_graph \<Rightarrow> bool" where
  "sites_ok P C g \<longleftrightarrow> (\<forall>r f h k. r < length (cg_shape g) \<longrightarrow> cg_shape g ! r = (f, h, k) \<longrightarrow>
       cg_sites g r = {i. fun_of P i = f \<and> (i, h, k) \<in> C} \<and> cg_sites g r \<noteq> {}) \<and>
     (\<forall>i h k. (i, h, k) \<in> C \<longrightarrow> (fun_of P i, h, k) \<in> set (cg_shape g))"

definition calls_ok :: "call_graph \<Rightarrow> bool" where
  "calls_ok g \<longleftrightarrow> (\<forall>i. case callinstToCallGraphEdgesMap g i of
       None \<Rightarrow> (\<forall>r<length (cg_shape g). i \<notin> cg_sites g r)
     | Some s \<Rightarrow> es_ok s \<and> s \<noteq> [] \<and> set s = {(ref_key g r, r) | r. r < length (cg_shape g) \<and> i \<in> cg_sites g r})"

definition forks_ok :: "call_graph \<Rightarrow> bool" where
  "forks_ok g \<longleftrightarrow> std_set_ok (forksites g) \<and> dom (callinstToThreadForkEdgesMap g) = set (forksites g) \<and>
     (\<forall>i. es_ok (map_at [] (callinstToThreadForkEdgesMap g) i) \<and> set (map_at [] (callinstToThreadForkEdgesMap g) i) =
       {(ref_key g r, r) | r. r < length (cg_shape g) \<and> snd (snd (cg_shape g ! r)) = TDForkEdge \<and> i \<in> cg_sites g r})"

definition ids_ok :: "call_set \<Rightarrow> call_graph \<Rightarrow> bool" where
  "ids_ok C g \<longleftrightarrow> 1 \<le> totalCallSiteNum g \<and> (\<forall>i h k. (i, h, k) \<in> C \<longrightarrow> (i, h) \<in> dom (csToIdMap g)) \<and>
     (\<forall>c n. csToIdMap g c = Some n \<longleftrightarrow> idToCSMap g n = Some c) \<and> (\<forall>n c. idToCSMap g n = Some c \<longrightarrow> 1 \<le> n \<and> n < totalCallSiteNum g)"

definition cg_inv :: "program \<Rightarrow> call_set \<Rightarrow> call_graph \<Rightarrow> bool" where
  "cg_inv P C g \<longleftrightarrow> nodes_ok g \<and> graph_ok g \<and> sites_ok P C g \<and> calls_ok g \<and> forks_ok g \<and> ids_ok C g"

lemma node_of_props:
  assumes "nodes_ok g" "f \<in> set (cg_funs g)"
  shows "getCallGraphNode g f = Some (node_of g f)" "node_of g f < length (cg_funs g)" "cg_funs g ! node_of g f = f"
proof -
  obtain n where "n < length (cg_funs g)" "cg_funs g ! n = f" using assms(2) by (auto simp: in_set_conv_nth)
  then have n: "funToCallGraphNodeMap g f = Some n" using assms(1) by (simp add: nodes_ok_def)
  then have "node_of g f = n" by (simp add: node_of_def)
  then show "getCallGraphNode g f = Some (node_of g f)" "node_of g f < length (cg_funs g)" "cg_funs g ! node_of g f = f"
    using n \<open>n < length (cg_funs g)\<close> \<open>cg_funs g ! n = f\<close> by (simp_all add: getCallGraphNode_def)
qed

lemma node_of_inj: "nodes_ok g \<Longrightarrow> f \<in> set (cg_funs g) \<Longrightarrow> h \<in> set (cg_funs g) \<Longrightarrow> node_of g f = node_of g h \<longleftrightarrow> f = h"
  using node_of_props(3) by metis

lemma edge_flag_inj: "edge_flag j = edge_flag k \<longleftrightarrow> j = k"
  by (cases j; cases k) simp_all

lemma shape_funs:
  assumes "graph_ok g" "r < length (cg_shape g)" "cg_shape g ! r = (f, h, k)"
  shows "f \<in> set (cg_funs g)" "h \<in> set (cg_funs g)"
  using assms nth_mem [OF assms(2)] unfolding graph_ok_def by auto

text \<open>The key of an edge determines its address.\<close>

lemma ref_key_inj:
  assumes "nodes_ok g" "graph_ok g" "r < length (cg_shape g)" "r' < length (cg_shape g)"
  shows "ref_key g r = ref_key g r' \<longleftrightarrow> r = r'"
proof
  obtain f h k where s: "cg_shape g ! r = (f, h, k)" by (rule prod_cases3)
  obtain f' h' k' where s': "cg_shape g ! r' = (f', h', k')" by (rule prod_cases3)
  assume "ref_key g r = ref_key g r'"
  then have "node_of g f = node_of g f'" "node_of g h = node_of g h'" "k = k'"
    by (simp_all add: ref_key_def s s' new_key_def edge_flag_inj)
  then have "cg_shape g ! r = cg_shape g ! r'"
    using node_of_inj [OF assms(1)] shape_funs [OF assms(2,3) s] shape_funs [OF assms(2,4) s'] s s' by simp
  then show "r = r'" using assms(2-4) unfolding graph_ok_def by (simp add: nth_eq_iff_index_eq)
qed simp

lemma ref_key_new:
  assumes "nodes_ok g" "graph_ok g" "f \<in> set (cg_funs g)" "h \<in> set (cg_funs g)" "r < length (cg_shape g)"
  shows "ref_key g r = new_key (node_of g f) (node_of g h) k \<longleftrightarrow> cg_shape g ! r = (f, h, k)"
proof -
  obtain f' h' k' where s: "cg_shape g ! r = (f', h', k')" by (rule prod_cases3)
  then show ?thesis using node_of_inj [OF assms(1)] assms(3,4) shape_funs [OF assms(2,5) s]
    by (auto simp: ref_key_def new_key_def edge_flag_inj)
qed

lemma hasGraphEdge_iff:
  assumes "nodes_ok g" "graph_ok g" "f \<in> set (cg_funs g)" "h \<in> set (cg_funs g)"
  shows "(\<exists>r. r < length (cg_shape g) \<and> cg_shape g ! r = (f, h, k) \<and> cg_hasGraphEdge g (node_of g f) (node_of g h) k = Some (Some r)) \<or>
    (f, h, k) \<notin> set (cg_shape g) \<and> cg_hasGraphEdge g (node_of g f) (node_of g h) k = Some None"
proof -
  let ?key = "new_key (node_of g f) (node_of g h) k"
  have ok: "es_ok (cg_out g n)" "set (cg_out g n) = {(ref_key g r, r) | r. r < length (cg_shape g) \<and> node_of g (fst (cg_shape g ! r)) = n}"
    "es_ok (cg_in g n)" "set (cg_in g n) = {(ref_key g r, r) | r. r < length (cg_shape g) \<and> node_of g (fst (snd (cg_shape g ! r))) = n}" for n
    using assms(2) unfolding graph_ok_def by blast+
  have out: "es_find ?key (cg_out g (node_of g f)) = Some r \<longleftrightarrow> r < length (cg_shape g) \<and> cg_shape g ! r = (f, h, k)" for r
    unfolding es_find_set [OF ok(1)] ok(2) using ref_key_new [OF assms, of r k] by auto
  have inn: "es_find ?key (cg_in g (node_of g h)) = Some r \<longleftrightarrow> r < length (cg_shape g) \<and> cg_shape g ! r = (f, h, k)" for r
    unfolding es_find_set [OF ok(3)] ok(4) using ref_key_new [OF assms, of r k] by auto
  have same: "es_find ?key (cg_in g (node_of g h)) = es_find ?key (cg_out g (node_of g f))"
    using out inn by (metis option.exhaust)
  show ?thesis
  proof (cases "es_find ?key (cg_out g (node_of g f))")
    case None
    then have "(f, h, k) \<notin> set (cg_shape g)" using out by (auto simp: in_set_conv_nth)
    then show ?thesis using None same by (simp add: cg_hasGraphEdge_def)
  next
    case (Some r)
    then have "cg_hasGraphEdge g (node_of g f) (node_of g h) k = Some (Some r)" using same by (simp add: cg_hasGraphEdge_def)
    then show ?thesis using Some out [of r] by blast
  qed
qed

section \<open>Adding an edge\<close>

definition add_site :: "bool \<Rightarrow> inst \<Rightarrow> cg_edge \<Rightarrow> cg_edge" where
  "add_site b i e = (if b then e\<lparr>e_direct := set_insert i (e_direct e)\<rparr> else e\<lparr>e_indirect := set_insert i (e_indirect e)\<rparr>)"

definition site_added :: "bool \<Rightarrow> edge_ref \<Rightarrow> inst \<Rightarrow> call_graph \<Rightarrow> call_graph" where
  "site_added b r i g = g\<lparr>cg_edges := (cg_edges g)[r := add_site b i (cg_edges g ! r)]\<rparr>"

lemma add_site_simps [simp]:
  "e_src (add_site b i e) = e_src e" "e_dst (add_site b i e) = e_dst e" "e_kind (add_site b i e) = e_kind e"
  "set (e_direct (add_site b i e)) \<union> set (e_indirect (add_site b i e)) = insert i (set (e_direct e) \<union> set (e_indirect e))"
  by (auto simp: add_site_def)

lemma site_added_direct: "is_direct E P i \<Longrightarrow> addDirectCallSite E P r i g = Some (site_added True r i g)"
  by (simp add: addDirectCallSite_def site_added_def add_site_def)

lemma site_added_indirect: "is_indirect E P i \<Longrightarrow> addInDirectCallSite E P r i g = Some (site_added False r i g)"
  by (simp add: addInDirectCallSite_def site_added_def add_site_def)

abbreviation same_but_edges :: "call_graph \<Rightarrow> call_graph \<Rightarrow> bool" where
  "same_but_edges g h \<equiv> g\<lparr>cg_in := \<lambda>_. [], cg_out := \<lambda>_. [], cg_edges := []\<rparr> = h\<lparr>cg_in := \<lambda>_. [], cg_out := \<lambda>_. [], cg_edges := []\<rparr>"

lemma same_but_edgesD:
  assumes "same_but_edges g h"
  shows "cg_funs g = cg_funs h" "callGraphNodeNum g = callGraphNodeNum h" "funToCallGraphNodeMap g = funToCallGraphNodeMap h"
    "callinstToCallGraphEdgesMap g = callinstToCallGraphEdgesMap h" "csToIdMap g = csToIdMap h" "idToCSMap g = idToCSMap h"
    "totalCallSiteNum g = totalCallSiteNum h" "forksites g = forksites h" "joinsites g = joinsites h" "parForSites g = parForSites h"
    "callinstToThreadForkEdgesMap g = callinstToThreadForkEdgesMap h"
  using assms by (cases g; cases h; simp)+

lemma site_added_shape:
  assumes "r < length (cg_edges g)"
  shows "cg_shape (site_added b r i g) = cg_shape g" "cg_sites (site_added b r i g) = (cg_sites g)(r := insert i (cg_sites g r))"
proof -
  have "map (\<lambda>e. (e_src e, e_dst e, e_kind e)) ((cg_edges g)[r := add_site b i (cg_edges g ! r)]) =
      (map (\<lambda>e. (e_src e, e_dst e, e_kind e)) (cg_edges g))[r := (e_src (cg_edges g ! r), e_dst (cg_edges g ! r), e_kind (cg_edges g ! r))]"
    by (simp add: map_update)
  then show "cg_shape (site_added b r i g) = cg_shape g"
    using assms by (simp add: cg_shape_def site_added_def map_update list_update_same_conv)
  show "cg_sites (site_added b r i g) = (cg_sites g)(r := insert i (cg_sites g r))"
  proof (rule ext)
    fix x show "cg_sites (site_added b r i g) x = ((cg_sites g)(r := insert i (cg_sites g r))) x"
      using assms add_site_simps(4) [of b i "cg_edges g ! r"] unfolding cg_sites_def site_added_def
      by (cases "x = r") simp_all
  qed
qed

lemma nodes_ok_cong: "cg_funs g = cg_funs h \<Longrightarrow> callGraphNodeNum g = callGraphNodeNum h \<Longrightarrow>
    funToCallGraphNodeMap g = funToCallGraphNodeMap h \<Longrightarrow> nodes_ok g = nodes_ok h \<and> node_of g = node_of h"
  by (simp add: nodes_ok_def node_of_def fun_eq_iff)

lemma graph_ok_cong: "cg_funs g = cg_funs h \<Longrightarrow> node_of g = node_of h \<Longrightarrow> cg_shape g = cg_shape h \<Longrightarrow> cg_in g = cg_in h \<Longrightarrow>
    cg_out g = cg_out h \<Longrightarrow> graph_ok g = graph_ok h \<and> ref_key g = ref_key h"
  by (simp add: graph_ok_def ref_key_def fun_eq_iff)

text \<open>A new edge enters both its nodes.\<close>

lemma addEdge_ok:
  assumes N: "nodes_ok g" and G: "graph_ok g" and f: "f \<in> set (cg_funs g)" "h \<in> set (cg_funs g)" and new: "(f, h, k) \<notin> set (cg_shape g)"
    and g1: "cg_shape g1 = cg_shape g @ [(f, h, k)]" "cg_funs g1 = cg_funs g" "node_of g1 = node_of g" "cg_in g1 = cg_in g" "cg_out g1 = cg_out g"
  shows "graph_ok (addEdge (new_key (node_of g f) (node_of g h) k) (length (cg_shape g)) g1)"
proof -
  let ?key = "new_key (node_of g f) (node_of g h) k" and ?r = "length (cg_shape g)"
  let ?g = "addEdge ?key ?r g1"
  have A: "cg_shape ?g = cg_shape g1" "cg_funs ?g = cg_funs g" "node_of ?g = node_of g"
    "cg_out ?g = (cg_out g)(node_of g f := snd (es_insert ?key ?r (cg_out g (node_of g f))))"
    "cg_in ?g = (cg_in g)(node_of g h := snd (es_insert ?key ?r (cg_in g (node_of g h))))"
    using g1 by (simp_all add: addEdge_def new_key_def cg_shape_def node_of_def fun_eq_iff)
  have key: "ref_key ?g r = (if r = ?r then ?key else ref_key g r)" if "r \<le> ?r" for r
    using that by (simp add: ref_key_def A g1(1) nth_append)
  have ok: "es_ok (cg_out g n)" "set (cg_out g n) = {(ref_key g r, r) | r. r < ?r \<and> node_of g (fst (cg_shape g ! r)) = n}"
    "es_ok (cg_in g n)" "set (cg_in g n) = {(ref_key g r, r) | r. r < ?r \<and> node_of g (fst (snd (cg_shape g ! r))) = n}" for n
    using G unfolding graph_ok_def by blast+
  have fresh: "?key \<noteq> ref_key g r" if "r < ?r" for r
    using ref_key_new [OF N G f that, of k] new nth_mem [OF that] by metis
  have lt: "{r. r < length (cg_shape ?g) \<and> p r} = {r. r < ?r \<and> p r} \<union> {r. r = ?r \<and> p r}" for p :: "nat \<Rightarrow> bool"
    unfolding A(1) g1(1) by auto
  have ins: "set ((c(m := snd (es_insert ?key ?r (c m)))) n) = {(ref_key ?g r, r) | r. r < length (cg_shape ?g) \<and> q r n}"
    "es_ok ((c(m := snd (es_insert ?key ?r (c m)))) n)"
    if c: "\<And>n. es_ok (c n)" "\<And>n. set (c n) = {(ref_key g r, r) | r. r < ?r \<and> q r n}" and m: "\<And>n. q ?r n \<longleftrightarrow> n = m"
    for c :: "nat \<Rightarrow> edge_set" and m n and q :: "nat \<Rightarrow> nat \<Rightarrow> bool"
  proof -
    have nk: "?key \<notin> fst ` set (c m)" unfolding c(2) using fresh by fastforce
    have "{(ref_key ?g r, r) | r. r < length (cg_shape ?g) \<and> q r n} =
        {(ref_key g r, r) | r. r < ?r \<and> q r n} \<union> (if n = m then {(?key, ?r)} else {})"
    proof -
      have "{(ref_key ?g r, r) | r. r < length (cg_shape ?g) \<and> q r n} = (\<lambda>r. (ref_key ?g r, r)) ` {r. r < length (cg_shape ?g) \<and> q r n}" by auto
      also have "\<dots> = (\<lambda>r. (ref_key ?g r, r)) ` {r. r < ?r \<and> q r n} \<union> (\<lambda>r. (ref_key ?g r, r)) ` {r. r = ?r \<and> q r n}"
        unfolding lt by blast
      also have "(\<lambda>r. (ref_key ?g r, r)) ` {r. r < ?r \<and> q r n} = {(ref_key g r, r) | r. r < ?r \<and> q r n}" using key by auto
      also have "(\<lambda>r. (ref_key ?g r, r)) ` {r. r = ?r \<and> q r n} = (if n = m then {(?key, ?r)} else {})" using key m by auto
      finally show ?thesis .
    qed
    then show "set ((c(m := snd (es_insert ?key ?r (c m)))) n) = {(ref_key ?g r, r) | r. r < length (cg_shape ?g) \<and> q r n}"
      using es_insert_effect(3) [OF c(1), of ?key ?r m] nk c(2) [of n] by auto
    show "es_ok ((c(m := snd (es_insert ?key ?r (c m)))) n)" using c(1) es_insert_effect(1) [OF c(1), of ?key ?r m] by simp
  qed
  have sh: "cg_shape ?g ! r = (if r = ?r then (f, h, k) else cg_shape g ! r)" if "r \<le> ?r" for r
    using that by (simp add: A(1) g1(1) nth_append)
  let ?qo = "\<lambda>r n. node_of g (fst (cg_shape ?g ! r)) = n" and ?qi = "\<lambda>r n. node_of g (fst (snd (cg_shape ?g ! r))) = n"
  have co: "set (cg_out g n) = {(ref_key g r, r) | r. r < ?r \<and> ?qo r n}" "set (cg_in g n) = {(ref_key g r, r) | r. r < ?r \<and> ?qi r n}" for n
    unfolding ok using sh by fastforce+
  have mo: "?qo ?r n \<longleftrightarrow> n = node_of g f" "?qi ?r n \<longleftrightarrow> n = node_of g h" for n using sh [of ?r] by auto
  note O = ins [where c = "cg_out g" and q = ?qo and m = "node_of g f", OF ok(1) co(1) mo(1)]
  note I = ins [where c = "cg_in g" and q = ?qi and m = "node_of g h", OF ok(3) co(2) mo(2)]
  have "\<forall>(f, h, k)\<in>set (cg_shape ?g). f \<in> set (cg_funs ?g) \<and> h \<in> set (cg_funs ?g)"
    using G f unfolding A(1,2) g1(1) graph_ok_def by auto
  moreover have "distinct (cg_shape ?g)" using G new unfolding A(1) g1(1) graph_ok_def by simp
  ultimately show ?thesis unfolding graph_ok_def A(3-5) using O I by blast
qed

text \<open>The effect of the functions that add an edge, up to the record for the call site.\<close>

lemma put_edge_effect:
  assumes N: "nodes_ok g" and G: "graph_ok g" and f: "fun_of P i \<in> set (cg_funs g)" and h: "h \<in> set (cg_funs g)"
    and site: "\<And>r g. site r i g = Some (site_added b r i g)"
  shows "\<exists>r g1. put_edge P k k site (\<lambda>_. rec_call) i h g = Some (rec_call (ref_key g1 r) r g1) \<and> same_but_edges g1 g \<and> graph_ok g1 \<and>
    r < length (cg_shape g1) \<and> cg_shape g1 ! r = (fun_of P i, h, k) \<and>
    cg_shape g1 = cg_shape g @ (if (fun_of P i, h, k) \<in> set (cg_shape g) then [] else [(fun_of P i, h, k)]) \<and>
    cg_sites g1 = (\<lambda>x. (if x < length (cg_shape g) then cg_sites g x else if x = r then {} else cg_sites g1 x) \<union> (if x = r then {i} else {}))"
proof -
  let ?f = "fun_of P i"
  note nf = node_of_props [OF N f] and nh = node_of_props [OF N h]
  have len: "length (cg_edges g) = length (cg_shape g)" by (simp add: cg_shape_def)
  consider (old) r where "r < length (cg_shape g)" "cg_shape g ! r = (?f, h, k)" "cg_hasGraphEdge g (node_of g ?f) (node_of g h) k = Some (Some r)"
    | (new) "(?f, h, k) \<notin> set (cg_shape g)" "cg_hasGraphEdge g (node_of g ?f) (node_of g h) k = Some None"
    using hasGraphEdge_iff [OF N G f h, of k] by blast
  then show ?thesis
  proof cases
    case old
    let ?g1 = "site_added b r i g"
    have sh: "cg_shape ?g1 = cg_shape g" "cg_sites ?g1 = (cg_sites g)(r := insert i (cg_sites g r))"
      using site_added_shape [of r g b i] old(1) len by simp_all
    have G1: "graph_ok ?g1" "ref_key ?g1 = ref_key g"
      using graph_ok_cong [of ?g1 g] G sh(1) by (simp_all add: site_added_def node_of_def fun_eq_iff)
    have "ref_key g r = new_key (node_of g ?f) (node_of g h) k" using ref_key_new [OF N G f h old(1)] old(2) by simp
    then have "put_edge P k k site (\<lambda>_. rec_call) i h g = Some (rec_call (ref_key ?g1 r) r ?g1)"
      using nf nh old(3) site G1(2) by (simp add: put_edge_def)
    moreover have "same_but_edges ?g1 g" by (simp add: site_added_def)
    moreover have "(?f, h, k) \<in> set (cg_shape g)" using nth_mem [OF old(1)] old(2) by simp
    ultimately show ?thesis using G1 sh old(1,2) by (intro exI [of _ r] exI [of _ ?g1]) (auto simp: fun_eq_iff)
  next
    case new
    let ?r = "length (cg_shape g)" and ?key = "new_key (node_of g ?f) (node_of g h) k"
    let ?g0 = "g\<lparr>cg_edges := cg_edges g @ [new_edge ?f h k]\<rparr>"
    let ?gs = "site_added b ?r i ?g0"
    let ?g1 = "addEdge ?key ?r ?gs"
    have r0: "?r < length (cg_edges ?g0)" using len by simp
    note sa = site_added_shape [OF r0, of b i]
    have s0: "cg_shape ?gs = cg_shape g @ [(?f, h, k)]" using sa(1) by (simp add: cg_shape_def new_edge_def)
    have sites: "cg_sites ?g1 x = (if x < ?r then cg_sites g x else if x = ?r then {} else cg_sites ?g1 x) \<union> (if x = ?r then {i} else {})" for x
    proof -
      have "cg_sites ?g1 = cg_sites ?gs" by (simp add: addEdge_def new_key_def cg_sites_def fun_eq_iff)
      moreover have "cg_sites ?g0 x = (if x < ?r then cg_sites g x else if x = ?r then {} else cg_sites ?g0 x)"
        using len by (simp add: cg_sites_def nth_append new_edge_def)
      ultimately show ?thesis using sa(2) by (cases "x < ?r"; cases "x = ?r") simp_all
    qed
    have G1: "graph_ok ?g1"
      by (rule addEdge_ok [OF N G f h new(1) s0]) (simp_all add: site_added_def node_of_def fun_eq_iff)
    have s1: "cg_shape ?g1 = cg_shape g @ [(?f, h, k)]" using s0 by (simp add: addEdge_def new_key_def cg_shape_def)
    have "node_of ?g1 = node_of g" by (simp add: addEdge_def new_key_def site_added_def node_of_def fun_eq_iff)
    then have key: "ref_key ?g1 ?r = ?key" by (simp add: ref_key_def s1)
    have "put_edge P k k site (\<lambda>_. rec_call) i h g = Some (rec_call ?key ?r ?g1)"
      using nf nh new(2) site len by (simp add: put_edge_def Let_def)
    moreover have "same_but_edges ?g1 g" by (simp add: addEdge_def new_key_def site_added_def)
    ultimately show ?thesis using G1 s1 new(1) key sites by (intro exI [of _ ?r] exI [of _ ?g1]) (simp add: fun_eq_iff)
  qed
qed

section \<open>Recording the edge for the call site\<close>

text \<open>The graph \<open>g1\<close> is \<open>g\<close> with the call site added to the edge at \<open>r\<close>, which may be new.\<close>

definition edge_put :: "program \<Rightarrow> inst \<Rightarrow> func \<Rightarrow> cg_edge_kind \<Rightarrow> edge_ref \<Rightarrow> call_graph \<Rightarrow> call_graph \<Rightarrow> bool" where
  "edge_put P i h k r g1 g \<longleftrightarrow> same_but_edges g1 g \<and> graph_ok g1 \<and>
    r < length (cg_shape g1) \<and> cg_shape g1 ! r = (fun_of P i, h, k) \<and>
    cg_shape g1 = cg_shape g @ (if (fun_of P i, h, k) \<in> set (cg_shape g) then [] else [(fun_of P i, h, k)]) \<and>
    cg_sites g1 = (\<lambda>x. (if x < length (cg_shape g) then cg_sites g x else if x = r then {} else cg_sites g1 x) \<union> (if x = r then {i} else {}))"

lemma edge_put_facts:
  assumes N: "nodes_ok g" and put: "edge_put P i h k r g1 g"
  shows "nodes_ok g1" "x < length (cg_shape g) \<Longrightarrow> ref_key g1 x = ref_key g x"
    "x < length (cg_shape g1) \<Longrightarrow> cg_sites g1 x = (if x < length (cg_shape g) then cg_sites g x else {}) \<union> (if x = r then {i} else {})"
    "x < length (cg_shape g1) \<Longrightarrow> \<not> x < length (cg_shape g) \<Longrightarrow> x = r \<and> (fun_of P i, h, k) \<notin> set (cg_shape g)"
    "length (cg_shape g) \<le> length (cg_shape g1)"
    "x < length (cg_shape g) \<Longrightarrow> cg_shape g1 ! x = cg_shape g ! x"
    "x < length (cg_shape g1) \<Longrightarrow> cg_shape g1 ! x = (fun_of P i, h, k) \<longleftrightarrow> x = r"
proof -
  note fr = same_but_edgesD [OF conjunct1 [OF put [unfolded edge_put_def]]]
  have nodes: "nodes_ok g1 = nodes_ok g \<and> node_of g1 = node_of g" by (rule nodes_ok_cong) (simp_all add: fr)
  then show "nodes_ok g1" using N by simp
  have sh: "cg_shape g1 = cg_shape g @ (if (fun_of P i, h, k) \<in> set (cg_shape g) then [] else [(fun_of P i, h, k)])"
    and r: "r < length (cg_shape g1)" "cg_shape g1 ! r = (fun_of P i, h, k)" and G1: "graph_ok g1"
    and si: "cg_sites g1 = (\<lambda>x. (if x < length (cg_shape g) then cg_sites g x else if x = r then {} else cg_sites g1 x) \<union> (if x = r then {i} else {}))"
    using put unfolding edge_put_def by blast+
  show pre: "cg_shape g1 ! x = cg_shape g ! x" if "x < length (cg_shape g)" for x using that by (subst sh) (simp add: nth_append)
  show "ref_key g1 x = ref_key g x" if "x < length (cg_shape g)" for x using pre [OF that] nodes by (simp add: ref_key_def)
  show "length (cg_shape g) \<le> length (cg_shape g1)" using arg_cong [OF sh, of length] by simp
  have uniq: "cg_shape g1 ! x = (fun_of P i, h, k) \<longleftrightarrow> x = r" if "x < length (cg_shape g1)" for x
    using G1 r that unfolding graph_ok_def by (metis nth_eq_iff_index_eq)
  then show "x < length (cg_shape g1) \<Longrightarrow> cg_shape g1 ! x = (fun_of P i, h, k) \<longleftrightarrow> x = r" .
  have new: "x = r \<and> (fun_of P i, h, k) \<notin> set (cg_shape g)" if "x < length (cg_shape g1)" "\<not> x < length (cg_shape g)" for x
  proof -
    have ns: "(fun_of P i, h, k) \<notin> set (cg_shape g)" and x: "x = length (cg_shape g)"
      using that arg_cong [OF sh, of length] by (auto split: if_splits)
    then have "cg_shape g1 ! x = (fun_of P i, h, k)" by (subst sh) (simp add: nth_append)
    then show ?thesis using uniq [OF that(1)] ns by simp
  qed
  then show "x < length (cg_shape g1) \<Longrightarrow> \<not> x < length (cg_shape g) \<Longrightarrow> x = r \<and> (fun_of P i, h, k) \<notin> set (cg_shape g)" .
  show "cg_sites g1 x = (if x < length (cg_shape g) then cg_sites g x else {}) \<union> (if x = r then {i} else {})" if "x < length (cg_shape g1)"
    using fun_cong [OF si, of x] new [OF that] by (cases "x < length (cg_shape g)") simp_all
qed

lemma edge_put_sites:
  assumes N: "nodes_ok g" and S: "sites_ok P C g" and put: "edge_put P i h k r g1 g"
  shows "sites_ok P (insert (i, h, k) C) g1"
proof -
  note F = edge_put_facts [OF N put]
  have S1: "cg_sites g x = {i. fun_of P i = f \<and> (i, h', k') \<in> C} \<and> cg_sites g x \<noteq> {}"
    if "x < length (cg_shape g)" "cg_shape g ! x = (f, h', k')" for x f h' k' using S that unfolding sites_ok_def by blast
  have S2: "(fun_of P j, h', k') \<in> set (cg_shape g)" if "(j, h', k') \<in> C" for j h' k' using S that unfolding sites_ok_def by blast
  have "cg_sites g1 x = {j. fun_of P j = f \<and> (j, h', k') \<in> insert (i, h, k) C} \<and> cg_sites g1 x \<noteq> {}"
    if x: "x < length (cg_shape g1)" "cg_shape g1 ! x = (f, h', k')" for x f h' k'
  proof (cases "x < length (cg_shape g)")
    case True
    then have s: "cg_sites g x = {j. fun_of P j = f \<and> (j, h', k') \<in> C}" "cg_sites g x \<noteq> {}" using S1 [OF True] x(2) F(6) by auto
    show ?thesis
    proof (cases "x = r")
      case True
      then have "f = fun_of P i" "h' = h" "k' = k" using F(7) [OF x(1)] x(2) by auto
      then show ?thesis using F(3) [OF x(1)] s \<open>x < length (cg_shape g)\<close> True by auto
    next
      case False
      then have "\<not> (f = fun_of P i \<and> h' = h \<and> k' = k)" using F(7) [OF x(1)] x(2) by auto
      then show ?thesis using F(3) [OF x(1)] s \<open>x < length (cg_shape g)\<close> False by auto
    qed
  next
    case False
    then have n: "x = r" "(fun_of P i, h, k) \<notin> set (cg_shape g)" using F(4) [OF x(1)] by blast+
    then have e: "f = fun_of P i" "h' = h" "k' = k" using F(7) [OF x(1)] x(2) by auto
    have "\<not> (fun_of P j = f \<and> (j, h', k') \<in> C)" for j using S2 n(2) e by metis
    then show ?thesis using F(3) [OF x(1)] False n(1) e by auto
  qed
  moreover have "(fun_of P j, h', k') \<in> set (cg_shape g1)" if "(j, h', k') \<in> insert (i, h, k) C" for j h' k'
  proof (cases "(j, h', k') \<in> C")
    case True
    then show ?thesis using S2 put unfolding edge_put_def by (metis UnCI set_append)
  next
    case False
    then have "j = i" "h' = h" "k' = k" using that by auto
    then show ?thesis using put nth_mem unfolding edge_put_def by metis
  qed
  ultimately show ?thesis unfolding sites_ok_def by blast
qed

lemma es_insert_refs:
  assumes N: "nodes_ok g" and put: "edge_put P i h k r g1 g" and q: "q r" "\<And>x. x < length (cg_shape g) \<Longrightarrow> q x \<longleftrightarrow> p x"
    and s: "es_ok s" "set s = {(ref_key g x, x) | x. x < length (cg_shape g) \<and> p x \<and> i \<in> cg_sites g x}"
  shows "es_ok (snd (es_insert (ref_key g1 r) r s))"
    "set (snd (es_insert (ref_key g1 r) r s)) = {(ref_key g1 x, x) | x. x < length (cg_shape g1) \<and> q x \<and> i \<in> cg_sites g1 x}"
    "fst (es_insert (ref_key g1 r) r s) \<longleftrightarrow> \<not> (r < length (cg_shape g) \<and> p r \<and> i \<in> cg_sites g r)"
proof -
  note F = edge_put_facts [OF N put]
  have r: "r < length (cg_shape g1)" and G1: "graph_ok g1" using put unfolding edge_put_def by blast+
  have keys: "ref_key g1 r \<in> fst ` set s \<longleftrightarrow> r < length (cg_shape g) \<and> p r \<and> i \<in> cg_sites g r"
  proof
    assume "ref_key g1 r \<in> fst ` set s"
    then obtain x where x: "ref_key g1 r = ref_key g x" "x < length (cg_shape g)" "p x" "i \<in> cg_sites g x" unfolding s(2) by auto
    then have "ref_key g1 r = ref_key g1 x" "x < length (cg_shape g1)" using F(2,5) by simp_all
    then have "r = x" using ref_key_inj [OF F(1) G1 r] by blast
    then show "r < length (cg_shape g) \<and> p r \<and> i \<in> cg_sites g r" using x by simp
  next
    assume a: "r < length (cg_shape g) \<and> p r \<and> i \<in> cg_sites g r"
    then have "(ref_key g1 r, r) \<in> set s" unfolding s(2) using F(2) [of r] by simp
    then show "ref_key g1 r \<in> fst ` set s" by force
  qed
  note E = es_insert_effect [OF s(1), of "ref_key g1 r" r]
  show "es_ok (snd (es_insert (ref_key g1 r) r s))" by (rule E(1))
  show "fst (es_insert (ref_key g1 r) r s) \<longleftrightarrow> \<not> (r < length (cg_shape g) \<and> p r \<and> i \<in> cg_sites g r)" unfolding E(2) keys ..
  have old: "set s = {(ref_key g1 x, x) | x. x < length (cg_shape g) \<and> p x \<and> i \<in> cg_sites g x}" unfolding s(2) using F(2) by fastforce
  have all: "x < length (cg_shape g1) \<and> q x \<and> i \<in> cg_sites g1 x \<longleftrightarrow> x = r \<or> x < length (cg_shape g) \<and> p x \<and> i \<in> cg_sites g x" for x
  proof (cases "x < length (cg_shape g)")
    case True
    then have "x < length (cg_shape g1)" using F(5) by simp
    then show ?thesis using F(3) [of x] True q by auto
  next
    case False
    then show ?thesis using F(3,4) [of x] r q(1) by auto
  qed
  show "set (snd (es_insert (ref_key g1 r) r s)) = {(ref_key g1 x, x) | x. x < length (cg_shape g1) \<and> q x \<and> i \<in> cg_sites g1 x}"
  proof -
    have "(ref_key g1 r, r) \<in> set s" if "ref_key g1 r \<in> fst ` set s" using that F(2) [of r] unfolding keys by (simp add: s(2))
    then have "set (snd (es_insert (ref_key g1 r) r s)) = insert (ref_key g1 r, r) (set s)" unfolding E(3) by (simp add: insert_absorb)
    then show ?thesis unfolding all old by auto
  qed
qed

lemma edge_put_other:
  assumes N: "nodes_ok g" and put: "edge_put P i h k r g1 g" and q: "\<And>x. x < length (cg_shape g) \<Longrightarrow> q x \<longleftrightarrow> p x" and j: "j \<noteq> i"
  shows "{(ref_key g1 x, x) | x. x < length (cg_shape g1) \<and> q x \<and> j \<in> cg_sites g1 x} =
    {(ref_key g x, x) | x. x < length (cg_shape g) \<and> p x \<and> j \<in> cg_sites g x}"
proof -
  note F = edge_put_facts [OF N put]
  have "x < length (cg_shape g1) \<and> q x \<and> j \<in> cg_sites g1 x \<longleftrightarrow> x < length (cg_shape g) \<and> p x \<and> j \<in> cg_sites g x" for x
  proof (cases "x < length (cg_shape g)")
    case True
    then have "x < length (cg_shape g1)" using F(5) by simp
    then show ?thesis using F(3) [of x] True q j by auto
  next
    case False
    then show ?thesis using F(3) [of x] j by auto
  qed
  then have "{(ref_key g1 x, x) | x. x < length (cg_shape g1) \<and> q x \<and> j \<in> cg_sites g1 x} =
      {(ref_key g1 x, x) | x. x < length (cg_shape g) \<and> p x \<and> j \<in> cg_sites g x}" by simp
  then show ?thesis using F(2) by auto
qed

text \<open>What \<open>addCallSite\<close> and the map of call edges do not touch.\<close>

abbreviation same_but_calls :: "call_graph \<Rightarrow> call_graph \<Rightarrow> bool" where
  "same_but_calls g h \<equiv> g\<lparr>callinstToCallGraphEdgesMap := Map.empty, csToIdMap := Map.empty, idToCSMap := Map.empty, totalCallSiteNum := 0\<rparr> =
     h\<lparr>callinstToCallGraphEdgesMap := Map.empty, csToIdMap := Map.empty, idToCSMap := Map.empty, totalCallSiteNum := 0\<rparr>"

lemma same_but_callsD:
  assumes "same_but_calls g h"
  shows "cg_funs g = cg_funs h" "callGraphNodeNum g = callGraphNodeNum h" "funToCallGraphNodeMap g = funToCallGraphNodeMap h"
    "cg_in g = cg_in h" "cg_out g = cg_out h" "cg_edges g = cg_edges h" "forksites g = forksites h" "joinsites g = joinsites h"
    "parForSites g = parForSites h" "callinstToThreadForkEdgesMap g = callinstToThreadForkEdgesMap h"
  using assms by (cases g; cases h; simp)+

lemma same_but_calls_views:
  assumes "same_but_calls g h"
  shows "nodes_ok g = nodes_ok h" "node_of g = node_of h" "cg_shape g = cg_shape h" "cg_sites g = cg_sites h" "graph_ok g = graph_ok h"
    "ref_key g = ref_key h" "forks_ok g = forks_ok h" "sites_ok P C g = sites_ok P C h"
proof -
  note D = same_but_callsD [OF assms]
  show n: "nodes_ok g = nodes_ok h" "node_of g = node_of h" using nodes_ok_cong [OF D(1-3)] by simp_all
  show s: "cg_shape g = cg_shape h" "cg_sites g = cg_sites h" by (simp_all add: cg_shape_def cg_sites_def D(6) fun_eq_iff)
  show r: "graph_ok g = graph_ok h" "ref_key g = ref_key h" using graph_ok_cong [OF D(1) n(2) s(1) D(4,5)] by simp_all
  show "forks_ok g = forks_ok h" by (simp add: forks_ok_def D s r)
  show "sites_ok P C g = sites_ok P C h" by (simp add: sites_ok_def s)
qed

lemma addCallSite_ids:
  assumes "ids_ok C g"
  shows "ids_ok (insert (i, h, k) C) (addCallSite i h g)" "same_but_calls (addCallSite i h g) g"
    "callinstToCallGraphEdgesMap (addCallSite i h g) = callinstToCallGraphEdgesMap g"
proof -
  show "same_but_calls (addCallSite i h g) g" "callinstToCallGraphEdgesMap (addCallSite i h g) = callinstToCallGraphEdgesMap g"
    by (simp_all add: addCallSite_def split: option.split)
  have g: "1 \<le> totalCallSiteNum g" "\<And>i h k. (i, h, k) \<in> C \<Longrightarrow> (i, h) \<in> dom (csToIdMap g)"
    "\<And>c n. csToIdMap g c = Some n \<longleftrightarrow> idToCSMap g n = Some c" "\<And>n c. idToCSMap g n = Some c \<Longrightarrow> 1 \<le> n \<and> n < totalCallSiteNum g"
    using assms unfolding ids_ok_def by blast+
  show "ids_ok (insert (i, h, k) C) (addCallSite i h g)"
  proof (cases "csToIdMap g (i, h)")
    case (Some n)
    then have "addCallSite i h g = g" by (simp add: addCallSite_def)
    then show ?thesis using assms Some unfolding ids_ok_def by auto
  next
    case None
    let ?n = "totalCallSiteNum g"
    let ?cs = "(csToIdMap g)((i, h) \<mapsto> ?n)" and ?id = "(idToCSMap g)(?n \<mapsto> (i, h))"
    have fresh: "idToCSMap g ?n = None" using g(4) [of ?n] by (cases "idToCSMap g ?n") auto
    have "?cs c = Some m \<longleftrightarrow> ?id m = Some c" for c m
      using g(3,4) fresh None by (cases "c = (i, h)"; cases "m = ?n") (auto, (metis less_irrefl option.distinct(1))+)
    moreover have "(j, h') \<in> dom ?cs" if "(j, h', k') \<in> insert (i, h, k) C" for j h' k' using that g(2) by auto
    moreover have "1 \<le> m \<and> m < ?n + 1" if "?id m = Some c" for m c using that g(1) g(4) [of m] by (auto split: if_splits)
    moreover have "csToIdMap (addCallSite i h g) = ?cs" "idToCSMap (addCallSite i h g) = ?id"
      "totalCallSiteNum (addCallSite i h g) = ?n + 1" using None by (simp_all add: addCallSite_def)
    ultimately show ?thesis using g(1) unfolding ids_ok_def by auto
  qed
qed

lemma note_call:
  assumes N: "nodes_ok g" and S: "sites_ok P C g" and M: "calls_ok g" and I: "ids_ok C g" and put: "edge_put P i h k r g1 g"
  shows "calls_ok (addCallGraphEdgeSetMap i (ref_key g1 r) r g1)" "ids_ok (insert (i, h, k) C) (addCallGraphEdgeSetMap i (ref_key g1 r) r g1)"
    "same_but_calls (addCallGraphEdgeSetMap i (ref_key g1 r) r g1) g1"
proof -
  let ?s = "map_at [] (callinstToCallGraphEdgesMap g) i" and ?key = "ref_key g1 r"
  let ?ins = "es_insert ?key r ?s"
  let ?g2 = "g1\<lparr>callinstToCallGraphEdgesMap := (callinstToCallGraphEdgesMap g)(i \<mapsto> snd ?ins)\<rparr>"
  note fr = same_but_edgesD [OF conjunct1 [OF put [unfolded edge_put_def]]]
  have r: "r < length (cg_shape g1)" "cg_shape g1 ! r = (fun_of P i, h, k)" using put unfolding edge_put_def by blast+
  then have dst: "e_dst (cg_edges g1 ! r) = h" by (simp add: cg_shape_def)
  have G: "addCallGraphEdgeSetMap i ?key r g1 = (if fst ?ins then addCallSite i h ?g2 else ?g2)"
    by (simp add: addCallGraphEdgeSetMap_def fr Let_def case_prod_beta dst)
  have s: "es_ok ?s" "set ?s = {(ref_key g x, x) | x. x < length (cg_shape g) \<and> True \<and> i \<in> cg_sites g x}"
    using spec [OF M [unfolded calls_ok_def], of i] by (cases "callinstToCallGraphEdgesMap g i"; simp add: es_ok_def)+
  note E = es_insert_refs [where p = "\<lambda>_. True" and q = "\<lambda>_. True", OF N put TrueI _ s, simplified]
  have g2: "same_but_calls ?g2 g1" by simp
  have I2: "ids_ok C ?g2" using I by (simp add: ids_ok_def fr)
  note A = addCallSite_ids(1) [OF I2, of i h k] addCallSite_ids(2,3) [OF I2, of i h]
  show sb: "same_but_calls (addCallGraphEdgeSetMap i ?key r g1) g1" unfolding G using A(2) g2 by simp
  have M2: "callinstToCallGraphEdgesMap (addCallGraphEdgeSetMap i ?key r g1) = (callinstToCallGraphEdgesMap g)(i \<mapsto> snd ?ins)"
    unfolding G using A(3) by simp
  note V = same_but_calls_views [OF sb]
  show "calls_ok (addCallGraphEdgeSetMap i ?key r g1)"
    unfolding calls_ok_def M2 V(3,4,6)
  proof
    fix j
    show "case ((callinstToCallGraphEdgesMap g)(i \<mapsto> snd ?ins)) j of None \<Rightarrow> \<forall>r<length (cg_shape g1). j \<notin> cg_sites g1 r
      | Some s \<Rightarrow> es_ok s \<and> s \<noteq> [] \<and> set s = {(ref_key g1 r, r) | r. r < length (cg_shape g1) \<and> j \<in> cg_sites g1 r}"
    proof (cases "j = i")
      case True
      have "i \<in> cg_sites g1 r" using edge_put_facts(3) [OF N put r(1)] by simp
      then have "(?key, r) \<in> set (snd ?ins)" using E(2) r(1) by simp
      then have "snd ?ins \<noteq> []" by auto
      then show ?thesis using E(1,2) True by simp
    next
      case False
      note o = edge_put_other [where p = "\<lambda>_. True" and q = "\<lambda>_. True", OF N put refl False, simplified]
      show ?thesis
      proof (cases "callinstToCallGraphEdgesMap g j")
        case None
        then have "{(ref_key g x, x) | x. x < length (cg_shape g) \<and> j \<in> cg_sites g x} = {}"
          using spec [OF M [unfolded calls_ok_def], of j] by simp
        then have "{(ref_key g1 x, x) | x. x < length (cg_shape g1) \<and> j \<in> cg_sites g1 x} = {}" unfolding o .
        then have "j \<notin> cg_sites g1 x" if "x < length (cg_shape g1)" for x using that by blast
        then show ?thesis using None False by simp
      next
        case (Some t)
        then show ?thesis using spec [OF M [unfolded calls_ok_def], of j] False o by simp
      qed
    qed
  qed
  show "ids_ok (insert (i, h, k) C) (addCallGraphEdgeSetMap i ?key r g1)"
  proof (cases "fst ?ins")
    case True
    then show ?thesis unfolding G using A(1) by simp
  next
    case False
    then have x: "r < length (cg_shape g)" "i \<in> cg_sites g r" using E(3) by simp_all
    then have "cg_shape g ! r = (fun_of P i, h, k)" using edge_put_facts(6) [OF N put] r(2) by simp
    then have "(i, h, k) \<in> C" using S x unfolding sites_ok_def by blast
    then show ?thesis unfolding G using I2 False by (simp add: insert_absorb)
  qed
qed

section \<open>The invariant is kept\<close>

lemma put_forks:
  assumes N: "nodes_ok g" and F: "forks_ok g" and put: "edge_put P i h k r g1 g" and k: "k \<noteq> TDForkEdge"
  shows "forks_ok g1"
proof -
  note fr = same_but_edgesD [OF conjunct1 [OF put [unfolded edge_put_def]]]
  note E = edge_put_facts [OF N put]
  have "{(ref_key g1 x, x) | x. x < length (cg_shape g1) \<and> snd (snd (cg_shape g1 ! x)) = TDForkEdge \<and> j \<in> cg_sites g1 x} =
      {(ref_key g x, x) | x. x < length (cg_shape g) \<and> snd (snd (cg_shape g ! x)) = TDForkEdge \<and> j \<in> cg_sites g x}" for j
  proof -
    have "x < length (cg_shape g1) \<and> snd (snd (cg_shape g1 ! x)) = TDForkEdge \<and> j \<in> cg_sites g1 x \<longleftrightarrow>
        x < length (cg_shape g) \<and> snd (snd (cg_shape g ! x)) = TDForkEdge \<and> j \<in> cg_sites g x" for x
    proof (cases "x < length (cg_shape g)")
      case True
      then have l: "x < length (cg_shape g1)" using E(5) by simp
      have "x = r \<longrightarrow> snd (snd (cg_shape g1 ! x)) = k" using E(7) [OF l] by (metis snd_conv)
      then show ?thesis using E(3) [OF l] E(6) [OF True] True l k by auto
    next
      case False
      then show ?thesis using E(4) [of x] E(7) [of x] k by auto
    qed
    then have "{(ref_key g1 x, x) | x. x < length (cg_shape g1) \<and> snd (snd (cg_shape g1 ! x)) = TDForkEdge \<and> j \<in> cg_sites g1 x} =
        {(ref_key g1 x, x) | x. x < length (cg_shape g) \<and> snd (snd (cg_shape g ! x)) = TDForkEdge \<and> j \<in> cg_sites g x}" by simp
    then show ?thesis using E(2) by auto
  qed
  then show ?thesis using F by (simp add: forks_ok_def fr)
qed

lemma note_fork:
  assumes N: "nodes_ok g" and F: "forks_ok g" and put: "edge_put P i h TDForkEdge r g1 g" and i: "i \<in> set (forksites g)"
    and g2: "g2 = g1\<lparr>callinstToThreadForkEdgesMap := (callinstToThreadForkEdgesMap g1)(i \<mapsto>
      snd (es_insert (ref_key g1 r) r (map_at [] (callinstToThreadForkEdgesMap g1) i)))\<rparr>"
  shows "forks_ok g2"
proof -
  note fr = same_but_edgesD [OF conjunct1 [OF put [unfolded edge_put_def]]]
  have r: "r < length (cg_shape g1)" "cg_shape g1 ! r = (fun_of P i, h, TDForkEdge)" using put unfolding edge_put_def by blast+
  let ?s = "map_at [] (callinstToThreadForkEdgesMap g) i"
  let ?p = "\<lambda>x. snd (snd (cg_shape g ! x)) = TDForkEdge" and ?q = "\<lambda>x. snd (snd (cg_shape g1 ! x)) = TDForkEdge"
  have q: "?q r" "x < length (cg_shape g) \<Longrightarrow> ?q x \<longleftrightarrow> ?p x" for x using r(2) edge_put_facts(6) [OF N put] by simp_all
  have s: "es_ok (map_at [] (callinstToThreadForkEdgesMap g) j)"
    "set (map_at [] (callinstToThreadForkEdgesMap g) j) = {(ref_key g x, x) | x. x < length (cg_shape g) \<and> ?p x \<and> j \<in> cg_sites g x}" for j
    using F unfolding forks_ok_def by blast+
  note E = es_insert_refs [where p = ?p and q = ?q, OF N put q s]
  have v: "cg_shape g2 = cg_shape g1" "cg_sites g2 = cg_sites g1" "ref_key g2 = ref_key g1" "forksites g2 = forksites g"
    "callinstToThreadForkEdgesMap g2 = (callinstToThreadForkEdgesMap g)(i \<mapsto> snd (es_insert (ref_key g1 r) r ?s))"
    unfolding g2 by (simp_all add: cg_shape_def cg_sites_def ref_key_def node_of_def fr fun_eq_iff)
  have D: "std_set_ok (forksites g)" "dom (callinstToThreadForkEdgesMap g) = set (forksites g)" using F by (simp_all add: forks_ok_def)
  have "es_ok (map_at [] (callinstToThreadForkEdgesMap g2) j) \<and> set (map_at [] (callinstToThreadForkEdgesMap g2) j) =
      {(ref_key g1 x, x) | x. x < length (cg_shape g1) \<and> ?q x \<and> j \<in> cg_sites g1 x}" for j
  proof (cases "j = i")
    case True
    then show ?thesis using E unfolding v(5) by simp
  next
    case False
    then show ?thesis using s [of j] edge_put_other [where p = ?p and q = ?q, OF N put q(2) False] unfolding v(5) by simp
  qed
  then show ?thesis using D i unfolding forks_ok_def v by (auto simp: dom_def)
qed

lemma put_note_call:
  assumes I: "cg_inv P C g" and f: "fun_of P i \<in> set (cg_funs g)" "h \<in> set (cg_funs g)" and k: "k \<noteq> TDForkEdge"
    and site: "\<And>r g. site r i g = Some (site_added b r i g)"
  shows "\<exists>g'. put_edge P k k site (\<lambda>_. addCallGraphEdgeSetMap i) i h g = Some g' \<and> cg_inv P (insert (i, h, k) C) g' \<and>
    cg_funs g' = cg_funs g \<and> forksites g' = forksites g \<and> joinsites g' = joinsites g \<and> parForSites g' = parForSites g"
proof -
  have i: "nodes_ok g" "graph_ok g" "sites_ok P C g" "calls_ok g" "forks_ok g" "ids_ok C g" using I by (simp_all add: cg_inv_def)
  obtain r g1 where p: "put_edge P k k site (\<lambda>_. addCallGraphEdgeSetMap i) i h g = Some (addCallGraphEdgeSetMap i (ref_key g1 r) r g1)"
    and put: "edge_put P i h k r g1 g"
    using put_edge_effect [where rec_call = "addCallGraphEdgeSetMap i" and k = k and site = site and i = i and b = b, OF i(1,2) f site] unfolding edge_put_def by blast
  note n = note_call [OF i(1,3,4,6) put]
  note V = same_but_calls_views [OF n(3)] and D = same_but_callsD [OF n(3)]
  note fr = same_but_edgesD [OF conjunct1 [OF put [unfolded edge_put_def]]]
  have "graph_ok g1" using put by (simp add: edge_put_def)
  then have "cg_inv P (insert (i, h, k) C) (addCallGraphEdgeSetMap i (ref_key g1 r) r g1)"
    using n(1,2) V edge_put_facts(1) [OF i(1) put] edge_put_sites [OF i(1,3) put] put_forks [OF i(1,5) put k] by (simp add: cg_inv_def)
  then show ?thesis using p D fr by auto
qed

lemma put_note_fork:
  assumes I: "cg_inv P C g" and f: "fun_of P i \<in> set (cg_funs g)" "h \<in> set (cg_funs g)" and fs: "i \<in> set (forksites g)"
    and site: "\<And>r g. site r i g = Some (site_added b r i g)"
  shows "\<exists>g'. put_edge P TDForkEdge TDForkEdge site (\<lambda>_. addThreadForkEdgeSetMap i) i h g = Some g' \<and> cg_inv P (insert (i, h, TDForkEdge) C) g' \<and>
    cg_funs g' = cg_funs g \<and> forksites g' = forksites g \<and> joinsites g' = joinsites g \<and> parForSites g' = parForSites g"
proof -
  have i: "nodes_ok g" "graph_ok g" "sites_ok P C g" "calls_ok g" "forks_ok g" "ids_ok C g" using I by (simp_all add: cg_inv_def)
  obtain r g1 where p: "put_edge P TDForkEdge TDForkEdge site (\<lambda>_. addThreadForkEdgeSetMap i) i h g = Some (addThreadForkEdgeSetMap i (ref_key g1 r) r g1)"
    and put: "edge_put P i h TDForkEdge r g1 g"
    using put_edge_effect [where rec_call = "addThreadForkEdgeSetMap i" and k = TDForkEdge and site = site and i = i and b = b, OF i(1,2) f site] unfolding edge_put_def by blast
  define g2 where "g2 = g1\<lparr>callinstToThreadForkEdgesMap := (callinstToThreadForkEdgesMap g1)(i \<mapsto>
      snd (es_insert (ref_key g1 r) r (map_at [] (callinstToThreadForkEdgesMap g1) i)))\<rparr>"
  note fr = same_but_edgesD [OF conjunct1 [OF put [unfolded edge_put_def]]]
  have v: "cg_shape g2 = cg_shape g1" "cg_sites g2 = cg_sites g1" "ref_key g2 = ref_key g1" "cg_funs g2 = cg_funs g1" "node_of g2 = node_of g1"
    "nodes_ok g2 = nodes_ok g1" "graph_ok g2 = graph_ok g1" "joinsites g2 = joinsites g1" "parForSites g2 = parForSites g1" "forksites g2 = forksites g1"
    unfolding g2_def by (simp_all add: cg_shape_def cg_sites_def ref_key_def node_of_def nodes_ok_def graph_ok_def fun_eq_iff)
  define g0 where "g0 = g\<lparr>callinstToThreadForkEdgesMap := callinstToThreadForkEdgesMap g2\<rparr>"
  have w: "nodes_ok g0 = nodes_ok g" "cg_shape g0 = cg_shape g" "cg_sites g0 = cg_sites g" "ref_key g0 = ref_key g" "cg_funs g0 = cg_funs g"
    unfolding g0_def by (simp_all add: cg_shape_def cg_sites_def ref_key_def node_of_def nodes_ok_def fun_eq_iff)
  have "same_but_edges g2 g0" using conjunct1 [OF put [unfolded edge_put_def]] unfolding g0_def g2_def by (cases g; cases g1) simp
  then have put2: "edge_put P i h TDForkEdge r g2 g0" using put unfolding edge_put_def w v by blast
  have i0: "nodes_ok g0" "sites_ok P C g0" "calls_ok g0" "ids_ok C g0"
  proof -
    have u: "callinstToCallGraphEdgesMap g0 = callinstToCallGraphEdgesMap g" "csToIdMap g0 = csToIdMap g" "idToCSMap g0 = idToCSMap g"
      "totalCallSiteNum g0 = totalCallSiteNum g" by (simp_all add: g0_def)
    show "nodes_ok g0" "sites_ok P C g0" "calls_ok g0" "ids_ok C g0"
      using i unfolding sites_ok_def calls_ok_def ids_ok_def w u by blast+
  qed
  note n = note_call [OF i0 put2]
  note V = same_but_calls_views [OF n(3)] and D = same_but_callsD [OF n(3)]
  have "forks_ok g2" using note_fork [OF i(1,5) put fs g2_def] .
  then have "cg_inv P (insert (i, h, TDForkEdge) C) (addCallGraphEdgeSetMap i (ref_key g2 r) r g2)"
    using n(1,2) V v(7) put edge_put_facts(1) [OF i0(1) put2] edge_put_sites [OF i0(1,2) put2]
    by (simp add: cg_inv_def edge_put_def)
  moreover have "addThreadForkEdgeSetMap i (ref_key g1 r) r g1 = addCallGraphEdgeSetMap i (ref_key g2 r) r g2"
    unfolding v(3) by (simp add: addThreadForkEdgeSetMap_def g2_def)
  ultimately show ?thesis using p D v fr by auto
qed

section \<open>Building the graph\<close>

text \<open>What the construction relies on: instructions know their function, and calls are of
  functions of the module. Parallel loops are left out; their edges are looked up under another
  kind than they are created with.\<close>

definition tcg_ok :: "cg_env \<Rightarrow> program \<Rightarrow> bool" where
  "tcg_ok E P \<longleftrightarrow> distinct (mod_funs P) \<and>
     (\<forall>f\<in>set (mod_funs P). \<forall>i\<in>set (fun_insts P f). fun_of P i = f \<and> set_option (callee_of P i) \<subseteq> set (mod_funs P) \<and>
        \<not> ce_par_for E i \<and> (td_fork P i \<longrightarrow> ce_callsite E i \<and> callee_of P i \<noteq> None \<and> set_option (ce_forked E i) \<subseteq> set (mod_funs P) \<and>
          set (ce_fork_targets E i) \<subseteq> set (mod_funs P))) \<and>
     (\<forall>(i, hs)\<in>set (ce_ind_calls E). fun_of P i \<in> set (mod_funs P) \<and> i \<in> set (fun_insts P (fun_of P i)) \<and> ce_callsite E i \<and>
        callee_of P i = None \<and> set hs \<subseteq> set (mod_funs P))"

definition tcg_insts :: "program \<Rightarrow> inst set" where
  "tcg_insts P = (\<Union>f\<in>set (mod_funs P). set (fun_insts P f))"

definition direct_calls :: "cg_env \<Rightarrow> program \<Rightarrow> call_set" where
  "direct_calls E P = {(i, h, CallRetEdge) | i h. i \<in> tcg_insts P \<and> ce_callsite E i \<and> \<not> ce_dbg E i \<and> callee_of P i = Some h}"

definition direct_forks :: "cg_env \<Rightarrow> program \<Rightarrow> call_set" where
  "direct_forks E P = {(i, h, TDForkEdge) | i h. i \<in> tcg_insts P \<and> td_fork P i \<and> ce_forked E i = Some h}"

definition found_calls :: "cg_env \<Rightarrow> call_set" where
  "found_calls E = {(i, h, CallRetEdge) | i h. \<exists>hs. (i, hs) \<in> set (ce_ind_calls E) \<and> h \<in> set hs}"

definition found_forks :: "cg_env \<Rightarrow> program \<Rightarrow> call_set" where
  "found_forks E P = {(i, h, TDForkEdge) | i h. i \<in> tcg_insts P \<and> td_fork P i \<and> ce_forked E i = None \<and> h \<in> set (ce_fork_targets E i)}"

lemma foldM_collect:
  assumes "I A s" and "\<And>x A s. x \<in> set xs \<Longrightarrow> I A s \<Longrightarrow> \<exists>t. f x s = Some t \<and> I (A \<union> B x) t"
  shows "\<exists>t. foldM f xs s = Some t \<and> I (A \<union> (\<Union>x\<in>set xs. B x)) t"
  using assms
proof (induction xs arbitrary: A s)
  case (Cons x xs)
  obtain u where u: "f x s = Some u" "I (A \<union> B x) u" using Cons.prems(2) [of x A s] Cons.prems(1) by auto
  have "\<exists>t. foldM f xs u = Some t \<and> I ((A \<union> B x) \<union> (\<Union>x\<in>set xs. B x)) t"
    by (rule Cons.IH [OF u(2)]) (use Cons.prems(2) in simp)
  then show ?case using u(1) by (simp add: Un_assoc)
qed simp

text \<open>The graph with the calls \<open>C\<close>, the fork sites \<open>F\<close> and the join sites \<open>J\<close>.\<close>

definition cg_state :: "program \<Rightarrow> inst set \<Rightarrow> inst set \<Rightarrow> call_set \<Rightarrow> call_graph \<Rightarrow> bool" where
  "cg_state P F J C g \<longleftrightarrow> cg_inv P C g \<and> cg_funs g = mod_funs P \<and> set (forksites g) = F \<and> set (joinsites g) = J \<and> parForSites g = []"

lemma addCallGraphNode_simps:
  "cg_funs (addCallGraphNode f g) = cg_funs g @ [f]" "callGraphNodeNum (addCallGraphNode f g) = callGraphNodeNum g + 1"
  "funToCallGraphNodeMap (addCallGraphNode f g) = (funToCallGraphNodeMap g)(f \<mapsto> callGraphNodeNum g)"
  "(addCallGraphNode f g)\<lparr>cg_funs := [], callGraphNodeNum := 0, nodeNum := 0, funToCallGraphNodeMap := Map.empty\<rparr> =
     g\<lparr>cg_funs := [], callGraphNodeNum := 0, nodeNum := 0, funToCallGraphNodeMap := Map.empty\<rparr>"
  by (simp_all add: addCallGraphNode_def)

lemma nodes_added:
  assumes "distinct fs"
  shows "nodes_ok (fold addCallGraphNode fs (cg_new st)) \<and> cg_funs (fold addCallGraphNode fs (cg_new st)) = fs \<and>
    (fold addCallGraphNode fs (cg_new st))\<lparr>cg_funs := [], callGraphNodeNum := 0, nodeNum := 0, funToCallGraphNodeMap := Map.empty\<rparr> = (cg_new st)"
  using assms
proof (induction fs rule: rev_induct)
  case Nil
  show ?case by (simp add: nodes_ok_def cg_new_def)
next
  case (snoc f fs)
  let ?g = "fold addCallGraphNode fs (cg_new st)"
  have IH: "nodes_ok ?g" "cg_funs ?g = fs"
    "?g\<lparr>cg_funs := [], callGraphNodeNum := 0, nodeNum := 0, funToCallGraphNodeMap := Map.empty\<rparr> = (cg_new st)" using snoc by simp_all
  have n: "callGraphNodeNum ?g = length fs" "\<And>f n. funToCallGraphNodeMap ?g f = Some n \<longleftrightarrow> n < length fs \<and> fs ! n = f"
    using IH(1,2) unfolding nodes_ok_def by simp_all
  have "((funToCallGraphNodeMap ?g)(f \<mapsto> length fs)) h = Some n \<longleftrightarrow> n < length (fs @ [f]) \<and> (fs @ [f]) ! n = h" for h n
    using n(2) snoc.prems by (auto simp: nth_append less_Suc_eq)
  then have "nodes_ok (addCallGraphNode f ?g)" using snoc.prems IH(2) n(1) by (simp add: nodes_ok_def addCallGraphNode_simps)
  then show ?case using IH(2,3) by (simp add: addCallGraphNode_simps)
qed

definition call_ids_ok :: "call_ids \<Rightarrow> bool" where
  "call_ids_ok st \<longleftrightarrow> 1 \<le> ci_total st \<and> (\<forall>c n. ci_csToId st c = Some n \<longleftrightarrow> ci_idToCS st n = Some c) \<and>
     (\<forall>n c. ci_idToCS st n = Some c \<longrightarrow> 1 \<le> n \<and> n < ci_total st)"

lemma no_call_ids_ok: "call_ids_ok no_call_ids"
  by (simp add: call_ids_ok_def no_call_ids_def)

lemma nodes_state:
  assumes "distinct (mod_funs P)" and st: "call_ids_ok st"
  shows "cg_state P {} {} {} (fold addCallGraphNode (mod_funs P) (cg_new st))"
proof -
  let ?g = "fold addCallGraphNode (mod_funs P) (cg_new st)"
  note n = nodes_added [OF assms(1), of st]
  have e: "cg_edges ?g = []" "cg_in ?g = (\<lambda>_. [])" "cg_out ?g = (\<lambda>_. [])" "callinstToCallGraphEdgesMap ?g = Map.empty"
    "csToIdMap ?g = ci_csToId st" "idToCSMap ?g = ci_idToCS st" "totalCallSiteNum ?g = ci_total st" "forksites ?g = []" "joinsites ?g = []"
    "parForSites ?g = []" "callinstToThreadForkEdgesMap ?g = Map.empty"
    using n by (cases ?g; simp add: cg_new_def)+
  have "cg_shape ?g = []" by (simp add: cg_shape_def e)
  then have "cg_inv P {} ?g" using n st unfolding call_ids_ok_def
    by (simp add: cg_inv_def graph_ok_def sites_ok_def calls_ok_def forks_ok_def ids_ok_def e es_ok_def)
  then show ?thesis using n e by (simp add: cg_state_def)
qed

lemma tcg_inst:
  assumes "tcg_ok E P" "f \<in> set (mod_funs P)" "i \<in> set (fun_insts P f)"
  shows "fun_of P i \<in> set (mod_funs P)" "callee_of P i = Some h \<Longrightarrow> h \<in> set (mod_funs P)" "\<not> ce_par_for E i" "i \<in> tcg_insts P"
    "td_fork P i \<Longrightarrow> is_direct E P i \<and> set_option (ce_forked E i) \<subseteq> set (mod_funs P) \<and> set (ce_fork_targets E i) \<subseteq> set (mod_funs P)"
    "td_fork P i \<Longrightarrow> ce_forked E i = None \<Longrightarrow> is_indirect E P i"
proof -
  have i: "fun_of P i = f" "set_option (callee_of P i) \<subseteq> set (mod_funs P)" "\<not> ce_par_for E i"
    "td_fork P i \<longrightarrow> ce_callsite E i \<and> callee_of P i \<noteq> None \<and> set_option (ce_forked E i) \<subseteq> set (mod_funs P) \<and>
      set (ce_fork_targets E i) \<subseteq> set (mod_funs P)"
    using assms unfolding tcg_ok_def by blast+
  show "fun_of P i \<in> set (mod_funs P)" using i(1) assms(2) by simp
  show "h \<in> set (mod_funs P)" if "callee_of P i = Some h" using i(2) that by simp
  show "\<not> ce_par_for E i" by (rule i(3))
  show "i \<in> tcg_insts P" using assms(2,3) unfolding tcg_insts_def by blast
  show "is_direct E P i \<and> set_option (ce_forked E i) \<subseteq> set (mod_funs P) \<and> set (ce_fork_targets E i) \<subseteq> set (mod_funs P)"
    if "td_fork P i" using i(4) that by (simp add: is_direct_def)
  show "is_indirect E P i" if "td_fork P i" "ce_forked E i = None" using i(4) that by (simp add: is_indirect_def)
qed

lemma tcg_instD: "i \<in> tcg_insts P \<Longrightarrow> \<exists>f\<in>set (mod_funs P). i \<in> set (fun_insts P f)"
  by (simp add: tcg_insts_def)

lemma state_call:
  assumes "cg_state P F J C g" "fun_of P i \<in> set (mod_funs P)" "h \<in> set (mod_funs P)" "k \<noteq> TDForkEdge"
    and "\<And>r g. site r i g = Some (site_added b r i g)"
  shows "\<exists>g'. put_edge P k k site (\<lambda>_. addCallGraphEdgeSetMap i) i h g = Some g' \<and> cg_state P F J (insert (i, h, k) C) g'"
proof -
  have g: "cg_inv P C g" "cg_funs g = mod_funs P" "set (forksites g) = F" "set (joinsites g) = J" "parForSites g = []"
    using assms(1) by (simp_all add: cg_state_def)
  have f: "fun_of P i \<in> set (cg_funs g)" "h \<in> set (cg_funs g)" using assms(2,3) g(2) by simp_all
  from put_note_call [where site = site and b = b and i = i, OF g(1) f assms(4,5)] show ?thesis using g(2-5) unfolding cg_state_def by force
qed

lemma state_fork:
  assumes "cg_state P F J C g" "fun_of P i \<in> set (mod_funs P)" "h \<in> set (mod_funs P)" "i \<in> F"
    and "\<And>r g. site r i g = Some (site_added b r i g)"
  shows "\<exists>g'. put_edge P TDForkEdge TDForkEdge site (\<lambda>_. addThreadForkEdgeSetMap i) i h g = Some g' \<and>
    cg_state P F J (insert (i, h, TDForkEdge) C) g'"
proof -
  have g: "cg_inv P C g" "cg_funs g = mod_funs P" "set (forksites g) = F" "set (joinsites g) = J" "parForSites g = []"
    using assms(1) by (simp_all add: cg_state_def)
  have f: "fun_of P i \<in> set (cg_funs g)" "h \<in> set (cg_funs g)" "i \<in> set (forksites g)" using assms(2-4) g(2,3) by simp_all
  from put_note_fork [where site = site and b = b and i = i, OF g(1) f assms(5)] show ?thesis using g(2-5) unfolding cg_state_def by force
qed

lemma cg_view_cong:
  assumes "cg_funs g = cg_funs h" "callGraphNodeNum g = callGraphNodeNum h" "funToCallGraphNodeMap g = funToCallGraphNodeMap h"
    "cg_in g = cg_in h" "cg_out g = cg_out h" "cg_edges g = cg_edges h" "callinstToCallGraphEdgesMap g = callinstToCallGraphEdgesMap h"
    "csToIdMap g = csToIdMap h" "idToCSMap g = idToCSMap h" "totalCallSiteNum g = totalCallSiteNum h"
  shows "nodes_ok g = nodes_ok h" "graph_ok g = graph_ok h" "sites_ok P C g = sites_ok P C h" "calls_ok g = calls_ok h" "ids_ok C g = ids_ok C h"
    "cg_shape g = cg_shape h" "cg_sites g = cg_sites h" "ref_key g = ref_key h"
proof -
  show n: "nodes_ok g = nodes_ok h" using nodes_ok_cong [OF assms(1-3)] by simp
  have d: "node_of g = node_of h" using nodes_ok_cong [OF assms(1-3)] by simp
  show s: "cg_shape g = cg_shape h" "cg_sites g = cg_sites h" by (simp_all add: cg_shape_def cg_sites_def assms(6) fun_eq_iff)
  show r: "graph_ok g = graph_ok h" "ref_key g = ref_key h" using graph_ok_cong [OF assms(1) d s(1) assms(4,5)] by simp_all
  show "sites_ok P C g = sites_ok P C h" "calls_ok g = calls_ok h" "ids_ok C g = ids_ok C h"
    unfolding sites_ok_def calls_ok_def ids_ok_def s r assms by (rule refl)+
qed

lemma resolved_state: "cg_state P F J C g \<Longrightarrow> cg_state P F J C (g\<lparr>numOfResolvedIndCallEdge := n\<rparr>)"
proof -
  let ?g = "g\<lparr>numOfResolvedIndCallEdge := n\<rparr>"
  have v: "nodes_ok ?g = nodes_ok g" "graph_ok ?g = graph_ok g" "sites_ok P C ?g = sites_ok P C g"
    "calls_ok ?g = calls_ok g" "ids_ok C ?g = ids_ok C g" "cg_shape ?g = cg_shape g" "cg_sites ?g = cg_sites g" "ref_key ?g = ref_key g"
    by (rule cg_view_cong; simp)+
  show "cg_state P F J C g \<Longrightarrow> cg_state P F J C ?g" unfolding cg_state_def cg_inv_def forks_ok_def v by simp
qed

lemma state_add:
  assumes g: "cg_state P F J C g" and f: "fun_of P i \<in> set (mod_funs P)" "h \<in> set (mod_funs P)"
  shows "callee_of P i = Some h \<Longrightarrow> is_direct E P i \<Longrightarrow>
      \<exists>g'. addDirectCallGraphEdge E P i g = Some g' \<and> cg_state P F J (insert (i, h, CallRetEdge) C) g'"
    "is_indirect E P i \<Longrightarrow> \<exists>g'. addIndirectCallGraphEdge E P i h g = Some g' \<and> cg_state P F J (insert (i, h, CallRetEdge) C) g'"
    "i \<in> F \<Longrightarrow> ce_forked E i = Some h \<Longrightarrow> is_direct E P i \<Longrightarrow>
      \<exists>g'. addDirectForkEdge E P i g = Some g' \<and> cg_state P F J (insert (i, h, TDForkEdge) C) g'"
    "i \<in> F \<Longrightarrow> is_indirect E P i \<Longrightarrow> \<exists>g'. addIndirectForkEdge E P i h g = Some g' \<and> cg_state P F J (insert (i, h, TDForkEdge) C) g'"
proof -
  have k: "CallRetEdge \<noteq> TDForkEdge" by simp
  show "\<exists>g'. addDirectCallGraphEdge E P i g = Some g' \<and> cg_state P F J (insert (i, h, CallRetEdge) C) g'"
    if "callee_of P i = Some h" "is_direct E P i"
    using state_call [where site = "addDirectCallSite E P" and b = True and i = i, OF g f k site_added_direct [OF that(2)]] that(1)
    by (simp add: addDirectCallGraphEdge_def)
  show "\<exists>g'. addIndirectCallGraphEdge E P i h g = Some g' \<and> cg_state P F J (insert (i, h, CallRetEdge) C) g'" if "is_indirect E P i"
    using state_call [where site = "addInDirectCallSite E P" and b = False and i = i, OF resolved_state [OF g] f k site_added_indirect [OF that]]
    by (simp add: addIndirectCallGraphEdge_def)
  show "\<exists>g'. addDirectForkEdge E P i g = Some g' \<and> cg_state P F J (insert (i, h, TDForkEdge) C) g'"
    if "i \<in> F" "ce_forked E i = Some h" "is_direct E P i"
    using state_fork [where site = "addDirectCallSite E P" and b = True and i = i, OF g f that(1) site_added_direct [OF that(3)]] that(2)
    by (simp add: addDirectForkEdge_def)
  show "\<exists>g'. addIndirectForkEdge E P i h g = Some g' \<and> cg_state P F J (insert (i, h, TDForkEdge) C) g'" if "i \<in> F" "is_indirect E P i"
    using state_fork [where site = "addInDirectCallSite E P" and b = False and i = i, OF g f that(1) site_added_indirect [OF that(2)]]
    by (simp add: addIndirectForkEdge_def)
qed

definition inst_calls :: "cg_env \<Rightarrow> program \<Rightarrow> inst \<Rightarrow> call_set" where
  "inst_calls E P i = {(i, h, CallRetEdge) | h. ce_callsite E i \<and> \<not> ce_dbg E i \<and> callee_of P i = Some h}"

abbreviation build_inst :: "cg_env \<Rightarrow> program \<Rightarrow> inst \<Rightarrow> call_graph \<Rightarrow> call_graph option" where
  "build_inst E P i g \<equiv> if ce_callsite E i \<and> \<not> ce_dbg E i \<and> callee_of P i \<noteq> None then addDirectCallGraphEdge E P i g else Some g"

lemma build_inst_state:
  assumes ok: "tcg_ok E P" "f \<in> set (mod_funs P)" "i \<in> set (fun_insts P f)" and g: "cg_state P {} {} A g"
  shows "\<exists>g'. build_inst E P i g = Some g' \<and> cg_state P {} {} (A \<union> inst_calls E P i) g'"
proof (cases "ce_callsite E i \<and> \<not> ce_dbg E i \<and> callee_of P i \<noteq> None")
  case True
  then obtain h where h: "callee_of P i = Some h" by blast
  note t = tcg_inst [OF ok]
  have "is_direct E P i" using True by (simp add: is_direct_def)
  from state_add(1) [OF g t(1) t(2) [OF h] h this]
  obtain g' where "addDirectCallGraphEdge E P i g = Some g'" "cg_state P {} {} (insert (i, h, CallRetEdge) A) g'" by blast
  moreover have "inst_calls E P i = {(i, h, CallRetEdge)}" using True h by (auto simp: inst_calls_def)
  ultimately show ?thesis using True by simp
next
  case False
  then have "inst_calls E P i = {}" by (auto simp: inst_calls_def)
  then show ?thesis using False g by auto
qed

lemma buildCallGraph_state:
  assumes ok: "tcg_ok E P" and st: "call_ids_ok st"
  shows "\<exists>g. buildCallGraph E P (cg_new st) = Some g \<and> cg_state P {} {} (direct_calls E P) g"
proof -
  have inner: "\<exists>g'. foldM (build_inst E P) (fun_insts P f) g = Some g' \<and> cg_state P {} {} (A \<union> (\<Union>i\<in>set (fun_insts P f). inst_calls E P i)) g'"
    if "f \<in> set (mod_funs P)" "cg_state P {} {} A g" for f A g
    by (rule foldM_collect [where I = "cg_state P {} {}"]) (use that build_inst_state [OF ok] in blast)+
  have "distinct (mod_funs P)" using ok by (simp add: tcg_ok_def)
  note start = nodes_state [OF this st]
  have "\<exists>g'. foldM (\<lambda>f. foldM (build_inst E P) (fun_insts P f)) (mod_funs P) (fold addCallGraphNode (mod_funs P) (cg_new st)) = Some g' \<and>
      cg_state P {} {} ({} \<union> (\<Union>f\<in>set (mod_funs P). \<Union>i\<in>set (fun_insts P f). inst_calls E P i)) g'"
    by (rule foldM_collect [where I = "cg_state P {} {}"]) (use start inner in blast)+
  moreover have "{} \<union> (\<Union>f\<in>set (mod_funs P). \<Union>i\<in>set (fun_insts P f). inst_calls E P i) = direct_calls E P"
    by (auto simp: direct_calls_def tcg_insts_def inst_calls_def)
  ultimately show ?thesis by (simp only: buildCallGraph_def)
qed

lemma addForksite_state:
  assumes "cg_state P F J C g"
  shows "cg_state P (insert i F) J C (addForksite i g)"
proof -
  have v: "nodes_ok (addForksite i g) = nodes_ok g" "graph_ok (addForksite i g) = graph_ok g" "sites_ok P C (addForksite i g) = sites_ok P C g"
    "calls_ok (addForksite i g) = calls_ok g" "ids_ok C (addForksite i g) = ids_ok C g"
    "cg_shape (addForksite i g) = cg_shape g" "cg_sites (addForksite i g) = cg_sites g" "ref_key (addForksite i g) = ref_key g"
    by (rule cg_view_cong; simp add: addForksite_def)+
  have m: "callinstToThreadForkEdgesMap (addForksite i g) = map_touch [] i (callinstToThreadForkEdgesMap g)"
    "forksites (addForksite i g) = set_insert i (forksites g)" "joinsites (addForksite i g) = joinsites g"
    "parForSites (addForksite i g) = parForSites g" "cg_funs (addForksite i g) = cg_funs g" by (simp_all add: addForksite_def)
  have "forks_ok g" using assms by (simp add: cg_state_def cg_inv_def)
  then have "forks_ok (addForksite i g)" unfolding forks_ok_def v m by simp
  then show ?thesis using assms unfolding cg_state_def cg_inv_def v m by simp
qed

lemma addJoinsite_state:
  assumes "cg_state P F J C g"
  shows "cg_state P F (insert i J) C (addJoinsite i g)"
proof -
  have v: "nodes_ok (addJoinsite i g) = nodes_ok g" "graph_ok (addJoinsite i g) = graph_ok g" "sites_ok P C (addJoinsite i g) = sites_ok P C g"
    "calls_ok (addJoinsite i g) = calls_ok g" "ids_ok C (addJoinsite i g) = ids_ok C g"
    "cg_shape (addJoinsite i g) = cg_shape g" "cg_sites (addJoinsite i g) = cg_sites g" "ref_key (addJoinsite i g) = ref_key g"
    by (rule cg_view_cong; simp add: addJoinsite_def)+
  have m: "callinstToThreadForkEdgesMap (addJoinsite i g) = callinstToThreadForkEdgesMap g" "forksites (addJoinsite i g) = forksites g"
    "joinsites (addJoinsite i g) = set_insert i (joinsites g)" "parForSites (addJoinsite i g) = parForSites g"
    "cg_funs (addJoinsite i g) = cg_funs g" by (simp_all add: addJoinsite_def)
  show ?thesis using assms unfolding cg_state_def cg_inv_def forks_ok_def v m by simp
qed

text \<open>Sites of instructions that were met: \<open>I\<close>.\<close>

definition met_forks :: "cg_env \<Rightarrow> program \<Rightarrow> inst set \<Rightarrow> call_set" where
  "met_forks E P I = {(i, h, TDForkEdge) | i h. i \<in> I \<and> td_fork P i \<and> ce_forked E i = Some h}"

lemma tcg_site_state:
  assumes ok: "tcg_ok E P" "f \<in> set (mod_funs P)" "i \<in> set (fun_insts P f)"
    and g: "cg_state P {j \<in> I. td_fork P j} J (C \<union> met_forks E P I) g"
  shows "\<exists>g'. tcg_site E P i g = Some g' \<and> cg_state P {j \<in> I \<union> {i}. td_fork P j} J (C \<union> met_forks E P (I \<union> {i})) g'"
proof (cases "td_fork P i")
  case False
  then have "{j \<in> I \<union> {i}. td_fork P j} = {j \<in> I. td_fork P j}" "met_forks E P (I \<union> {i}) = met_forks E P I" by (auto simp: met_forks_def)
  then show ?thesis using False g tcg_inst(3) [OF ok] by (simp add: tcg_site_def)
next
  case True
  note t = tcg_inst [OF ok]
  have F: "{j \<in> I \<union> {i}. td_fork P j} = insert i {j \<in> I. td_fork P j}" using True by auto
  note g1 = addForksite_state [OF g, of i, folded F]
  show ?thesis
  proof (cases "ce_forked E i")
    case None
    then have "met_forks E P (I \<union> {i}) = met_forks E P I" by (auto simp: met_forks_def)
    then show ?thesis using True None g1 by (simp add: tcg_site_def)
  next
    case (Some h)
    then have h: "h \<in> set (mod_funs P)" "is_direct E P i" using t(5) [OF True] by simp_all
    have m: "C \<union> met_forks E P (I \<union> {i}) = insert (i, h, TDForkEdge) (C \<union> met_forks E P I)" using True Some by (auto simp: met_forks_def)
    have "i \<in> {j \<in> I \<union> {i}. td_fork P j}" using True by simp
    from state_add(3) [OF g1 t(1) h(1) this Some h(2)] show ?thesis
      unfolding m using True Some by (auto simp: tcg_site_def)
  qed
qed

lemma joins_state:
  "cg_state P F J C g \<Longrightarrow> cg_state P F (J \<union> {i \<in> set is. td_join P i}) C (fold (\<lambda>i g. if td_join P i then addJoinsite i g else g) is g)"
proof (induction "is" arbitrary: J g)
  case (Cons i "is")
  show ?case
  proof (cases "td_join P i")
    case True
    have "insert i J \<union> {i \<in> set is. td_join P i} = J \<union> {j \<in> set (i # is). td_join P j}" using True by auto
    then show ?thesis using Cons.IH [OF addJoinsite_state [OF Cons.prems, of i]] True by simp
  next
    case False
    have "{j \<in> set (i # is). td_join P j} = {i \<in> set is. td_join P i}" using False by auto
    then show ?thesis using Cons.IH [OF Cons.prems] False by simp
  qed
qed simp

lemma ThreadCallGraph_new_state:
  assumes ok: "tcg_ok E P" and st: "call_ids_ok st"
  shows "\<exists>g. ThreadCallGraph_new E P st = Some g \<and>
    cg_state P {i \<in> tcg_insts P. td_fork P i} {i \<in> tcg_insts P. td_join P i} (direct_calls E P \<union> direct_forks E P) g"
proof -
  let ?D = "direct_calls E P"
  obtain g where g: "buildCallGraph E P (cg_new st) = Some g" "cg_state P {} {} ?D g" using buildCallGraph_state [OF ok st] by blast
  let ?I = "\<lambda>A g. cg_state P {j \<in> A. td_fork P j} {} (?D \<union> met_forks E P A) g"
  have inner: "\<exists>g'. foldM (tcg_site E P) (fun_insts P f) g = Some g' \<and> ?I (A \<union> (\<Union>i\<in>set (fun_insts P f). {i})) g'"
    if "f \<in> set (mod_funs P)" "?I A g" for f A g
    by (rule foldM_collect [where I = ?I and B = "\<lambda>i. {i}"]) (use that tcg_site_state [OF ok] in auto)
  have "\<exists>g'. foldM (\<lambda>f. foldM (tcg_site E P) (fun_insts P f)) (mod_funs P) g = Some g' \<and>
      ?I ({} \<union> (\<Union>f\<in>set (mod_funs P). \<Union>i\<in>set (fun_insts P f). {i})) g'"
    by (rule foldM_collect [where I = ?I]) (use g(2) inner in \<open>simp_all add: met_forks_def\<close>)
  moreover have "{} \<union> (\<Union>f\<in>set (mod_funs P). \<Union>i\<in>set (fun_insts P f). {i}) = tcg_insts P" by (auto simp: tcg_insts_def)
  ultimately obtain g1 where g1: "foldM (\<lambda>f. foldM (tcg_site E P) (fun_insts P f)) (mod_funs P) g = Some g1" "?I (tcg_insts P) g1"
    by metis
  let ?h = "\<lambda>f. fold (\<lambda>i g. if td_join P i then addJoinsite i g else g) (fun_insts P f)"
  have "cg_state P F (J \<union> {i. \<exists>f\<in>set fs. i \<in> set (fun_insts P f) \<and> td_join P i}) C (fold ?h fs g)" if "cg_state P F J C g" for F J C g fs
    using that
  proof (induction fs arbitrary: J g)
    case (Cons f fs)
    have "J \<union> {i \<in> set (fun_insts P f). td_join P i} \<union> {i. \<exists>f\<in>set fs. i \<in> set (fun_insts P f) \<and> td_join P i} =
        J \<union> {i. \<exists>f\<in>set (f # fs). i \<in> set (fun_insts P f) \<and> td_join P i}" by auto
    then show ?case using Cons.IH [OF joins_state [OF Cons.prems, of "fun_insts P f"]] by simp
  qed simp
  from this [OF g1(2), of "mod_funs P"] show ?thesis
    using g(1) g1(1) by (simp add: ThreadCallGraph_new_def tcg_build_def direct_forks_def met_forks_def tcg_insts_def Bex_def Un_def)
qed

end
