(* ===== verification/CallGraphResult.thy ===== *)
theory CallGraphResult
  imports CallGraphEdges
begin

text \<open>
  What the finished call graph shows to the analyses, and that it meets the hypotheses under
  which the thread creation tree is built.
\<close>

section \<open>Indirect calls\<close>

lemma updateCallGraph_state:
  assumes ok: "tcg_ok E P" and g: "cg_state P {i \<in> tcg_insts P. td_fork P i} J C g"
  shows "\<exists>t. updateCallGraph E P g = Some t \<and>
    cg_state P {i \<in> tcg_insts P. td_fork P i} J (C \<union> found_calls E \<union> found_forks E P) t"
proof -
  let ?F = "{i \<in> tcg_insts P. td_fork P i}"
  let ?S = "cg_state P ?F J"
  have call: "\<exists>g'. addIndirectCallGraphEdge E P i h g = Some g' \<and> ?S (A \<union> {(i, h, CallRetEdge)}) g'"
    if "(i, hs) \<in> set (ce_ind_calls E)" "h \<in> set hs" "?S A g" for i hs h A g
  proof -
    have i: "fun_of P i \<in> set (mod_funs P)" "h \<in> set (mod_funs P)" "is_indirect E P i"
      using ok that(1,2) unfolding tcg_ok_def is_indirect_def by blast+
    from state_add(2) [OF that(3) i] show ?thesis by simp
  qed
  let ?B = "\<lambda>(i, hs). \<Union>h\<in>set hs. {(i, h, CallRetEdge)}"
  have "\<exists>g'. foldM (\<lambda>(i, hs). foldM (addIndirectCallGraphEdge E P i) hs) (ce_ind_calls E) g = Some g' \<and>
      ?S (C \<union> (\<Union>x\<in>set (ce_ind_calls E). ?B x)) g'"
  proof (rule foldM_collect [where I = ?S])
    fix x A s assume x: "x \<in> set (ce_ind_calls E)" "?S A s"
    obtain i hs where p: "x = (i, hs)" by (rule prod.exhaust)
    have "\<exists>t. foldM (addIndirectCallGraphEdge E P i) hs s = Some t \<and> ?S (A \<union> (\<Union>h\<in>set hs. {(i, h, CallRetEdge)})) t"
      by (rule foldM_collect [where I = ?S]) (use x call in \<open>simp_all add: p\<close>)
    then show "\<exists>t. (case x of (i, hs) \<Rightarrow> foldM (addIndirectCallGraphEdge E P i) hs) s = Some t \<and> ?S (A \<union> ?B x) t" by (simp add: p)
  qed (rule g)
  moreover have "(\<Union>x\<in>set (ce_ind_calls E). ?B x) = found_calls E" by (auto simp: found_calls_def)
  ultimately obtain g1 where g1: "foldM (\<lambda>(i, hs). foldM (addIndirectCallGraphEdge E P i) hs) (ce_ind_calls E) g = Some g1"
    "?S (C \<union> found_calls E) g1" by auto
  have F1: "set (forksites g1) = ?F" using g1(2) by (simp add: cg_state_def)
  have fork: "\<exists>g'. addIndirectForkEdge E P i h g = Some g' \<and> ?S (A \<union> {(i, h, TDForkEdge)}) g'"
    if "i \<in> ?F" "ce_forked E i = None" "h \<in> set (ce_fork_targets E i)" "?S A g" for i h A g
  proof -
    from that(1) have "\<exists>f\<in>set (mod_funs P). i \<in> set (fun_insts P f)" by (simp add: tcg_instD)
    then obtain f where f: "f \<in> set (mod_funs P)" "i \<in> set (fun_insts P f)" by blast
    note t = tcg_inst [OF ok f]
    have td: "td_fork P i" using that(1) by simp
    have h: "h \<in> set (mod_funs P)" using t(5) [OF td] that(3) by blast
    from state_add(4) [OF that(4) t(1) h that(1) t(6) [OF td that(2)]] show ?thesis by simp
  qed
  let ?D = "\<lambda>i. {(i, h, TDForkEdge) | h. ce_forked E i = None \<and> h \<in> set (ce_fork_targets E i)}"
  let ?step = "\<lambda>i g. if ce_forked E i = None then foldM (addIndirectForkEdge E P i) (ce_fork_targets E i) g else Some g"
  have "\<exists>g'. foldM ?step (forksites g1) g1 = Some g' \<and> ?S (C \<union> found_calls E \<union> (\<Union>i\<in>set (forksites g1). ?D i)) g'"
  proof (rule foldM_collect [where I = ?S])
    fix i A s assume i: "i \<in> set (forksites g1)" "?S A s"
    show "\<exists>t. ?step i s = Some t \<and> ?S (A \<union> ?D i) t"
    proof (cases "ce_forked E i")
      case None
      have "\<exists>t. foldM (addIndirectForkEdge E P i) (ce_fork_targets E i) s = Some t \<and>
          ?S (A \<union> (\<Union>h\<in>set (ce_fork_targets E i). {(i, h, TDForkEdge)})) t"
      proof (rule foldM_collect [where I = ?S])
        fix h B t assume "h \<in> set (ce_fork_targets E i)" "?S B t"
        then show "\<exists>u. addIndirectForkEdge E P i h t = Some u \<and> ?S (B \<union> {(i, h, TDForkEdge)}) u"
          using fork [of i h B t] i(1) F1 None by simp
      qed (rule i(2))
      moreover have "(\<Union>h\<in>set (ce_fork_targets E i). {(i, h, TDForkEdge)}) = ?D i" using None by auto
      ultimately show ?thesis using None by simp
    next
      case (Some r)
      then show ?thesis using i(2) by simp
    qed
  qed (rule g1(2))
  moreover have "(\<Union>i\<in>set (forksites g1). ?D i) = found_forks E P" unfolding F1 by (auto simp: found_forks_def)
  ultimately obtain g2 where g2: "foldM ?step (forksites g1) g1 = Some g2" "?S (C \<union> found_calls E \<union> found_forks E P) g2" by auto
  have "parForSites g2 = []" using g2(2) by (simp add: cg_state_def)
  then show ?thesis using g1(1) g2 by (simp add: updateCallGraph_def)
qed

section \<open>The view of the analyses\<close>

text \<open>The fields of the program that stand for the call graph.\<close>

definition cg_view :: "program \<Rightarrow> call_graph \<Rightarrow> program" where
  "cg_view P g = P\<lparr>in_edges := \<lambda>f. case getCallGraphNode g f of None \<Rightarrow> [] | Some n \<Rightarrow> set_edges g (cg_in g n),
     out_edges := \<lambda>f. case getCallGraphNode g f of None \<Rightarrow> [] | Some n \<Rightarrow> set_edges g (cg_out g n),
     call_edges := \<lambda>i. map_option (set_edges g) (callinstToCallGraphEdgesMap g i),
     fork_edges := \<lambda>i. map_option (set_edges g) (callinstToThreadForkEdgesMap g i),
     fork_sites := forksites g, join_sites := joinsites g,
     call_site_id := \<lambda>i f. case getCallSiteID g i f of None \<Rightarrow> 0 | Some n \<Rightarrow> n\<rparr>"

definition edge_calls :: "cg_edge \<Rightarrow> inst set" where
  "edge_calls e = set (e_direct e) \<union> set (e_indirect e)"

lemma edge_at:
  assumes "r < length (cg_shape g)"
  shows "cg_shape g ! r = (e_src (cg_edges g ! r), e_dst (cg_edges g ! r), e_kind (cg_edges g ! r))"
    "edge_calls (cg_edges g ! r) = cg_sites g r"
  using assms by (simp_all add: cg_shape_def edge_calls_def cg_sites_def)

lemma set_edges_refs: "set s = {(ref_key g r, r) | r. p r} \<Longrightarrow> set (set_edges g s) = {cg_edges g ! r | r. p r}"
  by (force simp: set_edges_def)

lemma view_edges:
  assumes I: "cg_inv P C g"
  shows "set (out_edges (cg_view P g) f) = {e \<in> set (cg_edges g). e_src e = f}"
    "set (in_edges (cg_view P g) f) = {e \<in> set (cg_edges g). e_dst e = f}"
proof -
  have N: "nodes_ok g" and G: "graph_ok g" using I by (simp_all add: cg_inv_def)
  have refs: "r < length (cg_shape g) \<longleftrightarrow> r < length (cg_edges g)" for r by (simp add: cg_shape_def)
  have funs: "e_src e \<in> set (cg_funs g)" "e_dst e \<in> set (cg_funs g)" if "e \<in> set (cg_edges g)" for e
    using G that unfolding graph_ok_def cg_shape_def by auto
  have out: "set (cg_out g n) = {(ref_key g r, r) | r. r < length (cg_shape g) \<and> node_of g (fst (cg_shape g ! r)) = n}"
    and inn: "set (cg_in g n) = {(ref_key g r, r) | r. r < length (cg_shape g) \<and> node_of g (fst (snd (cg_shape g ! r))) = n}" for n
    using G unfolding graph_ok_def by blast+
  show "set (out_edges (cg_view P g) f) = {e \<in> set (cg_edges g). e_src e = f}"
  proof (cases "f \<in> set (cg_funs g)")
    case True
    have "set (set_edges g (cg_out g (node_of g f))) = {cg_edges g ! r | r. r < length (cg_edges g) \<and> node_of g (e_src (cg_edges g ! r)) = node_of g f}"
      unfolding set_edges_refs [OF out] using edge_at(1) refs by force
    also have "\<dots> = {e \<in> set (cg_edges g). e_src e = f}"
      using node_of_inj [OF N funs(1) True] by (fastforce simp: in_set_conv_nth)
    finally show ?thesis using node_of_props(1) [OF N True] by (simp add: cg_view_def)
  next
    case False
    then have "getCallGraphNode g f = None" using N nth_mem unfolding nodes_ok_def getCallGraphNode_def by (cases "funToCallGraphNodeMap g f") auto
    then show ?thesis using False funs(1) by (auto simp: cg_view_def)
  qed
  show "set (in_edges (cg_view P g) f) = {e \<in> set (cg_edges g). e_dst e = f}"
  proof (cases "f \<in> set (cg_funs g)")
    case True
    have "set (set_edges g (cg_in g (node_of g f))) = {cg_edges g ! r | r. r < length (cg_edges g) \<and> node_of g (e_dst (cg_edges g ! r)) = node_of g f}"
      unfolding set_edges_refs [OF inn] using edge_at(1) refs by force
    also have "\<dots> = {e \<in> set (cg_edges g). e_dst e = f}"
      using node_of_inj [OF N funs(2) True] by (fastforce simp: in_set_conv_nth)
    finally show ?thesis using node_of_props(1) [OF N True] by (simp add: cg_view_def)
  next
    case False
    then have "getCallGraphNode g f = None" using N nth_mem unfolding nodes_ok_def getCallGraphNode_def by (cases "funToCallGraphNodeMap g f") auto
    then show ?thesis using False funs(2) by (auto simp: cg_view_def)
  qed
qed


text \<open>The call sites that an edge carries are those that the analysis found for its ends and kind.\<close>

lemma edge_sites:
  assumes I: "cg_inv P C g"
  shows "e \<in> set (cg_edges g) \<Longrightarrow> edge_calls e = {i. fun_of P i = e_src e \<and> (i, e_dst e, e_kind e) \<in> C} \<and> edge_calls e \<noteq> {}"
    "(i, h, k) \<in> C \<Longrightarrow> \<exists>e\<in>set (cg_edges g). e_src e = fun_of P i \<and> e_dst e = h \<and> e_kind e = k \<and> i \<in> edge_calls e"
    "distinct (map (\<lambda>e. (e_src e, e_dst e, e_kind e)) (cg_edges g))"
proof -
  have S: "sites_ok P C g" and G: "graph_ok g" using I by (simp_all add: cg_inv_def)
  have len: "length (cg_shape g) = length (cg_edges g)" by (simp add: cg_shape_def)
  show sites: "edge_calls e = {i. fun_of P i = e_src e \<and> (i, e_dst e, e_kind e) \<in> C} \<and> edge_calls e \<noteq> {}" if "e \<in> set (cg_edges g)" for e
  proof -
    from that obtain r where r: "r < length (cg_edges g)" "cg_edges g ! r = e" by (auto simp: in_set_conv_nth)
    then have l: "r < length (cg_shape g)" by (simp add: len)
    have e: "cg_shape g ! r = (e_src e, e_dst e, e_kind e)" "edge_calls e = cg_sites g r" using edge_at [OF l] r(2) by simp_all
    have q: "cg_sites g r = {i. fun_of P i = f \<and> (i, h, k) \<in> C} \<and> cg_sites g r \<noteq> {}" if "cg_shape g ! r = (f, h, k)" for f h k
      using S l that unfolding sites_ok_def by blast
    show ?thesis unfolding e(2) by (rule q [OF e(1)])
  qed
  show "\<exists>e\<in>set (cg_edges g). e_src e = fun_of P i \<and> e_dst e = h \<and> e_kind e = k \<and> i \<in> edge_calls e" if "(i, h, k) \<in> C"
  proof -
    have "(fun_of P i, h, k) \<in> set (cg_shape g)" using S that unfolding sites_ok_def by blast
    then obtain e where e: "e \<in> set (cg_edges g)" "e_src e = fun_of P i" "e_dst e = h" "e_kind e = k" by (auto simp: cg_shape_def)
    moreover have "i \<in> edge_calls e" using sites [OF e(1)] that e by simp
    ultimately show ?thesis by blast
  qed
  show "distinct (map (\<lambda>e. (e_src e, e_dst e, e_kind e)) (cg_edges g))" using G by (simp add: graph_ok_def cg_shape_def)
qed

lemma edge_ends:
  assumes I: "cg_inv P C g" and e: "e \<in> set (cg_edges g)"
  shows "e_src e \<in> set (cg_funs g)" "e_dst e \<in> set (cg_funs g)"
proof -
  have "\<forall>(f, h, k)\<in>set (cg_shape g). f \<in> set (cg_funs g) \<and> h \<in> set (cg_funs g)"
    using I unfolding cg_inv_def graph_ok_def by (elim conjE)
  moreover have "(e_src e, e_dst e, e_kind e) \<in> set (cg_shape g)" unfolding cg_shape_def set_map using e by (rule imageI)
  ultimately have "case (e_src e, e_dst e, e_kind e) of (f, h, k) \<Rightarrow> f \<in> set (cg_funs g) \<and> h \<in> set (cg_funs g)" by (rule bspec)
  then show "e_src e \<in> set (cg_funs g)" "e_dst e \<in> set (cg_funs g)" by simp_all
qed

lemma view_calls:
  assumes I: "cg_inv P C g"
  shows "call_edges (cg_view P g) i = None \<longleftrightarrow> (\<forall>h k. (i, h, k) \<notin> C)"
    "call_edges (cg_view P g) i = Some es \<Longrightarrow> set es = {e \<in> set (cg_edges g). i \<in> edge_calls e}"
proof -
  have M: "calls_ok g" and S: "sites_ok P C g" using I by (simp_all add: cg_inv_def)
  have len: "length (cg_shape g) = length (cg_edges g)" by (simp add: cg_shape_def)
  have at: "i \<in> cg_sites g r \<longleftrightarrow> i \<in> edge_calls (cg_edges g ! r)" for r by (simp add: edge_calls_def cg_sites_def)
  have sites: "(\<exists>r<length (cg_shape g). i \<in> cg_sites g r) \<longleftrightarrow> (\<exists>h k. (i, h, k) \<in> C)"
  proof -
    have "(\<exists>r<length (cg_shape g). i \<in> cg_sites g r) \<longleftrightarrow> (\<exists>e\<in>set (cg_edges g). i \<in> edge_calls e)"
      unfolding at len by (metis in_set_conv_nth)
    also have "\<dots> \<longleftrightarrow> (\<exists>h k. (i, h, k) \<in> C)" using edge_sites(1,2) [OF I] by blast
    finally show ?thesis .
  qed
  have m: "case callinstToCallGraphEdgesMap g i of None \<Rightarrow> (\<forall>r<length (cg_shape g). i \<notin> cg_sites g r)
     | Some s \<Rightarrow> es_ok s \<and> s \<noteq> [] \<and> set s = {(ref_key g r, r) | r. r < length (cg_shape g) \<and> i \<in> cg_sites g r}"
    using M unfolding calls_ok_def by blast
  show "call_edges (cg_view P g) i = None \<longleftrightarrow> (\<forall>h k. (i, h, k) \<notin> C)"
  proof (cases "callinstToCallGraphEdgesMap g i")
    case None
    then have "\<not> (\<exists>r<length (cg_shape g). i \<in> cg_sites g r)" using m by simp
    then have "\<forall>h k. (i, h, k) \<notin> C" using sites by blast
    then show ?thesis using None by (simp add: cg_view_def)
  next
    case (Some s)
    then have n: "s \<noteq> []" and e: "set s = {(ref_key g r, r) | r. r < length (cg_shape g) \<and> i \<in> cg_sites g r}" using m by simp_all
    from n obtain x where "x \<in> set s" by (meson last_in_set)
    with e have "\<exists>r<length (cg_shape g). i \<in> cg_sites g r" by blast
    then have "\<exists>h k. (i, h, k) \<in> C" using sites by blast
    then show ?thesis using Some by (simp add: cg_view_def)
  qed
  show "set es = {e \<in> set (cg_edges g). i \<in> edge_calls e}" if "call_edges (cg_view P g) i = Some es"
  proof -
    from that obtain s where s: "callinstToCallGraphEdgesMap g i = Some s" "es = set_edges g s" by (auto simp: cg_view_def)
    then have "set s = {(ref_key g r, r) | r. r < length (cg_shape g) \<and> i \<in> cg_sites g r}" using m by simp
    from set_edges_refs [OF this] show ?thesis unfolding s(2) at len by (auto simp: in_set_conv_nth)
  qed
qed

lemma view_forks:
  assumes I: "cg_inv P C g"
  shows "fork_edges (cg_view P g) i = None \<longleftrightarrow> i \<notin> set (forksites g)"
    "fork_edges (cg_view P g) i = Some es \<Longrightarrow> set es = {e \<in> set (cg_edges g). e_kind e = TDForkEdge \<and> i \<in> edge_calls e}"
proof -
  have F: "forks_ok g" using I by (simp add: cg_inv_def)
  have len: "length (cg_shape g) = length (cg_edges g)" by (simp add: cg_shape_def)
  have at: "i \<in> cg_sites g r \<longleftrightarrow> i \<in> edge_calls (cg_edges g ! r)" for r by (simp add: edge_calls_def cg_sites_def)
  have "dom (callinstToThreadForkEdgesMap g) = set (forksites g)" using F by (simp add: forks_ok_def)
  then show "fork_edges (cg_view P g) i = None \<longleftrightarrow> i \<notin> set (forksites g)" by (auto simp: cg_view_def domIff)
  show "set es = {e \<in> set (cg_edges g). e_kind e = TDForkEdge \<and> i \<in> edge_calls e}" if "fork_edges (cg_view P g) i = Some es"
  proof -
    from that obtain s where s: "callinstToThreadForkEdgesMap g i = Some s" "es = set_edges g s" by (auto simp: cg_view_def)
    have "set (map_at [] (callinstToThreadForkEdgesMap g) i) =
        {(ref_key g r, r) | r. r < length (cg_shape g) \<and> snd (snd (cg_shape g ! r)) = TDForkEdge \<and> i \<in> cg_sites g r}"
      using F unfolding forks_ok_def by blast
    then have "set s = {(ref_key g r, r) | r. r < length (cg_shape g) \<and> snd (snd (cg_shape g ! r)) = TDForkEdge \<and> i \<in> cg_sites g r}"
      using s(1) by (simp add: map_at_def)
    from set_edges_refs [OF this] have "set es = {cg_edges g ! r | r. r < length (cg_edges g) \<and>
        e_kind (cg_edges g ! r) = TDForkEdge \<and> i \<in> edge_calls (cg_edges g ! r)}"
      unfolding s(2) at using edge_at(1) len by force
    then show ?thesis by (auto simp: in_set_conv_nth)
  qed
qed

lemma view_ids:
  assumes "cg_inv P C g"
  shows "(i, h, k) \<in> C \<Longrightarrow> \<exists>n. getCallSiteID g i h = Some n" "getCallSiteID g i h = Some n \<longleftrightarrow> getCallSitePair g n = Some (i, h)"
proof -
  have I: "(i, h, k) \<in> C \<Longrightarrow> (i, h) \<in> dom (csToIdMap g)" "csToIdMap g (i, h) = Some n \<longleftrightarrow> idToCSMap g n = Some (i, h)"
    using assms unfolding cg_inv_def ids_ok_def by blast+
  show "(i, h, k) \<in> C \<Longrightarrow> \<exists>n. getCallSiteID g i h = Some n" using I(1) by (simp add: getCallSiteID_def domIff)
  show "getCallSiteID g i h = Some n \<longleftrightarrow> getCallSitePair g n = Some (i, h)" using I(2) by (simp add: getCallSiteID_def getCallSitePair_def)
qed

text \<open>
  The analyses ask for the identity of a call and a callee only when an edge of the graph joins them; there
  the assertion of \<open>getCallSiteID\<close> holds.
\<close>

lemma edge_ids:
  assumes I: "cg_inv P C g" and e: "e \<in> set (out_edges (cg_view P g) f) \<union> set (in_edges (cg_view P g) f)" and i: "i \<in> edge_calls e"
  shows "getCallSiteID g i (e_dst e) = Some (call_site_id (cg_view P g) i (e_dst e))"
proof -
  have "e \<in> set (cg_edges g)" using e view_edges(1,2) [OF I] by blast
  then have "(i, e_dst e, e_kind e) \<in> C" using edge_sites(1) [OF I] i by blast
  from view_ids(1) [OF I this] obtain n where "getCallSiteID g i (e_dst e) = Some n" ..
  then show ?thesis by (simp add: cg_view_def)
qed

text \<open>A node's set holds one edge for each callee and kind.\<close>

lemma view_distinct:
  assumes I: "cg_inv P C g"
  shows "distinct (map (\<lambda>e. (e_dst e, e_kind e)) (out_edges (cg_view P g) f))"
proof (cases "getCallGraphNode g f")
  case None
  then show ?thesis by (simp add: cg_view_def)
next
  case (Some n)
  have G: "graph_ok g" using I by (simp add: cg_inv_def)
  have len: "length (cg_shape g) = length (cg_edges g)" by (simp add: cg_shape_def)
  have s: "es_ok (cg_out g n)" "set (cg_out g n) = {(ref_key g r, r) | r. r < length (cg_shape g) \<and> node_of g (fst (cg_shape g ! r)) = n}"
    using G unfolding graph_ok_def by blast+
  have "distinct (cg_out g n)" using s(1) by (simp add: es_ok_iff distinct_map)
  moreover have "inj_on (\<lambda>(k, r). (e_dst (cg_edges g ! r), e_kind (cg_edges g ! r))) (set (cg_out g n))"
  proof (rule inj_onI)
    fix x y assume m: "x \<in> set (cg_out g n)" "y \<in> set (cg_out g n)"
      and eq: "(case x of (k, r) \<Rightarrow> (e_dst (cg_edges g ! r), e_kind (cg_edges g ! r))) = (case y of (k, r) \<Rightarrow> (e_dst (cg_edges g ! r), e_kind (cg_edges g ! r)))"
    from m s(2) obtain r q where x: "x = (ref_key g r, r)" "r < length (cg_shape g)" and y: "y = (ref_key g q, q)" "q < length (cg_shape g)"
      and src: "e_src (cg_edges g ! r) \<in> {h. node_of g h = n}" "e_src (cg_edges g ! q) \<in> {h. node_of g h = n}"
      using edge_at(1) by force
    have mem: "cg_edges g ! r \<in> set (cg_edges g)" "cg_edges g ! q \<in> set (cg_edges g)" using x(2) y(2) by (simp_all add: len)
    have "e_dst (cg_edges g ! r) = e_dst (cg_edges g ! q)" "e_kind (cg_edges g ! r) = e_kind (cg_edges g ! q)" using eq x(1) y(1) by simp_all
    then have "ref_key g r = ref_key g q" using edge_at(1) x(2) y(2) src by (simp add: ref_key_def)
    then show "x = y" using ref_key_inj [OF _ G x(2) y(2)] I x(1) y(1) by (simp add: cg_inv_def)
  qed
  ultimately have "distinct (map (\<lambda>(k, r). (e_dst (cg_edges g ! r), e_kind (cg_edges g ! r))) (cg_out g n))" by (simp add: distinct_map)
  then show ?thesis using Some by (simp add: cg_view_def set_edges_def split_def comp_def)
qed

section \<open>The graph of the analysis\<close>

text \<open>As \<open>computeMHP\<close> makes it: the constructor, then the indirect calls and forks.\<close>

definition call_graph_of :: "cg_env \<Rightarrow> program \<Rightarrow> call_ids \<Rightarrow> call_graph option" where
  "call_graph_of E P st = Option.bind (ThreadCallGraph_new E P st) (updateCallGraph E P)"

definition calls_found :: "cg_env \<Rightarrow> program \<Rightarrow> call_set" where
  "calls_found E P = direct_calls E P \<union> direct_forks E P \<union> found_calls E \<union> found_forks E P"

lemma call_graph_of_state:
  assumes "tcg_ok E P" and "call_ids_ok st"
  shows "\<exists>g. call_graph_of E P st = Some g \<and>
    cg_state P {i \<in> tcg_insts P. td_fork P i} {i \<in> tcg_insts P. td_join P i} (calls_found E P) g"
proof -
  from ThreadCallGraph_new_state [OF assms] obtain g where g: "ThreadCallGraph_new E P st = Some g"
    "cg_state P {i \<in> tcg_insts P. td_fork P i} {i \<in> tcg_insts P. td_join P i} (direct_calls E P \<union> direct_forks E P) g" by blast
  from updateCallGraph_state [OF assms(1) g(2)] show ?thesis using g(1) by (simp add: call_graph_of_def calls_found_def)
qed

text \<open>A program for the witnesses: \<open>main\<close> (0) starts 1 by name and 2 through a pointer, and joins;
  1 calls 2 through a pointer; 3 and 4 are the external thread functions.\<close>

definition cg_prog :: program where
  "cg_prog = empty_program\<lparr>mod_funs := [0, 1, 2, 3, 4],
     fun_insts := (\<lambda>f. if f = 0 then [10, 11, 12, 13] else if f = 1 then [20, 21] else if f = 2 then [30] else []),
     fun_of := (\<lambda>i. if i < 20 then 0 else if i < 30 then 1 else 2), is_ext_fun := (\<lambda>f. f \<in> {3, 4}),
     callee_of := (\<lambda>i. if i \<in> {10, 11} then Some 3 else if i = 12 then Some 4 else None),
     fun_name := (\<lambda>f. if f = 0 then ''main'' else []), td_fork := (\<lambda>i. i \<in> {10, 11}), td_join := (\<lambda>i. i = 12)\<rparr>"

definition cg_prog_env :: cg_env where
  "cg_prog_env = \<lparr>ce_callsite = (\<lambda>i. i \<in> {10, 11, 12, 20}), ce_dbg = (\<lambda>_. False), ce_par_for = (\<lambda>_. False),
     ce_forked = (\<lambda>i. if i = 10 then Some 1 else None), ce_task = (\<lambda>_. None), ce_ind_calls = [(20, [2])],
     ce_fork_targets = (\<lambda>i. if i = 11 then [2] else []), ce_task_targets = (\<lambda>_. [])\<rparr>"

lemma cg_prog_ok: "tcg_ok cg_prog_env cg_prog"
  by (simp add: tcg_ok_def cg_prog_def cg_prog_env_def empty_program_def)

lemma cg_prog_insts: "tcg_insts cg_prog = {10, 11, 12, 13, 20, 21, 30}"
  by (simp add: tcg_insts_def cg_prog_def insert_commute)

lemma calls_found_insts:
  "direct_calls E P = (\<Union>i\<in>tcg_insts P. if ce_callsite E i \<and> \<not> ce_dbg E i then (\<lambda>h. (i, h, CallRetEdge)) ` set_option (callee_of P i) else {})"
  "direct_forks E P = (\<Union>i\<in>tcg_insts P. if td_fork P i then (\<lambda>h. (i, h, TDForkEdge)) ` set_option (ce_forked E i) else {})"
  "found_calls E = (\<Union>(i, hs)\<in>set (ce_ind_calls E). (\<lambda>h. (i, h, CallRetEdge)) ` set hs)"
  "found_forks E P = (\<Union>i\<in>tcg_insts P. if td_fork P i \<and> ce_forked E i = None
     then (\<lambda>h. (i, h, TDForkEdge)) ` set (ce_fork_targets E i) else {})"
  unfolding direct_calls_def direct_forks_def found_calls_def found_forks_def by (auto split: if_splits)

lemma cg_prog_calls: "calls_found cg_prog_env cg_prog =
    {(10, 3, CallRetEdge), (11, 3, CallRetEdge), (12, 4, CallRetEdge), (10, 1, TDForkEdge), (20, 2, CallRetEdge), (11, 2, TDForkEdge)}"
  by (simp add: calls_found_def calls_found_insts cg_prog_insts) (simp add: cg_prog_def cg_prog_env_def empty_program_def insert_commute)

text \<open>C4: Under the well-formedness of the module, the construction of the thread call graph fails
  none of its assertions, and the graph holds exactly the calls and forks found: a function has one
  outgoing edge for each callee and kind, with the call sites that lie in it, an edge is among the
  incoming edges of its target, and each call has an identity from which it is recovered.\<close>

theorem call_graph_edges:
  assumes "tcg_ok E P" and "call_ids_ok st"
  shows "\<exists>g. call_graph_of E P st = Some g \<and>
    (\<forall>i h k. (i, h, k) \<in> calls_found E P \<longleftrightarrow> (\<exists>e\<in>set (out_edges (cg_view P g) (fun_of P i)). e_dst e = h \<and> e_kind e = k \<and> i \<in> edge_calls e)) \<and>
    (\<forall>f. distinct (map (\<lambda>e. (e_dst e, e_kind e)) (out_edges (cg_view P g) f)) \<and>
       (\<forall>e\<in>set (out_edges (cg_view P g) f). e_src e = f \<and> edge_calls e \<noteq> {} \<and> (\<forall>i\<in>edge_calls e. fun_of P i = f)) \<and>
       set (in_edges (cg_view P g) f) = {e. e \<in> set (out_edges (cg_view P g) (e_src e)) \<and> e_dst e = f}) \<and>
    (\<forall>i h k. (i, h, k) \<in> calls_found E P \<longrightarrow> (\<exists>n. getCallSiteID g i h = Some n)) \<and>
    (\<forall>i h n. getCallSiteID g i h = Some n \<longleftrightarrow> getCallSitePair g n = Some (i, h)) \<and>
    set (fork_sites (cg_view P g)) = {i \<in> tcg_insts P. td_fork P i} \<and> set (join_sites (cg_view P g)) = {i \<in> tcg_insts P. td_join P i}"
proof -
  let ?C = "calls_found E P"
  obtain g where g: "call_graph_of E P st = Some g" "cg_inv P ?C g" "set (forksites g) = {i \<in> tcg_insts P. td_fork P i}"
    "set (joinsites g) = {i \<in> tcg_insts P. td_join P i}" using call_graph_of_state [OF assms] unfolding cg_state_def by blast
  note out = view_edges(1) [OF g(2)] and inn = view_edges(2) [OF g(2)]
  have calls: "(i, h, k) \<in> ?C \<longleftrightarrow> (\<exists>e\<in>set (out_edges (cg_view P g) (fun_of P i)). e_dst e = h \<and> e_kind e = k \<and> i \<in> edge_calls e)" for i h k
  proof
    assume "(i, h, k) \<in> ?C"
    from edge_sites(2) [OF g(2) this] show "\<exists>e\<in>set (out_edges (cg_view P g) (fun_of P i)). e_dst e = h \<and> e_kind e = k \<and> i \<in> edge_calls e"
      unfolding out by blast
  next
    assume "\<exists>e\<in>set (out_edges (cg_view P g) (fun_of P i)). e_dst e = h \<and> e_kind e = k \<and> i \<in> edge_calls e"
    then show "(i, h, k) \<in> ?C" unfolding out using edge_sites(1) [OF g(2)] by blast
  qed
  have dist: "distinct (map (\<lambda>e. (e_dst e, e_kind e)) (out_edges (cg_view P g) f))" for f
    by (rule view_distinct [OF g(2)])
  have edge: "e_src e = f \<and> edge_calls e \<noteq> {} \<and> (\<forall>i\<in>edge_calls e. fun_of P i = f)" if "e \<in> set (out_edges (cg_view P g) f)" for e f
    using that edge_sites(1) [OF g(2)] unfolding out by blast
  have ins: "set (in_edges (cg_view P g) f) = {e. e \<in> set (out_edges (cg_view P g) (e_src e)) \<and> e_dst e = f}" for f
    unfolding inn out by blast
  have ids: "(i, h, k) \<in> ?C \<Longrightarrow> \<exists>n. getCallSiteID g i h = Some n" "getCallSiteID g i h = Some n \<longleftrightarrow> getCallSitePair g n = Some (i, h)" for i h k n
    using view_ids [OF g(2)] by blast+
  have sites: "fork_sites (cg_view P g) = forksites g" "join_sites (cg_view P g) = joinsites g" by (simp_all add: cg_view_def)
  show ?thesis
    by (rule exI [of _ g]) (intro conjI allI ballI impI; (rule g(1) calls dist ins ids | erule ids | simp add: sites g(3,4) | (drule edge, simp)))
qed

theorem call_graph_edges_witness:
  "\<exists>g e. call_graph_of cg_prog_env cg_prog no_call_ids = Some g \<and> e \<in> set (out_edges (cg_view cg_prog g) 0) \<and> e_dst e = 2 \<and> e_kind e = TDForkEdge \<and>
    11 \<in> edge_calls e \<and> (\<exists>n. getCallSitePair g n = Some (20, 2))"
proof -
  obtain g where g: "call_graph_of cg_prog_env cg_prog no_call_ids = Some g"
    "\<forall>i h k. (i, h, k) \<in> calls_found cg_prog_env cg_prog \<longleftrightarrow>
      (\<exists>e\<in>set (out_edges (cg_view cg_prog g) (fun_of cg_prog i)). e_dst e = h \<and> e_kind e = k \<and> i \<in> edge_calls e)"
    "\<forall>i h k. (i, h, k) \<in> calls_found cg_prog_env cg_prog \<longrightarrow> (\<exists>n. getCallSiteID g i h = Some n)"
    "\<forall>i h n. getCallSiteID g i h = Some n \<longleftrightarrow> getCallSitePair g n = Some (i, h)"
    using call_graph_edges [OF cg_prog_ok no_call_ids_ok] by blast
  have "(11, 2, TDForkEdge) \<in> calls_found cg_prog_env cg_prog" "(20, 2, CallRetEdge) \<in> calls_found cg_prog_env cg_prog"
    by (simp_all add: cg_prog_calls)
  then have "\<exists>e\<in>set (out_edges (cg_view cg_prog g) (fun_of cg_prog 11)). e_dst e = 2 \<and> e_kind e = TDForkEdge \<and> 11 \<in> edge_calls e"
    "\<exists>n. getCallSitePair g n = Some (20, 2)" using g(2-4) by blast+
  moreover have "fun_of cg_prog 11 = 0" by (simp add: cg_prog_def)
  ultimately show ?thesis using g(1) by auto
qed

section \<open>The thread tree on the graph\<close>

text \<open>The relation between caller and called function, forks included.\<close>

definition may_call :: "cg_env \<Rightarrow> program \<Rightarrow> (func \<times> func) set" where
  "may_call E P = {(fun_of P i, h) | i h. \<exists>k. (i, h, k) \<in> calls_found E P}"

text \<open>What \<open>computeMHP\<close> does up to the tree: call graph, strong components, threads.\<close>

definition thread_tree_of :: "cg_env \<Rightarrow> program \<Rightarrow> call_ids \<Rightarrow> (program \<times> tct) option" where
  "thread_tree_of E P st = do {
     g \<leftarrow> call_graph_of E P st;
     s \<leftarrow> scc_find (callees (cg_view P g)) (mod_funs P);
     r \<leftarrow> build (with_scc (cg_view P g) s);
     t \<leftarrow> r;
     Some (with_scc (cg_view P g) s, t)}"

text \<open>Each fork starts one routine, \<open>rt\<close>; a loop around a join lies in the function of the join;
  some function with a body is called by none.\<close>

definition forks_fixed :: "cg_env \<Rightarrow> program \<Rightarrow> (inst \<Rightarrow> func) \<Rightarrow> bool" where
  "forks_fixed E P rt \<longleftrightarrow> (\<forall>i h. (i, h, TDForkEdge) \<in> calls_found E P \<longrightarrow> i \<noteq> null_inst \<and> h = rt i)"

definition joins_local :: "program \<Rightarrow> bool" where
  "joins_local P \<longleftrightarrow> (\<forall>j\<in>tcg_insts P. td_join P j \<longrightarrow>
     (\<forall>lp. tct_getLoop P j = Some lp \<longrightarrow> fun_of P (bb_front P (loop_header P lp)) = fun_of P j))"

definition has_entry :: "cg_env \<Rightarrow> program \<Rightarrow> bool" where
  "has_entry E P \<longleftrightarrow> (\<exists>f\<in>set (mod_funs P). \<not> is_ext_fun P f \<and> f \<notin> Range (may_call E P))"

lemma view_program [simp]:
  "mod_funs (cg_view P g) = mod_funs P" "fun_of (cg_view P g) = fun_of P" "is_ext_fun (cg_view P g) = is_ext_fun P"
  "bb_of (cg_view P g) = bb_of P" "bb_front (cg_view P g) = bb_front P" "loop_of (cg_view P g) = loop_of P"
  "loop_header (cg_view P g) = loop_header P" "fork_sites (cg_view P g) = forksites g" "join_sites (cg_view P g) = joinsites g"
  by (simp_all add: cg_view_def)

lemma view_calls_of:
  assumes "cg_inv P C g"
  shows "(e, cs) \<in> set (calls_of (cg_view P g) f) \<longleftrightarrow> e \<in> set (cg_edges g) \<and> e_src e = f \<and> cs \<in> edge_calls e"
    "set (callers_of (cg_view P g) f) = {i. \<exists>k. (i, f, k) \<in> C}"
    "f \<in> set (map e_src (in_edges (cg_view P g) h)) \<longleftrightarrow> (\<exists>e\<in>set (cg_edges g). e_src e = f \<and> e_dst e = h)"
proof -
  show "(e, cs) \<in> set (calls_of (cg_view P g) f) \<longleftrightarrow> e \<in> set (cg_edges g) \<and> e_src e = f \<and> cs \<in> edge_calls e"
    by (auto simp: calls_of_def view_edges(1) [OF assms] edge_calls_def)
  have "set (callers_of (cg_view P g) f) = (\<Union>e\<in>{e \<in> set (cg_edges g). e_dst e = f}. edge_calls e)"
    unfolding callers_of_def view_edges(2) [OF assms, symmetric] by (simp add: edge_calls_def)
  also have "\<dots> = {i. \<exists>k. (i, f, k) \<in> C}"
  proof (intro set_eqI iffI)
    fix i assume "i \<in> (\<Union>e\<in>{e \<in> set (cg_edges g). e_dst e = f}. edge_calls e)"
    then obtain e where e: "e \<in> set (cg_edges g)" "e_dst e = f" "i \<in> edge_calls e" by blast
    then have "(i, e_dst e, e_kind e) \<in> C" using edge_sites(1) [OF assms e(1)] by simp
    then show "i \<in> {i. \<exists>k. (i, f, k) \<in> C}" using e(2) by blast
  next
    fix i assume "i \<in> {i. \<exists>k. (i, f, k) \<in> C}"
    then obtain k where "(i, f, k) \<in> C" by blast
    from edge_sites(2) [OF assms this] show "i \<in> (\<Union>e\<in>{e \<in> set (cg_edges g). e_dst e = f}. edge_calls e)" by blast
  qed
  finally show "set (callers_of (cg_view P g) f) = {i. \<exists>k. (i, f, k) \<in> C}" .
  show "f \<in> set (map e_src (in_edges (cg_view P g) h)) \<longleftrightarrow> (\<exists>e\<in>set (cg_edges g). e_src e = f \<and> e_dst e = h)"
    by (auto simp: view_edges(2) [OF assms])
qed

lemma view_relation:
  assumes "cg_inv P (calls_found E P) g"
  shows "sc_edges (callees (cg_view P g)) = may_call E P"
    "reach (fun_callers (cg_view P g)) {f} = {h. (h, f) \<in> (may_call E P)\<^sup>*}"
proof -
  have edge: "(f, h) \<in> may_call E P \<longleftrightarrow> (\<exists>e\<in>set (cg_edges g). e_src e = f \<and> e_dst e = h)" for f h
  proof
    assume "(f, h) \<in> may_call E P"
    then obtain i k where c: "(i, h, k) \<in> calls_found E P" "f = fun_of P i" unfolding may_call_def by blast
    from edge_sites(2) [OF assms c(1)] c(2) show "\<exists>e\<in>set (cg_edges g). e_src e = f \<and> e_dst e = h" by blast
  next
    assume "\<exists>e\<in>set (cg_edges g). e_src e = f \<and> e_dst e = h"
    then obtain e where e: "e \<in> set (cg_edges g)" "e_src e = f" "e_dst e = h" by blast
    obtain i where "i \<in> edge_calls e" using edge_sites(1) [OF assms e(1)] by blast
    then have "fun_of P i = f" "(i, h, e_kind e) \<in> calls_found E P" using edge_sites(1) [OF assms e(1)] e(2,3) by simp_all
    then show "(f, h) \<in> may_call E P" unfolding may_call_def by blast
  qed
  show "sc_edges (callees (cg_view P g)) = may_call E P"
    using edge by (auto simp: view_edges(1) [OF assms])
  have c: "h \<in> fun_callers (cg_view P g) f \<longleftrightarrow> (h, f) \<in> may_call E P" for h f
    unfolding fun_callers_def view_calls_of(2) [OF assms] may_call_def by auto
  have "(\<lambda>a b. b \<in> fun_callers (cg_view P g) a)\<^sup>*\<^sup>* f h \<longleftrightarrow> (h, f) \<in> (may_call E P)\<^sup>*" for h
  proof -
    have "(\<lambda>a b. b \<in> fun_callers (cg_view P g) a) = (\<lambda>a b. (a, b) \<in> (may_call E P)\<inverse>)" by (simp add: c fun_eq_iff)
    then have "(\<lambda>a b. b \<in> fun_callers (cg_view P g) a)\<^sup>*\<^sup>* f h \<longleftrightarrow> (f, h) \<in> ((may_call E P)\<inverse>)\<^sup>*"
      by (simp add: rtranclp_rtrancl_eq converse_unfold)
    then show ?thesis by (simp only: rtrancl_converse converse_iff)
  qed
  then show "reach (fun_callers (cg_view P g)) {f} = {h. (h, f) \<in> (may_call E P)\<^sup>*}" by (simp add: reach_def)
qed

lemma view_ready:
  assumes ok: "cg_inv P (calls_found E P) g" "cg_funs g = mod_funs P" and funs: "\<forall>f\<in>set (mod_funs P). f < UINT_MAX"
    and J: "set (joinsites g) = {i \<in> tcg_insts P. td_join P i}"
    and P: "forks_fixed E P rt" "joins_local P" "has_entry E P"
  shows "call_graph_ok (cg_view P g) (mod_funs P)" "calls_finite (cg_view P g)" "fork_resolved (cg_view P g) rt"
    "loops_local (cg_view P g)" "\<forall>i\<in>set (fork_sites (cg_view P g)). fork_edges (cg_view P g) i \<noteq> None" "entry_funs (cg_view P g) \<noteq> {}"
proof -
  note E = view_edges [OF ok(1)] and S = edge_sites [OF ok(1)] and V = view_calls_of [OF ok(1)]
  have ends: "e_src e \<in> set (mod_funs P) \<and> e_dst e \<in> set (mod_funs P)" if "e \<in> set (cg_edges g)" for e
    using edge_ends [OF ok(1) that] ok(2) by simp
  have "out_edges (cg_view P g) f = []" if "f \<notin> set (mod_funs P)" for f
  proof -
    have "set (out_edges (cg_view P g) f) = {}" unfolding E(1) using ends that by blast
    then show ?thesis by simp
  qed
  moreover have "set (callees (cg_view P g) f) \<subseteq> set (mod_funs P)" for f using ends by (auto simp: E(1))
  moreover have "fun_of P cs = f" if "(e, cs) \<in> set (calls_of (cg_view P g) f)" for e cs f using that S(1) [of e] by (auto simp: V(1))
  ultimately show "call_graph_ok (cg_view P g) (mod_funs P)" using funs by (simp add: call_graph_ok_def)
  have "finite {i. \<exists>f k. (i, f, k) \<in> calls_found E P}"
  proof (rule finite_subset)
    show "{i. \<exists>f k. (i, f, k) \<in> calls_found E P} \<subseteq> (\<Union>e\<in>set (cg_edges g). edge_calls e)" using S(2) by blast
  qed (simp add: edge_calls_def)
  moreover have "(\<Union>f. {i. \<exists>k. (i, f, k) \<in> calls_found E P}) = {i. \<exists>f k. (i, f, k) \<in> calls_found E P}" by blast
  moreover have "finite (\<Union>h. set (map e_src (in_edges (cg_view P g) h)))"
  proof (rule finite_subset)
    show "(\<Union>h. set (map e_src (in_edges (cg_view P g) h))) \<subseteq> e_src ` set (cg_edges g)" by (auto simp: E(2))
  qed simp
  ultimately show "calls_finite (cg_view P g)" by (simp only: calls_finite_def V(2) simp_thms)
  show "fork_resolved (cg_view P g) rt" unfolding fork_resolved_def V(1)
  proof (intro allI impI)
    fix f e cs assume e: "e \<in> set (cg_edges g) \<and> e_src e = f \<and> cs \<in> edge_calls e" "e_kind e = TDForkEdge"
    then have "(cs, e_dst e, TDForkEdge) \<in> calls_found E P" using S(1) [of e] by simp
    then show "cs \<noteq> null_inst \<and> e_dst e = rt cs" using P(1) unfolding forks_fixed_def by blast
  qed
  show "loops_local (cg_view P g)" using P(2) J by (simp add: loops_local_def joins_local_def tct_getLoop_def)
  show "\<forall>i\<in>set (fork_sites (cg_view P g)). fork_edges (cg_view P g) i \<noteq> None" using view_forks(1) [OF ok(1)] by simp
  obtain f where f: "f \<in> set (mod_funs P)" "\<not> is_ext_fun P f" "f \<notin> Range (may_call E P)" using P(3) unfolding has_entry_def by blast
  have "set (in_edges (cg_view P g) f) = {}"
  proof -
    have "(i, f, k) \<notin> calls_found E P" for i k using f(3) unfolding may_call_def by blast
    moreover have "\<exists>i. (i, e_dst e, e_kind e) \<in> calls_found E P" if "e \<in> set (cg_edges g)" for e using S(1) [OF that] by blast
    ultimately show ?thesis unfolding E(2) by blast
  qed
  then show "entry_funs (cg_view P g) \<noteq> {}" using f(1,2) by (auto simp: entry_funs_def)
qed

text \<open>C3: From the module and the results of the pointer analysis the program gets to a thread creation
  tree without failing an assertion: the call graph, its strong components and the tree are built; the
  tree has one node for each thread of the program, in the sense of the spawn points and calling
  contexts on this graph, and the joins that it lists as recursive are those in functions that a
  function on a cycle of calls and forks may lead to.\<close>

theorem thread_tree_of_built:
  assumes "tcg_ok E P" and "call_ids_ok st" and "\<forall>f\<in>set (mod_funs P). f < UINT_MAX"
    and "forks_fixed E P rt" and "joins_local P" and "has_entry E P"
  shows "\<exists>Q t. thread_tree_of E P st = Some (Q, t) \<and>
    bij_betw (node_key t) {..<length (tctNodes t)} (fst ` program_threads Q) \<and>
    set (inRecurJoinSites t) = {j \<in> tcg_insts P. td_join P j \<and>
      (\<exists>f. (f, fun_of P j) \<in> (may_call E P)\<^sup>* \<and> (f, f) \<in> (may_call E P)\<^sup>+)}"
proof -
  obtain g where g: "call_graph_of E P st = Some g" "cg_inv P (calls_found E P) g" "cg_funs g = mod_funs P"
    "set (joinsites g) = {i \<in> tcg_insts P. td_join P i}" using call_graph_of_state [OF assms(1,2)] unfolding cg_state_def by blast
  note ready = view_ready [OF g(2,3) assms(3) g(4) assms(4-6)]
  obtain s t where t: "scc_find (callees (cg_view P g)) (mod_funs P) = Some s" "build (with_scc (cg_view P g) s) = Some (Some t)"
    "bij_betw (node_key t) {..<length (tctNodes t)} (fst ` program_threads (with_scc (cg_view P g) s))"
    "set (inRecurJoinSites t) = {j \<in> set (join_sites (cg_view P g)).
      \<exists>f\<in>reach (fun_callers (cg_view P g)) {fun_of (cg_view P g) j}. (f, f) \<in> (sc_edges (callees (cg_view P g)))\<^sup>+}"
    using scc_build [OF ready] by blast
  have "thread_tree_of E P st = Some (with_scc (cg_view P g) s, t)" using g(1) t(1,2) by (simp add: thread_tree_of_def)
  moreover have "set (inRecurJoinSites t) = {j \<in> tcg_insts P. td_join P j \<and>
      (\<exists>f. (f, fun_of P j) \<in> (may_call E P)\<^sup>* \<and> (f, f) \<in> (may_call E P)\<^sup>+)}"
    unfolding t(4) view_relation [OF g(2)] view_program g(4) by blast
  ultimately show ?thesis using t(3) by blast
qed

lemma cg_prog_may_call: "may_call cg_prog_env cg_prog = {(0, 3), (0, 4), (0, 1), (1, 2), (0, 2)}"
proof -
  have "may_call cg_prog_env cg_prog = (\<lambda>(i, h, k). (fun_of cg_prog i, h)) ` calls_found cg_prog_env cg_prog"
    unfolding may_call_def by force
  then show ?thesis by (simp add: cg_prog_calls) (simp add: cg_prog_def insert_commute)
qed

theorem thread_tree_of_built_witness:
  "\<exists>Q t. thread_tree_of cg_prog_env cg_prog no_call_ids = Some (Q, t) \<and> bij_betw (node_key t) {..<length (tctNodes t)} (fst ` program_threads Q) \<and>
    set (inRecurJoinSites t) = {}"
proof -
  note calls = cg_prog_may_call
  have rank: "x < y" if "(x, y) \<in> (may_call cg_prog_env cg_prog)\<^sup>+" for x y
    using that by (induction rule: trancl_induct) (auto simp: calls)
  have "forks_fixed cg_prog_env cg_prog (\<lambda>i. if i = 10 then 1 else 2)"
    by (simp add: forks_fixed_def cg_prog_calls null_inst_def)
  moreover have "joins_local cg_prog" by (simp add: joins_local_def tct_getLoop_def cg_prog_def empty_program_def)
  moreover have "has_entry cg_prog_env cg_prog" unfolding has_entry_def calls
    by (rule bexI [of _ 0]) (auto simp: cg_prog_def)
  moreover have "\<forall>f\<in>set (mod_funs cg_prog). f < UINT_MAX" by (simp add: cg_prog_def UINT_MAX_def)
  ultimately obtain Q t where t: "thread_tree_of cg_prog_env cg_prog no_call_ids = Some (Q, t)"
    "bij_betw (node_key t) {..<length (tctNodes t)} (fst ` program_threads Q)"
    "set (inRecurJoinSites t) = {j \<in> tcg_insts cg_prog. td_join cg_prog j \<and>
      (\<exists>f. (f, fun_of cg_prog j) \<in> (may_call cg_prog_env cg_prog)\<^sup>* \<and> (f, f) \<in> (may_call cg_prog_env cg_prog)\<^sup>+)}"
    using thread_tree_of_built [OF cg_prog_ok no_call_ids_ok] by blast
  have "set (inRecurJoinSites t) = {}" unfolding t(3) using rank by blast
  then show ?thesis using t(1,2) by blast
qed

end
