(* ===== verification/CallGraphQuery.thy ===== *)
theory CallGraphQuery
  imports CallGraphResult
begin

text \<open>
  What the queries of the call graph answer: the sites that call a function, and whether
  a function is reached from the entry of the program.
\<close>

section \<open>Reachability from main\<close>

definition node_preds :: "call_graph \<Rightarrow> nat \<Rightarrow> nat set" where
  "node_preds g n = (\<lambda>((fl, src, dst), r). src) ` set (cg_in g n)"

definition is_main :: "program \<Rightarrow> call_graph \<Rightarrow> nat \<Rightarrow> bool" where
  "is_main P g n \<longleftrightarrow> fun_name P (cg_funs g ! n) = ''main''"

definition entry_inv :: "entry_search \<Rightarrow> bool" where
  "entry_inv s \<longleftrightarrow> distinct (es_stack s) \<and> set (es_stack s) \<subseteq> es_visited s"

abbreviation entry_done :: "entry_search \<Rightarrow> nat set" where
  "entry_done s \<equiv> es_visited s - set (es_stack s)"

lemma entry_pushes:
  assumes "entry_inv s"
  shows "entry_inv (fold entry_push ns s) \<and> es_found (fold entry_push ns s) = es_found s \<and>
    es_visited (fold entry_push ns s) = es_visited s \<union> set ns \<and>
    set (es_stack (fold entry_push ns s)) = set (es_stack s) \<union> (set ns - es_visited s)"
  using assms
proof (induction ns arbitrary: s)
  case (Cons n ns)
  have "entry_inv (entry_push n s)" "es_found (entry_push n s) = es_found s" "es_visited (entry_push n s) = insert n (es_visited s)"
    "set (es_stack (entry_push n s)) = set (es_stack s) \<union> ({n} - es_visited s)"
    using Cons.prems by (auto simp: entry_push_def entry_inv_def)
  with Cons.IH [of "entry_push n s"] show ?case by auto
qed simp

lemma entry_step_effect:
  assumes "entry_inv s" "es_stack s \<noteq> []" "\<not> es_found s"
  shows "\<exists>n\<in>set (es_stack s). entry_inv (entry_step P g s) \<and> es_found (entry_step P g s) = is_main P g n \<and>
    (\<not> is_main P g n \<longrightarrow> entry_done (entry_step P g s) = insert n (entry_done s) \<and>
      set (es_stack (entry_step P g s)) = (set (es_stack s) - {n}) \<union> (node_preds g n - es_visited s))"
proof -
  obtain n ns where st: "es_stack s = n # ns" using assms(2) by (cases "es_stack s") simp_all
  let ?s = "s\<lparr>es_stack := ns\<rparr>" and ?ps = "map (\<lambda>((fl, src, dst), r). src) (cg_in g n)"
  have i: "entry_inv ?s" "n \<notin> set ns" "n \<in> es_visited s" "set ns \<subseteq> es_visited s" using assms(1) st by (auto simp: entry_inv_def)
  have ps: "set ?ps = node_preds g n" by (simp add: node_preds_def)
  show ?thesis
  proof (cases "is_main P g n")
    case True
    then have "entry_step P g s = s\<lparr>es_stack := ns, es_found := True\<rparr>" by (simp add: entry_step_def st is_main_def)
    then show ?thesis using True i st by (intro bexI [of _ n]) (simp_all add: entry_inv_def)
  next
    case False
    then have e: "entry_step P g s = fold entry_push ?ps ?s" by (simp add: entry_step_def st is_main_def)
    note p = entry_pushes [OF i(1), of ?ps, folded e, unfolded ps]
    then show ?thesis using False i st assms(3) by (intro bexI [of _ n]) auto
  qed
qed

interpretation entry: graph_search "node_preds g" "is_main P g" "\<lambda>s. set (es_stack s)" entry_done es_found
  "\<lambda>s. length (es_stack s)" "\<lambda>s. es_stack s \<noteq> [] \<and> \<not> es_found s" "entry_step P g" entry_inv
  for P g
proof (unfold_locales, goal_cases)
  case (1 s) then show ?case by auto
next
  case (2 s) then show ?case using entry_step_effect [of s P g] by blast
next
  case (3 s) then show ?case using entry_step_effect [of s P g] by auto
next
  case (4 s) then show ?case using entry_step_effect [of s P g] by auto
next
  case (5 s)
  then obtain n where n: "n \<in> set (es_stack s)" "es_found (entry_step P g s) = is_main P g n"
    "\<not> is_main P g n \<longrightarrow> entry_done (entry_step P g s) = insert n (entry_done s)" using entry_step_effect [of s P g] by blast
  then have "entry_done (entry_step P g s) = insert n (entry_done s)" "n \<notin> entry_done s" using 5(3) by auto
  then show ?case by blast
next
  case (6 s) then show ?case using entry_step_effect [of s P g] by auto
next
  case (7 s x)
  then obtain n where n: "es_found (entry_step P g s) = is_main P g n" "\<not> is_main P g n \<longrightarrow>
      entry_done (entry_step P g s) = insert n (entry_done s) \<and>
      set (es_stack (entry_step P g s)) = (set (es_stack s) - {n}) \<union> (node_preds g n - es_visited s)"
    using entry_step_effect [of s P g] by blast
  then have "\<not> is_main P g n" "x = n" using 7(3-5) by auto
  then show ?case using n(2) by auto
qed

lemma isReachableFromProgEntry_reach:
  assumes "finite (reach (node_preds g) {n})"
  shows "isReachableFromProgEntry P g n = Some (\<exists>m\<in>reach (node_preds g) {n}. is_main P g m)"
proof -
  let ?s = "\<lparr>es_stack = [n], es_visited = {n}, es_found = False\<rparr>"
  have i: "entry_inv ?s" "entry_done ?s = {}" "set (es_stack ?s) = {n}" "\<not> es_found ?s" by (simp_all add: entry_inv_def)
  obtain t where t: "while_option (\<lambda>s. es_stack s \<noteq> [] \<and> \<not> es_found s) (entry_step P g) ?s = Some t"
    using entry.search_terminates [OF assms i] by blast
  have "es_found t \<longleftrightarrow> (\<exists>m\<in>reach (node_preds g) {n}. is_main P g m)" using entry.search_result [OF t i] by simp
  then show ?thesis using t by (simp add: isReachableFromProgEntry_def)
qed

text \<open>On a graph of the builder the predecessors are the callers.\<close>

lemma preds_callers:
  assumes I: "cg_inv P (calls_found E P) g" and f: "f \<in> set (cg_funs g)"
  shows "node_preds g (node_of g f) = node_of g ` {h. (h, f) \<in> may_call E P}" "{h. (h, f) \<in> may_call E P} \<subseteq> set (cg_funs g)"
proof -
  have N: "nodes_ok g" and G: "graph_ok g" using I by (simp_all add: cg_inv_def)
  have edge: "(h, f) \<in> may_call E P \<longleftrightarrow> (\<exists>e\<in>set (cg_edges g). e_src e = h \<and> e_dst e = f)" for h
  proof -
    have "(h, f) \<in> may_call E P \<longleftrightarrow> (h, f) \<in> sc_edges (callees (cg_view P g))" by (simp only: view_relation(1) [OF I])
    also have "\<dots> \<longleftrightarrow> f \<in> e_dst ` {e \<in> set (cg_edges g). e_src e = h}"
      by (simp only: case_prod_conv mem_Collect_eq set_map view_edges(1) [OF I])
    also have "\<dots> \<longleftrightarrow> (\<exists>e\<in>set (cg_edges g). e_src e = h \<and> e_dst e = f)" by (auto simp: image_iff)
    finally show ?thesis .
  qed
  note ends = edge_ends [OF I]
  show "{h. (h, f) \<in> may_call E P} \<subseteq> set (cg_funs g)"
  proof
    fix h assume "h \<in> {h. (h, f) \<in> may_call E P}"
    then obtain e where e: "e \<in> set (cg_edges g)" "e_src e = h" unfolding mem_Collect_eq edge by (elim bexE conjE)
    from ends [OF e(1)] e(2) show "h \<in> set (cg_funs g)" by simp
  qed
  have len: "length (cg_shape g) = length (cg_edges g)" by (simp add: cg_shape_def)
  have "set (cg_in g (node_of g f)) = {(ref_key g r, r) | r. r < length (cg_shape g) \<and> node_of g (fst (snd (cg_shape g ! r))) = node_of g f}"
    using G unfolding graph_ok_def by blast
  then have "node_preds g (node_of g f) = {fst (snd (ref_key g r)) | r. r < length (cg_shape g) \<and> node_of g (fst (snd (cg_shape g ! r))) = node_of g f}"
    by (simp only: node_preds_def split_def setcompr_eq_image image_image fst_conv)
  also have "\<dots> = {node_of g (e_src (cg_edges g ! r)) | r. r < length (cg_edges g) \<and> node_of g (e_dst (cg_edges g ! r)) = node_of g f}"
  proof -
    have "fst (snd (ref_key g r)) = node_of g (e_src (cg_edges g ! r))" "fst (snd (cg_shape g ! r)) = e_dst (cg_edges g ! r)"
      if "r < length (cg_shape g)" for r using edge_at(1) [OF that] by (simp_all add: ref_key_def new_key_def)
    then show ?thesis unfolding len by (intro Collect_cong ex_cong1) (auto simp: len)
  qed
  also have "\<dots> = node_of g ` {e_src e | e. e \<in> set (cg_edges g) \<and> e_dst e = f}"
  proof -
    have "node_of g (e_dst (cg_edges g ! r)) = node_of g f \<longleftrightarrow> e_dst (cg_edges g ! r) = f" if "r < length (cg_edges g)" for r
      by (rule node_of_inj [OF N ends(2) [OF nth_mem [OF that]] f])
    then show ?thesis by (auto simp: in_set_conv_nth)
  qed
  also have "\<dots> = node_of g ` {h. (h, f) \<in> may_call E P}" using edge by (intro arg_cong [of _ _ "image (node_of g)"]) auto
  finally show "node_preds g (node_of g f) = node_of g ` {h. (h, f) \<in> may_call E P}" .
qed

lemma reach_preds:
  assumes I: "cg_inv P (calls_found E P) g" and f: "f \<in> set (cg_funs g)"
  shows "reach (node_preds g) {node_of g f} = node_of g ` {h. (h, f) \<in> (may_call E P)\<^sup>*}" "{h. (h, f) \<in> (may_call E P)\<^sup>*} \<subseteq> set (cg_funs g)"
proof -
  have funs: "h \<in> set (cg_funs g)" if "(h, f) \<in> (may_call E P)\<^sup>*" for h
    using that by (induction rule: converse_rtrancl_induct) (use f preds_callers(2) [OF I] in blast)+
  then show "{h. (h, f) \<in> (may_call E P)\<^sup>*} \<subseteq> set (cg_funs g)" by blast
  show "reach (node_preds g) {node_of g f} = node_of g ` {h. (h, f) \<in> (may_call E P)\<^sup>*}"
  proof (rule reach_eq)
    show "{node_of g f} \<subseteq> node_of g ` {h. (h, f) \<in> (may_call E P)\<^sup>*}" by blast
    show "y \<in> node_of g ` {h. (h, f) \<in> (may_call E P)\<^sup>*}" if "x \<in> node_of g ` {h. (h, f) \<in> (may_call E P)\<^sup>*}" "y \<in> node_preds g x" for x y
    proof -
      from that(1) obtain h where h: "x = node_of g h" "(h, f) \<in> (may_call E P)\<^sup>*" by blast
      from that(2) obtain k where "y = node_of g k" "(k, h) \<in> may_call E P" using preds_callers(1) [OF I funs [OF h(2)]] h(1) by blast
      then show ?thesis using h(2) converse_rtrancl_into_rtrancl [of k h] by blast
    qed
    have "node_of g h \<in> reach (node_preds g) {node_of g f}" if "(h, f) \<in> (may_call E P)\<^sup>*" for h
      using that
    proof (induction rule: converse_rtrancl_induct)
      case base
      then show ?case by (rule reach_root) simp
    next
      case (step k h)
      then have "node_of g k \<in> node_preds g (node_of g h)" using preds_callers(1) [OF I funs [OF step(2)]] by blast
      then show ?case using reach_step [OF step(3)] by blast
    qed
    then show "node_of g ` {h. (h, f) \<in> (may_call E P)\<^sup>*} \<subseteq> reach (node_preds g) {node_of g f}" by blast
  qed
qed

lemma reachable_from_main:
  assumes I: "cg_inv P (calls_found E P) g" and f: "f \<in> set (cg_funs g)"
  shows "isReachableFromProgEntry P g (node_of g f) = Some (\<exists>m. fun_name P m = ''main'' \<and> (m, f) \<in> (may_call E P)\<^sup>*)"
proof -
  have N: "nodes_ok g" using I by (simp add: cg_inv_def)
  note r = reach_preds [OF I f]
  have "finite (reach (node_preds g) {node_of g f})" unfolding r(1) using finite_subset [OF r(2)] by simp
  from isReachableFromProgEntry_reach [OF this, of P]
  have "isReachableFromProgEntry P g (node_of g f) = Some (\<exists>h. (h, f) \<in> (may_call E P)\<^sup>* \<and> is_main P g (node_of g h))"
    unfolding r(1) by auto
  moreover have "is_main P g (node_of g h) \<longleftrightarrow> fun_name P h = ''main''" if "(h, f) \<in> (may_call E P)\<^sup>*" for h
    using node_of_props(3) [OF N] r(2) that by (auto simp: is_main_def)
  ultimately show ?thesis by auto
qed

section \<open>Sites that call a function\<close>

lemma insert_sites_set:
  "std_set_ok cs \<Longrightarrow> std_set_ok (fold set_insert is cs) \<and> set (fold set_insert is cs) = set cs \<union> set is"
  for "is" :: "inst list"
proof (induction "is" arbitrary: cs)
  case (Cons i "is")
  from Cons.IH [of "set_insert i cs"] Cons.prems show ?case by auto
qed simp

lemma collect_sites_set:
  assumes "std_set_ok cs"
  shows "std_set_ok (fold (\<lambda>e cs. fold set_insert (e_indirect e) (fold set_insert (e_direct e) cs)) es cs) \<and>
    set (fold (\<lambda>e cs. fold set_insert (e_indirect e) (fold set_insert (e_direct e) cs)) es cs) = set cs \<union> (\<Union>e\<in>set es. edge_calls e)"
  using assms
proof (induction es arbitrary: cs)
  case (Cons e es)
  let ?cs = "fold set_insert (e_indirect e) (fold set_insert (e_direct e) cs)"
  have "std_set_ok ?cs" "set ?cs = set cs \<union> edge_calls e"
    using insert_sites_set [of "fold set_insert (e_direct e) cs" "e_indirect e"] insert_sites_set [OF Cons.prems, of "e_direct e"]
    by (auto simp: edge_calls_def)
  with Cons.IH [of ?cs] show ?case by auto
qed simp

lemma sites_invoking:
  assumes I: "cg_inv P C g" and f: "f \<in> set (cg_funs g)"
  shows "\<exists>cs. getAllCallSitesInvokingCallee g f [] = Some cs \<and> std_set_ok cs \<and> set cs = {i. \<exists>k. (i, f, k) \<in> C}"
proof -
  have N: "nodes_ok g" using I by (simp add: cg_inv_def)
  have es: "set_edges g (cg_in g (node_of g f)) = in_edges (cg_view P g) f"
    using node_of_props(1) [OF N f] by (simp add: cg_view_def)
  have "(\<Union>e\<in>set (in_edges (cg_view P g) f). edge_calls e) = set (callers_of (cg_view P g) f)"
    by (simp add: callers_of_def edge_calls_def)
  then show ?thesis using collect_sites_set [of "[]" "in_edges (cg_view P g) f"] view_calls_of(2) [OF I, of f] node_of_props(1) [OF N f]
    by (simp add: getAllCallSitesInvokingCallee_def es)
qed

text \<open>C22: On the call graph of a module, the query for the sites that call a function returns exactly
  the calls and forks found for it, and the search backwards from a function ends and tells whether the
  function is reached by calls and forks from one named \<open>main\<close>.\<close>

theorem call_graph_queries:
  assumes "tcg_ok E P" and "call_ids_ok st" and "f \<in> set (mod_funs P)"
  shows "\<exists>g n cs. call_graph_of E P st = Some g \<and> getCallGraphNode g f = Some n \<and>
    getAllCallSitesInvokingCallee g f [] = Some cs \<and> set cs = {i. \<exists>k. (i, f, k) \<in> calls_found E P} \<and>
    isReachableFromProgEntry P g n = Some (\<exists>m. fun_name P m = ''main'' \<and> (m, f) \<in> (may_call E P)\<^sup>*)"
proof -
  obtain g where g: "call_graph_of E P st = Some g" "cg_inv P (calls_found E P) g" "cg_funs g = mod_funs P"
    using call_graph_of_state [OF assms(1,2)] unfolding cg_state_def by blast
  have f: "f \<in> set (cg_funs g)" using assms(3) g(3) by simp
  have "nodes_ok g" using g(2) by (simp add: cg_inv_def)
  from node_of_props(1) [OF this f] show ?thesis using g(1) reachable_from_main [OF g(2) f] sites_invoking [OF g(2) f] by blast
qed

theorem call_graph_queries_witness:
  "\<exists>g n cs. call_graph_of cg_prog_env cg_prog no_call_ids = Some g \<and> getCallGraphNode g 2 = Some n \<and>
    getAllCallSitesInvokingCallee g 2 [] = Some cs \<and> set cs = {11, 20} \<and> isReachableFromProgEntry cg_prog g n = Some True"
proof -
  have "2 \<in> set (mod_funs cg_prog)" by (simp add: cg_prog_def)
  from call_graph_queries [OF cg_prog_ok no_call_ids_ok this] obtain g n cs where g: "call_graph_of cg_prog_env cg_prog no_call_ids = Some g"
    "getCallGraphNode g 2 = Some n" "getAllCallSitesInvokingCallee g 2 [] = Some cs" "set cs = {i. \<exists>k. (i, 2, k) \<in> calls_found cg_prog_env cg_prog}"
    "isReachableFromProgEntry cg_prog g n = Some (\<exists>m. fun_name cg_prog m = ''main'' \<and> (m, 2) \<in> (may_call cg_prog_env cg_prog)\<^sup>*)" by blast
  have "{i. \<exists>k. (i, 2, k) \<in> calls_found cg_prog_env cg_prog} = {11, 20}" by (auto simp: cg_prog_calls)
  moreover have "fun_name cg_prog 0 = ''main''" by (simp add: cg_prog_def)
  moreover have "(0, 2) \<in> (may_call cg_prog_env cg_prog)\<^sup>*" by (simp add: cg_prog_may_call r_into_rtrancl)
  ultimately show ?thesis using g by auto
qed

section \<open>Parallel loops\<close>

text \<open>A function that runs the task 1 in two parallel loops, at 10 and 11.\<close>

definition par_prog :: program where
  "par_prog = empty_program\<lparr>mod_funs := [0, 1, 2], fun_insts := (\<lambda>f. if f = 0 then [10, 11, 12] else []),
     callee_of := (\<lambda>i. if i \<in> {10, 11} then Some 2 else None)\<rparr>"

definition par_env :: cg_env where
  "par_env = \<lparr>ce_callsite = (\<lambda>i. i \<in> {10, 11}), ce_dbg = (\<lambda>_. False), ce_par_for = (\<lambda>i. i \<in> {10, 11}),
     ce_forked = (\<lambda>_. None), ce_task = (\<lambda>_. Some 1), ce_ind_calls = [], ce_fork_targets = (\<lambda>_. []), ce_task_targets = (\<lambda>_. [])\<rparr>"

text \<open>A second parallel loop with the same task in a function gets an edge object of its own, because
  the edge is looked for under the kind of a fork; the set of the node keeps the first object, so that
  the graph's only edge for the loops carries the first site, and the second object is reached from its
  call only.\<close>

theorem parallel_loop_sites:
  "\<exists>g. ThreadCallGraph_new par_env par_prog no_call_ids = Some g \<and>
    map (\<lambda>e. (e_dst e, e_kind e, e_direct e)) (set_edges g (cg_out g 0)) = [(2, CallRetEdge, [10, 11]), (1, HareParForEdge, [10])] \<and>
    map_option (\<lambda>s. map (\<lambda>e. (e_dst e, e_kind e, e_direct e)) (set_edges g s)) (callinstToHareParForEdgesMap g 11) =
      Some [(1, HareParForEdge, [11])]"
proof -
  have f: "fun_of par_prog i = 0" "td_fork par_prog i = False" "td_join par_prog i = False" "mod_funs par_prog = [0, 1, 2]"
    "fun_insts par_prog h = (if h = 0 then [10, 11, 12] else [])" "callee_of par_prog i = (if i \<in> {10, 11} then Some 2 else None)"
    "ce_callsite par_env i \<longleftrightarrow> i \<in> {10, 11}" "ce_dbg par_env i = False" "ce_par_for par_env i \<longleftrightarrow> i \<in> {10, 11}" "ce_task par_env i = Some 1"
    for i h by (simp_all add: par_prog_def empty_program_def par_env_def)
  show ?thesis
    by (simp add: ThreadCallGraph_new_def buildCallGraph_def tcg_build_def tcg_site_def addParForSite_def addDirectParForEdge_def
      addDirectCallGraphEdge_def put_edge_def getCallGraphNode_def cg_hasGraphEdge_def addCallGraphNode_def cg_new_def no_call_ids_def
      new_key_def es_find_def es_insert_def addEdge_def addDirectCallSite_def is_direct_def addCallGraphEdgeSetMap_def addCallSite_def
      addHareParForEdgeSetMap_def new_edge_def map_at_def map_touch_def set_edges_def set_insert_def insort_insert_key_def Let_def f)
qed

end
