(* ===== verification/ThreadAPI.thy ===== *)
theory ThreadAPI
  imports LockAnalysis
begin

text \<open>
  \<open>include/Util/ThreadAPI.h\<close> and \<open>lib/Util/ThreadAPI.cpp\<close>: the table of the library functions that
  create and join threads and that acquire and release locks, the questions the analyses ask of
  a call site, and the counts of \<open>performAPIStat\<close>. Functions are known by their name; the callee of
  a call site, its arguments and what kind of value an argument is come from LLVM.
\<close>

section \<open>The table\<close>

datatype td_type = TD_DUMMY | TD_FORK | TD_JOIN | TD_DETACH | TD_ACQUIRE | TD_TRY_ACQUIRE
  | TD_RELEASE | TD_EXIT | TD_CANCEL | TD_COND_WAIT | TD_COND_SIGNAL | TD_COND_BROADCAST
  | TD_MUTEX_INI | TD_MUTEX_DESTROY | TD_CONDVAR_INI | TD_CONDVAR_DESTROY | TD_BAR_INIT
  | TD_BAR_WAIT | HARE_PAR_FOR

text \<open>The null name of the last entry is the end of the list.\<close>

definition ei_pairs :: "(string \<times> td_type) list" where
  "ei_pairs = [
     (''pthread_create'', TD_FORK),
     (''apr_thread_create'', TD_FORK),
     (''pthread_join'', TD_JOIN),
     (CHR 0x01 # ''_pthread_join'', TD_JOIN),
     (''pthread_cancel'', TD_JOIN),
     (''pthread_mutex_lock'', TD_ACQUIRE),
     (''pthread_rwlock_rdlock'', TD_ACQUIRE),
     (''sem_wait'', TD_ACQUIRE),
     (''_spin_lock'', TD_ACQUIRE),
     (''SRE_SplSpecLockEx'', TD_ACQUIRE),
     (''pthread_mutex_trylock'', TD_TRY_ACQUIRE),
     (''pthread_mutex_unlock'', TD_RELEASE),
     (''pthread_rwlock_unlock'', TD_RELEASE),
     (''sem_post'', TD_RELEASE),
     (''_spin_unlock'', TD_RELEASE),
     (''SRE_SplSpecUnlockEx'', TD_RELEASE),
     (''pthread_exit'', TD_EXIT),
     (''pthread_detach'', TD_DETACH),
     (''pthread_cond_wait'', TD_COND_WAIT),
     (''pthread_cond_signal'', TD_COND_SIGNAL),
     (''pthread_cond_broadcast'', TD_COND_BROADCAST),
     (''pthread_cond_init'', TD_CONDVAR_INI),
     (''pthread_cond_destroy'', TD_CONDVAR_DESTROY),
     (''pthread_mutex_init'', TD_MUTEX_INI),
     (''pthread_mutex_destroy'', TD_MUTEX_DESTROY),
     (''pthread_barrier_init'', TD_BAR_INIT),
     (''pthread_barrier_wait'', TD_BAR_WAIT),
     (''hare_parallel_for'', HARE_PAR_FOR)]"

type_synonym td_api_map = "string \<rightharpoonup> td_type"

text \<open>One round of the loop of \<open>init\<close>, on the types seen, the type of the entry before and the map.\<close>

definition init_entry :: "string \<times> td_type \<Rightarrow> td_type set \<times> td_type \<times> td_api_map \<Rightarrow>
    (td_type set \<times> td_type \<times> td_api_map) option" where
  "init_entry = (\<lambda>(n, t) (t_seen, prev_t, m). Option.bind
     (if t \<noteq> prev_t then (if t \<in> t_seen then None else Some (insert t t_seen, t)) else Some (t_seen, prev_t))
     (\<lambda>(t_seen, prev_t). if n \<in> dom m then None else Some (t_seen, prev_t, m(n \<mapsto> t))))"

definition api_init :: "(string \<times> td_type) list \<Rightarrow> td_api_map option" where
  "api_init ps = map_option (\<lambda>(_, _, m). m) (foldM init_entry ps ({TD_DUMMY}, TD_DUMMY, Map.empty))"

definition getType :: "td_api_map \<Rightarrow> string option \<Rightarrow> td_type" where
  "getType m f = (case f of None \<Rightarrow> TD_DUMMY | Some n \<Rightarrow> (case m n of Some t \<Rightarrow> t | None \<Rightarrow> TD_DUMMY))"

section \<open>Questions about a call site\<close>

text \<open>
  \<open>ae_callee\<close> is the name of the callee of an instruction, if it is a call with a known callee;
  \<open>ae_args\<close> are the arguments, and \<open>ae_load\<close> the pointer operand of a value that is a load.
\<close>

record api_env =
  ae_callee :: "inst \<Rightarrow> string option"
  ae_args :: "inst \<Rightarrow> val list"
  ae_strip :: "val \<Rightarrow> val"
  ae_load :: "val \<Rightarrow> val option"
  ae_is_arg :: "val \<Rightarrow> bool"
  ae_call_inst :: "inst \<Rightarrow> bool"

definition has_type :: "td_type \<Rightarrow> td_api_map \<Rightarrow> api_env \<Rightarrow> inst \<Rightarrow> bool" where
  "has_type t m E i \<longleftrightarrow> getType m (ae_callee E i) = t"

definition isTDFork :: "td_api_map \<Rightarrow> api_env \<Rightarrow> inst \<Rightarrow> bool" where
  "isTDFork m E i = has_type TD_FORK m E i"

definition isHareParFor :: "td_api_map \<Rightarrow> api_env \<Rightarrow> inst \<Rightarrow> bool" where
  "isHareParFor m E i = has_type HARE_PAR_FOR m E i"

definition isTDJoin :: "td_api_map \<Rightarrow> api_env \<Rightarrow> inst \<Rightarrow> bool" where
  "isTDJoin m E i = has_type TD_JOIN m E i"

definition isTDExit :: "td_api_map \<Rightarrow> api_env \<Rightarrow> inst \<Rightarrow> bool" where
  "isTDExit m E i = has_type TD_EXIT m E i"

definition isTDAcquire :: "td_api_map \<Rightarrow> api_env \<Rightarrow> inst \<Rightarrow> bool" where
  "isTDAcquire m E i = has_type TD_ACQUIRE m E i"

definition isTDRelease :: "td_api_map \<Rightarrow> api_env \<Rightarrow> inst \<Rightarrow> bool" where
  "isTDRelease m E i = has_type TD_RELEASE m E i"

definition isTDBarWait :: "td_api_map \<Rightarrow> api_env \<Rightarrow> inst \<Rightarrow> bool" where
  "isTDBarWait m E i = has_type TD_BAR_WAIT m E i"

text \<open>The overloading of \<open>isHareParFor\<close> for a call site asks another question.\<close>

definition isHareParFor_cs :: "td_api_map \<Rightarrow> api_env \<Rightarrow> inst \<Rightarrow> bool" where
  "isHareParFor_cs m E i = isTDFork m E i"

text \<open>
  The arguments of a call; \<open>None\<close> when the instruction is not a call of that kind or has
  no such argument, both of which fail an assertion.
\<close>

definition getArgument :: "api_env \<Rightarrow> inst \<Rightarrow> nat \<Rightarrow> val option" where
  "getArgument E i k = (if k < length (ae_args E i) then Some (ae_args E i ! k) else None)"

definition getForkedThread :: "td_api_map \<Rightarrow> api_env \<Rightarrow> inst \<Rightarrow> val option" where
  "getForkedThread m E i = (if isTDFork m E i then getArgument E i 0 else None)"

definition getForkedFun :: "td_api_map \<Rightarrow> api_env \<Rightarrow> inst \<Rightarrow> val option" where
  "getForkedFun m E i = (if isTDFork m E i then map_option (ae_strip E) (getArgument E i 2) else None)"

definition getActualParmAtForkSite :: "td_api_map \<Rightarrow> api_env \<Rightarrow> inst \<Rightarrow> val option" where
  "getActualParmAtForkSite m E i = (if isTDFork m E i then getArgument E i 3 else None)"

definition getActualParmAtForkSite_cs :: "td_api_map \<Rightarrow> api_env \<Rightarrow> inst \<Rightarrow> val option" where
  "getActualParmAtForkSite_cs m E i = getForkedFun m E i"

definition getTaskFuncAtHareParForSite :: "td_api_map \<Rightarrow> api_env \<Rightarrow> inst \<Rightarrow> val option" where
  "getTaskFuncAtHareParForSite m E i =
     (if isHareParFor m E i then map_option (ae_strip E) (getArgument E i 4) else None)"

definition getTaskDataAtHareParForSite :: "td_api_map \<Rightarrow> api_env \<Rightarrow> inst \<Rightarrow> val option" where
  "getTaskDataAtHareParForSite m E i = (if isHareParFor m E i then getArgument E i 5 else None)"

definition getJoinedThread :: "td_api_map \<Rightarrow> api_env \<Rightarrow> inst \<Rightarrow> val option" where
  "getJoinedThread m E i = (if isTDJoin m E i then Option.bind (getArgument E i 0) (\<lambda>join.
     case ae_load E join of Some p \<Rightarrow> Some p | None \<Rightarrow> if ae_is_arg E join then Some join else None) else None)"

definition getRetParmAtJoinedSite :: "td_api_map \<Rightarrow> api_env \<Rightarrow> inst \<Rightarrow> val option" where
  "getRetParmAtJoinedSite m E i = (if isTDJoin m E i then getArgument E i 1 else None)"

definition getLockVal :: "td_api_map \<Rightarrow> api_env \<Rightarrow> inst \<Rightarrow> val option" where
  "getLockVal m E i = (if isTDAcquire m E i \<or> isTDRelease m E i then getArgument E i 0 else None)"

section \<open>Counts\<close>

text \<open>The counter a call of each type is added to; no counter for \<open>TD_DUMMY\<close>.\<close>

definition stat_name :: "td_type \<Rightarrow> string option" where
  "stat_name t = (case t of TD_DUMMY \<Rightarrow> None
     | TD_FORK \<Rightarrow> Some ''pthread_create''
     | TD_JOIN \<Rightarrow> Some ''pthread_join''
     | TD_ACQUIRE \<Rightarrow> Some ''pthread_mutex_lock''
     | TD_TRY_ACQUIRE \<Rightarrow> Some ''pthread_mutex_trylock''
     | TD_RELEASE \<Rightarrow> Some ''pthread_mutex_unlock''
     | TD_CANCEL \<Rightarrow> Some ''pthread_cancel''
     | TD_EXIT \<Rightarrow> Some ''pthread_exit''
     | TD_DETACH \<Rightarrow> Some ''pthread_detach''
     | TD_COND_WAIT \<Rightarrow> Some ''pthread_cond_wait''
     | TD_COND_SIGNAL \<Rightarrow> Some ''pthread_cond_signal''
     | TD_COND_BROADCAST \<Rightarrow> Some ''pthread_cond_broadcast''
     | TD_CONDVAR_INI \<Rightarrow> Some ''pthread_cond_init''
     | TD_CONDVAR_DESTROY \<Rightarrow> Some ''pthread_cond_destroy''
     | TD_MUTEX_INI \<Rightarrow> Some ''pthread_mutex_init''
     | TD_MUTEX_DESTROY \<Rightarrow> Some ''pthread_mutex_destroy''
     | TD_BAR_INIT \<Rightarrow> Some ''pthread_barrier_init''
     | TD_BAR_WAIT \<Rightarrow> Some ''pthread_barrier_wait''
     | HARE_PAR_FOR \<Rightarrow> Some ''hare_parallel_for'')"

definition statInit :: "string \<rightharpoonup> 32 word" where
  "statInit = (\<lambda>n. if n \<in> set [''pthread_create'', ''pthread_join'', ''pthread_mutex_lock'',
     ''pthread_mutex_trylock'', ''pthread_mutex_unlock'', ''pthread_cancel'', ''pthread_exit'',
     ''pthread_detach'', ''pthread_cond_wait'', ''pthread_cond_signal'', ''pthread_cond_broadcast'',
     ''pthread_cond_init'', ''pthread_cond_destroy'', ''pthread_mutex_init'', ''pthread_mutex_destroy'',
     ''pthread_barrier_init'', ''pthread_barrier_wait'', ''hare_parallel_for''] then Some 0 else None)"

definition stat_inst :: "td_api_map \<Rightarrow> api_env \<Rightarrow> inst \<Rightarrow> (string \<rightharpoonup> 32 word) \<Rightarrow> (string \<rightharpoonup> 32 word)" where
  "stat_inst m E i s = (if \<not> ae_call_inst E i then s
     else case stat_name (getType m (ae_callee E i)) of None \<Rightarrow> s
       | Some n \<Rightarrow> s(n \<mapsto> map_at 0 s n + 1))"

definition performAPIStat :: "td_api_map \<Rightarrow> api_env \<Rightarrow> program \<Rightarrow> (string \<rightharpoonup> 32 word)" where
  "performAPIStat m E P = fold (stat_inst m E) (module_insts P) statInit"

section \<open>What the table holds\<close>

text \<open>The types of the blocks that follow entries of type \<open>t\<close>.\<close>

definition later_blocks :: "td_type \<Rightarrow> td_type list \<Rightarrow> td_type list" where
  "later_blocks t ts = tl (remdups_adj (t # ts))"

lemma later_blocks_Nil [simp]: "later_blocks t [] = []"
  by (simp add: later_blocks_def)

lemma later_blocks_Cons [simp]:
  "later_blocks t (u # ts) = (if u = t then later_blocks t ts else u # later_blocks u ts)"
  by (simp add: later_blocks_def)

lemma remdups_adj_blocks: "remdups_adj (t # ts) = t # later_blocks t ts"
  unfolding later_blocks_def by (rule remdups_adj_Cons_alt [symmetric])

lemma init_entries:
  assumes "prev \<in> seen"
  shows "map_option (\<lambda>(_, _, m). m) (foldM init_entry ps (seen, prev, m)) =
    (if distinct (map fst ps) \<and> fst ` set ps \<inter> dom m = {} \<and> distinct (later_blocks prev (map snd ps))
        \<and> set (later_blocks prev (map snd ps)) \<inter> seen = {} then Some (m ++ map_of ps) else None)"
  using assms
proof (induction ps arbitrary: seen prev m)
  case (Cons p ps)
  obtain n t where p: "p = (n, t)" by (cases p)
  let ?f = "\<lambda>seen prev. map_option (\<lambda>(_, _, m). m) (foldM init_entry ps (seen, prev, m(n \<mapsto> t)))"
  have upd: "m(n \<mapsto> t) ++ map_of ps = m ++ (\<lambda>a. if a = n then Some t else map_of ps a)" if "n \<notin> fst ` set ps"
  proof -
    have "map_of ps n = None" using that by (simp add: map_of_eq_None_iff)
    then show ?thesis by (auto simp: map_add_def fun_eq_iff split: option.splits)
  qed
  have step: "map_option (\<lambda>(_, _, m). m) (foldM init_entry (p # ps) (seen, prev, m)) =
    (if t \<noteq> prev \<and> t \<in> seen \<or> n \<in> dom m then None
     else if t = prev then ?f seen prev else ?f (insert t seen) t)"
    by (auto simp: p init_entry_def)
  consider "n \<in> dom m" | "n \<notin> dom m" "t = prev" | "n \<notin> dom m" "t \<noteq> prev" by blast
  then show ?case
  proof cases
    case 1
    then show ?thesis unfolding step by (auto simp: p)
  next
    case 2
    then show ?thesis unfolding step Cons.IH [OF Cons.prems] using upd by (auto simp: p)
  next
    case 3
    have "t \<in> insert t seen" by simp
    note IH = Cons.IH [OF this, of "m(n \<mapsto> t)"]
    show ?thesis unfolding step IH using 3 upd by (auto simp: p)
  qed
qed simp

text \<open>C36: The checks of the thread API table: building it fails no assertion if and only if no name
  occurs twice and the entries of each type stand together, and the map then gives every name the type of
  its entry.\<close>

theorem api_init_checks:
  "api_init ps = (if distinct (map fst ps) \<and> distinct (remdups_adj (TD_DUMMY # map snd ps))
     then Some (map_of ps) else None)"
  unfolding api_init_def remdups_adj_blocks by (simp add: init_entries [of TD_DUMMY] conj_ac)

lemma ei_pairs_init: "api_init ei_pairs = Some (map_of ei_pairs)"
proof -
  have "distinct (map fst ei_pairs)" "distinct (later_blocks TD_DUMMY (map snd ei_pairs))"
    "TD_DUMMY \<notin> set (later_blocks TD_DUMMY (map snd ei_pairs))"
    by (simp_all add: ei_pairs_def)
  then show ?thesis unfolding api_init_def by (simp add: init_entries [of TD_DUMMY])
qed

text \<open>What the analyses recognise, by the name of the function called: the fork, join, acquire and
  release functions of the table. \<open>pthread_cancel\<close> counts as a join, and neither
  \<open>pthread_mutex_trylock\<close> nor \<open>pthread_rwlock_wrlock\<close> as an acquire.\<close>

theorem api_recognises:
  "\<exists>m. api_init ei_pairs = Some m \<and> (\<forall>E i.
     (isTDFork m E i \<longleftrightarrow> ae_callee E i \<in> Some ` {''pthread_create'', ''apr_thread_create''}) \<and>
     (isTDJoin m E i \<longleftrightarrow> ae_callee E i \<in> Some ` {''pthread_join'', CHR 0x01 # ''_pthread_join'', ''pthread_cancel''}) \<and>
     (isTDAcquire m E i \<longleftrightarrow> ae_callee E i \<in> Some ` {''pthread_mutex_lock'', ''pthread_rwlock_rdlock'',
        ''sem_wait'', ''_spin_lock'', ''SRE_SplSpecLockEx''}) \<and>
     (isTDRelease m E i \<longleftrightarrow> ae_callee E i \<in> Some ` {''pthread_mutex_unlock'', ''pthread_rwlock_unlock'',
        ''sem_post'', ''_spin_unlock'', ''SRE_SplSpecUnlockEx''}) \<and>
     (isHareParFor m E i \<longleftrightarrow> ae_callee E i = Some ''hare_parallel_for'') \<and>
     (isHareParFor_cs m E i \<longleftrightarrow> isTDFork m E i))"
  by (intro exI [of _ "map_of ei_pairs"] conjI ei_pairs_init)
    (auto simp: isTDFork_def isTDJoin_def isTDAcquire_def isTDRelease_def isHareParFor_def
      isHareParFor_cs_def has_type_def getType_def ei_pairs_def split: option.splits)

section \<open>What is counted\<close>

definition counted_as :: "td_api_map \<Rightarrow> api_env \<Rightarrow> string \<Rightarrow> inst \<Rightarrow> bool" where
  "counted_as m E n i \<longleftrightarrow> ae_call_inst E i \<and> stat_name (getType m (ae_callee E i)) = Some n"

lemma stat_inst_at: "map_at 0 (stat_inst m E i s) n = map_at 0 s n + (if counted_as m E n i then 1 else 0)"
  by (auto simp: stat_inst_def counted_as_def split: option.splits)

lemma stat_insts_at:
  "map_at 0 (fold (stat_inst m E) is s) n = map_at 0 s n + of_nat (length (filter (counted_as m E n) is))"
  by (induction "is" arbitrary: s) (auto simp: stat_inst_at)

lemma stat_name_init: "stat_name t = Some n \<Longrightarrow> n \<in> dom statInit"
  by (cases t) (auto simp: stat_name_def statInit_def)

lemma stat_insts_dom: "dom statInit \<subseteq> dom s \<Longrightarrow> dom (fold (stat_inst m E) is s) = dom s"
proof (induction "is" arbitrary: s)
  case (Cons i "is")
  have "dom (stat_inst m E i s) = dom s"
    using Cons.prems stat_name_init by (force simp: stat_inst_def split: option.splits)
  then show ?case using Cons by simp
qed simp

text \<open>The printed statistics: the counter of each function holds the number of call instructions whose
  callee has its type, modulo the width of the counter; no other counter appears. The counter of
  \<open>pthread_cancel\<close> stays 0, as its calls are counted as joins.\<close>

theorem performAPIStat_counts:
  "(\<forall>n. performAPIStat m E P n = (if n \<in> dom statInit
      then Some (of_nat (length (filter (counted_as m E n) (module_insts P)))) else None)) \<and>
   performAPIStat (map_of ei_pairs) E P ''pthread_cancel'' = Some 0"
proof -
  have val: "performAPIStat m E P n = (if n \<in> dom statInit
      then Some (of_nat (length (filter (counted_as m E n) (module_insts P)))) else None)" for m n
  proof -
    let ?s = "performAPIStat m E P"
    have "dom ?s = dom statInit" by (simp add: performAPIStat_def stat_insts_dom)
    moreover have "map_at 0 ?s n = of_nat (length (filter (counted_as m E n) (module_insts P)))"
      by (simp add: performAPIStat_def stat_insts_at) (simp add: map_at_def statInit_def)
    ultimately show ?thesis by (auto simp: map_at_def domIff split: option.splits)
  qed
  have "\<not> counted_as (map_of ei_pairs) E ''pthread_cancel'' i" for i
    by (auto simp: counted_as_def stat_name_def getType_def ei_pairs_def split: option.splits if_splits)
  moreover have "''pthread_cancel'' \<in> dom statInit" by (simp add: statInit_def domIff)
  ultimately show ?thesis unfolding val by simp
qed

end
