(* ===== verification/Annotator.thy ===== *)
theory Annotator
  imports Race
begin

text \<open>
  The annotator of \<open>include/Util/Annotator.h\<close>, \<open>include/MTA/MTAAnnotator.h\<close> and
  \<open>lib/MTA/MTAAnnotator.cpp\<close>, which marks the loads and stores a dynamic race detector has to check:
  it collects the accesses of the module, drops those to objects that only one thread can reach, then
  those that are in no pair of accesses to the same memory, and writes a tag into the metadata of the
  instructions left. The points-to sets, the fields of an object and the edges of the program
  assignment graph that it reads are inputs, as are the answers of the interleaving analysis.
\<close>

unbundle bit_operations_syntax

section \<open>Metadata tags\<close>

text \<open>The metadata of an instruction: for a tag, the number of operands of its node.\<close>

type_synonym metadata = "inst \<Rightarrow> string \<rightharpoonup> nat"

definition DR_CHECK :: string where
  "DR_CHECK = ''DRCHECK_''"

text \<open>The loop over the operands of the node has an empty body.\<close>

definition evalMDTag :: "metadata \<Rightarrow> inst \<Rightarrow> val \<Rightarrow> string \<Rightarrow> bool" where
  "evalMDTag md i v str = (let hasFlag = False in
     case md i str of None \<Rightarrow> hasFlag | Some n \<Rightarrow> fold (\<lambda>k hasFlag. hasFlag) [0..<n] hasFlag)"

text \<open>The first argument says which values have the type \<open>void\<close>, on which the functions assert.\<close>

definition addMDTag :: "(val \<Rightarrow> bool) \<Rightarrow> inst \<Rightarrow> val \<Rightarrow> string \<Rightarrow> metadata \<Rightarrow> metadata option" where
  "addMDTag is_void i v str md = (if is_void v then None
     else if \<not> evalMDTag md i v str then Some (md(i := (md i)(str \<mapsto> 0))) else Some md)"

definition removeMDTag :: "(val \<Rightarrow> bool) \<Rightarrow> inst \<Rightarrow> val \<Rightarrow> string \<Rightarrow> metadata \<Rightarrow> metadata option" where
  "removeMDTag is_void i v str md = (if is_void v then None
     else if evalMDTag md i v str then Some md else Some md)"

definition hasDRCheckFlag :: "metadata \<Rightarrow> inst \<Rightarrow> bool" where
  "hasDRCheckFlag md i \<longleftrightarrow> md i DR_CHECK \<noteq> None"

section \<open>The annotator\<close>

type_synonym pag_node = nat

text \<open>
  What the annotator reads. \<open>an_node\<close> is the node of a value, \<open>an_getPts\<close> the points-to set of a
  node, \<open>an_forks\<close> the source and destination of the \<open>ThreadFork\<close> edges, \<open>an_globals\<close> the source of
  each global edge and whether it is an \<open>Addr\<close> edge; \<open>an_memcpy\<close> is the entry of the table of library
  functions for a callee.
\<close>

record anno_env =
  an_prog :: program
  an_locks :: lock_analysis
  an_mhp :: "inst \<Rightarrow> inst \<Rightarrow> bool"
  an_callee :: "inst \<Rightarrow> string option"
  an_memcpy :: "string \<Rightarrow> bool"
  an_operand :: "inst \<Rightarrow> nat \<Rightarrow> val"
  an_void :: "val \<Rightarrow> bool"
  an_node :: "val \<Rightarrow> pag_node"
  an_getPts :: "pag_node \<Rightarrow> pag_node set"
  an_fields :: "pag_node \<Rightarrow> pag_node set"
  an_forks :: "(pag_node \<times> pag_node) list"
  an_globals :: "(bool \<times> pag_node) list"

record annotator =
  loadset :: "inst std_set"
  storeset :: "inst std_set"
  numOfAllSt :: "32 word"
  numOfAllLd :: "32 word"
  numOfNonLocalSt :: "32 word"
  numOfNonLocalLd :: "32 word"
  numOfAliasSt :: "32 word"
  numOfAliasLd :: "32 word"
  numOfMHPSt :: "32 word"
  numOfMHPLd :: "32 word"
  numOfAnnotatedSt :: "32 word"
  numOfAnnotatedLd :: "32 word"

definition annotator_new :: annotator where
  "annotator_new = \<lparr>loadset = [], storeset = [], numOfAllSt = 0, numOfAllLd = 0, numOfNonLocalSt = 0,
     numOfNonLocalLd = 0, numOfAliasSt = 0, numOfAliasLd = 0, numOfMHPSt = 0, numOfMHPLd = 0,
     numOfAnnotatedSt = 0, numOfAnnotatedLd = 0\<rparr>"

text \<open>The bits of the option \<open>anno\<close>.\<close>

definition ANNO_LOCAL :: "32 word" where "ANNO_LOCAL = 0x01"
definition ANNO_ALIAS :: "32 word" where "ANNO_ALIAS = 0x02"
definition ANNO_MHP :: "32 word" where "ANNO_MHP = 0x04"

definition contains :: "string \<Rightarrow> string \<Rightarrow> bool" where
  "contains lit s = list_ex (\<lambda>k. strip_prefix lit (drop k s) \<noteq> None) [0..<Suc (length s)]"

definition isMemset :: "anno_env \<Rightarrow> inst \<Rightarrow> bool" where
  "isMemset E i = (case an_callee E i of None \<Rightarrow> False | Some f \<Rightarrow> contains ''llvm.memset'' f)"

definition isMemcpy :: "anno_env \<Rightarrow> inst \<Rightarrow> bool" where
  "isMemcpy E i = (case an_callee E i of None \<Rightarrow> False | Some f \<Rightarrow> an_memcpy E f)"

definition getStoreOperand :: "anno_env \<Rightarrow> inst \<Rightarrow> val option" where
  "getStoreOperand E i = (if is_store (an_prog E) i then Some (pointer_operand (an_prog E) i)
     else if isMemset E i then Some (an_operand E i 0)
     else if isMemcpy E i then Some (an_operand E i 0) else None)"

definition getLoadOperand :: "anno_env \<Rightarrow> inst \<Rightarrow> val option" where
  "getLoadOperand E i = (if is_load (an_prog E) i then Some (pointer_operand (an_prog E) i)
     else if isMemcpy E i then Some (an_operand E i 1) else None)"

section \<open>Collecting the accesses\<close>

definition collect_access :: "anno_env \<Rightarrow> inst \<Rightarrow> annotator \<Rightarrow> annotator" where
  "collect_access E i s = (if is_load (an_prog E) i then s\<lparr>loadset := set_insert i (loadset s)\<rparr>
     else if is_store (an_prog E) i then s\<lparr>storeset := set_insert i (storeset s)\<rparr>
     else if isMemset E i then s\<lparr>storeset := set_insert i (storeset s)\<rparr>
     else if isMemcpy E i then s\<lparr>storeset := set_insert i (storeset s), loadset := set_insert i (loadset s)\<rparr>
     else s)"

definition collectLoadStoreInst :: "anno_env \<Rightarrow> annotator \<Rightarrow> annotator" where
  "collectLoadStoreInst E s = (let s1 = fold (\<lambda>f s. if is_ext_fun (an_prog E) f then s
       else fold (collect_access E) (fun_insts (an_prog E) f) s) (mod_funs (an_prog E)) s
     in s1\<lparr>numOfAllSt := of_nat (length (storeset s1)), numOfAllLd := of_nat (length (loadset s1))\<rparr>)"

definition anno_initialize :: "32 word \<Rightarrow> anno_env \<Rightarrow> annotator \<Rightarrow> annotator" where
  "anno_initialize AnnoFlag E s = (if AnnoFlag = 0 then s else collectLoadStoreInst E s)"

section \<open>Thread-local accesses\<close>

definition local_roots :: "anno_env \<Rightarrow> pag_node set" where
  "local_roots E = fold (\<lambda>(glob_addr, src) w. if glob_addr then insert src w else w) (an_globals E)
     (fold (\<lambda>(src, dst) w. (w \<union> an_getPts E dst) \<union> an_getPts E src) (an_forks E) {})"

definition nonlocal_step :: "anno_env \<Rightarrow> pag_node set \<times> pag_node set \<Rightarrow> pag_node set \<times> pag_node set" where
  "nonlocal_step E = (\<lambda>(worklist, nonlocalobjs). let obj = Min worklist;
     nonlocalobjs = insert obj nonlocalobjs;
     worklist = worklist - {obj};
     worklist = worklist \<union> Set.filter (\<lambda>p. p \<notin> nonlocalobjs) (an_getPts E obj);
     worklist = worklist \<union> Set.filter (\<lambda>p. p \<notin> nonlocalobjs) (an_fields E obj)
     in (worklist, nonlocalobjs))"

definition nonlocal_objects :: "anno_env \<Rightarrow> pag_node set option" where
  "nonlocal_objects E = map_option snd (while_option (\<lambda>(worklist, _). worklist \<noteq> {}) (nonlocal_step E)
     (local_roots E, {}))"

text \<open>The accesses whose operand may point to one of the objects; an access without operand asserts.\<close>

definition keep_accesses :: "anno_env \<Rightarrow> (inst \<Rightarrow> val option) \<Rightarrow> pag_node set \<Rightarrow> inst std_set \<Rightarrow>
    inst std_set option" where
  "keep_accesses E operand objs is = foldM (\<lambda>i need. map_option (\<lambda>v.
     if an_getPts E (an_node E v) \<inter> objs \<noteq> {} then set_insert i need else need) (operand i)) is []"

definition pruneThreadLocal :: "32 word \<Rightarrow> anno_env \<Rightarrow> annotator \<Rightarrow> annotator option" where
  "pruneThreadLocal AnnoFlag E s = (if AnnoFlag AND ANNO_LOCAL = 0 then Some s else
     Option.bind (nonlocal_objects E) (\<lambda>objs.
     Option.bind (keep_accesses E (getStoreOperand E) objs (storeset s)) (\<lambda>needannost.
     Option.bind (keep_accesses E (getLoadOperand E) objs (loadset s)) (\<lambda>needannold.
     Some (s\<lparr>storeset := needannost, loadset := needannold,
       numOfNonLocalSt := of_nat (length needannost), numOfNonLocalLd := of_nat (length needannold)\<rparr>)))))"

section \<open>Accesses that are in no pair\<close>

text \<open>Whether a store and another access are kept; \<open>mhp\<close> says that interleaving and locks are asked.\<close>

definition pair_kept :: "anno_env \<Rightarrow> bool \<Rightarrow> (inst \<Rightarrow> val option) \<Rightarrow> inst \<Rightarrow> inst \<Rightarrow> bool option" where
  "pair_kept E mhp operand2 i1 i2 =
     Option.bind (getStoreOperand E i1) (\<lambda>v1. Option.bind (operand2 i2) (\<lambda>v2.
       if \<not> alias_bool (pta_alias (an_prog E) v1 v2) then Some False
       else if mhp then (if an_mhp E i1 i2
         then map_option Not (isProtectedByCommonLock (an_prog E) (an_locks E) i1 i2) else Some False)
       else Some True))"

type_synonym needed = "inst std_set \<times> inst std_set"

definition store_pair :: "anno_env \<Rightarrow> bool \<Rightarrow> inst \<Rightarrow> inst \<Rightarrow> needed \<Rightarrow> needed option" where
  "store_pair E mhp i1 i2 = (\<lambda>(st, ld). map_option (\<lambda>k.
     if k then (set_insert i2 (set_insert i1 st), ld) else (st, ld)) (pair_kept E mhp (getStoreOperand E) i1 i2))"

definition load_pair :: "anno_env \<Rightarrow> bool \<Rightarrow> inst \<Rightarrow> inst \<Rightarrow> needed \<Rightarrow> needed option" where
  "load_pair E mhp i1 i2 = (\<lambda>(st, ld). map_option (\<lambda>k.
     if k then (set_insert i1 st, set_insert i2 ld) else (st, ld)) (pair_kept E mhp (getLoadOperand E) i1 i2))"

fun prune_pairs :: "anno_env \<Rightarrow> bool \<Rightarrow> inst list \<Rightarrow> inst list \<Rightarrow> needed \<Rightarrow> needed option" where
  "prune_pairs E mhp [] lds n = Some n"
| "prune_pairs E mhp (i1 # sts) lds n = Option.bind (foldM (store_pair E mhp i1) (i1 # sts) n) (\<lambda>n.
     Option.bind (foldM (load_pair E mhp i1) lds n) (prune_pairs E mhp sts lds))"

definition pruneAliasMHP :: "32 word \<Rightarrow> anno_env \<Rightarrow> annotator \<Rightarrow> annotator option" where
  "pruneAliasMHP AnnoFlag E s = (let mhp = AnnoFlag AND ANNO_MHP \<noteq> 0; alias = AnnoFlag AND ANNO_ALIAS \<noteq> 0 in
     if \<not> mhp \<and> \<not> alias then Some s else
     map_option (\<lambda>(st, ld). let s1 = s\<lparr>storeset := st, loadset := ld\<rparr> in
       if mhp then s1\<lparr>numOfMHPSt := of_nat (length st), numOfMHPLd := of_nat (length ld)\<rparr>
       else if alias then s1\<lparr>numOfAliasSt := of_nat (length st), numOfAliasLd := of_nat (length ld)\<rparr>
       else s1) (prune_pairs E mhp (storeset s) (loadset s) ([], [])))"

section \<open>Writing the tags\<close>

definition annotateDRCheck :: "anno_env \<Rightarrow> inst \<Rightarrow> annotator \<times> metadata \<Rightarrow> (annotator \<times> metadata) option" where
  "annotateDRCheck E i = (\<lambda>(s, md).
     if is_store (an_prog E) i then map_option (Pair (s\<lparr>numOfAnnotatedSt := numOfAnnotatedSt s + 1\<rparr>))
       (addMDTag (an_void E) i (pointer_operand (an_prog E) i) DR_CHECK md)
     else if is_load (an_prog E) i then map_option (Pair (s\<lparr>numOfAnnotatedLd := numOfAnnotatedLd s + 1\<rparr>))
       (addMDTag (an_void E) i (pointer_operand (an_prog E) i) DR_CHECK md)
     else Some (s, md))"

definition performAnnotate :: "32 word \<Rightarrow> anno_env \<Rightarrow> annotator \<times> metadata \<Rightarrow> (annotator \<times> metadata) option" where
  "performAnnotate AnnoFlag E = (\<lambda>(s, md). if AnnoFlag = 0 then Some (s, md)
     else Option.bind (foldM (annotateDRCheck E) (storeset s) (s, md)) (foldM (annotateDRCheck E) (loadset s)))"

section \<open>Tags\<close>

lemma evalMDTag_false [simp]: "\<not> evalMDTag md i v str"
proof -
  have "fold (\<lambda>k h. h) xs h = h" for xs :: "nat list" and h :: bool by (induction xs) simp_all
  then show ?thesis by (simp add: evalMDTag_def split: option.splits)
qed

lemma addMDTag_set: "\<not> is_void v \<Longrightarrow> addMDTag is_void i v str md = Some (md(i := (md i)(str \<mapsto> 0)))"
  by (simp add: addMDTag_def)

text \<open>The tags are written but never read back: every instruction counts as untagged, and
  \<open>removeMDTag\<close> removes nothing.\<close>

theorem removeMDTag_keeps:
  "\<not> is_void v \<Longrightarrow> removeMDTag is_void i v str md = Some md \<and> \<not> evalMDTag md i v str"
  by (simp add: removeMDTag_def)

section \<open>Which accesses are collected\<close>

definition module_body :: "program \<Rightarrow> inst set" where
  "module_body P = (\<Union>f\<in>{f \<in> set (mod_funs P). \<not> is_ext_fun P f}. set (fun_insts P f))"

definition load_access :: "anno_env \<Rightarrow> inst \<Rightarrow> bool" where
  "load_access E i \<longleftrightarrow> is_load (an_prog E) i \<or>
     \<not> is_store (an_prog E) i \<and> \<not> isMemset E i \<and> isMemcpy E i"

definition store_access :: "anno_env \<Rightarrow> inst \<Rightarrow> bool" where
  "store_access E i \<longleftrightarrow> \<not> is_load (an_prog E) i \<and> (is_store (an_prog E) i \<or> isMemset E i \<or> isMemcpy E i)"

lemma collect_access_sets:
  "storeset (collect_access E i s) = (if store_access E i then set_insert i (storeset s) else storeset s)"
  "loadset (collect_access E i s) = (if load_access E i then set_insert i (loadset s) else loadset s)"
  by (auto simp: collect_access_def store_access_def load_access_def)

lemma collect_list_sets:
  "storeset (fold (collect_access E) is s) = fold (\<lambda>i x. if store_access E i then set_insert i x else x) is (storeset s)"
  "loadset (fold (collect_access E) is s) = fold (\<lambda>i x. if load_access E i then set_insert i x else x) is (loadset s)"
  by (induction "is" arbitrary: s) (simp_all add: collect_access_sets)

lemma collect_funs_sets:
  fixes E s defines "t \<equiv> \<lambda>fs. fold (\<lambda>f s. if is_ext_fun (an_prog E) f then s
       else fold (collect_access E) (fun_insts (an_prog E) f) s) fs s"
  assumes "std_set_ok (storeset s)" "std_set_ok (loadset s)"
  shows "std_set_ok (storeset (t fs)) \<and> std_set_ok (loadset (t fs)) \<and>
    set (storeset (t fs)) = set (storeset s) \<union> {i \<in> (\<Union>f\<in>{f \<in> set fs. \<not> is_ext_fun (an_prog E) f}.
      set (fun_insts (an_prog E) f)). store_access E i} \<and>
    set (loadset (t fs)) = set (loadset s) \<union> {i \<in> (\<Union>f\<in>{f \<in> set fs. \<not> is_ext_fun (an_prog E) f}.
      set (fun_insts (an_prog E) f)). load_access E i}"
  unfolding t_def using assms(2,3)
proof (induction fs arbitrary: s)
  case (Cons f fs)
  show ?case
  proof (cases "is_ext_fun (an_prog E) f")
    case True
    have "{g \<in> set (f # fs). \<not> is_ext_fun (an_prog E) g} = {g \<in> set fs. \<not> is_ext_fun (an_prog E) g}"
      using True by auto
    then show ?thesis using Cons True by simp
  next
    case False
    have s: "{g \<in> set (f # fs). \<not> is_ext_fun (an_prog E) g} = insert f {g \<in> set fs. \<not> is_ext_fun (an_prog E) g}"
      using False by auto
    let ?s = "fold (collect_access E) (fun_insts (an_prog E) f) s"
    have "std_set_ok (storeset ?s)" "std_set_ok (loadset ?s)"
      by (simp_all add: collect_list_sets Cons.prems)
    from Cons.IH [OF this] show ?thesis
      unfolding s fold.simps o_apply if_not_P [OF False] by (auto simp: collect_list_sets)
  qed
qed simp

lemma collected_operand:
  "store_access E i \<Longrightarrow> getStoreOperand E i \<noteq> None" "load_access E i \<Longrightarrow> getLoadOperand E i \<noteq> None"
  by (auto simp: store_access_def load_access_def getStoreOperand_def getLoadOperand_def)

text \<open>What the analyses after it rely on: both sets are ordered and every access in them has an operand.\<close>

definition accesses_ok :: "anno_env \<Rightarrow> annotator \<Rightarrow> bool" where
  "accesses_ok E s \<longleftrightarrow> std_set_ok (storeset s) \<and> std_set_ok (loadset s) \<and>
     (\<forall>i\<in>set (storeset s). getStoreOperand E i \<noteq> None) \<and> (\<forall>i\<in>set (loadset s). getLoadOperand E i \<noteq> None)"

lemma anno_initialize_sets:
  fixes AnnoFlag E
  assumes "AnnoFlag \<noteq> 0"
  defines "s \<equiv> anno_initialize AnnoFlag E annotator_new"
  shows "accesses_ok E s \<and> set (storeset s) = {i \<in> module_body (an_prog E). store_access E i} \<and>
    set (loadset s) = {i \<in> module_body (an_prog E). load_access E i}"
proof -
  let ?s = "fold (\<lambda>f s. if is_ext_fun (an_prog E) f then s
       else fold (collect_access E) (fun_insts (an_prog E) f) s) (mod_funs (an_prog E)) annotator_new"
  have e: "storeset s = storeset ?s" "loadset s = loadset ?s"
    using assms(1) by (simp_all add: s_def anno_initialize_def collectLoadStoreInst_def Let_def)
  have "std_set_ok (storeset annotator_new)" "std_set_ok (loadset annotator_new)"
    by (simp_all add: annotator_new_def)
  from collect_funs_sets [OF this, of E "mod_funs (an_prog E)"]
  have "std_set_ok (storeset s) \<and> std_set_ok (loadset s) \<and>
    set (storeset s) = {i \<in> module_body (an_prog E). store_access E i} \<and>
    set (loadset s) = {i \<in> module_body (an_prog E). load_access E i}"
    unfolding e module_body_def by (simp add: annotator_new_def)
  then show ?thesis by (auto simp: accesses_ok_def collected_operand)
qed

section \<open>Objects that several threads may reach\<close>

definition object_succ :: "anno_env \<Rightarrow> pag_node \<Rightarrow> pag_node set" where
  "object_succ E o' = an_getPts E o' \<union> an_fields E o'"

definition finite_pts :: "anno_env \<Rightarrow> bool" where
  "finite_pts E \<longleftrightarrow> (\<forall>o'. finite (an_getPts E o')) \<and> (\<forall>o'. finite (an_fields E o'))"

definition nonlocal_inv :: "anno_env \<Rightarrow> pag_node set \<times> pag_node set \<Rightarrow> bool" where
  "nonlocal_inv E = (\<lambda>(w, n). finite_pts E \<and> finite w \<and> w \<inter> n = {})"

lemma nonlocal_step_eq: "nonlocal_step E (w, n) = (let x = Min w; m = insert x n
   in ((w - {x}) \<union> (object_succ E x - m), m))"
  by (auto simp: nonlocal_step_def Let_def object_succ_def)

interpretation nonlocal: graph_search "object_succ E" "\<lambda>_. False" fst snd "\<lambda>_. False" "\<lambda>_. 0::nat"
  "\<lambda>(w, _). w \<noteq> {}" "nonlocal_step E" "nonlocal_inv E"
proof unfold_locales
  fix s :: "pag_node set \<times> pag_node set"
  assume i: "nonlocal_inv E s" and g: "case s of (w, _) \<Rightarrow> w \<noteq> {}"
  obtain w n where s: "s = (w, n)" by (cases s)
  have fin: "finite w" "w \<noteq> {}" "w \<inter> n = {}" "finite_pts E" using i g by (auto simp: s nonlocal_inv_def)
  have x: "Min w \<in> w" using fin by simp
  then have x': "Min w \<notin> n" using fin by blast
  show "nonlocal_inv E (nonlocal_step E s)"
    using fin by (auto simp: s nonlocal_step_eq nonlocal_inv_def Let_def object_succ_def finite_pts_def)
  show "snd (nonlocal_step E s) \<union> fst (nonlocal_step E s) \<subseteq> snd s \<union> fst s \<union> (\<Union>x\<in>fst s. object_succ E x)"
    using x by (auto simp: s nonlocal_step_eq Let_def)
  show "snd s \<subset> snd (nonlocal_step E s) \<or> snd (nonlocal_step E s) = snd s \<and> (0::nat) < 0"
    using x' by (auto simp: s nonlocal_step_eq Let_def)
  show "snd s \<union> fst s \<subseteq> snd (nonlocal_step E s) \<union> fst (nonlocal_step E s)"
    by (auto simp: s nonlocal_step_eq Let_def)
  show "\<not> False \<and> object_succ E x \<subseteq> snd (nonlocal_step E s) \<union> fst (nonlocal_step E s)"
    if "x \<in> snd (nonlocal_step E s)" "x \<notin> snd s" for x
    using that by (auto simp: s nonlocal_step_eq Let_def)
qed auto

lemma local_roots_set: "local_roots E = (\<Union>(a, b)\<in>set (an_forks E). an_getPts E a \<union> an_getPts E b) \<union>
    {x. (True, x) \<in> set (an_globals E)}"
proof -
  have f: "fold (\<lambda>(a, b) w. (w \<union> an_getPts E b) \<union> an_getPts E a) es w =
      w \<union> (\<Union>(a, b)\<in>set es. an_getPts E a \<union> an_getPts E b)" for es w
    by (induction es arbitrary: w) auto
  have g: "fold (\<lambda>(g, x) w. if g then insert x w else w) es w = w \<union> {x. (True, x) \<in> set es}"
    for es :: "(bool \<times> pag_node) list" and w
    by (induction es arbitrary: w) (auto split: if_splits)
  show ?thesis unfolding local_roots_def f g by simp
qed

lemma nonlocal_objects_reach:
  assumes "finite_pts E" and "finite (reach (object_succ E) (local_roots E))"
  shows "nonlocal_objects E = Some (reach (object_succ E) (local_roots E))"
proof -
  have "finite (local_roots E)" using assms(2) by (rule rev_finite_subset) auto
  then have i: "nonlocal_inv E (local_roots E, {})" using assms(1) by (simp add: nonlocal_inv_def)
  obtain t where t: "while_option (\<lambda>(w, _). w \<noteq> {}) (nonlocal_step E) (local_roots E, {}) = Some t"
    using nonlocal.search_terminates [of E "local_roots E" "(local_roots E, {})"] assms(2) i by auto
  then have "snd t = reach (object_succ E) (local_roots E)"
    using nonlocal.search_result [of E "(local_roots E, {})" t "local_roots E"] i by simp
  then show ?thesis using t by (simp add: nonlocal_objects_def)
qed

definition touches :: "anno_env \<Rightarrow> (inst \<Rightarrow> val option) \<Rightarrow> pag_node set \<Rightarrow> inst \<Rightarrow> bool" where
  "touches E operand objs i \<longleftrightarrow> (\<exists>v. operand i = Some v \<and> an_getPts E (an_node E v) \<inter> objs \<noteq> {})"

lemma keep_accesses_result:
  assumes "\<forall>i\<in>set is. operand i \<noteq> None"
  shows "\<exists>need. keep_accesses E operand objs is = Some need \<and> std_set_ok need \<and>
    set need = {i \<in> set is. touches E operand objs i}"
proof -
  have "foldM (\<lambda>i need. map_option (\<lambda>v. if an_getPts E (an_node E v) \<inter> objs \<noteq> {}
      then set_insert i need else need) (operand i)) is need =
    Some (fold (\<lambda>i need. if touches E operand objs i then set_insert i need else need) is need)" for need
    using assms
  proof (induction "is" arbitrary: need)
    case (Cons i "is")
    then obtain v where "operand i = Some v" by auto
    then show ?case using Cons by (simp add: touches_def)
  qed simp
  then show ?thesis by (simp add: keep_accesses_def)
qed

text \<open>Pruning the thread-local accesses: it ends, and keeps a store or load if and only if its operand
  may point to an object that is reached, over points-to sets and fields, from an argument passed to a new
  thread or from a global object.\<close>

theorem pruneThreadLocal_keeps:
  assumes "accesses_ok E s" and "finite_pts E" and "finite (reach (object_succ E) (local_roots E))"
    and "AnnoFlag AND ANNO_LOCAL \<noteq> 0"
  shows "\<exists>t. pruneThreadLocal AnnoFlag E s = Some t \<and> accesses_ok E t \<and>
    (let shared = reach (object_succ E) ((\<Union>(a, b)\<in>set (an_forks E). an_getPts E a \<union> an_getPts E b) \<union>
        {x. (True, x) \<in> set (an_globals E)})
     in set (storeset t) = {i \<in> set (storeset s). touches E (getStoreOperand E) shared i} \<and>
        set (loadset t) = {i \<in> set (loadset s). touches E (getLoadOperand E) shared i})"
proof -
  let ?o = "reach (object_succ E) (local_roots E)"
  obtain st where st: "keep_accesses E (getStoreOperand E) ?o (storeset s) = Some st" "std_set_ok st"
      "set st = {i \<in> set (storeset s). touches E (getStoreOperand E) ?o i}"
    using keep_accesses_result [of "storeset s" "getStoreOperand E" E ?o] assms(1) by (auto simp: accesses_ok_def)
  obtain ld where ld: "keep_accesses E (getLoadOperand E) ?o (loadset s) = Some ld" "std_set_ok ld"
      "set ld = {i \<in> set (loadset s). touches E (getLoadOperand E) ?o i}"
    using keep_accesses_result [of "loadset s" "getLoadOperand E" E ?o] assms(1) by (auto simp: accesses_ok_def)
  have "accesses_ok E (s\<lparr>storeset := st, loadset := ld\<rparr>)"
    using assms(1) st(2,3) ld(2,3) by (simp add: accesses_ok_def)
  then show ?thesis
    unfolding Let_def local_roots_set [symmetric]
    by (simp add: pruneThreadLocal_def assms(4) nonlocal_objects_reach [OF assms(2,3)] st ld accesses_ok_def)
qed

section \<open>Accesses that are in a pair\<close>

text \<open>The answer for a pair once both operands are known.\<close>

definition conflict :: "anno_env \<Rightarrow> bool \<Rightarrow> (inst \<Rightarrow> val option) \<Rightarrow> inst \<Rightarrow> inst \<Rightarrow> bool" where
  "conflict E mhp operand2 i j \<longleftrightarrow> (\<exists>v w. getStoreOperand E i = Some v \<and> operand2 j = Some w \<and>
     alias_bool (pta_alias (an_prog E) v w) \<and> (mhp \<longrightarrow> an_mhp E i j \<and>
       isProtectedByCommonLock (an_prog E) (an_locks E) i j = Some False))"

lemma pair_kept_conflict:
  assumes "getStoreOperand E i \<noteq> None" "operand2 j \<noteq> None"
  shows "pair_kept E mhp operand2 i j = Some (conflict E mhp operand2 i j)"
proof -
  obtain p where "isProtectedByCommonLock (an_prog E) (an_locks E) i j = Some p"
    using protected_total [of "an_prog E" "an_locks E" i j] by blast
  then show ?thesis using assms by (auto simp: pair_kept_def conflict_def)
qed

lemma store_pairs_result:
  assumes "getStoreOperand E i \<noteq> None" "\<forall>j\<in>set js. getStoreOperand E j \<noteq> None" "std_set_ok st"
  shows "\<exists>st'. foldM (store_pair E mhp i) js (st, ld) = Some (st', ld) \<and> std_set_ok st' \<and>
    set st' = set st \<union> {j \<in> set js. conflict E mhp (getStoreOperand E) i j} \<union>
      {x. x = i \<and> (\<exists>j\<in>set js. conflict E mhp (getStoreOperand E) i j)}"
  using assms
proof (induction js arbitrary: st)
  case (Cons j js)
  let ?st = "if conflict E mhp (getStoreOperand E) i j then set_insert j (set_insert i st) else st"
  have step: "store_pair E mhp i j (st, ld) = Some (?st, ld)"
    using Cons.prems by (simp add: store_pair_def pair_kept_conflict)
  have "std_set_ok ?st" using Cons.prems by auto
  from Cons.IH [OF Cons.prems(1) _ this] obtain st' where
    "foldM (store_pair E mhp i) js (?st, ld) = Some (st', ld)" "std_set_ok st'"
    "set st' = set ?st \<union> {j \<in> set js. conflict E mhp (getStoreOperand E) i j} \<union>
      {x. x = i \<and> (\<exists>j\<in>set js. conflict E mhp (getStoreOperand E) i j)}"
    using Cons.prems by auto
  then show ?case unfolding foldM.simps step by (intro exI [of _ st']) auto
qed auto

lemma load_pairs_result:
  assumes "getStoreOperand E i \<noteq> None" "\<forall>j\<in>set js. getLoadOperand E j \<noteq> None"
    and "std_set_ok st" "std_set_ok ld"
  shows "\<exists>st' ld'. foldM (load_pair E mhp i) js (st, ld) = Some (st', ld') \<and> std_set_ok st' \<and> std_set_ok ld' \<and>
    set st' = set st \<union> {x. x = i \<and> (\<exists>j\<in>set js. conflict E mhp (getLoadOperand E) i j)} \<and>
    set ld' = set ld \<union> {j \<in> set js. conflict E mhp (getLoadOperand E) i j}"
  using assms
proof (induction js arbitrary: st ld)
  case (Cons j js)
  let ?c = "conflict E mhp (getLoadOperand E) i j"
  let ?st = "if ?c then set_insert i st else st" and ?ld = "if ?c then set_insert j ld else ld"
  have step: "load_pair E mhp i j (st, ld) = Some (?st, ?ld)"
    using Cons.prems by (simp add: load_pair_def pair_kept_conflict)
  have "std_set_ok ?st" "std_set_ok ?ld" using Cons.prems by auto
  from Cons.IH [OF Cons.prems(1) _ this] obtain st' ld' where
    "foldM (load_pair E mhp i) js (?st, ?ld) = Some (st', ld')" "std_set_ok st'" "std_set_ok ld'"
    "set st' = set ?st \<union> {x. x = i \<and> (\<exists>j\<in>set js. conflict E mhp (getLoadOperand E) i j)}"
    "set ld' = set ?ld \<union> {j \<in> set js. conflict E mhp (getLoadOperand E) i j}"
    using Cons.prems by auto
  then show ?case unfolding foldM.simps step by (intro exI [of _ st'] exI [of _ ld']) auto
qed auto

text \<open>Two stores are compared in the order of the set, a store with itself too.\<close>

definition stores_conflict :: "anno_env \<Rightarrow> bool \<Rightarrow> inst \<Rightarrow> inst \<Rightarrow> bool" where
  "stores_conflict E mhp i j = conflict E mhp (getStoreOperand E) (min i j) (max i j)"

lemma pairs_split:
  assumes "\<forall>j\<in>insert i S. C j i \<longleftrightarrow> C i j"
  shows "{x \<in> insert i S. (\<exists>j\<in>insert i S. C x j) \<or> L x} = {j \<in> insert i S. C i j} \<union>
    {x. x = i \<and> (\<exists>j\<in>insert i S. C i j)} \<union> {x. x = i \<and> L i} \<union> {x \<in> S. (\<exists>j\<in>S. C x j) \<or> L x}"
  using assms by blast

lemma prune_pairs_result:
  assumes "\<forall>i\<in>set sts. getStoreOperand E i \<noteq> None" "\<forall>j\<in>set lds. getLoadOperand E j \<noteq> None"
    and "std_set_ok sts" "std_set_ok st" "std_set_ok ld"
  shows "\<exists>st' ld'. prune_pairs E mhp sts lds (st, ld) = Some (st', ld') \<and> std_set_ok st' \<and> std_set_ok ld' \<and>
    set st' = set st \<union> {i \<in> set sts. (\<exists>j\<in>set sts. stores_conflict E mhp i j) \<or>
      (\<exists>j\<in>set lds. conflict E mhp (getLoadOperand E) i j)} \<and>
    set ld' = set ld \<union> {j \<in> set lds. \<exists>i\<in>set sts. conflict E mhp (getLoadOperand E) i j}"
  using assms
proof (induction sts arbitrary: st ld)
  case (Cons i sts)
  obtain st1 where st1: "foldM (store_pair E mhp i) (i # sts) (st, ld) = Some (st1, ld)" "std_set_ok st1"
      "set st1 = set st \<union> {j \<in> set (i # sts). conflict E mhp (getStoreOperand E) i j} \<union>
        {x. x = i \<and> (\<exists>j\<in>set (i # sts). conflict E mhp (getStoreOperand E) i j)}"
    using store_pairs_result [of E i "i # sts" st mhp ld] Cons.prems by auto
  obtain st2 ld2 where st2: "foldM (load_pair E mhp i) lds (st1, ld) = Some (st2, ld2)" "std_set_ok st2"
      "std_set_ok ld2" "set st2 = set st1 \<union> {x. x = i \<and> (\<exists>j\<in>set lds. conflict E mhp (getLoadOperand E) i j)}"
      "set ld2 = set ld \<union> {j \<in> set lds. conflict E mhp (getLoadOperand E) i j}"
    using load_pairs_result [of E i lds st1 ld mhp] Cons.prems st1(2) by auto
  obtain st3 ld3 where st3: "prune_pairs E mhp sts lds (st2, ld2) = Some (st3, ld3)" "std_set_ok st3" "std_set_ok ld3"
      "set st3 = set st2 \<union> {i \<in> set sts. (\<exists>j\<in>set sts. stores_conflict E mhp i j) \<or>
        (\<exists>j\<in>set lds. conflict E mhp (getLoadOperand E) i j)}"
      "set ld3 = set ld2 \<union> {j \<in> set lds. \<exists>i\<in>set sts. conflict E mhp (getLoadOperand E) i j}"
    using Cons.IH [OF _ Cons.prems(2) _ st2(2,3)] Cons.prems by auto
  have low: "conflict E mhp (getStoreOperand E) i j = stores_conflict E mhp i j"
    "stores_conflict E mhp j i = stores_conflict E mhp i j" if "j \<in> set (i # sts)" for j
    using that Cons.prems(3) by (auto simp: stores_conflict_def min_def max_def less_le)
  have sym: "\<forall>j\<in>insert i (set sts). stores_conflict E mhp j i \<longleftrightarrow> stores_conflict E mhp i j"
    using low(2) by simp
  have "set st1 = set st \<union> {j \<in> set (i # sts). stores_conflict E mhp i j} \<union>
        {x. x = i \<and> (\<exists>j\<in>set (i # sts). stores_conflict E mhp i j)}"
    unfolding st1(3) using low(1) by blast
  then have "set st3 = set st \<union> {x \<in> set (i # sts). (\<exists>j\<in>set (i # sts). stores_conflict E mhp x j) \<or>
      (\<exists>j\<in>set lds. conflict E mhp (getLoadOperand E) x j)}"
    unfolding st3(4) st2(4) list.set(2) pairs_split [OF sym] by (simp only: Un_assoc)
  moreover have "set ld3 = set ld \<union> {j \<in> set lds. \<exists>x\<in>set (i # sts). conflict E mhp (getLoadOperand E) x j}"
    unfolding st3(5) st2(5) by auto
  moreover have "prune_pairs E mhp (i # sts) lds (st, ld) = Some (st3, ld3)"
    unfolding prune_pairs.simps st1(1) Option.bind.simps st2(1) by (rule st3(1))
  ultimately show ?case using st3(2,3) by blast
qed simp

text \<open>Pruning by pairs: a store is kept if and only if it conflicts with a store or a load that was
  still there, itself included, and a load if and only if it conflicts with a store: their operands may
  alias and, when the interleaving analysis is asked, they may happen in parallel and no common lock
  protects them.\<close>

theorem pruneAliasMHP_keeps:
  assumes "accesses_ok E s" and "AnnoFlag AND ANNO_MHP \<noteq> 0 \<or> AnnoFlag AND ANNO_ALIAS \<noteq> 0"
  shows "\<exists>t. pruneAliasMHP AnnoFlag E s = Some t \<and> accesses_ok E t \<and>
    (let mhp = AnnoFlag AND ANNO_MHP \<noteq> 0 in
     set (storeset t) = {i \<in> set (storeset s). (\<exists>j\<in>set (storeset s). stores_conflict E mhp i j) \<or>
       (\<exists>j\<in>set (loadset s). conflict E mhp (getLoadOperand E) i j)} \<and>
     set (loadset t) = {j \<in> set (loadset s). \<exists>i\<in>set (storeset s). conflict E mhp (getLoadOperand E) i j})"
proof -
  let ?m = "AnnoFlag AND ANNO_MHP \<noteq> 0"
  obtain st ld where r: "prune_pairs E ?m (storeset s) (loadset s) ([], []) = Some (st, ld)"
      "std_set_ok st" "std_set_ok ld"
      "set st = {i \<in> set (storeset s). (\<exists>j\<in>set (storeset s). stores_conflict E ?m i j) \<or>
        (\<exists>j\<in>set (loadset s). conflict E ?m (getLoadOperand E) i j)}"
      "set ld = {j \<in> set (loadset s). \<exists>i\<in>set (storeset s). conflict E ?m (getLoadOperand E) i j}"
    using prune_pairs_result [of "storeset s" E "loadset s" "[]" "[]" ?m] assms(1)
    by (auto simp: accesses_ok_def)
  have "accesses_ok E (s\<lparr>storeset := st, loadset := ld\<rparr>)"
    using assms(1) r(2-5) by (simp add: accesses_ok_def)
  then show ?thesis
    using assms(2) r unfolding pruneAliasMHP_def Let_def by (auto simp: accesses_ok_def)
qed

section \<open>The tags at the end\<close>

definition annotated :: "anno_env \<Rightarrow> inst list \<Rightarrow> annotator \<times> metadata \<Rightarrow> annotator \<times> metadata \<Rightarrow> bool" where
  "annotated E is = (\<lambda>(s, md) (t, md'). storeset t = storeset s \<and> loadset t = loadset s \<and>
    numOfAnnotatedSt t = numOfAnnotatedSt s + of_nat (length (filter (is_store (an_prog E)) is)) \<and>
    numOfAnnotatedLd t = numOfAnnotatedLd s +
      of_nat (length (filter (\<lambda>i. \<not> is_store (an_prog E) i \<and> is_load (an_prog E) i) is)) \<and>
    (\<forall>i. hasDRCheckFlag md' i \<longleftrightarrow> hasDRCheckFlag md i \<or>
      i \<in> set is \<and> (is_store (an_prog E) i \<or> is_load (an_prog E) i)))"

lemma annotated_trans: "annotated E is p q \<Longrightarrow> annotated E js q r \<Longrightarrow> annotated E (is @ js) p r"
  by (cases p; cases q; cases r) (auto simp: annotated_def)

lemma annotate_inst:
  assumes "(is_store (an_prog E) i \<or> is_load (an_prog E) i) \<longrightarrow> \<not> an_void E (pointer_operand (an_prog E) i)"
  shows "\<exists>q. annotateDRCheck E i p = Some q \<and> annotated E [i] p q"
  using assms by (cases p) (auto simp: annotateDRCheck_def addMDTag_set annotated_def hasDRCheckFlag_def)

lemma annotate_list:
  assumes "\<forall>i\<in>set is. (is_store (an_prog E) i \<or> is_load (an_prog E) i) \<longrightarrow> \<not> an_void E (pointer_operand (an_prog E) i)"
  shows "\<exists>q. foldM (annotateDRCheck E) is p = Some q \<and> annotated E is p q"
  using assms
proof (induction "is" arbitrary: p)
  case Nil
  then show ?case by (cases p) (simp add: annotated_def)
next
  case (Cons i "is")
  obtain q where q: "annotateDRCheck E i p = Some q" "annotated E [i] p q"
    using annotate_inst [of E i p] Cons.prems by auto
  obtain r where r: "foldM (annotateDRCheck E) is q = Some r" "annotated E is q r"
    using Cons.IH [of q] Cons.prems by auto
  show ?case using annotated_trans [OF q(2) r(2)] by (simp add: q(1) r(1))
qed

text \<open>
  The four public steps in the order in which the class declares them, on the metadata of the module. The
  sources have no caller of the class; only \<open>MTAStat\<close> takes an annotator, to print its counts.
\<close>

definition run_annotator :: "32 word \<Rightarrow> anno_env \<Rightarrow> metadata \<Rightarrow> (annotator \<times> metadata) option" where
  "run_annotator AnnoFlag E md =
     Option.bind (pruneThreadLocal AnnoFlag E (anno_initialize AnnoFlag E annotator_new)) (\<lambda>s.
     Option.bind (pruneAliasMHP AnnoFlag E s) (\<lambda>s. performAnnotate AnnoFlag E (s, md)))"

definition shared_objects :: "anno_env \<Rightarrow> pag_node set" where
  "shared_objects E = reach (object_succ E) ((\<Union>(a, b)\<in>set (an_forks E). an_getPts E a \<union> an_getPts E b) \<union>
     {x. (True, x) \<in> set (an_globals E)})"

definition anno_ready :: "anno_env \<Rightarrow> bool" where
  "anno_ready E \<longleftrightarrow> finite_pts E \<and> finite (shared_objects E) \<and>
     (\<forall>i. is_store (an_prog E) i \<or> is_load (an_prog E) i \<longrightarrow> \<not> an_void E (pointer_operand (an_prog E) i))"

text \<open>What the options let the annotator drop: with the bit for objects, accesses to objects of one thread
  only; with one of the other bits, accesses in no conflicting pair.\<close>

definition local_ok :: "32 word \<Rightarrow> anno_env \<Rightarrow> (inst \<Rightarrow> val option) \<Rightarrow> inst \<Rightarrow> bool" where
  "local_ok AnnoFlag E operand i \<longleftrightarrow> AnnoFlag AND ANNO_LOCAL = 0 \<or> touches E operand (shared_objects E) i"

definition pairs_asked :: "32 word \<Rightarrow> bool" where
  "pairs_asked AnnoFlag \<longleftrightarrow> AnnoFlag AND ANNO_MHP \<noteq> 0 \<or> AnnoFlag AND ANNO_ALIAS \<noteq> 0"

definition candidate_stores :: "32 word \<Rightarrow> anno_env \<Rightarrow> inst set" where
  "candidate_stores AnnoFlag E = {i \<in> module_body (an_prog E). store_access E i \<and> local_ok AnnoFlag E (getStoreOperand E) i}"

definition candidate_loads :: "32 word \<Rightarrow> anno_env \<Rightarrow> inst set" where
  "candidate_loads AnnoFlag E = {i \<in> module_body (an_prog E). load_access E i \<and> local_ok AnnoFlag E (getLoadOperand E) i}"

lemma pruned_local:
  assumes "anno_ready E" "AnnoFlag \<noteq> 0"
  shows "\<exists>s. pruneThreadLocal AnnoFlag E (anno_initialize AnnoFlag E annotator_new) = Some s \<and> accesses_ok E s \<and>
    set (storeset s) = candidate_stores AnnoFlag E \<and> set (loadset s) = candidate_loads AnnoFlag E"
proof -
  let ?s = "anno_initialize AnnoFlag E annotator_new"
  note i = anno_initialize_sets [OF assms(2), of E]
  show ?thesis
  proof (cases "AnnoFlag AND ANNO_LOCAL = 0")
    case True
    then show ?thesis using i
      by (auto simp: pruneThreadLocal_def candidate_stores_def candidate_loads_def local_ok_def)
  next
    case False
    have r: "finite (reach (object_succ E) (local_roots E))" "finite_pts E"
      using assms(1) by (simp_all add: anno_ready_def shared_objects_def local_roots_set)
    obtain st where st: "keep_accesses E (getStoreOperand E) (shared_objects E) (storeset ?s) = Some st" "std_set_ok st"
        "set st = {i \<in> set (storeset ?s). touches E (getStoreOperand E) (shared_objects E) i}"
      using keep_accesses_result [of "storeset ?s" "getStoreOperand E" E "shared_objects E"] i
      by (auto simp: accesses_ok_def)
    obtain ld where ld: "keep_accesses E (getLoadOperand E) (shared_objects E) (loadset ?s) = Some ld" "std_set_ok ld"
        "set ld = {i \<in> set (loadset ?s). touches E (getLoadOperand E) (shared_objects E) i}"
      using keep_accesses_result [of "loadset ?s" "getLoadOperand E" E "shared_objects E"] i
      by (auto simp: accesses_ok_def)
    have n: "nonlocal_objects E = Some (shared_objects E)"
      using nonlocal_objects_reach [OF r(2,1)] by (simp add: shared_objects_def local_roots_set)
    show ?thesis using i st ld False
      by (auto simp: pruneThreadLocal_def n accesses_ok_def candidate_stores_def candidate_loads_def local_ok_def)
  qed
qed

lemma pruned_pairs:
  assumes "accesses_ok E s" "pairs_asked AnnoFlag"
  defines "mhp \<equiv> AnnoFlag AND ANNO_MHP \<noteq> 0"
  shows "\<exists>t. pruneAliasMHP AnnoFlag E s = Some t \<and>
    set (storeset t) = {i \<in> set (storeset s). (\<exists>j\<in>set (storeset s). stores_conflict E mhp i j) \<or>
       (\<exists>j\<in>set (loadset s). conflict E mhp (getLoadOperand E) i j)} \<and>
    set (loadset t) = {j \<in> set (loadset s). \<exists>i\<in>set (storeset s). conflict E mhp (getLoadOperand E) i j}"
proof -
  obtain st ld where "prune_pairs E mhp (storeset s) (loadset s) ([], []) = Some (st, ld)"
      "set st = {i \<in> set (storeset s). (\<exists>j\<in>set (storeset s). stores_conflict E mhp i j) \<or>
        (\<exists>j\<in>set (loadset s). conflict E mhp (getLoadOperand E) i j)}"
      "set ld = {j \<in> set (loadset s). \<exists>i\<in>set (storeset s). conflict E mhp (getLoadOperand E) i j}"
    using prune_pairs_result [of "storeset s" E "loadset s" "[]" "[]" mhp] assms(1)
    by (auto simp: accesses_ok_def)
  then show ?thesis
    using assms(2) unfolding pruneAliasMHP_def Let_def mhp_def pairs_asked_def by auto
qed

lemma performAnnotate_tags:
  assumes "anno_ready E" "AnnoFlag \<noteq> 0"
  shows "\<exists>t md'. performAnnotate AnnoFlag E (s, md) = Some (t, md') \<and>
    (\<forall>i. hasDRCheckFlag md' i \<longleftrightarrow> hasDRCheckFlag md i \<or>
      i \<in> set (storeset s) \<union> set (loadset s) \<and> (is_store (an_prog E) i \<or> is_load (an_prog E) i))"
proof -
  have v: "\<forall>i\<in>set is. (is_store (an_prog E) i \<or> is_load (an_prog E) i) \<longrightarrow> \<not> an_void E (pointer_operand (an_prog E) i)" for "is"
    using assms(1) by (simp add: anno_ready_def)
  obtain q where q: "foldM (annotateDRCheck E) (storeset s) (s, md) = Some q" "annotated E (storeset s) (s, md) q"
    using annotate_list [OF v, of "storeset s" "(s, md)"] by blast
  obtain r where r: "foldM (annotateDRCheck E) (loadset s) q = Some r" "annotated E (loadset s) q r"
    using annotate_list [OF v, of "loadset s" q] by blast
  have "annotated E (storeset s @ loadset s) (s, md) r" by (rule annotated_trans [OF q(2) r(2)])
  then show ?thesis using assms(2) q(1) r(1) by (cases r) (auto simp: performAnnotate_def annotated_def)
qed

lemma run_annotator_tags:
  assumes "anno_ready E" and "AnnoFlag \<noteq> 0"
  shows "\<exists>t md'. run_annotator AnnoFlag E md = Some (t, md') \<and>
    (let mhp = AnnoFlag AND ANNO_MHP \<noteq> 0; S = candidate_stores AnnoFlag E; L = candidate_loads AnnoFlag E in
     \<forall>i. hasDRCheckFlag md' i \<longleftrightarrow> hasDRCheckFlag md i \<or>
       (is_store (an_prog E) i \<or> is_load (an_prog E) i) \<and>
       (i \<in> S \<and> (\<not> pairs_asked AnnoFlag \<or> (\<exists>j\<in>S. stores_conflict E mhp i j) \<or>
          (\<exists>j\<in>L. conflict E mhp (getLoadOperand E) i j)) \<or>
        i \<in> L \<and> (\<not> pairs_asked AnnoFlag \<or> (\<exists>j\<in>S. conflict E mhp (getLoadOperand E) j i))))"
proof -
  obtain s where s: "pruneThreadLocal AnnoFlag E (anno_initialize AnnoFlag E annotator_new) = Some s"
      "accesses_ok E s" "set (storeset s) = candidate_stores AnnoFlag E" "set (loadset s) = candidate_loads AnnoFlag E"
    using pruned_local [OF assms] by blast
  show ?thesis
  proof (cases "pairs_asked AnnoFlag")
    case True
    obtain u where u: "pruneAliasMHP AnnoFlag E s = Some u"
      "set (storeset u) = {i \<in> set (storeset s). (\<exists>j\<in>set (storeset s). stores_conflict E (AnnoFlag AND ANNO_MHP \<noteq> 0) i j) \<or>
         (\<exists>j\<in>set (loadset s). conflict E (AnnoFlag AND ANNO_MHP \<noteq> 0) (getLoadOperand E) i j)}"
      "set (loadset u) = {j \<in> set (loadset s). \<exists>i\<in>set (storeset s). conflict E (AnnoFlag AND ANNO_MHP \<noteq> 0) (getLoadOperand E) i j}"
      using pruned_pairs [OF s(2) True] by blast
    obtain t md' where t: "performAnnotate AnnoFlag E (u, md) = Some (t, md')"
      "\<forall>i. hasDRCheckFlag md' i \<longleftrightarrow> hasDRCheckFlag md i \<or>
        i \<in> set (storeset u) \<union> set (loadset u) \<and> (is_store (an_prog E) i \<or> is_load (an_prog E) i)"
      using performAnnotate_tags [OF assms, of u md] by blast
    show ?thesis unfolding Let_def
      by (intro exI [of _ t] exI [of _ md'] conjI allI)
        (simp add: run_annotator_def s(1) u(1) t(1), unfold t(2) [rule_format] u(2,3) s(3,4), use True in blast)
  next
    case False
    then have u: "pruneAliasMHP AnnoFlag E s = Some s" by (simp add: pruneAliasMHP_def pairs_asked_def)
    obtain t md' where t: "performAnnotate AnnoFlag E (s, md) = Some (t, md')"
      "\<forall>i. hasDRCheckFlag md' i \<longleftrightarrow> hasDRCheckFlag md i \<or>
        i \<in> set (storeset s) \<union> set (loadset s) \<and> (is_store (an_prog E) i \<or> is_load (an_prog E) i)"
      using performAnnotate_tags [OF assms, of s md] by blast
    show ?thesis unfolding Let_def
      by (intro exI [of _ t] exI [of _ md'] conjI allI)
        (simp add: run_annotator_def s(1) u(1) t(1), unfold t(2) [rule_format] s(3,4), use False in blast)
  qed
qed

lemma run_annotator_off: "run_annotator 0 E md = Some (annotator_new, md)"
  by (simp add: run_annotator_def anno_initialize_def pruneThreadLocal_def pruneAliasMHP_def performAnnotate_def)

text \<open>C35: The tags the annotator writes: with its option at the default 0 it writes none and leaves the
  metadata as they are. For every other value its loops end without a failed assertion, and an instruction
  gets a tag if and only if it is a load or store of the module that is not dropped, where the bits of the
  option allow to drop accesses to objects of one thread and accesses in no conflicting pair.\<close>

theorem annotator_tags:
  assumes "anno_ready E"
  shows "\<exists>t md'. run_annotator AnnoFlag E md = Some (t, md') \<and> (AnnoFlag = 0 \<longrightarrow> md' = md) \<and>
    (let mhp = AnnoFlag AND ANNO_MHP \<noteq> 0; S = candidate_stores AnnoFlag E; L = candidate_loads AnnoFlag E in
     \<forall>i. hasDRCheckFlag md' i \<longleftrightarrow> hasDRCheckFlag md i \<or> AnnoFlag \<noteq> 0 \<and>
       (is_store (an_prog E) i \<or> is_load (an_prog E) i) \<and>
       (i \<in> S \<and> (\<not> pairs_asked AnnoFlag \<or> (\<exists>j\<in>S. stores_conflict E mhp i j) \<or>
          (\<exists>j\<in>L. conflict E mhp (getLoadOperand E) i j)) \<or>
        i \<in> L \<and> (\<not> pairs_asked AnnoFlag \<or> (\<exists>j\<in>S. conflict E mhp (getLoadOperand E) j i))))"
proof (cases "AnnoFlag = 0")
  case True
  then show ?thesis by (simp add: run_annotator_off)
next
  case False
  then show ?thesis using run_annotator_tags [OF assms False, of md] by (simp only: simp_thms)
qed

section \<open>No race is dropped\<close>

text \<open>A store and an access that race, asked in this order, conflict for every choice of the options.\<close>

lemma races_conflict:
  assumes "races R i j" "re_prog R = an_prog E" "re_locks R = an_locks E" "re_mhp R = an_mhp E"
    and "is_store (an_prog E) i" "operand2 j = Some (pointer_operand (an_prog E) j)"
    and "is_store (an_prog E) j \<or> is_load (an_prog E) j"
  shows "conflict E mhp operand2 i j"
  using hasDataRace_iff [of R i j] assms
  by (auto simp: races_def conflict_def getStoreOperand_def alias_bool_def)

text \<open>Where the alias relation and the interleaving are symmetric, so is the conflict of two stores.\<close>

definition anno_symmetric :: "anno_env \<Rightarrow> bool" where
  "anno_symmetric E \<longleftrightarrow> (\<forall>p q. pta_alias (an_prog E) p q = pta_alias (an_prog E) q p) \<and>
     (\<forall>i j. an_mhp E i j = an_mhp E j i)"

lemma conflict_symmetric:
  assumes "anno_symmetric E"
  shows "conflict E mhp (getStoreOperand E) i j \<longleftrightarrow> conflict E mhp (getStoreOperand E) j i"
proof -
  have a: "pta_alias (an_prog E) p q = pta_alias (an_prog E) q p" "an_mhp E x y = an_mhp E y x" for p q x y
    using assms by (auto simp: anno_symmetric_def)
  have l: "isProtectedByCommonLock (an_prog E) (an_locks E) x y = isProtectedByCommonLock (an_prog E) (an_locks E) y x"
    for x y using isProtectedByCommonLock_symmetric [of "an_prog E" "an_locks E" x y] a(1) by blast
  have "conflict E mhp (getStoreOperand E) y x" if "conflict E mhp (getStoreOperand E) x y" for x y
    using that a l [of x y] unfolding conflict_def by metis
  then show ?thesis by blast
qed

text \<open>C17: The annotator drops no race: when it is switched on by a value of its option other than the
  default 0, at which it tags nothing, and the race check finds a race between a store and another store or load
  whose objects are not found to be local to one thread, both instructions get a tag, for every such value. Two
  stores have to be asked in the order in which the annotator compares them, which is that of their
  addresses, or the alias relation and the interleaving analysis have to be symmetric.\<close>

theorem annotator_keeps_races:
  assumes "anno_ready E" and "AnnoFlag \<noteq> 0" and "run_annotator AnnoFlag E md = Some (t, md')"
    and "races R i j" and "re_prog R = an_prog E" and "re_locks R = an_locks E" and "re_mhp R = an_mhp E"
    and "i \<in> candidate_stores AnnoFlag E" and "is_store (an_prog E) i"
    and "j \<in> candidate_stores AnnoFlag E \<and> is_store (an_prog E) j \<and> (i \<le> j \<or> anno_symmetric E) \<or>
      j \<in> candidate_loads AnnoFlag E \<and> is_load (an_prog E) j"
  shows "hasDRCheckFlag md' i \<and> hasDRCheckFlag md' j"
proof -
  let ?m = "AnnoFlag AND ANNO_MHP \<noteq> 0"
  have tags: "hasDRCheckFlag md' x" if "is_store (an_prog E) x \<or> is_load (an_prog E) x"
      "x \<in> candidate_stores AnnoFlag E \<and> (\<exists>y\<in>candidate_stores AnnoFlag E. stores_conflict E ?m x y) \<or>
       x \<in> candidate_stores AnnoFlag E \<and> (\<exists>y\<in>candidate_loads AnnoFlag E. conflict E ?m (getLoadOperand E) x y) \<or>
       x \<in> candidate_loads AnnoFlag E \<and> (\<exists>y\<in>candidate_stores AnnoFlag E. conflict E ?m (getLoadOperand E) y x)" for x
    using run_annotator_tags [OF assms(1,2), of md] assms(3) that unfolding Let_def by auto
  note c = races_conflict [OF assms(4-7,9), of _ ?m]
  from assms(10) show ?thesis
  proof
    assume j: "j \<in> candidate_stores AnnoFlag E \<and> is_store (an_prog E) j \<and> (i \<le> j \<or> anno_symmetric E)"
    then have "conflict E ?m (getStoreOperand E) i j" by (intro c) (auto simp: getStoreOperand_def)
    then have "conflict E ?m (getStoreOperand E) (min i j) (max i j)"
      using j conflict_symmetric [of E ?m i j] by (cases "i \<le> j") (auto simp: min_def max_def)
    then have "stores_conflict E ?m i j" "stores_conflict E ?m j i"
      by (simp_all add: stores_conflict_def min.commute max.commute)
    then show ?thesis using tags assms(8,9) j by blast
  next
    assume j: "j \<in> candidate_loads AnnoFlag E \<and> is_load (an_prog E) j"
    then have "conflict E ?m (getLoadOperand E) i j" by (intro c) (auto simp: getLoadOperand_def)
    then show ?thesis using tags assms(8,9) j by blast
  qed
qed

section \<open>Witnesses\<close>

text \<open>Every pointer points to a global object; all accesses may happen in parallel.\<close>

definition anno_example :: anno_env where
  "anno_example = \<lparr>an_prog = locked_store, an_locks = la_new, an_mhp = (\<lambda>_ _. True), an_callee = (\<lambda>_. None),
     an_memcpy = (\<lambda>_. False), an_operand = (\<lambda>_ _. 0), an_void = (\<lambda>_. False), an_node = (\<lambda>v. v),
     an_getPts = (\<lambda>_. {5}), an_fields = (\<lambda>_. {}), an_forks = [], an_globals = [(True, 5)]\<rparr>"

lemma anno_example_shared: "shared_objects anno_example = {5}"
proof -
  have "reach (object_succ anno_example) {5} = {5}"
    by (rule reach_eq) (auto simp: object_succ_def anno_example_def)
  then show ?thesis by (simp add: shared_objects_def anno_example_def)
qed

lemma anno_example_ready: "anno_ready anno_example"
  by (simp add: anno_ready_def anno_example_shared) (simp add: anno_example_def finite_pts_def)

lemma anno_example_stores:
  "10 \<in> candidate_stores 7 anno_example" "12 \<in> candidate_stores 7 anno_example"
proof -
  have "touches anno_example (getStoreOperand anno_example) {5} i" if "i \<in> {10, 12}" for i
    using that by (auto simp: touches_def anno_example_def getStoreOperand_def)
  moreover have "i \<in> module_body (an_prog anno_example) \<and> store_access anno_example i" if "i \<in> {10, 12}" for i
    using that by (auto simp: anno_example_def module_body_def store_access_def locked_store_def empty_program_def)
  ultimately show "10 \<in> candidate_stores 7 anno_example" "12 \<in> candidate_stores 7 anno_example"
    by (simp_all add: candidate_stores_def local_ok_def anno_example_shared)
qed

lemma anno_example_race: "races (race_example\<lparr>re_locks := la_new\<rparr>) 10 12"
proof -
  have "isProtectedByCommonLock locked_store la_new 10 12 = Some False" by code_simp
  then show ?thesis using hasDataRace_iff [of "race_example\<lparr>re_locks := la_new\<rparr>" 10 12]
    by (auto simp: races_def race_example_def)
qed

theorem annotator_tags_witness:
  "\<exists>t md'. run_annotator 7 anno_example (\<lambda>_. Map.empty) = Some (t, md') \<and> hasDRCheckFlag md' 10 \<and> \<not> hasDRCheckFlag md' 11"
proof -
  have f: "(7 :: 32 word) AND ANNO_MHP \<noteq> 0" by (simp add: ANNO_MHP_def)
  have "stores_conflict anno_example True 10 12"
    using races_conflict [OF anno_example_race, of anno_example "getStoreOperand anno_example" True]
    by (simp add: stores_conflict_def) (simp add: anno_example_def race_example_def getStoreOperand_def)
  moreover have "\<not> is_store (an_prog anno_example) 11" "\<not> is_load (an_prog anno_example) 11"
    "is_store (an_prog anno_example) 10" by (simp_all add: anno_example_def)
  ultimately show ?thesis
    using annotator_tags [OF anno_example_ready, of 7 "\<lambda>_. Map.empty"] anno_example_stores f
    unfolding Let_def by (fastforce simp: hasDRCheckFlag_def)
qed

theorem annotator_keeps_races_witness:
  "\<exists>t md'. run_annotator 7 anno_example (\<lambda>_. Map.empty) = Some (t, md') \<and> hasDRCheckFlag md' 10 \<and> hasDRCheckFlag md' 12"
proof -
  obtain t md' where r: "run_annotator 7 anno_example (\<lambda>_. Map.empty) = Some (t, md')"
    using run_annotator_tags [OF anno_example_ready, of 7 "\<lambda>_. Map.empty"] by auto
  have "hasDRCheckFlag md' 10 \<and> hasDRCheckFlag md' 12"
    by (rule annotator_keeps_races [OF anno_example_ready _ r anno_example_race])
      (use anno_example_stores in \<open>simp_all add: anno_example_def race_example_def\<close>)
  then show ?thesis using r by blast
qed

end
