(* ===== verification/ThreadVF.thy ===== *)
theory ThreadVF
  imports LockQuery "HOL-Library.Product_Lexorder"
begin

text \<open>
  The class \<open>MTASVFGBuilder\<close> of \<open>include/MTA/FSMPTA.h\<close> and \<open>lib/MTA/FSMPTA.cpp\<close>, which adds to the sparse
  value-flow graph of a program the flows between threads: from a store to the loads and stores of
  another thread that may run at the same time, where a common lock lets only the last store of a
  span be seen by the first accesses of another one. The graph without these edges, the points-to
  sets and the answers of the interleaving analysis are inputs.
\<close>

section \<open>The value-flow graph\<close>

datatype svfg_edge_kind = IntraDirect | IntraIndirect | DirCall | DirRet | IndCall | IndRet | TheadMHPIndirect

definition kind_code :: "svfg_edge_kind \<Rightarrow> nat" where
  "kind_code k = (case k of IntraDirect \<Rightarrow> 0 | IntraIndirect \<Rightarrow> 1 | DirCall \<Rightarrow> 2 | DirRet \<Rightarrow> 3
     | IndCall \<Rightarrow> 4 | IndRet \<Rightarrow> 5 | TheadMHPIndirect \<Rightarrow> 6)"

text \<open>
  The sets of edges are ordered by the flag of an edge, which holds its kind in the lowest four
  bits, and the numbers of its source and destination; at most one edge of each set has the
  same three, so they name the edge.
\<close>

type_synonym vnode = nat
type_synonym svfg_edge = "nat \<times> vnode \<times> vnode"

definition edge_src :: "svfg_edge \<Rightarrow> vnode" where "edge_src e = fst (snd e)"
definition edge_dst :: "svfg_edge \<Rightarrow> vnode" where "edge_dst e = snd (snd e)"

definition isIndirectVFGEdge :: "svfg_edge \<Rightarrow> bool" where
  "isIndirectVFGEdge e \<longleftrightarrow> fst e mod 16 \<in> kind_code ` {IntraIndirect, IndCall, IndRet, TheadMHPIndirect}"

datatype svfg_node_kind = StoreNode | LoadNode | OtherNode

text \<open>\<open>sv_inst\<close>, \<open>sv_src\<close> and \<open>sv_dst\<close> are read of store and load nodes only; \<open>sv_pts\<close> are the objects an
  indirect edge carries.\<close>

record svfg =
  sv_ids :: "vnode list"
  sv_kind :: "vnode \<Rightarrow> svfg_node_kind"
  sv_inst :: "vnode \<Rightarrow> inst option"
  sv_src :: "vnode \<Rightarrow> nat"
  sv_dst :: "vnode \<Rightarrow> nat"
  sv_in :: "vnode \<Rightarrow> svfg_edge std_set"
  sv_out :: "vnode \<Rightarrow> svfg_edge std_set"
  sv_pts :: "svfg_edge \<Rightarrow> nat set"

definition isStore :: "svfg \<Rightarrow> vnode \<Rightarrow> bool" where "isStore g n \<longleftrightarrow> sv_kind g n = StoreNode"
definition isLoad :: "svfg \<Rightarrow> vnode \<Rightarrow> bool" where "isLoad g n \<longleftrightarrow> sv_kind g n = LoadNode"

definition hasThreadSVFGEdge :: "svfg \<Rightarrow> vnode \<Rightarrow> vnode \<Rightarrow> svfg_edge_kind \<Rightarrow> svfg_edge option" where
  "hasThreadSVFGEdge g src dst kind = (let e = (kind_code kind, src, dst) in
     if set_find e (sv_out g src) \<and> set_find e (sv_in g dst) then Some e else None)"

definition addSVFGEdge :: "svfg_edge \<Rightarrow> svfg \<Rightarrow> svfg option" where
  "addSVFGEdge e g = (if set_find e (sv_in g (edge_dst e)) \<or> set_find e (sv_out g (edge_src e)) then None
     else Some (g\<lparr>sv_in := (sv_in g)(edge_dst e := set_insert e (sv_in g (edge_dst e))),
       sv_out := (sv_out g)(edge_src e := set_insert e (sv_out g (edge_src e)))\<rparr>))"

definition removeSVFGEdge :: "svfg_edge \<Rightarrow> svfg \<Rightarrow> svfg option" where
  "removeSVFGEdge e g = (if \<not> set_find e (sv_in g (edge_dst e)) \<or> \<not> set_find e (sv_out g (edge_src e)) then None
     else Some (g\<lparr>sv_in := (sv_in g)(edge_dst e := set_erase e (sv_in g (edge_dst e))),
       sv_out := (sv_out g)(edge_src e := set_erase e (sv_out g (edge_src e)))\<rparr>))"

section \<open>The builder\<close>

text \<open>The options of the command line are the last three fields.\<close>

record vf_env =
  ve_prog :: program
  ve_locks :: lock_analysis
  ve_mhp :: "inst \<Rightarrow> inst \<Rightarrow> bool"
  ve_pcg :: "inst \<Rightarrow> inst \<Rightarrow> bool"
  ve_getPts :: "nat \<Rightarrow> nat set"
  ve_alias :: "nat \<Rightarrow> nat \<Rightarrow> alias_result"
  UsePCG :: bool
  ReadPrecisionTDEdge :: bool
  AddModelFlag :: nat

definition ADDEDGE_NOEDGE :: nat where "ADDEDGE_NOEDGE = 0"
definition ADDEDGE_NONSPARSE :: nat where "ADDEDGE_NONSPARSE = 1"
definition ADDEDGE_NOMHP :: nat where "ADDEDGE_NOMHP = 3"
definition ADDEDGE_NOALIAS :: nat where "ADDEDGE_NOALIAS = 4"
definition ADDEDGE_NOLOCK :: nat where "ADDEDGE_NOLOCK = 5"
definition ADDEDGE_NORP :: nat where "ADDEDGE_NORP = 6"

record mta_svfg =
  mv_svfg :: svfg
  stnodeSet :: "vnode std_set"
  ldnodeSet :: "vnode std_set"
  recordedges :: "(vnode \<times> vnode) std_set"
  edge2pts :: "vnode \<times> vnode \<rightharpoonup> nat set"
  prevset :: "vnode \<rightharpoonup> vnode set"
  succset :: "vnode \<rightharpoonup> vnode set"
  headmap :: "vnode \<rightharpoonup> bool"
  tailmap :: "vnode \<rightharpoonup> bool"
  pairheadmap :: "vnode \<times> cxt_stmt std_set \<rightharpoonup> bool"
  pairtailmap :: "vnode \<times> cxt_stmt std_set \<rightharpoonup> bool"
  numOfNewSVFGEdges :: "32 word"
  numOfRemovedSVFGEdges :: "32 word"
  numOfRemovedPTS :: "32 word"

definition mta_svfg_new :: "svfg \<Rightarrow> mta_svfg" where
  "mta_svfg_new g = \<lparr>mv_svfg = g, stnodeSet = [], ldnodeSet = [], recordedges = [], edge2pts = Map.empty,
     prevset = Map.empty, succset = Map.empty, headmap = Map.empty, tailmap = Map.empty,
     pairheadmap = Map.empty, pairtailmap = Map.empty, numOfNewSVFGEdges = 0, numOfRemovedSVFGEdges = 0,
     numOfRemovedPTS = 0\<rparr>"

definition collect_node :: "vnode \<Rightarrow> mta_svfg \<Rightarrow> mta_svfg" where
  "collect_node n s = (let s1 = (if isLoad (mv_svfg s) n \<and> sv_inst (mv_svfg s) n \<noteq> None
       then s\<lparr>ldnodeSet := set_insert n (ldnodeSet s)\<rparr> else s)
     in if isStore (mv_svfg s1) n \<and> sv_inst (mv_svfg s1) n \<noteq> None
       then s1\<lparr>stnodeSet := set_insert n (stnodeSet s1)\<rparr> else s1)"

definition collectLoadStoreSVFGNodes :: "mta_svfg \<Rightarrow> mta_svfg" where
  "collectLoadStoreSVFGNodes s = fold collect_node (sv_ids (mv_svfg s)) s"

definition recordEdge :: "vnode \<Rightarrow> vnode \<Rightarrow> nat set \<Rightarrow> mta_svfg \<Rightarrow> bool \<times> mta_svfg" where
  "recordEdge id1 id2 pts s = (let pair = (id1, id2) in
     if \<not> set_find pair (recordedges s)
     then (True, s\<lparr>recordedges := set_insert pair (recordedges s), edge2pts := (edge2pts s)(pair \<mapsto> pts)\<rparr>)
     else (False, s\<lparr>edge2pts := (edge2pts s)(pair \<mapsto> map_at {} (edge2pts s) pair \<union> pts)\<rparr>))"

definition recordAddingEdge :: "vnode \<Rightarrow> vnode \<Rightarrow> nat set \<Rightarrow> mta_svfg \<Rightarrow> bool \<times> mta_svfg" where
  "recordAddingEdge id1 id2 pts s = recordEdge id1 id2 pts s"

definition recordRemovingEdge :: "vnode \<Rightarrow> vnode \<Rightarrow> nat set \<Rightarrow> mta_svfg \<Rightarrow> bool \<times> mta_svfg" where
  "recordRemovingEdge id1 id2 pts s = recordEdge id1 id2 pts s"

definition upd_svfg :: "svfg \<Rightarrow> mta_svfg \<Rightarrow> mta_svfg" where
  "upd_svfg g s = s\<lparr>mv_svfg := g\<rparr>"

definition addTDEdges :: "vnode \<Rightarrow> vnode \<Rightarrow> nat set \<Rightarrow> mta_svfg \<Rightarrow> mta_svfg option" where
  "addTDEdges src dst pts s = (let g = mv_svfg s in
     if src \<notin> set (sv_ids g) \<or> dst \<notin> set (sv_ids g) then None else
     case hasThreadSVFGEdge g src dst TheadMHPIndirect of
       Some e \<Rightarrow> Some (upd_svfg (g\<lparr>sv_pts := (sv_pts g)(e := sv_pts g e \<union> pts)\<rparr>) s)
     | None \<Rightarrow> (let e = (kind_code TheadMHPIndirect, src, dst); s1 = s\<lparr>numOfNewSVFGEdges := numOfNewSVFGEdges s + 1\<rparr>
         in map_option (\<lambda>g. upd_svfg g s1) (addSVFGEdge e (g\<lparr>sv_pts := (sv_pts g)(e := {} \<union> pts)\<rparr>))))"

text \<open>Adding all recorded edges, from the least pair on.\<close>

definition performAddingMHPEdges :: "mta_svfg \<Rightarrow> mta_svfg option" where
  "performAddingMHPEdges s = foldM (\<lambda>p s. addTDEdges (fst p) (snd p) (map_at {} (edge2pts s) p) s) (recordedges s)
     (s\<lparr>numOfNewSVFGEdges := of_nat (length (recordedges s)), recordedges := []\<rparr>)"

section \<open>Stores and loads around a node\<close>

definition prev_edge :: "vnode set \<Rightarrow> svfg_edge \<Rightarrow> vnode set \<Rightarrow> vnode set" where
  "prev_edge visited e w = (if isIndirectVFGEdge e \<and> edge_src e \<notin> visited then insert (edge_src e) w else w)"

definition prev_step :: "svfg \<Rightarrow> vnode set \<times> vnode set \<times> vnode set \<Rightarrow> vnode set \<times> vnode set \<times> vnode set" where
  "prev_step g = (\<lambda>(worklist, visited, prev). let node = Min worklist; worklist = worklist - {node};
     visited = insert node visited in
     if isStore g node then (worklist, visited, insert node prev)
     else (fold (prev_edge visited) (sv_in g node) worklist, visited, prev))"

definition prev_nodes :: "svfg \<Rightarrow> vnode \<Rightarrow> vnode set option" where
  "prev_nodes g n = map_option (\<lambda>(_, _, prev). prev) (while_option (\<lambda>(worklist, _). worklist \<noteq> {})
     (prev_step g) (fold (prev_edge {}) (sv_in g n) {}, {}, {}))"

definition getPrevNodes :: "vnode \<Rightarrow> mta_svfg \<Rightarrow> (vnode set \<times> mta_svfg) option" where
  "getPrevNodes n s = (case prevset s n of Some prev \<Rightarrow> Some (prev, s)
     | None \<Rightarrow> map_option (\<lambda>prev. (prev, s\<lparr>prevset := (prevset s)(n \<mapsto> prev)\<rparr>)) (prev_nodes (mv_svfg s) n))"

text \<open>The two overloadings of \<open>getSuccNodes\<close> differ in the edges they follow.\<close>

definition succ_edge :: "(svfg_edge \<Rightarrow> bool) \<Rightarrow> vnode set \<Rightarrow> svfg_edge \<Rightarrow> vnode set \<Rightarrow> vnode set" where
  "succ_edge follow visited e w =
     (if isIndirectVFGEdge e \<and> edge_dst e \<notin> visited \<and> follow e then insert (edge_dst e) w else w)"

definition succ_step :: "(svfg_edge \<Rightarrow> bool) \<Rightarrow> svfg \<Rightarrow> vnode set \<times> vnode set \<times> vnode set \<Rightarrow>
    vnode set \<times> vnode set \<times> vnode set" where
  "succ_step follow g = (\<lambda>(worklist, visited, succ). let node = Min worklist; worklist = worklist - {node};
     visited = insert node visited in
     if isStore g node \<or> isLoad g node then (worklist, visited, insert node succ)
     else (fold (succ_edge follow visited) (sv_out g node) worklist, visited, succ))"

definition succ_nodes :: "(svfg_edge \<Rightarrow> bool) \<Rightarrow> svfg \<Rightarrow> vnode \<Rightarrow> vnode set option" where
  "succ_nodes follow g n = map_option (\<lambda>(_, _, succ). succ) (while_option (\<lambda>(worklist, _). worklist \<noteq> {})
     (succ_step follow g) (fold (succ_edge follow {}) (sv_out g n) {}, {}, {}))"

definition getSuccNodes :: "vnode \<Rightarrow> mta_svfg \<Rightarrow> (vnode set \<times> mta_svfg) option" where
  "getSuccNodes n s = (case succset s n of Some succ \<Rightarrow> Some (succ, s)
     | None \<Rightarrow> map_option (\<lambda>succ. (succ, s\<lparr>succset := (succset s)(n \<mapsto> succ)\<rparr>))
         (succ_nodes (\<lambda>_. True) (mv_svfg s) n))"

definition getSuccNodes_obj :: "svfg \<Rightarrow> vnode \<Rightarrow> nat \<Rightarrow> vnode set option" where
  "getSuccNodes_obj g n obj = succ_nodes (\<lambda>e. obj \<in> sv_pts g e) g n"

section \<open>First and last accesses of a span\<close>

text \<open>A node without an instruction belongs to a global; the lock analysis knows no statement of it.\<close>

definition same_span :: "vf_env \<Rightarrow> inst option \<Rightarrow> inst option \<Rightarrow> bool option" where
  "same_span E i j = (case (i, j) of (Some i, Some j) \<Rightarrow> isInSameSpan (ve_locks E) i j | _ \<Rightarrow> Some False)"

definition one_in_span :: "vf_env \<Rightarrow> cxt_stmt std_set \<Rightarrow> inst option \<Rightarrow> bool" where
  "one_in_span E lspan i = (case i of None \<Rightarrow> False | Some i \<Rightarrow> hasOneCxtInLockSpan (ve_locks E) i lspan)"

text \<open>
  The loops over the previous stores and over the next stores and loads: the answer is \<open>False\<close> at the
  first one that is in the span. A node that is no store (and for the next ones, no load) asserts; the
  flag \<open>skip\<close> says whether loads are skipped.
\<close>

fun scan_prev :: "svfg \<Rightarrow> (vnode \<Rightarrow> bool option) \<Rightarrow> vnode list \<Rightarrow> bool option" where
  "scan_prev g t [] = Some True"
| "scan_prev g t (m # ms) = (if \<not> isStore g m then None else
     case t m of None \<Rightarrow> None | Some b \<Rightarrow> if b then Some False else scan_prev g t ms)"

fun scan_succ :: "svfg \<Rightarrow> bool \<Rightarrow> (vnode \<Rightarrow> bool option) \<Rightarrow> vnode list \<Rightarrow> bool option" where
  "scan_succ g skip t [] = Some True"
| "scan_succ g skip t (m # ms) = (if \<not> isStore g m \<and> \<not> isLoad g m then None
     else if skip \<and> isLoad g m then scan_succ g skip t ms
     else case t m of None \<Rightarrow> None | Some b \<Rightarrow> if b then Some False else scan_succ g skip t ms)"

definition isHeadofSpan :: "vf_env \<Rightarrow> vnode \<Rightarrow> mta_svfg \<Rightarrow> (bool \<times> mta_svfg) option" where
  "isHeadofSpan E n s = (case headmap s n of Some b \<Rightarrow> Some (b, s) | None \<Rightarrow>
     Option.bind (getPrevNodes n s) (\<lambda>(prev, s). let g = mv_svfg s in
       map_option (\<lambda>b. (b, s\<lparr>headmap := (headmap s)(n \<mapsto> b)\<rparr>))
         (scan_prev g (\<lambda>m. same_span E (sv_inst g m) (sv_inst g n)) (sorted_list_of_set prev))))"

definition isTailofSpan :: "vf_env \<Rightarrow> vnode \<Rightarrow> mta_svfg \<Rightarrow> (bool \<times> mta_svfg) option" where
  "isTailofSpan E n s = (if \<not> isStore (mv_svfg s) n then None else
     case tailmap s n of Some b \<Rightarrow> Some (b, s) | None \<Rightarrow>
     Option.bind (getSuccNodes n s) (\<lambda>(succ, s). let g = mv_svfg s in
       map_option (\<lambda>b. (b, s\<lparr>tailmap := (tailmap s)(n \<mapsto> b)\<rparr>))
         (scan_succ g True (\<lambda>m. same_span E (sv_inst g m) (sv_inst g n)) (sorted_list_of_set succ))))"

text \<open>The overloadings for one span, and for the instructions of several spans.\<close>

definition isHeadofSpan_of :: "vf_env \<Rightarrow> vnode \<Rightarrow> cxt_stmt std_set \<Rightarrow> mta_svfg \<Rightarrow> (bool \<times> mta_svfg) option" where
  "isHeadofSpan_of E n lspan s = (case pairheadmap s (n, lspan) of Some b \<Rightarrow> Some (b, s) | None \<Rightarrow>
     Option.bind (getPrevNodes n s) (\<lambda>(prev, s). let g = mv_svfg s in
       map_option (\<lambda>b. (b, s\<lparr>pairheadmap := (pairheadmap s)((n, lspan) \<mapsto> b)\<rparr>))
         (scan_prev g (\<lambda>m. Some (one_in_span E lspan (sv_inst g m))) (sorted_list_of_set prev))))"

definition isTailofSpan_of :: "vf_env \<Rightarrow> vnode \<Rightarrow> cxt_stmt std_set \<Rightarrow> mta_svfg \<Rightarrow> (bool \<times> mta_svfg) option" where
  "isTailofSpan_of E n lspan s = (if \<not> isStore (mv_svfg s) n then None else
     case pairtailmap s (n, lspan) of Some b \<Rightarrow> Some (b, s) | None \<Rightarrow>
     Option.bind (getSuccNodes n s) (\<lambda>(succ, s). let g = mv_svfg s in
       map_option (\<lambda>b. (b, s\<lparr>pairtailmap := (pairtailmap s)((n, lspan) \<mapsto> b)\<rparr>))
         (scan_succ g True (\<lambda>m. Some (one_in_span E lspan (sv_inst g m))) (sorted_list_of_set succ))))"

definition isHeadofSpan_in :: "vnode \<Rightarrow> inst option set \<Rightarrow> mta_svfg \<Rightarrow> (bool \<times> mta_svfg) option" where
  "isHeadofSpan_in n mergespan s = Option.bind (getPrevNodes n s) (\<lambda>(prev, s). let g = mv_svfg s in
     map_option (\<lambda>b. (b, s)) (scan_prev g (\<lambda>m. Some (sv_inst g m \<in> mergespan)) (sorted_list_of_set prev)))"

definition isTailofSpan_in :: "vnode \<Rightarrow> inst option set \<Rightarrow> mta_svfg \<Rightarrow> (bool \<times> mta_svfg) option" where
  "isTailofSpan_in n mergespan s = Option.bind (getSuccNodes n s) (\<lambda>(succ, s). let g = mv_svfg s in
     map_option (\<lambda>b. (b, s)) (scan_succ g False (\<lambda>m. Some (sv_inst g m \<in> mergespan)) (sorted_list_of_set succ)))"

section \<open>Adding edges\<close>

text \<open>\<open>isTailofSpan(n1) && isHeadofSpan(n2)\<close>, and the edge that it guards.\<close>

definition tail_head :: "vf_env \<Rightarrow> vnode \<Rightarrow> vnode \<Rightarrow> mta_svfg \<Rightarrow> (bool \<times> mta_svfg) option" where
  "tail_head E n1 n2 s = Option.bind (isTailofSpan E n1 s) (\<lambda>(b, s). if b then isHeadofSpan E n2 s else Some (False, s))"

definition guarded_edge :: "vf_env \<Rightarrow> vnode \<Rightarrow> vnode \<Rightarrow> nat set \<Rightarrow> mta_svfg \<Rightarrow> mta_svfg option" where
  "guarded_edge E n1 n2 pts s = Option.bind (tail_head E n1 n2 s)
     (\<lambda>(b, s). if b then addTDEdges n1 n2 pts s else Some s)"

definition protected_pair :: "vf_env \<Rightarrow> inst \<Rightarrow> inst \<Rightarrow> bool option" where
  "protected_pair E i1 i2 = (if ADDEDGE_NOLOCK \<noteq> AddModelFlag E
     then isProtectedByCommonLock (ve_prog E) (ve_locks E) i1 i2 else Some False)"

text \<open>The checks that both handlers make first: \<open>False\<close> when they return at once.\<close>

definition mhp_alias :: "vf_env \<Rightarrow> inst \<Rightarrow> inst \<Rightarrow> nat \<Rightarrow> nat \<Rightarrow> bool" where
  "mhp_alias E i1 i2 p q \<longleftrightarrow> \<not> (ADDEDGE_NOMHP \<noteq> AddModelFlag E \<and> \<not> ve_mhp E i1 i2) \<and>
     \<not> (ADDEDGE_NOALIAS \<noteq> AddModelFlag E \<and> \<not> alias_bool (ve_alias E p q))"

definition handleStoreLoad :: "vf_env \<Rightarrow> vnode \<Rightarrow> vnode \<Rightarrow> mta_svfg \<Rightarrow> mta_svfg option" where
  "handleStoreLoad E n1 n2 s = (let g = mv_svfg s in
     case (sv_inst g n1, sv_inst g n2) of (Some i1, Some i2) \<Rightarrow>
       if \<not> mhp_alias E i1 i2 (sv_dst g n1) (sv_src g n2) then Some s
       else (let pts = ve_getPts E (sv_dst g n1) \<inter> ve_getPts E (sv_src g n2) in
         Option.bind (protected_pair E i1 i2) (\<lambda>p. if p then guarded_edge E n1 n2 pts s else addTDEdges n1 n2 pts s))
     | _ \<Rightarrow> None)"

definition handleStoreStore :: "vf_env \<Rightarrow> vnode \<Rightarrow> vnode \<Rightarrow> mta_svfg \<Rightarrow> mta_svfg option" where
  "handleStoreStore E n1 n2 s = (let g = mv_svfg s in
     case (sv_inst g n1, sv_inst g n2) of (Some i1, Some i2) \<Rightarrow>
       if \<not> mhp_alias E i1 i2 (sv_dst g n1) (sv_dst g n2) then Some s
       else (let pts = ve_getPts E (sv_dst g n1) \<inter> ve_getPts E (sv_dst g n2) in
         Option.bind (protected_pair E i1 i2) (\<lambda>p.
           if p then Option.bind (guarded_edge E n1 n2 pts s) (guarded_edge E n2 n1 pts)
           else Option.bind (addTDEdges n1 n2 pts s) (addTDEdges n2 n1 pts)))
     | _ \<Rightarrow> None)"

definition handleStoreLoadNonSparse :: "vf_env \<Rightarrow> vnode \<Rightarrow> vnode \<Rightarrow> mta_svfg \<Rightarrow> mta_svfg option" where
  "handleStoreLoadNonSparse E n1 n2 s = (let g = mv_svfg s in
     addTDEdges n1 n2 (ve_getPts E (sv_dst g n1) \<inter> ve_getPts E (sv_src g n2)) s)"

definition handleStoreStoreNonSparse :: "vf_env \<Rightarrow> vnode \<Rightarrow> vnode \<Rightarrow> mta_svfg \<Rightarrow> mta_svfg option" where
  "handleStoreStoreNonSparse E n1 n2 s = (let g = mv_svfg s;
       pts = ve_getPts E (sv_dst g n1) \<inter> ve_getPts E (sv_dst g n2)
     in Option.bind (addTDEdges n1 n2 pts s) (addTDEdges n2 n1 pts))"

text \<open>The bodies of the two inner loops of \<open>connectMHPEdges\<close>.\<close>

definition either_parallel :: "vf_env \<Rightarrow> inst option \<Rightarrow> inst option \<Rightarrow> bool option" where
  "either_parallel E i1 i2 = (case (i1, i2) of
     (Some i1, Some i2) \<Rightarrow> Some (ve_pcg E i1 i2 \<or> ve_mhp E i1 i2) | _ \<Rightarrow> None)"

definition connect_load :: "vf_env \<Rightarrow> vnode \<Rightarrow> vnode \<Rightarrow> mta_svfg \<Rightarrow> mta_svfg option" where
  "connect_load E n1 n2 s = (let g = mv_svfg s in
     if ADDEDGE_NONSPARSE = AddModelFlag E then
       (if UsePCG E then Option.bind (either_parallel E (sv_inst g n1) (sv_inst g n2))
          (\<lambda>b. if b then handleStoreLoadNonSparse E n1 n2 s else Some s)
        else handleStoreLoadNonSparse E n1 n2 s)
     else handleStoreLoad E n1 n2 s)"

definition connect_store :: "vf_env \<Rightarrow> vnode \<Rightarrow> vnode \<Rightarrow> mta_svfg \<Rightarrow> mta_svfg option" where
  "connect_store E n1 n2 s = (let g = mv_svfg s in
     if ADDEDGE_NONSPARSE = AddModelFlag E then
       (if UsePCG E then Option.bind (either_parallel E (sv_inst g n1) (sv_inst g n2))
          (\<lambda>b. if b then handleStoreStoreNonSparse E n1 n2 s else Some s)
        else handleStoreStoreNonSparse E n1 n2 s)
     else handleStoreStore E n1 n2 s)"

fun connect_pairs :: "vf_env \<Rightarrow> vnode list \<Rightarrow> vnode list \<Rightarrow> mta_svfg \<Rightarrow> mta_svfg option" where
  "connect_pairs E [] lds s = Some s"
| "connect_pairs E (n1 # sts) lds s = Option.bind (foldM (connect_load E n1) lds s) (\<lambda>s.
     Option.bind (foldM (connect_store E n1) sts s) (connect_pairs E sts lds))"

section \<open>Removing edges\<close>

text \<open>The edges of \<open>n2\<close> to \<open>n1\<close> lose the objects for which every access after \<open>n1\<close> is one after \<open>n2\<close>.\<close>

definition covered_objects :: "svfg \<Rightarrow> vnode \<Rightarrow> vnode \<Rightarrow> nat set \<Rightarrow> nat set option" where
  "covered_objects g n1 n2 pts = foldM (\<lambda>obj remove_pts.
     Option.bind (getSuccNodes_obj g n1 obj) (\<lambda>succ1. Option.bind (getSuccNodes_obj g n2 obj) (\<lambda>succ2.
       Some (if list_all (\<lambda>m. m \<in> succ2) (sorted_list_of_set succ1) then insert obj remove_pts else remove_pts))))
     (sorted_list_of_set pts) {}"

definition read_edge :: "vnode \<Rightarrow> svfg_edge \<Rightarrow> mta_svfg \<Rightarrow> mta_svfg option" where
  "read_edge n1 e s = (let g = mv_svfg s in
     if isIndirectVFGEdge e \<and> isStore g (edge_src e) then
       map_option (\<lambda>remove_pts. if remove_pts \<noteq> {} then snd (recordRemovingEdge (edge_src e) n1 remove_pts s) else s)
         (covered_objects g n1 (edge_src e) (sv_pts g e))
     else Some s)"

definition read_store :: "vnode \<Rightarrow> mta_svfg \<Rightarrow> mta_svfg option" where
  "read_store n1 s = foldM (read_edge n1) (sv_in (mv_svfg s) n1) s"

definition strip_edge :: "vnode \<Rightarrow> nat set \<Rightarrow> svfg_edge \<Rightarrow> mta_svfg \<times> svfg_edge std_set \<Rightarrow> mta_svfg \<times> svfg_edge std_set" where
  "strip_edge n2 remove_pts e = (\<lambda>(s, removed). if isIndirectVFGEdge e \<and> edge_dst e = n2 then
     (let g = mv_svfg s; gone = sv_pts g e \<inter> remove_pts; pts = sv_pts g e - gone;
          s = upd_svfg (g\<lparr>sv_pts := (sv_pts g)(e := pts)\<rparr>) (s\<lparr>numOfRemovedPTS := numOfRemovedPTS s + of_nat (card gone)\<rparr>)
      in (s, if pts = {} then set_insert e removed else removed)) else (s, removed))"

definition drop_edge :: "svfg_edge \<Rightarrow> mta_svfg \<Rightarrow> mta_svfg option" where
  "drop_edge e s = map_option (\<lambda>g. upd_svfg g (s\<lparr>numOfRemovedSVFGEdges := numOfRemovedSVFGEdges s + 1\<rparr>))
     (removeSVFGEdge e (mv_svfg s))"

definition remove_recorded :: "vnode \<times> vnode \<Rightarrow> mta_svfg \<Rightarrow> mta_svfg option" where
  "remove_recorded p s = (let g = mv_svfg s; n1 = fst p; n2 = snd p; remove_pts = map_at {} (edge2pts s) p in
     if n1 \<notin> set (sv_ids g) \<or> n2 \<notin> set (sv_ids g) \<or> sv_out g n1 = [] \<or> sv_in g n2 = [] then None
     else (case fold (strip_edge n2 remove_pts) (sv_out g n1) (s, []) of (s, removed) \<Rightarrow> foldM drop_edge removed s))"

definition performRemovingMHPEdges :: "mta_svfg \<Rightarrow> mta_svfg option" where
  "performRemovingMHPEdges s = foldM remove_recorded (recordedges s) (s\<lparr>recordedges := []\<rparr>)"

definition readPrecision :: "mta_svfg \<Rightarrow> mta_svfg option" where
  "readPrecision s = Option.bind (foldM read_store (stnodeSet s) (s\<lparr>recordedges := [], edge2pts := Map.empty\<rparr>))
     performRemovingMHPEdges"

section \<open>The whole construction\<close>

definition connectMHPEdges :: "vf_env \<Rightarrow> mta_svfg \<Rightarrow> mta_svfg option" where
  "connectMHPEdges E s = (let s = (collectLoadStoreSVFGNodes s)\<lparr>recordedges := [], edge2pts := Map.empty\<rparr> in
     Option.bind (connect_pairs E (stnodeSet s) (ldnodeSet s) s) (\<lambda>s.
       if ReadPrecisionTDEdge E \<and> ADDEDGE_NORP \<noteq> AddModelFlag E then readPrecision s else Some s))"

definition createSVFG :: "vf_env \<Rightarrow> mta_svfg \<Rightarrow> mta_svfg option" where
  "createSVFG E s = (if ADDEDGE_NOEDGE \<noteq> AddModelFlag E then connectMHPEdges E s else Some s)"

end
