(* ===== verification/ThreadVFResult.thy ===== *)
theory ThreadVFResult
  imports ThreadVF
begin

text \<open>
  What \<open>MTASVFGBuilder\<close> computes: the stores and loads found around a node, the edges between threads
  that are added, and the edges that the read precision step removes.
\<close>

section \<open>Walks over the graph\<close>

definition walk_step :: "(vnode \<Rightarrow> bool) \<Rightarrow> (vnode \<Rightarrow> vnode set) \<Rightarrow> vnode set \<times> vnode set \<times> vnode set \<Rightarrow>
    vnode set \<times> vnode set \<times> vnode set" where
  "walk_step stop nxt = (\<lambda>(w, v, r). let x = Min w; w = w - {x}; v = insert x v in
     if stop x then (w, v, insert x r) else (w \<union> (nxt x - v), v, r))"

definition walk_succ :: "(vnode \<Rightarrow> bool) \<Rightarrow> (vnode \<Rightarrow> vnode set) \<Rightarrow> vnode \<Rightarrow> vnode set" where
  "walk_succ stop nxt x = (if stop x then {} else nxt x)"

definition walk_inv :: "(vnode \<Rightarrow> bool) \<Rightarrow> (vnode \<Rightarrow> vnode set) \<Rightarrow> vnode set \<times> vnode set \<times> vnode set \<Rightarrow> bool" where
  "walk_inv stop nxt = (\<lambda>(w, v, r). (\<forall>x. finite (nxt x)) \<and> finite w \<and> w \<inter> v = {} \<and> r = {x \<in> v. stop x})"

interpretation around: graph_search "walk_succ stop nxt" "\<lambda>_. False" fst "\<lambda>(w, v, r). v" "\<lambda>_. False" "\<lambda>_. 0::nat"
  "\<lambda>(w, _). w \<noteq> {}" "walk_step stop nxt" "walk_inv stop nxt"
proof unfold_locales
  fix s :: "vnode set \<times> vnode set \<times> vnode set"
  assume i: "walk_inv stop nxt s" and g: "case s of (w, _) \<Rightarrow> w \<noteq> {}"
  obtain w v r where s: "s = (w, v, r)" by (cases s)
  have fin: "finite w" "w \<noteq> {}" "w \<inter> v = {}" "\<forall>x. finite (nxt x)" "r = {x \<in> v. stop x}"
    using i g by (auto simp: s walk_inv_def)
  have x: "Min w \<in> w" using fin by simp
  then have x': "Min w \<notin> v" using fin by blast
  show "walk_inv stop nxt (walk_step stop nxt s)"
    using fin by (auto simp: s walk_step_def walk_inv_def Let_def)
  show "(case walk_step stop nxt s of (w, v, r) \<Rightarrow> v) \<union> fst (walk_step stop nxt s) \<subseteq>
      (case s of (w, v, r) \<Rightarrow> v) \<union> fst s \<union> (\<Union>x\<in>fst s. walk_succ stop nxt x)"
  proof -
    have "nxt (Min w) \<subseteq> (\<Union>x\<in>w. walk_succ stop nxt x)" if "\<not> stop (Min w)"
      using that x by (auto simp: walk_succ_def)
    then show ?thesis using x by (auto simp: s walk_step_def Let_def)
  qed
  show "(case s of (w, v, r) \<Rightarrow> v) \<subset> (case walk_step stop nxt s of (w, v, r) \<Rightarrow> v) \<or>
      (case walk_step stop nxt s of (w, v, r) \<Rightarrow> v) = (case s of (w, v, r) \<Rightarrow> v) \<and> (0::nat) < 0"
    using x' by (auto simp: s walk_step_def Let_def)
  show "(case s of (w, v, r) \<Rightarrow> v) \<union> fst s \<subseteq> (case walk_step stop nxt s of (w, v, r) \<Rightarrow> v) \<union> fst (walk_step stop nxt s)"
    by (auto simp: s walk_step_def Let_def)
  show "\<not> False \<and> walk_succ stop nxt x \<subseteq> (case walk_step stop nxt s of (w, v, r) \<Rightarrow> v) \<union> fst (walk_step stop nxt s)"
    if "x \<in> (case walk_step stop nxt s of (w, v, r) \<Rightarrow> v)" "x \<notin> (case s of (w, v, r) \<Rightarrow> v)" for x
    using that by (auto simp: s walk_step_def walk_succ_def Let_def split: if_splits)
qed auto

definition first_stops :: "(vnode \<Rightarrow> bool) \<Rightarrow> (vnode \<Rightarrow> vnode set) \<Rightarrow> vnode set \<Rightarrow> vnode set" where
  "first_stops stop nxt R = {x \<in> reach (walk_succ stop nxt) R. stop x}"

lemma walk_result:
  assumes "\<forall>x. finite (nxt x)" and "finite (reach (walk_succ stop nxt) R)"
  shows "map_option (\<lambda>(_, _, r). r) (while_option (\<lambda>(w, _). w \<noteq> {}) (walk_step stop nxt) (R, {}, {})) =
    Some (first_stops stop nxt R)"
proof -
  have "finite R" using assms(2) by (rule rev_finite_subset) auto
  then have i: "walk_inv stop nxt (R, {}, {})" using assms(1) by (simp add: walk_inv_def)
  obtain t where t: "while_option (\<lambda>(w, _). w \<noteq> {}) (walk_step stop nxt) (R, {}, {}) = Some t"
    using around.search_terminates [of stop nxt R "(R, {}, {})"] assms(2) i by auto
  have "walk_inv stop nxt t \<and> (case t of (w, v, r) \<Rightarrow> v) = reach (walk_succ stop nxt) R"
    using around.search_result [of stop nxt "(R, {}, {})" t R] t i by simp
  then show ?thesis using t by (auto simp: walk_inv_def first_stops_def split: prod.splits)
qed

lemma first_stops_mono:
  assumes "\<And>x. nxt x \<subseteq> nxt' x" "R \<subseteq> R'"
  shows "first_stops stop nxt R \<subseteq> first_stops stop nxt' R'"
proof -
  have "reach (walk_succ stop nxt) R \<subseteq> reach (walk_succ stop nxt') R'"
  proof (rule reach_least)
    show "y \<in> reach (walk_succ stop nxt') R'" if "x \<in> reach (walk_succ stop nxt') R'" "y \<in> walk_succ stop nxt x" for x y
      using that assms(1) [of x] by (intro reach_step [OF that(1)]) (auto simp: walk_succ_def split: if_splits)
  qed (use assms(2) in auto)
  then show ?thesis by (auto simp: first_stops_def)
qed

section \<open>Stores before and accesses after a node\<close>

definition svfg_ok :: "svfg \<Rightarrow> bool" where
  "svfg_ok g \<longleftrightarrow> (\<forall>n. std_set_ok (sv_in g n) \<and> std_set_ok (sv_out g n) \<and>
     (\<forall>e\<in>set (sv_in g n). edge_dst e = n \<and> edge_src e \<in> set (sv_ids g) \<and> e \<in> set (sv_out g (edge_src e))) \<and>
     (\<forall>e\<in>set (sv_out g n). edge_src e = n \<and> edge_dst e \<in> set (sv_ids g) \<and> e \<in> set (sv_in g (edge_dst e))))"

lemma svfg_ok_dest:
  assumes "svfg_ok g"
  shows "std_set_ok (sv_in g n)" "std_set_ok (sv_out g n)"
    "e \<in> set (sv_in g n) \<Longrightarrow> edge_dst e = n" "e \<in> set (sv_in g n) \<Longrightarrow> edge_src e \<in> set (sv_ids g)"
    "e \<in> set (sv_in g n) \<Longrightarrow> e \<in> set (sv_out g (edge_src e))"
    "e \<in> set (sv_out g n) \<Longrightarrow> edge_src e = n" "e \<in> set (sv_out g n) \<Longrightarrow> edge_dst e \<in> set (sv_ids g)"
    "e \<in> set (sv_out g n) \<Longrightarrow> e \<in> set (sv_in g (edge_dst e))"
  using assms unfolding svfg_ok_def by blast+

definition sources :: "svfg \<Rightarrow> vnode \<Rightarrow> vnode set" where
  "sources g n = edge_src ` {e \<in> set (sv_in g n). isIndirectVFGEdge e}"

definition targets :: "(svfg_edge \<Rightarrow> bool) \<Rightarrow> svfg \<Rightarrow> vnode \<Rightarrow> vnode set" where
  "targets follow g n = edge_dst ` {e \<in> set (sv_out g n). isIndirectVFGEdge e \<and> follow e}"

lemma fold_prev_edge:
  "fold (prev_edge v) es w = w \<union> (edge_src ` {e \<in> set es. isIndirectVFGEdge e} - v)"
  by (induction es arbitrary: w) (auto simp: prev_edge_def)

lemma fold_succ_edge:
  "fold (succ_edge follow v) es w = w \<union> (edge_dst ` {e \<in> set es. isIndirectVFGEdge e \<and> follow e} - v)"
  by (induction es arbitrary: w) (auto simp: succ_edge_def)

lemma prev_step_walk: "prev_step g = walk_step (isStore g) (sources g)"
  by (auto simp: fun_eq_iff prev_step_def walk_step_def fold_prev_edge sources_def Let_def)

lemma succ_step_walk: "succ_step follow g = walk_step (\<lambda>n. isStore g n \<or> isLoad g n) (targets follow g)"
  by (auto simp: fun_eq_iff succ_step_def walk_step_def fold_succ_edge targets_def Let_def)

definition stores_before :: "svfg \<Rightarrow> vnode \<Rightarrow> vnode set" where
  "stores_before g n = first_stops (isStore g) (sources g) (sources g n)"

definition accesses_after :: "(svfg_edge \<Rightarrow> bool) \<Rightarrow> svfg \<Rightarrow> vnode \<Rightarrow> vnode set" where
  "accesses_after follow g n = first_stops (\<lambda>n. isStore g n \<or> isLoad g n) (targets follow g) (targets follow g n)"

lemma walk_finite:
  assumes "\<And>x. nxt x \<subseteq> set ids" "R \<subseteq> set ids"
  shows "finite (reach (walk_succ stop nxt) R)" "\<forall>x. finite (nxt x)"
proof -
  have "reach (walk_succ stop nxt) R \<subseteq> set ids"
    by (rule reach_least) (use assms in \<open>auto simp: walk_succ_def split: if_splits\<close>)
  then show "finite (reach (walk_succ stop nxt) R)" by (rule finite_subset) simp
  show "\<forall>x. finite (nxt x)" using assms(1) by (blast intro: finite_subset)
qed

lemma sources_ids: "svfg_ok g \<Longrightarrow> sources g n \<subseteq> set (sv_ids g)"
  by (auto simp: sources_def dest: svfg_ok_dest)

lemma targets_ids: "svfg_ok g \<Longrightarrow> targets follow g n \<subseteq> set (sv_ids g)"
  by (auto simp: targets_def dest: svfg_ok_dest)

lemma prev_nodes_result:
  assumes "svfg_ok g"
  shows "prev_nodes g n = Some (stores_before g n)"
proof -
  note f = walk_finite [where ids = "sv_ids g" and nxt = "sources g", OF sources_ids [OF assms] sources_ids [OF assms]]
  have "fold (prev_edge {}) (sv_in g n) {} = sources g n" by (simp add: fold_prev_edge sources_def)
  then show ?thesis unfolding prev_nodes_def prev_step_walk stores_before_def by (simp only: walk_result [OF f(2,1)])
qed

lemma succ_nodes_result:
  assumes "svfg_ok g"
  shows "succ_nodes follow g n = Some (accesses_after follow g n)"
proof -
  note f = walk_finite [where ids = "sv_ids g" and nxt = "targets follow g", OF targets_ids [OF assms] targets_ids [OF assms]]
  have "fold (succ_edge follow {}) (sv_out g n) {} = targets follow g n" by (simp add: fold_succ_edge targets_def)
  then show ?thesis unfolding succ_nodes_def succ_step_walk accesses_after_def by (simp only: walk_result [OF f(2,1)])
qed

lemma first_stops_finite:
  "(\<And>x. nxt x \<subseteq> set ids) \<Longrightarrow> R \<subseteq> set ids \<Longrightarrow> finite (first_stops stop nxt R)"
  using walk_finite(1) [of nxt ids R stop] by (simp add: first_stops_def)

lemma stores_before_props: "svfg_ok g \<Longrightarrow> finite (stores_before g n) \<and> (\<forall>m\<in>stores_before g n. isStore g m)"
  unfolding stores_before_def using sources_ids [of g]
  by (auto intro!: first_stops_finite [of _ "sv_ids g"]) (simp add: first_stops_def)

lemma accesses_after_props:
  "svfg_ok g \<Longrightarrow> finite (accesses_after follow g n) \<and> (\<forall>m\<in>accesses_after follow g n. isStore g m \<or> isLoad g m)"
  unfolding accesses_after_def using targets_ids [of g follow]
  by (auto intro!: first_stops_finite [of _ "sv_ids g"]) (simp add: first_stops_def)

section \<open>The edges between threads\<close>

definition td_edge :: "vnode \<Rightarrow> vnode \<Rightarrow> svfg_edge" where
  "td_edge a b = (kind_code TheadMHPIndirect, a, b)"

lemma td_edge_simps [simp]:
  "edge_src (td_edge a b) = a" "edge_dst (td_edge a b) = b" "isIndirectVFGEdge (td_edge a b)"
  "td_edge a b = td_edge c d \<longleftrightarrow> a = c \<and> b = d"
  by (auto simp: td_edge_def edge_src_def edge_dst_def isIndirectVFGEdge_def kind_code_def)

definition same_nodes :: "svfg \<Rightarrow> svfg \<Rightarrow> bool" where
  "same_nodes g h \<longleftrightarrow> sv_ids h = sv_ids g \<and> sv_kind h = sv_kind g \<and> sv_inst h = sv_inst g \<and>
     sv_src h = sv_src g \<and> sv_dst h = sv_dst g"

lemma same_nodes_store: "same_nodes g h \<Longrightarrow> isStore h = isStore g" "same_nodes g h \<Longrightarrow> isLoad h = isLoad g"
  by (auto simp: same_nodes_def isStore_def isLoad_def fun_eq_iff)

text \<open>The objects that both nodes access.\<close>

definition flow :: "vf_env \<Rightarrow> svfg \<Rightarrow> vnode \<Rightarrow> vnode \<Rightarrow> nat set" where
  "flow E g a b = ve_getPts E (sv_dst g a) \<inter> ve_getPts E (if isStore g b then sv_dst g b else sv_src g b)"

text \<open>\<open>h\<close> is \<open>g\<close> with an edge for each pair of \<open>A\<close>, or more objects on it if \<open>g\<close> has it already.\<close>

definition flows_added :: "vf_env \<Rightarrow> svfg \<Rightarrow> (vnode \<times> vnode) set \<Rightarrow> svfg \<Rightarrow> bool" where
  "flows_added E g A h \<longleftrightarrow> svfg_ok h \<and> same_nodes g h \<and>
     (\<forall>n. set (sv_in h n) = set (sv_in g n) \<union> {td_edge a n |a. (a, n) \<in> A}) \<and>
     (\<forall>n. set (sv_out h n) = set (sv_out g n) \<union> {td_edge n b |b. (n, b) \<in> A}) \<and>
     (\<forall>e. sv_pts h e = (if e \<in> (\<lambda>(a, b). td_edge a b) ` A
        then (if e \<in> set (sv_in g (edge_dst e)) then sv_pts g e else {}) \<union> flow E g (edge_src e) (edge_dst e)
        else sv_pts g e))"

lemma svfg_ok_add:
  assumes "svfg_ok g" "a \<in> set (sv_ids g)" "b \<in> set (sv_ids g)"
  shows "svfg_ok (g\<lparr>sv_in := (sv_in g)(b := set_insert (td_edge a b) (sv_in g b)),
    sv_out := (sv_out g)(a := set_insert (td_edge a b) (sv_out g a)), sv_pts := p\<rparr>)"
  using assms unfolding svfg_ok_def by auto

lemma flows_added_none: "svfg_ok g \<Longrightarrow> flows_added E g {} g"
  by (simp add: flows_added_def same_nodes_def)

lemma td_edge_image: "td_edge a b \<in> (\<lambda>(a, b). td_edge a b) ` A \<longleftrightarrow> (a, b) \<in> A"
  by auto

lemma addTDEdges_result:
  assumes g: "svfg_ok (mv_svfg s)" and ids: "a \<in> set (sv_ids (mv_svfg s))" "b \<in> set (sv_ids (mv_svfg s))"
  defines "e \<equiv> td_edge a b"
  shows "\<exists>h k. addTDEdges a b pts s = Some (s\<lparr>mv_svfg := h, numOfNewSVFGEdges := k\<rparr>) \<and> svfg_ok h \<and>
    same_nodes (mv_svfg s) h \<and>
    (\<forall>n. set (sv_in h n) = set (sv_in (mv_svfg s) n) \<union> (if n = b then {e} else {})) \<and>
    (\<forall>n. set (sv_out h n) = set (sv_out (mv_svfg s) n) \<union> (if n = a then {e} else {})) \<and>
    sv_pts h = (sv_pts (mv_svfg s))(e := (if e \<in> set (sv_in (mv_svfg s) b) then sv_pts (mv_svfg s) e else {}) \<union> pts)"
proof (cases "e \<in> set (sv_in (mv_svfg s) b)")
  case True
  then have "e \<in> set (sv_out (mv_svfg s) a)" using svfg_ok_dest(5) [OF g True] by (simp add: e_def)
  then have f: "hasThreadSVFGEdge (mv_svfg s) a b TheadMHPIndirect = Some e"
    using True by (simp add: hasThreadSVFGEdge_def Let_def set_find_def e_def td_edge_def)
  let ?h = "(mv_svfg s)\<lparr>sv_pts := (sv_pts (mv_svfg s))(e := sv_pts (mv_svfg s) e \<union> pts)\<rparr>"
  have "svfg_ok ?h" using g unfolding svfg_ok_def by simp
  moreover have "addTDEdges a b pts s = Some (s\<lparr>mv_svfg := ?h, numOfNewSVFGEdges := numOfNewSVFGEdges s\<rparr>)"
    using ids by (simp add: addTDEdges_def f upd_svfg_def Let_def)
  ultimately show ?thesis using True \<open>e \<in> set (sv_out (mv_svfg s) a)\<close>
    by (intro exI [of _ ?h] exI [of _ "numOfNewSVFGEdges s"] conjI) (auto simp: same_nodes_def)
next
  case False
  have o: "e \<notin> set (sv_out (mv_svfg s) a)" using svfg_ok_dest(8) [OF g, of e a] False by (auto simp: e_def)
  then have f: "hasThreadSVFGEdge (mv_svfg s) a b TheadMHPIndirect = None"
    by (simp add: hasThreadSVFGEdge_def Let_def set_find_def e_def td_edge_def)
  let ?h = "(mv_svfg s)\<lparr>sv_in := (sv_in (mv_svfg s))(b := set_insert e (sv_in (mv_svfg s) b)),
    sv_out := (sv_out (mv_svfg s))(a := set_insert e (sv_out (mv_svfg s) a)),
    sv_pts := (sv_pts (mv_svfg s))(e := {} \<union> pts)\<rparr>"
  have "addTDEdges a b pts s = Some (s\<lparr>mv_svfg := ?h, numOfNewSVFGEdges := numOfNewSVFGEdges s + 1\<rparr>)"
    using ids o False unfolding addTDEdges_def Let_def f
    by (simp add: addSVFGEdge_def upd_svfg_def set_find_def td_edge_def [symmetric] e_def)
  moreover have "svfg_ok ?h" using svfg_ok_add [OF g ids] by (simp add: e_def)
  ultimately show ?thesis using False
    by (intro exI [of _ ?h] exI [of _ "numOfNewSVFGEdges s + 1"] conjI) (auto simp: same_nodes_def)
qed

lemma flows_added_step:
  assumes "flows_added E g A (mv_svfg s)" "a \<in> set (sv_ids g)" "b \<in> set (sv_ids g)"
  shows "\<exists>h k. addTDEdges a b (flow E g a b) s = Some (s\<lparr>mv_svfg := h, numOfNewSVFGEdges := k\<rparr>) \<and>
    flows_added E g (insert (a, b) A) h"
proof -
  let ?h = "mv_svfg s"
  have ok: "svfg_ok ?h" and n: "same_nodes g ?h"
    and i: "\<And>n. set (sv_in ?h n) = set (sv_in g n) \<union> {td_edge a n |a. (a, n) \<in> A}"
    and o: "\<And>n. set (sv_out ?h n) = set (sv_out g n) \<union> {td_edge n b |b. (n, b) \<in> A}"
    and p: "\<And>e. sv_pts ?h e = (if e \<in> (\<lambda>(a, b). td_edge a b) ` A
        then (if e \<in> set (sv_in g (edge_dst e)) then sv_pts g e else {}) \<union> flow E g (edge_src e) (edge_dst e)
        else sv_pts g e)"
    using assms(1) unfolding flows_added_def by blast+
  have ids: "a \<in> set (sv_ids ?h)" "b \<in> set (sv_ids ?h)" using n assms(2,3) by (simp_all add: same_nodes_def)
  obtain h k where h: "addTDEdges a b (flow E g a b) s = Some (s\<lparr>mv_svfg := h, numOfNewSVFGEdges := k\<rparr>)"
      "svfg_ok h" "same_nodes ?h h"
      "\<And>n. set (sv_in h n) = set (sv_in ?h n) \<union> (if n = b then {td_edge a b} else {})"
      "\<And>n. set (sv_out h n) = set (sv_out ?h n) \<union> (if n = a then {td_edge a b} else {})"
      "sv_pts h = (sv_pts ?h)(td_edge a b := (if td_edge a b \<in> set (sv_in ?h b) then sv_pts ?h (td_edge a b) else {}) \<union> flow E g a b)"
    using addTDEdges_result [OF ok ids, of "flow E g a b"] by blast
  have "flows_added E g (insert (a, b) A) h"
    unfolding flows_added_def
  proof (intro conjI allI)
    show "same_nodes g h" using n h(3) by (simp add: same_nodes_def)
    show "set (sv_in h x) = set (sv_in g x) \<union> {td_edge c x |c. (c, x) \<in> insert (a, b) A}" for x
      unfolding h(4) i by auto
    show "set (sv_out h x) = set (sv_out g x) \<union> {td_edge x c |c. (x, c) \<in> insert (a, b) A}" for x
      unfolding h(5) o by auto
    show "sv_pts h e = (if e \<in> (\<lambda>(a, b). td_edge a b) ` insert (a, b) A
        then (if e \<in> set (sv_in g (edge_dst e)) then sv_pts g e else {}) \<union> flow E g (edge_src e) (edge_dst e)
        else sv_pts g e)" for e
    proof (cases "e = td_edge a b")
      case True
      have m: "td_edge a b \<in> set (sv_in ?h b) \<longleftrightarrow> td_edge a b \<in> set (sv_in g b) \<or> (a, b) \<in> A"
        unfolding i by auto
      show ?thesis unfolding True h(6) fun_upd_same m p td_edge_image td_edge_simps by auto
    next
      case False
      then show ?thesis unfolding h(6) by (simp add: p)
    qed
  qed (rule h(2))
  then show ?thesis using h(1) by blast
qed

section \<open>Heads and tails of spans\<close>

text \<open>The lock analysis can answer for all stores whether they share a span with \<open>n\<close>.\<close>

definition span_known :: "vf_env \<Rightarrow> svfg \<Rightarrow> vnode \<Rightarrow> bool" where
  "span_known E g n \<longleftrightarrow> (\<forall>m. isStore g m \<longrightarrow> same_span E (sv_inst g m) (sv_inst g n) \<noteq> None)"

text \<open>No store before, and no store after, is in the span, on the graph without flows between threads.\<close>

definition span_head :: "vf_env \<Rightarrow> svfg \<Rightarrow> vnode \<Rightarrow> bool" where
  "span_head E g n \<longleftrightarrow> (\<forall>m\<in>stores_before g n. same_span E (sv_inst g m) (sv_inst g n) = Some False)"

definition span_tail :: "vf_env \<Rightarrow> svfg \<Rightarrow> vnode \<Rightarrow> bool" where
  "span_tail E g n \<longleftrightarrow> (\<forall>m\<in>accesses_after (\<lambda>_. True) g n. isStore g m \<longrightarrow>
     same_span E (sv_inst g m) (sv_inst g n) = Some False)"

lemma scan_prev_result:
  assumes "\<forall>m\<in>set ms. isStore g m" "\<forall>m\<in>set ms. t m \<noteq> None"
  shows "scan_prev g t ms = Some (\<forall>m\<in>set ms. t m = Some False)"
  using assms by (induction ms) auto

lemma scan_succ_result:
  assumes "\<forall>m\<in>set ms. isStore g m \<or> isLoad g m" "\<forall>m\<in>set ms. isStore g m \<longrightarrow> t m \<noteq> None"
  shows "scan_succ g True t ms = Some (\<forall>m\<in>set ms. isStore g m \<longrightarrow> t m = Some False)"
  using assms by (induction ms) (auto simp: isStore_def isLoad_def)

text \<open>The caches hold answers for a graph with at least the edges of the first one, and the list of
  stores holds stores.\<close>

definition caches_ok :: "vf_env \<Rightarrow> svfg \<Rightarrow> mta_svfg \<Rightarrow> bool" where
  "caches_ok E g s \<longleftrightarrow>
     (\<forall>n S. prevset s n = Some S \<longrightarrow> stores_before g n \<subseteq> S \<and> finite S \<and> (\<forall>m\<in>S. isStore g m)) \<and>
     (\<forall>n S. succset s n = Some S \<longrightarrow> accesses_after (\<lambda>_. True) g n \<subseteq> S \<and> finite S \<and>
        (\<forall>m\<in>S. isStore g m \<or> isLoad g m)) \<and>
     (\<forall>n. headmap s n = Some True \<longrightarrow> span_head E g n) \<and>
     (\<forall>n. tailmap s n = Some True \<longrightarrow> span_tail E g n) \<and>
     (\<forall>n\<in>set (stnodeSet s). isStore g n)"

lemma flows_added_sources: "flows_added E g A h \<Longrightarrow> sources g n \<subseteq> sources h n"
  unfolding flows_added_def sources_def by blast

lemma flows_added_targets: "flows_added E g A h \<Longrightarrow> targets (\<lambda>_. True) g n \<subseteq> targets (\<lambda>_. True) h n"
  unfolding flows_added_def targets_def by blast

lemma flows_added_nodes:
  assumes "flows_added E g A h"
  shows "svfg_ok h" "same_nodes g h" "isStore h = isStore g" "isLoad h = isLoad g" "sv_inst h = sv_inst g"
    "sv_ids h = sv_ids g" "sv_src h = sv_src g" "sv_dst h = sv_dst g"
  using assms same_nodes_store [of g h] by (simp_all add: flows_added_def same_nodes_def)

lemma getPrevNodes_result:
  assumes f: "flows_added E g A (mv_svfg s)" and c: "caches_ok E g s"
  shows "\<exists>S p. getPrevNodes n s = Some (S, s\<lparr>prevset := p\<rparr>) \<and> stores_before g n \<subseteq> S \<and> finite S \<and>
    (\<forall>m\<in>S. isStore g m) \<and> caches_ok E g (s\<lparr>prevset := p\<rparr>)"
proof (cases "prevset s n")
  case (Some S)
  then have "getPrevNodes n s = Some (S, s\<lparr>prevset := prevset s\<rparr>)" by (simp add: getPrevNodes_def)
  then show ?thesis using c Some unfolding caches_ok_def by (intro exI [of _ S] exI [of _ "prevset s"]) simp
next
  case None
  note n = flows_added_nodes [OF f]
  let ?S = "stores_before (mv_svfg s) n"
  have "getPrevNodes n s = Some (?S, s\<lparr>prevset := (prevset s)(n \<mapsto> ?S)\<rparr>)"
    using None prev_nodes_result [OF n(1), of n] by (simp add: getPrevNodes_def)
  moreover have S: "stores_before g n \<subseteq> ?S \<and> finite ?S \<and> (\<forall>m\<in>?S. isStore g m)"
    using stores_before_props [OF n(1), of n] first_stops_mono [of "sources g" "sources (mv_svfg s)"]
      flows_added_sources [OF f] by (simp add: stores_before_def n(3))
  ultimately show ?thesis using c unfolding caches_ok_def
    by (intro exI [of _ ?S] exI [of _ "(prevset s)(n \<mapsto> ?S)"]) simp
qed

lemma getSuccNodes_result:
  assumes f: "flows_added E g A (mv_svfg s)" and c: "caches_ok E g s"
  shows "\<exists>S p. getSuccNodes n s = Some (S, s\<lparr>succset := p\<rparr>) \<and> accesses_after (\<lambda>_. True) g n \<subseteq> S \<and> finite S \<and>
    (\<forall>m\<in>S. isStore g m \<or> isLoad g m) \<and> caches_ok E g (s\<lparr>succset := p\<rparr>)"
proof (cases "succset s n")
  case (Some S)
  then have "getSuccNodes n s = Some (S, s\<lparr>succset := succset s\<rparr>)" by (simp add: getSuccNodes_def)
  then show ?thesis using c Some unfolding caches_ok_def by (intro exI [of _ S] exI [of _ "succset s"]) simp
next
  case None
  note n = flows_added_nodes [OF f]
  let ?S = "accesses_after (\<lambda>_. True) (mv_svfg s) n"
  have "getSuccNodes n s = Some (?S, s\<lparr>succset := (succset s)(n \<mapsto> ?S)\<rparr>)"
    using None succ_nodes_result [OF n(1), of "\<lambda>_. True" n] by (simp add: getSuccNodes_def)
  moreover have S: "accesses_after (\<lambda>_. True) g n \<subseteq> ?S \<and> finite ?S \<and> (\<forall>m\<in>?S. isStore g m \<or> isLoad g m)"
    using accesses_after_props [OF n(1), of "\<lambda>_. True" n]
      first_stops_mono [of "targets (\<lambda>_. True) g" "targets (\<lambda>_. True) (mv_svfg s)"]
      flows_added_targets [OF f] by (simp add: accesses_after_def n(3,4))
  ultimately show ?thesis using c unfolding caches_ok_def
    by (intro exI [of _ ?S] exI [of _ "(succset s)(n \<mapsto> ?S)"]) simp
qed

text \<open>The invariant of the construction, and what a query leaves as it is.\<close>

definition vf_inv :: "vf_env \<Rightarrow> svfg \<Rightarrow> (vnode \<times> vnode) set \<Rightarrow> mta_svfg \<Rightarrow> bool" where
  "vf_inv E g A s \<longleftrightarrow> flows_added E g A (mv_svfg s) \<and> caches_ok E g s"

lemma isHeadofSpan_result:
  assumes "span_known E g n" "vf_inv E g A s"
  shows "\<exists>b s'. isHeadofSpan E n s = Some (b, s') \<and> vf_inv E g A s' \<and> (b \<longrightarrow> span_head E g n)"
proof (cases "headmap s n")
  case (Some b)
  then have "isHeadofSpan E n s = Some (b, s)" by (simp add: isHeadofSpan_def)
  moreover have "b \<longrightarrow> span_head E g n" using Some assms(2) unfolding vf_inv_def caches_ok_def by auto
  ultimately show ?thesis using assms(2) by blast
next
  case None
  have f: "flows_added E g A (mv_svfg s)" and c: "caches_ok E g s" using assms(2) by (simp_all add: vf_inv_def)
  note n = flows_added_nodes [OF f]
  obtain S p where S: "getPrevNodes n s = Some (S, s\<lparr>prevset := p\<rparr>)" "stores_before g n \<subseteq> S" "finite S"
      "\<forall>m\<in>S. isStore g m" "caches_ok E g (s\<lparr>prevset := p\<rparr>)"
    using getPrevNodes_result [OF f c, of n] by blast
  let ?t = "\<lambda>m. same_span E (sv_inst g m) (sv_inst g n)"
  let ?b = "\<forall>m\<in>S. ?t m = Some False"
  have r: "scan_prev (mv_svfg s) ?t (sorted_list_of_set S) = Some ?b"
    using scan_prev_result [of "sorted_list_of_set S" "mv_svfg s" ?t] S(3,4) assms(1) n(3) by (auto simp: span_known_def)
  have h: "?b \<longrightarrow> span_head E g n" using S(2) by (auto simp: span_head_def)
  have "isHeadofSpan E n s = Some (?b, s\<lparr>prevset := p, headmap := (headmap s)(n \<mapsto> ?b)\<rparr>)"
    using None by (simp add: isHeadofSpan_def S(1) n(5) r)
  moreover have "caches_ok E g (s\<lparr>prevset := p, headmap := (headmap s)(n \<mapsto> ?b)\<rparr>)"
    using S(5) h unfolding caches_ok_def by simp
  ultimately show ?thesis using f h
    by (intro exI [of _ ?b] exI [of _ "s\<lparr>prevset := p, headmap := (headmap s)(n \<mapsto> ?b)\<rparr>"]) (simp add: vf_inv_def)
qed

lemma isTailofSpan_result:
  assumes "span_known E g n" "vf_inv E g A s" "isStore g n"
  shows "\<exists>b s'. isTailofSpan E n s = Some (b, s') \<and> vf_inv E g A s' \<and> (b \<longrightarrow> span_tail E g n)"
proof (cases "tailmap s n")
  case (Some b)
  then have "isTailofSpan E n s = Some (b, s)"
    using assms(2,3) flows_added_nodes(3) [of E g A "mv_svfg s"] by (simp add: isTailofSpan_def vf_inv_def)
  moreover have "b \<longrightarrow> span_tail E g n" using Some assms(2) unfolding vf_inv_def caches_ok_def by auto
  ultimately show ?thesis using assms(2) by blast
next
  case None
  have f: "flows_added E g A (mv_svfg s)" and c: "caches_ok E g s" using assms(2) by (simp_all add: vf_inv_def)
  note n = flows_added_nodes [OF f]
  obtain S p where S: "getSuccNodes n s = Some (S, s\<lparr>succset := p\<rparr>)" "accesses_after (\<lambda>_. True) g n \<subseteq> S" "finite S"
      "\<forall>m\<in>S. isStore g m \<or> isLoad g m" "caches_ok E g (s\<lparr>succset := p\<rparr>)"
    using getSuccNodes_result [OF f c, of n] by blast
  let ?t = "\<lambda>m. same_span E (sv_inst g m) (sv_inst g n)"
  let ?b = "\<forall>m\<in>S. isStore g m \<longrightarrow> ?t m = Some False"
  have r: "scan_succ (mv_svfg s) True ?t (sorted_list_of_set S) = Some ?b"
    using scan_succ_result [of "sorted_list_of_set S" "mv_svfg s" ?t] S(3,4) assms(1) n(3,4)
    by (auto simp: span_known_def)
  have h: "?b \<longrightarrow> span_tail E g n" using S(2) by (auto simp: span_tail_def)
  have "isTailofSpan E n s = Some (?b, s\<lparr>succset := p, tailmap := (tailmap s)(n \<mapsto> ?b)\<rparr>)"
    using None assms(3) by (simp add: isTailofSpan_def S(1) n(3,5) r)
  moreover have "caches_ok E g (s\<lparr>succset := p, tailmap := (tailmap s)(n \<mapsto> ?b)\<rparr>)"
    using S(5) h unfolding caches_ok_def by simp
  ultimately show ?thesis using f h
    by (intro exI [of _ ?b] exI [of _ "s\<lparr>succset := p, tailmap := (tailmap s)(n \<mapsto> ?b)\<rparr>"]) (simp add: vf_inv_def)
qed

section \<open>One pair\<close>

lemma add_flow:
  assumes "vf_inv E g A s" "a \<in> set (sv_ids g)" "b \<in> set (sv_ids g)"
  shows "\<exists>s'. addTDEdges a b (flow E g a b) s = Some s' \<and> vf_inv E g (insert (a, b) A) s'"
proof -
  obtain h k where h: "addTDEdges a b (flow E g a b) s = Some (s\<lparr>mv_svfg := h, numOfNewSVFGEdges := k\<rparr>)"
      "flows_added E g (insert (a, b) A) h"
    using flows_added_step [of E g A s a b] assms by (auto simp: vf_inv_def)
  moreover have "caches_ok E g (s\<lparr>mv_svfg := h, numOfNewSVFGEdges := k\<rparr>)"
    using assms(1) unfolding vf_inv_def caches_ok_def by simp
  ultimately show ?thesis by (intro exI [of _ "s\<lparr>mv_svfg := h, numOfNewSVFGEdges := k\<rparr>"]) (simp add: vf_inv_def)
qed

lemma guarded_flow:
  assumes "span_known E g a" "span_known E g b" "vf_inv E g A s"
    and "a \<in> set (sv_ids g)" "b \<in> set (sv_ids g)" "isStore g a"
  shows "\<exists>s' B. guarded_edge E a b (flow E g a b) s = Some s' \<and> vf_inv E g (A \<union> B) s' \<and>
    B \<subseteq> (if span_tail E g a \<and> span_head E g b then {(a, b)} else {})"
proof -
  obtain t s1 where t: "isTailofSpan E a s = Some (t, s1)" "vf_inv E g A s1" "t \<longrightarrow> span_tail E g a"
    using isTailofSpan_result [OF assms(1,3,6)] by blast
  obtain h s2 where h: "isHeadofSpan E b s1 = Some (h, s2)" "vf_inv E g A s2" "h \<longrightarrow> span_head E g b"
    using isHeadofSpan_result [OF assms(2) t(2)] by blast
  obtain s3 where s3: "addTDEdges a b (flow E g a b) s2 = Some s3" "vf_inv E g (insert (a, b) A) s3"
    using add_flow [OF h(2) assms(4,5)] by blast
  consider "\<not> t" | "t" "\<not> h" | "t" "h" by blast
  then show ?thesis
  proof cases
    case 1
    then have "guarded_edge E a b (flow E g a b) s = Some s1" by (simp add: guarded_edge_def tail_head_def t(1))
    then show ?thesis using t(2) by (intro exI [of _ s1] exI [of _ "{}"]) simp
  next
    case 2
    then have "guarded_edge E a b (flow E g a b) s = Some s2" by (simp add: guarded_edge_def tail_head_def t(1) h(1))
    then show ?thesis using h(2) by (intro exI [of _ s2] exI [of _ "{}"]) simp
  next
    case 3
    then have "guarded_edge E a b (flow E g a b) s = Some s3"
      by (simp add: guarded_edge_def tail_head_def t(1) h(1) s3(1))
    then show ?thesis using s3(2) 3 t(3) h(3) by (intro exI [of _ s3] exI [of _ "{(a, b)}"]) simp
  qed
qed

section \<open>All pairs\<close>

text \<open>What the options ask of two accesses: whether they are considered at all, and protected.\<close>

definition insts_of :: "svfg \<Rightarrow> vnode \<Rightarrow> vnode \<Rightarrow> inst \<times> inst" where
  "insts_of g a b = (the (sv_inst g a), the (sv_inst g b))"

definition considered :: "vf_env \<Rightarrow> svfg \<Rightarrow> vnode \<Rightarrow> vnode \<Rightarrow> bool" where
  "considered E g a b = (case insts_of g a b of (i, j) \<Rightarrow>
     if AddModelFlag E = ADDEDGE_NONSPARSE then \<not> UsePCG E \<or> ve_pcg E i j \<or> ve_mhp E i j
     else (AddModelFlag E = ADDEDGE_NOMHP \<or> ve_mhp E i j) \<and>
       (AddModelFlag E = ADDEDGE_NOALIAS \<or>
        alias_bool (ve_alias E (sv_dst g a) (if isStore g b then sv_dst g b else sv_src g b))))"

definition locked_pair :: "vf_env \<Rightarrow> svfg \<Rightarrow> vnode \<Rightarrow> vnode \<Rightarrow> bool" where
  "locked_pair E g a b = (case insts_of g a b of (i, j) \<Rightarrow>
     AddModelFlag E \<noteq> ADDEDGE_NONSPARSE \<and> AddModelFlag E \<noteq> ADDEDGE_NOLOCK \<and>
     isProtectedByCommonLock (ve_prog E) (ve_locks E) i j = Some True)"

text \<open>Two stores are asked about in the order of their numbers, a store and a load in that order.\<close>

definition asked :: "(vnode \<Rightarrow> vnode \<Rightarrow> bool) \<Rightarrow> svfg \<Rightarrow> vnode \<Rightarrow> vnode \<Rightarrow> bool" where
  "asked r g a b = (if isStore g b then r (min a b) (max a b) else r a b)"

definition must_flow :: "vf_env \<Rightarrow> svfg \<Rightarrow> vnode \<Rightarrow> vnode \<Rightarrow> bool" where
  "must_flow E g a b \<longleftrightarrow> asked (considered E g) g a b \<and> \<not> asked (locked_pair E g) g a b"

definition may_flow :: "vf_env \<Rightarrow> svfg \<Rightarrow> vnode \<Rightarrow> vnode \<Rightarrow> bool" where
  "may_flow E g a b \<longleftrightarrow> asked (considered E g) g a b \<and>
     (asked (locked_pair E g) g a b \<longrightarrow> span_tail E g a \<and> span_head E g b)"

definition store_node :: "svfg \<Rightarrow> vnode \<Rightarrow> bool" where
  "store_node g n \<longleftrightarrow> n \<in> set (sv_ids g) \<and> isStore g n \<and> sv_inst g n \<noteq> None"

definition load_node :: "svfg \<Rightarrow> vnode \<Rightarrow> bool" where
  "load_node g n \<longleftrightarrow> n \<in> set (sv_ids g) \<and> isLoad g n \<and> sv_inst g n \<noteq> None"

text \<open>The lock analysis knows the spans of protected accesses.\<close>

definition spans_known :: "vf_env \<Rightarrow> svfg \<Rightarrow> bool" where
  "spans_known E g \<longleftrightarrow> (\<forall>a b. store_node g a \<and> (store_node g b \<or> load_node g b) \<and> locked_pair E g a b \<longrightarrow>
     span_known E g a \<and> span_known E g b)"

text \<open>The outcome of handling the pairs of \<open>P\<close>.\<close>

definition pairs_done :: "vf_env \<Rightarrow> svfg \<Rightarrow> (vnode \<times> vnode) set \<Rightarrow> (vnode \<times> vnode) set \<Rightarrow> bool" where
  "pairs_done E g P B \<longleftrightarrow> {(a, b) \<in> P. must_flow E g a b} \<subseteq> B \<and> B \<subseteq> {(a, b) \<in> P. may_flow E g a b}"

lemma pairs_done_union: "pairs_done E g P B \<Longrightarrow> pairs_done E g Q C \<Longrightarrow> pairs_done E g (P \<union> Q) (B \<union> C)"
  unfolding pairs_done_def by blast

lemma pairs_done_none: "\<forall>(a, b)\<in>P. \<not> must_flow E g a b \<Longrightarrow> pairs_done E g P {}"
  unfolding pairs_done_def by blast

lemma pairs_done_all: "\<forall>(a, b)\<in>P. may_flow E g a b \<Longrightarrow> pairs_done E g P P"
  unfolding pairs_done_def by blast

lemma protected_pair_result:
  assumes "AddModelFlag E \<noteq> ADDEDGE_NONSPARSE" "insts_of g a b = (i, j)"
  shows "protected_pair E i j = Some (locked_pair E g a b)"
  using assms protected_total [of "ve_prog E" "ve_locks E" i j]
  by (auto simp: protected_pair_def locked_pair_def)

lemma connect_load_result:
  assumes k: "spans_known E g" and v: "vf_inv E g A s" and a: "store_node g a" and b: "load_node g b"
  shows "\<exists>s' B. connect_load E a b s = Some s' \<and> vf_inv E g (A \<union> B) s' \<and> pairs_done E g {(a, b)} B"
proof -
  obtain i j where ij: "sv_inst g a = Some i" "sv_inst g b = Some j"
    using a b by (auto simp: store_node_def load_node_def)
  then have io: "insts_of g a b = (i, j)" by (simp add: insts_of_def)
  have ids: "a \<in> set (sv_ids g)" "b \<in> set (sv_ids g)" "isStore g a" "\<not> isStore g b"
    using a b by (auto simp: store_node_def load_node_def isStore_def isLoad_def)
  have f: "flows_added E g A (mv_svfg s)" using v by (simp add: vf_inv_def)
  note n = flows_added_nodes [OF f]
  let ?c = "considered E g a b" and ?l = "locked_pair E g a b"
  have fl: "ve_getPts E (sv_dst g a) \<inter> ve_getPts E (sv_src g b) = flow E g a b" using ids(4) by (simp add: flow_def)
  obtain s1 where s1: "addTDEdges a b (flow E g a b) s = Some s1" "vf_inv E g (insert (a, b) A) s1"
    using add_flow [OF v ids(1,2)] by blast
  have kab: "span_known E g a" "span_known E g b" if ?l using k a b that unfolding spans_known_def by blast+
  have step: "connect_load E a b s = (if \<not> ?c then Some s else if ?l then guarded_edge E a b (flow E g a b) s
      else addTDEdges a b (flow E g a b) s)"
  proof (cases "AddModelFlag E = ADDEDGE_NONSPARSE")
    case True
    then show ?thesis using ij by (simp add: connect_load_def considered_def io locked_pair_def n(5,7,8)
        handleStoreLoadNonSparse_def either_parallel_def fl Let_def)
  next
    case False
    have c: "mhp_alias E i j (sv_dst g a) (sv_src g b) = ?c"
      using False ids(4) by (auto simp: mhp_alias_def considered_def io)
    show ?thesis using False ij by (simp add: connect_load_def handleStoreLoad_def n(5,7,8) c fl Let_def
        protected_pair_result [OF False io])
  qed
  have q: "asked r g a b = r a b" for r using ids(4) by (simp add: asked_def)
  consider "\<not> ?c" | "?c" "?l" | "?c" "\<not> ?l" by blast
  then show ?thesis
  proof cases
    case 1
    then show ?thesis using v unfolding step
      by (intro exI [of _ s] exI [of _ "{}"]) (simp add: pairs_done_none must_flow_def q)
  next
    case 2
    obtain s2 B where s2: "guarded_edge E a b (flow E g a b) s = Some s2" "vf_inv E g (A \<union> B) s2"
        "B \<subseteq> (if span_tail E g a \<and> span_head E g b then {(a, b)} else {})"
      using guarded_flow [OF kab v ids(1-3)] 2 by blast
    have "pairs_done E g {(a, b)} B"
      using 2 s2(3) by (auto simp: pairs_done_def must_flow_def may_flow_def q split: if_splits)
    then show ?thesis unfolding step using 2 s2(1,2) by auto
  next
    case 3
    then show ?thesis using s1 unfolding step
      by (intro exI [of _ s1] exI [of _ "{(a, b)}"]) (simp add: pairs_done_all may_flow_def q)
  qed
qed

lemma connect_store_result:
  assumes k: "spans_known E g" and v: "vf_inv E g A s" and a: "store_node g a" and b: "store_node g b" and lt: "a < b"
  shows "\<exists>s' B. connect_store E a b s = Some s' \<and> vf_inv E g (A \<union> B) s' \<and> pairs_done E g {(a, b), (b, a)} B"
proof -
  obtain i j where ij: "sv_inst g a = Some i" "sv_inst g b = Some j"
    using a b by (auto simp: store_node_def)
  then have io: "insts_of g a b = (i, j)" by (simp add: insts_of_def)
  have ids: "a \<in> set (sv_ids g)" "b \<in> set (sv_ids g)" "isStore g a" "isStore g b"
    using a b by (auto simp: store_node_def)
  have f: "flows_added E g A (mv_svfg s)" using v by (simp add: vf_inv_def)
  note n = flows_added_nodes [OF f]
  let ?c = "considered E g a b" and ?l = "locked_pair E g a b"
  have fl: "ve_getPts E (sv_dst g a) \<inter> ve_getPts E (sv_dst g b) = flow E g a b" using ids(4) by (simp add: flow_def)
  have fl': "flow E g a b = flow E g b a" using ids(3,4) by (auto simp: flow_def)
  obtain s1 where s1: "addTDEdges a b (flow E g a b) s = Some s1" "vf_inv E g (insert (a, b) A) s1"
    using add_flow [OF v ids(1,2)] by blast
  obtain s2 where s2: "addTDEdges b a (flow E g b a) s1 = Some s2" "vf_inv E g (insert (b, a) (insert (a, b) A)) s2"
    using add_flow [OF s1(2) ids(2,1)] by blast
  have kab: "span_known E g a" "span_known E g b" if ?l using k a b that unfolding spans_known_def by blast+
  have step: "connect_store E a b s = (if \<not> ?c then Some s
      else if ?l then Option.bind (guarded_edge E a b (flow E g a b) s) (guarded_edge E b a (flow E g a b))
      else Option.bind (addTDEdges a b (flow E g a b) s) (addTDEdges b a (flow E g a b)))"
  proof (cases "AddModelFlag E = ADDEDGE_NONSPARSE")
    case True
    then show ?thesis using ij by (simp add: connect_store_def considered_def io locked_pair_def n(5,7,8)
        handleStoreStoreNonSparse_def either_parallel_def fl Let_def)
  next
    case False
    have c: "mhp_alias E i j (sv_dst g a) (sv_dst g b) = ?c"
      using False ids(4) by (auto simp: mhp_alias_def considered_def io)
    show ?thesis using False ij by (simp add: connect_store_def handleStoreStore_def n(5,7,8) c fl Let_def
        protected_pair_result [OF False io])
  qed
  have q: "asked r g a b = r a b" "asked r g b a = r a b" for r
    using ids(3,4) lt by (simp_all add: asked_def min_def max_def)
  consider "\<not> ?c" | "?c" "?l" | "?c" "\<not> ?l" by blast
  then show ?thesis
  proof cases
    case 1
    then show ?thesis using v unfolding step
      by (intro exI [of _ s] exI [of _ "{}"]) (simp add: pairs_done_none must_flow_def q)
  next
    case 2
    obtain s3 B where s3: "guarded_edge E a b (flow E g a b) s = Some s3" "vf_inv E g (A \<union> B) s3"
        "B \<subseteq> (if span_tail E g a \<and> span_head E g b then {(a, b)} else {})"
      using guarded_flow [OF kab v ids(1-3)] 2 by blast
    obtain s4 C where s4: "guarded_edge E b a (flow E g b a) s3 = Some s4" "vf_inv E g (A \<union> B \<union> C) s4"
        "C \<subseteq> (if span_tail E g b \<and> span_head E g a then {(b, a)} else {})"
      using guarded_flow [OF kab(2,1) s3(2) ids(2,1,4)] 2 by blast
    have "pairs_done E g {(a, b), (b, a)} (B \<union> C)"
      using 2 s3(3) s4(3) by (auto simp: pairs_done_def must_flow_def may_flow_def q split: if_splits)
    then show ?thesis unfolding step using 2 s3(1) s4(1,2) fl' by (auto simp: Un_assoc)
  next
    case 3
    have "A \<union> {(a, b), (b, a)} = insert (b, a) (insert (a, b) A)" by blast
    then show ?thesis using 3 s1(1) s2 fl' unfolding step
      by (intro exI [of _ s2] exI [of _ "{(a, b), (b, a)}"]) (simp add: pairs_done_all may_flow_def q)
  qed
qed

lemma connect_loads_result:
  assumes "spans_known E g" "vf_inv E g A s" "store_node g a" "\<forall>b\<in>set bs. load_node g b"
  shows "\<exists>s' B. foldM (connect_load E a) bs s = Some s' \<and> vf_inv E g (A \<union> B) s' \<and> pairs_done E g ({a} \<times> set bs) B"
  using assms(2,4)
proof (induction bs arbitrary: A s)
  case Nil
  then show ?case by (intro exI [of _ s] exI [of _ "{}"]) (simp add: pairs_done_def)
next
  case (Cons b bs)
  obtain s1 B where s1: "connect_load E a b s = Some s1" "vf_inv E g (A \<union> B) s1" "pairs_done E g {(a, b)} B"
    using connect_load_result [OF assms(1) Cons.prems(1) assms(3), of b] Cons.prems(2) by auto
  obtain s2 C where s2: "foldM (connect_load E a) bs s1 = Some s2" "vf_inv E g (A \<union> B \<union> C) s2"
      "pairs_done E g ({a} \<times> set bs) C"
    using Cons.IH [OF s1(2)] Cons.prems(2) by auto
  have "{a} \<times> set (b # bs) = {(a, b)} \<union> {a} \<times> set bs" by auto
  then have "pairs_done E g ({a} \<times> set (b # bs)) (B \<union> C)" using pairs_done_union [OF s1(3) s2(3)] by simp
  then show ?case using s1(1) s2(1,2) by (auto simp: Un_assoc)
qed

lemma connect_stores_result:
  assumes "spans_known E g" "vf_inv E g A s" "store_node g a" "\<forall>b\<in>set bs. store_node g b \<and> a < b"
  shows "\<exists>s' B. foldM (connect_store E a) bs s = Some s' \<and> vf_inv E g (A \<union> B) s' \<and>
    pairs_done E g ({a} \<times> set bs \<union> set bs \<times> {a}) B"
  using assms(2,4)
proof (induction bs arbitrary: A s)
  case Nil
  then show ?case by (intro exI [of _ s] exI [of _ "{}"]) (simp add: pairs_done_def)
next
  case (Cons b bs)
  obtain s1 B where s1: "connect_store E a b s = Some s1" "vf_inv E g (A \<union> B) s1" "pairs_done E g {(a, b), (b, a)} B"
    using connect_store_result [OF assms(1) Cons.prems(1) assms(3), of b] Cons.prems(2) by auto
  obtain s2 C where s2: "foldM (connect_store E a) bs s1 = Some s2" "vf_inv E g (A \<union> B \<union> C) s2"
      "pairs_done E g ({a} \<times> set bs \<union> set bs \<times> {a}) C"
    using Cons.IH [OF s1(2)] Cons.prems(2) by auto
  have "{a} \<times> set (b # bs) \<union> set (b # bs) \<times> {a} = {(a, b), (b, a)} \<union> ({a} \<times> set bs \<union> set bs \<times> {a})" by auto
  then have "pairs_done E g ({a} \<times> set (b # bs) \<union> set (b # bs) \<times> {a}) (B \<union> C)"
    using pairs_done_union [OF s1(3) s2(3)] by simp
  then show ?case using s1(1) s2(1,2) by (auto simp: Un_assoc)
qed

lemma connect_pairs_result:
  assumes "spans_known E g" "vf_inv E g A s" "\<forall>a\<in>set sts. store_node g a" "\<forall>b\<in>set lds. load_node g b" "std_set_ok sts"
  shows "\<exists>s' B. connect_pairs E sts lds s = Some s' \<and> vf_inv E g (A \<union> B) s' \<and>
    pairs_done E g ({(a, b). a \<in> set sts \<and> b \<in> set sts \<union> set lds \<and> a \<noteq> b}) B"
  using assms(2,3,5)
proof (induction sts arbitrary: A s)
  case Nil
  then show ?case by (intro exI [of _ s] exI [of _ "{}"]) (simp add: pairs_done_def)
next
  case (Cons a sts)
  have sa: "store_node g a" and st: "\<forall>b\<in>set sts. store_node g b \<and> a < b" using Cons.prems(2,3) by auto
  obtain s1 B where s1: "foldM (connect_load E a) lds s = Some s1" "vf_inv E g (A \<union> B) s1" "pairs_done E g ({a} \<times> set lds) B"
    using connect_loads_result [OF assms(1) Cons.prems(1) sa assms(4)] by blast
  obtain s2 C where s2: "foldM (connect_store E a) sts s1 = Some s2" "vf_inv E g (A \<union> B \<union> C) s2"
      "pairs_done E g ({a} \<times> set sts \<union> set sts \<times> {a}) C"
    using connect_stores_result [OF assms(1) s1(2) sa st] by blast
  obtain s3 D where s3: "connect_pairs E sts lds s2 = Some s3" "vf_inv E g (A \<union> B \<union> C \<union> D) s3"
      "pairs_done E g ({(a, b). a \<in> set sts \<and> b \<in> set sts \<union> set lds \<and> a \<noteq> b}) D"
    using Cons.IH [OF s2(2)] Cons.prems(2,3) by auto
  have ne: "a \<notin> set lds" using sa assms(4) by (auto simp: store_node_def load_node_def isStore_def isLoad_def)
  have "{(x, b). x \<in> set (a # sts) \<and> b \<in> set (a # sts) \<union> set lds \<and> x \<noteq> b} =
      ({a} \<times> set lds \<union> ({a} \<times> set sts \<union> set sts \<times> {a})) \<union> {(a, b). a \<in> set sts \<and> b \<in> set sts \<union> set lds \<and> a \<noteq> b}"
    using st ne by auto
  then have "pairs_done E g ({(x, b). x \<in> set (a # sts) \<and> b \<in> set (a # sts) \<union> set lds \<and> x \<noteq> b}) ((B \<union> C) \<union> D)"
    using pairs_done_union [OF pairs_done_union [OF s1(3) s2(3)] s3(3)] by simp
  moreover have "connect_pairs E (a # sts) lds s = Some s3" by (simp add: s1(1) s2(1) s3(1))
  ultimately show ?case using s3(2) by (intro exI [of _ s3] exI [of _ "(B \<union> C) \<union> D"]) (simp add: Un_assoc)
qed

section \<open>Collecting the nodes\<close>

lemma collect_node_eq:
  "collect_node n s = s\<lparr>ldnodeSet := (if isLoad (mv_svfg s) n \<and> sv_inst (mv_svfg s) n \<noteq> None
       then set_insert n (ldnodeSet s) else ldnodeSet s),
     stnodeSet := (if isStore (mv_svfg s) n \<and> sv_inst (mv_svfg s) n \<noteq> None
       then set_insert n (stnodeSet s) else stnodeSet s)\<rparr>"
  by (auto simp: collect_node_def Let_def)

lemma collect_fold:
  "fold collect_node ns s = s\<lparr>ldnodeSet := fold (\<lambda>n x. if isLoad (mv_svfg s) n \<and> sv_inst (mv_svfg s) n \<noteq> None
       then set_insert n x else x) ns (ldnodeSet s),
     stnodeSet := fold (\<lambda>n x. if isStore (mv_svfg s) n \<and> sv_inst (mv_svfg s) n \<noteq> None
       then set_insert n x else x) ns (stnodeSet s)\<rparr>"
  by (induction ns arbitrary: s) (simp_all add: collect_node_eq split del: if_split)

lemma collect_new:
  fixes g
  defines "s \<equiv> collectLoadStoreSVFGNodes (mta_svfg_new g)"
  shows "mv_svfg s = g" "std_set_ok (stnodeSet s)" "set (stnodeSet s) = {n. store_node g n}"
    "set (ldnodeSet s) = {n. load_node g n}" "prevset s = Map.empty" "succset s = Map.empty"
    "headmap s = Map.empty" "tailmap s = Map.empty"
  by (auto simp: s_def collectLoadStoreSVFGNodes_def collect_fold mta_svfg_new_def store_node_def load_node_def)

section \<open>Read precision\<close>

text \<open>The objects on an edge for which every access after its destination is one after its source.\<close>

definition covered :: "svfg \<Rightarrow> svfg_edge \<Rightarrow> nat set" where
  "covered g e = {x \<in> sv_pts g e. accesses_after (\<lambda>e. x \<in> sv_pts g e) g (edge_dst e) \<subseteq>
     accesses_after (\<lambda>e. x \<in> sv_pts g e) g (edge_src e)}"

lemma covered_objects_result:
  assumes "svfg_ok g" "finite (sv_pts g e)"
  shows "covered_objects g (edge_dst e) (edge_src e) (sv_pts g e) = Some (covered g e)"
proof -
  let ?a = "\<lambda>x. accesses_after (\<lambda>e. x \<in> sv_pts g e) g"
  have "foldM (\<lambda>obj remove_pts. Option.bind (getSuccNodes_obj g (edge_dst e) obj) (\<lambda>succ1.
     Option.bind (getSuccNodes_obj g (edge_src e) obj) (\<lambda>succ2.
       Some (if list_all (\<lambda>m. m \<in> succ2) (sorted_list_of_set succ1) then insert obj remove_pts else remove_pts)))) xs R
    = Some (R \<union> {x \<in> set xs. ?a x (edge_dst e) \<subseteq> ?a x (edge_src e)})" for xs R
  proof (induction xs arbitrary: R)
    case (Cons x xs)
    have "list_all (\<lambda>m. m \<in> S) (sorted_list_of_set (?a x (edge_dst e))) \<longleftrightarrow> ?a x (edge_dst e) \<subseteq> S" for S
      using accesses_after_props [OF assms(1), of "\<lambda>e. x \<in> sv_pts g e" "edge_dst e"] by (auto simp: list_all_iff)
    then show ?case using Cons.IH by (auto simp: getSuccNodes_obj_def succ_nodes_result [OF assms(1)])
  qed simp
  then show ?thesis using assms(2) by (simp add: covered_objects_def covered_def)
qed

definition store_edge :: "svfg \<Rightarrow> svfg_edge \<Rightarrow> bool" where
  "store_edge g e \<longleftrightarrow> isIndirectVFGEdge e \<and> isStore g (edge_src e)"

definition ends :: "svfg_edge \<Rightarrow> vnode \<times> vnode" where
  "ends e = (edge_src e, edge_dst e)"

text \<open>What is recorded once the edges of \<open>P\<close> were looked at.\<close>

definition recorded :: "svfg \<Rightarrow> svfg_edge set \<Rightarrow> mta_svfg \<Rightarrow> bool" where
  "recorded g P s \<longleftrightarrow> mv_svfg s = g \<and> std_set_ok (recordedges s) \<and>
     set (recordedges s) = ends ` {e \<in> P. store_edge g e \<and> covered g e \<noteq> {}} \<and>
     (\<forall>p\<in>set (recordedges s). edge2pts s p = Some (\<Union> (covered g ` {e \<in> P. store_edge g e \<and> ends e = p})))"

lemma read_edge_result:
  assumes "svfg_ok g" "finite (sv_pts g e)" "edge_dst e = n" "recorded g P s"
  shows "\<exists>s'. read_edge n e s = Some s' \<and> recorded g (insert e P) s' \<and> stnodeSet s' = stnodeSet s"
proof -
  have g: "mv_svfg s = g" using assms(4) by (simp add: recorded_def)
  consider "\<not> store_edge g e" | "store_edge g e" "covered g e = {}" | "store_edge g e" "covered g e \<noteq> {}" by blast
  then show ?thesis
  proof cases
    case 1
    then have c: "{x \<in> insert e P. store_edge g x \<and> Q x} = {x \<in> P. store_edge g x \<and> Q x}" for Q by auto
    from 1 have "read_edge n e s = Some s" by (auto simp: read_edge_def g store_edge_def Let_def)
    then show ?thesis using assms(4) unfolding recorded_def c by (intro exI [of _ s]) simp
  next
    case 2
    then have "read_edge n e s = Some s"
      using covered_objects_result [OF assms(1,2)] by (simp add: read_edge_def g store_edge_def assms(3) Let_def)
    moreover have "{x \<in> insert e P. store_edge g x \<and> covered g x \<noteq> {}} = {x \<in> P. store_edge g x \<and> covered g x \<noteq> {}}"
      using 2 by auto
    moreover have "\<Union> (covered g ` {x \<in> insert e P. store_edge g x \<and> ends x = p}) =
        \<Union> (covered g ` {x \<in> P. store_edge g x \<and> ends x = p})" for p using 2 by auto
    ultimately show ?thesis using assms(4) by (simp add: recorded_def)
  next
    case 3
    let ?p = "ends e"
    let ?s = "snd (recordRemovingEdge (edge_src e) n (covered g e) s)"
    have r: "read_edge n e s = Some ?s"
      using 3 covered_objects_result [OF assms(1,2)] by (simp add: read_edge_def g store_edge_def assms(3) Let_def)
    have p: "(edge_src e, n) = ?p" by (simp add: ends_def assms(3))
    have rec: "std_set_ok (recordedges s)" "set (recordedges s) = ends ` {e \<in> P. store_edge g e \<and> covered g e \<noteq> {}}"
      "\<And>p. p \<in> set (recordedges s) \<Longrightarrow> edge2pts s p = Some (\<Union> (covered g ` {e \<in> P. store_edge g e \<and> ends e = p}))"
      using assms(4) by (auto simp: recorded_def)
    have new: "ends ` {x \<in> insert e P. store_edge g x \<and> covered g x \<noteq> {}} = insert ?p (set (recordedges s))"
      unfolding rec(2) using 3 by auto
    have un: "\<Union> (covered g ` {x \<in> insert e P. store_edge g x \<and> ends x = q}) =
        (if q = ?p then covered g e else {}) \<union> \<Union> (covered g ` {x \<in> P. store_edge g x \<and> ends x = q})" for q
      using 3 by auto
    have empty: "\<Union> (covered g ` {x \<in> P. store_edge g x \<and> ends x = ?p}) = {}" if "?p \<notin> set (recordedges s)"
    proof -
      have "covered g x = {}" if x: "x \<in> P" "store_edge g x" "ends x = ?p" for x
      proof (rule ccontr)
        assume "covered g x \<noteq> {}"
        then have "ends x \<in> set (recordedges s)" unfolding rec(2) using x(1,2) by blast
        then show False using \<open>?p \<notin> set (recordedges s)\<close> x(3) by simp
      qed
      then show ?thesis by blast
    qed
    have "recorded g (insert e P) ?s"
      unfolding recorded_def new un recordRemovingEdge_def recordEdge_def p Let_def
      using rec empty g by (auto simp: set_find_def)
    moreover have "stnodeSet ?s = stnodeSet s" by (simp add: recordRemovingEdge_def recordEdge_def Let_def)
    ultimately show ?thesis using r by blast
  qed
qed

lemma read_edges_result:
  assumes "svfg_ok g" "\<forall>e\<in>set es. finite (sv_pts g e) \<and> edge_dst e = n" "recorded g P s"
  shows "\<exists>s'. foldM (read_edge n) es s = Some s' \<and> recorded g (P \<union> set es) s' \<and> stnodeSet s' = stnodeSet s"
  using assms(2,3)
proof (induction es arbitrary: P s)
  case (Cons e es)
  obtain s1 where s1: "read_edge n e s = Some s1" "recorded g (insert e P) s1" "stnodeSet s1 = stnodeSet s"
    using read_edge_result [OF assms(1), of e n P s] Cons.prems by auto
  obtain s2 where "foldM (read_edge n) es s1 = Some s2" "recorded g (insert e P \<union> set es) s2" "stnodeSet s2 = stnodeSet s1"
    using Cons.IH [OF _ s1(2)] Cons.prems(1) by auto
  then show ?case using s1 by simp
qed simp

lemma read_stores_result:
  assumes "svfg_ok g" "\<forall>e. finite (sv_pts g e)" "recorded g P s"
  shows "\<exists>s'. foldM read_store ns s = Some s' \<and> recorded g (P \<union> (\<Union>n\<in>set ns. set (sv_in g n))) s' \<and> stnodeSet s' = stnodeSet s"
  using assms(3)
proof (induction ns arbitrary: P s)
  case (Cons n ns)
  have g: "mv_svfg s = g" using Cons.prems by (simp add: recorded_def)
  obtain s1 where s1: "foldM (read_edge n) (sv_in g n) s = Some s1" "recorded g (P \<union> set (sv_in g n)) s1" "stnodeSet s1 = stnodeSet s"
    using read_edges_result [OF assms(1) _ Cons.prems, of "sv_in g n" n] assms(2) svfg_ok_dest(3) [OF assms(1)] by blast
  obtain s2 where "foldM read_store ns s1 = Some s2"
      "recorded g ((P \<union> set (sv_in g n)) \<union> (\<Union>n\<in>set ns. set (sv_in g n))) s2" "stnodeSet s2 = stnodeSet s1"
    using Cons.IH [OF s1(2)] by auto
  moreover have "read_store n s = Some s1" by (simp add: read_store_def g s1(1))
  ultimately show ?case using s1(3) by (intro exI [of _ s2]) (simp add: Un_assoc)
qed simp

end
