(* ===== verification/ThreadVFRead.thy ===== *)
theory ThreadVFRead
  imports ThreadVFResult
begin

text \<open>
  The last step of \<open>MTASVFGBuilder\<close>: how the recorded objects are taken off the edges, and the
  theorem on the whole construction.
\<close>

section \<open>Taking objects off the edges\<close>

text \<open>\<open>h\<close> is \<open>g\<close> where the edges with ends in \<open>Q\<close> have lost the objects of \<open>D\<close>, and are gone when none is left.\<close>

definition loses :: "(vnode \<times> vnode \<Rightarrow> nat set) \<Rightarrow> (vnode \<times> vnode) set \<Rightarrow> svfg_edge \<Rightarrow> nat set" where
  "loses D Q e = (if isIndirectVFGEdge e \<and> ends e \<in> Q then D (ends e) else {})"

definition emptied :: "svfg \<Rightarrow> (vnode \<times> vnode) set \<Rightarrow> (vnode \<times> vnode \<Rightarrow> nat set) \<Rightarrow> svfg_edge \<Rightarrow> bool" where
  "emptied g Q D e \<longleftrightarrow> isIndirectVFGEdge e \<and> ends e \<in> Q \<and> sv_pts g e \<subseteq> D (ends e)"

definition stripped :: "svfg \<Rightarrow> (vnode \<times> vnode \<Rightarrow> nat set) \<Rightarrow> (vnode \<times> vnode) set \<Rightarrow> svfg \<Rightarrow> bool" where
  "stripped g D Q h \<longleftrightarrow> svfg_ok h \<and> same_nodes g h \<and>
     (\<forall>n. set (sv_in h n) = {e \<in> set (sv_in g n). \<not> emptied g Q D e}) \<and>
     (\<forall>n. set (sv_out h n) = {e \<in> set (sv_out g n). \<not> emptied g Q D e}) \<and>
     (\<forall>n. \<forall>e\<in>set (sv_in h n). sv_pts h e = sv_pts g e - loses D Q e)"

lemma stripped_none: "svfg_ok g \<Longrightarrow> stripped g D {} g"
  by (simp add: stripped_def same_nodes_def emptied_def loses_def)

text \<open>The objects come off the edges to \<open>n2\<close> in the list.\<close>

lemma strip_edges:
  fixes es n2 R s removed
  assumes "std_set_ok removed"
  defines "r \<equiv> fold (strip_edge n2 R) es (s, removed)" and "hit \<equiv> \<lambda>e. isIndirectVFGEdge e \<and> edge_dst e = n2"
  shows "\<exists>k. fst r = s\<lparr>mv_svfg := (mv_svfg s)\<lparr>sv_pts := (\<lambda>e. if e \<in> set es \<and> hit e
        then sv_pts (mv_svfg s) e - R else sv_pts (mv_svfg s) e)\<rparr>, numOfRemovedPTS := k\<rparr> \<and> std_set_ok (snd r) \<and>
    set (snd r) = set removed \<union> {e \<in> set es. hit e \<and> sv_pts (mv_svfg s) e \<subseteq> R}"
  unfolding r_def using assms(1)
proof (induction es arbitrary: s removed)
  case Nil
  then show ?case by (intro exI [of _ "numOfRemovedPTS s"]) simp
next
  case (Cons e es)
  let ?g = "mv_svfg s"
  show ?case
  proof (cases "hit e")
    case False
    then have "strip_edge n2 R e (s, removed) = (s, removed)" by (auto simp: strip_edge_def hit_def)
    moreover have "(\<lambda>x. if x \<in> set (e # es) \<and> hit x then sv_pts ?g x - R else sv_pts ?g x) =
        (\<lambda>x. if x \<in> set es \<and> hit x then sv_pts ?g x - R else sv_pts ?g x)"
    proof (rule ext)
      fix x
      show "(if x \<in> set (e # es) \<and> hit x then sv_pts ?g x - R else sv_pts ?g x) =
          (if x \<in> set es \<and> hit x then sv_pts ?g x - R else sv_pts ?g x)"
        using False by (cases "x = e") simp_all
    qed
    moreover have "{x \<in> set (e # es). hit x \<and> sv_pts ?g x \<subseteq> R} = {x \<in> set es. hit x \<and> sv_pts ?g x \<subseteq> R}"
      using False by (rule_tac set_eqI) (metis (mono_tags, lifting) mem_Collect_eq set_ConsD list.set_intros(2))
    ultimately show ?thesis using Cons.IH [OF Cons.prems, of s] by (simp only: fold.simps o_apply)
  next
    case True
    let ?g1 = "?g\<lparr>sv_pts := (sv_pts ?g)(e := sv_pts ?g e - sv_pts ?g e \<inter> R)\<rparr>"
    let ?s = "s\<lparr>mv_svfg := ?g1, numOfRemovedPTS := numOfRemovedPTS s + of_nat (card (sv_pts ?g e \<inter> R))\<rparr>"
    let ?rem = "if sv_pts ?g e - sv_pts ?g e \<inter> R = {} then set_insert e removed else removed"
    have st: "strip_edge n2 R e (s, removed) = (?s, ?rem)"
      using True by (simp add: strip_edge_def hit_def upd_svfg_def Let_def)
    have "std_set_ok ?rem" using Cons.prems by simp
    from Cons.IH [OF this, of ?s] obtain k where
      ih: "fst (fold (strip_edge n2 R) es (?s, ?rem)) = ?s\<lparr>mv_svfg := (mv_svfg ?s)\<lparr>sv_pts := (\<lambda>x. if x \<in> set es \<and> hit x
          then sv_pts (mv_svfg ?s) x - R else sv_pts (mv_svfg ?s) x)\<rparr>, numOfRemovedPTS := k\<rparr>"
        "std_set_ok (snd (fold (strip_edge n2 R) es (?s, ?rem)))"
        "set (snd (fold (strip_edge n2 R) es (?s, ?rem))) =
          set ?rem \<union> {x \<in> set es. hit x \<and> sv_pts (mv_svfg ?s) x \<subseteq> R}"
      by blast
    have mv: "mv_svfg ?s = ?g1" by simp
    have p: "(\<lambda>x. if x \<in> set es \<and> hit x then sv_pts ?g1 x - R else sv_pts ?g1 x) =
        (\<lambda>x. if x \<in> set (e # es) \<and> hit x then sv_pts ?g x - R else sv_pts ?g x)"
    proof (rule ext)
      fix x
      show "(if x \<in> set es \<and> hit x then sv_pts ?g1 x - R else sv_pts ?g1 x) =
          (if x \<in> set (e # es) \<and> hit x then sv_pts ?g x - R else sv_pts ?g x)"
        using True by (cases "x = e") (simp_all add: Diff_Int)
    qed
    have "fst (fold (strip_edge n2 R) (e # es) (s, removed)) = s\<lparr>mv_svfg := ?g\<lparr>sv_pts :=
        (\<lambda>x. if x \<in> set (e # es) \<and> hit x then sv_pts ?g x - R else sv_pts ?g x)\<rparr>, numOfRemovedPTS := k\<rparr>"
      unfolding fold.simps o_apply st ih(1) mv p by simp
    moreover have "set ?rem \<union> {x \<in> set es. hit x \<and> sv_pts ?g1 x \<subseteq> R} =
        set removed \<union> {x \<in> set (e # es). hit x \<and> sv_pts ?g x \<subseteq> R}" using True by auto
    ultimately show ?thesis using ih(2,3) unfolding fold.simps o_apply st mv by metis
  qed
qed

lemma svfg_remove_sets:
  fixes g e
  defines "h \<equiv> g\<lparr>sv_in := (sv_in g)(edge_dst e := set_erase e (sv_in g (edge_dst e))),
    sv_out := (sv_out g)(edge_src e := set_erase e (sv_out g (edge_src e)))\<rparr>"
  assumes ok: "svfg_ok g"
  shows "set (sv_in h n) = set (sv_in g n) - {e}" "set (sv_out h n) = set (sv_out g n) - {e}"
    "std_set_ok (sv_in h n)" "std_set_ok (sv_out h n)"
proof -
  have "e \<notin> set (sv_in g n)" if "n \<noteq> edge_dst e" using that svfg_ok_dest(3) [OF ok, of e n] by blast
  then show "set (sv_in h n) = set (sv_in g n) - {e}"
    using set_set_erase [OF svfg_ok_dest(1) [OF ok]] by (cases "n = edge_dst e") (simp_all add: h_def)
  have "e \<notin> set (sv_out g n)" if "n \<noteq> edge_src e" using that svfg_ok_dest(6) [OF ok, of e n] by blast
  then show "set (sv_out h n) = set (sv_out g n) - {e}"
    using set_set_erase [OF svfg_ok_dest(2) [OF ok]] by (cases "n = edge_src e") (simp_all add: h_def)
  show "std_set_ok (sv_in h n)" "std_set_ok (sv_out h n)"
    using svfg_ok_dest(1,2) [OF ok] by (simp_all add: h_def std_set_ok_erase)
qed

lemma svfg_ok_remove:
  assumes ok: "svfg_ok g"
  shows "svfg_ok (g\<lparr>sv_in := (sv_in g)(edge_dst e := set_erase e (sv_in g (edge_dst e))),
    sv_out := (sv_out g)(edge_src e := set_erase e (sv_out g (edge_src e)))\<rparr>)" (is "svfg_ok ?h")
proof -
  note r = svfg_remove_sets [OF ok, of e]
  have ids: "sv_ids ?h = sv_ids g" by simp
  show ?thesis unfolding svfg_ok_def ids r(1,2)
    using r(3,4) svfg_ok_dest(3-8) [OF ok] by (metis Diff_iff)
qed

lemma drop_edges:
  assumes "svfg_ok (mv_svfg s)" "distinct es" "\<forall>e\<in>set es. e \<in> set (sv_in (mv_svfg s) (edge_dst e))"
  shows "\<exists>h k. foldM drop_edge es s = Some (s\<lparr>mv_svfg := h, numOfRemovedSVFGEdges := k\<rparr>) \<and> svfg_ok h \<and>
    same_nodes (mv_svfg s) h \<and> sv_pts h = sv_pts (mv_svfg s) \<and>
    (\<forall>n. set (sv_in h n) = set (sv_in (mv_svfg s) n) - set es) \<and>
    (\<forall>n. set (sv_out h n) = set (sv_out (mv_svfg s) n) - set es)"
  using assms
proof (induction es arbitrary: s)
  case Nil
  then show ?case
    by (intro exI [of _ "mv_svfg s"] exI [of _ "numOfRemovedSVFGEdges s"]) (simp add: same_nodes_def)
next
  case (Cons e es)
  let ?g = "mv_svfg s"
  let ?h = "?g\<lparr>sv_in := (sv_in ?g)(edge_dst e := set_erase e (sv_in ?g (edge_dst e))),
    sv_out := (sv_out ?g)(edge_src e := set_erase e (sv_out ?g (edge_src e)))\<rparr>"
  let ?s = "s\<lparr>mv_svfg := ?h, numOfRemovedSVFGEdges := numOfRemovedSVFGEdges s + 1\<rparr>"
  have e: "e \<in> set (sv_in ?g (edge_dst e))" "e \<in> set (sv_out ?g (edge_src e))"
    using Cons.prems(3) svfg_ok_dest(5) [OF Cons.prems(1), of e "edge_dst e"] by simp_all
  have d: "drop_edge e s = Some ?s"
    using e by (simp add: drop_edge_def removeSVFGEdge_def set_find_def upd_svfg_def)
  have ok: "svfg_ok ?h" by (rule svfg_ok_remove [OF Cons.prems(1)])
  have i: "set (sv_in (mv_svfg ?s) n) = set (sv_in ?g n) - {e}" for n
    using svfg_remove_sets(1) [OF Cons.prems(1), of e n] by simp
  have o: "set (sv_out (mv_svfg ?s) n) = set (sv_out ?g n) - {e}" for n
    using svfg_remove_sets(2) [OF Cons.prems(1), of e n] by simp
  have ok': "svfg_ok (mv_svfg ?s)" using ok by simp
  have "distinct es" using Cons.prems(2) by simp
  moreover have "\<forall>x\<in>set es. x \<in> set (sv_in (mv_svfg ?s) (edge_dst x))"
  proof
    fix x assume "x \<in> set es"
    then have "x \<in> set (sv_in ?g (edge_dst x))" "x \<noteq> e" using Cons.prems(2,3) by (simp, force)
    then show "x \<in> set (sv_in (mv_svfg ?s) (edge_dst x))" unfolding i by simp
  qed
  ultimately obtain h k where h: "foldM drop_edge es ?s = Some (?s\<lparr>mv_svfg := h, numOfRemovedSVFGEdges := k\<rparr>)" "svfg_ok h"
      "same_nodes (mv_svfg ?s) h" "sv_pts h = sv_pts (mv_svfg ?s)"
      "\<forall>n. set (sv_in h n) = set (sv_in (mv_svfg ?s) n) - set es"
      "\<forall>n. set (sv_out h n) = set (sv_out (mv_svfg ?s) n) - set es"
    using Cons.IH [OF ok'] by blast
  have "\<forall>n. set (sv_in h n) = set (sv_in ?g n) - set (e # es)" unfolding h(5) [rule_format] i by auto
  moreover have "\<forall>n. set (sv_out h n) = set (sv_out ?g n) - set (e # es)" unfolding h(6) [rule_format] o by auto
  moreover have "same_nodes ?g h" using h(3) by (simp add: same_nodes_def)
  moreover have "foldM drop_edge (e # es) s = Some (s\<lparr>mv_svfg := h, numOfRemovedSVFGEdges := k\<rparr>)"
    using h(1) by (simp add: d)
  ultimately show ?case using h(2,4) by (intro exI [of _ h] exI [of _ k]) simp
qed

lemma remove_recorded_result:
  assumes s: "stripped g D Q (mv_svfg s)" and p: "p \<notin> Q" and D: "map_at {} (edge2pts s) p = D p"
    and g: "svfg_ok g" and e0: "e0 \<in> set (sv_in g (snd p))" "ends e0 = p"
  shows "\<exists>t. remove_recorded p s = Some t \<and> stripped g D (insert p Q) (mv_svfg t) \<and> edge2pts t = edge2pts s \<and>
    stnodeSet t = stnodeSet s"
proof -
  obtain a b where ab: "p = (a, b)" by (cases p)
  let ?g = "mv_svfg s" and ?R = "D (a, b)"
  have ok: "svfg_ok ?g" and n: "same_nodes g ?g"
    and i: "\<And>n. set (sv_in ?g n) = {e \<in> set (sv_in g n). \<not> emptied g Q D e}"
    and o: "\<And>n. set (sv_out ?g n) = {e \<in> set (sv_out g n). \<not> emptied g Q D e}"
    and pt: "\<And>n e. e \<in> set (sv_in ?g n) \<Longrightarrow> sv_pts ?g e = sv_pts g e - loses D Q e"
    using s unfolding stripped_def by blast+
  have e1: "e0 \<in> set (sv_in ?g b)" using e0 p unfolding i emptied_def by (simp add: ab)
  have e2: "e0 \<in> set (sv_out ?g a)" using svfg_ok_dest(5) [OF ok e1] e0(2) by (simp add: ab ends_def)
  have ids: "a \<in> set (sv_ids ?g)" "b \<in> set (sv_ids ?g)"
    using svfg_ok_dest(4) [OF ok e1] svfg_ok_dest(7) [OF ok e2] e0(2) by (simp_all add: ab ends_def)
  let ?hit = "\<lambda>e. isIndirectVFGEdge e \<and> edge_dst e = b"
  let ?h0 = "?g\<lparr>sv_pts := (\<lambda>e. if e \<in> set (sv_out ?g a) \<and> ?hit e then sv_pts ?g e - ?R else sv_pts ?g e)\<rparr>"
  obtain k1 rem where st: "fold (strip_edge b ?R) (sv_out ?g a) (s, []) = (s\<lparr>mv_svfg := ?h0, numOfRemovedPTS := k1\<rparr>, rem)"
      "std_set_ok rem" "set rem = {e \<in> set (sv_out ?g a). ?hit e \<and> sv_pts ?g e \<subseteq> ?R}"
    using strip_edges [of "[]" b ?R "sv_out ?g a" s] by (cases "fold (strip_edge b ?R) (sv_out ?g a) (s, [])") auto
  let ?s = "s\<lparr>mv_svfg := ?h0, numOfRemovedPTS := k1\<rparr>"
  have ok0: "svfg_ok (mv_svfg ?s)" using ok unfolding svfg_ok_def by simp
  have rin: "\<forall>e\<in>set rem. e \<in> set (sv_in (mv_svfg ?s) (edge_dst e))"
    unfolding st(3) using svfg_ok_dest(8) [OF ok, of _ a] by auto
  have "distinct rem" using st(2) by (simp add: strict_sorted_iff')
  from drop_edges [OF ok0 this rin] obtain h k where h: "foldM drop_edge rem ?s = Some (?s\<lparr>mv_svfg := h, numOfRemovedSVFGEdges := k\<rparr>)"
      "svfg_ok h" "same_nodes (mv_svfg ?s) h" "sv_pts h = sv_pts (mv_svfg ?s)"
      "\<And>n. set (sv_in h n) = set (sv_in (mv_svfg ?s) n) - set rem"
      "\<And>n. set (sv_out h n) = set (sv_out (mv_svfg ?s) n) - set rem"
    by blast
  have fst_eq: "e \<in> set (sv_out ?g a) \<and> ?hit e \<longleftrightarrow> isIndirectVFGEdge e \<and> ends e = p"
    if "e \<in> set (sv_in ?g n) \<or> e \<in> set (sv_out ?g n)" for e n
  proof -
    have "e \<in> set (sv_out ?g (edge_src e))"
      using that svfg_ok_dest(5) [OF ok, of e n] svfg_ok_dest(6) [OF ok, of e n] by blast
    moreover have "e \<in> set (sv_out ?g a) \<Longrightarrow> edge_src e = a" by (rule svfg_ok_dest(6) [OF ok])
    ultimately show ?thesis unfolding ab ends_def prod.inject by blast
  qed
  have lp: "loses D (insert p Q) e = (if isIndirectVFGEdge e \<and> ends e = p then ?R else loses D Q e)" for e
    unfolding loses_def ab by (cases "isIndirectVFGEdge e"; cases "ends e = (a, b)") simp_all
  have np: "loses D Q e = {}" if "ends e = p" for e using p that by (simp add: loses_def)
  have rem: "e \<in> set rem \<longleftrightarrow> isIndirectVFGEdge e \<and> ends e = p \<and> sv_pts g e \<subseteq> ?R"
    if "e \<in> set (sv_in ?g n) \<or> e \<in> set (sv_out ?g n)" for e n
  proof -
    have "e \<in> set (sv_in ?g (edge_dst e))" using that svfg_ok_dest(3,8) [OF ok] by metis
    then have "sv_pts ?g e = sv_pts g e - loses D Q e" by (rule pt)
    then show ?thesis unfolding st(3) using fst_eq [OF that] np [of e] by auto
  qed
  have em: "emptied g (insert p Q) D e \<longleftrightarrow> emptied g Q D e \<or> isIndirectVFGEdge e \<and> ends e = p \<and> sv_pts g e \<subseteq> ?R" for e
    by (auto simp: emptied_def ab)
  have "stripped g D (insert p Q) h"
    unfolding stripped_def
  proof (intro conjI allI ballI)
    show "same_nodes g h" using n h(3) by (simp add: same_nodes_def)
    show "set (sv_in h n) = {e \<in> set (sv_in g n). \<not> emptied g (insert p Q) D e}" for n
    proof -
      have "set (sv_in h n) = {e \<in> set (sv_in ?g n). e \<notin> set rem}" unfolding h(5) by auto
      also have "\<dots> = {e \<in> set (sv_in ?g n). \<not> (isIndirectVFGEdge e \<and> ends e = p \<and> sv_pts g e \<subseteq> ?R)}"
        using rem by blast
      finally show ?thesis unfolding i em by blast
    qed
    show "set (sv_out h n) = {e \<in> set (sv_out g n). \<not> emptied g (insert p Q) D e}" for n
    proof -
      have "set (sv_out h n) = {e \<in> set (sv_out ?g n). e \<notin> set rem}" unfolding h(6) by auto
      also have "\<dots> = {e \<in> set (sv_out ?g n). \<not> (isIndirectVFGEdge e \<and> ends e = p \<and> sv_pts g e \<subseteq> ?R)}"
        using rem by blast
      finally show ?thesis unfolding o em by blast
    qed
    show "sv_pts h e = sv_pts g e - loses D (insert p Q) e" if "e \<in> set (sv_in h n)" for n e
    proof -
      have e: "e \<in> set (sv_in ?g n)" using that unfolding h(5) by simp
      have "sv_pts h e = (if isIndirectVFGEdge e \<and> ends e = p then sv_pts ?g e - ?R else sv_pts ?g e)"
        unfolding h(4) using fst_eq [of e n] e by auto
      then show ?thesis unfolding lp pt [OF e] using np [of e] by auto
    qed
  qed (rule h(2))
  moreover have "sv_out ?g a \<noteq> []" "sv_in ?g b \<noteq> []" using e1 e2 by auto
  then have "remove_recorded p s = Some (?s\<lparr>mv_svfg := h, numOfRemovedSVFGEdges := k\<rparr>)"
    using ids D by (simp add: remove_recorded_def ab Let_def st(1) h(1))
  ultimately show ?thesis by (intro exI [of _ "?s\<lparr>mv_svfg := h, numOfRemovedSVFGEdges := k\<rparr>"]) simp
qed

lemma remove_all_result:
  assumes "stripped g D Q (mv_svfg s)" "distinct ps" "set ps \<inter> Q = {}" "svfg_ok g"
    and "\<forall>p\<in>set ps. map_at {} (edge2pts s) p = D p \<and> (\<exists>e\<in>set (sv_in g (snd p)). ends e = p)"
  shows "\<exists>t. foldM remove_recorded ps s = Some t \<and> stripped g D (Q \<union> set ps) (mv_svfg t)"
  using assms(1-3,5)
proof (induction ps arbitrary: Q s)
  case (Cons p ps)
  then obtain e where e: "e \<in> set (sv_in g (snd p))" "ends e = p" "map_at {} (edge2pts s) p = D p" by auto
  have np: "p \<notin> Q" using Cons.prems(3) by simp
  obtain t where t: "remove_recorded p s = Some t" "stripped g D (insert p Q) (mv_svfg t)" "edge2pts t = edge2pts s"
    using remove_recorded_result [OF Cons.prems(1) np e(3) assms(4) e(1,2)] by blast
  have "\<exists>u. foldM remove_recorded ps t = Some u \<and> stripped g D (insert p Q \<union> set ps) (mv_svfg u)"
    using Cons.prems by (intro Cons.IH [OF t(2)]) (auto simp: t(3))
  then show ?case by (simp add: t(1))
qed simp

section \<open>The whole step\<close>

text \<open>The objects that an edge into one of the nodes \<open>N\<close> need not carry.\<close>

definition redundant :: "svfg \<Rightarrow> vnode set \<Rightarrow> vnode \<times> vnode \<Rightarrow> nat set" where
  "redundant g N p = \<Union> (covered g ` {e \<in> (\<Union>n\<in>N. set (sv_in g n)). store_edge g e \<and> ends e = p})"

lemma redundant_dest:
  assumes "x \<in> redundant g N (a, b)" "svfg_ok g"
  shows "isStore g a" "b \<in> N"
    "accesses_after (\<lambda>e. x \<in> sv_pts g e) g b \<subseteq> accesses_after (\<lambda>e. x \<in> sv_pts g e) g a"
proof -
  obtain e n where e: "e \<in> set (sv_in g n)" "n \<in> N" "store_edge g e" "ends e = (a, b)" "x \<in> covered g e"
    using assms(1) unfolding redundant_def by blast
  then have "edge_src e = a" "edge_dst e = b" by (simp_all add: ends_def)
  then show "isStore g a" "b \<in> N"
    "accesses_after (\<lambda>e. x \<in> sv_pts g e) g b \<subseteq> accesses_after (\<lambda>e. x \<in> sv_pts g e) g a"
    using e svfg_ok_dest(3) [OF assms(2) e(1)] by (auto simp: store_edge_def covered_def)
qed

lemma readPrecision_stripped:
  fixes s
  defines "R \<equiv> redundant (mv_svfg s) (set (stnodeSet s))"
  assumes ok: "svfg_ok (mv_svfg s)" and fin: "\<forall>e. finite (sv_pts (mv_svfg s) e)"
  shows "\<exists>t. readPrecision s = Some t \<and> stripped (mv_svfg s) R {p. R p \<noteq> {}} (mv_svfg t)"
proof -
  let ?g = "mv_svfg s" and ?s = "s\<lparr>recordedges := [], edge2pts := Map.empty\<rparr>"
  let ?P = "\<Union>n\<in>set (stnodeSet s). set (sv_in ?g n)"
  have "recorded ?g {} ?s" by (simp add: recorded_def)
  from read_stores_result [OF ok fin this, of "stnodeSet s"] obtain u where
    u: "foldM read_store (stnodeSet s) ?s = Some u" "recorded ?g ?P u" by auto
  have g: "mv_svfg u = ?g" and rs: "std_set_ok (recordedges u)"
    and rq: "set (recordedges u) = ends ` {e \<in> ?P. store_edge ?g e \<and> covered ?g e \<noteq> {}}"
    and rp: "\<And>p. p \<in> set (recordedges u) \<Longrightarrow> edge2pts u p = Some (R p)"
    using u(2) by (simp_all add: recorded_def R_def redundant_def)
  have q: "set (recordedges u) = {p. R p \<noteq> {}}" unfolding rq R_def redundant_def by blast
  have "\<forall>p\<in>set (recordedges u). map_at {} (edge2pts (u\<lparr>recordedges := []\<rparr>)) p = R p \<and>
      (\<exists>e\<in>set (sv_in ?g (snd p)). ends e = p)"
  proof
    fix p assume p: "p \<in> set (recordedges u)"
    then obtain e n where e: "e \<in> set (sv_in ?g n)" "ends e = p" unfolding rq by blast
    then have "snd p = n" using svfg_ok_dest(3) [OF ok e(1)] by (auto simp: ends_def)
    then show "map_at {} (edge2pts (u\<lparr>recordedges := []\<rparr>)) p = R p \<and> (\<exists>e\<in>set (sv_in ?g (snd p)). ends e = p)"
      using e rp [OF p] by (auto simp: map_at_def)
  qed
  moreover have "stripped ?g R {} (mv_svfg (u\<lparr>recordedges := []\<rparr>))" using stripped_none [OF ok] by (simp add: g)
  moreover have "distinct (recordedges u)" using rs by (simp add: strict_sorted_iff')
  ultimately obtain t where "foldM remove_recorded (recordedges u) (u\<lparr>recordedges := []\<rparr>) = Some t"
      "stripped ?g R ({} \<union> set (recordedges u)) (mv_svfg t)"
    using remove_all_result [of ?g R "{}" "u\<lparr>recordedges := []\<rparr>" "recordedges u"] ok by auto
  then show ?thesis by (simp add: readPrecision_def u(1) performRemovingMHPEdges_def q)
qed

text \<open>The flows of one object.\<close>

definition obj_flow :: "svfg \<Rightarrow> nat \<Rightarrow> (vnode \<times> vnode) set" where
  "obj_flow g x = {(a, b). \<exists>e\<in>set (sv_out g a). isIndirectVFGEdge e \<and> edge_dst e = b \<and> x \<in> sv_pts g e}"

lemma obj_flow_targets: "targets (\<lambda>e. x \<in> sv_pts g e) g a = {b. (a, b) \<in> obj_flow g x}"
  by (auto simp: targets_def obj_flow_def)

definition hop :: "svfg \<Rightarrow> nat \<Rightarrow> (vnode \<times> vnode) set" where
  "hop g x = {(a, b). b \<in> accesses_after (\<lambda>e. x \<in> sv_pts g e) g a}"

abbreviation access :: "svfg \<Rightarrow> vnode \<Rightarrow> bool" where
  "access g n \<equiv> isStore g n \<or> isLoad g n"

lemma hop_iff: "(a, b) \<in> hop g x \<longleftrightarrow> access g b \<and>
    b \<in> reach (walk_succ (access g) (targets (\<lambda>e. x \<in> sv_pts g e) g)) {c. (a, c) \<in> obj_flow g x}"
  by (auto simp: hop_def accesses_after_def first_stops_def obj_flow_targets)

lemma hop_flow: "(a, b) \<in> obj_flow g x \<Longrightarrow> access g b \<Longrightarrow> (a, b) \<in> hop g x"
  unfolding hop_iff by (blast intro: reach_root)

lemma hop_skip:
  assumes "(a, n) \<in> obj_flow g x" "\<not> access g n" "(n, b) \<in> hop g x"
  shows "(a, b) \<in> hop g x"
proof -
  have "b \<in> reach (walk_succ (access g) (targets (\<lambda>e. x \<in> sv_pts g e) g)) {c. (n, c) \<in> obj_flow g x}"
    using assms(3) by (simp add: hop_iff)
  then have "b \<in> reach (walk_succ (access g) (targets (\<lambda>e. x \<in> sv_pts g e) g)) {c. (a, c) \<in> obj_flow g x}"
  proof (rule reach_least [THEN subsetD, rotated 2])
    have n: "n \<in> reach (walk_succ (access g) (targets (\<lambda>e. x \<in> sv_pts g e) g)) {c. (a, c) \<in> obj_flow g x}"
      using assms(1) by (auto intro: reach_root)
    show "{c. (n, c) \<in> obj_flow g x} \<subseteq>
        reach (walk_succ (access g) (targets (\<lambda>e. x \<in> sv_pts g e) g)) {c. (a, c) \<in> obj_flow g x}"
      using assms(2) by (auto intro!: reach_step [OF n] simp: walk_succ_def obj_flow_targets)
  qed (rule reach_step)
  then show ?thesis using assms(3) by (simp add: hop_iff)
qed

lemma flow_hops:
  assumes "(a, l) \<in> (obj_flow g x)\<^sup>+" "access g l"
  shows "(a, l) \<in> (hop g x)\<^sup>+"
  using assms(1)
proof (induction rule: converse_trancl_induct)
  case (base a)
  then show ?case using hop_flow assms(2) by blast
next
  case (step a n)
  show ?case
  proof (cases "access g n")
    case True
    then show ?thesis using hop_flow [OF step(1)] step(3) by (meson trancl_into_trancl2)
  next
    case False
    from step(3) obtain c where c: "(n, c) \<in> hop g x" "(c, l) \<in> (hop g x)\<^sup>*" by (meson tranclD)
    then show ?thesis using hop_skip [OF step(1) False c(1)] by (meson rtrancl_into_trancl2)
  qed
qed

text \<open>An object leaves the edges from \<open>a\<close> to \<open>b\<close>, or stays on all of them.\<close>

lemma stripped_flow:
  assumes s: "stripped g R {p. R p \<noteq> {}} h" and g: "svfg_ok g"
  shows "(a, b) \<in> obj_flow h x \<longleftrightarrow> (a, b) \<in> obj_flow g x \<and> x \<notin> R (a, b)"
proof -
  have h: "svfg_ok h" and o: "set (sv_out h a) = {e \<in> set (sv_out g a). \<not> emptied g {p. R p \<noteq> {}} R e}"
    and pt: "\<And>n e. e \<in> set (sv_in h n) \<Longrightarrow> sv_pts h e = sv_pts g e - loses R {p. R p \<noteq> {}} e"
    using s unfolding stripped_def by blast+
  have "(x \<in> sv_pts g e \<and> x \<notin> R (a, b)) \<longleftrightarrow> \<not> emptied g {p. R p \<noteq> {}} R e \<and> x \<in> sv_pts h e"
    if e: "e \<in> set (sv_out g a)" "isIndirectVFGEdge e" "edge_dst e = b" for e
  proof -
    have p: "ends e = (a, b)" using e svfg_ok_dest(6) [OF g e(1)] by (simp add: ends_def)
    have l: "loses R {p. R p \<noteq> {}} e = R (a, b)" using e(2) p by (auto simp: loses_def)
    show ?thesis
    proof (cases "emptied g {p. R p \<noteq> {}} R e")
      case True
      then show ?thesis unfolding emptied_def p by blast
    next
      case False
      then have "e \<in> set (sv_out h a)" using o e(1) by simp
      then show ?thesis using False pt [OF svfg_ok_dest(8) [OF h]] l by auto
    qed
  qed
  then show ?thesis unfolding obj_flow_def o mem_Collect_eq prod.case by blast
qed

lemma redundant_iff:
  assumes f: "(a, b) \<in> obj_flow g x" and g: "svfg_ok g"
  shows "x \<in> redundant g N (a, b) \<longleftrightarrow> isStore g a \<and> b \<in> N \<and>
    accesses_after (\<lambda>e. x \<in> sv_pts g e) g b \<subseteq> accesses_after (\<lambda>e. x \<in> sv_pts g e) g a" (is "_ \<longleftrightarrow> ?c")
proof
  assume "x \<in> redundant g N (a, b)"
  then show ?c using redundant_dest [OF _ g] by blast
next
  assume c: ?c
  obtain e where e: "e \<in> set (sv_out g a)" "isIndirectVFGEdge e" "edge_dst e = b" "x \<in> sv_pts g e"
    using f unfolding obj_flow_def by blast
  have "edge_src e = a" "e \<in> set (sv_in g b)"
    using svfg_ok_dest(6,8) [OF g e(1)] e(3) by simp_all
  then show "x \<in> redundant g N (a, b)" unfolding redundant_def using c e
    by (intro UN_I [of e]) (auto simp: store_edge_def ends_def covered_def)
qed

lemma stripped_nonempty:
  assumes s: "stripped g R {p. R p \<noteq> {}} h" and e: "e \<in> set (sv_in h n)" "sv_pts h e = {}"
  shows "sv_pts g e = {}"
proof (rule ccontr)
  assume ne: "sv_pts g e \<noteq> {}"
  have i: "\<not> emptied g {p. R p \<noteq> {}} R e" and pt: "sv_pts h e = sv_pts g e - loses R {p. R p \<noteq> {}} e"
    using s e(1) unfolding stripped_def by blast+
  have "sv_pts g e \<subseteq> loses R {p. R p \<noteq> {}} e" using pt e(2) by blast
  then have "emptied g {p. R p \<noteq> {}} R e" using ne by (auto simp: loses_def emptied_def split: if_splits)
  then show False using i by blast
qed

lemma hop_kept:
  assumes s: "stripped g (redundant g N) {p. redundant g N p \<noteq> {}} h" and g: "svfg_ok g"
    and N: "\<forall>n\<in>N. isStore g n" and hop: "(a, c) \<in> hop g x"
  shows "(a, c) \<in> (obj_flow h x)\<^sup>+ \<or> isStore g c \<and> (\<forall>d. (c, d) \<in> hop g x \<longrightarrow> (a, d) \<in> hop g x)"
proof -
  let ?ok = "\<lambda>c. (a, c) \<in> (obj_flow h x)\<^sup>+ \<or> isStore g c \<and> (\<forall>d. (c, d) \<in> hop g x \<longrightarrow> (a, d) \<in> hop g x)"
  note f = stripped_flow [OF s g]
  have "reach (walk_succ (access g) (targets (\<lambda>e. x \<in> sv_pts g e) g)) {c. (a, c) \<in> obj_flow g x} \<subseteq> {c. ?ok c}"
  proof (rule reach_least)
    show "{c. (a, c) \<in> obj_flow g x} \<subseteq> {c. ?ok c}"
    proof safe
      fix c assume c: "(a, c) \<in> obj_flow g x" and n: "(a, c) \<notin> (obj_flow h x)\<^sup>+"
      then have "x \<in> redundant g N (a, c)" using f [of a c x] by blast
      note r = redundant_dest [OF this g]
      show "isStore g c" using r(2) N by blast
      fix d assume "(c, d) \<in> hop g x"
      then show "(a, d) \<in> hop g x" using r(3) by (auto simp: hop_def)
    qed
    fix y z assume y: "y \<in> {c. ?ok c}" and z: "z \<in> walk_succ (access g) (targets (\<lambda>e. x \<in> sv_pts g e) g) y"
    then have na: "\<not> access g y" and yz: "(y, z) \<in> obj_flow g x"
      by (auto simp: walk_succ_def obj_flow_targets split: if_splits)
    have "x \<notin> redundant g N (y, z)" using redundant_dest(1) [OF _ g] na by blast
    then have "(y, z) \<in> obj_flow h x" using f yz by blast
    moreover have "(a, y) \<in> (obj_flow h x)\<^sup>+" using y na by blast
    ultimately show "z \<in> {c. ?ok c}" by (blast intro: trancl_into_trancl)
  qed
  then show ?thesis using hop by (auto simp: hop_iff)
qed

lemma loads_kept:
  assumes s: "stripped g (redundant g N) {p. redundant g N p \<noteq> {}} h" and g: "svfg_ok g"
    and N: "\<forall>n\<in>N. isStore g n" and l: "isLoad g l"
  shows "(a, l) \<in> (obj_flow h x)\<^sup>+ \<longleftrightarrow> (a, l) \<in> (obj_flow g x)\<^sup>+"
proof
  have "obj_flow h x \<subseteq> obj_flow g x" using stripped_flow [OF s g] by auto
  then show "(a, l) \<in> (obj_flow h x)\<^sup>+ \<Longrightarrow> (a, l) \<in> (obj_flow g x)\<^sup>+" by (rule trancl_mono [rotated])
  have "(a, l) \<in> (obj_flow h x)\<^sup>+" if "(a, l) \<in> hop g x ^^ Suc k" for k a
    using that
  proof (induction k arbitrary: a)
    case 0
    then have "(a, l) \<in> hop g x" by simp
    then show ?case using hop_kept [OF s g N] l by (metis isLoad_def isStore_def svfg_node_kind.distinct(1))
  next
    case (Suc k)
    then obtain c where c: "(a, c) \<in> hop g x" "(c, l) \<in> hop g x ^^ Suc k" by (metis relpow_Suc_D2)
    show ?case
    proof (cases "(a, c) \<in> (obj_flow h x)\<^sup>+")
      case True
      then show ?thesis using Suc.IH [OF c(2)] by (rule trancl_trans)
    next
      case False
      obtain d where d: "(c, d) \<in> hop g x" "(d, l) \<in> hop g x ^^ k" using c(2) by (metis relpow_Suc_D2)
      then have "(a, d) \<in> hop g x" using hop_kept [OF s g N c(1)] False by blast
      then have "(a, l) \<in> hop g x ^^ Suc k" using d(2) by (metis relpow_Suc_I2)
      then show ?thesis by (rule Suc.IH)
    qed
  qed
  moreover assume "(a, l) \<in> (obj_flow g x)\<^sup>+"
  then have "(a, l) \<in> (hop g x)\<^sup>+" using flow_hops l by blast
  then have "\<exists>k. (a, l) \<in> hop g x ^^ Suc k" by (metis trancl_power gr0_implies_Suc)
  ultimately show "(a, l) \<in> (obj_flow h x)\<^sup>+" by blast
qed

section \<open>The whole construction\<close>

text \<open>A store and another store or a load.\<close>

definition thread_pairs :: "svfg \<Rightarrow> (vnode \<times> vnode) set" where
  "thread_pairs g = {(a, b). store_node g a \<and> (store_node g b \<or> load_node g b) \<and> a \<noteq> b}"

lemma flows_added_finite:
  assumes "flows_added E g A h" "\<forall>e. finite (sv_pts g e)" "\<forall>p. finite (ve_getPts E p)"
  shows "\<forall>e. finite (sv_pts h e)"
proof
  fix e
  have "sv_pts h e = (if e \<in> (\<lambda>(a, b). td_edge a b) ` A
      then (if e \<in> set (sv_in g (edge_dst e)) then sv_pts g e else {}) \<union> flow E g (edge_src e) (edge_dst e)
      else sv_pts g e)" using assms(1) unfolding flows_added_def by blast
  moreover have "finite (flow E g a b)" for a b using assms(3) by (simp add: flow_def)
  ultimately show "finite (sv_pts h e)" using assms(2) [rule_format, of e] by simp
qed

lemma connect_flows:
  assumes "svfg_ok g" "spans_known E g"
  defines "s0 \<equiv> (collectLoadStoreSVFGNodes (mta_svfg_new g))\<lparr>recordedges := [], edge2pts := Map.empty\<rparr>"
  shows "\<exists>s A. connect_pairs E (stnodeSet s0) (ldnodeSet s0) s0 = Some s \<and> flows_added E g A (mv_svfg s) \<and>
    pairs_done E g (thread_pairs g) A \<and> (\<forall>n\<in>set (stnodeSet s). isStore g n)"
proof -
  note c = collect_new [of g]
  have "vf_inv E g {} s0" using flows_added_none [OF assms(1)] by (simp add: vf_inv_def caches_ok_def s0_def c store_node_def)
  moreover have "\<forall>a\<in>set (stnodeSet s0). store_node g a" "\<forall>b\<in>set (ldnodeSet s0). load_node g b"
    by (simp_all add: s0_def c)
  moreover have "std_set_ok (stnodeSet s0)" using c(2) by (simp add: s0_def)
  ultimately obtain s A where "connect_pairs E (stnodeSet s0) (ldnodeSet s0) s0 = Some s" "vf_inv E g ({} \<union> A) s"
      "pairs_done E g {(a, b). a \<in> set (stnodeSet s0) \<and> b \<in> set (stnodeSet s0) \<union> set (ldnodeSet s0) \<and> a \<noteq> b} A"
    using connect_pairs_result [OF assms(2)] by blast
  moreover have "{(a, b). a \<in> set (stnodeSet s0) \<and> b \<in> set (stnodeSet s0) \<union> set (ldnodeSet s0) \<and> a \<noteq> b} = thread_pairs g"
    by (auto simp: thread_pairs_def s0_def c)
  ultimately show ?thesis by (auto simp: vf_inv_def caches_ok_def)
qed

text \<open>C16: Adding the flows between threads returns, and adds the edges of a set of pairs of a store and
  another store or a load: every pair that may run in parallel, may alias and shares no lock is in
  it, and of the pairs with a common lock only those where the first is the last store of its span and
  the second the first access of its own. Each edge carries the common objects. The read
  precision step that may follow removes no flow of an object into a load.\<close>

theorem thread_flows:
  assumes "svfg_ok g" "spans_known E g" "AddModelFlag E \<noteq> ADDEDGE_NOEDGE"
    and "\<forall>e. finite (sv_pts g e)" "\<forall>p. finite (ve_getPts E p)"
  shows "\<exists>s A h. createSVFG E (mta_svfg_new g) = Some s \<and> flows_added E g A h \<and>
    {(a, b) \<in> thread_pairs g. must_flow E g a b} \<subseteq> A \<and> A \<subseteq> {(a, b) \<in> thread_pairs g. may_flow E g a b} \<and>
    (\<not> (ReadPrecisionTDEdge E \<and> AddModelFlag E \<noteq> ADDEDGE_NORP) \<longrightarrow> mv_svfg s = h) \<and>
    (\<forall>x a l. isLoad g l \<longrightarrow> ((a, l) \<in> (obj_flow (mv_svfg s) x)\<^sup>+ \<longleftrightarrow> (a, l) \<in> (obj_flow h x)\<^sup>+))"
proof -
  let ?s0 = "(collectLoadStoreSVFGNodes (mta_svfg_new g))\<lparr>recordedges := [], edge2pts := Map.empty\<rparr>"
  obtain s A where s: "connect_pairs E (stnodeSet ?s0) (ldnodeSet ?s0) ?s0 = Some s" "flows_added E g A (mv_svfg s)"
      "pairs_done E g (thread_pairs g) A" "\<forall>n\<in>set (stnodeSet s). isStore g n"
    using connect_flows [OF assms(1,2)] by blast
  note n = flows_added_nodes [OF s(2)]
  have pd: "{(a, b) \<in> thread_pairs g. must_flow E g a b} \<subseteq> A" "A \<subseteq> {(a, b) \<in> thread_pairs g. may_flow E g a b}"
    using s(3) by (simp_all add: pairs_done_def)
  have c: "createSVFG E (mta_svfg_new g) =
      (if ReadPrecisionTDEdge E \<and> AddModelFlag E \<noteq> ADDEDGE_NORP then readPrecision s else Some s)"
    using assms(3) s(1) by (auto simp: createSVFG_def connectMHPEdges_def Let_def)
  show ?thesis
  proof (cases "ReadPrecisionTDEdge E \<and> AddModelFlag E \<noteq> ADDEDGE_NORP")
    case True
    obtain t where t: "readPrecision s = Some t"
        "stripped (mv_svfg s) (redundant (mv_svfg s) (set (stnodeSet s)))
          {p. redundant (mv_svfg s) (set (stnodeSet s)) p \<noteq> {}} (mv_svfg t)"
      using readPrecision_stripped [OF n(1) flows_added_finite [OF s(2) assms(4,5)]] by blast
    have "isLoad g l \<longrightarrow> ((a, l) \<in> (obj_flow (mv_svfg t) x)\<^sup>+ \<longleftrightarrow> (a, l) \<in> (obj_flow (mv_svfg s) x)\<^sup>+)" for x a l
      using loads_kept [OF t(2) n(1)] s(4) by (simp add: n(3,4))
    then show ?thesis using True s(2) pd t(1) unfolding c
      by (intro exI [of _ t] exI [of _ A] exI [of _ "mv_svfg s"] conjI) simp_all
  next
    case False
    then have "createSVFG E (mta_svfg_new g) = Some s" unfolding c by (rule if_not_P)
    then show ?thesis using False s(2) pd
      by (intro exI [of _ s] exI [of _ A] exI [of _ "mv_svfg s"] conjI) simp_all
  qed
qed

text \<open>C18: The read precision step returns, and takes an object off the edges from a store to a collected store
  exactly when every access the object reaches next from the second is one it reaches next from the
  first; afterwards every edge either carries something or carried nothing before, and the loads that
  an object reaches from a node are the same.\<close>

theorem readPrecision_keeps:
  assumes "svfg_ok (mv_svfg s)" "\<forall>e. finite (sv_pts (mv_svfg s) e)" "\<forall>n\<in>set (stnodeSet s). isStore (mv_svfg s) n"
  shows "\<exists>t. readPrecision s = Some t \<and> svfg_ok (mv_svfg t) \<and> same_nodes (mv_svfg s) (mv_svfg t) \<and>
    (\<forall>a b x. (a, b) \<in> obj_flow (mv_svfg t) x \<longleftrightarrow> (a, b) \<in> obj_flow (mv_svfg s) x \<and>
       \<not> (isStore (mv_svfg s) a \<and> b \<in> set (stnodeSet s) \<and>
         accesses_after (\<lambda>e. x \<in> sv_pts (mv_svfg s) e) (mv_svfg s) b \<subseteq>
         accesses_after (\<lambda>e. x \<in> sv_pts (mv_svfg s) e) (mv_svfg s) a)) \<and>
    (\<forall>n. \<forall>e\<in>set (sv_in (mv_svfg t) n). sv_pts (mv_svfg t) e = {} \<longrightarrow> sv_pts (mv_svfg s) e = {}) \<and>
    (\<forall>x a l. isLoad (mv_svfg s) l \<longrightarrow>
       ((a, l) \<in> (obj_flow (mv_svfg t) x)\<^sup>+ \<longleftrightarrow> (a, l) \<in> (obj_flow (mv_svfg s) x)\<^sup>+))"
proof -
  let ?g = "mv_svfg s" and ?N = "set (stnodeSet s)"
  let ?R = "redundant ?g ?N"
  obtain t where t: "readPrecision s = Some t" "stripped ?g ?R {p. ?R p \<noteq> {}} (mv_svfg t)"
    using readPrecision_stripped [OF assms(1,2)] by blast
  let ?h = "mv_svfg t"
  have h: "svfg_ok ?h" "same_nodes ?g ?h" using t(2) unfolding stripped_def by blast+
  have "sv_pts ?g e = {}" if "e \<in> set (sv_in ?h n)" "sv_pts ?h e = {}" for n e
    using stripped_nonempty [OF t(2) that] .
  then show ?thesis using t(1) h stripped_flow [OF t(2) assms(1)] redundant_iff [OF _ assms(1)] loads_kept [OF t(2) assms(1,3)]
    by (intro exI [of _ t] conjI) blast+
qed

section \<open>Witnesses\<close>

text \<open>Two stores in a row and a load, without and with the edges to the load.\<close>

definition vf_small :: svfg where
  "vf_small = \<lparr>sv_ids = [1, 2, 3], sv_kind = (\<lambda>n. if n = 3 then LoadNode else StoreNode),
     sv_inst = (\<lambda>n. Some (if n = 1 then 10 else if n = 2 then 12 else 20)), sv_src = (\<lambda>_. 5), sv_dst = (\<lambda>_. 5),
     sv_in = (\<lambda>n. if n = 2 then [(1, 1, 2)] else []), sv_out = (\<lambda>n. if n = 1 then [(1, 1, 2)] else []),
     sv_pts = (\<lambda>_. {7})\<rparr>"

definition vf_triangle :: svfg where
  "vf_triangle = vf_small\<lparr>
     sv_in := (\<lambda>n. if n = 2 then [(1, 1, 2)] else if n = 3 then [(1, 1, 3), (1, 2, 3)] else []),
     sv_out := (\<lambda>n. if n = 1 then [(1, 1, 2), (1, 1, 3)] else if n = 2 then [(1, 2, 3)] else [])\<rparr>"

definition both_locked :: lock_analysis where
  "both_locked = la_new\<lparr>instToCxtStmtSet := [10 \<mapsto> [CxtStmt [] 10], 12 \<mapsto> [CxtStmt [] 12]],
     cxtStmtToCxtLockSet := [CxtStmt [] 10 \<mapsto> [CxtStmt [] 7], CxtStmt [] 12 \<mapsto> [CxtStmt [] 7]]\<rparr>"

definition vf_example :: vf_env where
  "vf_example = \<lparr>ve_prog = locked_store, ve_locks = both_locked, ve_mhp = (\<lambda>_ _. True), ve_pcg = (\<lambda>_ _. True),
     ve_getPts = (\<lambda>_. {7}), ve_alias = (\<lambda>_ _. MayAlias), UsePCG = False, ReadPrecisionTDEdge = True, AddModelFlag = 2\<rparr>"

lemma vf_graphs_ok: "svfg_ok vf_small" "svfg_ok vf_triangle"
  by (auto simp: svfg_ok_def vf_small_def vf_triangle_def edge_src_def edge_dst_def split: if_splits)

lemma both_locked_spans: "isInSameSpan both_locked i j = Some (i \<in> {10, 12} \<and> j \<in> {10, 12})"
  by (auto simp: isInSameSpan_def isInsideIntraLock_def isInsideCondIntraLock_def isInSameCSSpan_def
      getCxtStmtfromInst_def cxt_stmts_same_span_def getCxtLockfromCxtStmt_def intersects_locks_def
      both_locked_def la_new_def)

lemma vf_example_spans: "spans_known vf_example g"
  by (auto simp: spans_known_def span_known_def same_span_def vf_example_def both_locked_spans split: option.splits)

lemma vf_example_protected: "protected_pair vf_example 10 12 = Some True"
  by code_simp

theorem thread_flows_witness:
  "\<exists>s A h. createSVFG vf_example (mta_svfg_new vf_small) = Some s \<and> flows_added vf_example vf_small A h \<and>
    {(1, 3), (2, 3)} \<subseteq> A \<and> (1, 2) \<notin> A \<and> ((1, 3) \<in> (obj_flow (mv_svfg s) 7)\<^sup>+ \<longleftrightarrow> (1, 3) \<in> (obj_flow h 7)\<^sup>+)"
proof -
  have f: "AddModelFlag vf_example = 2" by (simp add: vf_example_def)
  have c: "considered vf_example vf_small a b" for a b
    by (auto simp: considered_def insts_of_def vf_example_def ADDEDGE_NONSPARSE_def alias_bool_def)
  have "protected_pair vf_example 10 20 = Some False" "protected_pair vf_example 12 20 = Some False"
    by code_simp+
  then have u: "\<not> locked_pair vf_example vf_small 1 3" "\<not> locked_pair vf_example vf_small 2 3"
    using protected_pair_result [of vf_example vf_small 1 3] protected_pair_result [of vf_example vf_small 2 3]
    by (simp_all add: f ADDEDGE_NONSPARSE_def insts_of_def vf_small_def)
  have m: "must_flow vf_example vf_small 1 3" "must_flow vf_example vf_small 2 3"
    using c u by (simp_all add: must_flow_def asked_def isStore_def vf_small_def)
  have l: "locked_pair vf_example vf_small 1 2"
    using protected_pair_result [of vf_example vf_small 1 2] vf_example_protected
    by (simp add: f ADDEDGE_NONSPARSE_def insts_of_def vf_small_def)
  have "2 \<in> accesses_after (\<lambda>_. True) vf_small 1"
    by (auto simp: accesses_after_def first_stops_def targets_def vf_small_def isStore_def edge_dst_def
        isIndirectVFGEdge_def kind_code_def intro!: reach_root)
  moreover have "same_span vf_example (sv_inst vf_small 2) (sv_inst vf_small 1) = Some True" "isStore vf_small 2"
    by (simp_all add: same_span_def vf_example_def both_locked_spans vf_small_def isStore_def)
  ultimately have "\<not> span_tail vf_example vf_small 1" unfolding span_tail_def by force
  then have n: "\<not> may_flow vf_example vf_small 1 2"
    using l by (simp add: may_flow_def asked_def isStore_def vf_small_def min_def max_def)
  have p: "(1, 3) \<in> thread_pairs vf_small" "(2, 3) \<in> thread_pairs vf_small" "isLoad vf_small 3"
    by (simp_all add: thread_pairs_def store_node_def load_node_def isStore_def isLoad_def vf_small_def)
  have "\<forall>e. finite (sv_pts vf_small e)" "\<forall>p. finite (ve_getPts vf_example p)" "AddModelFlag vf_example \<noteq> ADDEDGE_NOEDGE"
    by (simp_all add: vf_small_def vf_example_def ADDEDGE_NOEDGE_def)
  from thread_flows [OF vf_graphs_ok(1) vf_example_spans this(3,1,2)] obtain s A h where
    r: "createSVFG vf_example (mta_svfg_new vf_small) = Some s" "flows_added vf_example vf_small A h"
      "{(a, b) \<in> thread_pairs vf_small. must_flow vf_example vf_small a b} \<subseteq> A"
      "A \<subseteq> {(a, b) \<in> thread_pairs vf_small. may_flow vf_example vf_small a b}"
      "\<forall>x a l. isLoad vf_small l \<longrightarrow> ((a, l) \<in> (obj_flow (mv_svfg s) x)\<^sup>+ \<longleftrightarrow> (a, l) \<in> (obj_flow h x)\<^sup>+)"
    by blast
  then show ?thesis using m n p by blast
qed

lemma vf_triangle_after: "accesses_after (\<lambda>_. True) vf_triangle 2 \<subseteq> accesses_after (\<lambda>_. True) vf_triangle 1"
proof -
  have t: "targets (\<lambda>_. True) vf_triangle 1 = {2, 3}" "targets (\<lambda>_. True) vf_triangle 2 = {3}"
    by (auto simp: targets_def vf_triangle_def isIndirectVFGEdge_def kind_code_def edge_dst_def image_iff
        ex_disj_distrib conj_disj_distribR)
  then show ?thesis unfolding accesses_after_def t
    by (intro first_stops_mono) auto
qed

theorem readPrecision_keeps_witness:
  "\<exists>t. readPrecision ((mta_svfg_new vf_triangle)\<lparr>stnodeSet := [1, 2]\<rparr>) = Some t \<and>
    (1, 2) \<notin> obj_flow (mv_svfg t) 7 \<and> (1, 3) \<in> (obj_flow (mv_svfg t) 7)\<^sup>+"
proof -
  let ?s = "(mta_svfg_new vf_triangle)\<lparr>stnodeSet := [1, 2]\<rparr>"
  have g: "mv_svfg ?s = vf_triangle" by (simp add: mta_svfg_new_def)
  have p: "\<forall>e. finite (sv_pts (mv_svfg ?s) e)" "\<forall>n\<in>set (stnodeSet ?s). isStore (mv_svfg ?s) n" "svfg_ok (mv_svfg ?s)"
    using vf_graphs_ok(2) unfolding g by (simp_all add: vf_triangle_def vf_small_def isStore_def)
  have x: "7 \<in> sv_pts vf_triangle e" for e by (simp add: vf_triangle_def vf_small_def)
  have f: "(1, 3) \<in> obj_flow vf_triangle 7" "isLoad vf_triangle 3" "isStore vf_triangle 1" "2 \<in> set (stnodeSet ?s)"
    by (auto simp: obj_flow_def vf_triangle_def vf_small_def isLoad_def isStore_def isIndirectVFGEdge_def
        kind_code_def edge_dst_def)
  show ?thesis
    using readPrecision_keeps [OF p(3,1,2)] vf_triangle_after f unfolding g by (auto simp: x)
qed

end
