(* ===== verification/Spec2Isabelle.thy ===== *)
theory Spec2Isabelle
  imports Prelude WorkList CxtStmt IR LockAnalysis LockSpan CollectCxtLock LockSpanFlow LockQuery
    Race BoundsRT SaberRT StTable StTableMap
    TCT TCTree TCTBuild TCTResult Propagation ForkJoin ForkJoinFlow ForkJoinResult JoinedThreads
    MHP MHPFlow MHPResult MHPQuery SCC SCCResult CallGraphSCC
    PCG PCGResult CallGraph CallGraphEdges CallGraphResult CallGraphQuery
    ThreadAPI Annotator ThreadVF ThreadVFResult ThreadVFRead
begin

text \<open>
  A data race detector for C programs that use POSIX threads, built on the static value-flow
  framework SVF. The development models the analyses of the detector (\<open>lib/MTA\<close>), the call graph
  and the data structures they use (\<open>include/Util\<close>, \<open>lib/Util\<close>), the two runtime libraries for instrumented programs
  (\<open>lib/RuntimeLib\<close>) and the hash tables of the decision diagram package (\<open>lib/CUDD/st.c\<close>).

  \<^bold>\<open>The program and how its parts interact.\<close> \<open>MTA::runOnModule\<close> builds the thread
  call graph and from it the thread creation tree, runs the may-happen-in-parallel analysis over it, whose constructor
  runs the fork-join analysis first, then the lock analysis, and last the pair analysis, which
  asks the three results for every pair of memory accesses and writes the races to a file. Each
  analysis is an object whose fields are changed by its handlers until a work list is empty.

  \<^bold>\<open>Theories and sources.\<close>

    \<^item> \<open>Prelude\<close>: ordered sets (\<open>std::set\<close> as the sorted list that an iteration visits), calls that
      may hit an \<open>assert\<close> (type \<open>'a option\<close>, where \<open>None\<close> is the failed assertion), loops, and the
      locales \<open>graph_walk\<close> and \<open>graph_search\<close> for searches over a graph.
    \<^item> \<open>WorkList\<close> (\<open>include/Util/WorkList.h\<close>): \<open>List\<close>, \<open>FIFOWorkList\<close>, \<open>FILOWorkList\<close>; the locales
      \<open>work_list\<close> and \<open>queue_list\<close> are the contracts on which the analyses rest.
    \<^item> \<open>CxtStmt\<close> (\<open>include/Util/CxtStmt.h\<close>): statements, threads and procedures with a calling
      context; the locale \<open>cpp_order\<close> is what an ordered container asks of a comparison.
    \<^item> \<open>IR\<close>: the record \<open>program\<close>, all that the analyses read of LLVM, of the thread call graph, of
      the thread API and of the points-to analysis, and the steps over it that several analyses share.
    \<^item> \<open>CallGraph\<close> (\<open>Util/PTACallGraph.h\<close>, \<open>PTACallGraph.cpp\<close>, \<open>ThreadCallGraph.h\<close>,
      \<open>ThreadCallGraph.cpp\<close>): the record \<open>call_graph\<close>, its nodes, edges and call site identities, how
      calls, forks and joins are added, and the queries. \<open>CallGraphEdges\<close> shows that every operation
      keeps the invariant \<open>cg_inv\<close>, which says what the graph holds for a set of calls.
      \<open>CallGraphResult\<close> says what the finished graph holds; \<open>cg_view\<close> is the graph as the fields
      of \<open>program\<close> that the analyses read, and on it the thread tree is built. \<open>CallGraphQuery\<close>
      shows what the queries answer.
    \<^item> \<open>PCG\<close> (\<open>MTA/PCG.h\<close>, \<open>PCG.cpp\<close>): the record \<open>pcg\<close> and the coarser analysis on whole
      procedures; \<open>PCGResult\<close> shows which procedures it finds to run in parallel.
    \<^item> \<open>TCT\<close> (\<open>MTA/TCT.h\<close>, \<open>TCT.cpp\<close>): the record \<open>tct\<close> and the construction and queries of the
      thread creation tree. \<open>TCTree\<close> shows what its searches over callers compute, \<open>TCTBuild\<close> the
      invariant of the construction, \<open>TCTResult\<close> that the construction ends and that the nodes are
      the threads of the program, form a tree, and carry the right flags and join loops.
    \<^item> \<open>SCC\<close> (\<open>include/Util/SCC.h\<close>): the record \<open>scc_detection\<close>, the search of the class of that name
      and its queries. \<open>SCCResult\<close> holds the invariant of the search, \<open>CallGraphSCC\<close> what the search
      computes and that the answers it gives for the call graph bound the calling contexts.
    \<^item> \<open>Propagation\<close>: the locale \<open>propagation\<close> for analyses that move sets of values along the
      control flow, where a visit may remove values; it proves that the work list empties and that
      the result lies between a lower bound (\<open>must_hold\<close>: the values that arrive along a path where
      nothing removes them) and an upper bound (\<open>may_hold\<close>).
    \<^item> \<open>ForkJoin\<close> (class \<open>ForkJoinAnalysis\<close> of \<open>MTA/MHP.h\<close>, \<open>MHP.cpp\<close>): the record \<open>fork_join\<close>, its
      handlers and its queries. \<open>ForkJoinFlow\<close> shows that a visit is one of the propagation,
      \<open>ForkJoinResult\<close> the bounds of the direct joins, of the happens-before pairs and of the full
      joins, \<open>JoinedThreads\<close> that \<open>getDirAndIndJoinedTid\<close> is a closure.
    \<^item> \<open>MHP\<close> (class \<open>MHP\<close> of the same files): the record \<open>mhp\<close>, the handlers of \<open>analyzeInterleaving\<close>,
      the threads a new thread starts to interleave with, and the queries. \<open>MHPFlow\<close> shows that a
      visit is one of the propagation, \<open>MHPResult\<close> runs it for all threads and copies the results
      to functions that are not candidates, \<open>MHPQuery\<close> gives the bounds and what the queries
      answer, with and without the cache.
    \<^item> \<open>LockAnalysis\<close>, \<open>LockSpan\<close> (\<open>MTA/LockAnalysis.h\<close>, \<open>LockAnalysis.cpp\<close>): the record
      \<open>lock_analysis\<close>, the intraprocedural traversals and the context-sensitive propagation of lock
      sets. \<open>CollectCxtLock\<close> and \<open>LockSpanFlow\<close> show what the two context-sensitive loops compute,
      \<open>LockQuery\<close> models the queries.
    \<^item> \<open>Race\<close> (\<open>MTA/MTA.cpp\<close>): the pairing loop, the race check and the text written for a race,
      with the regular expression search that takes the source locations apart.
    \<^item> \<open>ThreadAPI\<close> (\<open>Util/ThreadAPI.h\<close>, \<open>ThreadAPI.cpp\<close>): the table of the thread functions, the questions
      asked of a call site, and the counts.
    \<^item> \<open>Annotator\<close> (\<open>Util/Annotator.h\<close>, \<open>MTA/MTAAnnotator.h\<close>, \<open>MTAAnnotator.cpp\<close>): the record
      \<open>annotator\<close> and the tags written on the accesses that may race, where the default of its option writes
      none; it shows which accesses get one and that, when it is switched on, no access to shared objects that
      the race check reports is dropped. \<open>run_annotator\<close> puts the steps in their order, as no source calls them.
    \<^item> \<open>ThreadVF\<close> (\<open>MTA/FSMPTA.h\<close>, \<open>FSMPTA.cpp\<close>): the record \<open>mta_svfg\<close> and the value-flow edges
      between threads. \<open>ThreadVFResult\<close> shows what the searches around a node find and which edges are added,
      \<open>ThreadVFRead\<close> what the read precision step takes off, and holds the theorems on the whole.
    \<^item> \<open>BoundsRT\<close>, \<open>SaberRT\<close> (\<open>lib/RuntimeLib\<close>): the tables of the two runtimes as lists of the
      declared sizes, the arithmetic on 64-bit words.
    \<^item> \<open>StTable\<close> (\<open>lib/CUDD/st.c\<close>): the chained hash table with growth and with move to front; in
      \<open>StTableMap\<close> its operations refine finite maps, for any comparison and hash function that satisfy the
      locale \<open>st_keys\<close>. The counter \<open>num_entries\<close>, an \<open>int\<close> in \<open>st.h\<close>, is a natural number: only
      a table with 2^31 entries would overflow it.

  \<^bold>\<open>Loops.\<close> Loops over a list are folds or recursion over it. A loop over a work list is
  \<open>while_option\<close>, or \<open>while_run\<close> where its body may fail an assertion: a loop that never ends has
  the value \<open>None\<close>, so that each theorem that gives the result as \<open>Some\<close> says that the loop ends.
  Only the recursive \<open>scc_visit\<close> has fuel, one more than the number of nodes, which \<open>scc_find_components\<close>
  shows to be enough. The measures are multisets of ranks or lexicographic products of the values a
  node still lacks and the pending nodes.

  \<^bold>\<open>What the theorems rely on.\<close> Nothing bounds the calling contexts of a recursive program as
  such, so the hypotheses say that a program has finitely many statements in context, and where an
  analysis takes information back, that no cycle of the control flow only does that:

    \<^item> \<open>tct_ready\<close>: finitely many call sites, the fork sites have a known routine, and the call graph
      without the calls inside a cycle is acyclic (\<open>calls_ranked\<close>). \<open>scc_build\<close> shows the latter for the
      components that the detection finds.
    \<^item> \<open>fja_ready\<close>, \<open>mhp_ready\<close>: finitely many statements are reached from a fork or from the start
      of a thread, the tree has a node and the call graph an edge for the fork sites among them, functions
      that are not candidates are met at their entry only, no join site is the front of an exit of its
      loop, and a rank decreases along each step between statements where threads are removed (join sites and the exits of
      join loops). That the assertions on these nodes and edges hold is thus a hypothesis; the theorems on
      the analyses add that no other assertion fails.
    \<^item> \<open>span_ready\<close>: the same for the lock analysis, with a rank along steps between acquires, and every
      acquire that is reached is one of the collected context-sensitive locks, as \<open>hasCxtLock\<close> asserts.
    \<^item> The identity of a call (\<open>call_site_id\<close>) is asked only for the pairs on an edge of the call graph, where
      \<open>edge_ids\<close> shows that the assertion of \<open>getCallSiteID\<close> holds.
    \<^item> \<open>module_ok\<close>, \<open>in_module\<close>: an instruction belongs to the function that lists it.
    \<^item> \<open>tcg_ok\<close>: the same, with called functions in the module, an indirect call without a known callee, and no
      parallel loops; \<open>forks_fixed\<close>, \<open>joins_local\<close>, \<open>has_entry\<close>: one routine for each fork, loops
      around a join in the function of the join, and a function that nothing calls.
    \<^item> \<open>pcg_ok\<close>: finitely many functions and blocks, and functions without a body call nothing.
    \<^item> \<open>anno_ready\<close>: finitely many objects are reached from the arguments of forks and from globals, and
      pointers are not void.
    \<^item> \<open>svfg_ok\<close>: the edge sets of the value-flow graph agree at both ends; \<open>spans_known\<close>: the span query
      fails no assertion for accesses that a lock protects.

  Each is shown for a concrete program in the witnesses; \<open>nested_fork\<close> in \<open>TCTResult\<close> has a main
  thread, a thread that forks another one in a loop, and a join.

  \<^bold>\<open>Orders that the source leaves to addresses.\<close> Instructions, functions and loops are numbers; an
  iteration over a set of pointers is in the order of the numbers. The order of the hash map of tree nodes
  is the argument \<open>ids\<close> of the analyses, of which the theorems ask that it lists every node once.

  \<^bold>\<open>Not modelled.\<close> LLVM, the points-to analysis and the sparse value-flow graph within a thread are
  fields of the records \<open>program\<close>, \<open>cg_env\<close>, \<open>api_env\<close>, \<open>anno_env\<close> and \<open>svfg\<close>. Their sources under
  \<open>lib/MemoryModel\<close>, \<open>lib/WPA\<close>, \<open>lib/MSSA\<close> and \<open>lib/Util\<close> walk over LLVM objects.
  Also left out are the leak checkers and the demand-driven analyses (\<open>lib/SABER\<close>, \<open>lib/DDA\<close>), which the
  race detection does not use; the detector of \<open>lib/RC\<close>, which the build leaves out, and the rewriting of
  LLVM code (\<open>lib/Instrumentation\<close>); the algorithms on decision diagrams (\<open>lib/CUDD\<close> besides \<open>st.c\<close>);
  printing, timing, statistics and the validators of annotated test programs; \<open>MTA::detect\<close>, which
  counts instructions.
\<close>

section \<open>The race report\<close>

definition nested_env :: "tct \<Rightarrow> mhp \<Rightarrow> race_env" where
  "nested_env t s = \<lparr>re_prog = nested_fork, re_locks = la_new,
     re_mhp = (\<lambda>i j. map_option fst (mayHappenInParallel nested_fork t i j s) = Some True),
     re_pts = (\<lambda>_. [\<lparr>isGlobalObj = True, isStaticObj = False, isHeap = False\<rparr>]),
     re_debug = \<lparr>di_kind = (\<lambda>_. OtherKind), di_declare = (\<lambda>_. None), di_loc = (\<lambda>_. None)\<rparr>\<rparr>"

lemma nested_fork_accesses: "access_set nested_fork = [10, 20, 30]"
  by code_simp

lemma nested_env_race:
  assumes "re_mhp (nested_env t s) 30 30"
  shows "races (nested_env t s) 30 30"
proof -
  have P: "re_prog (nested_env t s) = nested_fork" "re_locks (nested_env t s) = la_new" by (simp_all add: nested_env_def)
  have "isProtectedByCommonLock nested_fork la_new 30 30 = Some False" by code_simp
  moreover have "pta_alias nested_fork (pointer_operand nested_fork 30) (pointer_operand nested_fork 30) = MustAlias"
    by (simp add: nested_fork_def)
  moreover have "is_store nested_fork 30" by (simp add: nested_fork_def)
  ultimately show ?thesis using hasDataRace_iff [of "nested_env t s" 30 30] assms unfolding races_def P by auto
qed

text \<open>C10: The races that the tool reports, with the answers of the interleaving analysis and of the
  lock analysis put in: the pair analysis fails no assertion, and the two instructions of every pair
  it reports access pointers that may alias, are not protected by a common lock, and are reached
  by threads that may run at the same time.\<close>

theorem reported_races_meet:
  assumes "tct_ready (re_prog E) rt rk" and "build (re_prog E) = Some (Some t)" and "fja_ready (re_prog E) t ri"
    and "distinct ids" and "set ids = {..<length (tctNodes t)}"
    and "analyzeForkJoinPair (re_prog E) t ids fj_new = Some (Some f)" and "mhp_ready (re_prog E) t f rm"
    and "module_ok (re_prog E)" and "\<forall>i\<in>set (access_set (re_prog E)). in_module (re_prog E) i"
    and "and_then (MHP_new (re_prog E) t ids) (analyzeInterleaving (re_prog E) t ids) = Some (Some s)"
    and "re_mhp E = (\<lambda>i j. map_option fst (mayHappenInParallel (re_prog E) t i j s) = Some True)"
  shows "\<exists>ps. pair_loop E (access_set (re_prog E)) = Some ps \<and> (\<forall>p\<in>set ps.
    pta_alias (re_prog E) (pointer_operand (re_prog E) (inst1 p)) (pointer_operand (re_prog E) (inst2 p)) \<noteq> NoAlias \<and>
    isProtectedByCommonLock (re_prog E) (re_locks E) (inst1 p) (inst2 p) = Some False \<and>
    meets (re_prog E) t (mhp_may (re_prog E) t f) (inst1 p) (inst2 p))"
proof -
  let ?P = "re_prog E"
  obtain s' where "and_then (MHP_new ?P t ids) (analyzeInterleaving ?P t ids) = Some (Some s')" "mhp_final ?P t f s'"
    using analysis_final [OF assms(1-8)] by blast
  then have F: "mhp_final ?P t f s" using assms(10) by simp
  obtain ps where ps: "pair_loop E (access_set ?P) = Some ps" "map (\<lambda>p. (inst1 p, inst2 p)) ps = reported E (access_set ?P)"
    using pair_loop_reported by blast
  have "pta_alias ?P (pointer_operand ?P (inst1 p)) (pointer_operand ?P (inst2 p)) \<noteq> NoAlias \<and>
    isProtectedByCommonLock ?P (re_locks E) (inst1 p) (inst2 p) = Some False \<and> meets ?P t (mhp_may ?P t f) (inst1 p) (inst2 p)"
    if "p \<in> set ps" for p
  proof -
    have "(inst1 p, inst2 p) \<in> set (map (\<lambda>p. (inst1 p, inst2 p)) ps)" using \<open>p \<in> set ps\<close> by simp
    then have "(inst1 p, inst2 p) \<in> set (reported E (access_set ?P))" unfolding ps(2) .
    then have i: "inst1 p \<in> set (access_set ?P)" "inst2 p \<in> set (access_set ?P)" "races E (inst1 p) (inst2 p)"
      unfolding reported_set by auto
    have acc: "is_store ?P (inst1 p) \<or> is_load ?P (inst1 p)" "is_store ?P (inst2 p) \<or> is_load ?P (inst2 p)"
      using i(1,2) access_set_props [of ?P] by blast+
    note r = hasDataRace_iff [OF acc]
    have q: "re_mhp E (inst1 p) (inst2 p)" "isProtectedByCommonLock ?P (re_locks E) (inst1 p) (inst2 p) = Some False"
      "pta_alias ?P (pointer_operand ?P (inst1 p)) (pointer_operand ?P (inst2 p)) \<noteq> NoAlias"
      using r i(3) unfolding races_def by auto
    have m: "in_module ?P (inst1 p)" "in_module ?P (inst2 p)" using assms(9) i(1,2) by blast+
    have "inst_parallel t s (inst1 p) (inst2 p)" using q(1) mayHappenInParallel_run [OF F m] unfolding assms(11) by auto
    then show ?thesis using q(2,3) inst_parallel_meets(1) [OF F] by blast
  qed
  then show ?thesis using ps(1) by blast
qed

theorem reported_races_meet_witness:
  "\<exists>t f s ps p. build nested_fork = Some (Some t) \<and> analyzeForkJoinPair nested_fork t [0, 1, 2, 3] fj_new = Some (Some f) \<and>
     pair_loop (nested_env t s) (access_set nested_fork) = Some ps \<and> p \<in> set ps \<and> inst1 p = 30 \<and> inst2 p = 30 \<and>
     meets nested_fork t (mhp_may nested_fork t f) 30 30"
proof (rule nested_fork_mhp)
  fix t f assume t: "build nested_fork = Some (Some t)" "length (tctNodes t) = 4" "fja_ready nested_fork t (\<lambda>_. 0)"
    and f: "analyzeForkJoinPair nested_fork t [0, 1, 2, 3] fj_new = Some (Some f)" "mhp_ready nested_fork t f (\<lambda>_. 0)"
  have i: "set [0, 1, 2, 3] = {..<length (tctNodes t)}" unfolding t(2) by (rule upto_4)
  obtain s where s: "and_then (MHP_new nested_fork t [0, 1, 2, 3]) (analyzeInterleaving nested_fork t [0, 1, 2, 3]) = Some (Some s)"
    "mhp_final nested_fork t f s" using analysis_final [OF nested_fork_ready t(1,3) _ i f nested_fork_module] by auto
  let ?E = "nested_env t s"
  have P: "re_prog ?E = nested_fork" by (simp add: nested_env_def)
  have q: "re_mhp ?E = (\<lambda>i j. map_option fst (mayHappenInParallel (re_prog ?E) t i j s) = Some True)" by (simp add: nested_env_def)
  have m: "\<forall>i\<in>set (access_set nested_fork). in_module nested_fork i"
    unfolding nested_fork_accesses by (simp add: in_module_def nested_fork_def empty_program_def)
  obtain ps where ps: "pair_loop ?E (access_set nested_fork) = Some ps"
    "\<forall>p\<in>set ps. meets nested_fork t (mhp_may nested_fork t f) (inst1 p) (inst2 p)"
    using reported_races_meet [of ?E, unfolded P, OF nested_fork_ready t(1,3) _ i f nested_fork_module m s(1) q [unfolded P]] by auto
  have m30: "in_module nested_fork 30" using m unfolding nested_fork_accesses by simp
  have "inst_parallel t s 30 30" using inst_parallel_meets(2) [OF s(2) nested_meets [OF t(1)]] .
  then have "map_option fst (mayHappenInParallel nested_fork t 30 30 s) = Some True"
    using mayHappenInParallel_run [OF s(2) m30 m30] by auto
  then have "re_mhp ?E 30 30" unfolding q P .
  then have "races ?E 30 30" using nested_env_race by blast
  moreover have "isShared ?E 20" by (simp add: nested_env_def nested_fork_def isShared_def isShared_val_def)
  ultimately have "(30, 30) \<in> set (reported ?E (access_set nested_fork))"
    unfolding reported_set nested_fork_accesses by (intro CollectI exI [of _ 1] exI [of _ 2]) simp
  moreover obtain ps' where "pair_loop ?E (access_set nested_fork) = Some ps'"
    "map (\<lambda>p. (inst1 p, inst2 p)) ps' = reported ?E (access_set nested_fork)" using pair_loop_reported by blast
  ultimately have "(30, 30) \<in> set (map (\<lambda>p. (inst1 p, inst2 p)) ps)" using ps(1) by simp
  then obtain p where "p \<in> set ps" "inst1 p = 30" "inst2 p = 30" by auto
  then show ?thesis using t(1) f(1) ps by metis
qed

end
